(* ===== verification/Craze_Prelude.thy ===== *)
theory Craze_Prelude
  imports Main "HOL-Library.Sublist" "HOL-Library.Char_ord"
begin

text \<open>
  What the components of the development share.

  \<^item> The renderings of numbers the code mints identifiers with (Go's \<open>strconv.FormatUint\<close> and
    the \<open>%d\<close> verb): \<open>dec\<close>, with the lemma that it is injective.
  \<^item> The slice operations of Go's standard library the code uses (\<open>slices.IndexFunc\<close>,
    \<open>slices.Insert\<close>, \<open>slices.Delete\<close>, a half-open slice expression): \<open>index_where\<close>,
    \<open>insert_at\<close>, \<open>delete_at\<close>, \<open>slice\<close>.
  \<^item> The generic lemmas about them, collected in \<open>slice_simps\<close>.

  Strings are lists of bytes (\<open>char\<close>), as Go's strings are: \<open>length\<close> is Go's \<open>len\<close>.
\<close>

named_theorems slice_simps \<open>slices: lengths, elements and combinations\<close>

section \<open>Decimal numbers\<close>

definition digit_char :: "nat \<Rightarrow> char" where
  "digit_char d = char_of (48 + d)"

fun dec :: "nat \<Rightarrow> string" where
  "dec n = (if n < 10 then [digit_char n] else dec (n div 10) @ [digit_char (n mod 10)])"

declare dec.simps [simp del]

lemma dec_eval:
  "dec 0 = ''0''"
  "dec (Suc 0) = ''1''"
  "dec 2 = ''2''"
  "dec 3 = ''3''"
  "dec 4 = ''4''"
  "dec 5 = ''5''"
  "dec 6 = ''6''"
  "dec 7 = ''7''"
  "dec 8 = ''8''"
  "dec 9 = ''9''"
  "dec (Suc (Suc 0)) = ''2''"
  "dec (Suc (Suc (Suc 0))) = ''3''"
  "dec (Suc (Suc (Suc (Suc 0)))) = ''4''"
  by code_simp+

definition undec :: "string \<Rightarrow> nat" where
  "undec s = foldl (\<lambda>a c. 10 * a + (of_char c - 48)) 0 s"

section \<open>Slices\<close>

text \<open>\<open>slices.IndexFunc\<close>: the first index whose element satisfies \<open>p\<close>; the code's \<open>-1\<close> is
  \<open>None\<close>.\<close>

fun index_where :: "('a \<Rightarrow> bool) \<Rightarrow> 'a list \<Rightarrow> nat option" where
  "index_where p [] = None"
| "index_where p (x # xs) = (if p x then Some 0 else map_option Suc (index_where p xs))"

definition insert_at :: "nat \<Rightarrow> 'a \<Rightarrow> 'a list \<Rightarrow> 'a list" where
  "insert_at i x xs = take i xs @ x # drop i xs"

definition delete_at :: "nat \<Rightarrow> 'a list \<Rightarrow> 'a list" where
  "delete_at i xs = take i xs @ drop (Suc i) xs"

text \<open>Go's \<open>xs[i:j]\<close>.\<close>

definition slice :: "nat \<Rightarrow> nat \<Rightarrow> 'a list \<Rightarrow> 'a list" where
  "slice i j xs = take (j - i) (drop i xs)"

section \<open>Lemmas\<close>

lemma of_char_digit: "d < 10 \<Longrightarrow> of_char (digit_char d) = 48 + d"
  by (simp add: digit_char_def)

lemma undec_snoc: "undec (s @ [c]) = 10 * undec s + (of_char c - 48)"
  by (simp add: undec_def)

lemma undec_dec [simp]: "undec (dec n) = n"
proof (induction n rule: dec.induct)
  case (1 n)
  show ?case
  proof (cases "n < 10")
    case True
    then show ?thesis by (subst dec.simps) (simp add: undec_def of_char_digit)
  next
    case False
    with 1 have "undec (dec (n div 10)) = n div 10" by simp
    moreover have "of_char (digit_char (n mod 10)) = 48 + n mod 10"
      by (simp add: of_char_digit)
    ultimately show ?thesis using False by (subst dec.simps) (simp add: undec_snoc)
  qed
qed

lemma dec_inject [simp]: "dec m = dec n \<longleftrightarrow> m = n"
  by (metis undec_dec)

lemma dec_nonempty [simp]: "dec n \<noteq> []"
  by (subst dec.simps) simp

lemma index_where_None: "index_where p xs = None \<longleftrightarrow> (\<forall>x \<in> set xs. \<not> p x)"
  by (induction xs) auto

lemma index_where_SomeD:
  "index_where p xs = Some i \<Longrightarrow> i < length xs \<and> p (xs ! i) \<and> (\<forall>j < i. \<not> p (xs ! j))"
proof (induction xs arbitrary: i)
  case Nil
  then show ?case by simp
next
  case (Cons x xs)
  show ?case
  proof (cases "p x")
    case True
    with Cons.prems show ?thesis by simp
  next
    case False
    with Cons.prems obtain k where "index_where p xs = Some k" and i: "i = Suc k"
      by auto
    from Cons.IH [OF this(1)] False show ?thesis
      by (auto simp: i nth_Cons split: nat.splits)
  qed
qed

lemma length_insert_at [slice_simps]: "i \<le> length xs \<Longrightarrow> length (insert_at i x xs) = Suc (length xs)"
  by (simp add: insert_at_def)

lemma set_insert_at [slice_simps]: "set (insert_at i x xs) = insert x (set xs)"
  by (simp add: insert_at_def) (metis append_take_drop_id set_append)

lemma insert_at_0 [slice_simps]: "insert_at 0 x xs = x # xs"
  by (simp add: insert_at_def)

lemma insert_at_length [slice_simps]: "insert_at (length xs) x xs = xs @ [x]"
  by (simp add: insert_at_def)

lemma delete_at_0 [slice_simps]: "delete_at 0 (x # xs) = xs"
  by (simp add: delete_at_def)

lemma delete_at_Suc [slice_simps]: "delete_at (Suc i) (x # xs) = x # delete_at i xs"
  by (simp add: delete_at_def)

lemma length_delete_at [slice_simps]: "i < length xs \<Longrightarrow> length (delete_at i xs) = length xs - 1"
  by (simp add: delete_at_def)

lemma set_delete_at_subset: "set (delete_at i xs) \<subseteq> set xs"
  by (auto simp: delete_at_def dest: in_set_takeD in_set_dropD)

lemma map_delete_at [slice_simps]: "map f (delete_at i xs) = delete_at i (map f xs)"
  by (simp add: delete_at_def take_map drop_map)

lemma map_insert_at [slice_simps]: "map f (insert_at i x xs) = insert_at i (f x) (map f xs)"
  by (simp add: insert_at_def take_map drop_map)

lemma delete_at_distinct: "distinct xs \<Longrightarrow> distinct (delete_at i xs)"
  by (auto simp: delete_at_def set_take_disj_set_drop_if_distinct)

lemma delete_at_remove1:
  "index_where p xs = Some i \<Longrightarrow> delete_at i xs = remove1 (xs ! i) xs"
proof (induction xs arbitrary: i)
  case Nil
  then show ?case by simp
next
  case (Cons x xs)
  show ?case
  proof (cases "p x")
    case True
    with Cons.prems show ?thesis by (simp add: slice_simps)
  next
    case False
    with Cons.prems obtain k where k: "index_where p xs = Some k" and i: "i = Suc k"
      by auto
    from index_where_SomeD [OF k] have "p (xs ! k)" by blast
    with False have "x \<noteq> xs ! k" by blast
    with Cons.IH [OF k] show ?thesis by (simp add: i slice_simps)
  qed
qed

lemma slice_0 [slice_simps]: "slice 0 j xs = take j xs"
  by (simp add: slice_def)

lemma length_slice [slice_simps]: "j \<le> length xs \<Longrightarrow> length (slice i j xs) = j - i"
  by (simp add: slice_def)

lemma slice_empty [slice_simps]: "slice i i xs = []"
  by (simp add: slice_def)

lemma slice_append_slice [slice_simps]:
  "i \<le> j \<Longrightarrow> j \<le> k \<Longrightarrow> slice i j xs @ slice j k xs = slice i k xs"
proof -
  assume "i \<le> j" "j \<le> k"
  then obtain a b where "j = i + a" "k = j + b" by (auto simp: le_iff_add)
  then show ?thesis by (simp add: slice_def take_add drop_drop add.commute)
qed

end
