(* ===== verification/Event_Source.thy ===== *)
theory Event_Source
  imports Craze_Prelude
begin

text \<open>
  The contract every event-authoring component of craze keeps with the clients that fold its
  stream: an operation changes the state and returns the events that describe the change, and a
  client that applies exactly those events, in order, to what it showed before shows the new
  state. \<open>run_ops\<close> runs a sequence of operations and concatenates their events; the locale
  \<open>op_invariant\<close> is the contract of an operation that keeps an invariant, \<open>event_source\<close> extends it by
  the contract above; each is stated for one operation and lifted to every sequence. They are
  interpreted on the message queue (\<open>Prompt_Queue\<close>), on the engine's critical sections
  (\<open>Engine_Client\<close>, \<open>Engine_Exit\<close>, \<open>Engine_Laws\<close>), on the steps of the event log (\<open>Event_Log\<close>) and on
  the ask registry (\<open>Asks_Inv\<close>, \<open>Asks_Laws\<close>).
\<close>

fun run_ops :: "('op \<Rightarrow> 's \<Rightarrow> 's \<times> 'ev list) \<Rightarrow> 'op list \<Rightarrow> 's \<Rightarrow> 's \<times> 'ev list" where
  "run_ops step [] s = (s, [])"
| "run_ops step (op # ops) s =
     (let (s1, es1) = step op s; (s2, es2) = run_ops step ops s1 in (s2, es1 @ es2))"

fun ops_ok :: "('op \<Rightarrow> 's \<Rightarrow> 's \<times> 'ev list) \<Rightarrow> ('op \<Rightarrow> 's \<Rightarrow> bool) \<Rightarrow> 'op list \<Rightarrow> 's \<Rightarrow> bool" where
  "ops_ok step ok [] s \<longleftrightarrow> True"
| "ops_ok step ok (op # ops) s \<longleftrightarrow> ok op s \<and> ops_ok step ok ops (fst (step op s))"

definition fold_events :: "('ev \<Rightarrow> 'v \<Rightarrow> 'v) \<Rightarrow> 'ev list \<Rightarrow> 'v \<Rightarrow> 'v" where
  "fold_events f es v = foldl (\<lambda>v e. f e v) v es"

lemma fold_events_simps [simp]:
  "fold_events f [] v = v"
  "fold_events f (e # es) v = fold_events f es (f e v)"
  by (simp_all add: fold_events_def)

lemma fold_events_append [simp]:
  "fold_events f (es @ es') v = fold_events f es' (fold_events f es v)"
  by (simp add: fold_events_def)

text \<open>Operations that keep an invariant, where each is used as its caller promises (\<open>ok\<close>).\<close>

locale op_invariant =
  fixes step :: "'op \<Rightarrow> 's \<Rightarrow> 's \<times> 'ev list"
    and ok :: "'op \<Rightarrow> 's \<Rightarrow> bool"
    and inv :: "'s \<Rightarrow> bool"
  assumes step_inv: "inv s \<Longrightarrow> ok op s \<Longrightarrow> inv (fst (step op s))"
begin

lemma run_inv: "inv s \<Longrightarrow> ops_ok step ok ops s \<Longrightarrow> inv (fst (run_ops step ops s))"
  by (induction ops arbitrary: s) (auto simp: split_beta Let_def step_inv)

end

text \<open>Operations whose events are the change they made.\<close>

locale event_source = op_invariant step ok inv
  for step :: "'op \<Rightarrow> 's \<Rightarrow> 's \<times> 'ev list"
    and ok :: "'op \<Rightarrow> 's \<Rightarrow> bool"
    and inv :: "'s \<Rightarrow> bool" +
  fixes view :: "'s \<Rightarrow> 'v"
    and apply_ev :: "'ev \<Rightarrow> 'v \<Rightarrow> 'v"
  assumes step_view: "inv s \<Longrightarrow> ok op s \<Longrightarrow>
      fold_events apply_ev (snd (step op s)) (view s) = view (fst (step op s))"
begin

lemma run_view:
  "inv s \<Longrightarrow> ops_ok step ok ops s \<Longrightarrow>
     fold_events apply_ev (snd (run_ops step ops s)) (view s) = view (fst (run_ops step ops s))"
proof (induction ops arbitrary: s)
  case Nil
  then show ?case by simp
next
  case (Cons op ops)
  then have "inv (fst (step op s))" and "ops_ok step ok ops (fst (step op s))"
    by (simp_all add: step_inv)
  from Cons.IH [OF this] Cons.prems show ?case
    by (simp add: split_beta Let_def step_view)
qed

end

end
