(* ===== verification/Prompt_Queue.thy ===== *)
theory Prompt_Queue
  imports Event_Source
begin

text \<open>
  craze's own message queue, \<open>internal/agent/queue.go\<close>, and the fold a client keeps of it,
  \<open>foldQueue\<close> of \<open>internal/transcript/fold.go\<close>.

  \<^item> \<open>queued_prompt\<close>, \<open>queue_change\<close>, \<open>queue_event\<close> and \<open>prompt_queue\<close> are the Go types
    \<open>QueuedPrompt\<close>, \<open>QueueChange\<close>, \<open>QueueEvent\<close> and \<open>PromptQueue\<close> (without its mutex: every
    method is one critical section, so it is one function from state to state).
  \<^item> \<open>pq_add\<close> to \<open>pq_len\<close> are the methods; a method that returns an error is a sum.
  \<^item> \<open>fold_queue\<close> is what a client does with one \<open>EventQueue\<close>.

  The lemmas: the ids are the queue's own, minted once and pairwise distinct (\<open>pq_inv\<close>), every
  operation keeps that, and the queue is an \<open>event_source\<close>: a client that folds the events an
  operation returned holds the queue's rows. A time is an integer (nanoseconds); \<open>Version\<close> is a
  natural number.
\<close>

section \<open>Types\<close>

record queued_prompt =
  qp_id :: string
  qp_text :: string
  qp_at :: int
  qp_version :: nat

datatype queue_change = QueueQueued | QueueEdited | QueueRemoved | QueueSent

record queue_event =
  qe_prompt :: queued_prompt
  qe_change :: queue_change
  qe_pos :: nat

record prompt_queue =
  pq_seq :: nat
  pq_items :: "queued_prompt list"

datatype queue_error = QueueFull | QueueTextTooLong | NoQueuedMessage string

definition queueCap :: nat where
  "queueCap = 32"

definition queueTextCap :: nat where
  "queueTextCap = 32 * 1024"

definition pq_empty :: prompt_queue where
  "pq_empty = \<lparr>pq_seq = 0, pq_items = []\<rparr>"

text \<open>\<open>fmt.Sprintf("q-%d", q.seq)\<close>.\<close>

definition queue_id :: "nat \<Rightarrow> string" where
  "queue_id n = ''q-'' @ dec n"

section \<open>Operations\<close>

definition pq_add ::
  "string \<Rightarrow> int \<Rightarrow> prompt_queue \<Rightarrow> queue_error + (queued_prompt \<times> queue_event \<times> prompt_queue)" where
  "pq_add text now q =
     (if length text > queueTextCap then Inl QueueTextTooLong
      else if length (pq_items q) \<ge> queueCap then Inl QueueFull
      else
        let seq = Suc (pq_seq q);
            p = \<lparr>qp_id = queue_id seq, qp_text = text, qp_at = now, qp_version = 0\<rparr>;
            items = pq_items q @ [p]
        in Inr (p, \<lparr>qe_prompt = p, qe_change = QueueQueued, qe_pos = length items - 1\<rparr>,
                q\<lparr>pq_seq := seq, pq_items := items\<rparr>))"

definition pq_push_front :: "string \<Rightarrow> int \<Rightarrow> prompt_queue \<Rightarrow> queue_event \<times> prompt_queue" where
  "pq_push_front text now q =
     (let seq = Suc (pq_seq q);
          p = \<lparr>qp_id = queue_id seq, qp_text = text, qp_at = now, qp_version = 0\<rparr>
      in (\<lparr>qe_prompt = p, qe_change = QueueQueued, qe_pos = 0\<rparr>,
          q\<lparr>pq_seq := seq, pq_items := p # pq_items q\<rparr>))"

definition pq_restore :: "queued_prompt \<Rightarrow> prompt_queue \<Rightarrow> queue_event \<times> prompt_queue" where
  "pq_restore p q =
     (\<lparr>qe_prompt = p, qe_change = QueueQueued, qe_pos = 0\<rparr>, q\<lparr>pq_items := p # pq_items q\<rparr>)"

definition pq_edit :: "string \<Rightarrow> string \<Rightarrow> prompt_queue \<Rightarrow> queue_error + (queue_event \<times> prompt_queue)" where
  "pq_edit rid text q =
     (if length text > queueTextCap then Inl QueueTextTooLong
      else case index_where (\<lambda>p. qp_id p = rid) (pq_items q) of
        None \<Rightarrow> Inl (NoQueuedMessage rid)
      | Some i \<Rightarrow>
          let p = (pq_items q ! i)\<lparr>qp_text := text, qp_version := Suc (qp_version (pq_items q ! i))\<rparr>
          in Inr (\<lparr>qe_prompt = p, qe_change = QueueEdited, qe_pos = i\<rparr>,
                  q\<lparr>pq_items := (pq_items q)[i := p]\<rparr>))"

text \<open>The unexported \<open>take\<close>, shared by \<open>Remove\<close> and \<open>Take\<close>.\<close>

definition pq_take_as ::
  "string \<Rightarrow> queue_change \<Rightarrow> prompt_queue \<Rightarrow> (queue_event \<times> prompt_queue) option" where
  "pq_take_as rid change q =
     (case index_where (\<lambda>p. qp_id p = rid) (pq_items q) of
        None \<Rightarrow> None
      | Some i \<Rightarrow>
          Some (\<lparr>qe_prompt = pq_items q ! i, qe_change = change, qe_pos = i\<rparr>,
                q\<lparr>pq_items := delete_at i (pq_items q)\<rparr>))"

definition pq_remove :: "string \<Rightarrow> prompt_queue \<Rightarrow> (queue_event \<times> prompt_queue) option" where
  "pq_remove rid q = pq_take_as rid QueueRemoved q"

definition pq_take :: "string \<Rightarrow> prompt_queue \<Rightarrow> (queue_event \<times> prompt_queue) option" where
  "pq_take rid q = pq_take_as rid QueueSent q"

definition pq_pop :: "prompt_queue \<Rightarrow> (queue_event \<times> prompt_queue) option" where
  "pq_pop q =
     (case pq_items q of
        [] \<Rightarrow> None
      | p # rest \<Rightarrow>
          Some (\<lparr>qe_prompt = p, qe_change = QueueSent, qe_pos = 0\<rparr>, q\<lparr>pq_items := rest\<rparr>))"

definition pq_clear :: "prompt_queue \<Rightarrow> queue_event list \<times> prompt_queue" where
  "pq_clear q =
     (map (\<lambda>p. \<lparr>qe_prompt = p, qe_change = QueueRemoved, qe_pos = 0\<rparr>) (pq_items q),
      q\<lparr>pq_items := []\<rparr>)"

definition pq_list :: "prompt_queue \<Rightarrow> queued_prompt list" where
  "pq_list q = pq_items q"

definition pq_len :: "prompt_queue \<Rightarrow> nat" where
  "pq_len q = length (pq_items q)"

section \<open>The client's fold\<close>

text \<open>\<open>foldQueue\<close>: the client's rows, keyed by id. (The truncated heads of a snapshot, which the
  Go function also forgets here, are not part of this model.)\<close>

definition fold_queue :: "queue_event \<Rightarrow> queued_prompt list \<Rightarrow> queued_prompt list" where
  "fold_queue ev rows =
     (let q = qe_prompt ev; i = index_where (\<lambda>p. qp_id p = qp_id q) rows in
      case qe_change ev of
        QueueQueued \<Rightarrow>
          (case i of Some k \<Rightarrow> rows[k := q]
           | None \<Rightarrow> insert_at (min (qe_pos ev) (length rows)) q rows)
      | QueueEdited \<Rightarrow> (case i of Some k \<Rightarrow> rows[k := q] | None \<Rightarrow> rows)
      | QueueRemoved \<Rightarrow> (case i of Some k \<Rightarrow> delete_at k rows | None \<Rightarrow> rows)
      | QueueSent \<Rightarrow> (case i of Some k \<Rightarrow> delete_at k rows | None \<Rightarrow> rows))"

section \<open>The operations as one transition function\<close>

datatype queue_op =
    QAdd string int
  | QPushFront string int
  | QRestore queued_prompt
  | QEdit string string
  | QRemove string
  | QTake string
  | QPop
  | QClear

fun queue_step :: "queue_op \<Rightarrow> prompt_queue \<Rightarrow> prompt_queue \<times> queue_event list" where
  "queue_step (QAdd text now) q =
     (case pq_add text now q of Inl _ \<Rightarrow> (q, []) | Inr (_, ev, q') \<Rightarrow> (q', [ev]))"
| "queue_step (QPushFront text now) q = (let (ev, q') = pq_push_front text now q in (q', [ev]))"
| "queue_step (QRestore p) q = (let (ev, q') = pq_restore p q in (q', [ev]))"
| "queue_step (QEdit rid text) q =
     (case pq_edit rid text q of Inl _ \<Rightarrow> (q, []) | Inr (ev, q') \<Rightarrow> (q', [ev]))"
| "queue_step (QRemove rid) q =
     (case pq_remove rid q of None \<Rightarrow> (q, []) | Some (ev, q') \<Rightarrow> (q', [ev]))"
| "queue_step (QTake rid) q =
     (case pq_take rid q of None \<Rightarrow> (q, []) | Some (ev, q') \<Rightarrow> (q', [ev]))"
| "queue_step QPop q = (case pq_pop q of None \<Rightarrow> (q, []) | Some (ev, q') \<Rightarrow> (q', [ev]))"
| "queue_step QClear q = (let (evs, q') = pq_clear q in (q', evs))"

text \<open>What the source asks of a caller of \<open>Restore\<close>: the row was minted by this queue and is not in
  it.\<close>

definition minted :: "prompt_queue \<Rightarrow> string \<Rightarrow> bool" where
  "minted q rid \<longleftrightarrow> rid \<in> queue_id ` {1..pq_seq q}"

fun queue_op_ok :: "queue_op \<Rightarrow> prompt_queue \<Rightarrow> bool" where
  "queue_op_ok (QRestore p) q \<longleftrightarrow> minted q (qp_id p) \<and> qp_id p \<notin> qp_id ` set (pq_items q)"
| "queue_op_ok _ q \<longleftrightarrow> True"

definition pq_inv :: "prompt_queue \<Rightarrow> bool" where
  "pq_inv q \<longleftrightarrow> distinct (map qp_id (pq_items q)) \<and> (\<forall>p \<in> set (pq_items q). minted q (qp_id p))"

section \<open>Lemmas\<close>

lemma queue_id_inject [simp]: "queue_id m = queue_id n \<longleftrightarrow> m = n"
  by (simp add: queue_id_def)

lemma fresh_queue_id: "pq_inv q \<Longrightarrow> p \<in> set (pq_items q) \<Longrightarrow> qp_id p \<noteq> queue_id (Suc (pq_seq q))"
  by (force simp: pq_inv_def minted_def)

lemma minted_mono: "minted q rid \<Longrightarrow> pq_seq q \<le> pq_seq q' \<Longrightarrow> minted q' rid"
  by (force simp: minted_def)

lemma minted_items_update [simp]: "minted (q\<lparr>pq_items := xs\<rparr>) rid = minted q rid"
  by (simp add: minted_def)

lemma minted_new [simp]: "minted (q\<lparr>pq_seq := Suc n, pq_items := xs\<rparr>) (queue_id (Suc n))"
  by (simp add: minted_def)

lemma index_where_id_unique:
  "distinct (map qp_id rows) \<Longrightarrow> i < length rows \<Longrightarrow> index_where (\<lambda>p. qp_id p = qp_id (rows ! i)) rows = Some i"
proof (induction rows arbitrary: i)
  case Nil
  then show ?case by simp
next
  case (Cons r rows)
  show ?case
  proof (cases i)
    case 0
    then show ?thesis by simp
  next
    case (Suc k)
    with Cons.prems have "k < length rows" and "qp_id r \<noteq> qp_id (rows ! k)" by force+
    with Cons Suc show ?thesis by auto
  qed
qed

lemma pq_inv_empty [simp]: "pq_inv pq_empty"
  by (simp add: pq_inv_def pq_empty_def)

lemma pq_inv_delete_at: "pq_inv q \<Longrightarrow> pq_inv (q\<lparr>pq_items := delete_at i (pq_items q)\<rparr>)"
  using set_delete_at_subset [of i "pq_items q"]
  by (auto simp: pq_inv_def map_delete_at delete_at_distinct)

lemma pq_inv_update:
  assumes "pq_inv q" and "i < length (pq_items q)" and "qp_id p = qp_id (pq_items q ! i)"
  shows "pq_inv (q\<lparr>pq_items := (pq_items q)[i := p]\<rparr>)"
proof -
  from assms(2,3) have "map qp_id ((pq_items q)[i := p]) = map qp_id (pq_items q)"
    by (simp add: map_update list_update_same_conv)
  moreover from this have "qp_id ` set ((pq_items q)[i := p]) = qp_id ` set (pq_items q)"
    by (metis list.set_map)
  ultimately show ?thesis using assms(1) by (simp add: pq_inv_def) (metis imageE image_eqI)
qed

lemma pq_inv_cons:
  "pq_inv q \<Longrightarrow> minted q (qp_id p) \<Longrightarrow> qp_id p \<notin> qp_id ` set (pq_items q) \<Longrightarrow>
     pq_inv (q\<lparr>pq_items := p # pq_items q\<rparr>)"
  by (auto simp: pq_inv_def)

lemma pq_inv_mint:
  assumes "pq_inv q" and "qp_id p = queue_id (Suc (pq_seq q))"
    and "set xs = insert p (set (pq_items q))" and "length xs = Suc (length (pq_items q))"
  shows "pq_inv (q\<lparr>pq_seq := Suc (pq_seq q), pq_items := xs\<rparr>)"
proof -
  from assms(1,2) have "qp_id p \<notin> qp_id ` set (pq_items q)" by (metis fresh_queue_id imageE)
  moreover from assms(1) have "card (qp_id ` set (pq_items q)) = length (pq_items q)"
    by (metis pq_inv_def distinct_card length_map list.set_map)
  ultimately have "card (set (map qp_id xs)) = length (map qp_id xs)"
    using assms(3,4) by simp
  then have "distinct (map qp_id xs)" by (rule card_distinct)
  moreover have "minted (q\<lparr>pq_seq := Suc (pq_seq q), pq_items := xs\<rparr>) (qp_id r)"
    if "r \<in> set xs" for r
  proof (cases "r = p")
    case True
    then show ?thesis using assms(2) by (simp add: minted_def)
  next
    case False
    with that assms(1,3) have "minted q (qp_id r)" by (simp add: pq_inv_def)
    then show ?thesis by (rule minted_mono) simp
  qed
  ultimately show ?thesis by (simp add: pq_inv_def)
qed

lemma pq_inv_add: "pq_inv q \<Longrightarrow> pq_add text now q = Inr (p, ev, q') \<Longrightarrow> pq_inv q'"
  by (auto simp: pq_add_def Let_def split: if_splits intro!: pq_inv_mint)

lemma pq_inv_push_front: "pq_inv q \<Longrightarrow> pq_push_front text now q = (ev, q') \<Longrightarrow> pq_inv q'"
  by (auto simp: pq_push_front_def Let_def intro!: pq_inv_mint)

lemma pq_inv_edit: "pq_inv q \<Longrightarrow> pq_edit rid text q = Inr (ev, q') \<Longrightarrow> pq_inv q'"
  by (auto simp: pq_edit_def Let_def split: if_splits option.splits dest!: index_where_SomeD
      intro!: pq_inv_update)

lemma pq_inv_take_as: "pq_inv q \<Longrightarrow> pq_take_as rid c q = Some (ev, q') \<Longrightarrow> pq_inv q'"
  by (auto simp: pq_take_as_def split: option.splits intro: pq_inv_delete_at)

lemma pq_inv_pop: "pq_inv q \<Longrightarrow> pq_pop q = Some (ev, q') \<Longrightarrow> pq_inv q'"
  by (auto simp: pq_pop_def pq_inv_def split: list.splits)

lemma pq_inv_clear: "pq_clear q = (evs, q') \<Longrightarrow> pq_inv q'"
  by (auto simp: pq_clear_def pq_inv_def)

lemmas pq_inv_intros =
  pq_inv_add pq_inv_push_front pq_inv_edit pq_inv_take_as pq_inv_pop pq_inv_clear

lemma queue_step_inv:
  assumes "pq_inv q" and "queue_op_ok op q"
  shows "pq_inv (fst (queue_step op q))"
  using assms
  by (cases op)
    (auto simp: pq_restore_def pq_remove_def pq_take_def intro: pq_inv_intros pq_inv_cons
      split: sum.splits option.splits prod.splits)

text \<open>The view law, one lemma per kind of event.\<close>

lemma fold_queue_new:
  "\<forall>p \<in> set rows. qp_id p \<noteq> qp_id r \<Longrightarrow>
     fold_queue \<lparr>qe_prompt = r, qe_change = QueueQueued, qe_pos = i\<rparr> rows
       = insert_at (min i (length rows)) r rows"
  using index_where_None [of "\<lambda>p. qp_id p = qp_id r" rows]
  by (auto simp: fold_queue_def Let_def split: option.splits)

lemma fold_queue_edit:
  "distinct (map qp_id rows) \<Longrightarrow> i < length rows \<Longrightarrow> qp_id r = qp_id (rows ! i) \<Longrightarrow>
     fold_queue \<lparr>qe_prompt = r, qe_change = QueueEdited, qe_pos = j\<rparr> rows = rows[i := r]"
  by (simp add: fold_queue_def index_where_id_unique)

lemma fold_queue_gone:
  "distinct (map qp_id rows) \<Longrightarrow> i < length rows \<Longrightarrow> c = QueueRemoved \<or> c = QueueSent \<Longrightarrow>
     fold_queue \<lparr>qe_prompt = rows ! i, qe_change = c, qe_pos = j\<rparr> rows = delete_at i rows"
  by (auto simp: fold_queue_def index_where_id_unique)

lemma fold_queue_head:
  "fold_queue \<lparr>qe_prompt = p, qe_change = QueueRemoved, qe_pos = j\<rparr> (p # rows) = rows"
  "fold_queue \<lparr>qe_prompt = p, qe_change = QueueSent, qe_pos = j\<rparr> (p # rows) = rows"
  by (simp_all add: fold_queue_def slice_simps)

lemma fold_queue_clear:
  "fold_events fold_queue
     (map (\<lambda>p. \<lparr>qe_prompt = p, qe_change = QueueRemoved, qe_pos = 0\<rparr>) rows) rows = []"
  by (induction rows) (simp_all add: fold_queue_head)

lemma queue_step_view:
  assumes inv: "pq_inv q" and ok: "queue_op_ok op q"
  shows "fold_events fold_queue (snd (queue_step op q)) (pq_items q) = pq_items (fst (queue_step op q))"
proof -
  have dist: "distinct (map qp_id (pq_items q))" using inv by (simp add: pq_inv_def)
  note fresh = fresh_queue_id [OF inv]
  show ?thesis
  proof (cases op)
    case (QAdd t now)
    with fresh show ?thesis
      by (auto simp: pq_add_def Let_def fold_queue_new slice_simps)
  next
    case (QPushFront t now)
    with fresh show ?thesis
      by (auto simp: pq_push_front_def Let_def fold_queue_new slice_simps)
  next
    case (QRestore p)
    with ok have "\<forall>r \<in> set (pq_items q). qp_id r \<noteq> qp_id p" by (force simp: image_iff)
    with QRestore show ?thesis
      by (auto simp: pq_restore_def fold_queue_new slice_simps)
  next
    case (QEdit rid t)
    with dist show ?thesis
      by (auto simp: pq_edit_def Let_def fold_queue_edit split: option.splits dest!: index_where_SomeD)
  next
    case (QRemove rid)
    with dist show ?thesis
      by (auto simp: pq_remove_def pq_take_as_def fold_queue_gone split: option.splits dest!: index_where_SomeD)
  next
    case (QTake rid)
    with dist show ?thesis
      by (auto simp: pq_take_def pq_take_as_def fold_queue_gone split: option.splits dest!: index_where_SomeD)
  next
    case QPop
    then show ?thesis by (auto simp: pq_pop_def fold_queue_head split: list.splits)
  next
    case QClear
    then show ?thesis by (simp add: pq_clear_def fold_queue_clear)
  qed
qed

interpretation pq_source: event_source queue_step queue_op_ok pq_inv pq_items fold_queue
  by unfold_locales (simp_all add: queue_step_inv queue_step_view)

section \<open>Properties\<close>

lemma queue_step_length:
  "length (pq_items (fst (queue_step op q))) \<le>
     max (length (pq_items q)) queueCap +
       (case op of QPushFront _ _ \<Rightarrow> Suc 0 | QRestore _ \<Rightarrow> Suc 0 | _ \<Rightarrow> 0)"
  by (cases op)
    (auto simp: pq_add_def pq_push_front_def pq_restore_def pq_edit_def pq_remove_def pq_take_def
      pq_take_as_def pq_pop_def pq_clear_def Let_def delete_at_def split: option.splits list.splits)

lemmas queue_eval =
  pq_empty_def pq_add_def pq_push_front_def pq_restore_def pq_edit_def pq_remove_def pq_take_def
  pq_take_as_def pq_pop_def pq_clear_def pq_list_def queueCap_def queueTextCap_def queue_id_def
  dec_eval Let_def slice_simps

definition uncapped_ops :: "queue_op list \<Rightarrow> nat" where
  "uncapped_ops ops =
     length (filter (\<lambda>op. case op of QPushFront _ _ \<Rightarrow> True | QRestore _ \<Rightarrow> True | _ \<Rightarrow> False) ops)"

lemma uncapped_ops_Cons:
  "uncapped_ops (op # ops) =
     (case op of QPushFront _ _ \<Rightarrow> Suc 0 | QRestore _ \<Rightarrow> Suc 0 | _ \<Rightarrow> 0) + uncapped_ops ops"
  by (cases op) (simp_all add: uncapped_ops_def)

lemma run_queue_length:
  "length (pq_items (fst (run_ops queue_step ops q))) \<le>
     max (length (pq_items q)) queueCap + uncapped_ops ops"
proof (induction ops arbitrary: q)
  case Nil
  then show ?case by simp
next
  case (Cons op ops)
  from Cons.IH [of "fst (queue_step op q)"] queue_step_length [of op q] show ?case
    by (simp add: split_beta Let_def uncapped_ops_Cons)
qed

text \<open>C36. The queue's events are the queue: starting from the empty queue and whatever sequence of
  operations ran (a restore only of a row that left), a client that folds all their events over no
  rows shows exactly the rows \<open>List\<close> returns, in send order, and their ids are distinct.\<close>

theorem queue_fold_is_queue:
  assumes "ops_ok queue_step queue_op_ok ops pq_empty"
  shows "fold_events fold_queue (snd (run_ops queue_step ops pq_empty)) [] =
           pq_list (fst (run_ops queue_step ops pq_empty)) \<and>
         distinct (map qp_id (pq_list (fst (run_ops queue_step ops pq_empty))))"
  using pq_source.run_view [OF pq_inv_empty assms] pq_source.run_inv [OF pq_inv_empty assms]
  by (simp add: pq_inv_def pq_list_def pq_empty_def)

theorem queue_fold_is_queue_witness:
  "let ops = [QAdd ''a'' 1, QAdd ''b'' 2, QEdit ''q-2'' ''c'', QPop, QPushFront ''d'' 3,
              QRestore \<lparr>qp_id = ''q-1'', qp_text = ''a'', qp_at = 1, qp_version = 0\<rparr>, QRemove ''q-9''];
       r = run_ops queue_step ops pq_empty
   in map qp_text (pq_list (fst r)) = [''a'', ''d'', ''c''] \<and>
      fold_events fold_queue (snd r) [] = pq_list (fst r)"
proof -
  let ?ops = "[QAdd ''a'' 1, QAdd ''b'' 2, QEdit ''q-2'' ''c'', QPop, QPushFront ''d'' 3,
              QRestore \<lparr>qp_id = ''q-1'', qp_text = ''a'', qp_at = 1, qp_version = 0\<rparr>, QRemove ''q-9'']"
  have ok: "ops_ok queue_step queue_op_ok ?ops pq_empty"
    using imageI [of "Suc 0" "{Suc 0..Suc (Suc (Suc 0))}" queue_id] by (simp add: queue_eval minted_def)
  have "map qp_text (pq_list (fst (run_ops queue_step ?ops pq_empty))) = [''a'', ''d'', ''c'']"
    by (simp add: queue_eval)
  with queue_fold_is_queue [OF ok] show ?thesis by (simp only: Let_def)
qed

text \<open>Only the two operations that put text back (\<open>PushFront\<close>, \<open>Restore\<close>) can take the queue over
  its cap, one row each: after any operations the queue holds at most \<open>queueCap\<close> rows and one for
  every such operation.\<close>

theorem queue_stays_within_its_cap:
  "pq_len (fst (run_ops queue_step ops pq_empty)) \<le> queueCap + uncapped_ops ops"
  using run_queue_length [of ops pq_empty] by (simp add: pq_len_def pq_empty_def)

end
