(* ===== verification/Redact.thy ===== *)
theory Redact
  imports Craze_Prelude "HOL-Library.Product_Lexorder" "HOL-Library.List_Lexorder"
begin

text \<open>
  The credential redactor, \<open>internal/harness/redact/redact.go\<close>: a \<open>Replacer\<close> over a fixed set of
  keys and the streaming \<open>Writer\<close> around it.

  \<^item> \<open>replacer\<close> is the struct: the keys longest first, their index by first byte, the longest
    length. A \<open>*Replacer\<close>, which may be nil, is a \<open>replacer option\<close>.
  \<^item> \<open>match_at\<close>, \<open>scan\<close>, \<open>held\<close> are the unexported methods, \<open>rp_string\<close>, \<open>rp_head\<close>,
    \<open>rp_union\<close>, \<open>rp_covers\<close> the others. \<open>scan\<close> is \<open>scan_with\<close> over the replacer's
    \<open>match_at\<close>, so that what the streaming argument needs of a matcher is an interface.
  \<^item> \<open>redact_writer\<close> with \<open>w_write\<close>, \<open>w_close\<close>, \<open>w_widen\<close> is the \<open>Writer\<close>. The underlying
    \<open>io.Writer\<close> is a parameter: a function from a byte string and its state to its error, if
    any, and its next state.

  The interface \<open>stream_matcher\<close> states what makes the held-back tail enough; inside it the writer
  is proved to produce what one pass over the whole text produces, however the text was split. It
  is interpreted on \<open>match_at\<close> and \<open>held\<close> of every replacer that \<open>New\<close> builds.
\<close>

section \<open>The replacer\<close>

definition Marker :: string where
  "Marker = ''[craze:redacted-credential]''"

definition marker_overlaps :: "string \<Rightarrow> bool" where
  "marker_overlaps key =
     (if key = [] then False
      else if sublist key Marker \<or> sublist Marker key then True
      else list_ex (\<lambda>i. prefix (drop i Marker) key \<or> suffix (take i Marker) key) [1..<length Marker])"

record replacer =
  by_first :: "char \<Rightarrow> string list"
  rk_keys :: "string list"
  rk_longest :: nat

text \<open>\<open>keyOrder\<close>: longest first, then bytewise.\<close>

definition key_rank :: "string \<Rightarrow> int \<times> string" where
  "key_rank k = (- int (length k), k)"

text \<open>\<open>New\<close>: drop the empty keys, sort, compact, index by first byte.\<close>

definition new_replacer :: "string list \<Rightarrow> replacer" where
  "new_replacer keys =
     (let ks = remdups_adj (sort_key key_rank (filter (\<lambda>k. k \<noteq> []) keys)) in
      \<lparr>by_first = (\<lambda>c. filter (\<lambda>k. hd k = c) ks),
       rk_keys = ks,
       rk_longest = (case ks of [] \<Rightarrow> 0 | k # _ \<Rightarrow> length k)\<rparr>)"

definition rp_empty :: "replacer option \<Rightarrow> bool" where
  "rp_empty p = (case p of None \<Rightarrow> True | Some r \<Rightarrow> rk_keys r = [])"

definition rp_covers :: "replacer option \<Rightarrow> replacer option \<Rightarrow> bool" where
  "rp_covers p q =
     (case q of
        None \<Rightarrow> True
      | Some o' \<Rightarrow>
          if rk_keys o' = [] then True
          else (case p of
                  None \<Rightarrow> False
                | Some r \<Rightarrow> rk_keys r \<noteq> [] \<and> list_all (\<lambda>k. k \<in> set (rk_keys r)) (rk_keys o')))"

definition keys_of :: "replacer option \<Rightarrow> string list" where
  "keys_of p = (case p of None \<Rightarrow> [] | Some r \<Rightarrow> rk_keys r)"

text \<open>\<open>Union\<close>. (In its last case neither is nil: a nil one is covered by the other.)\<close>

definition rp_union :: "replacer option \<Rightarrow> replacer option \<Rightarrow> replacer option" where
  "rp_union p q =
     (if p \<noteq> None \<and> rp_covers p q then p
      else if rp_covers q p then q
      else Some (new_replacer (keys_of p @ keys_of q)))"

text \<open>\<open>matchAt\<close>: the length of the longest key the text starts with, or 0. The code only calls it on
  a non-empty text.\<close>

definition match_at :: "replacer \<Rightarrow> string \<Rightarrow> nat" where
  "match_at r s =
     (case s of
        [] \<Rightarrow> 0
      | c # _ \<Rightarrow>
          (case find (\<lambda>k. length s \<ge> length k \<and> take (length k) s = k) (by_first r c) of
             Some k \<Rightarrow> length k
           | None \<Rightarrow> 0))"

text \<open>One round of \<open>scan\<close>'s loop, over its variables \<open>dst\<close>, \<open>run\<close> and \<open>emitted\<close>.\<close>

definition scan_step ::
  "(string \<Rightarrow> nat) \<Rightarrow> string \<Rightarrow> nat \<Rightarrow> nat \<Rightarrow> string \<times> nat \<times> nat \<Rightarrow> string \<times> nat \<times> nat" where
  "scan_step m src end' i = (\<lambda>(dst, run, emitted).
     let n = m (drop i src) in
     if n = 0 then (dst, run, emitted)
     else
       let dst = (if i \<ge> run then dst @ slice emitted i src @ Marker else dst);
           run = max run (i + n)
       in (dst, run, min run end'))"

definition scan_with ::
  "(string \<Rightarrow> nat) \<Rightarrow> string \<Rightarrow> string \<Rightarrow> nat \<Rightarrow> nat \<Rightarrow> string \<times> nat" where
  "scan_with m dst src end' run =
     (let (dst, run, emitted) = fold (scan_step m src end') [0..<end'] (dst, run, min run end')
      in (dst @ slice emitted end' src, run - end'))"

definition scan :: "replacer \<Rightarrow> string \<Rightarrow> string \<Rightarrow> nat \<Rightarrow> nat \<Rightarrow> string \<times> nat" where
  "scan r = scan_with (match_at r)"

text \<open>\<open>held\<close>: the longest tail, shorter than the longest key, that is a proper prefix of a key. The
  loop counts down from \<open>n\<close>.\<close>

fun held_from :: "replacer \<Rightarrow> string \<Rightarrow> nat \<Rightarrow> nat" where
  "held_from r buf 0 = 0"
| "held_from r buf (Suc n) =
     (let tail = drop (length buf - Suc n) buf in
      if list_ex (\<lambda>k. length k > Suc n \<and> take (Suc n) k = tail) (by_first r (hd tail)) then Suc n
      else held_from r buf n)"

definition held :: "replacer \<Rightarrow> string \<Rightarrow> nat" where
  "held r buf = held_from r buf (min (length buf) (rk_longest r - 1))"

definition rp_string :: "replacer option \<Rightarrow> string \<Rightarrow> string" where
  "rp_string p s =
     (case p of
        None \<Rightarrow> s
      | Some r \<Rightarrow>
          if rp_empty p \<or> \<not> list_ex (\<lambda>k. sublist k s) (rk_keys r) then s
          else fst (scan r [] s (length s) 0))"

definition rp_head :: "replacer option \<Rightarrow> string \<Rightarrow> string" where
  "rp_head p s =
     (case p of
        None \<Rightarrow> s
      | Some r \<Rightarrow>
          if rp_empty p then s
          else fst (scan r [] s (length s - held r s) 0))"

section \<open>The writer\<close>

datatype 'e redact_error = ErrClosed | Underlying 'e

record ('w, 'e) redact_writer =
  rw_r :: "replacer option"
  rw_w :: 'w
  rw_buf :: string
  rw_run :: nat
  rw_err :: "'e option"
  rw_closed :: bool

definition new_writer :: "replacer option \<Rightarrow> 'w \<Rightarrow> ('w, 'e) redact_writer" where
  "new_writer p w =
     \<lparr>rw_r = p, rw_w = w, rw_buf = [], rw_run = 0, rw_err = None, rw_closed = False\<rparr>"

definition w_put ::
  "(string \<Rightarrow> 'w \<Rightarrow> 'e option \<times> 'w) \<Rightarrow> string \<Rightarrow> ('w, 'e) redact_writer
     \<Rightarrow> 'e option \<times> ('w, 'e) redact_writer" where
  "w_put uw b w =
     (case uw b (rw_w w) of
        (None, w') \<Rightarrow> (None, w\<lparr>rw_w := w'\<rparr>)
      | (Some e, w') \<Rightarrow> (Some e, w\<lparr>rw_w := w', rw_err := Some e\<rparr>))"

text \<open>\<open>emit\<close>. It is only called with a replacer that holds keys, never a nil one, but a widened
  or closing writer may hold any, so the nil case scans with no key.\<close>

definition scan_ptr :: "replacer option \<Rightarrow> string \<Rightarrow> nat \<Rightarrow> nat \<Rightarrow> string \<times> nat" where
  "scan_ptr p src end' run =
     (case p of None \<Rightarrow> scan_with (\<lambda>_. 0) [] src end' run | Some r \<Rightarrow> scan r [] src end' run)"

definition w_emit ::
  "(string \<Rightarrow> 'w \<Rightarrow> 'e option \<times> 'w) \<Rightarrow> nat \<Rightarrow> ('w, 'e) redact_writer
     \<Rightarrow> 'e option \<times> ('w, 'e) redact_writer" where
  "w_emit uw end' w =
     (let (out, run) = scan_ptr (rw_r w) (rw_buf w) end' (rw_run w);
          w = w\<lparr>rw_run := run, rw_buf := drop end' (rw_buf w)\<rparr>
      in if out = [] then (None, w) else w_put uw out w)"

definition held_ptr :: "replacer option \<Rightarrow> string \<Rightarrow> nat" where
  "held_ptr p buf = (case p of None \<Rightarrow> 0 | Some r \<Rightarrow> held r buf)"

definition w_write ::
  "(string \<Rightarrow> 'w \<Rightarrow> 'e option \<times> 'w) \<Rightarrow> string \<Rightarrow> ('w, 'e) redact_writer
     \<Rightarrow> nat \<times> 'e redact_error option \<times> ('w, 'e) redact_writer" where
  "w_write uw p w =
     (case rw_err w of
        Some e \<Rightarrow> (0, Some (Underlying e), w)
      | None \<Rightarrow>
          if rw_closed w then (0, Some ErrClosed, w)
          else if rp_empty (rw_r w) then
            (case w_put uw p w of
               (Some e, w) \<Rightarrow> (0, Some (Underlying e), w)
             | (None, w) \<Rightarrow> (length p, None, w))
          else
            let w = w\<lparr>rw_buf := rw_buf w @ p\<rparr>;
                end' = length (rw_buf w) - held_ptr (rw_r w) (rw_buf w)
            in if end' = 0 then (length p, None, w)
               else (case w_emit uw end' w of
                       (Some e, w) \<Rightarrow> (0, Some (Underlying e), w)
                     | (None, w) \<Rightarrow> (length p, None, w)))"

definition w_widen :: "replacer option \<Rightarrow> ('w, 'e) redact_writer \<Rightarrow> ('w, 'e) redact_writer" where
  "w_widen p w = w\<lparr>rw_r := rp_union (rw_r w) p\<rparr>"

definition w_close ::
  "(string \<Rightarrow> 'w \<Rightarrow> 'e option \<times> 'w) \<Rightarrow> ('w, 'e) redact_writer
     \<Rightarrow> 'e option \<times> ('w, 'e) redact_writer" where
  "w_close uw w =
     (if rw_closed w \<or> rw_err w \<noteq> None then (rw_err w, w)
      else
        let w = w\<lparr>rw_closed := True\<rparr>
        in if rw_buf w = [] then (None, w) else w_emit uw (length (rw_buf w)) w)"

text \<open>A run of writes, dropping their results.\<close>

fun w_writes ::
  "(string \<Rightarrow> 'w \<Rightarrow> 'e option \<times> 'w) \<Rightarrow> string list \<Rightarrow> ('w, 'e) redact_writer
     \<Rightarrow> ('w, 'e) redact_writer" where
  "w_writes uw [] w = w"
| "w_writes uw (p # ps) w = w_writes uw ps (snd (snd (w_write uw p w)))"

text \<open>The underlying writer that keeps every byte and never fails (a \<open>bytes.Buffer\<close>).\<close>

definition buffer_write :: "string \<Rightarrow> string \<Rightarrow> unit option \<times> string" where
  "buffer_write b w = (None, w @ b)"

section \<open>The reference: one pass with the whole text at hand\<close>

text \<open>\<open>redact_ref m s c\<close>: \<open>c\<close> is how many of the next bytes a run begun earlier still covers.\<close>

fun redact_ref :: "(string \<Rightarrow> nat) \<Rightarrow> string \<Rightarrow> nat \<Rightarrow> string" where
  "redact_ref m [] c = []"
| "redact_ref m (x # xs) c =
     (let n = m (x # xs) in
      if n = 0 then (if c = 0 then x # redact_ref m xs 0 else redact_ref m xs (c - 1))
      else (if c = 0 then Marker else []) @ redact_ref m xs (max c n - 1))"

text \<open>The same over the first \<open>e\<close> positions only, with the cover that is left.\<close>

fun redact_prefix :: "(string \<Rightarrow> nat) \<Rightarrow> nat \<Rightarrow> string \<Rightarrow> nat \<Rightarrow> string \<times> nat" where
  "redact_prefix m 0 s c = ([], c)"
| "redact_prefix m (Suc e) [] c = ([], c - Suc e)"
| "redact_prefix m (Suc e) (x # xs) c =
     (let n = m (x # xs);
          (out, c') = redact_prefix m e xs ((if n = 0 then c else max c n) - 1)
      in (if c > 0 then (out, c') else if n = 0 then (x # out, c') else (Marker @ out, c')))"

text \<open>The declarative account: a byte outside every occurrence of a key is kept, each maximal run
  of overlapping occurrences is one marker.\<close>

definition occurs_at :: "string list \<Rightarrow> string \<Rightarrow> nat \<Rightarrow> string \<Rightarrow> bool" where
  "occurs_at keys s i k \<longleftrightarrow> k \<in> set keys \<and> k \<noteq> [] \<and> prefix k (drop i s)"

definition reached_from :: "string list \<Rightarrow> string \<Rightarrow> nat \<Rightarrow> nat \<Rightarrow> bool" where
  "reached_from keys s i p \<longleftrightarrow> (\<exists>k. occurs_at keys s i k \<and> p < i + length k)"

definition redact_spec :: "string list \<Rightarrow> string \<Rightarrow> string" where
  "redact_spec keys s =
     concat (map (\<lambda>p.
       if \<exists>i < p. reached_from keys s i p then []
       else if reached_from keys s p p then Marker
       else [s ! p]) [0..<length s])"

section \<open>The scan is the reference pass\<close>

lemma redact_prefix_add:
  "redact_prefix m (a + b) s c =
     (let (o1, c1) = redact_prefix m a s c; (o2, c2) = redact_prefix m b (drop a s) c1 in (o1 @ o2, c2))"
proof (induction m a s c rule: redact_prefix.induct)
  case (1 m s c)
  then show ?case by (simp add: split_beta)
next
  case (2 m e c)
  have "redact_prefix m b [] d = ([], d - b)" for d by (cases b) simp_all
  then show ?case by simp
next
  case (3 m e x xs c)
  then show ?case
    by (cases "m (x # xs) = 0"; cases "c = 0") (simp_all add: Let_def split_beta)
qed

lemma redact_prefix_ref: "redact_ref m s c = fst (redact_prefix m (length s) s c)"
  by (induction m s c rule: redact_ref.induct) (auto simp: Let_def split_beta)

lemma redact_prefix_one:
  "i < length s \<Longrightarrow> redact_prefix m (Suc 0) (drop i s) c =
     (if c > 0 then [] else if m (drop i s) = 0 then [s ! i] else Marker,
      (if m (drop i s) = 0 then c else max c (m (drop i s))) - 1)"
  by (simp add: Cons_nth_drop_Suc [symmetric] Let_def)

lemma scan_fold:
  assumes "i \<le> end'" and "end' \<le> length src"
  shows "\<exists>dst' run'. fold (scan_step m src end') [0..<i] (dst, run, min run end') = (dst', run', min run' end') \<and>
     dst' @ slice (min run' end') i src = dst @ fst (redact_prefix m i src run) \<and>
     run' - i = snd (redact_prefix m i src run)"
  using assms(1)
proof (induction i)
  case 0
  then show ?case by (simp add: slice_def)
next
  case (Suc i)
  then obtain dst' run' where
    IH: "fold (scan_step m src end') [0..<i] (dst, run, min run end') = (dst', run', min run' end')"
      "dst' @ slice (min run' end') i src = dst @ fst (redact_prefix m i src run)"
      "run' - i = snd (redact_prefix m i src run)"
    by auto
  let ?n = "m (drop i src)"
  have i: "i < end'" "i < length src" using Suc.prems assms(2) by simp_all
  have step: "redact_prefix m (Suc i) src run =
      (let (o1, c1) = redact_prefix m i src run; (o2, c2) = redact_prefix m (Suc 0) (drop i src) c1
       in (o1 @ o2, c2))"
    using redact_prefix_add [of m i "Suc 0" src run] by simp
  have snoc: "slice a (Suc i) src = slice a i src @ [src ! i]" if "a \<le> i" for a
    using that i(2) by (simp add: slice_def Suc_diff_le take_Suc_conv_app_nth)
  have none: "slice a (Suc i) src = []" "slice a i src = []" if "i < a" for a
    using that by (simp_all add: slice_def)
  show ?case
  proof (cases "?n = 0")
    case True
    with IH have st: "fold (scan_step m src end') [0..<Suc i] (dst, run, min run end') = (dst', run', min run' end')"
      by (simp add: scan_step_def Let_def)
    show ?thesis
    proof (cases "run' \<le> i")
      case True
      with \<open>?n = 0\<close> IH i show ?thesis unfolding st step
        by (simp add: redact_prefix_one split_beta snoc min_def)
    next
      case False
      with \<open>?n = 0\<close> IH i show ?thesis unfolding st step
        by (auto simp: redact_prefix_one split_beta none min_def split: if_splits)
    qed
  next
    case False
    show ?thesis
    proof (cases "run' \<le> i")
      case True
      let ?d = "dst' @ slice (min run' end') i src @ Marker"
      from False True IH i have st: "fold (scan_step m src end') [0..<Suc i] (dst, run, min run end')
          = (?d, i + ?n, min (i + ?n) end')"
        by (simp add: scan_step_def Let_def max_def)
      have "slice (min (i + ?n) end') (Suc i) src = []"
        using False i by (simp add: slice_def)
      with False True IH i show ?thesis unfolding st step
        by (simp add: redact_prefix_one split_beta)
    next
      case nocov: False
      from False nocov IH i have st: "fold (scan_step m src end') [0..<Suc i] (dst, run, min run end')
          = (dst', max run' (i + ?n), min (max run' (i + ?n)) end')"
        by (simp add: scan_step_def Let_def)
      have "slice (min (max run' (i + ?n)) end') (Suc i) src = []" "slice (min run' end') i src = []"
        using False nocov i by (auto simp: slice_def)
      with False nocov IH i show ?thesis unfolding st step
        by (auto simp: redact_prefix_one split_beta)
    qed
  qed
qed

lemma scan_with_prefix:
  assumes "end' \<le> length src"
  shows "scan_with m dst src end' run =
     (dst @ fst (redact_prefix m end' src run), snd (redact_prefix m end' src run))"
  using scan_fold [OF order_refl assms, of m dst run] unfolding scan_with_def by auto

section \<open>The interface of a matcher, and the writer over it\<close>

text \<open>\<open>m\<close> is the length matched at the start of a text, \<open>h\<close> how much of the end of a buffer is held
  back: what comes later cannot change a match that starts before the held tail.\<close>

locale stream_matcher =
  fixes m :: "string \<Rightarrow> nat" and h :: "string \<Rightarrow> nat"
  assumes held_le: "h buf \<le> length buf"
    and decided: "i < length buf - h buf \<Longrightarrow> m (drop i buf @ rest) = m (drop i buf)"
begin

lemma prefix_decided:
  "(\<And>i. i < e \<Longrightarrow> m (drop i buf @ rest) = m (drop i buf)) \<Longrightarrow> e \<le> length buf \<Longrightarrow>
     redact_prefix m e (buf @ rest) c = redact_prefix m e buf c"
proof (induction e arbitrary: buf c)
  case 0
  then show ?case by simp
next
  case (Suc e)
  then obtain x xs where buf: "buf = x # xs" by (cases buf) auto
  have "m (drop i xs @ rest) = m (drop i xs)" if "i < e" for i
    using Suc.prems(1) [of "Suc i"] that buf by simp
  with Suc.IH Suc.prems(2) buf have "redact_prefix m e (xs @ rest) d = redact_prefix m e xs d" for d
    by simp
  with Suc.prems(1) [of 0] buf show ?case by (simp add: Let_def)
qed

lemma ref_split:
  assumes "(o1, c1) = redact_prefix m (length buf - h buf) buf c"
  shows "redact_ref m (buf @ rest) c = o1 @ redact_ref m (drop (length buf - h buf) buf @ rest) c1"
proof -
  let ?e = "length buf - h buf"
  have pre: "redact_prefix m ?e (buf @ rest) c = (o1, c1)"
    using prefix_decided [of ?e buf rest c] decided assms by simp
  have len: "length (buf @ rest) = ?e + (length (buf @ rest) - ?e)" by simp
  show ?thesis
    unfolding redact_prefix_ref
    by (subst len, subst redact_prefix_add) (simp add: pre split_beta)
qed

lemma ref_end: "redact_ref m buf c = fst (redact_prefix m (length buf) buf c)"
  by (rule redact_prefix_ref)

end

section \<open>What a replacer of New matches\<close>

lemma keys_new: "set (rk_keys (new_replacer ks)) = {k \<in> set ks. k \<noteq> []}"
  by (auto simp: new_replacer_def Let_def)

lemma by_first_new: "by_first (new_replacer ks) c = filter (\<lambda>k. hd k = c) (rk_keys (new_replacer ks))"
  by (simp add: new_replacer_def Let_def)

lemma keys_new_sorted: "sorted (map key_rank (rk_keys (new_replacer ks)))"
proof -
  have "sorted (map key_rank (remdups_adj xs))" if "sorted (map key_rank xs)" for xs
    using that by (induction xs rule: remdups_adj.induct) auto
  then show ?thesis by (simp add: new_replacer_def Let_def)
qed

lemma key_le_longest: "k \<in> set (rk_keys (new_replacer ks)) \<Longrightarrow> length k \<le> rk_longest (new_replacer ks)"
proof -
  assume k: "k \<in> set (rk_keys (new_replacer ks))"
  then obtain x xs where s: "rk_keys (new_replacer ks) = x # xs" by (cases "rk_keys (new_replacer ks)") auto
  with k keys_new_sorted [of ks] have "key_rank x \<le> key_rank k" by auto
  then have "length k \<le> length x" by (auto simp: key_rank_def)
  with s show ?thesis by (simp add: new_replacer_def Let_def)
qed

lemma find_sorted_least:
  fixes f :: "'a \<Rightarrow> 'b::linorder"
  shows "sorted (map f xs) \<Longrightarrow> find p xs = Some x \<Longrightarrow> y \<in> set xs \<Longrightarrow> p y \<Longrightarrow> f x \<le> f y"
  by (induction xs) (auto split: if_splits)

lemma occurs_first:
  "occurs_at ks (c # t) 0 k \<longleftrightarrow>
     k \<in> set (by_first (new_replacer ks) c) \<and> length k \<le> length (c # t) \<and> take (length k) (c # t) = k"
proof -
  have "prefix k (c # t) \<longleftrightarrow> length k \<le> length (c # t) \<and> take (length k) (c # t) = k"
    by (metis prefix_length_le prefix_def append_eq_conv_conj take_is_prefix)
  then show ?thesis
    by (cases k) (auto simp: occurs_at_def by_first_new keys_new)
qed

lemma match_at_occurs:
  assumes "match_at (new_replacer ks) s > 0"
  shows "\<exists>k. occurs_at ks s 0 k \<and> length k = match_at (new_replacer ks) s"
proof (cases s)
  case Nil
  with assms show ?thesis by (simp add: match_at_def)
next
  case (Cons c t)
  let ?p = "\<lambda>k. length s \<ge> length k \<and> take (length k) s = k"
  from assms Cons obtain k where f: "find ?p (by_first (new_replacer ks) c) = Some k"
    by (auto simp: match_at_def split: option.splits)
  then have "k \<in> set (by_first (new_replacer ks) c) \<and> ?p k"
    unfolding find_Some_iff by (elim exE conjE) (simp only: nth_mem simp_thms)
  then have "occurs_at ks s 0 k" using Cons occurs_first [of ks c t k] by simp
  with f Cons show ?thesis by (auto simp: match_at_def)
qed

lemma match_at_longest:
  assumes "occurs_at ks s 0 k" shows "length k \<le> match_at (new_replacer ks) s"
proof (cases s)
  case Nil
  with assms show ?thesis by (simp add: occurs_at_def)
next
  case (Cons c t)
  let ?p = "\<lambda>k. length s \<ge> length k \<and> take (length k) s = k"
  let ?B = "by_first (new_replacer ks) c"
  have k: "k \<in> set ?B" "?p k" using assms Cons occurs_first [of ks c t k] by auto
  then obtain x where x: "find ?p ?B = Some x" by (cases "find ?p ?B") (auto simp: find_None_iff)
  have "sorted (map key_rank ?B)" using keys_new_sorted by (simp add: by_first_new sorted_filter)
  then have "key_rank x \<le> key_rank k" using x k by (rule find_sorted_least)
  then have "length k \<le> length x" by (auto simp: key_rank_def)
  with x Cons show ?thesis by (simp add: match_at_def)
qed

lemma match_at_gt:
  "p < match_at (new_replacer ks) s \<longleftrightarrow> (\<exists>k. occurs_at ks s 0 k \<and> p < length k)"
  using match_at_occurs match_at_longest by (metis gr_implies_not0 less_le_trans neq0_conv)

lemma match_at_zero: "match_at (new_replacer ks) s = 0 \<longleftrightarrow> (\<forall>k. \<not> occurs_at ks s 0 k)"
proof -
  have "occurs_at ks s 0 k \<Longrightarrow> 0 < length k" for k by (simp add: occurs_at_def)
  then show ?thesis using match_at_gt [of 0 ks s] by auto
qed

lemma held_from_le: "held_from r buf n \<le> n"
  by (induction n) (auto simp: Let_def)

lemma held_from_ge:
  "a \<le> n \<Longrightarrow> 0 < a \<Longrightarrow> k \<in> set (by_first r (hd (drop (length buf - a) buf))) \<Longrightarrow> length k > a \<Longrightarrow>
     take a k = drop (length buf - a) buf \<Longrightarrow> a \<le> held_from r buf n"
proof (induction n)
  case 0
  then show ?case by simp
next
  case (Suc n)
  show ?case
  proof (cases "a = Suc n")
    case True
    with Suc.prems show ?thesis by (auto simp: Let_def list_ex_iff)
  next
    case False
    with Suc have "a \<le> held_from r buf n" by simp
    with Suc.prems False show ?thesis by (auto simp: Let_def)
  qed
qed

lemma held_lt_longest: "held r buf \<le> rk_longest r - 1"
  using held_from_le [of r buf "min (length buf) (rk_longest r - 1)"] by (simp add: held_def)

lemma held_decided:
  assumes i: "i < length buf - held (new_replacer ks) buf"
  shows "match_at (new_replacer ks) (drop i buf @ rest) = match_at (new_replacer ks) (drop i buf)"
proof -
  let ?r = "new_replacer ks"
  let ?s = "drop i buf"
  obtain c t where s: "?s = c # t" using i by (cases "?s") auto
  have short: "length k \<le> length ?s" if occ: "occurs_at ks (?s @ rest) 0 k" for k
  proof (rule ccontr)
    assume long: "\<not> length k \<le> length ?s"
    from occ s have kB: "k \<in> set (by_first ?r c)" and pre: "take (length k) (?s @ rest) = k"
      using occurs_first [of ks c "t @ rest" k] by auto
    have "take (length ?s) k = take (length ?s) (take (length k) (?s @ rest))" by (simp only: pre)
    then have "take (length ?s) k = ?s" using long by (simp add: min_def)
    moreover have "length k \<le> rk_longest ?r" using kB by (simp add: by_first_new key_le_longest)
    moreover have idx: "length buf - length ?s = i" "0 < length ?s" using i by simp_all
    moreover have "length ?s \<le> length buf" by simp
    ultimately have "length ?s \<le> held ?r buf"
      unfolding held_def using kB long s
      by (intro held_from_ge [of _ _ k]) (simp_all only: idx list.sel)
    with i show False by simp
  qed
  have "occurs_at ks (?s @ rest) 0 k \<longleftrightarrow> occurs_at ks ?s 0 k" for k
    using short [of k] by (auto simp: occurs_at_def prefix_append)
  then have "p < match_at ?r (?s @ rest) \<longleftrightarrow> p < match_at ?r ?s" for p
    by (simp add: match_at_gt)
  then show ?thesis by (metis linorder_neqE_nat less_irrefl)
qed

interpretation nr: stream_matcher "match_at (new_replacer ks)" "held (new_replacer ks)" for ks
proof
  show "held (new_replacer ks) buf \<le> length buf" for buf
    using held_from_le [of "new_replacer ks" buf "min (length buf) (rk_longest (new_replacer ks) - 1)"]
    by (simp add: held_def)
qed (rule held_decided)

section \<open>Union\<close>

lemma inj_key_rank: "key_rank a = key_rank b \<longleftrightarrow> a = b"
  by (auto simp: key_rank_def)

lemma keys_new_strict: "sorted_wrt (<) (map key_rank (rk_keys (new_replacer ks)))"
proof -
  have "sorted_wrt (<) (map key_rank (remdups_adj xs))" if "sorted (map key_rank xs)" for xs
    using that by (induction xs rule: remdups_adj.induct) (auto simp: order_le_less inj_key_rank)
  then show ?thesis by (simp add: new_replacer_def Let_def)
qed

lemma keys_new_cong:
  assumes "{k \<in> set ks. k \<noteq> []} = {k \<in> set ls. k \<noteq> []}"
  shows "new_replacer ks = new_replacer ls"
proof -
  have "set (map key_rank (rk_keys (new_replacer ks))) = set (map key_rank (rk_keys (new_replacer ls)))"
    using assms by (simp add: keys_new)
  then have "map key_rank (rk_keys (new_replacer ks)) = map key_rank (rk_keys (new_replacer ls))"
    by (intro strict_sorted_equal keys_new_strict) simp
  then have "rk_keys (new_replacer ks) = rk_keys (new_replacer ls)"
    by (rule map_injective) (simp add: inj_def inj_key_rank)
  then show ?thesis by (simp add: new_replacer_def Let_def)
qed

lemma keys_new_Nil: "rk_keys (new_replacer ks) = [] \<longleftrightarrow> {k \<in> set ks. k \<noteq> []} = {}"
  by (simp flip: keys_new)

lemma covers_new:
  "rp_covers (Some (new_replacer ks)) (Some (new_replacer ls)) \<longleftrightarrow>
     {k \<in> set ls. k \<noteq> []} \<subseteq> {k \<in> set ks. k \<noteq> []}"
  unfolding rp_covers_def by (auto simp: keys_new keys_new_Nil list_all_iff)

lemma union_new:
  "rp_union (Some (new_replacer ks)) (Some (new_replacer ls)) = Some (new_replacer (ks @ ls))"
proof -
  let ?K = "{k \<in> set ks. k \<noteq> []}" and ?L = "{k \<in> set ls. k \<noteq> []}"
  have "new_replacer ks = new_replacer (ks @ ls)" if "?L \<subseteq> ?K"
    using that by (intro keys_new_cong) auto
  moreover have "new_replacer ls = new_replacer (ks @ ls)" if "?K \<subseteq> ?L"
    using that by (intro keys_new_cong) auto
  moreover have "new_replacer (rk_keys (new_replacer ks) @ rk_keys (new_replacer ls)) = new_replacer (ks @ ls)"
    by (intro keys_new_cong) (auto simp: keys_new)
  ultimately show ?thesis by (simp add: rp_union_def covers_new keys_of_def)
qed

section \<open>The writer produces the reference pass\<close>

abbreviation new_match :: "string list \<Rightarrow> string \<Rightarrow> nat" where
  "new_match ks \<equiv> match_at (new_replacer ks)"

lemma redact_ref_none:
  "(\<And>i. i < length s \<Longrightarrow> m (drop i s) = 0) \<Longrightarrow> redact_ref m s 0 = s"
proof (induction s)
  case Nil
  then show ?case by simp
next
  case (Cons x xs)
  have "m (drop i xs) = 0" if "i < length xs" for i
    using Cons.prems [of "Suc i"] that by simp
  with Cons.IH Cons.prems [of 0] show ?case by (simp add: Let_def)
qed

lemma occurs_drop: "occurs_at ks (drop i s) 0 k \<longleftrightarrow> occurs_at ks s i k"
  by (simp add: occurs_at_def)

lemma sublist_occurs: "k \<in> set ks \<Longrightarrow> k \<noteq> [] \<Longrightarrow> sublist k s \<Longrightarrow> \<exists>i < length s. occurs_at ks s i k"
proof -
  assume "k \<in> set ks" "k \<noteq> []" "sublist k s"
  then obtain a b where "s = a @ k @ b" by (auto simp: sublist_def)
  with \<open>k \<in> set ks\<close> \<open>k \<noteq> []\<close> have "length a < length s \<and> occurs_at ks s (length a) k"
    by (simp add: occurs_at_def)
  then show ?thesis by blast
qed

lemma occurs_sublist: "occurs_at ks s i k \<Longrightarrow> sublist k s"
  unfolding occurs_at_def sublist_def prefix_def by (metis append_take_drop_id)

lemma rp_string_ref: "rp_string (Some (new_replacer ks)) s = redact_ref (new_match ks) s 0"
proof (cases "list_ex (\<lambda>k. sublist k s) (rk_keys (new_replacer ks))")
  case True
  then have "rk_keys (new_replacer ks) \<noteq> []" by auto
  with True show ?thesis
    by (simp add: rp_string_def rp_empty_def scan_def scan_with_prefix redact_prefix_ref)
next
  case False
  then have "new_match ks (drop i s) = 0" for i
    by (auto simp: match_at_zero occurs_drop list_ex_iff keys_new)
      (metis occurs_sublist occurs_at_def)
  then have "redact_ref (new_match ks) s 0 = s" by (intro redact_ref_none)
  with False show ?thesis by (simp add: rp_string_def)
qed

definition writer_ok :: "string list \<Rightarrow> (string, unit) redact_writer \<Rightarrow> bool" where
  "writer_ok ks w \<longleftrightarrow>
     rw_r w = Some (new_replacer ks) \<and> rw_err w = None \<and> \<not> rw_closed w \<and>
     (rp_empty (rw_r w) \<longrightarrow> rw_buf w = [] \<and> rw_run w = 0)"

lemma writer_ok_new: "writer_ok ks (new_writer (Some (new_replacer ks)) w)"
  by (simp add: writer_ok_def new_writer_def)

lemma writer_ok_widen:
  "writer_ok ks w \<Longrightarrow> writer_ok (ks @ ls) (w_widen (Some (new_replacer ls)) w)"
  by (auto simp: writer_ok_def w_widen_def union_new rp_empty_def keys_new_Nil)

lemma scan_ptr_new:
  "end' \<le> length src \<Longrightarrow>
     scan_ptr (Some (new_replacer ks)) src end' run = redact_prefix (new_match ks) end' src run"
  by (simp add: scan_ptr_def scan_def scan_with_prefix)

lemma emit_buffer:
  assumes "rw_r w = Some (new_replacer ks)" and "end' \<le> length (rw_buf w)"
    and "redact_prefix (new_match ks) end' (rw_buf w) (rw_run w) = (out, run)"
  shows "w_emit buffer_write end' w =
    (None, w\<lparr>rw_run := run, rw_buf := drop end' (rw_buf w), rw_w := rw_w w @ out\<rparr>)"
  using assms by (simp add: w_emit_def scan_ptr_new w_put_def buffer_write_def Let_def)

lemma write_step:
  assumes ok: "writer_ok ks w"
  shows "\<exists>w'. w_write buffer_write p w = (length p, None, w') \<and> writer_ok ks w' \<and>
    (\<forall>rest. rw_w w' @ redact_ref (new_match ks) (rw_buf w' @ rest) (rw_run w') =
            rw_w w @ redact_ref (new_match ks) (rw_buf w @ p @ rest) (rw_run w))"
proof (cases "rp_empty (rw_r w)")
  case True
  with ok have none: "new_match ks t = 0" for t
    by (auto simp: writer_ok_def rp_empty_def match_at_zero occurs_at_def keys_new_Nil)
  have "redact_ref (new_match ks) (p @ rest) 0 = p @ redact_ref (new_match ks) rest 0" for rest
    by (induction p) (simp_all add: Let_def none)
  with True ok show ?thesis
    by (auto simp: w_write_def writer_ok_def w_put_def buffer_write_def)
next
  case False
  let ?buf = "rw_buf w @ p"
  let ?e = "length ?buf - held (new_replacer ks) ?buf"
  obtain out run where pre: "redact_prefix (new_match ks) ?e ?buf (rw_run w) = (out, run)"
    by (cases "redact_prefix (new_match ks) ?e ?buf (rw_run w)") auto
  let ?w = "w\<lparr>rw_buf := ?buf\<rparr>"
  let ?w' = "?w\<lparr>rw_run := run, rw_buf := drop ?e ?buf, rw_w := rw_w w @ out\<rparr>"
  have split: "redact_ref (new_match ks) (?buf @ rest) (rw_run w) =
      out @ redact_ref (new_match ks) (drop ?e ?buf @ rest) run" for rest
    using nr.ref_split pre by metis
  have r: "rw_r w = Some (new_replacer ks)" "rw_err w = None" "\<not> rw_closed w"
    using ok by (simp_all add: writer_ok_def)
  show ?thesis
  proof (cases "?e = 0")
    case True
    with pre have "out = []" "run = rw_run w" by simp_all
    with True False r show ?thesis
      by (auto simp: w_write_def held_ptr_def writer_ok_def Let_def)
  next
    case pos: False
    have "w_emit buffer_write ?e ?w = (None, ?w')"
      using emit_buffer [of ?w ks ?e out run] r pre by simp
    with pos False r have "w_write buffer_write p w = (length p, None, ?w')"
      by (simp add: w_write_def held_ptr_def Let_def)
    moreover have "writer_ok ks ?w'" using r False by (simp add: writer_ok_def)
    ultimately show ?thesis using split by auto
  qed
qed

lemma writes_run:
  assumes "writer_ok ks w"
  shows "writer_ok ks (w_writes buffer_write ps w) \<and>
    (\<forall>rest. rw_w (w_writes buffer_write ps w) @
        redact_ref (new_match ks) (rw_buf (w_writes buffer_write ps w) @ rest) (rw_run (w_writes buffer_write ps w))
      = rw_w w @ redact_ref (new_match ks) (rw_buf w @ concat ps @ rest) (rw_run w))"
  using assms
proof (induction ps arbitrary: w)
  case Nil
  then show ?case by simp
next
  case (Cons p ps)
  from write_step [OF Cons.prems, of p] obtain w' where
    w': "w_write buffer_write p w = (length p, None, w')" "writer_ok ks w'"
      "\<And>rest. rw_w w' @ redact_ref (new_match ks) (rw_buf w' @ rest) (rw_run w') =
            rw_w w @ redact_ref (new_match ks) (rw_buf w @ p @ rest) (rw_run w)"
    by auto
  from Cons.IH [OF w'(2)] w' show ?case by simp
qed

lemma close_run:
  assumes "writer_ok ks w"
  shows "rw_w (snd (w_close buffer_write w)) = rw_w w @ redact_ref (new_match ks) (rw_buf w) (rw_run w)"
proof (cases "rw_buf w = []")
  case True
  with assms show ?thesis by (simp add: w_close_def writer_ok_def)
next
  case False
  let ?w = "w\<lparr>rw_closed := True\<rparr>"
  obtain out run where
    pre: "redact_prefix (new_match ks) (length (rw_buf w)) (rw_buf w) (rw_run w) = (out, run)"
    by (cases "redact_prefix (new_match ks) (length (rw_buf w)) (rw_buf w) (rw_run w)") auto
  from emit_buffer [of ?w ks "length (rw_buf w)" out run] assms pre False
  show ?thesis by (simp add: w_close_def writer_ok_def redact_prefix_ref)
qed

section \<open>No key survives\<close>

lemma Marker_ne: "Marker \<noteq> []"
  by (simp add: Marker_def)

lemma no_overlapD:
  assumes "\<not> marker_overlaps k" and "k \<noteq> []"
  shows "\<not> sublist k Marker" and "\<not> sublist Marker k"
    and "1 \<le> i \<Longrightarrow> i < length Marker \<Longrightarrow> \<not> prefix (drop i Marker) k \<and> \<not> suffix (take i Marker) k"
proof -
  have "\<not> sublist k Marker \<and> \<not> sublist Marker k \<and>
      (\<forall>i. 1 \<le> i \<longrightarrow> i < length Marker \<longrightarrow> \<not> (prefix (drop i Marker) k \<or> suffix (take i Marker) k))"
    using assms by (auto simp: marker_overlaps_def list_ex_iff split: if_splits)
  then show "\<not> sublist k Marker" and "\<not> sublist Marker k"
    and "1 \<le> i \<Longrightarrow> i < length Marker \<Longrightarrow> \<not> prefix (drop i Marker) k \<and> \<not> suffix (take i Marker) k"
    by blast+
qed

lemma no_overlap_prefix:
  assumes "\<not> marker_overlaps k" and "k \<noteq> []" and "j < length Marker"
  shows "\<not> prefix k (drop j Marker @ t)"
proof
  assume "prefix k (drop j Marker @ t)"
  then consider "prefix k (drop j Marker)" | "prefix (drop j Marker) k"
    by (auto simp: prefix_append)
  then show False
  proof cases
    case 1
    then have "sublist k Marker" by (metis prefix_imp_sublist sublist_drop sublist_order.order_trans)
    with no_overlapD(1) [OF assms(1,2)] show False by simp
  next
    case 2
    show False
    proof (cases "j = 0")
      case True
      with 2 have "sublist Marker k" by (simp add: prefix_imp_sublist)
      with no_overlapD(2) [OF assms(1,2)] show False by simp
    next
      case False
      with 2 no_overlapD(3) [OF assms(1,2), of j] assms(3) show False by simp
    qed
  qed
qed

lemma no_overlap_suffix:
  assumes "\<not> marker_overlaps (u @ w)" and "w \<noteq> []" and "prefix w (Marker @ t)"
  shows False
proof -
  have ne: "u @ w \<noteq> []" using assms(2) by simp
  from assms(3) consider "prefix Marker w" | "prefix w Marker" "w \<noteq> Marker"
    by (auto simp: prefix_append)
  then show False
  proof cases
    case 1
    then obtain v where "w = Marker @ v" by (auto simp: prefix_def)
    then have "sublist Marker (u @ w)" by (auto simp: sublist_def)
    with no_overlapD(2) [OF assms(1) ne] show False by simp
  next
    case 2
    then obtain v where v: "Marker = w @ v" by (auto simp: prefix_def)
    with 2(2) have "v \<noteq> []" by auto
    then have "take (length w) Marker = w" "length w < length Marker"
      by (subst v, simp)+
    moreover have "1 \<le> length w" using assms(2) by (cases w) auto
    ultimately show False using no_overlapD(3) [OF assms(1) ne, of "length w"]
      by (simp add: suffix_def)
  qed
qed

lemma key_at_copied:
  "\<not> marker_overlaps (u @ k) \<Longrightarrow> k \<noteq> [] \<Longrightarrow> prefix k (redact_ref m s 0) \<Longrightarrow> prefix k s"
proof (induction s arbitrary: u k)
  case Nil
  then show ?case by simp
next
  case (Cons x s)
  show ?case
  proof (cases "m (x # s) = 0")
    case True
    with Cons.prems obtain k' where k: "k = x # k'" "prefix k' (redact_ref m s 0)"
      by (auto simp: Let_def prefix_Cons)
    show ?thesis
    proof (cases "k' = []")
      case True
      with k show ?thesis by simp
    next
      case False
      have "\<not> marker_overlaps ((u @ [x]) @ k')" using Cons.prems(1) k by simp
      from Cons.IH [OF this False k(2)] k show ?thesis by simp
    qed
  next
    case False
    with Cons.prems have "prefix k (Marker @ redact_ref m s (m (x # s) - 1))"
      by (simp add: Let_def)
    with Cons.prems(1,2) show ?thesis using no_overlap_suffix by blast
  qed
qed

lemma suffix_append_cases:
  "suffix t (a @ b) \<Longrightarrow> suffix t b \<or> (\<exists>j < length a. t = drop j a @ b)"
proof -
  assume "suffix t (a @ b)"
  then obtain p where p: "a @ b = p @ t" by (auto simp: suffix_def)
  show ?thesis
  proof (cases "length a \<le> length p")
    case True
    with p have "suffix t b" by (auto simp: append_eq_append_conv_if suffix_def)
    then show ?thesis by simp
  next
    case False
    with p have "t = drop (length p) a @ b" by (auto simp: append_eq_append_conv_if)
    with False show ?thesis by (metis not_le)
  qed
qed

lemma no_key_in_ref:
  assumes k: "\<not> marker_overlaps k" "k \<noteq> []" "\<And>s. m s = 0 \<Longrightarrow> \<not> prefix k s"
  shows "suffix t (redact_ref m s c) \<Longrightarrow> \<not> prefix k t"
proof (induction s arbitrary: c t)
  case Nil
  then show ?case using k(2) by (auto simp: suffix_def)
next
  case (Cons x s)
  let ?n = "m (x # s)"
  show ?case
  proof (cases "?n = 0")
    case True
    show ?thesis
    proof (cases "c = 0")
      case c: True
      with True Cons.prems consider "t = redact_ref m (x # s) 0" | "suffix t (redact_ref m s 0)"
        by (auto simp: Let_def suffix_Cons)
      then show ?thesis
      proof cases
        case 1
        then show ?thesis using key_at_copied [of "[]" k m "x # s"] k True by auto
      next
        case 2
        then show ?thesis by (rule Cons.IH)
      qed
    next
      case False
      with True Cons.prems have "suffix t (redact_ref m s (c - 1))" by (simp add: Let_def)
      then show ?thesis by (rule Cons.IH)
    qed
  next
    case False
    let ?r = "redact_ref m s (max c ?n - 1)"
    from False Cons.prems consider "suffix t (Marker @ ?r)" | "suffix t ?r"
      by (auto simp: Let_def split: if_splits)
    then show ?thesis
    proof cases
      case 1
      then show ?thesis
        using suffix_append_cases [OF 1] no_overlap_prefix [OF k(1,2)] Cons.IH by auto
    next
      case 2
      then show ?thesis by (rule Cons.IH)
    qed
  qed
qed

lemma no_key_in_string:
  assumes "k \<in> set ks" and "k \<noteq> []" and "\<not> marker_overlaps k"
  shows "\<not> sublist k (rp_string (Some (new_replacer ks)) s)"
proof
  assume "sublist k (rp_string (Some (new_replacer ks)) s)"
  then obtain a b where out: "redact_ref (new_match ks) s 0 = a @ k @ b"
    by (auto simp: sublist_def rp_string_ref)
  have "new_match ks t = 0 \<Longrightarrow> \<not> prefix k t" for t
    using assms by (auto simp: match_at_zero occurs_at_def)
  moreover have "suffix (k @ b) (redact_ref (new_match ks) s 0)" by (simp add: out suffix_def)
  ultimately show False using no_key_in_ref [of k "new_match ks" "k @ b" s 0] assms by auto
qed

section \<open>The declarative account\<close>

lemma reached_match: "i \<le> p \<Longrightarrow> reached_from ks s i p \<longleftrightarrow> p < i + new_match ks (drop i s)"
proof -
  assume "i \<le> p"
  then have "p < i + n \<longleftrightarrow> p - i < n" for n by arith
  then show ?thesis by (simp add: reached_from_def match_at_gt occurs_drop)
qed

lemma redact_ref_positions:
  "redact_ref m s c =
     concat (map (\<lambda>p.
       if p < c \<or> (\<exists>i < p. p < i + m (drop i s)) then []
       else if m (drop p s) > 0 then Marker
       else [s ! p]) [0..<length s])"
proof (induction s arbitrary: c)
  case Nil
  then show ?case by simp
next
  case (Cons x s)
  let ?n = "m (x # s)"
  let ?c = "(if ?n = 0 then c else max c ?n) - 1"
  have range: "[0..<length (x # s)] = 0 # map Suc [0..<length s]"
    by (simp add: map_Suc_upt upt_conv_Cons del: upt_Suc)
  have cov: "(Suc p < c \<or> (\<exists>i < Suc p. Suc p < i + m (drop i (x # s)))) \<longleftrightarrow>
      (p < ?c \<or> (\<exists>i < p. p < i + m (drop i s)))" for p
    by (subst Ex_less_Suc2) (auto simp: less_diff_conv)
  show ?case
    unfolding range using Cons.IH [of ?c] 
    by (cases "?n = 0"; cases "c = 0") (simp_all add: cov Ex_less_Suc2 less_diff_conv less_max_iff_disj disj_assoc Let_def comp_def cong: if_cong)
qed

lemma rp_string_spec: "rp_string (Some (new_replacer ks)) s = redact_spec ks s"
  unfolding rp_string_ref redact_ref_positions redact_spec_def
  by (intro arg_cong [where f = concat] map_cong refl) (auto simp: reached_match)

section \<open>Properties\<close>

text \<open>C38. For every set of keys and every way of cutting a text into writes, the bytes that reach the
  underlying writer by the time the stream is closed are exactly \<open>String\<close> of the whole text: a key
  split over any number of writes is caught as if the text had come in one piece.\<close>

theorem writer_equals_string:
  "rw_w (snd (w_close buffer_write
      (w_writes buffer_write ps (new_writer (Some (new_replacer keys)) []))))
    = rp_string (Some (new_replacer keys)) (concat ps)"
proof -
  let ?w = "new_writer (Some (new_replacer keys)) [] :: (string, unit) redact_writer"
  have "writer_ok keys ?w" by (rule writer_ok_new)
  from writes_run [OF this, of ps] close_run
  show ?thesis by (auto simp: rp_string_ref new_writer_def dest: spec [where x = "[]"])
qed

text \<open>C39. No key survives redaction: the output of \<open>String\<close> contains none of the replacer's keys that
  does not overlap the marker itself (an overlapping key is one the caller must refuse).\<close>

theorem redacted_text_holds_no_key:
  assumes "k \<in> set keys" and "k \<noteq> []" and "\<not> marker_overlaps k"
  shows "\<not> sublist k (rp_string (Some (new_replacer keys)) s)"
  using assms by (rule no_key_in_string)

theorem redacted_text_holds_no_key_witness:
  "\<not> sublist ''sk-1'' (rp_string (Some (new_replacer [''sk-1'', ''k''])) ''xsk-1y'')"
proof -
  have "\<not> marker_overlaps ''sk-1''"
    by (simp add: marker_overlaps_def Marker_def sublist_code prefix_def) code_simp
  then show ?thesis
    by (intro redacted_text_holds_no_key) simp_all
qed

text \<open>C40. \<open>String\<close> is the declarative redaction: a byte that lies in no occurrence of a key is kept, and
  every maximal run of overlapping occurrences becomes one marker, whatever keys overlap or contain
  one another.\<close>

theorem string_is_declarative_redaction:
  "rp_string (Some (new_replacer keys)) s = redact_spec keys s"
  by (rule rp_string_spec)

text \<open>Redacting a second time changes nothing, for keys none of which overlaps the marker.\<close>

theorem redact_idempotent:
  assumes "\<forall>k \<in> set keys. \<not> marker_overlaps k"
  shows "rp_string (Some (new_replacer keys)) (rp_string (Some (new_replacer keys)) s)
    = rp_string (Some (new_replacer keys)) s"
proof -
  let ?out = "rp_string (Some (new_replacer keys)) s"
  have "\<not> sublist k ?out" if "k \<in> set (rk_keys (new_replacer keys))" for k
    using that assms no_key_in_string [of k keys s] by (simp add: keys_new)
  then show ?thesis
    by (subst rp_string_def) (simp add: list_ex_iff)
qed

theorem redact_idempotent_witness:
  "rp_string (Some (new_replacer [''sk-1''])) (rp_string (Some (new_replacer [''sk-1''])) ''a sk-1 b'')
    = rp_string (Some (new_replacer [''sk-1''])) ''a sk-1 b''"
proof -
  have "\<not> marker_overlaps ''sk-1''"
    by (simp add: marker_overlaps_def Marker_def sublist_code prefix_def) code_simp
  then show ?thesis by (intro redact_idempotent) simp
qed

text \<open>A writer widened in mid-stream redacts everything it had not yet decided, the held tail
  included, and everything written after, with the union of both sets of keys, as one text; nothing
  written before is changed and no byte is lost.\<close>

theorem widened_writer_uses_union:
  "let w = w_writes buffer_write ps (new_writer (Some (new_replacer keys)) []) in
   rw_w (snd (w_close buffer_write
      (w_writes buffer_write qs (w_widen (Some (new_replacer ls)) w))))
    = rw_w w @ redact_ref (match_at (new_replacer (keys @ ls))) (rw_buf w @ concat qs) (rw_run w)"
proof -
  let ?w = "w_writes buffer_write ps (new_writer (Some (new_replacer keys)) []) :: (string, unit) redact_writer"
  have "writer_ok keys ?w" using writes_run [OF writer_ok_new] by blast
  then have ok: "writer_ok (keys @ ls) (w_widen (Some (new_replacer ls)) ?w)"
    by (rule writer_ok_widen)
  from writes_run [OF ok, of qs] close_run
  show ?thesis by (auto simp: Let_def w_widen_def dest: spec [where x = "[]"])
qed

text \<open>What a writer holds back is always shorter than the longest key it watches for.\<close>

theorem writer_holds_less_than_a_key:
  "length (rw_buf (w_writes buffer_write ps (new_writer (Some (new_replacer keys)) [])))
     \<le> rk_longest (new_replacer keys) - 1"
proof -
  have "length (rw_buf (w_writes buffer_write ps w)) \<le> rk_longest (new_replacer keys) - 1"
    if "writer_ok keys w" "length (rw_buf w) \<le> rk_longest (new_replacer keys) - 1"
    for w :: "(string, unit) redact_writer"
    using that
  proof (induction ps arbitrary: w)
    case Nil
    then show ?case by simp
  next
    case (Cons p ps)
    from write_step [OF Cons.prems(1), of p] obtain w' where
      w': "w_write buffer_write p w = (length p, None, w')" "writer_ok keys w'"
      by auto
    have "length (rw_buf w') \<le> rk_longest (new_replacer keys) - 1"
      using w'(1) Cons.prems held_lt_longest [of "new_replacer keys" "rw_buf w @ p"]
      by (auto simp: w_write_def writer_ok_def Let_def w_emit_def w_put_def buffer_write_def
          held_ptr_def split: if_splits prod.splits)
    with Cons.IH [OF w'(2)] w'(1) show ?case by simp
  qed
  from this [OF writer_ok_new] show ?thesis by (simp add: new_writer_def)
qed

end
