(* ===== verification/Textdiff.thy ===== *)
theory Textdiff
  imports Craze_Prelude
begin

text \<open>
  The line diff, \<open>internal/textdiff/textdiff.go\<close>: Myers' greedy algorithm with a work cap, the walk
  back through its trace, and the grouping of the script into hunks.

  \<^item> \<open>op\<close>, \<open>diff_line\<close>, \<open>hunk\<close> are the Go types; a line kind, a byte there, is \<open>op_kind\<close>.
  \<^item> \<open>split_lines\<close>, \<open>script\<close> (its two nested loops are \<open>script_k\<close> and \<open>script_d\<close>, the diagonal run
    is \<open>slide\<close>), \<open>backtrack\<close> (\<open>walk\<close> is its inner loop), \<open>group\<close> and \<open>lines_diff\<close>
    (\<open>Lines\<close>) are the functions. The slice \<open>v\<close>, indexed at \<open>off+k\<close>, is a function of the diagonal
    \<open>k\<close>; a trace snapshot \<open>v[off-d:off+d+1]\<close> is a list. \<open>Lines\<close> calls \<open>script\<close> only on two
    different lists, so \<open>v\<close> has at least three cells and every index the loops read is in range.
  \<^item> The work cap is a parameter of the loops (\<open>maxSteps\<close> in \<open>script\<close>), so that what the
    algorithm does without a cap can be stated.

  The lemmas show that a script that is returned is an edit script from the old lines to the new
  ones, correctly numbered (\<open>script_from\<close>), and a shortest one; that the cap is the only reason for
  none (\<open>script_within_cap\<close>); and that the hunks are a patch: applied to the old lines they give the
  new ones. The argument for the rounds is about \<open>furthest\<close> points: the point a round leaves on a
  diagonal dominates everything as many changes can reach, and the trace leads back from it.
\<close>

section \<open>Types\<close>

datatype op_kind = AddLine | DelLine | ContextLine

record op =
  o_kind :: op_kind
  o_text :: string
  o_old :: nat
  o_new :: nat

record diff_line =
  dl_kind :: op_kind
  dl_text :: string
  dl_old_no :: nat
  dl_new_no :: nat

record hunk =
  h_old_start :: nat
  h_new_start :: nat
  h_lines :: "diff_line list"

datatype diff_error = ErrTooLarge

definition maxLines :: nat where "maxLines = 10000"

definition maxSteps :: int where "maxSteps = 2000000"

definition context_lines :: nat where "context_lines = 2"

section \<open>Lines\<close>

fun replace_crlf :: "string \<Rightarrow> string" where
  "replace_crlf [] = []"
| "replace_crlf [c] = [c]"
| "replace_crlf (c # d # s) =
     (if c = CHR 0x0D \<and> d = CHR 0x0A then CHR 0x0A # replace_crlf s else c # replace_crlf (d # s))"

definition trim_newline :: "string \<Rightarrow> string" where
  "trim_newline s = (if s \<noteq> [] \<and> last s = CHR 0x0A then butlast s else s)"

fun split_nl :: "string \<Rightarrow> string list" where
  "split_nl [] = [[]]"
| "split_nl (c # s) =
     (if c = CHR 0x0A then [] # split_nl s
      else case split_nl s of [] \<Rightarrow> [[c]] | l # ls \<Rightarrow> (c # l) # ls)"

definition split_lines :: "string \<Rightarrow> string list" where
  "split_lines s = (if s = [] then [] else split_nl (trim_newline (replace_crlf s)))"

section \<open>The script\<close>

text \<open>The diagonal run: \<open>for x < n && y < m && a[x] == b[y]\<close>, one step counted per line.\<close>

function slide :: "string list \<Rightarrow> string list \<Rightarrow> int \<Rightarrow> int \<Rightarrow> int \<Rightarrow> int \<times> int \<times> int" where
  "slide a b x y steps =
     (if x < int (length a) \<and> y < int (length b) \<and> a ! nat x = b ! nat y
      then slide a b (x + 1) (y + 1) (steps + 1)
      else (x, y, steps))"
  by pat_completeness auto
termination
  by (relation "measure (\<lambda>(a, b, x, y, s). nat (int (length a) - x))") auto

declare slide.simps [simp del]

text \<open>Where round \<open>d\<close> enters diagonal \<open>k\<close>, from what the round before it left in \<open>v\<close>.\<close>

definition enter :: "(int \<Rightarrow> int) \<Rightarrow> int \<Rightarrow> int \<Rightarrow> int" where
  "enter v d k =
     (if k = - d \<or> (k \<noteq> d \<and> v (k - 1) < v (k + 1)) then v (k + 1) else v (k - 1) + 1)"

datatype round_result =
    RoundTooLarge
  | RoundFound
  | RoundNext "int \<Rightarrow> int" int

function script_k ::
  "int \<Rightarrow> string list \<Rightarrow> string list \<Rightarrow> int \<Rightarrow> int \<Rightarrow> (int \<Rightarrow> int) \<Rightarrow> int \<Rightarrow> round_result" where
  "script_k cap a b d k v steps =
     (if k > d then RoundNext v steps
      else
        let steps = steps + 1 in
        if steps > cap then RoundTooLarge
        else
          let x = enter v d k;
              (x, y, steps) = slide a b x (x - k) steps
          in if steps > cap then RoundTooLarge
             else
               let v = v(k := x)
               in if x \<ge> int (length a) \<and> y \<ge> int (length b) then RoundFound
                  else script_k cap a b d (k + 2) v steps)"
  by pat_completeness auto
termination
  by (relation "measure (\<lambda>(cap, a, b, d, k, v, s). nat (d + 1 - k))") auto

declare script_k.simps [simp del]

text \<open>The walk back. \<open>walk\<close> is the inner loop; an operation is put in front of what is already
  there, which is what appending to \<open>rev\<close> and reversing it at the end comes to.\<close>

function walk ::
  "string list \<Rightarrow> int \<Rightarrow> int \<Rightarrow> int \<Rightarrow> int \<Rightarrow> op list \<Rightarrow> int \<times> int \<times> op list" where
  "walk a px py x y ops =
     (if x > px \<and> y > py
      then walk a px py (x - 1) (y - 1)
             (\<lparr>o_kind = ContextLine, o_text = a ! nat (x - 1), o_old = nat x, o_new = nat y\<rparr> # ops)
      else (x, y, ops))"
  by pat_completeness auto
termination
  by (relation "measure (\<lambda>(a, px, py, x, y, ops). nat (x - px))") auto

declare walk.simps [simp del]

definition prev_diag :: "int list \<Rightarrow> int \<Rightarrow> int \<Rightarrow> int" where
  "prev_diag v d k =
     (if k = - d \<or> (k \<noteq> d \<and> v ! nat (k - 1 + d) < v ! nat (k + 1 + d)) then k + 1 else k - 1)"

fun backtrack_from ::
  "string list \<Rightarrow> string list \<Rightarrow> int list list \<Rightarrow> nat \<Rightarrow> int \<Rightarrow> int \<Rightarrow> op list \<Rightarrow> op list" where
  "backtrack_from a b trace 0 x y ops = (case walk a 0 0 x y ops of (_, _, ops) \<Rightarrow> ops)"
| "backtrack_from a b trace (Suc d) x y ops =
     (let v = trace ! Suc d;
          dd = int (Suc d);
          prevK = prev_diag v dd (x - y);
          prevX = v ! nat (prevK + dd);
          prevY = prevX - prevK;
          (x, y, ops) = walk a prevX prevY x y ops;
          ops =
            (if x = prevX
             then \<lparr>o_kind = AddLine, o_text = b ! nat (y - 1), o_old = 0, o_new = nat y\<rparr> # ops
             else \<lparr>o_kind = DelLine, o_text = a ! nat (x - 1), o_old = nat x, o_new = 0\<rparr> # ops)
      in backtrack_from a b trace d prevX prevY ops)"

definition backtrack :: "string list \<Rightarrow> string list \<Rightarrow> int list list \<Rightarrow> op list" where
  "backtrack a b trace =
     backtrack_from a b trace (length trace - 1) (int (length a)) (int (length b)) []"

function script_d ::
  "int \<Rightarrow> string list \<Rightarrow> string list \<Rightarrow> int \<Rightarrow> (int \<Rightarrow> int) \<Rightarrow> int list list \<Rightarrow> int
     \<Rightarrow> diff_error + op list" where
  "script_d cap a b d v trace steps =
     (if d > int (length a + length b) then Inl ErrTooLarge
      else
        let trace = trace @ [map v [- d..d]] in
        case script_k cap a b d (- d) v steps of
          RoundTooLarge \<Rightarrow> Inl ErrTooLarge
        | RoundFound \<Rightarrow> Inr (backtrack a b trace)
        | RoundNext v steps \<Rightarrow> script_d cap a b (d + 1) v trace steps)"
  by pat_completeness auto
termination
  by (relation "measure (\<lambda>(cap, a, b, d, v, t, s). nat (int (length a + length b) + 1 - d))") auto

declare script_d.simps [simp del]

definition script_within :: "int \<Rightarrow> string list \<Rightarrow> string list \<Rightarrow> diff_error + op list" where
  "script_within cap a b = script_d cap a b 0 (\<lambda>_. 0) [] 0"

definition script :: "string list \<Rightarrow> string list \<Rightarrow> diff_error + op list" where
  "script a b = script_within maxSteps a b"

section \<open>Hunks\<close>

definition advance :: "op \<Rightarrow> nat \<Rightarrow> nat \<Rightarrow> nat \<times> nat" where
  "advance o' oldNo newNo =
     ((if o_old o' > 0 then o_old o' else oldNo), (if o_new o' > 0 then o_new o' else newNo))"

text \<open>The first loop of \<open>group\<close>: every changed line keeps the window around it.\<close>

definition mark_window :: "op list \<Rightarrow> nat \<Rightarrow> bool list \<Rightarrow> bool list" where
  "mark_window ops i keep =
     (if o_kind (ops ! i) = ContextLine then keep
      else
        let lo = i - context_lines;
            hi = (if i + context_lines \<ge> length ops then length ops - 1 else i + context_lines)
        in fold (\<lambda>j keep. keep[j := True]) [lo..<Suc hi] keep)"

definition keep_marks :: "op list \<Rightarrow> bool list" where
  "keep_marks ops = fold (mark_window ops) [0..<length ops] (replicate (length ops) False)"

definition line_of :: "op \<Rightarrow> diff_line" where
  "line_of o' =
     \<lparr>dl_kind = o_kind o', dl_text = o_text o', dl_old_no = o_old o', dl_new_no = o_new o'\<rparr>"

text \<open>The inner loop of the second: the lines of one hunk, and where it leaves the counters.\<close>

fun hunk_run ::
  "(op \<times> bool) list \<Rightarrow> nat \<Rightarrow> nat \<Rightarrow> diff_line list \<times> nat \<times> nat \<times> (op \<times> bool) list" where
  "hunk_run [] oldNo newNo = ([], oldNo, newNo, [])"
| "hunk_run ((o', k) # rest) oldNo newNo =
     (if \<not> k then ([], oldNo, newNo, (o', k) # rest)
      else
        let (oldNo, newNo) = advance o' oldNo newNo;
            (ls, oldNo, newNo, rest) = hunk_run rest oldNo newNo
        in (line_of o' # ls, oldNo, newNo, rest))"

lemma hunk_run_rest: "hunk_run xs i j = (ls, i', j', rest) \<Longrightarrow> length rest \<le> length xs"
  by (induction xs i j arbitrary: ls i' j' rest rule: hunk_run.induct)
    (fastforce split: if_splits prod.splits)+

function hunks_of :: "(op \<times> bool) list \<Rightarrow> nat \<Rightarrow> nat \<Rightarrow> hunk list" where
  "hunks_of [] oldNo newNo = []"
| "hunks_of ((o', k) # rest) oldNo newNo =
     (if \<not> k then (let (oldNo, newNo) = advance o' oldNo newNo in hunks_of rest oldNo newNo)
      else
        (let (oldNo1, newNo1) = advance o' oldNo newNo;
             (ls, oldNo2, newNo2, rest') = hunk_run rest oldNo1 newNo1
         in \<lparr>h_old_start = oldNo + 1, h_new_start = newNo + 1, h_lines = line_of o' # ls\<rparr>
              # hunks_of rest' oldNo2 newNo2))"
  by pat_completeness auto
termination
  by (relation "measure (\<lambda>(xs, i, j). length xs)") (auto dest!: hunk_run_rest [OF sym])

definition group :: "op list \<Rightarrow> hunk list" where
  "group ops =
     (if list_all (\<lambda>o'. o_kind o' = ContextLine) ops then []
      else hunks_of (zip ops (keep_marks ops)) 0 0)"

definition count_kind :: "op_kind \<Rightarrow> op list \<Rightarrow> nat" where
  "count_kind k ops = length (filter (\<lambda>o'. o_kind o' = k) ops)"

text \<open>\<open>Lines\<close>: the added and removed counts and the hunks.\<close>

definition lines_diff :: "string \<Rightarrow> string \<Rightarrow> diff_error + (nat \<times> nat \<times> hunk list)" where
  "lines_diff old new =
     (let a = split_lines old; b = split_lines new in
      if length a + length b > maxLines then Inl ErrTooLarge
      else if length a = length b \<and> list_all2 (=) a b then Inr (0, 0, [])
      else case script a b of
        Inl e \<Rightarrow> Inl e
      | Inr ops \<Rightarrow> Inr (count_kind AddLine ops, count_kind DelLine ops, group ops))"

section \<open>What a script and a patch mean\<close>

text \<open>\<open>ops\<close> leads from line \<open>x\<close> of \<open>a\<close> and line \<open>y\<close> of \<open>b\<close> to the end of both, with the right texts and
  1-based numbers.\<close>

fun script_from :: "string list \<Rightarrow> string list \<Rightarrow> nat \<Rightarrow> nat \<Rightarrow> op list \<Rightarrow> bool" where
  "script_from a b x y [] \<longleftrightarrow> x = length a \<and> y = length b"
| "script_from a b x y (o' # ops) \<longleftrightarrow>
     (case o_kind o' of
        ContextLine \<Rightarrow>
          x < length a \<and> y < length b \<and> o_text o' = a ! x \<and> o_text o' = b ! y \<and>
          o_old o' = Suc x \<and> o_new o' = Suc y \<and> script_from a b (Suc x) (Suc y) ops
      | DelLine \<Rightarrow>
          x < length a \<and> o_text o' = a ! x \<and> o_old o' = Suc x \<and> o_new o' = 0 \<and>
          script_from a b (Suc x) y ops
      | AddLine \<Rightarrow>
          y < length b \<and> o_text o' = b ! y \<and> o_old o' = 0 \<and> o_new o' = Suc y \<and>
          script_from a b x (Suc y) ops)"

text \<open>Applying the lines of a hunk at the head of the remaining old lines: unchanged and removed lines
  must be there.\<close>

fun apply_lines :: "diff_line list \<Rightarrow> string list \<Rightarrow> (string list \<times> string list) option" where
  "apply_lines [] old = Some ([], old)"
| "apply_lines (l # ls) old =
     (case dl_kind l of
        AddLine \<Rightarrow> map_option (\<lambda>(out, rest). (dl_text l # out, rest)) (apply_lines ls old)
      | k \<Rightarrow>
          (case old of
             [] \<Rightarrow> None
           | t # old' \<Rightarrow>
               if t \<noteq> dl_text l then None
               else if k = DelLine then apply_lines ls old'
               else map_option (\<lambda>(out, rest). (t # out, rest)) (apply_lines ls old')))"

text \<open>Applying hunks, \<open>done\<close> old lines having been consumed: the lines before a hunk's start are kept.\<close>

fun apply_hunks :: "hunk list \<Rightarrow> nat \<Rightarrow> string list \<Rightarrow> string list option" where
  "apply_hunks [] done' old = Some old"
| "apply_hunks (h # hs) done' old =
     (if h_old_start h < Suc done' \<or> length old < h_old_start h - Suc done' then None
      else
        let skip = h_old_start h - Suc done' in
        case apply_lines (h_lines h) (drop skip old) of
          None \<Rightarrow> None
        | Some (out, rest) \<Rightarrow>
            map_option (\<lambda>tl. take skip old @ out @ tl)
              (apply_hunks hs (done' + length old - length rest) rest))"

definition patch :: "hunk list \<Rightarrow> string list \<Rightarrow> string list option" where
  "patch hs old = apply_hunks hs 0 old"

section \<open>The runs\<close>

definition changes :: "op list \<Rightarrow> nat" where
  "changes ops = length (filter (\<lambda>o'. o_kind o' \<noteq> ContextLine) ops)"

lemma changes_simps [simp]:
  "changes [] = 0"
  "changes (o' # ops) = (if o_kind o' = ContextLine then changes ops else Suc (changes ops))"
  by (simp_all add: changes_def)

text \<open>Where a diagonal run starting at \<open>(x, y)\<close> may stop: after \<open>t\<close> equal lines, inside both texts
  if it moved at all, at the first place it cannot go on.\<close>

definition run_to :: "string list \<Rightarrow> string list \<Rightarrow> int \<Rightarrow> int \<Rightarrow> nat \<Rightarrow> bool" where
  "run_to a b x y t \<longleftrightarrow>
     (\<forall>i < t. a ! nat (x + int i) = b ! nat (y + int i)) \<and>
     (t > 0 \<longrightarrow> x + int t \<le> int (length a) \<and> y + int t \<le> int (length b))"

definition blocked :: "string list \<Rightarrow> string list \<Rightarrow> int \<Rightarrow> int \<Rightarrow> bool" where
  "blocked a b x y \<longleftrightarrow>
     \<not> (x < int (length a) \<and> y < int (length b) \<and> a ! nat x = b ! nat y)"

lemma run_to_Suc:
  assumes "x < int (length a)" "y < int (length b)" "a ! nat x = b ! nat y"
    and "run_to a b (x + 1) (y + 1) t"
  shows "run_to a b x y (Suc t)"
proof -
  have "a ! nat (x + int i) = b ! nat (y + int i)" if "i < Suc t" for i
  proof (cases i)
    case 0
    then show ?thesis using assms(3) by simp
  next
    case (Suc j)
    then have "a ! nat (x + 1 + int j) = b ! nat (y + 1 + int j)"
      using assms(4) that by (simp add: run_to_def)
    then show ?thesis using Suc by (simp add: add.assoc)
  qed
  then show ?thesis using assms by (cases t) (auto simp: run_to_def)
qed

lemma slide_run:
  "slide a b x y s = (x', y', s') \<Longrightarrow>
     \<exists>t. x' = x + int t \<and> y' = y + int t \<and> s' = s + int t \<and> run_to a b x y t \<and> blocked a b x' y'"
proof (induction a b x y s rule: slide.induct)
  case (1 a b x y s)
  show ?case
  proof (cases "x < int (length a) \<and> y < int (length b) \<and> a ! nat x = b ! nat y")
    case True
    have "slide a b (x + 1) (y + 1) (s + 1) = (x', y', s')"
      using "1.prems" True by (subst (asm) slide.simps) simp
    from "1.IH" [OF True this] obtain t where
      "x' = x + 1 + int t" "y' = y + 1 + int t" "s' = s + 1 + int t"
      "run_to a b (x + 1) (y + 1) t" "blocked a b x' y'" by blast
    with True run_to_Suc [of x a y b t] show ?thesis by (intro exI [of _ "Suc t"]) auto
  next
    case False
    with "1.prems" show ?thesis
      by (intro exI [of _ 0]) (auto simp: slide.simps [of a b x y s] run_to_def blocked_def)
  qed
qed

lemma slide_steps:
  assumes "slide a b x y s = (x', y', s')" and "0 \<le> x" and "0 \<le> y"
  shows "s' \<le> s + int (min (length a) (length b))"
  using slide_run [OF assms(1)] assms(2,3) by (auto simp: run_to_def)

lemma walk_run:
  assumes "0 \<le> px" "0 \<le> py" "px \<le> x" "py \<le> y" "x = px \<or> y = py"
    and "run_to a b x y t" and "x + int t \<le> int (length a)" and "y + int t \<le> int (length b)"
    and "script_from a b (nat (x + int t)) (nat (y + int t)) acc"
  shows "\<exists>acc'. walk a px py (x + int t) (y + int t) acc = (x, y, acc') \<and>
    script_from a b (nat x) (nat y) acc' \<and> changes acc' = changes acc"
  using assms(6-)
proof (induction t arbitrary: acc)
  case 0
  then show ?case using assms(5) by (auto simp: walk.simps [of a px py x y])
next
  case (Suc t)
  let ?o = "\<lparr>o_kind = ContextLine, o_text = a ! nat (x + int t),
    o_old = nat (x + int (Suc t)), o_new = nat (y + int (Suc t))\<rparr>"
  have nats: "nat (x + int (Suc t)) = Suc (nat (x + int t))" "nat (y + int (Suc t)) = Suc (nat (y + int t))"
    using assms(1-4) by auto
  have "a ! nat (x + int t) = b ! nat (y + int t)" using Suc.prems(1) by (simp add: run_to_def)
  then have "script_from a b (nat (x + int t)) (nat (y + int t)) (?o # acc)"
    using Suc.prems assms(1-4) nats by auto
  moreover have "run_to a b x y t" using Suc.prems(1) by (auto simp: run_to_def)
  moreover have "walk a px py (x + int (Suc t)) (y + int (Suc t)) acc =
      walk a px py (x + int t) (y + int t) (?o # acc)"
    using assms(3,4) by (subst walk.simps) (auto simp: algebra_simps)
  ultimately show ?case using Suc.IH [of "?o # acc"] Suc.prems(2,3) by auto
qed

section \<open>What a round leaves\<close>

text \<open>\<open>reach a b e x y\<close>: \<open>e\<close> added or removed lines, and any number of equal ones, lead to \<open>(x, y)\<close>.\<close>

inductive reach :: "string list \<Rightarrow> string list \<Rightarrow> nat \<Rightarrow> nat \<Rightarrow> nat \<Rightarrow> bool" for a b where
  reach_start: "reach a b 0 0 0"
| reach_same: "reach a b e x y \<Longrightarrow> x < length a \<Longrightarrow> y < length b \<Longrightarrow> a ! x = b ! y \<Longrightarrow>
    reach a b e (Suc x) (Suc y)"
| reach_del: "reach a b e x y \<Longrightarrow> x < length a \<Longrightarrow> reach a b (Suc e) (Suc x) y"
| reach_add: "reach a b e x y \<Longrightarrow> y < length b \<Longrightarrow> reach a b (Suc e) x (Suc y)"

lemma reach_bounds: "reach a b e x y \<Longrightarrow> x \<le> length a \<and> y \<le> length b"
  by (induction rule: reach.induct) auto

text \<open>\<open>onDiag d k\<close>: round \<open>d\<close> visits diagonal \<open>k\<close>.\<close>

definition on_diag :: "int \<Rightarrow> int \<Rightarrow> bool" where
  "on_diag d k \<longleftrightarrow> \<bar>k\<bar> \<le> d \<and> even (k - d)"

lemma reach_diag: "reach a b e x y \<Longrightarrow> on_diag (int e) (int x - int y)"
  by (induction rule: reach.induct) (auto simp: on_diag_def)

lemma script_reach:
  "script_from a b x y ops \<Longrightarrow> reach a b e x y \<Longrightarrow>
     reach a b (e + changes ops) (length a) (length b)"
proof (induction ops arbitrary: e x y)
  case Nil
  then show ?case by simp
next
  case (Cons o' ops)
  show ?case
  proof (cases "o_kind o'")
    case AddLine
    with Cons.prems have "script_from a b x (Suc y) ops" "reach a b (Suc e) x (Suc y)"
      by (auto intro: reach_add)
    from Cons.IH [OF this] AddLine show ?thesis by simp
  next
    case DelLine
    with Cons.prems have "script_from a b (Suc x) y ops" "reach a b (Suc e) (Suc x) y"
      by (auto intro: reach_del)
    from Cons.IH [OF this] DelLine show ?thesis by simp
  next
    case ContextLine
    with Cons.prems have "script_from a b (Suc x) (Suc y) ops" "reach a b e (Suc x) (Suc y)"
      by (auto intro: reach_same)
    from Cons.IH [OF this] ContextLine show ?thesis by simp
  qed
qed

text \<open>Walking back from \<open>(x, y)\<close>, reached in round \<open>d\<close>, gives the script to there, with \<open>d\<close> changes.\<close>

definition traced :: "string list \<Rightarrow> string list \<Rightarrow> int list list \<Rightarrow> int \<Rightarrow> int \<Rightarrow> int \<Rightarrow> bool" where
  "traced a b T d x y \<longleftrightarrow>
     (x \<le> int (length a) \<and> y \<le> int (length b) \<longrightarrow>
       (\<forall>acc. script_from a b (nat x) (nat y) acc \<longrightarrow>
         script_from a b 0 0 (backtrack_from a b T (nat d) x y acc) \<and>
         changes (backtrack_from a b T (nat d) x y acc) = nat d + changes acc))"

lemma backtrack_from_extend:
  "d < length T \<Longrightarrow> backtrack_from a b (T @ T') d x y acc = backtrack_from a b T d x y acc"
  by (induction d arbitrary: x y acc) (simp_all add: nth_append split_beta Let_def)

lemma traced_extend: "0 \<le> d \<Longrightarrow> nat d < length T \<Longrightarrow> traced a b (T @ T') d x y = traced a b T d x y"
  by (simp add: traced_def backtrack_from_extend)

text \<open>The furthest point \<open>x\<close> of round \<open>d\<close> on diagonal \<open>k\<close>, relative to the points \<open>u\<close> of the round before:
  it is on the grid or one step off it beside a point of \<open>u\<close>, it dominates its neighbours in \<open>u\<close>
  and everything \<open>d\<close> changes can reach, its run cannot go on, and the trace leads back from it.\<close>

definition furthest ::
  "string list \<Rightarrow> string list \<Rightarrow> int list list \<Rightarrow> int \<Rightarrow> (int \<Rightarrow> int) \<Rightarrow> int \<Rightarrow> int \<Rightarrow> bool" where
  "furthest a b T d u k x \<longleftrightarrow>
     0 \<le> x \<and> k \<le> x \<and> d \<le> 2 * x - k \<and> blocked a b x (x - k) \<and>
     (int (length a) < x \<longrightarrow> \<bar>k - 1\<bar> \<le> d - 1 \<and> x - 1 \<le> u (k - 1)) \<and>
     (int (length b) < x - k \<longrightarrow> \<bar>k + 1\<bar> \<le> d - 1 \<and> x \<le> u (k + 1)) \<and>
     (\<bar>k + 1\<bar> \<le> d - 1 \<longrightarrow> u (k + 1) \<le> x) \<and>
     (\<bar>k - 1\<bar> \<le> d - 1 \<longrightarrow> u (k - 1) + 1 \<le> x) \<and>
     traced a b T d x (x - k) \<and>
     (\<forall>p q. reach a b (nat d) p q \<longrightarrow> int p - int q = k \<longrightarrow> int p \<le> x)"

definition at_end :: "string list \<Rightarrow> string list \<Rightarrow> int \<Rightarrow> int \<Rightarrow> bool" where
  "at_end a b x y \<longleftrightarrow> int (length a) \<le> x \<and> int (length b) \<le> y"

text \<open>What round \<open>d\<close> starts from.\<close>

definition round_start ::
  "string list \<Rightarrow> string list \<Rightarrow> int list list \<Rightarrow> int \<Rightarrow> (int \<Rightarrow> int) \<Rightarrow> bool" where
  "round_start a b T d v \<longleftrightarrow>
     0 \<le> d \<and> length T = nat d \<and> (d = 0 \<longrightarrow> v = (\<lambda>_. 0)) \<and>
     (d > 0 \<longrightarrow> (\<forall>k. on_diag (d - 1) k \<longrightarrow>
        furthest a b T (d - 1) v k (v k) \<and> \<not> at_end a b (v k) (v k - k)))"

lemma furthest_cong:
  "u (k - 1) = u' (k - 1) \<Longrightarrow> u (k + 1) = u' (k + 1) \<Longrightarrow> furthest a b T d u k x = furthest a b T d u' k x"
  by (simp add: furthest_def)

lemma furthest_extend:
  "0 \<le> d \<Longrightarrow> nat d < length T \<Longrightarrow> furthest a b (T @ T') d u k x = furthest a b T d u k x"
  by (simp add: furthest_def traced_extend)

text \<open>The two ways into a diagonal.\<close>

lemma enter_cases:
  assumes "on_diag d k" and "d > 0"
  obtains (down) "on_diag (d - 1) (k + 1)" "enter v d k = v (k + 1)"
      "k = - d \<or> (k \<noteq> d \<and> v (k - 1) < v (k + 1))"
      "\<bar>k - 1\<bar> \<le> d - 1 \<longrightarrow> v (k - 1) + 1 \<le> v (k + 1)"
  | (right) "on_diag (d - 1) (k - 1)" "enter v d k = v (k - 1) + 1"
      "\<not> (k = - d \<or> (k \<noteq> d \<and> v (k - 1) < v (k + 1)))"
      "\<bar>k + 1\<bar> \<le> d - 1 \<longrightarrow> v (k + 1) \<le> v (k - 1) + 1"
proof (cases "k = - d \<or> (k \<noteq> d \<and> v (k - 1) < v (k + 1))")
  case True
  have "\<bar>k + 1\<bar> \<le> d - 1"
  proof -
    have "k \<noteq> d" using True assms by auto
    then have "k \<noteq> d - 1" "k < d" using assms by (auto simp: on_diag_def)
    then show ?thesis using assms by (auto simp: on_diag_def)
  qed
  moreover have "even (k + 1 - (d - 1))" using assms(1) by (simp add: on_diag_def)
  ultimately show ?thesis using True down by (force simp: on_diag_def enter_def)
next
  case False
  then have "k \<noteq> - d" by simp
  moreover have "k \<noteq> 1 - d" using assms by (auto simp: on_diag_def)
  ultimately have "\<bar>k - 1\<bar> \<le> d - 1" using assms by (auto simp: on_diag_def)
  moreover have "even (k - 1 - (d - 1))" using assms(1) by (simp add: on_diag_def)
  ultimately show ?thesis using False right by (auto simp: on_diag_def enter_def)
qed

lemma on_diag_neighbour:
  "on_diag d k \<Longrightarrow> \<bar>k - 1\<bar> \<le> d - 1 \<Longrightarrow> on_diag (d - 1) (k - 1)"
  "on_diag d k \<Longrightarrow> \<bar>k + 1\<bar> \<le> d - 1 \<Longrightarrow> on_diag (d - 1) (k + 1)"
  by (auto simp: on_diag_def)

lemma round_startD:
  "round_start a b T d v \<Longrightarrow> 0 < d \<Longrightarrow> on_diag (d - 1) k \<Longrightarrow>
     furthest a b T (d - 1) v k (v k) \<and> \<not> at_end a b (v k) (v k - k)"
  by (simp add: round_start_def)

lemma enter_point:
  assumes "round_start a b T d v" and "on_diag d k" and "0 < d"
  shows "0 \<le> enter v d k \<and> k \<le> enter v d k \<and> d \<le> 2 * enter v d k - k \<and>
    (\<bar>k + 1\<bar> \<le> d - 1 \<longrightarrow> v (k + 1) \<le> enter v d k) \<and>
    (\<bar>k - 1\<bar> \<le> d - 1 \<longrightarrow> v (k - 1) + 1 \<le> enter v d k)"
proof (cases rule: enter_cases [OF assms(2,3), of v, case_names down right])
  case down
  from round_startD [OF assms(1,3) down(1)] have "furthest a b T (d - 1) v (k + 1) (v (k + 1))" ..
  with down show ?thesis by (auto simp: furthest_def)
next
  case right
  from round_startD [OF assms(1,3) right(1)] have "furthest a b T (d - 1) v (k - 1) (v (k - 1))" ..
  with right show ?thesis by (auto simp: furthest_def)
qed

lemma enter_off_right:
  assumes "round_start a b T d v" and "on_diag d k" and "0 < d" and "int (length a) < enter v d k"
  shows "\<bar>k - 1\<bar> \<le> d - 1 \<and> enter v d k - 1 \<le> v (k - 1)"
proof (cases rule: enter_cases [OF assms(2,3), of v, case_names down right])
  case down
  from round_startD [OF assms(1,3) down(1)] have "furthest a b T (d - 1) v (k + 1) (v (k + 1))" ..
  with down assms(4) have k: "\<bar>k\<bar> \<le> d - 2" "v (k + 1) - 1 \<le> v k"
    by (auto simp: furthest_def)
  then have "on_diag (d - 1) (k - 1)" using assms(2) by (intro on_diag_neighbour) auto
  from round_startD [OF assms(1,3) this] k have "v k \<le> v (k - 1)"
    by (auto simp: furthest_def)
  with k down show ?thesis by auto
next
  case right
  then show ?thesis by (auto simp: on_diag_def)
qed

lemma enter_off_below:
  assumes "round_start a b T d v" and "on_diag d k" and "0 < d" and "int (length b) < enter v d k - k"
  shows "\<bar>k + 1\<bar> \<le> d - 1 \<and> enter v d k \<le> v (k + 1)"
proof (cases rule: enter_cases [OF assms(2,3), of v, case_names down right])
  case down
  then show ?thesis by (auto simp: on_diag_def)
next
  case right
  from round_startD [OF assms(1,3) right(1)] have "furthest a b T (d - 1) v (k - 1) (v (k - 1))" ..
  with right assms(4) have k: "\<bar>k\<bar> \<le> d - 2" "v (k - 1) \<le> v k"
    by (auto simp: furthest_def)
  then have "on_diag (d - 1) (k + 1)" using assms(2) by (intro on_diag_neighbour) auto
  from round_startD [OF assms(1,3) this] k have "v k + 1 \<le> v (k + 1)"
    by (auto simp: furthest_def)
  with k right show ?thesis by auto
qed

lemma nth_snapshot:
  "\<bar>j\<bar> \<le> d \<Longrightarrow> map v [- d..d] ! nat (j + d) = v j"
proof -
  assume "\<bar>j\<bar> \<le> d"
  then have "- d + int (nat (j + d)) = j" "- d + int (nat (j + d)) \<le> d" by linarith+
  then have "[- d..d] ! nat (j + d) = j" using nth_upto by metis
  with \<open>\<bar>j\<bar> \<le> d\<close> show ?thesis by simp
qed

lemma prev_diag_enter:
  assumes "on_diag d k" and "0 < d"
  shows "prev_diag (map v [- d..d]) d k =
    (if k = - d \<or> (k \<noteq> d \<and> v (k - 1) < v (k + 1)) then k + 1 else k - 1)"
proof (cases "\<bar>k\<bar> = d")
  case True
  with assms show ?thesis by (auto simp: prev_diag_def)
next
  case False
  with assms have "\<bar>k - 1\<bar> \<le> d" "\<bar>k + 1\<bar> \<le> d" by (auto simp: on_diag_def)
  from nth_snapshot [OF this(1), of v] nth_snapshot [OF this(2), of v]
  show ?thesis unfolding prev_diag_def by simp
qed

text \<open>One step of the walk back undoes one step of the rounds.\<close>

lemma backtrack_step:
  assumes "0 < d" and "length T = nat d" and "\<bar>pk\<bar> \<le> d"
    and pk: "prev_diag (map v [- d..d]) d (x - y) = pk"
    and walk: "walk a (v pk) (v pk - pk) x y acc = (x', y', acc')"
  shows "backtrack_from a b (T @ [map v [- d..d]]) (nat d) x y acc =
    backtrack_from a b T (nat (d - 1)) (v pk) (v pk - pk)
      ((if x' = v pk
        then \<lparr>o_kind = AddLine, o_text = b ! nat (y' - 1), o_old = 0, o_new = nat y'\<rparr>
        else \<lparr>o_kind = DelLine, o_text = a ! nat (x' - 1), o_old = nat x', o_new = 0\<rparr>) # acc')"
proof -
  obtain e where e: "nat d = Suc e" using assms(1) by (metis Suc_pred' zero_less_nat_eq)
  then have d: "1 + int e = d" by linarith
  have ne: "nat (d - 1) = e" using e by linarith
  let ?T = "T @ [map v [- d..d]]"
  have "?T ! Suc e = map v [- d..d]" using assms(2) e by (simp add: nth_append)
  moreover have "e < length T" using assms(2) e by simp
  ultimately show ?thesis
    using pk walk nth_snapshot [OF assms(3), of v] backtrack_from_extend [of e T]
    unfolding e ne by (simp add: Let_def d)
qed

lemma traced_via:
  assumes d: "0 < d" and len: "length T = nat d" and pk: "\<bar>pk\<bar> \<le> d"
    and prev: "prev_diag (map v [- d..d]) d k = pk"
    and pos: "0 \<le> v pk" "pk \<le> v pk"
    and traced: "traced a b T (d - 1) (v pk) (v pk - pk)"
    and entry: "v pk \<le> e" "v pk - pk \<le> e - k" "e = v pk \<or> e - k = v pk - pk"
    and run: "run_to a b e (e - k) t"
    and step: "\<And>acc. e \<le> int (length a) \<Longrightarrow> e - k \<le> int (length b) \<Longrightarrow>
      script_from a b (nat e) (nat (e - k)) acc \<Longrightarrow>
      script_from a b (nat (v pk)) (nat (v pk - pk))
        ((if e = v pk
          then \<lparr>o_kind = AddLine, o_text = b ! nat (e - k - 1), o_old = 0, o_new = nat (e - k)\<rparr>
          else \<lparr>o_kind = DelLine, o_text = a ! nat (e - 1), o_old = nat e, o_new = 0\<rparr>) # acc)"
  shows "traced a b (T @ [map v [- d..d]]) d (e + int t) (e + int t - k)"
proof -
  let ?T = "T @ [map v [- d..d]]"
  have y: "e + int t - k = e - k + int t" by simp
  have d1: "nat d = Suc (nat (d - 1))" using d by simp
  have "script_from a b 0 0 (backtrack_from a b ?T (nat d) (e + int t) (e - k + int t) acc) \<and>
      changes (backtrack_from a b ?T (nat d) (e + int t) (e - k + int t) acc) = nat d + changes acc"
    if inside: "e + int t \<le> int (length a)" "e - k + int t \<le> int (length b)"
      and acc: "script_from a b (nat (e + int t)) (nat (e - k + int t)) acc" for acc
  proof -
    obtain acc' where
      acc': "walk a (v pk) (v pk - pk) (e + int t) (e - k + int t) acc = (e, e - k, acc')"
        "script_from a b (nat e) (nat (e - k)) acc'" "changes acc' = changes acc"
      using walk_run [of "v pk" "v pk - pk" e "e - k" a b t acc] pos entry run inside acc by auto
    have e: "e \<le> int (length a)" "e - k \<le> int (length b)" using inside by auto
    have px: "v pk \<le> int (length a)" "v pk - pk \<le> int (length b)" using inside entry by auto
    have prev': "prev_diag (map v [- d..d]) d (e + int t - (e - k + int t)) = pk"
      using prev by simp
    define ops where "ops = (if e = v pk
      then \<lparr>o_kind = AddLine, o_text = b ! nat (e - k - 1), o_old = 0, o_new = nat (e - k)\<rparr>
      else \<lparr>o_kind = DelLine, o_text = a ! nat (e - 1), o_old = nat e, o_new = 0\<rparr>) # acc'"
    have "changes ops = Suc (changes acc)" using acc'(3) by (simp add: ops_def)
    moreover have "script_from a b (nat (v pk)) (nat (v pk - pk)) ops"
      unfolding ops_def by (rule step [OF e acc'(2)])
    with traced px have
      "script_from a b 0 0 (backtrack_from a b T (nat (d - 1)) (v pk) (v pk - pk) ops)"
      "changes (backtrack_from a b T (nat (d - 1)) (v pk) (v pk - pk) ops) = nat (d - 1) + changes ops"
      unfolding traced_def by blast+
    moreover have "backtrack_from a b ?T (nat d) (e + int t) (e - k + int t) acc =
        backtrack_from a b T (nat (d - 1)) (v pk) (v pk - pk) ops"
      unfolding ops_def by (rule backtrack_step [OF d len pk prev' acc'(1)])
    ultimately show ?thesis by (simp only: d1) simp
  qed
  then show ?thesis by (simp add: traced_def y)
qed

lemma traced_step:
  assumes start: "round_start a b T d v" and k: "on_diag d k" and d: "0 < d"
    and run: "run_to a b (enter v d k) (enter v d k - k) t"
  shows "traced a b (T @ [map v [- d..d]]) d (enter v d k + int t) (enter v d k + int t - k)"
proof -
  have len: "length T = nat d" using start by (simp add: round_start_def)
  note prev = prev_diag_enter [OF k d, of v]
  show ?thesis
  proof (cases rule: enter_cases [OF k d, of v, case_names down right])
    case down
    have f: "furthest a b T (d - 1) v (k + 1) (v (k + 1))" using round_startD [OF start d down(1)] ..
    then have pos: "0 \<le> v (k + 1)" "k + 1 \<le> v (k + 1)"
      and traced: "traced a b T (d - 1) (v (k + 1)) (v (k + 1) - (k + 1))" by (simp_all add: furthest_def)
    then have nat: "nat (v (k + 1) - k) = Suc (nat (v (k + 1) - (k + 1)))"
      "v (k + 1) - k - 1 = v (k + 1) - (k + 1)" by auto
    show ?thesis unfolding down(2)
    proof (rule traced_via [where v = v and pk = "k + 1", OF d len _ _ pos traced])
      show "\<bar>k + 1\<bar> \<le> d" using down(1) by (simp add: on_diag_def)
      show "prev_diag (map v [- d..d]) d k = k + 1" using prev down(3) by simp
      show "run_to a b (v (k + 1)) (v (k + 1) - k) t" using run down(2) by simp
    qed (use pos nat in \<open>auto simp: diff_diff_eq\<close>)
  next
    case right
    have f: "furthest a b T (d - 1) v (k - 1) (v (k - 1))" using round_startD [OF start d right(1)] ..
    then have pos: "0 \<le> v (k - 1)" "k - 1 \<le> v (k - 1)"
      and traced: "traced a b T (d - 1) (v (k - 1)) (v (k - 1) - (k - 1))" by (simp_all add: furthest_def)
    then have nat: "nat (v (k - 1) + 1) = Suc (nat (v (k - 1)))"
      "v (k - 1) + 1 - k = v (k - 1) - (k - 1)" by auto
    show ?thesis unfolding right(2)
    proof (rule traced_via [where v = v and pk = "k - 1", OF d len _ _ pos traced])
      show "\<bar>k - 1\<bar> \<le> d" using right(1) by (simp add: on_diag_def)
      show "prev_diag (map v [- d..d]) d k = k - 1" using prev right(3) by simp
      show "run_to a b (v (k - 1) + 1) (v (k - 1) + 1 - k) t" using run right(2) by simp
    qed (use pos nat in auto)
  qed
qed

text \<open>What \<open>d\<close> changes reach is dominated on every diagonal of the round.\<close>

lemma reach_dominated:
  assumes start: "round_start a b T d v" and d: "0 < d"
    and new: "\<And>k x. on_diag d k \<Longrightarrow> f k = x \<Longrightarrow>
      enter v d k \<le> x \<and> blocked a b x (x - k)"
  shows "reach a b (nat d) p q \<Longrightarrow> int p \<le> f (int p - int q)"
proof -
  have one: "nat d = Suc (nat (d - 1))" using d by simp
  have old: "int p \<le> v (int p - int q)" "on_diag (d - 1) (int p - int q)"
    if "reach a b (nat (d - 1)) p q" for p q
  proof -
    show diag: "on_diag (d - 1) (int p - int q)" using reach_diag [OF that] d by simp
    from round_startD [OF start d this] that show "int p \<le> v (int p - int q)"
      by (simp add: furthest_def)
  qed
  have "int p \<le> f (int p - int q)" if "reach a b e p q" "e = nat d" for e
    using that
  proof (induction rule: reach.induct)
    case reach_start
    with d show ?case by simp
  next
    case (reach_same e x y)
    then have IH: "int x \<le> f (int x - int y)" by simp
    have diag: "on_diag d (int x - int y)" using reach_diag [OF reach_same.hyps(1)] reach_same.prems d by simp
    have "blocked a b (f (int x - int y)) (f (int x - int y) - (int x - int y))"
      using new [OF diag refl] ..
    with reach_same.hyps have "f (int x - int y) \<noteq> int x" by (auto simp: blocked_def)
    with IH show ?case by simp
  next
    case (reach_del e x y)
    then have r: "reach a b (nat (d - 1)) x y" using one by simp
    let ?k = "int (Suc x) - int y"
    have k1: "?k - 1 = int x - int y" by simp
    have "on_diag d ?k" using old(2) [OF r] by (auto simp: on_diag_def)
    moreover have "\<bar>?k - 1\<bar> \<le> d - 1" using old(2) [OF r] unfolding k1 by (simp add: on_diag_def)
    ultimately have "v (int x - int y) + 1 \<le> enter v d ?k"
      using enter_point [OF start _ d, of ?k] unfolding k1 by blast
    with old(1) [OF r] new [OF \<open>on_diag d ?k\<close> refl] show ?case by simp
  next
    case (reach_add e x y)
    then have r: "reach a b (nat (d - 1)) x y" using one by simp
    let ?k = "int x - int (Suc y)"
    have k1: "?k + 1 = int x - int y" by simp
    have "on_diag d ?k" using old(2) [OF r] by (auto simp: on_diag_def)
    moreover have "\<bar>?k + 1\<bar> \<le> d - 1" using old(2) [OF r] unfolding k1 by (simp add: on_diag_def)
    ultimately have "v (int x - int y) \<le> enter v d ?k"
      using enter_point [OF start _ d, of ?k] unfolding k1 by blast
    with old(1) [OF r] new [OF \<open>on_diag d ?k\<close> refl] show ?case by simp
  qed
  then show "reach a b (nat d) p q \<Longrightarrow> int p \<le> f (int p - int q)" by simp
qed

lemma reach_zero:
  "reach a b 0 p q \<Longrightarrow> blocked a b x x \<Longrightarrow> 0 \<le> x \<Longrightarrow> p = q \<and> int p \<le> x"
proof -
  assume x: "blocked a b x x" "0 \<le> x"
  have "p = q \<and> int p \<le> x" if "reach a b e p q" "e = 0" for e
    using that
  proof (induction rule: reach.induct)
    case (reach_same e p q)
    then have "p = q" "int p \<le> x" by auto
    with reach_same.hyps x have "int p \<noteq> x" by (auto simp: blocked_def)
    with \<open>p = q\<close> \<open>int p \<le> x\<close> show ?case by simp
  qed (use x in auto)
  then show "reach a b 0 p q \<Longrightarrow> p = q \<and> int p \<le> x" by simp
qed

definition frontier :: "string list \<Rightarrow> string list \<Rightarrow> (int \<Rightarrow> int) \<Rightarrow> int \<Rightarrow> int \<Rightarrow> int" where
  "frontier a b v d k = fst (slide a b (enter v d k) (enter v d k - k) 0)"

lemma slide_counts_only: "fst (slide a b x y s) = fst (slide a b x y s')"
proof (induction a b x y s arbitrary: s' rule: slide.induct)
  case (1 a b x y s)
  show ?case
  proof (cases "x < int (length a) \<and> y < int (length b) \<and> a ! nat x = b ! nat y")
    case True
    from "1.IH" [OF this, of "s' + 1"] True show ?thesis
      by (subst (1 2) slide.simps) (simp only: if_True simp_thms)
  next
    case False
    then show ?thesis by (subst (1 2) slide.simps) (simp only: if_False fst_conv)
  qed
qed

lemma frontier_run:
  obtains t where "frontier a b v d k = enter v d k + int t"
    "run_to a b (enter v d k) (enter v d k - k) t"
    "blocked a b (frontier a b v d k) (frontier a b v d k - k)"
proof -
  obtain x y s where s: "slide a b (enter v d k) (enter v d k - k) 0 = (x, y, s)"
    by (cases "slide a b (enter v d k) (enter v d k - k) 0") auto
  from slide_run [OF s] obtain t where t: "x = enter v d k + int t" "y = enter v d k - k + int t"
    "run_to a b (enter v d k) (enter v d k - k) t" "blocked a b x y" by blast
  from t(1,2) have "y = x - k" by simp
  with t s show ?thesis by (intro that) (simp_all add: frontier_def)
qed

lemma frontier_off_grid:
  assumes "round_start a b T d v" and "on_diag d k" and "0 < d"
  shows "int (length a) < frontier a b v d k \<Longrightarrow>
      \<bar>k - 1\<bar> \<le> d - 1 \<and> frontier a b v d k - 1 \<le> v (k - 1)"
    and "int (length b) < frontier a b v d k - k \<Longrightarrow>
      \<bar>k + 1\<bar> \<le> d - 1 \<and> frontier a b v d k \<le> v (k + 1)"
proof -
  obtain t where t: "frontier a b v d k = enter v d k + int t"
    "run_to a b (enter v d k) (enter v d k - k) t" by (rule frontier_run)
  show "\<bar>k - 1\<bar> \<le> d - 1 \<and> frontier a b v d k - 1 \<le> v (k - 1)"
    if "int (length a) < frontier a b v d k"
  proof -
    have "t = 0" using t that by (auto simp: run_to_def)
    with t that enter_off_right [OF assms] show ?thesis by simp
  qed
  show "\<bar>k + 1\<bar> \<le> d - 1 \<and> frontier a b v d k \<le> v (k + 1)"
    if "int (length b) < frontier a b v d k - k"
  proof -
    have "t = 0" using t that by (auto simp: run_to_def)
    with t that enter_off_below [OF assms] show ?thesis by simp
  qed
qed

lemma frontier_zero:
  assumes "round_start a b T 0 v"
  shows "furthest a b (T @ [map v [- 0..0]]) 0 v 0 (frontier a b v 0 0)"
proof -
  have T: "T = []" and v: "v = (\<lambda>_. 0)" using assms by (auto simp: round_start_def)
  obtain t where t: "frontier a b v 0 0 = enter v 0 0 + int t"
    "run_to a b (enter v 0 0) (enter v 0 0 - 0) t"
    "blocked a b (frontier a b v 0 0) (frontier a b v 0 0 - 0)" by (rule frontier_run)
  have e: "enter v 0 0 = 0" by (simp add: enter_def v)
  have x: "frontier a b v 0 0 = int t" using t(1) e by simp
  have "traced a b (T @ [map v [- 0..0]]) 0 (int t) (int t)"
    unfolding traced_def
  proof (intro impI allI)
    fix acc
    assume "int t \<le> int (length a) \<and> int t \<le> int (length b)"
      and "script_from a b (nat (int t)) (nat (int t)) acc"
    then show "script_from a b 0 0 (backtrack_from a b (T @ [map v [- 0..0]]) (nat 0) (int t) (int t) acc) \<and>
      changes (backtrack_from a b (T @ [map v [- 0..0]]) (nat 0) (int t) (int t) acc) = nat 0 + changes acc"
      using walk_run [of 0 0 0 0 a b t acc] t(2) e by auto
  qed
  moreover have "t \<le> length a \<and> t \<le> length b" using t(2) e by (cases "t = 0") (auto simp: run_to_def)
  moreover have "int p \<le> int t" if "reach a b 0 p q" for p q
    using reach_zero [OF that, of "int t"] t(3) x by simp
  ultimately show ?thesis using t(3) x by (auto simp: furthest_def)
qed

lemma frontier_furthest:
  assumes start: "round_start a b T d v" and k: "on_diag d k"
  shows "furthest a b (T @ [map v [- d..d]]) d v k (frontier a b v d k)"
proof (cases "d = 0")
  case True
  with k have "k = 0" by (simp add: on_diag_def)
  with True start frontier_zero show ?thesis by auto
next
  case False
  then have d: "0 < d" using start by (simp add: round_start_def)
  obtain t where t: "frontier a b v d k = enter v d k + int t"
    "run_to a b (enter v d k) (enter v d k - k) t"
    "blocked a b (frontier a b v d k) (frontier a b v d k - k)" by (rule frontier_run)
  note off = frontier_off_grid [OF start k d]
  note point = enter_point [OF start k d]
  have traced: "traced a b (T @ [map v [- d..d]]) d (frontier a b v d k) (frontier a b v d k - k)"
    using traced_step [OF start k d t(2)] t(1) by simp
  have dom: "int p \<le> frontier a b v d (int p - int q)" if "reach a b (nat d) p q" for p q
  proof (rule reach_dominated [OF start d _ that])
    fix j x
    assume "frontier a b v d j = x"
    then show "enter v d j \<le> x \<and> blocked a b x (x - j)" by (metis frontier_run le_add_same_cancel1 of_nat_0_le_iff)
  qed
  have "0 \<le> frontier a b v d k \<and> k \<le> frontier a b v d k \<and> d \<le> 2 * frontier a b v d k - k \<and>
      (\<bar>k + 1\<bar> \<le> d - 1 \<longrightarrow> v (k + 1) \<le> frontier a b v d k) \<and>
      (\<bar>k - 1\<bar> \<le> d - 1 \<longrightarrow> v (k - 1) + 1 \<le> frontier a b v d k)"
    using point t(1) by auto
  with off traced dom t(3) show ?thesis unfolding furthest_def by blast
qed

lemma frontier_end:
  assumes start: "round_start a b T d v" and k: "on_diag d k"
    and fin: "at_end a b (frontier a b v d k) (frontier a b v d k - k)"
  shows "frontier a b v d k = int (length a)" and "frontier a b v d k - k = int (length b)"
proof -
  let ?x = "frontier a b v d k"
  have f: "furthest a b (T @ [map v [- d..d]]) d v k ?x" by (rule frontier_furthest [OF start k])
  have "\<not> int (length a) < ?x"
  proof
    assume "int (length a) < ?x"
    with f have n: "\<bar>k - 1\<bar> \<le> d - 1" "?x - 1 \<le> v (k - 1)" by (auto simp: furthest_def)
    with k have "0 < d" "on_diag (d - 1) (k - 1)" by (auto simp: on_diag_def)
    from round_startD [OF start this] n \<open>int (length a) < ?x\<close> fin show False
      by (auto simp: at_end_def)
  qed
  moreover have "\<not> int (length b) < ?x - k"
  proof
    assume "int (length b) < ?x - k"
    with f have n: "\<bar>k + 1\<bar> \<le> d - 1" "?x \<le> v (k + 1)" by (auto simp: furthest_def)
    with k have "0 < d" "on_diag (d - 1) (k + 1)" by (auto simp: on_diag_def)
    from round_startD [OF start this] n \<open>int (length b) < ?x - k\<close> fin show False
      by (auto simp: at_end_def)
  qed
  ultimately show "?x = int (length a)" "?x - k = int (length b)" using fin by (auto simp: at_end_def)
qed

section \<open>The rounds\<close>

text \<open>\<open>swept\<close>: how far the inner loop has come, from what the round started with (\<open>w\<close>).\<close>

definition swept ::
  "string list \<Rightarrow> string list \<Rightarrow> (int \<Rightarrow> int) \<Rightarrow> int \<Rightarrow> int \<Rightarrow> (int \<Rightarrow> int) \<Rightarrow> bool" where
  "swept a b w d k v \<longleftrightarrow>
     even (k - d) \<and> - d \<le> k \<and> k \<le> d + 2 \<and> (\<forall>j. odd (j - d) \<longrightarrow> v j = w j) \<and>
     (\<forall>j < k. on_diag d j \<longrightarrow>
        v j = frontier a b w d j \<and> \<not> at_end a b (frontier a b w d j) (frontier a b w d j - j))"

lemma swept_begin: "0 \<le> d \<Longrightarrow> swept a b w d (- d) w"
  by (auto simp: swept_def on_diag_def)

lemma swept_next:
  assumes "swept a b w d k v" and "k \<le> d"
    and "\<not> at_end a b (frontier a b w d k) (frontier a b w d k - k)"
  shows "swept a b w d (k + 2) (v(k := frontier a b w d k))"
proof -
  have "j = k" if "j < k + 2" "\<not> j < k" "on_diag d j" for j
  proof -
    have "even (j - k)" using that assms(1) by (auto simp: swept_def on_diag_def)
    moreover have "j = k \<or> j = k + 1" using that by auto
    ultimately show ?thesis by auto
  qed
  with assms show ?thesis by (auto simp: swept_def)
qed

lemma swept_all:
  assumes start: "round_start a b T d w" and swept: "swept a b w d k v" and k: "d < k"
  shows "round_start a b (T @ [map w [- d..d]]) (d + 1) v"
proof -
  have d: "0 \<le> d" and len: "length T = nat d" using start by (simp_all add: round_start_def)
  have "furthest a b (T @ [map w [- d..d]]) d v j (v j) \<and> \<not> at_end a b (v j) (v j - j)"
    if j: "on_diag d j" for j
  proof -
    have "j < k" using j k by (auto simp: on_diag_def)
    with swept j have v: "v j = frontier a b w d j" "\<not> at_end a b (v j) (v j - j)"
      by (auto simp: swept_def)
    have "odd (j - 1 - d)" "odd (j + 1 - d)" using j by (auto simp: on_diag_def)
    then have "v (j - 1) = w (j - 1)" "v (j + 1) = w (j + 1)" using swept by (auto simp: swept_def)
    with furthest_cong frontier_furthest [OF start j] v show ?thesis by metis
  qed
  then show ?thesis using d len by (simp add: round_start_def nat_add_distrib)
qed

text \<open>One round: what it finds, what it leaves, and what it may cost.\<close>

lemma script_k_round:
  assumes "round_start a b T d w" and "swept a b w d k v"
  shows "case script_k cap a b d k v s of
      RoundFound \<Rightarrow> (\<exists>j. on_diag d j \<and> frontier a b w d j = int (length a) \<and>
        frontier a b w d j - j = int (length b))
    | RoundNext v' s' \<Rightarrow> round_start a b (T @ [map w [- d..d]]) (d + 1) v' \<and>
        2 * (s' - s) \<le> (d + 2 - k) * (1 + int (min (length a) (length b)))
    | RoundTooLarge \<Rightarrow> 2 * (cap - s) < (d + 2 - k) * (1 + int (min (length a) (length b)))"
  using assms
proof (induction cap a b d k v s rule: script_k.induct)
  case (1 cap a b d k v s)
  let ?m = "1 + int (min (length a) (length b))"
  show ?case
  proof (cases "d < k")
    case True
    have "0 \<le> (d + 2 - k) * ?m" using "1.prems" by (simp add: swept_def)
    with True swept_all [OF "1.prems" True] show ?thesis by (subst script_k.simps) simp
  next
    case False
    have k: "on_diag d k" using False "1.prems" by (auto simp: on_diag_def swept_def)
    have "odd (k - 1 - d)" "odd (k + 1 - d)" using k by (auto simp: on_diag_def)
    then have enter: "enter v d k = enter w d k"
      using "1.prems" by (auto simp: swept_def enter_def)
    obtain x y s' where slide: "slide a b (enter v d k) (enter v d k - k) (s + 1) = (x, y, s')"
      by (cases "slide a b (enter v d k) (enter v d k - k) (s + 1)") auto
    have x: "x = frontier a b w d k"
      using slide slide_counts_only [of a b "enter w d k" "enter w d k - k" "s + 1" 0]
      by (simp add: frontier_def enter)
    have y: "y = x - k" using slide_run [OF slide] by auto
    have "0 \<le> enter w d k \<and> k \<le> enter w d k"
      using enter_point [OF "1.prems"(1) k] "1.prems"(1) k
      by (cases "d = 0") (auto simp: round_start_def enter_def on_diag_def)
    then have s': "s' \<le> s + ?m" using slide_steps [OF slide] by (simp add: enter)
    have less: "2 * ?m \<le> (d + 2 - k) * ?m"
      using False by (intro mult_right_mono) auto
    have split: "(d + 2 - k) * ?m = 2 * ?m + (d + 2 - (k + 2)) * ?m" by (simp add: algebra_simps)
    consider (cap) "s + 1 > cap \<or> s' > cap" | (found) "\<not> (s + 1 > cap \<or> s' > cap)" "at_end a b x y"
      | (on) "\<not> (s + 1 > cap \<or> s' > cap)" "\<not> at_end a b x y" by blast
    then show ?thesis
    proof cases
      case cap
      then have "script_k cap a b d k v s = RoundTooLarge"
        using False slide by (subst script_k.simps) (auto simp: Let_def)
      with cap s' less show ?thesis by auto
    next
      case found
      then have "script_k cap a b d k v s = RoundFound"
        using False slide by (subst script_k.simps) (auto simp: Let_def at_end_def)
      with found frontier_end [OF "1.prems"(1) k] k show ?thesis by (auto simp: x y)
    next
      case on
      then have step: "script_k cap a b d k v s = script_k cap a b d (k + 2) (v(k := x)) s'"
        using False slide by (subst script_k.simps) (auto simp: Let_def at_end_def)
      have "swept a b w d (k + 2) (v(k := x))"
        using swept_next [OF "1.prems"(2)] False on by (simp add: x y)
      have nc: "\<not> cap < s + 1" "\<not> cap < s'"
        "\<not> (int (length a) \<le> x \<and> int (length b) \<le> y)"
        using on by (simp_all add: at_end_def)
      have "case script_k cap a b d (k + 2) (v(k := x)) s' of
          RoundFound \<Rightarrow> (\<exists>j. on_diag d j \<and> frontier a b w d j = int (length a) \<and>
            frontier a b w d j - j = int (length b))
        | RoundNext v' s'' \<Rightarrow> round_start a b (T @ [map w [- d..d]]) (d + 1) v' \<and>
            2 * (s'' - s') \<le> (d + 2 - (k + 2)) * ?m
        | RoundTooLarge \<Rightarrow> 2 * (cap - s') < (d + 2 - (k + 2)) * ?m"
        using "1.IH" [OF False refl nc(1) refl refl slide [symmetric] refl nc(2) refl nc(3) "1.prems"(1)]
          \<open>swept a b w d (k + 2) (v(k := x))\<close> by blast
      with s' show ?thesis unfolding step split by (auto split: round_result.splits)
    qed
  qed
qed

lemma round_start_not_reached:
  assumes "round_start a b T d v" and "0 < d"
  shows "\<not> reach a b (nat (d - 1)) (length a) (length b)"
proof
  assume r: "reach a b (nat (d - 1)) (length a) (length b)"
  let ?k = "int (length a) - int (length b)"
  have "on_diag (d - 1) ?k" using reach_diag [OF r] assms(2) by simp
  from round_startD [OF assms this] r show False by (auto simp: furthest_def at_end_def)
qed

lemma rounds_end:
  assumes "round_start a b T d v" and "0 < d"
  shows "d \<le> int (length a + length b)"
proof (rule ccontr)
  assume "\<not> ?thesis"
  then have d: "int (length a + length b) < d" by simp
  let ?k = "int (length a) - int (length b)"
  show False
  proof (cases "even (?k - (d - 1))")
    case True
    then have "on_diag (d - 1) ?k" using d by (auto simp: on_diag_def)
    from round_startD [OF assms this] d show False by (auto simp: furthest_def at_end_def)
  next
    case False
    then have "odd (int (length a + length b) - (d - 1))" by simp
    then have "int (length a + length b) \<noteq> d - 1" by (metis diff_self even_zero)
    with d have d: "int (length a + length b) + 1 < d" by linarith
    then have "\<bar>?k + 1\<bar> \<le> d - 1" by linarith
    moreover have "even (?k + 1 - (d - 1))" using False by (auto simp: even_add)
    ultimately have "on_diag (d - 1) (?k + 1)" by (simp add: on_diag_def)
    from round_startD [OF assms this] d False show False
      by (auto simp: furthest_def at_end_def)
  qed
qed

text \<open>All rounds from \<open>d\<close> on.\<close>

lemma script_d_rounds:
  assumes "round_start a b T d v"
    and "\<And>e. reach a b e (length a) (length b) \<Longrightarrow> d \<le> int e"
  shows "case script_d cap a b d v T s of
      Inr ops \<Rightarrow> script_from a b 0 0 ops \<and>
        (\<forall>ops'. script_from a b 0 0 ops' \<longrightarrow> changes ops \<le> changes ops')
    | Inl _ \<Rightarrow> cap - s < (int (length a + length b) + 1 - d) * (int (length a + length b) + 1) *
        (1 + int (min (length a) (length b)))"
  using assms
proof (induction cap a b d v T s rule: script_d.induct)
  case (1 cap a b d v T s)
  let ?N = "int (length a + length b)" and ?m = "1 + int (min (length a) (length b))"
  let ?T = "T @ [map v [- d..d]]"
  note start = "1.prems"(1)
  have d: "0 \<le> d" and len: "length T = nat d" using start by (simp_all add: round_start_def)
  have more: "\<not> ?N < d" using rounds_end [OF start] by (cases "d = 0") (use d in auto)
  have round: "swept a b v d (- d) v" using d by (rule swept_begin)
  note round = script_k_round [OF start round, of cap s]
  have cost: "2 * ((d + 1) * ?m) = (d + 2 - - d) * ?m" by (simp add: algebra_simps)
  have "(d + 1) * ?m \<le> (?N + 1) * ?m" using more by (intro mult_right_mono) auto
  moreover have "(?N + 1 - d) * (?N + 1) * ?m = (?N + 1) * ?m + (?N + 1 - (d + 1)) * (?N + 1) * ?m"
    by (simp add: algebra_simps)
  moreover have "0 \<le> (?N + 1 - (d + 1)) * (?N + 1) * ?m" using more by simp
  ultimately have split: "(d + 1) * ?m + (?N + 1 - (d + 1)) * (?N + 1) * ?m \<le> (?N + 1 - d) * (?N + 1) * ?m"
    "(d + 1) * ?m \<le> (?N + 1 - d) * (?N + 1) * ?m" by linarith+
  show ?case
  proof (cases "script_k cap a b d (- d) v s")
    case RoundTooLarge
    then have "script_d cap a b d v T s = Inl ErrTooLarge" using more by (subst script_d.simps) simp
    moreover have "2 * (cap - s) < (d + 2 - - d) * ?m" using round unfolding RoundTooLarge by simp
    then have "cap - s < (d + 1) * ?m"
      unfolding cost [symmetric] by (simp only: mult_less_cancel_left_pos zero_less_numeral)
    ultimately show ?thesis using less_le_trans [OF _ split(2)] by (simp only: sum.case)
  next
    case RoundFound
    then have ops: "script_d cap a b d v T s = Inr (backtrack a b ?T)"
      using more by (subst script_d.simps) (simp add: Let_def)
    obtain j where j: "on_diag d j" "frontier a b v d j = int (length a)"
        "frontier a b v d j - j = int (length b)"
      using round unfolding RoundFound by auto
    have "traced a b ?T d (int (length a)) (int (length b))"
      using frontier_furthest [OF start j(1)] j(2,3) unfolding furthest_def by metis
    then have "script_from a b 0 0 (backtrack a b ?T) \<and> changes (backtrack a b ?T) = nat d"
      using len by (auto simp: traced_def backtrack_def)
    moreover have "nat d \<le> changes ops'" if "script_from a b 0 0 ops'" for ops'
      using "1.prems"(2) [of "changes ops'"] script_reach [OF that reach_start] by simp
    ultimately show ?thesis by (simp add: ops)
  next
    case (RoundNext v' s')
    then have on: "script_d cap a b d v T s = script_d cap a b (d + 1) v' ?T s'"
      using more by (subst script_d.simps) (simp add: Let_def)
    have start': "round_start a b ?T (d + 1) v'" and "2 * (s' - s) \<le> (d + 2 - - d) * ?m"
      using round unfolding RoundNext by simp_all
    then have s': "s' - s \<le> (d + 1) * ?m"
      unfolding cost [symmetric] by (simp only: mult_le_cancel_left_pos zero_less_numeral)
    have late: "d + 1 \<le> int e" if "reach a b e (length a) (length b)" for e
      using "1.prems"(2) [OF that] that round_start_not_reached [OF start'] d
      by (cases "int e = d") auto
    note rest = "1.IH" [OF more refl RoundNext start' late]
    show ?thesis
    proof (cases "script_d cap a b (d + 1) v' ?T s'")
      case (Inl e)
      with rest have "cap - s' < (?N + 1 - (d + 1)) * (?N + 1) * ?m" by (simp only: sum.case)
      with s' have "cap - s < (d + 1) * ?m + (?N + 1 - (d + 1)) * (?N + 1) * ?m" by (simp only: diff_less_eq diff_le_eq)
      from less_le_trans [OF this split(1)] show ?thesis unfolding on Inl by (simp only: sum.case)
    next
      case (Inr ops)
      with rest show ?thesis unfolding on Inr sum.case by blast
    qed
  qed
qed

lemma script_within_cap:
  "case script_within cap a b of
      Inr ops \<Rightarrow> script_from a b 0 0 ops \<and>
        (\<forall>ops'. script_from a b 0 0 ops' \<longrightarrow> changes ops \<le> changes ops')
    | Inl _ \<Rightarrow> cap < (int (length a + length b) + 1) * (int (length a + length b) + 1) *
        (1 + int (min (length a) (length b)))"
proof -
  have "round_start a b [] 0 (\<lambda>_. 0)" by (simp add: round_start_def)
  from script_d_rounds [OF this, where cap = cap and s = 0]
  have "case script_d cap a b 0 (\<lambda>_. 0) [] 0 of
      Inr ops \<Rightarrow> script_from a b 0 0 ops \<and>
        (\<forall>ops'. script_from a b 0 0 ops' \<longrightarrow> changes ops \<le> changes ops')
    | Inl _ \<Rightarrow> cap - 0 < (int (length a + length b) + 1 - 0) * (int (length a + length b) + 1) *
        (1 + int (min (length a) (length b)))" by simp
  then show ?thesis
    by (simp add: script_within_def split: sum.splits)
qed

section \<open>The hunks are a patch\<close>

lemma fold_mark:
  "length (fold (\<lambda>j keep. keep[j := True]) js keep) = length keep"
  "i < length keep \<Longrightarrow>
     fold (\<lambda>j keep. keep[j := True]) js keep ! i \<longleftrightarrow> i \<in> set js \<or> keep ! i"
proof (induction js arbitrary: keep)
  case (Cons a js)
  { case 1 then show ?case using Cons.IH(1) by simp }
  { case 2 then show ?case using Cons.IH(2) [of "keep[a := True]"] by (cases "i = a") auto }
qed simp_all

lemma length_mark_window [simp]: "length (mark_window ops i keep) = length keep"
  by (simp add: mark_window_def Let_def fold_mark)

lemma mark_window_nth:
  assumes "length keep = length ops" and "j < length ops"
  shows "mark_window ops i keep ! j \<longleftrightarrow>
    keep ! j \<or> (o_kind (ops ! i) \<noteq> ContextLine \<and> i - context_lines \<le> j \<and> j \<le> i + context_lines)"
  using assms by (auto simp: mark_window_def Let_def fold_mark)

lemma fold_mark_window:
  assumes "length keep = length ops" and "j < length ops"
  shows "length (fold (mark_window ops) is keep) = length ops \<and>
    (fold (mark_window ops) is keep ! j \<longleftrightarrow>
      keep ! j \<or> (\<exists>i \<in> set is. o_kind (ops ! i) \<noteq> ContextLine \<and>
        i - context_lines \<le> j \<and> j \<le> i + context_lines))"
  using assms by (induction "is" arbitrary: keep) (auto simp: mark_window_nth)

lemma keep_marks_nth:
  assumes "j < length ops"
  shows "keep_marks ops ! j \<longleftrightarrow>
    (\<exists>i < length ops. o_kind (ops ! i) \<noteq> ContextLine \<and> i - context_lines \<le> j \<and> j \<le> i + context_lines)"
  using fold_mark_window [of "replicate (length ops) False" ops j "[0..<length ops]"] assms
  by (auto simp: keep_marks_def)

lemma length_keep_marks: "length (keep_marks ops) = length ops"
proof -
  have "length (fold (mark_window ops) is keep) = length keep" for "is" keep
    by (induction "is" arbitrary: keep) simp_all
  then show ?thesis by (simp add: keep_marks_def)
qed

lemma keep_marks_changed:
  "\<forall>(o', k) \<in> set (zip ops (keep_marks ops)). o_kind o' = ContextLine \<or> k"
proof -
  have "o_kind (ops ! j) = ContextLine \<or> keep_marks ops ! j" if "j < length ops" for j
    using that by (auto simp: keep_marks_nth)
  then show ?thesis by (auto simp: set_zip length_keep_marks)
qed

lemma slice_Cons_left: "i < length xs \<Longrightarrow> Suc i \<le> j \<Longrightarrow> slice i j xs = xs ! i # slice (Suc i) j xs"
  by (simp add: slice_def Cons_nth_drop_Suc [symmetric] take_Cons' Suc_diff_Suc)

lemma hunk_run_subset: "hunk_run xs x y = (ls, x', y', rest) \<Longrightarrow> set rest \<subseteq> set xs"
  by (induction xs x y arbitrary: ls x' y' rest rule: hunk_run.induct)
    (fastforce split: if_splits prod.splits)+

lemma hunk_run_applies:
  assumes "script_from a b x y (map fst xs)" and "hunk_run xs x y = (ls, x', y', rest)"
  shows "script_from a b x' y' (map fst rest) \<and> x \<le> x' \<and> x' \<le> length a \<and> y \<le> y' \<and> y' \<le> length b \<and>
    apply_lines ls (drop x a) = Some (slice y y' b, drop x' a)"
  using assms
proof (induction xs x y arbitrary: ls rest rule: hunk_run.induct)
  case (1 x y)
  then show ?case by (auto simp: slice_def)
next
  case (2 o' k xs x y)
  have bounds: "x \<le> length a \<and> y \<le> length b" if "script_from a b x y ops" for x y ops
    using that by (induction ops arbitrary: x y) (auto split: op_kind.splits dest: Suc_leD)
  show ?case
  proof (cases k)
    case False
    with "2.prems" bounds [OF "2.prems"(1)] show ?thesis by (auto simp: slice_def)
  next
    case True
    obtain x1 y1 where adv: "advance o' x y = (x1, y1)" by (cases "advance o' x y") auto
    with "2.prems" True obtain ls' where ls': "hunk_run xs x1 y1 = (ls', x', y', rest)"
        "ls = line_of o' # ls'" by (auto split: prod.splits)
    have "script_from a b x1 y1 (map fst xs)"
      using "2.prems"(1) adv by (cases "o_kind o'") (auto simp: advance_def)
    from "2.IH" [of "(x1, y1)" x1 y1, OF _ _ refl this ls'(1)] True adv
    have IH: "script_from a b x' y' (map fst rest)" "x1 \<le> x'" "x' \<le> length a" "y1 \<le> y'" "y' \<le> length b"
      "apply_lines ls' (drop x1 a) = Some (slice y1 y' b, drop x' a)" by auto
    show ?thesis
    proof (cases "o_kind o'")
      case AddLine
      with "2.prems"(1) adv have "x1 = x" "y1 = Suc y" "o_text o' = b ! y" "y < length b"
        by (auto simp: advance_def)
      with IH AddLine show ?thesis by (simp add: ls' line_of_def slice_Cons_left)
    next
      case DelLine
      with "2.prems"(1) adv have "x1 = Suc x" "y1 = y" "o_text o' = a ! x" "x < length a"
        by (auto simp: advance_def)
      with IH DelLine show ?thesis by (simp add: ls' line_of_def Cons_nth_drop_Suc [symmetric])
    next
      case ContextLine
      with "2.prems"(1) adv have "x1 = Suc x" "y1 = Suc y" "o_text o' = a ! x" "x < length a"
          "b ! y = a ! x" "y < length b"
        by (auto simp: advance_def)
      with IH ContextLine show ?thesis
        by (simp add: ls' line_of_def Cons_nth_drop_Suc [of x, symmetric] slice_Cons_left)
    qed
  qed
qed

lemma apply_hunks_skip:
  assumes "apply_hunks hs (Suc x) old = Some new"
  shows "apply_hunks hs x (l # old) = Some (l # new)"
proof (cases hs)
  case Nil
  with assms show ?thesis by simp
next
  case (Cons h hs')
  let ?skip = "h_old_start h - Suc (Suc x)"
  from Cons assms obtain out rest tl where h: "Suc (Suc x) \<le> h_old_start h" "?skip \<le> length old"
      "apply_lines (h_lines h) (drop ?skip old) = Some (out, rest)"
      "apply_hunks hs' (Suc x + length old - length rest) rest = Some tl"
      "new = take ?skip old @ out @ tl"
    by (auto simp: Let_def split: if_splits option.splits)
  have "h_old_start h - Suc x = Suc ?skip" using h(1) by simp
  with h Cons show ?thesis by (simp add: Let_def)
qed

lemma apply_hunks_of:
  assumes "script_from a b x y (map fst xs)"
    and "\<forall>(o', k) \<in> set xs. o_kind o' = ContextLine \<or> k"
  shows "apply_hunks (hunks_of xs x y) x (drop x a) = Some (drop y b)"
  using assms
proof (induction xs x y rule: hunks_of.induct)
  case (1 x y)
  then show ?case by simp
next
  case (2 o' k xs x y)
  show ?case
  proof (cases k)
    case False
    with "2.prems"(2) have "o_kind o' = ContextLine" by simp
    with "2.prems"(1) have o': "advance o' x y = (Suc x, Suc y)" "x < length a" "y < length b"
        "b ! y = a ! x" "script_from a b (Suc x) (Suc y) (map fst xs)"
      by (auto simp: advance_def)
    with "2.IH"(1) [OF _ refl, of "Suc x" "Suc y"] False "2.prems"(2)
    have "apply_hunks (hunks_of xs (Suc x) (Suc y)) (Suc x) (drop (Suc x) a) = Some (drop (Suc y) b)"
      by simp
    from apply_hunks_skip [OF this, of "a ! x"] False o' show ?thesis
      by (simp add: Cons_nth_drop_Suc) (metis Cons_nth_drop_Suc)
  next
    case True
    obtain x1 y1 where adv: "advance o' x y = (x1, y1)" by (cases "advance o' x y") auto
    obtain ls x2 y2 rest where run: "hunk_run xs x1 y1 = (ls, x2, y2, rest)"
      by (cases "hunk_run xs x1 y1") auto
    have whole: "hunk_run ((o', k) # xs) x y = (line_of o' # ls, x2, y2, rest)"
      using True adv run by simp
    from hunk_run_applies [OF "2.prems"(1) whole]
    have h: "script_from a b x2 y2 (map fst rest)" "x \<le> x2" "x2 \<le> length a" "y \<le> y2" "y2 \<le> length b"
      "apply_lines (line_of o' # ls) (drop x a) = Some (slice y y2 b, drop x2 a)" by auto
    have "set rest \<subseteq> set ((o', k) # xs)" using hunk_run_subset [OF whole] .
    with "2.prems"(2) have "\<forall>(o', k) \<in> set rest. o_kind o' = ContextLine \<or> k" by blast
    with "2.IH"(2) [OF _ adv [symmetric] refl run [symmetric] refl refl] True h(1)
    have "apply_hunks (hunks_of rest x2 y2) x2 (drop x2 a) = Some (drop y2 b)" by simp
    moreover have "slice y y2 b @ drop y2 b = drop y b"
      using h(4) by (metis append_take_drop_id drop_drop le_add_diff_inverse2 slice_def)
    ultimately show ?thesis using True adv run h by (simp add: Let_def del: apply_lines.simps)
  qed
qed

lemma script_all_context:
  "script_from a b x y ops \<Longrightarrow> list_all (\<lambda>o'. o_kind o' = ContextLine) ops \<Longrightarrow> drop x a = drop y b"
proof (induction ops arbitrary: x y)
  case (Cons o' ops)
  then have "drop (Suc x) a = drop (Suc y) b" "a ! x = b ! y" "x < length a" "y < length b" by auto
  then show ?case by (metis Cons_nth_drop_Suc)
qed simp

lemma group_patch:
  assumes "script_from a b 0 0 ops"
  shows "patch (group ops) a = Some b"
proof (cases "list_all (\<lambda>o'. o_kind o' = ContextLine) ops")
  case True
  with script_all_context [OF assms True] show ?thesis by (simp add: group_def patch_def)
next
  case False
  have "script_from a b 0 0 (map fst (zip ops (keep_marks ops)))"
    using assms by (simp add: length_keep_marks)
  from apply_hunks_of [OF this keep_marks_changed] False show ?thesis
    by (simp add: group_def patch_def)
qed


section \<open>Splitting\<close>

lemma split_nl_line:
  "CHR 0x0A \<notin> set l \<Longrightarrow> split_nl (l @ CHR 0x0A # s) = l # split_nl s"
  by (induction l) auto

lemma split_nl_last: "CHR 0x0A \<notin> set l \<Longrightarrow> split_nl l = [l]"
  by (induction l) auto

lemma replace_crlf_plain:
  "CHR 0x0D \<notin> set l \<Longrightarrow> replace_crlf (l @ CHR 0x0A # s) = l @ CHR 0x0A # replace_crlf s"
proof (induction l)
  case Nil
  then show ?case by (cases s) simp_all
next
  case (Cons c l)
  then show ?case by (cases l) auto
qed

lemma replace_crlf_crlf:
  "CHR 0x0D \<notin> set l \<Longrightarrow> replace_crlf (l @ CHR 0x0D # CHR 0x0A # s) = l @ CHR 0x0A # replace_crlf s"
proof (induction l)
  case (Cons c l)
  then show ?case by (cases l) auto
qed simp

definition plain_line :: "string \<Rightarrow> bool" where
  "plain_line l \<longleftrightarrow> CHR 0x0A \<notin> set l \<and> CHR 0x0D \<notin> set l"

lemma replace_crlf_lines:
  assumes "\<forall>l \<in> set ls. plain_line l"
  shows "replace_crlf (concat (map (\<lambda>l. l @ [CHR 0x0A]) ls)) = concat (map (\<lambda>l. l @ [CHR 0x0A]) ls)"
    and "replace_crlf (concat (map (\<lambda>l. l @ [CHR 0x0D, CHR 0x0A]) ls)) = concat (map (\<lambda>l. l @ [CHR 0x0A]) ls)"
  using assms
  by (induction ls) (auto simp: plain_line_def replace_crlf_plain replace_crlf_crlf)

lemma split_trimmed:
  assumes "\<forall>l \<in> set ls. plain_line l" and "ls \<noteq> []"
  shows "split_nl (trim_newline (concat (map (\<lambda>l. l @ [CHR 0x0A]) ls))) = ls"
  using assms
proof (induction ls)
  case (Cons l ls)
  show ?case
  proof (cases "ls = []")
    case True
    with Cons.prems show ?thesis by (simp add: trim_newline_def split_nl_last plain_line_def)
  next
    case False
    then have ne: "concat (map (\<lambda>l. l @ [CHR 0x0A]) ls) \<noteq> []" by (cases ls) auto
    then have "trim_newline (concat (map (\<lambda>l. l @ [CHR 0x0A]) (l # ls))) =
        l @ CHR 0x0A # trim_newline (concat (map (\<lambda>l. l @ [CHR 0x0A]) ls))"
      by (simp add: trim_newline_def butlast_append)
    with Cons False show ?thesis by (simp add: split_nl_line plain_line_def)
  qed
qed simp

section \<open>Properties\<close>

lemma script_counts:
  "script_from a b x y ops \<Longrightarrow>
     length b - y + count_kind DelLine ops = length a - x + count_kind AddLine ops \<and>
     x \<le> length a \<and> y \<le> length b"
  by (induction ops arbitrary: x y) (fastforce simp: count_kind_def split: op_kind.splits)+

lemma script_ok: "script a b = Inr ops \<Longrightarrow> script_from a b 0 0 ops"
  using script_within_cap [of maxSteps a b] by (simp add: script_def)

text \<open>C34. The hunks of a diff are a patch: applied to the old lines they give exactly the new ones; they
  are empty only when nothing changed; and the added and removed counts account for the change of
  length.\<close>

theorem diff_is_a_patch:
  assumes "lines_diff old new = Inr (added, removed, hs)"
  shows "patch hs (split_lines old) = Some (split_lines new) \<and>
    (hs = [] \<longleftrightarrow> split_lines old = split_lines new) \<and>
    length (split_lines new) + removed = length (split_lines old) + added"
proof (cases "split_lines old = split_lines new")
  case True
  with assms show ?thesis by (auto simp: lines_diff_def Let_def patch_def list.rel_eq split: if_splits)
next
  case False
  with assms obtain ops where ops: "script (split_lines old) (split_lines new) = Inr ops"
      "added = count_kind AddLine ops" "removed = count_kind DelLine ops" "hs = group ops"
    by (auto simp: lines_diff_def Let_def list.rel_eq split: if_splits sum.splits)
  note from_script = script_ok [OF ops(1)]
  have "patch hs (split_lines old) = Some (split_lines new)"
    using group_patch [OF from_script] ops by simp
  moreover from this False have "hs \<noteq> []" by (auto simp: patch_def)
  ultimately show ?thesis using script_counts [OF from_script] ops False by simp
qed

lemma diff_example:
  "lines_diff ''a\<newline>b\<newline>c'' ''a\<newline>x\<newline>c\<newline>'' = Inr (1, 1,
     [\<lparr>h_old_start = 1, h_new_start = 1, h_lines =
        [\<lparr>dl_kind = ContextLine, dl_text = ''a'', dl_old_no = 1, dl_new_no = 1\<rparr>,
         \<lparr>dl_kind = DelLine, dl_text = ''b'', dl_old_no = 2, dl_new_no = 0\<rparr>,
         \<lparr>dl_kind = AddLine, dl_text = ''x'', dl_old_no = 0, dl_new_no = 2\<rparr>,
         \<lparr>dl_kind = ContextLine, dl_text = ''c'', dl_old_no = 3, dl_new_no = 3\<rparr>]\<rparr>])"
  by code_simp

theorem diff_is_a_patch_witness:
  "patch (snd (snd (projr (lines_diff ''a\<newline>b\<newline>c'' ''a\<newline>x\<newline>c\<newline>'')))) [''a'', ''b'', ''c''] = Some [''a'', ''x'', ''c'']"
proof -
  have "split_lines ''a\<newline>b\<newline>c'' = [''a'', ''b'', ''c'']" "split_lines ''a\<newline>x\<newline>c\<newline>'' = [''a'', ''x'', ''c'']"
    by code_simp+
  with diff_is_a_patch [OF diff_example] show ?thesis by (simp only: diff_example sum.sel prod.sel)
qed

text \<open>C35. A script that is returned is a shortest one: it leads from the old lines to the new ones, with
  the right texts and numbers on every line, and no script with fewer added and removed lines
  does.\<close>

theorem script_is_shortest:
  assumes "script a b = Inr ops"
  shows "script_from a b 0 0 ops \<and>
    (\<forall>ops'. script_from a b 0 0 ops' \<longrightarrow> changes ops \<le> changes ops')"
  using script_within_cap [of maxSteps a b] assms by (simp add: script_def)

theorem script_is_shortest_witness:
  "\<exists>ops. script [''a'', ''b'', ''c''] [''b'', ''d''] = Inr ops \<and> changes ops = 3 \<and>
    (\<forall>ops'. script_from [''a'', ''b'', ''c''] [''b'', ''d''] 0 0 ops' \<longrightarrow> 3 \<le> changes ops')"
proof -
  obtain ops where ops: "script [''a'', ''b'', ''c''] [''b'', ''d''] = Inr ops" "changes ops = 3"
  proof -
    have "case script [''a'', ''b'', ''c''] [''b'', ''d''] of Inr ops \<Rightarrow> changes ops = 3 | Inl _ \<Rightarrow> False"
      by code_simp
    then show ?thesis using that by (auto split: sum.splits)
  qed
  with script_is_shortest [OF ops(1)] show ?thesis by auto
qed

text \<open>The work cap is the only reason for refusing: texts of at most 150 lines together always have a
  diff.\<close>

theorem small_texts_have_a_diff:
  assumes "length (split_lines old) + length (split_lines new) \<le> 150"
  shows "\<exists>added removed hs. lines_diff old new = Inr (added, removed, hs)"
proof (cases "script (split_lines old) (split_lines new)")
  case (Inr ops)
  with assms show ?thesis by (auto simp: lines_diff_def Let_def maxLines_def)
next
  case (Inl e)
  let ?n = "length (split_lines old)" and ?m = "length (split_lines new)"
  have "maxSteps < (int (?n + ?m) + 1) * (int (?n + ?m) + 1) * (1 + int (min ?n ?m))"
    using script_within_cap [of maxSteps "split_lines old" "split_lines new"] Inl
    by (simp add: script_def)
  also have "\<dots> \<le> 151 * 151 * 76"
    using assms by (intro mult_mono) auto
  finally show ?thesis by (simp add: maxSteps_def)
qed

theorem small_texts_have_a_diff_witness:
  "\<exists>added removed hs. lines_diff ''a\<newline>b'' '''' = Inr (added, removed, hs)"
  by (rule small_texts_have_a_diff) code_simp

text \<open>Splitting undoes joining: lines without a newline or a carriage return, each ended by a newline
  or each by a carriage return and a newline, come back as they were.\<close>

theorem split_lines_of_joined:
  assumes "\<forall>l \<in> set ls. plain_line l"
  shows "split_lines (concat (map (\<lambda>l. l @ [CHR 0x0A]) ls)) = ls \<and>
    split_lines (concat (map (\<lambda>l. l @ [CHR 0x0D, CHR 0x0A]) ls)) = ls"
proof (cases "ls = []")
  case False
  then have "concat (map (\<lambda>l. l @ [CHR 0x0A]) ls) \<noteq> []"
    "concat (map (\<lambda>l. l @ [CHR 0x0D, CHR 0x0A]) ls) \<noteq> []" by (cases ls; simp)+
  with assms False show ?thesis by (simp add: split_lines_def replace_crlf_lines split_trimmed)
qed (simp add: split_lines_def)

theorem split_lines_of_joined_witness:
  "split_lines ''a\<newline>\<newline>b\<newline>'' = [''a'', '''', ''b'']"
  using split_lines_of_joined [of "[''a'', '''', ''b'']"] by (simp add: plain_line_def)

end
