(* ===== verification/Errors.thy ===== *)
theory Errors
  imports Craze_Prelude
begin

text \<open>
  The engine's one error table, \<open>classify\<close> of \<open>internal/engine/control.go\<close>, and what is derived from
  it: \<open>Code\<close>, \<open>Reason\<close> and the receipts table's \<open>gateRefusal\<close>.

  A Go error is modelled by the sentinels its tree holds (\<open>errors.Is\<close> is membership); the empty list
  is an error no sentinel names, \<open>None\<close> is \<open>nil\<close>. The order of the cases is the order of the Go
  switch, which matters: an error that wraps both a context's end and a sentinel is classified by the
  sentinel.
\<close>

datatype sentinel =
    ErrIndexWrite | ErrNotAccepting | ErrNotInTurn | ErrExitFenced | ErrCommandInProgress
  | ErrAlreadyPending | ErrStaleTurn | ErrStaleVersion | ErrUnknownRow | ErrBadAnswer
  | ErrAlreadyResolved | ErrUnknownAsk | ErrNoSuchSubagent | ErrCommandAborted
  | ErrSetOutcomeUnknown | ErrNotRun | ErrStaleModel | ErrOptionGone | ErrBadCatalog
  | CtxCanceled | CtxDeadlineExceeded | ErrAskUnavailable | ErrSetUnavailable | ErrUnavailable
  | ErrClosing | ErrAttachRaced | ErrAsideBusy | ErrBadRequest | ErrUnknownClient
  | ErrUnknownCommand | ErrQueueFull | ErrQueueTextTooLong | ErrPromptInFlight | ErrForeignTurn
  | ErrPromptCancelled | ErrUnsupported | ErrAsideUnsupported

type_synonym go_error = "sentinel list"

definition errors_is :: "go_error \<Rightarrow> sentinel \<Rightarrow> bool" where
  "errors_is e s \<longleftrightarrow> s \<in> set e"

record classification =
  cl_code :: string
  cl_stored :: bool
  cl_reason :: string

definition stored_as :: "string \<Rightarrow> string \<Rightarrow> classification" where
  "stored_as code reason = \<lparr>cl_code = code, cl_stored = True, cl_reason = reason\<rparr>"

definition retryable_as :: "string \<Rightarrow> string \<Rightarrow> classification" where
  "retryable_as code reason = \<lparr>cl_code = code, cl_stored = False, cl_reason = reason\<rparr>"

text \<open>The switch, as the list of its cases; the first that matches decides.\<close>

definition classify_cases :: "(sentinel list \<times> classification) list" where
  "classify_cases =
    [([ErrIndexWrite], stored_as ''index_write'' ''index_write''),
     ([ErrNotAccepting], retryable_as ''not_accepting'' ''not_accepting''),
     ([ErrNotInTurn], retryable_as ''not_accepting'' ''not_in_turn''),
     ([ErrExitFenced], retryable_as ''not_accepting'' ''exit_fenced''),
     ([ErrCommandInProgress], retryable_as ''in_progress'' ''in_progress''),
     ([ErrAlreadyPending], stored_as ''already_submitted'' ''already_submitted''),
     ([ErrStaleTurn], stored_as ''stale_turn'' ''stale_turn''),
     ([ErrStaleVersion], stored_as ''stale_version'' ''stale_version''),
     ([ErrUnknownRow], stored_as ''unknown_row'' ''unknown_row''),
     ([ErrBadAnswer], stored_as ''bad_request'' ''bad_answer''),
     ([ErrAlreadyResolved], stored_as ''already_resolved'' ''already_resolved''),
     ([ErrUnknownAsk], stored_as ''unknown_ask'' ''unknown_ask''),
     ([ErrNoSuchSubagent], stored_as ''unknown_subagent'' ''unknown_subagent''),
     ([ErrCommandAborted], stored_as ''aborted'' ''command_aborted''),
     ([ErrSetOutcomeUnknown], stored_as ''aborted'' ''set_outcome_unknown''),
     ([ErrNotRun], retryable_as ''unavailable'' ''not_run''),
     ([ErrStaleModel], retryable_as ''stale_model'' ''stale_model''),
     ([ErrOptionGone], stored_as ''failed'' ''option_gone''),
     ([ErrBadCatalog], stored_as ''aborted'' ''bad_catalog''),
     ([CtxCanceled, CtxDeadlineExceeded], stored_as ''aborted'' ''context''),
     ([ErrAskUnavailable], retryable_as ''unavailable'' ''ask_unavailable''),
     ([ErrSetUnavailable], retryable_as ''unavailable'' ''set_unavailable''),
     ([ErrUnavailable], retryable_as ''unavailable'' ''log_backed_up''),
     ([ErrClosing], retryable_as ''unavailable'' ''closing''),
     ([ErrAttachRaced], retryable_as ''unavailable'' ''attach_raced''),
     ([ErrAsideBusy], retryable_as ''unavailable'' ''aside_busy''),
     ([ErrBadRequest, ErrUnknownClient], stored_as ''bad_request'' ''bad_request''),
     ([ErrUnknownCommand], stored_as ''unknown_command'' ''unknown_command''),
     ([ErrQueueFull], stored_as ''queue_full'' ''queue_full''),
     ([ErrQueueTextTooLong], stored_as ''text_too_long'' ''text_too_long''),
     ([ErrPromptInFlight], stored_as ''prompt_in_flight'' ''prompt_in_flight''),
     ([ErrForeignTurn], stored_as ''foreign_turn'' ''foreign_turn''),
     ([ErrPromptCancelled], stored_as ''prompt_cancelled'' ''prompt_cancelled''),
     ([ErrUnsupported], stored_as ''unsupported'' ''unsupported''),
     ([ErrAsideUnsupported], stored_as ''unsupported'' ''aside_unsupported'')]"

definition classify :: "go_error option \<Rightarrow> classification" where
  "classify err =
     (case err of
        None \<Rightarrow> \<lparr>cl_code = [], cl_stored = False, cl_reason = []\<rparr>
      | Some e \<Rightarrow>
          (case find (\<lambda>(ss, _). list_ex (errors_is e) ss) classify_cases of
             Some (_, c) \<Rightarrow> c
           | None \<Rightarrow> stored_as ''failed'' ''failed''))"

definition code :: "go_error option \<Rightarrow> string" where
  "code err = cl_code (classify err)"

definition reason :: "go_error option \<Rightarrow> string" where
  "reason err = cl_reason (classify err)"

definition gate_refusal :: "go_error option \<Rightarrow> bool" where
  "gate_refusal err \<longleftrightarrow> err \<noteq> None \<and> \<not> cl_stored (classify err)"

section \<open>Lemmas\<close>

lemma classify_some:
  "classify (Some e) \<in> insert (stored_as ''failed'' ''failed'') (snd ` set classify_cases)"
proof (cases "find (\<lambda>(ss, _). list_ex (errors_is e) ss) classify_cases")
  case None
  then show ?thesis by (simp add: classify_def)
next
  case (Some p)
  then have "p \<in> set classify_cases" by (auto simp: find_Some_iff) (metis nth_mem)
  then have "snd p \<in> snd ` set classify_cases" by (rule imageI)
  with Some show ?thesis by (simp add: classify_def split_beta)
qed

definition retry_codes :: "string list" where
  "retry_codes = [''unavailable'', ''not_accepting'', ''in_progress'', ''stale_model'']"

lemma cases_stored:
  "list_all (\<lambda>(_, c). cl_stored c \<longleftrightarrow> cl_code c \<notin> set retry_codes) classify_cases"
  by code_simp

lemma cases_reason_decides_code:
  "list_all (\<lambda>(_, c). list_all (\<lambda>(_, c'). cl_reason c = cl_reason c' \<longrightarrow> c = c') classify_cases)
     classify_cases"
  by code_simp

text \<open>Which case decides is a matter of the sentinels alone.\<close>

definition case_of :: "go_error \<Rightarrow> nat option" where
  "case_of e = index_where (list_ex (errors_is e)) (map fst classify_cases)"

lemma find_index:
  "find (\<lambda>(ss, _). p ss) xs = map_option ((!) xs) (index_where p (map fst xs))"
  by (induction xs) (auto simp: option.map_comp comp_def)

lemma classify_case_of:
  "classify (Some e) = (case case_of e of Some i \<Rightarrow> snd (classify_cases ! i) | None \<Rightarrow> stored_as ''failed'' ''failed'')"
  by (simp add: classify_def find_index case_of_def split_beta split: option.splits)

lemma case_sentinels:
  "map fst classify_cases =
    [[ErrIndexWrite], [ErrNotAccepting], [ErrNotInTurn], [ErrExitFenced], [ErrCommandInProgress],
     [ErrAlreadyPending], [ErrStaleTurn], [ErrStaleVersion], [ErrUnknownRow], [ErrBadAnswer],
     [ErrAlreadyResolved], [ErrUnknownAsk], [ErrNoSuchSubagent], [ErrCommandAborted],
     [ErrSetOutcomeUnknown], [ErrNotRun], [ErrStaleModel], [ErrOptionGone], [ErrBadCatalog],
     [CtxCanceled, CtxDeadlineExceeded], [ErrAskUnavailable], [ErrSetUnavailable],
     [ErrUnavailable], [ErrClosing], [ErrAttachRaced], [ErrAsideBusy],
     [ErrBadRequest, ErrUnknownClient], [ErrUnknownCommand], [ErrQueueFull], [ErrQueueTextTooLong],
     [ErrPromptInFlight], [ErrForeignTurn], [ErrPromptCancelled], [ErrUnsupported],
     [ErrAsideUnsupported]]"
  by (simp only: classify_cases_def list.map prod.sel)

section \<open>Properties\<close>

text \<open>For every error, the answer is left retryable exactly when its code is one of unavailable,
  not_accepting, in_progress and stale_model: the code alone tells a client whether the id was
  stored.\<close>

theorem retryable_iff_code:
  "gate_refusal (Some e) \<longleftrightarrow>
     code (Some e) \<in> {''unavailable'', ''not_accepting'', ''in_progress'', ''stale_model''}"
proof -
  have "\<forall>c \<in> insert (stored_as ''failed'' ''failed'') (snd ` set classify_cases).
      cl_stored c \<longleftrightarrow> cl_code c \<notin> set retry_codes"
    using cases_stored by (auto simp: list_all_iff stored_as_def retry_codes_def)
  with classify_some [of e] have "cl_stored (classify (Some e)) \<longleftrightarrow> cl_code (classify (Some e)) \<notin> set retry_codes"
    by blast
  then show ?thesis by (simp add: gate_refusal_def code_def retry_codes_def)
qed

text \<open>A reason is finer than a code: two errors with the same reason have the same code and the same
  answer about being stored.\<close>

theorem reason_determines_code:
  assumes "reason (Some e) = reason (Some e')"
  shows "code (Some e) = code (Some e') \<and> gate_refusal (Some e) = gate_refusal (Some e')"
proof -
  let ?all = "insert (stored_as ''failed'' ''failed'') (snd ` set classify_cases)"
  have "list_all (\<lambda>(_, c). cl_reason c \<noteq> ''failed'') classify_cases" by code_simp
  then have "c = c'" if "c \<in> ?all" "c' \<in> ?all" "cl_reason c = cl_reason c'" for c c'
    using that cases_reason_decides_code by (fastforce simp: list_all_iff stored_as_def)
  from this [OF classify_some classify_some] assms have "classify (Some e) = classify (Some e')"
    by (simp add: reason_def)
  then show ?thesis by (simp add: code_def gate_refusal_def)
qed

theorem reason_determines_code_witness:
  "code (Some [ErrNotRun, CtxCanceled]) = code (Some [ErrNotRun]) \<and> code (Some [ErrNotRun]) = ''unavailable''"
proof -
  have "reason (Some [ErrNotRun, CtxCanceled]) = reason (Some [ErrNotRun])" by code_simp
  from reason_determines_code [OF this] show ?thesis by (simp only: simp_thms) code_simp
qed

text \<open>A context's end never hides what it ended: an error that wraps a context's error beside one of
  the sentinels that say nothing ran, that the outcome is unknown, or that the first call still runs
  is classified by that sentinel.\<close>

theorem context_does_not_hide_outcome:
  assumes "s \<in> {ErrNotRun, ErrSetOutcomeUnknown, ErrCommandInProgress}" and "s \<in> set e"
    and "set e \<subseteq> {s, CtxCanceled, CtxDeadlineExceeded}"
  shows "classify (Some e) = classify (Some [s])"
proof -
  define C D where "C = (CtxCanceled \<in> set e)" and "D = (CtxDeadlineExceeded \<in> set e)"
  have e: "errors_is e = (\<lambda>x. x = s \<or> x = CtxCanceled \<and> C \<or> x = CtxDeadlineExceeded \<and> D)"
    using assms(2,3) by (auto simp: errors_is_def C_def D_def fun_eq_iff)
  have one: "errors_is [t] = (\<lambda>x. x = t)" for t by (auto simp: errors_is_def fun_eq_iff)
  from assms(1) consider "s = ErrNotRun" | "s = ErrSetOutcomeUnknown" | "s = ErrCommandInProgress" by blast
  then show ?thesis by cases (simp_all add: classify_case_of case_of_def case_sentinels e one)
qed

theorem context_does_not_hide_outcome_witness:
  "classify (Some [CtxCanceled, ErrNotRun]) = classify (Some [ErrNotRun])"
  by (rule context_does_not_hide_outcome) simp_all

end
