(* ===== verification/Receipts.thy ===== *)
theory Receipts
  imports Errors
begin

text \<open>
  The command-id table, \<open>internal/engine/receipts.go\<close>: what makes a resent command never a second
  execution.

  \<^item> \<open>receipt_key\<close>, \<open>receipt\<close>, \<open>receipt_client\<close> and \<open>receipt_table\<close> are the Go types. A \<open>*receipt\<close> is
    an address of the table's heap, because a duplicate that waits keeps the pointer after the entry
    has left the table; \<open>rc_completed\<close> stands for the flag and for the closed channel, which are set in one
    section. \<open>released\<close> holds the same pointers as \<open>clients\<close>: here it is the set of their names.
  \<^item> Every method is one critical section under the table's mutex, so one function; the clock it reads
    is an argument. \<open>begin_call\<close> is \<open>withSyncReceipt\<close> and \<open>withBlockingReceipt\<close> up to running the command,
    \<open>end_call\<close> what they do when it has returned or panicked; between the two, anything may run.
  \<^item> \<open>call_step\<close> is the table with all its callers: any interleaving of mints, releases, claims, calls
    that begin and calls that end is a list of \<open>call_op\<close>. Its ghost fields record every execution, so
    that "never executed twice" can be stated.

  A stored result is polymorphic: the type assertion of \<open>replayReceipt\<close> always holds, because the method's
  name is part of the hash (\<open>Receipt_Hash\<close>). The test hooks are not modelled. Ids and the client
  counter are natural numbers; \<open>parse_command\<close> refuses what does not fit 64 bits.
\<close>

section \<open>Types\<close>

record receipt_key =
  rk_client :: string
  rk_id :: nat

record 'r receipt =
  rc_hash :: string
  rc_completed :: bool
  rc_result :: "'r option"
  rc_err :: "go_error option"
  rc_at :: int

record receipt_client =
  cl_mark :: nat
  cl_released :: bool
  cl_releasedAt :: int
  cl_entries :: int

record 'r receipt_table =
  rt_heap :: "nat \<Rightarrow> 'r receipt option"
  rt_fresh :: nat
  rt_order :: "receipt_key list"
  rt_byKey :: "receipt_key \<Rightarrow> nat option"
  rt_clients :: "string \<Rightarrow> receipt_client option"
  rt_released :: "string set"
  rt_clientSeq :: nat
  rt_cap :: nat
  rt_age :: int

definition receiptCap :: nat where "receiptCap = 1024"

definition receiptAge :: int where "receiptAge = 10 * 60 * 1000000000"

definition new_receipt_table :: "'r receipt_table" where
  "new_receipt_table =
     \<lparr>rt_heap = \<lambda>_. None, rt_fresh = 0, rt_order = [], rt_byKey = \<lambda>_. None, rt_clients = \<lambda>_. None,
      rt_released = {}, rt_clientSeq = 0, rt_cap = receiptCap, rt_age = receiptAge\<rparr>"

definition horizon :: "'r receipt_table \<Rightarrow> nat \<times> int" where
  "horizon t = (rt_cap t, rt_age t)"

section \<open>Clients and entries\<close>

definition client_name :: "nat \<Rightarrow> string" where
  "client_name seq = ''c-'' @ dec seq"

definition new_client :: "'r receipt_table \<Rightarrow> string \<times> 'r receipt_table" where
  "new_client t =
     (let seq = Suc (rt_clientSeq t); name = client_name seq in
      (name, t\<lparr>rt_clientSeq := seq,
               rt_clients := (rt_clients t)(name \<mapsto>
                 \<lparr>cl_mark = 0, cl_released = False, cl_releasedAt = 0, cl_entries = 0\<rparr>)\<rparr>))"

definition client_locked :: "string \<Rightarrow> 'r receipt_table \<Rightarrow> go_error + receipt_client" where
  "client_locked name t = (case rt_clients t name of Some st \<Rightarrow> Inr st | None \<Rightarrow> Inl [ErrBadRequest])"

definition drop_entry :: "receipt_key \<Rightarrow> 'r receipt_table \<Rightarrow> 'r receipt_table" where
  "drop_entry key t =
     (if rt_byKey t key = None then t
      else
        let t = t\<lparr>rt_byKey := (rt_byKey t)(key := None)\<rparr> in
        case rt_clients t (rk_client key) of
          None \<Rightarrow> t
        | Some st \<Rightarrow> t\<lparr>rt_clients := (rt_clients t)(rk_client key \<mapsto> st\<lparr>cl_entries := cl_entries st - 1\<rparr>)\<rparr>)"

definition mark_evicted :: "receipt_key \<Rightarrow> 'r receipt_table \<Rightarrow> 'r receipt_table" where
  "mark_evicted key t =
     (case rt_clients t (rk_client key) of
        None \<Rightarrow> t
      | Some st \<Rightarrow>
          if rk_id key > cl_mark st
          then t\<lparr>rt_clients := (rt_clients t)(rk_client key \<mapsto> st\<lparr>cl_mark := rk_id key\<rparr>)\<rparr>
          else t)"

definition evict_oldest :: "'r receipt_table \<Rightarrow> 'r receipt_table" where
  "evict_oldest t =
     (case rt_order t of
        [] \<Rightarrow> t
      | key # rest \<Rightarrow> mark_evicted key (drop_entry key (t\<lparr>rt_order := rest\<rparr>)))"

lemma order_drop_entry [simp]: "rt_order (drop_entry key t) = rt_order t"
  by (simp add: drop_entry_def Let_def split: option.split)

lemma order_mark_evicted [simp]: "rt_order (mark_evicted key t) = rt_order t"
  by (simp add: mark_evicted_def split: option.split)

text \<open>\<open>for len(rt.order) > rt.cap\<close>: the code's index is never out of range, since the order is not empty
  there.\<close>

function prune_count :: "'r receipt_table \<Rightarrow> 'r receipt_table" where
  "prune_count t = (if length (rt_order t) > rt_cap t then prune_count (evict_oldest t) else t)"
  by pat_completeness auto
termination
  by (relation "measure (\<lambda>t. length (rt_order t))") (auto simp: evict_oldest_def split: list.split)

declare prune_count.simps [simp del]

text \<open>One round of the age pass over the order, and the pass.\<close>

definition evict_aged_key ::
  "int \<Rightarrow> receipt_key \<Rightarrow> receipt_key list \<times> 'r receipt_table \<Rightarrow> receipt_key list \<times> 'r receipt_table" where
  "evict_aged_key now key = (\<lambda>(kept, t).
     case rt_byKey t key of
       None \<Rightarrow> (kept, t)
     | Some a \<Rightarrow>
         (case rt_heap t a of
            None \<Rightarrow> (kept, t)
          | Some r \<Rightarrow>
              if now - rc_at r > rt_age t then (kept, mark_evicted key (drop_entry key t))
              else (kept @ [key], t)))"

definition retire :: "int \<Rightarrow> 'r receipt_table \<Rightarrow> 'r receipt_table" where
  "retire now t =
     (let gone = {name \<in> rt_released t.
            case rt_clients t name of
              None \<Rightarrow> False
            | Some st \<Rightarrow> cl_entries st = 0 \<and> now - cl_releasedAt st \<ge> rt_age t}
      in t\<lparr>rt_released := rt_released t - gone,
           rt_clients := (\<lambda>name. if name \<in> gone then None else rt_clients t name)\<rparr>)"

definition evict_aged :: "int \<Rightarrow> 'r receipt_table \<Rightarrow> 'r receipt_table" where
  "evict_aged now t =
     (let (kept, t) = fold (evict_aged_key now) (rt_order t) ([], t)
      in retire now (t\<lparr>rt_order := kept\<rparr>))"

definition release :: "int \<Rightarrow> string \<Rightarrow> 'r receipt_table \<Rightarrow> 'r receipt_table" where
  "release now name t =
     (let t = evict_aged now t in
      case rt_clients t name of
        None \<Rightarrow> t
      | Some st \<Rightarrow>
          if cl_released st then t
          else t\<lparr>rt_clients := (rt_clients t)(name \<mapsto> st\<lparr>cl_released := True, cl_releasedAt := now\<rparr>),
                 rt_released := insert name (rt_released t)\<rparr>)"

definition claim :: "int \<Rightarrow> string \<Rightarrow> 'r receipt_table \<Rightarrow> go_error option \<times> 'r receipt_table" where
  "claim now name t =
     (let t = evict_aged now t in
      case rt_clients t name of
        None \<Rightarrow> (Some [ErrUnknownClient], t)
      | Some st \<Rightarrow>
          (None, t\<lparr>rt_clients := (rt_clients t)(name \<mapsto> st\<lparr>cl_released := False, cl_releasedAt := 0\<rparr>),
                   rt_released := rt_released t - {name}\<rparr>))"

section \<open>Commands\<close>

text \<open>\<open>strconv.ParseUint(s, 10, 64)\<close>.\<close>

definition parse_uint :: "string \<Rightarrow> nat option" where
  "parse_uint s =
     (if s \<noteq> [] \<and> list_all (\<lambda>c. CHR ''0'' \<le> c \<and> c \<le> CHR ''9'') s \<and> undec s < 2 ^ 64 then Some (undec s)
      else None)"

definition parse_command :: "string \<Rightarrow> string \<Rightarrow> go_error + receipt_key" where
  "parse_command client cid =
     (if client = [] then Inl [ErrBadRequest]
      else case parse_uint cid of
        None \<Rightarrow> Inl [ErrBadRequest]
      | Some n \<Rightarrow>
          if n = 0 \<or> cid \<noteq> dec n then Inl [ErrBadRequest]
          else Inr \<lparr>rk_client = client, rk_id = n\<rparr>)"

datatype admission =
    AdmitRefused go_error
  | AdmitFound nat bool
  | AdmitMine nat

definition admit ::
  "int \<Rightarrow> receipt_key \<Rightarrow> string \<Rightarrow> 'r receipt_table \<Rightarrow> admission \<times> 'r receipt_table" where
  "admit now key hash t =
     (let t = evict_aged now t in
      case client_locked (rk_client key) t of
        Inl e \<Rightarrow> (AdmitRefused e, t)
      | Inr st \<Rightarrow>
          (case rt_byKey t key of
             Some a \<Rightarrow>
               (case rt_heap t a of
                  None \<Rightarrow> (AdmitRefused [], t)
                | Some r \<Rightarrow>
                    if rc_hash r \<noteq> hash then (AdmitRefused [ErrBadRequest], t)
                    else (AdmitFound a (\<not> rc_completed r), t))
           | None \<Rightarrow>
               if rk_id key \<le> cl_mark st then (AdmitRefused [ErrUnknownCommand], t)
               else
                 let a = rt_fresh t in
                 (AdmitMine a,
                  t\<lparr>rt_fresh := Suc a,
                    rt_heap := (rt_heap t)(a \<mapsto>
                      \<lparr>rc_hash = hash, rc_completed = False, rc_result = None, rc_err = None, rc_at = 0\<rparr>),
                    rt_byKey := (rt_byKey t)(key \<mapsto> a),
                    rt_clients := (rt_clients t)(rk_client key \<mapsto> st\<lparr>cl_entries := cl_entries st + 1\<rparr>)\<rparr>)))"

definition forget :: "receipt_key \<Rightarrow> nat \<Rightarrow> 'r receipt_table \<Rightarrow> 'r receipt_table" where
  "forget key a t = (if rt_byKey t key = Some a then drop_entry key t else t)"

text \<open>\<open>publishLocked\<close>: the one place a reservation is resolved.\<close>

definition publish ::
  "int \<Rightarrow> receipt_key \<Rightarrow> nat \<Rightarrow> 'r \<Rightarrow> go_error option \<Rightarrow> bool \<Rightarrow> 'r receipt_table \<Rightarrow> 'r receipt_table" where
  "publish now key a res err keep t =
     (case rt_heap t a of
        None \<Rightarrow> t
      | Some r \<Rightarrow>
          let r = r\<lparr>rc_result := Some res, rc_err := err, rc_completed := True\<rparr>;
              t = t\<lparr>rt_heap := (rt_heap t)(a \<mapsto> r)\<rparr>
          in if \<not> keep then forget key a t
             else if rt_byKey t key = Some a then
               prune_count (t\<lparr>rt_heap := (rt_heap t)(a \<mapsto> r\<lparr>rc_at := now\<rparr>),
                              rt_order := rt_order t @ [key]\<rparr>)
             else t)"

definition finish ::
  "int \<Rightarrow> receipt_key \<Rightarrow> nat \<Rightarrow> 'r \<Rightarrow> go_error option \<Rightarrow> 'r receipt_table \<Rightarrow> bool \<times> 'r receipt_table" where
  "finish now key a res err t =
     (let refused = gate_refusal err in (refused, publish now key a res err (\<not> refused) t))"

definition abort ::
  "int \<Rightarrow> receipt_key \<Rightarrow> nat \<Rightarrow> 'r \<Rightarrow> 'r receipt_table \<Rightarrow> 'r receipt_table" where
  "abort now key a zero t = publish now key a zero (Some [ErrCommandAborted]) True t"

section \<open>Calls\<close>

text \<open>A command as a client names it; both parts empty is the zero command, which the table never sees.\<close>

record command =
  cm_client :: string
  cm_id :: string

definition is_zero :: "command \<Rightarrow> bool" where
  "is_zero c \<longleftrightarrow> cm_client c = [] \<and> cm_id c = []"

datatype call_kind = Synchronous | Blocking

datatype 'r call_start =
    CallUntracked
  | CallRefused go_error
  | CallReplay "'r option" "go_error option"
  | CallWait nat
  | CallRun receipt_key nat

definition replay :: "'r receipt \<Rightarrow> 'r call_start" where
  "replay r = CallReplay (rc_result r) (rc_err r)"

definition begin_call ::
  "call_kind \<Rightarrow> int \<Rightarrow> command \<Rightarrow> string \<Rightarrow> 'r receipt_table \<Rightarrow> 'r call_start \<times> 'r receipt_table" where
  "begin_call kind now c hash t =
     (if is_zero c then (CallUntracked, t)
      else case parse_command (cm_client c) (cm_id c) of
        Inl e \<Rightarrow> (CallRefused e, t)
      | Inr key \<Rightarrow>
          (case admit now key hash t of
             (AdmitRefused e, t) \<Rightarrow> (CallRefused e, t)
           | (AdmitMine a, t) \<Rightarrow> (CallRun key a, t)
           | (AdmitFound a running, t) \<Rightarrow>
               (if running then
                  (case kind of
                     Synchronous \<Rightarrow> (CallRefused [ErrCommandInProgress], t)
                   | Blocking \<Rightarrow> (CallWait a, t))
                else
                  (case rt_heap t a of
                     None \<Rightarrow> (CallRefused [], t)
                   | Some r \<Rightarrow> (replay r, t)))))"

datatype 'r outcome = Returned 'r "go_error option" | Panicked

definition end_call ::
  "int \<Rightarrow> receipt_key \<Rightarrow> nat \<Rightarrow> 'r \<Rightarrow> 'r outcome \<Rightarrow> 'r receipt_table \<Rightarrow> 'r receipt_table" where
  "end_call now key a zero out t =
     (case out of
        Returned res err \<Rightarrow> snd (finish now key a res err t)
      | Panicked \<Rightarrow> abort now key a zero t)"

text \<open>\<open>waitReceipt\<close>: what the select may answer; nothing while it must go on waiting. \<open>ctx_err\<close> is the
  sentinel the duplicate's own context ended with, if it has.\<close>

definition wait_receipt :: "sentinel option \<Rightarrow> nat \<Rightarrow> 'r receipt_table \<Rightarrow> 'r call_start list" where
  "wait_receipt ctx_err a t =
     (case rt_heap t a of
        Some r \<Rightarrow> if rc_completed r then [replay r] else []
      | None \<Rightarrow> []) @
     (case ctx_err of Some s \<Rightarrow> [CallRefused [ErrCommandInProgress, s]] | None \<Rightarrow> [])"

section \<open>The table and all its callers\<close>

text \<open>\<open>cs_running\<close>: the calls that own a reservation and have not returned. \<open>cs_ran\<close>: the key of every
  execution begun; \<open>cs_refused\<close>: of every one that ended in a gate refusal; \<open>cs_answers\<close>: what a
  key's run returned, for a run that was not one.\<close>

record 'r call_system =
  cs_table :: "'r receipt_table"
  cs_running :: "nat \<Rightarrow> receipt_key option"
  cs_ran :: "receipt_key list"
  cs_refused :: "receipt_key list"
  cs_answers :: "receipt_key \<Rightarrow> ('r \<times> go_error option) option"

definition cs_init :: "'r call_system" where
  "cs_init =
     \<lparr>cs_table = new_receipt_table, cs_running = \<lambda>_. None, cs_ran = [], cs_refused = [],
      cs_answers = \<lambda>_. None\<rparr>"

datatype 'r call_op =
    NewClientOp
  | ReleaseOp int string
  | ClaimOp int string
  | BeginOp call_kind int command string
  | EndOp int nat 'r "'r outcome"

fun call_step :: "'r call_op \<Rightarrow> 'r call_system \<Rightarrow> 'r call_system" where
  "call_step NewClientOp s = s\<lparr>cs_table := snd (new_client (cs_table s))\<rparr>"
| "call_step (ReleaseOp now name) s = s\<lparr>cs_table := release now name (cs_table s)\<rparr>"
| "call_step (ClaimOp now name) s = s\<lparr>cs_table := snd (claim now name (cs_table s))\<rparr>"
| "call_step (BeginOp kind now c hash) s =
     (case begin_call kind now c hash (cs_table s) of
        (CallRun key a, t) \<Rightarrow>
          s\<lparr>cs_table := t, cs_running := (cs_running s)(a \<mapsto> key), cs_ran := key # cs_ran s\<rparr>
      | (_, t) \<Rightarrow> s\<lparr>cs_table := t\<rparr>)"
| "call_step (EndOp now a zero out) s =
     (case cs_running s a of
        None \<Rightarrow> s
      | Some key \<Rightarrow>
          let s = s\<lparr>cs_table := end_call now key a zero out (cs_table s),
                    cs_running := (cs_running s)(a := None)\<rparr>
          in case out of
               Returned res err \<Rightarrow>
                 if gate_refusal err then s\<lparr>cs_refused := key # cs_refused s\<rparr>
                 else s\<lparr>cs_answers := (cs_answers s)(key \<mapsto> (res, err))\<rparr>
             | Panicked \<Rightarrow> s\<lparr>cs_answers := (cs_answers s)(key \<mapsto> (zero, Some [ErrCommandAborted]))\<rparr>)"

definition run_calls :: "'r call_op list \<Rightarrow> 'r call_system \<Rightarrow> 'r call_system" where
  "run_calls ops s = fold call_step ops s"

lemma run_calls_simps [simp]:
  "run_calls [] s = s"
  "run_calls (op' # ops) s = run_calls ops (call_step op' s)"
  by (simp_all add: run_calls_def)

section \<open>The invariant\<close>

definition minted_client :: "'r receipt_table \<Rightarrow> string \<Rightarrow> bool" where
  "minted_client t c \<longleftrightarrow> c \<in> client_name ` {1..rt_clientSeq t}"

text \<open>\<open>entry_ok\<close>: the entry at \<open>k\<close> is an allocated receipt, completed and in the order, or open and owned by
  a running call.\<close>

definition entry_ok :: "(nat \<Rightarrow> receipt_key option) \<Rightarrow> 'r receipt_table \<Rightarrow> receipt_key \<Rightarrow> nat \<Rightarrow> bool" where
  "entry_ok P t k a \<longleftrightarrow>
     (\<exists>r. rt_heap t a = Some r \<and> (rc_completed r \<longleftrightarrow> k \<in> set (rt_order t)) \<and>
          (\<not> rc_completed r \<longleftrightarrow> P a = Some k)) \<and>
     rt_clients t (rk_client k) \<noteq> None"

definition client_ok :: "'r receipt_table \<Rightarrow> string \<Rightarrow> receipt_client \<Rightarrow> bool" where
  "client_ok t c st \<longleftrightarrow>
     cl_entries st = int (card {k \<in> dom (rt_byKey t). rk_client k = c}) \<and>
     (cl_released st \<longleftrightarrow> c \<in> rt_released t) \<and> minted_client t c"

definition table_inv :: "(nat \<Rightarrow> receipt_key option) \<Rightarrow> 'r receipt_table \<Rightarrow> bool" where
  "table_inv P t \<longleftrightarrow>
     (\<forall>k a. rt_byKey t k = Some a \<longrightarrow> entry_ok P t k a) \<and>
     (\<forall>k k' a. rt_byKey t k = Some a \<longrightarrow> rt_byKey t k' = Some a \<longrightarrow> k = k') \<and>
     (\<forall>a k. P a = Some k \<longrightarrow> rt_byKey t k = Some a) \<and>
     distinct (rt_order t) \<and> (\<forall>k \<in> set (rt_order t). rt_byKey t k \<noteq> None) \<and>
     finite (dom (rt_byKey t)) \<and>
     (\<forall>c st. rt_clients t c = Some st \<longrightarrow> client_ok t c st) \<and>
     (\<forall>c \<in> rt_released t. rt_clients t c \<noteq> None) \<and>
     (\<forall>a. rt_heap t a \<noteq> None \<longrightarrow> a < rt_fresh t)"

text \<open>A key no call can run any more.\<close>

definition blocked_key :: "'r receipt_table \<Rightarrow> receipt_key \<Rightarrow> bool" where
  "blocked_key t k \<longleftrightarrow>
     rt_byKey t k \<noteq> None \<or>
     minted_client t (rk_client k) \<and>
       (case rt_clients t (rk_client k) of None \<Rightarrow> True | Some st \<Rightarrow> rk_id k \<le> cl_mark st)"

section \<open>Primitive changes\<close>

lemma drop_entry_sel [simp]:
  "rt_byKey (drop_entry key t) = (rt_byKey t)(key := None)"
  "rt_heap (drop_entry key t) = rt_heap t"
  "rt_fresh (drop_entry key t) = rt_fresh t"
  "rt_released (drop_entry key t) = rt_released t"
  "rt_clientSeq (drop_entry key t) = rt_clientSeq t"
  "rt_cap (drop_entry key t) = rt_cap t"
  "rt_age (drop_entry key t) = rt_age t"
  by (auto simp: drop_entry_def Let_def split: option.split)

lemma drop_entry_clients:
  "rt_clients (drop_entry key t) c =
     (if rt_byKey t key \<noteq> None \<and> c = rk_client key
      then map_option (\<lambda>st. st\<lparr>cl_entries := cl_entries st - 1\<rparr>) (rt_clients t c)
      else rt_clients t c)"
  by (auto simp: drop_entry_def Let_def split: option.split)

lemma mark_evicted_sel [simp]:
  "rt_byKey (mark_evicted key t) = rt_byKey t"
  "rt_heap (mark_evicted key t) = rt_heap t"
  "rt_fresh (mark_evicted key t) = rt_fresh t"
  "rt_released (mark_evicted key t) = rt_released t"
  "rt_clientSeq (mark_evicted key t) = rt_clientSeq t"
  "rt_cap (mark_evicted key t) = rt_cap t"
  "rt_age (mark_evicted key t) = rt_age t"
  by (auto simp: mark_evicted_def split: option.split)

lemma mark_evicted_clients:
  "rt_clients (mark_evicted key t) c =
     (if c = rk_client key
      then map_option (\<lambda>st. st\<lparr>cl_mark := max (cl_mark st) (rk_id key)\<rparr>) (rt_clients t c)
      else rt_clients t c)"
  by (auto simp: mark_evicted_def max_def split: option.split)

lemma drop_entry_order_update:
  "drop_entry key (t\<lparr>rt_order := xs\<rparr>) = (drop_entry key t)\<lparr>rt_order := xs\<rparr>"
  by (simp add: drop_entry_def Let_def split: option.split)

lemma mark_evicted_order_update:
  "mark_evicted key (t\<lparr>rt_order := xs\<rparr>) = (mark_evicted key t)\<lparr>rt_order := xs\<rparr>"
  by (simp add: mark_evicted_def split: option.split)

lemma minted_client_update [simp]:
  "minted_client (t\<lparr>rt_fresh := n\<rparr>) c = minted_client t c"
  "minted_client (t\<lparr>rt_heap := h\<rparr>) c = minted_client t c"
  "minted_client (t\<lparr>rt_order := ks\<rparr>) c = minted_client t c"
  "minted_client (t\<lparr>rt_byKey := m\<rparr>) c = minted_client t c"
  "minted_client (t\<lparr>rt_clients := cs\<rparr>) c = minted_client t c"
  "minted_client (t\<lparr>rt_released := R\<rparr>) c = minted_client t c"
  by (simp_all add: minted_client_def)

lemma minted_client_cong: "rt_clientSeq t' = rt_clientSeq t \<Longrightarrow> minted_client t' c = minted_client t c"
  by (simp add: minted_client_def)

lemma client_name_inject [simp]: "client_name m = client_name n \<longleftrightarrow> m = n"
  by (simp add: client_name_def)

lemma fresh_client: "\<not> minted_client t (client_name (Suc (rt_clientSeq t)))"
  by (auto simp: minted_client_def)

text \<open>Evicting a completed entry: out of the order, out of the map, under the mark.\<close>

definition evicted :: "receipt_key \<Rightarrow> receipt_key list \<Rightarrow> 'r receipt_table \<Rightarrow> 'r receipt_table" where
  "evicted key order t = (mark_evicted key (drop_entry key t))\<lparr>rt_order := order\<rparr>"

lemma card_drop_key:
  assumes "finite (dom m)" and "k \<in> dom m"
  shows "card {k' \<in> dom (m(k := None)). rk_client k' = c} =
    (if rk_client k = c then card {k' \<in> dom m. rk_client k' = c} - 1 else card {k' \<in> dom m. rk_client k' = c})"
proof (cases "rk_client k = c")
  case True
  then have "{k' \<in> dom (m(k := None)). rk_client k' = c} = {k' \<in> dom m. rk_client k' = c} - {k}" by auto
  with assms True show ?thesis by simp
next
  case False
  then have "{k' \<in> dom (m(k := None)). rk_client k' = c} = {k' \<in> dom m. rk_client k' = c}" by auto
  with False show ?thesis by simp
qed

lemma card_pos_key: "finite (dom m) \<Longrightarrow> k \<in> dom m \<Longrightarrow> 0 < card {k' \<in> dom m. rk_client k' = rk_client k}"
  by (auto simp: card_gt_0_iff)

lemma client_ok_drop:
  assumes "finite (dom (rt_byKey t))" and "k \<in> dom (rt_byKey t)" and "client_ok t c st"
    and "rt_clients t c = Some st" and "rt_clients (drop_entry k t) c = Some st'"
  shows "client_ok (drop_entry k t) c st'"
  using assms card_pos_key [OF assms(1,2)] card_drop_key [OF assms(1,2), of c]
  by (auto simp: client_ok_def drop_entry_clients minted_client_def split: if_splits)

lemma client_ok_mark:
  "client_ok t c st \<Longrightarrow> rt_clients t c = Some st \<Longrightarrow> rt_clients (mark_evicted k t) c = Some st' \<Longrightarrow>
     client_ok (mark_evicted k t) c st'"
  by (auto simp: client_ok_def mark_evicted_clients minted_client_def split: if_splits)

lemma client_ok_order: "client_ok (t\<lparr>rt_order := xs\<rparr>) c st = client_ok t c st"
  by (simp add: client_ok_def minted_client_def)

lemma table_invD:
  assumes "table_inv P t"
  shows "rt_byKey t k = Some a \<Longrightarrow> entry_ok P t k a"
    and "rt_byKey t k = Some a \<Longrightarrow> rt_byKey t k' = Some a \<Longrightarrow> k = k'"
    and "P a = Some k \<Longrightarrow> rt_byKey t k = Some a"
    and "distinct (rt_order t)"
    and "k \<in> set (rt_order t) \<Longrightarrow> \<exists>a. rt_byKey t k = Some a"
    and "finite (dom (rt_byKey t))"
    and "rt_clients t c = Some st \<Longrightarrow> client_ok t c st"
    and "c \<in> rt_released t \<Longrightarrow> rt_clients t c \<noteq> None"
    and "rt_heap t a = Some r \<Longrightarrow> a < rt_fresh t"
  using assms unfolding table_inv_def by blast+

lemma completed_not_running:
  assumes "table_inv P t" and "k \<in> set (rt_order t)"
  shows "P a \<noteq> Some k"
proof
  assume "P a = Some k"
  from table_invD(1) [OF assms(1) table_invD(3) [OF assms(1) this]] this assms(2) show False
    by (auto simp: entry_ok_def)
qed

lemma table_inv_evicted:
  assumes inv: "table_inv P t" and order: "rt_order t = xs @ key # ys"
  shows "table_inv P (evicted key (xs @ ys) t)"
proof -
  let ?t = "evicted key (xs @ ys) t"
  have key: "key \<in> set (rt_order t)" "distinct (xs @ key # ys)"
    using table_invD(4) [OF inv] order by auto
  have dom: "key \<in> dom (rt_byKey t)" "finite (dom (rt_byKey t))"
    using table_invD(5) [OF inv key(1)] table_invD(6) [OF inv] by auto
  have sel: "rt_byKey ?t = (rt_byKey t)(key := None)" "rt_heap ?t = rt_heap t" "rt_order ?t = xs @ ys"
    "rt_fresh ?t = rt_fresh t" "rt_released ?t = rt_released t"
    by (simp_all add: evicted_def)
  have dom_c: "rt_clients ?t c = None \<longleftrightarrow> rt_clients t c = None" for c
    by (simp add: evicted_def mark_evicted_clients drop_entry_clients)
  have not_running: "P a \<noteq> Some key" for a
    by (rule completed_not_running [OF inv key(1)])
  have "entry_ok P ?t k a" if "rt_byKey ?t k = Some a" for k a
  proof -
    from that have k: "k \<noteq> key" "rt_byKey t k = Some a" by (auto simp: sel split: if_splits)
    then have "entry_ok P t k a" using table_invD(1) [OF inv] by blast
    then show ?thesis using k(1) by (simp add: entry_ok_def sel order dom_c)
  qed
  moreover have "client_ok ?t c st" if st: "rt_clients ?t c = Some st" for c st
  proof -
    from st dom_c [of c] obtain st0 where st0: "rt_clients t c = Some st0"
      by (cases "rt_clients t c") auto
    then obtain st1 where st1: "rt_clients (drop_entry key t) c = Some st1"
      by (cases "rt_clients (drop_entry key t) c") (auto simp: drop_entry_clients split: if_splits)
    have "client_ok t c st0" using table_invD(7) [OF inv st0] .
    from client_ok_drop [OF dom(2,1) this st0 st1] have "client_ok (drop_entry key t) c st1" .
    from client_ok_mark [OF this st1] st show ?thesis by (simp add: evicted_def client_ok_order)
  qed
  moreover have "rt_byKey ?t k = Some a" if "P a = Some k" for a k
    using table_invD(3) [OF inv that] not_running [of a] that by (auto simp: sel)
  moreover have "k = k'" if "rt_byKey ?t k = Some a" "rt_byKey ?t k' = Some a" for k k' a
    using that table_invD(2) [OF inv, of k a k'] by (auto simp: sel split: if_splits)
  moreover have "\<forall>k \<in> set (rt_order ?t). rt_byKey ?t k \<noteq> None"
    using table_invD(5) [OF inv] key(2) by (fastforce simp: sel order)
  moreover have "finite (dom (rt_byKey ?t))" using dom(2) by (simp add: sel)
  moreover have "\<forall>c \<in> rt_released ?t. rt_clients ?t c \<noteq> None"
    using table_invD(8) [OF inv] by (simp only: dom_c sel) blast
  moreover have "\<forall>a. rt_heap ?t a \<noteq> None \<longrightarrow> a < rt_fresh ?t"
    using table_invD(9) [OF inv] by (auto simp: sel)
  ultimately show ?thesis using key(2) unfolding table_inv_def by (simp add: sel(3))
qed

section \<open>Evictions\<close>

definition live_client :: "'r receipt_table \<Rightarrow> string \<Rightarrow> bool" where
  "live_client t c \<longleftrightarrow> (\<exists>st. rt_clients t c = Some st \<and> \<not> cl_released st)"

text \<open>What an eviction may change: entries leave, blocked keys stay blocked, live clients stay.\<close>

definition thins :: "'r receipt_table \<Rightarrow> 'r receipt_table \<Rightarrow> bool" where
  "thins t t' \<longleftrightarrow>
     rt_heap t' = rt_heap t \<and> rt_fresh t' = rt_fresh t \<and> rt_clientSeq t' = rt_clientSeq t \<and>
     rt_cap t' = rt_cap t \<and> rt_age t' = rt_age t \<and>
     (\<forall>k. rt_byKey t' k = rt_byKey t k \<or> rt_byKey t' k = None) \<and>
     (\<forall>k. blocked_key t k \<longrightarrow> blocked_key t' k) \<and>
     (\<forall>c. live_client t c \<longrightarrow> live_client t' c)"

lemma thins_refl [simp]: "thins t t"
  by (simp add: thins_def)

lemma thins_trans: "thins t t' \<Longrightarrow> thins t' t'' \<Longrightarrow> thins t t''"
  unfolding thins_def by metis

lemma blocked_key_order [simp]: "blocked_key (t\<lparr>rt_order := xs\<rparr>) k = blocked_key t k"
  by (simp add: blocked_key_def minted_client_def)

lemma live_client_order [simp]: "live_client (t\<lparr>rt_order := xs\<rparr>) c = live_client t c"
  by (simp add: live_client_def)

lemma thins_order: "thins t (t'\<lparr>rt_order := xs\<rparr>) = thins t t'"
  by (simp add: thins_def)

lemma thins_order_left: "thins (t\<lparr>rt_order := xs\<rparr>) t' = thins t t'"
  by (simp add: thins_def)

lemma thins_evicted:
  assumes inv: "table_inv P t" and order: "rt_order t = xs @ key # ys"
  shows "thins t (evicted key (xs @ ys) t)"
proof -
  let ?t = "evicted key (xs @ ys) t"
  obtain a where a: "rt_byKey t key = Some a" using table_invD(5) [OF inv] order by fastforce
  then have "rt_clients t (rk_client key) \<noteq> None"
    using table_invD(1) [OF inv] by (auto simp: entry_ok_def)
  then obtain st where st: "rt_clients t (rk_client key) = Some st" by auto
  then have minted: "minted_client t (rk_client key)"
    using table_invD(7) [OF inv] by (auto simp: client_ok_def)
  have "blocked_key ?t k" if "blocked_key t k" for k
  proof (cases "k = key")
    case True
    then show ?thesis using st minted
      by (auto simp: blocked_key_def evicted_def mark_evicted_clients drop_entry_clients minted_client_def)
  next
    case False
    then show ?thesis using that
      by (auto simp: blocked_key_def evicted_def mark_evicted_clients drop_entry_clients minted_client_def
          split: option.splits)
  qed
  moreover have "live_client ?t c" if "live_client t c" for c
    using that by (auto simp: live_client_def evicted_def mark_evicted_clients drop_entry_clients)
  ultimately show ?thesis by (simp add: thins_def evicted_def)
qed

text \<open>The retiring half of the age pass.\<close>

lemma retire_sel [simp]:
  "rt_byKey (retire now t) = rt_byKey t" "rt_heap (retire now t) = rt_heap t"
  "rt_order (retire now t) = rt_order t" "rt_fresh (retire now t) = rt_fresh t"
  "rt_clientSeq (retire now t) = rt_clientSeq t" "rt_cap (retire now t) = rt_cap t"
  "rt_age (retire now t) = rt_age t"
  by (simp_all add: retire_def Let_def)

lemma retire_clients:
  "rt_clients (retire now t) c =
     (if c \<in> rt_released t \<and> (\<exists>st. rt_clients t c = Some st \<and> cl_entries st = 0 \<and>
        now - cl_releasedAt st \<ge> rt_age t) then None else rt_clients t c)"
  by (auto simp: retire_def Let_def split: option.splits)

lemma retire_released:
  "c \<in> rt_released (retire now t) \<longleftrightarrow>
     c \<in> rt_released t \<and> \<not> (\<exists>st. rt_clients t c = Some st \<and> cl_entries st = 0 \<and>
        now - cl_releasedAt st \<ge> rt_age t)"
  by (auto simp: retire_def Let_def split: option.splits)

lemma retire_keeps_holder:
  assumes "table_inv P t" and "rt_byKey t k = Some a"
  shows "rt_clients (retire now t) (rk_client k) = rt_clients t (rk_client k)"
proof -
  obtain st where st: "rt_clients t (rk_client k) = Some st"
    using table_invD(1) [OF assms] by (auto simp: entry_ok_def)
  have "k \<in> dom (rt_byKey t)" using assms(2) by auto
  with table_invD(7) [OF assms(1) st] card_pos_key [OF table_invD(6) [OF assms(1)]]
  have "cl_entries st \<noteq> 0" by (fastforce simp: client_ok_def)
  with st show ?thesis by (simp add: retire_clients)
qed

lemma table_inv_retire:
  assumes inv: "table_inv P t"
  shows "table_inv P (retire now t)"
proof -
  have "entry_ok P (retire now t) k a" if "rt_byKey t k = Some a" for k a
    using table_invD(1) [OF inv that] retire_keeps_holder [OF inv that] by (simp add: entry_ok_def)
  moreover have "client_ok (retire now t) c st" if "rt_clients (retire now t) c = Some st" for c st
  proof -
    from that have "rt_clients t c = Some st" by (simp add: retire_clients split: if_splits)
    from table_invD(7) [OF inv this] that show ?thesis
      by (auto simp: client_ok_def retire_released retire_clients minted_client_def split: if_splits)
  qed
  moreover have "rt_clients (retire now t) c \<noteq> None" if "c \<in> rt_released (retire now t)" for c
    using that table_invD(8) [OF inv, of c] by (simp add: retire_released retire_clients)
  ultimately show ?thesis
    using table_invD(2-6,9) [OF inv] unfolding table_inv_def by (simp add: dom_def) blast
qed

lemma thins_retire:
  assumes inv: "table_inv P t"
  shows "thins t (retire now t)"
proof -
  have "blocked_key (retire now t) k" if "blocked_key t k" for k
  proof (cases "rt_clients (retire now t) (rk_client k) = rt_clients t (rk_client k)")
    case True
    with that show ?thesis by (simp add: blocked_key_def minted_client_def)
  next
    case False
    then obtain st where "rt_clients t (rk_client k) = Some st"
        "rt_clients (retire now t) (rk_client k) = None"
      by (auto simp: retire_clients split: if_splits)
    with table_invD(7) [OF inv this(1)] show ?thesis
      by (simp add: blocked_key_def client_ok_def minted_client_def)
  qed
  moreover have "live_client (retire now t) c" if "live_client t c" for c
    using that table_invD(7) [OF inv] by (fastforce simp: live_client_def retire_clients client_ok_def)
  ultimately show ?thesis by (simp add: thins_def)
qed

text \<open>The age pass. \<open>fresh_key\<close>: the entry has not passed the age bound.\<close>

definition fresh_key :: "int \<Rightarrow> 'r receipt_table \<Rightarrow> receipt_key \<Rightarrow> bool" where
  "fresh_key now t k \<longleftrightarrow>
     (\<exists>a r. rt_byKey t k = Some a \<and> rt_heap t a = Some r \<and> now - rc_at r \<le> rt_age t)"

lemma evict_aged_fold:
  assumes "table_inv P (t\<lparr>rt_order := kept @ ks\<rparr>)"
    and "fold (evict_aged_key now) ks (kept, t) = (kept', t')"
  shows "table_inv P (t'\<lparr>rt_order := kept'\<rparr>) \<and> thins t t' \<and>
    kept' = kept @ filter (fresh_key now t) ks \<and>
    (\<forall>k. k \<notin> set ks \<longrightarrow> rt_byKey t' k = rt_byKey t k) \<and>
    (\<forall>k \<in> set ks. fresh_key now t k \<longrightarrow> rt_byKey t' k = rt_byKey t k)"
  using assms
proof (induction ks arbitrary: kept t)
  case Nil
  then show ?case by simp
next
  case (Cons key ks)
  let ?t0 = "t\<lparr>rt_order := kept @ key # ks\<rparr>"
  have dist: "key \<notin> set ks" using table_invD(4) [OF Cons.prems(1)] by simp
  obtain a where a: "rt_byKey t key = Some a"
    using table_invD(5) [OF Cons.prems(1), of key] by auto
  then obtain r where r: "rt_heap t a = Some r"
    using table_invD(1) [OF Cons.prems(1), of key a] by (auto simp: entry_ok_def)
  show ?case
  proof (cases "now - rc_at r > rt_age t")
    case True
    let ?t1 = "mark_evicted key (drop_entry key t)"
    have eq: "evicted key (kept @ ks) ?t0 = ?t1\<lparr>rt_order := kept @ ks\<rparr>"
      by (simp add: evicted_def drop_entry_order_update mark_evicted_order_update)
    have inv1: "table_inv P (?t1\<lparr>rt_order := kept @ ks\<rparr>)"
      using table_inv_evicted [OF Cons.prems(1), of kept key ks] eq by simp
    have thin1: "thins t ?t1"
      using thins_evicted [OF Cons.prems(1), of kept key ks] eq by (simp add: thins_order thins_order_left)
    have "evict_aged_key now key (kept, t) = (kept, ?t1)"
      using a r True by (simp add: evict_aged_key_def)
    then have step: "fold (evict_aged_key now) ks (kept, ?t1) = (kept', t')"
      using Cons.prems(2) by simp
    have fresh: "fresh_key now ?t1 k = fresh_key now t k" if "k \<in> set ks" for k
      using that dist by (auto simp: fresh_key_def)
    have "filter (fresh_key now ?t1) ks = filter (fresh_key now t) ks"
      using fresh by (rule filter_cong [OF refl])
    moreover have "\<not> fresh_key now t key" using a r True by (simp add: fresh_key_def)
    ultimately show ?thesis
      using Cons.IH [OF inv1 step] thins_trans [OF thin1] dist fresh by auto
  next
    case False
    have "evict_aged_key now key (kept, t) = (kept @ [key], t)"
      using a r False by (simp add: evict_aged_key_def)
    then have step: "fold (evict_aged_key now) ks (kept @ [key], t) = (kept', t')"
      using Cons.prems(2) by simp
    have "fresh_key now t key" using a r False by (simp add: fresh_key_def)
    with Cons.IH [of "kept @ [key]" t, OF _ step] Cons.prems(1) dist show ?thesis by auto
  qed
qed

lemma evict_aged_spec:
  assumes inv: "table_inv P t"
  shows "table_inv P (evict_aged now t)" and "thins t (evict_aged now t)"
    and "rt_order (evict_aged now t) = filter (fresh_key now t) (rt_order t)"
    and "k \<notin> set (rt_order t) \<or> fresh_key now t k \<Longrightarrow> rt_byKey (evict_aged now t) k = rt_byKey t k"
proof -
  obtain kept t' where fold: "fold (evict_aged_key now) (rt_order t) ([], t) = (kept, t')"
    by (cases "fold (evict_aged_key now) (rt_order t) ([], t)") auto
  have eq: "evict_aged now t = retire now (t'\<lparr>rt_order := kept\<rparr>)" by (simp add: evict_aged_def fold)
  have "table_inv P (t\<lparr>rt_order := [] @ rt_order t\<rparr>)" using inv by simp
  note f = evict_aged_fold [OF this fold]
  from f have "table_inv P (t'\<lparr>rt_order := kept\<rparr>)" by blast
  then show "table_inv P (evict_aged now t)" unfolding eq by (rule table_inv_retire)
  from f have "thins t (t'\<lparr>rt_order := kept\<rparr>)" by (simp add: thins_order)
  then show "thins t (evict_aged now t)"
    unfolding eq by (rule thins_trans [OF _ thins_retire]) (use f in blast)
  from f show "rt_order (evict_aged now t) = filter (fresh_key now t) (rt_order t)" by (simp add: eq)
  from f show "k \<notin> set (rt_order t) \<or> fresh_key now t k \<Longrightarrow> rt_byKey (evict_aged now t) k = rt_byKey t k"
    by (auto simp: eq)
qed

lemma prune_count_spec:
  assumes "table_inv P t"
  shows "table_inv P (prune_count t) \<and> thins t (prune_count t) \<and>
    rt_order (prune_count t) = drop (length (rt_order t) - rt_cap t) (rt_order t) \<and>
    (\<forall>k. k \<notin> set (take (length (rt_order t) - rt_cap t) (rt_order t)) \<longrightarrow>
       rt_byKey (prune_count t) k = rt_byKey t k)"
  using assms
proof (induction t rule: prune_count.induct)
  case (1 t)
  show ?case
  proof (cases "length (rt_order t) > rt_cap t")
    case False
    then show ?thesis using "1.prems" by (subst (1 2 3 4) prune_count.simps) simp
  next
    case True
    then obtain key rest where order: "rt_order t = key # rest" by (cases "rt_order t") auto
    have eq: "evict_oldest t = evicted key ([] @ rest) t"
      by (simp add: evict_oldest_def order evicted_def drop_entry_order_update mark_evicted_order_update)
    have inv: "table_inv P (evict_oldest t)" and thin: "thins t (evict_oldest t)"
      unfolding eq using table_inv_evicted thins_evicted "1.prems" order by fastforce+
    have sel: "rt_order (evict_oldest t) = rest" "rt_cap (evict_oldest t) = rt_cap t"
      "rt_byKey (evict_oldest t) = (rt_byKey t)(key := None)" by (simp_all add: eq evicted_def)
    have len: "length (key # rest) - rt_cap t = Suc (length rest - rt_cap t)" using True order by simp
    note IH = "1.IH" [OF True inv, unfolded sel]
    have "prune_count t = prune_count (evict_oldest t)" using True by (subst prune_count.simps) simp
    with IH thins_trans [OF thin] show ?thesis unfolding order len by auto
  qed
qed

section \<open>Operations\<close>

lemma table_inv_clients:
  assumes inv: "table_inv P t" and c: "rt_clients t name \<noteq> None \<or> \<not> minted_client t name"
    and t': "t' = t\<lparr>rt_clients := (rt_clients t)(name \<mapsto> st), rt_released := R, rt_clientSeq := n\<rparr>"
    and n: "rt_clientSeq t \<le> n" and ok: "client_ok t' name st"
    and R: "\<And>c. c \<noteq> name \<Longrightarrow> c \<in> R \<longleftrightarrow> c \<in> rt_released t"
  shows "table_inv P t'"
proof -
  have "client_ok t' c st'" if "rt_clients t c = Some st'" "c \<noteq> name" for c st'
    using table_invD(7) [OF inv that(1)] that(2) R n by (auto simp: client_ok_def t' minted_client_def)
  moreover have "entry_ok P t' k a" if "rt_byKey t k = Some a" for k a
    using table_invD(1) [OF inv that] by (simp add: entry_ok_def t')
  moreover have "rt_clients t' c \<noteq> None" if "c \<in> R" for c
    using that R table_invD(8) [OF inv, of c] by (cases "c = name") (simp_all add: t')
  ultimately show ?thesis
    using ok table_invD(2-6,9) [OF inv] unfolding table_inv_def
    by (simp add: t' dom_def) blast
qed

lemma no_entries_of_unknown:
  assumes "table_inv P t" and "rt_clients t c = None"
  shows "{k \<in> dom (rt_byKey t). rk_client k = c} = {}"
  using assms(2) by (auto simp: entry_ok_def dest!: table_invD(1) [OF assms(1)])

lemma new_client_spec:
  assumes inv: "table_inv P t" and t': "new_client t = (name, t')"
  shows "table_inv P t' \<and> \<not> minted_client t name \<and> live_client t' name \<and>
    (\<forall>k. blocked_key t k \<longrightarrow> blocked_key t' k) \<and> (\<forall>c. live_client t c \<longrightarrow> live_client t' c) \<and>
    rt_heap t' = rt_heap t \<and> rt_byKey t' = rt_byKey t \<and> rt_order t' = rt_order t \<and>
    rt_cap t' = rt_cap t \<and> rt_age t' = rt_age t"
proof -
  have name: "name = client_name (Suc (rt_clientSeq t))" and eq: "t' = t\<lparr>rt_clients := (rt_clients t)(name \<mapsto>
      \<lparr>cl_mark = 0, cl_released = False, cl_releasedAt = 0, cl_entries = 0\<rparr>),
      rt_released := rt_released t, rt_clientSeq := Suc (rt_clientSeq t)\<rparr>"
    using t' by (auto simp: new_client_def Let_def)
  have fresh: "\<not> minted_client t name" using fresh_client name by simp
  then have none: "rt_clients t name = None"
    using table_invD(7) [OF inv] by (cases "rt_clients t name") (auto simp: client_ok_def)
  have "name \<notin> rt_released t" using table_invD(8) [OF inv] none by blast
  then have ok: "client_ok t' name \<lparr>cl_mark = 0, cl_released = False, cl_releasedAt = 0, cl_entries = 0\<rparr>"
    using arg_cong [OF no_entries_of_unknown [OF inv none], of card]
    by (simp add: client_ok_def eq minted_client_def name)
  have "blocked_key t' k" if "blocked_key t k" for k
  proof (cases "rk_client k = name")
    case True
    with that fresh have "rt_byKey t k \<noteq> None" by (auto simp: blocked_key_def)
    then show ?thesis by (simp add: blocked_key_def eq)
  next
    case False
    with that show ?thesis by (auto simp: blocked_key_def eq minted_client_def)
  qed
  moreover have "live_client t c \<longrightarrow> live_client t' c" for c by (simp add: live_client_def eq)
  moreover have "table_inv P t'" by (rule table_inv_clients [OF inv _ eq _ ok]) (use fresh in auto)
  moreover have "live_client t' name" by (simp add: live_client_def eq)
  ultimately show ?thesis using fresh by (simp add: eq)
qed

text \<open>The entries of a table after \<open>release\<close>, \<open>claim\<close> and a refused \<open>admit\<close> are those of the age pass.\<close>

definition aged_only :: "int \<Rightarrow> 'r receipt_table \<Rightarrow> 'r receipt_table \<Rightarrow> bool" where
  "aged_only now t t' \<longleftrightarrow>
     rt_heap t' = rt_heap t \<and> rt_byKey t' = rt_byKey (evict_aged now t) \<and>
     rt_order t' = rt_order (evict_aged now t) \<and> rt_cap t' = rt_cap t \<and> rt_age t' = rt_age t"

lemma aged_only_evict: "table_inv P t \<Longrightarrow> aged_only now t (evict_aged now t)"
  using evict_aged_spec(2) [of P t now] by (simp add: aged_only_def thins_def)

lemma release_spec:
  assumes inv: "table_inv P t"
  shows "table_inv P (release now name t) \<and> aged_only now t (release now name t) \<and>
    (\<forall>k. blocked_key t k \<longrightarrow> blocked_key (release now name t) k) \<and>
    (\<forall>c. c \<noteq> name \<longrightarrow> live_client t c \<longrightarrow> live_client (release now name t) c)"
proof -
  let ?e = "evict_aged now t"
  have e: "table_inv P ?e" "thins t ?e" using evict_aged_spec [OF inv] by auto
  show ?thesis
  proof (cases "\<exists>st. rt_clients ?e name = Some st \<and> \<not> cl_released st")
    case False
    then have "release now name t = ?e" by (auto simp: release_def Let_def split: option.split)
    with e aged_only_evict [OF inv] show ?thesis by (simp add: thins_def)
  next
    case True
    then obtain st where st: "rt_clients ?e name = Some st" "\<not> cl_released st" by blast
    let ?st = "st\<lparr>cl_released := True, cl_releasedAt := now\<rparr>"
    have eq: "release now name t = ?e\<lparr>rt_clients := (rt_clients ?e)(name \<mapsto> ?st),
        rt_released := insert name (rt_released ?e), rt_clientSeq := rt_clientSeq ?e\<rparr>"
      using st by (simp add: release_def Let_def)
    have ok: "client_ok (release now name t) name ?st"
      using table_invD(7) [OF e(1) st(1)] by (simp add: client_ok_def eq minted_client_def)
    have "table_inv P (release now name t)"
      by (rule table_inv_clients [OF e(1) _ eq _ ok]) (use st in auto)
    moreover have "blocked_key (release now name t) k" if "blocked_key ?e k" for k
      using that st by (auto simp: blocked_key_def eq minted_client_def)
    moreover have "live_client (release now name t) c" if "live_client ?e c" "c \<noteq> name" for c
      using that by (simp add: live_client_def eq)
    moreover have "aged_only now t (release now name t)"
      using e(2) by (simp add: aged_only_def eq thins_def)
    ultimately show ?thesis using e(2) by (simp add: thins_def)
  qed
qed

lemma claim_spec:
  assumes inv: "table_inv P t" and t': "claim now name t = (res, t')"
  shows "table_inv P t' \<and> aged_only now t t' \<and> (\<forall>k. blocked_key t k \<longrightarrow> blocked_key t' k) \<and>
    (\<forall>c. live_client t c \<longrightarrow> live_client t' c) \<and>
    (if rt_clients (evict_aged now t) name = None then res = Some [ErrUnknownClient] \<and> rt_clients t' name = None
     else res = None \<and> live_client t' name)"
proof -
  let ?e = "evict_aged now t"
  have e: "table_inv P ?e" "thins t ?e" using evict_aged_spec [OF inv] by auto
  show ?thesis
  proof (cases "rt_clients ?e name")
    case None
    with t' e aged_only_evict [OF inv] show ?thesis by (auto simp: claim_def Let_def thins_def)
  next
    case (Some st)
    let ?st = "st\<lparr>cl_released := False, cl_releasedAt := 0\<rparr>"
    have eq: "t' = ?e\<lparr>rt_clients := (rt_clients ?e)(name \<mapsto> ?st),
        rt_released := rt_released ?e - {name}, rt_clientSeq := rt_clientSeq ?e\<rparr>" and res: "res = None"
      using t' Some by (auto simp: claim_def Let_def)
    have ok: "client_ok t' name ?st"
      using table_invD(7) [OF e(1) Some] by (simp add: client_ok_def eq minted_client_def)
    have "table_inv P t'" by (rule table_inv_clients [OF e(1) _ eq _ ok]) (use Some in auto)
    moreover have "blocked_key t' k" if "blocked_key ?e k" for k
      using that Some by (auto simp: blocked_key_def eq minted_client_def)
    moreover have "live_client t' c" if "live_client ?e c" for c
      using that by (simp add: live_client_def eq)
    moreover have "aged_only now t t'" using e(2) by (simp add: aged_only_def eq thins_def)
    moreover have "live_client t' name" by (simp add: live_client_def eq)
    moreover have "\<forall>k. blocked_key t k \<longrightarrow> blocked_key ?e k" "\<forall>c. live_client t c \<longrightarrow> live_client ?e c"
      using e(2) by (simp_all add: thins_def)
    ultimately show ?thesis using Some res by simp
  qed
qed

lemma table_inv_reserve:
  assumes inv: "table_inv P t" and key: "rt_byKey t key = None" and st: "rt_clients t (rk_client key) = Some st"
    and t': "t' = t\<lparr>rt_fresh := Suc (rt_fresh t), rt_heap := (rt_heap t)(rt_fresh t \<mapsto> r),
      rt_byKey := (rt_byKey t)(key \<mapsto> rt_fresh t),
      rt_clients := (rt_clients t)(rk_client key \<mapsto> st\<lparr>cl_entries := cl_entries st + 1\<rparr>)\<rparr>"
    and r: "\<not> rc_completed r"
  shows "table_inv (P(rt_fresh t \<mapsto> key)) t'"
proof -
  let ?a = "rt_fresh t" and ?P = "P(rt_fresh t \<mapsto> key)"
  have used: "a < ?a" if "rt_byKey t k = Some a" for k a
    using table_invD(1) [OF inv that] table_invD(9) [OF inv] by (auto simp: entry_ok_def)
  have not_done: "key \<notin> set (rt_order t)" using table_invD(5) [OF inv, of key] key by auto
  have "entry_ok ?P t' k a" if "rt_byKey t' k = Some a" for k a
  proof (cases "k = key")
    case True
    with that r not_done show ?thesis by (simp add: entry_ok_def t')
  next
    case False
    with that have k: "rt_byKey t k = Some a" by (simp add: t')
    from table_invD(1) [OF inv k] used [OF k] show ?thesis by (auto simp: entry_ok_def t')
  qed
  moreover have "k = k'" if "rt_byKey t' k = Some a" "rt_byKey t' k' = Some a" for k k' a
    using that used table_invD(2) [OF inv, of k a k'] by (fastforce simp: t' split: if_splits)
  moreover have "rt_byKey t' k = Some a" if "?P a = Some k" for a k
  proof (cases "a = ?a")
    case False
    with that have "rt_byKey t k = Some a" using table_invD(3) [OF inv] by simp
    with key show ?thesis by (auto simp: t')
  qed (use that in \<open>simp add: t'\<close>)
  moreover have "client_ok t' c st'" if "rt_clients t' c = Some st'" for c st'
  proof (cases "c = rk_client key")
    case True
    have "{k \<in> dom ((rt_byKey t)(key \<mapsto> ?a)). rk_client k = c} = insert key {k \<in> dom (rt_byKey t). rk_client k = c}"
      using True by auto
    moreover have "finite {k \<in> dom (rt_byKey t). rk_client k = c}" using table_invD(6) [OF inv] by simp
    ultimately have "card {k \<in> dom ((rt_byKey t)(key \<mapsto> ?a)). rk_client k = c} =
        Suc (card {k \<in> dom (rt_byKey t). rk_client k = c})" using key by (simp add: domIff)
    with that True table_invD(7) [OF inv st] show ?thesis
      by (auto simp: client_ok_def t' simp flip: dom_fun_upd)
  next
    case False
    with that have "rt_clients t c = Some st'" by (simp add: t')
    moreover have "{k \<in> dom ((rt_byKey t)(key \<mapsto> ?a)). rk_client k = c} = {k \<in> dom (rt_byKey t). rk_client k = c}"
      using False by auto
    ultimately show ?thesis using table_invD(7) [OF inv, of c st']
      by (simp add: client_ok_def t' minted_client_def flip: dom_fun_upd)
  qed
  moreover have "finite (dom (rt_byKey t'))" using table_invD(6) [OF inv] by (simp add: t')
  moreover have "\<forall>k \<in> set (rt_order t'). rt_byKey t' k \<noteq> None"
    using table_invD(5) [OF inv] by (auto simp: t')
  moreover have "\<forall>c \<in> rt_released t'. rt_clients t' c \<noteq> None"
    using table_invD(8) [OF inv] by (auto simp: t')
  moreover have "\<forall>a. rt_heap t' a \<noteq> None \<longrightarrow> a < rt_fresh t'"
    using table_invD(9) [OF inv] by (fastforce simp: t' less_Suc_eq)
  moreover have "distinct (rt_order t')" using table_invD(4) [OF inv] by (simp add: t')
  ultimately show ?thesis unfolding table_inv_def by blast
qed

lemma admit_mine:
  assumes inv: "table_inv P t" and adm: "admit now key hash t = (AdmitMine a, t')"
  shows "table_inv (P(a \<mapsto> key)) t' \<and> \<not> blocked_key t key \<and> blocked_key t' key \<and>
    (\<forall>k. blocked_key t k \<longrightarrow> blocked_key t' k) \<and> (\<forall>c. live_client t c \<longrightarrow> live_client t' c) \<and>
    rt_heap t a = None \<and> P a = None \<and> (\<forall>a'. a' \<noteq> a \<longrightarrow> rt_heap t' a' = rt_heap t a') \<and>
    rt_byKey t' = (rt_byKey (evict_aged now t))(key \<mapsto> a) \<and>
    rt_order t' = rt_order (evict_aged now t) \<and> rt_cap t' = rt_cap t \<and> rt_age t' = rt_age t"
proof -
  let ?e = "evict_aged now t"
  have e: "table_inv P ?e" "thins t ?e" using evict_aged_spec [OF inv] by auto
  obtain st where st: "rt_clients ?e (rk_client key) = Some st" and none: "rt_byKey ?e key = None"
      and above: "\<not> rk_id key \<le> cl_mark st" and a: "a = rt_fresh ?e"
      and t': "t' = ?e\<lparr>rt_fresh := Suc (rt_fresh ?e), rt_heap := (rt_heap ?e)(rt_fresh ?e \<mapsto>
        \<lparr>rc_hash = hash, rc_completed = False, rc_result = None, rc_err = None, rc_at = 0\<rparr>),
        rt_byKey := (rt_byKey ?e)(key \<mapsto> rt_fresh ?e),
        rt_clients := (rt_clients ?e)(rk_client key \<mapsto> st\<lparr>cl_entries := cl_entries st + 1\<rparr>)\<rparr>"
    using adm by (auto simp: admit_def client_locked_def Let_def split: option.splits if_splits)
  have "\<not> blocked_key ?e key" using st none above by (simp add: blocked_key_def)
  then have "\<not> blocked_key t key" using e(2) by (auto simp: thins_def)
  moreover have "table_inv (P(a \<mapsto> key)) t'"
    unfolding a by (rule table_inv_reserve [OF e(1) none st t']) simp
  moreover have "blocked_key t' key" by (simp add: blocked_key_def t')
  moreover have "blocked_key t' k" if "blocked_key ?e k" for k
    using that st by (auto simp: blocked_key_def t')
  moreover have "live_client t' c" if "live_client ?e c" for c
    using that st by (auto simp: live_client_def t')
  moreover have "rt_heap ?e (rt_fresh ?e) = None" using table_invD(9) [OF e(1)] by fastforce
  moreover have "P (rt_fresh ?e) = None"
  proof (rule ccontr)
    assume "P (rt_fresh ?e) \<noteq> None"
    then obtain k where "P (rt_fresh ?e) = Some k" by auto
    from table_invD(1) [OF e(1) table_invD(3) [OF e(1) this]] \<open>rt_heap ?e (rt_fresh ?e) = None\<close> show False
      by (simp add: entry_ok_def)
  qed
  moreover have "\<forall>k. blocked_key t k \<longrightarrow> blocked_key ?e k" "\<forall>c. live_client t c \<longrightarrow> live_client ?e c"
    "rt_heap ?e = rt_heap t" "rt_cap ?e = rt_cap t" "rt_age ?e = rt_age t"
    using e(2) by (simp_all add: thins_def)
  ultimately show ?thesis by (simp add: a t')
qed

lemma admit_not_mine:
  assumes "admit now key hash t = (res, t')" and "\<And>a. res \<noteq> AdmitMine a"
  shows "t' = evict_aged now t"
  using assms by (auto simp: admit_def Let_def split: sum.splits option.splits if_splits)

lemma admit_found:
  "admit now key hash t = (AdmitFound a running, t') \<Longrightarrow>
     \<exists>r. rt_byKey t' key = Some a \<and> rt_heap t' a = Some r \<and> rc_hash r = hash \<and> running = (\<not> rc_completed r)"
  by (auto simp: admit_def Let_def split: sum.splits option.splits if_splits)

text \<open>Completing a reservation.\<close>

definition completing :: "'r \<Rightarrow> go_error option \<Rightarrow> 'r receipt \<Rightarrow> 'r receipt" where
  "completing res err r = r\<lparr>rc_result := Some res, rc_err := err, rc_completed := True\<rparr>"

lemma publish_forget:
  assumes inv: "table_inv P t" and run: "P a = Some key"
    and t': "t' = publish now key a res err False t"
  shows "table_inv (P(a := None)) t' \<and> rt_byKey t' = (rt_byKey t)(key := None) \<and>
    (\<forall>k. k \<noteq> key \<longrightarrow> blocked_key t k \<longrightarrow> blocked_key t' k) \<and> (\<forall>c. live_client t c \<longrightarrow> live_client t' c) \<and>
    (\<exists>r. rt_heap t a = Some r \<and> rt_heap t' = (rt_heap t)(a \<mapsto> completing res err r)) \<and>
    rt_order t' = rt_order t \<and> rt_cap t' = rt_cap t \<and> rt_age t' = rt_age t"
proof -
  have key: "rt_byKey t key = Some a" by (rule table_invD(3) [OF inv run])
  then obtain r where r: "rt_heap t a = Some r" "\<not> rc_completed r" "key \<notin> set (rt_order t)"
    using table_invD(1) [OF inv key] run by (auto simp: entry_ok_def)
  let ?t1 = "t\<lparr>rt_heap := (rt_heap t)(a \<mapsto> completing res err r)\<rparr>"
  have eq: "t' = drop_entry key ?t1"
    using r key by (simp add: t' publish_def forget_def completing_def)
  have sel: "rt_byKey t' = (rt_byKey t)(key := None)" "rt_heap t' = (rt_heap t)(a \<mapsto> completing res err r)"
    "rt_order t' = rt_order t" "rt_fresh t' = rt_fresh t" "rt_released t' = rt_released t"
    "rt_clientSeq t' = rt_clientSeq t" "rt_cap t' = rt_cap t" "rt_age t' = rt_age t"
    by (simp_all add: eq)
  have dom: "key \<in> dom (rt_byKey t)" using key by auto
  have clients: "rt_clients t' c = rt_clients (drop_entry key t) c" for c
    by (simp add: eq drop_entry_clients)
  have dom_c: "rt_clients t' c = None \<longleftrightarrow> rt_clients t c = None" for c
    by (simp add: clients drop_entry_clients)
  have other: "a' \<noteq> a" if "rt_byKey t k = Some a'" "k \<noteq> key" for k a'
    using that table_invD(2) [OF inv _ key] by auto
  have "entry_ok (P(a := None)) t' k a'" if "rt_byKey t' k = Some a'" for k a'
  proof -
    from that have k: "rt_byKey t k = Some a'" "k \<noteq> key" by (auto simp: sel split: if_splits)
    from table_invD(1) [OF inv k(1)] other [OF k] show ?thesis by (simp add: entry_ok_def sel dom_c)
  qed
  moreover have "rt_byKey t' k = Some a'" if "(P(a := None)) a' = Some k" for a' k
    using that table_invD(3) [OF inv, of a' k] key by (auto simp: sel split: if_splits)
  moreover have "client_ok t' c st" if st: "rt_clients t' c = Some st" for c st
  proof -
    from st dom_c [of c] obtain st0 where st0: "rt_clients t c = Some st0" by (cases "rt_clients t c") auto
    from client_ok_drop [OF table_invD(6) [OF inv] dom table_invD(7) [OF inv st0] st0] st
    show ?thesis by (simp add: client_ok_def sel minted_client_def clients)
  qed
  moreover have "k = k'" if "rt_byKey t' k = Some a'" "rt_byKey t' k' = Some a'" for k k' a'
    using that table_invD(2) [OF inv, of k a' k'] by (auto simp: sel split: if_splits)
  moreover have "rt_byKey t' k \<noteq> None" if "k \<in> set (rt_order t')" for k
    using that table_invD(5) [OF inv, of k] r(3) by (auto simp: sel)
  moreover have "\<forall>c \<in> rt_released t'. rt_clients t' c \<noteq> None" using table_invD(8) [OF inv] by (simp only: sel dom_c) blast
  moreover have "\<forall>a'. rt_heap t' a' \<noteq> None \<longrightarrow> a' < rt_fresh t'"
    using table_invD(9) [OF inv] r(1) by (auto simp: sel)
  moreover have "distinct (rt_order t')" "finite (dom (rt_byKey t'))"
    using table_invD(4,6) [OF inv] by (simp_all add: sel)
  ultimately have "table_inv (P(a := None)) t'" unfolding table_inv_def by blast
  moreover have "blocked_key t' k" if "k \<noteq> key" "blocked_key t k" for k
    using that by (auto simp: blocked_key_def sel clients drop_entry_clients minted_client_cong [OF sel(6)] split: option.splits)
  moreover have "live_client t' c" if "live_client t c" for c
    using that by (auto simp: live_client_def clients drop_entry_clients)
  ultimately show ?thesis using r(1) by (simp add: sel)
qed

lemma publish_keep:
  assumes inv: "table_inv P t" and run: "P a = Some key"
    and t': "t' = publish now key a res err True t"
  obtains r t2 where "rt_heap t a = Some r" and "\<not> rc_completed r"
    and "t2 = t\<lparr>rt_heap := (rt_heap t)(a \<mapsto> (completing res err r)\<lparr>rc_at := now\<rparr>), rt_order := rt_order t @ [key]\<rparr>"
    and "table_inv (P(a := None)) t2" and "t' = prune_count t2"
    and "table_inv (P(a := None)) t'" and "thins t2 t'"
proof -
  have key: "rt_byKey t key = Some a" by (rule table_invD(3) [OF inv run])
  then obtain r where r: "rt_heap t a = Some r" "\<not> rc_completed r" "key \<notin> set (rt_order t)"
    using table_invD(1) [OF inv key] run by (auto simp: entry_ok_def)
  let ?t2 = "t\<lparr>rt_heap := (rt_heap t)(a \<mapsto> (completing res err r)\<lparr>rc_at := now\<rparr>), rt_order := rt_order t @ [key]\<rparr>"
  have eq: "t' = prune_count ?t2"
    using r key by (simp add: t' publish_def completing_def Let_def)
  have "entry_ok (P(a := None)) ?t2 k a'" if k: "rt_byKey t k = Some a'" for k a'
  proof (cases "k = key")
    case True
    with k key have "a' = a" by simp
    with True table_invD(1) [OF inv k] show ?thesis by (simp add: entry_ok_def completing_def)
  next
    case False
    then have "a' \<noteq> a" using k table_invD(2) [OF inv _ key] by auto
    with False table_invD(1) [OF inv k] show ?thesis by (simp add: entry_ok_def)
  qed
  moreover have "client_ok ?t2 c st" if "rt_clients t c = Some st" for c st
    using table_invD(7) [OF inv that] by (simp add: client_ok_def)
  moreover have "rt_byKey t k = Some a'" if "(P(a := None)) a' = Some k" for a' k
    using that table_invD(3) [OF inv, of a' k] by (simp split: if_splits)
  moreover have "\<forall>k \<in> set (rt_order ?t2). rt_byKey t k \<noteq> None"
    using table_invD(5) [OF inv] key by auto
  moreover have "\<forall>a'. rt_heap ?t2 a' \<noteq> None \<longrightarrow> a' < rt_fresh t"
    using table_invD(9) [OF inv] r(1) by auto
  moreover have "distinct (rt_order ?t2)" using table_invD(4) [OF inv] r(3) by simp
  ultimately have inv2: "table_inv (P(a := None)) ?t2"
    using table_invD(2,6,8) [OF inv] unfolding table_inv_def by simp
  show ?thesis
    using that [OF r(1,2) refl inv2 eq] prune_count_spec [OF inv2] eq by simp
qed

section \<open>The invariant of the whole system\<close>

definition executed :: "'r call_system \<Rightarrow> receipt_key \<Rightarrow> bool" where
  "executed s k \<longleftrightarrow> count_list (cs_ran s) k = Suc (count_list (cs_refused s) k)"

definition answered_ok :: "'r call_system \<Rightarrow> receipt_key \<Rightarrow> 'r \<times> go_error option \<Rightarrow> bool" where
  "answered_ok s k ans \<longleftrightarrow>
     executed s k \<and>
     (\<forall>a. rt_byKey (cs_table s) k = Some a \<longrightarrow>
        (\<exists>r. rt_heap (cs_table s) a = Some r \<and> rc_completed r \<and> rc_result r = Some (fst ans) \<and> rc_err r = snd ans))"

definition calls_inv :: "'r call_system \<Rightarrow> bool" where
  "calls_inv s \<longleftrightarrow>
     table_inv (cs_running s) (cs_table s) \<and>
     length (rt_order (cs_table s)) \<le> rt_cap (cs_table s) \<and>
     rt_cap (cs_table s) = receiptCap \<and> rt_age (cs_table s) = receiptAge \<and>
     (\<forall>k. executed s k \<or> count_list (cs_ran s) k = count_list (cs_refused s) k) \<and>
     (\<forall>k. executed s k \<longrightarrow> blocked_key (cs_table s) k) \<and>
     (\<forall>a k. cs_running s a = Some k \<longrightarrow> executed s k) \<and>
     (\<forall>k ans. cs_answers s k = Some ans \<longrightarrow> answered_ok s k ans)"

lemma calls_invD:
  assumes "calls_inv s"
  shows "table_inv (cs_running s) (cs_table s)"
    and "length (rt_order (cs_table s)) \<le> rt_cap (cs_table s)"
    and "rt_cap (cs_table s) = receiptCap" and "rt_age (cs_table s) = receiptAge"
    and "executed s k \<or> count_list (cs_ran s) k = count_list (cs_refused s) k"
    and "executed s k \<Longrightarrow> blocked_key (cs_table s) k"
    and "cs_running s a = Some k \<Longrightarrow> executed s k"
    and "cs_answers s k = Some ans \<Longrightarrow> answered_ok s k ans"
  using assms unfolding calls_inv_def by blast+

lemma calls_inv_init: "calls_inv cs_init"
  by (simp add: calls_inv_def cs_init_def new_receipt_table_def table_inv_def executed_def)

text \<open>A step that runs nothing: the table thins, ages or its clients change.\<close>

lemma calls_inv_quiet:
  assumes inv: "calls_inv s" and t': "table_inv (cs_running s) t'"
    and heap: "rt_heap t' = rt_heap (cs_table s)"
    and byKey: "\<And>k. rt_byKey t' k = rt_byKey (cs_table s) k \<or> rt_byKey t' k = None"
    and order: "length (rt_order t') \<le> length (rt_order (cs_table s))"
    and bounds: "rt_cap t' = rt_cap (cs_table s)" "rt_age t' = rt_age (cs_table s)"
    and blocked: "\<And>k. blocked_key (cs_table s) k \<Longrightarrow> blocked_key t' k"
  shows "calls_inv (s\<lparr>cs_table := t'\<rparr>)"
proof -
  let ?s = "s\<lparr>cs_table := t'\<rparr>"
  have ex: "executed ?s k = executed s k" for k by (simp add: executed_def)
  have "answered_ok ?s k ans" if "cs_answers s k = Some ans" for k ans
  proof -
    have "rt_byKey (cs_table s) k = Some a" if "rt_byKey t' k = Some a" for a
      using byKey [of k] that by auto
    with calls_invD(8) [OF inv that] show ?thesis by (auto simp: answered_ok_def ex heap)
  qed
  moreover have "length (rt_order t') \<le> rt_cap t'" using order bounds(1) calls_invD(2) [OF inv] by simp
  ultimately show ?thesis
    using t' bounds blocked calls_invD(3-7) [OF inv] unfolding calls_inv_def ex by simp
qed

lemma aged_byKey:
  assumes "table_inv P t" and "aged_only now t t'"
  shows "rt_byKey t' k = rt_byKey t k \<or> rt_byKey t' k = None"
    and "length (rt_order t') \<le> length (rt_order t)"
  using evict_aged_spec(2,3) [OF assms(1), of now] assms(2) by (simp_all add: aged_only_def thins_def)

lemma calls_inv_aged:
  assumes inv: "calls_inv s" and t': "table_inv (cs_running s) t'" and aged: "aged_only now (cs_table s) t'"
    and blocked: "\<And>k. blocked_key (cs_table s) k \<Longrightarrow> blocked_key t' k"
  shows "calls_inv (s\<lparr>cs_table := t'\<rparr>)"
  using aged_byKey [OF calls_invD(1) [OF inv] aged] aged blocked
  by (intro calls_inv_quiet [OF inv t']) (simp_all add: aged_only_def)

lemma begin_call_quiet:
  assumes "begin_call kind now c hash t = (res, t')" and "\<And>key a. res \<noteq> CallRun key a"
  shows "t' = t \<or> t' = evict_aged now t"
  using assms
  by (auto simp: begin_call_def dest!: admit_not_mine
      split: if_splits sum.splits prod.splits admission.splits call_kind.splits option.splits)

lemma begin_call_run:
  assumes "begin_call kind now c hash t = (CallRun key a, t')"
  shows "admit now key hash t = (AdmitMine a, t')"
  using assms
  by (auto simp: begin_call_def replay_def
      split: if_splits sum.splits prod.splits admission.splits call_kind.splits option.splits)

lemma calls_inv_begin_run:
  assumes inv: "calls_inv s" and adm: "admit now key hash (cs_table s) = (AdmitMine a, t')"
  shows "calls_inv (s\<lparr>cs_table := t', cs_running := (cs_running s)(a \<mapsto> key), cs_ran := key # cs_ran s\<rparr>)"
    (is "calls_inv ?s")
proof -
  note t' = admit_mine [OF calls_invD(1) [OF inv] adm]
  have not_ex: "\<not> executed s key" using t' calls_invD(6) [OF inv] by blast
  then have eq: "count_list (cs_ran s) key = count_list (cs_refused s) key"
    using calls_invD(5) [OF inv, of key] by simp
  have ex: "executed ?s k \<longleftrightarrow> k = key \<or> executed s k" for k
    using eq by (auto simp: executed_def)
  have counts: "executed ?s k \<or> count_list (cs_ran ?s) k = count_list (cs_refused ?s) k" for k
    using calls_invD(5) [OF inv, of k] ex [of k] by auto
  have blocked: "blocked_key t' k" if "executed ?s k" for k
    using that t' ex [of k] calls_invD(6) [OF inv, of k] by blast
  have answered: "answered_ok ?s k ans" if ans: "cs_answers s k = Some ans" for k ans
  proof -
    note old = calls_invD(8) [OF inv ans]
    then have k: "k \<noteq> key" using not_ex by (auto simp: answered_ok_def)
    have "\<exists>r. rt_heap t' a' = Some r \<and> rc_completed r \<and> rc_result r = Some (fst ans) \<and> rc_err r = snd ans"
      if "rt_byKey t' k = Some a'" for a'
    proof -
      from that k t' have "rt_byKey (evict_aged now (cs_table s)) k = Some a'" by simp
      then have "rt_byKey (cs_table s) k = Some a'"
        using evict_aged_spec(2) [OF calls_invD(1) [OF inv], of now] by (auto simp: thins_def) (metis option.distinct(1))
      with old obtain r where r: "rt_heap (cs_table s) a' = Some r" "rc_completed r"
          "rc_result r = Some (fst ans)" "rc_err r = snd ans" by (auto simp: answered_ok_def)
      moreover have "rt_heap (cs_table s) a = None" "\<forall>b. b \<noteq> a \<longrightarrow> rt_heap t' b = rt_heap (cs_table s) b"
        using t' by simp_all
      ultimately show ?thesis by (cases "a' = a") auto
    qed
    with old ex [of k] show ?thesis by (simp add: answered_ok_def)
  qed
  have "rt_order t' = filter (fresh_key now (cs_table s)) (rt_order (cs_table s))"
    using t' evict_aged_spec(3) [OF calls_invD(1) [OF inv], of now] by simp
  then have "length (rt_order t') \<le> receiptCap"
    using order_trans [OF length_filter_le calls_invD(2) [OF inv]] calls_invD(3) [OF inv] by simp
  moreover have "executed ?s k" if "cs_running ?s a' = Some k" for a' k
    using that calls_invD(7) [OF inv, of a' k] ex [of k] by (auto split: if_splits)
  ultimately show ?thesis
    using t' counts blocked answered calls_invD(3,4) [OF inv] unfolding calls_inv_def by simp
qed

lemma calls_inv_end:
  assumes inv: "calls_inv s" and run: "cs_running s a = Some key"
  shows "calls_inv (call_step (EndOp now a zero out) s)"
proof -
  let ?t = "cs_table s"
  note tinv = calls_invD(1) [OF inv]
  have key: "rt_byKey ?t key = Some a" by (rule table_invD(3) [OF tinv run])
  have ex_key: "executed s key" by (rule calls_invD(7) [OF inv run])
  have refused_case: "calls_inv (s\<lparr>cs_table := publish now key a res err False ?t,
      cs_running := (cs_running s)(a := None), cs_refused := key # cs_refused s\<rparr>)" (is "calls_inv ?s")
    for res err
  proof -
    note p = publish_forget [OF tinv run refl, of now res err]
    let ?t' = "publish now key a res err False ?t"
    have ex: "executed ?s k \<longleftrightarrow> k \<noteq> key \<and> executed s k" for k
      using ex_key by (auto simp: executed_def)
    have counts: "executed ?s k \<or> count_list (cs_ran ?s) k = count_list (cs_refused ?s) k" for k
      using calls_invD(5) [OF inv, of k] ex_key by (auto simp: executed_def)
    have other: "k \<noteq> key" if "cs_running ?s b = Some k" for b k
    proof
      assume "k = key"
      with that have "b \<noteq> a" "cs_running s b = Some key" by (auto split: if_splits)
      with table_invD(3) [OF tinv this(2)] key show False by simp
    qed
    have running: "executed ?s k" if "cs_running ?s b = Some k" for b k
      using that other [OF that] ex [of k] calls_invD(7) [OF inv, of b k] by (simp split: if_splits)
    have not_answered: "cs_answers s key \<noteq> Some ans" for ans :: "'a \<times> go_error option"
      using calls_invD(8) [OF inv, of key ans] table_invD(1) [OF tinv key] run key
      by (auto simp: answered_ok_def entry_ok_def)
    have answered: "answered_ok ?s k ans" if ans: "cs_answers s k = Some ans" for k ans
    proof -
      have k: "k \<noteq> key" using not_answered [of "(fst ans, snd ans)"] ans by auto
      have "b \<noteq> a" if "rt_byKey ?t k = Some b" for b using that k table_invD(2) [OF tinv _ key] by auto
      with calls_invD(8) [OF inv ans] p k ex [of k] show ?thesis by (auto simp: answered_ok_def)
    qed
    show ?thesis
      using p counts running answered ex calls_invD(2-4,6) [OF inv] unfolding calls_inv_def by simp
  qed
  have kept_case: "calls_inv (s\<lparr>cs_table := publish now key a res err True ?t,
      cs_running := (cs_running s)(a := None), cs_answers := (cs_answers s)(key \<mapsto> (res, err))\<rparr>)" (is "calls_inv ?s")
    for res err
  proof -
    let ?t' = "publish now key a res err True ?t"
    obtain r t2 where r: "rt_heap ?t a = Some r"
      and t2: "t2 = ?t\<lparr>rt_heap := (rt_heap ?t)(a \<mapsto> (completing res err r)\<lparr>rc_at := now\<rparr>), rt_order := rt_order ?t @ [key]\<rparr>"
      and inv2: "table_inv ((cs_running s)(a := None)) t2" and t': "?t' = prune_count t2"
      and inv': "table_inv ((cs_running s)(a := None)) ?t'" and thin: "thins t2 ?t'"
      by (rule publish_keep [OF tinv run refl]) blast
    have ex: "executed ?s k = executed s k" for k by (simp add: executed_def)
    have "blocked_key t2 k = blocked_key ?t k" for k by (simp add: t2 blocked_key_def)
    with thin have blocked: "blocked_key ?t' k" if "executed s k" for k
      using calls_invD(6) [OF inv that] by (simp add: thins_def)
    have len: "length (rt_order ?t') \<le> receiptCap"
      using prune_count_spec [OF inv2] t' calls_invD(2,3) [OF inv] by (simp add: t2)
    have answered: "answered_ok ?s k ans" if ans: "cs_answers ?s k = Some ans" for k ans
    proof -
      have "rt_byKey ?t k = Some b" if "rt_byKey ?t' k = Some b" for b
        using thin that by (auto simp: thins_def t2) (metis option.distinct(1))
      moreover have "rt_heap ?t' = (rt_heap ?t)(a \<mapsto> (completing res err r)\<lparr>rc_at := now\<rparr>)"
        using thin by (simp add: thins_def t2)
      moreover have "b \<noteq> a" if "rt_byKey ?t k = Some b" "k \<noteq> key" for b
        using that table_invD(2) [OF tinv _ key] by auto
      moreover have "answered_ok s k ans" if "k \<noteq> key" using calls_invD(8) [OF inv, of k ans] ans that by simp
      ultimately show ?thesis
        using ex_key ex [of k] ans key by (cases "k = key") (auto simp: answered_ok_def completing_def)
    qed
    have "executed s k" if "cs_running ?s b = Some k" for b k
      using that calls_invD(7) [OF inv, of b k] by (simp split: if_splits)
    moreover have "rt_cap ?t' = receiptCap" "rt_age ?t' = receiptAge"
      using thin calls_invD(3,4) [OF inv] by (simp_all add: thins_def t2)
    ultimately show ?thesis
      using inv' len blocked answered calls_invD(5) [OF inv] unfolding calls_inv_def ex
      by (simp add: executed_def)
  qed
  show ?thesis
    using run refused_case kept_case
    by (auto simp: Let_def end_call_def finish_def abort_def split: outcome.split)
qed

lemma calls_inv_step: "calls_inv s \<Longrightarrow> calls_inv (call_step op' s)"
proof (cases op')
  case NewClientOp
  assume inv: "calls_inv s"
  obtain name t' where new: "new_client (cs_table s) = (name, t')" by (cases "new_client (cs_table s)")
  from new_client_spec [OF calls_invD(1) [OF inv] new] new NewClientOp show ?thesis
    by (auto intro!: calls_inv_quiet [OF inv])
next
  case (ReleaseOp now name)
  assume inv: "calls_inv s"
  from release_spec [OF calls_invD(1) [OF inv], of now name] ReleaseOp show ?thesis
    by (auto intro!: calls_inv_aged [OF inv])
next
  case (ClaimOp now name)
  assume inv: "calls_inv s"
  obtain res t' where claim: "claim now name (cs_table s) = (res, t')" by (cases "claim now name (cs_table s)")
  from claim_spec [OF calls_invD(1) [OF inv] claim] claim ClaimOp show ?thesis
    by (auto intro!: calls_inv_aged [OF inv])
next
  case (BeginOp kind now c hash)
  assume inv: "calls_inv s"
  obtain res t' where beg: "begin_call kind now c hash (cs_table s) = (res, t')"
    by (cases "begin_call kind now c hash (cs_table s)")
  have quiet: "calls_inv (s\<lparr>cs_table := t'\<rparr>)" if no: "\<And>key a. res \<noteq> CallRun key a"
  proof -
    note e = evict_aged_spec(1,2) [OF calls_invD(1) [OF inv], of now]
    from begin_call_quiet [OF beg no] show ?thesis
    proof
      assume "t' = cs_table s"
      with inv show ?thesis by simp
    next
      assume "t' = evict_aged now (cs_table s)"
      then show ?thesis
        using calls_inv_aged [OF inv e(1) aged_only_evict [OF calls_invD(1) [OF inv]]] e(2)
        by (simp add: thins_def)
    qed
  qed
  show ?thesis
  proof (cases "\<exists>key a. res = CallRun key a")
    case True
    then obtain key a where res: "res = CallRun key a" by blast
    from calls_inv_begin_run [OF inv begin_call_run [OF beg [unfolded res]]] beg res show ?thesis
      by (simp add: BeginOp)
  next
    case False
    with beg quiet show ?thesis by (cases res) (auto simp: BeginOp)
  qed
next
  case (EndOp now a zero out)
  assume inv: "calls_inv s"
  with EndOp show ?thesis by (cases "cs_running s a") (auto intro: calls_inv_end simp del: call_step.simps(5), simp)
qed

lemma calls_inv_run: "calls_inv s \<Longrightarrow> calls_inv (run_calls ops s)"
  by (induction ops arbitrary: s) (simp_all add: calls_inv_step)

section \<open>What stays\<close>

lemma running_open:
  assumes "calls_inv s" and "cs_running s b = Some k"
  shows "\<exists>r. rt_heap (cs_table s) b = Some r \<and> \<not> rc_completed r"
  using table_invD(1) [OF calls_invD(1) [OF assms(1)] table_invD(3) [OF calls_invD(1) [OF assms(1)] assms(2)]] assms(2)
  by (auto simp: entry_ok_def)

lemma begin_call_heap:
  assumes "table_inv P t" and "begin_call kind now c hash t = (res, t')" and "rt_heap t a = Some r"
  shows "rt_heap t' a = Some r"
proof (cases "\<exists>key b. res = CallRun key b")
  case True
  then obtain key b where "admit now key hash t = (AdmitMine b, t')" using assms(2) begin_call_run by blast
  from admit_mine [OF assms(1) this] assms(3) show ?thesis by (metis option.distinct(1))
next
  case False
  then have "t' = t \<or> t' = evict_aged now t" using begin_call_quiet [OF assms(2)] by blast
  with evict_aged_spec(2) [OF assms(1), of now] assms(3) show ?thesis by (auto simp: thins_def)
qed

lemma cs_table_begin: "cs_table (call_step (BeginOp kind now c hash) s) = snd (begin_call kind now c hash (cs_table s))"
  by (auto split: prod.split call_start.split)

lemma cs_table_end:
  "cs_running s a = Some key \<Longrightarrow>
     cs_table (call_step (EndOp now a zero out) s) = end_call now key a zero out (cs_table s)"
  by (auto simp: Let_def split: outcome.split)

lemma end_call_publish:
  "end_call now key a zero out t =
     (case out of
        Returned res err \<Rightarrow> publish now key a res err (\<not> gate_refusal err) t
      | Panicked \<Rightarrow> publish now key a zero (Some [ErrCommandAborted]) True t)"
  by (simp add: end_call_def finish_def abort_def Let_def split: outcome.split)

lemma publish_heap_other:
  assumes "table_inv P t" and "P b = Some key" and "a \<noteq> b"
  shows "rt_heap (publish now key b res err keep t) a = rt_heap t a"
proof (cases keep)
  case True
  obtain r t2 where t2: "t2 = t\<lparr>rt_heap := (rt_heap t)(b \<mapsto> (completing res err r)\<lparr>rc_at := now\<rparr>),
        rt_order := rt_order t @ [key]\<rparr>" "thins t2 (publish now key b res err True t)"
    by (rule publish_keep [OF assms(1,2) refl]) blast
  with True assms(3) show ?thesis by (simp add: thins_def)
next
  case False
  with publish_forget [OF assms(1,2) refl, of now res err] assms(3) show ?thesis by auto
qed

text \<open>A completed receipt is never written again, in the table or out of it.\<close>

lemma completed_step:
  assumes inv: "calls_inv s" and r: "rt_heap (cs_table s) a = Some r" "rc_completed r"
  shows "rt_heap (cs_table (call_step op' s)) a = Some r"
proof (cases op')
  case NewClientOp
  obtain name t' where new: "new_client (cs_table s) = (name, t')" by (cases "new_client (cs_table s)")
  from new_client_spec [OF calls_invD(1) [OF inv] new] new NewClientOp r show ?thesis by simp
next
  case (ReleaseOp now name)
  with release_spec [OF calls_invD(1) [OF inv], of now name] r show ?thesis by (simp add: aged_only_def)
next
  case (ClaimOp now name)
  obtain res t' where claim: "claim now name (cs_table s) = (res, t')" by (cases "claim now name (cs_table s)")
  from claim_spec [OF calls_invD(1) [OF inv] claim] claim ClaimOp r show ?thesis by (simp add: aged_only_def)
next
  case (BeginOp kind now c hash)
  obtain res t' where "begin_call kind now c hash (cs_table s) = (res, t')"
    by (cases "begin_call kind now c hash (cs_table s)")
  with begin_call_heap [OF calls_invD(1) [OF inv] this r(1)] BeginOp show ?thesis
    by (simp only: cs_table_begin) simp
next
  case (EndOp now b zero out)
  show ?thesis
  proof (cases "cs_running s b")
    case None
    with EndOp r show ?thesis by simp
  next
    case (Some key)
    with running_open [OF inv Some] r have "a \<noteq> b" by auto
    then show ?thesis
      using publish_heap_other [OF calls_invD(1) [OF inv] Some] r(1)
      by (auto simp: EndOp cs_table_end [OF Some] end_call_publish simp del: call_step.simps split: outcome.split)
  qed
qed

lemma completed_run:
  "calls_inv s \<Longrightarrow> rt_heap (cs_table s) a = Some r \<Longrightarrow> rc_completed r \<Longrightarrow>
     rt_heap (cs_table (run_calls ops s)) a = Some r"
  by (induction ops arbitrary: s) (simp_all add: completed_step calls_inv_step del: call_step.simps)

text \<open>The answer of \<open>key\<close> is in the order with at most \<open>n\<close> younger ones.\<close>

definition kept_answer :: "receipt_key \<Rightarrow> nat \<Rightarrow> 'r receipt \<Rightarrow> nat \<Rightarrow> 'r receipt_table \<Rightarrow> bool" where
  "kept_answer key a r n t \<longleftrightarrow>
     rt_byKey t key = Some a \<and> rt_heap t a = Some r \<and> rc_completed r \<and>
     (\<exists>xs ys. rt_order t = xs @ key # ys \<and> length ys \<le> n)"

lemma kept_answerI:
  "rt_byKey t key = Some a \<Longrightarrow> rt_heap t a = Some r \<Longrightarrow> rc_completed r \<Longrightarrow>
     rt_order t = xs @ key # ys \<Longrightarrow> length ys \<le> n \<Longrightarrow> kept_answer key a r n t"
  by (auto simp: kept_answer_def)

lemma kept_answer_aged:
  assumes inv: "table_inv P t" and kept: "kept_answer key a r n t" and aged: "aged_only now t t'"
    and young: "now - rc_at r \<le> rt_age t"
  shows "kept_answer key a r n t'"
proof -
  have fresh: "fresh_key now t key" using kept young by (auto simp: kept_answer_def fresh_key_def)
  obtain xs ys where order: "rt_order t = xs @ key # ys" "length ys \<le> n"
    using kept by (auto simp: kept_answer_def)
  have "rt_order t' = filter (fresh_key now t) xs @ key # filter (fresh_key now t) ys"
    using aged evict_aged_spec(3) [OF inv, of now] fresh by (simp add: aged_only_def order)
  moreover have "length (filter (fresh_key now t) ys) \<le> n"
    using order(2) length_filter_le order_trans by blast
  moreover have "rt_byKey t' key = rt_byKey t key"
    using aged evict_aged_spec(4) [OF inv] fresh by (simp add: aged_only_def)
  moreover have "rt_byKey t key = Some a" "rt_heap t' a = Some r" "rc_completed r"
    using kept aged by (simp_all add: kept_answer_def aged_only_def)
  ultimately show ?thesis by (intro kept_answerI) simp_all
qed

lemma kept_answer_same:
  "kept_answer key a r n t \<Longrightarrow> rt_byKey t' = rt_byKey t \<Longrightarrow> rt_heap t' = rt_heap t \<Longrightarrow>
     rt_order t' = rt_order t \<Longrightarrow> kept_answer key a r n t'"
  by (simp add: kept_answer_def)

lemma kept_answer_reserve:
  assumes "kept_answer key a r n t" and "rt_heap t b = None" and "k \<noteq> key"
    and "rt_byKey t' = (rt_byKey t)(k \<mapsto> b)" and "\<forall>a'. a' \<noteq> b \<longrightarrow> rt_heap t' a' = rt_heap t a'"
    and "rt_order t' = rt_order t"
  shows "kept_answer key a r n t'"
proof -
  have "a \<noteq> b" using assms(1,2) by (auto simp: kept_answer_def)
  with assms show ?thesis by (auto simp: kept_answer_def)
qed

lemma kept_answer_publish:
  assumes inv: "table_inv P t" and run: "P b = Some k" and kept: "kept_answer key a r n t"
    and n: "Suc n < rt_cap t"
  shows "kept_answer key a r (Suc n) (publish now k b res err keep t)"
proof -
  have key: "key \<in> set (rt_order t)" and ak: "rt_byKey t key = Some a" using kept by (auto simp: kept_answer_def)
  have ne: "k \<noteq> key" using completed_not_running [OF inv key] run by auto
  have "b \<noteq> a" using table_invD(2) [OF inv ak, of k] table_invD(3) [OF inv run] ne by auto
  obtain xs ys where order: "rt_order t = xs @ key # ys" "length ys \<le> n"
    using kept by (auto simp: kept_answer_def)
  show ?thesis
  proof (cases keep)
    case False
    with publish_forget [OF inv run refl, of now res err] kept ne \<open>b \<noteq> a\<close> order show ?thesis
      by (auto simp: kept_answer_def intro: le_SucI)
  next
    case True
    obtain r2 t2 where t2: "t2 = t\<lparr>rt_heap := (rt_heap t)(b \<mapsto> (completing res err r2)\<lparr>rc_at := now\<rparr>),
          rt_order := rt_order t @ [k]\<rparr>" "table_inv (P(b := None)) t2"
        "publish now k b res err True t = prune_count t2" "thins t2 (publish now k b res err True t)"
      by (rule publish_keep [OF inv run refl]) blast
    let ?d = "length (rt_order t2) - rt_cap t2"
    have o2: "rt_order t2 = xs @ key # (ys @ [k])" and cap: "rt_cap t2 = rt_cap t"
      using t2(1) order by simp_all
    then have d: "?d \<le> length xs" using order(2) n by simp
    note p = prune_count_spec [OF t2(2)]
    have "rt_order (prune_count t2) = drop ?d xs @ key # (ys @ [k])" using p o2 d by simp
    moreover have "rt_byKey (prune_count t2) key = rt_byKey t2 key"
    proof -
      have "distinct (xs @ key # ys @ [k])" using table_invD(4) [OF t2(2)] o2 by simp
      then have "key \<notin> set (take ?d (rt_order t2))" using d o2 by (auto dest: in_set_takeD)
      with p show ?thesis by blast
    qed
    moreover have "rt_byKey t2 key = Some a" "rt_heap t2 a = Some r" "rc_completed r"
      using kept \<open>b \<noteq> a\<close> by (simp_all add: kept_answer_def t2(1))
    moreover have "rt_heap (prune_count t2) = rt_heap t2" using t2(3,4) by (simp add: thins_def)
    ultimately show ?thesis
      using True t2(3) order(2) by (auto intro!: kept_answerI)
  qed
qed

fun op_now :: "'r call_op \<Rightarrow> int option" where
  "op_now NewClientOp = None"
| "op_now (ReleaseOp now _) = Some now"
| "op_now (ClaimOp now _) = Some now"
| "op_now (BeginOp _ now _ _) = Some now"
| "op_now (EndOp now _ _ _) = None"

fun is_end :: "'r call_op \<Rightarrow> bool" where
  "is_end (EndOp _ _ _ _) \<longleftrightarrow> True"
| "is_end _ \<longleftrightarrow> False"

lemma kept_answer_mono: "kept_answer key a r n t \<Longrightarrow> n \<le> m \<Longrightarrow> kept_answer key a r m t"
  by (auto simp: kept_answer_def) (metis order_trans)

lemma kept_answer_step:
  assumes inv: "calls_inv s" and kept: "kept_answer key a r n (cs_table s)"
    and young: "\<forall>now. op_now op' = Some now \<longrightarrow> now - rc_at r \<le> receiptAge"
    and n: "is_end op' \<longrightarrow> Suc n < receiptCap"
  shows "kept_answer key a r (if is_end op' then Suc n else n) (cs_table (call_step op' s))"
proof -
  note tinv = calls_invD(1) [OF inv] and age = calls_invD(4) [OF inv]
  show ?thesis
  proof (cases op')
    case NewClientOp
    obtain name t' where new: "new_client (cs_table s) = (name, t')" by (cases "new_client (cs_table s)")
    from new_client_spec [OF tinv new] new NewClientOp kept show ?thesis
      by (auto intro: kept_answer_same)
  next
    case (ReleaseOp now name)
    with release_spec [OF tinv, of now name] kept_answer_aged [OF tinv kept, of now "release now name (cs_table s)"]
      young age show ?thesis by simp
  next
    case (ClaimOp now name)
    obtain res t' where claim: "claim now name (cs_table s) = (res, t')" by (cases "claim now name (cs_table s)")
    from claim_spec [OF tinv claim] claim ClaimOp kept_answer_aged [OF tinv kept, of now t'] young age
    show ?thesis by simp
  next
    case (BeginOp kind now c hash)
    obtain res t' where beg: "begin_call kind now c hash (cs_table s) = (res, t')"
      by (cases "begin_call kind now c hash (cs_table s)")
    have aged: "kept_answer key a r n (evict_aged now (cs_table s))"
      using kept_answer_aged [OF tinv kept aged_only_evict [OF tinv]] young age by (simp add: BeginOp)
    have "kept_answer key a r n t'"
    proof (cases "\<exists>k b. res = CallRun k b")
      case True
      then obtain k b where res: "res = CallRun k b" by blast
      note m = admit_mine [OF tinv begin_call_run [OF beg [unfolded res]]]
      have "blocked_key (cs_table s) key" using kept by (simp add: kept_answer_def blocked_key_def)
      with m have "k \<noteq> key" by blast
      moreover have "rt_heap (evict_aged now (cs_table s)) = rt_heap (cs_table s)"
        using evict_aged_spec(2) [OF tinv] by (simp add: thins_def)
      ultimately show ?thesis using m by (intro kept_answer_reserve [OF aged, of b k]) simp_all
    next
      case False
      with begin_call_quiet [OF beg] aged kept show ?thesis by blast
    qed
    then show ?thesis by (simp add: BeginOp cs_table_begin beg del: call_step.simps)
  next
    case (EndOp now b zero out)
    show ?thesis
    proof (cases "cs_running s b")
      case None
      with EndOp kept show ?thesis by (simp add: kept_answer_mono)
    next
      case (Some k)
      have "kept_answer key a r (Suc n) (publish now k b res err keep (cs_table s))" for res err keep
        using kept_answer_publish [OF tinv Some kept] n calls_invD(3) [OF inv] by (simp add: EndOp)
      then show ?thesis
        by (simp add: EndOp cs_table_end [OF Some] end_call_publish del: call_step.simps split: outcome.split)
    qed
  qed
qed

lemma kept_answer_run:
  assumes "calls_inv s" and "kept_answer key a r n (cs_table s)"
    and "\<forall>op' \<in> set ops. \<forall>now. op_now op' = Some now \<longrightarrow> now - rc_at r \<le> receiptAge"
    and "n + length (filter is_end ops) < receiptCap"
  shows "kept_answer key a r (n + length (filter is_end ops)) (cs_table (run_calls ops s))"
  using assms
proof (induction ops arbitrary: s n)
  case Nil
  then show ?case by simp
next
  case (Cons op' ops)
  let ?n = "if is_end op' then Suc n else n"
  have "is_end op' \<longrightarrow> Suc n < receiptCap" using Cons.prems(4) by (auto split: if_splits)
  then have "kept_answer key a r ?n (cs_table (call_step op' s))"
    using Cons.prems(3) by (intro kept_answer_step [OF Cons.prems(1,2)]) simp_all
  from Cons.IH [OF calls_inv_step [OF Cons.prems(1)] this] Cons.prems(3,4) show ?case
    by (auto split: if_splits)
qed

lemma parse_command_not_zero: "parse_command (cm_client c) (cm_id c) = Inr key \<Longrightarrow> \<not> is_zero c"
  by (auto simp: parse_command_def is_zero_def)

lemma begin_call_kept:
  assumes inv: "table_inv P t" and kept: "kept_answer key a r n t" and young: "now - rc_at r \<le> rt_age t"
    and key: "parse_command (cm_client c) (cm_id c) = Inr key" and hash: "rc_hash r = hash"
  shows "fst (begin_call kind now c hash t) = replay r"
proof -
  let ?e = "evict_aged now t"
  have e: "rt_byKey ?e key = Some a" "rt_heap ?e a = Some r" "rc_completed r"
    using kept_answer_aged [OF inv kept aged_only_evict [OF inv] young] by (simp_all add: kept_answer_def)
  from table_invD(1) [OF evict_aged_spec(1) [OF inv] this(1)] obtain st
    where "rt_clients ?e (rk_client key) = Some st" by (auto simp: entry_ok_def)
  with e hash parse_command_not_zero [OF key] key show ?thesis
    by (simp add: begin_call_def admit_def client_locked_def Let_def)
qed

lemma publish_keeps_answer:
  assumes inv: "calls_inv s" and run: "cs_running s a = Some key" and r: "rt_heap (cs_table s) a = Some r"
  shows "kept_answer key a ((completing res err r)\<lparr>rc_at := now\<rparr>) 0 (publish now key a res err True (cs_table s))"
proof -
  obtain r' t2 where t2: "rt_heap (cs_table s) a = Some r'"
      "t2 = (cs_table s)\<lparr>rt_heap := (rt_heap (cs_table s))(a \<mapsto> (completing res err r')\<lparr>rc_at := now\<rparr>),
          rt_order := rt_order (cs_table s) @ [key]\<rparr>" "table_inv ((cs_running s)(a := None)) t2"
      "publish now key a res err True (cs_table s) = prune_count t2"
      "thins t2 (publish now key a res err True (cs_table s))"
    by (rule publish_keep [OF calls_invD(1) [OF inv] run refl]) blast
  let ?d = "length (rt_order t2) - rt_cap t2"
  have o2: "rt_order t2 = rt_order (cs_table s) @ [key]" using t2(2) by simp
  then have d: "?d \<le> length (rt_order (cs_table s))"
    using t2(2) calls_invD(3) [OF inv] by (simp add: receiptCap_def)
  note p = prune_count_spec [OF t2(3)]
  have "rt_order (prune_count t2) = drop ?d (rt_order (cs_table s)) @ key # []" using p o2 d by simp
  moreover have "rt_byKey (prune_count t2) key = rt_byKey t2 key"
  proof -
    have "key \<notin> set (rt_order (cs_table s))" using table_invD(4) [OF t2(3)] o2 by simp
    then have "key \<notin> set (take ?d (rt_order t2))" using d o2 by (auto dest: in_set_takeD)
    with p show ?thesis by blast
  qed
  moreover have "rt_byKey t2 key = Some a" using table_invD(3) [OF calls_invD(1) [OF inv] run] by (simp add: t2(2))
  moreover have "rt_heap (prune_count t2) a = Some ((completing res err r)\<lparr>rc_at := now\<rparr>)"
    using t2(1,2,4,5) r by (simp add: thins_def)
  ultimately show ?thesis unfolding t2(4) by (intro kept_answerI) (simp_all add: completing_def)
qed

lemma live_step:
  assumes inv: "calls_inv s" and live: "live_client (cs_table s) c" and op: "\<forall>now. op' \<noteq> ReleaseOp now c"
  shows "live_client (cs_table (call_step op' s)) c"
proof -
  note tinv = calls_invD(1) [OF inv]
  show ?thesis
  proof (cases op')
    case NewClientOp
    obtain name t' where new: "new_client (cs_table s) = (name, t')" by (cases "new_client (cs_table s)")
    from new_client_spec [OF tinv new] new NewClientOp live show ?thesis by simp
  next
    case (ReleaseOp now name)
    with release_spec [OF tinv, of now name] live op show ?thesis by auto
  next
    case (ClaimOp now name)
    obtain res t' where claim: "claim now name (cs_table s) = (res, t')" by (cases "claim now name (cs_table s)")
    from claim_spec [OF tinv claim] claim ClaimOp live show ?thesis by simp
  next
    case (BeginOp kind now cm hash)
    obtain res t' where beg: "begin_call kind now cm hash (cs_table s) = (res, t')"
      by (cases "begin_call kind now cm hash (cs_table s)")
    have "live_client t' c"
    proof (cases "\<exists>k b. res = CallRun k b")
      case True
      with begin_call_run admit_mine [OF tinv] beg live show ?thesis by blast
    next
      case False
      with begin_call_quiet [OF beg] evict_aged_spec(2) [OF tinv] live show ?thesis
        by (auto simp: thins_def)
    qed
    then show ?thesis by (simp add: BeginOp cs_table_begin beg del: call_step.simps)
  next
    case (EndOp now b zero out)
    show ?thesis
    proof (cases "cs_running s b")
      case None
      with EndOp live show ?thesis by simp
    next
      case (Some k)
      have "live_client (publish now k b res err keep (cs_table s)) c" for res err keep
      proof (cases keep)
        case False
        with publish_forget [OF tinv Some refl, of now res err] live show ?thesis by auto
      next
        case True
        obtain r t2 where "t2 = (cs_table s)\<lparr>rt_heap := (rt_heap (cs_table s))(b \<mapsto> (completing res err r)\<lparr>rc_at := now\<rparr>),
            rt_order := rt_order (cs_table s) @ [k]\<rparr>" "thins t2 (publish now k b res err True (cs_table s))"
          by (rule publish_keep [OF tinv Some refl]) blast
        with live True show ?thesis by (simp add: thins_def live_client_def)
      qed
      then show ?thesis
        by (simp add: EndOp cs_table_end [OF Some] end_call_publish del: call_step.simps split: outcome.split)
    qed
  qed
qed

lemma begin_call_at:
  assumes key: "parse_command (cm_client c) (cm_id c) = Inr key"
  shows "begin_call kind now c hash t =
    (case admit now key hash t of
       (AdmitRefused e, t) \<Rightarrow> (CallRefused e, t)
     | (AdmitMine a, t) \<Rightarrow> (CallRun key a, t)
     | (AdmitFound a running, t) \<Rightarrow>
         (if running then
            (case kind of
               Synchronous \<Rightarrow> (CallRefused [ErrCommandInProgress], t)
             | Blocking \<Rightarrow> (CallWait a, t))
          else
            (case rt_heap t a of
               None \<Rightarrow> (CallRefused [], t)
             | Some r \<Rightarrow> (replay r, t))))"
  using key parse_command_not_zero [OF key] by (simp add: begin_call_def)

lemma begin_call_gone:
  assumes inv: "table_inv P t" and blocked: "blocked_key t key"
    and none: "rt_byKey (evict_aged now t) key = None"
    and key: "parse_command (cm_client c) (cm_id c) = Inr key"
  shows "fst (begin_call kind now c hash t) \<in> {CallRefused [ErrUnknownCommand], CallRefused [ErrBadRequest]}"
proof -
  have "blocked_key (evict_aged now t) key" using evict_aged_spec(2) [OF inv] blocked by (simp add: thins_def)
  with none have "case rt_clients (evict_aged now t) (rk_client key) of None \<Rightarrow> True | Some st \<Rightarrow> rk_id key \<le> cl_mark st"
    by (simp add: blocked_key_def)
  with none show ?thesis
    by (auto simp: begin_call_at [OF key] admit_def client_locked_def Let_def split: option.splits)
qed

section \<open>Evaluation\<close>

lemma parse_command_eval:
  "parse_command ''c-1'' ''1'' = Inr \<lparr>rk_client = ''c-1'', rk_id = 1\<rparr>"
  "parse_command ''c-1'' ''2'' = Inr \<lparr>rk_client = ''c-1'', rk_id = 2\<rparr>"
  by (simp_all add: parse_command_def parse_uint_def undec_def less_eq_char_def dec_eval)

lemma gate_refusal_eval:
  "\<not> gate_refusal None" "gate_refusal (Some [ErrNotInTurn])"
  by code_simp+

lemmas receipts_eval =
  run_calls_def cs_init_def new_receipt_table_def receiptCap_def receiptAge_def client_name_def dec_eval
  new_client_def begin_call_def is_zero_def admit_def client_locked_def evict_aged_def
  evict_aged_key_def retire_def release_def claim_def drop_entry_def mark_evicted_def end_call_def
  finish_def abort_def publish_def forget_def prune_count.simps evict_oldest_def Let_def
  parse_command_eval gate_refusal_eval replay_def

section \<open>Properties\<close>

text \<open>C29. No command runs twice. Whatever the order in which clients are minted, released and claimed and
  calls begin, overlap, return, panic and are resent, and whatever the clock reads: a command id is
  executed at most once beyond the executions that ended in a gate refusal. In particular no id
  ever runs twice at the same time.\<close>

theorem command_runs_at_most_once:
  "count_list (cs_ran (run_calls ops cs_init)) key \<le> Suc (count_list (cs_refused (run_calls ops cs_init)) key)"
  using calls_invD(5) [OF calls_inv_run [OF calls_inv_init], of ops key] by (auto simp: executed_def)

text \<open>C31. A resend of a command that has run is answered by that run or by a refusal: with the first call's
  own result and error, or with bad_request (another payload, or a client no longer known), or with
  unknown_command (past the horizon); never by running it again.\<close>

theorem resend_is_answered_by_the_first_run:
  assumes "cs_answers (run_calls ops cs_init) key = Some (res, err)"
    and "parse_command (cm_client c) (cm_id c) = Inr key"
  shows "fst (begin_call kind now c hash (cs_table (run_calls ops cs_init))) \<in>
    {CallReplay (Some res) err, CallRefused [ErrBadRequest], CallRefused [ErrUnknownCommand]}"
proof -
  let ?s = "run_calls ops cs_init"
  let ?t = "cs_table ?s" and ?e = "evict_aged now (cs_table ?s)"
  have inv: "calls_inv ?s" by (rule calls_inv_run [OF calls_inv_init])
  note tinv = calls_invD(1) [OF inv] and ok = calls_invD(8) [OF inv assms(1)]
  then have blocked: "blocked_key ?t key" using calls_invD(6) [OF inv] by (simp add: answered_ok_def)
  show ?thesis
  proof (cases "rt_byKey ?e key")
    case None
    from begin_call_gone [OF tinv blocked this assms(2)] show ?thesis by blast
  next
    case (Some a)
    then have "rt_byKey ?t key = Some a" and heap: "rt_heap ?e = rt_heap ?t"
      using evict_aged_spec(2) [OF tinv, of now] by (auto simp: thins_def) (metis option.distinct(1))
    with ok obtain r where r: "rt_heap ?e a = Some r" "rc_completed r" "rc_result r = Some res" "rc_err r = err"
      by (auto simp: answered_ok_def)
    with Some show ?thesis
      by (auto simp: begin_call_at [OF assms(2)] admit_def client_locked_def Let_def replay_def split: option.splits)
  qed
qed

theorem resend_is_answered_by_the_first_run_witness:
  "fst (begin_call Synchronous 5 \<lparr>cm_client = ''c-1'', cm_id = ''1''\<rparr> ''other'' (cs_table
     (run_calls [NewClientOp, BeginOp Synchronous 1 \<lparr>cm_client = ''c-1'', cm_id = ''1''\<rparr> ''h'',
        EndOp 2 0 (0::nat) (Returned 42 None)] cs_init)))
   \<in> {CallReplay (Some 42) None, CallRefused [ErrBadRequest], CallRefused [ErrUnknownCommand]}"
  by (rule resend_is_answered_by_the_first_run [where key = "\<lparr>rk_client = ''c-1'', rk_id = 1\<rparr>"]) (simp_all add: receipts_eval)

text \<open>C30. Within the advertised horizon a resend is replayed. A call that returned an answer at \<open>now\<close> (not a
  gate refusal) is answered with exactly that answer when it is resent with the same payload, as
  long as fewer than \<open>receiptCap\<close> other calls have ended and no clock reading since is more than
  \<open>receiptAge\<close> later, whatever else happened: releases of its client included.\<close>

theorem resend_within_the_horizon_is_replayed:
  assumes "cs_running (run_calls before cs_init) a = Some key"
    and "rt_heap (cs_table (run_calls before cs_init)) a = Some r"
    and "\<not> gate_refusal err"
    and "\<forall>op' \<in> set later. \<forall>n. op_now op' = Some n \<longrightarrow> n - now \<le> receiptAge"
    and "length (filter is_end later) < receiptCap"
    and "parse_command (cm_client c) (cm_id c) = Inr key"
    and "now' - now \<le> receiptAge"
  shows "fst (begin_call kind now' c (rc_hash r)
      (cs_table (run_calls (before @ EndOp now a zero (Returned res err) # later) cs_init)))
    = CallReplay (Some res) err"
proof -
  let ?s = "run_calls before cs_init" and ?r = "(completing res err r)\<lparr>rc_at := now\<rparr>"
  let ?s1 = "call_step (EndOp now a zero (Returned res err)) ?s"
  have inv: "calls_inv ?s" by (rule calls_inv_run [OF calls_inv_init])
  then have inv1: "calls_inv ?s1" by (rule calls_inv_step)
  have "kept_answer key a ?r 0 (cs_table ?s1)"
    using publish_keeps_answer [OF inv assms(1,2)] assms(3)
    by (simp add: cs_table_end [OF assms(1)] end_call_publish del: call_step.simps)
  from kept_answer_run [OF inv1 this] assms(4,5)
  have kept: "kept_answer key a ?r (length (filter is_end later)) (cs_table (run_calls later ?s1))"
    by simp
  have inv2: "calls_inv (run_calls later ?s1)" by (rule calls_inv_run [OF inv1])
  have "run_calls (before @ EndOp now a zero (Returned res err) # later) cs_init = run_calls later ?s1"
    by (simp add: run_calls_def)
  then show ?thesis
    using begin_call_kept [OF calls_invD(1) [OF inv2] kept _ assms(6), of now' "rc_hash r" kind] assms(7)
      calls_invD(4) [OF inv2]
    by (simp add: completing_def replay_def)
qed

theorem resend_within_the_horizon_is_replayed_witness:
  "let c = \<lparr>cm_client = ''c-1'', cm_id = ''1''\<rparr> in
   fst (begin_call Blocking 500 c ''h'' (cs_table (run_calls
     ([NewClientOp, BeginOp Synchronous 1 c ''h''] @ EndOp 2 0 (0::nat) (Returned 42 None) # [ReleaseOp 400 ''c-1'']) cs_init)))
   = CallReplay (Some 42) None"
proof -
  let ?c = "\<lparr>cm_client = ''c-1'', cm_id = ''1''\<rparr>"
  let ?r = "\<lparr>rc_hash = ''h'', rc_completed = False, rc_result = None, rc_err = None, rc_at = 0\<rparr> :: nat receipt"
  have "fst (begin_call Blocking 500 ?c (rc_hash ?r) (cs_table (run_calls
     ([NewClientOp, BeginOp Synchronous 1 ?c ''h''] @ EndOp 2 0 (0::nat) (Returned 42 None) # [ReleaseOp 400 ''c-1'']) cs_init)))
   = CallReplay (Some 42) None"
    by (rule resend_within_the_horizon_is_replayed [where key = "\<lparr>rk_client = ''c-1'', rk_id = 1\<rparr>"]) (simp_all add: receipts_eval)
  then show ?thesis by simp
qed

text \<open>A duplicate that waits on an open reservation gets the owner's result, whatever it is: a gate
  refusal too, though the reservation is then out of the table; and nothing that happens before the
  waiter looks changes it.\<close>

theorem waiter_gets_the_owners_answer:
  assumes "cs_running (run_calls before cs_init) a = Some key"
  shows "wait_receipt None a
      (cs_table (run_calls (before @ EndOp now a zero (Returned res err) # later) cs_init))
    = [CallReplay (Some res) err]"
proof -
  let ?s = "run_calls before cs_init"
  let ?s1 = "call_step (EndOp now a zero (Returned res err)) ?s"
  have inv: "calls_inv ?s" by (rule calls_inv_run [OF calls_inv_init])
  note tinv = calls_invD(1) [OF inv]
  obtain r where r: "rt_heap (cs_table ?s) a = Some r" using running_open [OF inv assms] by blast
  have "\<exists>r'. rt_heap (cs_table ?s1) a = Some r' \<and> rc_completed r' \<and> rc_result r' = Some res \<and> rc_err r' = err"
  proof (cases "gate_refusal err")
    case True
    with publish_forget [OF tinv assms refl, of now res err] show ?thesis
      by (auto simp: cs_table_end [OF assms] end_call_publish completing_def simp del: call_step.simps)
  next
    case False
    with publish_keeps_answer [OF inv assms r, where res = res and err = err and now = now] show ?thesis
      by (auto simp: cs_table_end [OF assms] end_call_publish completing_def kept_answer_def simp del: call_step.simps)
  qed
  then obtain r' where r': "rt_heap (cs_table ?s1) a = Some r'" "rc_completed r'" "rc_result r' = Some res"
      "rc_err r' = err" by blast
  have "run_calls (before @ EndOp now a zero (Returned res err) # later) cs_init = run_calls later ?s1"
    by (simp add: run_calls_def)
  with completed_run [OF calls_inv_step [OF inv] r'(1,2), of later] r'(3,4) show ?thesis
    by (simp add: wait_receipt_def replay_def r'(2) del: call_step.simps)
qed

theorem waiter_gets_the_owners_answer_witness:
  "wait_receipt None 0 (cs_table (run_calls
     ([NewClientOp, BeginOp Blocking 1 \<lparr>cm_client = ''c-1'', cm_id = ''1''\<rparr> ''h''] @
      EndOp 2 0 (0::nat) (Returned 9 (Some [ErrNotInTurn])) # [NewClientOp]) cs_init))
   = [CallReplay (Some 9) (Some [ErrNotInTurn])]"
  by (rule waiter_gets_the_owners_answer [where key = "\<lparr>rk_client = ''c-1'', rk_id = 1\<rparr>"]) (simp add: receipts_eval)

text \<open>The table is bounded: it holds one entry for every call that is running and, of completed ones, at
  most \<open>receiptCap\<close>.\<close>

theorem table_holds_the_cap_and_the_running:
  "dom (rt_byKey (cs_table (run_calls ops cs_init))) =
     set (rt_order (cs_table (run_calls ops cs_init))) \<union> ran (cs_running (run_calls ops cs_init)) \<and>
   length (rt_order (cs_table (run_calls ops cs_init))) \<le> receiptCap"
proof -
  let ?s = "run_calls ops cs_init"
  have inv: "calls_inv ?s" by (rule calls_inv_run [OF calls_inv_init])
  note tinv = calls_invD(1) [OF inv]
  have "k \<in> set (rt_order (cs_table ?s)) \<union> ran (cs_running ?s)" if "rt_byKey (cs_table ?s) k = Some a" for k a
    using table_invD(1) [OF tinv that] by (auto simp: entry_ok_def ran_def)
  moreover have "k \<in> dom (rt_byKey (cs_table ?s))" if "k \<in> set (rt_order (cs_table ?s)) \<union> ran (cs_running ?s)" for k
    using that table_invD(3) [OF tinv] table_invD(5) [OF tinv] by (auto simp: ran_def)
  ultimately have "dom (rt_byKey (cs_table ?s)) = set (rt_order (cs_table ?s)) \<union> ran (cs_running ?s)" by blast
  with calls_invD(2,3) [OF inv] show ?thesis by simp
qed

text \<open>No live client is ever retired: a client that is live, and is not released, is still live after
  anything else, however many clients come after it and however long it is idle.\<close>

theorem live_client_is_never_retired:
  assumes "live_client (cs_table (run_calls before cs_init)) c"
    and "\<forall>now. ReleaseOp now c \<notin> set later"
  shows "live_client (cs_table (run_calls (before @ later) cs_init)) c"
proof -
  have "live_client (cs_table (run_calls later s)) c" if "calls_inv s" "live_client (cs_table s) c" for s :: "'a call_system"
    using that assms(2)
  proof (induction later arbitrary: s)
    case (Cons op' later)
    then have "\<forall>now. op' \<noteq> ReleaseOp now c" by auto
    from Cons.IH [OF calls_inv_step [OF Cons.prems(1)] live_step [OF Cons.prems(1,2) this]] Cons.prems(3)
    show ?case by simp
  qed simp
  from this [OF calls_inv_run [OF calls_inv_init] assms(1)] show ?thesis by (simp add: run_calls_def)
qed

theorem live_client_is_never_retired_witness:
  "live_client (cs_table (run_calls ([NewClientOp] @
     [ReleaseOp 7 ''c-2'', ClaimOp 9000000000000 ''c-3'', NewClientOp]) (cs_init :: nat call_system))) ''c-1''"
  by (rule live_client_is_never_retired) (simp_all add: receipts_eval live_client_def)

text \<open>C32. A gate refusal does not always leave the id retryable. When a later id of the same client was
  evicted while the call ran, its mark has passed the refused id, and a resend is answered with
  unknown_command (or bad_request once the client is retired), never run.\<close>

theorem gate_refusal_after_eviction_is_final:
  assumes "cs_running (run_calls ops cs_init) a = Some key"
    and "rt_clients (cs_table (run_calls ops cs_init)) (rk_client key) = Some st" and "rk_id key \<le> cl_mark st"
    and "gate_refusal err" and "parse_command (cm_client c) (cm_id c) = Inr key"
  shows "fst (begin_call kind now' c hash
      (cs_table (run_calls (ops @ [EndOp now a zero (Returned res err)]) cs_init)))
    \<in> {CallRefused [ErrUnknownCommand], CallRefused [ErrBadRequest]}"
proof -
  let ?s = "run_calls ops cs_init"
  let ?t' = "publish now key a res err False (cs_table ?s)"
  have inv: "calls_inv ?s" by (rule calls_inv_run [OF calls_inv_init])
  note tinv = calls_invD(1) [OF inv]
  note p = publish_forget [OF tinv assms(1) refl, of now res err]
  have t': "cs_table (run_calls (ops @ [EndOp now a zero (Returned res err)]) cs_init) = ?t'"
    using assms(4) by (simp add: run_calls_def cs_table_end [OF assms(1) [unfolded run_calls_def]]
        end_call_publish del: call_step.simps)
  have minted: "minted_client (cs_table ?s) (rk_client key)"
    using table_invD(7) [OF tinv assms(2)] by (simp add: client_ok_def)
  have key: "rt_byKey (cs_table ?s) key = Some a" by (rule table_invD(3) [OF tinv assms(1)])
  obtain r where r: "rt_heap (cs_table ?s) a = Some r" using running_open [OF inv assms(1)] by blast
  have eq: "?t' = drop_entry key ((cs_table ?s)\<lparr>rt_heap := (rt_heap (cs_table ?s))(a \<mapsto> completing res err r)\<rparr>)"
    using r key by (simp add: publish_def forget_def completing_def)
  have "blocked_key ?t' key"
    using minted assms(2,3) unfolding eq
    by (simp add: blocked_key_def drop_entry_clients minted_client_cong [OF drop_entry_sel(5)])
  moreover have "rt_byKey ?t' key = None" using p by simp
  moreover have "thins ?t' (evict_aged now' ?t')" using evict_aged_spec(2) p by blast
  ultimately have "rt_byKey (evict_aged now' ?t') key = None" "blocked_key ?t' key"
    unfolding thins_def by metis+
  then show ?thesis unfolding t' using begin_call_gone p assms(5) by blast
qed

theorem gate_refusal_after_eviction_is_final_witness:
  "fst (begin_call Blocking 700000000000 \<lparr>cm_client = ''c-1'', cm_id = ''1''\<rparr> ''h1'' (cs_table (run_calls
     ([NewClientOp, BeginOp Blocking 0 \<lparr>cm_client = ''c-1'', cm_id = ''1''\<rparr> ''h1'',
       BeginOp Synchronous 0 \<lparr>cm_client = ''c-1'', cm_id = ''2''\<rparr> ''h2'', EndOp 0 1 () (Returned () None),
       ClaimOp 600000000001 ''c-1''] @
      [EndOp 700000000000 0 () (Returned () (Some [ErrNotInTurn]))]) cs_init)))
   \<in> {CallRefused [ErrUnknownCommand], CallRefused [ErrBadRequest]}"
  by (rule gate_refusal_after_eviction_is_final
      [where key = "\<lparr>rk_client = ''c-1'', rk_id = 1\<rparr>"
        and st = "\<lparr>cl_mark = 2, cl_released = False, cl_releasedAt = 0, cl_entries = 1\<rparr>"]) (simp_all add: receipts_eval)

end
