(* ===== verification/Receipt_Hash.thy ===== *)
theory Receipt_Hash
  imports Craze_Prelude "HOL-Library.List_Lexorder"
begin

text \<open>
  What a resend is compared by: the payload hash of \<open>internal/engine/receipts.go\<close>.

  \<^item> \<open>hash_string\<close>, \<open>hash_count\<close>, \<open>hash_bool\<close> are the three primitives, \<open>receipt_preimage\<close> the bytes
    \<open>receiptHash\<close> feeds to SHA-256, \<open>receipt_hash\<close> their hash (the hash function is a parameter),
    \<open>version_spelling\<close> and \<open>answer_spelling\<close> the two structured arguments.
  \<^item> A Go map is its association list, in whatever order its iteration gave; \<open>answers_wf\<close> says its keys
    are distinct, and \<open>map_of\<close> is the map itself.

  The lemmas show that the encoding is injective all the way down: two requests that feed the same
  bytes have the same method and arguments, so only a collision of SHA-256 can make one request
  look like a resend of another. A nil map or slice is an empty list here, as the encoding has it.
\<close>

definition hash_string :: "string \<Rightarrow> string" where
  "hash_string s = ''s'' @ dec (length s) @ '':'' @ s"

definition hash_count :: "nat \<Rightarrow> string" where
  "hash_count n = ''n'' @ dec n @ '';''"

definition hash_bool :: "bool \<Rightarrow> string" where
  "hash_bool b = ''b'' @ (if b then ''true'' else ''false'') @ '';''"

definition receipt_preimage :: "string \<Rightarrow> string list \<Rightarrow> string" where
  "receipt_preimage method parts =
     hash_string method @ hash_count (length parts) @ concat (map hash_string parts)"

definition receipt_hash :: "(string \<Rightarrow> string) \<Rightarrow> string \<Rightarrow> string list \<Rightarrow> string" where
  "receipt_hash sha method parts = sha (receipt_preimage method parts)"

text \<open>\<open>strconv.Itoa\<close>.\<close>

definition itoa :: "int \<Rightarrow> string" where
  "itoa i = (if i < 0 then ''-'' @ dec (nat (- i)) else dec (nat i))"

definition version_spelling :: "int option \<Rightarrow> string" where
  "version_spelling v = (case v of None \<Rightarrow> ''*'' | Some i \<Rightarrow> itoa i)"

record ask_answer =
  aa_option :: string
  aa_cancel :: bool
  aa_answers :: "(string \<times> string list) list"
  aa_skip :: bool
  aa_accept :: bool
  aa_reject :: bool

definition answers_wf :: "ask_answer \<Rightarrow> bool" where
  "answers_wf a \<longleftrightarrow> distinct (map fst (aa_answers a))"

definition key_spelling :: "ask_answer \<Rightarrow> string \<Rightarrow> string" where
  "key_spelling a k =
     (let vals = (case map_of (aa_answers a) k of Some vs \<Rightarrow> vs | None \<Rightarrow> [])
      in hash_string k @ hash_count (length vals) @ concat (map hash_string vals))"

definition answer_spelling :: "ask_answer \<Rightarrow> string" where
  "answer_spelling a =
     (let keys = sort (map fst (aa_answers a)) in
      hash_string (aa_option a) @ hash_bool (aa_cancel a) @ hash_bool (aa_skip a) @
      hash_bool (aa_accept a) @ hash_bool (aa_reject a) @
      hash_count (length keys) @ concat (map (key_spelling a) keys))"

section \<open>Reading the primitives back\<close>

definition is_digit :: "char \<Rightarrow> bool" where
  "is_digit c \<longleftrightarrow> c \<in> digit_char ` {0..<10}"

lemma dec_digits: "c \<in> set (dec n) \<Longrightarrow> is_digit c"
proof (induction n rule: dec.induct)
  case (1 n)
  show ?case
  proof (cases "n < 10")
    case True
    with 1 have "c = digit_char n" by (subst (asm) dec.simps) simp
    with True show ?thesis by (simp add: is_digit_def)
  next
    case False
    then have "dec n = dec (n div 10) @ [digit_char (n mod 10)]" by (subst dec.simps) simp
    with "1.prems" consider "c \<in> set (dec (n div 10))" | "c = digit_char (n mod 10)" by auto
    then show ?thesis using "1.IH" [OF False] by cases (auto simp: is_digit_def)
  qed
qed

lemma not_digit: "\<not> is_digit (CHR '':'')" "\<not> is_digit (CHR '';'')" "\<not> is_digit (CHR ''-'')" "\<not> is_digit (CHR ''*'')"
  unfolding is_digit_def digit_char_def by code_simp+

lemma dec_then_inject:
  assumes "dec m @ c # x = dec n @ c # y" and "\<not> is_digit c"
  shows "m = n \<and> x = y"
proof -
  have take: "takeWhile is_digit (dec k @ c # z) = dec k" for k z
    using assms(2) dec_digits by (subst takeWhile_append2) auto
  from arg_cong [OF assms(1), of "takeWhile is_digit"] have "m = n" by (simp add: take)
  with assms(1) show ?thesis by simp
qed

lemma hash_string_inject: "hash_string s @ x = hash_string t @ y \<Longrightarrow> s = t \<and> x = y"
proof -
  assume "hash_string s @ x = hash_string t @ y"
  then have "dec (length s) @ CHR '':'' # s @ x = dec (length t) @ CHR '':'' # t @ y"
    by (simp add: hash_string_def)
  from dec_then_inject [OF this not_digit(1)] have "length s = length t" "s @ x = t @ y" by simp_all
  then show "s = t \<and> x = y" by (simp add: append_eq_append_conv)
qed

lemma hash_count_inject: "hash_count m @ x = hash_count n @ y \<Longrightarrow> m = n \<and> x = y"
proof -
  assume "hash_count m @ x = hash_count n @ y"
  then have "dec m @ CHR '';'' # x = dec n @ CHR '';'' # y" by (simp add: hash_count_def)
  from dec_then_inject [OF this not_digit(2)] show "m = n \<and> x = y" .
qed

lemma hash_bool_inject: "hash_bool b @ x = hash_bool c @ y \<Longrightarrow> b = c \<and> x = y"
  by (auto simp: hash_bool_def split: if_splits)

lemma hash_strings_inject:
  "length ss = length ts \<Longrightarrow> concat (map hash_string ss) @ x = concat (map hash_string ts) @ y \<Longrightarrow>
     ss = ts \<and> x = y"
proof (induction ss ts rule: list_induct2)
  case (Cons s ss t ts)
  then have "hash_string s @ concat (map hash_string ss) @ x = hash_string t @ concat (map hash_string ts) @ y"
    by simp
  from hash_string_inject [OF this] Cons.IH show ?case by simp
qed simp

lemma counted_strings_inject:
  assumes "hash_count (length ss) @ concat (map hash_string ss) @ x =
      hash_count (length ts) @ concat (map hash_string ts) @ y"
  shows "ss = ts \<and> x = y"
proof -
  from hash_count_inject [OF assms] show ?thesis by (intro hash_strings_inject) simp_all
qed

lemma keys_spelling_inject:
  "length ks = length ls \<Longrightarrow> concat (map (key_spelling a) ks) = concat (map (key_spelling b) ls) \<Longrightarrow>
     ks = ls \<and> (\<forall>k \<in> set ks. case_option [] (\<lambda>v. v) (map_of (aa_answers a) k) =
       case_option [] (\<lambda>v. v) (map_of (aa_answers b) k))"
proof (induction ks ls rule: list_induct2)
  case (Cons k ks l ls)
  let ?va = "case_option [] (\<lambda>v. v) (map_of (aa_answers a) k)"
  let ?vb = "case_option [] (\<lambda>v. v) (map_of (aa_answers b) l)"
  have "hash_string k @ hash_count (length ?va) @ concat (map hash_string ?va) @ concat (map (key_spelling a) ks) =
      hash_string l @ hash_count (length ?vb) @ concat (map hash_string ?vb) @ concat (map (key_spelling b) ls)"
    using Cons.prems by (simp add: key_spelling_def [of a k] key_spelling_def [of b l] Let_def)
  from hash_string_inject [OF this] have "k = l"
    "hash_count (length ?va) @ concat (map hash_string ?va) @ concat (map (key_spelling a) ks) =
     hash_count (length ?vb) @ concat (map hash_string ?vb) @ concat (map (key_spelling b) ls)" by auto
  with counted_strings_inject [OF this(2)] Cons.IH show ?case by simp
qed simp

lemma map_of_case:
  "map_of xs k = (if k \<in> set (map fst xs) then Some (case_option [] (\<lambda>v. v) (map_of xs k)) else None)"
  by (auto simp: map_of_eq_None_iff split: option.split)

section \<open>Properties\<close>

text \<open>C33. The payload encoding is injective: two requests that feed the hash the same bytes have the same
  method and the same arguments, whatever bytes the arguments hold; and an optional version and an
  integer are never spelled alike.\<close>

theorem receipt_preimage_injective:
  "(receipt_preimage m ps = receipt_preimage m' ps') = (m = m' \<and> ps = ps') \<and>
   (version_spelling v = version_spelling v') = (v = v')"
proof -
  have "m = m' \<and> ps = ps'" if "receipt_preimage m ps = receipt_preimage m' ps'"
  proof -
    from that have "hash_string m @ hash_count (length ps) @ concat (map hash_string ps) @ [] =
        hash_string m' @ hash_count (length ps') @ concat (map hash_string ps') @ []"
      by (simp add: receipt_preimage_def)
    from hash_string_inject [OF this] counted_strings_inject [of ps "[]" ps' "[]"] show ?thesis by simp
  qed
  moreover have "dec n \<noteq> CHR ''-'' # x" "dec n \<noteq> CHR ''*'' # x" for n x
    using dec_digits [of "CHR ''-''" n] dec_digits [of "CHR ''*''" n] not_digit by auto
  note this this [symmetric]
  then have "v = v'" if "version_spelling v = version_spelling v'"
    using that by (auto simp: version_spelling_def itoa_def nat_eq_iff split: option.splits if_splits)
  ultimately show ?thesis by blast
qed

text \<open>Two answers to an ask are spelled alike exactly when they are the same answer: the same option and
  flags and the same map from questions to values, in whatever order the map's entries come.\<close>

theorem answer_spelling_injective:
  assumes "answers_wf a" and "answers_wf b"
  shows "answer_spelling a = answer_spelling b \<longleftrightarrow>
    aa_option a = aa_option b \<and> aa_cancel a = aa_cancel b \<and> aa_skip a = aa_skip b \<and>
    aa_accept a = aa_accept b \<and> aa_reject a = aa_reject b \<and> map_of (aa_answers a) = map_of (aa_answers b)"
    (is "?spell \<longleftrightarrow> ?same")
proof
  let ?ka = "sort (map fst (aa_answers a))" and ?kb = "sort (map fst (aa_answers b))"
  assume ?spell
  then have s: "hash_string (aa_option a) @ hash_bool (aa_cancel a) @ hash_bool (aa_skip a) @
      hash_bool (aa_accept a) @ hash_bool (aa_reject a) @ hash_count (length ?ka) @ concat (map (key_spelling a) ?ka) =
      hash_string (aa_option b) @ hash_bool (aa_cancel b) @ hash_bool (aa_skip b) @
      hash_bool (aa_accept b) @ hash_bool (aa_reject b) @ hash_count (length ?kb) @ concat (map (key_spelling b) ?kb)"
    by (simp add: answer_spelling_def Let_def)
  note h1 = hash_string_inject [OF s]
  note h2 = hash_bool_inject [OF conjunct2 [OF h1]]
  note h3 = hash_bool_inject [OF conjunct2 [OF h2]]
  note h4 = hash_bool_inject [OF conjunct2 [OF h3]]
  note h5 = hash_bool_inject [OF conjunct2 [OF h4]]
  note h6 = hash_count_inject [OF conjunct2 [OF h5]]
  note keys = keys_spelling_inject [OF conjunct1 [OF h6] conjunct2 [OF h6]]
  have set: "set (map fst (aa_answers a)) = set (map fst (aa_answers b))"
    using keys by (metis set_sort)
  have "map_of (aa_answers a) k = map_of (aa_answers b) k" for k
    using keys set map_of_case [of "aa_answers a" k] map_of_case [of "aa_answers b" k]
    by (metis set_sort)
  with h1 h2 h3 h4 h5 show ?same by blast
next
  assume same: ?same
  then have "dom (map_of (aa_answers a)) = dom (map_of (aa_answers b))" by simp
  then have "set (map fst (aa_answers a)) = set (map fst (aa_answers b))" by (simp add: dom_map_of_conv_image_fst)
  with assms have "sort (map fst (aa_answers a)) = sort (map fst (aa_answers b))"
    by (intro sorted_distinct_set_unique) (simp_all add: answers_wf_def)
  moreover have "key_spelling a = key_spelling b" using same by (simp add: key_spelling_def fun_eq_iff)
  ultimately show ?spell using same by (simp add: answer_spelling_def Let_def)
qed

theorem answer_spelling_injective_witness:
  "let a = \<lparr>aa_option = '''', aa_cancel = False, aa_answers = [(''q'', [''a b'']), (''p'', [])],
        aa_skip = False, aa_accept = True, aa_reject = False\<rparr>;
       b = a\<lparr>aa_answers := [(''p'', []), (''q'', [''a b''])]\<rparr>;
       c = a\<lparr>aa_answers := [(''q'', [''a'', ''b'']), (''p'', [])]\<rparr>
   in answer_spelling a = answer_spelling b \<and> answer_spelling a \<noteq> answer_spelling c"
proof -
  let ?a = "\<lparr>aa_option = '''', aa_cancel = False, aa_answers = [(''q'', [''a b'']), (''p'', [])],
        aa_skip = False, aa_accept = True, aa_reject = False\<rparr>"
  let ?b = "?a\<lparr>aa_answers := [(''p'', []), (''q'', [''a b''])]\<rparr>"
  let ?c = "?a\<lparr>aa_answers := [(''q'', [''a'', ''b'']), (''p'', [])]\<rparr>"
  have wf: "answers_wf ?a" "answers_wf ?b" "answers_wf ?c" by (simp_all add: answers_wf_def)
  have "answer_spelling ?a = answer_spelling ?b"
    using answer_spelling_injective [OF wf(1,2)] by (simp add: fun_upd_twist)
  moreover have "answer_spelling ?a \<noteq> answer_spelling ?c"
    using answer_spelling_injective [OF wf(1,3)] by (simp add: fun_eq_iff)
  ultimately show ?thesis by (simp add: Let_def)
qed

end
