(* ===== verification/Engine.thy ===== *)
theory Engine
  imports Prompt_Queue Errors
begin

text \<open>
  The engine of \<open>internal/engine\<close>: the one driver of a session's turns. This theory holds its state
  and its critical sections; \<open>Engine_Client\<close> and \<open>Engine_Inv\<close>
  hold what they keep.

  \<^item> \<open>engine\<close> is the part of the Go struct that \<open>e.mu\<close> and \<open>e.obsMu\<close> guard, with the driver's timer
    (\<open>e_tick\<close>), the one-slot channels \<open>kick\<close> and \<open>rearm\<close> as booleans, and the continuations counted in
    \<open>e.wg\<close> by their turn (\<open>e_out\<close>). A turn's continuation and \<open>e.cur\<close> share one \<open>*turn\<close> in Go; here
    a continuation names its turn by id, and the turn is \<open>e_cur\<close>.
  \<^item> A critical section is one function from state to state. What the section reads from outside is
    part of the state it starts in (\<open>enter\<close>): the clock (\<open>e_now\<close>; Go reads it anew for each
    time a section stores, and no lemma compares two of those times), the
    outbox's answer to \<open>OutboxRoom\<close> (\<open>e_room\<close>) and the answers the session gives to the section's
    reads of \<open>ForeignTurn\<close> (\<open>e_reads\<close>, consumed one per read: the agent's turn may end between two
    reads of one section; a read past the end answers False).
  \<^item> What the section does to the outside is recorded: the events given to \<open>EventLog.Enqueue\<close>
    (\<open>e_log\<close>) and the calls made on the session under the lock (\<open>e_calls\<close>: \<open>FenceUp\<close>, \<open>FenceDown\<close>,
    \<open>Begin\<close>).
  \<^item> The chain policy, \<open>AsksDoNotPin\<close> and whether the session has an admission fence are the
    constants \<open>e_retry_foreign\<close>, \<open>e_stop_non_end\<close>, \<open>e_asks_do_not_pin\<close>, \<open>e_fence\<close>.

  Not part of the model: the session index, the transcript model the observer folds into, the
  settings worker (its two inputs to the close fence are set by \<open>OpSettings\<close>), side questions, and the
  command-id table the commands go through (theory \<open>Receipts\<close>). A time is an integer, Go's zero
  time is 0.
\<close>

section \<open>Types\<close>

datatype activity = ActivityStarting | ActivityReplaying | ActivityIdle | ActivityWorking
  | ActivityError | ActivityClosing

text \<open>A turn's failure: the sentinels its tree holds, \<open>Error()\<close>, and what \<open>ClassifyEventErr\<close> and
  \<open>ErrorInfo\<close> make of it.\<close>

record turn_error =
  te_is :: go_error
  te_text :: string
  te_class :: string
  te_info :: string

text \<open>\<open>agent.Result\<close>: the stop reason, and the steers the turn accepted and could not answer.\<close>

record turn_result =
  tr_stop_reason :: string
  tr_unanswered :: "string list"

record turn =
  t_id :: string
  t_text :: string
  t_origin :: string
  t_cause :: string
  t_row :: "queued_prompt option"
  t_cancel_asked :: bool
  t_returned :: bool
  t_res :: turn_result
  t_err :: "turn_error option"
  t_retry :: bool
  t_retry_due :: bool
  t_given_up :: bool

record launch =
  l_turn :: string
  l_barrier :: bool

record armed_send =
  as_text :: string
  as_from :: string
  as_turn :: string
  as_cause :: string

record exit_fence =
  xf_row :: string
  xf_turn :: string
  xf_ended :: bool

datatype turn_phase = TurnStarted | TurnEnded

record turn_info =
  ti_id :: string
  ti_phase :: turn_phase
  ti_text :: string
  ti_origin :: string
  ti_stop_reason :: string
  ti_err_class :: string
  ti_err :: string
  ti_info :: string
  ti_synthetic :: bool
  ti_next :: string
  ti_pending :: nat
  ti_cause :: string

record send_now_state =
  sn_armed :: bool
  sn_text :: string
  sn_from_row :: string
  sn_turn :: string

record foreign_info =
  fi_id :: string
  fi_running :: bool

datatype replay_phase = ReplayStart | ReplayEnd

text \<open>The events the engine authors or looks at, by type. \<open>EvMeta\<close> is a \<open>StateDelta\<close>: its send-now
  section, its reason, its detail.\<close>

datatype event_body =
    EvQueue queue_event
  | EvTurn turn_info
  | EvMeta "send_now_state option" string string
  | EvForeign foreign_info
  | EvReplay replay_phase
  | EvOther

record event =
  ev_body :: event_body
  ev_at :: int
  ev_cause :: string
  ev_agent :: string
  ev_replayed :: bool

datatype session_call = FenceUp | FenceDown | Begin string

datatype turn_outcome = TurnDone | TurnFailed | TurnCancelled

record last_turn =
  lt_outcome :: turn_outcome
  lt_err :: string
  lt_stop_reason :: string
  lt_info :: string
  lt_cause :: string
  lt_withdrawn :: bool
  lt_ended_at :: int
  lt_turn_id :: string

record engine =
  e_retry_foreign :: bool
  e_stop_non_end :: bool
  e_asks_do_not_pin :: bool
  e_fence :: bool
  e_activity :: activity
  e_activity_at :: int
  e_cur :: "turn option"
  e_settled :: "string \<Rightarrow> turn_error option"
  e_settled_ids :: "string list"
  e_turn_seq :: nat
  e_queue :: prompt_queue
  e_armed :: "armed_send option"
  e_cancels :: int
  e_stopped :: bool
  e_closed :: bool
  e_close_cause :: string
  e_prompted :: bool
  e_cancelled :: bool
  e_err :: string
  e_start_failed :: bool
  e_fenced :: bool
  e_drain_owed :: bool
  e_saw_foreign :: bool
  e_exit_fence :: "exit_fence option"
  e_recheck :: bool
  e_close_fences :: int
  e_pass_held :: bool
  e_sets :: nat
  e_set_running :: bool
  e_admitting :: int
  e_replaying :: bool
  e_replay_retired :: bool
  e_last_turn :: "last_turn option"
  e_ready :: bool
  e_kick :: bool
  e_rearm :: bool
  e_tick :: bool
  e_out :: "string list"
  e_now :: int
  e_reads :: "bool list"
  e_room :: bool
  e_log :: "event list"
  e_calls :: "session_call list"

definition stopEndTurn :: string where "stopEndTurn = ''end_turn''"
definition stopCancelled :: string where "stopCancelled = ''cancelled''"
definition stopClosing :: string where "stopClosing = ''closing''"

definition settledCap :: nat where "settledCap = 16"

definition TurnOriginSubmit :: string where "TurnOriginSubmit = ''submit''"
definition TurnOriginDrain :: string where "TurnOriginDrain = ''drain''"
definition TurnOriginSendNow :: string where "TurnOriginSendNow = ''send_now''"

text \<open>\<open>newEngine\<close>'s state for a session with or without an admission fence, under a chain policy.\<close>

definition new_engine :: "bool \<Rightarrow> bool \<Rightarrow> bool \<Rightarrow> bool \<Rightarrow> int \<Rightarrow> engine" where
  "new_engine retry_foreign stop_non_end asks_do_not_pin has_fence born =
     \<lparr>e_retry_foreign = retry_foreign, e_stop_non_end = stop_non_end,
      e_asks_do_not_pin = asks_do_not_pin, e_fence = has_fence,
      e_activity = ActivityStarting, e_activity_at = born, e_cur = None,
      e_settled = (\<lambda>_. None), e_settled_ids = [], e_turn_seq = 0, e_queue = pq_empty,
      e_armed = None, e_cancels = 0, e_stopped = False, e_closed = False, e_close_cause = [],
      e_prompted = False, e_cancelled = False, e_err = [], e_start_failed = False,
      e_fenced = False, e_drain_owed = False, e_saw_foreign = False, e_exit_fence = None,
      e_recheck = False, e_close_fences = 0, e_pass_held = False, e_sets = 0,
      e_set_running = False, e_admitting = 0, e_replaying = False, e_replay_retired = False,
      e_last_turn = None, e_ready = False, e_kick = False, e_rearm = False, e_tick = False,
      e_out = [], e_now = born, e_reads = [], e_room = True, e_log = [], e_calls = []\<rparr>"

text \<open>What a section is given from outside when it takes the lock.\<close>

record outside =
  o_now :: int
  o_reads :: "bool list"
  o_room :: bool

definition enter :: "outside \<Rightarrow> engine \<Rightarrow> engine" where
  "enter o' e = e\<lparr>e_now := o_now o', e_reads := o_reads o', e_room := o_room o'\<rparr>"

section \<open>Events\<close>

definition turn_id :: "nat \<Rightarrow> string" where
  "turn_id n = ''turn-'' @ dec n"

definition enqueue :: "event list \<Rightarrow> engine \<Rightarrow> engine" where
  "enqueue evs e = e\<lparr>e_log := e_log e @ evs\<rparr>"

definition stamp :: "engine \<Rightarrow> event_body \<Rightarrow> string \<Rightarrow> event" where
  "stamp e body cause =
     \<lparr>ev_body = body, ev_at = e_now e, ev_cause = cause, ev_agent = [], ev_replayed = False\<rparr>"

definition turn_info_of :: "string \<Rightarrow> turn_phase \<Rightarrow> turn_info" where
  "turn_info_of tid phase =
     \<lparr>ti_id = tid, ti_phase = phase, ti_text = [], ti_origin = [], ti_stop_reason = [],
      ti_err_class = [], ti_err = [], ti_info = [], ti_synthetic = False, ti_next = [],
      ti_pending = 0, ti_cause = []\<rparr>"

definition started_event :: "engine \<Rightarrow> turn \<Rightarrow> event" where
  "started_event e t =
     stamp e (EvTurn ((turn_info_of (t_id t) TurnStarted)\<lparr>ti_text := t_text t, ti_origin := t_origin t\<rparr>))
       (t_cause t)"

definition wake :: "engine \<Rightarrow> engine" where
  "wake e = e\<lparr>e_kick := True\<rparr>"

section \<open>The gates\<close>

definition refusal :: "engine \<Rightarrow> go_error option" where
  "refusal e =
     (if e_closed e \<or> e_stopped e then Some [ErrNotAccepting]
      else if e_activity e = ActivityStarting \<or> e_start_failed e then Some [ErrNotAccepting]
      else if e_replaying e then Some [ErrNotAccepting]
      else if e_close_fences e > 0 then Some [ErrClosing]
      else None)"

definition exit_fence_ended :: "engine \<Rightarrow> bool" where
  "exit_fence_ended e = (case e_exit_fence e of None \<Rightarrow> False | Some f \<Rightarrow> xf_ended f)"

text \<open>One read of the session's \<open>ForeignTurn\<close>.\<close>

definition foreign_locked :: "engine \<Rightarrow> bool \<times> engine" where
  "foreign_locked e =
     (let f = (case e_reads e of [] \<Rightarrow> False | r # _ \<Rightarrow> r)
      in (f, e\<lparr>e_reads := tl (e_reads e), e_saw_foreign := e_saw_foreign e \<or> f \<and> e_fence e\<rparr>))"

text \<open>The conjunction of \<open>canStartLocked\<close> stops at the first term that is false, so the flag is read
  only when every other term holds.\<close>

definition can_start :: "engine \<Rightarrow> bool \<times> engine" where
  "can_start e =
     (if e_cur e = None \<and> e_cancels e = 0 \<and> refusal e = None \<and> \<not> exit_fence_ended e
      then (let (f, e') = foreign_locked e in (\<not> f, e')) else (False, e))"

definition can_submit :: "engine \<Rightarrow> bool \<times> engine" where
  "can_submit e =
     (if e_retry_foreign e then (e_cur e = None \<and> e_cancels e = 0 \<and> refusal e = None, e)
      else can_start e)"

section \<open>The queue's rows\<close>

definition row_locked :: "string \<Rightarrow> engine \<Rightarrow> queued_prompt option" where
  "row_locked rid e = find (\<lambda>p. qp_id p = rid) (pq_list (e_queue e))"

definition head_locked :: "engine \<Rightarrow> queued_prompt option" where
  "head_locked e = (case pq_list (e_queue e) of [] \<Rightarrow> None | p # _ \<Rightarrow> Some p)"

definition take_row :: "string \<Rightarrow> string \<Rightarrow> engine \<Rightarrow> event list \<times> engine" where
  "take_row rid cause e =
     (case pq_take rid (e_queue e) of
        None \<Rightarrow> ([], e)
      | Some (qev, q) \<Rightarrow> ([stamp e (EvQueue qev) cause], e\<lparr>e_queue := q\<rparr>))"

text \<open>\<open>queue.Clear\<close> with its events, all with one cause.\<close>

definition clear_rows :: "string \<Rightarrow> engine \<Rightarrow> event list \<times> engine" where
  "clear_rows cause e =
     (let (qevs, q) = pq_clear (e_queue e)
      in (map (\<lambda>qev. stamp e (EvQueue qev) cause) qevs, e\<lparr>e_queue := q\<rparr>))"

section \<open>The exit fence\<close>

fun row_at_or_ahead :: "string \<Rightarrow> string \<Rightarrow> queued_prompt list \<Rightarrow> bool" where
  "row_at_or_ahead from fenced [] = False"
| "row_at_or_ahead from fenced (p # ps) =
     (if qp_id p = from then True else if qp_id p = fenced then False
      else row_at_or_ahead from fenced ps)"

definition exit_fence_refusal :: "string \<Rightarrow> engine \<Rightarrow> go_error option" where
  "exit_fence_refusal from e =
     (case e_exit_fence e of
        None \<Rightarrow> None
      | Some f \<Rightarrow>
          if from \<noteq> [] \<and> xf_turn f = [] \<and> \<not> xf_ended f \<and>
             row_at_or_ahead from (xf_row f) (pq_list (e_queue e))
          then None else Some [ErrExitFenced])"

definition exit_fence_row_taken :: "engine \<Rightarrow> engine" where
  "exit_fence_row_taken e =
     (case (e_exit_fence e, e_cur e) of
        (Some f, Some t) \<Rightarrow>
          (case t_row t of
             Some row \<Rightarrow>
               if xf_turn f = [] \<and> qp_id row = xf_row f
               then e\<lparr>e_exit_fence := Some (f\<lparr>xf_turn := t_id t\<rparr>)\<rparr> else e
           | None \<Rightarrow> e)
      | _ \<Rightarrow> e)"

definition exit_fence_ends :: "turn \<Rightarrow> engine \<Rightarrow> bool \<times> engine" where
  "exit_fence_ends t e =
     (case e_exit_fence e of
        None \<Rightarrow> (False, e)
      | Some f \<Rightarrow>
          if xf_ended f \<or> xf_turn f \<noteq> t_id t then (False, e)
          else (True, e\<lparr>e_exit_fence := Some (f\<lparr>xf_ended := True\<rparr>)\<rparr>))"

definition exit_fence_lift :: "engine \<Rightarrow> engine" where
  "exit_fence_lift e =
     (case e_exit_fence e of
        None \<Rightarrow> e
      | Some f \<Rightarrow>
          if xf_ended f \<or> xf_turn f \<noteq> [] then e
          else if row_locked (xf_row f) e = None then e\<lparr>e_exit_fence := None\<rparr> else e)"

section \<open>The session's admission fence\<close>

definition raise_fence :: "engine \<Rightarrow> engine" where
  "raise_fence e =
     (if \<not> e_fence e \<or> e_fenced e then e
      else e\<lparr>e_calls := e_calls e @ [FenceUp], e_fenced := True\<rparr>)"

text \<open>\<open>owedDrainLocked\<close> settles the latch: its value is \<open>e_drain_owed\<close> of the state it returns.\<close>

definition owed_drain :: "engine \<Rightarrow> engine" where
  "owed_drain e =
     (let saw = e_saw_foreign e; e1 = e\<lparr>e_saw_foreign := False\<rparr> in
      if e_cur e1 \<noteq> None \<or> e_activity e1 \<noteq> ActivityIdle \<or> pq_len (e_queue e1) = 0 \<or> refusal e1 \<noteq> None
      then e1\<lparr>e_drain_owed := False\<rparr>
      else if e_drain_owed e1 then e1
      else if saw then e1\<lparr>e_drain_owed := True\<rparr>
      else if e_cancels e1 = 0 then
        (let (f, e2) = foreign_locked (raise_fence e1)
         in e2\<lparr>e_drain_owed := f, e_saw_foreign := False\<rparr>)
      else e1)"

definition fence_want :: "engine \<Rightarrow> bool" where
  "fence_want e \<longleftrightarrow>
     e_closed e \<or> e_stopped e \<or> e_cur e \<noteq> None \<or> e_cancels e > 0 \<or> e_close_fences e > 0 \<or>
     exit_fence_ended e \<or> e_drain_owed e"

definition sync_fence :: "engine \<Rightarrow> engine" where
  "sync_fence e =
     (let e0 = exit_fence_lift e in
      if \<not> e_fence e0 then e0
      else
        let e1 = owed_drain e0 in
        if fence_want e1 \<and> \<not> e_fenced e1
        then e1\<lparr>e_calls := e_calls e1 @ [FenceUp], e_fenced := True\<rparr>
        else if \<not> fence_want e1 \<and> e_fenced e1
        then e1\<lparr>e_calls := e_calls e1 @ [FenceDown], e_fenced := False\<rparr>
        else e1)"

section \<open>Claims\<close>

definition launch_locked :: "string \<Rightarrow> bool \<Rightarrow> engine \<Rightarrow> launch \<times> engine" where
  "launch_locked tid barrier e =
     (\<lparr>l_turn = tid, l_barrier = barrier\<rparr>, e\<lparr>e_out := e_out e @ [tid]\<rparr>)"

definition begin_call_on :: "string \<Rightarrow> engine \<Rightarrow> engine" where
  "begin_call_on prompt e = e\<lparr>e_calls := e_calls e @ [Begin prompt]\<rparr>"

definition claim_locked :: "string \<Rightarrow> string \<Rightarrow> string \<Rightarrow> engine \<Rightarrow> launch \<times> engine" where
  "claim_locked prompt origin cause e =
     (let e0 = begin_call_on prompt e;
          seq = Suc (e_turn_seq e0);
          t = \<lparr>t_id = turn_id seq, t_text = prompt, t_origin = origin, t_cause = cause, t_row = None,
               t_cancel_asked = False, t_returned = False,
               t_res = \<lparr>tr_stop_reason = [], tr_unanswered = []\<rparr>, t_err = None,
               t_retry = False, t_retry_due = False, t_given_up = False\<rparr>
      in launch_locked (turn_id seq) True
           (e0\<lparr>e_turn_seq := seq, e_cur := Some t,
              e_activity_at := (if e_activity e0 \<noteq> ActivityWorking then e_now e0 else e_activity_at e0),
              e_activity := ActivityWorking, e_err := [], e_cancelled := False, e_prompted := True\<rparr>))"

text \<open>\<open>l.t.row = &row\<close>, on the turn just claimed, followed by \<open>exitFenceRowTakenLocked\<close>.\<close>

definition set_row :: "queued_prompt \<Rightarrow> engine \<Rightarrow> engine" where
  "set_row row e = exit_fence_row_taken (e\<lparr>e_cur := map_option (t_row_update (\<lambda>_. Some row)) (e_cur e)\<rparr>)"

definition started_of_cur :: "engine \<Rightarrow> event list" where
  "started_of_cur e = (case e_cur e of None \<Rightarrow> [] | Some t \<Rightarrow> [started_event e t])"

definition disarm_locked :: "string \<Rightarrow> string \<Rightarrow> string \<Rightarrow> engine \<Rightarrow> event list \<times> engine" where
  "disarm_locked why cause detail e =
     (case e_armed e of
        None \<Rightarrow> ([], e)
      | Some a \<Rightarrow>
          ([stamp e (EvMeta (Some \<lparr>sn_armed = False, sn_text = [], sn_from_row = [], sn_turn = []\<rparr>) why detail)
              (if cause = [] then as_cause a else cause)],
           e\<lparr>e_armed := None\<rparr>))"

text \<open>\<open>nextLocked\<close>: the armed send-now first, then, where the queue may run, the head. It returns the
  launch, the queue events that freed its text, and the disarm of a send whose row has gone.\<close>

definition next_locked ::
  "bool \<Rightarrow> engine \<Rightarrow> launch option \<times> event list \<times> event list \<times> engine" where
  "next_locked queue_may_run e =
     (let (ok, e1) = (if e_activity e \<noteq> ActivityIdle then (False, e) else can_start e) in
      if \<not> ok then
        (None, [], [], if e_close_fences e1 > 0 then e1\<lparr>e_pass_held := True\<rparr> else e1)
      else
        let (armed_fired, disarm, e2) =
          (case e_armed e1 of
             None \<Rightarrow> (None, [], e1)
           | Some a \<Rightarrow>
               (if as_from a = [] then
                  (let (l, e3) = claim_locked (as_text a) TurnOriginSendNow (as_cause a) (e1\<lparr>e_armed := None\<rparr>)
                   in (Some (l, []), [], e3))
                else
                  (case row_locked (as_from a) e1 of
                     Some row \<Rightarrow>
                       (let (l, e3) = claim_locked (qp_text row) TurnOriginSendNow (as_cause a)
                                        (e1\<lparr>e_armed := None\<rparr>);
                            (before, e4) = take_row (as_from a) (as_cause a) (set_row row e3)
                        in (Some (l, before), [], e4))
                   | None \<Rightarrow>
                       (let (ev, e3) = disarm_locked ''row_gone'' [] [] e1 in (None, ev, e3)))))
        in (case armed_fired of
              Some (l, before) \<Rightarrow> (Some l, before, [], e2)
            | None \<Rightarrow>
                if \<not> queue_may_run then (None, [], disarm, e2)
                else
                  (case head_locked e2 of
                     None \<Rightarrow> (None, [], disarm, e2)
                   | Some head \<Rightarrow>
                       (let (l, e3) = claim_locked (qp_text head) TurnOriginDrain [] e2;
                            e4 = set_row head e3
                        in (case pq_pop (e_queue e4) of
                              None \<Rightarrow> (Some l, [], disarm, e4)
                            | Some (qev, q) \<Rightarrow>
                                (Some l, [stamp e4 (EvQueue qev) []], disarm, e4\<lparr>e_queue := q\<rparr>))))))"

definition drain_locked :: "engine \<Rightarrow> launch list \<times> engine" where
  "drain_locked e =
     (let (l, before, disarm, e1) = next_locked True e in
      case l of
        None \<Rightarrow> ([], enqueue (disarm @ before) e1)
      | Some l' \<Rightarrow> ([l'], enqueue (disarm @ before @ started_of_cur e1) e1))"

section \<open>Settlement\<close>

definition turn_is :: "turn \<Rightarrow> sentinel \<Rightarrow> bool" where
  "turn_is t s = (case t_err t of None \<Rightarrow> False | Some err \<Rightarrow> errors_is (te_is err) s)"

definition row_refused :: "turn \<Rightarrow> engine \<Rightarrow> bool" where
  "row_refused t e \<longleftrightarrow> t_row t \<noteq> None \<and> turn_is t ErrForeignTurn \<and> \<not> e_retry_foreign e"

definition restores :: "turn \<Rightarrow> engine \<Rightarrow> bool" where
  "restores t e \<longleftrightarrow> row_refused t e \<and> \<not> t_cancel_asked t \<and> \<not> e_stopped e"

definition cancelled_refusal :: "turn \<Rightarrow> engine \<Rightarrow> bool" where
  "cancelled_refusal t e \<longleftrightarrow> row_refused t e \<and> t_cancel_asked t"

definition remember_err :: "turn \<Rightarrow> engine \<Rightarrow> engine" where
  "remember_err t e =
     (case t_err t of
        None \<Rightarrow> e
      | Some err \<Rightarrow>
          let e1 = e\<lparr>e_settled := (e_settled e)(t_id t := Some err), e_settled_ids := e_settled_ids e @ [t_id t]\<rparr>
          in if length (e_settled_ids e1) > settledCap
             then e1\<lparr>e_settled := (e_settled e1)(hd (e_settled_ids e1) := None),
                     e_settled_ids := tl (e_settled_ids e1)\<rparr>
             else e1)"

definition turn_err :: "string \<Rightarrow> engine \<Rightarrow> turn_error option" where
  "turn_err tid e = e_settled e tid"

text \<open>The steers a turn could not answer, put back last first: the events are in the order they were
  made, the rows end in the order the steers were typed.\<close>

fun return_steers :: "string list \<Rightarrow> engine \<Rightarrow> event list \<times> engine" where
  "return_steers [] e = ([], e)"
| "return_steers (s # ss) e =
     (let (evs, e1) = return_steers ss e;
          (qev, q) = pq_push_front s (e_now e1) (e_queue e1)
      in (evs @ [stamp e1 (EvQueue qev) []], e1\<lparr>e_queue := q\<rparr>))"

definition restore_locked :: "turn \<Rightarrow> queued_prompt \<Rightarrow> event list \<Rightarrow> engine \<Rightarrow> launch list \<times> engine" where
  "restore_locked t row batch e =
     (let (qev, q) = pq_restore row (e_queue e);
          e1 = e\<lparr>e_queue := q\<rparr>;
          e2 = (case e_exit_fence e1 of
                  Some f \<Rightarrow> if xf_turn f = t_id t then e1\<lparr>e_exit_fence := Some (f\<lparr>xf_turn := []\<rparr>)\<rparr> else e1
                | None \<Rightarrow> e1);
          e3 = remember_err t (e2\<lparr>e_cur := None, e_activity := ActivityIdle, e_activity_at := e_now e2,
                                e_cancelled := False\<rparr>);
          info = (turn_info_of (t_id t) TurnEnded)\<lparr>ti_synthetic := True,
                   ti_err := (case t_err t of None \<Rightarrow> [] | Some err \<Rightarrow> te_text err),
                   ti_err_class := (case t_err t of None \<Rightarrow> [] | Some err \<Rightarrow> te_class err),
                   ti_info := (case t_err t of None \<Rightarrow> [] | Some err \<Rightarrow> te_info err),
                   ti_pending := pq_len (e_queue e3)\<rparr>;
          (disarm, e4) = (case e_armed e3 of
                            Some a \<Rightarrow> if as_turn a \<noteq> t_id t then disarm_locked ''other_turn'' [] [] e3 else ([], e3)
                          | None \<Rightarrow> ([], e3))
      in ([], (enqueue (batch @ [stamp e (EvQueue qev) (t_cause t)] @ [stamp e (EvTurn info) (t_cause t)] @ disarm)
                e4)\<lparr>e_recheck := True, e_rearm := True\<rparr>))"

text \<open>What a turn's ending says of itself, and whether the turn failed.\<close>

definition refused :: "turn \<Rightarrow> bool" where
  "refused t \<longleftrightarrow> turn_is t ErrPromptInFlight \<or> turn_is t ErrForeignTurn"

definition ending_of :: "turn \<Rightarrow> engine \<Rightarrow> turn_info \<times> bool" where
  "ending_of t e =
     (let info = turn_info_of (t_id t) TurnEnded in
      case t_err t of
        None \<Rightarrow> (info\<lparr>ti_stop_reason := tr_stop_reason (t_res t)\<rparr>, False)
      | Some err \<Rightarrow>
          if errors_is (te_is err) ErrPromptCancelled \<or> cancelled_refusal t e
          then (info\<lparr>ti_synthetic := True, ti_stop_reason := stopCancelled\<rparr>, False)
          else (info\<lparr>ti_synthetic := refused t, ti_err := te_text err, ti_err_class := te_class err,
                     ti_info := te_info err\<rparr>, True))"

text \<open>The armed send a settlement takes with the turn: one armed against another turn, or against one
  that failed.\<close>

definition settle_disarm :: "turn \<Rightarrow> bool \<Rightarrow> engine \<Rightarrow> event list \<times> engine" where
  "settle_disarm t failed e =
     (case e_armed e of
        None \<Rightarrow> ([], e)
      | Some a \<Rightarrow>
          if as_turn a \<noteq> t_id t then disarm_locked ''other_turn'' [] [] e
          else if failed then disarm_locked ''turn_failed'' [] [] e
          else ([], e))"

text \<open>The settlement of a turn that is neither parked nor restored, after its steers went back.\<close>

definition end_turn :: "turn \<Rightarrow> event list \<Rightarrow> engine \<Rightarrow> launch list \<times> engine" where
  "end_turn t batch e =
     (let (fence_ends, e1) = exit_fence_ends t e;
          (info, failed) = ending_of t e1;
          e2 = (remember_err t (e1\<lparr>e_cancelled := (ti_stop_reason info = stopCancelled)\<rparr>))\<lparr>e_cur := None\<rparr>;
          (disarm, e3) = settle_disarm t failed e2;
          since = e_activity_at e3;
          (chain, e4) =
            (if failed then
               (\<not> refused t, e3\<lparr>e_activity_at := e_now e3, e_activity := ActivityError, e_err := ti_err info\<rparr>)
             else
               (e_stopped e3 \<or> e_stop_non_end e3 \<and> ti_stop_reason info \<noteq> stopEndTurn,
                e3\<lparr>e_activity_at := e_now e3, e_activity := ActivityIdle\<rparr>));
          chain_clears = (chain \<or> fence_ends);
          (l, before, row_gone, e5) = next_locked (\<not> chain_clears) e4;
          next_id = (case l of None \<Rightarrow> [] | Some l' \<Rightarrow> l_turn l');
          (cleared, e6) = (if chain_clears then clear_rows [] e5 else ([], e5));
          e7 = (if l = None then e6 else e6\<lparr>e_activity_at := since\<rparr>);
          info' = info\<lparr>ti_next := next_id, ti_pending := pq_len (e_queue e7)\<rparr>
      in ((case l of None \<Rightarrow> [] | Some l' \<Rightarrow> [l']),
          enqueue (batch @ before @ cleared @ [stamp e7 (EvTurn info') (t_cause t)] @ disarm @ row_gone @
            (if l = None then [] else started_of_cur e7)) e7))"

definition settle_locked :: "turn \<Rightarrow> engine \<Rightarrow> launch list \<times> engine" where
  "settle_locked t e =
     (if e_retry_foreign e \<and> \<not> e_stopped e \<and> \<not> t_given_up t \<and> turn_is t ErrForeignTurn
      then ([], wake (e\<lparr>e_cur := Some (t\<lparr>t_retry := True\<rparr>)\<rparr>))
      else
        let (batch, e1) = return_steers (tr_unanswered (t_res t)) e in
        (case t_row t of
           Some row \<Rightarrow> if restores t e1 then restore_locked t row batch e1 else end_turn t batch e1
         | None \<Rightarrow> end_turn t batch e1))"

definition retry_locked :: "turn \<Rightarrow> engine \<Rightarrow> launch list \<times> engine" where
  "retry_locked t e =
     (if e_stopped e then
        (let t' = t\<lparr>t_retry := False\<rparr>; e1 = e\<lparr>e_cur := Some t'\<rparr> in
         if e_cancels e1 > 0 then ([], e1) else settle_locked t' e1)
      else if \<not> t_retry_due t \<or> e_cancels e > 0 then ([], e)
      else
        let (f, e1) = foreign_locked e in
        if f then ([], e1)
        else
          let t' = t\<lparr>t_retry := False, t_retry_due := False, t_returned := False\<rparr>;
              (l, e2) = launch_locked (t_id t) False (begin_call_on (t_text t) (e1\<lparr>e_cur := Some t'\<rparr>))
          in ([l], e2))"

definition pass_locked :: "engine \<Rightarrow> launch list \<times> engine" where
  "pass_locked e =
     (if e_closed e then ([], e)
      else case e_cur e of
        None \<Rightarrow> drain_locked e
      | Some t \<Rightarrow>
          if t_retry t then retry_locked t e
          else if t_returned t \<and> e_cancels e = 0 then settle_locked t e
          else ([], e))"

section \<open>The start, the replay and the close\<close>

definition retire_replay :: "engine \<Rightarrow> engine" where
  "retire_replay e = e\<lparr>e_replaying := False, e_replay_retired := True\<rparr>"

text \<open>\<open>Started\<close>; \<open>Some err\<close> is a start that failed. Every way out closes \<open>Ready\<close>.\<close>

definition started :: "turn_error option \<Rightarrow> engine \<Rightarrow> engine" where
  "started err e =
     (sync_fence
       (if e_closed e \<or> e_activity e \<noteq> ActivityStarting then e
        else
          let e1 = e\<lparr>e_activity_at := e_now e\<rparr> in
          case err of
            Some x \<Rightarrow>
              retire_replay (e1\<lparr>e_activity := ActivityError, e_start_failed := True, e_err := te_text x\<rparr>)
          | None \<Rightarrow> e1\<lparr>e_activity := ActivityIdle\<rparr>))\<lparr>e_ready := True\<rparr>"

text \<open>The section of \<open>Close\<close>, which \<open>closeOnce\<close> runs at most once.\<close>

definition close_section :: "engine \<Rightarrow> engine" where
  "close_section e =
     (if e_closed e then e
      else
        let e1 = raise_fence (e\<lparr>e_closed := True, e_activity := ActivityClosing, e_activity_at := e_now e\<rparr>);
            (batch, e2) =
              (case e_cur e1 of
                 None \<Rightarrow> ([], e1)
               | Some t \<Rightarrow>
                   ([stamp e1 (EvTurn ((turn_info_of (t_id t) TurnEnded)\<lparr>ti_synthetic := True,
                        ti_stop_reason := stopClosing, ti_pending := pq_len (e_queue e1),
                        ti_cause := e_close_cause e1\<rparr>)) (t_cause t)],
                    e1\<lparr>e_cur := None\<rparr>));
            (disarm, e3) = disarm_locked ''closing'' [] [] e2
        in (enqueue (batch @ disarm) e3)\<lparr>e_ready := True\<rparr>)"

text \<open>\<open>CloseFor\<close>'s own section, which precedes the close.\<close>

definition close_for :: "string \<Rightarrow> engine \<Rightarrow> engine" where
  "close_for cause e = (if \<not> e_closed e \<and> e_close_cause e = [] then e\<lparr>e_close_cause := cause\<rparr> else e)"

section \<open>Admission\<close>

definition admit_locked :: "engine \<Rightarrow> go_error option \<times> engine" where
  "admit_locked e =
     (case refusal e of Some err \<Rightarrow> (Some err, e) | None \<Rightarrow> (None, e\<lparr>e_admitting := e_admitting e + 1\<rparr>))"

definition admitted :: "engine \<Rightarrow> engine" where
  "admitted e = e\<lparr>e_admitting := e_admitting e - 1\<rparr>"

text \<open>\<open>admitText\<close>: \<open>admit_prompt\<close> is the session's \<open>PromptAdmitter\<close>, \<open>None\<close> for a session without
  one.\<close>

definition admit_text :: "(string \<Rightarrow> string) option \<Rightarrow> string \<Rightarrow> engine \<Rightarrow> go_error + string" where
  "admit_text admit_prompt prompt e =
     (case admit_prompt of
        None \<Rightarrow> Inr prompt
      | Some f \<Rightarrow> (case refusal e of Some err \<Rightarrow> Inl err | None \<Rightarrow> Inr (f prompt)))"

definition queue_go_error :: "queue_error \<Rightarrow> go_error" where
  "queue_go_error err =
     (case err of QueueFull \<Rightarrow> [ErrQueueFull] | QueueTextTooLong \<Rightarrow> [ErrQueueTextTooLong]
      | NoQueuedMessage _ \<Rightarrow> [])"

section \<open>Cancels\<close>

text \<open>What the first stop does in \<open>holdCancelLocked\<close>: no admission from here, the queue cleared, the
  armed send gone with it.\<close>

definition stop_locked :: "string \<Rightarrow> engine \<Rightarrow> engine" where
  "stop_locked cause e =
     (let (cleared, e1) = clear_rows [] (e\<lparr>e_stopped := True\<rparr>);
          (disarm, e2) = disarm_locked ''stopped'' cause [] e1
      in enqueue (cleared @ disarm) e2)"

text \<open>The hold itself: the current turn is marked, the count raised.\<close>

definition take_hold :: "engine \<Rightarrow> engine" where
  "take_hold e = e\<lparr>e_cur := map_option (t_cancel_asked_update (\<lambda>_. True)) (e_cur e), e_cancels := e_cancels e + 1\<rparr>"

text \<open>\<open>holdCancelLocked\<close>: the id the cancel is held against.\<close>

definition hold_cancel_locked ::
  "string \<Rightarrow> bool \<Rightarrow> nat \<Rightarrow> string \<Rightarrow> engine \<Rightarrow> (go_error + string) \<times> engine" where
  "hold_cancel_locked turn stop asks cause e0 =
     (let e = raise_fence e0 in
      if e_closed e then (Inl [ErrNotAccepting], e)
      else
        let tid = (case e_cur e of None \<Rightarrow> [] | Some t \<Rightarrow> t_id t) in
        if turn \<noteq> [] \<and> turn \<noteq> tid then (Inl [ErrStaleTurn], e)
        else
          let (nothing, e1) =
            (if \<not> stop \<and> tid = [] \<and> asks = 0
             then (let (f, e') = foreign_locked e in (\<not> f, e')) else (False, e)) in
          if nothing then (Inl [ErrNotAccepting], e1)
          else
            let e2 = (if stop \<and> \<not> e_stopped e1 then stop_locked cause e1 else e1)
            in (Inr tid, take_hold e2))"

definition hold_cancel ::
  "string \<Rightarrow> bool \<Rightarrow> nat \<Rightarrow> string \<Rightarrow> engine \<Rightarrow> (go_error + string) \<times> engine" where
  "hold_cancel turn stop asks cause e =
     (let (r, e1) = hold_cancel_locked turn stop asks cause (raise_fence e) in (r, sync_fence e1))"

text \<open>What the release of a failed cancel's hold says: the disarm it owes, or, for a cancel of the
  engine's own, a delta with the failure and no section.\<close>

definition release_failure :: "string \<Rightarrow> string \<Rightarrow> string option \<Rightarrow> bool \<Rightarrow> engine \<Rightarrow> bool \<times> engine" where
  "release_failure held cause cancel_err own e =
     (case cancel_err of
        None \<Rightarrow> (False, e)
      | Some detail \<Rightarrow>
          if (case e_armed e of None \<Rightarrow> False | Some a \<Rightarrow> as_turn a = held) then
            (let (ev, e1) = disarm_locked ''cancel_failed'' cause detail e in (True, enqueue ev e1))
          else if own then (True, enqueue [stamp e (EvMeta None ''cancel_failed'' detail) cause] e)
          else (False, e))"

text \<open>\<open>releaseHold\<close>: what it reports (settled, reported), the continuations its pass claimed.
  \<open>wire_settled\<close> is \<open>CancelOutcome.Settled\<close>.\<close>

definition release_hold ::
  "string \<Rightarrow> string \<Rightarrow> bool \<Rightarrow> string option \<Rightarrow> bool \<Rightarrow> engine \<Rightarrow> (bool \<times> bool) \<times> launch list \<times> engine" where
  "release_hold held cause wire_settled cancel_err own e =
     (let e1 = raise_fence e;
          (reported, e2) = release_failure held cause cancel_err own (e1\<lparr>e_cancels := e_cancels e1 - 1\<rparr>);
          (next, e3) = pass_locked e2;
          settled = (held = [] \<and> wire_settled \<or>
                     held \<noteq> [] \<and> (case e_cur e3 of None \<Rightarrow> True | Some t \<Rightarrow> t_id t \<noteq> held))
      in ((settled, reported), next, sync_fence e3))"

datatype cancel_outcome = CancelRequested | CancelSettled | CancelUnknown

record cancel_result =
  cr_outcome :: cancel_outcome
  cr_turn :: string
  cr_reported :: bool

definition cancel_held_result :: "string \<Rightarrow> string option \<Rightarrow> bool \<times> bool \<Rightarrow> cancel_result" where
  "cancel_held_result held cancel_err r =
     \<lparr>cr_outcome = (if cancel_err \<noteq> None then CancelUnknown
                    else if fst r then CancelSettled else CancelRequested),
      cr_turn = held, cr_reported = snd r\<rparr>"

section \<open>Submit\<close>

datatype submit_mode = SubmitQueue | SubmitSendNow

record submit_result =
  sr_turn :: string
  sr_text :: string
  sr_queued :: "queued_prompt option"
  sr_armed :: bool

definition submit_none :: submit_result where
  "submit_none = \<lparr>sr_turn = [], sr_text = [], sr_queued = None, sr_armed = False\<rparr>"

text \<open>\<open>armLocked\<close>: the result and, for an arm made, the turn to cancel.\<close>

definition arm_locked ::
  "string \<Rightarrow> string \<Rightarrow> string \<Rightarrow> engine \<Rightarrow> (go_error + submit_result \<times> string) \<times> engine" where
  "arm_locked cause prompt from e =
     (case e_cur e of
        None \<Rightarrow> (Inl [ErrNotAccepting], e)
      | Some t \<Rightarrow>
          if t_retry t then (Inl [ErrForeignTurn], e)
          else if from \<noteq> [] \<and> row_locked from e = None then (Inl [ErrUnknownRow], e)
          else
            (case hold_cancel_locked (t_id t) False 0 cause e of
               (Inl err, e1) \<Rightarrow> (Inl err, e1)
             | (Inr tid, e1) \<Rightarrow>
                 (Inr (submit_none\<lparr>sr_armed := True\<rparr>, tid),
                  enqueue
                    [stamp e1 (EvMeta (Some \<lparr>sn_armed = True, sn_text = prompt, sn_from_row = from,
                       sn_turn = t_id t\<rparr>) [] []) cause]
                    (e1\<lparr>e_armed := Some \<lparr>as_text = prompt, as_from = from, as_turn = t_id t, as_cause = cause\<rparr>\<rparr>))))"

text \<open>\<open>reserveLocked\<close>: claim, then take the row the text came from, then one batch with the row's
  removal ahead of the turn's started. The row is noted on the turn, and the exit fence told.\<close>

definition reserve_locked ::
  "string \<Rightarrow> string \<Rightarrow> string \<Rightarrow> queued_prompt option \<Rightarrow> engine \<Rightarrow> launch \<times> engine" where
  "reserve_locked prompt origin cause from e =
     (let (l, e1) = claim_locked prompt origin cause e;
          (before, e2) = (case from of None \<Rightarrow> ([], e1) | Some row \<Rightarrow> take_row (qp_id row) cause e1);
          e3 = enqueue (before @ started_of_cur e2) e2
      in (l, case from of None \<Rightarrow> e3 | Some row \<Rightarrow> set_row row e3))"

text \<open>What a submit starts with: the row it names, which has to be there, or its own text.\<close>

definition submit_source :: "string \<Rightarrow> string \<Rightarrow> engine \<Rightarrow> go_error + (string \<times> queued_prompt option)" where
  "submit_source prompt from e =
     (if from = [] then Inr (prompt, None)
      else case row_locked from e of
        None \<Rightarrow> Inl [ErrUnknownRow]
      | Some row \<Rightarrow> Inr (qp_text row, Some row))"

definition submit_start ::
  "string \<Rightarrow> string \<Rightarrow> submit_mode \<Rightarrow> string \<Rightarrow> bool \<Rightarrow> engine \<Rightarrow> (go_error + submit_result) \<times> launch list \<times> engine" where
  "submit_start cause prompt mode from fence e =
     (case submit_source prompt from e of
        Inl err \<Rightarrow> (Inl err, [], e)
      | Inr (source, row) \<Rightarrow>
          let (l, e1) = reserve_locked source
                (if mode = SubmitSendNow then TurnOriginSendNow else TurnOriginSubmit) cause row e;
              e2 = (if fence
                    then e1\<lparr>e_exit_fence := Some \<lparr>xf_row = [], xf_turn = l_turn l, xf_ended = False\<rparr>\<rparr>
                    else e1)
          in (Inr (submit_none\<lparr>sr_turn := l_turn l, sr_text := source\<rparr>), [l], e2))"

definition submit_queue ::
  "string \<Rightarrow> string \<Rightarrow> string \<Rightarrow> bool \<Rightarrow> engine \<Rightarrow> (go_error + submit_result) \<times> engine" where
  "submit_queue cause prompt from fence e =
     (if from \<noteq> [] then
        (case row_locked from e of
           None \<Rightarrow> (Inl [ErrUnknownRow], e)
         | Some row \<Rightarrow> (Inr (submit_none\<lparr>sr_queued := Some row\<rparr>), e))
      else
        (case pq_add prompt (e_now e) (e_queue e) of
           Inl err \<Rightarrow> (Inl (queue_go_error err), e)
         | Inr (row, qev, q) \<Rightarrow>
             let e1 = enqueue [stamp e (EvQueue qev) cause] (e\<lparr>e_queue := q\<rparr>);
                 e2 = (if fence
                       then e1\<lparr>e_exit_fence := Some \<lparr>xf_row = qp_id row, xf_turn = [], xf_ended = False\<rparr>\<rparr>
                       else e1)
             in (Inr (submit_none\<lparr>sr_queued := Some row\<rparr>), e2)))"

text \<open>The gates of \<open>submit\<close> ahead of its decision: \<open>Some\<close> is the refusal. A command past the first is
  counted in flight (\<open>e_admitting\<close>) until \<open>admitted\<close>, whatever the later ones say.\<close>

definition submit_gates :: "submit_mode \<Rightarrow> string \<Rightarrow> engine \<Rightarrow> go_error option \<times> engine" where
  "submit_gates mode from e =
     (case admit_locked e of
        (Some err, e1) \<Rightarrow> (Some err, e1)
      | (None, e1) \<Rightarrow>
          (case exit_fence_refusal from e1 of
             Some err \<Rightarrow> (Some err, e1)
           | None \<Rightarrow>
               if \<not> e_room e1 then (Some [ErrUnavailable], e1)
               else if mode = SubmitSendNow then
                 (if e_armed e1 \<noteq> None then (Some [ErrAlreadyPending], e1)
                  else
                    let (f, e2) = foreign_locked e1 in
                    (if f then Some [ErrForeignTurn] else None, e2))
               else (None, e1)))"

text \<open>\<open>submit\<close>: the answer, the turn to cancel for an armed send (\<open>[]\<close> for none), the continuations.\<close>

definition submit ::
  "string \<Rightarrow> string \<Rightarrow> submit_mode \<Rightarrow> string \<Rightarrow> bool \<Rightarrow> engine \<Rightarrow>
     (go_error + submit_result) \<times> string \<times> launch list \<times> engine" where
  "submit cause prompt mode from fence e =
     (let (gate, e1) = submit_gates mode from (raise_fence e) in
      case gate of
        Some err \<Rightarrow> (Inl err, [], [], sync_fence e1)
      | None \<Rightarrow>
          let (start, e2) = can_submit e1 in
          if start then
            (let (r, ls, e3) = submit_start cause prompt mode from fence e2 in (r, [], ls, sync_fence e3))
          else if mode = SubmitSendNow then
            (case arm_locked cause prompt from e2 of
               (Inl err, e3) \<Rightarrow> (Inl err, [], [], sync_fence e3)
             | (Inr (r, tid), e3) \<Rightarrow> (Inr r, tid, [], sync_fence e3))
          else
            (let (r, e3) = submit_queue cause prompt from fence e2 in (r, [], [], sync_fence e3)))"

text \<open>\<open>Interject\<close>'s own section: the refusal, or the admission counted in flight until the session's
  call has returned.\<close>

definition interject_gate :: "engine \<Rightarrow> go_error option \<times> engine" where
  "interject_gate e =
     (case refusal e of
        Some err \<Rightarrow> (Some err, e)
      | None \<Rightarrow>
          (case exit_fence_refusal [] e of
             Some err \<Rightarrow> (Some err, e)
           | None \<Rightarrow> admit_locked e))"

section \<open>The queue verbs\<close>

definition queue_verb :: "string \<Rightarrow> string \<Rightarrow> engine \<Rightarrow> (go_error + queued_prompt) \<times> engine" where
  "queue_verb cause prompt e =
     (case refusal e of
        Some err \<Rightarrow> (Inl err, sync_fence e)
      | None \<Rightarrow>
          (case exit_fence_refusal [] e of
             Some err \<Rightarrow> (Inl err, sync_fence e)
           | None \<Rightarrow>
               if \<not> e_room e then (Inl [ErrUnavailable], sync_fence e)
               else
                 (case pq_add prompt (e_now e) (e_queue e) of
                    Inl err \<Rightarrow> (Inl (queue_go_error err), sync_fence e)
                  | Inr (row, qev, q) \<Rightarrow>
                      (Inr row, sync_fence (enqueue [stamp e (EvQueue qev) cause] (e\<lparr>e_queue := q\<rparr>))))))"

definition edit_queued ::
  "string \<Rightarrow> string \<Rightarrow> string \<Rightarrow> nat option \<Rightarrow> engine \<Rightarrow> go_error option \<times> engine" where
  "edit_queued cause rid prompt expected e =
     (case refusal e of
        Some err \<Rightarrow> (Some err, sync_fence e)
      | None \<Rightarrow>
          if \<not> e_room e then (Some [ErrUnavailable], sync_fence e)
          else
            (case row_locked rid e of
               None \<Rightarrow> (Some [ErrUnknownRow], sync_fence e)
             | Some row \<Rightarrow>
                 if (case expected of None \<Rightarrow> False | Some v \<Rightarrow> v \<noteq> qp_version row)
                 then (Some [ErrStaleVersion], sync_fence e)
                 else
                   (case pq_edit rid prompt (e_queue e) of
                      Inl err \<Rightarrow> (Some (queue_go_error err), sync_fence e)
                    | Inr (qev, q) \<Rightarrow>
                        (None, sync_fence (enqueue [stamp e (EvQueue qev) cause] (e\<lparr>e_queue := q\<rparr>))))))"

definition unqueue :: "string \<Rightarrow> string \<Rightarrow> engine \<Rightarrow> (go_error + queued_prompt) \<times> engine" where
  "unqueue cause rid e =
     (case refusal e of
        Some err \<Rightarrow> (Inl err, sync_fence e)
      | None \<Rightarrow>
          if \<not> e_room e then (Inl [ErrUnavailable], sync_fence e)
          else
            (case pq_remove rid (e_queue e) of
               None \<Rightarrow> (Inl [ErrUnknownRow], sync_fence e)
             | Some (qev, q) \<Rightarrow>
                 (Inr (qe_prompt qev), sync_fence (enqueue [stamp e (EvQueue qev) cause] (e\<lparr>e_queue := q\<rparr>)))))"

definition clear_queue :: "string \<Rightarrow> engine \<Rightarrow> (go_error + queued_prompt list) \<times> engine" where
  "clear_queue cause e =
     (case refusal e of
        Some err \<Rightarrow> (Inl err, sync_fence e)
      | None \<Rightarrow>
          if \<not> e_room e then (Inl [ErrUnavailable], sync_fence e)
          else
            (let (cleared, e1) = clear_rows cause e
             in (Inr (map qe_prompt (fst (pq_clear (e_queue e)))), sync_fence (enqueue cleared e1))))"

definition disarm :: "string \<Rightarrow> engine \<Rightarrow> go_error option \<times> engine" where
  "disarm cause e =
     (case refusal e of
        Some err \<Rightarrow> (Some err, e)
      | None \<Rightarrow>
          if \<not> e_room e then (Some [ErrUnavailable], e)
          else if e_armed e = None then (Some [ErrNotAccepting], e)
          else (let (ev, e1) = disarm_locked ''withdrawn'' cause [] e in (None, enqueue ev e1)))"

section \<open>Continuations and the driver\<close>

text \<open>The section of \<open>runTurn\<close> after the continuation came back: the turn is marked where it is still
  the current one (a turn \<open>Close\<close> ended is reachable from nothing), its count is given back.\<close>

definition turn_returned :: "string \<Rightarrow> turn_result \<Rightarrow> turn_error option \<Rightarrow> engine \<Rightarrow> launch list \<times> engine" where
  "turn_returned tid res err e =
     (let e1 = raise_fence (e\<lparr>e_out := remove1 tid (e_out e)\<rparr>);
          e2 = (case e_cur e1 of
                  None \<Rightarrow> e1
                | Some t \<Rightarrow>
                    if t_id t = tid
                    then e1\<lparr>e_cur := Some (t\<lparr>t_res := res, t_err := err, t_returned := True\<rparr>)\<rparr> else e1);
          (next, e3) = pass_locked e2
      in (next, sync_fence e3))"

datatype wakeup = WakeKick | WakeRearm | WakeTick

text \<open>One round of \<open>drive\<close>'s loop for the channel that was ready. \<open>arm()\<close> sets \<open>e_tick\<close>; a pass
  clears it and arms it again while a claim waits or a recheck is owed.\<close>

definition drive_due :: "bool \<Rightarrow> engine \<Rightarrow> engine" where
  "drive_due ticked e =
     (if ticked
      then e\<lparr>e_cur := map_option (\<lambda>t. if t_retry t then t\<lparr>t_retry_due := True\<rparr> else t) (e_cur e),
             e_recheck := False\<rparr>
      else e)"

definition drive_again :: "engine \<Rightarrow> bool" where
  "drive_again e \<longleftrightarrow> (case e_cur e of None \<Rightarrow> False | Some t \<Rightarrow> t_retry t) \<or> e_recheck e"

definition drive_pass :: "bool \<Rightarrow> engine \<Rightarrow> launch list \<times> engine" where
  "drive_pass ticked e =
     (let (next, e1) = pass_locked (drive_due ticked (raise_fence e));
          again = drive_again e1
      in (next, (sync_fence e1)\<lparr>e_tick := again\<rparr>))"

definition drive :: "wakeup \<Rightarrow> engine \<Rightarrow> launch list \<times> engine" where
  "drive w e =
     (case w of
        WakeKick \<Rightarrow> if e_kick e then drive_pass False (e\<lparr>e_kick := False\<rparr>) else ([], e)
      | WakeRearm \<Rightarrow> if e_rearm e then ([], e\<lparr>e_rearm := False, e_tick := True\<rparr>) else ([], e)
      | WakeTick \<Rightarrow> if e_tick e then drive_pass True e else ([], e))"

definition give_up :: "string \<Rightarrow> engine \<Rightarrow> go_error option \<times> launch list \<times> engine" where
  "give_up turn e0 =
     (let e = raise_fence e0 in
      if e_closed e then (Some [ErrNotAccepting], [], sync_fence e)
      else
        (case e_cur e of
           None \<Rightarrow> (Some [ErrStaleTurn], [], sync_fence e)
         | Some t \<Rightarrow>
             if turn = [] \<or> t_id t \<noteq> turn then (Some [ErrStaleTurn], [], sync_fence e)
             else if \<not> t_retry t then (Some [ErrNotAccepting], [], sync_fence e)
             else
               let t' = t\<lparr>t_given_up := True, t_retry := False, t_retry_due := False\<rparr>;
                   e1 = e\<lparr>e_cur := Some t'\<rparr>
               in if e_cancels e1 > 0 then (None, [], sync_fence e1)
                  else (let (ls, e2) = settle_locked t' e1 in (None, ls, sync_fence e2))))"

text \<open>\<open>GiveUpDrain\<close>: the current turn's id, or \<open>[]\<close> and the rows left.\<close>

definition give_up_drain :: "engine \<Rightarrow> (go_error + string \<times> nat) \<times> launch list \<times> engine" where
  "give_up_drain e0 =
     (let e = raise_fence e0 in
      if e_closed e then (Inl [ErrNotAccepting], [], sync_fence e)
      else if e_close_fences e > 0 \<and> e_cur e = None then (Inl [ErrClosing], [], sync_fence e)
      else
        let (ls, e1) = (if e_cur e = None then pass_locked e else ([], e)) in
        (case e_cur e1 of
           Some t \<Rightarrow> (Inr (t_id t, 0), ls, sync_fence e1)
         | None \<Rightarrow>
             let e2 = e1\<lparr>e_stopped := True\<rparr>;
                 (ev, e3) = disarm_locked ''stopped'' [] [] e2
             in (Inr ([], pq_len (e_queue e2)), ls, sync_fence (enqueue ev e3))))"

section \<open>The close fence\<close>

record busy_facts =
  bf_work :: bool
  bf_waits :: bool
  bf_asks_do_not_pin :: bool
  bf_nothing_starts :: bool

definition busy_facts_locked :: "engine \<Rightarrow> busy_facts" where
  "busy_facts_locked e =
     \<lparr>bf_work =
        (if e_closed e then True
         else if e_activity e = ActivityStarting \<or> e_activity e = ActivityClosing then True
         else if e_replaying e then True
         else if e_cancels e > 0 then True
         else if e_sets e > 0 \<or> e_set_running e then True
         else e_admitting e > 0),
      bf_waits = (e_activity e = ActivityWorking \<or> e_cur e \<noteq> None \<or> e_armed e \<noteq> None \<or> pq_len (e_queue e) > 0),
      bf_asks_do_not_pin = (e_asks_do_not_pin e \<or> e_exit_fence e \<noteq> None),
      bf_nothing_starts = exit_fence_ended e\<rparr>"

text \<open>The verdict with the facts from outside: how many asks are open, whether each sub-agent runs,
  and whether the session owes work outside any turn.\<close>

definition busy_elsewhere :: "nat \<Rightarrow> bool list \<Rightarrow> bool" where
  "busy_elsewhere asks running \<longleftrightarrow> asks > 0 \<or> list_ex (\<lambda>r. r) running"

definition busy :: "busy_facts \<Rightarrow> nat \<Rightarrow> bool list \<Rightarrow> bool" where
  "busy f asks running =
     (if bf_work f then True
      else if bf_asks_do_not_pin f \<and> asks > 0 then False
      else bf_waits f \<or> busy_elsewhere asks running)"

definition owed_counts :: "busy_facts \<Rightarrow> nat \<Rightarrow> bool" where
  "owed_counts f asks \<longleftrightarrow> \<not> bf_nothing_starts f \<and> (\<not> bf_asks_do_not_pin f \<or> asks = 0)"

definition close_fence_up :: "engine \<Rightarrow> busy_facts \<times> engine" where
  "close_fence_up e =
     (let e1 = raise_fence e;
          e2 = e1\<lparr>e_close_fences := e_close_fences e1 + 1\<rparr>;
          facts = busy_facts_locked e2;
          (f, e3) = (if bf_waits facts then (True, e2) else foreign_locked e2)
      in (facts\<lparr>bf_waits := f\<rparr>, sync_fence e3))"

definition fence_close :: "nat \<Rightarrow> bool list \<Rightarrow> bool \<Rightarrow> engine \<Rightarrow> bool \<times> engine" where
  "fence_close asks running owes e =
     (let (facts, e1) = close_fence_up e
      in (busy facts asks running \<or> owed_counts facts asks \<and> owes, e1))"

definition busy_sample :: "nat \<Rightarrow> bool list \<Rightarrow> bool \<Rightarrow> bool \<Rightarrow> engine \<Rightarrow> bool" where
  "busy_sample asks running owes foreign e =
     (let f = busy_facts_locked e; facts = f\<lparr>bf_waits := bf_waits f \<or> foreign\<rparr>
      in busy facts asks running \<or> owed_counts facts asks \<and> owes)"

definition release_close_fence :: "engine \<Rightarrow> engine" where
  "release_close_fence e =
     (let e1 = e\<lparr>e_close_fences := e_close_fences e - 1\<rparr> in
      sync_fence
        (if e_close_fences e1 = 0 \<and> e_pass_held e1 then wake (e1\<lparr>e_pass_held := False\<rparr>) else e1))"

section \<open>The observer\<close>

text \<open>\<open>turnEnding\<close>: whether the event starts a turn, and the ending it is. \<open>wall\<close> is \<open>time.Now()\<close>, for
  an event that carries no time.\<close>

definition turn_ending :: "int \<Rightarrow> event \<Rightarrow> bool \<times> last_turn option" where
  "turn_ending wall ev =
     (if ev_replayed ev then (False, None)
      else
        let ended_at = (if ev_at ev = 0 then wall else ev_at ev) in
        case ev_body ev of
          EvTurn tu \<Rightarrow>
            (case ti_phase tu of
               TurnStarted \<Rightarrow> (True, None)
             | TurnEnded \<Rightarrow>
                 let lt = \<lparr>lt_outcome = TurnDone, lt_err = [], lt_stop_reason = ti_stop_reason tu,
                           lt_info = [], lt_cause = ti_cause tu, lt_withdrawn = False,
                           lt_ended_at = ended_at, lt_turn_id = ti_id tu\<rparr>
                 in (False, Some
                      (if ti_err tu \<noteq> []
                       then lt\<lparr>lt_outcome := TurnFailed, lt_err := ti_err tu, lt_info := ti_info tu\<rparr>
                       else if ti_stop_reason tu = stopCancelled \<or> ti_stop_reason tu = stopClosing
                       then lt\<lparr>lt_outcome := TurnCancelled,
                               lt_withdrawn := ti_synthetic tu \<and> ti_stop_reason tu = stopCancelled\<rparr>
                       else lt)))
        | EvForeign ft \<Rightarrow>
            if fi_running ft then (True, None)
            else (False, Some \<lparr>lt_outcome = TurnDone, lt_err = [], lt_stop_reason = [], lt_info = [],
                     lt_cause = [], lt_withdrawn = False, lt_ended_at = ended_at, lt_turn_id = fi_id ft\<rparr>)
        | _ \<Rightarrow> (False, None))"

definition observe :: "int \<Rightarrow> event \<Rightarrow> engine \<Rightarrow> engine" where
  "observe wall ev e =
     (if ev_agent ev \<noteq> [] then e
      else
        let (starts, ended) = turn_ending wall ev;
            e1 = (if starts \<or> ended \<noteq> None then e\<lparr>e_last_turn := ended\<rparr> else e)
        in (case ev_body ev of
              EvReplay phase \<Rightarrow>
                (let e2 = e1\<lparr>e_replaying := (phase = ReplayStart \<and> \<not> e_replay_retired e1)\<rparr>
                 in if phase = ReplayEnd then wake e2 else e2)
            | EvForeign ft \<Rightarrow> if \<not> fi_running ft then wake e1 else e1
            | _ \<Rightarrow> e1))"

section \<open>The state a client reads\<close>

record state_view =
  sv_queue :: "queued_prompt list"
  sv_activity :: activity
  sv_turn :: string
  sv_waiting :: bool
  sv_send_now :: "armed_send option"
  sv_err :: string
  sv_cancelled :: bool
  sv_prompted :: bool
  sv_start_failed :: bool
  sv_exit_fenced :: bool
  sv_last_turn :: "last_turn option"

definition state_of :: "engine \<Rightarrow> state_view" where
  "state_of e =
     \<lparr>sv_queue = pq_list (e_queue e),
      sv_activity =
        (if e_replaying e \<and> (e_activity e = ActivityStarting \<or> e_activity e = ActivityIdle)
         then ActivityReplaying else e_activity e),
      sv_turn = (case e_cur e of None \<Rightarrow> [] | Some t \<Rightarrow> t_id t),
      sv_waiting = (case e_cur e of None \<Rightarrow> False | Some t \<Rightarrow> t_retry t),
      sv_send_now = e_armed e, sv_err = e_err e, sv_cancelled = e_cancelled e,
      sv_prompted = e_prompted e, sv_start_failed = e_start_failed e,
      sv_exit_fenced = (e_exit_fence e \<noteq> None), sv_last_turn = e_last_turn e\<rparr>"

section \<open>The sections as one transition function\<close>

datatype engine_op =
    OpStarted "turn_error option"
  | OpSubmit string string submit_mode string bool
  | OpAdmitted
  | OpInterject
  | OpQueue string string
  | OpEdit string string string "nat option"
  | OpUnqueue string string
  | OpClear string
  | OpDisarm string
  | OpHold string bool nat string
  | OpRelease string string bool "string option" bool
  | OpReturned string turn_result "turn_error option"
  | OpDrive wakeup
  | OpGiveUp string
  | OpGiveUpDrain
  | OpCloseFence
  | OpReleaseCloseFence
  | OpObserve int event
  | OpSettings nat bool
  | OpCloseFor string
  | OpClose

fun engine_section :: "engine_op \<Rightarrow> engine \<Rightarrow> engine" where
  "engine_section (OpStarted err) e = started err e"
| "engine_section (OpSubmit cause prompt mode from fence) e =
     snd (snd (snd (submit cause prompt mode from fence e)))"
| "engine_section OpAdmitted e = admitted e"
| "engine_section OpInterject e = snd (interject_gate e)"
| "engine_section (OpQueue cause prompt) e = snd (queue_verb cause prompt e)"
| "engine_section (OpEdit cause rid prompt expected) e = snd (edit_queued cause rid prompt expected e)"
| "engine_section (OpUnqueue cause rid) e = snd (unqueue cause rid e)"
| "engine_section (OpClear cause) e = snd (clear_queue cause e)"
| "engine_section (OpDisarm cause) e = snd (disarm cause e)"
| "engine_section (OpHold turn stop asks cause) e = snd (hold_cancel turn stop asks cause e)"
| "engine_section (OpRelease held cause wire_settled cancel_err own) e =
     snd (snd (release_hold held cause wire_settled cancel_err own e))"
| "engine_section (OpReturned tid res err) e = snd (turn_returned tid res err e)"
| "engine_section (OpDrive w) e = snd (drive w e)"
| "engine_section (OpGiveUp turn) e = snd (snd (give_up turn e))"
| "engine_section OpGiveUpDrain e = snd (snd (give_up_drain e))"
| "engine_section OpCloseFence e = snd (close_fence_up e)"
| "engine_section OpReleaseCloseFence e = release_close_fence e"
| "engine_section (OpObserve wall ev) e = observe wall ev e"
| "engine_section (OpSettings sets running) e = e\<lparr>e_sets := sets, e_set_running := running\<rparr>"
| "engine_section (OpCloseFor cause) e = close_for cause e"
| "engine_section OpClose e = close_section e"

text \<open>A section as a step: what it is given from outside, and the events it enqueued.\<close>

fun engine_step :: "outside \<times> engine_op \<Rightarrow> engine \<Rightarrow> engine \<times> event list" where
  "engine_step (o', op') e =
     (let e' = engine_section op' (enter o' e) in (e', drop (length (e_log e)) (e_log e')))"

end
