(* ===== verification/Engine_Client.thy ===== *)
theory Engine_Client
  imports Engine
begin

text \<open>
  What the engine's events tell a client. \<open>client_view\<close> is what a client that folds the stream keeps of
  the engine (its queue, the running turn, the armed send), \<open>client_apply\<close> folds one event, \<open>view_of\<close>
  is what the engine really holds. Every critical section \<open>tells\<close> its clients: the events it enqueued
  turn the view of the state it began in into the view of the state it left. The sections are an
  \<open>event_source\<close>, so the law lifts to every sequence of them.

  \<^item> Frames: which fields of the state the fence, the gates and the small helpers leave alone.
  \<^item> \<open>queue_events\<close> and \<open>disarms\<close>: the laws of the two kinds of event a batch is made of.
  \<^item> \<open>section_says\<close>: the shape of what one section enqueues. An ending that names a next turn is followed
    by that turn's start, one that names none by no start, in the same section.
  \<^item> \<open>next_law\<close>, \<open>claimed\<close>: what \<open>nextLocked\<close> hands to a drain or a settlement.
  \<^item> One \<open>_tells\<close> lemma per section, collected by \<open>section_tells\<close>.
\<close>

section \<open>Frames\<close>

lemma raise_fence_frame [simp]:
  "e_retry_foreign (raise_fence e) = e_retry_foreign e"
  "e_stop_non_end (raise_fence e) = e_stop_non_end e"
  "e_asks_do_not_pin (raise_fence e) = e_asks_do_not_pin e"
  "e_fence (raise_fence e) = e_fence e" "e_activity (raise_fence e) = e_activity e"
  "e_activity_at (raise_fence e) = e_activity_at e" "e_cur (raise_fence e) = e_cur e"
  "e_settled (raise_fence e) = e_settled e" "e_settled_ids (raise_fence e) = e_settled_ids e"
  "e_turn_seq (raise_fence e) = e_turn_seq e" "e_queue (raise_fence e) = e_queue e"
  "e_armed (raise_fence e) = e_armed e" "e_cancels (raise_fence e) = e_cancels e"
  "e_stopped (raise_fence e) = e_stopped e" "e_closed (raise_fence e) = e_closed e"
  "e_close_cause (raise_fence e) = e_close_cause e"
  "e_prompted (raise_fence e) = e_prompted e" "e_cancelled (raise_fence e) = e_cancelled e"
  "e_err (raise_fence e) = e_err e" "e_start_failed (raise_fence e) = e_start_failed e"
  "e_drain_owed (raise_fence e) = e_drain_owed e"
  "e_saw_foreign (raise_fence e) = e_saw_foreign e"
  "e_exit_fence (raise_fence e) = e_exit_fence e" "e_recheck (raise_fence e) = e_recheck e"
  "e_close_fences (raise_fence e) = e_close_fences e"
  "e_pass_held (raise_fence e) = e_pass_held e" "e_sets (raise_fence e) = e_sets e"
  "e_set_running (raise_fence e) = e_set_running e"
  "e_admitting (raise_fence e) = e_admitting e" "e_replaying (raise_fence e) = e_replaying e"
  "e_replay_retired (raise_fence e) = e_replay_retired e"
  "e_last_turn (raise_fence e) = e_last_turn e" "e_ready (raise_fence e) = e_ready e"
  "e_kick (raise_fence e) = e_kick e" "e_rearm (raise_fence e) = e_rearm e"
  "e_tick (raise_fence e) = e_tick e" "e_out (raise_fence e) = e_out e"
  "e_now (raise_fence e) = e_now e" "e_reads (raise_fence e) = e_reads e"
  "e_room (raise_fence e) = e_room e" "e_log (raise_fence e) = e_log e"
  by (simp_all add: raise_fence_def)

lemma foreign_frame [simp]:
  "e_retry_foreign (snd (foreign_locked e)) = e_retry_foreign e"
  "e_stop_non_end (snd (foreign_locked e)) = e_stop_non_end e"
  "e_asks_do_not_pin (snd (foreign_locked e)) = e_asks_do_not_pin e"
  "e_fence (snd (foreign_locked e)) = e_fence e"
  "e_activity (snd (foreign_locked e)) = e_activity e"
  "e_activity_at (snd (foreign_locked e)) = e_activity_at e"
  "e_cur (snd (foreign_locked e)) = e_cur e"
  "e_settled (snd (foreign_locked e)) = e_settled e"
  "e_settled_ids (snd (foreign_locked e)) = e_settled_ids e"
  "e_turn_seq (snd (foreign_locked e)) = e_turn_seq e"
  "e_queue (snd (foreign_locked e)) = e_queue e"
  "e_armed (snd (foreign_locked e)) = e_armed e"
  "e_cancels (snd (foreign_locked e)) = e_cancels e"
  "e_stopped (snd (foreign_locked e)) = e_stopped e"
  "e_closed (snd (foreign_locked e)) = e_closed e"
  "e_close_cause (snd (foreign_locked e)) = e_close_cause e"
  "e_prompted (snd (foreign_locked e)) = e_prompted e"
  "e_cancelled (snd (foreign_locked e)) = e_cancelled e"
  "e_err (snd (foreign_locked e)) = e_err e"
  "e_start_failed (snd (foreign_locked e)) = e_start_failed e"
  "e_fenced (snd (foreign_locked e)) = e_fenced e"
  "e_drain_owed (snd (foreign_locked e)) = e_drain_owed e"
  "e_exit_fence (snd (foreign_locked e)) = e_exit_fence e"
  "e_recheck (snd (foreign_locked e)) = e_recheck e"
  "e_close_fences (snd (foreign_locked e)) = e_close_fences e"
  "e_pass_held (snd (foreign_locked e)) = e_pass_held e"
  "e_sets (snd (foreign_locked e)) = e_sets e"
  "e_set_running (snd (foreign_locked e)) = e_set_running e"
  "e_admitting (snd (foreign_locked e)) = e_admitting e"
  "e_replaying (snd (foreign_locked e)) = e_replaying e"
  "e_replay_retired (snd (foreign_locked e)) = e_replay_retired e"
  "e_last_turn (snd (foreign_locked e)) = e_last_turn e"
  "e_ready (snd (foreign_locked e)) = e_ready e" "e_kick (snd (foreign_locked e)) = e_kick e"
  "e_rearm (snd (foreign_locked e)) = e_rearm e" "e_tick (snd (foreign_locked e)) = e_tick e"
  "e_out (snd (foreign_locked e)) = e_out e" "e_now (snd (foreign_locked e)) = e_now e"
  "e_room (snd (foreign_locked e)) = e_room e" "e_log (snd (foreign_locked e)) = e_log e"
  "e_calls (snd (foreign_locked e)) = e_calls e"
  by (simp_all add: foreign_locked_def Let_def)

lemma can_start_frame [simp]:
  "e_retry_foreign (snd (can_start e)) = e_retry_foreign e"
  "e_stop_non_end (snd (can_start e)) = e_stop_non_end e"
  "e_asks_do_not_pin (snd (can_start e)) = e_asks_do_not_pin e"
  "e_fence (snd (can_start e)) = e_fence e" "e_activity (snd (can_start e)) = e_activity e"
  "e_activity_at (snd (can_start e)) = e_activity_at e" "e_cur (snd (can_start e)) = e_cur e"
  "e_settled (snd (can_start e)) = e_settled e"
  "e_settled_ids (snd (can_start e)) = e_settled_ids e"
  "e_turn_seq (snd (can_start e)) = e_turn_seq e" "e_queue (snd (can_start e)) = e_queue e"
  "e_armed (snd (can_start e)) = e_armed e" "e_cancels (snd (can_start e)) = e_cancels e"
  "e_stopped (snd (can_start e)) = e_stopped e" "e_closed (snd (can_start e)) = e_closed e"
  "e_close_cause (snd (can_start e)) = e_close_cause e"
  "e_prompted (snd (can_start e)) = e_prompted e"
  "e_cancelled (snd (can_start e)) = e_cancelled e" "e_err (snd (can_start e)) = e_err e"
  "e_start_failed (snd (can_start e)) = e_start_failed e"
  "e_fenced (snd (can_start e)) = e_fenced e"
  "e_drain_owed (snd (can_start e)) = e_drain_owed e"
  "e_exit_fence (snd (can_start e)) = e_exit_fence e"
  "e_recheck (snd (can_start e)) = e_recheck e"
  "e_close_fences (snd (can_start e)) = e_close_fences e"
  "e_pass_held (snd (can_start e)) = e_pass_held e" "e_sets (snd (can_start e)) = e_sets e"
  "e_set_running (snd (can_start e)) = e_set_running e"
  "e_admitting (snd (can_start e)) = e_admitting e"
  "e_replaying (snd (can_start e)) = e_replaying e"
  "e_replay_retired (snd (can_start e)) = e_replay_retired e"
  "e_last_turn (snd (can_start e)) = e_last_turn e" "e_ready (snd (can_start e)) = e_ready e"
  "e_kick (snd (can_start e)) = e_kick e" "e_rearm (snd (can_start e)) = e_rearm e"
  "e_tick (snd (can_start e)) = e_tick e" "e_out (snd (can_start e)) = e_out e"
  "e_now (snd (can_start e)) = e_now e" "e_room (snd (can_start e)) = e_room e"
  "e_log (snd (can_start e)) = e_log e" "e_calls (snd (can_start e)) = e_calls e"
  by (simp_all add: can_start_def split_beta Let_def)

lemma can_submit_frame [simp]:
  "e_retry_foreign (snd (can_submit e)) = e_retry_foreign e"
  "e_stop_non_end (snd (can_submit e)) = e_stop_non_end e"
  "e_asks_do_not_pin (snd (can_submit e)) = e_asks_do_not_pin e"
  "e_fence (snd (can_submit e)) = e_fence e" "e_activity (snd (can_submit e)) = e_activity e"
  "e_activity_at (snd (can_submit e)) = e_activity_at e"
  "e_cur (snd (can_submit e)) = e_cur e" "e_settled (snd (can_submit e)) = e_settled e"
  "e_settled_ids (snd (can_submit e)) = e_settled_ids e"
  "e_turn_seq (snd (can_submit e)) = e_turn_seq e" "e_queue (snd (can_submit e)) = e_queue e"
  "e_armed (snd (can_submit e)) = e_armed e" "e_cancels (snd (can_submit e)) = e_cancels e"
  "e_stopped (snd (can_submit e)) = e_stopped e" "e_closed (snd (can_submit e)) = e_closed e"
  "e_close_cause (snd (can_submit e)) = e_close_cause e"
  "e_prompted (snd (can_submit e)) = e_prompted e"
  "e_cancelled (snd (can_submit e)) = e_cancelled e" "e_err (snd (can_submit e)) = e_err e"
  "e_start_failed (snd (can_submit e)) = e_start_failed e"
  "e_fenced (snd (can_submit e)) = e_fenced e"
  "e_drain_owed (snd (can_submit e)) = e_drain_owed e"
  "e_exit_fence (snd (can_submit e)) = e_exit_fence e"
  "e_recheck (snd (can_submit e)) = e_recheck e"
  "e_close_fences (snd (can_submit e)) = e_close_fences e"
  "e_pass_held (snd (can_submit e)) = e_pass_held e" "e_sets (snd (can_submit e)) = e_sets e"
  "e_set_running (snd (can_submit e)) = e_set_running e"
  "e_admitting (snd (can_submit e)) = e_admitting e"
  "e_replaying (snd (can_submit e)) = e_replaying e"
  "e_replay_retired (snd (can_submit e)) = e_replay_retired e"
  "e_last_turn (snd (can_submit e)) = e_last_turn e"
  "e_ready (snd (can_submit e)) = e_ready e" "e_kick (snd (can_submit e)) = e_kick e"
  "e_rearm (snd (can_submit e)) = e_rearm e" "e_tick (snd (can_submit e)) = e_tick e"
  "e_out (snd (can_submit e)) = e_out e" "e_now (snd (can_submit e)) = e_now e"
  "e_room (snd (can_submit e)) = e_room e" "e_log (snd (can_submit e)) = e_log e"
  "e_calls (snd (can_submit e)) = e_calls e"
  by (simp_all add: can_submit_def)

lemma owed_drain_frame [simp]:
  "e_retry_foreign (owed_drain e) = e_retry_foreign e"
  "e_stop_non_end (owed_drain e) = e_stop_non_end e"
  "e_asks_do_not_pin (owed_drain e) = e_asks_do_not_pin e"
  "e_fence (owed_drain e) = e_fence e" "e_activity (owed_drain e) = e_activity e"
  "e_activity_at (owed_drain e) = e_activity_at e" "e_cur (owed_drain e) = e_cur e"
  "e_settled (owed_drain e) = e_settled e" "e_settled_ids (owed_drain e) = e_settled_ids e"
  "e_turn_seq (owed_drain e) = e_turn_seq e" "e_queue (owed_drain e) = e_queue e"
  "e_armed (owed_drain e) = e_armed e" "e_cancels (owed_drain e) = e_cancels e"
  "e_stopped (owed_drain e) = e_stopped e" "e_closed (owed_drain e) = e_closed e"
  "e_close_cause (owed_drain e) = e_close_cause e" "e_prompted (owed_drain e) = e_prompted e"
  "e_cancelled (owed_drain e) = e_cancelled e" "e_err (owed_drain e) = e_err e"
  "e_start_failed (owed_drain e) = e_start_failed e"
  "e_exit_fence (owed_drain e) = e_exit_fence e" "e_recheck (owed_drain e) = e_recheck e"
  "e_close_fences (owed_drain e) = e_close_fences e"
  "e_pass_held (owed_drain e) = e_pass_held e" "e_sets (owed_drain e) = e_sets e"
  "e_set_running (owed_drain e) = e_set_running e"
  "e_admitting (owed_drain e) = e_admitting e" "e_replaying (owed_drain e) = e_replaying e"
  "e_replay_retired (owed_drain e) = e_replay_retired e"
  "e_last_turn (owed_drain e) = e_last_turn e" "e_ready (owed_drain e) = e_ready e"
  "e_kick (owed_drain e) = e_kick e" "e_rearm (owed_drain e) = e_rearm e"
  "e_tick (owed_drain e) = e_tick e" "e_out (owed_drain e) = e_out e"
  "e_now (owed_drain e) = e_now e" "e_room (owed_drain e) = e_room e"
  "e_log (owed_drain e) = e_log e"
  by (simp_all add: owed_drain_def split_beta Let_def)

lemma exit_fence_lift_frame [simp]:
  "e_retry_foreign (exit_fence_lift e) = e_retry_foreign e"
  "e_stop_non_end (exit_fence_lift e) = e_stop_non_end e"
  "e_asks_do_not_pin (exit_fence_lift e) = e_asks_do_not_pin e"
  "e_fence (exit_fence_lift e) = e_fence e" "e_activity (exit_fence_lift e) = e_activity e"
  "e_activity_at (exit_fence_lift e) = e_activity_at e" "e_cur (exit_fence_lift e) = e_cur e"
  "e_settled (exit_fence_lift e) = e_settled e"
  "e_settled_ids (exit_fence_lift e) = e_settled_ids e"
  "e_turn_seq (exit_fence_lift e) = e_turn_seq e" "e_queue (exit_fence_lift e) = e_queue e"
  "e_armed (exit_fence_lift e) = e_armed e" "e_cancels (exit_fence_lift e) = e_cancels e"
  "e_stopped (exit_fence_lift e) = e_stopped e" "e_closed (exit_fence_lift e) = e_closed e"
  "e_close_cause (exit_fence_lift e) = e_close_cause e"
  "e_prompted (exit_fence_lift e) = e_prompted e"
  "e_cancelled (exit_fence_lift e) = e_cancelled e" "e_err (exit_fence_lift e) = e_err e"
  "e_start_failed (exit_fence_lift e) = e_start_failed e"
  "e_fenced (exit_fence_lift e) = e_fenced e"
  "e_drain_owed (exit_fence_lift e) = e_drain_owed e"
  "e_saw_foreign (exit_fence_lift e) = e_saw_foreign e"
  "e_recheck (exit_fence_lift e) = e_recheck e"
  "e_close_fences (exit_fence_lift e) = e_close_fences e"
  "e_pass_held (exit_fence_lift e) = e_pass_held e" "e_sets (exit_fence_lift e) = e_sets e"
  "e_set_running (exit_fence_lift e) = e_set_running e"
  "e_admitting (exit_fence_lift e) = e_admitting e"
  "e_replaying (exit_fence_lift e) = e_replaying e"
  "e_replay_retired (exit_fence_lift e) = e_replay_retired e"
  "e_last_turn (exit_fence_lift e) = e_last_turn e" "e_ready (exit_fence_lift e) = e_ready e"
  "e_kick (exit_fence_lift e) = e_kick e" "e_rearm (exit_fence_lift e) = e_rearm e"
  "e_tick (exit_fence_lift e) = e_tick e" "e_out (exit_fence_lift e) = e_out e"
  "e_now (exit_fence_lift e) = e_now e" "e_reads (exit_fence_lift e) = e_reads e"
  "e_room (exit_fence_lift e) = e_room e" "e_log (exit_fence_lift e) = e_log e"
  "e_calls (exit_fence_lift e) = e_calls e"
  by (simp_all add: exit_fence_lift_def split: option.split)

lemma sync_fence_frame [simp]:
  "e_retry_foreign (sync_fence e) = e_retry_foreign e"
  "e_stop_non_end (sync_fence e) = e_stop_non_end e"
  "e_asks_do_not_pin (sync_fence e) = e_asks_do_not_pin e"
  "e_fence (sync_fence e) = e_fence e" "e_activity (sync_fence e) = e_activity e"
  "e_activity_at (sync_fence e) = e_activity_at e" "e_cur (sync_fence e) = e_cur e"
  "e_settled (sync_fence e) = e_settled e" "e_settled_ids (sync_fence e) = e_settled_ids e"
  "e_turn_seq (sync_fence e) = e_turn_seq e" "e_queue (sync_fence e) = e_queue e"
  "e_armed (sync_fence e) = e_armed e" "e_cancels (sync_fence e) = e_cancels e"
  "e_stopped (sync_fence e) = e_stopped e" "e_closed (sync_fence e) = e_closed e"
  "e_close_cause (sync_fence e) = e_close_cause e" "e_prompted (sync_fence e) = e_prompted e"
  "e_cancelled (sync_fence e) = e_cancelled e" "e_err (sync_fence e) = e_err e"
  "e_start_failed (sync_fence e) = e_start_failed e" "e_recheck (sync_fence e) = e_recheck e"
  "e_close_fences (sync_fence e) = e_close_fences e"
  "e_pass_held (sync_fence e) = e_pass_held e" "e_sets (sync_fence e) = e_sets e"
  "e_set_running (sync_fence e) = e_set_running e"
  "e_admitting (sync_fence e) = e_admitting e" "e_replaying (sync_fence e) = e_replaying e"
  "e_replay_retired (sync_fence e) = e_replay_retired e"
  "e_last_turn (sync_fence e) = e_last_turn e" "e_ready (sync_fence e) = e_ready e"
  "e_kick (sync_fence e) = e_kick e" "e_rearm (sync_fence e) = e_rearm e"
  "e_tick (sync_fence e) = e_tick e" "e_out (sync_fence e) = e_out e"
  "e_now (sync_fence e) = e_now e" "e_room (sync_fence e) = e_room e"
  "e_log (sync_fence e) = e_log e"
  by (simp_all add: sync_fence_def Let_def)

lemma row_taken_frame [simp]:
  "e_retry_foreign (exit_fence_row_taken e) = e_retry_foreign e"
  "e_stop_non_end (exit_fence_row_taken e) = e_stop_non_end e"
  "e_asks_do_not_pin (exit_fence_row_taken e) = e_asks_do_not_pin e"
  "e_fence (exit_fence_row_taken e) = e_fence e"
  "e_activity (exit_fence_row_taken e) = e_activity e"
  "e_activity_at (exit_fence_row_taken e) = e_activity_at e"
  "e_cur (exit_fence_row_taken e) = e_cur e"
  "e_settled (exit_fence_row_taken e) = e_settled e"
  "e_settled_ids (exit_fence_row_taken e) = e_settled_ids e"
  "e_turn_seq (exit_fence_row_taken e) = e_turn_seq e"
  "e_queue (exit_fence_row_taken e) = e_queue e"
  "e_armed (exit_fence_row_taken e) = e_armed e"
  "e_cancels (exit_fence_row_taken e) = e_cancels e"
  "e_stopped (exit_fence_row_taken e) = e_stopped e"
  "e_closed (exit_fence_row_taken e) = e_closed e"
  "e_close_cause (exit_fence_row_taken e) = e_close_cause e"
  "e_prompted (exit_fence_row_taken e) = e_prompted e"
  "e_cancelled (exit_fence_row_taken e) = e_cancelled e"
  "e_err (exit_fence_row_taken e) = e_err e"
  "e_start_failed (exit_fence_row_taken e) = e_start_failed e"
  "e_fenced (exit_fence_row_taken e) = e_fenced e"
  "e_drain_owed (exit_fence_row_taken e) = e_drain_owed e"
  "e_saw_foreign (exit_fence_row_taken e) = e_saw_foreign e"
  "e_recheck (exit_fence_row_taken e) = e_recheck e"
  "e_close_fences (exit_fence_row_taken e) = e_close_fences e"
  "e_pass_held (exit_fence_row_taken e) = e_pass_held e"
  "e_sets (exit_fence_row_taken e) = e_sets e"
  "e_set_running (exit_fence_row_taken e) = e_set_running e"
  "e_admitting (exit_fence_row_taken e) = e_admitting e"
  "e_replaying (exit_fence_row_taken e) = e_replaying e"
  "e_replay_retired (exit_fence_row_taken e) = e_replay_retired e"
  "e_last_turn (exit_fence_row_taken e) = e_last_turn e"
  "e_ready (exit_fence_row_taken e) = e_ready e" "e_kick (exit_fence_row_taken e) = e_kick e"
  "e_rearm (exit_fence_row_taken e) = e_rearm e" "e_tick (exit_fence_row_taken e) = e_tick e"
  "e_out (exit_fence_row_taken e) = e_out e" "e_now (exit_fence_row_taken e) = e_now e"
  "e_reads (exit_fence_row_taken e) = e_reads e" "e_room (exit_fence_row_taken e) = e_room e"
  "e_log (exit_fence_row_taken e) = e_log e" "e_calls (exit_fence_row_taken e) = e_calls e"
  by (simp_all add: exit_fence_row_taken_def split: option.split)

lemma exit_fence_ends_frame [simp]:
  "e_retry_foreign (snd (exit_fence_ends t e)) = e_retry_foreign e"
  "e_stop_non_end (snd (exit_fence_ends t e)) = e_stop_non_end e"
  "e_asks_do_not_pin (snd (exit_fence_ends t e)) = e_asks_do_not_pin e"
  "e_fence (snd (exit_fence_ends t e)) = e_fence e"
  "e_activity (snd (exit_fence_ends t e)) = e_activity e"
  "e_activity_at (snd (exit_fence_ends t e)) = e_activity_at e"
  "e_cur (snd (exit_fence_ends t e)) = e_cur e"
  "e_settled (snd (exit_fence_ends t e)) = e_settled e"
  "e_settled_ids (snd (exit_fence_ends t e)) = e_settled_ids e"
  "e_turn_seq (snd (exit_fence_ends t e)) = e_turn_seq e"
  "e_queue (snd (exit_fence_ends t e)) = e_queue e"
  "e_armed (snd (exit_fence_ends t e)) = e_armed e"
  "e_cancels (snd (exit_fence_ends t e)) = e_cancels e"
  "e_stopped (snd (exit_fence_ends t e)) = e_stopped e"
  "e_closed (snd (exit_fence_ends t e)) = e_closed e"
  "e_close_cause (snd (exit_fence_ends t e)) = e_close_cause e"
  "e_prompted (snd (exit_fence_ends t e)) = e_prompted e"
  "e_cancelled (snd (exit_fence_ends t e)) = e_cancelled e"
  "e_err (snd (exit_fence_ends t e)) = e_err e"
  "e_start_failed (snd (exit_fence_ends t e)) = e_start_failed e"
  "e_fenced (snd (exit_fence_ends t e)) = e_fenced e"
  "e_drain_owed (snd (exit_fence_ends t e)) = e_drain_owed e"
  "e_saw_foreign (snd (exit_fence_ends t e)) = e_saw_foreign e"
  "e_recheck (snd (exit_fence_ends t e)) = e_recheck e"
  "e_close_fences (snd (exit_fence_ends t e)) = e_close_fences e"
  "e_pass_held (snd (exit_fence_ends t e)) = e_pass_held e"
  "e_sets (snd (exit_fence_ends t e)) = e_sets e"
  "e_set_running (snd (exit_fence_ends t e)) = e_set_running e"
  "e_admitting (snd (exit_fence_ends t e)) = e_admitting e"
  "e_replaying (snd (exit_fence_ends t e)) = e_replaying e"
  "e_replay_retired (snd (exit_fence_ends t e)) = e_replay_retired e"
  "e_last_turn (snd (exit_fence_ends t e)) = e_last_turn e"
  "e_ready (snd (exit_fence_ends t e)) = e_ready e"
  "e_kick (snd (exit_fence_ends t e)) = e_kick e"
  "e_rearm (snd (exit_fence_ends t e)) = e_rearm e"
  "e_tick (snd (exit_fence_ends t e)) = e_tick e"
  "e_out (snd (exit_fence_ends t e)) = e_out e" "e_now (snd (exit_fence_ends t e)) = e_now e"
  "e_reads (snd (exit_fence_ends t e)) = e_reads e"
  "e_room (snd (exit_fence_ends t e)) = e_room e"
  "e_log (snd (exit_fence_ends t e)) = e_log e"
  "e_calls (snd (exit_fence_ends t e)) = e_calls e"
  by (simp_all add: exit_fence_ends_def split: option.split)

lemma remember_err_frame [simp]:
  "e_retry_foreign (remember_err t e) = e_retry_foreign e"
  "e_stop_non_end (remember_err t e) = e_stop_non_end e"
  "e_asks_do_not_pin (remember_err t e) = e_asks_do_not_pin e"
  "e_fence (remember_err t e) = e_fence e" "e_activity (remember_err t e) = e_activity e"
  "e_activity_at (remember_err t e) = e_activity_at e" "e_cur (remember_err t e) = e_cur e"
  "e_turn_seq (remember_err t e) = e_turn_seq e" "e_queue (remember_err t e) = e_queue e"
  "e_armed (remember_err t e) = e_armed e" "e_cancels (remember_err t e) = e_cancels e"
  "e_stopped (remember_err t e) = e_stopped e" "e_closed (remember_err t e) = e_closed e"
  "e_close_cause (remember_err t e) = e_close_cause e"
  "e_prompted (remember_err t e) = e_prompted e"
  "e_cancelled (remember_err t e) = e_cancelled e" "e_err (remember_err t e) = e_err e"
  "e_start_failed (remember_err t e) = e_start_failed e"
  "e_fenced (remember_err t e) = e_fenced e"
  "e_drain_owed (remember_err t e) = e_drain_owed e"
  "e_saw_foreign (remember_err t e) = e_saw_foreign e"
  "e_exit_fence (remember_err t e) = e_exit_fence e"
  "e_recheck (remember_err t e) = e_recheck e"
  "e_close_fences (remember_err t e) = e_close_fences e"
  "e_pass_held (remember_err t e) = e_pass_held e" "e_sets (remember_err t e) = e_sets e"
  "e_set_running (remember_err t e) = e_set_running e"
  "e_admitting (remember_err t e) = e_admitting e"
  "e_replaying (remember_err t e) = e_replaying e"
  "e_replay_retired (remember_err t e) = e_replay_retired e"
  "e_last_turn (remember_err t e) = e_last_turn e" "e_ready (remember_err t e) = e_ready e"
  "e_kick (remember_err t e) = e_kick e" "e_rearm (remember_err t e) = e_rearm e"
  "e_tick (remember_err t e) = e_tick e" "e_out (remember_err t e) = e_out e"
  "e_now (remember_err t e) = e_now e" "e_reads (remember_err t e) = e_reads e"
  "e_room (remember_err t e) = e_room e" "e_log (remember_err t e) = e_log e"
  "e_calls (remember_err t e) = e_calls e"
  by (simp_all add: remember_err_def Let_def split: option.split)

lemma enqueue_frame [simp]:
  "e_retry_foreign (enqueue evs e) = e_retry_foreign e"
  "e_stop_non_end (enqueue evs e) = e_stop_non_end e"
  "e_asks_do_not_pin (enqueue evs e) = e_asks_do_not_pin e"
  "e_fence (enqueue evs e) = e_fence e" "e_activity (enqueue evs e) = e_activity e"
  "e_activity_at (enqueue evs e) = e_activity_at e" "e_cur (enqueue evs e) = e_cur e"
  "e_settled (enqueue evs e) = e_settled e" "e_settled_ids (enqueue evs e) = e_settled_ids e"
  "e_turn_seq (enqueue evs e) = e_turn_seq e" "e_queue (enqueue evs e) = e_queue e"
  "e_armed (enqueue evs e) = e_armed e" "e_cancels (enqueue evs e) = e_cancels e"
  "e_stopped (enqueue evs e) = e_stopped e" "e_closed (enqueue evs e) = e_closed e"
  "e_close_cause (enqueue evs e) = e_close_cause e"
  "e_prompted (enqueue evs e) = e_prompted e" "e_cancelled (enqueue evs e) = e_cancelled e"
  "e_err (enqueue evs e) = e_err e" "e_start_failed (enqueue evs e) = e_start_failed e"
  "e_fenced (enqueue evs e) = e_fenced e" "e_drain_owed (enqueue evs e) = e_drain_owed e"
  "e_saw_foreign (enqueue evs e) = e_saw_foreign e"
  "e_exit_fence (enqueue evs e) = e_exit_fence e" "e_recheck (enqueue evs e) = e_recheck e"
  "e_close_fences (enqueue evs e) = e_close_fences e"
  "e_pass_held (enqueue evs e) = e_pass_held e" "e_sets (enqueue evs e) = e_sets e"
  "e_set_running (enqueue evs e) = e_set_running e"
  "e_admitting (enqueue evs e) = e_admitting e" "e_replaying (enqueue evs e) = e_replaying e"
  "e_replay_retired (enqueue evs e) = e_replay_retired e"
  "e_last_turn (enqueue evs e) = e_last_turn e" "e_ready (enqueue evs e) = e_ready e"
  "e_kick (enqueue evs e) = e_kick e" "e_rearm (enqueue evs e) = e_rearm e"
  "e_tick (enqueue evs e) = e_tick e" "e_out (enqueue evs e) = e_out e"
  "e_now (enqueue evs e) = e_now e" "e_reads (enqueue evs e) = e_reads e"
  "e_room (enqueue evs e) = e_room e" "e_calls (enqueue evs e) = e_calls e"
  by (simp_all add: enqueue_def)


section \<open>What a client shows\<close>

text \<open>A client that folds the engine's events, and nothing else: its rows, the turn it shows as
  running, the send it shows as armed, the successor the last ending promised, how many turns it saw
  start. \<open>cv_ok\<close> stays true only while every event makes sense to it: a turn starts only when none
  is shown, is the next in number and, where the last ending named a successor, is that one; an ending
  names the turn shown and counts the rows shown; nothing comes between an ending and the start it
  promised but the disarm of a send.\<close>

record client_view =
  cv_rows :: "queued_prompt list"
  cv_turn :: "string option"
  cv_armed :: "(string \<times> string \<times> string) option"
  cv_next :: string
  cv_started :: nat
  cv_ok :: bool

definition client_turn :: "turn_info \<Rightarrow> client_view \<Rightarrow> client_view" where
  "client_turn ti v =
     (case ti_phase ti of
        TurnStarted \<Rightarrow>
          v\<lparr>cv_turn := Some (ti_id ti), cv_next := [], cv_started := Suc (cv_started v),
            cv_armed := (if ti_origin ti = TurnOriginSendNow then None else cv_armed v),
            cv_ok := (cv_ok v \<and> cv_turn v = None \<and> ti_id ti = turn_id (Suc (cv_started v)) \<and>
                      (cv_next v = [] \<or> cv_next v = ti_id ti))\<rparr>
      | TurnEnded \<Rightarrow>
          v\<lparr>cv_turn := None, cv_next := ti_next ti,
            cv_ok := (cv_ok v \<and> cv_turn v = Some (ti_id ti) \<and> ti_pending ti = length (cv_rows v))\<rparr>)"

definition client_apply :: "event \<Rightarrow> client_view \<Rightarrow> client_view" where
  "client_apply ev v =
     (case ev_body ev of
        EvQueue q \<Rightarrow> v\<lparr>cv_rows := fold_queue q (cv_rows v), cv_ok := (cv_ok v \<and> cv_next v = [])\<rparr>
      | EvTurn ti \<Rightarrow> client_turn ti v
      | EvMeta (Some sn) _ _ \<Rightarrow>
          v\<lparr>cv_armed := (if sn_armed sn then Some (sn_text sn, sn_from_row sn, sn_turn sn) else None)\<rparr>
      | _ \<Rightarrow> v)"

definition armed_view :: "armed_send \<Rightarrow> string \<times> string \<times> string" where
  "armed_view a = (as_text a, as_from a, as_turn a)"

definition view_of :: "engine \<Rightarrow> client_view" where
  "view_of e =
     \<lparr>cv_rows = pq_items (e_queue e), cv_turn = map_option t_id (e_cur e),
      cv_armed = map_option armed_view (e_armed e), cv_next = [], cv_started = e_turn_seq e,
      cv_ok = True\<rparr>"

section \<open>The invariant behind it\<close>

definition row_out :: "prompt_queue \<Rightarrow> queued_prompt \<Rightarrow> bool" where
  "row_out q row \<longleftrightarrow> minted q (qp_id row) \<and> qp_id row \<notin> qp_id ` set (pq_items q)"

definition cur_ok :: "engine \<Rightarrow> turn \<Rightarrow> bool" where
  "cur_ok e t \<longleftrightarrow> t_id t = turn_id (e_turn_seq e) \<and> (\<forall>row. t_row t = Some row \<longrightarrow> row_out (e_queue e) row)"

definition client_inv :: "engine \<Rightarrow> bool" where
  "client_inv e \<longleftrightarrow> pq_inv (e_queue e) \<and> (\<forall>t. e_cur e = Some t \<longrightarrow> cur_ok e t) \<and>
     (e_closed e \<longrightarrow> e_cur e = None)"

text \<open>The words a section may say. \<open>after_ending n\<close>: after an ending that named \<open>n\<close> nothing comes but the
  withdrawal of an armed send and, last of all, the start of \<open>n\<close>, which comes exactly when a successor
  was named. \<open>section_says\<close>: a section's events are the queue's and the armed send's, then at most one
  start or one ending, a start the last of them and an ending followed as \<open>after_ending\<close> says.\<close>

fun after_ending :: "string \<Rightarrow> event list \<Rightarrow> bool" where
  "after_ending n [] = (n = [])"
| "after_ending n (ev # evs) =
     (case ev_body ev of
        EvTurn ti \<Rightarrow> n \<noteq> [] \<and> ti_phase ti = TurnStarted \<and> ti_id ti = n \<and> evs = []
      | EvMeta (Some sn) _ _ \<Rightarrow> \<not> sn_armed sn \<and> after_ending n evs
      | _ \<Rightarrow> False)"

fun section_says :: "event list \<Rightarrow> bool" where
  "section_says [] = True"
| "section_says (ev # evs) =
     (case ev_body ev of
        EvTurn ti \<Rightarrow>
          (case ti_phase ti of
             TurnStarted \<Rightarrow> evs = []
           | TurnEnded \<Rightarrow> after_ending (ti_next ti) evs)
      | _ \<Rightarrow> section_says evs)"

definition turnless :: "event list \<Rightarrow> bool" where
  "turnless evs \<longleftrightarrow> (\<forall>ev \<in> set evs. case ev_body ev of EvTurn _ \<Rightarrow> False | _ \<Rightarrow> True)"

definition withdraws :: "event list \<Rightarrow> bool" where
  "withdraws evs \<longleftrightarrow>
     (\<forall>ev \<in> set evs. case ev_body ev of EvMeta (Some sn) _ _ \<Rightarrow> \<not> sn_armed sn | _ \<Rightarrow> False)"

lemma turnless_simps [simp]:
  "turnless []" "turnless (ev # evs) \<longleftrightarrow> (case ev_body ev of EvTurn _ \<Rightarrow> False | _ \<Rightarrow> True) \<and> turnless evs"
  "turnless (evs @ evs') \<longleftrightarrow> turnless evs \<and> turnless evs'"
  by (auto simp: turnless_def)

lemma withdraws_simps [simp]:
  "withdraws []" "withdraws (evs @ evs') \<longleftrightarrow> withdraws evs \<and> withdraws evs'"
  by (auto simp: withdraws_def)

lemma withdraws_turnless: "withdraws evs \<Longrightarrow> turnless evs"
  by (fastforce simp: withdraws_def turnless_def split: event_body.splits)

lemma section_says_turnless [simp]: "turnless evs \<Longrightarrow> section_says (evs @ evs') = section_says evs'"
  by (induction evs) (auto split: event_body.splits)

lemma section_says_turnlessI: "turnless evs \<Longrightarrow> section_says evs"
  using section_says_turnless [of evs "[]"] by simp

lemma after_ending_withdraws [simp]: "withdraws evs \<Longrightarrow> after_ending n (evs @ evs') = after_ending n evs'"
  by (induction evs) (auto simp: withdraws_def split: event_body.splits option.splits)

text \<open>A section tells its clients: it keeps the invariant, and the events it added turn what a client
  showed into what the engine now is.\<close>

definition tells :: "engine \<Rightarrow> engine \<Rightarrow> bool" where
  "tells e e' \<longleftrightarrow> client_inv e' \<and>
     (\<exists>evs. e_log e' = e_log e @ evs \<and> fold_events client_apply evs (view_of e) = view_of e')"

text \<open>What a section said, as a relation of its ends: \<open>hush\<close> for events that are no turn's, \<open>says\<close> for
  one that keeps to \<open>section_says\<close>.\<close>

definition hush :: "engine \<Rightarrow> engine \<Rightarrow> bool" where
  "hush e e' \<longleftrightarrow> (\<exists>evs. e_log e' = e_log e @ evs \<and> turnless evs)"

definition says :: "engine \<Rightarrow> engine \<Rightarrow> bool" where
  "says e e' \<longleftrightarrow> (\<exists>evs. e_log e' = e_log e @ evs \<and> section_says evs)"

lemma hush_frame: "e_log e' = e_log e \<Longrightarrow> hush e e'"
  by (auto simp: hush_def)

lemma says_frame: "e_log e' = e_log e \<Longrightarrow> says e e'"
  by (auto simp: says_def)

lemma hush_says: "hush e e' \<Longrightarrow> says e e'"
  unfolding hush_def says_def using section_says_turnlessI by blast

lemma hush_trans: "hush e e1 \<Longrightarrow> hush e1 e2 \<Longrightarrow> hush e e2"
  unfolding hush_def by (metis append.assoc turnless_simps(3))

lemma says_after: "hush e e1 \<Longrightarrow> says e1 e2 \<Longrightarrow> says e e2"
  unfolding hush_def says_def by (metis append.assoc section_says_turnless)

lemma says_log: "says e e1 \<Longrightarrow> e_log e2 = e_log e1 \<Longrightarrow> says e e2"
  by (simp add: says_def)

lemma hush_log: "hush e e1 \<Longrightarrow> e_log e2 = e_log e1 \<Longrightarrow> hush e e2"
  by (simp add: hush_def)

lemma says_from: "says e1 e2 \<Longrightarrow> e_log e1 = e_log e \<Longrightarrow> says e e2"
  by (simp add: says_def)

lemma says_fence [simp]: "hush e (e'\<lparr>e_exit_fence := f\<rparr>) = hush e e'" "says e (e'\<lparr>e_exit_fence := f\<rparr>) = says e e'"
  by (simp_all add: hush_def says_def)

lemma hush_enqueue: "turnless evs \<Longrightarrow> e_log e1 = e_log e \<Longrightarrow> hush e (enqueue evs e1)"
  by (auto simp: hush_def enqueue_def)

lemma says_enqueue: "section_says evs \<Longrightarrow> e_log e1 = e_log e \<Longrightarrow> says e (enqueue evs e1)"
  by (auto simp: says_def enqueue_def)

lemma turn_id_inject [simp]: "turn_id m = turn_id n \<longleftrightarrow> m = n"
  by (simp add: turn_id_def)

lemma turn_id_nonempty [simp]: "turn_id n \<noteq> []" "[] \<noteq> turn_id n"
  by (simp_all add: turn_id_def)

lemma stamp_body [simp]: "ev_body (stamp e b c) = b"
  by (simp add: stamp_def)

lemma tellsI:
  assumes "client_inv e'" and "e_log e' = e_log e @ evs"
    and "fold_events client_apply evs (view_of e) = view_of e'"
  shows "tells e e'"
  using assms unfolding tells_def by blast

lemma tells_trans: "tells e e1 \<Longrightarrow> tells e1 e2 \<Longrightarrow> tells e e2"
  unfolding tells_def by (metis append.assoc fold_events_append)

lemma tells_refl: "client_inv e \<Longrightarrow> tells e e"
  by (rule tellsI [of _ _ "[]"]) simp_all

text \<open>A change the client does not see.\<close>

lemma tells_frame:
  assumes "client_inv e" and "e_queue e' = e_queue e" and "e_cur e' = e_cur e"
    and "e_armed e' = e_armed e" and "e_turn_seq e' = e_turn_seq e" and "e_log e' = e_log e"
    and "e_closed e' = e_closed e"
  shows "tells e e'"
  by (rule tellsI [of _ _ "[]"]) (use assms in \<open>simp_all add: client_inv_def cur_ok_def view_of_def\<close>)

text \<open>A turn noted on, or a mark set on it: its id and its row are the same.\<close>

lemma tells_turn:
  assumes "client_inv e" and "e_queue e' = e_queue e"
    and "e_cur e = Some t"
    and "case e_cur e' of None \<Rightarrow> False | Some t' \<Rightarrow> t_id t' = t_id t \<and> t_row t' = t_row t"
    and "e_armed e' = e_armed e" and "e_turn_seq e' = e_turn_seq e" and "e_log e' = e_log e"
    and "e_closed e' = e_closed e"
  shows "tells e e'"
  by (rule tellsI [of _ _ "[]"])
    (use assms in \<open>auto simp: client_inv_def cur_ok_def view_of_def split: option.splits\<close>)

section \<open>The queue's events\<close>

text \<open>Events that are the queue's alone: they turn the rows a client shows into the queue's.\<close>

definition queue_events :: "prompt_queue \<Rightarrow> event list \<Rightarrow> prompt_queue \<Rightarrow> bool" where
  "queue_events q evs q' \<longleftrightarrow> pq_inv q' \<and>
     (\<forall>v. cv_rows v = pq_items q \<longrightarrow> cv_next v = [] \<longrightarrow>
        fold_events client_apply evs v = v\<lparr>cv_rows := pq_items q'\<rparr>)"

lemma queue_events_refl: "pq_inv q \<Longrightarrow> queue_events q [] q"
  by (auto simp: queue_events_def)

lemma queue_events_trans:
  "queue_events q evs q1 \<Longrightarrow> queue_events q1 evs1 q2 \<Longrightarrow> queue_events q (evs @ evs1) q2"
  by (simp add: queue_events_def)

lemma client_queue_events:
  "(\<And>v. cv_next v = [] \<Longrightarrow>
     fold_events client_apply (map (\<lambda>qev. stamp e (EvQueue qev) c) qevs) v
       = v\<lparr>cv_rows := fold_events fold_queue qevs (cv_rows v)\<rparr>)"
proof (induction qevs)
  case Nil
  then show ?case by simp
next
  case (Cons q qevs)
  from Cons.prems Cons.IH [of "client_apply (stamp e (EvQueue q) c) v"] show ?case
    by (simp add: client_apply_def)
qed

text \<open>The law of the queue, as an event source, gives the law of its events in the engine's log.\<close>

lemma queue_events_step:
  assumes inv: "pq_inv q" and ok: "queue_op_ok op q" and step: "queue_step op q = (q', qevs)"
  shows "queue_events q (map (\<lambda>qev. stamp e (EvQueue qev) c) qevs) q'"
proof -
  from queue_step_view [OF inv ok] step have "fold_events fold_queue qevs (pq_items q) = pq_items q'" by simp
  moreover from queue_step_inv [OF inv ok] step have "pq_inv q'" by simp
  ultimately show ?thesis by (simp add: queue_events_def client_queue_events)
qed

lemma queue_events_one:
  assumes "pq_inv q" and "queue_op_ok op q" and "queue_step op q = (q', [qev])"
  shows "queue_events q [stamp e (EvQueue qev) c] q'"
  using queue_events_step [OF assms, of e c] by simp

lemma queue_events_add:
  "pq_inv q \<Longrightarrow> pq_add s now q = Inr (p, qev, q') \<Longrightarrow> queue_events q [stamp e (EvQueue qev) c] q'"
  by (rule queue_events_one [where op = "QAdd s now"]) simp_all

lemma queue_events_push_front:
  "pq_inv q \<Longrightarrow> pq_push_front s now q = (qev, q') \<Longrightarrow> queue_events q [stamp e (EvQueue qev) c] q'"
  by (rule queue_events_one [where op = "QPushFront s now"]) simp_all

lemma queue_events_restore:
  "pq_inv q \<Longrightarrow> row_out q row \<Longrightarrow> pq_restore row q = (qev, q') \<Longrightarrow>
     queue_events q [stamp e (EvQueue qev) c] q'"
  by (rule queue_events_one [where op = "QRestore row"]) (simp_all add: row_out_def)

lemma queue_events_edit:
  "pq_inv q \<Longrightarrow> pq_edit rid s q = Inr (qev, q') \<Longrightarrow> queue_events q [stamp e (EvQueue qev) c] q'"
  by (rule queue_events_one [where op = "QEdit rid s"]) simp_all

lemma queue_events_remove:
  "pq_inv q \<Longrightarrow> pq_remove rid q = Some (qev, q') \<Longrightarrow> queue_events q [stamp e (EvQueue qev) c] q'"
  by (rule queue_events_one [where op = "QRemove rid"]) simp_all

lemma queue_events_take:
  "pq_inv q \<Longrightarrow> pq_take rid q = Some (qev, q') \<Longrightarrow> queue_events q [stamp e (EvQueue qev) c] q'"
  by (rule queue_events_one [where op = "QTake rid"]) simp_all

lemma queue_events_pop:
  "pq_inv q \<Longrightarrow> pq_pop q = Some (qev, q') \<Longrightarrow> queue_events q [stamp e (EvQueue qev) c] q'"
  by (rule queue_events_one [where op = "QPop"]) simp_all

lemma queue_events_clear:
  "pq_inv q \<Longrightarrow> pq_clear q = (qevs, q') \<Longrightarrow>
     queue_events q (map (\<lambda>qev. stamp e (EvQueue qev) c) qevs) q'"
  by (rule queue_events_step [where op = "QClear"]) simp_all

lemmas queue_events_intros =
  queue_events_add queue_events_push_front queue_events_restore queue_events_edit
  queue_events_remove queue_events_take queue_events_pop queue_events_clear

lemma queue_events_view:
  "queue_events q evs q' \<Longrightarrow> cv_rows v = pq_items q \<Longrightarrow> cv_next v = [] \<Longrightarrow>
     fold_events client_apply evs v = v\<lparr>cv_rows := pq_items q'\<rparr>"
  by (simp add: queue_events_def)

lemma queue_events_inv: "queue_events q evs q' \<Longrightarrow> pq_inv q'"
  by (simp add: queue_events_def)

text \<open>A row out of the queue stays out, whatever other row comes or goes.\<close>

lemma row_out_add: "pq_add s now q = Inr (p, qev, q') \<Longrightarrow> row_out q row \<Longrightarrow> row_out q' row"
  by (force simp: pq_add_def row_out_def minted_def Let_def split: if_splits)

lemma row_out_push_front: "pq_push_front s now q = (qev, q') \<Longrightarrow> row_out q row \<Longrightarrow> row_out q' row"
  by (force simp: pq_push_front_def row_out_def minted_def Let_def)

lemma row_out_subset:
  "pq_seq q' = pq_seq q \<Longrightarrow> qp_id ` set (pq_items q') \<subseteq> qp_id ` set (pq_items q) \<Longrightarrow> row_out q row \<Longrightarrow> row_out q' row"
  by (auto simp: row_out_def minted_def)

lemma row_out_edit:
  assumes "pq_edit rid s q = Inr (qev, q')" and "row_out q row"
  shows "row_out q' row"
proof (rule row_out_subset [OF _ _ assms(2)])
  from assms(1) show "pq_seq q' = pq_seq q"
    by (auto simp: pq_edit_def Let_def split: if_splits option.splits)
  from assms(1) show "qp_id ` set (pq_items q') \<subseteq> qp_id ` set (pq_items q)"
    by (fastforce simp: pq_edit_def Let_def dest!: index_where_SomeD subsetD [OF set_update_subset_insert]
        split: if_splits option.splits)
qed

lemma row_out_take_as: "pq_take_as rid c q = Some (qev, q') \<Longrightarrow> row_out q row \<Longrightarrow> row_out q' row"
  by (rule row_out_subset [of q' q])
    (use set_delete_at_subset in \<open>fastforce simp: pq_take_as_def split: option.splits\<close>)+

lemma row_out_clear: "pq_clear q = (qevs, q') \<Longrightarrow> row_out q row \<Longrightarrow> row_out q' row"
  by (rule row_out_subset [of q' q]) (auto simp: pq_clear_def)

lemma row_out_pop: "pq_pop q = Some (qev, q') \<Longrightarrow> row_out q row \<Longrightarrow> row_out q' row"
  by (rule row_out_subset [of q' q]) (auto simp: pq_pop_def split: list.splits)

text \<open>The row that has just been taken is out.\<close>

lemma deleted_not_in:
  assumes "distinct xs" and "i < length xs"
  shows "xs ! i \<notin> set (delete_at i xs)"
proof -
  from id_take_nth_drop [OF assms(2)] assms(1)
  have "distinct (take i xs @ xs ! i # drop (Suc i) xs)" by simp
  then show ?thesis by (auto simp: delete_at_def)
qed

lemma row_locked_SomeD: "row_locked rid e = Some row \<Longrightarrow> row \<in> set (pq_items (e_queue e)) \<and> qp_id row = rid"
  by (auto simp: row_locked_def pq_list_def find_Some_iff)

lemma take_row_out:
  assumes inv: "pq_inv q" and row: "row \<in> set (pq_items q)"
  obtains qev q' where "pq_take (qp_id row) q = Some (qev, q')" and "row_out q' row" and "pq_seq q' = pq_seq q"
proof -
  obtain i where i: "i < length (pq_items q)" "pq_items q ! i = row" using row by (auto simp: in_set_conv_nth)
  from inv have dist: "distinct (map qp_id (pq_items q))" by (simp add: pq_inv_def)
  from index_where_id_unique [OF dist i(1)] i(2)
  have "index_where (\<lambda>p. qp_id p = qp_id row) (pq_items q) = Some i" by simp
  then have t: "pq_take (qp_id row) q
      = Some (\<lparr>qe_prompt = row, qe_change = QueueSent, qe_pos = i\<rparr>, q\<lparr>pq_items := delete_at i (pq_items q)\<rparr>)"
    using i by (simp add: pq_take_def pq_take_as_def)
  have "qp_id row \<notin> set (delete_at i (map qp_id (pq_items q)))"
    using deleted_not_in [OF dist, of i] i by simp
  then have "qp_id row \<notin> qp_id ` set (delete_at i (pq_items q))"
    by (simp add: map_delete_at [symmetric])
  with inv row have "row_out (q\<lparr>pq_items := delete_at i (pq_items q)\<rparr>) row"
    by (auto simp: row_out_def pq_inv_def)
  with t that show ?thesis by simp
qed

lemma pop_row_out:
  assumes "pq_inv q" and "pq_items q = row # rest"
  shows "pq_pop q = Some (\<lparr>qe_prompt = row, qe_change = QueueSent, qe_pos = 0\<rparr>, q\<lparr>pq_items := rest\<rparr>)"
    and "row_out (q\<lparr>pq_items := rest\<rparr>) row"
  using assms by (auto simp: pq_pop_def row_out_def pq_inv_def)

section \<open>What runs next\<close>

lemma claim_locked_simps [simp]:
  "l_turn (fst (claim_locked p orig c e)) = turn_id (Suc (e_turn_seq e))"
  "e_cur (snd (claim_locked p orig c e)) =
     Some \<lparr>t_id = turn_id (Suc (e_turn_seq e)), t_text = p, t_origin = orig, t_cause = c, t_row = None,
           t_cancel_asked = False, t_returned = False,
           t_res = \<lparr>tr_stop_reason = [], tr_unanswered = []\<rparr>, t_err = None,
           t_retry = False, t_retry_due = False, t_given_up = False\<rparr>"
  "e_turn_seq (snd (claim_locked p orig c e)) = Suc (e_turn_seq e)"
  "e_queue (snd (claim_locked p orig c e)) = e_queue e"
  "e_armed (snd (claim_locked p orig c e)) = e_armed e"
  "e_log (snd (claim_locked p orig c e)) = e_log e"
  "e_closed (snd (claim_locked p orig c e)) = e_closed e"
  by (simp_all add: claim_locked_def launch_locked_def begin_call_on_def Let_def)

lemma set_row_simps [simp]:
  "e_cur (set_row row e) = map_option (t_row_update (\<lambda>_. Some row)) (e_cur e)"
  "e_turn_seq (set_row row e) = e_turn_seq e" "e_queue (set_row row e) = e_queue e"
  "e_armed (set_row row e) = e_armed e" "e_log (set_row row e) = e_log e"
  "e_closed (set_row row e) = e_closed e"
  by (simp_all add: set_row_def)

lemma take_row_simps [simp]:
  "e_cur (snd (take_row rid c e)) = e_cur e" "e_turn_seq (snd (take_row rid c e)) = e_turn_seq e"
  "e_armed (snd (take_row rid c e)) = e_armed e" "e_log (snd (take_row rid c e)) = e_log e"
  "e_closed (snd (take_row rid c e)) = e_closed e"
  by (simp_all add: take_row_def split: option.split)

lemma disarm_locked_simps [simp]:
  "e_cur (snd (disarm_locked w c d e)) = e_cur e" "e_turn_seq (snd (disarm_locked w c d e)) = e_turn_seq e"
  "e_armed (snd (disarm_locked w c d e)) = None" "e_log (snd (disarm_locked w c d e)) = e_log e"
  "e_closed (snd (disarm_locked w c d e)) = e_closed e" "e_queue (snd (disarm_locked w c d e)) = e_queue e"
  by (simp_all add: disarm_locked_def split: option.split)

text \<open>Disarm events: none, or one that clears what the client shows as armed.\<close>

definition disarms :: "engine \<Rightarrow> event list \<Rightarrow> engine \<Rightarrow> bool" where
  "disarms e evs e' \<longleftrightarrow>
     (\<forall>v. cv_armed v = map_option armed_view (e_armed e) \<longrightarrow>
        fold_events client_apply evs v = v\<lparr>cv_armed := map_option armed_view (e_armed e')\<rparr>)"

lemma disarms_refl: "e_armed e' = e_armed e \<Longrightarrow> disarms e [] e'"
  by (auto simp: disarms_def)

lemma disarms_trans: "disarms e evs e1 \<Longrightarrow> disarms e1 evs1 e2 \<Longrightarrow> disarms e (evs @ evs1) e2"
  by (simp add: disarms_def)

lemma disarms_view:
  "disarms e evs e' \<Longrightarrow> cv_armed v = map_option armed_view (e_armed e) \<Longrightarrow>
     fold_events client_apply evs v = v\<lparr>cv_armed := map_option armed_view (e_armed e')\<rparr>"
  by (simp add: disarms_def)

lemma disarms_locked: "disarms e (fst (disarm_locked w c d e)) (snd (disarm_locked w c d e))"
  by (auto simp: disarms_def disarm_locked_def client_apply_def split: option.split)

lemma event_words [simp]:
  "withdraws (fst (disarm_locked w c d e))" "turnless (fst (disarm_locked w c d e))"
  "turnless (fst (take_row rid c e))" "turnless (fst (clear_rows c e))" "turnless [stamp e (EvQueue qev) c]"
  by (auto simp: disarm_locked_def take_row_def clear_rows_def withdraws_def turnless_def split_beta split: option.split)

lemma take_row_law:
  assumes "pq_inv (e_queue e)" and "row \<in> set (pq_items (e_queue e))" and "qp_id row = rid"
  shows "queue_events (e_queue e) (fst (take_row rid c e)) (e_queue (snd (take_row rid c e)))"
    and "row_out (e_queue (snd (take_row rid c e))) row"
proof -
  obtain qev q' where t: "pq_take rid (e_queue e) = Some (qev, q')" and out: "row_out q' row"
    using take_row_out [OF assms(1,2)] assms(3) by metis
  show "queue_events (e_queue e) (fst (take_row rid c e)) (e_queue (snd (take_row rid c e)))"
    using queue_events_take [OF assms(1) t] t by (simp add: take_row_def)
  show "row_out (e_queue (snd (take_row rid c e))) row" using out t by (simp add: take_row_def)
qed

text \<open>A claim made, and what the queue and the send gave up for it.\<close>

definition claimed :: "engine \<Rightarrow> launch \<Rightarrow> bool \<Rightarrow> engine \<Rightarrow> bool" where
  "claimed e l sent e' \<longleftrightarrow>
     (\<exists>t. e_cur e' = Some t \<and> cur_ok e' t \<and> l_turn l = t_id t \<and> sent = (t_origin t = TurnOriginSendNow)) \<and>
     e_turn_seq e' = Suc (e_turn_seq e)"

lemma origins [simp]:
  "TurnOriginDrain \<noteq> TurnOriginSendNow" "TurnOriginSubmit \<noteq> TurnOriginSendNow"
  by (simp_all add: TurnOriginDrain_def TurnOriginSubmit_def TurnOriginSendNow_def)

definition next_law :: "engine \<Rightarrow> launch option \<times> event list \<times> event list \<times> engine \<Rightarrow> bool" where
  "next_law e r \<longleftrightarrow>
     (case r of (l, before, gone, e') \<Rightarrow>
        e_log e' = e_log e \<and> e_closed e' = e_closed e \<and>
        queue_events (e_queue e) before (e_queue e') \<and>
        (case l of
           None \<Rightarrow> e_cur e' = e_cur e \<and> e_turn_seq e' = e_turn_seq e \<and> disarms e gone e' \<and> before = [] \<and>
                   e_queue e' = e_queue e
         | Some l' \<Rightarrow> e_cur e = None \<and> \<not> e_closed e \<and>
             (\<exists>sent. claimed e l' sent e' \<and>
                (if sent then gone = [] \<and> e_armed e' = None else disarms e gone e'))))"

lemma can_start_free: "fst (can_start e) \<Longrightarrow> e_cur e = None \<and> \<not> e_closed e"
  by (auto simp: can_start_def refusal_def split: if_splits)

text \<open>The head's turn, from a state in which a turn may start.\<close>

definition head_turn :: "event list \<Rightarrow> bool \<Rightarrow> engine \<Rightarrow> launch option \<times> event list \<times> event list \<times> engine" where
  "head_turn gone q e =
     (if \<not> q then (None, [], gone, e)
      else
        (case head_locked e of
           None \<Rightarrow> (None, [], gone, e)
         | Some head \<Rightarrow>
             (let (l, e3) = claim_locked (qp_text head) TurnOriginDrain [] e;
                  e4 = set_row head e3
              in (case pq_pop (e_queue e4) of
                    None \<Rightarrow> (Some l, [], gone, e4)
                  | Some (qev, q) \<Rightarrow> (Some l, [stamp e4 (EvQueue qev) []], gone, e4\<lparr>e_queue := q\<rparr>)))))"

text \<open>\<open>next_locked\<close> by its branches.\<close>

lemma next_locked_cases:
  obtains
    (held) "next_locked q e = (None, [], [], if e_close_fences e > 0
              then (if e_activity e \<noteq> ActivityIdle then e else snd (can_start e))\<lparr>e_pass_held := True\<rparr>
              else (if e_activity e \<noteq> ActivityIdle then e else snd (can_start e)))"
  | (draft) a where "fst (can_start e)" "e_activity e = ActivityIdle" "e_armed e = Some a" "as_from a = []"
      "next_locked q e =
         (let r = claim_locked (as_text a) TurnOriginSendNow (as_cause a) ((snd (can_start e))\<lparr>e_armed := None\<rparr>)
          in (Some (fst r), [], [], snd r))"
  | (row) a row where "fst (can_start e)" "e_activity e = ActivityIdle" "e_armed e = Some a" "as_from a \<noteq> []"
      "row_locked (as_from a) e = Some row"
      "next_locked q e =
         (let r = claim_locked (qp_text row) TurnOriginSendNow (as_cause a) ((snd (can_start e))\<lparr>e_armed := None\<rparr>);
              t = take_row (as_from a) (as_cause a) (set_row row (snd r))
          in (Some (fst r), fst t, [], snd t))"
  | (gone) a where "fst (can_start e)" "e_activity e = ActivityIdle" "e_armed e = Some a" "as_from a \<noteq> []"
      "row_locked (as_from a) e = None"
      "next_locked q e =
         (let d = disarm_locked ''row_gone'' [] [] (snd (can_start e)) in head_turn (fst d) q (snd d))"
  | (head) "fst (can_start e)" "e_activity e = ActivityIdle" "e_armed e = None"
      "next_locked q e = head_turn [] q (snd (can_start e))"
proof (cases "e_activity e = ActivityIdle \<and> fst (can_start e)")
  case False
  then have "next_locked q e = (None, [], [], if e_close_fences e > 0
              then (if e_activity e \<noteq> ActivityIdle then e else snd (can_start e))\<lparr>e_pass_held := True\<rparr>
              else (if e_activity e \<noteq> ActivityIdle then e else snd (can_start e)))"
    by (auto simp: next_locked_def split_beta Let_def)
  then show ?thesis by (rule held)
next
  case True
  have r: "row_locked rid (snd (can_start e)) = row_locked rid e" for rid
    by (simp add: row_locked_def)
  note unf = next_locked_def split_beta Let_def head_turn_def
  show ?thesis
  proof (cases "e_armed e")
    case None
    with True have "next_locked q e = head_turn [] q (snd (can_start e))" by (simp add: unf split: option.split)
    with None True head show ?thesis by blast
  next
    case (Some a)
    show ?thesis
    proof (cases "as_from a = []")
      case src: True
      with Some True draft [OF _ _ Some src] show ?thesis by (simp add: unf)
    next
      case src: False
      show ?thesis
      proof (cases "row_locked (as_from a) e")
        case None
        with Some True src r gone [OF _ _ Some src None] show ?thesis by (simp add: unf split: option.split)
      next
        case row': (Some x)
        with Some True src r row [OF _ _ Some src row'] show ?thesis by (simp add: unf)
      qed
    qed
  qed
qed

lemma head_turn_words:
  "withdraws g \<Longrightarrow> turnless (fst (snd (head_turn g q e))) \<and> withdraws (fst (snd (snd (head_turn g q e))))"
  by (auto simp: head_turn_def split_beta Let_def split: option.split)

lemma next_locked_words:
  "turnless (fst (snd (next_locked q e))) \<and> withdraws (fst (snd (snd (next_locked q e))))"
  by (rule next_locked_cases [of q e]) (simp_all add: Let_def head_turn_words)

lemma client_inv_row_out:
  "client_inv e \<Longrightarrow> e_cur e = Some t \<Longrightarrow> t_row t = Some row \<Longrightarrow> row_out (e_queue e) row"
  by (simp add: client_inv_def cur_ok_def)

lemma head_turn_law:
  assumes inv: "pq_inv (e_queue e)" and free: "e_cur e = None" "\<not> e_closed e"
    and gone: "disarms e0 g e" and same: "e_log e = e_log e0" "e_closed e = e_closed e0"
      "e_cur e0 = None" "e_turn_seq e = e_turn_seq e0" "e_queue e = e_queue e0"
  shows "next_law e0 (head_turn g q e)"
proof (cases "q \<and> pq_items (e_queue e) \<noteq> []")
  case False
  with assms show ?thesis
    by (auto simp: head_turn_def head_locked_def pq_list_def next_law_def queue_events_refl split: list.splits)
next
  case True
  then obtain row rest where q: "pq_items (e_queue e) = row # rest" by (auto simp: neq_Nil_conv)
  note pop = pop_row_out [OF inv q]
  have "queue_events (e_queue e) [stamp x (EvQueue \<lparr>qe_prompt = row, qe_change = QueueSent, qe_pos = 0\<rparr>) []]
      (e_queue e\<lparr>pq_items := rest\<rparr>)" for x
    by (rule queue_events_pop [OF inv pop(1)])
  with True q pop assms show ?thesis
    by (simp add: head_turn_def head_locked_def pq_list_def next_law_def split_beta Let_def claimed_def
        cur_ok_def)
      (rule exI [of _ False], simp add: disarms_def claimed_def cur_ok_def)
qed

lemma next_locked_law:
  assumes inv: "client_inv e"
  shows "next_law e (next_locked q e)"
proof -
  have qinv: "pq_inv (e_queue e)" using inv by (simp add: client_inv_def)
  show ?thesis
  proof (rule next_locked_cases [of q e])
    assume "next_locked q e = (None, [], [], if e_close_fences e > 0
        then (if e_activity e \<noteq> ActivityIdle then e else snd (can_start e))\<lparr>e_pass_held := True\<rparr>
        else (if e_activity e \<noteq> ActivityIdle then e else snd (can_start e)))"
    then show ?thesis using qinv by (simp add: next_law_def queue_events_refl disarms_refl)
  next
    fix a
    assume *: "fst (can_start e)" "e_armed e = Some a" "as_from a = []"
      "next_locked q e =
         (let r = claim_locked (as_text a) TurnOriginSendNow (as_cause a) ((snd (can_start e))\<lparr>e_armed := None\<rparr>)
          in (Some (fst r), [], [], snd r))"
    then show ?thesis using qinv can_start_free [OF *(1)]
      by (simp add: next_law_def queue_events_refl Let_def claimed_def cur_ok_def ex_bool_eq)
  next
    fix a row
    assume *: "fst (can_start e)" "e_armed e = Some a" "as_from a \<noteq> []"
      "row_locked (as_from a) e = Some row"
      "next_locked q e =
         (let r = claim_locked (qp_text row) TurnOriginSendNow (as_cause a) ((snd (can_start e))\<lparr>e_armed := None\<rparr>);
              t = take_row (as_from a) (as_cause a) (set_row row (snd r))
          in (Some (fst r), fst t, [], snd t))"
    define e1 where "e1 = set_row row (snd (claim_locked (qp_text row) TurnOriginSendNow (as_cause a)
                             ((snd (can_start e))\<lparr>e_armed := None\<rparr>)))"
    have q1: "e_queue e1 = e_queue e" by (simp add: e1_def)
    have "row \<in> set (pq_items (e_queue e1))" "qp_id row = as_from a" "pq_inv (e_queue e1)"
      using row_locked_SomeD [OF *(4)] qinv q1 by simp_all
    from take_row_law [OF this(3,1,2), of "as_cause a"] q1
    have t: "queue_events (e_queue e) (fst (take_row (as_from a) (as_cause a) e1))
        (e_queue (snd (take_row (as_from a) (as_cause a) e1)))"
      "row_out (e_queue (snd (take_row (as_from a) (as_cause a) e1))) row"
      by simp_all
    from *(5) have "next_locked q e =
        (Some (fst (claim_locked (qp_text row) TurnOriginSendNow (as_cause a) ((snd (can_start e))\<lparr>e_armed := None\<rparr>))),
         fst (take_row (as_from a) (as_cause a) e1), [], snd (take_row (as_from a) (as_cause a) e1))"
      by (simp add: Let_def e1_def)
    then show ?thesis using t can_start_free [OF *(1)]
      by (simp add: next_law_def claimed_def cur_ok_def ex_bool_eq) (simp add: e1_def)
  next
    fix a
    assume *: "fst (can_start e)" "next_locked q e =
         (let d = disarm_locked ''row_gone'' [] [] (snd (can_start e)) in head_turn (fst d) q (snd d))"
    have "disarms e (fst (disarm_locked ''row_gone'' [] [] (snd (can_start e))))
        (snd (disarm_locked ''row_gone'' [] [] (snd (can_start e))))"
      using disarms_locked [of "snd (can_start e)" "''row_gone''" "[]" "[]"] by (simp add: disarms_def)
    with * can_start_free [OF *(1)] qinv show ?thesis
      by (simp add: Let_def) (rule head_turn_law, simp_all)
  next
    assume *: "fst (can_start e)" "next_locked q e = head_turn [] q (snd (can_start e))"
    with can_start_free [OF *(1)] qinv show ?thesis
      by simp (rule head_turn_law, simp_all add: disarms_refl)
  qed
qed

section \<open>Drains and settlements\<close>

lemma client_apply_started:
  "client_apply (started_event e t) v =
     v\<lparr>cv_turn := Some (t_id t), cv_next := [], cv_started := Suc (cv_started v),
       cv_armed := (if t_origin t = TurnOriginSendNow then None else cv_armed v),
       cv_ok := (cv_ok v \<and> cv_turn v = None \<and> t_id t = turn_id (Suc (cv_started v)) \<and>
                 (cv_next v = [] \<or> cv_next v = t_id t))\<rparr>"
  by (simp add: started_event_def client_apply_def client_turn_def turn_info_of_def)

lemma client_inv_claimed:
  "queue_events q evs (e_queue e') \<Longrightarrow> claimed e l sent e' \<Longrightarrow> \<not> e_closed e' \<Longrightarrow> client_inv e'"
  by (auto simp: client_inv_def claimed_def queue_events_inv)

text \<open>The events of a claim, after a view in which no turn is shown: \<open>next\<close> is what the ending before
  it promised.\<close>

lemma claimed_view:
  assumes law: "next_law e (Some l, before, gone, e')"
    and v: "cv_rows v = pq_items (e_queue e'')" "cv_turn v = None" "cv_ok v"
      "cv_armed v = map_option armed_view (e_armed e)" "cv_started v = e_turn_seq e"
      "cv_next v = [] \<or> cv_next v = l_turn l"
    and e'': "e_cur e'' = e_cur e'" "e_armed e'' = e_armed e'"
      "e_turn_seq e'' = e_turn_seq e'"
  shows "fold_events client_apply (gone @ started_of_cur e'') v = view_of e''"
proof -
  from law obtain sent where c: "claimed e l sent e'"
    and a: "if sent then gone = [] \<and> e_armed e' = None else disarms e gone e'"
    by (auto simp: next_law_def)
  then obtain t where t: "e_cur e' = Some t" "cur_ok e' t" "l_turn l = t_id t"
    "sent = (t_origin t = TurnOriginSendNow)" "e_turn_seq e' = Suc (e_turn_seq e)"
    by (auto simp: claimed_def)
  have s: "started_of_cur e'' = [started_event e'' t]" using t e'' by (simp add: started_of_cur_def)
  show ?thesis
  proof (cases sent)
    case True
    with a t v e'' s show ?thesis
      by (auto simp: client_apply_started view_of_def cur_ok_def)
  next
    case False
    with a have "disarms e gone e'" by simp
    from disarms_view [OF this v(4)] False t v e'' s show ?thesis
      by (auto simp: client_apply_started view_of_def cur_ok_def)
  qed
qed

lemma turn_info_of_simps [simp]:
  "ti_id (turn_info_of tid p) = tid" "ti_phase (turn_info_of tid p) = p" "ti_next (turn_info_of tid p) = []"
  by (simp_all add: turn_info_of_def)

lemma started_body [simp]:
  "ev_body (started_event e t) =
     EvTurn ((turn_info_of (t_id t) TurnStarted)\<lparr>ti_text := t_text t, ti_origin := t_origin t\<rparr>)"
  by (simp add: started_event_def)

lemma drain_tells:
  assumes inv: "client_inv e" and cur: "e_cur e = None" "\<not> e_closed e"
  shows "tells e (snd (drain_locked e))"
proof -
  obtain l before gone e1 where n: "next_locked True e = (l, before, gone, e1)" by (cases "next_locked True e")
  from next_locked_law [OF inv, of True] n have law: "next_law e (l, before, gone, e1)" by simp
  then have q: "queue_events (e_queue e) before (e_queue e1)" and log: "e_log e1 = e_log e"
    and cl: "e_closed e1 = e_closed e" by (auto simp: next_law_def)
  show ?thesis
  proof (cases l)
    case None
    with law cur have none: "e_cur e1 = None" "e_turn_seq e1 = e_turn_seq e" "disarms e gone e1" "before = []"
      "e_queue e1 = e_queue e" by (auto simp: next_law_def)
    show ?thesis
    proof (rule tellsI [of _ _ "gone @ before"])
      show "client_inv (snd (drain_locked e))"
        using inv none n None cl by (simp add: drain_locked_def client_inv_def enqueue_def)
      show "e_log (snd (drain_locked e)) = e_log e @ (gone @ before)"
        using n None log by (simp add: drain_locked_def enqueue_def)
      show "fold_events client_apply (gone @ before) (view_of e) = view_of (snd (drain_locked e))"
        using none n None disarms_view [OF none(3), of "view_of e"] cur
        by (simp add: drain_locked_def view_of_def enqueue_def)
    qed
  next
    case (Some l')
    have d: "snd (drain_locked e) = enqueue (gone @ before @ started_of_cur e1) e1"
      using n Some by (simp add: drain_locked_def)
    from law Some obtain sent where c: "claimed e l' sent e1" 
      and a: "if sent then gone = [] \<and> e_armed e1 = None else disarms e gone e1" by (auto simp: next_law_def)
    show ?thesis
    proof (rule tellsI [of _ _ "gone @ before @ started_of_cur e1"])
      show "client_inv (snd (drain_locked e))"
        using client_inv_claimed [OF q c] cl cur by (simp add: d client_inv_def cur_ok_def)
      show "e_log (snd (drain_locked e)) = e_log e @ gone @ before @ started_of_cur e1"
        by (simp add: d enqueue_def log)
      have "\<exists>v. fold_events client_apply before (fold_events client_apply gone (view_of e)) =
          fold_events client_apply gone v \<and> v = (view_of e)\<lparr>cv_rows := pq_items (e_queue e1)\<rparr>"
      proof (cases sent)
        case True
        with a queue_events_view [OF q, of "view_of e"] show ?thesis by (simp add: view_of_def)
      next
        case False
        with a have "disarms e gone e1" by simp
        with queue_events_view [OF q] show ?thesis by (simp add: view_of_def disarms_def)
      qed
      then have "fold_events client_apply (gone @ before @ started_of_cur e1) (view_of e) =
          fold_events client_apply (gone @ started_of_cur e1) ((view_of e)\<lparr>cv_rows := pq_items (e_queue e1)\<rparr>)"
        by auto
      also have "\<dots> = view_of e1"
        using law Some cur by (intro claimed_view [where e = e and l = l' and before = before and e' = e1])
          (simp_all add: view_of_def)
      finally show "fold_events client_apply (gone @ before @ started_of_cur e1) (view_of e) = view_of (snd (drain_locked e))"
        by (simp add: d view_of_def)
    qed
  qed
qed

lemma return_steers_law:
  assumes "client_inv e" and "return_steers ss e = (evs, e1)"
  shows "queue_events (e_queue e) evs (e_queue e1) \<and> e1 = e\<lparr>e_queue := e_queue e1\<rparr> \<and> client_inv e1"
  using assms
proof (induction ss arbitrary: evs e1)
  case Nil
  then show ?case by (auto simp: queue_events_refl client_inv_def)
next
  case (Cons s ss)
  obtain evs' e2 where r: "return_steers ss e = (evs', e2)" by (cases "return_steers ss e")
  obtain qev q where p: "pq_push_front s (e_now e2) (e_queue e2) = (qev, q)"
    by (cases "pq_push_front s (e_now e2) (e_queue e2)")
  from Cons.IH [OF Cons.prems(1) r] have ih: "queue_events (e_queue e) evs' (e_queue e2)"
    "e2 = e\<lparr>e_queue := e_queue e2\<rparr>" "client_inv e2" by blast+
  from Cons.prems(2) r p have *: "evs = evs' @ [stamp e2 (EvQueue qev) []]" "e1 = e2\<lparr>e_queue := q\<rparr>"
    by auto
  have inv2: "pq_inv (e_queue e2)" using ih(3) by (simp add: client_inv_def)
  have "queue_events (e_queue e2) [stamp e2 (EvQueue qev) []] q"
    by (rule queue_events_push_front [OF inv2 p])
  from queue_events_trans [OF ih(1) this] * have "queue_events (e_queue e) evs (e_queue e1)" by simp
  moreover have "e2\<lparr>e_queue := q\<rparr> = e\<lparr>e_queue := q\<rparr>" by (subst ih(2)) simp
  then have "e1 = e\<lparr>e_queue := e_queue e1\<rparr>" using *(2) by simp
  moreover have "client_inv e1"
    using ih(3) * row_out_push_front [OF p] pq_inv_push_front [OF inv2 p]
    by (auto simp: client_inv_def cur_ok_def)
  ultimately show ?case by blast
qed

lemma return_steers_turnless: "turnless (fst (return_steers ss e))"
  by (induction ss) (simp_all add: split_beta Let_def)

lemma ending_of_simps [simp]:
  "ti_id (fst (ending_of t e)) = t_id t" "ti_phase (fst (ending_of t e)) = TurnEnded"
  by (auto simp: ending_of_def turn_info_of_def Let_def split: option.split)

lemma settle_disarm_simps [simp]:
  "e_cur (snd (settle_disarm t f e)) = e_cur e" "e_turn_seq (snd (settle_disarm t f e)) = e_turn_seq e"
  "e_log (snd (settle_disarm t f e)) = e_log e" "e_closed (snd (settle_disarm t f e)) = e_closed e"
  "e_queue (snd (settle_disarm t f e)) = e_queue e"
  by (simp_all add: settle_disarm_def split: option.split)

lemma settle_disarm_withdraws [simp]: "withdraws (fst (settle_disarm t f e))"
  by (simp add: settle_disarm_def split: option.split)

lemma settle_disarm_disarms: "disarms e (fst (settle_disarm t f e)) (snd (settle_disarm t f e))"
  by (auto simp: settle_disarm_def disarms_refl disarms_locked split: option.split)

lemma clear_rows_law:
  assumes "pq_inv (e_queue e)"
  shows "queue_events (e_queue e) (fst (clear_rows c e)) (e_queue (snd (clear_rows c e)))"
    and "\<exists>q. snd (clear_rows c e) = e\<lparr>e_queue := q\<rparr>"
    and "row_out (e_queue e) row \<Longrightarrow> row_out (e_queue (snd (clear_rows c e))) row"
proof -
  obtain qevs q where p: "pq_clear (e_queue e) = (qevs, q)" by (cases "pq_clear (e_queue e)")
  with queue_events_clear [OF assms p] row_out_clear [OF p]
  show "queue_events (e_queue e) (fst (clear_rows c e)) (e_queue (snd (clear_rows c e)))"
    and "\<exists>q. snd (clear_rows c e) = e\<lparr>e_queue := q\<rparr>"
    and "row_out (e_queue e) row \<Longrightarrow> row_out (e_queue (snd (clear_rows c e))) row"
    by (auto simp: clear_rows_def)
qed

lemma client_apply_ended:
  "ti_phase ti = TurnEnded \<Longrightarrow> client_apply (stamp e (EvTurn ti) c) v =
     v\<lparr>cv_turn := None, cv_next := ti_next ti,
       cv_ok := (cv_ok v \<and> cv_turn v = Some (ti_id ti) \<and> ti_pending ti = length (cv_rows v))\<rparr>"
  by (simp add: client_apply_def client_turn_def)

text \<open>The settlement after the steers went back. \<open>q0\<close> is the queue before they did.\<close>

lemma end_turn_tells:
  assumes inv: "client_inv e" and cur: "e_cur e = Some t" and open': "\<not> e_closed e"
    and batch: "queue_events q0 batch (e_queue e)" "turnless batch"
  shows "client_inv (snd (end_turn t batch e)) \<and>
    (\<exists>evs. e_log (snd (end_turn t batch e)) = e_log e @ evs \<and> section_says evs \<and>
       fold_events client_apply evs ((view_of e)\<lparr>cv_rows := pq_items q0\<rparr>) = view_of (snd (end_turn t batch e)))"
proof -
  define e1 where "e1 = snd (exit_fence_ends t e)"
  define info where "info = fst (ending_of t e1)"
  define failed where "failed = snd (ending_of t e1)"
  define e2 where "e2 = (remember_err t (e1\<lparr>e_cancelled := (ti_stop_reason info = stopCancelled)\<rparr>))\<lparr>e_cur := None\<rparr>"
  define dis where "dis = fst (settle_disarm t failed e2)"
  define e3 where "e3 = snd (settle_disarm t failed e2)"
  define chain where "chain = (if failed then \<not> refused t
      else e_stopped e3 \<or> e_stop_non_end e3 \<and> ti_stop_reason info \<noteq> stopEndTurn)"
  define e4 where "e4 = (if failed then e3\<lparr>e_activity_at := e_now e3, e_activity := ActivityError, e_err := ti_err info\<rparr>
      else e3\<lparr>e_activity_at := e_now e3, e_activity := ActivityIdle\<rparr>)"
  define clears where "clears = (chain \<or> fst (exit_fence_ends t e))"
  obtain l before gone e5 where n: "next_locked (\<not> clears) e4 = (l, before, gone, e5)"
    by (cases "next_locked (\<not> clears) e4")
  define cleared where "cleared = (if clears then fst (clear_rows [] e5) else [])"
  define e6 where "e6 = (if clears then snd (clear_rows [] e5) else e5)"
  define e7 where "e7 = (if l = None then e6 else e6\<lparr>e_activity_at := e_activity_at e3\<rparr>)"
  define info' where "info' = info\<lparr>ti_next := (case l of None \<Rightarrow> [] | Some l' \<Rightarrow> l_turn l'), ti_pending := pq_len (e_queue e7)\<rparr>"
  define evs where "evs = batch @ before @ cleared @ [stamp e7 (EvTurn info') (t_cause t)] @ dis @ gone @
      (if l = None then [] else started_of_cur e7)"
  have e4b: "(if failed then (\<not> refused t, e3\<lparr>e_activity_at := e_now e3, e_activity := ActivityError, e_err := ti_err info\<rparr>)
             else (e_stopped e3 \<or> e_stop_non_end e3 \<and> ti_stop_reason info \<noteq> stopEndTurn,
                e3\<lparr>e_activity_at := e_now e3, e_activity := ActivityIdle\<rparr>)) = (chain, e4)"
    by (simp add: chain_def e4_def)
  have clb: "(if clears then clear_rows [] e5 else ([], e5)) = (cleared, e6)"
    by (simp add: cleared_def e6_def)
  have shape: "snd (end_turn t batch e) = enqueue evs e7"
    unfolding end_turn_def split_beta Let_def
    by (simp only: e1_def [symmetric] info_def [symmetric] failed_def [symmetric] e2_def [symmetric]
        dis_def [symmetric] e3_def [symmetric] e4b fst_conv snd_conv clears_def [symmetric] n clb
        e7_def [symmetric] info'_def [symmetric] evs_def [symmetric])
  have f4: "e_cur e4 = None" "e_queue e4 = e_queue e" "e_turn_seq e4 = e_turn_seq e" "e_log e4 = e_log e"
    "\<not> e_closed e4" "e_armed e4 = e_armed e3"
    using open' by (simp_all add: e4_def e3_def e2_def e1_def)
  have inv4: "client_inv e4" using inv f4 by (simp add: client_inv_def)
  have armed2: "e_armed e2 = e_armed e" by (simp add: e2_def e1_def)
  have disl: "disarms e dis e4"
    using settle_disarm_disarms [of e2 t failed] armed2 f4(6) by (simp add: disarms_def dis_def e3_def)
  from next_locked_law [OF inv4, of "\<not> clears"] n have law: "next_law e4 (l, before, gone, e5)" by simp
  then have q: "queue_events (e_queue e) before (e_queue e5)" and log5: "e_log e5 = e_log e"
    and cl5: "\<not> e_closed e5" using f4 by (auto simp: next_law_def)
  have qinv5: "pq_inv (e_queue e5)" using q by (rule queue_events_inv)
  note cr = clear_rows_law [OF qinv5, where c = "[]"]
  have q6: "queue_events (e_queue e5) cleared (e_queue e6)"
    using cr(1) qinv5 by (simp add: cleared_def e6_def queue_events_refl)
  obtain q6' where s6: "e6 = e5\<lparr>e_queue := q6'\<rparr>"
    using cr(2) that [of "e_queue e5"] by (cases clears) (auto simp: e6_def)
  then have f6: "e_cur e6 = e_cur e5" "e_armed e6 = e_armed e5" "e_turn_seq e6 = e_turn_seq e5"
    "e_log e6 = e_log e5" "e_closed e6 = e_closed e5"
    by simp_all
  have out6: "row_out (e_queue e5) row \<Longrightarrow> row_out (e_queue e6) row" for row
    using cr(3) by (simp add: e6_def)
  have f7: "e_cur e7 = e_cur e5" "e_armed e7 = e_armed e5" "e_turn_seq e7 = e_turn_seq e5"
    "e_log e7 = e_log e" "\<not> e_closed e7" "e_queue e7 = e_queue e6"
    using f6 log5 cl5 by (simp_all add: e7_def)
  have rows: "queue_events q0 (batch @ before @ cleared) (e_queue e7)"
    using queue_events_trans [OF batch(1) queue_events_trans [OF q q6]] by (simp add: f7)
  have words: "turnless (batch @ before @ cleared)" "withdraws dis" "withdraws gone"
    using batch(2) next_locked_words [of "\<not> clears" e4] n by (simp_all add: cleared_def dis_def)
  have says: "section_says evs \<longleftrightarrow> after_ending (ti_next info') (if l = None then [] else started_of_cur e7)"
    using section_says_turnless [OF words(1), of "[stamp e7 (EvTurn info') (t_cause t)] @ dis @ gone @
      (if l = None then [] else started_of_cur e7)"] words(2,3)
    by (simp add: evs_def info'_def info_def)
  have tid: "t_id t = turn_id (e_turn_seq e)" using inv cur by (simp add: client_inv_def cur_ok_def)
  define v where "v = (view_of e)\<lparr>cv_rows := pq_items q0\<rparr>"
  define v1 where "v1 = (view_of e)\<lparr>cv_rows := pq_items (e_queue e7), cv_turn := None, cv_next := ti_next info'\<rparr>"
  have "fold_events client_apply (batch @ before @ cleared) v = (view_of e)\<lparr>cv_rows := pq_items (e_queue e7)\<rparr>"
    using queue_events_view [OF rows, of v] by (simp add: v_def view_of_def)
  moreover have "client_apply (stamp e7 (EvTurn info') (t_cause t)) ((view_of e)\<lparr>cv_rows := pq_items (e_queue e7)\<rparr>) = v1"
    using cur by (simp add: client_apply_ended v1_def view_of_def info'_def info_def pq_len_def)
  ultimately have upto: "fold_events client_apply (batch @ before @ cleared @ [stamp e7 (EvTurn info') (t_cause t)]) v = v1"
    by simp
  have dv: "fold_events client_apply dis v1 = v1\<lparr>cv_armed := map_option armed_view (e_armed e4)\<rparr>"
    using disarms_view [OF disl, of v1] by (simp add: v1_def view_of_def)
  have "client_inv (enqueue evs e7) \<and> fold_events client_apply evs v = view_of e7 \<and> section_says evs"
  proof (cases l)
    case None
    from law None have none: "e_cur e5 = None" "e_turn_seq e5 = e_turn_seq e" "disarms e4 gone e5"
      using f4 by (auto simp: next_law_def)
    have "fold_events client_apply gone (v1\<lparr>cv_armed := map_option armed_view (e_armed e4)\<rparr>) =
        v1\<lparr>cv_armed := map_option armed_view (e_armed e5)\<rparr>"
      using disarms_view [OF none(3), of "v1\<lparr>cv_armed := map_option armed_view (e_armed e4)\<rparr>"] by simp
    with upto dv None none f7 have "fold_events client_apply evs v = view_of e7"
      by (simp add: evs_def v1_def view_of_def info'_def)
    moreover have "client_inv (enqueue evs e7)"
      using none f7 queue_events_inv [OF rows] by (simp add: client_inv_def)
    moreover have "section_says evs" using None by (simp add: says info'_def)
    ultimately show ?thesis by blast
  next
    case (Some l')
    from law Some obtain sent where c: "claimed e4 l' sent e5" by (auto simp: next_law_def)
    then obtain t' where t': "e_cur e5 = Some t'" "cur_ok e5 t'" "e_turn_seq e5 = Suc (e_turn_seq e)"
      "l_turn l' = t_id t'"
      using f4 by (auto simp: claimed_def)
    then have "section_says evs"
      using Some f7 by (simp add: says info'_def started_of_cur_def cur_ok_def)
    note said = this
    have "fold_events client_apply (gone @ started_of_cur e7) (v1\<lparr>cv_armed := map_option armed_view (e_armed e4)\<rparr>) = view_of e7"
      using law Some f4 f7
      by (intro claimed_view [where e = e4 and l = l' and before = before and e' = e5])
        (simp_all add: v1_def view_of_def info'_def)
    with upto dv Some have "fold_events client_apply evs v = view_of e7" by (simp add: evs_def)
    moreover have "client_inv (enqueue evs e7)"
      using t' f7 out6 queue_events_inv [OF rows] by (auto simp: client_inv_def cur_ok_def)
    ultimately show ?thesis using said by blast
  qed
  moreover have "view_of (enqueue evs e7) = view_of e7" by (simp add: view_of_def)
  moreover have "e_log (enqueue evs e7) = e_log e @ evs" using f7 by (simp add: enqueue_def)
  ultimately show ?thesis unfolding shape v_def by auto
qed

lemma restore_tells:
  assumes inv: "client_inv e" and cur: "e_cur e = Some t" and open': "\<not> e_closed e"
    and row: "t_row t = Some row" and batch: "queue_events q0 batch (e_queue e)" "turnless batch"
  shows "client_inv (snd (restore_locked t row batch e)) \<and>
    (\<exists>evs. e_log (snd (restore_locked t row batch e)) = e_log e @ evs \<and> section_says evs \<and>
       fold_events client_apply evs ((view_of e)\<lparr>cv_rows := pq_items q0\<rparr>) = view_of (snd (restore_locked t row batch e)))"
proof -
  obtain qev q where r: "pq_restore row (e_queue e) = (qev, q)" by (cases "pq_restore row (e_queue e)")
  have qinv: "pq_inv (e_queue e)" and out: "row_out (e_queue e) row" and tid: "t_id t = turn_id (e_turn_seq e)"
    using inv cur row by (auto simp: client_inv_def cur_ok_def)
  define e3 where "e3 = remember_err t ((case e_exit_fence e of
        Some f \<Rightarrow> if xf_turn f = t_id t then e\<lparr>e_queue := q, e_exit_fence := Some (f\<lparr>xf_turn := []\<rparr>)\<rparr> else e\<lparr>e_queue := q\<rparr>
      | None \<Rightarrow> e\<lparr>e_queue := q\<rparr>)\<lparr>e_cur := None, e_activity := ActivityIdle, e_activity_at := e_now e, e_cancelled := False\<rparr>)"
  have f3: "e_cur e3 = None" "e_queue e3 = q" "e_armed e3 = e_armed e" "e_turn_seq e3 = e_turn_seq e"
    "e_log e3 = e_log e" "\<not> e_closed e3"
    using open' by (auto simp: e3_def split: option.split)
  define d where "d = (case e_armed e3 of
      Some a \<Rightarrow> if as_turn a \<noteq> t_id t then disarm_locked ''other_turn'' [] [] e3 else ([], e3) | None \<Rightarrow> ([], e3))"
  have f4: "e_cur (snd d) = None" "e_queue (snd d) = q" "e_turn_seq (snd d) = e_turn_seq e"
    "e_log (snd d) = e_log e" "\<not> e_closed (snd d)"
    using f3 by (auto simp: d_def split: option.split)
  have dis: "disarms e3 (fst d) (snd d)"
    by (auto simp: d_def disarms_refl disarms_locked split: option.split)
  define info where "info = (turn_info_of (t_id t) TurnEnded)\<lparr>ti_synthetic := True,
                   ti_err := (case t_err t of None \<Rightarrow> [] | Some err \<Rightarrow> te_text err),
                   ti_err_class := (case t_err t of None \<Rightarrow> [] | Some err \<Rightarrow> te_class err),
                   ti_info := (case t_err t of None \<Rightarrow> [] | Some err \<Rightarrow> te_info err),
                   ti_pending := pq_len (e_queue e3)\<rparr>"
  define evs where "evs = batch @ [stamp e (EvQueue qev) (t_cause t)] @ [stamp e (EvTurn info) (t_cause t)] @ fst d"
  have shape: "snd (restore_locked t row batch e) = (enqueue evs (snd d))\<lparr>e_recheck := True, e_rearm := True\<rparr>"
    by (simp add: restore_locked_def r Let_def split_beta evs_def info_def d_def e3_def split: option.split)
  have rows: "queue_events q0 (batch @ [stamp e (EvQueue qev) (t_cause t)]) q"
    using queue_events_trans [OF batch(1) queue_events_restore [OF qinv out r]] by simp
  let ?v = "(view_of e)\<lparr>cv_rows := pq_items q0\<rparr>"
  let ?v1 = "(view_of e)\<lparr>cv_rows := pq_items q, cv_turn := None\<rparr>"
  have "fold_events client_apply (batch @ [stamp e (EvQueue qev) (t_cause t)]) ?v = (view_of e)\<lparr>cv_rows := pq_items q\<rparr>"
    using queue_events_view [OF rows, of ?v] by (simp add: view_of_def)
  moreover have "client_apply (stamp e (EvTurn info) (t_cause t)) ((view_of e)\<lparr>cv_rows := pq_items q\<rparr>) = ?v1"
    using cur f3(2) by (simp add: client_apply_def client_turn_def view_of_def info_def turn_info_of_def pq_len_def)
  moreover have "fold_events client_apply (fst d) ?v1 = ?v1\<lparr>cv_armed := map_option armed_view (e_armed (snd d))\<rparr>"
    using disarms_view [OF dis, of ?v1] f3(3) by (simp add: view_of_def)
  ultimately have "fold_events client_apply evs ?v = view_of (snd (restore_locked t row batch e))"
    using f4 by (simp add: evs_def shape view_of_def)
  moreover have "client_inv (snd (restore_locked t row batch e))"
    using f4 queue_events_inv [OF rows] by (simp add: shape client_inv_def)
  moreover have "withdraws (fst d)" by (simp add: d_def split: option.split)
  then have "section_says evs" using batch(2) by (simp add: evs_def info_def turn_info_of_def
        after_ending_withdraws [of "fst d" _ "[]", simplified])
  moreover have "e_log (snd (restore_locked t row batch e)) = e_log e @ evs"
    using f4 by (simp add: shape enqueue_def)
  ultimately show ?thesis by blast
qed

lemma settle_tells:
  assumes inv: "client_inv e" and cur: "e_cur e = Some t" and open': "\<not> e_closed e"
  shows "tells e (snd (settle_locked t e)) \<and> says e (snd (settle_locked t e))"
proof (cases "e_retry_foreign e \<and> \<not> e_stopped e \<and> \<not> t_given_up t \<and> turn_is t ErrForeignTurn")
  case True
  then show ?thesis
    by (simp add: settle_locked_def says_frame wake_def) (rule tells_turn [OF inv _ cur], simp_all)
next
  case False
  obtain batch e1 where r: "return_steers (tr_unanswered (t_res t)) e = (batch, e1)"
    by (cases "return_steers (tr_unanswered (t_res t)) e")
  from return_steers_law [OF inv r] have q: "queue_events (e_queue e) batch (e_queue e1)"
    and "\<exists>q1. e1 = e\<lparr>e_queue := q1\<rparr>" and inv1: "client_inv e1" by blast+
  note q = q return_steers_turnless [of "tr_unanswered (t_res t)" e, unfolded r fst_conv]
  from \<open>\<exists>q1. e1 = e\<lparr>e_queue := q1\<rparr>\<close> obtain q1 where e1: "e1 = e\<lparr>e_queue := q1\<rparr>" by blast
  have f1: "e_cur e1 = Some t" "\<not> e_closed e1" "e_log e1 = e_log e"
    "(view_of e1)\<lparr>cv_rows := pq_items (e_queue e)\<rparr> = view_of e"
    using cur open' by (simp_all add: view_of_def e1)
  note et = end_turn_tells [OF inv1 f1(1,2) q, unfolded f1(3,4)]
  show ?thesis
  proof (cases "t_row t = None \<or> \<not> restores t e1")
    case True
    with False r have "settle_locked t e = end_turn t batch e1"
      by (auto simp: settle_locked_def split: option.split)
    with et show ?thesis by (auto simp: tells_def says_def)
  next
    case res: False
    then obtain row where row: "t_row t = Some row" by auto
    with False res r have "settle_locked t e = restore_locked t row batch e1"
      by (auto simp: settle_locked_def)
    with restore_tells [OF inv1 f1(1,2) row q, unfolded f1(3,4)] show ?thesis by (auto simp: tells_def says_def)
  qed
qed

lemma launch_locked_simps [simp]:
  "e_cur (snd (launch_locked tid b e)) = e_cur e" "e_queue (snd (launch_locked tid b e)) = e_queue e"
  "e_armed (snd (launch_locked tid b e)) = e_armed e" "e_turn_seq (snd (launch_locked tid b e)) = e_turn_seq e"
  "e_log (snd (launch_locked tid b e)) = e_log e" "e_closed (snd (launch_locked tid b e)) = e_closed e"
  by (simp_all add: launch_locked_def)

lemma begin_call_simps [simp]:
  "e_cur (begin_call_on p e) = e_cur e" "e_queue (begin_call_on p e) = e_queue e"
  "e_armed (begin_call_on p e) = e_armed e" "e_turn_seq (begin_call_on p e) = e_turn_seq e"
  "e_log (begin_call_on p e) = e_log e" "e_closed (begin_call_on p e) = e_closed e"
  by (simp_all add: begin_call_on_def)

lemma retry_tells:
  assumes inv: "client_inv e" and cur: "e_cur e = Some t" and open': "\<not> e_closed e"
  shows "tells e (snd (retry_locked t e))"
proof (cases "e_stopped e")
  case True
  define e1 where "e1 = e\<lparr>e_cur := Some (t\<lparr>t_retry := False\<rparr>)\<rparr>"
  have step: "tells e e1" unfolding e1_def by (rule tells_turn [OF inv _ cur]) simp_all
  then have "client_inv e1" by (simp add: tells_def)
  from settle_tells [OF this, THEN conjunct1, of "t\<lparr>t_retry := False\<rparr>"] open'
  have "tells e1 (snd (settle_locked (t\<lparr>t_retry := False\<rparr>) e1))" by (simp add: e1_def)
  with step True show ?thesis
    by (auto simp: retry_locked_def Let_def e1_def [symmetric] intro: tells_trans)
next
  case False
  then show ?thesis
    by (auto simp: retry_locked_def split_beta Let_def cur intro!: tells_refl [OF inv] tells_frame [OF inv]
        tells_turn [OF inv _ cur])
qed

lemma drain_says:
  assumes "client_inv e"
  shows "says e (snd (drain_locked e))"
proof -
  obtain l before gone e1 where n: "next_locked True e = (l, before, gone, e1)" by (cases "next_locked True e")
  from next_locked_law [OF assms, of True] n have law: "next_law e (l, before, gone, e1)" by simp
  have "turnless (gone @ before)" using next_locked_words [of True e] n by (simp add: withdraws_turnless)
  moreover have "\<exists>t. started_of_cur e1 = [started_event e1 t]" if "l = Some l'" for l'
    using law that by (auto simp: next_law_def claimed_def started_of_cur_def)
  ultimately have "section_says (gone @ before @ (if l = None then [] else started_of_cur e1))"
    using section_says_turnless [of "gone @ before"] by (cases l) (auto simp: section_says_turnlessI)
  moreover have "e_log e1 = e_log e" using law by (simp add: next_law_def)
  ultimately show ?thesis using n by (auto simp: drain_locked_def intro: says_enqueue split: option.split)
qed

lemma retry_says:
  assumes inv: "client_inv e" and cur: "e_cur e = Some t" and open': "\<not> e_closed e"
  shows "says e (snd (retry_locked t e))"
proof (cases "e_stopped e")
  case True
  define e1 where "e1 = e\<lparr>e_cur := Some (t\<lparr>t_retry := False\<rparr>)\<rparr>"
  have "tells e e1" unfolding e1_def by (rule tells_turn [OF inv _ cur]) simp_all
  then have "client_inv e1" by (simp add: tells_def)
  from settle_tells [OF this, THEN conjunct2, of "t\<lparr>t_retry := False\<rparr>"] open'
  have "says e1 (snd (settle_locked (t\<lparr>t_retry := False\<rparr>) e1))" by (simp add: e1_def)
  then have "says e (snd (settle_locked (t\<lparr>t_retry := False\<rparr>) e1))" by (simp add: says_def e1_def)
  with True show ?thesis by (simp add: retry_locked_def Let_def e1_def [symmetric] says_frame) (simp add: e1_def says_frame)
next
  case False
  then show ?thesis by (auto simp: retry_locked_def split_beta Let_def intro!: says_frame)
qed

lemma pass_says: "client_inv e \<Longrightarrow> says e (snd (pass_locked e))"
  by (auto simp: pass_locked_def says_frame drain_says retry_says settle_tells split: option.split)

lemma pass_tells: "client_inv e \<Longrightarrow> tells e (snd (pass_locked e))"
  by (auto simp: pass_locked_def tells_refl drain_tells retry_tells settle_tells split: option.split)

section \<open>Every section tells its clients\<close>

lemma tells_inv: "tells e e' \<Longrightarrow> client_inv e'"
  by (simp add: tells_def)

lemma tells_sync: "tells e e1 \<Longrightarrow> tells e (sync_fence e1)"
  by (rule tells_trans, assumption) (rule tells_frame, simp_all add: tells_inv)

lemma tells_raise: "client_inv e \<Longrightarrow> tells e (raise_fence e)"
  by (rule tells_frame) simp_all

text \<open>A section that only adds queue events to the log.\<close>

lemma tells_queue:
  assumes inv: "client_inv e" and q: "queue_events (e_queue e) evs q'"
    and out: "\<And>row. row_out (e_queue e) row \<Longrightarrow> row_out q' row"
  shows "tells e (enqueue evs (e\<lparr>e_queue := q'\<rparr>))"
proof (rule tellsI [of _ _ evs])
  show "client_inv (enqueue evs (e\<lparr>e_queue := q'\<rparr>))"
    using inv out queue_events_inv [OF q] by (simp add: client_inv_def cur_ok_def)
  show "e_log (enqueue evs (e\<lparr>e_queue := q'\<rparr>)) = e_log e @ evs" by (simp add: enqueue_def)
  show "fold_events client_apply evs (view_of e) = view_of (enqueue evs (e\<lparr>e_queue := q'\<rparr>))"
    using queue_events_view [OF q, of "view_of e"] by (simp add: view_of_def)
qed

lemma tells_disarm:
  assumes inv: "client_inv e"
  shows "tells e (enqueue (fst (disarm_locked w c d e)) (snd (disarm_locked w c d e)))"
proof (rule tellsI [of _ _ "fst (disarm_locked w c d e)"])
  show "client_inv (enqueue (fst (disarm_locked w c d e)) (snd (disarm_locked w c d e)))"
    using inv by (simp add: client_inv_def cur_ok_def)
  show "fold_events client_apply (fst (disarm_locked w c d e)) (view_of e) =
      view_of (enqueue (fst (disarm_locked w c d e)) (snd (disarm_locked w c d e)))"
    using disarms_view [OF disarms_locked [of e w c d], of "view_of e"] by (simp add: view_of_def)
qed (simp add: enqueue_def)

lemma started_tells: "client_inv e \<Longrightarrow> tells e (started err e)"
  by (rule tells_frame)
    (simp_all add: started_def retire_replay_def Let_def split: option.split)

lemma close_tells:
  assumes inv: "client_inv e"
  shows "tells e (close_section e)"
proof (cases "e_closed e")
  case True
  with inv show ?thesis by (simp add: close_section_def tells_refl)
next
  case False
  define e1 where "e1 = raise_fence (e\<lparr>e_closed := True, e_activity := ActivityClosing, e_activity_at := e_now e\<rparr>)"
  define batch where "batch = (case e_cur e of None \<Rightarrow> [] | Some t \<Rightarrow>
      [stamp e1 (EvTurn ((turn_info_of (t_id t) TurnEnded)\<lparr>ti_synthetic := True,
         ti_stop_reason := stopClosing, ti_pending := pq_len (e_queue e),
         ti_cause := e_close_cause e\<rparr>)) (t_cause t)])"
  define e2 where "e2 = (case e_cur e of None \<Rightarrow> e1 | Some t \<Rightarrow> e1\<lparr>e_cur := None\<rparr>)"
  define d where "d = disarm_locked ''closing'' [] [] e2"
  have f1: "e_cur e1 = e_cur e" "e_queue e1 = e_queue e" "e_armed e1 = e_armed e" "e_turn_seq e1 = e_turn_seq e"
    "e_log e1 = e_log e" "e_close_cause e1 = e_close_cause e"
    by (simp_all add: e1_def)
  have f2: "e_cur e2 = None" "e_queue e2 = e_queue e" "e_armed e2 = e_armed e" "e_turn_seq e2 = e_turn_seq e"
    "e_log e2 = e_log e"
    using f1 by (simp_all add: e2_def split: option.split)
  have shape: "close_section e = (enqueue (batch @ fst d) (snd d))\<lparr>e_ready := True\<rparr>"
    using False f1 by (auto simp: close_section_def e1_def [symmetric] Let_def split_beta batch_def d_def e2_def
        split: option.split)
  show ?thesis
  proof (rule tellsI [of _ _ "batch @ fst d"])
    show "client_inv (close_section e)" using inv f2 by (simp add: shape client_inv_def d_def)
    show "e_log (close_section e) = e_log e @ batch @ fst d" using f2 by (simp add: shape enqueue_def d_def)
    have "fold_events client_apply batch (view_of e) = (view_of e)\<lparr>cv_turn := None\<rparr>"
      by (auto simp: batch_def client_apply_def client_turn_def turn_info_of_def view_of_def pq_len_def
          split: option.split)
    with disarms_view [OF disarms_locked [of e2 "''closing''" "[]" "[]"], of "(view_of e)\<lparr>cv_turn := None\<rparr>"] f2
    show "fold_events client_apply (batch @ fst d) (view_of e) = view_of (close_section e)"
      by (simp add: shape view_of_def d_def)
  qed
qed

lemma tells_stop:
  assumes inv: "client_inv e"
  shows "tells e (stop_locked cause e)"
proof -
  define e1 where "e1 = e\<lparr>e_stopped := True\<rparr>"
  have t1: "tells e e1" unfolding e1_def by (rule tells_frame [OF inv]) simp_all
  then have qi: "pq_inv (e_queue e1)" by (simp add: tells_def client_inv_def)
  define c where "c = clear_rows [] e1"
  define e2 where "e2 = enqueue (fst c) (snd c)"
  note cr = clear_rows_law [OF qi, where c = "[]", folded c_def]
  from cr(2) obtain q where sc: "snd c = e1\<lparr>e_queue := q\<rparr>" by blast
  have t2: "tells e1 e2"
    unfolding e2_def sc by (rule tells_queue [OF tells_inv [OF t1]]) (use cr(1,3) sc in simp_all)
  have t3: "tells e2 (enqueue (fst (disarm_locked ''stopped'' cause [] e2)) (snd (disarm_locked ''stopped'' cause [] e2)))"
    by (rule tells_disarm [OF tells_inv [OF t2]])
  have "stop_locked cause e = enqueue (fst (disarm_locked ''stopped'' cause [] e2)) (snd (disarm_locked ''stopped'' cause [] e2))"
    by (simp add: stop_locked_def e1_def [symmetric] c_def [symmetric] split_beta Let_def e2_def)
      (simp add: disarm_locked_def enqueue_def stamp_def split: option.split)
  with tells_trans [OF t1 tells_trans [OF t2 t3]] show ?thesis by simp
qed

lemma tells_take_hold:
  assumes inv: "client_inv e"
  shows "tells e (take_hold e)"
proof (cases "e_cur e")
  case None
  then show ?thesis by (intro tells_frame [OF inv]) (simp_all add: take_hold_def)
next
  case (Some t)
  then show ?thesis by (intro tells_turn [OF inv _ Some]) (simp_all add: take_hold_def)
qed

text \<open>\<open>hold_cancel_locked\<close> by its outcomes: refused with nothing changed but the fence and the reads, or
  the hold taken, behind the stop where one was asked for.\<close>

definition hold_reads :: "string \<Rightarrow> bool \<Rightarrow> nat \<Rightarrow> engine \<Rightarrow> engine" where
  "hold_reads tid stop asks e =
     (if \<not> stop \<and> tid = [] \<and> asks = 0 then snd (foreign_locked e) else e)"

lemma hold_cancel_cases:
  obtains (refused) err e1 where "hold_cancel_locked turn stop asks cause e = (Inl err, e1)"
      "e1 \<in> {raise_fence e, snd (foreign_locked (raise_fence e))}"
  | (held) tid e1 where "hold_cancel_locked turn stop asks cause e =
        (Inr tid, take_hold (if stop \<and> \<not> e_stopped e1 then stop_locked cause e1 else e1))"
      "e1 \<in> {raise_fence e, snd (foreign_locked (raise_fence e))}" "\<not> e_closed e"
      "tid = (case e_cur e of None \<Rightarrow> [] | Some t \<Rightarrow> t_id t)" "turn = [] \<or> turn = tid"
proof -
  define tid where "tid = (case e_cur e of None \<Rightarrow> [] | Some t \<Rightarrow> t_id t)"
  define e1 where "e1 = hold_reads tid stop asks (raise_fence e)"
  have e1: "e1 \<in> {raise_fence e, snd (foreign_locked (raise_fence e))}" by (simp add: e1_def hold_reads_def)
  have r: "(if \<not> stop \<and> tid = [] \<and> asks = 0
             then (let (f, e') = foreign_locked (raise_fence e) in (\<not> f, e')) else (False, raise_fence e))
      = (\<not> stop \<and> tid = [] \<and> asks = 0 \<and> \<not> fst (foreign_locked (raise_fence e)), e1)"
    by (auto simp: e1_def hold_reads_def split_beta Let_def)
  note h = hold_cancel_locked_def Let_def tid_def [symmetric]
  show ?thesis
  proof (cases "e_closed e \<or> turn \<noteq> [] \<and> turn \<noteq> tid")
    case True
    then have "\<exists>err. hold_cancel_locked turn stop asks cause e = (Inl err, raise_fence e)"
      by (auto simp: h)
    with refused show ?thesis by blast
  next
    case False
    then have eq: "hold_cancel_locked turn stop asks cause e =
        (if \<not> stop \<and> tid = [] \<and> asks = 0 \<and> \<not> fst (foreign_locked (raise_fence e)) then (Inl [ErrNotAccepting], e1)
         else (Inr tid, take_hold (if stop \<and> \<not> e_stopped e1 then stop_locked cause e1 else e1)))"
      using r by (auto simp: h)
    show ?thesis
    proof (cases "\<not> stop \<and> tid = [] \<and> asks = 0 \<and> \<not> fst (foreign_locked (raise_fence e))")
      case True
      with eq have "hold_cancel_locked turn stop asks cause e = (Inl [ErrNotAccepting], e1)" by simp
      with e1 refused show ?thesis by blast
    next
      case no: False
      with eq have "hold_cancel_locked turn stop asks cause e =
          (Inr tid, take_hold (if stop \<and> \<not> e_stopped e1 then stop_locked cause e1 else e1))" by (simp only: if_False)
      with e1 False held tid_def show ?thesis by blast
    qed
  qed
qed

lemma tells_reads: "client_inv e \<Longrightarrow> e1 \<in> {raise_fence e, snd (foreign_locked (raise_fence e))} \<Longrightarrow> tells e e1"
  by (elim insertE) (auto intro: tells_frame)

lemma tells_hold:
  assumes inv: "client_inv e"
  shows "tells e (snd (hold_cancel_locked turn stop asks cause e))"
proof (rule hold_cancel_cases [of turn stop asks cause e])
  fix err e1
  assume "hold_cancel_locked turn stop asks cause e = (Inl err, e1)"
    "e1 \<in> {raise_fence e, snd (foreign_locked (raise_fence e))}"
  with tells_reads [OF inv] show ?thesis by simp
next
  fix tid e1
  assume *: "hold_cancel_locked turn stop asks cause e =
        (Inr tid, take_hold (if stop \<and> \<not> e_stopped e1 then stop_locked cause e1 else e1))"
    "e1 \<in> {raise_fence e, snd (foreign_locked (raise_fence e))}"
  from tells_reads [OF inv *(2)] have t1: "tells e e1" .
  then have t2: "tells e (if stop \<and> \<not> e_stopped e1 then stop_locked cause e1 else e1)"
    by (auto intro: tells_trans tells_stop tells_inv)
  with * tells_trans [OF t2 tells_take_hold [OF tells_inv [OF t2]]] show ?thesis by simp
qed

lemma can_submit_free: "fst (can_submit e) \<Longrightarrow> e_cur e = None \<and> \<not> e_closed e"
  using can_start_free [of e] by (auto simp: can_submit_def refusal_def split: if_splits)

lemma reserve_tells:
  assumes inv: "client_inv e" and free: "e_cur e = None" "\<not> e_closed e"
    and orig: "orig = TurnOriginSendNow \<longrightarrow> e_armed e = None"
    and row: "\<And>row. from = Some row \<Longrightarrow> row \<in> set (pq_items (e_queue e))"
  shows "tells e (snd (reserve_locked prompt orig cause from e))"
proof -
  define e1 where "e1 = snd (claim_locked prompt orig cause e)"
  define r where "r = (case from of None \<Rightarrow> ([], e1) | Some row \<Rightarrow> take_row (qp_id row) cause e1)"
  define evs where "evs = fst r @ started_of_cur (snd r)"
  define e3 where "e3 = enqueue evs (snd r)"
  define e4 where "e4 = (case from of None \<Rightarrow> e3 | Some row \<Rightarrow> set_row row e3)"
  have shape: "snd (reserve_locked prompt orig cause from e) = e4"
    by (simp add: reserve_locked_def split_beta Let_def e4_def e3_def evs_def r_def e1_def split: option.split)
  have qinv: "pq_inv (e_queue e)" using inv by (simp add: client_inv_def)
  have "queue_events (e_queue e) (fst r) (e_queue (snd r)) \<and> (\<forall>row. from = Some row \<longrightarrow> row_out (e_queue (snd r)) row)"
  proof (cases "from")
    case None
    with qinv show ?thesis by (simp add: r_def e1_def queue_events_refl)
  next
    case (Some x)
    from take_row_law [of e1 x, OF _ _ refl, of cause] row [OF Some] qinv Some
    show ?thesis by (simp add: r_def e1_def)
  qed
  then have q: "queue_events (e_queue e) (fst r) (e_queue (snd r))"
    and out: "\<And>row. from = Some row \<Longrightarrow> row_out (e_queue (snd r)) row" by auto
  have fr: "e_cur (snd r) = e_cur e1" "e_turn_seq (snd r) = Suc (e_turn_seq e)" "e_armed (snd r) = e_armed e"
    "e_log (snd r) = e_log e" "e_closed (snd r) = e_closed e"
    by (auto simp: r_def e1_def split: option.split)
  obtain t where t: "e_cur (snd r) = Some t" "t_id t = turn_id (Suc (e_turn_seq e))" "t_origin t = orig"
    "t_row t = None"
    using fr(1) by (simp add: e1_def)
  have f4: "e_queue e4 = e_queue (snd r)" "e_turn_seq e4 = Suc (e_turn_seq e)" "e_armed e4 = e_armed e"
    "e_closed e4 = e_closed e" "e_log e4 = e_log e @ evs"
    using fr by (simp_all add: e4_def e3_def enqueue_def split: option.split)
  show ?thesis unfolding shape
  proof (rule tellsI [OF _ f4(5)])
    show "client_inv e4"
      using t out queue_events_inv [OF q] free f4
      by (auto simp: client_inv_def cur_ok_def e4_def e3_def split: option.splits)
    have "fold_events client_apply (fst r) (view_of e) = (view_of e)\<lparr>cv_rows := pq_items (e_queue (snd r))\<rparr>"
      using queue_events_view [OF q] by (simp add: view_of_def)
    moreover have "map_option t_id (e_cur e4) = Some (t_id t)"
      using t by (simp add: e4_def e3_def split: option.split)
    ultimately show "fold_events client_apply evs (view_of e) = view_of e4"
      using t f4 free orig
      by (auto simp: evs_def started_of_cur_def client_apply_started view_of_def)
  qed
qed

lemma tells_exit_fence: "tells e e1 \<Longrightarrow> tells e (e1\<lparr>e_exit_fence := f\<rparr>)"
  by (rule tells_trans, assumption) (rule tells_frame, simp_all add: tells_inv)

lemma submit_start_tells:
  assumes inv: "client_inv e" and free: "e_cur e = None" "\<not> e_closed e"
    and mode: "mode = SubmitSendNow \<longrightarrow> e_armed e = None"
  shows "tells e (snd (snd (submit_start cause prompt mode from fence e)))"
proof (cases "submit_source prompt from e")
  case (Inl err)
  then show ?thesis using inv by (simp add: submit_start_def tells_refl)
next
  case (Inr sr)
  obtain source row where sr: "sr = (source, row)" by (cases sr)
  with Inr have row: "r \<in> set (pq_items (e_queue e))" if "row = Some r" for r
    using that row_locked_SomeD by (auto simp: submit_source_def split: if_splits option.splits)
  define orig where "orig = (if mode = SubmitSendNow then TurnOriginSendNow else TurnOriginSubmit)"
  have "tells e (snd (reserve_locked source orig cause row e))"
    by (rule reserve_tells [OF inv free]) (use mode row in \<open>auto simp: orig_def split: if_splits\<close>)
  with Inr sr tells_exit_fence [OF this] show ?thesis
    by (simp add: submit_start_def split_beta Let_def orig_def [symmetric])
qed

lemma submit_queue_tells:
  assumes inv: "client_inv e"
  shows "tells e (snd (submit_queue cause prompt from fence e))"
proof -
  have add: "tells e (enqueue [stamp e (EvQueue qev) cause] (e\<lparr>e_queue := q\<rparr>))"
    if "pq_add prompt (e_now e) (e_queue e) = Inr (row, qev, q)" for row qev q
    using that inv by (intro tells_queue) (auto simp: client_inv_def intro: queue_events_add row_out_add)
  with tells_exit_fence inv show ?thesis
    by (auto simp: submit_queue_def Let_def tells_refl split: option.split sum.split)
qed

lemma submit_gates_frame:
  "e_cur (snd (submit_gates mode from e)) = e_cur e" "e_queue (snd (submit_gates mode from e)) = e_queue e"
  "e_armed (snd (submit_gates mode from e)) = e_armed e" "e_turn_seq (snd (submit_gates mode from e)) = e_turn_seq e"
  "e_log (snd (submit_gates mode from e)) = e_log e" "e_closed (snd (submit_gates mode from e)) = e_closed e"
  by (auto simp: submit_gates_def admit_locked_def split_beta Let_def split: option.split)

lemma submit_gates_armed: "submit_gates SubmitSendNow from e = (None, e1) \<Longrightarrow> e_armed e = None"
  by (auto simp: submit_gates_def admit_locked_def split_beta Let_def split: option.splits if_splits)

lemma arm_tells:
  assumes inv: "client_inv e"
  shows "tells e (snd (arm_locked cause prompt from e))"
proof (cases "e_cur e")
  case None
  then show ?thesis using inv by (simp add: arm_locked_def tells_refl)
next
  case (Some t)
  obtain r e1 where h: "hold_cancel_locked (t_id t) False 0 cause e = (r, e1)"
    by (cases "hold_cancel_locked (t_id t) False 0 cause e")
  from tells_hold [OF inv, of "t_id t" False 0 cause] h have t1: "tells e e1" by simp
  have "tells e1 (enqueue [stamp e1 (EvMeta (Some \<lparr>sn_armed = True, sn_text = prompt, sn_from_row = from,
                       sn_turn = t_id t\<rparr>) [] []) cause]
                    (e1\<lparr>e_armed := Some \<lparr>as_text = prompt, as_from = from, as_turn = t_id t, as_cause = cause\<rparr>\<rparr>))"
    using tells_inv [OF t1]
    by (intro tellsI) (auto simp: client_inv_def cur_ok_def enqueue_def client_apply_def view_of_def armed_view_def)
  from tells_trans [OF t1 this] t1 inv Some h show ?thesis
    by (auto simp: arm_locked_def tells_refl split: sum.split)
qed

lemma submit_tells:
  assumes inv: "client_inv e"
  shows "tells e (snd (snd (snd (submit cause prompt mode from fence e))))"
proof -
  obtain gate e1 where g: "submit_gates mode from (raise_fence e) = (gate, e1)"
    by (cases "submit_gates mode from (raise_fence e)")
  from submit_gates_frame [of mode "from" "raise_fence e"] g
  have f: "e_cur e1 = e_cur e" "e_queue e1 = e_queue e" "e_armed e1 = e_armed e" "e_turn_seq e1 = e_turn_seq e"
    "e_log e1 = e_log e" "e_closed e1 = e_closed e"
    by simp_all
  have t1: "tells e e1" by (rule tells_frame [OF inv]) (simp_all add: f)
  obtain start e2 where s: "can_submit e1 = (start, e2)" by (cases "can_submit e1")
  have f2: "e_cur e2 = e_cur e1" "e_queue e2 = e_queue e1" "e_armed e2 = e_armed e1" "e_turn_seq e2 = e_turn_seq e1"
    "e_log e2 = e_log e1" "e_closed e2 = e_closed e1"
    using can_submit_frame [of e1] by (simp_all add: s)
  have t2: "tells e e2"
    by (rule tells_trans [OF t1], rule tells_frame [OF tells_inv [OF t1]]) (simp_all add: f2)
  note inv2 = tells_inv [OF t2]
  have start: "tells e (snd (snd (submit_start cause prompt mode from fence e2)))" if start "gate = None"
  proof (rule tells_trans [OF t2], rule submit_start_tells [OF inv2])
    show "e_cur e2 = None" "\<not> e_closed e2" using can_submit_free [of e1] s that f2 by simp_all
    show "mode = SubmitSendNow \<longrightarrow> e_armed e2 = None"
      using submit_gates_armed [of "from" "raise_fence e" e1] g that f f2 by auto
  qed
  have "tells e (snd (arm_locked cause prompt from e2))" "tells e (snd (submit_queue cause prompt from fence e2))"
    using tells_trans [OF t2 arm_tells [OF inv2]] tells_trans [OF t2 submit_queue_tells [OF inv2]] by auto
  note arm = this(1) and queue = this(2)
  show ?thesis
  proof (cases gate)
    case (Some err)
    with g t1 show ?thesis by (simp add: submit_def tells_sync)
  next
    case None
    then have eq: "snd (snd (snd (submit cause prompt mode from fence e))) =
        sync_fence (if start then snd (snd (submit_start cause prompt mode from fence e2))
          else if mode = SubmitSendNow then snd (arm_locked cause prompt from e2)
          else snd (submit_queue cause prompt from fence e2))"
      using g s by (simp add: submit_def split_beta split: sum.split)
    show ?thesis unfolding eq by (rule tells_sync) (use start arm queue None in simp)
  qed
qed

lemma verbs_tell:
  assumes inv: "client_inv e"
  shows "tells e (snd (queue_verb cause prompt e))"
    and "tells e (snd (edit_queued cause rid prompt expected e))"
    and "tells e (snd (unqueue cause rid e))"
    and "tells e (snd (clear_queue cause e))"
    and "tells e (snd (disarm cause e))"
proof -
  have qi: "pq_inv (e_queue e)" using inv by (simp add: client_inv_def)
  note sync = tells_sync [OF tells_refl [OF inv]] and q = tells_sync [OF tells_queue [OF inv]]
  show "tells e (snd (queue_verb cause prompt e))"
    by (auto simp: queue_verb_def sync intro!: q queue_events_add [OF qi] elim: row_out_add
        split: option.split sum.split)
  show "tells e (snd (edit_queued cause rid prompt expected e))"
    by (auto simp: edit_queued_def sync intro!: q queue_events_edit [OF qi] elim: row_out_edit
        split: option.split sum.split)
  show "tells e (snd (unqueue cause rid e))"
    by (auto simp: unqueue_def sync intro!: q queue_events_remove [OF qi] elim: row_out_take_as
        simp: pq_remove_def split: option.split)
  show "tells e (snd (disarm cause e))"
    by (auto simp: disarm_def split_beta Let_def tells_refl [OF inv] intro!: tells_disarm [OF inv] split: option.split)
  obtain q where c: "snd (clear_rows cause e) = e\<lparr>e_queue := q\<rparr>" using clear_rows_law(2) [OF qi] by blast
  have "tells e (enqueue (fst (clear_rows cause e)) (e\<lparr>e_queue := q\<rparr>))"
    by (rule tells_queue [OF inv]) (use clear_rows_law(1,3) [OF qi, where c = cause] c in simp_all)
  with c show "tells e (snd (clear_queue cause e))"
    by (auto simp: clear_queue_def split_beta Let_def sync intro: tells_sync split: option.split)
qed

lemma hold_cancel_tells: "client_inv e \<Longrightarrow> tells e (snd (hold_cancel turn stop asks cause e))"
  by (simp add: hold_cancel_def split_beta)
    (rule tells_sync, rule tells_trans [OF tells_raise], assumption, rule tells_hold, rule tells_inv,
      rule tells_raise)

lemma release_failure_tells:
  assumes inv: "client_inv e"
  shows "tells e (snd (release_failure held cause cancel_err own e))"
proof -
  have "tells e (enqueue [stamp e (EvMeta None ''cancel_failed'' d) cause] e)" for d
    using inv by (intro tellsI) (auto simp: client_inv_def cur_ok_def enqueue_def client_apply_def view_of_def)
  with inv show ?thesis
    by (auto simp: release_failure_def split_beta Let_def tells_refl intro!: tells_disarm split: option.split)
qed

lemma release_tells:
  assumes inv: "client_inv e"
  shows "tells e (snd (snd (release_hold held cause ws cancel_err own e)))"
proof -
  define e1 where "e1 = (raise_fence e)\<lparr>e_cancels := e_cancels (raise_fence e) - 1\<rparr>"
  have t1: "tells e e1" by (rule tells_frame [OF inv]) (simp_all add: e1_def)
  have t2: "tells e (snd (release_failure held cause cancel_err own e1))"
    by (rule tells_trans [OF t1 release_failure_tells [OF tells_inv [OF t1]]])
  have "tells e (snd (pass_locked (snd (release_failure held cause cancel_err own e1))))"
    by (rule tells_trans [OF t2 pass_tells [OF tells_inv [OF t2]]])
  then show ?thesis by (simp add: release_hold_def split_beta Let_def e1_def tells_sync)
qed

lemma returned_tells:
  assumes inv: "client_inv e"
  shows "tells e (snd (turn_returned tid res err e))"
proof -
  define e1 where "e1 = raise_fence (e\<lparr>e_out := remove1 tid (e_out e)\<rparr>)"
  have f1: "e_cur e1 = e_cur e" "e_queue e1 = e_queue e" "e_armed e1 = e_armed e" "e_turn_seq e1 = e_turn_seq e"
    "e_log e1 = e_log e" "e_closed e1 = e_closed e"
    by (simp_all add: e1_def)
  define e2 where "e2 = (case e_cur e1 of None \<Rightarrow> e1 | Some t \<Rightarrow>
      if t_id t = tid then e1\<lparr>e_cur := Some (t\<lparr>t_res := res, t_err := err, t_returned := True\<rparr>)\<rparr> else e1)"
  have t2: "tells e e2"
  proof (cases "e_cur e")
    case None
    then show ?thesis by (intro tells_frame [OF inv]) (simp_all add: e2_def f1)
  next
    case (Some t)
    then show ?thesis by (intro tells_turn [OF inv _ Some]) (auto simp: e2_def f1)
  qed
  from tells_sync [OF tells_trans [OF t2 pass_tells [OF tells_inv [OF t2]]]] show ?thesis
    by (simp add: turn_returned_def split_beta Let_def e1_def [symmetric] e2_def [symmetric])
qed

lemma drive_due_tells:
  assumes inv: "client_inv e"
  shows "tells e (drive_due ticked e)"
proof (cases "e_cur e")
  case None
  then show ?thesis by (intro tells_frame [OF inv]) (simp_all add: drive_due_def)
next
  case (Some t)
  then show ?thesis by (intro tells_turn [OF inv _ Some]) (simp_all add: drive_due_def)
qed

lemma tells_tick: "tells e e1 \<Longrightarrow> tells e (e1\<lparr>e_tick := b\<rparr>)"
  by (rule tells_trans, assumption) (rule tells_frame, simp_all add: tells_inv)

lemma drive_pass_tells:
  assumes inv: "client_inv e"
  shows "tells e (snd (drive_pass ticked e))"
proof -
  have t1: "tells e (drive_due ticked (raise_fence e))"
    by (rule tells_trans [OF tells_raise [OF inv] drive_due_tells [OF tells_inv [OF tells_raise [OF inv]]]])
  from tells_tick [OF tells_sync [OF tells_trans [OF t1 pass_tells [OF tells_inv [OF t1]]]]] show ?thesis
    by (simp add: drive_pass_def split_beta Let_def)
qed

lemma drive_tells:
  assumes inv: "client_inv e"
  shows "tells e (snd (drive w e))"
proof -
  have k: "tells e (e\<lparr>e_kick := False\<rparr>)" by (rule tells_frame [OF inv]) simp_all
  have "tells e (e\<lparr>e_rearm := False, e_tick := True\<rparr>)" by (rule tells_frame [OF inv]) simp_all
  with tells_trans [OF k drive_pass_tells [OF tells_inv [OF k]]] inv show ?thesis
    by (auto simp: drive_def tells_refl drive_pass_tells split: wakeup.split)
qed

lemma give_up_tells:
  assumes inv: "client_inv e0"
  shows "tells e0 (snd (snd (give_up turn e0)))"
proof -
  define e where "e = raise_fence e0"
  have t: "tells e0 e" using tells_raise [OF inv] by (simp add: e_def)
  note inve = tells_inv [OF t]
  show ?thesis
  proof (cases "e_closed e \<or> e_cur e = None \<or> turn = [] \<or>
      (\<exists>t. e_cur e = Some t \<and> (t_id t \<noteq> turn \<or> \<not> t_retry t))")
    case True
    then have "snd (snd (give_up turn e0)) = sync_fence e"
      by (auto simp: give_up_def e_def [symmetric] Let_def split: option.split)
    with tells_sync [OF t] show ?thesis by simp
  next
    case False
    then obtain x where x: "e_cur e = Some x" "t_id x = turn" "t_retry x" "turn \<noteq> []" "\<not> e_closed e" by auto
    define x' where "x' = x\<lparr>t_given_up := True, t_retry := False, t_retry_due := False\<rparr>"
    define e1 where "e1 = e\<lparr>e_cur := Some x'\<rparr>"
    have t1: "tells e e1" unfolding e1_def x'_def by (rule tells_turn [OF inve _ x(1)]) simp_all
    have "tells e1 (snd (settle_locked x' e1))"
      by (rule settle_tells [OF tells_inv [OF t1], THEN conjunct1]) (use x in \<open>simp_all add: e1_def\<close>)
    then have "tells e0 (sync_fence e1)" "tells e0 (sync_fence (snd (settle_locked x' e1)))"
      using tells_trans [OF t t1] by (auto intro: tells_sync tells_trans)
    moreover have "snd (snd (give_up turn e0)) \<in> {sync_fence e1, sync_fence (snd (settle_locked x' e1))}"
      using x by (simp add: give_up_def e_def [symmetric] Let_def split_beta x'_def [symmetric] e1_def [symmetric])
    ultimately show ?thesis by auto
  qed
qed

lemma give_up_drain_tells:
  assumes inv: "client_inv e0"
  shows "tells e0 (snd (snd (give_up_drain e0)))"
proof -
  define e where "e = raise_fence e0"
  have t: "tells e0 e" using tells_raise [OF inv] by (simp add: e_def)
  note inve = tells_inv [OF t]
  define p where "p = (if e_cur e = None then pass_locked e else ([], e))"
  have t1: "tells e0 (snd p)"
    using tells_trans [OF t pass_tells [OF inve]] t by (simp add: p_def)
  define e2 where "e2 = (snd p)\<lparr>e_stopped := True\<rparr>"
  have t2: "tells e0 e2"
    by (rule tells_trans [OF t1], rule tells_frame [OF tells_inv [OF t1]]) (simp_all add: e2_def)
  from tells_sync [OF tells_trans [OF t2 tells_disarm [OF tells_inv [OF t2]]]]
    tells_sync [OF t] tells_sync [OF t1]
  show ?thesis
    by (simp add: give_up_drain_def e_def [symmetric] Let_def split_beta p_def [symmetric] e2_def [symmetric]
        split: option.split)
qed

lemma observe_frame:
  "e_cur (observe wall ev e) = e_cur e" "e_queue (observe wall ev e) = e_queue e"
  "e_armed (observe wall ev e) = e_armed e" "e_turn_seq (observe wall ev e) = e_turn_seq e"
  "e_log (observe wall ev e) = e_log e" "e_closed (observe wall ev e) = e_closed e"
  by (auto simp: observe_def wake_def split_beta Let_def split: event_body.split)

lemma section_tells:
  assumes inv: "client_inv e"
  shows "tells e (engine_section x e)"
proof (cases x)
  case OpCloseFence
  show ?thesis unfolding OpCloseFence engine_section.simps close_fence_up_def split_beta Let_def snd_conv
    by (rule tells_sync, rule tells_frame [OF inv]) simp_all
next
  case OpReleaseCloseFence
  show ?thesis unfolding OpReleaseCloseFence engine_section.simps release_close_fence_def Let_def
    by (rule tells_sync, rule tells_frame [OF inv]) (simp_all add: wake_def)
next
  case OpInterject
  show ?thesis unfolding OpInterject engine_section.simps
    by (rule tells_frame [OF inv]) (auto simp: interject_gate_def admit_locked_def split: option.split)
qed (use inv in \<open>auto simp: started_tells submit_tells verbs_tell hold_cancel_tells release_tells returned_tells
    drive_tells give_up_tells give_up_drain_tells close_tells admitted_def close_for_def observe_frame tells_refl
    intro: tells_frame [OF inv]\<close>)

section \<open>What each section may say\<close>

lemma hush_disarm [simp]: "hush e (enqueue (fst (disarm_locked w c d e)) (snd (disarm_locked w c d e)))"
  by (rule hush_enqueue) simp_all

lemma hush_stop: "hush e (stop_locked cause e)"
  by (simp add: stop_locked_def split_beta Let_def)
    (rule hush_enqueue, simp_all, simp add: clear_rows_def split_beta Let_def)

lemma hush_hold: "hush e (snd (hold_cancel_locked turn stop asks cause e))"
proof (rule hold_cancel_cases [of turn stop asks cause e])
  fix tid e1
  assume *: "hold_cancel_locked turn stop asks cause e =
        (Inr tid, take_hold (if stop \<and> \<not> e_stopped e1 then stop_locked cause e1 else e1))"
    "e1 \<in> {raise_fence e, snd (foreign_locked (raise_fence e))}"
  then have "hush e e1" by (auto intro: hush_frame)
  then have "hush e (if stop \<and> \<not> e_stopped e1 then stop_locked cause e1 else e1)"
    using hush_trans [OF _ hush_stop] by auto
  with * show ?thesis by (simp add: hush_def take_hold_def)
qed (auto intro: hush_frame)

lemma hush_hold_cancel: "hush e (snd (hold_cancel turn stop asks cause e))"
  using hush_hold [of "raise_fence e" turn stop asks cause] by (simp add: hold_cancel_def split_beta hush_def)

lemma arm_hush: "hush e (snd (arm_locked cause prompt from e))"
proof (cases "e_cur e")
  case None
  then show ?thesis by (simp add: arm_locked_def hush_frame)
next
  case (Some t)
  obtain r e1 where h: "hold_cancel_locked (t_id t) False 0 cause e = (r, e1)"
    by (cases "hold_cancel_locked (t_id t) False 0 cause e")
  with hush_hold [of e "t_id t" False 0 cause] have h1: "hush e e1" by simp
  show ?thesis
    using Some h h1 by (auto simp: arm_locked_def hush_frame intro!: hush_trans [OF h1] hush_enqueue split: sum.split)
qed

lemma reserve_says: "says e (snd (reserve_locked prompt orig cause from e))"
proof -
  define e1 where "e1 = snd (claim_locked prompt orig cause e)"
  define r where "r = (case from of None \<Rightarrow> ([], e1) | Some row \<Rightarrow> take_row (qp_id row) cause e1)"
  have "e_cur (snd r) = e_cur e1" "turnless (fst r)" "e_log (snd r) = e_log e"
    by (simp_all add: r_def e1_def split: option.split)
  then have "says e (enqueue (fst r @ started_of_cur (snd r)) (snd r))"
    by (intro says_enqueue) (simp_all add: e1_def started_of_cur_def)
  moreover have "\<exists>f. snd (reserve_locked prompt orig cause from e) = f (enqueue (fst r @ started_of_cur (snd r)) (snd r)) \<and>
      (\<forall>x. e_log (f x) = e_log x)"
    by (rule exI [of _ "case from of None \<Rightarrow> id | Some row \<Rightarrow> set_row row"])
      (simp add: reserve_locked_def split_beta Let_def r_def e1_def split: option.split)
  ultimately show ?thesis using says_log by metis
qed

lemma submit_queue_hush: "hush e (snd (submit_queue cause prompt from fence e))"
proof -
  have "hush e (enqueue [stamp e (EvQueue qev) cause] (e\<lparr>e_queue := q\<rparr>))" for qev q
    by (rule hush_enqueue) simp_all
  then show ?thesis
    by (auto simp: submit_queue_def Let_def hush_frame intro: hush_log split: option.split sum.split)
qed

lemma submit_says: "says e (snd (snd (snd (submit cause prompt mode from fence e))))"
proof -
  obtain gate e1 where g: "submit_gates mode from (raise_fence e) = (gate, e1)"
    by (cases "submit_gates mode from (raise_fence e)")
  obtain start e2 where s: "can_submit e1 = (start, e2)" by (cases "can_submit e1")
  have log: "e_log e1 = e_log e" "e_log e2 = e_log e"
    using submit_gates_frame(5) [of mode "from" "raise_fence e"] can_submit_frame [of e1] g s by simp_all
  have "says e2 (snd (snd (submit_start cause prompt mode from fence e2)))"
    using reserve_says says_log
    by (auto simp: submit_start_def split_beta Let_def says_frame split: sum.split)
  then have "says e (snd (snd (submit_start cause prompt mode from fence e2)))"
    "says e (snd (arm_locked cause prompt from e2))" "says e (snd (submit_queue cause prompt from fence e2))"
    using hush_says [OF arm_hush, of e2 cause prompt "from"] hush_says [OF submit_queue_hush, of e2 cause prompt "from" fence] log
    by (simp_all add: says_def)
  then show ?thesis
    using g s log by (auto simp: submit_def split_beta says_frame intro: says_log split: option.split sum.split)
qed

lemma verbs_hush:
  "hush e (snd (queue_verb cause prompt e))" "hush e (snd (edit_queued cause rid prompt expected e))"
  "hush e (snd (unqueue cause rid e))" "hush e (snd (clear_queue cause e))" "hush e (snd (disarm cause e))"
proof -
  have q: "hush e (sync_fence (enqueue [stamp e (EvQueue qev) c] (e\<lparr>e_queue := q\<rparr>)))" for qev c q
    by (rule hush_log, rule hush_enqueue) simp_all
  have "e_log (snd (clear_rows cause e)) = e_log e" by (simp add: clear_rows_def split_beta)
  then have c: "hush e (sync_fence (enqueue (fst (clear_rows cause e)) (snd (clear_rows cause e))))"
    by (intro hush_log [OF hush_enqueue]) simp_all
  show "hush e (snd (queue_verb cause prompt e))" "hush e (snd (edit_queued cause rid prompt expected e))"
    "hush e (snd (unqueue cause rid e))"
    using q by (auto simp: queue_verb_def edit_queued_def unqueue_def hush_frame split: option.split sum.split)
  show "hush e (snd (clear_queue cause e))" "hush e (snd (disarm cause e))"
    using c by (auto simp: clear_queue_def disarm_def split_beta Let_def hush_frame split: option.split)
qed

lemma release_failure_hush: "hush e (snd (release_failure held cause cancel_err own e))"
  by (auto simp: release_failure_def split_beta Let_def hush_frame intro!: hush_enqueue split: option.split)

lemma release_says:
  assumes inv: "client_inv e"
  shows "says e (snd (snd (release_hold held cause ws cancel_err own e)))"
proof -
  define e1 where "e1 = (raise_fence e)\<lparr>e_cancels := e_cancels e - 1\<rparr>"
  define e2 where "e2 = snd (release_failure held cause cancel_err own e1)"
  have "tells e e1" by (rule tells_frame [OF inv]) (simp_all add: e1_def)
  then have "client_inv e2"
    using release_failure_tells [OF tells_inv] tells_inv unfolding e2_def by blast
  then have "says e1 (snd (pass_locked e2))"
    using says_after [OF _ pass_says] release_failure_hush [of e1 held cause cancel_err own] unfolding e2_def by blast
  then have "says e (snd (pass_locked e2))" by (simp add: says_def e1_def)
  then have "says e (sync_fence (snd (pass_locked e2)))" by (rule says_log) simp
  then show ?thesis by (simp add: release_hold_def split_beta Let_def e1_def [symmetric] e2_def [symmetric])
qed

lemma returned_says:
  assumes inv: "client_inv e"
  shows "says e (snd (turn_returned tid res err e))"
proof -
  define e1 where "e1 = raise_fence (e\<lparr>e_out := remove1 tid (e_out e)\<rparr>)"
  define e2 where "e2 = (case e_cur e1 of None \<Rightarrow> e1 | Some t \<Rightarrow>
      if t_id t = tid then e1\<lparr>e_cur := Some (t\<lparr>t_res := res, t_err := err, t_returned := True\<rparr>)\<rparr> else e1)"
  have f1: "e_cur e1 = e_cur e" "e_queue e1 = e_queue e" "e_armed e1 = e_armed e" "e_turn_seq e1 = e_turn_seq e"
    "e_log e1 = e_log e" "e_closed e1 = e_closed e"
    by (simp_all add: e1_def)
  then have "client_inv e2" using inv by (auto simp: e2_def client_inv_def cur_ok_def split: option.split)
  from pass_says [OF this] f1 have "says e (snd (pass_locked e2))"
    by (simp add: says_def e2_def split: option.split_asm if_split_asm)
  then have "says e (sync_fence (snd (pass_locked e2)))" by (rule says_log) simp
  then show ?thesis
    by (simp add: turn_returned_def split_beta Let_def e1_def [symmetric] e2_def [symmetric])
qed

lemma drive_says:
  assumes inv: "client_inv e"
  shows "says e (snd (drive w e))"
proof -
  have pass: "says e0 (snd (drive_pass ticked e0))" if i: "client_inv e0" for ticked e0
  proof -
    define e1 where "e1 = drive_due ticked (raise_fence e0)"
    have "client_inv e1" unfolding e1_def
      by (rule tells_inv [OF drive_due_tells [OF tells_inv [OF tells_raise [OF i]]]])
    from pass_says [OF this] have "says e0 (snd (pass_locked e1))"
      by (rule says_from) (simp add: e1_def drive_due_def)
    then show ?thesis by (simp add: drive_pass_def split_beta Let_def e1_def [symmetric] says_def)
  qed
  have "client_inv (e\<lparr>e_kick := False\<rparr>)" using inv by (simp add: client_inv_def cur_ok_def)
  from pass [OF this, of False] pass [OF inv] show ?thesis
    by (auto simp: drive_def says_frame says_def split: wakeup.split)
qed

lemma give_up_says:
  assumes inv: "client_inv e0"
  shows "says e0 (snd (snd (give_up turn e0)))"
proof (cases "\<exists>x. e_cur e0 = Some x \<and> t_retry x \<and> \<not> e_closed e0")
  case False
  then show ?thesis by (auto simp: give_up_def Let_def intro!: says_frame split: option.split)
next
  case True
  define e where "e = raise_fence e0"
  from True obtain x where x: "e_cur e = Some x" "t_retry x" "\<not> e_closed e" by (auto simp: e_def)
  define x' where "x' = x\<lparr>t_given_up := True, t_retry := False, t_retry_due := False\<rparr>"
  define e1 where "e1 = e\<lparr>e_cur := Some x'\<rparr>"
  have "tells e e1" unfolding e1_def x'_def
    by (rule tells_turn [OF tells_inv [OF tells_raise [OF inv]] _ x(1) [unfolded e_def], folded e_def]) simp_all
  from settle_tells [OF tells_inv [OF this], THEN conjunct2, of x'] x
  have "says e1 (snd (settle_locked x' e1))" by (simp add: e1_def)
  then have s: "says e0 (snd (settle_locked x' e1))" by (simp add: says_def e1_def e_def)
  have "snd (snd (give_up turn e0)) \<in> {sync_fence e, sync_fence e1, sync_fence (snd (settle_locked x' e1))}"
    using x by (simp add: give_up_def e_def [symmetric] Let_def split_beta x'_def [symmetric] e1_def [symmetric])
  with s show ?thesis by (auto intro: says_log says_frame simp: e1_def e_def)
qed

lemma give_up_drain_says:
  assumes inv: "client_inv e0"
  shows "says e0 (snd (snd (give_up_drain e0)))"
proof -
  define e where "e = raise_fence e0"
  have inve: "client_inv e" using tells_inv [OF tells_raise [OF inv]] by (simp add: e_def)
  define p where "p = (if e_cur e = None then pass_locked e else ([], e))"
  define e2 where "e2 = (snd p)\<lparr>e_stopped := True\<rparr>"
  have pass: "says e0 (snd p)"
    using pass_says [OF inve] by (simp add: p_def says_def) (simp add: e_def)
  have turnless: "hush e0 (snd p)" if "e_cur (snd p) = None"
  proof (cases "e_cur e = None \<and> \<not> e_closed e")
    case False
    then show ?thesis by (auto simp: p_def pass_locked_def e_def intro: hush_frame)
  next
    case True
    obtain l before gone e1 where n: "next_locked True e = (l, before, gone, e1)" by (cases "next_locked True e")
    from next_locked_law [OF inve, of True] n have law: "next_law e (l, before, gone, e1)" by simp
    have "snd p = snd (drain_locked e)" using True by (simp add: p_def pass_locked_def)
    then have "l = None" using that law n
      by (auto simp: drain_locked_def next_law_def claimed_def enqueue_def split: option.splits)
    moreover have "turnless (gone @ before)" using next_locked_words [of True e] n by (simp add: withdraws_turnless)
    moreover have "e_log e1 = e_log e0" using law by (simp add: next_law_def e_def)
    ultimately show ?thesis
      using n \<open>snd p = snd (drain_locked e)\<close> by (simp add: drain_locked_def hush_enqueue)
  qed
  have last: "hush e0 (sync_fence (enqueue (fst (disarm_locked ''stopped'' [] [] e2)) (snd (disarm_locked ''stopped'' [] [] e2))))"
    if "e_cur (snd p) = None"
  proof -
    have "hush e0 e2" using turnless [OF that] by (rule hush_log) (simp add: e2_def)
    from hush_trans [OF this hush_disarm] show ?thesis by (rule hush_log) simp
  qed
  have "says e0 (sync_fence e)" "says e0 (sync_fence (snd p))"
    using pass by (auto intro: says_frame says_log simp: e_def)
  with hush_says [OF last] show ?thesis
    by (simp add: give_up_drain_def e_def [symmetric] Let_def split_beta p_def [symmetric] e2_def [symmetric]
        split: option.split)
qed

lemma close_says: "says e (close_section e)"
proof (cases "e_closed e")
  case True
  then show ?thesis by (simp add: close_section_def says_frame)
next
  case False
  have d: "section_says (fst (disarm_locked w c x e'))" "after_ending [] (fst (disarm_locked w c x e'))" for w c x e'
    using after_ending_withdraws [of "fst (disarm_locked w c x e')" "[]" "[]"] by (simp_all add: section_says_turnlessI)
  from False show ?thesis
    by (auto simp: close_section_def Let_def split_beta says_def enqueue_def d split: option.split)
qed

lemma section_says_law:
  assumes inv: "client_inv e"
  shows "says e (engine_section x e)"
proof (cases x)
  case OpCloseFence
  then show ?thesis by (simp add: close_fence_up_def split_beta Let_def says_frame)
next
  case OpReleaseCloseFence
  then show ?thesis by (simp add: release_close_fence_def Let_def wake_def says_frame)
next
  case OpInterject
  then show ?thesis by (auto simp: interject_gate_def admit_locked_def intro: says_frame split: option.split)
next
  case OpStarted
  then show ?thesis by (auto simp: started_def retire_replay_def Let_def intro!: says_frame split: option.split)
qed (use inv in \<open>auto simp: submit_says hush_says [OF hush_hold_cancel] hush_says [OF verbs_hush(1)]
    hush_says [OF verbs_hush(2)] hush_says [OF verbs_hush(3)] hush_says [OF verbs_hush(4)] hush_says [OF verbs_hush(5)]
    release_says returned_says drive_says give_up_says give_up_drain_says close_says admitted_def close_for_def
    observe_frame intro: says_frame\<close>)

text \<open>The engine's sections are an event source for the client's view.\<close>

lemma view_of_enter [simp]: "view_of (enter o' e) = view_of e"
  by (simp add: view_of_def enter_def)

lemma engine_step_law:
  assumes "client_inv e"
  shows "client_inv (fst (engine_step p e)) \<and>
         fold_events client_apply (snd (engine_step p e)) (view_of e) = view_of (fst (engine_step p e))"
proof -
  obtain o' x where p: "p = (o', x)" by (cases p)
  have "client_inv (enter o' e)" using assms by (simp add: client_inv_def cur_ok_def enter_def)
  from section_tells [OF this, of x] show ?thesis
    unfolding tells_def by (auto simp: p Let_def enter_def view_of_def)
qed

lemma engine_step_says:
  assumes "client_inv e"
  shows "section_says (snd (engine_step p e))"
proof -
  obtain o' x where p: "p = (o', x)" by (cases p)
  have "client_inv (enter o' e)" using assms by (simp add: client_inv_def cur_ok_def enter_def)
  from section_says_law [OF this, of x] show ?thesis by (auto simp: p Let_def says_def enter_def)
qed

interpretation engine_source: event_source engine_step "\<lambda>_ _. True" client_inv view_of client_apply
  by unfold_locales (use engine_step_law in blast)+

lemma all_ops_ok [simp]: "ops_ok step (\<lambda>_ _. True) ops s"
  by (induction ops arbitrary: s) simp_all

lemma client_inv_new [simp]: "client_inv (new_engine rf sn ad hf born)"
  by (simp add: client_inv_def new_engine_def)

text \<open>What a client shows before the first event.\<close>

definition client_start :: client_view where
  "client_start = \<lparr>cv_rows = [], cv_turn = None, cv_armed = None, cv_next = [], cv_started = 0, cv_ok = True\<rparr>"

lemma view_of_new [simp]: "view_of (new_engine rf sn ad hf born) = client_start"
  by (simp add: view_of_def new_engine_def client_start_def pq_empty_def)

section \<open>Properties\<close>

text \<open>C13. The engine's events are its state: whatever sections ran, in whatever order, under any chain
  policy and any answers from outside, a client that folds every event the engine authored shows
  exactly the queue, the running turn and the armed send the engine holds, and nothing it read on the
  way was out of order: turns start one at a time, numbered from 1 without a gap, each has one
  ending before the next starts, and every ending counts the rows the client shows. The words of every
  section that may come next are in order too (\<open>section_says\<close>): it starts at most one turn and ends at
  most one; a start is its last word; an ending that names a successor is followed by the start of that
  very turn, with nothing but withdrawals of an armed send between the two, and behind an ending that
  names none there is nothing but such withdrawals.\<close>

theorem client_shows_the_engine:
  "fold_events client_apply (snd (run_ops engine_step ops (new_engine rf sn ad hf born))) client_start =
     view_of (fst (run_ops engine_step ops (new_engine rf sn ad hf born))) \<and>
   (\<forall>p. section_says (snd (engine_step p (fst (run_ops engine_step ops (new_engine rf sn ad hf born))))))"
proof (intro conjI allI)
  show "fold_events client_apply (snd (run_ops engine_step ops (new_engine rf sn ad hf born))) client_start =
      view_of (fst (run_ops engine_step ops (new_engine rf sn ad hf born)))"
    using engine_source.run_view [OF client_inv_new all_ops_ok] by simp
  show "section_says (snd (engine_step p (fst (run_ops engine_step ops (new_engine rf sn ad hf born)))))" for p
    by (rule engine_step_says [OF engine_source.run_inv [OF client_inv_new all_ops_ok]])
qed

end
