(* ===== verification/Engine_Inv.thy ===== *)
theory Engine_Inv
  imports Engine_Client
begin

text \<open>
  What the engine's critical sections keep, beyond what they tell their clients: when a turn may start
  at all, the cancel's promise, the exit fence and the close fence.

  \<^item> \<open>gate_fields\<close> are the fields the gates read; each helper is shown to leave them alone.
  \<^item> \<open>obeys\<close> is the relation between the states before and after a section: a turn started in it
    only with every gate open, the exit fence's end is for good, a turn is not replaced under a
    cancel. \<open>section_obeys\<close> holds it for every section, \<open>run_obeys\<close> lifts it to every sequence.
\<close>

section \<open>The fields the gates read\<close>

definition gate_fields :: "engine \<Rightarrow> int \<times> bool \<times> bool \<times> bool \<times> bool \<times> int" where
  "gate_fields e =
     (e_cancels e, e_stopped e, e_closed e, e_start_failed e, e_replaying e, e_close_fences e)"

definition cur_id :: "engine \<Rightarrow> string option" where
  "cur_id e = map_option t_id (e_cur e)"

definition may_start :: "engine \<Rightarrow> bool" where
  "may_start e \<longleftrightarrow> e_cancels e = 0 \<and> \<not> e_stopped e \<and> \<not> e_closed e \<and> \<not> e_start_failed e \<and>
     \<not> e_replaying e \<and> e_close_fences e \<le> 0 \<and> \<not> exit_fence_ended e"

lemma may_start_cong:
  "gate_fields e' = gate_fields e \<Longrightarrow> exit_fence_ended e' = exit_fence_ended e \<Longrightarrow> may_start e' = may_start e"
  by (simp add: gate_fields_def may_start_def)

lemma gate_fields_simps [simp]:
  "gate_fields (raise_fence e) = gate_fields e" "gate_fields (snd (foreign_locked e)) = gate_fields e"
  "gate_fields (snd (can_start e)) = gate_fields e" "gate_fields (snd (can_submit e)) = gate_fields e"
  "gate_fields (owed_drain e) = gate_fields e" "gate_fields (sync_fence e) = gate_fields e"
  "gate_fields (exit_fence_row_taken e) = gate_fields e" "gate_fields (snd (exit_fence_ends t e)) = gate_fields e"
  "gate_fields (remember_err t e) = gate_fields e" "gate_fields (enqueue evs e) = gate_fields e"
  by (simp_all add: gate_fields_def)

lemma gate_fields_claims [simp]:
  "gate_fields (snd (launch_locked tid b e)) = gate_fields e"
  "gate_fields (begin_call_on p e) = gate_fields e"
  "gate_fields (snd (claim_locked p orig c e)) = gate_fields e"
  "gate_fields (set_row row e) = gate_fields e"
  "gate_fields (snd (take_row rid c e)) = gate_fields e"
  "gate_fields (snd (disarm_locked w c d e)) = gate_fields e"
  "gate_fields (snd (clear_rows c e)) = gate_fields e"
  "gate_fields (snd (settle_disarm t f e)) = gate_fields e"
  by (simp_all add: gate_fields_def launch_locked_def begin_call_on_def claim_locked_def set_row_def take_row_def
      disarm_locked_def clear_rows_def settle_disarm_def split_beta Let_def split: option.split)

lemma gate_fields_updates [simp]:
  "gate_fields (e\<lparr>e_pass_held := b\<rparr>) = gate_fields e" "gate_fields (e\<lparr>e_armed := a\<rparr>) = gate_fields e"
  "gate_fields (e\<lparr>e_queue := q\<rparr>) = gate_fields e" "gate_fields (e\<lparr>e_cur := c\<rparr>) = gate_fields e"
  "gate_fields (e\<lparr>e_activity := act\<rparr>) = gate_fields e" "gate_fields (e\<lparr>e_activity_at := n\<rparr>) = gate_fields e"
  "gate_fields (e\<lparr>e_err := s\<rparr>) = gate_fields e" "gate_fields (e\<lparr>e_cancelled := b\<rparr>) = gate_fields e"
  "gate_fields (e\<lparr>e_recheck := b\<rparr>) = gate_fields e" "gate_fields (e\<lparr>e_rearm := b\<rparr>) = gate_fields e"
  "gate_fields (e\<lparr>e_kick := b\<rparr>) = gate_fields e" "gate_fields (e\<lparr>e_tick := b\<rparr>) = gate_fields e"
  "gate_fields (e\<lparr>e_exit_fence := x\<rparr>) = gate_fields e" "gate_fields (e\<lparr>e_out := os\<rparr>) = gate_fields e"
  "gate_fields (e\<lparr>e_admitting := n\<rparr>) = gate_fields e" "gate_fields (e\<lparr>e_ready := b\<rparr>) = gate_fields e"
  by (simp_all add: gate_fields_def)

text \<open>Whether the exit fence's turn has ended.\<close>

lemma exit_ended_cong: "e_exit_fence e' = e_exit_fence e \<Longrightarrow> exit_fence_ended e' = exit_fence_ended e"
  by (simp add: exit_fence_ended_def)

lemma exit_ended_simps [simp]:
  "exit_fence_ended (raise_fence e) = exit_fence_ended e" "exit_fence_ended (snd (foreign_locked e)) = exit_fence_ended e"
  "exit_fence_ended (snd (can_start e)) = exit_fence_ended e" "exit_fence_ended (snd (can_submit e)) = exit_fence_ended e"
  "exit_fence_ended (remember_err t e) = exit_fence_ended e" "exit_fence_ended (enqueue evs e) = exit_fence_ended e"
  "exit_fence_ended (snd (launch_locked tid b e)) = exit_fence_ended e"
  "exit_fence_ended (begin_call_on p e) = exit_fence_ended e"
  "exit_fence_ended (snd (claim_locked p orig c e)) = exit_fence_ended e"
  "exit_fence_ended (snd (take_row rid c e)) = exit_fence_ended e"
  "exit_fence_ended (snd (disarm_locked w c d e)) = exit_fence_ended e"
  "exit_fence_ended (snd (clear_rows c e)) = exit_fence_ended e"
  "exit_fence_ended (snd (settle_disarm t f e)) = exit_fence_ended e"
  by (rule exit_ended_cong, simp add: launch_locked_def begin_call_on_def claim_locked_def take_row_def
      disarm_locked_def clear_rows_def settle_disarm_def split_beta Let_def split: option.split)+

lemma exit_ended_updates [simp]:
  "exit_fence_ended (e\<lparr>e_pass_held := b\<rparr>) = exit_fence_ended e" "exit_fence_ended (e\<lparr>e_armed := a\<rparr>) = exit_fence_ended e"
  "exit_fence_ended (e\<lparr>e_queue := q\<rparr>) = exit_fence_ended e" "exit_fence_ended (e\<lparr>e_cur := c\<rparr>) = exit_fence_ended e"
  "exit_fence_ended (e\<lparr>e_activity := act\<rparr>) = exit_fence_ended e"
  "exit_fence_ended (e\<lparr>e_activity_at := n\<rparr>) = exit_fence_ended e"
  "exit_fence_ended (e\<lparr>e_err := s\<rparr>) = exit_fence_ended e" "exit_fence_ended (e\<lparr>e_cancelled := b\<rparr>) = exit_fence_ended e"
  "exit_fence_ended (e\<lparr>e_recheck := b\<rparr>) = exit_fence_ended e" "exit_fence_ended (e\<lparr>e_rearm := b\<rparr>) = exit_fence_ended e"
  "exit_fence_ended (e\<lparr>e_kick := b\<rparr>) = exit_fence_ended e" "exit_fence_ended (e\<lparr>e_tick := b\<rparr>) = exit_fence_ended e"
  "exit_fence_ended (e\<lparr>e_out := os\<rparr>) = exit_fence_ended e" "exit_fence_ended (e\<lparr>e_stopped := b\<rparr>) = exit_fence_ended e"
  "exit_fence_ended (e\<lparr>e_closed := b\<rparr>) = exit_fence_ended e" "exit_fence_ended (e\<lparr>e_cancels := n\<rparr>) = exit_fence_ended e"
  "exit_fence_ended (e\<lparr>e_close_fences := n\<rparr>) = exit_fence_ended e"
  "exit_fence_ended (e\<lparr>e_admitting := n\<rparr>) = exit_fence_ended e" "exit_fence_ended (e\<lparr>e_ready := b\<rparr>) = exit_fence_ended e"
  by (simp_all add: exit_fence_ended_def)

lemma exit_ended_row_taken [simp]: "exit_fence_ended (exit_fence_row_taken e) = exit_fence_ended e"
  by (auto simp: exit_fence_row_taken_def exit_fence_ended_def split: option.split)

lemma exit_ended_set_row [simp]: "exit_fence_ended (set_row row e) = exit_fence_ended e"
  by (simp add: set_row_def)

lemma exit_ended_sync [simp]: "exit_fence_ended (sync_fence e) = exit_fence_ended e"
proof -
  have "exit_fence_ended (exit_fence_lift e) = exit_fence_ended e"
    by (auto simp: exit_fence_lift_def exit_fence_ended_def split: option.split)
  moreover have "exit_fence_ended (owed_drain x) = exit_fence_ended x" for x
    by (rule exit_ended_cong) simp
  ultimately show ?thesis
    by (auto simp: sync_fence_def Let_def exit_fence_ended_def)
qed

lemma exit_ended_ends: "exit_fence_ended e \<Longrightarrow> exit_fence_ended (snd (exit_fence_ends t e))"
  by (auto simp: exit_fence_ends_def exit_fence_ended_def split: option.splits)

lemma cur_id_simps [simp]:
  "cur_id (raise_fence e) = cur_id e" "cur_id (snd (foreign_locked e)) = cur_id e"
  "cur_id (snd (can_start e)) = cur_id e" "cur_id (sync_fence e) = cur_id e" "cur_id (enqueue evs e) = cur_id e"
  "cur_id (snd (disarm_locked w c d e)) = cur_id e" "cur_id (snd (launch_locked tid b e)) = cur_id e"
  "cur_id (begin_call_on p e) = cur_id e"
  by (simp_all add: cur_id_def)

section \<open>What a section obeys\<close>

definition obeys :: "engine \<Rightarrow> engine \<Rightarrow> bool" where
  "obeys e e' \<longleftrightarrow>
     (e_turn_seq e' = e_turn_seq e \<or> e_turn_seq e' = Suc (e_turn_seq e) \<and> may_start e') \<and>
     (exit_fence_ended e \<longrightarrow> exit_fence_ended e') \<and>
     (e_cancels e' > 0 \<longrightarrow> e_closed e' \<or> cur_id e' = cur_id e) \<and>
     (e_stopped e \<longrightarrow> e_stopped e') \<and> (e_closed e \<longrightarrow> e_closed e')"

text \<open>Ahead of a section's decision: nothing started, no turn replaced.\<close>

definition before_decision :: "engine \<Rightarrow> engine \<Rightarrow> bool" where
  "before_decision e e' \<longleftrightarrow> e_turn_seq e' = e_turn_seq e \<and> cur_id e' = cur_id e \<and>
     (exit_fence_ended e \<longrightarrow> exit_fence_ended e') \<and> (e_stopped e \<longrightarrow> e_stopped e') \<and> (e_closed e \<longrightarrow> e_closed e')"

text \<open>Behind it: the gates as they were.\<close>

definition after_decision :: "engine \<Rightarrow> engine \<Rightarrow> bool" where
  "after_decision e e' \<longleftrightarrow> e_turn_seq e' = e_turn_seq e \<and> cur_id e' = cur_id e \<and>
     gate_fields e' = gate_fields e \<and> exit_fence_ended e' = exit_fence_ended e"

lemma obeys_before: "before_decision e e1 \<Longrightarrow> obeys e1 e' \<Longrightarrow> obeys e e'"
  by (auto simp: before_decision_def obeys_def)

lemma obeys_after: "obeys e e1 \<Longrightarrow> after_decision e1 e' \<Longrightarrow> obeys e e'"
  by (auto simp: after_decision_def obeys_def may_start_def gate_fields_def)

lemma obeysI_before: "before_decision e e' \<Longrightarrow> obeys e e'"
  by (auto simp: before_decision_def obeys_def)

lemma obeys_refl [simp]: "obeys e e"
  by (simp add: obeys_def)

lemma obeys_sync: "obeys e e1 \<Longrightarrow> obeys e (sync_fence e1)"
  by (rule obeys_after) (auto simp: after_decision_def)

lemma obeys_raise: "obeys (raise_fence e) e' \<Longrightarrow> obeys e e'"
  by (rule obeys_before) (auto simp: before_decision_def)

text \<open>A claim, from a state whose gates are open and with no turn current.\<close>

lemma obeysI_claim:
  assumes "e_turn_seq e' = Suc (e_turn_seq e)" and "may_start e"
    and "gate_fields e' = gate_fields e" and "exit_fence_ended e' = exit_fence_ended e"
  shows "obeys e e'"
  using assms may_start_cong [OF assms(3,4)] by (auto simp: obeys_def may_start_def gate_fields_def)

lemma can_start_may_start: "fst (can_start e) \<Longrightarrow> may_start e"
  by (auto simp: can_start_def refusal_def may_start_def split: if_splits)

section \<open>The shapes of the driver's decisions\<close>

text \<open>Which fields each step of a settlement writes, as a record update: every frame fact about it is
  then a simplification.\<close>

lemma exit_fence_ends_shape:
  "\<exists>xf. snd (exit_fence_ends t e) = e\<lparr>e_exit_fence := xf\<rparr> \<and>
     (exit_fence_ended e \<longrightarrow> exit_fence_ended (e\<lparr>e_exit_fence := xf\<rparr>)) \<and> (xf = None) = (e_exit_fence e = None)"
proof (cases "e_exit_fence e")
  case None
  then have "snd (exit_fence_ends t e) = e\<lparr>e_exit_fence := e_exit_fence e\<rparr>" by (simp add: exit_fence_ends_def)
  then show ?thesis by (intro exI [of _ "e_exit_fence e"]) simp
next
  case (Some f)
  define g where "g = (if xf_ended f \<or> xf_turn f \<noteq> t_id t then f else f\<lparr>xf_ended := True\<rparr>)"
  have "e = e\<lparr>e_exit_fence := Some f\<rparr>" using Some by simp
  then have "snd (exit_fence_ends t e) = e\<lparr>e_exit_fence := Some g\<rparr>"
    using Some by (auto simp: exit_fence_ends_def g_def)
  moreover have "exit_fence_ended e \<longrightarrow> exit_fence_ended (e\<lparr>e_exit_fence := Some g\<rparr>)"
    using Some by (auto simp: exit_fence_ended_def g_def)
  ultimately show ?thesis using Some by (intro exI [of _ "Some g"]) simp
qed

lemma remember_err_shape: "\<exists>st ids. remember_err t e = e\<lparr>e_settled := st, e_settled_ids := ids\<rparr>"
proof (cases "t_err t")
  case None
  then show ?thesis
    by (intro exI [of _ "e_settled e"] exI [of _ "e_settled_ids e"]) (simp add: remember_err_def)
next
  case (Some err)
  then show ?thesis by (simp add: remember_err_def Let_def) blast
qed

lemma disarm_shape: "\<exists>a. snd (disarm_locked w c d e) = e\<lparr>e_armed := a\<rparr>"
proof (cases "e_armed e")
  case None
  then show ?thesis by (intro exI [of _ "e_armed e"]) (simp add: disarm_locked_def)
next
  case (Some a)
  then show ?thesis by (simp add: disarm_locked_def) blast
qed

lemma settle_disarm_shape: "\<exists>a. snd (settle_disarm t f e) = e\<lparr>e_armed := a\<rparr>"
proof (cases "e_armed e")
  case None
  then show ?thesis by (intro exI [of _ "e_armed e"]) (simp add: settle_disarm_def)
next
  case (Some a)
  moreover have "\<exists>x. e = e\<lparr>e_armed := x\<rparr>" by (rule exI [of _ "e_armed e"]) simp
  ultimately show ?thesis by (simp add: settle_disarm_def disarm_shape)
qed

lemma clear_rows_shape: "\<exists>q. snd (clear_rows c e) = e\<lparr>e_queue := q\<rparr>"
  by (simp add: clear_rows_def split_beta Let_def) blast

lemma foreign_shape: "\<exists>rs saw. snd (foreign_locked e) = e\<lparr>e_reads := rs, e_saw_foreign := saw\<rparr>"
  by (simp add: foreign_locked_def Let_def) blast

lemma can_start_shape: "\<exists>rs saw. snd (can_start e) = e\<lparr>e_reads := rs, e_saw_foreign := saw\<rparr>"
proof (cases "e_cur e = None \<and> e_cancels e = 0 \<and> refusal e = None \<and> \<not> exit_fence_ended e")
  case True
  then have "snd (can_start e) = snd (foreign_locked e)" by (simp add: can_start_def split_beta Let_def)
  then show ?thesis by (simp add: foreign_shape)
next
  case False
  then have "snd (can_start e) = e" by (auto simp: can_start_def)
  then show ?thesis by (intro exI [of _ "e_reads e"] exI [of _ "e_saw_foreign e"]) simp
qed

lemma take_row_shape: "\<exists>q. snd (take_row rid c e) = e\<lparr>e_queue := q\<rparr>"
proof (cases "pq_take rid (e_queue e)")
  case None
  then show ?thesis by (intro exI [of _ "e_queue e"]) (simp add: take_row_def)
next
  case (Some x)
  then show ?thesis by (simp add: take_row_def split_beta) blast
qed

lemma set_row_shape:
  "\<exists>xf. set_row row e = e\<lparr>e_cur := map_option (t_row_update (\<lambda>_. Some row)) (e_cur e), e_exit_fence := xf\<rparr> \<and>
     exit_fence_ended (e\<lparr>e_exit_fence := xf\<rparr>) = exit_fence_ended e \<and> (xf = None) = (e_exit_fence e = None)"
proof -
  define e1 where "e1 = e\<lparr>e_cur := map_option (t_row_update (\<lambda>_. Some row)) (e_cur e)\<rparr>"
  define xf where "xf = e_exit_fence (set_row row e)"
  have eq: "set_row row e = e1\<lparr>e_exit_fence := xf\<rparr>"
    by (auto simp: set_row_def xf_def e1_def [symmetric] exit_fence_row_taken_def split: option.split)
  have "exit_fence_ended (set_row row e) = exit_fence_ended e" by simp
  then have "exit_fence_ended (e\<lparr>e_exit_fence := xf\<rparr>) = exit_fence_ended e"
    by (simp add: eq) (simp add: exit_fence_ended_def)
  moreover have "(xf = None) = (e_exit_fence e = None)"
    by (auto simp: xf_def set_row_def exit_fence_row_taken_def split: option.split)
  ultimately show ?thesis using eq by (intro exI [of _ xf]) (simp add: e1_def)
qed

text \<open>A claim: the fields it writes, and the turn it makes current.\<close>

definition claims :: "engine \<Rightarrow> engine \<Rightarrow> bool" where
  "claims e e' \<longleftrightarrow> (\<exists>t rs saw a q xf n. e' = e\<lparr>e_reads := rs, e_saw_foreign := saw, e_armed := a,
       e_calls := e_calls e @ [Begin (t_text t)], e_turn_seq := Suc (e_turn_seq e), e_cur := Some t, e_activity_at := n,
       e_activity := ActivityWorking, e_err := [], e_cancelled := False, e_prompted := True,
       e_out := e_out e @ [t_id t], e_queue := q, e_exit_fence := xf\<rparr> \<and>
     t_id t = turn_id (Suc (e_turn_seq e)) \<and> \<not> t_retry t \<and> \<not> t_returned t \<and>
     exit_fence_ended (e\<lparr>e_exit_fence := xf\<rparr>) = exit_fence_ended e \<and> (xf = None) = (e_exit_fence e = None))"

text \<open>What may be done ahead of the claim, and what behind it.\<close>

definition pre_claim :: "engine \<Rightarrow> engine \<Rightarrow> bool" where
  "pre_claim e e' \<longleftrightarrow> (\<exists>rs saw a. e' = e\<lparr>e_reads := rs, e_saw_foreign := saw, e_armed := a\<rparr>)"

definition post_claim :: "engine \<Rightarrow> engine \<Rightarrow> bool" where
  "post_claim e e' \<longleftrightarrow> (\<exists>c q xf. e' = e\<lparr>e_cur := c, e_exit_fence := xf, e_queue := q\<rparr> \<and>
     (c = e_cur e \<or> (\<exists>row. c = map_option (t_row_update (\<lambda>_. Some row)) (e_cur e))) \<and>
     exit_fence_ended (e\<lparr>e_exit_fence := xf\<rparr>) = exit_fence_ended e \<and> (xf = None) = (e_exit_fence e = None))"

definition new_turn :: "string \<Rightarrow> string \<Rightarrow> string \<Rightarrow> nat \<Rightarrow> turn" where
  "new_turn p orig c n = \<lparr>t_id = turn_id n, t_text = p, t_origin = orig, t_cause = c, t_row = None,
     t_cancel_asked = False, t_returned = False, t_res = \<lparr>tr_stop_reason = [], tr_unanswered = []\<rparr>,
     t_err = None, t_retry = False, t_retry_due = False, t_given_up = False\<rparr>"

lemma new_turn_simps [simp]:
  "t_id (new_turn p orig c n) = turn_id n" "t_text (new_turn p orig c n) = p" "t_row (new_turn p orig c n) = None"
  "\<not> t_retry (new_turn p orig c n)" "\<not> t_returned (new_turn p orig c n)"
  by (simp_all add: new_turn_def)

lemma claim_locked_eq:
  "\<exists>n. snd (claim_locked p orig c e) = e\<lparr>e_calls := e_calls e @ [Begin p], e_turn_seq := Suc (e_turn_seq e),
     e_cur := Some (new_turn p orig c (Suc (e_turn_seq e))), e_activity_at := n,
     e_activity := ActivityWorking, e_err := [], e_cancelled := False, e_prompted := True,
     e_out := e_out e @ [turn_id (Suc (e_turn_seq e))]\<rparr>"
  by (rule exI [of _ "if e_activity e \<noteq> ActivityWorking then e_now e else e_activity_at e"])
    (simp add: claim_locked_def begin_call_on_def launch_locked_def Let_def new_turn_def)

lemma claims_intro:
  assumes "pre_claim e e1" and "post_claim (snd (claim_locked p orig c e1)) e'"
  shows "claims e e'"
proof -
  from assms(1) obtain rs saw a where e1: "e1 = e\<lparr>e_reads := rs, e_saw_foreign := saw, e_armed := a\<rparr>"
    by (auto simp: pre_claim_def)
  define cl where "cl = snd (claim_locked p orig c e1)"
  obtain n where c: "cl = e1\<lparr>e_calls := e_calls e1 @ [Begin p], e_turn_seq := Suc (e_turn_seq e1),
     e_cur := Some (new_turn p orig c (Suc (e_turn_seq e1))), e_activity_at := n,
     e_activity := ActivityWorking, e_err := [], e_cancelled := False, e_prompted := True,
     e_out := e_out e1 @ [turn_id (Suc (e_turn_seq e1))]\<rparr>"
    unfolding cl_def using claim_locked_eq by blast
  obtain cu q xf where e': "e' = cl\<lparr>e_cur := cu, e_exit_fence := xf, e_queue := q\<rparr>"
    and cu: "cu = e_cur cl \<or> (\<exists>row. cu = map_option (t_row_update (\<lambda>_. Some row)) (e_cur cl))"
    and xf: "exit_fence_ended (cl\<lparr>e_exit_fence := xf\<rparr>) = exit_fence_ended cl"
      "(xf = None) = (e_exit_fence cl = None)"
    using assms(2) unfolding post_claim_def cl_def [symmetric] by (elim exE conjE) (rule that)
  have xf': "exit_fence_ended (e\<lparr>e_exit_fence := xf\<rparr>) = exit_fence_ended e" "(xf = None) = (e_exit_fence e = None)"
    using xf by (simp_all add: c e1 exit_fence_ended_def)
  obtain t where t: "t_id t = turn_id (Suc (e_turn_seq e))" "\<not> t_retry t" "\<not> t_returned t" "t_text t = p" "cu = Some t"
  proof -
    define t where "t = new_turn p orig c (Suc (e_turn_seq e))"
    have "e_cur cl = Some t" by (simp add: c e1 t_def)
    with cu have "cu = Some t \<or> (\<exists>row. cu = Some (t\<lparr>t_row := Some row\<rparr>))" by auto
    then show thesis
    proof
      assume "cu = Some t"
      then show thesis by (intro that) (simp_all add: t_def)
    next
      assume "\<exists>row. cu = Some (t\<lparr>t_row := Some row\<rparr>)"
      then obtain row where "cu = Some (t\<lparr>t_row := Some row\<rparr>)" by blast
      then show thesis by (intro that [of "t\<lparr>t_row := Some row\<rparr>"]) (simp_all add: t_def)
    qed
  qed
  have "e' = e\<lparr>e_reads := rs, e_saw_foreign := saw, e_armed := a,
       e_calls := e_calls e @ [Begin (t_text t)], e_turn_seq := Suc (e_turn_seq e), e_cur := Some t, e_activity_at := n,
       e_activity := ActivityWorking, e_err := [], e_cancelled := False, e_prompted := True,
       e_out := e_out e @ [t_id t], e_queue := q, e_exit_fence := xf\<rparr>"
    unfolding e' t(1,4,5) c by (simp add: e1)
  with t(1-3) xf' show ?thesis unfolding claims_def
    by (intro exI [of _ t] exI [of _ rs] exI [of _ saw] exI [of _ a] exI [of _ q] exI [of _ xf] exI [of _ n] conjI)
qed

lemma post_claim_none: "post_claim e e"
proof -
  have "e\<lparr>e_cur := e_cur e, e_exit_fence := e_exit_fence e, e_queue := e_queue e\<rparr> = e"
    by (cases e) (simp only: engine.simps)
  moreover have "exit_fence_ended (e\<lparr>e_exit_fence := e_exit_fence e\<rparr>) = exit_fence_ended e"
    by (simp add: exit_fence_ended_def)
  ultimately show ?thesis unfolding post_claim_def by metis
qed

lemma post_claim_row: "post_claim e ((set_row row e)\<lparr>e_queue := q\<rparr>)"
proof -
  define c where "c = map_option (t_row_update (\<lambda>_. Some row)) (e_cur e)"
  from set_row_shape [of row e, folded c_def]
  obtain xf where s: "set_row row e = e\<lparr>e_cur := c, e_exit_fence := xf\<rparr>"
    and xf: "exit_fence_ended (e\<lparr>e_exit_fence := xf\<rparr>) = exit_fence_ended e" "(xf = None) = (e_exit_fence e = None)"
    by (elim exE conjE) (rule that)
  have "(set_row row e)\<lparr>e_queue := q\<rparr> = e\<lparr>e_cur := c, e_exit_fence := xf, e_queue := q\<rparr>"
    by (simp only: s)
  moreover have "c = e_cur e \<or> (\<exists>row. c = map_option (t_row_update (\<lambda>_. Some row)) (e_cur e))"
    unfolding c_def by blast
  ultimately show ?thesis using xf unfolding post_claim_def
    by (intro exI [of _ c] exI [of _ q] exI [of _ xf] conjI)
qed

lemma pre_claim_start: "pre_claim e (snd (can_start e))" "pre_claim e ((snd (can_start e))\<lparr>e_armed := a\<rparr>)"
proof -
  from can_start_shape [of e] obtain rs saw where s: "snd (can_start e) = e\<lparr>e_reads := rs, e_saw_foreign := saw\<rparr>"
    by blast
  show "pre_claim e (snd (can_start e))" unfolding pre_claim_def s
    by (intro exI [of _ rs] exI [of _ saw] exI [of _ "e_armed e"]) simp
  show "pre_claim e ((snd (can_start e))\<lparr>e_armed := a\<rparr>)" unfolding pre_claim_def s
    by (intro exI [of _ rs] exI [of _ saw] exI [of _ a]) simp
qed

text \<open>\<open>nextLocked\<close>: nothing claimed, or a claim with the gates open.\<close>

definition next_shape :: "engine \<Rightarrow> launch option \<times> event list \<times> event list \<times> engine \<Rightarrow> bool" where
  "next_shape e r \<longleftrightarrow>
     (case r of (l, _, _, e') \<Rightarrow>
        if l = None then
          (\<exists>rs saw a held. e' = e\<lparr>e_reads := rs, e_saw_foreign := saw, e_armed := a, e_pass_held := held\<rparr> \<and>
             (held \<longrightarrow> e_pass_held e \<or> e_close_fences e > 0) \<and> (e_pass_held e \<longrightarrow> held))
        else may_start e \<and> e_cur e = None \<and> claims e e')"

lemma next_shape_none:
  "pre_claim e e' \<Longrightarrow> next_shape e (None, b, g, e')"
proof -
  assume "pre_claim e e'"
  then obtain rs saw a where "e' = e\<lparr>e_reads := rs, e_saw_foreign := saw, e_armed := a\<rparr>" by (auto simp: pre_claim_def)
  then have "e' = e\<lparr>e_reads := rs, e_saw_foreign := saw, e_armed := a, e_pass_held := e_pass_held e\<rparr>" by simp
  then have "\<exists>rs saw a held. e' = e\<lparr>e_reads := rs, e_saw_foreign := saw, e_armed := a, e_pass_held := held\<rparr> \<and>
      (held \<longrightarrow> e_pass_held e \<or> e_close_fences e > 0) \<and> (e_pass_held e \<longrightarrow> held)"
    by (intro exI [of _ rs] exI [of _ saw] exI [of _ a] exI [of _ "e_pass_held e"] conjI) simp_all
  then show ?thesis by (simp add: next_shape_def)
qed

lemma head_turn_shape:
  assumes pre: "pre_claim e e1" and may: "may_start e" "e_cur e = None"
  shows "next_shape e (head_turn g q e1)"
proof (cases "q \<and> head_locked e1 \<noteq> None")
  case False
  then have "head_turn g q e1 = (None, [], g, e1)" by (auto simp: head_turn_def)
  with next_shape_none [OF pre] show ?thesis by simp
next
  case True
  then obtain head where h: "head_locked e1 = Some head" by auto
  define e2 where "e2 = snd (claim_locked (qp_text head) TurnOriginDrain [] e1)"
  have "\<exists>l b q'. head_turn g q e1 = (Some l, b, g, (set_row head e2)\<lparr>e_queue := q'\<rparr>)"
  proof (cases "pq_pop (e_queue (set_row head e2))")
    case None
    then have "head_turn g q e1 = (Some (fst (claim_locked (qp_text head) TurnOriginDrain [] e1)), [], g,
        (set_row head e2)\<lparr>e_queue := e_queue (set_row head e2)\<rparr>)"
      using True h by (simp add: head_turn_def split_beta Let_def e2_def)
    then show ?thesis by blast
  next
    case (Some x)
    then show ?thesis using True h by (simp add: head_turn_def split_beta Let_def e2_def [symmetric]) blast
  qed
  then show ?thesis
    using may claims_intro [OF pre, of "qp_text head" TurnOriginDrain "[]"] post_claim_row [where e = e2 and row = head]
    by (auto simp: next_shape_def e2_def)
qed

lemma next_locked_shape: "next_shape e (next_locked q e)"
proof (rule next_locked_cases [of q e])
  assume *: "next_locked q e = (None, [], [], if e_close_fences e > 0
      then (if e_activity e \<noteq> ActivityIdle then e else snd (can_start e))\<lparr>e_pass_held := True\<rparr>
      else (if e_activity e \<noteq> ActivityIdle then e else snd (can_start e)))"
  define e1 where "e1 = (if e_activity e \<noteq> ActivityIdle then e else snd (can_start e))"
  obtain rs saw where s: "snd (can_start e) = e\<lparr>e_reads := rs, e_saw_foreign := saw\<rparr>" using can_start_shape by blast
  have "\<exists>rs saw. e1 = e\<lparr>e_reads := rs, e_saw_foreign := saw, e_armed := e_armed e\<rparr>"
  proof (cases "e_activity e \<noteq> ActivityIdle")
    case True
    then show ?thesis by (intro exI [of _ "e_reads e"] exI [of _ "e_saw_foreign e"]) (simp add: e1_def)
  next
    case False
    with s show ?thesis by (intro exI [of _ rs] exI [of _ saw]) (simp add: e1_def)
  qed
  then obtain rs saw where e1: "e1 = e\<lparr>e_reads := rs, e_saw_foreign := saw, e_armed := e_armed e\<rparr>" by blast
  show ?thesis
  proof (cases "e_close_fences e > 0")
    case True
    then have "next_locked q e = (None, [], [], e\<lparr>e_reads := rs, e_saw_foreign := saw, e_armed := e_armed e, e_pass_held := True\<rparr>)"
      using * by (simp only: e1_def [symmetric]) (simp add: e1)
    moreover have "\<exists>rs' saw' a held. e\<lparr>e_reads := rs, e_saw_foreign := saw, e_armed := e_armed e, e_pass_held := True\<rparr> =
        e\<lparr>e_reads := rs', e_saw_foreign := saw', e_armed := a, e_pass_held := held\<rparr> \<and>
        (held \<longrightarrow> e_pass_held e \<or> e_close_fences e > 0) \<and> (e_pass_held e \<longrightarrow> held)"
      using True by (intro exI [of _ rs] exI [of _ saw] exI [of _ "e_armed e"] exI [of _ True] conjI) simp_all
    ultimately show ?thesis by (simp only: next_shape_def prod.case simp_thms if_True)
  next
    case False
    then have "next_locked q e = (None, [], [], e1)" using * by (simp only: e1_def [symmetric]) simp
    moreover have "pre_claim e e1" unfolding pre_claim_def using e1 by blast
    ultimately show ?thesis using next_shape_none by simp
  qed
next
  fix a
  assume *: "fst (can_start e)" "next_locked q e =
       (let r = claim_locked (as_text a) TurnOriginSendNow (as_cause a) ((snd (can_start e))\<lparr>e_armed := None\<rparr>)
        in (Some (fst r), [], [], snd r))"
  let ?c = "snd (claim_locked (as_text a) TurnOriginSendNow (as_cause a) ((snd (can_start e))\<lparr>e_armed := None\<rparr>))"
  have "post_claim ?c ?c" by (rule post_claim_none)
  from claims_intro [OF pre_claim_start(2) this] * show ?thesis
    using can_start_may_start [OF *(1)] can_start_free [OF *(1)] by (simp add: next_shape_def Let_def)
next
  fix a row
  assume *: "fst (can_start e)" "next_locked q e =
       (let r = claim_locked (qp_text row) TurnOriginSendNow (as_cause a) ((snd (can_start e))\<lparr>e_armed := None\<rparr>);
            t = take_row (as_from a) (as_cause a) (set_row row (snd r))
        in (Some (fst r), fst t, [], snd t))"
  let ?c = "snd (claim_locked (qp_text row) TurnOriginSendNow (as_cause a) ((snd (can_start e))\<lparr>e_armed := None\<rparr>))"
  obtain q' where "snd (take_row (as_from a) (as_cause a) (set_row row ?c)) = (set_row row ?c)\<lparr>e_queue := q'\<rparr>"
    using take_row_shape by blast
  with post_claim_row [where e = ?c and row = row and q = q'] have "post_claim ?c (snd (take_row (as_from a) (as_cause a) (set_row row ?c)))"
    by simp
  from claims_intro [OF pre_claim_start(2) this] * show ?thesis
    using can_start_may_start [OF *(1)] can_start_free [OF *(1)] by (simp add: next_shape_def Let_def)
next
  fix a
  assume *: "fst (can_start e)" "next_locked q e =
       (let d = disarm_locked ''row_gone'' [] [] (snd (can_start e)) in head_turn (fst d) q (snd d))"
  obtain b where "snd (disarm_locked ''row_gone'' [] [] (snd (can_start e))) = (snd (can_start e))\<lparr>e_armed := b\<rparr>"
    using disarm_shape by blast
  with head_turn_shape [OF pre_claim_start(2)] * can_start_may_start [OF *(1)] can_start_free [OF *(1)]
  show ?thesis by (simp add: Let_def)
next
  assume *: "fst (can_start e)" "next_locked q e = head_turn [] q (snd (can_start e))"
  with head_turn_shape [OF pre_claim_start(1)] can_start_may_start [OF *(1)] can_start_free [OF *(1)]
  show ?thesis by simp
qed

text \<open>The state a settlement decides the successor in: the turn is over, its failure remembered.\<close>

definition ended_turn :: "engine \<Rightarrow> engine \<Rightarrow> bool" where
  "ended_turn e e4 \<longleftrightarrow> (\<exists>xf st ids c a n act er. e4 = e\<lparr>e_exit_fence := xf, e_settled := st, e_settled_ids := ids,
       e_cancelled := c, e_cur := None, e_armed := a, e_activity_at := n, e_activity := act, e_err := er\<rparr> \<and>
     (exit_fence_ended e \<longrightarrow> exit_fence_ended (e\<lparr>e_exit_fence := xf\<rparr>)) \<and> (xf = None) = (e_exit_fence e = None) \<and>
     (act = ActivityIdle \<or> act = ActivityError))"

lemma end_turn_shape:
  "\<exists>q e4 l b g e5 q' n lg. ended_turn e e4 \<and> next_locked q e4 = (l, b, g, e5) \<and>
     snd (end_turn t batch e) = e5\<lparr>e_queue := q', e_activity_at := n, e_log := lg\<rparr>"
proof -
  obtain fe e1 where 1: "exit_fence_ends t e = (fe, e1)" by (cases "exit_fence_ends t e")
  obtain info failed where 2: "ending_of t e1 = (info, failed)" by (cases "ending_of t e1")
  define e2 where "e2 = (remember_err t (e1\<lparr>e_cancelled := (ti_stop_reason info = stopCancelled)\<rparr>))\<lparr>e_cur := None\<rparr>"
  obtain d e3 where 3: "settle_disarm t failed e2 = (d, e3)" by (cases "settle_disarm t failed e2")
  obtain chain e4 where 4: "(if failed then
             (\<not> refused t, e3\<lparr>e_activity_at := e_now e3, e_activity := ActivityError, e_err := ti_err info\<rparr>)
           else
             (e_stopped e3 \<or> e_stop_non_end e3 \<and> ti_stop_reason info \<noteq> stopEndTurn,
              e3\<lparr>e_activity_at := e_now e3, e_activity := ActivityIdle\<rparr>)) = (chain, e4)"
    by fastforce
  obtain l b g e5 where 5: "next_locked (\<not> (chain \<or> fe)) e4 = (l, b, g, e5)"
    by (cases "next_locked (\<not> (chain \<or> fe)) e4")
  obtain cl e6 where 6: "(if chain \<or> fe then clear_rows [] e5 else ([], e5)) = (cl, e6)" by fastforce
  have final: "\<exists>evs. snd (end_turn t batch e) = enqueue evs (if l = None then e6 else e6\<lparr>e_activity_at := e_activity_at e3\<rparr>)"
    unfolding end_turn_def 1 Let_def split 2 e2_def [symmetric] 3 4 5 6 snd_conv by (rule exI, rule refl)
  from exit_fence_ends_shape [of t e, unfolded 1 snd_conv] obtain xf where s1: "e1 = e\<lparr>e_exit_fence := xf\<rparr>"
    and xf: "exit_fence_ended e \<longrightarrow> exit_fence_ended (e\<lparr>e_exit_fence := xf\<rparr>)" "(xf = None) = (e_exit_fence e = None)"
    by (elim exE conjE) (rule that)
  from remember_err_shape [of t "e1\<lparr>e_cancelled := (ti_stop_reason info = stopCancelled)\<rparr>"]
  obtain st ids where s2: "remember_err t (e1\<lparr>e_cancelled := (ti_stop_reason info = stopCancelled)\<rparr>) =
      e1\<lparr>e_cancelled := (ti_stop_reason info = stopCancelled), e_settled := st, e_settled_ids := ids\<rparr>"
    by (elim exE) (rule that)
  from settle_disarm_shape [of t failed e2, unfolded 3 snd_conv] obtain a where s3: "e3 = e2\<lparr>e_armed := a\<rparr>"
    by (elim exE) (rule that)
  have s4: "\<exists>n act er. e4 = e3\<lparr>e_activity_at := n, e_activity := act, e_err := er\<rparr> \<and> (act = ActivityIdle \<or> act = ActivityError)"
  proof (cases failed)
    case True
    with 4 have "e4 = e3\<lparr>e_activity_at := e_now e3, e_activity := ActivityError, e_err := ti_err info\<rparr>" by simp
    then show ?thesis
      by (intro exI [of _ "e_now e3"] exI [of _ ActivityError] exI [of _ "ti_err info"] conjI disjI2 refl)
  next
    case False
    with 4 have "e4 = e3\<lparr>e_activity_at := e_now e3, e_activity := ActivityIdle\<rparr>" by simp
    also have "\<dots> = e3\<lparr>e_activity_at := e_now e3, e_activity := ActivityIdle, e_err := e_err e3\<rparr>" by simp
    finally have "e4 = e3\<lparr>e_activity_at := e_now e3, e_activity := ActivityIdle, e_err := e_err e3\<rparr>" .
    then show ?thesis
      by (intro exI [of _ "e_now e3"] exI [of _ ActivityIdle] exI [of _ "e_err e3"] conjI disjI1 refl)
  qed
  then obtain n act er where s4: "e4 = e3\<lparr>e_activity_at := n, e_activity := act, e_err := er\<rparr>"
    and act: "act = ActivityIdle \<or> act = ActivityError" by (elim exE conjE) (rule that)
  have "e4 = e\<lparr>e_exit_fence := xf, e_settled := st, e_settled_ids := ids,
       e_cancelled := (ti_stop_reason info = stopCancelled), e_cur := None, e_armed := a, e_activity_at := n,
       e_activity := act, e_err := er\<rparr>"
    unfolding s4 s3 e2_def unfolding s2 unfolding s1 by simp
  then have ended: "ended_turn e e4"
    unfolding ended_turn_def using xf act
    by (intro exI [of _ xf] exI [of _ st] exI [of _ ids] exI [of _ "ti_stop_reason info = stopCancelled"]
        exI [of _ a] exI [of _ n] exI [of _ act] exI [of _ er] conjI)
  have "\<exists>q'. e6 = e5\<lparr>e_queue := q'\<rparr>"
  proof (cases "chain \<or> fe")
    case True
    with 6 clear_rows_shape [of "[]" e5] show ?thesis by auto
  next
    case False
    with 6 show ?thesis by (intro exI [of _ "e_queue e5"]) auto
  qed
  then obtain q' where s6: "e6 = e5\<lparr>e_queue := q'\<rparr>" by blast
  from final obtain evs where
    "snd (end_turn t batch e) = enqueue evs (if l = None then e6 else e6\<lparr>e_activity_at := e_activity_at e3\<rparr>)" by blast
  then have "snd (end_turn t batch e) = e5\<lparr>e_queue := q', e_activity_at := (if l = None then e_activity_at e5 else e_activity_at e3),
      e_log := e_log e5 @ evs\<rparr>" (is "_ = e5\<lparr>e_queue := q', e_activity_at := ?n, e_log := ?lg\<rparr>")
    by (cases l) (simp_all add: s6 enqueue_def)
  with ended 5 show ?thesis
    by (intro exI [of _ "\<not> (chain \<or> fe)"] exI [of _ e4] exI [of _ l] exI [of _ b] exI [of _ g] exI [of _ e5]
        exI [of _ q'] exI [of _ ?n] exI [of _ ?lg] conjI)
qed

lemma restore_shape:
  "\<exists>e4 a q lg. ended_turn e e4 \<and> snd (restore_locked t row batch e) =
     e4\<lparr>e_armed := a, e_queue := q, e_log := lg, e_recheck := True, e_rearm := True\<rparr> \<and> e_activity e4 = ActivityIdle"
proof -
  define q where "q = snd (pq_restore row (e_queue e))"
  define xf where "xf = (case e_exit_fence e of None \<Rightarrow> None
      | Some f \<Rightarrow> Some (if xf_turn f = t_id t then f\<lparr>xf_turn := []\<rparr> else f))"
  have xf: "exit_fence_ended (e\<lparr>e_exit_fence := xf\<rparr>) = exit_fence_ended e" "(xf = None) = (e_exit_fence e = None)"
    by (auto simp: xf_def exit_fence_ended_def split: option.split)
  define e2 where "e2 = (case e_exit_fence e of
      Some f \<Rightarrow> if xf_turn f = t_id t then e\<lparr>e_queue := q, e_exit_fence := Some (f\<lparr>xf_turn := []\<rparr>)\<rparr> else e\<lparr>e_queue := q\<rparr>
    | None \<Rightarrow> e\<lparr>e_queue := q\<rparr>)"
  have e2': "(case e_exit_fence (e\<lparr>e_queue := q\<rparr>) of
      Some f \<Rightarrow> if xf_turn f = t_id t then (e\<lparr>e_queue := q\<rparr>)\<lparr>e_exit_fence := Some (f\<lparr>xf_turn := []\<rparr>)\<rparr> else e\<lparr>e_queue := q\<rparr>
    | None \<Rightarrow> e\<lparr>e_queue := q\<rparr>) = e2"
    by (simp add: e2_def)
  have s2: "e2 = e\<lparr>e_queue := q, e_exit_fence := xf\<rparr>"
  proof (cases "e_exit_fence e")
    case None
    then have "e\<lparr>e_queue := q, e_exit_fence := None\<rparr> = e\<lparr>e_queue := q\<rparr>" by (intro engine.equality) simp_all
    with None show ?thesis by (simp add: e2_def xf_def)
  next
    case (Some f)
    then have "e\<lparr>e_queue := q, e_exit_fence := Some f\<rparr> = e\<lparr>e_queue := q\<rparr>" by (intro engine.equality) simp_all
    with Some show ?thesis by (simp add: e2_def xf_def)
  qed
  define e3 where "e3 = remember_err t (e2\<lparr>e_cur := None, e_activity := ActivityIdle, e_activity_at := e_now e2, e_cancelled := False\<rparr>)"
  obtain st ids where s3: "e3 = e2\<lparr>e_cur := None, e_activity := ActivityIdle, e_activity_at := e_now e2,
      e_cancelled := False, e_settled := st, e_settled_ids := ids\<rparr>"
    using remember_err_shape unfolding e3_def by blast
  define d where "d = (case e_armed e3 of
      Some a \<Rightarrow> if as_turn a \<noteq> t_id t then disarm_locked ''other_turn'' [] [] e3 else ([], e3) | None \<Rightarrow> ([], e3))"
  have "\<exists>a. snd d = e3\<lparr>e_armed := a\<rparr>"
  proof (cases "\<exists>a. e_armed e3 = Some a \<and> as_turn a \<noteq> t_id t")
    case True
    with disarm_shape [of "''other_turn''" "[]" "[]" e3] show ?thesis by (auto simp: d_def)
  next
    case False
    then have "snd d = e3" by (auto simp: d_def split: option.split)
    then show ?thesis by (intro exI [of _ "e_armed e3"]) simp
  qed
  then obtain a where s4: "snd d = e3\<lparr>e_armed := a\<rparr>" by blast
  have "\<exists>evs. snd (restore_locked t row batch e) = (enqueue evs (snd d))\<lparr>e_recheck := True, e_rearm := True\<rparr>"
    unfolding restore_locked_def Let_def split_beta q_def [symmetric] e2' e3_def [symmetric] d_def [symmetric] snd_conv
    by blast
  then obtain evs where f: "snd (restore_locked t row batch e) = (enqueue evs (snd d))\<lparr>e_recheck := True, e_rearm := True\<rparr>"
    by blast
  define e4 where "e4 = e\<lparr>e_exit_fence := xf, e_settled := st, e_settled_ids := ids,
       e_cancelled := False, e_cur := None, e_armed := e_armed e, e_activity_at := e_now e, e_activity := ActivityIdle, e_err := e_err e\<rparr>"
  have "ended_turn e e4"
    unfolding ended_turn_def e4_def using xf
    by (intro exI [of _ xf] exI [of _ st] exI [of _ ids] exI [of _ False]
        exI [of _ "e_armed e"] exI [of _ "e_now e"] exI [of _ ActivityIdle] exI [of _ "e_err e"] conjI) simp_all
  moreover have "snd (restore_locked t row batch e) = e4\<lparr>e_armed := a, e_queue := q, e_log := e_log (snd d) @ evs, e_recheck := True, e_rearm := True\<rparr>"
    unfolding f s4 enqueue_def s3 s2 e4_def by simp
  moreover have "e_activity e4 = ActivityIdle" by (simp add: e4_def)
  ultimately show ?thesis by blast
qed

lemma return_steers_shape: "\<exists>q. snd (return_steers ss e) = e\<lparr>e_queue := q\<rparr>"
proof (induction ss)
  case Nil
  show ?case by (intro exI [of _ "e_queue e"]) simp
next
  case (Cons s ss)
  then obtain q where "snd (return_steers ss e) = e\<lparr>e_queue := q\<rparr>" by (elim exE) (rule that)
  then show ?case by (simp add: split_beta Let_def) blast
qed

text \<open>A settlement: parked for another claim, restored, or ended with or without a successor.\<close>

definition decided :: "engine \<Rightarrow> engine \<Rightarrow> bool" where
  "decided e e' \<longleftrightarrow> (\<exists>q e4. ended_turn (e\<lparr>e_queue := q\<rparr>) e4 \<and>
     ((\<exists>a q' lg. e' = e4\<lparr>e_armed := a, e_queue := q', e_log := lg, e_recheck := True, e_rearm := True\<rparr> \<and>
         e_activity e4 = ActivityIdle) \<or>
      (\<exists>m l b g e5 q' n lg. next_locked m e4 = (l, b, g, e5) \<and>
         e' = e5\<lparr>e_queue := q', e_activity_at := n, e_log := lg\<rparr>)))"

lemma settle_decided:
  assumes free: "\<not> (e_retry_foreign e \<and> \<not> e_stopped e \<and> \<not> t_given_up t \<and> turn_is t ErrForeignTurn)"
  shows "decided e (snd (settle_locked t e))"
proof -
  obtain batch e1 where r: "return_steers (tr_unanswered (t_res t)) e = (batch, e1)"
    by (cases "return_steers (tr_unanswered (t_res t)) e")
  from return_steers_shape [of "tr_unanswered (t_res t)" e, unfolded r snd_conv]
  obtain q where q: "e1 = e\<lparr>e_queue := q\<rparr>" by (elim exE) (rule that)
  have eq: "settle_locked t e = (case t_row t of
       Some row \<Rightarrow> if restores t e1 then restore_locked t row batch e1 else end_turn t batch e1
     | None \<Rightarrow> end_turn t batch e1)"
    using free r by (auto simp: settle_locked_def)
  then consider (ended) "settle_locked t e = end_turn t batch e1"
    | (restored) row where "settle_locked t e = restore_locked t row batch e1"
    by (cases "t_row t") (auto split: if_splits)
  then show ?thesis
  proof cases
    case ended
    then show ?thesis unfolding decided_def q [symmetric] by (metis end_turn_shape q)
  next
    case restored
    then show ?thesis unfolding decided_def by (metis restore_shape q)
  qed
qed

lemma settle_shape:
  "(\<exists>t'. snd (settle_locked t e) = e\<lparr>e_cur := Some (t\<lparr>t_retry := True\<rparr>), e_kick := True\<rparr> \<and>
      e_retry_foreign e \<and> \<not> e_stopped e \<and> turn_is t ErrForeignTurn) \<or>
   decided e (snd (settle_locked t e))"
proof (cases "e_retry_foreign e \<and> \<not> e_stopped e \<and> \<not> t_given_up t \<and> turn_is t ErrForeignTurn")
  case True
  then show ?thesis by (simp add: settle_locked_def wake_def)
next
  case False
  then show ?thesis by (simp add: settle_decided)
qed

text \<open>What every decision of the driver comes to: no turn is current and nothing was claimed, or the next
  turn in number was, with the gates open.\<close>

definition same_driver :: "engine \<Rightarrow> engine \<Rightarrow> bool" where
  "same_driver e e' \<longleftrightarrow> gate_fields e' = gate_fields e \<and> e_fence e' = e_fence e \<and> e_fenced e' = e_fenced e \<and>
     e_drain_owed e' = e_drain_owed e \<and> e_kick e' = e_kick e \<and> e_tick e' = e_tick e \<and>
     e_admitting e' = e_admitting e \<and> e_sets e' = e_sets e \<and> e_set_running e' = e_set_running e \<and>
     (e_recheck e' \<longrightarrow> e_recheck e \<or> e_rearm e') \<and> (e_rearm e \<longrightarrow> e_rearm e') \<and>
     (e_pass_held e' \<longrightarrow> e_pass_held e \<or> e_close_fences e > 0) \<and> (e_pass_held e \<longrightarrow> e_pass_held e') \<and>
     (exit_fence_ended e \<longrightarrow> exit_fence_ended e') \<and> (e_exit_fence e' = None) = (e_exit_fence e = None)"

definition claimed_turn :: "engine \<Rightarrow> engine \<Rightarrow> bool" where
  "claimed_turn e e' \<longleftrightarrow> (\<exists>t. e_cur e' = Some t \<and> t_id t = turn_id (Suc (e_turn_seq e)) \<and> \<not> t_retry t \<and>
     \<not> t_returned t \<and> e_turn_seq e' = Suc (e_turn_seq e) \<and> e_calls e' = e_calls e @ [Begin (t_text t)] \<and>
     e_out e' = e_out e @ [t_id t] \<and> e_activity e' = ActivityWorking \<and> may_start e')"

definition nothing_claimed :: "engine \<Rightarrow> engine \<Rightarrow> bool" where
  "nothing_claimed e e' \<longleftrightarrow> e_cur e' = None \<and> e_turn_seq e' = e_turn_seq e \<and> e_calls e' = e_calls e \<and>
     e_out e' = e_out e \<and> (e_activity e' = e_activity e \<or> e_activity e' = ActivityIdle \<or> e_activity e' = ActivityError)"

definition decision :: "engine \<Rightarrow> engine \<Rightarrow> bool" where
  "decision e e' \<longleftrightarrow> same_driver e e' \<and> (nothing_claimed e e' \<or> claimed_turn e e')"

lemma same_driver_refl [simp]: "same_driver e e"
  by (simp add: same_driver_def)

lemma same_driver_trans: "same_driver e e1 \<Longrightarrow> same_driver e1 e2 \<Longrightarrow> same_driver e e2"
  unfolding same_driver_def gate_fields_def prod.inject by metis

lemma same_driver_may_start: "same_driver e e' \<Longrightarrow> may_start e' \<Longrightarrow> may_start e"
  by (auto simp: same_driver_def gate_fields_def may_start_def)

lemma decision_after:
  assumes "decision e e1" and "same_driver e1 e2" and "exit_fence_ended e2 = exit_fence_ended e1"
    and "e_cur e2 = e_cur e1" and "e_turn_seq e2 = e_turn_seq e1" and "e_calls e2 = e_calls e1"
    and "e_out e2 = e_out e1" and "e_activity e2 = e_activity e1"
  shows "decision e e2"
proof -
  have "may_start e2 = may_start e1" using assms(2,3) unfolding same_driver_def by (metis may_start_cong)
  moreover have "same_driver e e2" using assms(1,2) same_driver_trans unfolding decision_def by blast
  ultimately show ?thesis using assms(1,4-) unfolding decision_def nothing_claimed_def claimed_turn_def by simp
qed

lemma decision_before:
  assumes "same_driver e e1" and "decision e1 e2"
    and "e_turn_seq e1 = e_turn_seq e" and "e_calls e1 = e_calls e" and "e_out e1 = e_out e"
    and "e_activity e1 = e_activity e \<or> e_activity e1 = ActivityIdle \<or> e_activity e1 = ActivityError"
  shows "decision e e2"
proof -
  have "same_driver e e2" using assms(1,2) same_driver_trans unfolding decision_def by blast
  then show ?thesis using assms(2-) unfolding decision_def nothing_claimed_def claimed_turn_def by auto
qed

lemma claims_decision:
  assumes c: "claims e e'" and may: "may_start e"
  shows "decision e e'"
proof -
  obtain t rs saw a q xf n where e': "e' = e\<lparr>e_reads := rs, e_saw_foreign := saw, e_armed := a,
       e_calls := e_calls e @ [Begin (t_text t)], e_turn_seq := Suc (e_turn_seq e), e_cur := Some t, e_activity_at := n,
       e_activity := ActivityWorking, e_err := [], e_cancelled := False, e_prompted := True,
       e_out := e_out e @ [t_id t], e_queue := q, e_exit_fence := xf\<rparr>"
    and t: "t_id t = turn_id (Suc (e_turn_seq e))" "\<not> t_retry t" "\<not> t_returned t"
    and xf: "exit_fence_ended (e\<lparr>e_exit_fence := xf\<rparr>) = exit_fence_ended e" "(xf = None) = (e_exit_fence e = None)"
    using c unfolding claims_def by (elim exE conjE) (rule that)
  have x: "exit_fence_ended e' = exit_fence_ended e" using xf(1) by (simp add: e' exit_fence_ended_def)
  have g: "gate_fields e' = gate_fields e" by (simp add: e' gate_fields_def)
  have "same_driver e e'" using x g xf(2) by (simp add: same_driver_def) (simp add: e')
  moreover have "may_start e'" using may may_start_cong [OF g x] by simp
  ultimately show ?thesis using t by (simp add: decision_def claimed_turn_def) (simp add: e')
qed

lemma next_decision:
  assumes n: "next_locked m e = (l, b, g, e')" and cur: "e_cur e = None"
  shows "decision e e'"
proof (cases l)
  case None
  with next_locked_shape [of e m] n obtain rs saw a held where
    e': "e' = e\<lparr>e_reads := rs, e_saw_foreign := saw, e_armed := a, e_pass_held := held\<rparr>"
    and held: "held \<longrightarrow> e_pass_held e \<or> e_close_fences e > 0" "e_pass_held e \<longrightarrow> held"
    unfolding next_shape_def by (simp only: prod.case simp_thms if_True) (elim exE conjE, rule that)
  have "same_driver e e'" using held by (simp add: same_driver_def e') (simp add: gate_fields_def exit_fence_ended_def)
  with cur show ?thesis by (simp add: decision_def nothing_claimed_def e')
next
  case (Some x)
  with next_locked_shape [of e m] n show ?thesis by (auto simp: next_shape_def intro: claims_decision)
qed

lemma ended_turn_driver:
  assumes "ended_turn e e4"
  shows "same_driver e e4" and "e_cur e4 = None" and "e_turn_seq e4 = e_turn_seq e" and "e_calls e4 = e_calls e"
    and "e_out e4 = e_out e" and "e_activity e4 = ActivityIdle \<or> e_activity e4 = ActivityError"
proof -
  obtain xf st ids c a n act er where e4: "e4 = e\<lparr>e_exit_fence := xf, e_settled := st, e_settled_ids := ids,
       e_cancelled := c, e_cur := None, e_armed := a, e_activity_at := n, e_activity := act, e_err := er\<rparr>"
    and xf: "exit_fence_ended e \<longrightarrow> exit_fence_ended (e\<lparr>e_exit_fence := xf\<rparr>)" "(xf = None) = (e_exit_fence e = None)"
    and act: "act = ActivityIdle \<or> act = ActivityError"
    using assms unfolding ended_turn_def by (elim exE conjE) (rule that)
  have "exit_fence_ended e \<longrightarrow> exit_fence_ended e4" using xf(1) by (simp add: e4 exit_fence_ended_def)
  moreover have "gate_fields e4 = gate_fields e" by (simp add: e4 gate_fields_def)
  ultimately show "same_driver e e4" using xf(2) by (simp add: same_driver_def) (simp add: e4)
qed (use assms in \<open>auto simp: ended_turn_def\<close>)

lemma decided_decision:
  assumes "decided e e'"
  shows "decision e e'"
proof -
  obtain q e4 where en: "ended_turn (e\<lparr>e_queue := q\<rparr>) e4"
    and alt: "(\<exists>a q' lg. e' = e4\<lparr>e_armed := a, e_queue := q', e_log := lg, e_recheck := True, e_rearm := True\<rparr> \<and>
         e_activity e4 = ActivityIdle) \<or>
      (\<exists>m l b g e5 q' n lg. next_locked m e4 = (l, b, g, e5) \<and>
         e' = e5\<lparr>e_queue := q', e_activity_at := n, e_log := lg\<rparr>)"
    using assms unfolding decided_def by (elim exE conjE) (rule that)
  note d = ended_turn_driver [OF en]
  have "same_driver e (e\<lparr>e_queue := q\<rparr>)" by (simp add: same_driver_def)
  from same_driver_trans [OF this d(1)] have s: "same_driver e e4" .
  from alt show ?thesis
  proof
    assume "\<exists>a q' lg. e' = e4\<lparr>e_armed := a, e_queue := q', e_log := lg, e_recheck := True, e_rearm := True\<rparr> \<and>
         e_activity e4 = ActivityIdle"
    then obtain a q' lg where e': "e' = e4\<lparr>e_armed := a, e_queue := q', e_log := lg, e_recheck := True, e_rearm := True\<rparr>"
      by (elim exE conjE) (rule that)
    have "same_driver e4 e'" by (simp add: e' same_driver_def) (simp add: gate_fields_def exit_fence_ended_def)
    with same_driver_trans [OF s] have "same_driver e e'" by blast
    moreover have "nothing_claimed e e'" using d(2-6) by (auto simp: nothing_claimed_def e')
    ultimately show ?thesis by (simp add: decision_def)
  next
    assume "\<exists>m l b g e5 q' n lg. next_locked m e4 = (l, b, g, e5) \<and>
         e' = e5\<lparr>e_queue := q', e_activity_at := n, e_log := lg\<rparr>"
    then obtain m l b g e5 q' n lg where nx: "next_locked m e4 = (l, b, g, e5)"
      and e': "e' = e5\<lparr>e_queue := q', e_activity_at := n, e_log := lg\<rparr>"
      by (elim exE conjE) (rule that)
    from next_decision [OF nx d(2)] have "decision e4 e'"
      by (rule decision_after) (simp_all add: e', simp_all add: same_driver_def gate_fields_def exit_fence_ended_def)
    from decision_before [OF s this] d(3-6) show ?thesis by simp
  qed
qed

lemma drain_decision:
  assumes "e_cur e = None"
  shows "decision e (snd (drain_locked e))"
proof -
  obtain l before gone e1 where n: "next_locked True e = (l, before, gone, e1)" by (cases "next_locked True e")
  from next_decision [OF n assms] have d: "decision e e1" .
  have "\<exists>evs. snd (drain_locked e) = enqueue evs e1"
    using n by (cases l) (auto simp: drain_locked_def)
  then obtain evs where "snd (drain_locked e) = enqueue evs e1" by blast
  then show ?thesis
    by simp (rule decision_after [OF d], simp_all add: same_driver_def)
qed

section \<open>One pass\<close>

lemma pass_cases:
  obtains (still) "snd (pass_locked e) = e"
      "e_closed e \<or> (\<exists>t. e_cur e = Some t \<and>
         (if t_retry t then \<not> e_stopped e else \<not> (t_returned t \<and> e_cancels e = 0)))"
  | (decide) "decision e (snd (pass_locked e))" "\<not> e_closed e" "e_cur e = None \<or> e_cancels e \<le> 0"
  | (mark) t t' k rs saw where "e_cur e = Some t" "\<not> e_closed e"
      "snd (pass_locked e) = e\<lparr>e_cur := Some t', e_kick := k, e_reads := rs, e_saw_foreign := saw\<rparr>" "t_id t' = t_id t"
      "t_returned t' = t_returned t" "e_kick e \<longrightarrow> k"
      "if t_retry t' then t_retry t \<or> k else t_retry t \<and> e_cancels e > 0"
  | (again) t rs saw where "e_cur e = Some t" "t_retry t" "t_retry_due t" "\<not> e_stopped e" "e_cancels e \<le> 0" "\<not> e_closed e"
      "snd (pass_locked e) = e\<lparr>e_reads := rs, e_saw_foreign := saw,
         e_cur := Some (t\<lparr>t_retry := False, t_retry_due := False, t_returned := False\<rparr>),
         e_calls := e_calls e @ [Begin (t_text t)], e_out := e_out e @ [t_id t]\<rparr>"
proof -
  have settle: thesis
    if s: "snd (pass_locked e) = snd (settle_locked t' e1)" and e1: "e1 = e\<lparr>e_cur := Some t'\<rparr>"
      and t: "e_cur e = Some t" "t_id t' = t_id t" "t_returned t' = t_returned t" and c: "e_cancels e \<le> 0" "\<not> e_closed e"
    for t t' e1
  proof (cases "\<exists>t''. snd (settle_locked t' e1) = e1\<lparr>e_cur := Some (t'\<lparr>t_retry := True\<rparr>), e_kick := True\<rparr> \<and>
      e_retry_foreign e1 \<and> \<not> e_stopped e1 \<and> turn_is t' ErrForeignTurn")
    case True
    then have "snd (pass_locked e) = e\<lparr>e_cur := Some (t'\<lparr>t_retry := True\<rparr>), e_kick := True,
        e_reads := e_reads e, e_saw_foreign := e_saw_foreign e\<rparr>"
      using s e1 by simp
    from mark [OF t(1) c(2) this] t show thesis by simp
  next
    case False
    with settle_shape [of t' e1] have "decision e1 (snd (settle_locked t' e1))" using decided_decision by blast
    moreover have "same_driver e e1" by (simp add: e1 same_driver_def)
    ultimately have "decision e (snd (pass_locked e))"
      unfolding s using decision_before [of e e1 "snd (settle_locked t' e1)"] by (simp add: e1)
    with decide c show thesis by blast
  qed
  show thesis
  proof (cases "e_closed e")
    case True
    then show thesis by (intro still) (simp_all add: pass_locked_def)
  next
    case open': False
    show thesis
    proof (cases "e_cur e")
      case None
      with open' drain_decision [OF None] decide show thesis by (simp add: pass_locked_def)
    next
      case (Some t)
      have self: "e = e\<lparr>e_cur := Some t\<rparr>" using Some by (intro engine.equality) simp_all
      consider (parked) "t_retry t" | (ready) "\<not> t_retry t" "t_returned t" "e_cancels e = 0"
        | (out) "\<not> t_retry t" "\<not> (t_returned t \<and> e_cancels e = 0)" by blast
      then show thesis
      proof cases
        case ready
        then have "snd (pass_locked e) = snd (settle_locked t e)" using Some open' by (simp add: pass_locked_def)
        from settle [OF this self Some refl refl] ready open' show thesis by simp
      next
        case out
        then have "snd (pass_locked e) = e" using Some open' by (auto simp: pass_locked_def)
        with out Some still show thesis by auto
      next
        case parked
        then have p: "pass_locked e = retry_locked t e" using Some open' by (simp add: pass_locked_def)
        show thesis
        proof (cases "e_stopped e")
          case True
          define t' where "t' = t\<lparr>t_retry := False\<rparr>"
          show thesis
          proof (cases "e_cancels e > 0")
            case c: True
            have "snd (pass_locked e) = e\<lparr>e_cur := Some t', e_kick := e_kick e, e_reads := e_reads e, e_saw_foreign := e_saw_foreign e\<rparr>"
              using True c p by (simp add: retry_locked_def t'_def Let_def)
            from mark [OF Some open' this] c parked show thesis by (simp add: t'_def)
          next
            case c: False
            have "snd (pass_locked e) = snd (settle_locked t' (e\<lparr>e_cur := Some t'\<rparr>))"
              using True c p by (simp add: retry_locked_def t'_def Let_def)
            from settle [OF this refl Some] c open' show thesis by (simp add: t'_def)
          qed
        next
          case run: False
          show thesis
          proof (cases "\<not> t_retry_due t \<or> e_cancels e > 0")
            case True
            then have "snd (pass_locked e) = e" using run p by (simp add: retry_locked_def)
            with run parked Some still show thesis by auto
          next
            case False
            from foreign_shape [of e] obtain rs saw where f: "snd (foreign_locked e) = e\<lparr>e_reads := rs, e_saw_foreign := saw\<rparr>"
              by (elim exE) (rule that)
            show thesis
            proof (cases "fst (foreign_locked e)")
              case True
              then have "snd (pass_locked e) = snd (foreign_locked e)" using run False p
                by (simp add: retry_locked_def split_beta Let_def)
              also have "\<dots> = (e\<lparr>e_cur := Some t\<rparr>)\<lparr>e_kick := e_kick e, e_reads := rs, e_saw_foreign := saw\<rparr>"
                unfolding f self [symmetric] by simp
              finally have "snd (pass_locked e) = e\<lparr>e_cur := Some t, e_kick := e_kick e, e_reads := rs, e_saw_foreign := saw\<rparr>"
                by simp
              from mark [OF Some open' this] parked show thesis by simp
            next
              case nf: False
              then have "snd (pass_locked e) = e\<lparr>e_reads := rs, e_saw_foreign := saw,
                 e_cur := Some (t\<lparr>t_retry := False, t_retry_due := False, t_returned := False\<rparr>),
                 e_calls := e_calls e @ [Begin (t_text t)], e_out := e_out e @ [t_id t]\<rparr>"
                using run False p f by (simp add: retry_locked_def split_beta Let_def launch_locked_def begin_call_on_def)
              from again [OF Some parked _ run _ open' this] False show thesis by simp
            qed
          qed
        qed
      qed
    qed
  qed
qed

lemma decision_obeys:
  assumes d: "decision e e'" and c: "e_cur e = None \<or> e_cancels e \<le> 0" and open': "\<not> e_closed e"
  shows "obeys e e'"
proof -
  from d have s: "same_driver e e'" and "nothing_claimed e e' \<or> claimed_turn e e'" by (auto simp: decision_def)
  then have g: "e_cancels e' = e_cancels e" "e_stopped e' = e_stopped e" "e_closed e' = e_closed e"
    and x: "exit_fence_ended e \<longrightarrow> exit_fence_ended e'" by (auto simp: same_driver_def gate_fields_def)
  from \<open>nothing_claimed e e' \<or> claimed_turn e e'\<close> show ?thesis
  proof
    assume "nothing_claimed e e'"
    with g x c show ?thesis by (auto simp: obeys_def nothing_claimed_def cur_id_def)
  next
    assume "claimed_turn e e'"
    then have "e_turn_seq e' = Suc (e_turn_seq e)" "may_start e'" by (auto simp: claimed_turn_def)
    moreover from this have "e_cancels e' = 0" by (simp add: may_start_def)
    ultimately show ?thesis using g x by (simp add: obeys_def)
  qed
qed

lemma pass_obeys: "obeys e (snd (pass_locked e))"
proof (rule pass_cases [of e])
  fix t t' k rs saw
  assume *: "e_cur e = Some t" "snd (pass_locked e) = e\<lparr>e_cur := Some t', e_kick := k, e_reads := rs, e_saw_foreign := saw\<rparr>"
    "t_id t' = t_id t"
  then show ?thesis by (intro obeysI_before) (simp add: before_decision_def cur_id_def exit_fence_ended_def)
next
  fix t rs saw
  assume *: "e_cur e = Some t" "snd (pass_locked e) = e\<lparr>e_reads := rs, e_saw_foreign := saw,
         e_cur := Some (t\<lparr>t_retry := False, t_retry_due := False, t_returned := False\<rparr>),
         e_calls := e_calls e @ [Begin (t_text t)], e_out := e_out e @ [t_id t]\<rparr>"
  then show ?thesis by (intro obeysI_before) (simp add: before_decision_def cur_id_def exit_fence_ended_def)
qed (auto intro: decision_obeys)

end
