(* ===== verification/Engine_Exit.thy ===== *)
theory Engine_Exit
  imports Engine_Inv
begin

text \<open>
  The exit fence over a run of the engine's sections. The fence of an engine that is to exit after one
  prompt names that prompt's turn once it is claimed. \<open>fence_named\<close> is the invariant: a fence that names
  a turn, and does not say that it has ended, names the current turn (or the engine has closed, and
  starts nothing). Every section keeps it, so the fence's turn cannot stop being current unless
  \<open>exitFenceEndsLocked\<close> notes its end or the turn's row went back to the queue and the fence to the row.
\<close>

definition fence_free :: "engine \<Rightarrow> bool" where
  "fence_free e \<longleftrightarrow> (\<forall>f. e_exit_fence e = Some f \<longrightarrow> xf_turn f = [] \<or> xf_ended f)"

definition fence_named :: "engine \<Rightarrow> bool" where
  "fence_named e \<longleftrightarrow> (\<forall>f. e_exit_fence e = Some f \<longrightarrow>
     xf_turn f = [] \<or> xf_ended f \<or> e_closed e \<or> cur_id e = Some (xf_turn f))"

definition fence_fields where
  "fence_fields e = (e_exit_fence e, cur_id e, e_closed e)"

lemma fence_named_cong: "fence_fields e' = fence_fields e \<Longrightarrow> fence_named e' = fence_named e"
  by (simp add: fence_named_def fence_fields_def)

lemma fence_free_named: "fence_free e \<Longrightarrow> fence_named e"
  by (auto simp: fence_free_def fence_named_def)

lemma fence_free_cong: "e_exit_fence e' = e_exit_fence e \<Longrightarrow> fence_free e' = fence_free e"
  by (simp add: fence_free_def)

lemma named_free: "fence_named e \<Longrightarrow> e_cur e = None \<Longrightarrow> \<not> e_closed e \<Longrightarrow> fence_free e"
  by (simp add: fence_named_def fence_free_def cur_id_def)

lemma fence_keeps [simp]:
  "e_exit_fence (snd (claim_locked p orig c e)) = e_exit_fence e"
  "e_exit_fence (snd (take_row rid c e)) = e_exit_fence e"
  "e_exit_fence (snd (disarm_locked w c d e)) = e_exit_fence e"
  "e_exit_fence (snd (settle_disarm t f e)) = e_exit_fence e"
  "e_exit_fence (snd (clear_rows c e)) = e_exit_fence e"
  "e_exit_fence (snd (launch_locked tid b e)) = e_exit_fence e"
  "e_exit_fence (begin_call_on p e) = e_exit_fence e"
  by (simp_all add: claim_locked_def launch_locked_def begin_call_on_def take_row_def disarm_locked_def
      settle_disarm_def clear_rows_def Let_def split_beta split: option.split)

lemma cur_id_keeps [simp]:
  "cur_id (snd (take_row rid c e)) = cur_id e" "cur_id (set_row row e) = cur_id e" "cur_id (take_hold e) = cur_id e"
  "cur_id (snd (clear_rows c e)) = cur_id e" "cur_id (snd (can_submit e)) = cur_id e"
  "cur_id (e\<lparr>e_queue := q\<rparr>) = cur_id e" "cur_id (e\<lparr>e_armed := a\<rparr>) = cur_id e"
  by (simp_all add: cur_id_def take_hold_def clear_rows_def split_beta option.map_comp o_def)

lemma named_updates [simp]:
  "fence_named (e\<lparr>e_queue := q\<rparr>) = fence_named e" "fence_named (e\<lparr>e_armed := a\<rparr>) = fence_named e"
  "fence_named (e\<lparr>e_tick := b\<rparr>) = fence_named e" "fence_named (e\<lparr>e_kick := b\<rparr>) = fence_named e"
  "fence_named (e\<lparr>e_rearm := b\<rparr>) = fence_named e" "fence_named (e\<lparr>e_stopped := b\<rparr>) = fence_named e"
  "fence_named (e\<lparr>e_ready := b\<rparr>) = fence_named e" "fence_named (e\<lparr>e_admitting := n\<rparr>) = fence_named e"
  "fence_named (e\<lparr>e_cancels := n\<rparr>) = fence_named e" "fence_named (e\<lparr>e_close_fences := n\<rparr>) = fence_named e"
  "fence_named (e\<lparr>e_pass_held := b\<rparr>) = fence_named e" "fence_named (e\<lparr>e_close_cause := c\<rparr>) = fence_named e"
  "fence_named (e\<lparr>e_sets := m, e_set_running := b\<rparr>) = fence_named e" "fence_named (enqueue evs e) = fence_named e"
  "fence_named (wake e) = fence_named e" "fence_named (raise_fence e) = fence_named e"
  "fence_named (snd (foreign_locked e)) = fence_named e" "fence_named (snd (disarm_locked w c d e)) = fence_named e"
  "fence_named (snd (clear_rows cause e)) = fence_named e" "fence_named (take_hold e) = fence_named e"
  "fence_named (snd (launch_locked tid ba e)) = fence_named e" "fence_named (begin_call_on pr e) = fence_named e"
  "fence_named (e\<lparr>e_exit_fence := Some \<lparr>xf_row = r, xf_turn = [], xf_ended = False\<rparr>\<rparr>)"
proof -
  show "fence_named (wake e) = fence_named e" "fence_named (take_hold e) = fence_named e"
    by (rule fence_named_cong; simp add: fence_fields_def wake_def; simp add: take_hold_def wake_def cur_id_def option.map_comp o_def)+
  show "fence_named (snd (clear_rows cause e)) = fence_named e"
    by (rule fence_named_cong, simp add: fence_fields_def, simp add: clear_rows_def split_beta)
qed (simp_all add: fence_named_def cur_id_def)

lemma named_sync: "fence_named e \<Longrightarrow> fence_named (sync_fence e)"
proof -
  assume n: "fence_named e"
  have "e_exit_fence (sync_fence e) \<in> {None, e_exit_fence e}"
    by (auto simp: sync_fence_def owed_drain_def exit_fence_lift_def Let_def split_beta split: option.split)
  with n show ?thesis by (auto simp: fence_named_def)
qed

section \<open>A decision of the driver\<close>

lemma named_set_row: "fence_free e \<Longrightarrow> fence_named (set_row row e)"
  by (auto simp: set_row_def exit_fence_row_taken_def fence_free_def fence_named_def cur_id_def split: option.splits)

lemma named_head:
  assumes "fence_free e"
  shows "fence_named (snd (snd (snd (head_turn g q e))))"
proof (cases "q \<and> head_locked e \<noteq> None")
  case False
  then show ?thesis using fence_free_named [OF assms] by (auto simp: head_turn_def split: option.split)
next
  case True
  then obtain head where h: "head_locked e = Some head" by auto
  have "fence_named (set_row head (snd (claim_locked (qp_text head) TurnOriginDrain [] e)))"
    by (rule named_set_row) (simp add: fence_free_cong [OF fence_keeps(1)] assms)
  with True h show ?thesis
    by (auto simp: head_turn_def split_beta Let_def fence_named_def split: option.split)
qed

lemma named_next:
  assumes n: "fence_named e"
  shows "fence_named (snd (snd (snd (next_locked q e))))"
proof -
  have same: "fence_named (snd (can_start e))"
    using n by (simp add: fence_named_def)
  have free: "fence_free (snd (can_start e))" "fence_free ((snd (can_start e))\<lparr>e_armed := a\<rparr>)"
    if "fst (can_start e)" for a
    using named_free [OF n] can_start_free [OF that] by (simp_all add: fence_free_def)
  show ?thesis
  proof (rule next_locked_cases [of q e])
    assume "next_locked q e = (None, [], [], if e_close_fences e > 0
        then (if e_activity e \<noteq> ActivityIdle then e else snd (can_start e))\<lparr>e_pass_held := True\<rparr>
        else (if e_activity e \<noteq> ActivityIdle then e else snd (can_start e)))"
    then show ?thesis using n by (simp add: fence_named_def cur_id_def)
  next
    fix a
    assume *: "fst (can_start e)" "next_locked q e =
         (let r = claim_locked (as_text a) TurnOriginSendNow (as_cause a) ((snd (can_start e))\<lparr>e_armed := None\<rparr>)
          in (Some (fst r), [], [], snd r))"
    have "fence_free (snd (claim_locked (as_text a) TurnOriginSendNow (as_cause a) ((snd (can_start e))\<lparr>e_armed := None\<rparr>)))"
      using free(2) [OF *(1)] by (simp add: fence_free_def)
    with * fence_free_named show ?thesis by (simp add: Let_def)
  next
    fix a row
    assume *: "fst (can_start e)" "next_locked q e =
         (let r = claim_locked (qp_text row) TurnOriginSendNow (as_cause a) ((snd (can_start e))\<lparr>e_armed := None\<rparr>);
              t = take_row (as_from a) (as_cause a) (set_row row (snd r))
          in (Some (fst r), fst t, [], snd t))"
    have "fence_named (set_row row (snd (claim_locked (qp_text row) TurnOriginSendNow (as_cause a) ((snd (can_start e))\<lparr>e_armed := None\<rparr>))))"
      using free(2) [OF *(1)] by (intro named_set_row) (simp add: fence_free_def)
    with * show ?thesis by (simp add: Let_def fence_named_def)
  next
    fix a
    assume *: "fst (can_start e)" "next_locked q e =
         (let d = disarm_locked ''row_gone'' [] [] (snd (can_start e)) in head_turn (fst d) q (snd d))"
    with free(1) show ?thesis by (simp add: Let_def named_head fence_free_def)
  next
    assume "fst (can_start e)" "next_locked q e = head_turn [] q (snd (can_start e))"
    with free(1) show ?thesis by (simp add: named_head)
  qed
qed

lemma named_drain: "fence_named e \<Longrightarrow> fence_named (snd (drain_locked e))"
  using named_next [of e True]
  by (auto simp: drain_locked_def split_beta Let_def fence_named_def split: option.split)

text \<open>The end of a turn notes the fence's end where the turn is the fence's.\<close>

lemma ends_free:
  assumes "fence_named e" and "cur_id e = Some (t_id t)" and "\<not> e_closed e"
  shows "fence_free (snd (exit_fence_ends t e))"
  using assms by (auto simp: exit_fence_ends_def fence_named_def fence_free_def split: option.split)

lemma end_turn_fence:
  obtains q e4 where "e_exit_fence e4 = e_exit_fence (snd (exit_fence_ends t e))" "e_cur e4 = None"
    and "fence_fields (snd (end_turn t batch e)) = fence_fields (snd (snd (snd (next_locked q e4))))"
    and "e_queue e4 = e_queue e"
    and "set (pq_list (e_queue (snd (end_turn t batch e)))) \<subseteq>
      set (pq_list (e_queue (snd (snd (snd (next_locked q e4))))))"
proof -
  obtain fe e1 where 1: "exit_fence_ends t e = (fe, e1)" by (cases "exit_fence_ends t e")
  obtain info failed where 2: "ending_of t e1 = (info, failed)" by (cases "ending_of t e1")
  define e2 where "e2 = (remember_err t (e1\<lparr>e_cancelled := (ti_stop_reason info = stopCancelled)\<rparr>))\<lparr>e_cur := None\<rparr>"
  obtain d e3 where 3: "settle_disarm t failed e2 = (d, e3)" by (cases "settle_disarm t failed e2")
  obtain chain e4 where 4: "(if failed then
             (\<not> refused t, e3\<lparr>e_activity_at := e_now e3, e_activity := ActivityError, e_err := ti_err info\<rparr>)
           else
             (e_stopped e3 \<or> e_stop_non_end e3 \<and> ti_stop_reason info \<noteq> stopEndTurn,
              e3\<lparr>e_activity_at := e_now e3, e_activity := ActivityIdle\<rparr>)) = (chain, e4)"
    by fastforce
  obtain l b g e5 where 5: "next_locked (\<not> (chain \<or> fe)) e4 = (l, b, g, e5)"
    by (cases "next_locked (\<not> (chain \<or> fe)) e4")
  obtain cl e6 where 6: "(if chain \<or> fe then clear_rows [] e5 else ([], e5)) = (cl, e6)" by fastforce
  have "\<exists>evs. snd (end_turn t batch e) = enqueue evs (if l = None then e6 else e6\<lparr>e_activity_at := e_activity_at e3\<rparr>)"
    unfolding end_turn_def 1 Let_def split 2 e2_def [symmetric] 3 4 5 6 snd_conv by (rule exI, rule refl)
  moreover have "fence_fields e6 = fence_fields e5" "set (pq_list (e_queue e6)) \<subseteq> set (pq_list (e_queue e5))"
    using 6 by (auto simp: fence_fields_def clear_rows_def pq_clear_def pq_list_def split_beta Let_def split: if_splits)
  ultimately have fields: "fence_fields (snd (end_turn t batch e)) = fence_fields e5"
    and rows: "set (pq_list (e_queue (snd (end_turn t batch e)))) \<subseteq> set (pq_list (e_queue e5))"
    by (cases l; auto simp: fence_fields_def cur_id_def)+
  have "e3 = snd (settle_disarm t failed e2)" using 3 by simp
  then have e4: "e_exit_fence e4 = e_exit_fence e1" "e_cur e4 = None" "e_queue e4 = e_queue e1"
    using 4 by (auto simp: e2_def split: if_splits)
  moreover have "e_queue e1 = e_queue e" using arg_cong [OF 1, of "\<lambda>r. e_queue (snd r)"] by simp
  ultimately show ?thesis using that [of e4 "\<not> (chain \<or> fe)"] 1 5 fields rows by simp
qed

lemma named_end_turn:
  assumes "fence_named e" and "cur_id e = Some (t_id t)" and "\<not> e_closed e"
  shows "fence_named (snd (end_turn t batch e))"
proof (rule end_turn_fence [of t e batch])
  fix q e4
  assume *: "e_exit_fence e4 = e_exit_fence (snd (exit_fence_ends t e))" "e_cur e4 = None"
    "fence_fields (snd (end_turn t batch e)) = fence_fields (snd (snd (snd (next_locked q e4))))"
  from ends_free [OF assms] have "fence_named e4" using * by (simp add: fence_free_named fence_free_def)
  from named_next [OF this, of q] show ?thesis by (simp add: fence_named_cong [OF *(3)])
qed

lemma named_restore:
  assumes "fence_named e" and "cur_id e = Some (t_id t)" and "\<not> e_closed e"
  shows "fence_named (snd (restore_locked t row batch e))"
proof -
  have "fence_free (snd (restore_locked t row batch e))"
    using assms by (auto simp: restore_locked_def split_beta Let_def fence_free_def fence_named_def split: option.splits)
  then show ?thesis by (rule fence_free_named)
qed

lemma named_turn:
  "fence_named e \<Longrightarrow> map_option t_id c = cur_id e \<Longrightarrow> fence_named (e\<lparr>e_cur := c\<rparr>)"
  by (simp add: fence_named_def cur_id_def)

lemma named_settle:
  assumes "fence_named e" and "cur_id e = Some (t_id t)" and "\<not> e_closed e"
  shows "fence_named (snd (settle_locked t e))"
proof (cases "e_retry_foreign e \<and> \<not> e_stopped e \<and> \<not> t_given_up t \<and> turn_is t ErrForeignTurn")
  case True
  moreover have "fence_named (e\<lparr>e_cur := Some (t\<lparr>t_retry := True\<rparr>)\<rparr>)"
    by (rule named_turn [OF assms(1)]) (simp add: assms(2))
  ultimately show ?thesis by (simp add: settle_locked_def)
next
  case False
  obtain q where q: "snd (return_steers (tr_unanswered (t_res t)) e) = e\<lparr>e_queue := q\<rparr>" using return_steers_shape by blast
  then obtain batch where r: "return_steers (tr_unanswered (t_res t)) e = (batch, e\<lparr>e_queue := q\<rparr>)" by (metis prod.collapse)
  have n: "fence_named (e\<lparr>e_queue := q\<rparr>)" using assms(1) by simp
  from named_end_turn [OF this, of t batch] named_restore [OF n, of t _ batch] assms(2,3) False r
  show ?thesis by (auto simp: settle_locked_def split: option.split)
qed

lemma named_retry:
  assumes n: "fence_named e" and cur: "e_cur e = Some t" and op: "\<not> e_closed e"
  shows "fence_named (snd (retry_locked t e))"
proof (cases "e_stopped e")
  case True
  have "fence_named (e\<lparr>e_cur := Some (t\<lparr>t_retry := False\<rparr>)\<rparr>)"
    by (rule named_turn [OF n]) (simp add: cur_id_def cur)
  from this named_settle [OF this, of "t\<lparr>t_retry := False\<rparr>"] op True show ?thesis
    by (simp add: retry_locked_def Let_def cur_id_def)
next
  case False
  have "fence_named ((snd (foreign_locked e))\<lparr>e_cur := Some (t\<lparr>t_retry := False, t_retry_due := False, t_returned := False\<rparr>)\<rparr>)"
    by (rule named_turn) (simp_all add: n cur_id_def cur)
  with False n show ?thesis by (auto simp: retry_locked_def split_beta Let_def)
qed

lemma named_pass: "fence_named e \<Longrightarrow> fence_named (snd (pass_locked e))"
  by (auto simp: pass_locked_def named_drain named_retry named_settle cur_id_def split: option.split)

section \<open>Every section\<close>

lemma named_hold: "fence_named e \<Longrightarrow> fence_named (snd (hold_cancel_locked turn stop asks cause e))"
proof -
  assume n: "fence_named e"
  have stop: "fence_named (stop_locked cause x) = fence_named x" for x
    by (simp add: stop_locked_def split_beta Let_def)
  show ?thesis
  proof (rule hold_cancel_cases [of turn stop asks cause e])
    fix tid e1
    assume *: "hold_cancel_locked turn stop asks cause e =
          (Inr tid, take_hold (if stop \<and> \<not> e_stopped e1 then stop_locked cause e1 else e1))"
      "e1 \<in> {raise_fence e, snd (foreign_locked (raise_fence e))}"
    then have "fence_named e1" using n by auto
    with * show ?thesis by (simp add: stop)
  qed (use n in auto)
qed

lemma named_arm: "fence_named e \<Longrightarrow> fence_named (snd (arm_locked cause prompt from e))"
proof -
  assume n: "fence_named e"
  have "fence_named e1" if "hold_cancel_locked tid False 0 cause e = (res, e1)" for tid res e1
    using named_hold [OF n, of tid False 0 cause] that by simp
  then show ?thesis using n by (auto simp: arm_locked_def split: option.split prod.split sum.split)
qed

lemma named_start:
  assumes n: "fence_named e" and free: "e_cur e = None" "\<not> e_closed e"
  shows "fence_named (snd (snd (submit_start cause prompt mode from fence e)))"
proof -
  have "fence_free e" by (rule named_free [OF n free])
  then have r: "fence_named (snd (reserve_locked p orig c row e)) \<and>
      cur_id (snd (reserve_locked p orig c row e)) = Some (l_turn (fst (reserve_locked p orig c row e)))" for p orig c row
  proof (cases row)
    case None
    with \<open>fence_free e\<close> show ?thesis
      by (auto simp: reserve_locked_def split_beta Let_def fence_free_def fence_named_def cur_id_def)
  next
    case (Some x)
    define e2 where "e2 = snd (take_row (qp_id x) c (snd (claim_locked p orig c e)))"
    have "fence_free (enqueue evs e2)" for evs using \<open>fence_free e\<close> by (simp add: fence_free_def e2_def)
    with Some named_set_row show ?thesis
      by (simp add: reserve_locked_def split_beta Let_def e2_def [symmetric]) (simp add: e2_def cur_id_def)
  qed
  show ?thesis
  proof (cases "submit_source prompt from e")
    case (Inl err)
    with n show ?thesis by (simp add: submit_start_def)
  next
    case (Inr sr)
    with r show ?thesis
      by (cases sr) (auto simp: submit_start_def split_beta Let_def fence_named_def cur_id_def)
  qed
qed

lemma named_submit: "fence_named e \<Longrightarrow> fence_named (snd (snd (snd (submit cause prompt mode from fence e))))"
proof -
  assume n: "fence_named e"
  obtain gate e1 where g: "submit_gates mode from (raise_fence e) = (gate, e1)"
    by (cases "submit_gates mode from (raise_fence e)")
  obtain start e2 where s: "can_submit e1 = (start, e2)" by (cases "can_submit e1")
  have "e_exit_fence (snd (submit_gates mode from x)) = e_exit_fence x" for x
    by (auto simp: submit_gates_def admit_locked_def split_beta Let_def split: option.split)
  from this [of "raise_fence e"] submit_gates_frame [of mode "from" "raise_fence e"] g
  have "fence_fields e1 = fence_fields e" by (simp add: fence_fields_def cur_id_def)
  then have n1: "fence_named e1" using n fence_named_cong by blast
  have "fence_fields e2 = fence_fields e1"
    using can_submit_frame [of e1] s by (simp add: fence_fields_def cur_id_def)
  then have n2: "fence_named e2" using n1 fence_named_cong by blast
  have start: "fence_named (snd (snd (submit_start cause prompt mode from fence e2)))" if start
    using can_submit_free [of e1] s that can_submit_frame [of e1] by (intro named_start [OF n2]) simp_all
  have queue: "fence_named (snd (submit_queue cause prompt from fence e2))"
    using n2 by (auto simp: submit_queue_def Let_def split: option.split sum.split)
  show ?thesis
  proof (cases gate)
    case (Some err)
    with g named_sync [OF n1] show ?thesis by (simp add: submit_def)
  next
    case None
    then have eq: "snd (snd (snd (submit cause prompt mode from fence e))) =
        sync_fence (if start then snd (snd (submit_start cause prompt mode from fence e2))
          else if mode = SubmitSendNow then snd (arm_locked cause prompt from e2)
          else snd (submit_queue cause prompt from fence e2))"
      using g s by (simp add: submit_def split_beta split: sum.split)
    show ?thesis unfolding eq by (rule named_sync) (use start named_arm [OF n2] queue in simp)
  qed
qed

lemma named_verbs:
  assumes n: "fence_named e"
  shows "fence_named (snd (queue_verb cause prompt e))" "fence_named (snd (edit_queued cause rid prompt expected e))"
    "fence_named (snd (unqueue cause rid e))" "fence_named (snd (clear_queue cause e))" "fence_named (snd (disarm cause e))"
proof -
  have q: "fence_named (sync_fence (enqueue evs (e\<lparr>e_queue := q\<rparr>)))" for evs q
    by (rule named_sync) (use n in simp)
  have c: "fence_named (sync_fence (enqueue evs (snd (clear_rows cause e))))" for evs
    by (rule named_sync) (use n in simp)
  show "fence_named (snd (queue_verb cause prompt e))" "fence_named (snd (edit_queued cause rid prompt expected e))"
    "fence_named (snd (unqueue cause rid e))" "fence_named (snd (clear_queue cause e))"
    using q c named_sync [OF n]
    by (auto simp: queue_verb_def edit_queued_def unqueue_def clear_queue_def split_beta Let_def split: option.split sum.split)
  show "fence_named (snd (disarm cause e))"
    using n by (auto simp: disarm_def split_beta Let_def split: option.split)
qed

lemma named_release: "fence_named e \<Longrightarrow> fence_named (snd (snd (release_hold held cause ws cancel_err own e)))"
proof -
  assume n: "fence_named e"
  then have "fence_named (snd (release_failure held cause cancel_err own ((raise_fence e)\<lparr>e_cancels := e_cancels e - 1\<rparr>)))"
    by (auto simp: release_failure_def split_beta Let_def split: option.split)
  from named_sync [OF named_pass [OF this]] show ?thesis by (simp add: release_hold_def split_beta Let_def)
qed

lemma named_returned: "fence_named e \<Longrightarrow> fence_named (snd (turn_returned tid res err e))"
proof -
  assume n: "fence_named e"
  define e1 where "e1 = raise_fence (e\<lparr>e_out := remove1 tid (e_out e)\<rparr>)"
  define e2 where "e2 = (case e_cur e1 of None \<Rightarrow> e1 | Some t \<Rightarrow>
      if t_id t = tid then e1\<lparr>e_cur := Some (t\<lparr>t_res := res, t_err := err, t_returned := True\<rparr>)\<rparr> else e1)"
  have "fence_fields e2 = fence_fields e" by (auto simp: e2_def e1_def fence_fields_def cur_id_def split: option.split)
  with n have "fence_named e2" using fence_named_cong by blast
  from named_sync [OF named_pass [OF this]] show ?thesis
    by (simp add: turn_returned_def split_beta Let_def e1_def [symmetric] e2_def [symmetric])
qed

lemma named_drive: "fence_named e \<Longrightarrow> fence_named (snd (drive w e))"
proof -
  have pass: "fence_named (snd (drive_pass ticked x))" if "fence_named x" for ticked x
  proof -
    have "fence_fields (drive_due ticked (raise_fence x)) = fence_fields x"
      by (cases "e_cur x") (auto simp: fence_fields_def drive_due_def cur_id_def)
    with that have "fence_named (drive_due ticked (raise_fence x))" using fence_named_cong by blast
    from named_sync [OF named_pass [OF this]] show ?thesis
      by (simp add: drive_pass_def split_beta Let_def)
  qed
  assume n: "fence_named e"
  then have "fence_named (e\<lparr>e_kick := False\<rparr>)" by simp
  from pass [OF this] pass [OF n] n show ?thesis by (auto simp: drive_def split: wakeup.split)
qed

lemma named_give_up: "fence_named e0 \<Longrightarrow> fence_named (snd (snd (give_up turn e0)))"
proof -
  assume n: "fence_named e0"
  define e where "e = raise_fence e0"
  have ne: "fence_named e" using n by (simp add: e_def fence_named_def)
  show ?thesis
  proof (cases "\<exists>x. e_cur e = Some x \<and> t_retry x \<and> \<not> e_closed e")
    case False
    with named_sync [OF ne] show ?thesis by (auto simp: give_up_def e_def [symmetric] Let_def split: option.split)
  next
    case True
    then obtain x where x: "e_cur e = Some x" "t_retry x" "\<not> e_closed e" by auto
    define x' where "x' = x\<lparr>t_given_up := True, t_retry := False, t_retry_due := False\<rparr>"
    define e1 where "e1 = e\<lparr>e_cur := Some x'\<rparr>"
    have n1: "fence_named e1" unfolding e1_def x'_def by (rule named_turn [OF ne]) (simp add: cur_id_def x)
    have "fence_named (snd (settle_locked x' e1))"
      by (rule named_settle [OF n1]) (use x in \<open>simp_all add: e1_def cur_id_def\<close>)
    moreover have "snd (snd (give_up turn e0)) \<in> {sync_fence e, sync_fence e1, sync_fence (snd (settle_locked x' e1))}"
      using x by (simp add: give_up_def e_def [symmetric] Let_def split_beta x'_def [symmetric] e1_def [symmetric])
    ultimately show ?thesis using ne n1 by (auto intro: named_sync)
  qed
qed

lemma named_give_up_drain: "fence_named e0 \<Longrightarrow> fence_named (snd (snd (give_up_drain e0)))"
proof -
  assume n: "fence_named e0"
  define e where "e = raise_fence e0"
  have ne: "fence_named e" using n by (simp add: e_def fence_named_def)
  define p where "p = (if e_cur e = None then pass_locked e else ([], e))"
  have np: "fence_named (snd p)" using ne named_pass by (simp add: p_def)
  define e2 where "e2 = (snd p)\<lparr>e_stopped := True\<rparr>"
  have "fence_named (sync_fence (enqueue evs (snd (disarm_locked w c d e2))))" for evs w c d
    by (rule named_sync) (use np in \<open>simp add: e2_def\<close>)
  with named_sync [OF ne] named_sync [OF np] show ?thesis
    by (simp add: give_up_drain_def e_def [symmetric] Let_def split_beta p_def [symmetric] e2_def [symmetric]
        split: option.split)
qed

lemma named_section: "fence_named e \<Longrightarrow> fence_named (engine_section x e)"
proof -
  assume n: "fence_named e"
  have frame: "fence_named e'" if "fence_fields e' = fence_fields e" for e'
    using n that fence_named_cong by blast
  show ?thesis
  proof (cases x)
    case OpStarted
    then show ?thesis
      using named_sync [OF n] named_sync [OF frame]
      by (auto simp: started_def retire_replay_def Let_def fence_fields_def cur_id_def split: option.split)
  next
    case OpHold
    have "fence_named (raise_fence e)" using n by simp
    from named_sync [OF named_hold [OF this]] OpHold show ?thesis by (simp add: hold_cancel_def split_beta)
  next
    case OpCloseFence
    then show ?thesis by (simp add: close_fence_up_def split_beta Let_def n named_sync)
  next
    case OpReleaseCloseFence
    then show ?thesis by (simp add: release_close_fence_def Let_def n named_sync)
  next
    case (OpObserve wall ev)
    have "fence_fields (observe wall ev e) = fence_fields e"
      by (auto simp: fence_fields_def cur_id_def observe_frame observe_def wake_def split_beta Let_def split: event_body.split)
    with OpObserve frame show ?thesis by simp
  next
    case OpClose
    then show ?thesis
      using n by (auto simp: close_section_def fence_named_def Let_def split_beta split: option.split)
  qed (use n frame in \<open>auto simp: named_submit named_verbs named_release named_returned named_drive named_give_up
      named_give_up_drain admitted_def interject_gate_def admit_locked_def close_for_def
      split: option.split\<close>)
qed

interpretation exit_fence_names: op_invariant engine_step "\<lambda>_ _. True" fence_named
proof
  fix s p
  assume "fence_named s"
  then have "fence_named (enter o' s)" for o' by (simp add: fence_named_def enter_def cur_id_def)
  then show "fence_named (fst (engine_step p s))" by (cases p) (simp add: Let_def named_section)
qed

lemma fence_named_new [simp]: "fence_named (new_engine rf sn ad hf born)"
  by (simp add: fence_named_def new_engine_def)

end
