(* ===== verification/Engine_Laws.thy ===== *)
theory Engine_Laws
  imports Engine_Exit
begin

text \<open>
  The engine's laws over every sequence of critical sections.

  \<^item> \<open>engine_inv\<close> is the driver's invariant: a turn that is current always has something that will
    come back to it, the retry timer runs while a recheck is owed, a pass held back by a close fence
    has a fence to come off, the calls on the session alternate. Each section keeps it
    (\<open>section_inv\<close>), and the sections are an \<open>op_invariant\<close>.
  \<^item> \<open>section_obeys\<close>: what a section may do to the current turn and the gates.
  \<^item> \<open>exit_fence_end\<close>, \<open>cancel_held\<close>, \<open>close_fenced\<close>: what stays as it is once it is so. That the exit fence
    names the running turn is theory \<open>Engine_Exit\<close>.
  \<^item> The properties close the theory.
\<close>

section \<open>The calls on the session\<close>

text \<open>The calls the engine makes on the session, in order: the fence's raise and lower alternate, and a
  prompt begins only behind a raised fence. \<open>None\<close> is a call out of order.\<close>

fun calls_fold :: "session_call list \<Rightarrow> bool \<Rightarrow> bool option" where
  "calls_fold [] up = Some up"
| "calls_fold (FenceUp # cs) up = (if up then None else calls_fold cs True)"
| "calls_fold (FenceDown # cs) up = (if up then calls_fold cs False else None)"
| "calls_fold (Begin p # cs) up = (if up then calls_fold cs up else None)"

lemma calls_fold_append:
  "calls_fold (cs @ ds) up = (case calls_fold cs up of None \<Rightarrow> None | Some v \<Rightarrow> calls_fold ds v)"
  by (induction cs up rule: calls_fold.induct) auto

definition calls_ok :: "engine \<Rightarrow> bool" where
  "calls_ok e \<longleftrightarrow> (e_fence e \<longrightarrow> calls_fold (e_calls e) False = Some (e_fenced e))"

lemma calls_ok_cong:
  "calls_ok e \<Longrightarrow> e_fence e' = e_fence e \<Longrightarrow> e_calls e' = e_calls e \<Longrightarrow> e_fenced e' = e_fenced e \<Longrightarrow> calls_ok e'"
  by (simp add: calls_ok_def)

lemma calls_ok_raise: "calls_ok e \<Longrightarrow> calls_ok (raise_fence e)"
  by (auto simp: calls_ok_def raise_fence_def calls_fold_append)

lemma calls_ok_foreign: "calls_ok e \<Longrightarrow> calls_ok (snd (foreign_locked e))"
  by (erule calls_ok_cong) simp_all

lemma calls_ok_owed: "calls_ok e \<Longrightarrow> calls_ok (owed_drain e)"
proof -
  assume ok: "calls_ok e"
  have "calls_ok (e\<lparr>e_saw_foreign := False\<rparr>)" using ok by (rule calls_ok_cong) simp_all
  then have "calls_ok (snd (foreign_locked (raise_fence (e\<lparr>e_saw_foreign := False\<rparr>))))"
    by (intro calls_ok_foreign calls_ok_raise)
  then have "calls_ok ((snd (foreign_locked (raise_fence (e\<lparr>e_saw_foreign := False\<rparr>))))
      \<lparr>e_drain_owed := b, e_saw_foreign := False\<rparr>)" for b
    by (rule calls_ok_cong) simp_all
  with ok show ?thesis
    by (auto simp: owed_drain_def Let_def split_beta calls_ok_def)
qed

lemma calls_ok_sync: "calls_ok e \<Longrightarrow> calls_ok (sync_fence e)"
proof -
  assume "calls_ok e"
  then have "calls_ok (exit_fence_lift e)"
    by (rule calls_ok_cong) (auto simp: exit_fence_lift_def split: option.split)
  moreover from calls_ok_owed [OF this] have "calls_ok (owed_drain (exit_fence_lift e))" .
  ultimately show ?thesis
    by (auto simp: sync_fence_def Let_def calls_ok_def calls_fold_append split: option.splits)
qed

section \<open>The fence stands where it should\<close>

definition fence_stands :: "engine \<Rightarrow> bool" where
  "fence_stands e \<longleftrightarrow> (e_fence e \<longrightarrow> e_fenced e = fence_want e)"

lemma fence_stands_sync: "fence_stands (sync_fence e)"
  by (auto simp: fence_stands_def sync_fence_def Let_def fence_want_def exit_fence_ended_def)

lemma fence_stands_cong:
  "fence_stands e \<Longrightarrow> e_fence e' = e_fence e \<Longrightarrow> e_fenced e' = e_fenced e \<Longrightarrow> fence_want e' = fence_want e \<Longrightarrow>
     fence_stands e'"
  by (simp add: fence_stands_def)

section \<open>The driver's invariant\<close>

definition waits :: "engine \<Rightarrow> bool" where
  "waits e \<longleftrightarrow> (case e_cur e of None \<Rightarrow> True
     | Some t \<Rightarrow> \<not> t_returned t \<longrightarrow> t_id t \<in> set (e_out e))"

definition held_back :: "engine \<Rightarrow> bool" where
  "held_back e \<longleftrightarrow> (case e_cur e of None \<Rightarrow> True
     | Some t \<Rightarrow> \<not> t_retry t \<and> t_returned t \<longrightarrow> e_cancels e > 0)"

definition parked :: "engine \<Rightarrow> bool" where
  "parked e \<longleftrightarrow> (case e_cur e of None \<Rightarrow> False | Some t \<Rightarrow> t_retry t)"

text \<open>Everything but the current turn's own part.\<close>

definition engine_core :: "engine \<Rightarrow> bool" where
  "engine_core e \<longleftrightarrow> calls_ok e \<and> (e_pass_held e \<longrightarrow> e_close_fences e > 0) \<and>
     e_cancels e \<ge> 0 \<and> e_close_fences e \<ge> 0 \<and> (e_closed e \<longrightarrow> e_cur e = None)"

definition engine_pre :: "engine \<Rightarrow> bool" where
  "engine_pre e \<longleftrightarrow> engine_core e \<and> waits e \<and> held_back e \<and> (parked e \<longrightarrow> e_kick e \<or> e_tick e) \<and>
     (e_recheck e \<longrightarrow> e_rearm e \<or> e_tick e)"

definition engine_inv :: "engine \<Rightarrow> bool" where
  "engine_inv e \<longleftrightarrow> engine_pre e \<and> fence_stands e"

text \<open>What a decision leaves for the invariant, whatever was parked before it.\<close>

definition leaves :: "engine \<Rightarrow> engine \<Rightarrow> bool" where
  "leaves e e' \<longleftrightarrow> engine_core e' \<and> waits e' \<and> held_back e' \<and> (parked e' \<longrightarrow> parked e \<or> e_kick e') \<and>
     (e_kick e \<longrightarrow> e_kick e') \<and> e_tick e' = e_tick e \<and> (e_recheck e' \<longrightarrow> e_recheck e \<or> e_rearm e') \<and>
     (e_rearm e \<longrightarrow> e_rearm e')"

lemma decision_leaves:
  assumes d: "decision e e'" and core: "engine_core e" and up: "e_fence e \<longrightarrow> e_fenced e" and open': "\<not> e_closed e"
  shows "leaves e e'"
proof -
  from d have s: "same_driver e e'" and alt: "nothing_claimed e e' \<or> claimed_turn e e'" by (auto simp: decision_def)
  from s have g: "e_cancels e' = e_cancels e" "e_closed e' = e_closed e" "e_close_fences e' = e_close_fences e"
    and f: "e_fence e' = e_fence e" "e_fenced e' = e_fenced e" "e_kick e' = e_kick e" "e_tick e' = e_tick e"
      "e_recheck e' \<longrightarrow> e_recheck e \<or> e_rearm e'" "e_rearm e \<longrightarrow> e_rearm e'"
      "e_pass_held e' \<longrightarrow> e_pass_held e \<or> e_close_fences e > 0"
    by (simp_all add: same_driver_def gate_fields_def)
  from alt show ?thesis
  proof
    assume n: "nothing_claimed e e'"
    with core g f have "calls_ok e'" by (simp add: nothing_claimed_def engine_core_def calls_ok_def)
    with n core g f open' show ?thesis
      by (auto simp: leaves_def nothing_claimed_def engine_core_def waits_def held_back_def parked_def)
  next
    assume "claimed_turn e e'"
    then obtain t where t: "e_cur e' = Some t" "\<not> t_retry t" "\<not> t_returned t" "e_calls e' = e_calls e @ [Begin (t_text t)]"
      "e_out e' = e_out e @ [t_id t]"
      unfolding claimed_turn_def by blast
    with core g f up have "calls_ok e'" by (simp add: engine_core_def calls_ok_def calls_fold_append)
    with t core g f open' show ?thesis
      by (auto simp: leaves_def engine_core_def waits_def held_back_def parked_def)
  qed
qed

lemma pass_leaves:
  assumes core: "engine_core e" and w: "waits e" and up: "e_fence e \<longrightarrow> e_fenced e"
  shows "leaves e (snd (pass_locked e))"
proof (rule pass_cases [of e])
  assume s: "snd (pass_locked e) = e" and c: "e_closed e \<or> (\<exists>t. e_cur e = Some t \<and>
         (if t_retry t then \<not> e_stopped e else \<not> (t_returned t \<and> e_cancels e = 0)))"
  from c core have "held_back e" by (auto simp: engine_core_def held_back_def split: option.splits)
  with core w show ?thesis unfolding s leaves_def by simp
next
  assume "decision e (snd (pass_locked e))" "\<not> e_closed e"
  with core up show ?thesis by (intro decision_leaves)
next
  fix t t' k rs saw
  assume "e_cur e = Some t" "\<not> e_closed e"
      "snd (pass_locked e) = e\<lparr>e_cur := Some t', e_kick := k, e_reads := rs, e_saw_foreign := saw\<rparr>" "t_id t' = t_id t"
      "t_returned t' = t_returned t" "e_kick e \<longrightarrow> k" "if t_retry t' then t_retry t \<or> k else t_retry t \<and> e_cancels e > 0"
  then show ?thesis using core w
    by (auto simp: leaves_def engine_core_def waits_def held_back_def parked_def calls_ok_def split: if_splits)
next
  fix t rs saw
  assume *: "e_cur e = Some t" "\<not> e_closed e" "snd (pass_locked e) = e\<lparr>e_reads := rs, e_saw_foreign := saw,
         e_cur := Some (t\<lparr>t_retry := False, t_retry_due := False, t_returned := False\<rparr>),
         e_calls := e_calls e @ [Begin (t_text t)], e_out := e_out e @ [t_id t]\<rparr>"
  from core up have "calls_ok (snd (pass_locked e))"
    by (simp add: *(3) engine_core_def calls_ok_def calls_fold_append)
  with * core show ?thesis
    by (auto simp: leaves_def engine_core_def waits_def held_back_def parked_def)
qed

section \<open>Changes that decide nothing\<close>

text \<open>\<open>quiet\<close>: the turn's id and place, the gates but the stop, the driver and the calls are as they were.\<close>

definition cur_place :: "engine \<Rightarrow> (string \<times> bool \<times> bool) option" where
  "cur_place e = map_option (\<lambda>t. (t_id t, t_retry t, t_returned t)) (e_cur e)"

definition quiet :: "engine \<Rightarrow> engine \<Rightarrow> bool" where
  "quiet e e' \<longleftrightarrow> cur_place e' = cur_place e \<and> e_turn_seq e' = e_turn_seq e \<and> e_calls e' = e_calls e \<and>
     e_out e' = e_out e \<and> e_fence e' = e_fence e \<and> e_fenced e' = e_fenced e \<and> e_cancels e' = e_cancels e \<and>
     e_close_fences e' = e_close_fences e \<and> e_closed e' = e_closed e \<and> e_pass_held e' = e_pass_held e \<and>
     e_recheck e' = e_recheck e \<and> e_rearm e' = e_rearm e \<and> e_tick e' = e_tick e \<and> (e_kick e \<longrightarrow> e_kick e') \<and>
     (e_stopped e \<longrightarrow> e_stopped e') \<and> (exit_fence_ended e \<longrightarrow> exit_fence_ended e')"

lemma quiet_refl [simp]: "quiet e e"
  by (simp add: quiet_def)

lemma quiet_trans: "quiet e e1 \<Longrightarrow> quiet e1 e2 \<Longrightarrow> quiet e e2"
  by (auto simp: quiet_def)

lemma cur_id_place: "cur_id e = map_option fst (cur_place e)"
  by (simp add: cur_id_def cur_place_def option.map_comp o_def)

lemma quiet_before: "quiet e e' \<Longrightarrow> before_decision e e'"
  by (simp add: quiet_def before_decision_def cur_id_place)

lemma place_None: "cur_place e = None \<longleftrightarrow> e_cur e = None"
  by (simp add: cur_place_def)

lemma place_Some: "cur_place e = Some (tid, rt, rd) \<longleftrightarrow> (\<exists>t. e_cur e = Some t \<and> t_id t = tid \<and> t_retry t = rt \<and> t_returned t = rd)"
  by (auto simp: cur_place_def)

lemma waits_place: "waits e = (\<forall>tid rt. cur_place e = Some (tid, rt, False) \<longrightarrow> tid \<in> set (e_out e))"
  by (auto simp: waits_def cur_place_def split: option.split)

lemma held_back_place: "held_back e = ((\<exists>tid. cur_place e = Some (tid, False, True)) \<longrightarrow> e_cancels e > 0)"
  by (auto simp: held_back_def cur_place_def split: option.split)

lemma parked_place: "parked e = (\<exists>tid rd. cur_place e = Some (tid, True, rd))"
  by (auto simp: parked_def cur_place_def split: option.split)

lemma engine_core_place:
  "engine_core e = (calls_ok e \<and> (e_pass_held e \<longrightarrow> e_close_fences e > 0) \<and>
     e_cancels e \<ge> 0 \<and> e_close_fences e \<ge> 0 \<and> (e_closed e \<longrightarrow> cur_place e = None))"
  by (simp add: engine_core_def place_None)

lemmas place_simps = waits_place held_back_place parked_place engine_core_place

lemma quiet_core: "quiet e e' \<Longrightarrow> engine_core e \<Longrightarrow> engine_core e'"
  by (simp add: quiet_def engine_core_place calls_ok_def)

lemma quiet_waits: "quiet e e' \<Longrightarrow> waits e \<Longrightarrow> waits e'"
  by (simp add: quiet_def waits_place)

lemma quiet_held_back: "quiet e e' \<Longrightarrow> held_back e \<Longrightarrow> held_back e'"
  by (simp add: quiet_def held_back_place)

lemma quiet_parked: "quiet e e' \<Longrightarrow> parked e' = parked e"
  by (simp add: quiet_def parked_place)

lemma quiet_driver:
  "quiet e e' \<Longrightarrow> e_kick e \<or> e_tick e \<Longrightarrow> e_kick e' \<or> e_tick e'"
  "quiet e e' \<Longrightarrow> e_recheck e' = e_recheck e" "quiet e e' \<Longrightarrow> e_rearm e' = e_rearm e"
  "quiet e e' \<Longrightarrow> e_tick e' = e_tick e"
  by (auto simp: quiet_def)

lemma quiet_pre:
  assumes q: "quiet e e'" and p: "engine_pre e"
  shows "engine_pre e'"
proof -
  note p' = p [unfolded engine_pre_def]
  have "parked e' \<longrightarrow> e_kick e' \<or> e_tick e'" using p' quiet_parked [OF q] quiet_driver(1) [OF q] by simp
  moreover have "e_recheck e' \<longrightarrow> e_rearm e' \<or> e_tick e'" using p' quiet_driver [OF q] by simp
  ultimately show ?thesis
    using p' quiet_core [OF q] quiet_waits [OF q] quiet_held_back [OF q] by (simp add: engine_pre_def)
qed

lemma quiet_inv:
  assumes "quiet e e'" and "fence_want e' = fence_want e" and "engine_inv e"
  shows "engine_inv e'"
  using assms quiet_pre [OF assms(1)] by (simp add: engine_inv_def fence_stands_def) (simp add: quiet_def)

lemma raise_up [simp]: "e_fence e \<Longrightarrow> e_fenced (raise_fence e)"
  by (simp add: raise_fence_def)

lemma raise_place [simp]: "cur_place (raise_fence e) = cur_place e"
  by (simp add: cur_place_def)

lemma raise_core: "engine_core e \<Longrightarrow> engine_core (raise_fence e)"
  by (simp add: engine_core_def calls_ok_raise)

lemma raise_waits [simp]: "waits (raise_fence e) = waits e" "held_back (raise_fence e) = held_back e"
  "parked (raise_fence e) = parked e"
  by (simp_all add: place_simps)

lemma raise_pre: "engine_pre e \<Longrightarrow> engine_pre (raise_fence e)"
  by (simp add: engine_pre_def raise_core)

lemma sync_place [simp]: "cur_place (sync_fence e) = cur_place e"
  by (simp add: cur_place_def)

lemma sync_waits [simp]: "waits (sync_fence e) = waits e" "held_back (sync_fence e) = held_back e"
  "parked (sync_fence e) = parked e"
  by (simp_all add: place_simps)

lemma sync_core: "engine_core e \<Longrightarrow> engine_core (sync_fence e)"
  by (simp add: engine_core_def calls_ok_sync)

lemma sync_inv: "engine_pre e \<Longrightarrow> engine_inv (sync_fence e)"
  by (simp add: engine_inv_def engine_pre_def sync_core fence_stands_sync)

text \<open>The pass of a section, behind the raised fence.\<close>

lemma pass_pre:
  assumes "engine_core e" and "waits e" and "e_fence e \<longrightarrow> e_fenced e" and "parked e \<longrightarrow> e_kick e \<or> e_tick e"
    and "e_recheck e \<longrightarrow> e_rearm e \<or> e_tick e"
  shows "engine_pre (snd (pass_locked e))"
  using pass_leaves [OF assms(1-3)] assms(4,5) by (auto simp: leaves_def engine_pre_def)

section \<open>What holds of one section\<close>

fun engine_op_ok :: "outside \<times> engine_op \<Rightarrow> engine \<Rightarrow> bool" where
  "engine_op_ok (o', OpRelease held cause wire_settled cancel_err own) e = (e_cancels e > 0)"
| "engine_op_ok (o', OpReleaseCloseFence) e = (e_close_fences e > 0)"
| "engine_op_ok (o', OpAdmitted) e = (e_admitting e > 0)"
| "engine_op_ok (o', _) e = True"

definition lawful :: "engine \<Rightarrow> engine \<Rightarrow> bool" where
  "lawful e e' \<longleftrightarrow> obeys e e' \<and> (engine_inv e \<longrightarrow> engine_inv e')"

lemma inv_pre: "engine_inv e \<Longrightarrow> engine_pre e"
  by (simp add: engine_inv_def)

lemma lawful_refl [simp]: "lawful e e"
  by (simp add: lawful_def)

text \<open>A section that decides nothing, with and without the fence's sync.\<close>

lemma lawful_quiet: "quiet e e' \<Longrightarrow> fence_want e' = fence_want e \<Longrightarrow> lawful e e'"
  using quiet_inv by (auto simp: lawful_def intro: obeysI_before quiet_before)

lemma lawful_quiet_sync:
  assumes "quiet e e1"
  shows "lawful e (sync_fence e1)"
  unfolding lawful_def
  by (auto intro: obeys_sync obeysI_before quiet_before [OF assms] sync_inv quiet_pre [OF assms] inv_pre)

lemma lawful_raise_sync:
  assumes "quiet (raise_fence e) e1"
  shows "lawful e (sync_fence e1)"
  unfolding lawful_def
  by (auto intro: obeys_raise obeys_sync obeysI_before quiet_before [OF assms] sync_inv quiet_pre [OF assms]
      raise_pre inv_pre)

text \<open>The pass.\<close>

lemma lawful_pass:
  assumes b: "before_decision e e1" and up: "e_fence e1 \<longrightarrow> e_fenced e1"
    and inv: "engine_inv e \<Longrightarrow> engine_core e1 \<and> waits e1 \<and> (parked e1 \<longrightarrow> e_kick e1 \<or> e_tick e1) \<and>
      (e_recheck e1 \<longrightarrow> e_rearm e1 \<or> e_tick e1)"
  shows "lawful e (sync_fence (snd (pass_locked e1)))"
  unfolding lawful_def using inv
  by (auto intro!: obeys_before [OF b] obeys_sync pass_obeys sync_inv pass_pre simp: up)

section \<open>The sections, one by one\<close>

lemma lawful_after:
  "lawful e e1 \<Longrightarrow> after_decision e1 e2 \<Longrightarrow> quiet e1 e2 \<Longrightarrow> fence_want e2 = fence_want e1 \<Longrightarrow> lawful e e2"
  unfolding lawful_def using obeys_after quiet_inv by metis

text \<open>The fields of the driver that no claim, queue or send-now helper touches.\<close>

definition driver_fields where
  "driver_fields e = (gate_fields e, (e_fence e, e_fenced e, e_pass_held e, e_recheck e, e_rearm e, e_tick e, e_kick e))"

lemma driver_fields_simps [simp]:
  "driver_fields (snd (claim_locked p orig c e)) = driver_fields e" "driver_fields (snd (take_row rid c e)) = driver_fields e"
  "driver_fields (set_row row e) = driver_fields e" "driver_fields (enqueue evs e) = driver_fields e"
  "driver_fields (snd (disarm_locked w c d e)) = driver_fields e" "driver_fields (snd (clear_rows c e)) = driver_fields e"
  "driver_fields (snd (foreign_locked e)) = driver_fields e" "driver_fields (snd (can_submit e)) = driver_fields e"
  unfolding driver_fields_def
  by (simp_all, simp_all add: claim_locked_def begin_call_on_def launch_locked_def take_row_def set_row_def
      disarm_locked_def clear_rows_def split_beta Let_def split: option.split)

lemma driver_fields_updates [simp]:
  "driver_fields (e\<lparr>e_cur := c\<rparr>) = driver_fields e" "driver_fields (e\<lparr>e_queue := q\<rparr>) = driver_fields e"
  "driver_fields (e\<lparr>e_exit_fence := x\<rparr>) = driver_fields e" "driver_fields (e\<lparr>e_armed := a\<rparr>) = driver_fields e"
  "driver_fields (e\<lparr>e_admitting := n\<rparr>) = driver_fields e"
  by (simp_all add: driver_fields_def)

definition turn_fields where
  "turn_fields e = (cur_place e, e_turn_seq e, e_calls e, e_out e)"

lemma turn_fields_simps [simp]:
  "turn_fields (snd (take_row rid c e)) = turn_fields e" "turn_fields (enqueue evs e) = turn_fields e"
  "turn_fields (set_row row e) = turn_fields e" "turn_fields (snd (disarm_locked w c d e)) = turn_fields e"
  "turn_fields (snd (clear_rows c e)) = turn_fields e" "turn_fields (snd (foreign_locked e)) = turn_fields e"
  "turn_fields (snd (can_submit e)) = turn_fields e"
  unfolding turn_fields_def cur_place_def
  by (simp_all, simp_all add: take_row_def set_row_def disarm_locked_def clear_rows_def split_beta Let_def option.map_comp o_def
      split: option.split)

lemma turn_fields_updates [simp]:
  "turn_fields (e\<lparr>e_queue := q\<rparr>) = turn_fields e" "turn_fields (e\<lparr>e_armed := a\<rparr>) = turn_fields e"
  "turn_fields (e\<lparr>e_exit_fence := x\<rparr>) = turn_fields e" "turn_fields (e\<lparr>e_admitting := n\<rparr>) = turn_fields e"
  by (simp_all add: turn_fields_def cur_place_def)

lemma turn_fields_claim [simp]:
  "turn_fields (snd (claim_locked p orig c e)) =
     (Some (turn_id (Suc (e_turn_seq e)), False, False), Suc (e_turn_seq e), e_calls e @ [Begin p],
      e_out e @ [turn_id (Suc (e_turn_seq e))])"
  by (simp add: turn_fields_def cur_place_def) (simp add: claim_locked_def begin_call_on_def launch_locked_def Let_def)

lemma quietI:
  assumes "turn_fields e' = turn_fields e" and "driver_fields e' = driver_fields e"
    and "exit_fence_ended e \<longrightarrow> exit_fence_ended e'"
  shows "quiet e e'"
  using assms by (simp add: turn_fields_def driver_fields_def gate_fields_def quiet_def)

lemma quiet_after:
  assumes "turn_fields e' = turn_fields e" and "driver_fields e' = driver_fields e" and "exit_fence_ended e' = exit_fence_ended e"
  shows "after_decision e e'"
  using assms by (simp add: turn_fields_def driver_fields_def after_decision_def cur_id_place)

text \<open>A claim made behind the raised fence with the gates open.\<close>

lemma lawful_claim:
  assumes may: "may_start e" and up: "e_fence e \<longrightarrow> e_fenced e"
    and t: "turn_fields e' = (Some (tid, False, False), Suc (e_turn_seq e), e_calls e @ [Begin p], e_out e @ [tid])"
    and d: "driver_fields e' = driver_fields e" and x: "exit_fence_ended e' = exit_fence_ended e"
  shows "obeys e e'" and "engine_pre e \<Longrightarrow> engine_pre e'"
proof -
  have g: "gate_fields e' = gate_fields e" using d by (simp add: driver_fields_def)
  show "obeys e e'" using t by (intro obeysI_claim [OF _ may g x]) (simp add: turn_fields_def)
  assume pre: "engine_pre e"
  have f: "e_fence e' = e_fence e" "e_fenced e' = e_fenced e" "e_closed e' = e_closed e" "\<not> e_closed e"
    "e_cancels e' = e_cancels e" "e_close_fences e' = e_close_fences e" "e_pass_held e' = e_pass_held e"
    "e_recheck e' = e_recheck e" "e_rearm e' = e_rearm e" "e_tick e' = e_tick e"
    using d may by (simp_all add: driver_fields_def gate_fields_def may_start_def)
  have p: "cur_place e' = Some (tid, False, False)" "e_calls e' = e_calls e @ [Begin p]" "e_out e' = e_out e @ [tid]"
    using t by (simp_all add: turn_fields_def)
  from pre have "calls_ok e" by (simp add: engine_pre_def engine_core_def)
  then have "calls_ok e'" using p f up by (simp add: calls_ok_def calls_fold_append)
  with pre p f show "engine_pre e'" by (simp add: engine_pre_def place_simps)
qed

lemma reserve_fields:
  "turn_fields (snd (reserve_locked p orig c from e)) =
     (Some (turn_id (Suc (e_turn_seq e)), False, False), Suc (e_turn_seq e), e_calls e @ [Begin p],
      e_out e @ [turn_id (Suc (e_turn_seq e))])"
  "driver_fields (snd (reserve_locked p orig c from e)) = driver_fields e"
  "exit_fence_ended (snd (reserve_locked p orig c from e)) = exit_fence_ended e"
  by (simp_all add: reserve_locked_def split_beta Let_def split: option.split)

lemma can_submit_may_start:
  "fst (can_submit e) \<Longrightarrow> \<not> exit_fence_ended e \<Longrightarrow> may_start e"
  using can_start_may_start [of e]
  by (auto simp: can_submit_def refusal_def may_start_def split: if_splits)

lemma submit_gates_fields [simp]:
  "turn_fields (snd (submit_gates mode from e)) = turn_fields e"
  "driver_fields (snd (submit_gates mode from e)) = driver_fields e"
  "exit_fence_ended (snd (submit_gates mode from e)) = exit_fence_ended e"
  by (auto simp: submit_gates_def admit_locked_def split_beta Let_def split: option.split)

lemma submit_gates_open: "submit_gates mode from e = (None, e1) \<Longrightarrow> \<not> exit_fence_ended e"
  by (auto simp: submit_gates_def admit_locked_def exit_fence_refusal_def exit_fence_ended_def split: option.splits if_splits)

text \<open>What a section may do before it decides, or instead of deciding.\<close>

definition prepares :: "engine \<Rightarrow> engine \<Rightarrow> bool" where
  "prepares e e' \<longleftrightarrow> before_decision e e' \<and> (engine_pre e \<longrightarrow> engine_pre e')"

lemma prepares_trans: "prepares e e1 \<Longrightarrow> prepares e1 e2 \<Longrightarrow> prepares e e2"
  by (simp add: prepares_def before_decision_def)

lemma prepares_quiet: "quiet e e' \<Longrightarrow> prepares e e'"
  using quiet_before quiet_pre by (auto simp: prepares_def)

lemma prepares_refl [simp]: "prepares e e"
  by (simp add: prepares_quiet)

lemma prepares_raise [simp]: "prepares e (raise_fence e)"
  by (simp add: prepares_def raise_pre) (simp add: before_decision_def)

lemma lawful_prepares: "prepares e e' \<Longrightarrow> lawful e (sync_fence e')"
  unfolding lawful_def prepares_def using obeys_sync [OF obeysI_before] sync_inv inv_pre by metis

lemma place_take_hold [simp]: "cur_place (take_hold e) = cur_place e"
  by (simp add: take_hold_def cur_place_def option.map_comp o_def)

lemma prepares_take_hold: "prepares e (take_hold e)"
proof -
  have x: "exit_fence_ended (take_hold e) = exit_fence_ended e" by (simp add: take_hold_def exit_fence_ended_def)
  have "before_decision e (take_hold e)"
    using place_take_hold [of e] x by (simp add: before_decision_def cur_id_place) (simp add: take_hold_def)
  moreover have "engine_pre (take_hold e)" if "engine_pre e"
    using that place_take_hold [of e]
    by (simp add: engine_pre_def place_simps calls_ok_def) (simp add: take_hold_def)
  ultimately show ?thesis by (simp add: prepares_def)
qed

lemma quiet_stop: "quiet e (stop_locked cause e)"
proof -
  have "quiet e (e\<lparr>e_stopped := True\<rparr>)" by (simp add: quiet_def cur_place_def)
  moreover have "quiet (e\<lparr>e_stopped := True\<rparr>) (stop_locked cause e)"
    by (rule quietI) (simp_all add: stop_locked_def split_beta Let_def)
  ultimately show ?thesis by (rule quiet_trans)
qed

lemma prepares_hold: "prepares e (snd (hold_cancel_locked turn stop asks cause e))"
proof -
  have "quiet (raise_fence e) (snd (foreign_locked (raise_fence e)))" by (rule quietI) simp_all
  from prepares_trans [OF prepares_raise prepares_quiet [OF this]]
  have reads: "prepares e e1" if "e1 \<in> {raise_fence e, snd (foreign_locked (raise_fence e))}" for e1
    using that by auto
  show ?thesis
  proof (rule hold_cancel_cases [of turn stop asks cause e])
    fix err e1
    assume "hold_cancel_locked turn stop asks cause e = (Inl err, e1)"
      "e1 \<in> {raise_fence e, snd (foreign_locked (raise_fence e))}"
    with reads show ?thesis by simp
  next
    fix tid e1
    assume h: "hold_cancel_locked turn stop asks cause e =
        (Inr tid, take_hold (if stop \<and> \<not> e_stopped e1 then stop_locked cause e1 else e1))"
      "e1 \<in> {raise_fence e, snd (foreign_locked (raise_fence e))}"
    have "prepares e1 (if stop \<and> \<not> e_stopped e1 then stop_locked cause e1 else e1)"
      by (simp add: prepares_quiet quiet_stop)
    from prepares_trans [OF prepares_trans [OF reads [OF h(2)] this] prepares_take_hold] h(1)
    show ?thesis by simp
  qed
qed

lemma prepares_arm: "prepares e (snd (arm_locked cause prompt from e))"
proof (cases "e_cur e")
  case None
  then show ?thesis by (simp add: arm_locked_def)
next
  case (Some t)
  obtain r e1 where h: "hold_cancel_locked (t_id t) False 0 cause e = (r, e1)"
    by (cases "hold_cancel_locked (t_id t) False 0 cause e")
  from prepares_hold [of e "t_id t" False 0 cause] h have t1: "prepares e e1" by simp
  have "quiet e1 (enqueue evs (e1\<lparr>e_armed := a\<rparr>))" for evs a by (rule quietI) simp_all
  then have "prepares e (enqueue evs (e1\<lparr>e_armed := a\<rparr>))" for evs a
    using prepares_trans [OF t1 prepares_quiet] by blast
  with t1 Some h show ?thesis by (auto simp: arm_locked_def split: sum.split)
qed

lemma submit_start_lawful:
  assumes may: "may_start e" and up: "e_fence e \<longrightarrow> e_fenced e"
  shows "obeys e (snd (snd (submit_start cause prompt mode from fence e)))"
    and "engine_pre e \<Longrightarrow> engine_pre (snd (snd (submit_start cause prompt mode from fence e)))"
proof -
  define e' where "e' = snd (snd (submit_start cause prompt mode from fence e))"
  have "e' = e \<or> (\<exists>p orig row. e' = snd (reserve_locked p orig cause row e) \<or>
      (\<exists>f. e' = (snd (reserve_locked p orig cause row e))\<lparr>e_exit_fence := Some f\<rparr> \<and> \<not> xf_ended f))"
  proof (cases "submit_source prompt from e")
    case (Inl err)
    then show ?thesis by (simp add: e'_def submit_start_def)
  next
    case (Inr sr)
    then show ?thesis
      by (cases sr) (auto simp: e'_def submit_start_def split_beta Let_def intro!: exI)
  qed
  then have alt: "e' = e \<or> (\<exists>p. turn_fields e' = (Some (turn_id (Suc (e_turn_seq e)), False, False),
        Suc (e_turn_seq e), e_calls e @ [Begin p], e_out e @ [turn_id (Suc (e_turn_seq e))]) \<and>
      driver_fields e' = driver_fields e \<and> exit_fence_ended e' = exit_fence_ended e)"
  proof (elim disjE exE conjE)
    fix p orig row assume "e' = snd (reserve_locked p orig cause row e)"
    then show ?thesis using reserve_fields by simp
  next
    fix p orig row f
    assume *: "e' = (snd (reserve_locked p orig cause row e))\<lparr>e_exit_fence := Some f\<rparr>" "\<not> xf_ended f"
    then have "exit_fence_ended e' = exit_fence_ended e" using may by (simp add: exit_fence_ended_def may_start_def)
    with * show ?thesis using reserve_fields by simp
  qed simp
  then show "obeys e (snd (snd (submit_start cause prompt mode from fence e)))"
    unfolding e'_def [symmetric] using lawful_claim(1) [OF may up] by auto
  from alt show "engine_pre (snd (snd (submit_start cause prompt mode from fence e)))" if "engine_pre e"
    unfolding e'_def [symmetric] using lawful_claim(2) [OF may up _ _ _ that] that by auto
qed

lemma prepares_submit_queue:
  assumes "\<not> exit_fence_ended e"
  shows "prepares e (snd (submit_queue cause prompt from fence e))"
  by (rule prepares_quiet, rule quietI)
    (use assms in \<open>auto simp: submit_queue_def Let_def exit_fence_ended_def split: option.split sum.split\<close>)

lemma submit_lawful: "lawful e (snd (snd (snd (submit cause prompt mode from fence e))))"
proof -
  obtain gate e1 where g: "submit_gates mode from (raise_fence e) = (gate, e1)"
    by (cases "submit_gates mode from (raise_fence e)")
  have "quiet (raise_fence e) (snd (submit_gates mode from (raise_fence e)))" by (rule quietI) simp_all
  from prepares_trans [OF prepares_raise prepares_quiet [OF this]] g have p1: "prepares e e1" by simp
  obtain start e2 where s: "can_submit e1 = (start, e2)" by (cases "can_submit e1")
  have "quiet e1 (snd (can_submit e1))" by (rule quietI) simp_all
  from prepares_trans [OF p1 prepares_quiet [OF this]] s have p2: "prepares e e2" by simp
  show ?thesis
  proof (cases gate)
    case (Some err)
    with g lawful_prepares [OF p1] show ?thesis by (simp add: submit_def)
  next
    case None
    have x1: "\<not> exit_fence_ended e1"
      using submit_gates_open [of mode "from" "raise_fence e" e1] submit_gates_fields(3) [of mode "from" "raise_fence e"] g None by simp
    have x2: "\<not> exit_fence_ended e2" using x1 exit_ended_simps(4) [of e1] s by simp
    have eq: "snd (snd (snd (submit cause prompt mode from fence e))) =
        sync_fence (if start then snd (snd (submit_start cause prompt mode from fence e2))
          else if mode = SubmitSendNow then snd (arm_locked cause prompt from e2)
          else snd (submit_queue cause prompt from fence e2))"
      using g s None by (simp add: submit_def split_beta split: sum.split)
    show ?thesis
    proof (cases start)
      case True
      have "may_start e1" using can_submit_may_start [of e1] x1 s True by simp
      moreover have "gate_fields e2 = gate_fields e1" using gate_fields_simps(4) [of e1] s by simp
      ultimately have may: "may_start e2" using may_start_cong [of e2 e1] x1 x2 by simp
      have "driver_fields e2 = driver_fields (raise_fence e)"
        using submit_gates_fields(2) [of mode "from" "raise_fence e"] driver_fields_simps(8) [of e1] g s by simp
      then have up: "e_fence e2 \<longrightarrow> e_fenced e2" using raise_up [of e] by (simp add: driver_fields_def)
      note st = submit_start_lawful [OF may up, of cause prompt mode "from" fence]
      from p2 have b: "before_decision e e2" and i: "engine_pre e \<longrightarrow> engine_pre e2" by (auto simp: prepares_def)
      show ?thesis unfolding eq lawful_def using True obeys_sync [OF obeys_before [OF b st(1)]] st(2) i sync_inv inv_pre
        by auto
    next
      case False
      have "prepares e (if mode = SubmitSendNow then snd (arm_locked cause prompt from e2)
          else snd (submit_queue cause prompt from fence e2))"
        using prepares_trans [OF p2 prepares_arm] prepares_trans [OF p2 prepares_submit_queue [OF x2]] by simp
      from lawful_prepares [OF this] False show ?thesis unfolding eq by simp
    qed
  qed
qed

lemma fence_want_quiet:
  "quiet e e' \<Longrightarrow> e_stopped e' = e_stopped e \<Longrightarrow> exit_fence_ended e' = exit_fence_ended e \<Longrightarrow> e_drain_owed e' = e_drain_owed e \<Longrightarrow>
     fence_want e' = fence_want e"
  by (auto simp: quiet_def fence_want_def place_None [symmetric])

lemma lawful_light:
  "quiet e e' \<Longrightarrow> e_stopped e' = e_stopped e \<Longrightarrow> exit_fence_ended e' = exit_fence_ended e \<Longrightarrow> e_drain_owed e' = e_drain_owed e \<Longrightarrow>
     lawful e e'"
  by (intro lawful_quiet fence_want_quiet)

lemma started_lawful: "lawful e (started err e)"
proof -
  define e1 where "e1 = (if e_closed e \<or> e_activity e \<noteq> ActivityStarting then e
        else
          let e1 = e\<lparr>e_activity_at := e_now e\<rparr> in
          case err of
            Some x \<Rightarrow>
              retire_replay (e1\<lparr>e_activity := ActivityError, e_start_failed := True, e_err := te_text x\<rparr>)
          | None \<Rightarrow> e1\<lparr>e_activity := ActivityIdle\<rparr>)"
  have q: "quiet e e1"
    by (simp add: e1_def Let_def retire_replay_def quiet_def cur_place_def exit_fence_ended_def split: option.split)
  have "lawful e (sync_fence e1)" by (rule lawful_quiet_sync [OF q])
  then show ?thesis
    unfolding started_def e1_def [symmetric]
    by (rule lawful_after)
      (simp_all add: after_decision_def quiet_def cur_place_def cur_id_def gate_fields_def exit_fence_ended_def fence_want_def)
qed

lemma verbs_lawful:
  "lawful e (snd (queue_verb cause prompt e))" "lawful e (snd (edit_queued cause rid prompt expected e))"
  "lawful e (snd (unqueue cause rid e))" "lawful e (snd (clear_queue cause e))" "lawful e (snd (disarm cause e))"
proof -
  note s = lawful_quiet_sync and q = quietI
  have r: "lawful e (sync_fence e)" by (rule s) simp
  have add: "lawful e (sync_fence (enqueue evs (e\<lparr>e_queue := qu\<rparr>)))" for evs qu
    by (rule s, rule q) simp_all
  have clear: "lawful e (sync_fence (enqueue evs (snd (clear_rows c e))))" for evs c
    by (rule s, rule q) simp_all
  have dis: "lawful e (enqueue evs (snd (disarm_locked w c d e)))" for evs w c d
    by (rule lawful_light, rule q, simp_all) (simp_all add: disarm_locked_def split: option.split)
  show "lawful e (snd (queue_verb cause prompt e))"
    using r add by (simp add: queue_verb_def split: option.split sum.split prod.split)
  show "lawful e (snd (edit_queued cause rid prompt expected e))"
    using r add by (simp add: edit_queued_def split: option.split sum.split prod.split)
  show "lawful e (snd (unqueue cause rid e))"
    using r add by (simp add: unqueue_def split: option.split prod.split)
  show "lawful e (snd (clear_queue cause e))"
    using r clear by (simp add: clear_queue_def split_beta Let_def split: option.split)
  show "lawful e (snd (disarm cause e))"
    using dis by (simp add: disarm_def split_beta Let_def split: option.split)
qed

lemma hold_lawful: "lawful e (snd (hold_cancel turn stop asks cause e))"
  using lawful_prepares [OF prepares_trans [OF prepares_raise prepares_hold]]
  by (simp add: hold_cancel_def split_beta Let_def)

lemma obeys_pass: "before_decision e e1 \<Longrightarrow> obeys e (sync_fence (snd (pass_locked e1)))"
  by (intro obeys_sync obeys_before [OF _ pass_obeys])

lemma raise_gate_fields:
  "e_cancels (raise_fence e) = e_cancels e" "e_close_fences (raise_fence e) = e_close_fences e"
  by simp_all

lemma release_failure_fields [simp]:
  "turn_fields (snd (release_failure held cause x own e)) = turn_fields e"
  "driver_fields (snd (release_failure held cause x own e)) = driver_fields e"
  "exit_fence_ended (snd (release_failure held cause x own e)) = exit_fence_ended e"
  by (auto simp: release_failure_def split_beta Let_def split: option.split)

lemma release_lawful:
  fixes e held cause ws x own
  defines "e' \<equiv> snd (snd (release_hold held cause ws x own e))"
  shows "obeys e e'" and "e_cancels e > 0 \<Longrightarrow> engine_inv e \<Longrightarrow> engine_inv e'"
proof -
  define e1 where "e1 = (raise_fence e)\<lparr>e_cancels := e_cancels e - 1\<rparr>"
  define e2 where "e2 = snd (release_failure held cause x own e1)"
  have e': "e' = sync_fence (snd (pass_locked e2))"
    by (simp add: e'_def release_hold_def split_beta Let_def e2_def e1_def)
  have q: "quiet e1 e2" unfolding e2_def by (rule quietI) simp_all
  have x1: "exit_fence_ended e1 = exit_fence_ended e" by (simp add: e1_def)
  have p1: "cur_place e1 = cur_place e" by (simp add: e1_def cur_place_def)
  have "before_decision e e1"
    by (simp add: before_decision_def cur_id_place p1 x1) (simp add: e1_def)
  with quiet_before [OF q] have "before_decision e e2" by (simp add: before_decision_def)
  then show "obeys e e'" unfolding e' by (rule obeys_pass)
  assume c: "e_cancels e > 0" and inv: "engine_inv e"
  from raise_pre [OF inv_pre [OF inv]] have pre: "engine_pre (raise_fence e)" .
  have co: "calls_ok e1" using pre unfolding engine_pre_def engine_core_def
    by (auto simp: e1_def elim!: calls_ok_cong)
  have "engine_core e1"
    using pre c co by (simp add: engine_pre_def engine_core_place p1) (simp add: e1_def)
  moreover have "waits e1" "parked e1 \<longrightarrow> e_kick e1 \<or> e_tick e1" "e_recheck e1 \<longrightarrow> e_rearm e1 \<or> e_tick e1"
    using pre by (simp_all add: engine_pre_def waits_place parked_place p1) (simp_all add: e1_def)
  moreover have "e_fence e1 \<longrightarrow> e_fenced e1" using raise_up [of e] by (simp add: e1_def)
  ultimately have "engine_pre (snd (pass_locked e2))"
    using quiet_core [OF q] quiet_waits [OF q] quiet_parked [OF q] quiet_driver [OF q] q
    by (intro pass_pre) (auto simp: quiet_def)
  then show "engine_inv e'" unfolding e' by (rule sync_inv)
qed

lemma returned_lawful: "lawful e (snd (turn_returned tid res err e))"
proof -
  define e1 where "e1 = raise_fence (e\<lparr>e_out := remove1 tid (e_out e)\<rparr>)"
  define e2 where "e2 = (case e_cur e1 of
                  None \<Rightarrow> e1
                | Some t \<Rightarrow>
                    if t_id t = tid
                    then e1\<lparr>e_cur := Some (t\<lparr>t_res := res, t_err := err, t_returned := True\<rparr>)\<rparr> else e1)"
  have eq: "snd (turn_returned tid res err e) = sync_fence (snd (pass_locked e2))"
    unfolding turn_returned_def Let_def e1_def [symmetric] e2_def [symmetric] by (simp only: split_beta snd_conv)
  have x: "exit_fence_ended e2 = exit_fence_ended e" and s: "e_turn_seq e2 = e_turn_seq e" "cur_id e2 = cur_id e"
    "e_stopped e2 = e_stopped e" "e_closed e2 = e_closed e"
    by (auto simp: e2_def e1_def cur_id_def exit_fence_ended_def split: option.split)
  have f: "e_calls e2 = e_calls e1" "e_fence e2 = e_fence e1" "e_fenced e2 = e_fenced e1" "e_cancels e2 = e_cancels e"
    "e_close_fences e2 = e_close_fences e" "e_pass_held e2 = e_pass_held e" "e_kick e2 = e_kick e" "e_tick e2 = e_tick e"
    "e_recheck e2 = e_recheck e" "e_rearm e2 = e_rearm e" "e_out e2 = remove1 tid (e_out e)"
    by (auto simp: e2_def e1_def split: option.split)
  show ?thesis unfolding eq
  proof (rule lawful_pass)
    show "before_decision e e2" using x s by (simp add: before_decision_def)
    show "e_fence e2 \<longrightarrow> e_fenced e2" using raise_up [of "e\<lparr>e_out := remove1 tid (e_out e)\<rparr>"] f by (simp add: e1_def)
    assume "engine_inv e"
    then have pre: "engine_pre e" by (rule inv_pre)
    then have "calls_ok (e\<lparr>e_out := remove1 tid (e_out e)\<rparr>)"
      by (auto simp: engine_pre_def engine_core_def elim!: calls_ok_cong)
    then have "calls_ok e1" unfolding e1_def by (rule calls_ok_raise)
    then have "calls_ok e2" using f by (simp add: calls_ok_def)
    moreover have "e_closed e2 \<longrightarrow> e_cur e2 = None"
      using pre s by (auto simp: engine_pre_def engine_core_def cur_id_def)
    ultimately have "engine_core e2" using pre f by (simp add: engine_pre_def engine_core_def)
    moreover have "waits e2"
      using pre f by (auto simp: engine_pre_def waits_def e2_def e1_def in_set_remove1 split: option.splits)
    moreover have "parked e2 = parked e"
      by (auto simp: parked_def e2_def e1_def split: option.split)
    ultimately show "engine_core e2 \<and> waits e2 \<and> (parked e2 \<longrightarrow> e_kick e2 \<or> e_tick e2) \<and>
      (e_recheck e2 \<longrightarrow> e_rearm e2 \<or> e_tick e2)"
      using pre f by (simp add: engine_pre_def)
  qed
qed

lemma drive_pass_lawful:
  assumes b: "before_decision e e0" and pre: "engine_inv e \<Longrightarrow> engine_core e0 \<and> waits e0 \<and> (e_recheck e0 \<longrightarrow> e_rearm e0 \<or> ticked \<or> e_tick e0)"
  shows "lawful e (snd (drive_pass ticked e0))"
proof -
  define e1 where "e1 = raise_fence e0"
  define e2 where "e2 = drive_due ticked e1"
  define e3 where "e3 = snd (pass_locked e2)"
  have eq: "snd (drive_pass ticked e0) = (sync_fence e3)\<lparr>e_tick := drive_again e3\<rparr>"
    by (simp add: drive_pass_def split_beta Let_def e1_def e2_def e3_def)
  have place: "cur_place e2 = cur_place e0"
    by (cases "e_cur e0") (auto simp: e2_def e1_def drive_due_def cur_place_def)
  have f: "e_turn_seq e2 = e_turn_seq e0" "e_calls e2 = e_calls e1" "e_fence e2 = e_fence e0" "e_fenced e2 = e_fenced e1"
    "e_cancels e2 = e_cancels e0" "e_close_fences e2 = e_close_fences e0" "e_pass_held e2 = e_pass_held e0"
    "e_rearm e2 = e_rearm e0" "e_out e2 = e_out e0" "e_stopped e2 = e_stopped e0" "e_closed e2 = e_closed e0"
    "e_recheck e2 = (e_recheck e0 \<and> \<not> ticked)" "exit_fence_ended e2 = exit_fence_ended e0"
    by (simp_all add: e2_def e1_def drive_due_def)
  have "before_decision e e2"
    using b f by (simp add: before_decision_def cur_id_place place)
  then have ob: "obeys e (sync_fence e3)" unfolding e3_def by (rule obeys_pass)
  have after: "after_decision (sync_fence e3) ((sync_fence e3)\<lparr>e_tick := drive_again e3\<rparr>)"
    by (simp add: after_decision_def cur_id_def gate_fields_def exit_fence_ended_def)
  have inv': "engine_inv ((sync_fence e3)\<lparr>e_tick := drive_again e3\<rparr>)" if inv: "engine_inv e"
  proof -
    note p = pre [OF inv]
    have "calls_ok e1" unfolding e1_def using p by (intro calls_ok_raise) (simp add: engine_core_def)
    then have "calls_ok e2" using f by (simp add: calls_ok_def e1_def)
    then have "engine_core e2" using p f by (simp add: engine_core_place place)
    moreover have "waits e2" using p f by (simp add: waits_place place)
    moreover have "e_fence e2 \<longrightarrow> e_fenced e2" using raise_up [of e0] f by (simp add: e1_def)
    ultimately have l: "leaves e2 e3" unfolding e3_def by (rule pass_leaves)
    define e4 where "e4 = sync_fence e3"
    have c: "engine_core e4" "waits e4" "held_back e4" "fence_stands e4"
      using l by (simp_all add: e4_def leaves_def sync_core fence_stands_sync)
    have d: "parked e4 = parked e3" "e_recheck e4 = e_recheck e3" by (simp_all add: e4_def)
    have "cur_place (e4\<lparr>e_tick := b\<rparr>) = cur_place e4" for b by (simp add: cur_place_def)
    then have "engine_core (e4\<lparr>e_tick := b\<rparr>)" "waits (e4\<lparr>e_tick := b\<rparr>)" "held_back (e4\<lparr>e_tick := b\<rparr>)"
      "parked (e4\<lparr>e_tick := b\<rparr>) = parked e4" "fence_stands (e4\<lparr>e_tick := b\<rparr>)" for b
      using c by (simp_all add: place_simps calls_ok_def fence_stands_def fence_want_def exit_fence_ended_def)
    moreover have "parked e3 \<longrightarrow> drive_again e3" "e_recheck e3 \<longrightarrow> drive_again e3"
      by (simp_all add: drive_again_def parked_def)
    ultimately show ?thesis unfolding e4_def [symmetric] using d by (simp add: engine_inv_def engine_pre_def)
  qed
  show ?thesis unfolding eq lawful_def using obeys_after [OF ob after] inv' by simp
qed

lemma drive_lawful: "lawful e (snd (drive w e))"
proof (cases w)
  case WakeKick
  have "lawful e (snd (drive_pass False (e\<lparr>e_kick := False\<rparr>)))"
  proof (rule drive_pass_lawful)
    show "before_decision e (e\<lparr>e_kick := False\<rparr>)" by (simp add: before_decision_def) (simp add: cur_id_def)
    show "engine_core (e\<lparr>e_kick := False\<rparr>) \<and> waits (e\<lparr>e_kick := False\<rparr>) \<and>
        (e_recheck (e\<lparr>e_kick := False\<rparr>) \<longrightarrow> e_rearm (e\<lparr>e_kick := False\<rparr>) \<or> False \<or> e_tick (e\<lparr>e_kick := False\<rparr>))"
      if "engine_inv e"
      using inv_pre [OF that] by (simp add: engine_pre_def engine_core_def calls_ok_def waits_def split: option.splits)
  qed
  then show ?thesis by (simp add: WakeKick drive_def)
next
  case WakeTick
  have "lawful e (snd (drive_pass True e))"
    by (rule drive_pass_lawful) (auto simp: before_decision_def engine_pre_def dest: inv_pre)
  then show ?thesis by (simp add: WakeTick drive_def)
next
  case WakeRearm
  define e' where "e' = e\<lparr>e_rearm := False, e_tick := True\<rparr>"
  have p: "cur_place e' = cur_place e" by (simp add: e'_def cur_place_def)
  have "obeys e e'"
    by (rule obeysI_before) (simp add: before_decision_def cur_id_place p, simp add: e'_def exit_fence_ended_def)
  moreover have "engine_inv e'" if "engine_inv e"
  proof -
    have "fence_stands e'" using that by (auto simp: engine_inv_def e'_def fence_stands_def fence_want_def exit_fence_ended_def)
    moreover have "engine_core e'" "waits e'" "held_back e'"
      using that by (simp_all add: engine_inv_def engine_pre_def place_simps p calls_ok_def) (simp_all add: e'_def)
    ultimately show ?thesis by (simp add: engine_inv_def engine_pre_def) (simp add: e'_def)
  qed
  ultimately show ?thesis by (simp add: WakeRearm drive_def lawful_def e'_def)
qed

lemma give_up_lawful: "lawful e (snd (snd (give_up turn e)))"
proof -
  define e1 where "e1 = raise_fence e"
  have r: "lawful e (sync_fence e1)" unfolding e1_def by (rule lawful_prepares) simp
  have settled: "lawful e (if e_cancels e2 > 0 then sync_fence e2 else sync_fence (snd (settle_locked t' e2)))"
    if t: "e_cur e1 = Some t" "t_retry t" "\<not> e_closed e1"
      and t': "t' = t\<lparr>t_given_up := True, t_retry := False, t_retry_due := False\<rparr>" and e2: "e2 = e1\<lparr>e_cur := Some t'\<rparr>" for t t' e2
  proof -
    have x: "exit_fence_ended e2 = exit_fence_ended e1" by (simp add: e2)
    have b: "before_decision e e2" using t x
      by (simp add: before_decision_def cur_id_def e2 t') (simp add: e1_def)
    have kept: "engine_core e2 \<and> waits e2 \<and> (e_recheck e2 \<longrightarrow> e_rearm e2 \<or> e_tick e2) \<and> \<not> parked e2"
      if "engine_inv e"
    proof -
      from raise_pre [OF inv_pre [OF that]] have pre: "engine_pre e1" by (simp add: e1_def)
      then show ?thesis using t
        by (auto simp: engine_pre_def engine_core_def calls_ok_def waits_def parked_def e2 t')
    qed
    show ?thesis
    proof (cases "e_cancels e2 > 0")
      case True
      have "engine_inv (sync_fence e2)" if "engine_inv e"
        using kept [OF that] True by (intro sync_inv) (auto simp: engine_pre_def held_back_def split: option.split)
      with True obeys_sync [OF obeysI_before [OF b]] show ?thesis by (simp add: lawful_def)
    next
      case False
      have up: "e_fence e2 \<longrightarrow> e_fenced e2" using raise_up [of e] by (simp add: e2 e1_def)
      have d: "decision e2 (snd (settle_locked t' e2))"
        by (intro decided_decision settle_decided) (simp add: t')
      have "\<not> e_closed e2" using t(3) by (simp add: e2)
      from decision_obeys [OF d _ this] False have "obeys e2 (snd (settle_locked t' e2))" by simp
      moreover have "engine_inv (sync_fence (snd (settle_locked t' e2)))" if "engine_inv e"
        using decision_leaves [OF d _ up \<open>\<not> e_closed e2\<close>] kept [OF that]
        by (intro sync_inv) (auto simp: leaves_def engine_pre_def)
      ultimately show ?thesis using False obeys_sync [OF obeys_before [OF b]] by (simp add: lawful_def)
    qed
  qed
  show ?thesis
  proof (cases "\<exists>t. e_cur e1 = Some t \<and> t_id t = turn \<and> turn \<noteq> [] \<and> t_retry t \<and> \<not> e_closed e1")
    case False
    then have "snd (snd (give_up turn e)) = sync_fence e1"
      by (auto simp: give_up_def e1_def Let_def split: option.split)
    with r show ?thesis by simp
  next
    case True
    then obtain t where t: "e_cur e1 = Some t" "t_id t = turn" "turn \<noteq> []" "t_retry t" "\<not> e_closed e1" by blast
    define t' where "t' = t\<lparr>t_given_up := True, t_retry := False, t_retry_due := False\<rparr>"
    define e2 where "e2 = e1\<lparr>e_cur := Some t'\<rparr>"
    have "snd (snd (give_up turn e)) =
        (if e_cancels e2 > 0 then sync_fence e2 else sync_fence (snd (settle_locked t' e2)))"
      using t unfolding give_up_def Let_def e1_def [symmetric]
      by (simp add: t'_def [symmetric] e2_def [symmetric] split_beta)
    with settled [OF t(1,4,5) t'_def e2_def] show ?thesis by simp
  qed
qed

lemma give_up_drain_lawful: "lawful e (snd (snd (give_up_drain e)))"
proof -
  define e1 where "e1 = raise_fence e"
  have r: "lawful e (sync_fence e1)" unfolding e1_def by (rule lawful_prepares) simp
  have up: "e_fence e1 \<longrightarrow> e_fenced e1" using raise_up [of e] by (simp add: e1_def)
  have b: "before_decision e e1" using prepares_raise [of e] by (simp add: prepares_def e1_def)
  show ?thesis
  proof (cases "e_closed e1 \<or> e_close_fences e1 > 0 \<and> e_cur e1 = None \<or> e_cur e1 \<noteq> None")
    case True
    then have "snd (snd (give_up_drain e)) = sync_fence e1"
      unfolding give_up_drain_def Let_def e1_def [symmetric] by (auto simp: split_beta split: option.split)
    with r show ?thesis by simp
  next
    case False
    define e2 where "e2 = snd (pass_locked e1)"
    have open': "\<not> e_closed e1" "e_cur e1 = None" "\<not> e_close_fences e1 > 0" using False by auto
    then have d: "decision e1 e2" using drain_decision [of e1] by (simp add: e2_def pass_locked_def)
    have ob: "obeys e1 e2" unfolding e2_def by (rule pass_obeys)
    have pre: "engine_pre e2" if "engine_inv e"
    proof -
      from raise_pre [OF inv_pre [OF that]] have "engine_pre e1" by (simp add: e1_def)
      then show ?thesis unfolding e2_def using up by (intro pass_pre) (auto simp: engine_pre_def)
    qed
    show ?thesis
    proof (cases "e_cur e2")
      case (Some t)
      have "snd (snd (give_up_drain e)) = sync_fence e2"
        using open' Some unfolding give_up_drain_def Let_def e1_def [symmetric]
        by (simp add: split_beta e2_def [symmetric])
      then show ?thesis using obeys_sync [OF obeys_before [OF b ob]] pre sync_inv by (simp add: lawful_def)
    next
      case None
      define e3 where "e3 = enqueue (fst (disarm_locked ''stopped'' [] [] (e2\<lparr>e_stopped := True\<rparr>)))
        (snd (disarm_locked ''stopped'' [] [] (e2\<lparr>e_stopped := True\<rparr>)))"
      have eq: "snd (snd (give_up_drain e)) = sync_fence e3"
        using open' None unfolding give_up_drain_def Let_def e1_def [symmetric]
        by (simp add: split_beta e2_def [symmetric] e3_def)
      have "quiet e2 (e2\<lparr>e_stopped := True\<rparr>)" by (simp add: quiet_def cur_place_def)
      moreover have "quiet (e2\<lparr>e_stopped := True\<rparr>) e3" unfolding e3_def by (rule quietI) simp_all
      ultimately have q: "quiet e2 e3" by (rule quiet_trans)
      from d None have "nothing_claimed e1 e2" by (auto simp: decision_def claimed_turn_def)
      then have "e_turn_seq e2 = e_turn_seq e1" "cur_id e2 = cur_id e1"
        using open' by (simp_all add: nothing_claimed_def cur_id_def)
      with ob have "before_decision e1 e2" by (simp add: before_decision_def obeys_def)
      with b quiet_before [OF q] have "before_decision e e3" by (simp add: before_decision_def)
      then show ?thesis unfolding eq lawful_def
        using obeys_sync [OF obeysI_before] quiet_pre [OF q] pre sync_inv by blast
    qed
  qed
qed

text \<open>The close fence's own sections change only the count, and the pass held back under it.\<close>

lemma close_fence_lawful: "lawful e (snd (close_fence_up e))"
proof -
  define e1 where "e1 = raise_fence e"
  define e2 where "e2 = e1\<lparr>e_close_fences := e_close_fences e1 + 1\<rparr>"
  define e3 where "e3 = (if bf_waits (busy_facts_locked e2) then e2 else snd (foreign_locked e2))"
  have eq: "snd (close_fence_up e) = sync_fence e3"
    unfolding close_fence_up_def Let_def e1_def [symmetric] e2_def [symmetric] by (simp add: split_beta e3_def)
  have p: "cur_place e2 = cur_place e1" by (simp add: e2_def cur_place_def)
  have "prepares e1 e2"
    unfolding prepares_def
  proof
    show "before_decision e1 e2"
      by (simp add: before_decision_def cur_id_place p) (simp add: e2_def)
    show "engine_pre e1 \<longrightarrow> engine_pre e2"
      by (simp add: engine_pre_def place_simps p calls_ok_def) (simp add: e2_def)
  qed
  moreover have "prepares e e1" by (simp add: e1_def)
  moreover have "prepares e2 e3"
    by (rule prepares_quiet, rule quietI) (simp_all add: e3_def)
  ultimately have "prepares e e3" using prepares_trans by blast
  then show ?thesis unfolding eq by (rule lawful_prepares)
qed

lemma release_close_fence_obeys: "obeys e (release_close_fence e)"
  unfolding release_close_fence_def Let_def
  by (rule obeys_sync, rule obeysI_before) (simp add: before_decision_def wake_def cur_id_def exit_fence_ended_def)

lemma release_close_fence_inv:
  assumes c: "e_close_fences e > 0" and inv: "engine_inv e"
  shows "engine_inv (release_close_fence e)"
proof -
  from inv_pre [OF inv] have pre: "engine_pre e" .
  have "engine_pre (let e1 = e\<lparr>e_close_fences := e_close_fences e - 1\<rparr> in
      if e_close_fences e1 = 0 \<and> e_pass_held e1 then wake (e1\<lparr>e_pass_held := False\<rparr>) else e1)"
    using pre c by (auto simp: engine_pre_def engine_core_def calls_ok_def waits_def held_back_def parked_def
        wake_def Let_def split: option.split)
  then show ?thesis unfolding release_close_fence_def Let_def by (rule sync_inv)
qed

lemma observe_lawful: "lawful e (observe wall ev e)"
proof (rule lawful_light)
  show "quiet e (observe wall ev e)"
    by (auto simp: observe_def Let_def split_beta wake_def quiet_def cur_place_def exit_fence_ended_def
        split: event_body.split)
qed (auto simp: observe_def Let_def split_beta wake_def exit_fence_ended_def split: event_body.split)

lemma close_lawful: "lawful e (close_section e)"
proof (cases "e_closed e")
  case True
  then show ?thesis by (simp add: close_section_def)
next
  case False
  define e1 where "e1 = raise_fence (e\<lparr>e_closed := True, e_activity := ActivityClosing, e_activity_at := e_now e\<rparr>)"
  define e' where "e' = close_section e"
  have x: "e_cur e' = None" "e_turn_seq e' = e_turn_seq e" "e_closed e'" "e_stopped e' = e_stopped e"
    "exit_fence_ended e' = exit_fence_ended e" "e_calls e' = e_calls e1" "e_fence e' = e_fence e1" "e_fenced e' = e_fenced e1"
    "e_cancels e' = e_cancels e" "e_close_fences e' = e_close_fences e" "e_pass_held e' = e_pass_held e"
    "e_recheck e' = e_recheck e" "e_rearm e' = e_rearm e" "e_tick e' = e_tick e"
    using False unfolding e'_def close_section_def Let_def e1_def
    by (simp_all add: split_beta disarm_locked_def exit_fence_ended_def split: option.split)
  have "obeys e e'" using x by (simp add: obeys_def)
  moreover have "engine_inv e'" if "engine_inv e"
  proof -
    from inv_pre [OF that] have pre: "engine_pre e" .
    have "calls_ok e1" unfolding e1_def
      using pre by (intro calls_ok_raise) (auto simp: engine_pre_def engine_core_def elim!: calls_ok_cong)
    then have "calls_ok e'" using x by (simp add: calls_ok_def)
    moreover have "fence_stands e'" using x by (simp add: fence_stands_def fence_want_def e1_def)
    ultimately show ?thesis using pre x
      by (simp add: engine_inv_def engine_pre_def engine_core_def waits_def held_back_def parked_def)
  qed
  ultimately show ?thesis by (simp add: lawful_def e'_def)
qed

section \<open>Every section\<close>

lemma light_lawful:
  "lawful e (admitted e)" "lawful e (snd (interject_gate e))" "lawful e (close_for cause e)"
  "lawful e (e\<lparr>e_sets := sets, e_set_running := running\<rparr>)"
  by (rule lawful_light; auto simp: admitted_def interject_gate_def admit_locked_def close_for_def quiet_def cur_place_def
      exit_fence_ended_def split: option.split)+

lemma section_obeys: "obeys e (engine_section x e)"
proof (cases x)
  case OpRelease
  then show ?thesis by (simp add: release_lawful(1))
next
  case OpReleaseCloseFence
  then show ?thesis by (simp add: release_close_fence_obeys)
qed (use started_lawful submit_lawful verbs_lawful hold_lawful returned_lawful drive_lawful give_up_lawful
      give_up_drain_lawful close_fence_lawful observe_lawful close_lawful light_lawful in \<open>simp_all add: lawful_def\<close>)

lemma section_inv:
  assumes "engine_op_ok (o', x) e" and inv: "engine_inv e"
  shows "engine_inv (engine_section x e)"
proof (cases x)
  case OpRelease
  with assms show ?thesis by (simp add: release_lawful(2))
next
  case OpReleaseCloseFence
  with assms show ?thesis by (simp add: release_close_fence_inv)
qed (use started_lawful submit_lawful verbs_lawful hold_lawful returned_lawful drive_lawful give_up_lawful
      give_up_drain_lawful close_fence_lawful observe_lawful close_lawful light_lawful inv in \<open>simp_all add: lawful_def\<close>)

lemma enter_before [simp]: "before_decision e (enter o' e)"
  by (simp add: before_decision_def enter_def cur_id_def exit_fence_ended_def)

lemma enter_place [simp]: "cur_place (enter o' e) = cur_place e"
  by (simp add: enter_def cur_place_def)

lemma enter_inv [simp]: "engine_inv (enter o' e) = engine_inv e"
  by (simp add: engine_inv_def engine_pre_def place_simps calls_ok_def fence_stands_def fence_want_def place_None [symmetric])
    (simp add: enter_def exit_fence_ended_def)

lemma enter_op_ok: "engine_op_ok (o', x) e \<Longrightarrow> engine_op_ok (o', x) (enter o'' e)"
  by (cases x) (simp_all add: enter_def)

lemma step_obeys: "obeys e (fst (engine_step p e))"
  by (cases p) (simp add: Let_def obeys_before [OF enter_before section_obeys])

lemma step_inv: "engine_inv e \<Longrightarrow> engine_op_ok p e \<Longrightarrow> engine_inv (fst (engine_step p e))"
  by (cases p) (auto simp: Let_def intro!: section_inv [OF enter_op_ok])

interpretation engine_driver: op_invariant engine_step engine_op_ok engine_inv
  by unfold_locales (rule step_inv)

lemma engine_inv_new [simp]: "engine_inv (new_engine rf sn ad hf born)"
  by (simp add: engine_inv_def engine_pre_def engine_core_def calls_ok_def waits_def held_back_def parked_def
      fence_stands_def fence_want_def exit_fence_ended_def new_engine_def)

text \<open>The exit fence's end, or the close, over a run: no section behind it starts a turn.\<close>

interpretation exit_fence_end: op_invariant engine_step "\<lambda>_ _. True"
  "\<lambda>e. (e_closed e \<or> exit_fence_ended e) \<and> (x \<longrightarrow> exit_fence_ended e) \<and> e_turn_seq e = n" for x n
proof
  fix s op'
  assume *: "(e_closed s \<or> exit_fence_ended s) \<and> (x \<longrightarrow> exit_fence_ended s) \<and> e_turn_seq s = n"
  then have kept: "e_closed (fst (engine_step op' s)) \<or> exit_fence_ended (fst (engine_step op' s))"
    "x \<longrightarrow> exit_fence_ended (fst (engine_step op' s))"
    using step_obeys [of s op'] by (auto simp: obeys_def)
  then have "\<not> may_start (fst (engine_step op' s))" by (auto simp: may_start_def)
  with step_obeys [of s op'] have "e_turn_seq (fst (engine_step op' s)) = e_turn_seq s" by (auto simp: obeys_def)
  with kept * show "(e_closed (fst (engine_step op' s)) \<or> exit_fence_ended (fst (engine_step op' s))) \<and>
      (x \<longrightarrow> exit_fence_ended (fst (engine_step op' s))) \<and> e_turn_seq (fst (engine_step op' s)) = n"
    by simp
qed

text \<open>A cancel in flight, over a run that keeps one in flight.\<close>

definition cancel_pending :: "outside \<times> engine_op \<Rightarrow> engine \<Rightarrow> bool" where
  "cancel_pending p e \<longleftrightarrow> e_cancels (fst (engine_step p e)) > 0"

interpretation cancel_held: op_invariant engine_step cancel_pending "\<lambda>e. e_closed e \<or> cur_id e = c" for c
proof
  fix s op'
  assume "e_closed s \<or> cur_id s = c" "cancel_pending op' s"
  with step_obeys [of s op'] show "e_closed (fst (engine_step op' s)) \<or> cur_id (fst (engine_step op' s)) = c"
    by (auto simp: obeys_def cancel_pending_def)
qed

section \<open>Under a close fence\<close>

text \<open>Nothing waits, and nothing may be admitted: what a verdict of not busy has seen.\<close>

definition vacant :: "engine \<Rightarrow> bool" where
  "vacant e \<longleftrightarrow> e_close_fences e > 0 \<and> e_cur e = None \<and> pq_list (e_queue e) = [] \<and> e_armed e = None"

definition stays_vacant :: "engine \<Rightarrow> engine \<Rightarrow> bool" where
  "stays_vacant e e' \<longleftrightarrow> vacant e' \<and> e_turn_seq e' = e_turn_seq e \<and> e_admitting e' \<le> e_admitting e"

lemma vacant_refuses: "vacant e \<Longrightarrow> refusal e \<noteq> None"
  by (simp add: vacant_def refusal_def)

lemma stays_refl: "vacant e \<Longrightarrow> stays_vacant e e"
  by (simp add: stays_vacant_def)

lemma staysI:
  assumes "vacant e" and "e_close_fences e' \<ge> e_close_fences e" and "e_cur e' = None" and "e_queue e' = e_queue e"
    and "e_armed e' = None" and "e_turn_seq e' = e_turn_seq e" and "e_admitting e' \<le> e_admitting e"
  shows "stays_vacant e e'"
  using assms by (simp add: stays_vacant_def vacant_def)

lemma stays_trans: "stays_vacant e e1 \<Longrightarrow> stays_vacant e1 e2 \<Longrightarrow> stays_vacant e e2"
  by (auto simp: stays_vacant_def)

lemma stays_vacantD: "stays_vacant e e' \<Longrightarrow> vacant e'"
  by (simp add: stays_vacant_def)

lemma stays_sync: "stays_vacant e e1 \<Longrightarrow> stays_vacant e (sync_fence e1)"
  by (simp add: stays_vacant_def vacant_def)

lemma stays_pass:
  assumes v: "vacant e"
  shows "stays_vacant e (snd (pass_locked e))"
proof (cases "e_closed e")
  case True
  with v show ?thesis by (simp add: pass_locked_def stays_refl)
next
  case False
  have "can_start e = (False, e)" using vacant_refuses [OF v] unfolding can_start_def by (simp only: simp_thms if_False)
  then have "snd (pass_locked e) = enqueue [] (e\<lparr>e_pass_held := True\<rparr>)"
    using v False by (simp add: pass_locked_def drain_locked_def next_locked_def vacant_def)
  then show ?thesis using v by (intro staysI) (simp_all add: vacant_def)
qed

lemma stays_pass_sync:
  assumes "stays_vacant e e1"
  shows "stays_vacant e (sync_fence (snd (pass_locked e1)))"
  by (rule stays_sync, rule stays_trans [OF assms stays_pass [OF stays_vacantD [OF assms]]])

lemma stays_hold:
  assumes v: "vacant e"
  shows "stays_vacant e (snd (hold_cancel turn stop asks cause e))"
proof -
  have reads: "stays_vacant e e1" if "e1 \<in> {raise_fence (raise_fence e), snd (foreign_locked (raise_fence (raise_fence e)))}" for e1
    using that v by (auto intro!: staysI simp: vacant_def)
  have stop: "stays_vacant e1 (stop_locked cause e1)" if "vacant e1" for e1
    using that by (simp add: stays_vacant_def vacant_def stop_locked_def clear_rows_def pq_clear_def pq_list_def split_beta Let_def
        disarm_locked_def)
  have take_h: "stays_vacant e1 (take_hold e1)" if "vacant e1" for e1
    using that by (intro staysI) (simp_all add: vacant_def take_hold_def)
  have "stays_vacant e (snd (hold_cancel_locked turn stop asks cause (raise_fence e)))"
  proof (rule hold_cancel_cases [of turn stop asks cause "raise_fence e"])
    fix err e1
    assume "hold_cancel_locked turn stop asks cause (raise_fence e) = (Inl err, e1)"
      "e1 \<in> {raise_fence (raise_fence e), snd (foreign_locked (raise_fence (raise_fence e)))}"
    with reads show ?thesis by simp
  next
    fix tid e1
    assume h: "hold_cancel_locked turn stop asks cause (raise_fence e) =
        (Inr tid, take_hold (if stop \<and> \<not> e_stopped e1 then stop_locked cause e1 else e1))"
      "e1 \<in> {raise_fence (raise_fence e), snd (foreign_locked (raise_fence (raise_fence e)))}"
    from reads [OF h(2)] have s1: "stays_vacant e e1" .
    then have s2: "stays_vacant e (if stop \<and> \<not> e_stopped e1 then stop_locked cause e1 else e1)"
      using stays_trans [OF s1 stop] by (simp add: stays_vacantD)
    from stays_trans [OF this take_h [OF stays_vacantD [OF this]]] h(1) show ?thesis by simp
  qed
  then show ?thesis by (simp add: hold_cancel_def split_beta Let_def stays_sync)
qed

lemma stays_submit:
  assumes v: "vacant e"
  shows "stays_vacant e (snd (snd (snd (submit cause prompt mode from fence e))))"
proof -
  have "refusal (raise_fence e) \<noteq> None" using v by (simp add: refusal_def vacant_def)
  then obtain err where "refusal (raise_fence e) = Some err" by blast
  then have "snd (snd (snd (submit cause prompt mode from fence e))) = sync_fence (raise_fence e)"
    by (simp add: submit_def submit_gates_def admit_locked_def)
  then show ?thesis using v by (auto intro!: staysI simp: vacant_def)
qed

lemma stays_verbs:
  assumes v: "vacant e"
  shows "stays_vacant e (snd (queue_verb cause prompt e))" "stays_vacant e (snd (edit_queued cause rid prompt expected e))"
    "stays_vacant e (snd (unqueue cause rid e))" "stays_vacant e (snd (clear_queue cause e))" "stays_vacant e (snd (disarm cause e))"
    "stays_vacant e (snd (interject_gate e))"
  using vacant_refuses [OF v] v
  by (auto simp: queue_verb_def edit_queued_def unqueue_def clear_queue_def disarm_def interject_gate_def
      intro!: stays_sync stays_refl)

lemma stays_release:
  assumes v: "vacant e"
  shows "stays_vacant e (snd (snd (release_hold held cause ws x own e)))"
proof -
  define e1 where "e1 = (raise_fence e)\<lparr>e_cancels := e_cancels e - 1\<rparr>"
  have "stays_vacant e (snd (release_failure held cause x own e1))"
    using v by (intro staysI) (auto simp: e1_def vacant_def release_failure_def split: option.split)
  then have "stays_vacant e (sync_fence (snd (pass_locked (snd (release_failure held cause x own e1)))))"
    by (rule stays_pass_sync)
  then show ?thesis by (simp add: release_hold_def split_beta Let_def e1_def)
qed

lemma stays_returned: "vacant e \<Longrightarrow> stays_vacant e (snd (turn_returned tid res err e))"
proof -
  assume v: "vacant e"
  have "stays_vacant e (raise_fence (e\<lparr>e_out := remove1 tid (e_out e)\<rparr>))"
    using v by (intro staysI) (simp_all add: vacant_def)
  from stays_pass_sync [OF this] show ?thesis using v
    by (simp add: turn_returned_def split_beta Let_def vacant_def)
qed

lemma stays_drive: "vacant e \<Longrightarrow> stays_vacant e (snd (drive w e))"
proof -
  assume v: "vacant e"
  have pass: "stays_vacant e (snd (drive_pass b e1))" if "stays_vacant e e1" for b e1
  proof -
    have "stays_vacant e1 (drive_due b (raise_fence e1))"
      using stays_vacantD [OF that] by (intro staysI) (auto simp: drive_due_def vacant_def)
    from stays_pass_sync [OF stays_trans [OF that this]] show ?thesis
      by (simp add: drive_pass_def split_beta Let_def stays_vacant_def vacant_def)
  qed
  have "stays_vacant e (e\<lparr>e_kick := False\<rparr>)" using v by (intro staysI) (simp_all add: vacant_def)
  with pass show ?thesis using stays_refl [OF v] v
    by (cases w) (auto simp: drive_def stays_vacant_def vacant_def)
qed

lemma stays_give_up:
  assumes v: "vacant e"
  shows "stays_vacant e (snd (snd (give_up turn e)))" "stays_vacant e (snd (snd (give_up_drain e)))"
  using v by (auto simp: give_up_def give_up_drain_def Let_def vacant_def intro!: staysI)

lemma stays_fences: "vacant e \<Longrightarrow> stays_vacant e (snd (close_fence_up e))"
proof -
  assume v: "vacant e"
  then show ?thesis
    by (intro staysI) (auto simp: close_fence_up_def split_beta Let_def vacant_def)
qed

lemma stays_rest:
  assumes v: "vacant e"
  shows "stays_vacant e (started err e)" "stays_vacant e (admitted e)" "stays_vacant e (observe wall ev e)"
    "stays_vacant e (close_for cause e)" "stays_vacant e (close_section e)"
    "stays_vacant e (e\<lparr>e_sets := sets, e_set_running := running\<rparr>)"
  using v by (auto intro!: staysI simp: vacant_def started_def retire_replay_def admitted_def observe_def close_for_def
      close_section_def Let_def split_beta wake_def disarm_locked_def split: option.split event_body.split)

definition not_released :: "outside \<times> engine_op \<Rightarrow> engine \<Rightarrow> bool" where
  "not_released p e \<longleftrightarrow> snd p \<noteq> OpReleaseCloseFence"

lemma section_stays: "vacant e \<Longrightarrow> x \<noteq> OpReleaseCloseFence \<Longrightarrow> stays_vacant e (engine_section x e)"
  by (cases x) (simp_all add: stays_submit stays_verbs stays_release stays_returned stays_drive stays_give_up stays_fences
      stays_rest stays_hold)

interpretation close_fenced: op_invariant engine_step not_released
  "\<lambda>e. vacant e \<and> e_turn_seq e = n \<and> e_admitting e \<le> m" for n m
proof
  fix s p
  assume *: "vacant s \<and> e_turn_seq s = n \<and> e_admitting s \<le> m" "not_released p s"
  obtain o' x where p: "p = (o', x)" by (cases p)
  have "stays_vacant s (enter o' s)" using * by (intro staysI) (simp_all add: enter_def vacant_def)
  moreover from this have "stays_vacant (enter o' s) (engine_section x (enter o' s))"
    using * p by (intro section_stays) (simp_all add: stays_vacantD not_released_def)
  ultimately have "stays_vacant s (engine_section x (enter o' s))" by (rule stays_trans)
  with * show "vacant (fst (engine_step p s)) \<and> e_turn_seq (fst (engine_step p s)) = n \<and> e_admitting (fst (engine_step p s)) \<le> m"
    by (simp add: p Let_def stays_vacant_def)
qed

section \<open>A row that comes back\<close>

lemma return_steers_rows:
  "pq_list (e_queue (snd (return_steers ss e))) = rows \<Longrightarrow>
     map qp_text rows = ss @ map qp_text (pq_list (e_queue e)) \<and> (\<exists>new. rows = new @ pq_list (e_queue e))"
proof (induction ss arbitrary: rows)
  case Nil
  then show ?case by auto
next
  case (Cons s ss)
  define e1 where "e1 = snd (return_steers ss e)"
  from Cons.IH [OF refl] obtain new where IH: "map qp_text (pq_list (e_queue e1)) = ss @ map qp_text (pq_list (e_queue e))"
    "pq_list (e_queue e1) = new @ pq_list (e_queue e)" unfolding e1_def by blast
  obtain qev q where pf: "pq_push_front s (e_now e1) (e_queue e1) = (qev, q)"
    by (cases "pq_push_front s (e_now e1) (e_queue e1)")
  then obtain p where "pq_list q = p # pq_list (e_queue e1)" "qp_text p = s"
    by (auto simp: pq_push_front_def pq_list_def Let_def)
  moreover have "rows = pq_list q" using Cons.prems pf by (simp add: split_beta Let_def e1_def)
  ultimately show ?case using IH by simp
qed

lemma pop_rows: "pq_pop q = Some (qev, q') \<Longrightarrow> set (pq_items q') \<subseteq> set (pq_items q)"
  by (auto simp: pq_pop_def split: list.splits)

lemma take_rows: "set (pq_items (e_queue (snd (take_row rid c e)))) \<subseteq> set (pq_items (e_queue e))"
  by (auto simp: take_row_def pq_take_def pq_take_as_def split: option.split dest!: set_delete_at_subset [THEN subsetD])

lemma head_rows: "set (pq_items (e_queue (snd (snd (snd (head_turn g q e)))))) \<subseteq> set (pq_items (e_queue e))"
  by (auto simp: head_turn_def split_beta Let_def split: option.split dest!: pop_rows)

lemma next_rows: "set (pq_items (e_queue (snd (snd (snd (next_locked q e)))))) \<subseteq> set (pq_items (e_queue e))"
proof (rule next_locked_cases [of q e])
  fix a row
  assume "next_locked q e =
       (let r = claim_locked (qp_text row) TurnOriginSendNow (as_cause a) ((snd (can_start e))\<lparr>e_armed := None\<rparr>);
            t = take_row (as_from a) (as_cause a) (set_row row (snd r))
        in (Some (fst r), fst t, [], snd t))"
  then show ?thesis
    using take_rows [of "as_from a" "as_cause a" "set_row row (snd (claim_locked (qp_text row) TurnOriginSendNow (as_cause a)
      ((snd (can_start e))\<lparr>e_armed := None\<rparr>)))"] by (simp add: Let_def)
next
  fix a
  assume "next_locked q e =
       (let d = disarm_locked ''row_gone'' [] [] (snd (can_start e)) in head_turn (fst d) q (snd d))"
  then show ?thesis
    using head_rows [of "fst (disarm_locked ''row_gone'' [] [] (snd (can_start e)))" q "snd (disarm_locked ''row_gone'' [] [] (snd (can_start e)))"]
    by (simp add: Let_def)
next
  assume "next_locked q e = head_turn [] q (snd (can_start e))"
  then show ?thesis using head_rows [of "[]" q "snd (can_start e)"] by simp
qed (simp_all add: Let_def)

lemma end_turn_rows: "set (pq_list (e_queue (snd (end_turn t batch e)))) \<subseteq> set (pq_list (e_queue e))"
proof (rule end_turn_fence [of t e batch])
  fix q e4
  assume "e_queue e4 = e_queue e" and "set (pq_list (e_queue (snd (end_turn t batch e)))) \<subseteq>
      set (pq_list (e_queue (snd (snd (snd (next_locked q e4))))))"
  with next_rows [of q e4] show ?thesis by (simp add: pq_list_def)
qed

lemma restore_rows:
  "pq_list (e_queue (snd (restore_locked t row batch e))) = row # pq_list (e_queue e)"
  by (simp add: restore_locked_def split_beta Let_def pq_restore_def pq_list_def split: option.split)

section \<open>Properties\<close>

text \<open>C15. A turn starts only where every gate is open. Whatever the section, whatever the state it began
  in: it starts at most one turn, and where it starts one no cancel is in flight, the engine is neither
  stopped nor closed, its start has not failed, no replay is running, no close fence is up and the
  exit fence's turn has not ended.\<close>

theorem starts_only_where_open:
  "e_turn_seq (fst (engine_step p e)) = e_turn_seq e \<or>
   e_turn_seq (fst (engine_step p e)) = Suc (e_turn_seq e) \<and> may_start (fst (engine_step p e))"
  using step_obeys [of e p] by (simp add: obeys_def)

text \<open>C14. No turn is forgotten. After any sequence of sections in which every hold and every close fence
  is released at most as often as it was taken, a current turn has something that will come back to
  it: a turn parked for another claim has a kick or the retry timer pending, a turn that returned is
  held by a cancel in flight, and any other turn's continuation is still out. A pass that a close fence
  held back has a fence whose release will wake the driver, and a recheck owed has the timer.\<close>

theorem no_turn_forgotten:
  assumes "ops_ok engine_step engine_op_ok ops (new_engine rf sn ad hf born)"
    and "e = fst (run_ops engine_step ops (new_engine rf sn ad hf born))"
  shows "(case e_cur e of None \<Rightarrow> True
      | Some t \<Rightarrow> if t_retry t then e_kick e \<or> e_tick e
          else if t_returned t then e_cancels e > 0 else t_id t \<in> set (e_out e)) \<and>
    (e_recheck e \<longrightarrow> e_rearm e \<or> e_tick e) \<and> (e_pass_held e \<longrightarrow> e_close_fences e > 0)"
  using engine_driver.run_inv [OF engine_inv_new assms(1)] unfolding assms(2) [symmetric]
  by (auto simp: engine_inv_def engine_pre_def engine_core_def waits_def held_back_def parked_def split: option.split)

definition at_0 :: outside where
  "at_0 = \<lparr>o_now = 0, o_reads = [], o_room = True\<rparr>"

definition one_submit :: "(outside \<times> engine_op) list" where
  "one_submit = [(at_0, OpStarted None), (at_0, OpSubmit [] ''hi'' SubmitQueue [] False)]"

theorem no_turn_forgotten_witness:
  "\<exists>t. e_cur (fst (run_ops engine_step one_submit (new_engine True False False True 0))) = Some t \<and>
     t_id t \<in> set (e_out (fst (run_ops engine_step one_submit (new_engine True False False True 0))))"
proof -
  define e where "e = fst (run_ops engine_step one_submit (new_engine True False False True 0))"
  have ok: "ops_ok engine_step engine_op_ok one_submit (new_engine True False False True 0)"
    by (simp add: one_submit_def)
  have "map_option (\<lambda>t. (t_retry t, t_returned t)) (e_cur e) = Some (False, False)"
    unfolding e_def by code_simp
  then obtain t where "e_cur e = Some t" "\<not> t_retry t" "\<not> t_returned t" by auto
  with no_turn_forgotten [OF ok e_def] show ?thesis by (simp add: e_def [symmetric])
qed

text \<open>C16. The admission fence the session is given stands exactly while the session may not start a turn of
  its own under the engine: after every sequence of sections it is raised when, and only when, the
  engine is closed or stopped, has a turn, a cancel or a close fence, has an exit fence whose turn
  ended, or owes the queue a drain. The calls that raised it, lowered it and began prompts alternated,
  and every prompt began behind it.\<close>

theorem admission_fence_stands:
  assumes "ops_ok engine_step engine_op_ok ops (new_engine rf sn ad True born)"
    and "e = fst (run_ops engine_step ops (new_engine rf sn ad True born))"
  shows "e_fence e \<longrightarrow> e_fenced e = fence_want e \<and> calls_fold (e_calls e) False = Some (fence_want e)"
  using engine_driver.run_inv [OF engine_inv_new assms(1)] unfolding assms(2) [symmetric]
  by (simp add: engine_inv_def engine_pre_def engine_core_def calls_ok_def fence_stands_def)

theorem admission_fence_stands_witness:
  "e_fenced (fst (run_ops engine_step one_submit (new_engine True False False True 0)))"
proof -
  define e where "e = fst (run_ops engine_step one_submit (new_engine True False False True 0))"
  have ok: "ops_ok engine_step engine_op_ok one_submit (new_engine True False False True 0)"
    by (simp add: one_submit_def)
  have "e_fence e \<and> fence_want e" unfolding e_def by code_simp
  with admission_fence_stands [OF ok e_def] show ?thesis by (simp add: e_def [symmetric])
qed

text \<open>C20. The end of the exit fence's turn is the end of the session's turns. Whatever sections ran: once an exit
  fence names a turn and that turn is no longer the current one, however it came to its end (its answer, a
  failure, a refusal, a cancel, a client that gave up), the fence says that the turn has ended, or the engine
  has closed; and no section of any later sequence starts another turn or takes the fence's word back. (A
  fenced turn that is refused and whose row goes back to the queue leaves a fence that names no turn.)\<close>

theorem exit_fence_is_final:
  assumes "e = fst (run_ops engine_step ops (new_engine rf sn ad hf born))"
    and "e_exit_fence e = Some f" and "xf_turn f \<noteq> []" and "cur_id e \<noteq> Some (xf_turn f)"
  shows "(e_closed e \<or> xf_ended f) \<and>
    (let e2 = fst (run_ops engine_step more_ops e)
     in e_turn_seq e2 = e_turn_seq e \<and> (xf_ended f \<longrightarrow> exit_fence_ended e2))"
proof -
  have "fence_named e" unfolding assms(1) by (rule exit_fence_names.run_inv) simp_all
  with assms(2-4) have over: "e_closed e \<or> xf_ended f" by (auto simp: fence_named_def)
  moreover have "xf_ended f = exit_fence_ended e" using assms(2) by (simp add: exit_fence_ended_def)
  ultimately show ?thesis
    using exit_fence_end.run_inv [of e "xf_ended f" "e_turn_seq e" more_ops] by (simp add: Let_def)
qed

definition exit_run :: "(outside \<times> engine_op) list" where
  "exit_run = [(at_0, OpStarted None), (at_0, OpSubmit [] ''hi'' SubmitQueue [] True),
     (at_0, OpReturned (turn_id 1) \<lparr>tr_stop_reason = stopEndTurn, tr_unanswered = [''more'']\<rparr> None)]"

theorem exit_fence_is_final_witness:
  "\<exists>f. e_exit_fence (fst (run_ops engine_step exit_run (new_engine False False False True 0))) = Some f \<and> xf_ended f \<and>
     e_turn_seq (fst (run_ops engine_step [(at_0, OpSubmit [] ''again'' SubmitQueue [] False), (at_0, OpDrive WakeKick)]
       (fst (run_ops engine_step exit_run (new_engine False False False True 0))))) = 1"
proof -
  define e where "e = fst (run_ops engine_step exit_run (new_engine False False False True 0))"
  have "map_option xf_turn (e_exit_fence e) = Some (turn_id 1)" "cur_id e = None" "\<not> e_closed e" "e_turn_seq e = 1"
    unfolding e_def by code_simp+
  then obtain f where "e_exit_fence e = Some f" "xf_turn f = turn_id 1" "cur_id e = None" "\<not> e_closed e" "e_turn_seq e = 1"
    by auto
  with exit_fence_is_final [OF e_def, of f "[(at_0, OpSubmit [] ''again'' SubmitQueue [] False), (at_0, OpDrive WakeKick)]"]
  show ?thesis by (simp add: e_def [symmetric] Let_def)
qed

text \<open>C17. A cancel is never answered by another turn's death. While a cancel is in flight, through every
  section that leaves one in flight, the current turn is the very turn the hold was taken against, or
  the engine has closed: the turn is not settled, no other takes its place.\<close>

theorem cancel_keeps_its_turn:
  assumes "hold_cancel turn stop asks cause e = (Inr tid, e1)"
    and "ops_ok engine_step cancel_pending ops e1"
  shows "e_closed (fst (run_ops engine_step ops e1)) \<or>
    (case cur_id (fst (run_ops engine_step ops e1)) of None \<Rightarrow> [] | Some c \<Rightarrow> c) = tid"
proof -
  have "tid = (case cur_id e1 of None \<Rightarrow> [] | Some c \<Rightarrow> c)"
  proof -
    obtain r e2 where h: "hold_cancel_locked turn stop asks cause (raise_fence e) = (r, e2)"
      by (cases "hold_cancel_locked turn stop asks cause (raise_fence e)")
    with assms(1) have r: "r = Inr tid" "e1 = sync_fence e2" by (simp_all add: hold_cancel_def)
    have "cur_id e2 = cur_id e"
      using prepares_hold [of "raise_fence e" turn stop asks cause] h by (simp add: prepares_def before_decision_def)
    then have "cur_id e1 = cur_id e" using r by simp
    moreover have "tid = (case cur_id e of None \<Rightarrow> [] | Some c \<Rightarrow> c)"
      by (rule hold_cancel_cases [of turn stop asks cause "raise_fence e"])
        (use h r in \<open>auto simp: cur_id_def split: option.split\<close>)
    ultimately show ?thesis by simp
  qed
  moreover have "e_closed (fst (run_ops engine_step ops e1)) \<or> cur_id (fst (run_ops engine_step ops e1)) = cur_id e1"
    using cancel_held.run_inv [of e1 "cur_id e1" ops] assms(2) by simp
  ultimately show ?thesis by auto
qed

definition working_engine :: engine where
  "working_engine = fst (run_ops engine_step one_submit (new_engine True False False True 0))"

theorem cancel_keeps_its_turn_witness:
  "e_closed (fst (run_ops engine_step [(at_0, OpObserve 0 (stamp working_engine EvOther []))]
      (snd (hold_cancel [] False 0 [] working_engine)))) \<or>
   (case cur_id (fst (run_ops engine_step [(at_0, OpObserve 0 (stamp working_engine EvOther []))]
      (snd (hold_cancel [] False 0 [] working_engine)))) of None \<Rightarrow> [] | Some c \<Rightarrow> c) = turn_id 1"
proof (rule cancel_keeps_its_turn)
  have "fst (hold_cancel [] False 0 [] working_engine) = Inr (turn_id 1)" by code_simp
  then show "hold_cancel [] False 0 [] working_engine = (Inr (turn_id 1), snd (hold_cancel [] False 0 [] working_engine))"
    by (cases "hold_cancel [] False 0 [] working_engine") simp
  show "ops_ok engine_step cancel_pending [(at_0, OpObserve 0 (stamp working_engine EvOther []))]
      (snd (hold_cancel [] False 0 [] working_engine))"
    by code_simp
qed

text \<open>C18. A verdict of not busy stands until its fence comes off. Where \<open>Engine.FenceClose\<close> found the
  engine not busy with no ask open, then through every later sequence of sections that releases no
  close fence there is no turn, no queued row and no armed send, no turn is started, and no command is
  admitted.\<close>

theorem not_busy_stands:
  assumes "fence_close 0 running owes e = (False, e1)" and "e_close_fences e \<ge> 0"
    and "ops_ok engine_step not_released ops e1"
  shows "vacant (fst (run_ops engine_step ops e1)) \<and> e_turn_seq (fst (run_ops engine_step ops e1)) = e_turn_seq e1 \<and>
    e_admitting (fst (run_ops engine_step ops e1)) \<le> 0"
proof -
  define e2 where "e2 = (raise_fence e)\<lparr>e_close_fences := e_close_fences e + 1\<rparr>"
  have c: "close_fence_up e = (let facts = busy_facts_locked e2; (f, e3) = (if bf_waits facts then (True, e2) else foreign_locked e2)
      in (facts\<lparr>bf_waits := f\<rparr>, sync_fence e3))"
    by (simp add: close_fence_up_def Let_def e2_def)
  have w: "\<not> bf_waits (busy_facts_locked e2)" "\<not> bf_work (busy_facts_locked e2)" "e1 = sync_fence (snd (foreign_locked e2))"
    using assms(1) by (auto simp: fence_close_def c Let_def split_beta busy_def split: if_splits)
  then have "e_close_fences e1 = e_close_fences e + 1" "e_cur e1 = None" "pq_list (e_queue e1) = []" "e_armed e1 = None"
    "e_admitting e1 \<le> 0"
    by (auto simp: busy_facts_locked_def e2_def pq_len_def pq_list_def split: if_splits)
  then have "vacant e1" "e_admitting e1 \<le> 0" using assms(2) by (simp_all add: vacant_def)
  with close_fenced.run_inv [of e1 "e_turn_seq e1" 0 ops] assms(3) show ?thesis by simp
qed

definition idle_engine :: engine where
  "idle_engine = (new_engine True False False True 0)\<lparr>e_activity := ActivityIdle\<rparr>"

theorem not_busy_stands_witness:
  "vacant (fst (run_ops engine_step one_submit (snd (fence_close 0 [] False idle_engine))))"
proof -
  have "fst (fence_close 0 [] False idle_engine) = False" by code_simp
  then have "fence_close 0 [] False idle_engine = (False, snd (fence_close 0 [] False idle_engine))"
    by (cases "fence_close 0 [] False idle_engine") simp
  moreover have "e_close_fences idle_engine \<ge> 0" by (simp add: idle_engine_def new_engine_def)
  moreover have "ops_ok engine_step not_released one_submit (snd (fence_close 0 [] False idle_engine))"
    by (simp add: one_submit_def not_released_def)
  ultimately show ?thesis using not_busy_stands [of "[]" False idle_engine _ one_submit] by blast
qed

text \<open>C19. A row the agent's own turn refused goes back, unless its turn was told to stop. The turn came from a
  queued row and was refused with the foreign-turn error, under a chain policy that does not retry such
  refusals. Where no cancel was asked of the turn and the engine is not stopped, its settlement puts the row
  back at the head of the queue as it was, the steers the turn could not answer behind it in the order they
  were typed, everything queued behind them; no turn starts, and the recheck that will try the row again is
  owed. Where a cancel was asked, or the engine is stopped, the row is not put back: the turn is over, a
  successor may be claimed, and each row that is left was queued behind it or is one of its steers.\<close>

theorem refused_row_returns:
  assumes "row_refused t e" and "t_row t = Some row" and "e' = snd (settle_locked t e)"
  shows "if t_cancel_asked t \<or> e_stopped e
    then (e_cur e' = None \<and> e_turn_seq e' = e_turn_seq e \<or> e_turn_seq e' = Suc (e_turn_seq e)) \<and>
      (\<exists>steers. set (pq_list (e_queue e')) \<subseteq> set steers \<union> set (pq_list (e_queue e)) \<and>
         map qp_text steers = tr_unanswered (t_res t))
    else e_cur e' = None \<and> e_turn_seq e' = e_turn_seq e \<and> e_recheck e' \<and> e_rearm e' \<and>
      (\<exists>steers. pq_list (e_queue e') = row # steers @ pq_list (e_queue e) \<and>
         map qp_text steers = tr_unanswered (t_res t))"
proof -
  obtain batch e1 where r: "return_steers (tr_unanswered (t_res t)) e = (batch, e1)"
    by (cases "return_steers (tr_unanswered (t_res t)) e")
  from return_steers_shape [of "tr_unanswered (t_res t)" e, unfolded r snd_conv]
  obtain q where q: "e1 = e\<lparr>e_queue := q\<rparr>" by (elim exE) (rule that)
  from return_steers_rows [OF refl, of "tr_unanswered (t_res t)" e] r obtain new
    where steers: "pq_list (e_queue e1) = new @ pq_list (e_queue e)" "map qp_text new = tr_unanswered (t_res t)" by auto
  have policy: "\<not> e_retry_foreign e" "restores t e1 \<longleftrightarrow> \<not> (t_cancel_asked t \<or> e_stopped e)"
    using assms(1) by (simp_all add: q restores_def row_refused_def)
  show ?thesis
  proof (cases "t_cancel_asked t \<or> e_stopped e")
    case False
    with policy have e': "e' = snd (restore_locked t row batch e1)"
      using assms(2,3) r by (simp add: settle_locked_def)
    obtain e4 a qu lg where en: "ended_turn e1 e4"
      and sh: "snd (restore_locked t row batch e1) = e4\<lparr>e_armed := a, e_queue := qu, e_log := lg, e_recheck := True, e_rearm := True\<rparr>"
      using restore_shape [of e1 t row batch] by (elim exE conjE) (rule that)
    with False show ?thesis
      using ended_turn_driver(2,3) [OF en] restore_rows [of t row batch e1] steers unfolding e' by (auto simp: sh q)
  next
    case True
    with policy have e': "e' = snd (end_turn t batch e1)"
      using assms(2,3) r by (simp add: settle_locked_def)
    have "decision e e'" unfolding assms(3) by (rule decided_decision [OF settle_decided]) (simp add: policy)
    then have "e_cur e' = None \<and> e_turn_seq e' = e_turn_seq e \<or> e_turn_seq e' = Suc (e_turn_seq e)"
      by (auto simp: decision_def nothing_claimed_def claimed_turn_def)
    moreover have "set (pq_list (e_queue e')) \<subseteq> set new \<union> set (pq_list (e_queue e))"
      using end_turn_rows [of t batch e1] steers(1) unfolding e' by auto
    ultimately show ?thesis using True steers(2) by auto
  qed
qed

definition refused_turn :: turn where
  "refused_turn = (new_turn ''hi'' TurnOriginDrain [] 1)\<lparr>t_returned := True,
     t_row := Some \<lparr>qp_id = ''q-1'', qp_text = ''hi'', qp_at = 0, qp_version = 1\<rparr>,
     t_res := \<lparr>tr_stop_reason = [], tr_unanswered = [''a'', ''b'']\<rparr>,
     t_err := Some \<lparr>te_is = [ErrForeignTurn], te_text = ''x'', te_class = [], te_info = []\<rparr>\<rparr>"

theorem refused_row_returns_witness:
  "\<exists>steers. map qp_text steers = [''a'', ''b''] \<and>
     pq_list (e_queue (snd (settle_locked refused_turn ((new_engine False True True True 0)\<lparr>e_cur := Some refused_turn\<rparr>)))) =
       \<lparr>qp_id = ''q-1'', qp_text = ''hi'', qp_at = 0, qp_version = 1\<rparr> # steers"
proof -
  define e where "e = (new_engine False True True True 0)\<lparr>e_cur := Some refused_turn\<rparr>"
  have "row_refused refused_turn e" "\<not> (t_cancel_asked refused_turn \<or> e_stopped e)" unfolding e_def by code_simp+
  moreover have "t_row refused_turn = Some \<lparr>qp_id = ''q-1'', qp_text = ''hi'', qp_at = 0, qp_version = 1\<rparr>"
    by (simp add: refused_turn_def)
  ultimately show ?thesis
    using refused_row_returns [OF _ _ refl, of refused_turn e]
    by (auto simp: e_def [symmetric]) (simp add: e_def refused_turn_def new_engine_def pq_list_def pq_empty_def)
qed

end
