(* ===== verification/Event_Ring.thy ===== *)
theory Event_Ring
  imports Craze_Prelude
begin

text \<open>
  The event log's records and its ring of recent ones (\<open>Record\<close> and \<open>recordRing\<close> of
  \<open>internal/agent/eventlog.go\<close>).

  \<^item> \<open>record_ring\<close> is the circular buffer as the code has it: a slice that grows by doubling, the index
    of the oldest record, a count and a byte total.
  \<^item> \<open>ring_list\<close> is what it holds, oldest first. Each operation is shown to act on that list as its
    contract says (\<open>replay_ring\<close>, a locale the log is built on): a push drops the fewest oldest records
    that make room, \<open>after\<close> finds the records past a cursor.

  A sequence number is a natural number: Go's is a \<open>uint64\<close>, which no session exhausts.
\<close>

record omitted =
  om_reason :: string
  om_bytes :: nat
  om_error :: string

record log_record =
  lr_seq :: nat
  lr_at :: int
  lr_type :: string
  lr_body :: string
  lr_omitted :: "omitted option"

definition rec_size :: "log_record \<Rightarrow> nat" where
  "rec_size r = length (lr_body r) + (case lr_omitted r of None \<Rightarrow> 0 | Some o' \<Rightarrow> length (om_error o'))"

definition zero_record :: log_record where
  "zero_record = \<lparr>lr_seq = 0, lr_at = 0, lr_type = [], lr_body = [], lr_omitted = None\<rparr>"

abbreviation sizes :: "log_record list \<Rightarrow> nat" where
  "sizes rs \<equiv> sum_list (map rec_size rs)"

section \<open>The circular buffer\<close>

record record_ring =
  rr_buf :: "log_record list"
  rr_head :: nat
  rr_n :: nat
  rr_bytes :: nat
  rr_max_items :: nat
  rr_max_bytes :: nat

definition new_ring :: "nat \<Rightarrow> nat \<Rightarrow> record_ring" where
  "new_ring items bytes =
     \<lparr>rr_buf = [], rr_head = 0, rr_n = 0, rr_bytes = 0, rr_max_items = items, rr_max_bytes = bytes\<rparr>"

definition ring_at :: "record_ring \<Rightarrow> nat \<Rightarrow> log_record" where
  "ring_at r i = rr_buf r ! ((rr_head r + i) mod length (rr_buf r))"

definition ring_evict :: "record_ring \<Rightarrow> record_ring" where
  "ring_evict r =
     r\<lparr>rr_bytes := rr_bytes r - rec_size (rr_buf r ! rr_head r),
       rr_buf := (rr_buf r)[rr_head r := zero_record],
       rr_head := (rr_head r + 1) mod length (rr_buf r),
       rr_n := rr_n r - 1\<rparr>"

definition ring_grow :: "record_ring \<Rightarrow> record_ring" where
  "ring_grow r =
     (let sz = min (max 16 (2 * length (rr_buf r))) (rr_max_items r)
      in r\<lparr>rr_buf := map (ring_at r) [0..<rr_n r] @ replicate (sz - rr_n r) zero_record, rr_head := 0\<rparr>)"

text \<open>The loop of \<open>push\<close> that makes room for a record of the given size.\<close>

function make_room :: "nat \<Rightarrow> record_ring \<Rightarrow> record_ring" where
  "make_room sz r =
     (if rr_n r > 0 \<and> (rr_n r \<ge> rr_max_items r \<or> rr_bytes r + sz > rr_max_bytes r)
      then make_room sz (ring_evict r) else r)"
  by pat_completeness auto
termination
  by (relation "measure (\<lambda>(_, r). rr_n r)") (auto simp: ring_evict_def)

declare make_room.simps [simp del]

definition ring_push :: "log_record \<Rightarrow> record_ring \<Rightarrow> record_ring" where
  "ring_push rec r =
     (let r1 = make_room (rec_size rec) r;
          r2 = (if rr_n r1 = length (rr_buf r1) then ring_grow r1 else r1)
      in r2\<lparr>rr_buf := (rr_buf r2)[(rr_head r2 + rr_n r2) mod length (rr_buf r2) := rec],
            rr_n := rr_n r2 + 1, rr_bytes := rr_bytes r2 + rec_size rec\<rparr>)"

text \<open>\<open>after\<close>: how many of the oldest to skip, how many records there are past the cursor, their bytes.\<close>

definition ring_after :: "nat \<Rightarrow> record_ring \<Rightarrow> nat \<times> nat \<times> nat" where
  "ring_after cursor r =
     (if rr_n r = 0 then (0, 0, 0)
      else
        let first = lr_seq (ring_at r 0);
            skip = (if cursor \<ge> first then min (cursor - first + 1) (rr_n r) else 0)
        in (skip, rr_n r - skip, sizes (map (ring_at r) [skip..<rr_n r])))"

definition copy_out :: "nat \<Rightarrow> nat \<Rightarrow> record_ring \<Rightarrow> log_record list" where
  "copy_out skip count r = map (\<lambda>i. ring_at r (skip + i)) [0..<count]"

section \<open>What the ring holds\<close>

definition ring_list :: "record_ring \<Rightarrow> log_record list" where
  "ring_list r = map (ring_at r) [0..<rr_n r]"

definition ring_wf :: "record_ring \<Rightarrow> bool" where
  "ring_wf r \<longleftrightarrow> rr_n r \<le> length (rr_buf r) \<and> length (rr_buf r) \<le> rr_max_items r \<and>
     (rr_buf r \<noteq> [] \<longrightarrow> rr_head r < length (rr_buf r)) \<and> rr_bytes r = sizes (ring_list r) \<and> 0 < rr_max_items r"

lemma ring_wf_new [simp]: "0 < items \<Longrightarrow> ring_wf (new_ring items bytes)"
  by (simp add: ring_wf_def new_ring_def ring_list_def)

lemma ring_list_new [simp]: "ring_list (new_ring items bytes) = []"
  by (simp add: new_ring_def ring_list_def)

lemma length_ring_list [simp]: "length (ring_list r) = rr_n r"
  by (simp add: ring_list_def)

text \<open>The list of a buffer rotated by its head.\<close>

lemma ring_list_Cons:
  assumes "0 < rr_n r"
  shows "ring_list r = ring_at r 0 # map (\<lambda>i. ring_at r (Suc i)) [0..<rr_n r - 1]"
  using assms by (cases "rr_n r") (simp_all add: ring_list_def upt_conv_Cons map_Suc_upt [symmetric] del: upt_Suc)

lemma index_ne:
  assumes "0 < (i::nat)" and "i < n" and "h < n"
  shows "(h + i) mod n \<noteq> h"
proof (cases "h + i < n")
  case True
  then show ?thesis using assms by simp
next
  case False
  then have "(h + i) mod n = h + i - n" using assms by (simp add: mod_if)
  then show ?thesis using assms False by linarith
qed

lemma index_inj:
  assumes "(h + i) mod n = (h + j) mod n" and "i < n" and "j < (n::nat)" and "h < n"
  shows "i = j"
proof -
  have "(h + k) mod n = (if h + k < n then h + k else h + k - n)" if "k < n" for k
    using that assms(4) by (simp add: mod_if)
  with assms show ?thesis by (auto split: if_splits)
qed

lemma ring_evict_list:
  assumes wf: "ring_wf r" and n: "0 < rr_n r"
  shows "ring_list (ring_evict r) = tl (ring_list r)"
proof -
  let ?L = "length (rr_buf r)"
  have L: "0 < ?L" "rr_head r < ?L" "rr_n r \<le> ?L" using wf n by (auto simp: ring_wf_def)
  have "ring_at (ring_evict r) i = ring_at r (Suc i)" if "i < rr_n r - 1" for i
  proof -
    have "((rr_head r + 1) mod ?L + i) mod ?L = (rr_head r + Suc i) mod ?L"
      by (simp add: mod_simps)
    moreover have "(rr_head r + Suc i) mod ?L \<noteq> rr_head r"
      using that L by (intro index_ne) simp_all
    ultimately show ?thesis using L by (simp add: ring_at_def ring_evict_def)
  qed
  then have "map (ring_at (ring_evict r)) [0..<rr_n r - 1] = map (\<lambda>i. ring_at r (Suc i)) [0..<rr_n r - 1]"
    by simp
  then show ?thesis using ring_list_Cons [OF n] by (simp add: ring_list_def [of "ring_evict r"]) (simp add: ring_evict_def)
qed

lemma ring_evict_wf:
  assumes wf: "ring_wf r" and n: "0 < rr_n r"
  shows "ring_wf (ring_evict r)"
proof -
  have h: "rr_buf r ! rr_head r = hd (ring_list r)"
    using wf n by (simp add: ring_list_Cons [OF n]) (auto simp: ring_at_def ring_wf_def)
  have "ring_list r \<noteq> []" using n length_ring_list [of r] by fastforce
  then have "sizes (tl (ring_list r)) = sizes (ring_list r) - rec_size (hd (ring_list r))"
    by (cases "ring_list r") simp_all
  then show ?thesis using assms ring_evict_list [OF assms] h
    by (auto simp: ring_wf_def) (auto simp: ring_evict_def)
qed

lemma ring_evict_simps [simp]:
  "rr_max_items (ring_evict r) = rr_max_items r" "rr_max_bytes (ring_evict r) = rr_max_bytes r"
  "rr_n (ring_evict r) = rr_n r - 1"
  by (simp_all add: ring_evict_def)

text \<open>What \<open>push\<close>'s loop leaves, on lists.\<close>

fun fit :: "nat \<Rightarrow> nat \<Rightarrow> nat \<Rightarrow> log_record list \<Rightarrow> log_record list" where
  "fit items bytes sz [] = []"
| "fit items bytes sz (x # xs) =
     (if length (x # xs) \<ge> items \<or> sizes (x # xs) + sz > bytes then fit items bytes sz xs else x # xs)"

lemma make_room_keeps:
  "ring_wf r \<Longrightarrow> ring_wf (make_room sz r) \<and> rr_max_items (make_room sz r) = rr_max_items r \<and>
     rr_max_bytes (make_room sz r) = rr_max_bytes r \<and>
     ring_list (make_room sz r) = fit (rr_max_items r) (rr_max_bytes r) sz (ring_list r)"
proof (induction sz r rule: make_room.induct)
  case (1 sz r)
  show ?case
  proof (cases "rr_n r > 0 \<and> (rr_n r \<ge> rr_max_items r \<or> rr_bytes r + sz > rr_max_bytes r)")
    case True
    then have n: "0 < rr_n r" by simp
    obtain x xs where l: "ring_list r = x # xs" using n ring_list_Cons [OF n] by blast
    then have "ring_list (ring_evict r) = xs" using ring_evict_list [OF 1(2) n] by simp
    moreover have "fit (rr_max_items r) (rr_max_bytes r) sz (ring_list r) = fit (rr_max_items r) (rr_max_bytes r) sz xs"
      using True 1(2) l length_ring_list [of r] by (auto simp: ring_wf_def)
    ultimately show ?thesis
      using 1(1) [OF True ring_evict_wf [OF 1(2) n]] True by (simp add: make_room.simps [of sz r])
  next
    case False
    then have "fit (rr_max_items r) (rr_max_bytes r) sz (ring_list r) = ring_list r"
      using 1(2) length_ring_list [of r] by (cases "ring_list r") (auto simp: ring_wf_def)
    moreover have "make_room sz r = r" using False by (simp only: make_room.simps [of sz r] if_False)
    ultimately show ?thesis using 1(2) by simp
  qed
qed

lemma fit_bounds:
  "0 < items \<Longrightarrow> length (fit items bytes sz xs) < items \<and>
     (fit items bytes sz xs \<noteq> [] \<longrightarrow> sizes (fit items bytes sz xs) + sz \<le> bytes)"
  by (induction xs) (auto simp del: sum_list.Cons)

lemma ring_grow_list:
  assumes "ring_wf r" and "rr_n r = length (rr_buf r)" and "rr_n r < rr_max_items r"
  shows "ring_list (ring_grow r) = ring_list r" and "ring_wf (ring_grow r)" and "rr_n (ring_grow r) < length (rr_buf (ring_grow r))"
    and "rr_max_items (ring_grow r) = rr_max_items r" and "rr_max_bytes (ring_grow r) = rr_max_bytes r"
    and "rr_bytes (ring_grow r) = rr_bytes r"
proof -
  define sz where "sz = min (max 16 (2 * length (rr_buf r))) (rr_max_items r)"
  have s: "rr_n r < sz" "sz \<le> rr_max_items r" using assms by (auto simp: sz_def)
  have g: "ring_grow r = r\<lparr>rr_buf := map (ring_at r) [0..<rr_n r] @ replicate (sz - rr_n r) zero_record, rr_head := 0\<rparr>"
    by (simp add: ring_grow_def sz_def)
  show l: "ring_list (ring_grow r) = ring_list r"
    using s by (auto simp: g ring_list_def ring_at_def [of "_\<lparr>rr_buf := _, rr_head := _\<rparr>"] nth_append)
  show "rr_n (ring_grow r) < length (rr_buf (ring_grow r))" using s by (simp add: g)
  show "ring_wf (ring_grow r)" using assms(1) s l by (auto simp: ring_wf_def) (auto simp: g)
qed (simp_all add: ring_grow_def Let_def)

lemma ring_list_push:
  assumes wf: "ring_wf r"
  shows "ring_list (ring_push rec r) = fit (rr_max_items r) (rr_max_bytes r) (rec_size rec) (ring_list r) @ [rec]"
    and "ring_wf (ring_push rec r)" and "rr_max_items (ring_push rec r) = rr_max_items r"
    and "rr_max_bytes (ring_push rec r) = rr_max_bytes r"
proof -
  define r1 where "r1 = make_room (rec_size rec) r"
  define r2 where "r2 = (if rr_n r1 = length (rr_buf r1) then ring_grow r1 else r1)"
  note keeps = make_room_keeps [OF wf, of "rec_size rec", folded r1_def]
  have pos: "0 < rr_max_items r" using wf by (simp add: ring_wf_def)
  have "rr_n r1 < rr_max_items r1"
    using fit_bounds [OF pos, of "rr_max_bytes r" "rec_size rec" "ring_list r"] keeps length_ring_list [of r1] by simp
  then have r2: "ring_wf r2" "ring_list r2 = ring_list r1" "rr_n r2 < length (rr_buf r2)"
    "rr_max_items r2 = rr_max_items r1" "rr_max_bytes r2 = rr_max_bytes r1"
    using ring_grow_list [of r1] keeps by (auto simp: r2_def ring_wf_def)
  define i where "i = (rr_head r2 + rr_n r2) mod length (rr_buf r2)"
  define r3 where "r3 = r2\<lparr>rr_buf := (rr_buf r2)[i := rec], rr_n := rr_n r2 + 1, rr_bytes := rr_bytes r2 + rec_size rec\<rparr>"
  have push: "ring_push rec r = r3"
    by (simp add: ring_push_def Let_def r1_def [symmetric] r2_def [symmetric] i_def [symmetric] r3_def)
  have h: "rr_head r2 < length (rr_buf r2)" using r2 by (auto simp: ring_wf_def)
  have "0 < length (rr_buf r2)" using r2(3) by linarith
  then have i: "i < length (rr_buf r2)" unfolding i_def by (rule mod_less_divisor)
  have old: "ring_at r3 k = ring_at r2 k" if "k < rr_n r2" for k
  proof -
    have "(rr_head r2 + k) mod length (rr_buf r2) \<noteq> i"
      using index_inj [of "rr_head r2" k "length (rr_buf r2)" "rr_n r2"] that r2(3) h by (auto simp: i_def)
    then show ?thesis by (simp add: ring_at_def r3_def)
  qed
  have new: "ring_at r3 (rr_n r2) = rec"
    using i by (simp add: ring_at_def r3_def i_def)
  have "rr_n r3 = Suc (rr_n r2)" by (simp add: r3_def)
  then have l: "ring_list r3 = ring_list r2 @ [rec]"
    using old new by (simp add: ring_list_def)
  then show "ring_list (ring_push rec r) = fit (rr_max_items r) (rr_max_bytes r) (rec_size rec) (ring_list r) @ [rec]"
    using keeps r2 by (simp add: push)
  show "ring_wf (ring_push rec r)" using r2 h l by (auto simp: push ring_wf_def) (auto simp: r3_def)
  show "rr_max_items (ring_push rec r) = rr_max_items r" "rr_max_bytes (ring_push rec r) = rr_max_bytes r"
    using keeps r2 by (simp_all add: push) (simp_all add: r3_def)
qed

text \<open>Records whose numbers follow one another.\<close>

fun contiguous :: "nat \<Rightarrow> log_record list \<Rightarrow> bool" where
  "contiguous n [] \<longleftrightarrow> True"
| "contiguous n (r # rs) \<longleftrightarrow> lr_seq r = n \<and> contiguous (Suc n) rs"

lemma contiguous_append: "contiguous n (xs @ ys) \<longleftrightarrow> contiguous n xs \<and> contiguous (n + length xs) ys"
  by (induction xs arbitrary: n) auto

lemma contiguous_nth: "contiguous n xs \<Longrightarrow> i < length xs \<Longrightarrow> lr_seq (xs ! i) = n + i"
  by (induction xs arbitrary: n i) (auto simp: nth_Cons split: nat.split)

lemma contiguous_drop: "contiguous n xs \<Longrightarrow> contiguous (n + k) (drop k xs)"
proof (induction xs arbitrary: n k)
  case (Cons x xs)
  then show ?case using Cons.IH [of "Suc n"] by (cases k) auto
qed simp

lemma contiguous_take: "contiguous n xs \<Longrightarrow> contiguous n (take k xs)"
  by (induction xs arbitrary: n k) (auto simp: take_Cons split: nat.split)

lemma copy_out_list:
  assumes "skip + count \<le> rr_n r"
  shows "copy_out skip count r = take count (drop skip (ring_list r))"
proof (rule nth_equalityI)
  show "length (copy_out skip count r) = length (take count (drop skip (ring_list r)))"
    using assms by (simp add: copy_out_def)
  show "copy_out skip count r ! i = take count (drop skip (ring_list r)) ! i" if "i < length (copy_out skip count r)" for i
    using that assms by (simp add: copy_out_def ring_list_def)
qed

lemma ring_after_list:
  assumes "contiguous first (ring_list r)" and "ring_list r \<noteq> []"
  shows "ring_after cursor r =
    (let skip = (if cursor \<ge> first then min (cursor - first + 1) (rr_n r) else 0)
     in (skip, rr_n r - skip, sizes (drop skip (ring_list r))))"
proof -
  have n: "0 < rr_n r" using assms(2) length_ring_list [of r] by (cases "ring_list r") auto
  have "lr_seq (ring_at r 0) = first"
    using assms(1) ring_list_Cons [OF n] by simp
  moreover have "map (ring_at r) [k..<rr_n r] = drop k (ring_list r)" for k
    by (simp add: ring_list_def drop_map)
  ultimately show ?thesis using n by (simp add: ring_after_def Let_def)
qed

text \<open>The replay a cursor gets from the ring: exactly the records numbered past it.\<close>

lemma ring_replay:
  assumes c: "contiguous first (ring_list r)" and r: "ring_after cursor r = (skip, count, bytes)"
  shows "copy_out skip count r = drop skip (ring_list r)" and "bytes = sizes (drop skip (ring_list r))"
    and "skip \<le> rr_n r" and "count = rr_n r - skip" and "ring_list r \<noteq> [] \<Longrightarrow> skip = min (Suc cursor - first) (rr_n r)"
proof -
  have all: "copy_out skip count r = drop skip (ring_list r) \<and> bytes = sizes (drop skip (ring_list r)) \<and> skip \<le> rr_n r \<and>
      count = rr_n r - skip \<and> (ring_list r \<noteq> [] \<longrightarrow> skip = min (Suc cursor - first) (rr_n r))"
  proof (cases "ring_list r = []")
    case True
    then have "rr_n r = 0" using length_ring_list [of r] by simp
    with r True show ?thesis by (simp add: ring_after_def copy_out_def)
  next
    case False
    have s: "skip = min (Suc cursor - first) (rr_n r)" "count = rr_n r - skip" "bytes = sizes (drop skip (ring_list r))"
      using r ring_after_list [OF c False, of cursor] by (auto simp: Let_def Suc_diff_le split: if_splits)
    have le: "skip \<le> rr_n r" by (simp add: s(1))
    have "copy_out skip count r = drop skip (ring_list r)"
      using copy_out_list [of skip count r] le s(2) by simp
    with s le show ?thesis by blast
  qed
  then show "copy_out skip count r = drop skip (ring_list r)" "bytes = sizes (drop skip (ring_list r))"
    "skip \<le> rr_n r" "count = rr_n r - skip" "ring_list r \<noteq> [] \<Longrightarrow> skip = min (Suc cursor - first) (rr_n r)" by blast+
qed

section \<open>The ring keeps the longest tail that fits\<close>

definition fits :: "nat \<Rightarrow> nat \<Rightarrow> log_record list \<Rightarrow> bool" where
  "fits items bytes rs \<longleftrightarrow> length rs \<le> items \<and> sizes rs \<le> bytes"

lemma fit_drop: "\<exists>k. fit items bytes sz xs = drop k xs \<and>
   (\<forall>j<k. j < length xs \<longrightarrow> length (drop j xs) \<ge> items \<or> sizes (drop j xs) + sz > bytes)"
proof (induction xs)
  case Nil
  show ?case by (intro exI [of _ 0]) simp
next
  case (Cons x xs)
  show ?case
  proof (cases "length (x # xs) \<ge> items \<or> sizes (x # xs) + sz > bytes")
    case True
    from Cons obtain k where "fit items bytes sz xs = drop k xs"
      "\<forall>j<k. j < length xs \<longrightarrow> length (drop j xs) \<ge> items \<or> sizes (drop j xs) + sz > bytes" by blast
    with True show ?thesis
      by (intro exI [of _ "Suc k"]) (auto simp: less_Suc_eq_0_disj simp del: sum_list.Cons length_drop)
  next
    case False
    then show ?thesis by (intro exI [of _ 0]) simp
  qed
qed

definition pushes :: "log_record list \<Rightarrow> record_ring \<Rightarrow> record_ring" where
  "pushes rs r = foldl (\<lambda>r rec. ring_push rec r) r rs"

lemma pushes_snoc: "pushes (rs @ [x]) r = ring_push x (pushes rs r)"
  by (simp add: pushes_def)

lemma ring_keeps:
  assumes "0 < items"
  shows "ring_wf (pushes rs (new_ring items bytes)) \<and> rr_max_items (pushes rs (new_ring items bytes)) = items \<and>
    rr_max_bytes (pushes rs (new_ring items bytes)) = bytes \<and>
    (\<exists>k. ring_list (pushes rs (new_ring items bytes)) = drop k rs \<and> (rs \<noteq> [] \<longrightarrow> k < length rs) \<and>
       (fits items bytes (drop k rs) \<or> length (drop k rs) = 1) \<and> (\<forall>j<k. \<not> fits items bytes (drop j rs)))"
proof (induction rs rule: rev_induct)
  case Nil
  then show ?case using assms by (simp add: pushes_def fits_def) (auto simp: new_ring_def)
next
  case (snoc x rs)
  define r where "r = pushes rs (new_ring items bytes)"
  from snoc obtain k where wf: "ring_wf r" and m: "rr_max_items r = items" "rr_max_bytes r = bytes"
    and l: "ring_list r = drop k rs" "rs \<noteq> [] \<longrightarrow> k < length rs" "\<forall>j<k. \<not> fits items bytes (drop j rs)"
    unfolding r_def [symmetric] by blast
  obtain k' where f: "fit items bytes (rec_size x) (drop k rs) = drop k' (drop k rs)"
    "\<forall>j<k'. j < length (drop k rs) \<longrightarrow> length (drop j (drop k rs)) \<ge> items \<or> sizes (drop j (drop k rs)) + rec_size x > bytes"
    using fit_drop by blast
  define K where "K = min (k + k') (length rs)"
  have dK: "drop K rs = drop (k + k') rs" by (simp add: K_def min_def)
  have rl: "ring_list (ring_push x r) = drop K (rs @ [x])"
    using ring_list_push(1) [OF wf, of x] m l f dK by (simp add: add.commute) (simp add: K_def)
  have "fits items bytes (drop K (rs @ [x])) \<or> length (drop K (rs @ [x])) = 1"
    using fit_bounds [OF assms, of bytes "rec_size x" "drop k rs"] f rl
    by (auto simp: fits_def K_def add.commute)
  moreover have "\<not> fits items bytes (drop j (rs @ [x]))" if j: "j < K" for j
  proof (cases "j < k")
    case True
    then have "j < length rs" using j by (simp add: K_def)
    have "\<not> fits items bytes (drop j rs)" using True l(3) by blast
    then show ?thesis using \<open>j < length rs\<close> by (auto simp: fits_def)
  next
    case False
    then have "j - k < k'" "j - k < length (drop k rs)" using j by (auto simp: K_def)
    with f(2) have "length (drop (j - k) (drop k rs)) \<ge> items \<or> sizes (drop (j - k) (drop k rs)) + rec_size x > bytes" by blast
    then show ?thesis using False j by (auto simp: fits_def K_def)
  qed
  moreover have "K < length (rs @ [x])" by (simp add: K_def)
  ultimately show ?case
    using ring_list_push [OF wf, of x] m rl unfolding pushes_snoc r_def [symmetric] by blast
qed

section \<open>The ring's contract\<close>

text \<open>What the log needs of its ring: it holds a tail of what was pushed, and a cursor's replay is the part
  of that tail numbered past the cursor.\<close>

locale replay_ring =
  fixes push :: "log_record \<Rightarrow> 'r \<Rightarrow> 'r"
    and contents :: "'r \<Rightarrow> log_record list"
    and after :: "nat \<Rightarrow> 'r \<Rightarrow> nat \<times> nat \<times> nat"
    and copy :: "nat \<Rightarrow> nat \<Rightarrow> 'r \<Rightarrow> log_record list"
    and wf :: "'r \<Rightarrow> bool"
  assumes push_wf: "wf r \<Longrightarrow> wf (push x r)"
    and push_contents: "wf r \<Longrightarrow> \<exists>k. contents (push x r) = drop k (contents r) @ [x]"
    and after_copy: "contiguous first (contents r) \<Longrightarrow> after c r = (skip, count, bytes) \<Longrightarrow>
      copy skip count r = drop skip (contents r) \<and> bytes = sizes (drop skip (contents r)) \<and>
      count = length (contents r) - skip \<and> (contents r \<noteq> [] \<longrightarrow> skip = min (Suc c - first) (length (contents r)))"
begin

definition tail_of :: "log_record list \<Rightarrow> 'r \<Rightarrow> bool" where
  "tail_of H r \<longleftrightarrow> wf r \<and> contiguous 1 H \<and> (\<exists>k. contents r = drop k H \<and> (H \<noteq> [] \<longrightarrow> k < length H))"

lemma tail_of_nil: "wf r \<Longrightarrow> contents r = [] \<Longrightarrow> tail_of [] r"
  by (simp add: tail_of_def)

lemma tail_of_push:
  assumes t: "tail_of H r" and x: "lr_seq x = Suc (length H)"
  shows "tail_of (H @ [x]) (push x r)"
proof -
  obtain k where wf: "wf r" and c: "contiguous 1 H" and k: "contents r = drop k H" "H \<noteq> [] \<longrightarrow> k < length H"
    using t by (auto simp: tail_of_def)
  obtain j where j: "contents (push x r) = drop j (contents r) @ [x]" using push_contents [OF wf] by blast
  define i where "i = min (k + j) (length H)"
  have "drop (k + j) H = drop i H" by (simp add: i_def min_def)
  then have "contents (push x r) = drop i (H @ [x])" using j k by (simp add: add.commute) (simp add: i_def)
  moreover have "i < length (H @ [x])" by (simp add: i_def)
  ultimately show ?thesis using push_wf [OF wf] c x unfolding tail_of_def
    by (auto simp: contiguous_append intro!: exI [of _ i])
qed

text \<open>A replay is a suffix of the history: everything past the cursor that the ring still holds.\<close>

lemma replay_tail:
  assumes t: "tail_of H r" and a: "after c r = (skip, count, bytes)" and c: "c \<le> length H"
  shows "\<exists>k. c \<le> k \<and> k \<le> length H \<and> copy skip count r = drop k H \<and> bytes = sizes (drop k H) \<and> count = length H - k"
proof -
  obtain k where wf: "wf r" and cont: "contiguous 1 H" and k: "contents r = drop k H" "H \<noteq> [] \<longrightarrow> k < length H"
    using t by (auto simp: tail_of_def)
  have cr: "contiguous (1 + k) (contents r)" using contiguous_drop [OF cont] k by simp
  from after_copy [OF cr a] have p: "copy skip count r = drop skip (contents r)" "bytes = sizes (drop skip (contents r))"
    "count = length (contents r) - skip" "contents r \<noteq> [] \<longrightarrow> skip = min (Suc c - (1 + k)) (length (contents r))" by blast+
  show ?thesis
  proof (cases "H = []")
    case True
    with p k c show ?thesis by (intro exI [of _ 0]) simp
  next
    case False
    then have "k < length H" "contents r \<noteq> []" using k by auto
    then have s: "skip = min (c - k) (length H - k)" using p(4) k(1) by simp
    then have "k + skip = max c k" using \<open>k < length H\<close> c by auto
    then have "drop skip (contents r) = drop (max c k) H" using k(1) by (simp add: add.commute)
    with p k(1) \<open>k < length H\<close> s c show ?thesis
      by (intro exI [of _ "max c k"]) auto
  qed
qed

end

interpretation event_ring: replay_ring ring_push ring_list ring_after copy_out ring_wf
proof
  fix r :: record_ring and x :: log_record
  assume wf: "ring_wf r"
  show "ring_wf (ring_push x r)" by (rule ring_list_push(2) [OF wf])
  show "\<exists>k. ring_list (ring_push x r) = drop k (ring_list r) @ [x]"
    using ring_list_push(1) [OF wf, of x] fit_drop by metis
next
  fix first c skip count bytes and r :: record_ring
  assume "contiguous first (ring_list r)" "ring_after c r = (skip, count, bytes)"
  from ring_replay [OF this] show "copy_out skip count r = drop skip (ring_list r) \<and>
      bytes = sizes (drop skip (ring_list r)) \<and> count = length (ring_list r) - skip \<and>
      (ring_list r \<noteq> [] \<longrightarrow> skip = min (Suc c - first) (length (ring_list r)))"
    by simp
qed

section \<open>Properties\<close>

text \<open>The ring keeps the longest tail of what was published that its bounds allow. Whatever records
  were pushed, with whatever growth and wrap-around of the buffer, what it holds is a suffix of them,
  within the count and byte bounds or the newest record alone, and every longer suffix is over a bound.\<close>

theorem ring_keeps_longest_tail:
  assumes "0 < items"
  shows "\<exists>k. ring_list (pushes rs (new_ring items bytes)) = drop k rs \<and> (rs \<noteq> [] \<longrightarrow> k < length rs) \<and>
    (fits items bytes (drop k rs) \<or> length (drop k rs) = 1) \<and> (\<forall>j<k. \<not> fits items bytes (drop j rs))"
  using ring_keeps [OF assms] by blast

definition sample_record :: "nat \<Rightarrow> string \<Rightarrow> log_record" where
  "sample_record n body = \<lparr>lr_seq = n, lr_at = 0, lr_type = ''text'', lr_body = body, lr_omitted = None\<rparr>"

theorem ring_keeps_longest_tail_witness:
  "\<exists>k. ring_list (pushes [sample_record 1 ''abc'', sample_record 2 ''de'', sample_record 3 ''f''] (new_ring 2 3)) =
     drop k [sample_record 1 ''abc'', sample_record 2 ''de'', sample_record 3 ''f'']"
  using ring_keeps_longest_tail [of 2 "[sample_record 1 ''abc'', sample_record 2 ''de'', sample_record 3 ''f'']" 3] by auto

end
