(* ===== verification/Event_Sub.thy ===== *)
theory Event_Sub
  imports Event_Ring
begin

text \<open>
  One subscription of the event log (\<open>Subscription\<close> of \<open>internal/agent/eventlog.go\<close>) and its owner
  goroutine, as a state machine.

  \<^item> \<open>s_owner\<close> is where the owner goroutine is: waiting for the journal to write the head of a replay,
    inside \<open>ReadRange\<close> streaming it from the journal's file, handing over its ring pin, at the top of its
    loop, handing over a batch of live records, about to
    send a record, blocked sending it, stopped, or done. Its steps are \<open>own_step\<close> (what it does by
    itself) and the two ends of a blocked send: \<open>deliver\<close>, when the reader takes the record, and
    \<open>killed\<close>, when the subscription ended. Both may be possible; Go's \<open>select\<close> picks either. The end of
    the subscription also cuts the wait for the journal's flush short (\<open>await\<close>); inside \<open>ReadRange\<close> it is
    seen only when a record is sent.
  \<^item> Publishers act on it with \<open>offer\<close>, a reader with \<open>detach\<close>, the log's close with \<open>closed_by_log\<close>; each
    is one critical section of \<open>s.mu\<close>, and any of them may come between two steps of the owner.
  \<^item> The journal is not part of this component: what \<open>WaitFlushed\<close> answers, the records \<open>ReadRange\<close> calls
    back with, its end and its failure are steps of their own (\<open>SubFlushed\<close>, \<open>SubFlushFail\<close>, \<open>SubHead\<close>,
    \<open>SubHeadEnd\<close>, \<open>SubHeadFail\<close>).
  \<^item> \<open>s_out\<close> is everything \<open>Records\<close> handed out, in order; \<open>s_start\<close> is the position it started from.
\<close>

datatype cursor_reason = CursorForeignIncarnation | CursorFutureSeq | CursorBacklogTooLarge
  | CursorNoJournal | CursorJournalGap | CursorJournalBehind | CursorEvicted

datatype sub_error = SubClosed | SubSlowConsumer | SubNotContiguous | SubCursor cursor_reason
  | SubRestUnavailable | SubNoRest

text \<open>Where a record being sent came from, with what of it is left: the journal's head (its last number
  and the pin behind it), the ring pin, or a live batch.\<close>

datatype source = FromHead nat "log_record list" | FromPin "log_record list" | FromLive "log_record list"

datatype owner = OwnWait nat "log_record list" | OwnHead nat "log_record list" | OwnPin "log_record list" | OwnLoop
  | OwnBatch "log_record list" | OwnSend source log_record | OwnBlocked source log_record
  | OwnStopped sub_error | OwnDone

record subscription =
  s_max_items :: nat
  s_max_bytes :: nat
  s_cutoff :: nat
  s_live :: "log_record list"
  s_live_items :: int
  s_bytes :: int
  s_cause :: "sub_error option"
  s_err :: "sub_error option"
  s_by_log :: bool
  s_rest :: "log_record list"
  s_rest_err :: "sub_error option"
  s_closed :: bool
  s_owner :: owner
  s_prev :: nat
  s_sending :: "log_record option"
  s_local :: "log_record list"
  s_journal :: bool
  s_out :: "log_record list"
  s_start :: nat

text \<open>\<open>newSubscription\<close> and \<open>startOwner\<close>: the head's last number and how far the journal's file had got at the
  cutoff, if the replay has a head, the pin and its bytes, the position before the first record.\<close>

definition new_subscription ::
  "nat \<Rightarrow> nat \<Rightarrow> nat \<Rightarrow> (nat \<times> nat) option \<Rightarrow> log_record list \<Rightarrow> nat \<Rightarrow> nat \<Rightarrow> subscription" where
  "new_subscription max_items max_bytes cutoff head pinned pinned_bytes prev =
     \<lparr>s_max_items = max_items, s_max_bytes = max_bytes, s_cutoff = cutoff, s_live = [], s_live_items = 0,
      s_bytes = int pinned_bytes, s_cause = None, s_err = None, s_by_log = False, s_rest = [],
      s_rest_err = None, s_closed = False,
      s_owner = (case head of None \<Rightarrow> OwnPin pinned
        | Some (to', flushed) \<Rightarrow> if flushed < to' then OwnWait to' pinned else OwnHead to' pinned),
      s_prev = prev, s_sending = None, s_local = [], s_journal = (head \<noteq> None), s_out = [], s_start = prev\<rparr>"

section \<open>What others do to it\<close>

definition end_locked :: "sub_error \<Rightarrow> subscription \<Rightarrow> subscription" where
  "end_locked cause s = (if s_cause s = None then s\<lparr>s_cause := Some cause\<rparr> else s)"

definition detach :: "subscription \<Rightarrow> subscription" where
  "detach s = end_locked SubClosed s"

definition closed_by_log :: "subscription \<Rightarrow> subscription" where
  "closed_by_log s = end_locked SubClosed (if s_cause s = None then s\<lparr>s_by_log := True\<rparr> else s)"

datatype offer_result = OfferKept | OfferDropped | OfferGone

definition offer :: "log_record \<Rightarrow> subscription \<Rightarrow> offer_result \<times> subscription" where
  "offer rec s =
     (if s_cause s \<noteq> None then (OfferGone, s)
      else if s_live_items s \<ge> int (s_max_items s) \<or> s_bytes s + int (rec_size rec) > int (s_max_bytes s)
      then (OfferDropped, end_locked SubSlowConsumer s)
      else (OfferKept, s\<lparr>s_live := s_live s @ [rec], s_live_items := s_live_items s + 1,
                         s_bytes := s_bytes s + int (rec_size rec)\<rparr>))"

section \<open>The owner\<close>

definition hand_over :: "int \<Rightarrow> nat \<Rightarrow> subscription \<Rightarrow> subscription" where
  "hand_over items bytes s = s\<lparr>s_live_items := s_live_items s - items, s_bytes := s_bytes s - int bytes\<rparr>"

fun after_send :: "source \<Rightarrow> owner" where
  "after_send (FromHead to' pin) = OwnHead to' pin"
| "after_send (FromPin rest) = OwnPin rest"
| "after_send (FromLive rest) = OwnBatch rest"

text \<open>A send that did not deliver: \<open>pump\<close> keeps what it had in hand, but for the journal's leg, whose rest
  is in the file.\<close>

fun stopped_send :: "sub_error \<Rightarrow> source \<Rightarrow> log_record \<Rightarrow> subscription \<Rightarrow> subscription" where
  "stopped_send err (FromHead to' pin) rec s = s\<lparr>s_owner := OwnStopped err\<rparr>"
| "stopped_send err (FromPin rest) rec s = s\<lparr>s_owner := OwnStopped err, s_sending := Some rec, s_local := rest\<rparr>"
| "stopped_send err (FromLive rest) rec s = s\<lparr>s_owner := OwnStopped err, s_sending := Some rec, s_local := rest\<rparr>"

text \<open>\<open>ownerTail.closing\<close>.\<close>

definition closing_tail :: "subscription \<Rightarrow> sub_error + log_record list" where
  "closing_tail s =
     (if s_journal s then Inl SubRestUnavailable
      else
        let tail = (case s_sending s of None \<Rightarrow> [] | Some r \<Rightarrow> [r]) @ s_local s @ s_live s
        in if contiguous (s_prev s + 1) tail then Inr tail else Inl SubNotContiguous)"

definition finish_sub :: "sub_error \<Rightarrow> subscription \<Rightarrow> subscription" where
  "finish_sub err s0 =
     (let s = end_locked err s0;
          s1 = s\<lparr>s_err := s_cause s\<rparr>;
          s2 = (if s_by_log s1
                then (case closing_tail s1 of
                        Inl e \<Rightarrow> s1\<lparr>s_rest := [], s_rest_err := Some e\<rparr>
                      | Inr tail \<Rightarrow> s1\<lparr>s_rest := tail, s_rest_err := None\<rparr>)
                else s1)
      in s2\<lparr>s_live := [], s_closed := True, s_owner := OwnDone\<rparr>)"

text \<open>The owner's next step by itself; \<open>None\<close> where it waits for the journal, the live buffer, the reader
  or the end.\<close>

definition own_step :: "subscription \<Rightarrow> subscription option" where
  "own_step s =
     (case s_owner s of
        OwnPin [] \<Rightarrow> Some (s\<lparr>s_owner := OwnLoop\<rparr>)
      | OwnPin (r # rest) \<Rightarrow> Some ((hand_over 0 (rec_size r) s)\<lparr>s_owner := OwnSend (FromPin rest) r\<rparr>)
      | OwnLoop \<Rightarrow>
          (case s_cause s of
             Some err \<Rightarrow> Some (s\<lparr>s_owner := OwnStopped err\<rparr>)
           | None \<Rightarrow> if s_live s = [] then None
                     else Some (s\<lparr>s_owner := OwnBatch (s_live s), s_live := []\<rparr>))
      | OwnBatch [] \<Rightarrow> Some (s\<lparr>s_owner := OwnLoop\<rparr>)
      | OwnBatch (r # rest) \<Rightarrow> Some ((hand_over 1 (rec_size r) s)\<lparr>s_owner := OwnSend (FromLive rest) r\<rparr>)
      | OwnSend src r \<Rightarrow>
          if lr_seq r \<noteq> s_prev s + 1 then Some (stopped_send SubNotContiguous src r s)
          else (case s_cause s of
                  Some err \<Rightarrow> Some (stopped_send err src r s)
                | None \<Rightarrow> Some (s\<lparr>s_owner := OwnBlocked src r\<rparr>))
      | OwnStopped err \<Rightarrow> Some (finish_sub err s)
      | _ \<Rightarrow> None)"

definition deliver :: "subscription \<Rightarrow> subscription option" where
  "deliver s =
     (case s_owner s of
        OwnBlocked src r \<Rightarrow>
          Some (s\<lparr>s_out := s_out s @ [r], s_prev := lr_seq r, s_owner := after_send src\<rparr>)
      | _ \<Rightarrow> None)"

definition killed :: "subscription \<Rightarrow> subscription option" where
  "killed s =
     (case (s_owner s, s_cause s) of
        (OwnBlocked src r, Some err) \<Rightarrow> Some (stopped_send err src r s)
      | _ \<Rightarrow> None)"

text \<open>The wait for the journal's flush (\<open>headRange.await\<close>): the end of the subscription ends it, or \<open>WaitFlushed\<close>
  answers. An end that came under the wait is what is reported.\<close>

definition wait_killed :: "subscription \<Rightarrow> subscription option" where
  "wait_killed s =
     (case (s_owner s, s_cause s) of
        (OwnWait to' pin, Some err) \<Rightarrow> Some (s\<lparr>s_owner := OwnStopped err\<rparr>)
      | _ \<Rightarrow> None)"

definition head_flushed :: "subscription \<Rightarrow> subscription option" where
  "head_flushed s =
     (case s_owner s of
        OwnWait to' pin \<Rightarrow>
          Some (s\<lparr>s_owner := (case s_cause s of Some err \<Rightarrow> OwnStopped err | None \<Rightarrow> OwnHead to' pin)\<rparr>)
      | _ \<Rightarrow> None)"

definition flush_fail :: "cursor_reason \<Rightarrow> subscription \<Rightarrow> subscription option" where
  "flush_fail reason s =
     (case s_owner s of
        OwnWait to' pin \<Rightarrow>
          Some (s\<lparr>s_owner := OwnStopped (case s_cause s of Some err \<Rightarrow> err | None \<Rightarrow> SubCursor reason)\<rparr>)
      | _ \<Rightarrow> None)"

text \<open>The journal's leg (\<open>headRange.serve\<close>): a record its reader calls back with, its return without an
  error, which its contract gives only once the whole range has been handed over, and its failure.\<close>

definition head_record :: "log_record \<Rightarrow> subscription \<Rightarrow> subscription option" where
  "head_record rec s =
     (case s_owner s of OwnHead to' pin \<Rightarrow> Some (s\<lparr>s_owner := OwnSend (FromHead to' pin) rec\<rparr>) | _ \<Rightarrow> None)"

definition head_end :: "subscription \<Rightarrow> subscription option" where
  "head_end s =
     (case s_owner s of
        OwnHead to' pin \<Rightarrow> if s_prev s = to' then Some (s\<lparr>s_journal := False, s_owner := OwnPin pin\<rparr>) else None
      | _ \<Rightarrow> None)"

definition head_fail :: "cursor_reason \<Rightarrow> subscription \<Rightarrow> subscription option" where
  "head_fail reason s =
     (case s_owner s of OwnHead to' pin \<Rightarrow> Some (s\<lparr>s_owner := OwnStopped (SubCursor reason)\<rparr>) | _ \<Rightarrow> None)"

datatype sub_op = SubStep | SubDeliver | SubKilled | SubWaitKilled | SubFlushed | SubFlushFail cursor_reason | SubHead log_record | SubHeadEnd | SubHeadFail cursor_reason
  | SubDetach

fun sub_step :: "sub_op \<Rightarrow> subscription \<Rightarrow> subscription option" where
  "sub_step SubStep s = own_step s"
| "sub_step SubDeliver s = deliver s"
| "sub_step SubKilled s = killed s"
| "sub_step SubWaitKilled s = wait_killed s"
| "sub_step SubFlushed s = head_flushed s"
| "sub_step (SubFlushFail reason) s = flush_fail reason s"
| "sub_step (SubHead rec) s = head_record rec s"
| "sub_step SubHeadEnd s = head_end s"
| "sub_step (SubHeadFail reason) s = head_fail reason s"
| "sub_step SubDetach s = Some (detach s)"

text \<open>\<open>Rest\<close>, and the error \<open>Err\<close> answers.\<close>

definition rest_of :: "subscription \<Rightarrow> sub_error + log_record list" where
  "rest_of s =
     (if s_err s = None \<or> \<not> s_by_log s then Inl SubNoRest
      else case s_rest_err s of Some e \<Rightarrow> Inl e | None \<Rightarrow> Inr (s_rest s))"

section \<open>What a subscription holds\<close>

fun source_rest :: "source \<Rightarrow> log_record list" where
  "source_rest (FromHead to' pin) = pin"
| "source_rest (FromPin rest) = rest"
| "source_rest (FromLive rest) = rest"

text \<open>The records in the owner's hands and not delivered: all of them, and those still charged to the
  budget.\<close>

definition in_hand :: "subscription \<Rightarrow> log_record list" where
  "in_hand s =
     (case s_owner s of
        OwnWait to' pin \<Rightarrow> pin | OwnHead to' pin \<Rightarrow> pin | OwnPin rest \<Rightarrow> rest | OwnLoop \<Rightarrow> [] | OwnBatch rest \<Rightarrow> rest
      | OwnSend src r \<Rightarrow> (case src of FromHead to' pin \<Rightarrow> pin | _ \<Rightarrow> r # source_rest src)
      | OwnBlocked src r \<Rightarrow> (case src of FromHead to' pin \<Rightarrow> pin | _ \<Rightarrow> r # source_rest src)
      | OwnStopped err \<Rightarrow> (case s_sending s of None \<Rightarrow> [] | Some r \<Rightarrow> [r]) @ s_local s
      | OwnDone \<Rightarrow> [])"

definition charged :: "subscription \<Rightarrow> log_record list" where
  "charged s =
     (case s_owner s of
        OwnWait to' pin \<Rightarrow> pin | OwnHead to' pin \<Rightarrow> pin | OwnPin rest \<Rightarrow> rest | OwnLoop \<Rightarrow> [] | OwnBatch rest \<Rightarrow> rest
      | OwnSend src r \<Rightarrow> source_rest src | OwnBlocked src r \<Rightarrow> source_rest src
      | OwnStopped err \<Rightarrow> s_local s | OwnDone \<Rightarrow> [])"

definition live_phase :: "subscription \<Rightarrow> bool" where
  "live_phase s =
     (case s_owner s of
        OwnBatch rest \<Rightarrow> True
      | OwnSend (FromLive rest) r \<Rightarrow> True
      | OwnBlocked (FromLive rest) r \<Rightarrow> True
      | _ \<Rightarrow> False)"

text \<open>How much of the head is left for the journal: up to which number, if any is.\<close>

definition head_to :: "subscription \<Rightarrow> nat option" where
  "head_to s =
     (case s_owner s of
        OwnWait to' pin \<Rightarrow> Some to'
      | OwnHead to' pin \<Rightarrow> Some to'
      | OwnSend (FromHead to' pin) r \<Rightarrow> Some to'
      | OwnBlocked (FromHead to' pin) r \<Rightarrow> Some to'
      | _ \<Rightarrow> None)"

section \<open>The invariant\<close>

text \<open>\<open>placed H E s\<close>: \<open>H\<close> is the log's history, \<open>E\<close> how much of it the subscription has been offered.
  What was delivered is the history from the start position on, and what is in hand and in the live
  buffer is the rest of it up to \<open>E\<close>.\<close>

definition at_head :: "log_record list \<Rightarrow> nat \<Rightarrow> nat \<Rightarrow> log_record list \<Rightarrow> subscription \<Rightarrow> bool" where
  "at_head H E to' pin s \<longleftrightarrow> s_journal s \<and> s_prev s \<le> to' \<and> to' \<le> E \<and> pin @ s_live s = drop to' (take E H)"

definition past_head :: "log_record list \<Rightarrow> nat \<Rightarrow> log_record list \<Rightarrow> subscription \<Rightarrow> bool" where
  "past_head H E held s \<longleftrightarrow> \<not> s_journal s \<and> held @ s_live s = drop (s_prev s) (take E H)"

definition own_placed :: "log_record list \<Rightarrow> nat \<Rightarrow> subscription \<Rightarrow> bool" where
  "own_placed H E s =
     (case s_owner s of
        OwnWait to' pin \<Rightarrow> at_head H E to' pin s
      | OwnHead to' pin \<Rightarrow> at_head H E to' pin s
      | OwnPin rest \<Rightarrow> past_head H E rest s
      | OwnLoop \<Rightarrow> past_head H E [] s
      | OwnBatch rest \<Rightarrow> past_head H E rest s
      | OwnSend src r \<Rightarrow>
          (case src of
             FromHead to' pin \<Rightarrow> at_head H E to' pin s \<and> r \<in> set H \<and> lr_seq r \<le> to'
           | FromPin rest \<Rightarrow> past_head H E (r # rest) s
           | FromLive rest \<Rightarrow> past_head H E (r # rest) s)
      | OwnBlocked src r \<Rightarrow>
          (case src of
             FromHead to' pin \<Rightarrow> at_head H E to' pin s \<and> r \<in> set H \<and> lr_seq r \<le> to' \<and> lr_seq r = s_prev s + 1
           | FromPin rest \<Rightarrow> past_head H E (r # rest) s
           | FromLive rest \<Rightarrow> past_head H E (r # rest) s)
      | OwnStopped err \<Rightarrow>
          s_journal s \<or> past_head H E ((case s_sending s of None \<Rightarrow> [] | Some r \<Rightarrow> [r]) @ s_local s) s
      | OwnDone \<Rightarrow>
          s_err s \<noteq> None \<and> s_cause s \<noteq> None \<and> s_live s = [] \<and>
          (s_by_log s \<longrightarrow>
             (if s_journal s then s_rest_err s = Some SubRestUnavailable
              else s_rest_err s = None \<and> s_rest s = drop (s_prev s) (take E H))))"

definition placed :: "log_record list \<Rightarrow> nat \<Rightarrow> subscription \<Rightarrow> bool" where
  "placed H E s \<longleftrightarrow> E \<le> length H \<and> s_prev s \<le> E \<and> s_prev s = s_start s + length (s_out s) \<and>
     s_out s = take (length (s_out s)) (drop (s_start s) H) \<and> own_placed H E s \<and>
     (case s_owner s of OwnStopped err \<Rightarrow> True | OwnDone \<Rightarrow> True | _ \<Rightarrow> s_sending s = None \<and> s_local s = [] \<and> s_err s = None)"

definition sub_inv :: "log_record list \<Rightarrow> subscription \<Rightarrow> bool" where
  "sub_inv H s \<longleftrightarrow> (\<exists>E. placed H E s \<and> (s_cause s = None \<or> s_by_log s \<longrightarrow> E = length H))"

lemma contiguous_drop_Cons:
  assumes "contiguous 1 H" and "drop p (take E H) = r # rest"
  shows "lr_seq r = Suc p" and "H ! p = r" and "p < E" and "p < length H" and "rest = drop (Suc p) (take E H)"
proof -
  have l: "p < length (take E H)" using assms(2) by (metis drop_eq_Nil linorder_not_le list.distinct(1))
  then have d: "drop p (take E H) = take E H ! p # drop (Suc p) (take E H)" by (rule Cons_nth_drop_Suc [symmetric])
  from l show "p < E" "p < length H" by simp_all
  with d assms(2) show r: "H ! p = r" "rest = drop (Suc p) (take E H)" by simp_all
  show "lr_seq r = Suc p" using contiguous_nth [OF assms(1) \<open>p < length H\<close>] r(1) by simp
qed

lemma contiguous_member:
  assumes "contiguous 1 H" and "r \<in> set H" and "lr_seq r = Suc p"
  shows "p < length H" and "H ! p = r"
proof -
  obtain i where "i < length H" "H ! i = r" using assms(2) by (auto simp: in_set_conv_nth)
  moreover have "lr_seq (H ! i) = 1 + i" using contiguous_nth [OF assms(1)] \<open>i < length H\<close> by simp
  ultimately show "p < length H" "H ! p = r" using assms(3) by auto
qed

lemma out_snoc:
  assumes "out = take (length out) (drop st H)" and "p = st + length out" and "p < length H"
  shows "out @ [H ! p] = take (length (out @ [H ! p])) (drop st H)"
proof -
  have "length out < length (drop st H)" using assms(2,3) by simp
  then have "take (Suc (length out)) (drop st H) = take (length out) (drop st H) @ [drop st H ! length out]"
    by (rule take_Suc_conv_app_nth)
  moreover have "drop st H ! length out = H ! p" using assms(2,3) by simp
  ultimately show ?thesis using assms(1) by simp
qed

lemmas own_defs = own_placed_def at_head_def past_head_def

lemma stopped_send_simps [simp]:
  "s_cause (stopped_send err src r s) = s_cause s" "s_by_log (stopped_send err src r s) = s_by_log s"
  "s_prev (stopped_send err src r s) = s_prev s" "s_start (stopped_send err src r s) = s_start s"
  "s_out (stopped_send err src r s) = s_out s" "s_live (stopped_send err src r s) = s_live s"
  "s_journal (stopped_send err src r s) = s_journal s" "s_owner (stopped_send err src r s) = OwnStopped err"
  "s_max_items (stopped_send err src r s) = s_max_items s" "s_max_bytes (stopped_send err src r s) = s_max_bytes s"
  "s_bytes (stopped_send err src r s) = s_bytes s" "s_live_items (stopped_send err src r s) = s_live_items s"
  "s_cutoff (stopped_send err src r s) = s_cutoff s"
  by (cases src; simp)+

lemma hand_over_simps [simp]:
  "s_cause (hand_over i b s) = s_cause s" "s_by_log (hand_over i b s) = s_by_log s"
  "s_prev (hand_over i b s) = s_prev s" "s_start (hand_over i b s) = s_start s"
  "s_out (hand_over i b s) = s_out s" "s_live (hand_over i b s) = s_live s"
  "s_journal (hand_over i b s) = s_journal s" "s_owner (hand_over i b s) = s_owner s"
  "s_sending (hand_over i b s) = s_sending s" "s_local (hand_over i b s) = s_local s" "s_err (hand_over i b s) = s_err s"
  "s_max_items (hand_over i b s) = s_max_items s" "s_max_bytes (hand_over i b s) = s_max_bytes s"
  "s_cutoff (hand_over i b s) = s_cutoff s"
  by (simp_all add: hand_over_def)

lemma end_locked_simps [simp]:
  "s_prev (end_locked c s) = s_prev s" "s_start (end_locked c s) = s_start s" "s_by_log (end_locked c s) = s_by_log s"
  "s_out (end_locked c s) = s_out s" "s_live (end_locked c s) = s_live s" "s_err (end_locked c s) = s_err s"
  "s_journal (end_locked c s) = s_journal s" "s_owner (end_locked c s) = s_owner s"
  "s_sending (end_locked c s) = s_sending s" "s_local (end_locked c s) = s_local s"
  "s_max_items (end_locked c s) = s_max_items s" "s_max_bytes (end_locked c s) = s_max_bytes s"
  "s_bytes (end_locked c s) = s_bytes s" "s_live_items (end_locked c s) = s_live_items s"
  "s_cause (end_locked c s) \<noteq> None" "s_rest (end_locked c s) = s_rest s" "s_rest_err (end_locked c s) = s_rest_err s"
  "s_cutoff (end_locked c s) = s_cutoff s" "s_closed (end_locked c s) = s_closed s"
  by (auto simp: end_locked_def)

lemma end_locked_cause [simp]: "\<exists>y. s_cause (end_locked c s) = Some y"
  by (auto simp: end_locked_def)

text \<open>A kept record stays in place, whatever goes on around it.\<close>

lemma placed_cong:
  assumes "placed H E s" and "s_owner s' = s_owner s" and "s_prev s' = s_prev s" and "s_start s' = s_start s" and "s_out s' = s_out s"
    and "s_live s' = s_live s" and "s_journal s' = s_journal s" and "s_sending s' = s_sending s" and "s_local s' = s_local s"
    and "s_err s' = s_err s" and "s_owner s \<noteq> OwnDone"
  shows "placed H E s'"
  using assms by (auto simp: placed_def own_defs split: owner.splits source.splits)

lemma placed_end_locked: "placed H E s \<Longrightarrow> placed H E (end_locked c s)"
  by (auto simp: placed_def own_defs end_locked_def split: owner.splits source.splits)

lemma stopped_placed:
  assumes "placed H E s" and "s_owner s = OwnSend src r \<or> s_owner s = OwnBlocked src r"
  shows "placed H E (stopped_send err src r s)"
  using assms by (cases src) (auto simp: placed_def own_defs)

lemma finish_sub_placed:
  assumes c: "contiguous 1 H" and p: "placed H E s" and o': "s_owner s = OwnStopped err"
  shows "placed H E (finish_sub err s)"
proof -
  define s1 where "s1 = (end_locked err s)\<lparr>s_err := s_cause (end_locked err s)\<rparr>"
  have t: "closing_tail s1 = (if s_journal s then Inl SubRestUnavailable else Inr (drop (s_prev s) (take E H)))"
  proof (cases "s_journal s")
    case True
    then show ?thesis by (simp add: closing_tail_def s1_def)
  next
    case False
    then have "(case s_sending s of None \<Rightarrow> [] | Some r \<Rightarrow> [r]) @ s_local s @ s_live s = drop (s_prev s) (take E H)"
      using p o' by (simp add: placed_def own_defs)
    moreover have "contiguous (1 + s_prev s) (drop (s_prev s) (take E H))"
      by (intro contiguous_drop contiguous_take c)
    ultimately show ?thesis using False by (simp add: closing_tail_def s1_def Let_def)
  qed
  have f: "finish_sub err s = (if s_by_log s1
                then (case closing_tail s1 of
                        Inl e \<Rightarrow> s1\<lparr>s_rest := [], s_rest_err := Some e\<rparr>
                      | Inr tail \<Rightarrow> s1\<lparr>s_rest := tail, s_rest_err := None\<rparr>)
                else s1)\<lparr>s_live := [], s_closed := True, s_owner := OwnDone\<rparr>"
    by (simp only: finish_sub_def s1_def Let_def)
  show ?thesis using p unfolding f t
    by (simp add: placed_def own_placed_def) (simp add: s1_def)
qed

text \<open>Each step of the subscription keeps its place.\<close>

lemma own_step_placed:
  assumes c: "contiguous 1 H" and p: "placed H E s" and st: "own_step s = Some s'"
  shows "placed H E s'"
proof (cases "s_owner s")
  case (OwnStopped err)
  with st finish_sub_placed [OF c p] show ?thesis by (auto simp: own_step_def)
next
  case (OwnSend src r)
  from stopped_placed [OF p] OwnSend have stop: "placed H E (stopped_send err src r s)" for err by simp
  show ?thesis
  proof (cases "lr_seq r \<noteq> s_prev s + 1 \<or> s_cause s \<noteq> None")
    case True
    with st OwnSend stop show ?thesis by (auto simp: own_step_def split: if_splits option.splits)
  next
    case False
    with st OwnSend have "s' = s\<lparr>s_owner := OwnBlocked src r\<rparr>" by (auto simp: own_step_def)
    with p OwnSend False show ?thesis by (cases src) (auto simp: placed_def own_defs)
  qed
next
  case (OwnPin rest)
  with st p show ?thesis by (cases rest) (auto simp: own_step_def placed_def own_defs)
next
  case (OwnBatch rest)
  with st p show ?thesis by (cases rest) (auto simp: own_step_def placed_def own_defs)
next
  case OwnLoop
  with st p show ?thesis by (auto simp: own_step_def placed_def own_defs split: option.splits if_splits)
qed (use st in \<open>auto simp: own_step_def\<close>)

lemma deliver_placed:
  assumes c: "contiguous 1 H" and p: "placed H E s" and st: "deliver s = Some s'"
  shows "placed H E s'"
proof -
  obtain src r where o': "s_owner s = OwnBlocked src r"
    and s': "s' = s\<lparr>s_out := s_out s @ [r], s_prev := lr_seq r, s_owner := after_send src\<rparr>"
    using st by (auto simp: deliver_def split: owner.splits)
  have next': "lr_seq r = Suc (s_prev s) \<and> H ! s_prev s = r \<and> s_prev s < length H \<and> s_prev s < E"
  proof (cases src)
    case (FromHead to' pin)
    with p o' have "r \<in> set H" "lr_seq r = Suc (s_prev s)" "lr_seq r \<le> to'" "to' \<le> E"
      by (auto simp: placed_def own_defs)
    with contiguous_member [OF c] show ?thesis by fastforce
  next
    case (FromPin rest)
    with p o' have "drop (s_prev s) (take E H) = r # rest @ s_live s" by (simp add: placed_def own_defs)
    from contiguous_drop_Cons [OF c this] show ?thesis by simp
  next
    case (FromLive rest)
    with p o' have "drop (s_prev s) (take E H) = r # rest @ s_live s" by (simp add: placed_def own_defs)
    from contiguous_drop_Cons [OF c this] show ?thesis by simp
  qed
  have out: "s_out s @ [r] = take (length (s_out s @ [r])) (drop (s_start s) H)"
    using out_snoc [of "s_out s" "s_start s" H "s_prev s"] p next' by (auto simp: placed_def)
  have own: "own_placed H E s'"
  proof (cases src)
    case (FromHead to' pin)
    with p o' next' show ?thesis by (auto simp: s' placed_def own_defs)
  next
    case (FromPin rest)
    with p o' have "drop (s_prev s) (take E H) = r # rest @ s_live s" by (simp add: placed_def own_defs)
    from contiguous_drop_Cons(5) [OF c this] p o' FromPin next' show ?thesis by (simp add: s' placed_def own_defs)
  next
    case (FromLive rest)
    with p o' have "drop (s_prev s) (take E H) = r # rest @ s_live s" by (simp add: placed_def own_defs)
    from contiguous_drop_Cons(5) [OF c this] p o' FromLive next' show ?thesis by (simp add: s' placed_def own_defs)
  qed
  have e: "s_out s' = s_out s @ [r]" "s_start s' = s_start s" by (simp_all add: s')
  have "s_out s' = take (length (s_out s')) (drop (s_start s') H)" unfolding e by (rule out)
  moreover have "s_prev s' = s_start s' + length (s_out s')" "s_prev s' \<le> E"
    using p next' by (auto simp: placed_def s')
  moreover have "case s_owner s' of OwnStopped err \<Rightarrow> True | OwnDone \<Rightarrow> True
      | _ \<Rightarrow> s_sending s' = None \<and> s_local s' = [] \<and> s_err s' = None"
    using p o' by (cases src) (auto simp: placed_def s')
  ultimately show ?thesis using p own unfolding placed_def by blast
qed

lemma killed_placed:
  assumes p: "placed H E s" and st: "killed s = Some s'"
  shows "placed H E s'"
proof (cases "s_owner s")
  case (OwnBlocked src r)
  with st stopped_placed [OF p] show ?thesis by (auto simp: killed_def split: option.splits)
qed (use st in \<open>auto simp: killed_def\<close>)

lemma head_placed:
  assumes p: "placed H E s"
  shows "r \<in> set H \<Longrightarrow> (\<And>to' pin. s_owner s = OwnHead to' pin \<Longrightarrow> lr_seq r \<le> to') \<Longrightarrow> head_record r s = Some s' \<Longrightarrow> placed H E s'"
    and "head_end s = Some s' \<Longrightarrow> placed H E s'"
    and "head_fail reason s = Some s' \<Longrightarrow> placed H E s'"
  using p by (auto simp: head_record_def head_end_def head_fail_def placed_def own_defs split: owner.splits if_splits)

lemma flush_placed:
  assumes p: "placed H E s"
  shows "head_flushed s = Some s' \<Longrightarrow> placed H E s'" and "flush_fail reason s = Some s' \<Longrightarrow> placed H E s'"
    and "wait_killed s = Some s' \<Longrightarrow> placed H E s'"
proof -
  show "placed H E s'" if "wait_killed s = Some s'"
  proof -
    from that obtain to' pin err where "s_owner s = OwnWait to' pin" "s' = s\<lparr>s_owner := OwnStopped err\<rparr>"
      by (auto simp: wait_killed_def split: owner.splits option.splits)
    with p show ?thesis by (auto simp: placed_def own_defs)
  qed
  show "placed H E s'" if "head_flushed s = Some s'"
  proof -
    from that obtain to' pin where "s_owner s = OwnWait to' pin"
      "s' = s\<lparr>s_owner := (case s_cause s of Some err \<Rightarrow> OwnStopped err | None \<Rightarrow> OwnHead to' pin)\<rparr>"
      by (auto simp: head_flushed_def split: owner.splits)
    with p show ?thesis by (cases "s_cause s") (auto simp: placed_def own_defs)
  qed
  show "placed H E s'" if "flush_fail reason s = Some s'"
  proof -
    from that obtain to' pin err where "s_owner s = OwnWait to' pin" "s' = s\<lparr>s_owner := OwnStopped err\<rparr>"
      by (auto simp: flush_fail_def split: owner.splits)
    with p show ?thesis by (auto simp: placed_def own_defs)
  qed
qed

text \<open>The cause and the close's mark: set once.\<close>

lemma sub_step_cause:
  assumes "sub_step x s = Some s'"
  shows "s_by_log s' = s_by_log s" and "s_cause s \<noteq> None \<Longrightarrow> s_cause s' = s_cause s"
proof -
  have own: "s_by_log s' = s_by_log s \<and> (s_cause s \<noteq> None \<longrightarrow> s_cause s' = s_cause s)" if "own_step s = Some s'"
    using that by (cases "s_owner s")
      (auto simp: own_step_def finish_sub_def Let_def end_locked_def split: list.splits option.splits if_splits sum.splits)
  show "s_by_log s' = s_by_log s" "s_cause s \<noteq> None \<Longrightarrow> s_cause s' = s_cause s"
    using assms own
    by (cases x; auto simp: deliver_def killed_def head_record_def head_end_def head_fail_def head_flushed_def flush_fail_def
        wait_killed_def detach_def end_locked_def
        split: owner.splits option.splits if_splits)+
qed

text \<open>What the journal's reader owes: records of the history, within the range asked for.\<close>

fun sub_op_ok :: "log_record list \<Rightarrow> sub_op \<Rightarrow> subscription \<Rightarrow> bool" where
  "sub_op_ok H (SubHead r) s =
     (r \<in> set H \<and> (case s_owner s of OwnHead to' pin \<Rightarrow> lr_seq r \<le> to' | _ \<Rightarrow> True))"
| "sub_op_ok H _ s = True"

lemma sub_step_placed:
  assumes c: "contiguous 1 H" and p: "placed H E s" and ok: "sub_op_ok H x s" and st: "sub_step x s = Some s'"
  shows "placed H E s'"
proof (cases x)
  case (SubHead r)
  with st ok show ?thesis by (intro head_placed(1) [OF p]) (auto split: owner.splits)
qed (use st own_step_placed [OF c p] deliver_placed [OF c p] killed_placed [OF p] head_placed [OF p] flush_placed [OF p]
      placed_end_locked [OF p] in \<open>auto simp: detach_def\<close>)

lemma sub_step_inv:
  assumes "contiguous 1 H" and "sub_inv H s" and "sub_op_ok H x s" and st: "sub_step x s = Some s'"
  shows "sub_inv H s'"
proof -
  obtain E where p: "placed H E s" and E: "s_cause s = None \<or> s_by_log s \<longrightarrow> E = length H"
    using assms(2) by (auto simp: sub_inv_def)
  from sub_step_placed [OF assms(1) p assms(3) st] have "placed H E s'" .
  moreover have "s_cause s' = None \<or> s_by_log s' \<longrightarrow> E = length H"
    using sub_step_cause [OF st] E by auto
  ultimately show ?thesis by (auto simp: sub_inv_def)
qed

lemma offer_inv:
  assumes c: "contiguous 1 (H @ [r])" and i: "sub_inv H s" and nb: "\<not> s_by_log s"
  shows "sub_inv (H @ [r]) (snd (offer r s))"
proof -
  obtain E where p: "placed H E s" and E: "s_cause s = None \<longrightarrow> E = length H"
    using i by (auto simp: sub_inv_def)
  have grow: "placed (H @ [r]) E s'" if "placed H E s'" for s'
    using that by (auto simp: placed_def own_defs split: owner.splits source.splits)
  show ?thesis
  proof (cases "fst (offer r s) = OfferKept")
    case False
    then have "s_cause (snd (offer r s)) \<noteq> None" "\<not> s_by_log (snd (offer r s))"
      using nb by (auto simp: offer_def split: if_splits)
    moreover have "placed H E (snd (offer r s))"
      using False p placed_end_locked [OF p] by (auto simp: offer_def split: if_splits)
    ultimately show ?thesis using grow unfolding sub_inv_def by (intro exI [of _ E]) auto
  next
    case True
    then have s': "s_cause s = None" "snd (offer r s) = s\<lparr>s_live := s_live s @ [r], s_live_items := s_live_items s + 1,
        s_bytes := s_bytes s + int (rec_size r)\<rparr>"
      by (auto simp: offer_def split: if_splits)
    then have EH: "E = length H" using E by simp
    have "placed (H @ [r]) (length (H @ [r])) (snd (offer r s))"
      using p s' unfolding EH by (auto simp: placed_def own_defs split: owner.splits source.splits)
    then show ?thesis by (auto simp: sub_inv_def)
  qed
qed

lemma closed_by_log_inv:
  assumes "sub_inv H s"
  shows "sub_inv H (closed_by_log s)" and "s_cause (closed_by_log s) \<noteq> None"
proof -
  obtain E where p: "placed H E s" and E: "s_cause s = None \<or> s_by_log s \<longrightarrow> E = length H"
    using assms by (auto simp: sub_inv_def)
  have "placed H E (s\<lparr>s_by_log := True\<rparr>)" if "s_cause s = None"
    using p that by (auto simp: placed_def own_defs split: owner.splits source.splits)
  with p placed_end_locked have "placed H E (closed_by_log s)" by (simp add: closed_by_log_def)
  moreover have "s_cause (closed_by_log s) = None \<or> s_by_log (closed_by_log s) \<longrightarrow> E = length H"
    using E by (auto simp: closed_by_log_def)
  ultimately show "sub_inv H (closed_by_log s)" by (auto simp: sub_inv_def)
  show "s_cause (closed_by_log s) \<noteq> None" by (simp add: closed_by_log_def)
qed

lemma new_subscription_inv:
  assumes c: "contiguous 1 H" and k: "k \<le> length H" and prev: "prev \<le> k"
    and head: "head = (if prev = k then None else Some (k, flushed))"
  shows "sub_inv H (new_subscription mi mb (length H) head (drop k H) pb prev)"
proof -
  have "placed H (length H) (new_subscription mi mb (length H) head (drop k H) pb prev)"
    using assms by (auto simp: placed_def own_defs new_subscription_def)
  then show ?thesis by (auto simp: sub_inv_def)
qed

section \<open>The budget\<close>

definition running :: "subscription \<Rightarrow> bool" where
  "running s = (case s_owner s of OwnStopped err \<Rightarrow> False | OwnDone \<Rightarrow> False | _ \<Rightarrow> True)"

text \<open>What the two counters count while the owner runs, and their bounds, whatever it does.\<close>

definition counted :: "subscription \<Rightarrow> bool" where
  "counted s \<longleftrightarrow> s_bytes s = int (sizes (charged s @ s_live s)) \<and>
     s_live_items s = int ((if live_phase s then length (charged s) else 0) + length (s_live s))"

definition budget :: "subscription \<Rightarrow> bool" where
  "budget s \<longleftrightarrow> s_bytes s \<le> int (s_max_bytes s) \<and> s_live_items s \<le> int (s_max_items s) \<and> (running s \<longrightarrow> counted s)"

lemma budget_stopped:
  "budget s \<Longrightarrow> s_bytes s' = s_bytes s \<Longrightarrow> s_live_items s' = s_live_items s \<Longrightarrow> s_max_bytes s' = s_max_bytes s \<Longrightarrow>
     s_max_items s' = s_max_items s \<Longrightarrow> \<not> running s' \<Longrightarrow> budget s'"
  by (simp add: budget_def)

lemmas budget_defs = budget_def running_def counted_def charged_def live_phase_def

lemma budget_same:
  assumes "budget s" and "s_owner s' = s_owner s" "s_live s' = s_live s" "s_bytes s' = s_bytes s" "s_live_items s' = s_live_items s"
    "s_max_bytes s' = s_max_bytes s" "s_max_items s' = s_max_items s" "s_local s' = s_local s"
  shows "budget s'"
proof -
  have "charged s' = charged s" "live_phase s' = live_phase s" "running s' = running s"
    using assms(2,8) by (cases "s_owner s"; simp add: charged_def live_phase_def running_def)+
  with assms show ?thesis by (simp add: budget_def counted_def)
qed

lemma finish_sub_budget: "budget s \<Longrightarrow> budget (finish_sub err s)"
  by (rule budget_stopped, assumption)
    (auto simp: finish_sub_def Let_def end_locked_def running_def split: sum.split)

lemma own_step_budget:
  assumes "budget s" and st: "own_step s = Some s'"
  shows "budget s'"
proof (cases "s_owner s")
  case (OwnStopped err)
  with assms finish_sub_budget show ?thesis by (auto simp: own_step_def)
next
  case (OwnSend src r)
  have "budget (stopped_send err src r s)" for err
    by (rule budget_stopped [OF assms(1)]) (simp_all add: running_def)
  moreover have "budget (s\<lparr>s_owner := OwnBlocked src r\<rparr>)"
    using assms(1) OwnSend by (cases src) (auto simp: budget_defs)
  ultimately show ?thesis using st OwnSend by (auto simp: own_step_def split: if_splits option.splits)
next
  case (OwnPin rest)
  with assms show ?thesis by (cases rest) (auto simp: own_step_def budget_defs hand_over_def)
next
  case (OwnBatch rest)
  with assms show ?thesis by (cases rest) (auto simp: own_step_def budget_defs hand_over_def)
next
  case OwnLoop
  with assms show ?thesis by (auto simp: own_step_def budget_defs split: option.splits if_splits)
qed (use st in \<open>auto simp: own_step_def\<close>)

lemma sub_step_budget:
  assumes b: "budget s" and st: "sub_step x s = Some s'"
  shows "budget s'"
proof (cases x)
  case SubStep
  with st own_step_budget [OF b] show ?thesis by simp
next
  case SubDeliver
  then obtain src r where "s_owner s = OwnBlocked src r"
    "s' = s\<lparr>s_out := s_out s @ [r], s_prev := lr_seq r, s_owner := after_send src\<rparr>"
    using st by (auto simp: deliver_def split: owner.splits)
  with b show ?thesis by (cases src) (auto simp: budget_defs)
next
  case SubKilled
  with st b show ?thesis
    by (auto simp: killed_def split: owner.splits option.splits intro!: budget_stopped [OF b] simp: running_def)
next
  case (SubHead r)
  with st b show ?thesis by (auto simp: head_record_def budget_defs split: owner.splits)
next
  case SubWaitKilled
  with st b show ?thesis
    by (auto simp: wait_killed_def split: owner.splits option.splits intro!: budget_stopped [OF b] simp: running_def)
next
  case SubFlushed
  then obtain to' pin where "s_owner s = OwnWait to' pin"
    "s' = s\<lparr>s_owner := (case s_cause s of Some err \<Rightarrow> OwnStopped err | None \<Rightarrow> OwnHead to' pin)\<rparr>"
    using st by (auto simp: head_flushed_def split: owner.splits)
  with b show ?thesis by (cases "s_cause s") (auto simp: budget_defs)
next
  case (SubFlushFail reason)
  with st b show ?thesis by (auto simp: flush_fail_def running_def split: owner.splits intro!: budget_stopped [OF b])
next
  case SubHeadEnd
  with st b show ?thesis by (auto simp: head_end_def budget_defs split: owner.splits if_splits)
next
  case (SubHeadFail reason)
  with st b show ?thesis by (auto simp: head_fail_def running_def split: owner.splits intro!: budget_stopped [OF b])
next
  case SubDetach
  with st have "s_owner s' = s_owner s" "s_live s' = s_live s" "s_bytes s' = s_bytes s" "s_live_items s' = s_live_items s"
    "s_max_bytes s' = s_max_bytes s" "s_max_items s' = s_max_items s" "s_local s' = s_local s"
    by (auto simp: detach_def end_locked_def)
  with budget_same [OF b] show ?thesis by simp
qed

lemma offer_budget: "budget s \<Longrightarrow> budget (snd (offer r s))"
  by (auto simp: offer_def budget_defs end_locked_def split: owner.splits source.splits)

lemma closed_by_log_budget: "budget s \<Longrightarrow> budget (closed_by_log s)"
  by (auto simp: closed_by_log_def budget_defs end_locked_def split: owner.splits source.splits)

lemma new_subscription_budget:
  "pb = sizes pinned \<Longrightarrow> pb \<le> mb \<Longrightarrow> budget (new_subscription mi mb n head pinned pb prev)"
  by (auto simp: budget_defs new_subscription_def split: option.split)

text \<open>Who is dropped: exactly a reader whose unsent records and the new one are over its budget.\<close>

lemma offer_drops:
  assumes "budget s" and "running s" and "s_cause s = None"
  shows "fst (offer r s) = OfferDropped \<longleftrightarrow>
    (if live_phase s then length (charged s) else 0) + length (s_live s) \<ge> s_max_items s \<or>
    sizes (charged s @ s_live s @ [r]) > s_max_bytes s"
  using assms by (auto simp: budget_def counted_def offer_def)

end
