(* ===== verification/Event_Log.thy ===== *)
theory Event_Log
  imports Event_Sub Event_Source
begin

text \<open>
  The event log of \<open>internal/agent/eventlog.go\<close>: publishers, the outbox and its drainer, subscriptions and
  the close, interleaved.

  \<^item> \<open>event_log\<close> is the Go struct with its channels as values: the publishing boundary is \<open>g_sem\<close> (who
    holds it), \<open>closed\<close> and \<open>outboxCut\<close> are booleans, the primary is a bounded list. Each goroutine is a
    phase: a publisher (\<open>g_pubs\<close>), the drainer (\<open>g_drain\<close>), the closer (\<open>g_close\<close>), and the owner of each
    subscription (theory \<open>Event_Sub\<close>).
  \<^item> \<open>log_step\<close> is one step of one goroutine, \<open>None\<close> where it would wait. A step is what happens
    inside one hold of a mutex, or one channel operation; a sequence of actions is one interleaving, so
    what holds after every sequence holds for every schedule.
  \<^item> A commit offers the record to the subscriptions one after the other, each under its own mutex;
    here it is one step. No owner reads another's subscription, so no schedule in between differs.
  \<^item> \<open>g_history\<close> is every record committed, in order, \<open>g_read\<close> what the primary's reader took,
    \<open>g_accepted\<close> the batches the outbox took, \<open>g_done\<close> those committed with the number the first event
    of each got, \<open>g_skipped\<close> the numbers the primary refused at close, \<open>g_flushed\<close> what each \<open>Flush\<close>
    was answered. No step depends on them.

  An event is the record built for it, with number 0 until it is committed. The codec, the journal's
  notes, the prompt attempts, the observer and the test hooks are not part of the model.
\<close>

section \<open>State\<close>

record outbox_batch =
  b_recs :: "log_record list"
  b_bytes :: nat
  b_ticket :: "nat option"

datatype holder = HoldPub nat | HoldDrain

datatype pub_phase = PubWaiting | PubHolding | PubSent

record publisher =
  p_rec :: log_record
  p_try :: bool
  p_phase :: pub_phase

text \<open>The drainer: not started, at the top of its loop, holding a batch outside the boundary, offering the
  next event to the primary, having offered one, accounting for a batch, gone.\<close>

datatype drain_phase = DrNone | DrIdle | DrTaken outbox_batch
  | DrHolding outbox_batch "log_record list" nat | DrSent outbox_batch log_record "log_record list" nat
  | DrAccount outbox_batch | DrEnded

datatype close_phase = CloseNot | CloseCut | CloseSignalled | CloseDrained | CloseShut
  | CloseEnding "nat list" | CloseOwners | CloseJournal | CloseDone

datatype flush_answer = FlushNil | FlushClosing | FlushGaveUp

record event_log =
  g_incarnation :: string
  g_max_primary :: nat
  g_no_primary :: bool
  g_next :: nat
  g_ring :: record_ring
  g_subs :: "nat list"
  g_sub :: "nat \<Rightarrow> subscription option"
  g_opened :: nat
  g_primary :: "log_record list"
  g_sem :: "holder option"
  g_closed :: bool
  g_closing :: bool
  g_inflight :: nat
  g_pubs :: "nat \<Rightarrow> publisher option"
  g_outbox :: "outbox_batch list"
  g_outbox_events :: int
  g_outbox_bytes :: int
  g_outbox_max_events :: nat
  g_outbox_max_bytes :: nat
  g_enqueued :: nat
  g_drained :: nat
  g_waiters :: "(nat \<times> nat) list"
  g_cut :: bool
  g_drain :: drain_phase
  g_stopped :: bool
  g_tickets :: "nat \<Rightarrow> nat"
  g_close :: close_phase
  g_dropped_at_close :: nat
  g_subs_dropped :: nat
  g_outbox_skipped :: nat
  g_history :: "log_record list"
  g_read :: "log_record list"
  g_accepted :: "outbox_batch list"
  g_done :: "(outbox_batch \<times> nat) list"
  g_skipped :: "nat list"
  g_flushed :: "nat \<Rightarrow> (nat \<times> flush_answer) option"

definition primaryCap :: nat where "primaryCap = 256"
definition defaultOutboxEvents :: nat where "defaultOutboxEvents = 4096"
definition defaultOutboxBytes :: nat where "defaultOutboxBytes = 8388608"

definition new_event_log :: "string \<Rightarrow> nat \<Rightarrow> nat \<Rightarrow> bool \<Rightarrow> event_log" where
  "new_event_log incarnation ring_events ring_bytes no_primary =
     \<lparr>g_incarnation = incarnation, g_max_primary = primaryCap, g_no_primary = no_primary, g_next = 0,
      g_ring = new_ring ring_events ring_bytes, g_subs = [], g_sub = (\<lambda>_. None), g_opened = 0,
      g_primary = [], g_sem = None, g_closed = False, g_closing = False, g_inflight = 0,
      g_pubs = (\<lambda>_. None), g_outbox = [], g_outbox_events = 0, g_outbox_bytes = 0,
      g_outbox_max_events = defaultOutboxEvents, g_outbox_max_bytes = defaultOutboxBytes,
      g_enqueued = 0, g_drained = 0, g_waiters = [], g_cut = False, g_drain = DrNone, g_stopped = False,
      g_tickets = (\<lambda>_. 0), g_close = CloseNot, g_dropped_at_close = 0, g_subs_dropped = 0,
      g_outbox_skipped = 0, g_history = [], g_read = [], g_accepted = [], g_done = [], g_skipped = [],
      g_flushed = (\<lambda>_. None)\<rparr>"

definition numbered :: "nat \<Rightarrow> log_record \<Rightarrow> log_record" where
  "numbered n r = r\<lparr>lr_seq := n\<rparr>"

section \<open>The commit\<close>

text \<open>The loop over the subscriptions in \<open>commitLocked\<close>: who stays registered, how many were dropped.\<close>

fun offer_all :: "log_record \<Rightarrow> nat list \<Rightarrow> (nat \<Rightarrow> subscription option) \<Rightarrow>
    nat list \<times> nat \<times> (nat \<Rightarrow> subscription option)" where
  "offer_all rec [] subs = ([], 0, subs)"
| "offer_all rec (i # is') subs =
     (case subs i of
        None \<Rightarrow> offer_all rec is' subs
      | Some s \<Rightarrow>
          (let (res, s') = offer rec s;
               (kept, dropped, subs') = offer_all rec is' (subs(i \<mapsto> s'))
           in ((if res = OfferKept then i # kept else kept),
               (if res = OfferDropped then Suc dropped else dropped), subs')))"

definition commit_locked :: "log_record \<Rightarrow> event_log \<Rightarrow> event_log" where
  "commit_locked rec l =
     (let (kept, dropped, subs) = offer_all rec (g_subs l) (g_sub l)
      in l\<lparr>g_next := lr_seq rec, g_ring := ring_push rec (g_ring l), g_subs := kept, g_sub := subs,
           g_subs_dropped := g_subs_dropped l + dropped, g_history := g_history l @ [rec]\<rparr>)"

definition primary_room :: "event_log \<Rightarrow> bool" where
  "primary_room l \<longleftrightarrow> length (g_primary l) < g_max_primary l"

section \<open>Publishers\<close>

text \<open>\<open>leave\<close>, with the return from \<open>Publish\<close>.\<close>

definition leave :: "nat \<Rightarrow> event_log \<Rightarrow> event_log" where
  "leave pid l = l\<lparr>g_pubs := (g_pubs l)(pid := None), g_inflight := g_inflight l - 1\<rparr>"

definition count_drop :: "bool \<Rightarrow> event_log \<Rightarrow> event_log" where
  "count_drop tally l = (if tally then l\<lparr>g_dropped_at_close := g_dropped_at_close l + 1\<rparr> else l)"

text \<open>\<open>Publish\<close> and \<open>TryPublish\<close> up to the wait for the boundary: in the in-flight region, or refused.\<close>

definition pub_enter :: "nat \<Rightarrow> log_record \<Rightarrow> bool \<Rightarrow> event_log \<Rightarrow> event_log option" where
  "pub_enter pid rec try' l =
     (if g_pubs l pid \<noteq> None then None
      else if g_closing l then Some (count_drop True l)
      else Some (l\<lparr>g_inflight := g_inflight l + 1,
                   g_pubs := (g_pubs l)(pid \<mapsto> \<lparr>p_rec = rec, p_try = try', p_phase = PubWaiting\<rparr>)\<rparr>))"

text \<open>The boundary won, and the second look at the cutoff and, but for \<open>TryPublish\<close>, at the session's done.\<close>

definition pub_acquire :: "nat \<Rightarrow> bool \<Rightarrow> event_log \<Rightarrow> event_log option" where
  "pub_acquire pid done' l =
     (case g_pubs l pid of
        Some p \<Rightarrow>
          if p_phase p = PubWaiting \<and> g_sem l = None then
            if g_closed l \<or> done' \<and> \<not> p_try p then Some (leave pid (count_drop True l))
            else Some (l\<lparr>g_sem := Some (HoldPub pid), g_pubs := (g_pubs l)(pid \<mapsto> p\<lparr>p_phase := PubHolding\<rparr>)\<rparr>)
          else None
      | None \<Rightarrow> None)"

text \<open>The send on the primary, and the commit with the release and the return behind it.\<close>

definition pub_send :: "nat \<Rightarrow> event_log \<Rightarrow> event_log option" where
  "pub_send pid l =
     (case g_pubs l pid of
        Some p \<Rightarrow>
          if p_phase p = PubHolding then
            if g_no_primary l then Some (l\<lparr>g_pubs := (g_pubs l)(pid \<mapsto> p\<lparr>p_phase := PubSent\<rparr>)\<rparr>)
            else if primary_room l
            then Some (l\<lparr>g_primary := g_primary l @ [numbered (g_next l + 1) (p_rec p)],
                         g_pubs := (g_pubs l)(pid \<mapsto> p\<lparr>p_phase := PubSent\<rparr>)\<rparr>)
            else None
          else None
      | None \<Rightarrow> None)"

definition pub_commit :: "nat \<Rightarrow> event_log \<Rightarrow> event_log option" where
  "pub_commit pid l =
     (case g_pubs l pid of
        Some p \<Rightarrow>
          if p_phase p = PubSent
          then Some (leave pid ((commit_locked (numbered (g_next l + 1) (p_rec p)) l)\<lparr>g_sem := None\<rparr>))
          else None
      | None \<Rightarrow> None)"

text \<open>The other arms of the two selects: the session's done or the cutoff (counted), the context's end (not
  counted). \<open>TryPublish\<close> gives up only where it would wait, or at the cutoff.\<close>

definition pub_abandon :: "nat \<Rightarrow> bool \<Rightarrow> event_log \<Rightarrow> event_log option" where
  "pub_abandon pid tally l =
     (case g_pubs l pid of
        Some p \<Rightarrow>
          (case p_phase p of
             PubWaiting \<Rightarrow>
               if p_try p \<and> \<not> (if tally then g_closed l else g_sem l \<noteq> None) then None
               else Some (leave pid (count_drop tally l))
           | PubHolding \<Rightarrow>
               if g_no_primary l \<or> p_try p \<and> (tally \<or> primary_room l) then None
               else Some (leave pid ((count_drop tally l)\<lparr>g_sem := None\<rparr>))
           | PubSent \<Rightarrow> None)
      | None \<Rightarrow> None)"

section \<open>The outbox\<close>

definition batch_of :: "log_record list \<Rightarrow> nat option \<Rightarrow> outbox_batch" where
  "batch_of recs ticket = \<lparr>b_recs = recs, b_bytes = sizes recs, b_ticket = ticket\<rparr>"

definition enqueue_batch :: "nat option \<Rightarrow> log_record list \<Rightarrow> event_log \<Rightarrow> event_log" where
  "enqueue_batch ticket recs l =
     (if recs = [] then l
      else if g_cut l then l\<lparr>g_dropped_at_close := g_dropped_at_close l + length recs\<rparr>
      else
        let b = batch_of recs ticket in
        l\<lparr>g_outbox := g_outbox l @ [b], g_outbox_events := g_outbox_events l + int (length recs),
          g_outbox_bytes := g_outbox_bytes l + int (b_bytes b), g_enqueued := g_enqueued l + length recs,
          g_drain := (if g_drain l = DrNone then DrIdle else g_drain l), g_accepted := g_accepted l @ [b]\<rparr>)"

definition outbox_room :: "event_log \<Rightarrow> bool" where
  "outbox_room l \<longleftrightarrow> \<not> g_cut l \<and> g_outbox_events l < int (g_outbox_max_events l) \<and>
     g_outbox_bytes l < int (g_outbox_max_bytes l)"

definition answer_flush :: "nat \<Rightarrow> nat \<Rightarrow> flush_answer \<Rightarrow> event_log \<Rightarrow> event_log" where
  "answer_flush wid target a l = l\<lparr>g_flushed := (g_flushed l)(wid \<mapsto> (target, a))\<rparr>"

definition flush_begin :: "nat \<Rightarrow> event_log \<Rightarrow> event_log option" where
  "flush_begin wid l =
     (if g_flushed l wid \<noteq> None \<or> wid \<in> fst ` set (g_waiters l) then None
      else if g_cut l then Some (answer_flush wid (g_enqueued l) FlushClosing l)
      else if g_drained l \<ge> g_enqueued l then Some (answer_flush wid (g_enqueued l) FlushNil l)
      else Some (l\<lparr>g_waiters := g_waiters l @ [(wid, g_enqueued l)]\<rparr>))"

text \<open>The context or the session's done under a parked \<open>Flush\<close>: a waiter already answered is not listed.\<close>

definition flush_give_up :: "nat \<Rightarrow> event_log \<Rightarrow> event_log option" where
  "flush_give_up wid l =
     (case map_of (g_waiters l) wid of
        None \<Rightarrow> None
      | Some target \<Rightarrow>
          Some (answer_flush wid target FlushGaveUp (l\<lparr>g_waiters := filter (\<lambda>w. fst w \<noteq> wid) (g_waiters l)\<rparr>)))"

definition answer_waiters :: "flush_answer \<Rightarrow> (nat \<times> nat) list \<Rightarrow> event_log \<Rightarrow> event_log" where
  "answer_waiters a ws l = foldl (\<lambda>l (wid, target). answer_flush wid target a l) l ws"

text \<open>\<open>commitBatch\<close> and \<open>endWaiters\<close>.\<close>

definition commit_batch :: "outbox_batch \<Rightarrow> event_log \<Rightarrow> event_log" where
  "commit_batch b l =
     (let l1 = l\<lparr>g_outbox_events := g_outbox_events l - int (length (b_recs b)),
                 g_outbox_bytes := g_outbox_bytes l - int (b_bytes b),
                 g_drained := g_drained l + length (b_recs b)\<rparr>
      in (answer_waiters FlushNil (filter (\<lambda>w. snd w \<le> g_drained l1) (g_waiters l1)) l1)
           \<lparr>g_waiters := filter (\<lambda>w. \<not> snd w \<le> g_drained l1) (g_waiters l1)\<rparr>)"

definition end_waiters :: "event_log \<Rightarrow> event_log" where
  "end_waiters l =
     (answer_waiters FlushClosing (filter (\<lambda>w. \<not> snd w \<le> g_drained l) (g_waiters l))
       (answer_waiters FlushNil (filter (\<lambda>w. snd w \<le> g_drained l) (g_waiters l)) l))\<lparr>g_waiters := []\<rparr>"

text \<open>The drainer's next step. Offering an event to the primary waits only before it has seen the cut.\<close>

definition drain_step :: "event_log \<Rightarrow> event_log option" where
  "drain_step l =
     (case g_drain l of
        DrNone \<Rightarrow> None
      | DrIdle \<Rightarrow>
          (case g_outbox l of
             b # bs \<Rightarrow> Some (l\<lparr>g_outbox := bs, g_drain := DrTaken b\<rparr>)
           | [] \<Rightarrow> if g_cut l then Some ((end_waiters l)\<lparr>g_drain := DrEnded\<rparr>) else None)
      | DrTaken b \<Rightarrow>
          if g_sem l = None
          then Some (l\<lparr>g_sem := Some HoldDrain, g_drain := DrHolding b (b_recs b) (g_next l + 1)\<rparr>) else None
      | DrHolding b (r # rs) first \<Rightarrow>
          (let r' = numbered (g_next l + 1) r in
           if g_no_primary l then Some (l\<lparr>g_drain := DrSent b r' rs first\<rparr>)
           else if primary_room l then Some (l\<lparr>g_primary := g_primary l @ [r'], g_drain := DrSent b r' rs first\<rparr>)
           else if g_stopped l
           then Some (l\<lparr>g_outbox_skipped := g_outbox_skipped l + 1, g_skipped := g_skipped l @ [g_next l + 1],
                        g_drain := DrSent b r' rs first\<rparr>)
           else None)
      | DrSent b r' rs first \<Rightarrow> Some ((commit_locked r' l)\<lparr>g_drain := DrHolding b rs first\<rparr>)
      | DrHolding b [] first \<Rightarrow>
          Some (l\<lparr>g_tickets := (case b_ticket b of None \<Rightarrow> g_tickets l | Some t \<Rightarrow> (g_tickets l)(t := first)),
                  g_sem := None, g_drain := DrAccount b, g_done := g_done l @ [(b, first)]\<rparr>)
      | DrAccount b \<Rightarrow> Some ((commit_batch b l)\<lparr>g_drain := DrIdle\<rparr>)
      | DrEnded \<Rightarrow> None)"

text \<open>The cut's arm of the blocking primary send.\<close>

definition drain_cut :: "event_log \<Rightarrow> event_log option" where
  "drain_cut l =
     (case g_drain l of
        DrHolding b (r # rs) first \<Rightarrow>
          if g_cut l \<and> \<not> g_stopped l \<and> \<not> g_no_primary l then Some (l\<lparr>g_stopped := True\<rparr>) else None
      | _ \<Rightarrow> None)"

section \<open>Subscribe\<close>

text \<open>What the journal says at the cutoff of a range that has left the ring (\<open>headFromFile\<close>): that it serves it,
  its file being written up to a number.\<close>

datatype journal_view = JournalOff | JournalGap | JournalServes nat

definition head_from_file :: "journal_view \<Rightarrow> cursor_reason + nat" where
  "head_from_file j =
     (case j of JournalOff \<Rightarrow> Inl CursorNoJournal | JournalGap \<Rightarrow> Inl CursorJournalGap | JournalServes flushed \<Rightarrow> Inr flushed)"

text \<open>The cutoff of a resume: the head's last number and the journal's boundary if the journal is needed, the pin, its bytes, the
  position to start from; or the refusal.\<close>

definition resume_from ::
  "(string \<times> nat) \<Rightarrow> nat \<Rightarrow> journal_view \<Rightarrow> event_log \<Rightarrow>
     cursor_reason + ((nat \<times> nat) option \<times> log_record list \<times> nat \<times> nat)" where
  "resume_from cursor max_bytes j l =
     (let (inc, after) = cursor; n = g_next l in
      if inc \<noteq> g_incarnation l then Inl CursorForeignIncarnation
      else if after > n then Inl CursorFutureSeq
      else
        let (skip, count, bytes) = ring_after after (g_ring l) in
        if bytes > max_bytes then Inl CursorBacklogTooLarge
        else
          let oldest = (if count > 0 then lr_seq (ring_at (g_ring l) skip) else n + 1);
              pinned = copy_out skip count (g_ring l) in
          if oldest > after + 1
          then (case head_from_file j of
                  Inl reason \<Rightarrow> Inl reason
                | Inr flushed \<Rightarrow> Inr (Some (oldest - 1, flushed), pinned, bytes, after))
          else Inr (None, pinned, bytes, after))"

definition sweep_locked :: "event_log \<Rightarrow> nat list" where
  "sweep_locked l =
     filter (\<lambda>i. case g_sub l i of None \<Rightarrow> False | Some s \<Rightarrow> s_cause s = None) (g_subs l)"

definition register :: "subscription \<Rightarrow> event_log \<Rightarrow> event_log" where
  "register s l =
     l\<lparr>g_subs := sweep_locked l @ [g_opened l], g_sub := (g_sub l)(g_opened l \<mapsto> s), g_opened := g_opened l + 1\<rparr>"

definition subscribe ::
  "nat \<Rightarrow> nat \<Rightarrow> (string \<times> nat) option \<Rightarrow> journal_view \<Rightarrow> event_log \<Rightarrow> event_log option" where
  "subscribe max_items max_bytes cursor j l =
     (if g_sem l \<noteq> None then (if g_closed l then Some l else None)
      else if g_closed l then Some l
      else
        (case cursor of
           None \<Rightarrow> Some (register (new_subscription max_items max_bytes (g_next l) None [] 0 (g_next l)) l)
         | Some c \<Rightarrow>
             (case resume_from c max_bytes j l of
                Inl reason \<Rightarrow> Some l
              | Inr (head, pinned, bytes, prev) \<Rightarrow>
                  Some (register (new_subscription max_items max_bytes (g_next l) head pinned bytes prev) l))))"

section \<open>The close\<close>

definition owners_done :: "event_log \<Rightarrow> bool" where
  "owners_done l \<longleftrightarrow>
     list_all (\<lambda>i. case g_sub l i of None \<Rightarrow> True | Some s \<Rightarrow> s_owner s = OwnDone) [0..<g_opened l]"

text \<open>The closer's next step, phase by phase (\<open>Close\<close>, \<open>awaitInFlight\<close>, \<open>cutoffLocked\<close>). Last it waits for the journal's
  own \<open>Close\<close>, which returns by itself (\<open>journal_closed\<close>).\<close>

definition close_step :: "event_log \<Rightarrow> event_log option" where
  "close_step l =
     (case g_close l of
        CloseNot \<Rightarrow> Some (l\<lparr>g_cut := True, g_close := CloseCut\<rparr>)
      | CloseCut \<Rightarrow> Some (l\<lparr>g_closed := True, g_close := CloseSignalled\<rparr>)
      | CloseSignalled \<Rightarrow>
          if g_drain l = DrNone \<or> g_drain l = DrEnded then Some (l\<lparr>g_close := CloseDrained\<rparr>) else None
      | CloseDrained \<Rightarrow> Some (l\<lparr>g_closing := True, g_close := CloseShut\<rparr>)
      | CloseShut \<Rightarrow>
          if g_inflight l = 0 \<and> g_sem l = None
          then Some (l\<lparr>g_subs := [], g_close := CloseEnding (g_subs l)\<rparr>) else None
      | CloseEnding [] \<Rightarrow> Some (l\<lparr>g_close := CloseOwners\<rparr>)
      | CloseEnding (i # is') \<Rightarrow>
          Some (l\<lparr>g_sub := (g_sub l)(i := map_option closed_by_log (g_sub l i)), g_close := CloseEnding is'\<rparr>)
      | CloseOwners \<Rightarrow> if owners_done l then Some (l\<lparr>g_close := CloseJournal\<rparr>) else None
      | CloseJournal \<Rightarrow> None
      | CloseDone \<Rightarrow> None)"

definition journal_closed :: "event_log \<Rightarrow> event_log option" where
  "journal_closed l = (if g_close l = CloseJournal then Some (l\<lparr>g_close := CloseDone\<rparr>) else None)"

section \<open>Steps\<close>

datatype log_op =
    ActPublish nat log_record bool
  | ActAcquire nat bool
  | ActSend nat
  | ActCommit nat
  | ActAbandon nat bool
  | ActRead
  | ActEnqueue "nat option" "log_record list"
  | ActFlush nat
  | ActFlushGiveUp nat
  | ActDrain
  | ActDrainCut
  | ActSubscribe nat nat "(string \<times> nat) option" journal_view
  | ActSub nat sub_op
  | ActClose
  | ActJournalClosed

definition sub_act :: "nat \<Rightarrow> sub_op \<Rightarrow> event_log \<Rightarrow> event_log option" where
  "sub_act i x l =
     (case g_sub l i of
        None \<Rightarrow> None
      | Some s \<Rightarrow> (case sub_step x s of None \<Rightarrow> None | Some s' \<Rightarrow> Some (l\<lparr>g_sub := (g_sub l)(i \<mapsto> s')\<rparr>)))"

definition read_primary :: "event_log \<Rightarrow> event_log option" where
  "read_primary l =
     (case g_primary l of [] \<Rightarrow> None | r # rs \<Rightarrow> Some (l\<lparr>g_primary := rs, g_read := g_read l @ [r]\<rparr>))"

fun log_step :: "log_op \<Rightarrow> event_log \<Rightarrow> event_log option" where
  "log_step (ActPublish pid rec try') l = pub_enter pid rec try' l"
| "log_step (ActAcquire pid done') l = pub_acquire pid done' l"
| "log_step (ActSend pid) l = pub_send pid l"
| "log_step (ActCommit pid) l = pub_commit pid l"
| "log_step (ActAbandon pid tally) l = pub_abandon pid tally l"
| "log_step ActRead l = read_primary l"
| "log_step (ActEnqueue ticket recs) l = Some (enqueue_batch ticket recs l)"
| "log_step (ActFlush wid) l = flush_begin wid l"
| "log_step (ActFlushGiveUp wid) l = flush_give_up wid l"
| "log_step ActDrain l = drain_step l"
| "log_step ActDrainCut l = drain_cut l"
| "log_step (ActSubscribe items bytes cursor j) l = subscribe items bytes cursor j l"
| "log_step (ActSub i x) l = sub_act i x l"
| "log_step ActClose l = close_step l"
| "log_step ActJournalClosed l = journal_closed l"

text \<open>A schedule: an action that is not enabled is skipped.\<close>

definition log_act :: "log_op \<Rightarrow> event_log \<Rightarrow> event_log" where
  "log_act x l = (case log_step x l of None \<Rightarrow> l | Some l' \<Rightarrow> l')"

text \<open>What the journal's reader owes the log (its contract): the records it calls back with are records
  of the log, within the range.\<close>

fun log_op_ok :: "log_op \<Rightarrow> event_log \<Rightarrow> bool" where
  "log_op_ok (ActSub i x) l = (case g_sub l i of None \<Rightarrow> True | Some s \<Rightarrow> sub_op_ok (g_history l) x s)"
| "log_op_ok _ l = True"

section \<open>The invariant, part by part\<close>

text \<open>Each part is a predicate on the fields it is about, so that a step that leaves them alone leaves it.\<close>

definition pubs_ok :: "nat \<Rightarrow> (nat \<Rightarrow> publisher option) \<Rightarrow> bool" where
  "pubs_ok inflight pubs \<longleftrightarrow> finite (dom pubs) \<and> inflight = card (dom pubs)"

fun drain_holds :: "drain_phase \<Rightarrow> bool" where
  "drain_holds (DrHolding b rs f) = True"
| "drain_holds (DrSent b r rs f) = True"
| "drain_holds _ = False"

definition sem_ok :: "holder option \<Rightarrow> (nat \<Rightarrow> publisher option) \<Rightarrow> drain_phase \<Rightarrow> bool" where
  "sem_ok sem pubs d \<longleftrightarrow>
     (\<forall>pid p. pubs pid = Some p \<longrightarrow> (p_phase p \<noteq> PubWaiting) = (sem = Some (HoldPub pid))) \<and>
     (\<forall>pid. sem = Some (HoldPub pid) \<longrightarrow> pubs pid \<noteq> None) \<and> (sem = Some HoldDrain) = drain_holds d"

fun close_rank :: "close_phase \<Rightarrow> nat" where
  "close_rank CloseNot = 0"
| "close_rank CloseCut = 1"
| "close_rank CloseSignalled = 2"
| "close_rank CloseDrained = 3"
| "close_rank CloseShut = 4"
| "close_rank (CloseEnding is') = 5"
| "close_rank CloseOwners = 6"
| "close_rank CloseJournal = 7"
| "close_rank CloseDone = 8"

definition close_ok :: "close_phase \<Rightarrow> bool \<times> bool \<times> bool \<Rightarrow> drain_phase \<Rightarrow> nat \<Rightarrow> holder option \<Rightarrow> bool \<Rightarrow> bool" where
  "close_ok c flags d inflight sem stopped \<longleftrightarrow>
     (case flags of (cut', closed, closing) \<Rightarrow>
        cut' = (close_rank c \<ge> 1) \<and> closed = (close_rank c \<ge> 2) \<and> closing = (close_rank c \<ge> 4)) \<and>
     (close_rank c \<ge> 3 \<longrightarrow> d = DrNone \<or> d = DrEnded) \<and> (close_rank c \<ge> 5 \<longrightarrow> inflight = 0 \<and> sem = None) \<and>
     (d = DrEnded \<longrightarrow> close_rank c \<ge> 1) \<and> (stopped \<longrightarrow> close_rank c \<ge> 1)"

definition hist_ok :: "log_record list \<Rightarrow> nat \<Rightarrow> record_ring \<Rightarrow> bool" where
  "hist_ok H next' ring \<longleftrightarrow> contiguous 1 H \<and> next' = length H \<and> event_ring.tail_of H ring"

fun ending :: "close_phase \<Rightarrow> nat list" where
  "ending (CloseEnding is') = is'"
| "ending _ = []"

definition subs_ok :: "log_record list \<Rightarrow> nat list \<Rightarrow> (nat \<Rightarrow> subscription option) \<Rightarrow> nat \<Rightarrow> close_phase \<Rightarrow> bool" where
  "subs_ok H ids sub opened c \<longleftrightarrow>
     (\<forall>i s. sub i = Some s \<longrightarrow> sub_inv H s \<and> budget s \<and> (s_cause s = None \<longrightarrow> i \<in> set ids \<union> set (ending c)) \<and>
        (s_by_log s \<longrightarrow> close_rank c \<ge> 5)) \<and>
     (\<forall>i. (sub i \<noteq> None) = (i < opened)) \<and> (\<forall>i \<in> set ids \<union> set (ending c). i < opened) \<and> distinct ids \<and>
     (close_rank c \<ge> 5 \<longrightarrow> ids = [])"

fun in_drain :: "drain_phase \<Rightarrow> outbox_batch list" where
  "in_drain (DrTaken b) = [b]"
| "in_drain (DrHolding b rs f) = [b]"
| "in_drain (DrSent b r rs f) = [b]"
| "in_drain _ = []"

fun in_account :: "drain_phase \<Rightarrow> outbox_batch list" where
  "in_account (DrAccount b) = [b]"
| "in_account _ = []"

abbreviation events_of :: "outbox_batch list \<Rightarrow> nat" where
  "events_of bs \<equiv> sum_list (map (\<lambda>b. length (b_recs b)) bs)"

abbreviation bytes_of :: "outbox_batch list \<Rightarrow> nat" where
  "bytes_of bs \<equiv> sum_list (map b_bytes bs)"

fun numbered_from :: "nat \<Rightarrow> log_record list \<Rightarrow> log_record list" where
  "numbered_from n [] = []"
| "numbered_from n (r # rs) = numbered n r # numbered_from (Suc n) rs"

lemma numbered_from_append: "numbered_from n (xs @ ys) = numbered_from n xs @ numbered_from (n + length xs) ys"
  by (induction xs arbitrary: n) auto

lemma length_numbered_from [simp]: "length (numbered_from n xs) = length xs"
  by (induction xs arbitrary: n) auto

text \<open>A batch in the history from its first number on.\<close>

definition committed_at :: "log_record list \<Rightarrow> outbox_batch \<Rightarrow> nat \<Rightarrow> bool" where
  "committed_at H b first \<longleftrightarrow> (\<exists>H0 H1. H = H0 @ numbered_from first (b_recs b) @ H1 \<and> first = Suc (length H0))"

definition holding_ok :: "log_record list \<Rightarrow> drain_phase \<Rightarrow> bool" where
  "holding_ok H d =
     (case d of
        DrHolding b rs first \<Rightarrow>
          (\<exists>dn H0. b_recs b = dn @ rs \<and> H = H0 @ numbered_from first dn \<and> first = Suc (length H0))
      | DrSent b r' rs first \<Rightarrow>
          (\<exists>dn H0 r. b_recs b = dn @ r # rs \<and> H = H0 @ numbered_from first dn \<and> first = Suc (length H0) \<and>
             r' = numbered (Suc (length H)) r)
      | _ \<Rightarrow> True)"

definition batch_ok ::
  "log_record list \<Rightarrow> drain_phase \<Rightarrow> outbox_batch list \<Rightarrow> outbox_batch list \<Rightarrow> (outbox_batch \<times> nat) list \<Rightarrow> bool" where
  "batch_ok H d outbox accepted dn \<longleftrightarrow>
     accepted = map fst dn @ in_drain d @ outbox \<and> (\<forall>b \<in> set accepted. b_recs b \<noteq> [] \<and> b_bytes b = sizes (b_recs b)) \<and>
     (\<forall>(b, first) \<in> set dn. committed_at H b first) \<and> holding_ok H d \<and> (d = DrNone \<or> d = DrEnded \<longrightarrow> outbox = []) \<and>
     (\<forall>b. d = DrAccount b \<longrightarrow> dn \<noteq> [] \<and> fst (last dn) = b)"

text \<open>The batches committed lie one behind the other, the one in the drainer's hands behind them all.\<close>

definition past :: "(outbox_batch \<times> nat) list \<Rightarrow> nat \<Rightarrow> bool" where
  "past dn n \<longleftrightarrow> (\<forall>x \<in> set dn. snd x + length (b_recs (fst x)) \<le> n)"

definition order_ok :: "drain_phase \<Rightarrow> (outbox_batch \<times> nat) list \<Rightarrow> bool" where
  "order_ok d dn \<longleftrightarrow>
     sorted_wrt (\<lambda>x y. snd x + length (b_recs (fst x)) \<le> snd y) dn \<and>
     (case d of DrHolding b rs first \<Rightarrow> past dn first | DrSent b r rs first \<Rightarrow> past dn first | _ \<Rightarrow> True)"

definition count_ok ::
  "drain_phase \<Rightarrow> outbox_batch list \<Rightarrow> outbox_batch list \<Rightarrow> (outbox_batch \<times> nat) list \<Rightarrow> nat \<times> nat \<times> int \<times> int \<Rightarrow> bool" where
  "count_ok d outbox accepted dn counters \<longleftrightarrow>
     (case counters of (enqueued, drained, events, bytes) \<Rightarrow>
        enqueued = events_of accepted \<and> drained + events_of (in_account d) = events_of (map fst dn) \<and>
        events = int (events_of (in_account d @ in_drain d @ outbox)) \<and> bytes = int (bytes_of (in_account d @ in_drain d @ outbox)))"

definition flush_ok :: "(nat \<times> nat) list \<Rightarrow> (nat \<Rightarrow> (nat \<times> flush_answer) option) \<Rightarrow> nat \<Rightarrow> nat \<Rightarrow> drain_phase \<Rightarrow> bool" where
  "flush_ok waiters flushed drained enqueued d \<longleftrightarrow>
     (\<forall>(wid, target) \<in> set waiters. drained < target \<and> target \<le> enqueued \<and> flushed wid = None) \<and> distinct (map fst waiters) \<and>
     (\<forall>wid target. flushed wid = Some (target, FlushNil) \<longrightarrow> target \<le> drained) \<and> (d = DrEnded \<or> d = DrNone \<longrightarrow> waiters = [])"

definition ticket_ok :: "(nat \<Rightarrow> nat) \<Rightarrow> (outbox_batch \<times> nat) list \<Rightarrow> bool" where
  "ticket_ok tickets dn \<longleftrightarrow>
     (\<forall>t. tickets t = (case filter (\<lambda>x. b_ticket (fst x) = Some t) dn of [] \<Rightarrow> 0 | xs \<Rightarrow> snd (last xs)))"

text \<open>The event on the primary and not committed yet.\<close>

definition pending :: "holder option \<Rightarrow> (nat \<Rightarrow> publisher option) \<Rightarrow> drain_phase \<Rightarrow> nat \<Rightarrow> log_record list" where
  "pending sem pubs d next' =
     (case sem of
        None \<Rightarrow> []
      | Some (HoldPub pid) \<Rightarrow>
          (case pubs pid of
             None \<Rightarrow> []
           | Some p \<Rightarrow> if p_phase p = PubSent then [numbered (Suc next') (p_rec p)] else [])
      | Some HoldDrain \<Rightarrow> (case d of DrSent b r' rs first \<Rightarrow> [r'] | _ \<Rightarrow> []))"

definition prim_ok ::
  "bool \<Rightarrow> nat \<Rightarrow> log_record list \<Rightarrow> log_record list \<Rightarrow> log_record list \<times> log_record list \<Rightarrow> nat list \<Rightarrow> bool \<Rightarrow> bool" where
  "prim_ok no_primary cap H pend prim skipped cut' \<longleftrightarrow>
     (case prim of (rd, buf) \<Rightarrow>
        (if no_primary then rd = [] \<and> buf = []
         else rd @ buf = filter (\<lambda>r. lr_seq r \<notin> set skipped) (H @ pend)) \<and> length buf \<le> cap) \<and>
     (\<forall>n \<in> set skipped. n \<le> length (H @ pend)) \<and> (skipped \<noteq> [] \<longrightarrow> cut')"

definition log_inv :: "event_log \<Rightarrow> bool" where
  "log_inv l \<longleftrightarrow>
     pubs_ok (g_inflight l) (g_pubs l) \<and> sem_ok (g_sem l) (g_pubs l) (g_drain l) \<and>
     close_ok (g_close l) (g_cut l, g_closed l, g_closing l) (g_drain l) (g_inflight l) (g_sem l) (g_stopped l) \<and>
     hist_ok (g_history l) (g_next l) (g_ring l) \<and>
     subs_ok (g_history l) (g_subs l) (g_sub l) (g_opened l) (g_close l) \<and>
     batch_ok (g_history l) (g_drain l) (g_outbox l) (g_accepted l) (g_done l) \<and>
     count_ok (g_drain l) (g_outbox l) (g_accepted l) (g_done l)
       (g_enqueued l, g_drained l, g_outbox_events l, g_outbox_bytes l) \<and>
     flush_ok (g_waiters l) (g_flushed l) (g_drained l) (g_enqueued l) (g_drain l) \<and>
     ticket_ok (g_tickets l) (g_done l) \<and> order_ok (g_drain l) (g_done l) \<and>
     prim_ok (g_no_primary l) (g_max_primary l) (g_history l)
       (pending (g_sem l) (g_pubs l) (g_drain l) (g_next l)) (g_read l, g_primary l) (g_skipped l) (g_cut l)"

lemma log_inv_new: "0 < items \<Longrightarrow> log_inv (new_event_log inc items bytes np)"
  by (simp add: log_inv_def new_event_log_def pubs_ok_def sem_ok_def close_ok_def hist_ok_def subs_ok_def batch_ok_def
      count_ok_def flush_ok_def ticket_ok_def prim_ok_def pending_def holding_ok_def order_ok_def event_ring.tail_of_nil)

section \<open>The commit\<close>

lemma offer_all_eq:
  assumes "distinct ids" and "\<forall>i \<in> set ids. subs i \<noteq> None"
  shows "offer_all rec ids subs =
    (filter (\<lambda>i. fst (offer rec (the (subs i))) = OfferKept) ids,
     length (filter (\<lambda>i. fst (offer rec (the (subs i))) = OfferDropped) ids),
     \<lambda>i. if i \<in> set ids then Some (snd (offer rec (the (subs i)))) else subs i)"
  using assms
proof (induction ids arbitrary: subs)
  case Nil
  then show ?case by simp
next
  case (Cons i ids)
  then obtain s where s: "subs i = Some s" by auto
  define subs1 where "subs1 = subs(i \<mapsto> snd (offer rec s))"
  have same: "subs1 j = subs j" if "j \<in> set ids" for j using that Cons.prems by (auto simp: subs1_def)
  from Cons.IH [of subs1] Cons.prems same have IH: "offer_all rec ids subs1 =
    (filter (\<lambda>i. fst (offer rec (the (subs1 i))) = OfferKept) ids,
     length (filter (\<lambda>i. fst (offer rec (the (subs1 i))) = OfferDropped) ids),
     \<lambda>i. if i \<in> set ids then Some (snd (offer rec (the (subs1 i)))) else subs1 i)"
    by auto
  have f: "filter (\<lambda>i. P (the (subs1 i))) ids = filter (\<lambda>i. P (the (subs i))) ids" for P
    using same by (intro filter_cong) auto
  have m: "(\<lambda>j. if j \<in> set ids then Some (snd (offer rec (the (subs1 j)))) else subs1 j) =
      (\<lambda>j. if j \<in> set (i # ids) then Some (snd (offer rec (the (subs j)))) else subs j)"
    using same Cons.prems s by (auto simp: subs1_def fun_eq_iff)
  show ?case
    using s IH unfolding m f [of "\<lambda>x. fst (offer rec x) = OfferKept"] f [of "\<lambda>x. fst (offer rec x) = OfferDropped"]
    by (simp add: split_beta Let_def subs1_def)
qed

lemma offer_kept: "fst (offer r s) = OfferKept \<longleftrightarrow> s_cause (snd (offer r s)) = None"
  by (auto simp: offer_def end_locked_def)

lemma commit_hist:
  assumes "hist_ok H next' ring" and "lr_seq rec = Suc next'"
  shows "hist_ok (H @ [rec]) (lr_seq rec) (ring_push rec ring)"
  using assms event_ring.tail_of_push [of H ring rec] by (simp add: hist_ok_def contiguous_append)

lemma sub_inv_gone:
  assumes "sub_inv H s" and "s_cause s \<noteq> None" and "\<not> s_by_log s"
  shows "sub_inv (H @ [r]) s"
proof -
  obtain E where p: "placed H E s" using assms(1) by (auto simp: sub_inv_def)
  then have "placed (H @ [r]) E s"
    by (auto simp: placed_def own_defs split: owner.splits source.splits)
  with assms(2,3) show ?thesis by (auto simp: sub_inv_def)
qed

lemma commit_subs:
  assumes s: "subs_ok H ids sub opened c" and cont: "contiguous 1 (H @ [rec])" and c: "close_rank c < 5"
    and o': "offer_all rec ids sub = (kept, dropped, sub')"
  shows "subs_ok (H @ [rec]) kept sub' opened c"
proof -
  have e: "ending c = []" using c by (cases c) auto
  have d: "distinct ids" and lt: "\<And>i. (sub i \<noteq> None) = (i < opened)" "\<And>i. i \<in> set ids \<Longrightarrow> i < opened"
    and all: "\<And>i s. sub i = Some s \<Longrightarrow> sub_inv H s \<and> budget s \<and> (s_cause s = None \<longrightarrow> i \<in> set ids) \<and> \<not> s_by_log s"
    using s c e by (auto simp: subs_ok_def)
  have "\<forall>i \<in> set ids. sub i \<noteq> None" using lt by blast
  from offer_all_eq [OF d this, of rec] o'
  have k: "kept = filter (\<lambda>i. fst (offer rec (the (sub i))) = OfferKept) ids"
    and sub': "sub' = (\<lambda>i. if i \<in> set ids then Some (snd (offer rec (the (sub i)))) else sub i)" by auto
  have "sub_inv (H @ [rec]) s' \<and> budget s' \<and> (s_cause s' = None \<longrightarrow> i \<in> set kept) \<and> \<not> s_by_log s'" if "sub' i = Some s'" for i s'
  proof (cases "i \<in> set ids")
    case True
    then obtain s0 where s0: "sub i = Some s0" using lt by fastforce
    with True that sub' have s': "s' = snd (offer rec s0)" by simp
    have "\<not> s_by_log s'" using all [OF s0] by (auto simp: s' offer_def end_locked_def)
    with offer_inv [OF cont] offer_budget [of s0 rec] all [OF s0] True s0 offer_kept [of rec s0] show ?thesis
      by (auto simp: s' k)
  next
    case False
    with that sub' have s0: "sub i = Some s'" by simp
    with all [OF s0] False sub_inv_gone show ?thesis by blast
  qed
  moreover have "(sub' i \<noteq> None) = (i < opened)" for i using lt by (auto simp: sub')
  moreover have "distinct kept" "\<forall>i \<in> set kept. i < opened" using d lt by (auto simp: k)
  ultimately show ?thesis using e c by (auto simp: subs_ok_def)
qed

section \<open>Each step keeps the invariant\<close>

lemma log_inv_parts:
  assumes "log_inv l"
  shows "pubs_ok (g_inflight l) (g_pubs l)" and "sem_ok (g_sem l) (g_pubs l) (g_drain l)"
    and "close_ok (g_close l) (g_cut l, g_closed l, g_closing l) (g_drain l) (g_inflight l) (g_sem l) (g_stopped l)"
    and "hist_ok (g_history l) (g_next l) (g_ring l)"
    and "subs_ok (g_history l) (g_subs l) (g_sub l) (g_opened l) (g_close l)"
    and "batch_ok (g_history l) (g_drain l) (g_outbox l) (g_accepted l) (g_done l)"
    and "count_ok (g_drain l) (g_outbox l) (g_accepted l) (g_done l)
       (g_enqueued l, g_drained l, g_outbox_events l, g_outbox_bytes l)"
    and "flush_ok (g_waiters l) (g_flushed l) (g_drained l) (g_enqueued l) (g_drain l)"
    and "ticket_ok (g_tickets l) (g_done l)"
    and "prim_ok (g_no_primary l) (g_max_primary l) (g_history l)
       (pending (g_sem l) (g_pubs l) (g_drain l) (g_next l)) (g_read l, g_primary l) (g_skipped l) (g_cut l)"
    and "order_ok (g_drain l) (g_done l)"
  using assms by (simp_all add: log_inv_def)

lemma pubs_enter: "pubs_ok n pubs \<Longrightarrow> pubs pid = None \<Longrightarrow> pubs_ok (Suc n) (pubs(pid \<mapsto> p))"
  by (auto simp: pubs_ok_def domIff)

lemma pubs_phase: "pubs_ok n pubs \<Longrightarrow> pubs pid = Some q \<Longrightarrow> pubs_ok n (pubs(pid \<mapsto> p))"
  by (auto simp: pubs_ok_def domIff insert_absorb)

lemma pubs_leave: "pubs_ok n pubs \<Longrightarrow> pubs pid = Some q \<Longrightarrow> pubs_ok (n - 1) (pubs(pid := None)) \<and> 0 < n"
  by (auto simp: pubs_ok_def domIff card_gt_0_iff)

lemma leave_simps [simp]:
  "g_sem (leave pid l) = g_sem l" "g_drain (leave pid l) = g_drain l" "g_close (leave pid l) = g_close l"
  "g_cut (leave pid l) = g_cut l" "g_closed (leave pid l) = g_closed l" "g_closing (leave pid l) = g_closing l"
  "g_stopped (leave pid l) = g_stopped l" "g_history (leave pid l) = g_history l" "g_next (leave pid l) = g_next l"
  "g_ring (leave pid l) = g_ring l" "g_subs (leave pid l) = g_subs l" "g_sub (leave pid l) = g_sub l"
  "g_opened (leave pid l) = g_opened l" "g_outbox (leave pid l) = g_outbox l" "g_accepted (leave pid l) = g_accepted l"
  "g_done (leave pid l) = g_done l" "g_enqueued (leave pid l) = g_enqueued l" "g_drained (leave pid l) = g_drained l"
  "g_outbox_events (leave pid l) = g_outbox_events l" "g_outbox_bytes (leave pid l) = g_outbox_bytes l"
  "g_waiters (leave pid l) = g_waiters l" "g_flushed (leave pid l) = g_flushed l" "g_tickets (leave pid l) = g_tickets l"
  "g_no_primary (leave pid l) = g_no_primary l" "g_max_primary (leave pid l) = g_max_primary l" "g_read (leave pid l) = g_read l"
  "g_primary (leave pid l) = g_primary l" "g_skipped (leave pid l) = g_skipped l"
  "g_pubs (leave pid l) = (g_pubs l)(pid := None)" "g_inflight (leave pid l) = g_inflight l - 1"
  by (simp_all add: leave_def)

lemma count_drop_simps [simp]:
  "g_sem (count_drop b l) = g_sem l" "g_drain (count_drop b l) = g_drain l" "g_close (count_drop b l) = g_close l"
  "g_cut (count_drop b l) = g_cut l" "g_closed (count_drop b l) = g_closed l" "g_closing (count_drop b l) = g_closing l"
  "g_stopped (count_drop b l) = g_stopped l" "g_history (count_drop b l) = g_history l" "g_next (count_drop b l) = g_next l"
  "g_ring (count_drop b l) = g_ring l" "g_subs (count_drop b l) = g_subs l" "g_sub (count_drop b l) = g_sub l"
  "g_opened (count_drop b l) = g_opened l" "g_outbox (count_drop b l) = g_outbox l" "g_accepted (count_drop b l) = g_accepted l"
  "g_done (count_drop b l) = g_done l" "g_enqueued (count_drop b l) = g_enqueued l" "g_drained (count_drop b l) = g_drained l"
  "g_outbox_events (count_drop b l) = g_outbox_events l" "g_outbox_bytes (count_drop b l) = g_outbox_bytes l"
  "g_waiters (count_drop b l) = g_waiters l" "g_flushed (count_drop b l) = g_flushed l" "g_tickets (count_drop b l) = g_tickets l"
  "g_no_primary (count_drop b l) = g_no_primary l" "g_max_primary (count_drop b l) = g_max_primary l" "g_read (count_drop b l) = g_read l"
  "g_primary (count_drop b l) = g_primary l" "g_skipped (count_drop b l) = g_skipped l"
  "g_pubs (count_drop b l) = g_pubs l" "g_inflight (count_drop b l) = g_inflight l"
  by (simp_all add: count_drop_def)

lemma log_inv_count_drop [simp]: "log_inv (count_drop b l) = log_inv l"
  by (simp add: log_inv_def)

text \<open>A publisher's phase is the boundary's.\<close>

lemma sem_waiting: "sem_ok sem pubs d \<Longrightarrow> pubs pid = None \<or> (\<exists>p. pubs pid = Some p \<and> p_phase p = PubWaiting) \<Longrightarrow> sem \<noteq> Some (HoldPub pid)"
  by (auto simp: sem_ok_def)

lemma sem_holding: "sem_ok sem pubs d \<Longrightarrow> pubs pid = Some p \<Longrightarrow> p_phase p \<noteq> PubWaiting \<Longrightarrow> sem = Some (HoldPub pid)"
  by (auto simp: sem_ok_def)

lemma pending_other: "sem \<noteq> Some (HoldPub pid) \<Longrightarrow> pending sem (pubs(pid := x)) d n = pending sem pubs d n"
  by (auto simp: pending_def split: option.split holder.split)

lemma pub_enter_inv:
  assumes inv: "log_inv l" and st: "pub_enter pid rec try' l = Some l'"
  shows "log_inv l'"
proof (cases "g_closing l")
  case True
  with st inv show ?thesis by (auto simp: pub_enter_def split: if_splits)
next
  case False
  note i = log_inv_parts [OF inv]
  have n: "g_pubs l pid = None"
    and l': "l' = l\<lparr>g_inflight := g_inflight l + 1, g_pubs := (g_pubs l)(pid \<mapsto> \<lparr>p_rec = rec, p_try = try', p_phase = PubWaiting\<rparr>)\<rparr>"
    using st False by (auto simp: pub_enter_def split: if_splits)
  have ns: "g_sem l \<noteq> Some (HoldPub pid)" using sem_waiting [OF i(2)] n by blast
  have "pubs_ok (g_inflight l') (g_pubs l')" using pubs_enter [OF i(1) n] by (simp add: l')
  moreover have "sem_ok (g_sem l') (g_pubs l') (g_drain l')" using i(2) ns by (auto simp: l' sem_ok_def)
  moreover have "close_ok (g_close l') (g_cut l', g_closed l', g_closing l') (g_drain l') (g_inflight l') (g_sem l') (g_stopped l')"
    using i(3) False by (auto simp: l' close_ok_def)
  ultimately show ?thesis using i by (simp add: log_inv_def l' pending_other [OF ns])
qed

lemma pub_leave_inv:
  assumes inv: "log_inv l" and p: "g_pubs l pid = Some p" and ph: "p_phase p \<noteq> PubSent"
  shows "log_inv ((leave pid l)\<lparr>g_sem := (if g_sem l = Some (HoldPub pid) then None else g_sem l)\<rparr>)" (is "log_inv ?l")
proof -
  note i = log_inv_parts [OF inv]
  define sem where "sem = (if g_sem l = Some (HoldPub pid) then None else g_sem l)"
  have "pubs_ok (g_inflight l - 1) ((g_pubs l)(pid := None))" using pubs_leave [OF i(1) p] by simp
  moreover have "sem_ok sem ((g_pubs l)(pid := None)) (g_drain l)" using i(2) by (auto simp: sem_ok_def sem_def) metis
  moreover have "close_ok (g_close l) (g_cut l, g_closed l, g_closing l) (g_drain l) (g_inflight l - 1) sem (g_stopped l)"
    using i(3) by (auto simp: close_ok_def sem_def)
  moreover have "pending sem ((g_pubs l)(pid := None)) (g_drain l) (g_next l) = pending (g_sem l) (g_pubs l) (g_drain l) (g_next l)"
    using p ph by (auto simp: pending_def sem_def split: option.split holder.split)
  ultimately show ?thesis using i by (simp add: log_inv_def sem_def [symmetric])
qed

lemma pub_acquire_inv:
  assumes inv: "log_inv l" and st: "pub_acquire pid done' l = Some l'"
  shows "log_inv l'"
proof -
  note i = log_inv_parts [OF inv]
  obtain p where p: "g_pubs l pid = Some p" "p_phase p = PubWaiting" "g_sem l = None"
    using st by (auto simp: pub_acquire_def split: option.splits if_splits)
  show ?thesis
  proof (cases "g_closed l \<or> done' \<and> \<not> p_try p")
    case True
    with st p have "l' = leave pid (count_drop True l)" by (simp add: pub_acquire_def)
    then have "l' = (leave pid (count_drop True l))\<lparr>g_sem := (if g_sem (count_drop True l) = Some (HoldPub pid) then None else g_sem (count_drop True l))\<rparr>"
      using p by simp
    also have "log_inv \<dots>" by (rule pub_leave_inv [where p = p]) (use inv p(1) in simp_all, simp add: p(2))
    finally show ?thesis .
  next
    case False
    with st p have l': "l' = l\<lparr>g_sem := Some (HoldPub pid), g_pubs := (g_pubs l)(pid \<mapsto> p\<lparr>p_phase := PubHolding\<rparr>)\<rparr>"
      by (simp add: pub_acquire_def)
    have "pubs_ok (g_inflight l') (g_pubs l')" using pubs_phase [OF i(1) p(1)] by (simp add: l')
    moreover have "sem_ok (g_sem l') (g_pubs l') (g_drain l')" using i(2) p by (auto simp: l' sem_ok_def)
    moreover have "close_ok (g_close l') (g_cut l', g_closed l', g_closing l') (g_drain l') (g_inflight l') (g_sem l') (g_stopped l')"
      using i(3) False by (auto simp: l' close_ok_def)
    moreover have "pending (g_sem l') (g_pubs l') (g_drain l') (g_next l') = pending (g_sem l) (g_pubs l) (g_drain l) (g_next l)"
      using p by (simp add: l' pending_def)
    ultimately show ?thesis using i by (simp add: log_inv_def l')
  qed
qed

lemma pub_abandon_inv:
  assumes inv: "log_inv l" and st: "pub_abandon pid tally l = Some l'"
  shows "log_inv l'"
proof -
  note i = log_inv_parts [OF inv]
  obtain p where p: "g_pubs l pid = Some p" "p_phase p \<noteq> PubSent"
    using st by (auto simp: pub_abandon_def split: option.splits pub_phase.splits if_splits)
  have h: "p_phase p = PubHolding \<Longrightarrow> g_sem l = Some (HoldPub pid)" "p_phase p = PubWaiting \<Longrightarrow> g_sem l \<noteq> Some (HoldPub pid)"
    using sem_holding [OF i(2) p(1)] sem_waiting [OF i(2)] p by auto
  have "l' = (leave pid (count_drop tally l))\<lparr>g_sem := (if g_sem (count_drop tally l) = Some (HoldPub pid) then None else g_sem (count_drop tally l))\<rparr>"
    using st p h by (cases "p_phase p") (auto simp: pub_abandon_def leave_def count_drop_def split: if_splits)
  also have "log_inv \<dots>" by (rule pub_leave_inv) (use inv p in simp_all)
  finally show ?thesis .
qed

lemma prim_send:
  assumes "prim_ok False cap H [] (rd, buf) skipped c" and "length buf < cap" and "lr_seq r = Suc (length H)"
  shows "prim_ok False cap H [r] (rd, buf @ [r]) skipped c"
proof -
  have "lr_seq r \<notin> set skipped" using assms by (auto simp: prim_ok_def)
  with assms show ?thesis by (auto simp: prim_ok_def)
qed

lemma prim_pend: "prim_ok True cap H [] prim skipped c \<Longrightarrow> prim_ok True cap H [r] prim skipped c"
  by (auto simp: prim_ok_def)

lemma pub_send_inv:
  assumes inv: "log_inv l" and st: "pub_send pid l = Some l'"
  shows "log_inv l'"
proof -
  note i = log_inv_parts [OF inv]
  obtain p where p: "g_pubs l pid = Some p" "p_phase p = PubHolding"
    using st by (auto simp: pub_send_def split: option.splits if_splits)
  have sem: "g_sem l = Some (HoldPub pid)" using sem_holding [OF i(2) p(1)] p by simp
  define r where "r = numbered (g_next l + 1) (p_rec p)"
  define pubs where "pubs = (g_pubs l)(pid \<mapsto> p\<lparr>p_phase := PubSent\<rparr>)"
  have l': "l' = l\<lparr>g_pubs := pubs, g_primary := (if g_no_primary l then g_primary l else g_primary l @ [r])\<rparr>"
    and room: "g_no_primary l \<or> length (g_primary l) < g_max_primary l"
    using st p by (auto simp: pub_send_def pubs_def r_def primary_room_def split: if_splits)
  have 1: "pubs_ok (g_inflight l) pubs" using pubs_phase [OF i(1) p(1)] by (simp add: pubs_def)
  have 2: "sem_ok (g_sem l) pubs (g_drain l)" using i(2) p sem by (auto simp: pubs_def sem_ok_def)
  have pend: "pending (g_sem l) (g_pubs l) (g_drain l) (g_next l) = []" "pending (g_sem l) pubs (g_drain l) (g_next l) = [r]"
    using p sem by (simp_all add: pending_def pubs_def r_def)
  have n: "lr_seq r = Suc (length (g_history l))" using i(4) by (simp add: r_def numbered_def hist_ok_def)
  have 10: "prim_ok (g_no_primary l) (g_max_primary l) (g_history l) [r] (g_read l, g_primary l') (g_skipped l) (g_cut l)"
    using i(10) prim_send [OF _ _ n] prim_pend room by (cases "g_no_primary l") (auto simp: pend l')
  show ?thesis using i 1 2 10 by (simp add: log_inv_def l' pend)
qed

lemma committed_at_snoc: "committed_at H b f \<Longrightarrow> committed_at (H @ [x]) b f"
  unfolding committed_at_def by (elim exE conjE) (intro exI conjI, auto)

lemma batch_commit_pub:
  "batch_ok H d outbox acc dn \<Longrightarrow> \<not> drain_holds d \<Longrightarrow> batch_ok (H @ [x]) d outbox acc dn"
  by (auto simp: batch_ok_def holding_ok_def committed_at_snoc split: drain_phase.splits)

lemma prim_commit: "prim_ok np cap H [x] prim sk c \<Longrightarrow> prim_ok np cap (H @ [x]) [] prim sk c"
  unfolding prim_ok_def append_Nil2 by assumption

text \<open>The parts a commit is about, for a record that takes the next number.\<close>

lemma commit_parts:
  assumes i: "hist_ok (g_history l) (g_next l) (g_ring l)" "subs_ok (g_history l) (g_subs l) (g_sub l) (g_opened l) (g_close l)"
    and n: "lr_seq r = Suc (g_next l)" and c: "close_rank (g_close l) < 5"
  defines "l' \<equiv> commit_locked r l"
  shows "hist_ok (g_history l @ [r]) (g_next l') (g_ring l')"
    and "subs_ok (g_history l @ [r]) (g_subs l') (g_sub l') (g_opened l') (g_close l')"
    and "g_history l' = g_history l @ [r]"
proof -
  obtain kept dropped sub' where o': "offer_all r (g_subs l) (g_sub l) = (kept, dropped, sub')"
    by (cases "offer_all r (g_subs l) (g_sub l)")
  have l': "l' = l\<lparr>g_next := lr_seq r, g_ring := ring_push r (g_ring l), g_subs := kept, g_sub := sub',
           g_subs_dropped := g_subs_dropped l + dropped, g_history := g_history l @ [r]\<rparr>"
    by (simp add: l'_def commit_locked_def o')
  have h: "hist_ok (g_history l @ [r]) (lr_seq r) (ring_push r (g_ring l))" using commit_hist [OF i(1) n] .
  then show "hist_ok (g_history l @ [r]) (g_next l') (g_ring l')" by (simp add: l')
  have "contiguous 1 (g_history l @ [r])" using h by (simp add: hist_ok_def)
  from commit_subs [OF i(2) this c o'] show "subs_ok (g_history l @ [r]) (g_subs l') (g_sub l') (g_opened l') (g_close l')"
    by (simp add: l')
  show "g_history l' = g_history l @ [r]" by (simp add: l')
qed

lemma commit_frame [simp]:
  "g_sem (commit_locked r l) = g_sem l" "g_drain (commit_locked r l) = g_drain l" "g_close (commit_locked r l) = g_close l"
  "g_cut (commit_locked r l) = g_cut l" "g_closed (commit_locked r l) = g_closed l" "g_closing (commit_locked r l) = g_closing l"
  "g_stopped (commit_locked r l) = g_stopped l" "g_outbox (commit_locked r l) = g_outbox l"
  "g_accepted (commit_locked r l) = g_accepted l" "g_opened (commit_locked r l) = g_opened l"
  "g_done (commit_locked r l) = g_done l" "g_enqueued (commit_locked r l) = g_enqueued l" "g_drained (commit_locked r l) = g_drained l"
  "g_outbox_events (commit_locked r l) = g_outbox_events l" "g_outbox_bytes (commit_locked r l) = g_outbox_bytes l"
  "g_waiters (commit_locked r l) = g_waiters l" "g_flushed (commit_locked r l) = g_flushed l" "g_tickets (commit_locked r l) = g_tickets l"
  "g_no_primary (commit_locked r l) = g_no_primary l" "g_max_primary (commit_locked r l) = g_max_primary l" "g_read (commit_locked r l) = g_read l"
  "g_primary (commit_locked r l) = g_primary l" "g_skipped (commit_locked r l) = g_skipped l"
  "g_pubs (commit_locked r l) = g_pubs l" "g_inflight (commit_locked r l) = g_inflight l"
  "g_incarnation (commit_locked r l) = g_incarnation l"
  by (simp_all add: commit_locked_def split_beta Let_def)

lemma close_running:
  assumes "close_ok c fl d n sem st" and "pubs_ok n pubs" and "pubs pid = Some p"
  shows "close_rank c < 5"
  using assms by (auto simp: close_ok_def pubs_ok_def domIff not_le [symmetric])

lemma pub_commit_inv:
  assumes inv: "log_inv l" and st: "pub_commit pid l = Some l'"
  shows "log_inv l'"
proof -
  note i = log_inv_parts [OF inv]
  obtain p where p: "g_pubs l pid = Some p" "p_phase p = PubSent"
    using st by (auto simp: pub_commit_def split: option.splits if_splits)
  have sem: "g_sem l = Some (HoldPub pid)" using sem_holding [OF i(2) p(1)] p by simp
  define r where "r = numbered (g_next l + 1) (p_rec p)"
  have n: "lr_seq r = Suc (g_next l)" by (simp add: r_def numbered_def)
  have l': "l' = leave pid ((commit_locked r l)\<lparr>g_sem := None\<rparr>)"
    using st p by (simp add: pub_commit_def r_def)
  have c: "close_rank (g_close l) < 5" by (rule close_running [OF i(3) i(1) p(1)])
  note cp = commit_parts [OF i(4,5) n c]
  have 1: "pubs_ok (g_inflight l - 1) ((g_pubs l)(pid := None))" using pubs_leave [OF i(1) p(1)] by simp
  have 2: "sem_ok None ((g_pubs l)(pid := None)) (g_drain l)" using i(2) sem by (auto simp: sem_ok_def)
  have 3: "close_ok (g_close l) (g_cut l, g_closed l, g_closing l) (g_drain l) (g_inflight l - 1) None (g_stopped l)"
    using i(3) by (auto simp: close_ok_def)
  have nd: "\<not> drain_holds (g_drain l)" using i(2) sem by (auto simp: sem_ok_def)
  have pend: "pending (g_sem l) (g_pubs l) (g_drain l) (g_next l) = [r]" using p sem by (simp add: pending_def r_def)
  have pend': "pending None ((g_pubs l)(pid := None)) (g_drain l) m = []" for m by (simp add: pending_def)
  show ?thesis
    using i(6-9,11) i(10) [unfolded pend] 1 2 3 cp batch_commit_pub [OF i(6) nd] prim_commit
    by (simp add: log_inv_def l' pend')
qed

lemma enqueue_inv:
  assumes inv: "log_inv l"
  shows "log_inv (enqueue_batch ticket recs l)"
proof (cases "recs = [] \<or> g_cut l")
  case True
  with inv show ?thesis by (auto simp: enqueue_batch_def log_inv_def)
next
  case False
  note i = log_inv_parts [OF inv]
  define b where "b = batch_of recs ticket"
  define d where "d = (if g_drain l = DrNone then DrIdle else g_drain l)"
  have l': "enqueue_batch ticket recs l = l\<lparr>g_outbox := g_outbox l @ [b], g_outbox_events := g_outbox_events l + int (length recs),
          g_outbox_bytes := g_outbox_bytes l + int (b_bytes b), g_enqueued := g_enqueued l + length recs,
          g_drain := d, g_accepted := g_accepted l @ [b]\<rparr>"
    using False by (simp add: enqueue_batch_def b_def d_def Let_def)
  have nc: "close_rank (g_close l) = 0" "g_drain l \<noteq> DrEnded" using i(3) False by (auto simp: close_ok_def)
  have d: "drain_holds d = drain_holds (g_drain l)" "in_drain d = in_drain (g_drain l)" "in_account d = in_account (g_drain l)"
    "holding_ok H d = holding_ok H (g_drain l)" "order_ok d dn = order_ok (g_drain l) dn" "pending s p d m = pending s p (g_drain l) m" for H s p m dn
    by (auto simp: d_def holding_ok_def order_ok_def pending_def split: option.split holder.split)
  have 2: "sem_ok (g_sem l) (g_pubs l) d" using i(2) d(1) by (simp add: sem_ok_def)
  have 3: "close_ok (g_close l) (g_cut l, g_closed l, g_closing l) d (g_inflight l) (g_sem l) (g_stopped l)"
    using i(3) nc by (auto simp: close_ok_def d_def)
  have 6: "batch_ok (g_history l) d (g_outbox l @ [b]) (g_accepted l @ [b]) (g_done l)"
    using i(6) nc False d by (auto simp: batch_ok_def b_def batch_of_def) (auto simp: d_def split: if_splits)
  have 7: "count_ok d (g_outbox l @ [b]) (g_accepted l @ [b]) (g_done l)
      (g_enqueued l + length recs, g_drained l, g_outbox_events l + int (length recs), g_outbox_bytes l + int (b_bytes b))"
    using i(7) d by (simp add: count_ok_def b_def batch_of_def)
  have 8: "flush_ok (g_waiters l) (g_flushed l) (g_drained l) (g_enqueued l + length recs) d"
    using i(8) by (auto simp: flush_ok_def d_def)
  show ?thesis using i 2 3 6 7 8 by (simp add: log_inv_def l' d)
qed

lemma log_inv_flush:
  assumes "log_inv l" and "flush_ok ws fl (g_drained l) (g_enqueued l) (g_drain l)"
  shows "log_inv (l\<lparr>g_waiters := ws, g_flushed := fl\<rparr>)"
  using assms by (simp add: log_inv_def)

lemma flush_begin_inv:
  assumes inv: "log_inv l" and st: "flush_begin wid l = Some l'"
  shows "log_inv l'"
proof -
  note i = log_inv_parts [OF inv]
  define ws where "ws = (if g_cut l \<or> g_drained l \<ge> g_enqueued l then g_waiters l else g_waiters l @ [(wid, g_enqueued l)])"
  define fl where "fl = (if g_cut l then (g_flushed l)(wid \<mapsto> (g_enqueued l, FlushClosing))
    else if g_drained l \<ge> g_enqueued l then (g_flushed l)(wid \<mapsto> (g_enqueued l, FlushNil)) else g_flushed l)"
  have fresh: "g_flushed l wid = None" "wid \<notin> fst ` set (g_waiters l)" using st by (auto simp: flush_begin_def split: if_splits)
  have l': "l' = l\<lparr>g_waiters := ws, g_flushed := fl\<rparr>"
    using st by (auto simp: flush_begin_def answer_flush_def ws_def fl_def split: if_splits)
  have run: "g_drain l \<noteq> DrNone \<and> g_drain l \<noteq> DrEnded" if "g_drained l < g_enqueued l"
    using i(6,7) that by (auto simp: batch_ok_def count_ok_def)
  have "flush_ok ws fl (g_drained l) (g_enqueued l) (g_drain l)"
    using i(8) fresh run by (auto simp: flush_ok_def ws_def fl_def rev_image_eqI)
  then show ?thesis unfolding l' by (rule log_inv_flush [OF inv])
qed

lemma flush_give_up_inv:
  assumes inv: "log_inv l" and st: "flush_give_up wid l = Some l'"
  shows "log_inv l'"
proof -
  obtain target where l': "l' = l\<lparr>g_waiters := filter (\<lambda>w. fst w \<noteq> wid) (g_waiters l),
      g_flushed := (g_flushed l)(wid \<mapsto> (target, FlushGaveUp))\<rparr>"
    using st by (auto simp: flush_give_up_def answer_flush_def split: option.splits)
  have "distinct (map fst (filter P ws))" if "distinct (map fst ws)" for P and ws :: "(nat \<times> nat) list"
    using that by (induction ws) auto
  then have "flush_ok (filter (\<lambda>w. fst w \<noteq> wid) (g_waiters l)) ((g_flushed l)(wid \<mapsto> (target, FlushGaveUp)))
      (g_drained l) (g_enqueued l) (g_drain l)"
    using log_inv_parts(8) [OF inv] by (auto simp: flush_ok_def)
  then show ?thesis unfolding l' by (rule log_inv_flush [OF inv])
qed

subsection \<open>The drainer\<close>

definition answered :: "flush_answer \<Rightarrow> (nat \<times> nat) list \<Rightarrow> (nat \<Rightarrow> (nat \<times> flush_answer) option) \<Rightarrow>
    nat \<Rightarrow> (nat \<times> flush_answer) option" where
  "answered a ws fl = foldl (\<lambda>f w. f(fst w \<mapsto> (snd w, a))) fl ws"

lemma answer_waiters_eq: "answer_waiters a ws l = l\<lparr>g_flushed := answered a ws (g_flushed l)\<rparr>"
  by (induction ws arbitrary: l) (auto simp: answer_waiters_def answered_def answer_flush_def)

lemma answered_some: "answered a ws fl wid = Some (t, x) \<Longrightarrow> fl wid = Some (t, x) \<or> (wid, t) \<in> set ws \<and> x = a"
proof (induction ws arbitrary: fl)
  case Nil
  then show ?case by (simp add: answered_def)
next
  case (Cons w ws)
  then have "answered a ws (fl(fst w \<mapsto> (snd w, a))) wid = Some (t, x)" by (simp add: answered_def)
  from Cons.IH [OF this] show ?case by (cases w) (auto split: if_splits)
qed

lemma answered_none: "wid \<notin> fst ` set ws \<Longrightarrow> answered a ws fl wid = fl wid"
  by (induction ws arbitrary: fl) (auto simp: answered_def)

lemma drain_running:
  assumes "close_ok c fl d n sem st" and "d \<noteq> DrNone" and "d \<noteq> DrEnded"
  shows "close_rank c < 3"
  using assms by (auto simp: close_ok_def not_le [symmetric])

lemma close_drain:
  assumes "close_ok c fl d n sem st" and "d \<noteq> DrNone" and "d \<noteq> DrEnded" and "d' \<noteq> DrEnded"
  shows "close_ok c fl d' n sem' st"
  using assms drain_running [OF assms(1-3)] by (auto simp: close_ok_def)

lemma sem_quiet: "sem_ok sem pubs d \<Longrightarrow> \<not> drain_holds d \<Longrightarrow> \<not> drain_holds d' \<Longrightarrow> sem_ok sem pubs d'"
  by (simp add: sem_ok_def)

lemma pending_quiet:
  "sem_ok sem pubs d \<Longrightarrow> \<not> drain_holds d \<Longrightarrow> pending sem pubs d' n = pending sem pubs d n"
  by (auto simp: pending_def sem_ok_def split: option.split holder.split)

lemma drain_take_inv:
  assumes inv: "log_inv l" and d: "g_drain l = DrIdle" and o': "g_outbox l = b # bs"
  shows "log_inv (l\<lparr>g_outbox := bs, g_drain := DrTaken b\<rparr>)"
proof -
  note i = log_inv_parts [OF inv]
  have 2: "sem_ok (g_sem l) (g_pubs l) (DrTaken b)" using sem_quiet [OF i(2)] d by simp
  have 3: "close_ok (g_close l) (g_cut l, g_closed l, g_closing l) (DrTaken b) (g_inflight l) (g_sem l) (g_stopped l)"
    by (rule close_drain [OF i(3)]) (simp_all add: d)
  have 6: "batch_ok (g_history l) (DrTaken b) bs (g_accepted l) (g_done l)"
    using i(6) d o' by (simp add: batch_ok_def holding_ok_def)
  have 7: "count_ok (DrTaken b) bs (g_accepted l) (g_done l) (g_enqueued l, g_drained l, g_outbox_events l, g_outbox_bytes l)"
    using i(7) d o' by (simp add: count_ok_def)
  have 8: "flush_ok (g_waiters l) (g_flushed l) (g_drained l) (g_enqueued l) (DrTaken b)"
    using i(8) d by (simp add: flush_ok_def)
  have p: "pending (g_sem l) (g_pubs l) (DrTaken b) (g_next l) = pending (g_sem l) (g_pubs l) (g_drain l) (g_next l)"
    by (rule pending_quiet [OF i(2)]) (simp add: d)
  have 11: "order_ok (DrTaken b) (g_done l)" using i(11) by (simp add: order_ok_def d)
  show ?thesis using i(1,4,5,9,10) 2 3 6 7 8 11 by (simp add: log_inv_def p)
qed

lemma drain_end_inv:
  assumes inv: "log_inv l" and d: "g_drain l = DrIdle" and o': "g_outbox l = []" and c: "g_cut l"
  shows "log_inv ((end_waiters l)\<lparr>g_drain := DrEnded\<rparr>)"
proof -
  note i = log_inv_parts [OF inv]
  define fl where "fl = answered FlushClosing (filter (\<lambda>w. \<not> snd w \<le> g_drained l) (g_waiters l))
      (answered FlushNil (filter (\<lambda>w. snd w \<le> g_drained l) (g_waiters l)) (g_flushed l))"
  have l': "(end_waiters l)\<lparr>g_drain := DrEnded\<rparr> = l\<lparr>g_flushed := fl, g_waiters := [], g_drain := DrEnded\<rparr>"
    by (simp add: end_waiters_def answer_waiters_eq fl_def)
  have 2: "sem_ok (g_sem l) (g_pubs l) DrEnded" using sem_quiet [OF i(2)] d by simp
  have 3: "close_ok (g_close l) (g_cut l, g_closed l, g_closing l) DrEnded (g_inflight l) (g_sem l) (g_stopped l)"
    using i(3) d c by (auto simp: close_ok_def)
  have 6: "batch_ok (g_history l) DrEnded (g_outbox l) (g_accepted l) (g_done l)"
    using i(6) d o' by (simp add: batch_ok_def holding_ok_def)
  have 7: "count_ok DrEnded (g_outbox l) (g_accepted l) (g_done l) (g_enqueued l, g_drained l, g_outbox_events l, g_outbox_bytes l)"
    using i(7) d by (simp add: count_ok_def)
  have 8: "flush_ok [] fl (g_drained l) (g_enqueued l) DrEnded"
    using i(8) by (auto simp: flush_ok_def fl_def dest!: answered_some)
  have p: "pending (g_sem l) (g_pubs l) DrEnded (g_next l) = pending (g_sem l) (g_pubs l) (g_drain l) (g_next l)"
    by (rule pending_quiet [OF i(2)]) (simp add: d)
  have 11: "order_ok DrEnded (g_done l)" using i(11) by (simp add: order_ok_def d)
  show ?thesis unfolding l' using i(1,4,5,9,10) 2 3 6 7 8 11 by (simp add: log_inv_def p)
qed

lemma drain_lock_inv:
  assumes inv: "log_inv l" and d: "g_drain l = DrTaken b" and s: "g_sem l = None"
  shows "log_inv (l\<lparr>g_sem := Some HoldDrain, g_drain := DrHolding b (b_recs b) (g_next l + 1)\<rparr>)"
proof -
  note i = log_inv_parts [OF inv]
  let ?d = "DrHolding b (b_recs b) (g_next l + 1)"
  have 2: "sem_ok (Some HoldDrain) (g_pubs l) ?d" using i(2) s by (simp add: sem_ok_def)
  have 3: "close_ok (g_close l) (g_cut l, g_closed l, g_closing l) ?d (g_inflight l) (Some HoldDrain) (g_stopped l)"
    by (rule close_drain [OF i(3)]) (simp_all add: d)
  have "g_next l = length (g_history l)" using i(4) by (simp add: hist_ok_def)
  then have "holding_ok (g_history l) ?d"
    by (auto simp: holding_ok_def intro!: exI [where x = "[]"])
  then have 6: "batch_ok (g_history l) ?d (g_outbox l) (g_accepted l) (g_done l)"
    using i(6) d by (simp add: batch_ok_def)
  have 7: "count_ok ?d (g_outbox l) (g_accepted l) (g_done l) (g_enqueued l, g_drained l, g_outbox_events l, g_outbox_bytes l)"
    using i(7) d by (simp add: count_ok_def)
  have 8: "flush_ok (g_waiters l) (g_flushed l) (g_drained l) (g_enqueued l) ?d"
    using i(8) d by (simp add: flush_ok_def)
  have p: "pending (g_sem l) (g_pubs l) (g_drain l) (g_next l) = []" "pending (Some HoldDrain) (g_pubs l) ?d (g_next l) = []"
    using s by (simp_all add: pending_def)
  have "past (g_done l) (g_next l + 1)"
    using i(6) \<open>g_next l = length (g_history l)\<close> by (auto simp: past_def batch_ok_def committed_at_def)
  then have 11: "order_ok ?d (g_done l)" using i(11) by (simp add: order_ok_def)
  show ?thesis using i(1,4,5,9) i(10) [unfolded p] 2 3 6 7 8 11 p by (simp add: log_inv_def)
qed

lemma hist_fresh:
  assumes "hist_ok H n ring" and "r \<in> set H"
  shows "lr_seq r \<le> length H"
proof -
  obtain i where "i < length H" "H ! i = r" using assms(2) by (auto simp: in_set_conv_nth)
  moreover have "contiguous 1 H" using assms(1) by (simp add: hist_ok_def)
  ultimately have "lr_seq r = 1 + i" using contiguous_nth by blast
  with \<open>i < length H\<close> show ?thesis by simp
qed

lemma prim_skip:
  assumes h: "hist_ok H n ring" and p: "prim_ok False cap H [] (rd, buf) skipped c'" and c: "c'" and r: "lr_seq r = Suc (length H)"
  shows "prim_ok False cap H [r] (rd, buf) (skipped @ [Suc (length H)]) c'"
proof -
  have "filter (\<lambda>x. lr_seq x \<notin> set (skipped @ [Suc (length H)])) H = filter (\<lambda>x. lr_seq x \<notin> set skipped) H"
    by (rule filter_cong) (use hist_fresh [OF h] in fastforce)+
  with p c r show ?thesis by (auto simp: prim_ok_def)
qed

lemma drain_hold_inv:
  assumes inv: "log_inv l" and d: "g_drain l = DrHolding b (r # rs) first"
    and prim: "prim_ok (g_no_primary l) (g_max_primary l) (g_history l) [numbered (g_next l + 1) r] (g_read l, prim') skip' (g_cut l)"
  shows "log_inv (l\<lparr>g_primary := prim', g_outbox_skipped := k, g_skipped := skip',
    g_drain := DrSent b (numbered (g_next l + 1) r) rs first\<rparr>)"
proof -
  note i = log_inv_parts [OF inv]
  let ?d = "DrSent b (numbered (g_next l + 1) r) rs first"
  have s: "g_sem l = Some HoldDrain" using i(2) d by (simp add: sem_ok_def)
  have n: "g_next l = length (g_history l)" using i(4) by (simp add: hist_ok_def)
  have 2: "sem_ok (g_sem l) (g_pubs l) ?d" using i(2) d by (simp add: sem_ok_def)
  have 3: "close_ok (g_close l) (g_cut l, g_closed l, g_closing l) ?d (g_inflight l) (g_sem l) (g_stopped l)"
    by (rule close_drain [OF i(3)]) (simp_all add: d)
  have "holding_ok (g_history l) ?d" using i(6) d n by (auto simp: batch_ok_def holding_ok_def)
  then have 6: "batch_ok (g_history l) ?d (g_outbox l) (g_accepted l) (g_done l)"
    using i(6) d by (simp add: batch_ok_def)
  have 7: "count_ok ?d (g_outbox l) (g_accepted l) (g_done l) (g_enqueued l, g_drained l, g_outbox_events l, g_outbox_bytes l)"
    using i(7) d by (simp add: count_ok_def)
  have 8: "flush_ok (g_waiters l) (g_flushed l) (g_drained l) (g_enqueued l) ?d"
    using i(8) d by (simp add: flush_ok_def)
  have p: "pending (g_sem l) (g_pubs l) ?d (g_next l) = [numbered (g_next l + 1) r]" using s by (simp add: pending_def)
  have 11: "order_ok ?d (g_done l)" using i(11) d by (simp add: order_ok_def)
  show ?thesis using i(1,4,5,9) 2 3 6 7 8 11 prim by (simp add: log_inv_def p [simplified])
qed

lemma drain_commit_inv:
  assumes inv: "log_inv l" and d: "g_drain l = DrSent b r' rs first"
  shows "log_inv ((commit_locked r' l)\<lparr>g_drain := DrHolding b rs first\<rparr>)"
proof -
  note i = log_inv_parts [OF inv]
  let ?d = "DrHolding b rs first"
  let ?H = "g_history l"
  have s: "g_sem l = Some HoldDrain" using i(2) d by (simp add: sem_ok_def)
  obtain dn H0 r where h: "b_recs b = dn @ r # rs" "?H = H0 @ numbered_from first dn" "first = Suc (length H0)"
    "r' = numbered (Suc (length ?H)) r"
    using i(6) d by (auto simp: batch_ok_def holding_ok_def)
  have n: "lr_seq r' = Suc (g_next l)" using h(4) i(4) by (simp add: numbered_def hist_ok_def)
  have c: "close_rank (g_close l) < 5" using drain_running [OF i(3)] d by simp
  note cp = commit_parts [OF i(4,5) n c]
  have 2: "sem_ok (g_sem l) (g_pubs l) ?d" using i(2) d by (simp add: sem_ok_def)
  have 3: "close_ok (g_close l) (g_cut l, g_closed l, g_closing l) ?d (g_inflight l) (g_sem l) (g_stopped l)"
    by (rule close_drain [OF i(3)]) (simp_all add: d)
  have "numbered_from first (dn @ [r]) = numbered_from first dn @ [r']"
    using h by (simp add: numbered_from_append)
  then have "?H @ [r'] = H0 @ numbered_from first (dn @ [r])" using h(2) by simp
  then have "holding_ok (?H @ [r']) ?d" using h(1,3) by (auto simp: holding_ok_def intro!: exI [where x = "dn @ [r]"])
  then have 6: "batch_ok (?H @ [r']) ?d (g_outbox l) (g_accepted l) (g_done l)"
    using i(6) d by (auto simp: batch_ok_def committed_at_snoc)
  have 7: "count_ok ?d (g_outbox l) (g_accepted l) (g_done l) (g_enqueued l, g_drained l, g_outbox_events l, g_outbox_bytes l)"
    using i(7) d by (simp add: count_ok_def)
  have 8: "flush_ok (g_waiters l) (g_flushed l) (g_drained l) (g_enqueued l) ?d"
    using i(8) d by (simp add: flush_ok_def)
  have p: "pending (g_sem l) (g_pubs l) (g_drain l) (g_next l) = [r']" "\<And>m. pending (g_sem l) (g_pubs l) ?d m = []"
    using s d by (simp_all add: pending_def)
  have 10: "prim_ok (g_no_primary l) (g_max_primary l) (?H @ [r']) [] (g_read l, g_primary l) (g_skipped l) (g_cut l)"
    by (rule prim_commit) (use i(10) in \<open>simp add: p\<close>)
  have 11: "order_ok ?d (g_done l)" using i(11) d by (simp add: order_ok_def)
  show ?thesis using i(1,9) 2 3 6 7 8 10 11 cp by (simp add: log_inv_def p)
qed

lemma last_done: "(case xs @ [x] of [] \<Rightarrow> 0 | ys \<Rightarrow> snd (last ys)) = snd x"
  by (cases xs) auto

lemma drain_release_inv:
  assumes inv: "log_inv l" and d: "g_drain l = DrHolding b [] first"
  shows "log_inv (l\<lparr>g_tickets := (case b_ticket b of None \<Rightarrow> g_tickets l | Some t \<Rightarrow> (g_tickets l)(t := first)),
                  g_sem := None, g_drain := DrAccount b, g_done := g_done l @ [(b, first)]\<rparr>)"
proof -
  note i = log_inv_parts [OF inv]
  have s: "g_sem l = Some HoldDrain" using i(2) d by (simp add: sem_ok_def)
  have 2: "sem_ok None (g_pubs l) (DrAccount b)" using i(2) s by (simp add: sem_ok_def)
  have 3: "close_ok (g_close l) (g_cut l, g_closed l, g_closing l) (DrAccount b) (g_inflight l) None (g_stopped l)"
    by (rule close_drain [OF i(3)]) (simp_all add: d)
  obtain H0 where "g_history l = H0 @ numbered_from first (b_recs b) @ []" "first = Suc (length H0)"
    using i(6) d by (auto simp: batch_ok_def holding_ok_def)
  then have "committed_at (g_history l) b first" unfolding committed_at_def by blast
  then have 6: "batch_ok (g_history l) (DrAccount b) (g_outbox l) (g_accepted l) (g_done l @ [(b, first)])"
    using i(6) d by (auto simp: batch_ok_def holding_ok_def)
  have 7: "count_ok (DrAccount b) (g_outbox l) (g_accepted l) (g_done l @ [(b, first)])
      (g_enqueued l, g_drained l, g_outbox_events l, g_outbox_bytes l)"
    using i(7) d by (simp add: count_ok_def)
  have 8: "flush_ok (g_waiters l) (g_flushed l) (g_drained l) (g_enqueued l) (DrAccount b)"
    using i(8) d by (simp add: flush_ok_def)
  have 9: "ticket_ok (case b_ticket b of None \<Rightarrow> g_tickets l | Some t \<Rightarrow> (g_tickets l)(t := first)) (g_done l @ [(b, first)])"
    using i(9) by (simp add: ticket_ok_def last_done split: option.split)
  have p: "pending (g_sem l) (g_pubs l) (g_drain l) (g_next l) = []" "pending None (g_pubs l) (DrAccount b) (g_next l) = []"
    using s d by (simp_all add: pending_def)
  have 11: "order_ok (DrAccount b) (g_done l @ [(b, first)])"
    using i(11) d by (auto simp: order_ok_def past_def sorted_wrt_append)
  show ?thesis using i(1,4,5) i(10) 2 3 6 7 8 9 11 by (simp add: log_inv_def p)
qed

lemma drain_account_inv:
  assumes inv: "log_inv l" and d: "g_drain l = DrAccount b"
  shows "log_inv ((commit_batch b l)\<lparr>g_drain := DrIdle\<rparr>)"
proof -
  note i = log_inv_parts [OF inv]
  define n where "n = g_drained l + length (b_recs b)"
  define fl where "fl = answered FlushNil (filter (\<lambda>w. snd w \<le> n) (g_waiters l)) (g_flushed l)"
  have l': "(commit_batch b l)\<lparr>g_drain := DrIdle\<rparr> =
    l\<lparr>g_outbox_events := g_outbox_events l - int (length (b_recs b)), g_outbox_bytes := g_outbox_bytes l - int (b_bytes b),
      g_drained := n, g_flushed := fl, g_waiters := filter (\<lambda>w. \<not> snd w \<le> n) (g_waiters l), g_drain := DrIdle\<rparr>"
    by (simp add: commit_batch_def answer_waiters_eq fl_def n_def Let_def)
  have 2: "sem_ok (g_sem l) (g_pubs l) DrIdle" using sem_quiet [OF i(2)] d by simp
  have 3: "close_ok (g_close l) (g_cut l, g_closed l, g_closing l) DrIdle (g_inflight l) (g_sem l) (g_stopped l)"
    by (rule close_drain [OF i(3)]) (simp_all add: d)
  have 6: "batch_ok (g_history l) DrIdle (g_outbox l) (g_accepted l) (g_done l)"
    using i(6) d by (simp add: batch_ok_def holding_ok_def)
  have 7: "count_ok DrIdle (g_outbox l) (g_accepted l) (g_done l) (g_enqueued l, n,
      g_outbox_events l - int (length (b_recs b)), g_outbox_bytes l - int (b_bytes b))"
    using i(7) d by (simp add: count_ok_def n_def)
  have dist: "distinct (map fst (filter P ws))" if "distinct (map fst ws)" for P and ws :: "(nat \<times> nat) list"
    using that by (induction ws) auto
  have other: "fl wid = None" if w: "(wid, t) \<in> set (g_waiters l)" "\<not> t \<le> n" for wid t
  proof -
    have "wid \<notin> fst ` set (filter (\<lambda>w. snd w \<le> n) (g_waiters l))"
      using i(8) w by (auto simp: flush_ok_def) (metis eq_key_imp_eq_value)
    from answered_none [OF this] show ?thesis using i(8) w by (auto simp: flush_ok_def fl_def)
  qed
  have nil: "t \<le> n" if "fl wid = Some (t, FlushNil)" for wid t
    using answered_some [OF that [unfolded fl_def]]
  proof
    assume "g_flushed l wid = Some (t, FlushNil)"
    then have "t \<le> g_drained l" using i(8) by (simp add: flush_ok_def)
    then show ?thesis by (simp add: n_def)
  qed simp
  have 8: "flush_ok (filter (\<lambda>w. \<not> snd w \<le> n) (g_waiters l)) fl n (g_enqueued l) DrIdle"
    unfolding flush_ok_def using i(8) other dist nil by (auto simp: flush_ok_def)
  have p: "pending (g_sem l) (g_pubs l) DrIdle (g_next l) = pending (g_sem l) (g_pubs l) (g_drain l) (g_next l)"
    by (rule pending_quiet [OF i(2)]) (simp add: d)
  have 11: "order_ok DrIdle (g_done l)" using i(11) by (simp add: order_ok_def d)
  show ?thesis unfolding l' using i(1,4,5,9,10) 2 3 6 7 8 11 by (simp add: log_inv_def p)
qed

lemma drain_step_inv:
  assumes inv: "log_inv l" and st: "drain_step l = Some l'"
  shows "log_inv l'"
proof (cases "g_drain l")
  case DrIdle
  show ?thesis
  proof (cases "g_outbox l")
    case Nil
    with DrIdle st have "g_cut l" "l' = (end_waiters l)\<lparr>g_drain := DrEnded\<rparr>"
      by (auto simp: drain_step_def split: if_splits)
    with drain_end_inv [OF inv DrIdle Nil] show ?thesis by simp
  next
    case (Cons b bs)
    with DrIdle st drain_take_inv [OF inv DrIdle Cons] show ?thesis by (auto simp: drain_step_def)
  qed
next
  case (DrTaken b)
  with st drain_lock_inv [OF inv DrTaken] show ?thesis by (auto simp: drain_step_def split: if_splits)
next
  case (DrHolding b todo first)
  show ?thesis
  proof (cases todo)
    case Nil
    with DrHolding st drain_release_inv [OF inv] show ?thesis by (auto simp: drain_step_def)
  next
    case (Cons r rs)
    with DrHolding have d: "g_drain l = DrHolding b (r # rs) first" by simp
    note i = log_inv_parts [OF inv]
    let ?r = "numbered (g_next l + 1) r"
    have n: "lr_seq ?r = Suc (length (g_history l))" "g_next l = length (g_history l)"
      using i(4) by (simp_all add: numbered_def hist_ok_def)
    have "g_sem l = Some HoldDrain" using i(2) d by (simp add: sem_ok_def)
    then have "pending (g_sem l) (g_pubs l) (g_drain l) (g_next l) = []" using d by (simp add: pending_def)
    note p = i(10) [unfolded this]
    consider (off) "g_no_primary l" | (room) "\<not> g_no_primary l" "primary_room l"
      | (full) "\<not> g_no_primary l" "\<not> primary_room l" "g_stopped l"
      using st d by (auto simp: drain_step_def Let_def split: if_splits)
    then show ?thesis
    proof cases
      case off
      with st d have l': "l' = l\<lparr>g_primary := g_primary l, g_outbox_skipped := g_outbox_skipped l,
        g_skipped := g_skipped l, g_drain := DrSent b ?r rs first\<rparr>" by (simp add: drain_step_def Let_def)
      show ?thesis unfolding l' by (rule drain_hold_inv [OF inv d]) (use p off prim_pend in simp)
    next
      case room
      with st d have l': "l' = l\<lparr>g_primary := g_primary l @ [?r], g_outbox_skipped := g_outbox_skipped l,
        g_skipped := g_skipped l, g_drain := DrSent b ?r rs first\<rparr>" by (simp add: drain_step_def Let_def)
      show ?thesis unfolding l'
        by (rule drain_hold_inv [OF inv d]) (use p room prim_send [OF _ _ n(1)] in \<open>simp add: primary_room_def\<close>)
    next
      case full
      with st d have l': "l' = l\<lparr>g_primary := g_primary l, g_outbox_skipped := g_outbox_skipped l + 1,
        g_skipped := g_skipped l @ [g_next l + 1], g_drain := DrSent b ?r rs first\<rparr>" by (simp add: drain_step_def Let_def)
      have "g_cut l" using i(3) full by (auto simp: close_ok_def)
      then show ?thesis unfolding l'
        by (intro drain_hold_inv [OF inv d]) (use p full prim_skip [OF i(4) _ _ n(1)] n(2) in simp)
    qed
  qed
next
  case (DrSent b r rs first)
  with st drain_commit_inv [OF inv DrSent] show ?thesis by (simp add: drain_step_def)
next
  case (DrAccount b)
  with st drain_account_inv [OF inv DrAccount] show ?thesis by (simp add: drain_step_def)
qed (use st in \<open>simp_all add: drain_step_def\<close>)

lemma drain_cut_inv:
  assumes inv: "log_inv l" and st: "drain_cut l = Some l'"
  shows "log_inv l'"
proof -
  have l': "l' = l\<lparr>g_stopped := True\<rparr>" and c: "g_cut l"
    using st by (auto simp: drain_cut_def split: drain_phase.splits list.splits if_splits)
  have "close_ok (g_close l) (g_cut l, g_closed l, g_closing l) (g_drain l) (g_inflight l) (g_sem l) True"
    using log_inv_parts(3) [OF inv] c by (auto simp: close_ok_def)
  with log_inv_parts [OF inv] show ?thesis by (simp add: log_inv_def l')
qed

lemma read_primary_inv:
  assumes inv: "log_inv l" and st: "read_primary l = Some l'"
  shows "log_inv l'"
proof -
  obtain r rs where p: "g_primary l = r # rs" and l': "l' = l\<lparr>g_primary := rs, g_read := g_read l @ [r]\<rparr>"
    using st by (auto simp: read_primary_def split: list.splits)
  have "prim_ok (g_no_primary l) (g_max_primary l) (g_history l)
       (pending (g_sem l) (g_pubs l) (g_drain l) (g_next l)) (g_read l @ [r], rs) (g_skipped l) (g_cut l)"
    using log_inv_parts(10) [OF inv] p by (auto simp: prim_ok_def split: if_splits)
  with log_inv_parts [OF inv] show ?thesis by (simp add: log_inv_def l')
qed

subsection \<open>Subscriptions and the close\<close>

lemma register_subs:
  assumes s: "subs_ok H (g_subs l) (g_sub l) (g_opened l) c" and c: "close_rank c < 5"
    and n: "sub_inv H s" "budget s" "\<not> s_by_log s"
  shows "subs_ok H (g_subs (register s l)) (g_sub (register s l)) (g_opened (register s l)) c"
proof -
  have e: "ending c = []" using c by (cases c) auto
  have k: "set (sweep_locked l) \<subseteq> set (g_subs l)" "distinct (sweep_locked l)" using s by (auto simp: sweep_locked_def subs_ok_def)
  have keep: "i \<in> set (sweep_locked l)" if "g_sub l i = Some t" "s_cause t = None" for i t
    using s e that by (auto simp: subs_ok_def sweep_locked_def)
  have lt: "i < g_opened l" if "i \<in> set (g_subs l)" for i using s that by (simp add: subs_ok_def)
  show ?thesis using s n c e k keep lt by (auto simp: subs_ok_def register_def less_Suc_eq)
qed

lemma resume_inv:
  assumes h: "hist_ok (g_history l) (g_next l) (g_ring l)"
    and r: "resume_from cursor max_bytes j l = Inr (head, pinned, bytes, prev)"
  shows "sub_inv (g_history l) (new_subscription mi mb (g_next l) head pinned bytes prev)"
    and "bytes = sizes pinned" and "bytes \<le> max_bytes"
proof -
  let ?H = "g_history l"
  have n: "g_next l = length ?H" and t: "event_ring.tail_of ?H (g_ring l)" and c: "contiguous 1 ?H"
    using h by (simp_all add: hist_ok_def)
  obtain inc after where cur: "cursor = (inc, after)" by (cases cursor)
  obtain skip count by' where a: "ring_after after (g_ring l) = (skip, count, by')" by (cases "ring_after after (g_ring l)")
  have le: "after \<le> length ?H" and prev: "prev = after" and pin: "pinned = copy_out skip count (g_ring l)" and by': "bytes = by'"
    and small: "bytes \<le> max_bytes"
    using r n by (auto simp: resume_from_def cur a Let_def split: if_splits sum.splits)
  obtain k where k: "after \<le> k" "k \<le> length ?H" "copy_out skip count (g_ring l) = drop k ?H" "by' = sizes (drop k ?H)"
    "count = length ?H - k"
    using event_ring.replay_tail [OF t a le] by blast
  have "lr_seq (ring_at (g_ring l) skip) = Suc k" if "0 < count"
  proof -
    have "copy_out skip count (g_ring l) ! 0 = ring_at (g_ring l) skip" using that by (simp add: copy_out_def)
    moreover have "drop k ?H ! 0 = ?H ! k" using that k(5) by simp
    ultimately have "ring_at (g_ring l) skip = ?H ! k" using k(3) by simp
    then show ?thesis using contiguous_nth [OF c, of k] that k(5) by simp
  qed
  then obtain flushed where "head = (if after = k then None else Some (k, flushed))"
    using r n k(1,2,5) that by (cases "head_from_file j") (auto simp: resume_from_def cur a Let_def split: if_splits)
  from new_subscription_inv [OF c k(2,1) this, of mi mb bytes]
  show "sub_inv ?H (new_subscription mi mb (g_next l) head pinned bytes prev)" by (simp add: n prev pin k(3))
  show "bytes = sizes pinned" "bytes \<le> max_bytes" using pin k(3,4) by' small by simp_all
qed

lemma register_inv:
  assumes inv: "log_inv l" and c: "close_rank (g_close l) < 5" and n: "sub_inv (g_history l) s" "budget s" "\<not> s_by_log s"
  shows "log_inv (register s l)"
proof -
  note i = log_inv_parts [OF inv]
  have c': "close_rank (g_close (register s l)) < 5" using c by (simp add: register_def)
  have "subs_ok (g_history l) (g_subs (register s l)) (g_sub (register s l)) (g_opened (register s l)) (g_close l)"
    by (rule register_subs [OF i(5) c n])
  with i show ?thesis by (simp add: log_inv_def register_def)
qed

lemma subscribe_inv:
  assumes inv: "log_inv l" and st: "subscribe mi mb cursor j l = Some l'"
  shows "log_inv l'"
proof (cases "g_closed l")
  case True
  with st inv show ?thesis by (auto simp: subscribe_def split: if_splits)
next
  case False
  note i = log_inv_parts [OF inv]
  have c: "close_rank (g_close l) < 5" using i(3) False by (simp add: close_ok_def)
  have n: "g_next l = length (g_history l)" and cont: "contiguous 1 (g_history l)" using i(4) by (simp_all add: hist_ok_def)
  show ?thesis
  proof (cases cursor)
    case None
    with st False have l': "l' = register (new_subscription mi mb (g_next l) None [] 0 (g_next l)) l"
      by (auto simp: subscribe_def split: if_splits)
    have "sub_inv (g_history l) (new_subscription mi mb (g_next l) None [] 0 (g_next l))"
      using new_subscription_inv [OF cont order_refl order_refl refl, of mi mb 0] by (simp add: n)
    moreover have "budget (new_subscription mi mb (g_next l) None [] 0 (g_next l))"
      by (rule new_subscription_budget) simp_all
    ultimately show ?thesis unfolding l' by (intro register_inv [OF inv c]) (simp_all add: new_subscription_def)
  next
    case (Some cu)
    show ?thesis
    proof (cases "resume_from cu mb j l")
      case (Inl reason)
      with st Some False inv show ?thesis by (auto simp: subscribe_def split: if_splits)
    next
      case (Inr x)
      obtain head pinned bytes prev where x: "x = (head, pinned, bytes, prev)" by (cases x)
      with st Some False Inr have l': "l' = register (new_subscription mi mb (g_next l) head pinned bytes prev) l"
        by (auto simp: subscribe_def split: if_splits)
      note r = resume_inv [OF i(4) Inr [unfolded x]]
      show ?thesis unfolding l'
        by (rule register_inv [OF inv c r(1) new_subscription_budget [OF r(2,3)]]) (simp add: new_subscription_def)
    qed
  qed
qed

lemma sub_act_inv:
  assumes inv: "log_inv l" and ok: "log_op_ok (ActSub k x) l" and st: "sub_act k x l = Some l'"
  shows "log_inv l'"
proof -
  note i = log_inv_parts [OF inv]
  obtain s s' where s: "g_sub l k = Some s" and s': "sub_step x s = Some s'" and l': "l' = l\<lparr>g_sub := (g_sub l)(k \<mapsto> s')\<rparr>"
    using st by (auto simp: sub_act_def split: option.splits)
  have cont: "contiguous 1 (g_history l)" using i(4) by (simp add: hist_ok_def)
  have o': "sub_op_ok (g_history l) x s" using ok s by simp
  have si: "sub_inv (g_history l) s" "budget s" and reg: "s_cause s = None \<longrightarrow> k \<in> set (g_subs l) \<union> set (ending (g_close l))"
    and by_log: "s_by_log s \<longrightarrow> close_rank (g_close l) \<ge> 5"
    using i(5) s by (auto simp: subs_ok_def)
  have n1: "sub_inv (g_history l) s'" by (rule sub_step_inv [OF cont si(1) o' s'])
  have n2: "budget s'" by (rule sub_step_budget [OF si(2) s'])
  have n3: "s_cause s' = None \<longrightarrow> k \<in> set (g_subs l) \<union> set (ending (g_close l))"
    using sub_step_cause(2) [OF s'] reg by (cases "s_cause s") auto
  have n4: "s_by_log s' \<longrightarrow> close_rank (g_close l) \<ge> 5" using sub_step_cause(1) [OF s'] by_log by simp
  have "subs_ok (g_history l) (g_subs l) ((g_sub l)(k \<mapsto> s')) (g_opened l) (g_close l)"
    using i(5) n1 n2 n3 n4 s by (auto simp: subs_ok_def)
  with i show ?thesis by (simp add: log_inv_def l')
qed

lemma close_move:
  assumes "log_inv l" and "close_ok c (cut', closed, closing) (g_drain l) (g_inflight l) (g_sem l) (g_stopped l)"
    and "subs_ok (g_history l) ids sub (g_opened l) c" and "g_cut l \<longrightarrow> cut'"
  shows "log_inv (l\<lparr>g_cut := cut', g_closed := closed, g_closing := closing, g_subs := ids, g_sub := sub, g_close := c\<rparr>)"
proof -
  note i = log_inv_parts [OF assms(1)]
  have "prim_ok (g_no_primary l) (g_max_primary l) (g_history l)
       (pending (g_sem l) (g_pubs l) (g_drain l) (g_next l)) (g_read l, g_primary l) (g_skipped l) cut'"
    using i(10) assms(4) by (auto simp: prim_ok_def)
  with i assms show ?thesis by (simp add: log_inv_def)
qed

lemma subs_quiet:
  "subs_ok H ids sub opened c \<Longrightarrow> close_rank c \<le> close_rank c' \<Longrightarrow> close_rank c' < 5 \<Longrightarrow> subs_ok H ids sub opened c'"
  by (cases c; cases c') (auto simp: subs_ok_def)

lemma subs_each:
  assumes "subs_ok H ids sub opened c" and "sub n = Some s"
  shows "sub_inv H s \<and> budget s \<and> (s_cause s = None \<longrightarrow> n \<in> set ids \<union> set (ending c)) \<and> (s_by_log s \<longrightarrow> close_rank c \<ge> 5)"
  using assms unfolding subs_ok_def by blast

lemma close_step_inv:
  assumes inv: "log_inv l" and st: "close_step l = Some l'"
  shows "log_inv l'"
proof -
  note i = log_inv_parts [OF inv]
  have move: ?thesis
    if l': "l' = l\<lparr>g_cut := cut', g_closed := closed, g_closing := closing, g_subs := ids, g_sub := sub, g_close := c\<rparr>"
      and "close_ok c (cut', closed, closing) (g_drain l) (g_inflight l) (g_sem l) (g_stopped l)"
      and "subs_ok (g_history l) ids sub (g_opened l) c" and "g_cut l \<longrightarrow> cut'"
    for c cut' closed closing ids sub
    unfolding l' by (rule close_move [OF inv]) (use that in auto)
  show ?thesis
  proof (cases "g_close l")
    case CloseNot
    show ?thesis by (rule move [where cut' = True and closed = "g_closed l" and closing = "g_closing l" and ids = "g_subs l" and sub = "g_sub l" and c = CloseCut])
        (use st CloseNot i(3) subs_quiet [OF i(5), of CloseCut] in \<open>auto simp: close_step_def close_ok_def\<close>)
  next
    case CloseCut
    show ?thesis by (rule move [where cut' = "g_cut l" and closed = True and closing = "g_closing l" and ids = "g_subs l" and sub = "g_sub l" and c = CloseSignalled])
        (use st CloseCut i(3) subs_quiet [OF i(5), of CloseSignalled] in \<open>auto simp: close_step_def close_ok_def\<close>)
  next
    case CloseSignalled
    show ?thesis by (rule move [where cut' = "g_cut l" and closed = "g_closed l" and closing = "g_closing l" and ids = "g_subs l" and sub = "g_sub l" and c = CloseDrained])
        (use st CloseSignalled i(3) subs_quiet [OF i(5), of CloseDrained] in \<open>auto simp: close_step_def close_ok_def split: if_splits\<close>)
  next
    case CloseDrained
    show ?thesis by (rule move [where cut' = "g_cut l" and closed = "g_closed l" and closing = True and ids = "g_subs l" and sub = "g_sub l" and c = CloseShut])
        (use st CloseDrained i(3) subs_quiet [OF i(5), of CloseShut] in \<open>auto simp: close_step_def close_ok_def\<close>)
  next
    case CloseShut
    have "subs_ok (g_history l) [] (g_sub l) (g_opened l) (CloseEnding (g_subs l))"
      using i(5) CloseShut by (auto simp: subs_ok_def)
    then show ?thesis by (intro move [where cut' = "g_cut l" and closed = "g_closed l" and closing = "g_closing l" and ids = "[]" and sub = "g_sub l" and c = "CloseEnding (g_subs l)"])
        (use st CloseShut i(3) in \<open>auto simp: close_step_def close_ok_def split: if_splits\<close>)
  next
    case (CloseEnding todo)
    show ?thesis
    proof (cases todo)
      case Nil
      have "subs_ok (g_history l) (g_subs l) (g_sub l) (g_opened l) CloseOwners"
        using i(5) CloseEnding Nil by (auto simp: subs_ok_def)
      then show ?thesis by (intro move [where cut' = "g_cut l" and closed = "g_closed l" and closing = "g_closing l" and ids = "g_subs l" and sub = "g_sub l" and c = CloseOwners])
          (use st CloseEnding Nil i(3) in \<open>auto simp: close_step_def close_ok_def\<close>)
    next
      case (Cons k ks)
      define sub where "sub = (g_sub l)(k := map_option closed_by_log (g_sub l k))"
      have b: "budget t \<Longrightarrow> budget (closed_by_log t)" "sub_inv (g_history l) t \<Longrightarrow> sub_inv (g_history l) (closed_by_log t)"
        "s_cause (closed_by_log t) = None \<longleftrightarrow> False" for t
        using closed_by_log_budget closed_by_log_inv [of "g_history l" t] by (auto simp: closed_by_log_def end_locked_def)
      have subs_none: "g_subs l = []" using i(5) CloseEnding by (simp add: subs_ok_def)
      have old: "sub_inv (g_history l) t \<and> budget t \<and> (s_cause t = None \<longrightarrow> n = k \<or> n \<in> set ks)"
        if "g_sub l n = Some t" for n t using subs_each [OF i(5) that] subs_none by (simp add: CloseEnding Cons)
      have all: "sub_inv (g_history l) t \<and> budget t \<and> (s_cause t = None \<longrightarrow> n \<in> set ks)" if t: "sub n = Some t" for n t
      proof (cases "n = k")
        case True
        with t obtain t0 where "g_sub l n = Some t0" "t = closed_by_log t0" by (auto simp: sub_def)
        with old [of n t0] b(1,2) show ?thesis by (simp add: b(3))
      next
        case False
        with t old show ?thesis by (auto simp: sub_def)
      qed
      have ids: "(sub n \<noteq> None) = (n < g_opened l)" "n \<in> set ks \<Longrightarrow> n < g_opened l" "g_subs l = []" for n
        using i(5) CloseEnding Cons by (auto simp: subs_ok_def sub_def)
      have "subs_ok (g_history l) (g_subs l) sub (g_opened l) (CloseEnding ks)"
        unfolding subs_ok_def using all ids by simp
      then show ?thesis by (intro move [where cut' = "g_cut l" and closed = "g_closed l" and closing = "g_closing l" and ids = "g_subs l" and sub = sub and c = "CloseEnding ks"])
          (use st CloseEnding Cons i(3) in \<open>auto simp: close_step_def close_ok_def sub_def\<close>)
    qed
  next
    case CloseOwners
    have "subs_ok (g_history l) (g_subs l) (g_sub l) (g_opened l) CloseJournal"
      using i(5) CloseOwners by (auto simp: subs_ok_def)
    then show ?thesis by (intro move [where cut' = "g_cut l" and closed = "g_closed l" and closing = "g_closing l" and ids = "g_subs l" and sub = "g_sub l" and c = CloseJournal])
        (use st CloseOwners i(3) in \<open>auto simp: close_step_def close_ok_def split: if_splits\<close>)
  qed (use st in \<open>simp_all add: close_step_def\<close>)
qed

lemma journal_closed_inv:
  assumes inv: "log_inv l" and st: "journal_closed l = Some l'"
  shows "log_inv l'"
proof -
  note i = log_inv_parts [OF inv]
  from st have c: "g_close l = CloseJournal" and l': "l' = l\<lparr>g_close := CloseDone\<rparr>"
    by (auto simp: journal_closed_def split: if_splits)
  have "subs_ok (g_history l) (g_subs l) (g_sub l) (g_opened l) CloseDone" using i(5) c by (auto simp: subs_ok_def)
  moreover have "close_ok CloseDone (g_cut l, g_closed l, g_closing l) (g_drain l) (g_inflight l) (g_sem l) (g_stopped l)"
    using i(3) c by (simp add: close_ok_def)
  ultimately show ?thesis
    using close_move [OF inv, of CloseDone "g_cut l" "g_closed l" "g_closing l" "g_subs l" "g_sub l"] by (simp add: l')
qed

lemma log_step_inv: "log_inv l \<Longrightarrow> log_op_ok x l \<Longrightarrow> log_step x l = Some l' \<Longrightarrow> log_inv l'"
  by (cases x) (auto intro: pub_enter_inv pub_acquire_inv pub_send_inv pub_commit_inv pub_abandon_inv read_primary_inv
      enqueue_inv flush_begin_inv flush_give_up_inv drain_step_inv drain_cut_inv subscribe_inv close_step_inv journal_closed_inv
      simp del: log_op_ok.simps dest: sub_act_inv)

text \<open>The log is a component that keeps an invariant (theory \<open>Event_Source\<close>): every schedule does.\<close>

definition log_source :: "log_op \<Rightarrow> event_log \<Rightarrow> event_log \<times> log_record list" where
  "log_source x l = (log_act x l, [])"

definition log_run :: "log_op list \<Rightarrow> event_log \<Rightarrow> event_log" where
  "log_run xs l = fst (run_ops log_source xs l)"

abbreviation schedule_ok :: "log_op list \<Rightarrow> event_log \<Rightarrow> bool" where
  "schedule_ok xs l \<equiv> ops_ok log_source log_op_ok xs l"

interpretation event_log_source: op_invariant log_source log_op_ok log_inv
proof
  show "log_inv l \<Longrightarrow> log_op_ok x l \<Longrightarrow> log_inv (fst (log_source x l))" for l x
    by (auto simp: log_source_def log_act_def split: option.split intro: log_step_inv)
qed

lemma log_run_inv: "log_inv l \<Longrightarrow> schedule_ok xs l \<Longrightarrow> log_inv (log_run xs l)"
  unfolding log_run_def by (rule event_log_source.run_inv)

end
