(* ===== verification/Event_Log_Laws.thy ===== *)
theory Event_Log_Laws
  imports Event_Log
begin

text \<open>
  What the event log of theory \<open>Event_Log\<close> promises, for every schedule of its goroutines: the order and the
  completeness of what its readers get, the outbox's order and its barrier, the primary, and that \<open>Close\<close>
  returns whatever the readers do.
\<close>

section \<open>What a schedule cannot undo\<close>

text \<open>The history and the accepted batches only grow, a \<open>Flush\<close> keeps its target and its answer.\<close>

definition asked :: "event_log \<Rightarrow> nat \<Rightarrow> nat \<Rightarrow> bool" where
  "asked l wid target \<longleftrightarrow> (wid, target) \<in> set (g_waiters l) \<or> (\<exists>a. g_flushed l wid = Some (target, a))"

definition extends :: "event_log \<Rightarrow> event_log \<Rightarrow> bool" where
  "extends l l' \<longleftrightarrow>
     (\<exists>H. g_history l' = g_history l @ H) \<and> (\<exists>bs. g_accepted l' = g_accepted l @ bs) \<and>
     (\<forall>wid target. asked l wid target \<longrightarrow> asked l' wid target)"

lemma extends_refl [simp]: "extends l l"
  by (simp add: extends_def)

lemma extends_trans: "extends l l' \<Longrightarrow> extends l' l'' \<Longrightarrow> extends l l''"
  by (auto simp: extends_def)

lemma extends_frame:
  "g_history l' = g_history l @ H \<Longrightarrow> g_accepted l' = g_accepted l \<Longrightarrow> g_waiters l' = g_waiters l \<Longrightarrow>
     g_flushed l' = g_flushed l \<Longrightarrow> extends l l'"
  by (simp add: extends_def asked_def)

lemma answered_in: "(wid, t) \<in> set ws \<Longrightarrow> distinct (map fst ws) \<Longrightarrow> answered a ws fl wid = Some (t, a)"
proof (induction ws arbitrary: fl)
  case (Cons w ws)
  have step: "answered a (w # ws) fl = answered a ws (fl(fst w \<mapsto> (snd w, a)))" by (simp add: answered_def)
  show ?case
  proof (cases "w = (wid, t)")
    case True
    then have "wid \<notin> fst ` set ws" using Cons.prems(2) by auto
    from answered_none [OF this] show ?thesis unfolding step by (simp add: True)
  next
    case False
    with Cons show ?thesis by (auto simp: step)
  qed
qed simp

lemma commit_locked_history [simp]: "g_history (commit_locked r l) = g_history l @ [r]"
  by (simp add: commit_locked_def split_beta Let_def)

lemma flush_extends:
  assumes f: "flush_ok (g_waiters l) (g_flushed l) n e d" and h: "g_history l' = g_history l" "g_accepted l' = g_accepted l"
    and w: "g_waiters l' = filter (\<lambda>w. \<not> P w) (g_waiters l)" "g_flushed l' = answered a (filter P (g_waiters l)) (g_flushed l)"
  shows "extends l l'"
proof -
  have d: "distinct (map fst (filter P (g_waiters l)))"
    using f by (auto simp: flush_ok_def distinct_map intro: inj_on_subset)
  have "asked l' wid t" if "asked l wid t" for wid t
  proof (cases "(wid, t) \<in> set (g_waiters l)")
    case True
    with answered_in [OF _ d, of wid t] show ?thesis by (cases "P (wid, t)") (auto simp: asked_def w)
  next
    case False
    with that obtain x where x: "g_flushed l wid = Some (t, x)" by (auto simp: asked_def)
    then have "wid \<notin> fst ` set (filter P (g_waiters l))" using f by (auto simp: flush_ok_def)
    from answered_none [OF this] x show ?thesis by (simp add: asked_def w)
  qed
  with h show ?thesis by (simp add: extends_def)
qed

lemma end_waiters_extends:
  assumes "flush_ok (g_waiters l) (g_flushed l) (g_drained l) e d"
  shows "extends l ((end_waiters l)\<lparr>g_drain := x\<rparr>)"
proof -
  have "\<forall>w \<in> set (g_waiters l). \<not> snd w \<le> g_drained l" using assms by (auto simp: flush_ok_def)
  then have "filter (\<lambda>w. snd w \<le> g_drained l) (g_waiters l) = []"
    "filter (\<lambda>w. \<not> snd w \<le> g_drained l) (g_waiters l) = filter (\<lambda>w. True) (g_waiters l)"
    by (auto simp: filter_empty_conv intro: filter_cong)
  then show ?thesis
    by (intro flush_extends [where P = "\<lambda>w. True" and a = FlushClosing, OF assms])
      (simp_all add: end_waiters_def answer_waiters_eq, simp_all add: answered_def)
qed

lemma commit_batch_extends:
  assumes "flush_ok (g_waiters l) (g_flushed l) n e d"
  shows "extends l ((commit_batch b l)\<lparr>g_drain := x\<rparr>)"
  by (intro flush_extends [where P = "\<lambda>w. snd w \<le> g_drained l + length (b_recs b)" and a = FlushNil, OF assms])
    (simp_all add: commit_batch_def answer_waiters_eq Let_def)

lemma pub_extends:
  "pub_enter pid rec try' l = Some l' \<Longrightarrow> extends l l'"
  "pub_acquire pid done' l = Some l' \<Longrightarrow> extends l l'"
  "pub_send pid l = Some l' \<Longrightarrow> extends l l'"
  "pub_commit pid l = Some l' \<Longrightarrow> extends l l'"
  "pub_abandon pid tally l = Some l' \<Longrightarrow> extends l l'"
  by (auto simp: pub_enter_def pub_acquire_def pub_send_def pub_commit_def pub_abandon_def
      split: option.splits pub_phase.splits if_splits intro!: extends_frame [where H = "[]"] extends_frame)

lemma drain_step_extends:
  assumes inv: "log_inv l" and st: "drain_step l = Some l'"
  shows "extends l l'"
proof -
  note f = log_inv_parts(8) [OF inv]
  consider (closing) "l' = (end_waiters l)\<lparr>g_drain := DrEnded\<rparr>"
    | (batch) b where "l' = (commit_batch b l)\<lparr>g_drain := DrIdle\<rparr>"
    | (other) H where "g_history l' = g_history l @ H" "g_accepted l' = g_accepted l" "g_waiters l' = g_waiters l"
        "g_flushed l' = g_flushed l"
    using st by (auto simp: drain_step_def Let_def split: drain_phase.splits list.splits if_splits)
  then show ?thesis
    by cases (use end_waiters_extends [OF f] commit_batch_extends [OF f] extends_frame in auto)
qed

lemma flush_begin_extends: "flush_begin wid l = Some l' \<Longrightarrow> extends l l'"
  by (auto simp: flush_begin_def answer_flush_def extends_def asked_def split: if_splits)

lemma flush_give_up_extends:
  assumes "log_inv l" and st: "flush_give_up wid l = Some l'"
  shows "extends l l'"
proof -
  obtain target where t: "map_of (g_waiters l) wid = Some target" and l': "l' = l\<lparr>g_waiters := filter (\<lambda>w. fst w \<noteq> wid) (g_waiters l),
      g_flushed := (g_flushed l)(wid \<mapsto> (target, FlushGaveUp))\<rparr>"
    using st by (auto simp: flush_give_up_def answer_flush_def split: option.splits)
  have f: "flush_ok (g_waiters l) (g_flushed l) (g_drained l) (g_enqueued l) (g_drain l)" by (rule log_inv_parts(8) [OF assms(1)])
  have w: "(wid, target) \<in> set (g_waiters l)" using map_of_SomeD [OF t] .
  have "g_flushed l wid = None" using f w by (auto simp: flush_ok_def)
  moreover have "t' = target" if "(wid, t') \<in> set (g_waiters l)" for t'
    using f w that eq_key_imp_eq_value by (fastforce simp: flush_ok_def)
  ultimately show ?thesis by (auto simp: extends_def asked_def l')
qed

lemma log_step_extends: "log_inv l \<Longrightarrow> log_step x l = Some l' \<Longrightarrow> extends l l'"
proof (cases x)
  case (ActEnqueue ticket recs)
  then show "log_step x l = Some l' \<Longrightarrow> ?thesis" by (auto simp: enqueue_batch_def Let_def extends_def asked_def)
next
  case (ActSubscribe items bytes cursor j)
  then show "log_step x l = Some l' \<Longrightarrow> ?thesis"
    by (auto simp: subscribe_def register_def extends_def asked_def split: if_splits option.splits sum.splits)
next
  case (ActSub k y)
  then show "log_step x l = Some l' \<Longrightarrow> ?thesis" by (auto simp: sub_act_def extends_def asked_def split: option.splits)
next
  case ActClose
  then show "log_step x l = Some l' \<Longrightarrow> ?thesis"
    by (auto simp: close_step_def extends_def asked_def split: close_phase.splits list.splits if_splits)
next
  case ActRead
  then show "log_step x l = Some l' \<Longrightarrow> ?thesis" by (auto simp: read_primary_def extends_def asked_def split: list.splits)
next
  case ActJournalClosed
  then show "log_step x l = Some l' \<Longrightarrow> ?thesis" by (auto simp: journal_closed_def extends_def asked_def split: if_splits)
next
  case ActDrainCut
  then show "log_step x l = Some l' \<Longrightarrow> ?thesis"
    by (auto simp: drain_cut_def extends_def asked_def split: drain_phase.splits list.splits if_splits)
qed (auto intro: pub_extends drain_step_extends flush_begin_extends flush_give_up_extends)

lemma log_run_Nil [simp]: "log_run [] l = l"
  by (simp add: log_run_def)

lemma log_run_Cons [simp]: "log_run (x # xs) l = log_run xs (log_act x l)"
  by (simp add: log_run_def log_source_def split_beta Let_def)

lemma log_run_append: "log_run (xs @ ys) l = log_run ys (log_run xs l)"
  by (induction xs arbitrary: l) simp_all

lemma schedule_Cons: "schedule_ok (x # xs) l \<longleftrightarrow> log_op_ok x l \<and> schedule_ok xs (log_act x l)"
  by (simp add: log_source_def)

lemma schedule_append: "schedule_ok (xs @ ys) l \<longleftrightarrow> schedule_ok xs l \<and> schedule_ok ys (log_run xs l)"
  by (induction xs arbitrary: l) (simp_all add: log_source_def)

lemma log_run_extends: "log_inv l \<Longrightarrow> schedule_ok xs l \<Longrightarrow> extends l (log_run xs l)"
proof (induction xs arbitrary: l)
  case (Cons x xs)
  then have a: "log_inv (log_act x l)" "extends l (log_act x l)"
    by (auto simp: log_act_def split: option.split intro: log_step_inv log_step_extends)
  with Cons show ?case unfolding log_run_Cons schedule_Cons by (blast intro: extends_trans)
qed simp

section \<open>The close needs no reader\<close>

text \<open>The steps taken without a reader of the primary or of a subscription, and without the journal: those of
  publishers already inside, the drainer, the owners and the closer. A blocked publisher gives up at the cutoff,
  a \<open>TryPublish\<close> at once. And the journal's answers: of \<open>WaitFlushed\<close> and \<open>ReadRange\<close> to the owner of a
  subscription, and the return of its \<open>Close\<close>.\<close>

fun unaided :: "log_op \<Rightarrow> event_log \<Rightarrow> bool" where
  "unaided (ActAcquire pid done') l = True"
| "unaided (ActSend pid) l = True"
| "unaided (ActCommit pid) l = True"
| "unaided (ActAbandon pid tally) l =
     (case g_pubs l pid of None \<Rightarrow> False | Some p \<Rightarrow> if tally then g_closed l else p_try p)"
| "unaided ActDrain l = True"
| "unaided ActDrainCut l = True"
| "unaided (ActSub i x) l = (x = SubStep \<or> x = SubKilled \<or> x = SubWaitKilled)"
| "unaided ActClose l = True"
| "unaided _ l = False"

fun journal_answer :: "log_op \<Rightarrow> bool" where
  "journal_answer (ActSub i SubFlushed) = True"
| "journal_answer (ActSub i (SubFlushFail reason)) = True"
| "journal_answer (ActSub i (SubHead rec)) = True"
| "journal_answer (ActSub i SubHeadEnd) = True"
| "journal_answer (ActSub i (SubHeadFail reason)) = True"
| "journal_answer ActJournalClosed = True"
| "journal_answer _ = False"

fun pub_work :: "publisher option \<Rightarrow> nat" where
  "pub_work None = 0"
| "pub_work (Some p) = (case p_phase p of PubWaiting \<Rightarrow> 3 | PubHolding \<Rightarrow> 2 | PubSent \<Rightarrow> 1)"

definition batch_work :: "outbox_batch \<Rightarrow> nat" where
  "batch_work b = 2 * length (b_recs b) + 4"

fun drain_work :: "drain_phase \<Rightarrow> nat" where
  "drain_work DrNone = 0"
| "drain_work DrIdle = 1"
| "drain_work (DrTaken b) = 2 * length (b_recs b) + 4"
| "drain_work (DrHolding b rs f) = 2 * length rs + 3"
| "drain_work (DrSent b r rs f) = 2 * length rs + 4"
| "drain_work (DrAccount b) = 2"
| "drain_work DrEnded = 0"

fun owner_work :: "owner \<Rightarrow> nat" where
  "owner_work OwnDone = 0"
| "owner_work (OwnStopped e) = 1"
| "owner_work (OwnWait n p) = 8"
| "owner_work (OwnHead n p) = 7"
| "owner_work (OwnBlocked s r) = 2"
| "owner_work (OwnSend s r) = 3"
| "owner_work (OwnBatch rs) = (if rs = [] then 6 else 4)"
| "owner_work OwnLoop = 5"
| "owner_work (OwnPin rs) = (if rs = [] then 6 else 4)"

definition sub_work :: "(nat \<Rightarrow> subscription option) \<Rightarrow> nat \<Rightarrow> nat" where
  "sub_work sub n = (\<Sum>i<n. case sub i of None \<Rightarrow> 0 | Some s \<Rightarrow> owner_work (s_owner s))"

fun close_left :: "close_phase \<Rightarrow> nat \<Rightarrow> nat" where
  "close_left (CloseEnding is') n = 4 + length is'"
| "close_left CloseOwners n = 2"
| "close_left CloseJournal n = 1"
| "close_left CloseDone n = 0"
| "close_left c n = 9 - close_rank c + n"

text \<open>How many such steps there can be at most.\<close>

definition close_work :: "event_log \<Rightarrow> nat" where
  "close_work l =
     (\<Sum>pid \<in> dom (g_pubs l). pub_work (g_pubs l pid)) +
     (\<Sum>b \<leftarrow> g_outbox l. batch_work b + 1) + drain_work (g_drain l) + (if g_stopped l then 0 else 1) +
     sub_work (g_sub l) (g_opened l) + close_left (g_close l) (length (g_subs l))"

lemma offer_all_kept: "offer_all r ids sub = (kept, dropped, sub') \<Longrightarrow> length kept \<le> length ids"
proof (induction ids arbitrary: sub kept dropped sub')
  case (Cons i ids)
  show ?case
  proof (cases "sub i")
    case None
    with Cons.prems have "offer_all r ids sub = (kept, dropped, sub')" by simp
    from Cons.IH [OF this] show ?thesis by simp
  next
    case (Some s)
    obtain k d u where o': "offer_all r ids (sub(i \<mapsto> snd (offer r s))) = (k, d, u)"
      by (cases "offer_all r ids (sub(i \<mapsto> snd (offer r s)))")
    with Cons.prems Some have "length kept \<le> Suc (length k)" by (auto simp: split_beta Let_def)
    with Cons.IH [OF o'] show ?thesis by simp
  qed
qed simp

lemma offer_owner [simp]: "s_owner (snd (offer r s)) = s_owner s"
  by (simp add: offer_def end_locked_def)

lemma offer_all_work: "offer_all r ids sub = (kept, dropped, sub') \<Longrightarrow> sub_work sub' n = sub_work sub n"
proof (induction ids arbitrary: sub kept dropped sub')
  case (Cons i ids)
  show ?case
  proof (cases "sub i")
    case None
    with Cons show ?thesis by simp
  next
    case (Some s)
    obtain k d u where o': "offer_all r ids (sub(i \<mapsto> snd (offer r s))) = (k, d, u)"
      by (cases "offer_all r ids (sub(i \<mapsto> snd (offer r s)))")
    with Cons.prems Some have "sub' = u" by (auto simp: split_beta Let_def)
    moreover have "sub_work (sub(i \<mapsto> snd (offer r s))) n = sub_work sub n"
      unfolding sub_work_def using Some by (intro sum.cong) auto
    ultimately show ?thesis using Cons.IH [OF o'] by (simp only:)
  qed
qed simp

lemma commit_work:
  "sub_work (g_sub (commit_locked r l)) (g_opened l) = sub_work (g_sub l) (g_opened l)"
  "length (g_subs (commit_locked r l)) \<le> length (g_subs l)"
proof -
  obtain k d u where "offer_all r (g_subs l) (g_sub l) = (k, d, u)" by (cases "offer_all r (g_subs l) (g_sub l)")
  with offer_all_work [OF this] offer_all_kept [OF this]
  show "sub_work (g_sub (commit_locked r l)) (g_opened l) = sub_work (g_sub l) (g_opened l)"
    "length (g_subs (commit_locked r l)) \<le> length (g_subs l)"
    by (simp_all add: commit_locked_def)
qed

lemma close_left_mono: "m \<le> n \<Longrightarrow> close_left c m \<le> close_left c n"
  by (cases c) simp_all

lemma pubs_work_leave:
  assumes "finite (dom pubs)" and "pubs pid = Some p"
  shows "(\<Sum>i \<in> dom (pubs(pid := None)). pub_work ((pubs(pid := None)) i)) < (\<Sum>i \<in> dom pubs. pub_work (pubs i))"
proof -
  have "(\<Sum>i \<in> dom (pubs(pid := None)). pub_work ((pubs(pid := None)) i)) = (\<Sum>i \<in> dom pubs - {pid}. pub_work (pubs i))"
    by (rule sum.cong) auto
  moreover have "(\<Sum>i \<in> dom pubs. pub_work (pubs i)) = pub_work (pubs pid) + (\<Sum>i \<in> dom pubs - {pid}. pub_work (pubs i))"
    using assms by (intro sum.remove) auto
  moreover have "0 < pub_work (pubs pid)" using assms by (simp split: pub_phase.split)
  ultimately show ?thesis by simp
qed

lemma pubs_work_phase:
  assumes "finite (dom pubs)" and "pubs pid = Some p" and "pub_work (Some q) < pub_work (Some p)"
  shows "(\<Sum>i \<in> dom (pubs(pid \<mapsto> q)). pub_work ((pubs(pid \<mapsto> q)) i)) < (\<Sum>i \<in> dom pubs. pub_work (pubs i))"
proof -
  have d: "dom (pubs(pid \<mapsto> q)) = dom pubs" using assms(2) by auto
  show ?thesis unfolding d using assms by (intro sum_strict_mono_ex1) auto
qed

lemma sub_work_less:
  assumes "sub i = Some s" and "owner_work (s_owner s') < owner_work (s_owner s)" and "i < n"
  shows "sub_work (sub(i \<mapsto> s')) n < sub_work sub n"
  unfolding sub_work_def using assms by (intro sum_strict_mono_ex1) auto

lemma own_step_work: "own_step s = Some s' \<Longrightarrow> owner_work (s_owner s') < owner_work (s_owner s)"
  by (auto simp: own_step_def Let_def finish_sub_def end_locked_def hand_over_def
      split: owner.splits list.splits option.splits if_splits sum.splits)

lemma killed_work: "killed s = Some s' \<Longrightarrow> owner_work (s_owner s') < owner_work (s_owner s)"
  by (auto simp: killed_def split: owner.splits option.splits)

lemma journal_work:
  assumes "sub_step x s = Some s'" and "x = SubWaitKilled \<or> journal_answer (ActSub i x)"
  shows "owner_work (s_owner s') < owner_work (s_owner s)"
  using assms
  by (cases x) (auto simp: wait_killed_def head_flushed_def flush_fail_def head_record_def head_end_def head_fail_def
      split: owner.splits option.splits if_splits)

lemma unaided_decreases:
  assumes inv: "log_inv l" and u: "unaided x l \<or> journal_answer x" and st: "log_step x l = Some l'"
  shows "close_work l' < close_work l"
proof -
  note i = log_inv_parts [OF inv]
  have fin: "finite (dom (g_pubs l))" using i(1) by (simp add: pubs_ok_def)
  have leave: "close_work (leave pid (l0\<lparr>g_sem := sem\<rparr>)) < close_work l" "close_work (leave pid l0) < close_work l"
    if "g_pubs l pid = Some p" "g_pubs l0 = g_pubs l" "g_outbox l0 = g_outbox l" "g_drain l0 = g_drain l"
      "g_stopped l0 = g_stopped l" "sub_work (g_sub l0) (g_opened l0) = sub_work (g_sub l) (g_opened l)"
      "g_close l0 = g_close l" "length (g_subs l0) \<le> length (g_subs l)" for pid p l0 sem
    using pubs_work_leave [OF fin that(1)] that(2-) close_left_mono [OF that(8), of "g_close l"] by (simp_all add: close_work_def)
  have phase: "close_work l' < close_work l"
    if "g_pubs l pid = Some p" "pub_work (Some q) < pub_work (Some p)" "g_pubs l' = (g_pubs l)(pid \<mapsto> q)"
      "g_outbox l' = g_outbox l" "g_drain l' = g_drain l" "g_stopped l' = g_stopped l" "g_sub l' = g_sub l"
      "g_opened l' = g_opened l" "g_close l' = g_close l" "g_subs l' = g_subs l" for pid p q
    using pubs_work_phase [OF fin that(1,2)] by (simp add: close_work_def that(3-))
  show ?thesis
  proof (cases x)
    case (ActAcquire pid done')
    then obtain p where p: "g_pubs l pid = Some p" "p_phase p = PubWaiting"
      using st by (auto simp: pub_acquire_def split: option.splits if_splits)
    with ActAcquire st consider "l' = leave pid (count_drop True l)"
      | "l' = l\<lparr>g_sem := Some (HoldPub pid), g_pubs := (g_pubs l)(pid \<mapsto> p\<lparr>p_phase := PubHolding\<rparr>)\<rparr>"
      by (auto simp: pub_acquire_def split: if_splits)
    then show ?thesis
      by cases (use leave(2) [OF p(1)] phase [OF p(1), of "p\<lparr>p_phase := PubHolding\<rparr>"] p(2) in simp_all)
  next
    case (ActSend pid)
    then obtain p where p: "g_pubs l pid = Some p" "p_phase p = PubHolding"
      using st by (auto simp: pub_send_def split: option.splits if_splits)
    show ?thesis
      by (rule phase [OF p(1), of "p\<lparr>p_phase := PubSent\<rparr>"]) (use ActSend st p in \<open>auto simp: pub_send_def split: if_splits\<close>)
  next
    case (ActCommit pid)
    then obtain p where p: "g_pubs l pid = Some p" "p_phase p = PubSent"
      using st by (auto simp: pub_commit_def split: option.splits if_splits)
    with ActCommit st have l': "l' = leave pid ((commit_locked (numbered (g_next l + 1) (p_rec p)) l)\<lparr>g_sem := None\<rparr>)"
      by (simp add: pub_commit_def)
    show ?thesis unfolding l' by (rule leave(1) [OF p(1)]) (simp_all add: commit_work)
  next
    case (ActAbandon pid tally)
    then obtain p where p: "g_pubs l pid = Some p" using u by (auto split: option.splits)
    with ActAbandon st consider "l' = leave pid (count_drop tally l)" | "l' = leave pid ((count_drop tally l)\<lparr>g_sem := None\<rparr>)"
      by (auto simp: pub_abandon_def split: pub_phase.splits if_splits)
    then show ?thesis by cases (use leave [OF p, of "count_drop tally l"] in simp_all)
  next
    case ActDrain
    show ?thesis
    proof (cases "\<exists>b r rs f. g_drain l = DrSent b r rs f")
      case True
      then obtain b r rs f where d: "g_drain l = DrSent b r rs f" by blast
      with ActDrain st have l': "l' = (commit_locked r l)\<lparr>g_drain := DrHolding b rs f\<rparr>" by (simp add: drain_step_def)
      show ?thesis using commit_work [of r l] close_left_mono [OF commit_work(2) [of r l], of "g_close l"]
        by (simp add: close_work_def l' d)
    next
      case False
      with ActDrain st show ?thesis
        by (auto simp: drain_step_def close_work_def batch_work_def end_waiters_def commit_batch_def answer_waiters_eq Let_def
            split: drain_phase.splits list.splits if_splits)
    qed
  next
    case ActDrainCut
    with st show ?thesis by (auto simp: drain_cut_def close_work_def split: drain_phase.splits list.splits if_splits)
  next
    case (ActSub k y)
    with st obtain s s' where s: "g_sub l k = Some s" "sub_step y s = Some s'" "l' = l\<lparr>g_sub := (g_sub l)(k \<mapsto> s')\<rparr>"
      by (auto simp: sub_act_def split: option.splits)
    have "y = SubStep \<or> y = SubKilled \<or> y = SubWaitKilled \<or> journal_answer (ActSub k y)" using u ActSub by simp
    then have "owner_work (s_owner s') < owner_work (s_owner s)"
      using s(2) own_step_work [of s s'] killed_work [of s s'] journal_work [of y s s' k] by auto
    moreover have "k < g_opened l" using i(5) s(1) by (auto simp: subs_ok_def)
    ultimately show ?thesis using sub_work_less [of "g_sub l" k s s' "g_opened l"] s by (simp add: close_work_def)
  next
    case ActClose
    have e: "sub_work ((g_sub l)(k := map_option closed_by_log (g_sub l k))) n = sub_work (g_sub l) n" for k n
      unfolding sub_work_def by (rule sum.cong) (auto simp: closed_by_log_def end_locked_def split: option.split)
    from ActClose st show ?thesis
      by (auto simp: close_step_def close_work_def e split: close_phase.splits list.splits if_splits)
  next
    case ActJournalClosed
    with st show ?thesis by (auto simp: journal_closed_def close_work_def split: if_splits)
  qed (use u in simp_all)
qed

lemma publisher_moves:
  assumes inv: "log_inv l" and c: "g_closed l" and s: "g_sem l = Some (HoldPub pid)"
  shows "\<exists>x. unaided x l \<and> log_step x l \<noteq> None"
proof -
  note i = log_inv_parts [OF inv]
  obtain p where p: "g_pubs l pid = Some p" "p_phase p \<noteq> PubWaiting"
    using i(2) s by (auto simp: sem_ok_def)
  show ?thesis
  proof (cases "p_phase p")
    case PubSent
    with p show ?thesis by (intro exI [of _ "ActCommit pid"]) (simp add: pub_commit_def)
  next
    case PubHolding
    consider (send) "g_no_primary l \<or> primary_room l" | (full) "\<not> g_no_primary l" "\<not> primary_room l" by blast
    then show ?thesis
    proof cases
      case send
      with p PubHolding show ?thesis by (intro exI [of _ "ActSend pid"]) (auto simp: pub_send_def)
    next
      case full
      with p PubHolding c show ?thesis by (intro exI [of _ "ActAbandon pid (\<not> p_try p)"]) (auto simp: pub_abandon_def)
    qed
  qed (use p in simp)
qed

lemma drainer_moves:
  assumes inv: "log_inv l" and c: "g_closed l" and d: "g_drain l \<noteq> DrNone" "g_drain l \<noteq> DrEnded"
  shows "\<exists>x. unaided x l \<and> log_step x l \<noteq> None"
proof -
  note i = log_inv_parts [OF inv]
  have cut': "g_cut l" using i(3) c by (auto simp: close_ok_def)
  have move: ?thesis if "drain_step l \<noteq> None" using that by (intro exI [of _ ActDrain]) simp
  show ?thesis
  proof (cases "g_drain l")
    case DrIdle
    with cut' show ?thesis by (intro move) (auto simp: drain_step_def split: list.split)
  next
    case (DrTaken b)
    show ?thesis
    proof (cases "g_sem l")
      case None
      with DrTaken show ?thesis by (intro move) (simp add: drain_step_def)
    next
      case (Some h)
      with i(2) DrTaken obtain pid where "g_sem l = Some (HoldPub pid)" by (cases h) (auto simp: sem_ok_def)
      then show ?thesis by (rule publisher_moves [OF inv c])
    qed
  next
    case (DrHolding b rs f)
    show ?thesis
    proof (cases "drain_step l")
      case None
      with DrHolding cut' show ?thesis
        by (intro exI [of _ ActDrainCut]) (auto simp: drain_step_def drain_cut_def Let_def split: list.splits if_splits)
    qed (use move in simp)
  next
    case (DrSent b r rs f)
    then show ?thesis by (intro move) (simp add: drain_step_def)
  next
    case (DrAccount b)
    then show ?thesis by (intro move) (simp add: drain_step_def)
  qed (use d in simp_all)
qed

lemma owner_moves:
  "s_cause s \<noteq> None \<Longrightarrow> s_owner s \<noteq> OwnDone \<Longrightarrow>
     own_step s \<noteq> None \<or> killed s \<noteq> None \<or> wait_killed s \<noteq> None \<or> (\<exists>to' pin. s_owner s = OwnHead to' pin)"
  by (auto simp: own_step_def killed_def wait_killed_def split: owner.split list.split)

text \<open>Where the close waits for the journal: inside its \<open>Close\<close>, or with an owner inside \<open>ReadRange\<close>.\<close>

definition awaits_journal :: "event_log \<Rightarrow> bool" where
  "awaits_journal l \<longleftrightarrow>
     g_close l = CloseJournal \<or>
     g_close l = CloseOwners \<and> (\<exists>k s to' pin. g_sub l k = Some s \<and> s_owner s = OwnHead to' pin \<and> s_cause s \<noteq> None)"

lemma journal_moves:
  assumes "awaits_journal l"
  shows "\<exists>x. journal_answer x \<and> log_step x l \<noteq> None"
proof (cases "g_close l = CloseJournal")
  case True
  then show ?thesis by (intro exI [of _ ActJournalClosed]) (simp add: journal_closed_def)
next
  case False
  with assms obtain k s to' pin where "g_sub l k = Some s" "s_owner s = OwnHead to' pin" by (auto simp: awaits_journal_def)
  then show ?thesis by (intro exI [of _ "ActSub k (SubHeadFail CursorEvicted)"]) (simp add: sub_act_def head_fail_def)
qed

lemma unaided_progress:
  assumes inv: "log_inv l" and c: "g_close l \<noteq> CloseNot" "g_close l \<noteq> CloseDone"
  shows "(\<exists>x. unaided x l \<and> log_step x l \<noteq> None) \<or> awaits_journal l"
proof -
  note i = log_inv_parts [OF inv]
  have move: ?thesis if "close_step l \<noteq> None" using that by (intro disjI1 exI [of _ ActClose]) simp
  show ?thesis
  proof (cases "g_close l")
    case CloseSignalled
    show ?thesis
    proof (cases "g_drain l = DrNone \<or> g_drain l = DrEnded")
      case True
      with CloseSignalled show ?thesis by (intro move) (simp add: close_step_def)
    next
      case False
      then show ?thesis by (intro disjI1 drainer_moves [OF inv]) (use i(3) CloseSignalled in \<open>simp_all add: close_ok_def\<close>)
    qed
  next
    case CloseShut
    then have cl: "g_closed l" "g_drain l = DrNone \<or> g_drain l = DrEnded" using i(3) by (simp_all add: close_ok_def)
    show ?thesis
    proof (cases "g_sem l")
      case None
      show ?thesis
      proof (cases "g_inflight l = 0")
        case True
        with None CloseShut show ?thesis by (intro move) (simp add: close_step_def)
      next
        case False
        then have "dom (g_pubs l) \<noteq> {}" using i(1) by (metis card.empty pubs_ok_def)
        then obtain pid where "pid \<in> dom (g_pubs l)" by blast
        then obtain p where p: "g_pubs l pid = Some p" by auto
        with i(2) None have "p_phase p = PubWaiting" by (auto simp: sem_ok_def)
        with p None cl show ?thesis by (intro disjI1 exI [of _ "ActAcquire pid False"]) (simp add: pub_acquire_def)
      qed
    next
      case (Some h)
      with i(2) cl obtain pid where "g_sem l = Some (HoldPub pid)" by (cases h) (auto simp: sem_ok_def)
      then show ?thesis by (intro disjI1) (rule publisher_moves [OF inv cl(1)])
    qed
  next
    case CloseOwners
    show ?thesis
    proof (cases "owners_done l")
      case True
      with CloseOwners show ?thesis by (intro move) (simp add: close_step_def)
    next
      case False
      then obtain k s where k: "g_sub l k = Some s" "s_owner s \<noteq> OwnDone"
        by (auto simp: owners_done_def list_all_iff split: option.splits)
      have "g_subs l = []" using i(5) CloseOwners by (simp add: subs_ok_def)
      then have cause: "s_cause s \<noteq> None" using subs_each [OF i(5) k(1)] CloseOwners by auto
      have go: ?thesis if "y = SubStep \<or> y = SubKilled \<or> y = SubWaitKilled" "sub_step y s \<noteq> None" for y
        using that k by (intro disjI1 exI [of _ "ActSub k y"]) (auto simp: sub_act_def)
      from owner_moves [OF cause k(2)] consider "\<exists>y. (y = SubStep \<or> y = SubKilled \<or> y = SubWaitKilled) \<and> sub_step y s \<noteq> None"
        | "\<exists>to' pin. s_owner s = OwnHead to' pin" by (metis sub_step.simps(1,3,4))
      then show ?thesis
      proof cases
        case 1
        with go show ?thesis by blast
      next
        case 2
        with k CloseOwners cause show ?thesis unfolding awaits_journal_def by blast
      qed
    qed
  next
    case (CloseEnding ks)
    then show ?thesis by (intro move) (auto simp: close_step_def split: list.split)
  next
    case CloseJournal
    then show ?thesis by (simp add: awaits_journal_def)
  qed (use c move in \<open>simp_all add: close_step_def\<close>)
qed

section \<open>Properties\<close>

text \<open>The states any schedule reaches.\<close>

definition reachable_log :: "event_log \<Rightarrow> bool" where
  "reachable_log l \<longleftrightarrow>
     (\<exists>incarnation items bytes no_primary xs.
        0 < items \<and> schedule_ok xs (new_event_log incarnation items bytes no_primary) \<and>
        l = log_run xs (new_event_log incarnation items bytes no_primary))"

lemma reachable_inv: "reachable_log l \<Longrightarrow> log_inv l"
  by (auto simp: reachable_log_def intro: log_run_inv log_inv_new)

lemma contiguous_seqs: "contiguous n xs \<Longrightarrow> map lr_seq xs = [n..<n + length xs]"
proof (induction xs arbitrary: n)
  case (Cons x xs)
  then show ?case using upt_conv_Cons [of n "n + length (x # xs)"] by auto
qed simp

text \<open>An example: a subscription, a batch of two with a ticket and a \<open>Flush\<close> behind it, one published event, the
  first record delivered, then the close without another read.\<close>

definition demo_rec :: "string \<Rightarrow> log_record" where
  "demo_rec body = sample_record 0 body"

definition demo_open :: "log_op list" where
  "demo_open = [ActSubscribe 4 100 None JournalOff, ActEnqueue (Some 0) [demo_rec ''a'', demo_rec ''b'']]"

definition demo_drained :: "log_op list" where
  "demo_drained = [ActDrain, ActDrain, ActDrain, ActDrain, ActDrain, ActDrain, ActDrain, ActDrain, ActPublish 0 (demo_rec ''c'') False, ActAcquire 0 False, ActSend 0, ActCommit 0,
     ActSub 0 SubStep, ActSub 0 SubStep, ActSub 0 SubStep, ActSub 0 SubStep, ActSub 0 SubDeliver, ActRead]"

definition demo_closed :: "log_op list" where
  "demo_closed = [ActClose, ActClose, ActDrain, ActClose, ActClose, ActClose, ActClose, ActClose,
     ActSub 0 SubStep, ActSub 0 SubStep, ActSub 0 SubStep, ActSub 0 SubStep, ActClose, ActJournalClosed]"

definition demo_log :: event_log where
  "demo_log = new_event_log ''run'' 8 1000 False"

text \<open>A schedule in which no journal serves a head owes nothing.\<close>

fun no_head :: "log_op \<Rightarrow> bool" where
  "no_head (ActSub i (SubHead r)) = False"
| "no_head _ = True"

lemma no_head_ok: "list_all no_head xs \<Longrightarrow> schedule_ok xs (l::event_log)"
proof (induction xs arbitrary: l)
  case (Cons y ys)
  have "log_op_ok y m" for m using Cons.prems by (cases y rule: no_head.cases) (auto split: option.split)
  with Cons show ?case by (simp add: log_source_def)
qed simp

lemma demo_reachable:
  assumes "list_all no_head xs"
  shows "reachable_log (log_run xs demo_log)"
  unfolding reachable_log_def using no_head_ok [OF assms] unfolding demo_log_def
  by (intro exI [of _ "''run''"] exI [of _ 8] exI [of _ 1000] exI [of _ False] exI [of _ xs] conjI) simp_all

lemmas log_eval = demo_log_def demo_open_def demo_drained_def demo_closed_def demo_rec_def sample_record_def log_act_def
  new_event_log_def subscribe_def register_def new_subscription_def sweep_locked_def enqueue_batch_def batch_of_def
  flush_begin_def answer_flush_def drain_step_def end_waiters_def answer_waiters_eq answered_def primary_room_def
  commit_locked_def commit_batch_def numbered_def offer_def end_locked_def pub_enter_def pub_acquire_def pub_send_def
  pub_commit_def leave_def count_drop_def sub_act_def own_step_def deliver_def hand_over_def read_primary_def
  close_step_def journal_closed_def closed_by_log_def finish_sub_def closing_tail_def owners_done_def rest_of_def primaryCap_def rec_size_def Let_def

text \<open>What a subscription that has ended hands back.\<close>

lemma done_rest:
  assumes "sub_inv H s" and "s_owner s = OwnDone"
  shows "case rest_of s of
      Inr tail \<Rightarrow> s_out s @ tail = drop (s_start s) H
    | Inl e \<Rightarrow> if s_by_log s then e = SubRestUnavailable \<and> s_journal s else e = SubNoRest"
proof -
  obtain E where p: "placed H E s" "s_by_log s \<longrightarrow> E = length H" using assms(1) by (auto simp: sub_inv_def)
  show ?thesis
  proof (cases "s_by_log s \<and> \<not> s_journal s")
    case True
    with p assms(2) have r: "s_rest s = drop (s_prev s) H" "s_rest_err s = None" "s_err s \<noteq> None"
      "s_prev s = s_start s + length (s_out s)" "s_out s = take (length (s_out s)) (drop (s_start s) H)"
      by (auto simp: placed_def own_placed_def)
    have "s_rest s = drop (length (s_out s)) (drop (s_start s) H)" using r(1,4) by (simp add: add.commute)
    then have "s_out s @ s_rest s = drop (s_start s) H" using r(5) by (metis append_take_drop_id)
    with r(2,3) True show ?thesis by (auto simp: rest_of_def)
  next
    case False
    with p assms(2) show ?thesis by (auto simp: rest_of_def placed_def own_placed_def split: option.splits)
  qed
qed

text \<open>C10. A reader of the event log gets one unbroken slice of it. In every schedule of publishers, drainer,
  subscriptions and close, the log is numbered 1, 2, 3, ...; what a subscription delivered is the run of
  records right behind the position it started from, without a hole, a repetition or a reordering, through the
  replay from the journal, the ring and the live stream; and a subscription ended by the log's close answers
  with exactly the rest, or refuses it where the rest is still the journal's.\<close>

theorem readers_get_a_slice:
  assumes "reachable_log l" and "g_sub l k = Some s"
  shows "map lr_seq (g_history l) = [1..<Suc (length (g_history l))] \<and>
    s_out s = take (length (s_out s)) (drop (s_start s) (g_history l)) \<and>
    (s_owner s = OwnDone \<longrightarrow>
      (case rest_of s of
         Inr tail \<Rightarrow> s_out s @ tail = drop (s_start s) (g_history l)
       | Inl e \<Rightarrow> if s_by_log s then e = SubRestUnavailable \<and> s_journal s else e = SubNoRest))"
proof -
  note i = log_inv_parts [OF reachable_inv [OF assms(1)]]
  have c: "contiguous 1 (g_history l)" using i(4) by (simp add: hist_ok_def)
  have s: "sub_inv (g_history l) s" using subs_each [OF i(5) assms(2)] by blast
  from s have "s_out s = take (length (s_out s)) (drop (s_start s) (g_history l))" by (auto simp: sub_inv_def placed_def)
  with contiguous_seqs [OF c] done_rest [OF s] show ?thesis by auto
qed

theorem readers_get_a_slice_witness:
  "\<exists>s. g_sub (log_run (demo_open @ [ActFlush 0] @ demo_drained @ demo_closed) demo_log) 0 = Some s \<and>
     s_owner s = OwnDone \<and> map lr_body (s_out s) = [''a''] \<and>
     (case rest_of s of
        Inr tail \<Rightarrow> s_out s @ tail = drop (s_start s) (g_history (log_run (demo_open @ [ActFlush 0] @ demo_drained @ demo_closed) demo_log))
      | Inl e \<Rightarrow> False)"
proof -
  let ?xs = "demo_open @ [ActFlush 0] @ demo_drained @ demo_closed"
  have r: "reachable_log (log_run ?xs demo_log)" by (rule demo_reachable) (simp add: demo_open_def demo_drained_def demo_closed_def)
  obtain s where s: "g_sub (log_run ?xs demo_log) 0 = Some s" "s_owner s = OwnDone" "map lr_body (s_out s) = [''a'']"
    "s_by_log s" "\<not> s_journal s"
    by (simp add: log_eval)
  from readers_get_a_slice [OF r s(1)] s show ?thesis by (auto split: sum.splits)
qed

text \<open>A slow reader costs the log no more than its budget. As long as a subscription's owner runs, the records
  it holds and has not handed to its reader are within the byte and record bounds it was given, and the next
  event drops it exactly when that event would take it over one of them; it is then told so.\<close>

theorem slow_reader_dropped:
  assumes "reachable_log l" and "g_sub l k = Some s" and "running s" and "s_cause s = None"
  shows "sizes (charged s @ s_live s) \<le> s_max_bytes s \<and>
    (if live_phase s then length (charged s) else 0) + length (s_live s) \<le> s_max_items s \<and>
    (fst (offer r s) = OfferDropped \<longleftrightarrow>
       (if live_phase s then length (charged s) else 0) + length (s_live s) \<ge> s_max_items s \<or>
       sizes (charged s @ s_live s @ [r]) > s_max_bytes s) \<and>
    (fst (offer r s) = OfferDropped \<longrightarrow> s_cause (snd (offer r s)) = Some SubSlowConsumer) \<and>
    (fst (offer r s) = OfferKept \<longrightarrow> s_live (snd (offer r s)) = s_live s @ [r])"
proof -
  have b: "budget s" using subs_each [OF log_inv_parts(5) [OF reachable_inv [OF assms(1)]] assms(2)] by blast
  from offer_drops [OF b assms(3,4)] b assms(3,4) show ?thesis
    by (auto simp: budget_def counted_def offer_def end_locked_def split: if_splits)
qed

theorem slow_reader_dropped_witness:
  "fst (offer (demo_rec ''d'') (the (g_sub (log_run (ActSubscribe 1 100 None JournalOff # tl demo_open @ demo_drained) demo_log) 0))) = OfferGone \<or>
   fst (offer (demo_rec ''d'') (the (g_sub (log_run (ActSubscribe 1 100 None JournalOff # tl demo_open @ take 4 demo_drained) demo_log) 0))) = OfferDropped"
proof -
  let ?xs = "ActSubscribe 1 100 None JournalOff # tl demo_open @ take 4 demo_drained"
  have r: "reachable_log (log_run ?xs demo_log)" by (rule demo_reachable) (simp add: demo_open_def demo_drained_def)
  obtain s where s: "g_sub (log_run ?xs demo_log) 0 = Some s" "running s" "s_cause s = None" "s_max_items s = 1"
    "length (s_live s) = 1"
    by (simp add: log_eval running_def)
  from slow_reader_dropped [OF r s(1-3), of "demo_rec ''d''"] s show ?thesis by simp
qed

lemma flush_asked: "flush_begin wid l = Some l' \<Longrightarrow> asked l' wid (g_enqueued l)"
  by (auto simp: flush_begin_def asked_def answer_flush_def split: if_splits)

lemma enough_done:
  assumes "acc @ bs = map fst dn @ rest" and "\<forall>b \<in> set acc. b_recs b \<noteq> []" and "events_of acc \<le> events_of (map fst dn)"
  shows "map fst (take (length acc) dn) = acc"
proof (cases "length acc \<le> length dn")
  case True
  then have "take (length acc) (acc @ bs) = take (length acc) (map fst dn)" using assms(1) by simp
  then show ?thesis by (simp add: take_map)
next
  case False
  then have "take (length (map fst dn)) (acc @ bs) = take (length (map fst dn)) acc" by simp
  with False have "take (length (map fst dn)) acc = map fst dn" unfolding assms(1) by simp
  then obtain b more where acc: "acc = map fst dn @ b # more"
    using False by (metis append_Nil2 append_take_drop_id length_map list.exhaust nle_le)
  then have "b_recs b \<noteq> []" using assms(2) by simp
  then have "events_of acc > events_of (map fst dn)" by (simp add: acc)
  with assms(3) show ?thesis by simp
qed

text \<open>A close begun stays begun.\<close>

lemma end_waiters_close [simp]: "g_close (end_waiters l) = g_close l"
  by (simp add: end_waiters_def answer_waiters_eq)

lemma commit_batch_close [simp]: "g_close (commit_batch b l) = g_close l"
  by (simp add: commit_batch_def answer_waiters_eq Let_def)

lemma close_stays:
  assumes "log_step x l = Some l'" and "g_close l \<noteq> CloseNot"
  shows "g_close l' \<noteq> CloseNot"
proof (cases "x = ActClose \<or> x = ActJournalClosed")
  case True
  with assms show ?thesis by (auto simp: close_step_def journal_closed_def split: close_phase.splits list.splits if_splits)
next
  case False
  then have "g_close l' = g_close l"
    using assms(1) by (cases x) (auto simp: pub_enter_def pub_acquire_def pub_send_def pub_commit_def pub_abandon_def
        read_primary_def enqueue_batch_def flush_begin_def flush_give_up_def answer_flush_def drain_step_def drain_cut_def
        subscribe_def register_def sub_act_def Let_def
        split: option.splits if_splits pub_phase.splits list.splits drain_phase.splits sum.splits)
  with assms(2) show ?thesis by simp
qed

text \<open>C12. A \<open>Flush\<close> answered nil covers everything accepted before it. If a \<open>Flush\<close> begun in a reachable state is
  answered nil in any schedule from there, then the batches the outbox had accepted when it began are, in
  their order, exactly the first ones committed, each whole and contiguous in the log.\<close>

theorem flush_covers_accepted:
  assumes "reachable_log l" and "flush_begin wid l = Some l1" and "schedule_ok xs l1"
    and "g_flushed (log_run xs l1) wid = Some (target, FlushNil)"
  shows "map fst (take (length (g_accepted l)) (g_done (log_run xs l1))) = g_accepted l \<and>
    (\<forall>(b, first) \<in> set (g_done (log_run xs l1)). committed_at (g_history (log_run xs l1)) b first)"
proof -
  let ?l = "log_run xs l1"
  have inv: "log_inv l" "log_inv l1" using reachable_inv [OF assms(1)] flush_begin_inv assms(2) by blast+
  have inv': "log_inv ?l" by (rule log_run_inv [OF inv(2) assms(3)])
  have e: "extends l ?l" by (rule extends_trans [OF flush_begin_extends [OF assms(2)] log_run_extends [OF inv(2) assms(3)]])
  note i' = log_inv_parts [OF inv']
  have "asked ?l wid (g_enqueued l)"
    using flush_asked [OF assms(2)] log_run_extends [OF inv(2) assms(3)] by (auto simp: extends_def)
  then have "target = g_enqueued l" using i'(8) assms(4) by (auto simp: asked_def flush_ok_def)
  then have n: "g_enqueued l \<le> g_drained ?l" using i'(8) assms(4) by (simp add: flush_ok_def)
  obtain bs where acc: "g_accepted ?l = g_accepted l @ bs" using e by (auto simp: extends_def)
  have "events_of (g_accepted l) \<le> events_of (map fst (g_done ?l))"
    using n log_inv_parts(7) [OF inv(1)] i'(7) by (simp add: count_ok_def)
  moreover have "\<forall>b \<in> set (g_accepted l). b_recs b \<noteq> []" using log_inv_parts(6) [OF inv(1)] by (simp add: batch_ok_def)
  moreover have "g_accepted l @ bs = map fst (g_done ?l) @ in_drain (g_drain ?l) @ g_outbox ?l"
    using i'(6) acc by (simp add: batch_ok_def)
  ultimately have "map fst (take (length (g_accepted l)) (g_done ?l)) = g_accepted l" by (intro enough_done)
  with i'(6) show ?thesis by (simp add: batch_ok_def)
qed

theorem flush_covers_accepted_witness:
  "length (g_accepted (log_run demo_open demo_log)) = 1 \<and>
   map fst (take 1 (g_done (log_run demo_drained (the (flush_begin 0 (log_run demo_open demo_log)))))) =
     g_accepted (log_run demo_open demo_log)"
proof -
  let ?l = "log_run demo_open demo_log"
  have r: "reachable_log ?l" by (rule demo_reachable) (simp add: demo_open_def)
  have n: "length (g_accepted ?l) = 1" by (simp add: log_eval)
  have f: "flush_begin 0 ?l = Some (the (flush_begin 0 ?l))" by (simp add: log_eval)
  have ok: "schedule_ok demo_drained (the (flush_begin 0 ?l))" by (rule no_head_ok) (simp add: demo_drained_def)
  have a: "g_flushed (log_run demo_drained (the (flush_begin 0 ?l))) 0 = Some (2, FlushNil)" by (simp add: log_eval)
  from flush_covers_accepted [OF r f ok a] n show ?thesis by simp
qed

text \<open>C27. The outbox keeps its order. In every reachable state the batches it accepted are those committed, then the
  one in the drainer's hands, then those waiting, in the order of their \<open>Enqueue\<close>; each committed batch is
  whole and contiguous in the log, behind the one before it; a ticket answers the number of the first event of
  its batch, or of the last one given it; and the two counters count exactly what is not accounted for yet.\<close>

theorem outbox_keeps_order:
  assumes "reachable_log l"
  shows "g_accepted l = map fst (g_done l) @ in_drain (g_drain l) @ g_outbox l \<and>
    (\<forall>(b, first) \<in> set (g_done l). committed_at (g_history l) b first) \<and>
    sorted_wrt (\<lambda>x y. snd x + length (b_recs (fst x)) \<le> snd y) (g_done l) \<and>
    (\<forall>t. g_tickets l t = (case filter (\<lambda>x. b_ticket (fst x) = Some t) (g_done l) of [] \<Rightarrow> 0 | xs \<Rightarrow> snd (last xs))) \<and>
    g_outbox_events l = int (events_of (in_account (g_drain l) @ in_drain (g_drain l) @ g_outbox l)) \<and>
    g_outbox_bytes l = int (bytes_of (in_account (g_drain l) @ in_drain (g_drain l) @ g_outbox l))"
  using log_inv_parts(6,7,9,11) [OF reachable_inv [OF assms]]
  unfolding batch_ok_def count_ok_def ticket_ok_def order_ok_def by simp

theorem outbox_keeps_order_witness:
  "\<exists>b. g_done (log_run (demo_open @ demo_drained) demo_log) = [(b, 1)] \<and>
     committed_at (g_history (log_run (demo_open @ demo_drained) demo_log)) b 1"
proof -
  let ?l = "log_run (demo_open @ demo_drained) demo_log"
  have r: "reachable_log ?l" by (rule demo_reachable) (simp add: demo_open_def demo_drained_def)
  obtain b where b: "g_done ?l = [(b, 1)]" by (simp add: log_eval)
  from outbox_keeps_order [OF r] b show ?thesis by auto
qed

text \<open>C28. The primary is the log. Where there is a primary, what its reader took and what is in its buffer is
  exactly the log in order, with the one event already sent and not committed yet behind it, less the numbers
  the drainer skipped after the cut; and the buffer never holds more than its capacity.\<close>

theorem primary_is_the_log:
  assumes "reachable_log l" and "\<not> g_no_primary l"
  shows "g_read l @ g_primary l =
      filter (\<lambda>r. lr_seq r \<notin> set (g_skipped l)) (g_history l @ pending (g_sem l) (g_pubs l) (g_drain l) (g_next l)) \<and>
    length (g_primary l) \<le> g_max_primary l \<and> (\<not> g_cut l \<longrightarrow> g_skipped l = [])"
  using log_inv_parts(10) [OF reachable_inv [OF assms(1)]] assms(2) by (auto simp: prim_ok_def)

theorem primary_is_the_log_witness:
  "map lr_body (g_read (log_run (demo_open @ demo_drained) demo_log) @ g_primary (log_run (demo_open @ demo_drained) demo_log)) =
    [''a'', ''b'', ''c'']"
proof -
  let ?l = "log_run (demo_open @ demo_drained) demo_log"
  have r: "reachable_log ?l" by (rule demo_reachable) (simp add: demo_open_def demo_drained_def)
  have f: "\<not> g_no_primary ?l" "g_skipped ?l = []" "g_sem ?l = None" "map lr_body (g_history ?l) = [''a'', ''b'', ''c'']"
    by (simp_all add: log_eval)
  have p: "pending (g_sem ?l) (g_pubs ?l) (g_drain ?l) (g_next ?l) = []" using f(3) by (simp add: pending_def)
  from primary_is_the_log [OF r f(1)] f(2,4) p show ?thesis by simp
qed

text \<open>C11. \<open>Close\<close> needs no reader. Once it has begun, in every reachable state until it has returned, a step is enabled
  that no reader of the primary or of a subscription has to take: a step of the log's own goroutines, or an answer of the
  journal to the log. The journal is all there is to wait for in just two places: the closer waiting for the owners while
  one of them is inside \<open>ReadRange\<close>, which does not see the end of the subscription before it has a record to send, and
  the journal's own \<open>Close\<close>, whose wait is bounded. And each such step, whichever is taken, brings the bound on what is
  left down; so \<open>Close\<close> returns when nobody reads, provided the journal answers the calls it was given.\<close>

theorem close_needs_no_reader:
  assumes "reachable_log l" and "g_close l \<noteq> CloseNot" and "g_close l \<noteq> CloseDone"
  shows "(\<exists>x. (unaided x l \<or> journal_answer x) \<and> log_step x l \<noteq> None) \<and>
    ((\<forall>x. unaided x l \<longrightarrow> log_step x l = None) \<longrightarrow>
      g_close l = CloseJournal \<or>
      g_close l = CloseOwners \<and> (\<exists>k s to' pin. g_sub l k = Some s \<and> s_owner s = OwnHead to' pin \<and> s_cause s \<noteq> None)) \<and>
    (\<forall>x l'. (unaided x l \<or> journal_answer x) \<longrightarrow> log_step x l = Some l' \<longrightarrow>
      close_work l' < close_work l \<and> g_close l' \<noteq> CloseNot)"
proof -
  note inv = reachable_inv [OF assms(1)]
  note moves = unaided_progress [OF inv assms(2,3)]
  have "g_close l' \<noteq> CloseNot" if "log_step x l = Some l'" for x l'
    using that close_stays [OF _ assms(2)] by blast
  moreover have "\<exists>x. (unaided x l \<or> journal_answer x) \<and> log_step x l \<noteq> None"
    using moves journal_moves by blast
  moreover have "awaits_journal l" if "\<forall>x. unaided x l \<longrightarrow> log_step x l = None" using moves that by metis
  moreover have "close_work l' < close_work l" if "unaided x l \<or> journal_answer x" "log_step x l = Some l'" for x l'
    using unaided_decreases [OF inv that] .
  ultimately show ?thesis unfolding awaits_journal_def by simp
qed

theorem close_needs_no_reader_witness:
  "\<exists>x. (unaided x (log_run (demo_open @ [ActClose]) demo_log) \<or> journal_answer x) \<and>
    log_step x (log_run (demo_open @ [ActClose]) demo_log) \<noteq> None"
proof -
  let ?l = "log_run (demo_open @ [ActClose]) demo_log"
  have r: "reachable_log ?l" by (rule demo_reachable) (simp add: demo_open_def)
  have c: "g_close ?l = CloseCut" by (simp add: log_eval)
  show ?thesis using close_needs_no_reader [OF r] by (simp add: c)
qed

end
