(* ===== verification/Session_Entry.thy ===== *)
theory Session_Entry
  imports Craze_Prelude
begin

text \<open>
  The lines of a native session's transcript: their data (\<open>internal/harness/store/entry.go\<close>), the rules a
  line keeps on its own, and the pairing of tool calls with their results from one line to the next
  (\<open>internal/harness/store/pairing.go\<close>).

  A message's parts are the third-party library's; of them the store reads a part's type, a call's id and
  who executed it, a result's id, its output and who executed it, and a text. A part whose type says call or
  result and which is neither is \<open>OddCall\<close> or \<open>OddResult\<close>. Provider options and a file's bytes are carried,
  never read. JSON is a parameter of the theory \<open>Session_Store\<close>.
\<close>

section \<open>Messages\<close>

datatype role = RoleSystem | RoleUser | RoleAssistant | RoleTool | RoleOther string

text \<open>An error output is \<open>OutError None\<close> where the error is nil, else its text.\<close>

datatype tool_output = OutNone | OutText string | OutError "string option" | OutMedia string

record call =
  k_id :: string
  k_name :: string
  k_input :: string
  k_provider :: bool

record result =
  rs_id :: string
  rs_output :: tool_output
  rs_provider :: bool

datatype part = PText string | PReasoning string | PFile string | PCall call | PResult result | OddCall | OddResult

record message =
  m_role :: role
  m_content :: "part list"
  m_options :: string

definition user_message :: "string \<Rightarrow> message" where
  "user_message text = \<lparr>m_role = RoleUser, m_content = [PText text], m_options = []\<rparr>"

text \<open>The ids a message's calls wait for, and those its results answer, in order.\<close>

fun open_call :: "part \<Rightarrow> string option" where
  "open_call (PCall c) = (if k_provider c then None else Some (k_id c))"
| "open_call _ = None"

fun own_result :: "part \<Rightarrow> string option" where
  "own_result (PResult r) = (if rs_provider r then None else Some (rs_id r))"
| "own_result _ = None"

definition open_calls :: "message \<Rightarrow> string list" where
  "open_calls m = List.map_filter open_call (m_content m)"

definition result_ids :: "message \<Rightarrow> string list" where
  "result_ids m = List.map_filter own_result (m_content m)"

text \<open>\<open>hasText\<close> and \<open>hasOutput\<close>; blank is Go's \<open>TrimSpace\<close>, a parameter where it matters (theory \<open>Session_Store\<close>).\<close>

fun part_text :: "part \<Rightarrow> string option" where
  "part_text (PText s) = Some s"
| "part_text _ = None"

fun is_call :: "part \<Rightarrow> bool" where
  "is_call (PCall c) = True"
| "is_call OddCall = True"
| "is_call _ = False"

section \<open>Entries\<close>

datatype entry_type = TypeMessage | TypeModelChange | TypeEffortChange | TypeModeChange | TypeResume
  | TypeReminder | TypeCompaction | TypeNewer string

record model_ref =
  md_provider :: string
  md_alias :: string
  md_wire :: string

record usage =
  us_input :: int
  us_output :: int
  us_reasoning :: int
  us_cache_read :: int
  us_cache_creation :: int

record model_usage =
  mu_model :: model_ref
  mu_usage :: usage
  mu_long :: usage

record todo =
  td_id :: string
  td_content :: string
  td_status :: string

record message_entry =
  me_message :: message
  me_model :: model_ref
  me_effort :: string
  me_usage :: "usage option"
  me_stop :: string
  me_interrupted :: bool
  me_subagents :: "model_usage list"
  me_results :: bool
  me_turn :: int
  me_todos :: "todo list option"

record compaction =
  cp_summary :: string
  cp_first_kept :: string
  cp_before :: int
  cp_after :: int
  cp_reason :: string
  cp_command :: string
  cp_segment :: string
  cp_error :: string
  cp_long :: usage

record contract =
  ct_version :: string
  ct_prompt :: string
  ct_profile :: string
  ct_tools :: string

record entry =
  en_type :: entry_type
  en_id :: string
  en_parent :: string
  en_time :: nat
  en_mode :: string
  en_contract :: contract
  en_variant :: string
  en_compaction :: compaction
  en_entry :: message_entry

abbreviation en_message :: "entry \<Rightarrow> message" where
  "en_message e \<equiv> me_message (en_entry e)"

abbreviation en_role :: "entry \<Rightarrow> role" where
  "en_role e \<equiv> m_role (en_message e)"

definition succeeded :: "compaction \<Rightarrow> bool" where
  "succeeded c \<longleftrightarrow> cp_summary c \<noteq> []"

definition zero_usage :: usage where
  "zero_usage = \<lparr>us_input = 0, us_output = 0, us_reasoning = 0, us_cache_read = 0, us_cache_creation = 0\<rparr>"

definition no_model :: model_ref where
  "no_model = \<lparr>md_provider = [], md_alias = [], md_wire = []\<rparr>"

definition zero_message_entry :: message_entry where
  "zero_message_entry =
     \<lparr>me_message = \<lparr>m_role = RoleOther [], m_content = [], m_options = []\<rparr>, me_model = no_model, me_effort = [],
      me_usage = None, me_stop = [], me_interrupted = False, me_subagents = [], me_results = False, me_turn = 0,
      me_todos = None\<rparr>"

definition zero_entry :: entry where
  "zero_entry =
     \<lparr>en_type = TypeMessage, en_id = [], en_parent = [], en_time = 0, en_mode = [],
      en_contract = \<lparr>ct_version = [], ct_prompt = [], ct_profile = [], ct_tools = []\<rparr>, en_variant = [],
      en_compaction = \<lparr>cp_summary = [], cp_first_kept = [], cp_before = 0, cp_after = 0, cp_reason = [], cp_command = [],
        cp_segment = [], cp_error = [], cp_long = zero_usage\<rparr>,
      en_entry = zero_message_entry\<rparr>"

section \<open>A line's own rules\<close>

definition CompactionAuto :: string where "CompactionAuto = ''auto''"
definition CompactionManual :: string where "CompactionManual = ''manual''"
definition CompactionOverflow :: string where "CompactionOverflow = ''overflow''"
definition maxSegmentName :: nat where "maxSegmentName = 255"
definition maxVariant :: nat where "maxVariant = 64"

text \<open>A control character of a UTF-8 string: below space, delete, or the two bytes of U+0080 to U+009F (the first of
  them is never a continuation byte).\<close>

fun has_control :: "string \<Rightarrow> bool" where
  "has_control [] = False"
| "has_control (c # cs) =
     (of_char c < (32::nat) \<or> of_char c = (127::nat) \<or>
      of_char c = (194::nat) \<and> (case cs of [] \<Rightarrow> False | d # ds \<Rightarrow> of_char d \<ge> (128::nat) \<and> of_char d \<le> (159::nat)) \<or>
      has_control cs)"

definition plain_file_name :: "string \<Rightarrow> bool" where
  "plain_file_name name \<longleftrightarrow>
     name \<noteq> [] \<and> name \<noteq> ''.'' \<and> name \<noteq> ''..'' \<and> length name \<le> maxSegmentName \<and>
     CHR ''/'' \<notin> set name \<and> CHR 0x5C \<notin> set name \<and> \<not> has_control name"

definition model_named :: "model_ref \<Rightarrow> bool" where
  "model_named m \<longleftrightarrow> md_provider m \<noteq> [] \<and> md_alias m \<noteq> [] \<and> md_wire m \<noteq> []"

definition negative_usage :: "usage \<Rightarrow> bool" where
  "negative_usage u \<longleftrightarrow>
     us_input u < 0 \<or> us_output u < 0 \<or> us_reasoning u < 0 \<or> us_cache_read u < 0 \<or> us_cache_creation u < 0"

definition check_compaction :: "entry \<Rightarrow> bool" where
  "check_compaction e =
     (let c = en_compaction e in
      if me_turn (en_entry e) < 1 then False
      else if \<not> model_named (me_model (en_entry e)) then False
      else case me_usage (en_entry e) of
        None \<Rightarrow> False
      | Some u \<Rightarrow>
          if negative_usage u then False
          else if cp_before c < 0 \<or> cp_after c < 0 then False
          else if cp_reason c \<noteq> CompactionAuto \<and> cp_reason c \<noteq> CompactionManual \<and> cp_reason c \<noteq> CompactionOverflow then False
          else if cp_command c \<noteq> [] \<and> cp_reason c \<noteq> CompactionManual then False
          else if (cp_summary c = []) = (cp_error c = []) then False
          else if cp_error c \<noteq> [] \<and> (cp_first_kept c \<noteq> [] \<or> cp_segment c \<noteq> []) then False
          else if cp_segment c \<noteq> [] \<and> \<not> plain_file_name (cp_segment c) then False
          else True)"

definition variant_char :: "char \<Rightarrow> bool" where
  "variant_char c \<longleftrightarrow>
     (let n = of_char c :: nat in 97 \<le> n \<and> n \<le> 122 \<or> 48 \<le> n \<and> n \<le> 57 \<or> n = 95)"

definition check_variant :: "string \<Rightarrow> bool" where
  "check_variant v \<longleftrightarrow> v \<noteq> [] \<and> length v \<le> maxVariant \<and> list_all variant_char v"

definition todo_statuses :: "string list" where
  "todo_statuses = [''pending'', ''in_progress'', ''completed'', ''cancelled'']"

fun check_todos :: "string list \<Rightarrow> todo list \<Rightarrow> bool" where
  "check_todos seen [] = True"
| "check_todos seen (it # items) =
     (if td_id it = [] then False
      else if td_id it \<in> set seen then False
      else if td_status it \<notin> set todo_statuses then False
      else check_todos (td_id it # seen) items)"

definition check_fields :: "message_entry \<Rightarrow> bool" where
  "check_fields e =
     (if me_turn e < 0 then False
      else if me_turn e \<noteq> 0 \<and> m_role (me_message e) \<noteq> RoleUser then False
      else case me_todos e of
        None \<Rightarrow> True
      | Some items \<Rightarrow> if m_role (me_message e) \<noteq> RoleTool then False else check_todos [] items)"

definition check_output :: "tool_output \<Rightarrow> bool" where
  "check_output out =
     (case out of OutNone \<Rightarrow> False | OutError None \<Rightarrow> False | OutError (Some s) \<Rightarrow> s \<noteq> [] | _ \<Rightarrow> True)"

datatype parts_error = PartOdd nat | PartUnpaired nat | PartOutput nat | NoResults

text \<open>What one part of a message is to its pairing: refused, nothing, or an id.\<close>

definition part_id :: "role \<Rightarrow> nat \<Rightarrow> part \<Rightarrow> parts_error + string option" where
  "part_id role i p =
     (case p of
        OddCall \<Rightarrow> Inl (PartOdd i)
      | PCall c \<Rightarrow>
          if role \<noteq> RoleAssistant then Inl (PartUnpaired i)
          else if k_provider c then Inr None else Inr (Some (k_id c))
      | OddResult \<Rightarrow> Inl (PartOdd i)
      | PResult r \<Rightarrow>
          if rs_provider r \<and> role \<noteq> RoleAssistant then Inl (PartUnpaired i)
          else if rs_provider r then Inr None
          else if role \<noteq> RoleTool then Inl (PartUnpaired i)
          else if \<not> check_output (rs_output r) then Inl (PartOutput i)
          else Inr (Some (rs_id r))
      | _ \<Rightarrow> if role = RoleTool then Inl (PartUnpaired i) else Inr None)"

fun check_parts_from :: "role \<Rightarrow> nat \<Rightarrow> string list \<Rightarrow> part list \<Rightarrow> parts_error option" where
  "check_parts_from role i seen [] = (if role = RoleTool \<and> seen = [] then Some NoResults else None)"
| "check_parts_from role i seen (p # ps) =
     (case part_id role i p of
        Inl e \<Rightarrow> Some e
      | Inr None \<Rightarrow> check_parts_from role (Suc i) seen ps
      | Inr (Some n) \<Rightarrow>
          if n = [] then Some (PartUnpaired i)
          else if n \<in> set seen then Some (PartUnpaired i)
          else check_parts_from role (Suc i) (n # seen) ps)"

definition check_parts :: "message \<Rightarrow> parts_error option" where
  "check_parts m = check_parts_from (m_role m) 0 [] (m_content m)"

section \<open>Pairing\<close>

definition has_open_calls :: "entry option \<Rightarrow> bool" where
  "has_open_calls e =
     (case e of
        None \<Rightarrow> False
      | Some e \<Rightarrow> en_type e = TypeMessage \<and> en_role e = RoleAssistant \<and> open_calls (en_message e) \<noteq> [])"

datatype pair_error = PairParts parts_error | PairBetween | PairParent | PairAnswers | PairNoCalls | PairBranch

text \<open>The state between two lines is the line before, when its calls are still to be answered.\<close>

definition pairing_after :: "entry option \<Rightarrow> entry option" where
  "pairing_after e = (if has_open_calls e then e else None)"

definition is_tool :: "entry \<Rightarrow> bool" where
  "is_tool e \<longleftrightarrow> en_type e = TypeMessage \<and> en_role e = RoleTool"

definition pair_check :: "entry option \<Rightarrow> entry \<Rightarrow> entry option \<Rightarrow> pair_error option" where
  "pair_check open' e parent =
     (case (if en_type e = TypeMessage then check_parts (en_message e) else None) of
        Some err \<Rightarrow> Some (PairParts err)
      | None \<Rightarrow>
          (case open' of
             Some a \<Rightarrow>
               if \<not> is_tool e then Some PairBetween
               else if en_parent e \<noteq> en_id a then Some PairParent
               else if result_ids (en_message e) \<noteq> open_calls (en_message a) then Some PairAnswers
               else None
           | None \<Rightarrow>
               if is_tool e then Some PairNoCalls
               else if has_open_calls parent then Some PairBranch
               else None))"

definition pair_next :: "entry option \<Rightarrow> entry \<Rightarrow> entry option \<Rightarrow> pair_error option \<times> entry option" where
  "pair_next open' e parent = (pair_check open' e parent, pairing_after (Some e))"

text \<open>The ids of a message that passed: distinct and not empty.\<close>

lemma check_parts_from_calls:
  "check_parts_from RoleAssistant i seen ps = None \<Longrightarrow>
     distinct (List.map_filter open_call ps) \<and> [] \<notin> set (List.map_filter open_call ps) \<and>
     set (List.map_filter open_call ps) \<inter> set seen = {} \<and> List.map_filter own_result ps = []"
proof (induction ps arbitrary: i seen)
  case (Cons p ps)
  show ?case
  proof (cases p)
    case (PCall c)
    show ?thesis using Cons.prems Cons.IH [of "Suc i" seen] Cons.IH [of "Suc i" "k_id c # seen"]
      by (auto simp: PCall part_id_def map_filter_simps split: if_splits)
  qed (use Cons.prems Cons.IH [of "Suc i" seen] in \<open>auto simp: part_id_def map_filter_simps split: if_splits\<close>)
qed (simp add: map_filter_simps)

lemma check_parts_from_results:
  "check_parts_from RoleTool i seen ps = None \<Longrightarrow>
     distinct (List.map_filter own_result ps) \<and> [] \<notin> set (List.map_filter own_result ps) \<and>
     set (List.map_filter own_result ps) \<inter> set seen = {} \<and> List.map_filter open_call ps = [] \<and>
     (seen = [] \<longrightarrow> List.map_filter own_result ps \<noteq> [])"
proof (induction ps arbitrary: i seen)
  case (Cons p ps)
  show ?case
  proof (cases p)
    case (PResult r)
    show ?thesis using Cons.prems Cons.IH [of "Suc i" "rs_id r # seen"]
      by (auto simp: PResult part_id_def map_filter_simps split: if_splits)
  qed (use Cons.prems in \<open>auto simp: part_id_def map_filter_simps split: if_splits\<close>)
qed (simp add: map_filter_simps split: if_splits)

lemma check_parts_from_other:
  "check_parts_from role i seen ps = None \<Longrightarrow> role \<noteq> RoleAssistant \<Longrightarrow> List.map_filter open_call ps = []"
  by (induction role i seen ps rule: check_parts_from.induct)
    (auto simp: part_id_def map_filter_simps split: part.splits if_splits)

lemma check_parts_roles:
  assumes "check_parts m = None"
  shows "m_role m \<noteq> RoleAssistant \<Longrightarrow> open_calls m = []"
    and "m_role m = RoleAssistant \<Longrightarrow> distinct (open_calls m) \<and> [] \<notin> set (open_calls m)"
    and "m_role m = RoleTool \<Longrightarrow> result_ids m \<noteq> []"
  using assms check_parts_from_calls [of 0 "[]" "m_content m"] check_parts_from_results [of 0 "[]" "m_content m"]
    check_parts_from_other [of "m_role m" 0 "[]" "m_content m"]
  by (auto simp: check_parts_def open_calls_def result_ids_def)

end
