(* ===== verification/Session_Tree.thy ===== *)
theory Session_Tree
  imports Session_Entry
begin

text \<open>
  A native session's transcript as the tree its lines form, and the history a request sends from one of its
  entries (\<open>internal/harness/store/transcript.go\<close>).

  \<^item> \<open>transcript\<close> is the Go struct: the entries in file order and the index from an id to a position. A map's
    missing key reads as position 0, as in Go. An entry's copy is the entry, and a slice of messages with the
    slice of marks beside it is one list of pairs.
  \<^item> A walk (\<open>tree_walk\<close>) towards the root follows the parents as the code does, so it returns \<open>None\<close> where the code would
    not return; in a transcript whose parents come first (\<open>tree_ok\<close>) it always does.
  \<^item> Token counts and sizes are unbounded integers. Error texts are not modelled.
\<close>

section \<open>State\<close>

record header =
  h_version :: int
  h_id :: string
  h_time :: nat
  h_cwd :: string
  h_contract :: contract
  h_parent_session :: string
  h_parent_call :: string
  h_subagent :: string
  h_persona :: string

record renderer =
  rd_reminder :: "(string \<Rightarrow> message option) option"
  rd_summary :: "(compaction \<Rightarrow> message) option"

record transcript =
  t_header :: header
  t_entries :: "entry list"
  t_index :: "string \<Rightarrow> nat option"
  t_render :: renderer

definition no_renderer :: renderer where
  "no_renderer = \<lparr>rd_reminder = None, rd_summary = None\<rparr>"

definition new_transcript :: "header \<Rightarrow> transcript" where
  "new_transcript h = \<lparr>t_header = h, t_entries = [], t_index = (\<lambda>_. None), t_render = no_renderer\<rparr>"

datatype check_error = RepeatsId | NoSuchParent

definition t_check :: "transcript \<Rightarrow> entry \<Rightarrow> check_error option" where
  "t_check t e =
     (if t_index t (en_id e) \<noteq> None then Some RepeatsId
      else if en_parent e \<noteq> [] \<and> t_index t (en_parent e) = None then Some NoSuchParent
      else None)"

definition t_add :: "entry \<Rightarrow> transcript \<Rightarrow> transcript" where
  "t_add e t = t\<lparr>t_index := (t_index t)(en_id e \<mapsto> length (t_entries t)), t_entries := t_entries t @ [e]\<rparr>"

definition t_has :: "transcript \<Rightarrow> string \<Rightarrow> bool" where
  "t_has t i \<longleftrightarrow> t_index t i \<noteq> None"

definition t_entry :: "transcript \<Rightarrow> string \<Rightarrow> entry option" where
  "t_entry t i = map_option (\<lambda>k. t_entries t ! k) (t_index t i)"

definition t_last :: "transcript \<Rightarrow> entry option" where
  "t_last t = (if t_entries t = [] then None else Some (last (t_entries t)))"

definition leaf_of :: "transcript \<Rightarrow> string" where
  "leaf_of t = (if t_entries t = [] then [] else en_id (last (t_entries t)))"

section \<open>Walking to the root\<close>

datatype tree_error = UnknownEntry

partial_function (option) walk_from :: "transcript \<Rightarrow> nat \<Rightarrow> nat list option" where
  "walk_from t i =
     (let parent = en_parent (t_entries t ! i) in
      if parent = [] then Some [i]
      else Option.bind (walk_from t (case t_index t parent of None \<Rightarrow> 0 | Some j \<Rightarrow> j)) (\<lambda>path. Some (i # path)))"

definition tree_walk :: "transcript \<Rightarrow> string \<Rightarrow> (tree_error + nat list) option" where
  "tree_walk t leaf =
     (if leaf = [] then Some (Inr [])
      else case t_index t leaf of
        None \<Rightarrow> Some (Inl UnknownEntry)
      | Some i \<Rightarrow> map_option Inr (walk_from t i))"

abbreviation along :: "('p \<Rightarrow> 'q) \<Rightarrow> ('e + 'p) option \<Rightarrow> ('e + 'q) option" where
  "along f \<equiv> map_option (map_sum id f)"

definition branch :: "transcript \<Rightarrow> string \<Rightarrow> (tree_error + entry list) option" where
  "branch t leaf = along (\<lambda>path. map (\<lambda>i. t_entries t ! i) (rev path)) (tree_walk t leaf)"

section \<open>Steps\<close>

definition step_end :: "entry option \<Rightarrow> bool" where
  "step_end e =
     (case e of
        None \<Rightarrow> False
      | Some e \<Rightarrow>
          if en_type e \<noteq> TypeMessage then False
          else case en_role e of
            RoleTool \<Rightarrow> True
          | RoleAssistant \<Rightarrow> \<not> has_open_calls (Some e)
          | _ \<Rightarrow> False)"

partial_function (option) skip_compactions :: "transcript \<Rightarrow> entry option \<Rightarrow> entry option option" where
  "skip_compactions t p =
     (case p of
        None \<Rightarrow> Some None
      | Some e \<Rightarrow>
          if en_type e = TypeCompaction then skip_compactions t (t_entry t (en_parent e)) else Some (Some e))"

definition starts_step :: "transcript \<Rightarrow> entry \<Rightarrow> bool option" where
  "starts_step t e =
     (if en_type e = TypeCompaction then Some False
      else map_option (\<lambda>p. p = None \<or> step_end p) (skip_compactions t (t_entry t (en_parent e))))"

partial_function (option) find_up :: "transcript \<Rightarrow> string \<Rightarrow> entry option \<Rightarrow> entry option option" where
  "find_up t i p =
     (case p of
        None \<Rightarrow> Some None
      | Some e \<Rightarrow> if en_id e = i then Some (Some e) else find_up t i (t_entry t (en_parent e)))"

declare walk_from.simps [code] skip_compactions.simps [code] find_up.simps [code]

datatype tail_error = TailMidStep | TailNotBefore

text \<open>\<open>checkTail\<close>: no error, or which.\<close>

definition check_tail :: "transcript \<Rightarrow> entry \<Rightarrow> entry option \<Rightarrow> tail_error option option" where
  "check_tail t e parent =
     (if en_type e \<noteq> TypeCompaction \<or> cp_first_kept (en_compaction e) = [] then Some None
      else Option.bind (find_up t (cp_first_kept (en_compaction e)) parent) (\<lambda>p.
        case p of
          None \<Rightarrow> Some (Some TailNotBefore)
        | Some q \<Rightarrow> map_option (\<lambda>b. if b then None else Some TailMidStep) (starts_step t q)))"

text \<open>The loop of \<open>dropIncompleteTurn\<close>, and what it keeps.\<close>

definition ends_unit :: "entry \<Rightarrow> bool" where
  "ends_unit e \<longleftrightarrow> step_end (Some e) \<or> en_type e = TypeCompaction"

fun keep_from :: "nat \<Rightarrow> nat \<Rightarrow> entry list \<Rightarrow> nat" where
  "keep_from keep i [] = keep"
| "keep_from keep i (e # es) = keep_from (if ends_unit e then i + 1 else keep) (i + 1) es"

definition drop_incomplete :: "transcript \<Rightarrow> nat \<times> transcript" where
  "drop_incomplete t =
     (let keep = keep_from 0 0 (t_entries t)
      in (keep, t\<lparr>t_index := foldl (\<lambda>ix e. ix(en_id e := None)) (t_index t) (drop keep (t_entries t)),
                   t_entries := take keep (t_entries t)\<rparr>))"

section \<open>What a request sends\<close>

fun model_specific :: "part \<Rightarrow> bool" where
  "model_specific (PReasoning s) = True"
| "model_specific (PCall c) = k_provider c"
| "model_specific (PResult r) = rs_provider r"
| "model_specific _ = False"

definition other_model :: "entry \<Rightarrow> model_ref \<Rightarrow> bool" where
  "other_model e current \<longleftrightarrow>
     en_role e = RoleAssistant \<and>
     (md_provider (me_model (en_entry e)) \<noteq> md_provider current \<or> md_wire (me_model (en_entry e)) \<noteq> md_wire current)"

definition replayed :: "entry \<Rightarrow> model_ref \<Rightarrow> message option" where
  "replayed e current =
     (let parts = filter (\<lambda>p. \<not> (other_model e current \<and> model_specific p)) (m_content (en_message e))
      in if en_role e = RoleAssistant \<and> parts = [] then None
         else Some ((en_message e)\<lparr>m_content := parts\<rparr>))"

definition render_reminder :: "transcript \<Rightarrow> string \<Rightarrow> message option" where
  "render_reminder t v = (case rd_reminder (t_render t) of None \<Rightarrow> None | Some f \<Rightarrow> f v)"

fun messages_from :: "transcript \<Rightarrow> model_ref \<Rightarrow> bool \<Rightarrow> entry list \<Rightarrow> (message \<times> bool) list" where
  "messages_from t current dropped [] = []"
| "messages_from t current dropped (e # es) =
     (if en_type e = TypeReminder
      then (case render_reminder t (en_variant e) of None \<Rightarrow> [] | Some m \<Rightarrow> [(m, False)]) @ messages_from t current False es
      else if en_type e \<noteq> TypeMessage then messages_from t current dropped es
      else if en_role e = RoleTool \<and> dropped then messages_from t current False es
      else case replayed e current of
        None \<Rightarrow> messages_from t current True es
      | Some m \<Rightarrow> (m, me_results (en_entry e)) # messages_from t current False es)"

definition messages_of :: "transcript \<Rightarrow> entry list \<Rightarrow> model_ref \<Rightarrow> (message \<times> bool) list" where
  "messages_of t entries current = messages_from t current False entries"

definition unanswered :: "message \<Rightarrow> bool" where
  "unanswered m \<longleftrightarrow> m_role m = RoleUser \<or> m_role m = RoleAssistant \<and> open_calls m \<noteq> []"

function trim_unanswered :: "nat \<Rightarrow> (message \<times> bool) list \<Rightarrow> (message \<times> bool) list" where
  "trim_unanswered hd' msgs =
     (if length msgs > hd' \<and> unanswered (fst (last msgs)) then trim_unanswered hd' (butlast msgs) else msgs)"
  by pat_completeness auto
termination
  by (relation "measure (\<lambda>(_, msgs). length msgs)") auto

declare trim_unanswered.simps [simp del]

text \<open>\<open>contextEntries\<close> on a path, leaf first: the latest successful compaction, and the entries after it led by its
  tail.\<close>

definition cuts :: "entry \<Rightarrow> bool" where
  "cuts e \<longleftrightarrow> en_type e = TypeCompaction \<and> succeeded (en_compaction e)"

definition cut_path :: "transcript \<Rightarrow> nat list \<Rightarrow> entry option \<times> entry list" where
  "cut_path t path =
     (let at = (\<lambda>i. t_entries t ! i) in
      case index_where (\<lambda>i. cuts (at i)) path of
        None \<Rightarrow> (None, map at (rev path))
      | Some k \<Rightarrow>
          (let c = at (path ! k); first = cp_first_kept (en_compaction c);
               upto = (if first = [] then k
                       else case index_where (\<lambda>i. en_id (at i) = first) (drop (Suc k) path) of
                              None \<Rightarrow> k | Some j \<Rightarrow> Suc (Suc k + j))
           in (Some c, map at (filter (\<lambda>i. i \<noteq> path ! k) (rev (take upto path))))))"

definition context_entries :: "transcript \<Rightarrow> string \<Rightarrow> (tree_error + entry option \<times> entry list) option" where
  "context_entries t leaf = along (cut_path t) (tree_walk t leaf)"

definition context_msgs :: "transcript \<Rightarrow> model_ref \<Rightarrow> entry option \<times> entry list \<Rightarrow> (message \<times> bool) list" where
  "context_msgs t current ce =
     (let head = (case (fst ce, rd_summary (t_render t)) of
                    (Some c, Some f) \<Rightarrow> [(f (en_compaction c), True)] | _ \<Rightarrow> [])
      in trim_unanswered (length head) (head @ messages_of t (snd ce) current))"

definition context_at :: "transcript \<Rightarrow> string \<Rightarrow> model_ref \<Rightarrow> (tree_error + (message \<times> bool) list) option" where
  "context_at t leaf current = along (context_msgs t current) (context_entries t leaf)"

definition leads_with_summary :: "transcript \<Rightarrow> bool option" where
  "leads_with_summary t =
     map_option (\<lambda>r. case r of Inl _ \<Rightarrow> False | Inr (c, _) \<Rightarrow> c \<noteq> None \<and> rd_summary (t_render t) \<noteq> None)
       (context_entries t (leaf_of t))"

record context_frontier =
  f_entry :: entry
  f_after :: "(message \<times> bool) list"

definition frontier_in :: "transcript \<Rightarrow> model_ref \<Rightarrow> nat list \<Rightarrow> context_frontier option" where
  "frontier_in t current path =
     (let at = (\<lambda>i. t_entries t ! i);
          asked = (\<lambda>e. en_type e = TypeMessage \<and> en_role e = RoleAssistant \<and> me_usage (en_entry e) \<noteq> None)
      in case index_where (\<lambda>i. cuts (at i) \<or> asked (at i)) path of
        None \<Rightarrow> None
      | Some k \<Rightarrow>
          if cuts (at (path ! k)) then None
          else Some \<lparr>f_entry = at (path ! k),
                     f_after = trim_unanswered 0 (messages_of t (map at (rev (take k path))) current)\<rparr>)"

definition frontier_at :: "transcript \<Rightarrow> string \<Rightarrow> model_ref \<Rightarrow> (tree_error + context_frontier option) option" where
  "frontier_at t leaf current = along (frontier_in t current) (tree_walk t leaf)"

record step =
  sp_first :: string
  sp_entries :: "entry list"
  sp_messages :: "message list"

fun steps_from :: "transcript \<Rightarrow> model_ref \<Rightarrow> entry list \<Rightarrow> entry list \<Rightarrow> step list" where
  "steps_from t current run [] = []"
| "steps_from t current run (e # es) =
     (if en_type e = TypeCompaction then steps_from t current run es
      else let run' = run @ [e] in
        if \<not> step_end (Some e) then steps_from t current run' es
        else \<lparr>sp_first = en_id (hd run'), sp_entries = run', sp_messages = map fst (messages_of t run' current)\<rparr>
               # steps_from t current [] es)"

definition steps_at :: "transcript \<Rightarrow> string \<Rightarrow> model_ref \<Rightarrow> (tree_error + step list) option" where
  "steps_at t leaf current = along (\<lambda>ce. steps_from t current [] (snd ce)) (context_entries t leaf)"

fun cut_from :: "step list \<Rightarrow> int \<Rightarrow> (message \<Rightarrow> int) \<Rightarrow> nat \<Rightarrow> int \<Rightarrow> nat" where
  "cut_from steps budget size' 0 acc = 0"
| "cut_from steps budget size' (Suc k) acc =
     (let n = sum_list (map size' (sp_messages (steps ! k)))
      in if acc + n > budget then Suc k else cut_from steps budget size' k (acc + n))"

definition cut_steps :: "step list \<Rightarrow> int \<Rightarrow> (message \<Rightarrow> int) \<Rightarrow> nat" where
  "cut_steps steps budget size' =
     (if budget \<le> 0 then length steps else cut_from steps budget size' (length steps) 0)"

section \<open>A well-formed tree\<close>

text \<open>The index is the entries', ids are distinct and not empty, and a parent comes first.\<close>

definition tree_ok :: "transcript \<Rightarrow> bool" where
  "tree_ok t \<longleftrightarrow>
     (\<forall>s i. t_index t s = Some i \<longleftrightarrow> i < length (t_entries t) \<and> en_id (t_entries t ! i) = s) \<and>
     (\<forall>e \<in> set (t_entries t). en_id e \<noteq> []) \<and>
     (\<forall>i < length (t_entries t). en_parent (t_entries t ! i) \<noteq> [] \<longrightarrow>
        (\<exists>j < i. t_index t (en_parent (t_entries t ! i)) = Some j))"

lemma tree_ok_new: "tree_ok (new_transcript h)"
  by (simp add: tree_ok_def new_transcript_def)

lemma t_index_lt: "tree_ok t \<Longrightarrow> t_index t s = Some i \<Longrightarrow> i < length (t_entries t) \<and> en_id (t_entries t ! i) = s"
  by (simp add: tree_ok_def)

lemma t_index_id: "tree_ok t \<Longrightarrow> i < length (t_entries t) \<Longrightarrow> t_index t (en_id (t_entries t ! i)) = Some i"
  by (simp add: tree_ok_def)

lemma t_entry_id: "tree_ok t \<Longrightarrow> i < length (t_entries t) \<Longrightarrow> t_entry t (en_id (t_entries t ! i)) = Some (t_entries t ! i)"
  by (simp add: t_entry_def t_index_id)

lemma ids_inj: "tree_ok t \<Longrightarrow> i < length (t_entries t) \<Longrightarrow> j < length (t_entries t) \<Longrightarrow>
    en_id (t_entries t ! i) = en_id (t_entries t ! j) \<Longrightarrow> i = j"
  by (metis t_index_id option.inject)

lemma id_nonempty: "tree_ok t \<Longrightarrow> i < length (t_entries t) \<Longrightarrow> en_id (t_entries t ! i) \<noteq> []"
  by (simp add: tree_ok_def)

lemma parent_before: "tree_ok t \<Longrightarrow> i < length (t_entries t) \<Longrightarrow> en_parent (t_entries t ! i) \<noteq> [] \<Longrightarrow>
    \<exists>j < i. t_index t (en_parent (t_entries t ! i)) = Some j"
  unfolding tree_ok_def by blast

lemma t_add_simps [simp]:
  "t_entries (t_add e t) = t_entries t @ [e]" "t_render (t_add e t) = t_render t" "t_header (t_add e t) = t_header t"
  "t_index (t_add e t) = (t_index t)(en_id e \<mapsto> length (t_entries t))"
  by (simp_all add: t_add_def)

lemma tree_ok_add:
  assumes ok: "tree_ok t" and c: "t_check t e = None" and n: "en_id e \<noteq> []"
  shows "tree_ok (t_add e t)"
proof -
  have fresh: "t_index t (en_id e) = None" and par: "en_parent e \<noteq> [] \<longrightarrow> (\<exists>j. t_index t (en_parent e) = Some j)"
    using c by (auto simp: t_check_def split: if_splits)
  have new: "en_id (t_entries t ! i) \<noteq> en_id e" if "i < length (t_entries t)" for i
    using t_index_id [OF ok that] fresh by auto
  have ix: "t_index (t_add e t) s = Some i \<longleftrightarrow> i < length (t_entries (t_add e t)) \<and> en_id (t_entries (t_add e t) ! i) = s" for s i
    using ok new by (auto simp: tree_ok_def nth_append less_Suc_eq)
  have "\<exists>j<i. t_index (t_add e t) (en_parent (t_entries (t_add e t) ! i)) = Some j"
    if i: "i < length (t_entries (t_add e t))" "en_parent (t_entries (t_add e t) ! i) \<noteq> []" for i
  proof (cases "i = length (t_entries t)")
    case True
    with i par obtain j where "t_index t (en_parent e) = Some j" by auto
    moreover from this have "j < length (t_entries t)" "en_parent e \<noteq> en_id e" using t_index_lt [OF ok] fresh by auto
    ultimately show ?thesis using True by (intro exI [of _ j]) simp
  next
    case False
    with i have l: "i < length (t_entries t)" "en_parent (t_entries t ! i) \<noteq> []" by (simp_all add: nth_append)
    with parent_before [OF ok l] obtain j where "j < i" "t_index t (en_parent (t_entries t ! i)) = Some j" by blast
    moreover from this have "en_parent (t_entries t ! i) \<noteq> en_id e" using fresh by auto
    ultimately show ?thesis using l by (intro exI [of _ j]) (simp add: nth_append)
  qed
  with ix ok n show ?thesis unfolding tree_ok_def by auto
qed

text \<open>A path: each position's parent is the next one, which is earlier, and the last is a root.\<close>

fun is_path :: "transcript \<Rightarrow> nat list \<Rightarrow> bool" where
  "is_path t [] = False"
| "is_path t [i] = (i < length (t_entries t) \<and> en_parent (t_entries t ! i) = [])"
| "is_path t (i # j # path) =
     (i < length (t_entries t) \<and> en_parent (t_entries t ! i) \<noteq> [] \<and> t_index t (en_parent (t_entries t ! i)) = Some j \<and>
      j < i \<and> is_path t (j # path))"

lemma walk_from_path:
  assumes ok: "tree_ok t"
  shows "i < length (t_entries t) \<Longrightarrow> \<exists>path. walk_from t i = Some (i # path) \<and> is_path t (i # path)"
proof (induction i rule: less_induct)
  case (less i)
  show ?case
  proof (cases "en_parent (t_entries t ! i) = []")
    case True
    with less.prems show ?thesis by (intro exI [of _ "[]"]) (simp add: walk_from.simps [of t i])
  next
    case False
    then obtain j where j: "j < i" "t_index t (en_parent (t_entries t ! i)) = Some j"
      using parent_before [OF ok less.prems] by blast
    then obtain path where p: "walk_from t j = Some (j # path)" "is_path t (j # path)"
      using less.IH [OF j(1)] less.prems by (meson less_trans)
    have "walk_from t i = Some (i # j # path)" using False j p(1) by (simp add: walk_from.simps [of t i])
    moreover have "is_path t (i # j # path)" using False j p(2) less.prems by simp
    ultimately show ?thesis by blast
  qed
qed

lemma is_path_Cons: "is_path t (i # path) \<Longrightarrow> i < length (t_entries t)"
  by (cases path) auto

lemma is_path_lt: "is_path t path \<Longrightarrow> i \<in> set path \<Longrightarrow> i < length (t_entries t)"
  by (induction t path rule: is_path.induct) auto

lemma is_path_less: "is_path t (i # path) \<Longrightarrow> j \<in> set path \<Longrightarrow> j < i"
proof (induction path arbitrary: i)
  case (Cons k path)
  then have "is_path t (k # path)" "k < i" by auto
  with Cons show ?case by (cases "j = k") (auto intro: less_trans)
qed simp

lemma is_path_tail: "is_path t (i # path) \<Longrightarrow> path \<noteq> [] \<Longrightarrow> is_path t path"
  by (cases path) auto

lemma is_path_distinct: "is_path t path \<Longrightarrow> distinct path"
proof (induction path)
  case (Cons i path)
  then show ?case using is_path_less [OF Cons.prems] is_path_tail [OF Cons.prems] by (cases "path = []") auto
qed simp

lemma is_path_parent:
  "is_path t path \<Longrightarrow> Suc k < length path \<Longrightarrow>
     t_index t (en_parent (t_entries t ! (path ! k))) = Some (path ! Suc k) \<and> en_parent (t_entries t ! (path ! k)) \<noteq> []"
proof (induction path arbitrary: k)
  case (Cons i path)
  then obtain j rest where p: "path = j # rest" by (cases path) auto
  show ?case
  proof (cases k)
    case 0
    with Cons.prems p show ?thesis by simp
  next
    case (Suc m)
    with Cons.IH [of m] Cons.prems p show ?thesis by simp
  qed
qed simp

lemma walk_path:
  assumes ok: "tree_ok t"
  shows "\<exists>r. tree_walk t leaf = Some r" and "tree_walk t leaf = Some (Inr path) \<Longrightarrow> path \<noteq> [] \<Longrightarrow> is_path t path \<and> en_id (t_entries t ! hd path) = leaf"
    and "tree_walk t leaf = Some (Inr path) \<Longrightarrow> path = [] \<longleftrightarrow> leaf = []"
proof -
  show "\<exists>r. tree_walk t leaf = Some r"
    using walk_from_path [OF ok] t_index_lt [OF ok] by (fastforce simp: tree_walk_def split: option.split)
  show "is_path t path \<and> en_id (t_entries t ! hd path) = leaf" if "tree_walk t leaf = Some (Inr path)" "path \<noteq> []"
    using that walk_from_path [OF ok] t_index_lt [OF ok, of leaf]
    by (fastforce simp: tree_walk_def split: option.splits if_splits)
  show "path = [] \<longleftrightarrow> leaf = []" if "tree_walk t leaf = Some (Inr path)"
    using that walk_from_path [OF ok] t_index_lt [OF ok, of leaf]
    by (fastforce simp: tree_walk_def split: option.splits if_splits)
qed

end
