(* ===== verification/Session_Context.thy ===== *)
theory Session_Context
  imports Session_Tree
begin

text \<open>
  What holds of the transcripts a file loads into or the store writes: the tree of their lines is well formed,
  every line keeps the pairing with the line before it, and a compaction's tail starts a step (\<open>accepted\<close>); and
  what follows for the history a request sends from any of their entries.
\<close>

section \<open>Accepted transcripts\<close>

abbreviation at :: "transcript \<Rightarrow> nat \<Rightarrow> entry" where
  "at t i \<equiv> t_entries t ! i"

definition line_before :: "transcript \<Rightarrow> nat \<Rightarrow> entry option" where
  "line_before t i = (if i = 0 then None else Some (at t (i - 1)))"

definition paired_ok :: "transcript \<Rightarrow> bool" where
  "paired_ok t \<longleftrightarrow>
     (\<forall>i < length (t_entries t).
        pair_check (pairing_after (line_before t i)) (at t i) (t_entry t (en_parent (at t i))) = None)"

definition tails_ok :: "transcript \<Rightarrow> bool" where
  "tails_ok t \<longleftrightarrow>
     (\<forall>i < length (t_entries t). check_tail t (at t i) (t_entry t (en_parent (at t i))) = Some None)"

definition accepted :: "transcript \<Rightarrow> bool" where
  "accepted t \<longleftrightarrow> tree_ok t \<and> paired_ok t \<and> tails_ok t"

lemma accepted_new: "accepted (new_transcript h)"
  unfolding accepted_def by (simp add: tree_ok_new) (simp add: paired_ok_def tails_ok_def new_transcript_def)

lemma t_entry_root [simp]: "tree_ok t \<Longrightarrow> t_entry t [] = None"
  by (auto simp: t_entry_def tree_ok_def in_set_conv_nth) (metis nth_mem not_None_eq)

text \<open>The two loops towards the root, on a path.\<close>

lemma find_up_path:
  assumes ok: "tree_ok t"
  shows "is_path t path \<Longrightarrow> find_up t s (Some (at t (hd path))) = Some (List.find (\<lambda>e. en_id e = s) (map (at t) path))"
proof (induction path)
  case (Cons i path)
  show ?case
  proof (cases path)
    case Nil
    with Cons.prems ok show ?thesis by (simp add: find_up.simps [of t s "Some (at t i)"] find_up.simps [of t s None])
  next
    case (Cons j rest)
    with Cons.prems have "t_entry t (en_parent (at t i)) = Some (at t j)" by (simp add: t_entry_def)
    with Cons.IH Cons.prems Cons show ?thesis by (simp add: find_up.simps [of t s "Some (at t i)"])
  qed
qed simp

lemma skip_path:
  assumes ok: "tree_ok t"
  shows "is_path t path \<Longrightarrow>
    skip_compactions t (Some (at t (hd path))) = Some (List.find (\<lambda>e. en_type e \<noteq> TypeCompaction) (map (at t) path))"
proof (induction path)
  case (Cons i path)
  show ?case
  proof (cases path)
    case Nil
    with Cons.prems ok show ?thesis
      by (simp add: skip_compactions.simps [of t "Some (at t i)"] skip_compactions.simps [of t None])
  next
    case (Cons j rest)
    with Cons.prems have "t_entry t (en_parent (at t i)) = Some (at t j)" by (simp add: t_entry_def)
    with Cons.IH Cons.prems Cons show ?thesis by (simp add: skip_compactions.simps [of t "Some (at t i)"])
  qed
qed simp

lemma parent_path:
  assumes ok: "tree_ok t" and p: "is_path t (i # path)"
  shows "t_entry t (en_parent (at t i)) = (case path of [] \<Rightarrow> None | j # rest \<Rightarrow> Some (at t j))"
  using assms by (cases path) (simp, simp add: t_entry_def)

lemma find_parent:
  assumes ok: "tree_ok t" and p: "is_path t (i # path)"
  shows "find_up t s (t_entry t (en_parent (at t i))) = Some (List.find (\<lambda>e. en_id e = s) (map (at t) path))"
    and "skip_compactions t (t_entry t (en_parent (at t i))) = Some (List.find (\<lambda>e. en_type e \<noteq> TypeCompaction) (map (at t) path))"
proof -
  have "find_up t s None = Some None" "skip_compactions t None = Some None"
    by (simp_all add: find_up.simps [of t s None] skip_compactions.simps [of t None])
  with find_up_path [OF ok is_path_tail [OF p], of s] skip_path [OF ok is_path_tail [OF p]] parent_path [OF ok p]
  show "find_up t s (t_entry t (en_parent (at t i))) = Some (List.find (\<lambda>e. en_id e = s) (map (at t) path))"
    "skip_compactions t (t_entry t (en_parent (at t i))) = Some (List.find (\<lambda>e. en_type e \<noteq> TypeCompaction) (map (at t) path))"
    by (cases path; simp)+
qed

text \<open>What starts a step, and what a compaction may name, as facts of the path.\<close>

definition opens_step :: "entry list \<Rightarrow> bool" where
  "opens_step es \<longleftrightarrow>
     (case es of [] \<Rightarrow> False | e # anc \<Rightarrow>
        en_type e \<noteq> TypeCompaction \<and>
        (case List.find (\<lambda>e. en_type e \<noteq> TypeCompaction) anc of None \<Rightarrow> True | Some p \<Rightarrow> step_end (Some p)))"

lemma starts_step_path:
  "tree_ok t \<Longrightarrow> is_path t (i # path) \<Longrightarrow> starts_step t (at t i) = Some (opens_step (map (at t) (i # path)))"
  by (simp add: starts_step_def opens_step_def find_parent split: option.split)

definition tail_named :: "entry \<Rightarrow> entry list \<Rightarrow> bool" where
  "tail_named e anc \<longleftrightarrow>
     en_type e \<noteq> TypeCompaction \<or> cp_first_kept (en_compaction e) = [] \<or>
     (\<exists>k. index_where (\<lambda>p. en_id p = cp_first_kept (en_compaction e)) anc = Some k \<and> opens_step (drop k anc))"

lemma find_index_where:
  "List.find P xs = (case index_where P xs of None \<Rightarrow> None | Some k \<Rightarrow> Some (xs ! k))"
  by (induction xs) (auto split: option.split)

lemma is_path_drop: "is_path t path \<Longrightarrow> k < length path \<Longrightarrow> is_path t (drop k path)"
proof (induction k arbitrary: path)
  case (Suc k)
  then obtain i rest where p: "path = i # rest" by (cases path) auto
  with Suc.prems have "rest \<noteq> []" by auto
  with Suc.IH [of rest] Suc.prems p is_path_tail [of t i rest] show ?case by simp
qed simp

lemma check_tail_path:
  assumes ok: "tree_ok t" and p: "is_path t path \<or> path = []"
    and par: "parent = (case path of [] \<Rightarrow> None | j # rest \<Rightarrow> Some (at t j))"
  shows "check_tail t e parent = Some None \<longleftrightarrow> tail_named e (map (at t) path)"
proof (cases "en_type e \<noteq> TypeCompaction \<or> cp_first_kept (en_compaction e) = []")
  case True
  then show ?thesis by (auto simp: check_tail_def tail_named_def)
next
  case False
  let ?s = "cp_first_kept (en_compaction e)"
  have f: "find_up t ?s parent = Some (List.find (\<lambda>e. en_id e = ?s) (map (at t) path))"
    using find_up_path [OF ok, of path ?s] p par by (cases path) (auto simp: find_up.simps [of t ?s None])
  show ?thesis
  proof (cases "index_where (\<lambda>p. en_id p = ?s) (map (at t) path)")
    case None
    with False f show ?thesis by (simp add: check_tail_def tail_named_def find_index_where)
  next
    case (Some k)
    then have k: "k < length path" using index_where_SomeD [OF Some] by simp
    then have pk: "is_path t (drop k path)" using p is_path_drop by fastforce
    have d: "drop k path = path ! k # drop (Suc k) path" using k by (rule Cons_nth_drop_Suc [symmetric])
    have "starts_step t (at t (path ! k)) = Some (opens_step (drop k (map (at t) path)))"
      using starts_step_path [OF ok pk [unfolded d]] by (simp add: drop_map d)
    with False f Some k show ?thesis by (simp add: check_tail_def tail_named_def find_index_where)
  qed
qed

text \<open>A transcript and one with more entries.\<close>

lemma prefix_index:
  assumes ok: "tree_ok t" "tree_ok t'" and e: "t_entries t' = take m (t_entries t)" "m \<le> length (t_entries t)"
  shows "t_index t' s = Some j \<longleftrightarrow> j < m \<and> t_index t s = Some j"
  using ok e by (auto simp: tree_ok_def)

lemma prefix_path:
  assumes ok: "tree_ok t" "tree_ok t'" and e: "t_entries t' = take m (t_entries t)" "m \<le> length (t_entries t)"
  shows "is_path t path \<Longrightarrow> hd path < m \<Longrightarrow> is_path t' path"
proof (induction path)
  case (Cons i path)
  show ?case
  proof (cases path)
    case Nil
    with Cons e show ?thesis by simp
  next
    case (Cons j rest)
    with Cons.prems have "j < i" "t_index t (en_parent (at t i)) = Some j" "is_path t (j # rest)" by auto
    with Cons Cons.IH Cons.prems e prefix_index [OF ok e] show ?thesis by simp
  qed
qed simp

lemma path_exists: "tree_ok t \<Longrightarrow> i < length (t_entries t) \<Longrightarrow> \<exists>path. is_path t (i # path)"
  using walk_from_path by blast

lemma prefix_parent:
  assumes ok: "tree_ok t" "tree_ok t'" and e: "t_entries t' = take m (t_entries t)" "m \<le> length (t_entries t)" and i: "i < m"
  shows "t_entry t' (en_parent (at t i)) = t_entry t (en_parent (at t i))"
    and "check_tail t' (at t i) (t_entry t' (en_parent (at t i))) = Some None \<longleftrightarrow>
      check_tail t (at t i) (t_entry t (en_parent (at t i))) = Some None"
proof -
  have "i < length (t_entries t)" using i e by simp
  then obtain path where p: "is_path t (i # path)" using path_exists [OF ok(1)] by blast
  have p': "is_path t' (i # path)" by (rule prefix_path [OF ok e p]) (simp add: i)
  have at: "at t' j = at t j" if "j \<in> set (i # path)" for j using is_path_lt [OF p' that] e by simp
  then have m: "map (at t') path = map (at t) path" by simp
  have par: "t_entry t' (en_parent (at t' i)) = (case path of [] \<Rightarrow> None | j # rest \<Rightarrow> Some (at t' j))"
    "t_entry t (en_parent (at t i)) = (case path of [] \<Rightarrow> None | j # rest \<Rightarrow> Some (at t j))"
    by (rule parent_path [OF ok(2) p'], rule parent_path [OF ok(1) p])
  have eq: "at t' i = at t i" using at by simp
  show "t_entry t' (en_parent (at t i)) = t_entry t (en_parent (at t i))"
    using par at by (cases path) (auto simp: eq)
  have pp: "is_path t path \<or> path = []" "is_path t' path \<or> path = []" using is_path_tail [OF p] is_path_tail [OF p'] by auto
  show "check_tail t' (at t i) (t_entry t' (en_parent (at t i))) = Some None \<longleftrightarrow>
      check_tail t (at t i) (t_entry t (en_parent (at t i))) = Some None"
    using check_tail_path [OF ok(2) pp(2) par(1) [unfolded eq]] check_tail_path [OF ok(1) pp(1) par(2)] m by simp
qed

lemma accepted_prefix:
  assumes a: "accepted t" and ok': "tree_ok t'" and e: "t_entries t' = take m (t_entries t)" "m \<le> length (t_entries t)"
  shows "accepted t'"
proof -
  have ok: "tree_ok t" using a by (simp add: accepted_def)
  note pp = prefix_parent [OF ok ok' e]
  have b: "line_before t' i = line_before t i" "at t' i = at t i" if "i < m" for i using that e by (auto simp: line_before_def)
  have l: "i < length (t_entries t') \<longleftrightarrow> i < m" for i using e by simp
  have "paired_ok t'" using a pp(1) b l e by (simp add: accepted_def paired_ok_def)
  moreover have "tails_ok t'" using a pp(2) b l e by (simp add: accepted_def tails_ok_def)
  ultimately show ?thesis using ok' by (simp add: accepted_def)
qed

lemma accepted_add:
  assumes a: "accepted t" and c: "t_check t e = None" "en_id e \<noteq> []"
    and p: "pair_check (pairing_after (t_last t)) e (t_entry t (en_parent e)) = None"
    and w: "check_tail t e (t_entry t (en_parent e)) = Some None"
  shows "accepted (t_add e t)"
proof -
  let ?t = "t_add e t" and ?n = "length (t_entries t)"
  have ok: "tree_ok t" using a by (simp add: accepted_def)
  have ok': "tree_ok ?t" by (rule tree_ok_add [OF ok c])
  have pre: "t_entries t = take ?n (t_entries ?t)" "?n \<le> length (t_entries ?t)" by simp_all
  note pp = prefix_parent [OF ok' ok pre]
  obtain path where path: "is_path ?t (?n # path)" using path_exists [OF ok', of ?n] by auto
  have lt: "j < ?n" if "j \<in> set path" for j using is_path_less [OF path that] .
  have rest: "path = [] \<or> is_path t path"
  proof (cases "path = []")
    case False
    with prefix_path [OF ok' ok pre is_path_tail [OF path]] lt show ?thesis by (cases path) auto
  qed simp
  have m: "map (at ?t) path = map (at t) path" using lt by (simp add: nth_append)
  have par: "t_entry ?t (en_parent e) = (case path of [] \<Rightarrow> None | j # r \<Rightarrow> Some (at ?t j))"
    using parent_path [OF ok' path] by simp
  have par': "t_entry t (en_parent e) = (case path of [] \<Rightarrow> None | j # r \<Rightarrow> Some (at t j))"
  proof (cases path)
    case Nil
    then have "en_parent e = []" using path by simp
    with Nil ok show ?thesis by simp
  next
    case (Cons j r)
    then have "t_index ?t (en_parent e) = Some j" using path by simp
    moreover have "j < ?n" using lt Cons by simp
    ultimately have "t_index t (en_parent e) = Some j" using prefix_index [OF ok' ok pre] by blast
    with Cons show ?thesis by (simp add: t_entry_def)
  qed
  have same: "t_entry ?t (en_parent e) = t_entry t (en_parent e)" using par par' m by (cases path) auto
  have tail: "check_tail ?t e (t_entry ?t (en_parent e)) = Some None"
  proof -
    have "tail_named e (map (at t) path)" using w check_tail_path [OF ok _ par'] rest by blast
    moreover have "is_path ?t path \<or> path = []" using is_path_tail [OF path] by blast
    note check_tail_path [OF ok' this par, of e]
    ultimately show ?thesis unfolding m by blast
  qed
  have last: "line_before ?t ?n = t_last t"
    by (auto simp: line_before_def t_last_def nth_append last_conv_nth)
  have before: "line_before ?t i = line_before t i" if "i < ?n" for i using that by (auto simp: line_before_def nth_append)
  have "paired_ok ?t"
    using a p pp(1) last before same by (auto simp: accepted_def paired_ok_def less_Suc_eq nth_append)
  moreover have "tails_ok ?t"
    using a pp(2) tail by (auto simp: accepted_def tails_ok_def less_Suc_eq nth_append)
  ultimately show ?thesis using ok' by (simp add: accepted_def)
qed

section \<open>Pairing along a path\<close>

lemma accepted_checks:
  assumes "accepted t" and "i < length (t_entries t)"
  shows "pair_check (pairing_after (line_before t i)) (at t i) (t_entry t (en_parent (at t i))) = None"
  using assms by (simp add: accepted_def paired_ok_def)

lemma has_open_not_tool: "has_open_calls (Some e) \<Longrightarrow> \<not> is_tool e"
  by (auto simp: has_open_calls_def is_tool_def)

lemma pair_check_open: "pair_check (Some a) e parent = None \<Longrightarrow>
    is_tool e \<and> en_parent e = en_id a \<and> result_ids (en_message e) = open_calls (en_message a)"
  by (simp add: pair_check_def split: option.splits if_splits)

lemma pair_check_quiet: "pair_check None e parent = None \<Longrightarrow> \<not> is_tool e \<and> \<not> has_open_calls parent"
  by (simp add: pair_check_def split: option.splits if_splits)

lemma pair_check_parts: "pair_check op e parent = None \<Longrightarrow> en_type e = TypeMessage \<Longrightarrow> check_parts (en_message e) = None"
  by (simp add: pair_check_def split: option.splits if_splits)

text \<open>The child of an entry with open calls answers them, and a tool entry's parent has them.\<close>

lemma open_child:
  assumes a: "accepted t" and p: "is_path t (c # i # path)" and op: "has_open_calls (Some (at t i))"
  shows "is_tool (at t c) \<and> result_ids (en_message (at t c)) = open_calls (en_message (at t i))"
proof -
  have ok: "tree_ok t" using a by (simp add: accepted_def)
  have l: "c < length (t_entries t)" "i < length (t_entries t)" "i < c" using p is_path_Cons by auto
  have par: "t_entry t (en_parent (at t c)) = Some (at t i)" "en_parent (at t c) = en_id (at t i)"
    using p t_index_lt [OF ok] by (auto simp: t_entry_def)
  note chk = accepted_checks [OF a l(1)]
  show ?thesis
  proof (cases "pairing_after (line_before t c)")
    case None
    with pair_check_quiet [OF chk [unfolded None]] par(1) op show ?thesis by simp
  next
    case (Some b)
    then have b: "b = at t (c - 1)" "c \<noteq> 0" by (auto simp: pairing_after_def line_before_def split: if_splits)
    have chk': "is_tool (at t c)" "en_parent (at t c) = en_id b" "result_ids (en_message (at t c)) = open_calls (en_message b)"
      using pair_check_open [OF chk [unfolded Some]] by blast+
    have "en_id (at t i) = en_id (at t (c - 1))" using chk'(2) par(2) b(1) by metis
    then have "i = c - 1" using ids_inj [OF ok l(2), of "c - 1"] l(1) b(2) by simp
    with chk'(1,3) b(1) show ?thesis by metis
  qed
qed

lemma tool_parent:
  assumes a: "accepted t" and p: "is_path t (c # path)" and tool: "is_tool (at t c)"
  obtains i rest where "path = i # rest" and "has_open_calls (Some (at t i))"
    and "result_ids (en_message (at t c)) = open_calls (en_message (at t i))"
proof -
  have ok: "tree_ok t" using a by (simp add: accepted_def)
  have l: "c < length (t_entries t)" using is_path_Cons [OF p] .
  note chk = accepted_checks [OF a l]
  obtain b where b: "pairing_after (line_before t c) = Some b" "en_parent (at t c) = en_id b"
    "result_ids (en_message (at t c)) = open_calls (en_message b)"
    using chk tool pair_check_open pair_check_quiet by (cases "pairing_after (line_before t c)") metis+
  then have b': "b = at t (c - 1)" "c \<noteq> 0" "has_open_calls (Some b)" by (auto simp: pairing_after_def line_before_def split: if_splits)
  have "t_index t (en_parent (at t c)) = Some (c - 1)" using t_index_id [OF ok, of "c - 1"] l b(2) b'(1) by simp
  moreover have "en_parent (at t c) \<noteq> []" using id_nonempty [OF ok, of "c - 1"] l b(2) b'(1) by simp
  ultimately obtain rest where "path = (c - 1) # rest" using p by (cases path) auto
  with that b(3) b' show ?thesis by blast
qed

text \<open>The same from the root to the leaf, as a list of entries.\<close>

definition link :: "entry option \<Rightarrow> entry \<Rightarrow> bool" where
  "link prev e \<longleftrightarrow>
     is_tool e = has_open_calls prev \<and> (is_tool e \<longrightarrow> result_ids (en_message e) = open_calls (en_message (the prev)))"

fun linked :: "entry option \<Rightarrow> entry list \<Rightarrow> bool" where
  "linked prev [] = True"
| "linked prev (e # es) = (link prev e \<and> linked (Some e) es)"

lemma linked_append:
  "linked prev (xs @ ys) \<longleftrightarrow> linked prev xs \<and> linked (if xs = [] then prev else Some (last xs)) ys"
  by (induction xs arbitrary: prev) auto

lemma link_quiet: "\<not> has_open_calls prev \<Longrightarrow> \<not> has_open_calls prev' \<Longrightarrow> link prev e = link prev' e"
  by (auto simp: link_def)

lemma linked_quiet: "\<not> has_open_calls prev \<Longrightarrow> \<not> has_open_calls prev' \<Longrightarrow> linked prev es = linked prev' es"
  using link_quiet [of prev prev' "hd es"] by (cases es) simp_all

lemma linked_suffix:
  assumes "linked prev (xs @ ys)" and "ys = [] \<or> \<not> is_tool (hd ys)"
  shows "linked None ys"
proof (cases ys)
  case (Cons y zs)
  let ?p = "if xs = [] then prev else Some (last xs)"
  have l: "linked ?p ys" using assms(1) by (simp add: linked_append)
  then have "\<not> has_open_calls ?p" using assms(2) Cons by (simp add: link_def)
  with l show ?thesis using linked_quiet [of ?p None ys] by (simp add: has_open_calls_def)
qed simp

lemma no_open_None [simp]: "\<not> has_open_calls None"
  by (simp add: has_open_calls_def)

lemma linked_path:
  assumes a: "accepted t"
  shows "is_path t path \<Longrightarrow> linked None (map (at t) (rev path))"
proof (induction path)
  case (Cons i path)
  have snoc: "map (at t) (rev (i # path)) = map (at t) (rev path) @ [at t i]" by simp
  show ?case
  proof (cases path)
    case Nil
    have "\<not> is_tool (at t i)" using tool_parent [OF a, of i "[]"] Cons.prems Nil by blast
    with Nil show ?thesis by (simp add: link_def)
  next
    case (Cons j rest)
    note pc = Cons.prems [unfolded Cons]
    have "linked None (map (at t) (rev path))" using Cons.IH is_path_tail [OF Cons.prems] Cons by simp
    moreover have "link (Some (at t j)) (at t i)"
    proof (cases "has_open_calls (Some (at t j))")
      case True
      with open_child [OF a pc] show ?thesis by (simp add: link_def)
    next
      case False
      then have "\<not> is_tool (at t i)" using tool_parent [OF a pc] by auto
      with False show ?thesis by (simp add: link_def)
    qed
    ultimately show ?thesis unfolding snoc linked_append using Cons by simp
  qed
qed simp

text \<open>A compaction taken out of the list leaves it linked: it neither calls nor answers.\<close>

lemma linked_without:
  assumes "linked prev (xs @ c # ys)" and "en_type c \<noteq> TypeMessage"
  shows "linked prev (xs @ ys)"
proof -
  let ?p = "if xs = [] then prev else Some (last xs)"
  have c: "\<not> has_open_calls (Some c)" "\<not> is_tool c" using assms(2) by (auto simp: has_open_calls_def is_tool_def)
  have "linked prev xs" "link ?p c" "linked (Some c) ys" using assms(1) by (simp_all add: linked_append)
  moreover from this c have "\<not> has_open_calls ?p" by (simp add: link_def)
  ultimately show ?thesis using linked_quiet [of "Some c" ?p ys] c by (simp add: linked_append)
qed

section \<open>The messages pair\<close>

definition calls_open :: "message option \<Rightarrow> bool" where
  "calls_open m = (case m of None \<Rightarrow> False | Some m \<Rightarrow> m_role m = RoleAssistant \<and> open_calls m \<noteq> [])"

definition answers :: "message option \<Rightarrow> message \<Rightarrow> bool" where
  "answers prev m \<longleftrightarrow> (m_role m = RoleTool) = calls_open prev \<and> (m_role m = RoleTool \<longrightarrow> result_ids m = open_calls (the prev))"

fun answered_all :: "message option \<Rightarrow> message list \<Rightarrow> bool" where
  "answered_all prev [] = True"
| "answered_all prev (m # ms) = (answers prev m \<and> answered_all (Some m) ms)"

text \<open>What a strict provider asks of a history: a tool message follows exactly the assistant messages that call,
  it answers the calls of the one before it, in order, and the history does not end with a call.\<close>

definition well_paired :: "message list \<Rightarrow> bool" where
  "well_paired ms \<longleftrightarrow> answered_all None ms \<and> (ms \<noteq> [] \<longrightarrow> \<not> calls_open (Some (last ms)))"

lemma answered_all_append:
  "answered_all prev (xs @ ys) \<longleftrightarrow> answered_all prev xs \<and> answered_all (if xs = [] then prev else Some (last xs)) ys"
  by (induction xs arbitrary: prev) auto

lemma answered_quiet: "\<not> calls_open prev \<Longrightarrow> \<not> calls_open prev' \<Longrightarrow> answered_all prev ms = answered_all prev' ms"
  by (cases ms) (auto simp: answers_def)

lemma open_calls_specific:
  "List.map_filter open_call (filter (\<lambda>p. \<not> (b \<and> model_specific p)) ps) = List.map_filter open_call ps"
proof (induction ps)
  case (Cons p ps)
  then show ?case by (cases p) (auto simp: map_filter_simps)
qed (simp add: map_filter_simps)

lemma replayed_facts:
  assumes "replayed e current = Some m"
  shows "m_role m = en_role e" and "open_calls m = open_calls (en_message e)"
    and "en_role e \<noteq> RoleAssistant \<Longrightarrow> m = en_message e"
proof -
  have m: "m = (en_message e)\<lparr>m_content := filter (\<lambda>p. \<not> (other_model e current \<and> model_specific p)) (m_content (en_message e))\<rparr>"
    using assms by (simp add: replayed_def Let_def split: if_splits)
  show "m_role m = en_role e" by (simp add: m)
  show "open_calls m = open_calls (en_message e)"
    using open_calls_specific [of "other_model e current" "m_content (en_message e)"] by (simp add: m open_calls_def)
  show "m = en_message e" if "en_role e \<noteq> RoleAssistant"
    using that by (simp add: m other_model_def)
qed

lemma replayed_keeps:
  assumes "has_open_calls (Some e) \<or> en_role e \<noteq> RoleAssistant"
  shows "replayed e current \<noteq> None"
proof
  assume n: "replayed e current = None"
  then have r: "en_role e = RoleAssistant" and f: "filter (\<lambda>p. \<not> (other_model e current \<and> model_specific p)) (m_content (en_message e)) = []"
    by (simp_all only: replayed_def Let_def split: if_splits) simp_all
  then have "open_calls (en_message e) = []"
    using open_calls_specific [of "other_model e current" "m_content (en_message e)"] unfolding f
    by (simp add: open_calls_def map_filter_simps)
  with assms r show False by (simp add: has_open_calls_def)
qed

definition render_ok :: "transcript \<Rightarrow> bool" where
  "render_ok t \<longleftrightarrow>
     (\<forall>v m. render_reminder t v = Some m \<longrightarrow> m_role m = RoleUser) \<and>
     (\<forall>f c. rd_summary (t_render t) = Some f \<longrightarrow> m_role (f c) = RoleUser)"

lemma messages_answered:
  assumes r: "render_ok t"
  shows "linked prev es \<Longrightarrow>
    (if has_open_calls prev then \<not> dropped \<and> pm \<noteq> None \<and> calls_open pm \<and> open_calls (the pm) = open_calls (en_message (the prev))
     else \<not> calls_open pm) \<Longrightarrow>
    answered_all pm (map fst (messages_from t current dropped es))"
proof (induction es arbitrary: prev dropped pm)
  case (Cons e es)
  have l: "link prev e" "linked (Some e) es" using Cons.prems(1) by simp_all
  show ?case
  proof (cases "en_type e = TypeMessage")
    case False
    then have n: "\<not> is_tool e" "\<not> has_open_calls (Some e)" by (auto simp: is_tool_def has_open_calls_def)
    with l have q: "\<not> calls_open pm" using Cons.prems(2) by (auto simp: link_def split: if_splits)
    have tl: "answered_all pm' (map fst (messages_from t current d es))" if "\<not> calls_open pm'" for pm' d
      using Cons.IH [OF l(2)] n that by simp
    show ?thesis
    proof (cases "en_type e = TypeReminder")
      case True
      show ?thesis
      proof (cases "render_reminder t (en_variant e)")
        case None
        with True tl q show ?thesis by simp
      next
        case (Some m)
        then have "m_role m = RoleUser" using r by (simp add: render_ok_def)
        with True Some tl q show ?thesis by (simp add: answers_def calls_open_def)
      qed
    qed (use False tl q in simp)
  next
    case True
    show ?thesis
    proof (cases "is_tool e")
      case tool: True
      then have p: "has_open_calls prev" "result_ids (en_message e) = open_calls (en_message (the prev))"
        using l by (simp_all add: link_def)
      then have d: "\<not> dropped" "calls_open pm" "open_calls (the pm) = open_calls (en_message (the prev))"
        using Cons.prems(2) by simp_all
      have role: "en_role e = RoleTool" using tool by (simp add: is_tool_def)
      then obtain m where m: "replayed e current = Some m" using replayed_keeps [of e current] by auto
      then have "m = en_message e" using replayed_facts(3) [OF m] role by simp
      moreover have "\<not> has_open_calls (Some e)" using has_open_not_tool tool by blast
      ultimately show ?thesis using True role d p m Cons.IH [OF l(2), of False "Some m"]
        by (simp add: answers_def calls_open_def)
    next
      case False
      then have np: "\<not> has_open_calls prev" using l by (simp add: link_def)
      then have q: "\<not> calls_open pm" using Cons.prems(2) by simp
      have role: "en_role e \<noteq> RoleTool" using False True by (simp add: is_tool_def)
      show ?thesis
      proof (cases "replayed e current")
        case None
        then have "\<not> has_open_calls (Some e)" using replayed_keeps [of e current] by blast
        with Cons.IH [OF l(2), of True pm] None True role q show ?thesis by simp
      next
        case (Some m)
        note f = replayed_facts [OF Some]
        have o': "has_open_calls (Some e) = calls_open (Some m)" using f True by (simp add: has_open_calls_def calls_open_def)
        have "answered_all (Some m) (map fst (messages_from t current False es))"
          using Cons.IH [OF l(2), of False "Some m"] o' f(2) by simp
        moreover have "answers pm m" using role f(1) q by (simp add: answers_def)
        ultimately show ?thesis using True role Some by simp
      qed
    qed
  qed
qed simp

section \<open>The history from an entry\<close>

lemma trim_facts:
  "\<exists>m \<le> length msgs. trim_unanswered h msgs = take m msgs \<and> (h \<le> length msgs \<longrightarrow> h \<le> m) \<and>
     (h < m \<longrightarrow> \<not> unanswered (fst (msgs ! (m - 1))))"
proof (induction h msgs rule: trim_unanswered.induct)
  case (1 h msgs)
  show ?case
  proof (cases "length msgs > h \<and> unanswered (fst (last msgs))")
    case True
    then obtain m where m: "m \<le> length (butlast msgs)" "trim_unanswered h (butlast msgs) = take m (butlast msgs)"
      "h \<le> length (butlast msgs) \<longrightarrow> h \<le> m" "h < m \<longrightarrow> \<not> unanswered (fst (butlast msgs ! (m - 1)))"
      using 1 by blast
    have "take m (butlast msgs) = take m msgs" using m(1) by (simp add: butlast_conv_take)
    moreover have "butlast msgs ! (m - 1) = msgs ! (m - 1)" if "h < m" using m(1) that by (simp add: nth_butlast)
    moreover have "trim_unanswered h msgs = trim_unanswered h (butlast msgs)"
      using True by (subst trim_unanswered.simps) simp
    moreover have "h \<le> length (butlast msgs)" using True by auto
    then have "h \<le> length msgs \<longrightarrow> h \<le> m" using m(3) by blast
    ultimately show ?thesis using m(1,2,4) by (intro exI [of _ m]) auto
  next
    case False
    have "msgs ! (length msgs - 1) = last msgs" if "h < length msgs" using that by (subst last_conv_nth) auto
    moreover have "trim_unanswered h msgs = msgs" using False by (subst trim_unanswered.simps) (rule if_not_P)
    ultimately show ?thesis using False by (intro exI [of _ "length msgs"]) auto
  qed
qed

lemma opens_step_not_tool:
  assumes a: "accepted t" and p: "is_path t (i # path)" and o': "opens_step (map (at t) (i # path))"
  shows "\<not> is_tool (at t i)"
proof
  assume "is_tool (at t i)"
  from tool_parent [OF a p this] obtain j rest where j: "path = j # rest" "has_open_calls (Some (at t j))" by blast
  then have "en_type (at t j) = TypeMessage" "\<not> step_end (Some (at t j))"
    by (auto simp: has_open_calls_def step_end_def)
  with o' j show False by (simp add: opens_step_def)
qed

lemma index_where_map: "index_where P (map f xs) = index_where (\<lambda>x. P (f x)) xs"
  by (induction xs) auto

lemma path_tail_named:
  assumes a: "accepted t" and p: "is_path t (i # path)"
  shows "tail_named (at t i) (map (at t) path)"
proof -
  have ok: "tree_ok t" using a by (simp add: accepted_def)
  have "check_tail t (at t i) (t_entry t (en_parent (at t i))) = Some None"
    using a is_path_Cons [OF p] by (simp add: accepted_def tails_ok_def)
  then show ?thesis
    using check_tail_path [OF ok _ parent_path [OF ok p]] is_path_tail [OF p] by blast
qed

text \<open>Where the latest success cuts a path: nothing to keep, or from the first kept entry on.\<close>

lemma cut_path_cases:
  assumes a: "accepted t" and p: "is_path t path"
  obtains (whole) "cut_path t path = (None, map (at t) (rev path))" and "\<forall>i \<in> set path. \<not> cuts (at t i)"
  | (bare) k where "k < length path" and "cuts (at t (path ! k))" and "\<forall>i \<in> set (take k path). \<not> cuts (at t i)"
      and "cp_first_kept (en_compaction (at t (path ! k))) = []"
      and "cut_path t path = (Some (at t (path ! k)), map (at t) (rev (take k path)))"
  | (tail) k j where "k < length path" and "cuts (at t (path ! k))" and "\<forall>i \<in> set (take k path). \<not> cuts (at t i)"
      and "j < length (drop (Suc k) path)"
      and "en_id (at t (path ! (Suc k + j))) = cp_first_kept (en_compaction (at t (path ! k)))"
      and "opens_step (map (at t) (drop (Suc k + j) path))"
      and "cut_path t path = (Some (at t (path ! k)),
        map (at t) (rev (take (Suc j) (drop (Suc k) path))) @ map (at t) (rev (take k path)))"
proof (cases "index_where (\<lambda>i. cuts (at t i)) path")
  case None
  then have "cut_path t path = (None, map (at t) (rev path))" by (simp add: cut_path_def Let_def)
  moreover have "\<forall>i \<in> set path. \<not> cuts (at t i)" using None by (simp add: index_where_None)
  ultimately show ?thesis by (rule whole)
next
  case (Some k)
  then have k: "k < length path" "cuts (at t (path ! k))" "\<forall>i<k. \<not> cuts (at t (path ! i))"
    using index_where_SomeD [OF Some] by auto
  then have before: "\<forall>i \<in> set (take k path). \<not> cuts (at t i)" by (auto simp: in_set_conv_nth)
  let ?first = "cp_first_kept (en_compaction (at t (path ! k)))"
  have d: "drop k path = path ! k # drop (Suc k) path" using k(1) by (rule Cons_nth_drop_Suc [symmetric])
  have dist: "distinct path" by (rule is_path_distinct [OF p])
  have out: "filter (\<lambda>i. i \<noteq> path ! k) (rev (take k path)) = rev (take k path)"
    using dist k(1) by (auto simp: filter_id_conv in_set_conv_nth nth_eq_iff_index_eq)
  show ?thesis
  proof (cases "?first = []")
    case True
    show ?thesis by (rule bare [OF k(1,2) before True]) (simp add: cut_path_def Some True Let_def out)
  next
    case False
    have "tail_named (at t (path ! k)) (map (at t) (drop (Suc k) path))"
      using path_tail_named [OF a] is_path_drop [OF p k(1)] d by simp
    moreover have "en_type (at t (path ! k)) = TypeCompaction" using k(2) by (simp add: cuts_def)
    ultimately obtain j where j: "index_where (\<lambda>i. en_id (at t i) = ?first) (drop (Suc k) path) = Some j"
      "opens_step (drop j (map (at t) (drop (Suc k) path)))"
      using False by (auto simp: tail_named_def index_where_map)
    have jl: "j < length (drop (Suc k) path)" "en_id (at t (drop (Suc k) path ! j)) = ?first"
      using index_where_SomeD [OF j(1)] by auto
    have split': "take (Suc (Suc k + j)) path = take k path @ path ! k # take (Suc j) (drop (Suc k) path)"
      using k(1) d by (metis add_Suc_right add_Suc_shift plus_1_eq_Suc take_Suc_Cons take_add)
    have "path ! k \<notin> set (take (Suc j) (drop (Suc k) path))"
      using dist d by (metis append_take_drop_id distinct.simps(2) distinct_append in_set_takeD)
    then have mid: "filter (\<lambda>i. i \<noteq> path ! k) (rev (take (Suc j) (drop (Suc k) path))) = rev (take (Suc j) (drop (Suc k) path))"
      by (auto simp: filter_id_conv)
    have cp: "cut_path t path = (Some (at t (path ! k)),
        map (at t) (filter (\<lambda>i. i \<noteq> path ! k) (rev (take (Suc (Suc k + j)) path))))"
      using False by (simp add: cut_path_def Some j(1) Let_def)
    show ?thesis
    proof (rule tail [OF k(1,2) before jl(1)])
      show "en_id (at t (path ! (Suc k + j))) = ?first" using jl k(1) by simp
      show "opens_step (map (at t) (drop (Suc k + j) path))" using j(2) by (simp add: drop_map add.commute)
      show "cut_path t path = (Some (at t (path ! k)),
        map (at t) (rev (take (Suc j) (drop (Suc k) path))) @ map (at t) (rev (take k path)))"
        unfolding cp split' using mid out by simp
    qed
  qed
qed

lemma cut_linked:
  assumes a: "accepted t" and p: "is_path t path"
  shows "linked None (snd (cut_path t path))"
  using a p
proof (cases rule: cut_path_cases)
  case whole
  then show ?thesis using linked_path [OF a p] by simp
next
  case (bare k)
  have c: "en_type (at t (path ! k)) = TypeCompaction" using bare(2) by (simp add: cuts_def)
  have e: "map (at t) (rev path) = (map (at t) (rev (drop (Suc k) path)) @ [at t (path ! k)]) @ map (at t) (rev (take k path))"
    using arg_cong [OF id_take_nth_drop [OF bare(1)], of "\<lambda>p. map (at t) (rev p)"] by simp
  have l: "linked None (map (at t) (rev path))" by (rule linked_path [OF a p])
  then have "linked (Some (at t (path ! k))) (map (at t) (rev (take k path)))" unfolding e linked_append by simp
  then have "linked None (map (at t) (rev (take k path)))"
    using linked_quiet [of "Some (at t (path ! k))" None] c by (simp add: has_open_calls_def)
  with bare(5) show ?thesis by simp
next
  case (tail k j)
  let ?mid = "take (Suc j) (drop (Suc k) path)"
  let ?i = "path ! (Suc k + j)" and ?above = "drop (Suc (Suc k + j)) path"
  have c: "en_type (at t (path ! k)) \<noteq> TypeMessage" using tail(2) by (simp add: cuts_def)
  have jl: "Suc k + j < length path" using tail(4) by simp
  have d: "drop (Suc k + j) path = ?i # ?above" using jl by (rule Cons_nth_drop_Suc [symmetric])
  have pi: "is_path t (?i # ?above)" using is_path_drop [OF p jl] unfolding d .
  have nt: "\<not> is_tool (at t ?i)" by (rule opens_step_not_tool [OF a pi]) (use tail(6) d in simp)
  have s: "drop (Suc k) path = ?mid @ ?above" using append_take_drop_id [of "Suc j" "drop (Suc k) path"] by (simp add: add.commute)
  have e: "map (at t) (rev path) =
      map (at t) (rev ?above) @ (map (at t) (rev ?mid) @ at t (path ! k) # map (at t) (rev (take k path)))"
    using arg_cong [OF id_take_nth_drop [OF tail(1)], of "\<lambda>p. map (at t) (rev p)"] arg_cong [OF s, of "\<lambda>p. map (at t) (rev p)"]
    by simp
  have m: "?mid = take j (drop (Suc k) path) @ [?i]" using tail(4) by (simp add: take_Suc_conv_app_nth)
  then have h: "hd (map (at t) (rev ?mid) @ at t (path ! k) # map (at t) (rev (take k path))) = at t ?i" by simp
  have "linked None (map (at t) (rev ?mid) @ at t (path ! k) # map (at t) (rev (take k path)))"
  proof (rule linked_suffix)
    show "linked None (map (at t) (rev ?above) @ (map (at t) (rev ?mid) @ at t (path ! k) # map (at t) (rev (take k path))))"
      using linked_path [OF a p] unfolding e .
    show "map (at t) (rev ?mid) @ at t (path ! k) # map (at t) (rev (take k path)) = [] \<or>
      \<not> is_tool (hd (map (at t) (rev ?mid) @ at t (path ! k) # map (at t) (rev (take k path))))"
      unfolding h using nt by blast
  qed
  then have "linked None (map (at t) (rev ?mid) @ map (at t) (rev (take k path)))" by (rule linked_without [OF _ c])
  with tail(7) show ?thesis by simp
qed

lemma messages_paired:
  assumes r: "render_ok t" and l: "linked None es"
  shows "well_paired (map fst (context_msgs t current (c, es)))"
proof -
  define head where "head = (case (c, rd_summary (t_render t)) of (Some c, Some f) \<Rightarrow> [(f (en_compaction c), True)] | _ \<Rightarrow> [])"
  define msgs where "msgs = head @ messages_of t es current"
  have h: "head = [] \<or> (\<exists>m. head = [(m, True)] \<and> m_role m = RoleUser)"
    using r by (auto simp: head_def render_ok_def split: option.split)
  have q: "\<not> calls_open (if head = [] then None else Some (fst (last head)))" using h by (auto simp: calls_open_def)
  have "answered_all (if head = [] then None else Some (fst (last head))) (map fst (messages_of t es current))"
    unfolding messages_of_def by (rule messages_answered [OF r l]) (use q in simp)
  moreover have "answered_all None (map fst head)" using h by (auto simp: answers_def calls_open_def)
  ultimately have all: "answered_all None (map fst msgs)" by (auto simp: msgs_def answered_all_append last_map split: if_splits)
  obtain m where m: "m \<le> length msgs" "trim_unanswered (length head) msgs = take m msgs" "length head \<le> m"
    "length head < m \<longrightarrow> \<not> unanswered (fst (msgs ! (m - 1)))"
  proof -
    have "length head \<le> length msgs" by (simp add: msgs_def)
    with trim_facts [of msgs "length head"] that show thesis by blast
  qed
  have "answered_all None (map fst (take m msgs))"
    using all answered_all_append [of None "map fst (take m msgs)" "map fst (drop m msgs)"]
    by (metis append_take_drop_id map_append)
  moreover have "\<not> calls_open (Some (fst (last (take m msgs))))" if "take m msgs \<noteq> []"
  proof (cases "length head < m")
    case True
    then have "last (take m msgs) = msgs ! (m - 1)" using m(1) that by (simp add: last_conv_nth)
    with m(4) True show ?thesis by (auto simp: unanswered_def calls_open_def)
  next
    case False
    then have "take m msgs = head" using m(3) by (simp add: msgs_def)
    with h that show ?thesis by (auto simp: calls_open_def)
  qed
  moreover have "context_msgs t current (c, es) = trim_unanswered (length head) msgs"
    by (simp only: context_msgs_def head_def msgs_def fst_conv snd_conv Let_def)
  then have "context_msgs t current (c, es) = take m msgs" by (simp only: m(2))
  ultimately show ?thesis by (simp add: well_paired_def last_map)
qed

lemma context_paired:
  assumes a: "accepted t" and r: "render_ok t"
  shows "\<exists>x. context_at t leaf current = Some x"
    and "context_at t leaf current = Some (Inr msgs) \<Longrightarrow> well_paired (map fst msgs)"
proof -
  have ok: "tree_ok t" using a by (simp add: accepted_def)
  obtain x where x: "tree_walk t leaf = Some x" using walk_path(1) [OF ok] by blast
  then show "\<exists>x. context_at t leaf current = Some x" by (simp add: context_at_def context_entries_def)
  assume c: "context_at t leaf current = Some (Inr msgs)"
  then obtain path where path: "tree_walk t leaf = Some (Inr path)" "msgs = context_msgs t current (cut_path t path)"
    using x by (cases x) (auto simp: context_at_def context_entries_def)
  have "linked None (snd (cut_path t path))"
  proof (cases "path = []")
    case True
    then show ?thesis by (simp add: cut_path_def)
  next
    case False
    then show ?thesis using cut_linked [OF a] walk_path(2) [OF ok path(1)] by blast
  qed
  with messages_paired [OF r this, of current "fst (cut_path t path)"] path(2) show "well_paired (map fst msgs)" by simp
qed

section \<open>Messages, steps and cuts\<close>

abbreviation no_compactions :: "entry list \<Rightarrow> entry list" where
  "no_compactions es \<equiv> filter (\<lambda>e. en_type e \<noteq> TypeCompaction) es"

lemma messages_no_compactions: "messages_from t current d (no_compactions es) = messages_from t current d es"
  by (induction es arbitrary: d) (auto split: option.split)

lemma messages_from_append:
  "\<exists>d'. messages_from t current d (xs @ ys) = messages_from t current d xs @ messages_from t current d' ys"
proof (induction xs arbitrary: d)
  case Nil
  show ?case by (intro exI [of _ d]) simp
next
  case (Cons x xs)
  have IH: "\<And>d. \<exists>d'. messages_from t current d (xs @ ys) = messages_from t current d xs @ messages_from t current d' ys"
    by (rule Cons.IH)
  show ?case
    using IH [of d] IH [of False] IH [of True] by (auto split: option.splits)
qed

lemma messages_flag:
  "linked prev es \<Longrightarrow> \<not> has_open_calls prev \<Longrightarrow> messages_from t current d es = messages_from t current d' es"
proof (induction es arbitrary: prev)
  case (Cons e es)
  then have n: "\<not> is_tool e" by (simp add: link_def)
  show ?case
  proof (cases "en_type e = TypeMessage")
    case False
    then have "\<not> has_open_calls (Some e)" by (simp add: has_open_calls_def)
    with Cons.IH [of "Some e"] Cons.prems(1) False show ?thesis by (simp split: option.split)
  next
    case True
    with n show ?thesis by (simp add: is_tool_def split: option.split)
  qed
qed simp

lemma messages_split:
  assumes "linked prev (xs @ ys)" and "xs \<noteq> []" and "\<not> has_open_calls (Some (last xs))"
  shows "messages_of t (xs @ ys) current = messages_of t xs current @ messages_of t ys current"
proof -
  obtain d where d: "messages_from t current False (xs @ ys) = messages_from t current False xs @ messages_from t current d ys"
    using messages_from_append by blast
  have "linked (Some (last xs)) ys" using assms(1,2) by (simp add: linked_append)
  from messages_flag [OF this assms(3), of t current d False] d show ?thesis by (simp add: messages_of_def)
qed

lemma step_end_closed: "step_end (Some e) \<Longrightarrow> \<not> has_open_calls (Some e)"
  by (auto simp: step_end_def has_open_calls_def split: role.splits if_splits)

lemma step_end_type: "step_end (Some e) \<Longrightarrow> en_type e = TypeMessage"
  by (auto simp: step_end_def split: if_splits)

text \<open>The steps of a context are its entries, compactions aside, up to its last step's end.\<close>

definition whole_step :: "transcript \<Rightarrow> model_ref \<Rightarrow> step \<Rightarrow> bool" where
  "whole_step t current s \<longleftrightarrow>
     sp_entries s \<noteq> [] \<and> step_end (Some (last (sp_entries s))) \<and> (\<forall>e \<in> set (butlast (sp_entries s)). \<not> step_end (Some e)) \<and>
     sp_first s = en_id (hd (sp_entries s)) \<and> sp_messages s = map fst (messages_of t (sp_entries s) current)"

lemma steps_from_cover:
  "\<forall>e \<in> set run. \<not> step_end (Some e) \<Longrightarrow>
    \<exists>rest. run @ no_compactions es = concat (map sp_entries (steps_from t current run es)) @ rest \<and>
      (\<forall>e \<in> set rest. \<not> step_end (Some e)) \<and> (\<forall>s \<in> set (steps_from t current run es). whole_step t current s)"
proof (induction es arbitrary: run)
  case Nil
  then show ?case by simp
next
  case (Cons e es)
  consider (skip) "en_type e = TypeCompaction" | (more) "en_type e \<noteq> TypeCompaction" "\<not> step_end (Some e)"
    | (done') "en_type e \<noteq> TypeCompaction" "step_end (Some e)" by blast
  then show ?case
  proof cases
    case skip
    with Cons.IH [OF Cons.prems] show ?thesis by simp
  next
    case more
    then have "\<forall>x \<in> set (run @ [e]). \<not> step_end (Some x)" using Cons.prems by auto
    from Cons.IH [OF this] more show ?thesis by (simp add: Let_def)
  next
    case done'
    obtain rest where r: "no_compactions es = concat (map sp_entries (steps_from t current [] es)) @ rest"
      "\<forall>e \<in> set rest. \<not> step_end (Some e)" "\<forall>s \<in> set (steps_from t current [] es). whole_step t current s"
      using Cons.IH [of "[]"] by auto
    have "whole_step t current \<lparr>sp_first = en_id (hd (run @ [e])), sp_entries = run @ [e],
        sp_messages = map fst (messages_of t (run @ [e]) current)\<rparr>"
      using done' Cons.prems by (simp add: whole_step_def)
    with r done' show ?thesis by (intro exI [of _ rest]) (simp add: Let_def)
  qed
qed

lemma step_messages:
  "linked prev (concat (map sp_entries ss) @ rest) \<Longrightarrow> \<forall>s \<in> set ss. whole_step t current s \<Longrightarrow>
     map fst (messages_of t (concat (map sp_entries ss) @ rest) current) =
     concat (map sp_messages ss) @ map fst (messages_of t rest current)"
proof (induction ss arbitrary: prev)
  case (Cons s ss)
  have w: "whole_step t current s" using Cons.prems(2) by simp
  then have n: "sp_entries s \<noteq> []" "\<not> has_open_calls (Some (last (sp_entries s)))"
    using step_end_closed by (auto simp: whole_step_def)
  have l: "linked prev (sp_entries s @ (concat (map sp_entries ss) @ rest))" using Cons.prems(1) by simp
  then have "linked (Some (last (sp_entries s))) (concat (map sp_entries ss) @ rest)" using n(1) by (simp add: linked_append)
  from Cons.IH [OF this] Cons.prems(2) messages_split [OF l n] w show ?case by (simp add: whole_step_def)
qed simp

text \<open>A cut's tail is the longest within the budget.\<close>

abbreviation tail_size :: "(message \<Rightarrow> int) \<Rightarrow> step list \<Rightarrow> int" where
  "tail_size size' ss \<equiv> sum_list (map (\<lambda>s. sum_list (map size' (sp_messages s))) ss)"

lemma cut_from_tail:
  "k \<le> length steps \<Longrightarrow> acc = tail_size size' (drop k steps) \<Longrightarrow> acc \<le> budget \<Longrightarrow>
     (let c = cut_from steps budget size' k acc in
      c \<le> k \<and> tail_size size' (drop c steps) \<le> budget \<and> (0 < c \<longrightarrow> budget < tail_size size' (drop (c - 1) steps)))"
proof (induction steps budget size' k acc rule: cut_from.induct)
  case (1 steps budget size' acc)
  then show ?case by simp
next
  case (2 steps budget size' k acc)
  define n where "n = sum_list (map size' (sp_messages (steps ! k)))"
  have d: "drop k steps = steps ! k # drop (Suc k) steps" using 2(2) by (intro Cons_nth_drop_Suc [symmetric]) simp
  then have s: "acc + n = tail_size size' (drop k steps)" using 2(3) by (simp add: n_def)
  show ?case
  proof (cases "acc + n > budget")
    case True
    with 2(3,4) s show ?thesis by (simp add: n_def [symmetric] Let_def)
  next
    case False
    then have "let c = cut_from steps budget size' k (acc + n) in
      c \<le> k \<and> tail_size size' (drop c steps) \<le> budget \<and> (0 < c \<longrightarrow> budget < tail_size size' (drop (c - 1) steps))"
      using 2(1) [OF n_def] 2(2) s by (simp add: n_def)
    with False show ?thesis by (simp add: n_def [symmetric] Let_def)
  qed
qed

lemma cut_steps_tail:
  assumes "0 < budget"
  shows "cut_steps steps budget size' \<le> length steps \<and>
    tail_size size' (drop (cut_steps steps budget size') steps) \<le> budget \<and>
    (0 < cut_steps steps budget size' \<longrightarrow> budget < tail_size size' (drop (cut_steps steps budget size' - 1) steps))"
  using cut_from_tail [of "length steps" steps 0 size' budget] assms by (simp add: cut_steps_def Let_def)

section \<open>A compaction keeps its tail\<close>

text \<open>Whatever cuts a path, its entries are, compactions aside, those after some position.\<close>

lemma cut_suffix:
  assumes a: "accepted t" and p: "is_path t path"
  obtains m where "m \<le> length path"
    and "no_compactions (snd (cut_path t path)) = no_compactions (map (at t) (rev (take m path)))"
  using a p
proof (cases rule: cut_path_cases)
  case whole
  then show ?thesis using that [of "length path"] by simp
next
  case (bare k)
  then show ?thesis using that [of k] by simp
next
  case (tail k j)
  let ?mid = "take (Suc j) (drop (Suc k) path)"
  have d: "drop k path = path ! k # drop (Suc k) path" using tail(1) by (rule Cons_nth_drop_Suc [symmetric])
  have "take (k + Suc (Suc j)) path = take k path @ take (Suc (Suc j)) (drop k path)" by (rule take_add)
  then have "take (k + Suc (Suc j)) path = take k path @ path ! k # ?mid" by (simp only: d take_Suc_Cons)
  moreover have "en_type (at t (path ! k)) = TypeCompaction" using tail(2) by (simp add: cuts_def)
  ultimately have "no_compactions (map (at t) (rev (take (k + Suc (Suc j)) path))) = no_compactions (snd (cut_path t path))"
    using tail(7) by simp
  moreover have "k + Suc (Suc j) \<le> length path" using tail(1,4) by simp
  ultimately show ?thesis using that [of "k + Suc (Suc j)"] by simp
qed

lemma index_where_SomeI:
  "i < length xs \<Longrightarrow> p (xs ! i) \<Longrightarrow> \<forall>j < i. \<not> p (xs ! j) \<Longrightarrow> index_where p xs = Some i"
proof (induction xs arbitrary: i)
  case (Cons x xs)
  show ?case
  proof (cases i)
    case 0
    with Cons.prems show ?thesis by simp
  next
    case (Suc m)
    then have "\<not> p x" "\<forall>j < m. \<not> p (xs ! j)" using Cons.prems(3) by fastforce+
    with Cons.IH [of m] Cons.prems Suc show ?thesis by simp
  qed
qed simp

lemma along_Inr: "along f x = Some (Inr y) \<longleftrightarrow> (\<exists>z. x = Some (Inr z) \<and> y = f z)"
proof (cases x)
  case (Some r)
  then show ?thesis by (cases r) auto
qed simp

lemma split_at_id:
  assumes "A @ B = C @ D" and "distinct (map f (A @ B))" and "B \<noteq> []" and "D \<noteq> []" and "f (hd B) = f (hd D)"
  shows "B = D"
proof -
  have at': "(A @ B) ! length A = hd B" "(C @ D) ! length C = hd D" using assms(3,4) by (simp_all add: nth_append hd_conv_nth)
  have "length A + length B = length C + length D" using arg_cong [OF assms(1), of length] by simp
  moreover have "0 < length B" "0 < length D" using assms(3,4) by simp_all
  ultimately have "length A < length A + length B" "length C < length A + length B" by linarith+
  then have l: "length A < length (A @ B)" "length C < length (A @ B)" by (simp_all only: length_append)
  have "map f (A @ B) ! length A = map f (A @ B) ! length C"
    using at' assms(1,5) l by (metis nth_map)
  then have "length A = length C" using assms(2) l by (metis length_map nth_eq_iff_index_eq)
  with assms(1) show ?thesis by simp
qed

lemma messages_of_render:
  "t_render t' = t_render t \<Longrightarrow> messages_from t' current d es = messages_from t current d es"
  by (induction es arbitrary: d) (simp_all add: render_reminder_def split: option.split)

lemma linked_no_compactions: "linked prev es \<Longrightarrow> linked prev (no_compactions es)"
proof (induction "length es" arbitrary: es rule: less_induct)
  case less
  show ?case
  proof (cases "\<exists>c \<in> set es. en_type c = TypeCompaction")
    case True
    then obtain xs c ys where s: "es = xs @ c # ys" "en_type c = TypeCompaction" by (meson split_list)
    have "linked prev (xs @ ys)" by (rule linked_without [of prev xs c]) (use less.prems s in auto)
    with less.hyps [of "xs @ ys"] s show ?thesis by simp
  next
    case False
    then show ?thesis using less.prems by (simp add: filter_id_conv)
  qed
qed

lemma add_path:
  assumes ok: "tree_ok t" and c: "t_check t e = None" "en_id e \<noteq> []"
    and w: "tree_walk t (en_parent e) = Some (Inr path)"
  shows "tree_walk (t_add e t) (en_id e) = Some (Inr (length (t_entries t) # path))"
    and "\<And>i. i \<in> set path \<Longrightarrow> at (t_add e t) i = at t i"
    and "at (t_add e t) (length (t_entries t)) = e"
proof -
  let ?n = "length (t_entries t)"
  have ok': "tree_ok (t_add e t)" by (rule tree_ok_add [OF ok c])
  have lt: "i < ?n" if "i \<in> set path" for i
    using that is_path_lt [of t path] walk_path(2) [OF ok w] by fastforce
  then show old: "\<And>i. i \<in> set path \<Longrightarrow> at (t_add e t) i = at t i" by (simp add: nth_append)
  show new: "at (t_add e t) ?n = e" by simp
  obtain path' where p': "walk_from (t_add e t) ?n = Some (?n # path')" "is_path (t_add e t) (?n # path')"
    using walk_from_path [OF ok', of ?n] by auto
  have "path' = path"
  proof (cases "en_parent e = []")
    case True
    then have "path = []" using walk_path(3) [OF ok w] by simp
    moreover have "path' = []"
    proof (rule ccontr)
      assume "path' \<noteq> []"
      then obtain j rest where "path' = j # rest" by (cases path') auto
      with p'(2) True show False by simp
    qed
    ultimately show ?thesis by simp
  next
    case False
    then have ne: "path \<noteq> []" using walk_path(3) [OF ok w] by simp
    obtain j where j: "t_index t (en_parent e) = Some j" using c(1) False by (auto simp: t_check_def split: if_splits)
    then have jl: "j < ?n" "en_id (at t j) = en_parent e" using t_index_lt [OF ok] by auto
    have fresh: "t_index t (en_id e) = None" using c(1) by (auto simp: t_check_def split: if_splits)
    with j have "en_parent e \<noteq> en_id e" by auto
    then have "t_index (t_add e t) (en_parent e) = Some j" using j by simp
    then have "walk_from (t_add e t) ?n = Option.bind (walk_from (t_add e t) j) (\<lambda>p. Some (?n # p))"
      using False by (simp add: walk_from.simps [of "t_add e t" ?n])
    then have pj: "walk_from (t_add e t) j = Some path'" using p'(1) by (cases "walk_from (t_add e t) j") simp_all
    have wj: "walk_from t j = Some path" using w j False by (simp add: tree_walk_def)
    have "k < ?n \<Longrightarrow> walk_from (t_add e t) k = walk_from t k" for k
    proof (induction k rule: less_induct)
      case (less k)
      show ?case
      proof (cases "en_parent (at t k) = []")
        case True
        then show ?thesis using less.prems by (simp add: walk_from.simps [of _ k] nth_append)
      next
        case False
        then obtain m where m: "m < k" "t_index t (en_parent (at t k)) = Some m" using parent_before [OF ok less.prems] by blast
        have "en_parent (at t k) \<noteq> en_id e" using m(2) fresh by auto
        then have "walk_from (t_add e t) k = Option.bind (walk_from (t_add e t) m) (\<lambda>p. Some (k # p))"
          using False m(2) less.prems by (simp add: walk_from.simps [of "t_add e t" k] nth_append)
        also have "walk_from (t_add e t) m = walk_from t m" using less.IH [OF m(1)] m(1) less.prems by simp
        finally show ?thesis using False m(2) by (simp add: walk_from.simps [of t k])
      qed
    qed
    with pj wj jl(1) show ?thesis by simp
  qed
  moreover have "t_index (t_add e t) (en_id e) = Some ?n" by simp
  ultimately show "tree_walk (t_add e t) (en_id e) = Some (Inr (?n # path))"
    using p'(1) c(2) by (simp add: tree_walk_def)
qed

lemma path_ids_distinct:
  assumes ok: "tree_ok t" and p: "is_path t path"
  shows "distinct (map (\<lambda>i. en_id (at t i)) path)"
  using is_path_distinct [OF p] is_path_lt [OF p] ids_inj [OF ok]
  by (auto simp: distinct_map inj_on_def)

text \<open>Appending a compaction that keeps from a step of the context: the next context is its summary, and what the steps
  from there on sent.\<close>

lemma compaction_context:
  assumes a: "accepted t" and ss: "steps_at t (en_parent e) current = Some (Inr ss)" and k: "k < length ss"
    and e: "cuts e" "cp_first_kept (en_compaction e) = sp_first (ss ! k)" and c: "t_check t e = None" "en_id e \<noteq> []"
  obtains loose where "\<forall>x \<in> set loose. \<not> step_end (Some x)"
    and "map fst (messages_of t (concat (map sp_entries (drop k ss)) @ loose) current) =
      concat (map sp_messages (drop k ss)) @ map fst (messages_of t loose current)"
    and "context_at (t_add e t) (en_id e) current = Some (Inr
      (let head = (case rd_summary (t_render t) of None \<Rightarrow> [] | Some f \<Rightarrow> [(f (en_compaction e), True)])
       in trim_unanswered (length head) (head @ messages_of t (concat (map sp_entries (drop k ss)) @ loose) current)))"
proof -
  let ?n = "length (t_entries t)" and ?t = "t_add e t"
  have ok: "tree_ok t" using a by (simp add: accepted_def)
  obtain path where w: "tree_walk t (en_parent e) = Some (Inr path)" and s: "ss = steps_from t current [] (snd (cut_path t path))"
    using ss unfolding steps_at_def context_entries_def along_Inr by (metis snd_conv)
  obtain loose where cover: "no_compactions (snd (cut_path t path)) = concat (map sp_entries ss) @ loose"
    "\<forall>x \<in> set loose. \<not> step_end (Some x)" "\<forall>s \<in> set ss. whole_step t current s"
    using steps_from_cover [of "[]" "snd (cut_path t path)" t current] s by auto
  let ?B = "concat (map sp_entries (drop k ss)) @ loose"
  have kk: "drop k ss = ss ! k # drop (Suc k) ss" using k by (rule Cons_nth_drop_Suc [symmetric])
  have wk: "whole_step t current (ss ! k)" using cover(3) k by simp
  then have B: "?B \<noteq> []" "en_id (hd ?B) = sp_first (ss ! k)" by (simp_all add: kk whole_step_def)
  have AB: "no_compactions (snd (cut_path t path)) = concat (map sp_entries (take k ss)) @ ?B"
    using cover(1) append_take_drop_id [of k ss] by (metis append.assoc concat_append map_append)
  have ne: "path \<noteq> []" using AB B(1) by (auto simp: cut_path_def)
  have p: "is_path t path" using walk_path(2) [OF ok w ne] by simp
  obtain m where m: "m \<le> length path"
    "no_compactions (snd (cut_path t path)) = no_compactions (map (at t) (rev (take m path)))"
    by (rule cut_suffix [OF a p])
  have "hd ?B \<in> set (no_compactions (map (at t) (rev (take m path))))"
    using AB m(2) B(1) by (metis Un_iff hd_in_set set_append)
  then obtain j where j: "j < m" "hd ?B = at t (path ! j)" "en_type (at t (path ! j)) \<noteq> TypeCompaction"
    by (auto simp: in_set_conv_nth)
  have jp: "j < length path" using j(1) m(1) by simp
  have td: "take m path = take (Suc j) path @ take (m - Suc j) (drop (Suc j) path)"
    using j(1) take_add [of "Suc j" "m - Suc j" path] by simp
  let ?X = "no_compactions (map (at t) (rev (take (m - Suc j) (drop (Suc j) path))))"
    and ?D = "no_compactions (map (at t) (rev (take (Suc j) path)))"
  have D: "?D = at t (path ! j) # no_compactions (map (at t) (rev (take j path)))"
    using j(3) jp by (simp add: take_Suc_conv_app_nth)
  have eq: "concat (map sp_entries (take k ss)) @ ?B = ?X @ ?D"
    using AB m(2) td by simp
  have "distinct (map en_id (no_compactions (map (at t) (rev (take m path)))))"
  proof -
    have "distinct (map en_id (map (at t) (rev (take m path))))"
      using path_ids_distinct [OF ok p] by (simp add: comp_def rev_map [symmetric] distinct_take take_map [symmetric])
    then show ?thesis by (rule distinct_map_filter)
  qed
  then have "distinct (map en_id (concat (map sp_entries (take k ss)) @ ?B))" using AB m(2) by simp
  from split_at_id [OF eq this B(1) _] have BD: "?B = ?D" using D j(2) by simp
  have idx: "index_where (\<lambda>i. en_id (at ?t i) = sp_first (ss ! k)) path = Some j"
  proof -
    have old: "\<And>i. i \<in> set path \<Longrightarrow> at ?t i = at t i" by (rule add_path(2) [OF ok c w])
    have "en_id (at t (path ! j)) = sp_first (ss ! k)" using B(2) j(2) by simp
    moreover have "en_id (at t (path ! i)) \<noteq> sp_first (ss ! k)" if "i < j" for i
    proof -
      have "i < length path" "i \<noteq> j" using that jp by simp_all
      then have "en_id (at t (path ! i)) \<noteq> en_id (at t (path ! j))"
        using nth_eq_iff_index_eq [OF path_ids_distinct [OF ok p], of i j] jp by simp
      with B(2) j(2) show ?thesis by simp
    qed
    ultimately show ?thesis using jp old by (intro index_where_SomeI) auto
  qed
  have first: "sp_first (ss ! k) \<noteq> []" using B(2) j(2) id_nonempty [OF ok is_path_lt [OF p nth_mem [OF jp]]] by simp
  have "?n \<notin> set path" using is_path_lt [OF p] by auto
  then have "filter (\<lambda>i. i \<noteq> ?n) (rev (take (Suc j) path)) = rev (take (Suc j) path)"
    by (auto simp: filter_id_conv dest: in_set_takeD)
  moreover have "map (at ?t) (rev (take (Suc j) path)) = map (at t) (rev (take (Suc j) path))"
  proof (rule map_cong [OF refl])
    fix i assume "i \<in> set (rev (take (Suc j) path))"
    then have "i \<in> set path" by (auto dest: in_set_takeD)
    then show "at ?t i = at t i" by (rule add_path(2) [OF ok c w])
  qed
  ultimately have cp: "cut_path ?t (?n # path) = (Some e, map (at t) (rev (take (Suc j) path)))"
    using e idx first by (simp add: cut_path_def Let_def)
  have ctx: "context_at ?t (en_id e) current = Some (Inr (context_msgs ?t current (Some e, map (at t) (rev (take (Suc j) path)))))"
    by (simp add: context_at_def context_entries_def add_path(1) [OF ok c w] cp)
  have msgs: "messages_of ?t (map (at t) (rev (take (Suc j) path))) current = messages_of t ?B current"
    unfolding messages_of_def BD by (simp add: messages_no_compactions messages_of_render [of ?t t])
  show thesis
  proof (rule that [OF cover(2)])
    have l: "linked None (concat (map sp_entries (take k ss)) @ ?B)"
      using linked_no_compactions [OF cut_linked [OF a p]] AB by simp
    then obtain prev where "linked prev ?B" by (auto simp: linked_append)
    then show "map fst (messages_of t ?B current) =
      concat (map sp_messages (drop k ss)) @ map fst (messages_of t loose current)"
      by (rule step_messages) (use cover(3) in_set_dropD in fast)
    show "context_at ?t (en_id e) current = Some (Inr
      (let head = (case rd_summary (t_render t) of None \<Rightarrow> [] | Some f \<Rightarrow> [(f (en_compaction e), True)])
       in trim_unanswered (length head) (head @ messages_of t ?B current)))"
      unfolding ctx context_msgs_def by (simp add: msgs Let_def split: option.split)
  qed
qed

section \<open>The frontier\<close>

lemma trim_append:
  assumes "h \<le> length X"
  shows "trim_unanswered h (X @ Y) = (if trim_unanswered 0 Y = [] then trim_unanswered h X else X @ trim_unanswered 0 Y)"
proof (induction Y rule: rev_induct)
  case Nil
  then show ?case by (simp add: trim_unanswered.simps [of 0 "[]"])
next
  case (snoc y Y)
  have l: "h < length (X @ Y @ [y])" using assms by simp
  show ?case
  proof (cases "unanswered (fst y)")
    case True
    then have "trim_unanswered h (X @ Y @ [y]) = trim_unanswered h (X @ Y)"
      using l by (simp add: trim_unanswered.simps [of h "X @ Y @ [y]"] butlast_append)
    moreover have "trim_unanswered 0 (Y @ [y]) = trim_unanswered 0 Y"
      using True by (simp add: trim_unanswered.simps [of 0 "Y @ [y]"])
    ultimately show ?thesis using snoc by simp
  next
    case False
    then have "trim_unanswered h (X @ Y @ [y]) = X @ Y @ [y]" by (simp add: trim_unanswered.simps [of h "X @ Y @ [y]"])
    moreover have "trim_unanswered 0 (Y @ [y]) = Y @ [y]" using False by (simp add: trim_unanswered.simps [of 0 "Y @ [y]"])
    ultimately show ?thesis by simp
  qed
qed

text \<open>The context up to and with the frontier's entry, and what follows it, each message once.\<close>

lemma messages_after_answer:
  assumes l: "linked prev (xs @ e # ys)" and e: "en_type e = TypeMessage" "en_role e = RoleAssistant"
  shows "messages_of t (xs @ e # ys) current = messages_of t (xs @ [e]) current @ messages_of t ys current"
proof (cases "has_open_calls (Some e)")
  case False
  then show ?thesis using messages_split [of prev "xs @ [e]" ys] l by simp
next
  case True
  then obtain m where m: "replayed e current = Some m" using replayed_keeps [of e current] by blast
  obtain d where d: "\<And>zs. messages_from t current False (xs @ zs) = messages_from t current False xs @ messages_from t current (d zs) zs"
    using messages_from_append by metis
  show ?thesis unfolding messages_of_def d using e m by (simp add: messages_from_append)
qed

lemma take_split_at:
  assumes "k < m" and "m \<le> length path"
  shows "map g (rev (take m path)) = map g (rev (drop (Suc k) (take m path))) @ g (path ! k) # map g (rev (take k path))"
  using arg_cong [OF id_take_nth_drop [of k "take m path"], of "\<lambda>p. map g (rev p)"] assms by (simp add: min_absorb1)

definition asked_usage :: "entry \<Rightarrow> bool" where
  "asked_usage e \<longleftrightarrow> en_type e = TypeMessage \<and> en_role e = RoleAssistant \<and> me_usage (en_entry e) \<noteq> None"

lemma frontier_cut:
  assumes a: "accepted t" and p: "is_path t path" and k: "k < length path" "\<forall>i \<in> set (take (Suc k) path). \<not> cuts (at t i)"
  shows "\<exists>upto. snd (cut_path t path) = upto @ at t (path ! k) # map (at t) (rev (take k path))"
proof -
  have later: "k < k'" if "cuts (at t (path ! k'))" for k'
  proof (rule ccontr)
    assume "\<not> k < k'"
    then have "path ! k' \<in> set (take (Suc k) path)" using k(1) by (auto simp: in_set_conv_nth intro!: exI [of _ k'])
    with k(2) that show False by blast
  qed
  from a p show ?thesis
  proof (cases rule: cut_path_cases)
    case whole
    then show ?thesis using take_split_at [of k "length path" path "at t"] k(1) by auto
  next
    case (bare k')
    then show ?thesis using take_split_at [of k k' path "at t"] later [OF bare(2)] by auto
  next
    case (tail k' j)
    then show ?thesis using take_split_at [of k k' path "at t"] later [OF tail(2)] by auto
  qed
qed

lemma frontier_context:
  assumes a: "accepted t" and f: "frontier_at t leaf current = Some (Inr (Some f))"
  obtains c before upto after where "context_entries t leaf = Some (Inr (c, upto @ f_entry f # after))"
    and "branch t leaf = Some (Inr (before @ f_entry f # after))"
    and "asked_usage (f_entry f)" and "\<forall>x \<in> set after. \<not> asked_usage x \<and> \<not> cuts x"
    and "f_after f = trim_unanswered 0 (messages_of t after current)"
    and "context_at t leaf current = Some (Inr
      (let head = (case (c, rd_summary (t_render t)) of (Some c, Some s) \<Rightarrow> [(s (en_compaction c), True)] | _ \<Rightarrow> []);
           sent = head @ messages_of t (upto @ [f_entry f]) current
       in if f_after f = [] then trim_unanswered (length head) sent else sent @ f_after f))"
proof -
  have ok: "tree_ok t" using a by (simp add: accepted_def)
  obtain path where w: "tree_walk t leaf = Some (Inr path)" and fi: "frontier_in t current path = Some f"
    using f unfolding frontier_at_def along_Inr by auto
  obtain k where k: "index_where (\<lambda>i. cuts (at t i) \<or> asked_usage (at t i)) path = Some k" "\<not> cuts (at t (path ! k))"
    and fe: "f_entry f = at t (path ! k)"
    and fa: "f_after f = trim_unanswered 0 (messages_of t (map (at t) (rev (take k path))) current)"
    using fi by (auto simp: frontier_in_def asked_usage_def Let_def split: option.splits if_splits)
  note kD = index_where_SomeD [OF k(1)]
  have kl: "k < length path" using kD by blast
  then have p: "is_path t path" using walk_path(2) [OF ok w] by fastforce
  have below: "\<forall>i \<in> set (take k path). \<not> cuts (at t i) \<and> \<not> asked_usage (at t i)" using kD by (auto simp: in_set_conv_nth)
  then have "\<forall>i \<in> set (take (Suc k) path). \<not> cuts (at t i)" using k(2) kl by (auto simp: take_Suc_conv_app_nth)
  then obtain upto where u: "snd (cut_path t path) = upto @ f_entry f # map (at t) (rev (take k path))"
    using frontier_cut [OF a p kl] fe by auto
  obtain c where c: "cut_path t path = (c, upto @ f_entry f # map (at t) (rev (take k path)))"
    using u by (metis prod.collapse)
  have asked_usage: "asked_usage (f_entry f)" using kD k(2) fe by auto
  define head where "head = (case (c, rd_summary (t_render t)) of (Some c, Some s) \<Rightarrow> [(s (en_compaction c), True)] | _ \<Rightarrow> [])"
  let ?sent = "head @ messages_of t (upto @ [f_entry f]) current"
  have "linked None (upto @ f_entry f # map (at t) (rev (take k path)))" using cut_linked [OF a p] c by simp
  then have split': "messages_of t (upto @ f_entry f # map (at t) (rev (take k path))) current =
      messages_of t (upto @ [f_entry f]) current @ messages_of t (map (at t) (rev (take k path))) current"
    by (rule messages_after_answer) (use asked_usage in \<open>simp_all add: asked_usage_def\<close>)
  have "context_at t leaf current = Some (Inr (trim_unanswered (length head)
      (?sent @ messages_of t (map (at t) (rev (take k path))) current)))"
    by (simp add: context_at_def context_entries_def w c context_msgs_def split' head_def Let_def)
  then have ctx: "context_at t leaf current = Some (Inr
      (if f_after f = [] then trim_unanswered (length head) ?sent else ?sent @ f_after f))"
    using trim_append [of "length head" ?sent "messages_of t (map (at t) (rev (take k path))) current"] fa by simp
  show thesis
  proof (rule that [OF _ _ asked_usage _ fa])
    show "branch t leaf = Some (Inr (map (at t) (rev (drop (Suc k) path)) @ f_entry f # map (at t) (rev (take k path))))"
      using take_split_at [of k "length path" path "at t"] kl by (simp add: branch_def w fe)
    show "context_entries t leaf = Some (Inr (c, upto @ f_entry f # map (at t) (rev (take k path))))"
      by (simp add: context_entries_def w c)
    show "\<forall>x \<in> set (map (at t) (rev (take k path))). \<not> asked_usage x \<and> \<not> cuts x" using below by auto
    show "context_at t leaf current = Some (Inr
      (let head = (case (c, rd_summary (t_render t)) of (Some c, Some s) \<Rightarrow> [(s (en_compaction c), True)] | _ \<Rightarrow> []);
           sent = head @ messages_of t (upto @ [f_entry f]) current
       in if f_after f = [] then trim_unanswered (length head) sent else sent @ f_after f))"
      unfolding ctx head_def [symmetric] by (simp add: Let_def)
  qed
qed

text \<open>No frontier: every answer with usage on the branch has a compaction after it.\<close>

lemma frontier_none:
  assumes f: "frontier_at t leaf current = Some (Inr None)"
  obtains es where "branch t leaf = Some (Inr es)"
    and "\<And>before x after. es = before @ x # after \<Longrightarrow> asked_usage x \<Longrightarrow> \<exists>y \<in> set after. cuts y"
proof -
  obtain path where w: "tree_walk t leaf = Some (Inr path)" and fi: "frontier_in t current path = None"
    using f unfolding frontier_at_def along_Inr by auto
  show thesis
  proof (rule that [of "map (at t) (rev path)"])
    show "branch t leaf = Some (Inr (map (at t) (rev path)))" by (simp add: branch_def w)
    fix before x after
    assume split: "map (at t) (rev path) = before @ x # after" and x: "asked_usage x"
    define n where "n = length after"
    have "rev (map (at t) path) = before @ x # after" using split by (simp add: rev_map)
    then have p: "map (at t) path = rev after @ x # rev before" by (metis rev_append rev_rev_ident rev.simps(2) append_assoc append_Cons append_Nil)
    have n1: "n < length path" using arg_cong [OF p, of length] by (simp add: n_def)
    have "map (at t) path ! n = x" using p by (simp add: n_def nth_append)
    then have n2: "at t (path ! n) = x" using n1 by simp
    have "take n (map (at t) path) = rev after" by (simp add: p n_def)
    then have n3: "map (at t) (take n path) = rev after" by (simp add: take_map)
    note n = n1 n2 n3
    have "index_where (\<lambda>i. cuts (at t i) \<or> asked_usage (at t i)) path \<noteq> None"
      using n(1,2) x by (metis index_where_None nth_mem)
    then obtain k where k: "index_where (\<lambda>i. cuts (at t i) \<or> asked_usage (at t i)) path = Some k" "cuts (at t (path ! k))"
      using fi by (auto simp: frontier_in_def asked_usage_def Let_def split: option.splits if_splits)
    note kD = index_where_SomeD [OF k(1)]
    have "\<not> cuts x" using x by (auto simp: asked_usage_def cuts_def)
    then have "k < n" using kD n(2) k(2) x by (metis linorder_neqE_nat)
    then have "path ! k \<in> set (take n path)" using n(1) by (auto simp: in_set_conv_nth intro!: exI [of _ k])
    then have "at t (path ! k) \<in> set (map (at t) (take n path))" by simp
    with n(3) k(2) show "\<exists>y \<in> set after. cuts y" by auto
  qed
qed

end
