(* ===== verification/Session_Store.thy ===== *)
theory Session_Store
  imports Session_Context "HOL-Library.Sublist" "HOL-Library.Word"
begin

text \<open>
  A native session's file and the store that grows it (\<open>internal/harness/store/store.go\<close>, \<open>open.go\<close>, the codec of
  \<open>entry.go\<close> and \<open>Load\<close> of \<open>transcript.go\<close>).

  \<^item> JSON, and the message JSON of the model library, are the parameter \<open>json\<close>: what \<open>Marshal\<close> makes of a line's
    struct and what \<open>Unmarshal\<close> reads of a line. \<open>json_ok\<close> states what the store relies on of them: a line has no
    newline, no proper prefix of one is a JSON object, and text JSON can carry reads back as it was. The checks the
    code makes around them (\<open>encodeEntry\<close>, \<open>decodeEntry\<close>, \<open>decodeCompaction\<close>) are definitions.
  \<^item> The session's file is its bytes, or \<open>None\<close> while it does not exist. A descriptor is the flag \<open>sv_open\<close>.
    What an operation draws from outside, the ids, the clock and the fate of its one write, is the record \<open>write_env\<close>.
    A write that fails has put some prefix of its bytes in the file, as a crash in the middle of it would.
  \<^item> An operation that walks the tree (\<open>checkTail\<close>) is \<open>None\<close> where the code would not return.
\<close>

section \<open>Lines\<close>

datatype 'a field = Absent | Misshapen | Field 'a

record envelope =
  v_type :: string
  v_id :: string
  v_parent :: "string option"
  v_time :: "nat option"

record header_json =
  hj_type :: string
  hj_time :: "nat option"
  hj_header :: header

record message_json =
  mj_entry :: message_entry
  mj_turn :: "int field"
  mj_todos :: "todo list field"

record compaction_json =
  cj_turn :: "int field"
  cj_summary :: "string field"
  cj_first_kept :: "string field"
  cj_before :: "int field"
  cj_after :: "int field"
  cj_reason :: "string field"
  cj_command :: "string field"
  cj_provider :: "string field"
  cj_model :: "string field"
  cj_wire :: "string field"
  cj_usage :: "usage field"
  cj_long :: "usage field"
  cj_segment :: "string field"
  cj_error :: "string field"

text \<open>\<open>js_text\<close> is the strings JSON carries unchanged; \<open>js_object\<close> reads a line as an object and its type field.\<close>

record json =
  js_text :: "string \<Rightarrow> bool"
  js_header_line :: "header \<Rightarrow> string"
  js_header :: "string \<Rightarrow> header_json option"
  js_line :: "entry \<Rightarrow> string option"
  js_envelope :: "string \<Rightarrow> envelope option"
  js_message :: "string \<Rightarrow> message_json option"
  js_model :: "string \<Rightarrow> model_ref option"
  js_effort :: "string \<Rightarrow> string option"
  js_mode :: "string \<Rightarrow> string option"
  js_resume :: "string \<Rightarrow> contract option"
  js_reminder :: "string \<Rightarrow> string field option"
  js_compaction :: "string \<Rightarrow> compaction_json option"
  js_object :: "string \<Rightarrow> string field option"

definition typeSession :: string where "typeSession = ''session''"
definition FormatVersion :: int where "FormatVersion = 1"

fun type_name :: "entry_type \<Rightarrow> string" where
  "type_name TypeMessage = ''message''"
| "type_name TypeModelChange = ''model_change''"
| "type_name TypeEffortChange = ''effort_change''"
| "type_name TypeModeChange = ''mode_change''"
| "type_name TypeResume = ''resume''"
| "type_name TypeReminder = ''reminder''"
| "type_name TypeCompaction = ''compaction''"
| "type_name (TypeNewer s) = s"

definition type_of_name :: "string \<Rightarrow> entry_type" where
  "type_of_name s =
     (if s = ''message'' then TypeMessage else if s = ''model_change'' then TypeModelChange
      else if s = ''effort_change'' then TypeEffortChange else if s = ''mode_change'' then TypeModeChange
      else if s = ''resume'' then TypeResume else if s = ''reminder'' then TypeReminder
      else if s = ''compaction'' then TypeCompaction else TypeNewer s)"

definition known_type :: "string \<Rightarrow> bool" where
  "known_type s \<longleftrightarrow>
     s \<in> {''message'', ''model_change'', ''effort_change'', ''mode_change'', ''resume'', ''reminder'', ''compaction''}"

text \<open>\<open>encodeEntry\<close>: the checks, and then the line's struct through \<open>Marshal\<close>.\<close>

definition encode_entry :: "json \<Rightarrow> entry \<Rightarrow> string option" where
  "encode_entry j e =
     (case en_type e of
        TypeReminder \<Rightarrow> if check_variant (en_variant e) then js_line j e else None
      | TypeCompaction \<Rightarrow> if check_compaction e then js_line j e else None
      | TypeNewer _ \<Rightarrow> None
      | _ \<Rightarrow> js_line j e)"

datatype decode_error = Undecodable | Invalid

definition decode_turn :: "int field \<Rightarrow> decode_error + int" where
  "decode_turn f = (case f of Absent \<Rightarrow> Inr 0 | Misshapen \<Rightarrow> Inl Invalid | Field n \<Rightarrow> Inr n)"

definition decode_todos :: "todo list field \<Rightarrow> decode_error + todo list option" where
  "decode_todos f = (case f of Absent \<Rightarrow> Inr None | Misshapen \<Rightarrow> Inl Invalid | Field items \<Rightarrow> Inr (Some items))"

definition decode_variant :: "string field \<Rightarrow> decode_error + string" where
  "decode_variant f = (case f of Field v \<Rightarrow> if check_variant v then Inr v else Inl Invalid | _ \<Rightarrow> Inl Invalid)"

definition required :: "'a field \<Rightarrow> 'a option" where
  "required f = (case f of Field x \<Rightarrow> Some x | _ \<Rightarrow> None)"

definition optional :: "'a \<Rightarrow> 'a field \<Rightarrow> 'a option" where
  "optional d f = (case f of Field x \<Rightarrow> Some x | Absent \<Rightarrow> Some d | Misshapen \<Rightarrow> None)"

text \<open>The fields of a compaction line, each of its type and the required ones there.\<close>

definition compaction_fields :: "compaction_json \<Rightarrow> (int \<times> model_ref \<times> usage \<times> compaction) option" where
  "compaction_fields f =
     Option.bind (required (cj_turn f)) (\<lambda>turn.
     Option.bind (optional [] (cj_summary f)) (\<lambda>summary.
     Option.bind (optional [] (cj_first_kept f)) (\<lambda>first.
     Option.bind (required (cj_before f)) (\<lambda>before.
     Option.bind (required (cj_after f)) (\<lambda>after.
     Option.bind (required (cj_reason f)) (\<lambda>reason.
     Option.bind (optional [] (cj_command f)) (\<lambda>command.
     Option.bind (required (cj_provider f)) (\<lambda>provider.
     Option.bind (required (cj_model f)) (\<lambda>alias.
     Option.bind (required (cj_wire f)) (\<lambda>wire.
     Option.bind (required (cj_usage f)) (\<lambda>u.
     Option.bind (optional zero_usage (cj_long f)) (\<lambda>long.
     Option.bind (optional [] (cj_segment f)) (\<lambda>segment.
     Option.bind (optional [] (cj_error f)) (\<lambda>err.
       Some (turn, \<lparr>md_provider = provider, md_alias = alias, md_wire = wire\<rparr>, u,
             \<lparr>cp_summary = summary, cp_first_kept = first, cp_before = before, cp_after = after, cp_reason = reason,
              cp_command = command, cp_segment = segment, cp_error = err, cp_long = long\<rparr>)))))))))))))))"

definition decode_compaction :: "json \<Rightarrow> string \<Rightarrow> entry \<Rightarrow> decode_error + entry" where
  "decode_compaction j line e =
     (case js_compaction j line of
        None \<Rightarrow> Inl Undecodable
      | Some f \<Rightarrow>
          case compaction_fields f of
            None \<Rightarrow> Inl Invalid
          | Some (turn, model, u, c) \<Rightarrow>
              let e' = e\<lparr>en_compaction := c,
                        en_entry := (en_entry e)\<lparr>me_turn := turn, me_model := model, me_usage := Some u\<rparr>\<rparr>
              in if check_compaction e' then Inr e' else Inl Invalid)"

definition decode_message :: "json \<Rightarrow> string \<Rightarrow> entry \<Rightarrow> decode_error + entry" where
  "decode_message j line e =
     (case js_message j line of
        None \<Rightarrow> Inl Undecodable
      | Some m \<Rightarrow>
          if m_role (me_message (mj_entry m)) = RoleOther [] then Inl Undecodable
          else case decode_turn (mj_turn m) of
            Inl err \<Rightarrow> Inl err
          | Inr turn \<Rightarrow>
              case decode_todos (mj_todos m) of
                Inl err \<Rightarrow> Inl err
              | Inr todos \<Rightarrow>
                  let me = (mj_entry m)\<lparr>me_turn := turn, me_todos := todos\<rparr>
                  in if check_fields me then Inr (e\<lparr>en_entry := me\<rparr>) else Inl Invalid)"

definition decode_payload :: "json \<Rightarrow> string \<Rightarrow> entry \<Rightarrow> decode_error + entry" where
  "decode_payload j line e =
     (let m = en_entry e
      in case en_type e of
           TypeMessage \<Rightarrow> decode_message j line e
         | TypeModelChange \<Rightarrow>
             (case js_model j line of None \<Rightarrow> Inl Undecodable | Some x \<Rightarrow> Inr (e\<lparr>en_entry := m\<lparr>me_model := x\<rparr>\<rparr>))
         | TypeEffortChange \<Rightarrow>
             (case js_effort j line of None \<Rightarrow> Inl Undecodable | Some x \<Rightarrow> Inr (e\<lparr>en_entry := m\<lparr>me_effort := x\<rparr>\<rparr>))
         | TypeModeChange \<Rightarrow> (case js_mode j line of None \<Rightarrow> Inl Undecodable | Some x \<Rightarrow> Inr (e\<lparr>en_mode := x\<rparr>))
         | TypeResume \<Rightarrow> (case js_resume j line of None \<Rightarrow> Inl Undecodable | Some x \<Rightarrow> Inr (e\<lparr>en_contract := x\<rparr>))
         | TypeReminder \<Rightarrow>
             (case js_reminder j line of
                None \<Rightarrow> Inl Undecodable
              | Some f \<Rightarrow> (case decode_variant f of Inl err \<Rightarrow> Inl err | Inr v \<Rightarrow> Inr (e\<lparr>en_variant := v\<rparr>)))
         | TypeCompaction \<Rightarrow> decode_compaction j line e
         | TypeNewer _ \<Rightarrow> Inr e)"

definition decode_entry :: "json \<Rightarrow> string \<Rightarrow> decode_error + entry" where
  "decode_entry j line =
     (case js_envelope j line of
        None \<Rightarrow> Inl Undecodable
      | Some v \<Rightarrow>
          if v_type v = [] \<or> v_type v = typeSession then Inl Undecodable
          else if v_id v = [] then Inl Undecodable
          else case v_time v of
            None \<Rightarrow> Inl Undecodable
          | Some ts \<Rightarrow>
              if v_parent v = Some [] then Inl Undecodable
              else decode_payload j line
                (zero_entry\<lparr>en_type := type_of_name (v_type v), en_id := v_id v, en_time := ts,
                            en_parent := (case v_parent v of None \<Rightarrow> [] | Some p \<Rightarrow> p)\<rparr>))"

definition decode_header :: "json \<Rightarrow> string \<Rightarrow> header option" where
  "decode_header j line =
     (case js_header j line of
        None \<Rightarrow> None
      | Some v \<Rightarrow>
          if hj_type v \<noteq> typeSession then None
          else if h_version (hj_header v) \<noteq> FormatVersion then None
          else if h_id (hj_header v) = [] then None
          else map_option (\<lambda>ts. (hj_header v)\<lparr>h_time := ts\<rparr>) (hj_time v))"

section \<open>Reading a file\<close>

abbreviation newline :: char where
  "newline \<equiv> CHR 0x0A"

text \<open>\<open>bytes.Split\<close> on a newline.\<close>

fun byte_lines :: "string \<Rightarrow> string list" where
  "byte_lines [] = [[]]"
| "byte_lines (c # cs) =
     (if c = newline then [] # byte_lines cs
      else case byte_lines cs of [] \<Rightarrow> [[c]] | l # ls \<Rightarrow> (c # l) # ls)"

record parsed =
  pd_t :: transcript
  pd_header_end :: nat
  pd_ends :: "nat list"

datatype load_error = ErrNoHeader | ErrCorrupt

text \<open>One line joins the tree, or is what is wrong with it.\<close>

definition read_line :: "json \<Rightarrow> transcript \<Rightarrow> string \<Rightarrow> decode_error + entry" where
  "read_line j t line =
     (case decode_entry j line of
        Inl err \<Rightarrow> Inl err
      | Inr e \<Rightarrow> (case t_check t e of Some _ \<Rightarrow> Inl Undecodable | None \<Rightarrow> Inr e))"

fun parse_lines :: "json \<Rightarrow> nat \<Rightarrow> transcript \<Rightarrow> entry option \<Rightarrow> nat \<Rightarrow> nat list \<Rightarrow> string list \<Rightarrow>
    (load_error + transcript \<times> nat list) option" where
  "parse_lines j len t open' pos ends [] = Some (Inr (t, ends))"
| "parse_lines j len t open' pos ends (line # lines) =
     (case read_line j t line of
        Inl err \<Rightarrow> if lines = [] \<and> err \<noteq> Invalid then Some (Inr (t, ends)) else Some (Inl ErrCorrupt)
      | Inr e \<Rightarrow>
          let parent = t_entry t (en_parent e); (bad, open'') = pair_next open' e parent
          in if bad \<noteq> None then Some (Inl ErrCorrupt)
             else case check_tail t e parent of
               None \<Rightarrow> None
             | Some (Some _) \<Rightarrow> Some (Inl ErrCorrupt)
             | Some None \<Rightarrow>
                 let pos' = min (pos + length line + 1) len
                 in parse_lines j len (t_add e t) open'' pos' (ends @ [pos']) lines)"

definition file_lines :: "string \<Rightarrow> string list" where
  "file_lines data = (let ls = byte_lines data in if last ls = [] then butlast ls else ls)"

definition parse :: "json \<Rightarrow> string \<Rightarrow> (load_error + parsed) option" where
  "parse j data =
     (case file_lines data of
        [] \<Rightarrow> Some (Inl ErrNoHeader)
      | l # ls \<Rightarrow>
          case decode_header j l of
            None \<Rightarrow> Some (Inl ErrNoHeader)
          | Some h \<Rightarrow>
              let header_end = min (length l + 1) (length data)
              in along (\<lambda>(t, ends). \<lparr>pd_t = t, pd_header_end = header_end, pd_ends = ends\<rparr>)
                   (parse_lines j (length data) (new_transcript h) None header_end [] ls))"

definition kept_len :: "parsed \<Rightarrow> nat \<Rightarrow> nat" where
  "kept_len p keep = (if keep = 0 then pd_header_end p else pd_ends p ! (keep - 1))"

definition load :: "json \<Rightarrow> string \<Rightarrow> (load_error + transcript) option" where
  "load j data = along (\<lambda>p. snd (drop_incomplete (pd_t p))) (parse j data)"

section \<open>The store\<close>

record store =
  sv_t :: transcript
  sv_open :: bool
  sv_resume :: "entry option"
  sv_users :: "entry list"
  sv_changes :: "entry list"
  sv_closed :: bool
  sv_failed :: bool

record disk =
  dk_file :: "string option"
  dk_torn :: "string option"

text \<open>What an operation meets: the ids drawn, the readings of the clock, and how many bytes its write got to the file
  before it failed, if it did. A failed first write is any failed step of \<open>create\<close>.\<close>

record write_env =
  o_draw :: "nat \<Rightarrow> 32 word"
  o_clock :: "nat \<Rightarrow> nat"
  o_fails :: "nat option"

datatype store_error = ErrStoreClosed | ErrFailed | ErrNoOutput | ErrNoUser | ErrNothingToCompact
  | BadMessage | BadLead | BadChange | BadCompaction | NoEntryId | EncodeFails | WouldNotReadBack
  | Unpaired pair_error | CallsUnanswered | BadTail tail_error | WriteFails | CreateFails

type_synonym 'a store_result = "(store_error + 'a) \<times> store \<times> disk"

definition new_store :: "header \<Rightarrow> renderer \<Rightarrow> store" where
  "new_store h r =
     \<lparr>sv_t = (new_transcript h)\<lparr>t_render := r\<rparr>, sv_open = False, sv_resume = None, sv_users = [], sv_changes = [],
      sv_closed = False, sv_failed = False\<rparr>"

definition usable :: "store \<Rightarrow> store_error option" where
  "usable s = (if sv_closed s then Some ErrStoreClosed else if sv_failed s then Some ErrFailed else None)"

definition check_message :: "message_entry \<Rightarrow> role \<Rightarrow> bool" where
  "check_message e role \<longleftrightarrow> m_role (me_message e) = role \<and> model_named (me_model e) \<and> check_fields e"

definition message_line :: "nat \<Rightarrow> message_entry \<Rightarrow> entry" where
  "message_line now e = zero_entry\<lparr>en_type := TypeMessage, en_time := now, en_entry := e\<rparr>"

definition append_user :: "write_env \<Rightarrow> message_entry \<Rightarrow> store \<times> disk \<Rightarrow> unit store_result" where
  "append_user w e = (\<lambda>(s, d).
     if \<not> check_message e RoleUser then (Inl BadMessage, s, d)
     else case usable s of
       Some err \<Rightarrow> (Inl err, s, d)
     | None \<Rightarrow> (Inr (), s\<lparr>sv_users := sv_users s @ [message_line (o_clock w 0) e]\<rparr>, d))"

definition discard_held_users :: "store \<Rightarrow> store" where
  "discard_held_users s = s\<lparr>sv_users := []\<rparr>"

definition hold_change :: "write_env \<Rightarrow> entry \<Rightarrow> store \<times> disk \<Rightarrow> unit store_result" where
  "hold_change w e = (\<lambda>(s, d).
     case usable s of
       Some err \<Rightarrow> (Inl err, s, d)
     | None \<Rightarrow>
         (Inr (), s\<lparr>sv_changes := filter (\<lambda>c. en_type c \<noteq> en_type e) (sv_changes s) @ [e\<lparr>en_time := o_clock w 0\<rparr>]\<rparr>, d))"

definition append_model_change :: "write_env \<Rightarrow> model_ref \<Rightarrow> store \<times> disk \<Rightarrow> unit store_result" where
  "append_model_change w m = (\<lambda>(s, d).
     if \<not> model_named m then (Inl BadChange, s, d)
     else hold_change w (zero_entry\<lparr>en_type := TypeModelChange, en_entry := zero_message_entry\<lparr>me_model := m\<rparr>\<rparr>) (s, d))"

definition append_effort_change :: "write_env \<Rightarrow> string \<Rightarrow> store \<times> disk \<Rightarrow> unit store_result" where
  "append_effort_change w effort =
     hold_change w (zero_entry\<lparr>en_type := TypeEffortChange, en_entry := zero_message_entry\<lparr>me_effort := effort\<rparr>\<rparr>)"

definition append_mode_change :: "write_env \<Rightarrow> string \<Rightarrow> store \<times> disk \<Rightarrow> unit store_result" where
  "append_mode_change w mode = (\<lambda>(s, d).
     if mode = [] then (Inl BadChange, s, d)
     else hold_change w (zero_entry\<lparr>en_type := TypeModeChange, en_mode := mode\<rparr>) (s, d))"

section \<open>Text\<close>

text \<open>The bytes of the first character when it is a white space one in Go's sense, else none.\<close>

definition space_width :: "string \<Rightarrow> nat" where
  "space_width s =
     (case map of_char s of
        [] \<Rightarrow> 0
      | b # bs \<Rightarrow>
          if b \<in> {9, 10, 11, 12, 13, 32 :: nat} then 1
          else case bs of
            [] \<Rightarrow> 0
          | b2 # bs2 \<Rightarrow>
              if b = 194 \<and> b2 \<in> {133, 160} then 2
              else case bs2 of
                [] \<Rightarrow> 0
              | b3 # _ \<Rightarrow>
                  if b = 225 \<and> b2 = 154 \<and> b3 = 128 then 3
                  else if b = 226 \<and> b2 = 128 \<and> (128 \<le> b3 \<and> b3 \<le> 138 \<or> b3 \<in> {168, 169, 175}) then 3
                  else if b = 226 \<and> b2 = 129 \<and> b3 = 159 then 3
                  else if b = 227 \<and> b2 = 128 \<and> b3 = 128 then 3
                  else 0)"

function blank :: "string \<Rightarrow> bool" where
  "blank s = (if s = [] then True else if space_width s = 0 then False else blank (drop (space_width s) s))"
  by pat_completeness auto
termination
  by (relation "measure length") auto

declare blank.simps [simp del]

definition has_text :: "message \<Rightarrow> bool" where
  "has_text m \<longleftrightarrow> list_ex (\<lambda>p. case part_text p of None \<Rightarrow> False | Some s \<Rightarrow> \<not> blank s) (m_content m)"

definition has_output :: "message \<Rightarrow> bool" where
  "has_output m \<longleftrightarrow> list_ex is_call (m_content m) \<or> has_text m"

section \<open>Writing\<close>

definition maxIDAttempts :: nat where "maxIDAttempts = 8"

text \<open>\<open>randomEntryID\<close>: 32 random bits, in hex.\<close>

definition hex_digit :: "nat \<Rightarrow> char" where
  "hex_digit n = (if n < 10 then char_of (48 + n) else char_of (87 + n))"

definition random_entry_id :: "32 word \<Rightarrow> string" where
  "random_entry_id w = map (\<lambda>k. hex_digit (unat (take_bit 4 (drop_bit (4 * k) w)))) [7, 6, 5, 4, 3, 2, 1, 0]"

text \<open>The id drawn, and the number of the next draw.\<close>

fun new_entry_id :: "transcript \<Rightarrow> write_env \<Rightarrow> string list \<Rightarrow> nat \<Rightarrow> nat \<Rightarrow> (string \<times> nat) option" where
  "new_entry_id t w taken 0 n = None"
| "new_entry_id t w taken (Suc tries) n =
     (let i = random_entry_id (o_draw w n) in
      if i \<noteq> [] \<and> \<not> t_has t i \<and> i \<notin> set taken then Some (i, Suc n)
      else new_entry_id t w taken tries (Suc n))"

text \<open>The batch as it reads back, with its lines and the calls left open.\<close>

fun write_batch :: "json \<Rightarrow> write_env \<Rightarrow> transcript \<Rightarrow> string list \<Rightarrow> nat \<Rightarrow> entry option \<Rightarrow> entry option \<Rightarrow> entry list \<Rightarrow>
    (store_error + (entry \<times> string) list \<times> entry option) option" where
  "write_batch j w t taken n parent open' [] = Some (Inr ([], open'))"
| "write_batch j w t taken n parent open' (e # es) =
     (case new_entry_id t w taken maxIDAttempts n of
        None \<Rightarrow> Some (Inl NoEntryId)
      | Some (i, n') \<Rightarrow>
          case encode_entry j (e\<lparr>en_id := i, en_parent := (case parent of None \<Rightarrow> [] | Some p \<Rightarrow> en_id p)\<rparr>) of
            None \<Rightarrow> Some (Inl EncodeFails)
          | Some line \<Rightarrow>
              case decode_entry j line of
                Inl _ \<Rightarrow> Some (Inl WouldNotReadBack)
              | Inr back \<Rightarrow>
                  let (bad, open'') = pair_next open' back parent
                  in case bad of
                    Some err \<Rightarrow> Some (Inl (Unpaired err))
                  | None \<Rightarrow>
                      case check_tail t back parent of
                        None \<Rightarrow> None
                      | Some (Some err) \<Rightarrow> Some (Inl (BadTail err))
                      | Some None \<Rightarrow>
                          along (\<lambda>(rest, last_open). ((back, line) # rest, last_open))
                            (write_batch j w t (i # taken) n' (Some back) open'' es))"

definition lines_bytes :: "string list \<Rightarrow> string" where
  "lines_bytes ls = concat (map (\<lambda>l. l @ [newline]) ls)"

definition joined :: "entry list \<Rightarrow> transcript \<Rightarrow> transcript" where
  "joined es t = fold t_add es t"

text \<open>The append itself: the first one makes the file, whole or not at all; a later one that fails has put a prefix of
  its bytes there.\<close>

definition commit :: "json \<Rightarrow> write_env \<Rightarrow> (entry \<times> string) list \<Rightarrow> store \<times> disk \<Rightarrow> entry list store_result" where
  "commit j w batch = (\<lambda>(s, d).
     let bytes = lines_bytes (map snd batch)
     in if \<not> sv_open s then
          (case o_fails w of
             Some _ \<Rightarrow> (Inl CreateFails, s, d)
           | None \<Rightarrow>
               (Inr (map fst batch), s\<lparr>sv_t := joined (map fst batch) (sv_t s), sv_open := True\<rparr>,
                d\<lparr>dk_file := Some (js_header_line j (t_header (sv_t s)) @ [newline] @ bytes)\<rparr>))
        else
          (let file = (case dk_file d of None \<Rightarrow> [] | Some f \<Rightarrow> f) in
           case o_fails w of
             Some n \<Rightarrow>
               if n = 0 then (Inl WriteFails, s, d)
               else (Inl ErrFailed, s\<lparr>sv_failed := True\<rparr>, d\<lparr>dk_file := Some (file @ take n bytes)\<rparr>)
           | None \<Rightarrow>
               (Inr (map fst batch), s\<lparr>sv_t := joined (map fst batch) (sv_t s)\<rparr>, d\<lparr>dk_file := Some (file @ bytes)\<rparr>)))"

definition write_out :: "json \<Rightarrow> write_env \<Rightarrow> entry list \<Rightarrow> store \<times> disk \<Rightarrow> entry list store_result option" where
  "write_out j w batch sd =
     (let t = sv_t (fst sd); parent = t_last t in
      map_option (\<lambda>r.
        case r of
          Inl err \<Rightarrow> (Inl err, sd)
        | Inr (written, open') \<Rightarrow> if open' \<noteq> None then (Inl CallsUnanswered, sd) else commit j w written sd)
        (write_batch j w t [] 0 parent (pairing_after parent) batch))"

record lead =
  ld_message :: message_entry
  ld_reminder :: string

definition leads_of :: "message_entry list \<Rightarrow> lead list" where
  "leads_of = map (\<lambda>st. \<lparr>ld_message = st, ld_reminder = []\<rparr>)"

definition check_lead :: "lead \<Rightarrow> bool" where
  "check_lead l =
     (if ld_reminder l \<noteq> []
      then m_role (me_message (ld_message l)) = RoleOther [] \<and> m_content (me_message (ld_message l)) = [] \<and>
           check_variant (ld_reminder l)
      else check_message (ld_message l) RoleUser \<and> me_turn (ld_message l) = 0)"

definition lead_line :: "nat \<Rightarrow> lead \<Rightarrow> entry" where
  "lead_line now l =
     (if ld_reminder l \<noteq> [] then zero_entry\<lparr>en_type := TypeReminder, en_time := now, en_variant := ld_reminder l\<rparr>
      else message_line now (ld_message l))"

definition step_batch :: "write_env \<Rightarrow> store \<Rightarrow> lead list \<Rightarrow> message_entry \<Rightarrow> message_entry option \<Rightarrow> entry list" where
  "step_batch w s leads answer tool =
     (let n = length leads in
      (case sv_resume s of None \<Rightarrow> [] | Some r \<Rightarrow> [r]) @ sv_changes s @ sv_users s @
      map (\<lambda>k. lead_line (o_clock w k) (leads ! k)) [0..<n] @
      [message_line (o_clock w n) answer] @
      (case tool of None \<Rightarrow> [] | Some m \<Rightarrow> [message_line (o_clock w (Suc n)) m]))"

definition append_step_led :: "json \<Rightarrow> write_env \<Rightarrow> lead list \<Rightarrow> message_entry \<Rightarrow> message_entry option \<Rightarrow> store \<times> disk \<Rightarrow>
    string list store_result option" where
  "append_step_led j w leads answer tool = (\<lambda>(s, d).
     if \<not> list_all check_lead leads then Some (Inl BadLead, s, d)
     else if \<not> check_message answer RoleAssistant then Some (Inl BadMessage, s, d)
     else if (case tool of None \<Rightarrow> False | Some m \<Rightarrow> \<not> check_message m RoleTool) then Some (Inl BadMessage, s, d)
     else if \<not> has_output (me_message answer) then Some (Inl ErrNoOutput, s, d)
     else case usable s of
       Some err \<Rightarrow> Some (Inl err, s, d)
     | None \<Rightarrow>
         if t_entries (sv_t s) = [] \<and> sv_users s = [] then Some (Inl ErrNoUser, s, d)
         else map_option (\<lambda>(r, s', d').
           case r of
             Inl err \<Rightarrow> (Inl err, s', d')
           | Inr batch \<Rightarrow> (Inr (map en_id batch), s'\<lparr>sv_resume := None, sv_users := [], sv_changes := []\<rparr>, d'))
           (write_out j w (step_batch w s leads answer tool) (s, d)))"

definition append_step :: "json \<Rightarrow> write_env \<Rightarrow> message_entry list \<Rightarrow> message_entry \<Rightarrow> message_entry option \<Rightarrow> store \<times> disk \<Rightarrow>
    string list store_result option" where
  "append_step j w steers = append_step_led j w (leads_of steers)"

definition append_answer_led :: "json \<Rightarrow> write_env \<Rightarrow> lead list \<Rightarrow> message_entry \<Rightarrow> store \<times> disk \<Rightarrow>
    string list store_result option" where
  "append_answer_led j w leads e = (\<lambda>(s, d).
     if \<not> check_message e RoleAssistant then Some (Inl BadMessage, s, d)
     else if \<not> has_text (me_message e) then Some (Inl ErrNoOutput, s, d)
     else append_step_led j w leads e None (s, d))"

definition append_answer :: "json \<Rightarrow> write_env \<Rightarrow> message_entry list \<Rightarrow> message_entry \<Rightarrow> store \<times> disk \<Rightarrow>
    string list store_result option" where
  "append_answer j w leading = append_answer_led j w (leads_of leading)"

definition append_assistant :: "json \<Rightarrow> write_env \<Rightarrow> message_entry \<Rightarrow> store \<times> disk \<Rightarrow> string list store_result option" where
  "append_assistant j w = append_answer j w []"

definition compaction_line :: "nat \<Rightarrow> int \<Rightarrow> model_ref \<Rightarrow> usage \<Rightarrow> compaction \<Rightarrow> entry" where
  "compaction_line now turn m u c =
     zero_entry\<lparr>en_type := TypeCompaction, en_time := now, en_compaction := c,
                en_entry := zero_message_entry\<lparr>me_turn := turn, me_model := m, me_usage := Some u\<rparr>\<rparr>"

definition append_compaction :: "json \<Rightarrow> write_env \<Rightarrow> int \<Rightarrow> model_ref \<Rightarrow> usage \<Rightarrow> compaction \<Rightarrow> store \<times> disk \<Rightarrow>
    string store_result option" where
  "append_compaction j w turn m u c = (\<lambda>(s, d).
     if \<not> check_compaction (compaction_line 0 turn m u c) then Some (Inl BadCompaction, s, d)
     else case usable s of
       Some err \<Rightarrow> Some (Inl err, s, d)
     | None \<Rightarrow>
         if t_entries (sv_t s) = [] then Some (Inl ErrNothingToCompact, s, d)
         else map_option (\<lambda>(r, s', d').
           (case r of Inl err \<Rightarrow> Inl err | Inr batch \<Rightarrow> Inr (en_id (hd batch)), s', d'))
           (write_out j w [compaction_line (o_clock w 0) turn m u c] (s, d)))"

definition close_store :: "store \<Rightarrow> store" where
  "close_store s =
     (if sv_closed s then s
      else s\<lparr>sv_closed := True, sv_resume := None, sv_users := [], sv_changes := [], sv_open := False\<rparr>)"

section \<open>What a store tells\<close>

definition store_context :: "store \<Rightarrow> model_ref \<Rightarrow> (message \<times> bool) list option" where
  "store_context s current =
     map_option (\<lambda>r. case r of Inl _ \<Rightarrow> [] | Inr msgs \<Rightarrow> msgs) (context_at (sv_t s) (leaf_of (sv_t s)) current)"

definition context_with_held :: "store \<Rightarrow> model_ref \<Rightarrow> int \<Rightarrow> ((message \<times> bool) list \<times> (message \<times> bool) list) option" where
  "context_with_held s current turn =
     map_option (\<lambda>msgs. (msgs,
       if turn = 0 then []
       else map (\<lambda>u. (en_message u, me_results (en_entry u))) (filter (\<lambda>u. me_turn (en_entry u) = turn) (sv_users s))))
       (store_context s current)"

definition store_steps :: "store \<Rightarrow> model_ref \<Rightarrow> step list option" where
  "store_steps s current =
     map_option (\<lambda>r. case r of Inl _ \<Rightarrow> [] | Inr steps \<Rightarrow> steps) (steps_at (sv_t s) (leaf_of (sv_t s)) current)"

definition store_frontier :: "store \<Rightarrow> model_ref \<Rightarrow> context_frontier option option" where
  "store_frontier s current =
     map_option (\<lambda>r. case r of Inl _ \<Rightarrow> None | Inr f \<Rightarrow> f) (frontier_at (sv_t s) (leaf_of (sv_t s)) current)"

section \<open>Opening a file again\<close>

datatype repair_step = TornWrite | TornSync | DirSync | Truncate | Newline | Sync

datatype open_error = NoFile | ErrBusy | CannotLoad load_error | ErrNotResumable | OtherSession | OtherWorkspace
  | ErrNewerTranscript | RepairFails repair_step

text \<open>\<open>newerLine\<close>: whether the bytes to cut hold a whole object of a type this version does not know.\<close>

definition newer_line :: "json \<Rightarrow> string \<Rightarrow> bool" where
  "newer_line j cut' \<longleftrightarrow>
     list_ex (\<lambda>line. case js_object j line of
        None \<Rightarrow> False
      | Some (Field typ) \<Rightarrow> \<not> (typ = typeSession \<or> known_type typ)
      | Some _ \<Rightarrow> True) (byte_lines cut')"

text \<open>\<open>saveTorn\<close>: the first step that fails, if one does, and whether the copy was created.\<close>

definition save_torn :: "(repair_step \<Rightarrow> bool) \<Rightarrow> string \<Rightarrow> disk \<Rightarrow> repair_step option \<times> bool \<times> disk" where
  "save_torn fails cut' d =
     (if dk_torn d \<noteq> None then (Some TornWrite, False, d)
      else let d' = d\<lparr>dk_torn := Some cut'\<rparr> in
        if fails TornWrite then (Some TornWrite, True, d')
        else if fails TornSync then (Some TornSync, True, d')
        else if fails DirSync then (Some DirSync, True, d')
        else (None, True, d'))"

definition sync_transcript :: "(repair_step \<Rightarrow> bool) \<Rightarrow> open_error option" where
  "sync_transcript fails = (if fails Sync then Some (RepairFails Sync) else None)"

definition repair :: "json \<Rightarrow> (repair_step \<Rightarrow> bool) \<Rightarrow> string \<Rightarrow> nat \<Rightarrow> disk \<Rightarrow> open_error option \<times> disk" where
  "repair j fails data kept d =
     (if kept = length data then
        if data = [] \<or> last data = newline then (None, d)
        else if fails Newline then (Some (RepairFails Newline), d)
        else (sync_transcript fails, d\<lparr>dk_file := Some (data @ [newline])\<rparr>)
      else if newer_line j (drop kept data) then (Some ErrNewerTranscript, d)
      else
        (let (bad, created, d') = save_torn fails (drop kept data) d;
             bad' = (if bad = None \<and> fails Truncate then Some Truncate else bad)
         in case bad' of
              Some st \<Rightarrow> (Some (RepairFails st), if created then d'\<lparr>dk_torn := None\<rparr> else d')
            | None \<Rightarrow> (sync_transcript fails, d'\<lparr>dk_file := Some (take kept data)\<rparr>)))"

record options =
  op_session :: string
  op_workspace :: string
  op_contract :: contract
  op_render :: renderer

definition open_store :: "json \<Rightarrow> (repair_step \<Rightarrow> bool) \<Rightarrow> nat \<Rightarrow> bool \<Rightarrow> options \<Rightarrow> disk \<Rightarrow> ((open_error + store) \<times> disk) option" where
  "open_store j fails now busy opts d =
     (case dk_file d of
        None \<Rightarrow> Some (Inl NoFile, d)
      | Some data \<Rightarrow>
          if busy then Some (Inl ErrBusy, d)
          else map_option (\<lambda>r. case r of
            Inl err \<Rightarrow> (Inl (CannotLoad err), d)
          | Inr p \<Rightarrow>
              let h = t_header (pd_t p) in
              if h_parent_session h \<noteq> [] then (Inl ErrNotResumable, d)
              else if op_session opts \<noteq> [] \<and> h_id h \<noteq> op_session opts then (Inl OtherSession, d)
              else if op_workspace opts \<noteq> [] \<and> h_cwd h \<noteq> op_workspace opts then (Inl OtherWorkspace, d)
              else
                (let (keep, t) = drop_incomplete (pd_t p);
                     (bad, d') = repair j fails data (kept_len p keep) d
                 in case bad of
                      Some err \<Rightarrow> (Inl err, d')
                    | None \<Rightarrow>
                        (Inr \<lparr>sv_t = t\<lparr>t_render := op_render opts\<rparr>, sv_open = True,
                              sv_resume = Some (zero_entry\<lparr>en_type := TypeResume, en_time := now,
                                                           en_contract := op_contract opts\<rparr>),
                              sv_users = [], sv_changes = [], sv_closed = False, sv_failed = False\<rparr>, d')))
            (parse j data))"

section \<open>What is relied on of JSON\<close>

definition json_ids :: "json \<Rightarrow> bool" where
  "json_ids j \<longleftrightarrow>
     js_text j [] \<and> (\<forall>w. js_text j (random_entry_id w)) \<and>
     (\<forall>l v. js_envelope j l = Some v \<longrightarrow> js_text j (v_id v))"

text \<open>A marshalled line is one line, no proper prefix of it is an object, and its envelope and a message's role read
  back.\<close>

definition json_lines :: "json \<Rightarrow> bool" where
  "json_lines j \<longleftrightarrow>
     (\<forall>e l. js_line j e = Some l \<longrightarrow>
        newline \<notin> set l \<and> l \<noteq> [] \<and>
        (\<forall>p. strict_prefix p l \<longrightarrow> js_envelope j p = None \<and> js_object j p = None) \<and>
        js_object j l = Some (Field (type_name (en_type e))) \<and>
        (js_text j (en_id e) \<and> js_text j (en_parent e) \<longrightarrow>
           (\<exists>v. js_envelope j l = Some v \<and> v_type v = type_name (en_type e) \<and> v_id v = en_id e \<and>
                v_parent v = (if en_parent e = [] then None else Some (en_parent e)))) \<and>
        (en_type e = TypeMessage \<and> en_role e \<in> {RoleUser, RoleAssistant, RoleTool} \<longrightarrow>
           (\<forall>m. js_message j l = Some m \<longrightarrow> m_role (me_message (mj_entry m)) = en_role e)))"

definition json_headers :: "json \<Rightarrow> bool" where
  "json_headers j \<longleftrightarrow>
     (\<forall>h. let l = js_header_line j h in
        newline \<notin> set l \<and> l \<noteq> [] \<and>
        (h_version h = FormatVersion \<and> h_id h \<noteq> [] \<longrightarrow>
           (\<exists>v. js_header j l = Some v \<and> hj_type v = typeSession \<and> hj_time v \<noteq> None \<and>
                h_version (hj_header v) = h_version h \<and> h_id (hj_header v) \<noteq> [])))"

definition json_ok :: "json \<Rightarrow> bool" where
  "json_ok j \<longleftrightarrow> json_ids j \<and> json_lines j \<and> json_headers j"

section \<open>A session over its life\<close>

datatype store_op =
    AppendUser message_entry
  | DiscardHeldUsers
  | AppendModelChange model_ref
  | AppendEffortChange string
  | AppendModeChange string
  | AppendStepLed "lead list" message_entry "message_entry option"
  | AppendAnswerLed "lead list" message_entry
  | AppendCompaction int model_ref usage compaction
  | CloseStore

definition unit_outcome :: "'a store_result \<Rightarrow> unit store_result" where
  "unit_outcome = (\<lambda>(r, s, d). (map_sum id (\<lambda>_. ()) r, s, d))"

definition run_op :: "json \<Rightarrow> write_env \<Rightarrow> store_op \<Rightarrow> store \<times> disk \<Rightarrow> unit store_result option" where
  "run_op j w oper = (\<lambda>(s, d).
     case oper of
       AppendUser e \<Rightarrow> Some (append_user w e (s, d))
     | DiscardHeldUsers \<Rightarrow> Some (Inr (), discard_held_users s, d)
     | AppendModelChange m \<Rightarrow> Some (append_model_change w m (s, d))
     | AppendEffortChange effort \<Rightarrow> Some (append_effort_change w effort (s, d))
     | AppendModeChange mode \<Rightarrow> Some (append_mode_change w mode (s, d))
     | AppendStepLed leads answer tool \<Rightarrow> map_option unit_outcome (append_step_led j w leads answer tool (s, d))
     | AppendAnswerLed leads answer \<Rightarrow> map_option unit_outcome (append_answer_led j w leads answer (s, d))
     | AppendCompaction turn m u c \<Rightarrow> map_option unit_outcome (append_compaction j w turn m u c (s, d))
     | CloseStore \<Rightarrow> Some (Inr (), close_store s, d))"

text \<open>The store of a live process, if there is one, and the disk. A process may stop at any moment, in the middle of a
  write too, which leaves what a failed write leaves. The copies earlier repairs saved are any.\<close>

inductive session :: "json \<Rightarrow> store option \<times> disk \<Rightarrow> bool" for j where
  starts: "session j (Some (new_store h r), d)"
    if "h_version h = FormatVersion" and "h_id h \<noteq> []" and "dk_file d = None"
| runs: "session j (Some s', d')" if "session j (Some s, d)" and "run_op j w oper (s, d) = Some (r, s', d')"
| stops: "session j (None, d)" if "session j (s, d)"
| opens: "session j (Some s', d')" if "session j (None, d)" and "open_store j fails now busy opts (d\<lparr>dk_torn := copy\<rparr>) = Some (Inr s', d')"
| refuses: "session j (None, d')" if "session j (None, d)" and "open_store j fails now busy opts (d\<lparr>dk_torn := copy\<rparr>) = Some (Inl err, d')"

end
