(* ===== verification/Session_Load.thy ===== *)
theory Session_Load
  imports Session_Store
begin

text \<open>
  Reading a session's file: its lines and their bytes, also of a write cut short; what the parser accepts, that it
  always returns, and that what it returns is an accepted transcript; and the incomplete tail that \<open>Load\<close> drops.
\<close>

section \<open>Lines and their bytes\<close>

lemma byte_lines_nonempty [simp]: "byte_lines s \<noteq> []"
  by (induction s) (auto split: list.split)

lemma byte_lines_one: "newline \<notin> set s \<Longrightarrow> byte_lines s = [s]"
  by (induction s) auto

lemma byte_lines_cons: "newline \<notin> set l \<Longrightarrow> byte_lines (l @ newline # s) = l # byte_lines s"
  by (induction l) auto

lemma file_lines_cons: "newline \<notin> set l \<Longrightarrow> file_lines (l @ newline # s) = l # file_lines s"
  by (simp add: file_lines_def byte_lines_cons Let_def)

lemma lines_bytes_simps [simp]:
  "lines_bytes [] = []" "lines_bytes (l # ls) = l @ newline # lines_bytes ls"
  "lines_bytes (xs @ ys) = lines_bytes xs @ lines_bytes ys"
  by (simp_all add: lines_bytes_def)

abbreviation plain_lines :: "string list \<Rightarrow> bool" where
  "plain_lines ls \<equiv> \<forall>l \<in> set ls. newline \<notin> set l \<and> l \<noteq> []"

lemma file_lines_append: "plain_lines ls \<Longrightarrow> file_lines (lines_bytes ls @ s) = ls @ file_lines s"
  by (induction ls) (simp_all add: file_lines_cons)

lemma file_lines_short: "newline \<notin> set s \<Longrightarrow> file_lines s = (if s = [] then [] else [s])"
  by (simp add: file_lines_def byte_lines_one)

text \<open>How many of the lines are there in full, the last one's newline or not, in the first bytes of a write.\<close>

fun lines_in :: "nat \<Rightarrow> string list \<Rightarrow> nat" where
  "lines_in n [] = 0"
| "lines_in n (l # ls) = (if n < length l then 0 else Suc (lines_in (n - length l - 1) ls))"

lemma lines_in_le: "lines_in n ls \<le> length ls"
  by (induction n ls rule: lines_in.induct) auto

lemma lines_in_all: "plain_lines ls \<Longrightarrow> lines_in n ls = length ls \<longleftrightarrow> length (lines_bytes ls) \<le> Suc n"
proof (induction n ls rule: lines_in.induct)
  case (2 n l ls)
  show ?case
  proof (cases "n < length l")
    case True
    then show ?thesis by simp
  next
    case False
    with 2 have IH: "lines_in (n - length l - 1) ls = length ls \<longleftrightarrow> length (lines_bytes ls) \<le> Suc (n - length l - 1)" by simp
    show ?thesis
    proof (cases "n = length l")
      case False': False
      with False IH show ?thesis by (simp add: le_diff_conv2) linarith
    next
      case True
      show ?thesis
      proof (cases ls)
        case (Cons l' ls')
        with 2(2) have "0 < length l'" by simp
        with Cons True show ?thesis by simp
      qed (simp add: True)
    qed
  qed
qed simp

text \<open>What is left of a write cut short: some of its lines, and perhaps the beginning of the next.\<close>

definition torn_at :: "nat \<Rightarrow> string list \<Rightarrow> string list \<Rightarrow> bool" where
  "torn_at n ls torn \<longleftrightarrow>
     torn = [] \<or> lines_in n ls < length ls \<and> (\<exists>p. torn = [p] \<and> strict_prefix p (ls ! lines_in n ls))"

lemma torn_lines:
  "plain_lines ls \<Longrightarrow> \<exists>torn. file_lines (take n (lines_bytes ls)) = take (lines_in n ls) ls @ torn \<and> torn_at n ls torn"
proof (induction n ls rule: lines_in.induct)
  case (1 n)
  then show ?case by (simp add: file_lines_short torn_at_def)
next
  case (2 n l ls)
  have l: "newline \<notin> set l" "l \<noteq> []" using 2(2) by simp_all
  show ?case
  proof (cases "n < length l")
    case True
    then have t: "take n (lines_bytes (l # ls)) = take n l" by simp
    have n: "newline \<notin> set (take n l)" using l(1) by (meson in_set_takeD)
    have sp: "strict_prefix (take n l) l"
      using True by (metis append_take_drop_id drop_eq_Nil leD prefixI append_Nil2 length_take min.absorb4 nat_neq_iff strict_prefix_def)
    show ?thesis unfolding t file_lines_short [OF n]
      using True sp l by (intro exI [of _ "if take n l = [] then [] else [take n l]"]) (auto simp: torn_at_def)
  next
    case False
    then obtain torn where torn: "file_lines (take (n - length l - 1) (lines_bytes ls)) = take (lines_in (n - length l - 1) ls) ls @ torn"
      "torn_at (n - length l - 1) ls torn" using 2 by auto
    show ?thesis
    proof (cases "n = length l")
      case True
      have "lines_in 0 ls = 0" using 2(2) by (cases ls) auto
      moreover have "file_lines (take n (lines_bytes (l # ls))) = [l]" using True l by (simp add: file_lines_short)
      ultimately show ?thesis using True by (intro exI [of _ "[]"]) (simp add: torn_at_def)
    next
      case False': False
      then have "take n (lines_bytes (l # ls)) = l @ newline # take (n - length l - 1) (lines_bytes ls)"
        using False by (simp add: take_Cons')
      with torn False l show ?thesis
        by (intro exI [of _ torn]) (simp add: file_lines_cons torn_at_def)
    qed
  qed
qed

section \<open>What the parser accepts\<close>

lemma index_same:
  assumes "tree_ok t" and "tree_ok t'" and "t_entries t' = t_entries t"
  shows "t_index t' = t_index t"
proof
  fix s
  have "t_index t' s = Some i \<longleftrightarrow> t_index t s = Some i" for i using assms by (simp add: tree_ok_def)
  then show "t_index t' s = t_index t s" by (metis not_None_eq)
qed

lemma line_before_add: "line_before t (length (t_entries t)) = t_last t"
  by (simp add: line_before_def t_last_def last_conv_nth)

text \<open>A line that is the next entry of an accepted transcript joins the entries before it.\<close>

lemma next_line:
  assumes a: "accepted T" and ok: "tree_ok t" and m: "t_entries t = take m (t_entries T)" "m < length (t_entries T)"
    and d: "decode_entry j line = Inr (at T m)"
  shows "read_line j t line = Inr (at T m)" and "tree_ok (t_add (at T m) t)"
    and "t_entries (t_add (at T m) t) = take (Suc m) (t_entries T)"
    and "pair_check (pairing_after (line_before T m)) (at T m) (t_entry t (en_parent (at T m))) = None"
    and "check_tail t (at T m) (t_entry t (en_parent (at T m))) = Some None"
proof -
  have okT: "tree_ok T" using a by (simp add: accepted_def)
  have le: "m \<le> length (t_entries T)" using m(2) by simp
  have c: "t_check t (at T m) = None"
  proof -
    have "t_index t (en_id (at T m)) = None"
    proof (rule ccontr)
      assume "t_index t (en_id (at T m)) \<noteq> None"
      then obtain i where "i < m" "t_index T (en_id (at T m)) = Some i"
        using prefix_index [OF okT ok m(1) le] by blast
      then show False using t_index_id [OF okT m(2)] by simp
    qed
    moreover have "en_parent (at T m) \<noteq> [] \<Longrightarrow> t_index t (en_parent (at T m)) \<noteq> None"
      using parent_before [OF okT m(2)] prefix_index [OF okT ok m(1) le] by blast
    ultimately show ?thesis by (auto simp: t_check_def)
  qed
  then show "read_line j t line = Inr (at T m)" using d by (simp add: read_line_def)
  show ok': "tree_ok (t_add (at T m) t)" by (rule tree_ok_add [OF ok c id_nonempty [OF okT m(2)]])
  show e': "t_entries (t_add (at T m) t) = take (Suc m) (t_entries T)" using m by (simp add: take_Suc_conv_app_nth)
  have le': "Suc m \<le> length (t_entries T)" using m(2) by simp
  have par: "t_entry t (en_parent (at T m)) = t_entry T (en_parent (at T m))"
  proof (cases "en_parent (at T m) = []")
    case True
    then show ?thesis by (simp add: t_entry_root [OF ok] t_entry_root [OF okT])
  next
    case False
    with parent_before [OF okT m(2)] obtain i where i: "i < m" "t_index T (en_parent (at T m)) = Some i" by blast
    then have "t_index t (en_parent (at T m)) = Some i" using prefix_index [OF okT ok m(1) le] by blast
    with i m(1) show ?thesis by (simp add: t_entry_def)
  qed
  then show "pair_check (pairing_after (line_before T m)) (at T m) (t_entry t (en_parent (at T m))) = None"
    using accepted_checks [OF a m(2)] by simp
  obtain path where p: "is_path T (m # path)" using path_exists [OF okT m(2)] by blast
  have tails: "tail_named (at T m) (map (at T) path)" by (rule path_tail_named [OF a p])
  have lt: "k < m" if "k \<in> set path" for k using is_path_less [OF p that] .
  have pt: "is_path t path \<or> path = []"
    using prefix_path [OF okT ok m(1) le is_path_tail [OF p]] lt by (cases path) auto
  have eq: "map (at T) path = map (at t) path" using lt m by simp
  have "t_entry T (en_parent (at T m)) = (case path of [] \<Rightarrow> None | i # rest \<Rightarrow> Some (at T i))" by (rule parent_path [OF okT p])
  then have "t_entry t (en_parent (at T m)) = (case path of [] \<Rightarrow> None | i # rest \<Rightarrow> Some (at t i))"
    using par eq by (cases path) auto
  from check_tail_path [OF ok pt this, of "at T m"] tails show "check_tail t (at T m) (t_entry t (en_parent (at T m))) = Some None"
    unfolding eq by blast
qed

definition decode_to :: "json \<Rightarrow> string list \<Rightarrow> entry list \<Rightarrow> bool" where
  "decode_to j lines es \<longleftrightarrow> list_all2 (\<lambda>l e. decode_entry j l = Inr e) lines es"

lemma decode_to_append: "length lines = length es \<Longrightarrow>
    decode_to j (lines @ lines') (es @ es') \<longleftrightarrow> decode_to j lines es \<and> decode_to j lines' es'"
  by (simp add: decode_to_def list_all2_append)

fun line_ends :: "nat \<Rightarrow> nat \<Rightarrow> string list \<Rightarrow> nat list" where
  "line_ends len pos [] = []"
| "line_ends len pos (l # ls) = (let e = min (pos + length l + 1) len in e # line_ends len e ls)"

lemma parse_grows:
  assumes a: "accepted T"
  shows "tree_ok t \<Longrightarrow> t_entries t = take m (t_entries T) \<Longrightarrow> m + length lines \<le> length (t_entries T) \<Longrightarrow>
    decode_to j lines (take (length lines) (drop m (t_entries T))) \<Longrightarrow>
    \<exists>t'. parse_lines j len t (pairing_after (line_before T m)) pos ends (lines @ rest) =
        parse_lines j len t' (pairing_after (line_before T (m + length lines))) (last (pos # line_ends len pos lines))
          (ends @ line_ends len pos lines) rest \<and>
      tree_ok t' \<and> t_entries t' = take (m + length lines) (t_entries T) \<and> t_header t' = t_header t \<and> t_render t' = t_render t"
proof (induction lines arbitrary: t m pos ends)
  case Nil
  then show ?case by (intro exI [of _ t]) simp
next
  case (Cons l ls)
  have m: "m < length (t_entries T)" using Cons.prems(3) by simp
  have dm: "drop m (t_entries T) = at T m # drop (Suc m) (t_entries T)" using m by (rule Cons_nth_drop_Suc [symmetric])
  have d: "decode_entry j l = Inr (at T m)" "decode_to j ls (take (length ls) (drop (Suc m) (t_entries T)))"
    using Cons.prems(4) dm by (simp_all add: decode_to_def)
  note nl = next_line [OF a Cons.prems(1,2) m d(1)]
  let ?pos = "min (pos + length l + 1) len"
  have lb: "line_before T (Suc m) = Some (at T m)" by (simp add: line_before_def)
  have one: "parse_lines j len t (pairing_after (line_before T m)) pos ends ((l # ls) @ rest) =
      parse_lines j len (t_add (at T m) t) (pairing_after (line_before T (Suc m))) ?pos (ends @ [?pos]) (ls @ rest)"
    using nl(1,4,5) lb by (simp add: pair_next_def Let_def)
  have le: "Suc m + length ls \<le> length (t_entries T)" using Cons.prems(3) by simp
  from Cons.IH [OF nl(2,3) le d(2), of ?pos "ends @ [?pos]"] show ?case
    unfolding one by (simp add: Let_def)
qed

text \<open>A torn last line is not read.\<close>

lemma parse_torn:
  "decode_entry j p = Inl Undecodable \<Longrightarrow> parse_lines j len t op pos ends [p] = Some (Inr (t, ends))"
  by (simp add: read_line_def)

section \<open>The incomplete tail\<close>

lemma keep_from_none: "\<forall>e \<in> set es. \<not> ends_unit e \<Longrightarrow> keep_from keep i es = keep"
  by (induction es arbitrary: i) simp_all

lemma keep_from_append:
  "\<forall>e \<in> set ys. \<not> ends_unit e \<Longrightarrow> xs \<noteq> [] \<Longrightarrow> ends_unit (last xs) \<Longrightarrow> keep_from keep i (xs @ ys) = i + length xs"
proof (induction xs arbitrary: keep i)
  case (Cons x xs)
  then show ?case by (cases "xs = []") (simp_all add: keep_from_none)
qed simp

text \<open>Whole: nothing to drop at the end.\<close>

definition whole :: "entry list \<Rightarrow> bool" where
  "whole es \<longleftrightarrow> es = [] \<or> ends_unit (last es)"

lemma keep_from_whole: "whole xs \<Longrightarrow> \<forall>e \<in> set ys. \<not> ends_unit e \<Longrightarrow> keep_from 0 0 (xs @ ys) = length xs"
  by (cases "xs = []") (simp_all add: whole_def keep_from_none keep_from_append)

lemma forget_index: "foldl (\<lambda>ix e. ix(en_id e := None)) ix es s = (if s \<in> en_id ` set es then None else ix s)"
  by (induction es arbitrary: ix) auto

lemma drop_incomplete_ok:
  assumes ok: "tree_ok t"
  shows "tree_ok (snd (drop_incomplete t))" and "t_entries (snd (drop_incomplete t)) = take (fst (drop_incomplete t)) (t_entries t)"
    and "fst (drop_incomplete t) = keep_from 0 0 (t_entries t)"
    and "t_header (snd (drop_incomplete t)) = t_header t" and "t_render (snd (drop_incomplete t)) = t_render t"
proof -
  let ?k = "keep_from 0 0 (t_entries t)" and ?t = "snd (drop_incomplete t)"
  show facts: "t_entries (snd (drop_incomplete t)) = take (fst (drop_incomplete t)) (t_entries t)"
    "fst (drop_incomplete t) = ?k" "t_header ?t = t_header t" "t_render ?t = t_render t"
    by (simp_all add: drop_incomplete_def Let_def)
  have ix: "t_index ?t s = Some i \<longleftrightarrow> i < ?k \<and> t_index t s = Some i" for s i
  proof -
    have "s \<in> en_id ` set (drop ?k (t_entries t)) \<longleftrightarrow> (\<exists>i. ?k \<le> i \<and> t_index t s = Some i)"
    proof
      assume "s \<in> en_id ` set (drop ?k (t_entries t))"
      then obtain i where i: "i < length (drop ?k (t_entries t))" "s = en_id (drop ?k (t_entries t) ! i)"
        by (auto simp: in_set_conv_nth)
      then have "t_index t s = Some (?k + i)" using t_index_id [OF ok, of "?k + i"] by simp
      then show "\<exists>i. ?k \<le> i \<and> t_index t s = Some i" by (intro exI [of _ "?k + i"]) simp
    next
      assume "\<exists>i. ?k \<le> i \<and> t_index t s = Some i"
      then obtain i where i: "?k \<le> i" "t_index t s = Some i" by blast
      then have "i < length (t_entries t)" "en_id (at t i) = s" using t_index_lt [OF ok] by auto
      with i(1) have "drop ?k (t_entries t) ! (i - ?k) = at t i" "i - ?k < length (drop ?k (t_entries t))" by auto
      then show "s \<in> en_id ` set (drop ?k (t_entries t))" using \<open>en_id (at t i) = s\<close> by (metis imageI nth_mem)
    qed
    then have "t_index ?t s = (if \<exists>i. ?k \<le> i \<and> t_index t s = Some i then None else t_index t s)"
      by (simp add: drop_incomplete_def Let_def forget_index)
    then show ?thesis by (auto simp: not_le)
  qed
  have k: "i < ?k \<and> i < length (t_entries t) \<longleftrightarrow> i < length (t_entries ?t)" for i using facts(1,2) by auto
  show "tree_ok ?t" unfolding tree_ok_def
  proof (intro conjI allI ballI impI)
    fix s i show "t_index ?t s = Some i \<longleftrightarrow> i < length (t_entries ?t) \<and> en_id (at ?t i) = s"
      unfolding ix k [symmetric] using ok facts(1,2) by (auto simp: tree_ok_def)
  next
    fix e assume "e \<in> set (t_entries ?t)"
    then show "en_id e \<noteq> []" using ok facts(1) by (auto simp: tree_ok_def dest: in_set_takeD)
  next
    fix i assume i: "i < length (t_entries ?t)" "en_parent (at ?t i) \<noteq> []"
    then have i': "i < length (t_entries t)" "i < ?k" "at ?t i = at t i" using k [of i] facts(1,2) by auto
    with parent_before [OF ok i'(1)] i(2) show "\<exists>j<i. t_index ?t (en_parent (at ?t i)) = Some j"
      unfolding ix by fastforce
  qed
qed

text \<open>What a file's lines load to: the entries an accepted transcript has in full, less its incomplete tail.\<close>

theorem load_lines:
  assumes a: "accepted T" and e: "t_entries T = xs @ ys" and w: "whole xs" "\<forall>e \<in> set ys. \<not> ends_unit e"
    and l: "decode_to j lines (t_entries T)" "plain_lines lines" and h: "decode_header j hd' = Some h" "newline \<notin> set hd'" "hd' \<noteq> []"
    and data: "file_lines data = hd' # lines @ torn" and torn: "torn = [] \<or> (\<exists>p. torn = [p] \<and> decode_entry j p = Inl Undecodable)"
  shows "\<exists>t. load j data = Some (Inr t) \<and> tree_ok t \<and> t_entries t = xs \<and> t_header t = h \<and> t_render t = no_renderer"
    and "\<exists>p. parse j data = Some (Inr p) \<and> t_header (pd_t p) = h \<and> fst (drop_incomplete (pd_t p)) = length xs \<and>
      pd_header_end p = min (length hd' + 1) (length data) \<and>
      pd_ends p = line_ends (length data) (min (length hd' + 1) (length data)) lines \<and>
      load j data = Some (Inr (snd (drop_incomplete (pd_t p))))"
proof -
  have len: "length lines = length (t_entries T)" using l(1) by (simp add: decode_to_def list_all2_lengthD)
  let ?n = "min (length hd' + 1) (length data)"
  have new: "tree_ok (new_transcript h)" "t_entries (new_transcript h) = take 0 (t_entries T)"
    by (simp_all add: tree_ok_new) (simp add: new_transcript_def)
  obtain t' where t': "parse_lines j (length data) (new_transcript h) (pairing_after (line_before T 0)) ?n [] (lines @ torn) =
      parse_lines j (length data) t' (pairing_after (line_before T (0 + length lines)))
        (last (?n # line_ends (length data) ?n lines)) ([] @ line_ends (length data) ?n lines) torn"
    "tree_ok t'" "t_entries t' = take (0 + length lines) (t_entries T)" "t_header t' = h" "t_render t' = no_renderer"
    using parse_grows [OF a new, of lines j "length data" ?n "[]" torn] l(1) len
    by (auto simp: new_transcript_def)
  have "parse_lines j (length data) (new_transcript h) None ?n [] (lines @ torn) =
      Some (Inr (t', line_ends (length data) ?n lines))"
    using t'(1) torn parse_torn by (fastforce simp: line_before_def pairing_after_def has_open_calls_def)
  then have p: "parse j data = Some (Inr \<lparr>pd_t = t', pd_header_end = ?n, pd_ends = line_ends (length data) ?n lines\<rparr>)"
    by (simp add: parse_def data h Let_def)
  have t'e: "t_entries t' = xs @ ys" using t'(3) len e by simp
  have keep: "keep_from 0 0 (t_entries t') = length xs" unfolding t'e by (rule keep_from_whole [OF w])
  note d = drop_incomplete_ok [OF t'(2)]
  have ld: "load j data = Some (Inr (snd (drop_incomplete t')))" by (simp add: load_def p)
  show "\<exists>t. load j data = Some (Inr t) \<and> tree_ok t \<and> t_entries t = xs \<and> t_header t = h \<and> t_render t = no_renderer"
    using ld d t'(4,5) t'e keep by auto
  show "\<exists>p. parse j data = Some (Inr p) \<and> t_header (pd_t p) = h \<and> fst (drop_incomplete (pd_t p)) = length xs \<and>
      pd_header_end p = ?n \<and> pd_ends p = line_ends (length data) ?n lines \<and>
      load j data = Some (Inr (snd (drop_incomplete (pd_t p))))"
    using p ld t'(4) d(3) keep by auto
qed

section \<open>Reading always returns, and what it returns is accepted\<close>

lemma check_tail_total:
  assumes ok: "tree_ok t"
  shows "check_tail t e (t_entry t s) \<noteq> None"
proof (cases "en_type e \<noteq> TypeCompaction \<or> cp_first_kept (en_compaction e) = []")
  case True
  then show ?thesis by (auto simp: check_tail_def)
next
  case False
  let ?f = "cp_first_kept (en_compaction e)"
  show ?thesis
  proof (cases "t_index t s")
    case None
    then show ?thesis using False by (simp add: check_tail_def t_entry_def find_up.simps [of t ?f None])
  next
    case (Some i)
    then have "i < length (t_entries t)" using t_index_lt [OF ok] by blast
    then obtain path where p: "is_path t (i # path)" using path_exists [OF ok] by blast
    have f: "find_up t ?f (t_entry t s) = Some (List.find (\<lambda>x. en_id x = ?f) (map (at t) (i # path)))"
      using find_up_path [OF ok p, of ?f] Some by (simp add: t_entry_def)
    show ?thesis
    proof (cases "index_where (\<lambda>x. en_id x = ?f) (map (at t) (i # path))")
      case None
      then show ?thesis using False f by (simp add: check_tail_def find_index_where)
    next
      case (Some k)
      then have k: "k < length (i # path)" using index_where_SomeD [OF Some] by simp
      have d: "drop k (i # path) = (i # path) ! k # drop (Suc k) (i # path)" using k by (rule Cons_nth_drop_Suc [symmetric])
      have "is_path t ((i # path) ! k # drop (Suc k) (i # path))" using is_path_drop [OF p k] unfolding d .
      from starts_step_path [OF ok this] show ?thesis
        using False f Some nth_map [OF k, of "at t"] unfolding find_index_where by (simp add: check_tail_def)
    qed
  qed
qed

lemma read_line_Inr:
  assumes "read_line j t line = Inr e"
  shows "decode_entry j line = Inr e" and "t_check t e = None" and "en_id e \<noteq> []"
proof -
  show d: "decode_entry j line = Inr e" "t_check t e = None"
    using assms by (auto simp: read_line_def split: sum.splits option.splits)
  from d(1) obtain v ts where v: "js_envelope j line = Some v" "v_id v \<noteq> []"
    "decode_payload j line (zero_entry\<lparr>en_type := type_of_name (v_type v), en_id := v_id v, en_time := ts,
       en_parent := (case v_parent v of None \<Rightarrow> [] | Some p \<Rightarrow> p)\<rparr>) = Inr e"
    by (auto simp: decode_entry_def split: option.splits if_splits)
  have keeps: "decode_payload j line x = Inr e \<Longrightarrow> en_id e = en_id x" for x
    by (auto simp: decode_payload_def decode_message_def decode_compaction_def Let_def
        split: entry_type.splits option.splits sum.splits if_splits prod.splits)
  show "en_id e \<noteq> []" using keeps [OF v(3)] v(2) by simp
qed

lemma parse_lines_accepted:
  "accepted t \<Longrightarrow> op' = pairing_after (t_last t) \<Longrightarrow>
    parse_lines j len t op' pos ends lines \<noteq> None \<and>
    (\<forall>t' ends'. parse_lines j len t op' pos ends lines = Some (Inr (t', ends')) \<longrightarrow> accepted t')"
proof (induction lines arbitrary: t op' pos ends)
  case (Cons line lines)
  show ?case
  proof (cases "read_line j t line")
    case (Inl err)
    then show ?thesis using Cons.prems by simp
  next
    case (Inr e)
    note e = read_line_Inr [OF Inr]
    have ok: "tree_ok t" using Cons.prems(1) by (simp add: accepted_def)
    obtain r where r: "check_tail t e (t_entry t (en_parent e)) = Some r" using check_tail_total [OF ok] by blast
    show ?thesis
    proof (cases "pair_check op' e (t_entry t (en_parent e)) = None \<and> r = None")
      case False
      then show ?thesis using Inr r by (auto simp: pair_next_def Let_def split: option.split)
    next
      case True
      have "accepted (t_add e t)" by (rule accepted_add) (use Cons.prems e True r in simp_all)
      moreover have "t_last (t_add e t) = Some e" by (simp add: t_last_def)
      ultimately show ?thesis using Cons.IH [of "t_add e t" "pairing_after (Some e)"] Inr r True
        by (simp add: pair_next_def Let_def)
    qed
  qed
qed simp

lemma parse_accepted:
  shows "parse j data \<noteq> None" and "parse j data = Some (Inr p) \<Longrightarrow> accepted (pd_t p)"
proof -
  have "pairing_after (t_last (new_transcript h)) = None" for h
    by (simp add: t_last_def new_transcript_def pairing_after_def has_open_calls_def)
  note n = parse_lines_accepted [OF accepted_new this [symmetric]]
  show "parse j data \<noteq> None" using n by (auto simp: parse_def Let_def split: list.split option.split)
  show "accepted (pd_t p)" if "parse j data = Some (Inr p)"
  proof -
    from that obtain h pos ls t' ends where "parse_lines j (length data) (new_transcript h) None pos [] ls = Some (Inr (t', ends))"
      "pd_t p = t'"
      unfolding parse_def by (auto simp: Let_def along_Inr simp del: map_option_eq_Some split: list.splits option.splits)
    with n show ?thesis by blast
  qed
qed

lemma drop_incomplete_accepted:
  assumes a: "accepted t"
  shows "accepted (snd (drop_incomplete t))"
proof -
  have ok: "tree_ok t" using a by (simp add: accepted_def)
  note d = drop_incomplete_ok [OF ok]
  let ?k = "min (fst (drop_incomplete t)) (length (t_entries t))"
  have "t_entries (snd (drop_incomplete t)) = take ?k (t_entries t)" using d(2) by (simp add: min_def)
  then show ?thesis by (rule accepted_prefix [OF a d(1)]) simp
qed

lemma load_accepted:
  shows "load j data \<noteq> None" and "load j data = Some (Inr t) \<Longrightarrow> accepted t"
proof -
  show "load j data \<noteq> None" using parse_accepted(1) by (simp add: load_def)
  show "accepted t" if "load j data = Some (Inr t)"
    using that parse_accepted(2) drop_incomplete_accepted unfolding load_def along_Inr by blast
qed

lemma accepted_render:
  assumes "accepted t"
  shows "accepted (t\<lparr>t_render := r\<rparr>)"
  by (rule accepted_prefix [OF assms, of _ "length (t_entries t)"])
    (use assms in \<open>auto simp: accepted_def tree_ok_def\<close>)

end
