(* ===== verification/Session_Store_Laws.thy ===== *)
theory Session_Store_Laws
  imports Session_Load
begin

text \<open>
  The invariant of a session's store and its file (\<open>store_ok\<close>, \<open>file_ok\<close>): a file is a header, whole units (steps and
  compactions), and perhaps the first bytes of one more (\<open>file_parts\<close>); what such a file loads to (\<open>load_parts\<close>), how
  opening it repairs it (\<open>repair_parts\<close>, \<open>open_parts\<close>), and that every operation of a live store, a process that
  stops at any byte of a write, and opening again keep it (\<open>session_ok\<close>).
\<close>

section \<open>A batch as it is written\<close>

lemma joined_simps [simp]:
  "joined [] t = t" "joined (e # es) t = joined es (t_add e t)" "joined (xs @ ys) t = joined ys (joined xs t)"
  "t_entries (joined es t) = t_entries t @ es" "t_header (joined es t) = t_header t" "t_render (joined es t) = t_render t"
proof -
  show "t_entries (joined es t) = t_entries t @ es" "t_header (joined es t) = t_header t" "t_render (joined es t) = t_render t"
    by (induction es arbitrary: t) (simp_all add: joined_def)
qed (simp_all add: joined_def)

lemma t_last_joined: "t_last (joined es t) = (if es = [] then t_last t else Some (last es))"
  by (simp add: t_last_def)

definition last_id :: "entry option \<Rightarrow> string" where
  "last_id p = (case p of None \<Rightarrow> [] | Some e \<Rightarrow> en_id e)"

lemma t_last_entry: "tree_ok t \<Longrightarrow> t_entry t (last_id (t_last t)) = t_last t"
  using t_entry_id [of t "length (t_entries t) - 1"]
  by (auto simp: last_id_def t_last_def last_conv_nth)

lemma decode_payload_keeps:
  "decode_payload j line x = Inr e \<Longrightarrow>
     en_id e = en_id x \<and> en_parent e = en_parent x \<and> en_type e = en_type x \<and>
     (en_type x = TypeMessage \<longrightarrow> (\<exists>m. js_message j line = Some m \<and> en_message e = me_message (mj_entry m)))"
  by (auto simp: decode_payload_def decode_message_def decode_compaction_def Let_def
      split: entry_type.splits option.splits sum.splits if_splits prod.splits)

lemma type_of_type_name [simp]: "(\<forall>s. ty \<noteq> TypeNewer s) \<Longrightarrow> type_of_name (type_name ty) = ty"
  by (cases ty) (simp_all add: type_of_name_def)

definition same_kind :: "entry \<Rightarrow> entry \<Rightarrow> bool" where
  "same_kind b e \<longleftrightarrow>
     en_type b = en_type e \<and>
     (en_type e = TypeMessage \<and> en_role e \<in> {RoleUser, RoleAssistant, RoleTool} \<longrightarrow> en_role b = en_role e)"

definition line_ok :: "json \<Rightarrow> entry \<Rightarrow> string \<Rightarrow> bool" where
  "line_ok j e l \<longleftrightarrow>
     decode_entry j l = Inr e \<and> newline \<notin> set l \<and> l \<noteq> [] \<and> js_object j l = Some (Field (type_name (en_type e))) \<and>
     known_type (type_name (en_type e)) \<and>
     (\<forall>p. strict_prefix p l \<longrightarrow> decode_entry j p = Inl Undecodable \<and> js_object j p = None)"

lemma encode_reads:
  assumes j: "json_ok j" and l: "encode_entry j e = Some l" and t: "js_text j (en_id e)" "js_text j (en_parent e)"
    and d: "decode_entry j l = Inr b"
  shows "same_kind b e" and "en_id b = en_id e" and "en_parent b = en_parent e" and "line_ok j b l" and "js_text j (en_id b)"
proof -
  have jl: "js_line j e = Some l" and known: "\<forall>s. en_type e \<noteq> TypeNewer s"
    using l by (auto simp: encode_entry_def split: entry_type.splits if_splits)
  have lines: "json_lines j" and ids: "json_ids j" using j by (simp_all add: json_ok_def)
  note facts = lines [unfolded json_lines_def, rule_format, OF jl]
  obtain v where v: "js_envelope j l = Some v" "v_type v = type_name (en_type e)" "v_id v = en_id e"
    "v_parent v = (if en_parent e = [] then None else Some (en_parent e))"
    using facts t by blast
  obtain ts where p: "decode_payload j l (zero_entry\<lparr>en_type := en_type e, en_id := en_id e, en_time := ts,
       en_parent := (case v_parent v of None \<Rightarrow> [] | Some p \<Rightarrow> p)\<rparr>) = Inr b"
    using d v known by (auto simp: decode_entry_def split: option.splits if_splits)
  note k = decode_payload_keeps [OF p]
  show i: "en_id b = en_id e" and "en_parent b = en_parent e" using k v by auto
  have ty: "en_type b = en_type e" using k by simp
  show "same_kind b e" unfolding same_kind_def
  proof (intro conjI impI ty)
    assume r: "en_type e = TypeMessage \<and> en_role e \<in> {RoleUser, RoleAssistant, RoleTool}"
    with k obtain m where "js_message j l = Some m" "en_message b = me_message (mj_entry m)" by auto
    with facts r show "en_role b = en_role e" by metis
  qed
  have "known_type (type_name (en_type e))" using known by (cases "en_type e") (simp_all add: known_type_def)
  then show "line_ok j b l" using facts d ty unfolding line_ok_def by (simp add: decode_entry_def)
  show "js_text j (en_id b)" using i t by simp
qed

lemma new_entry_id_fresh:
  "new_entry_id t w taken tries n = Some (i, n') \<Longrightarrow> i \<noteq> [] \<and> t_index t i = None \<and> i \<notin> set taken \<and> (\<exists>x. i = random_entry_id x)"
  by (induction tries arbitrary: n) (auto simp: Let_def t_has_def split: if_splits)

lemma joined_index: "t_index (joined es t) s = None \<longleftrightarrow> t_index t s = None \<and> s \<notin> en_id ` set es"
  by (induction es arbitrary: t) auto

abbreviation compaction_alone :: "transcript \<Rightarrow> transcript \<Rightarrow> entry list \<Rightarrow> bool" where
  "compaction_alone t cur es \<equiv>
     (\<forall>e \<in> set es. en_type e \<noteq> TypeCompaction) \<or> cur = t \<and> length es = 1"

text \<open>One entry of a batch: what it takes to be written.\<close>

lemma batch_entry:
  assumes j: "json_ok j" and t: "accepted t" and cur: "cur = joined done' t" "accepted cur"
    and tx: "js_text j (last_id (t_last cur))" and alone: "compaction_alone t cur (e # es)"
    and i: "new_entry_id t w (rev (map en_id done')) tries n = Some (i, n')"
    and l: "encode_entry j (e\<lparr>en_id := i, en_parent := last_id (t_last cur)\<rparr>) = Some l" and d: "decode_entry j l = Inr b"
    and p: "pair_check (pairing_after (t_last cur)) b (t_last cur) = None" and c: "check_tail t b (t_last cur) = Some None"
  shows "accepted (t_add b cur)" and "same_kind b e" and "line_ok j b l" and "js_text j (en_id b)" and "en_id b = i"
proof -
  note f = new_entry_id_fresh [OF i]
  have "js_text j i" using f j by (auto simp: json_ok_def json_ids_def)
  note r = encode_reads [OF j l _ _ d, simplified, OF this tx]
  show "same_kind b e" using r(1) by (simp add: same_kind_def)
  show "line_ok j b l" "js_text j (en_id b)" "en_id b = i" using r by simp_all
  have ok: "tree_ok cur" "tree_ok t" using cur t by (simp_all add: accepted_def)
  have par: "t_entry cur (en_parent b) = t_last cur" using t_last_entry [OF ok(1)] r(3) by simp
  have "t_check cur b = None"
  proof -
    have "t_index cur i = None" using f cur(1) by (auto simp: joined_index)
    moreover have "last_id (t_last cur) \<noteq> [] \<Longrightarrow> t_index cur (last_id (t_last cur)) \<noteq> None"
      using t_last_entry [OF ok(1)] by (auto simp: t_entry_def last_id_def split: option.splits)
    ultimately show ?thesis using r(2,3) unfolding t_check_def by metis
  qed
  moreover have "check_tail cur b (t_entry cur (en_parent b)) = Some None"
  proof (cases "en_type b = TypeCompaction")
    case True
    then have "cur = t" using alone r(1) by (auto simp: same_kind_def)
    with c par show ?thesis by simp
  qed (simp add: check_tail_def)
  ultimately show "accepted (t_add b cur)" using accepted_add [OF cur(2), of b] p par f r(2) by simp
qed

lemma batch_check_total:
  assumes "accepted t" and "accepted cur" and "compaction_alone t cur (e # es)" and "en_type b = en_type e"
  shows "check_tail t b (t_last cur) \<noteq> None"
proof (cases "en_type b = TypeCompaction")
  case True
  then have "cur = t" using assms by auto
  moreover have "tree_ok t" using assms(1) by (simp add: accepted_def)
  ultimately show ?thesis using check_tail_total [of t b "last_id (t_last t)"] t_last_entry by simp
qed (simp add: check_tail_def)

lemma write_batch_ok:
  assumes j: "json_ok j" and t: "accepted t"
  shows "cur = joined done' t \<Longrightarrow> accepted cur \<Longrightarrow> js_text j (last_id (t_last cur)) \<Longrightarrow> compaction_alone t cur es \<Longrightarrow>
    (\<exists>r. write_batch j w t (rev (map en_id done')) n (t_last cur) (pairing_after (t_last cur)) es = Some r \<and>
      (\<forall>pairs last_open. r = Inr (pairs, last_open) \<longrightarrow>
         accepted (joined (map fst pairs) cur) \<and> last_open = pairing_after (t_last (joined (map fst pairs) cur)) \<and>
         list_all2 same_kind (map fst pairs) es \<and> (\<forall>(b, l) \<in> set pairs. line_ok j b l)))"
proof (induction es arbitrary: cur done' n)
  case Nil
  then show ?case by simp
next
  case (Cons e es)
  let ?taken = "rev (map en_id done')" and ?last = "t_last cur"
  have lid: "(case ?last of None \<Rightarrow> [] | Some p \<Rightarrow> en_id p) = last_id ?last" by (simp add: last_id_def)
  show ?case
  proof (cases "new_entry_id t w ?taken maxIDAttempts n")
    case None
    then show ?thesis by simp
  next
    case (Some a)
    obtain i n' where i: "new_entry_id t w ?taken maxIDAttempts n = Some (i, n')" using Some by (cases a) simp
    show ?thesis
    proof (cases "encode_entry j (e\<lparr>en_id := i, en_parent := last_id ?last\<rparr>)")
      case None
      then show ?thesis using i by (simp add: lid)
    next
      case l: (Some l)
      show ?thesis
      proof (cases "decode_entry j l")
        case (Inl err)
        then show ?thesis using i l by (simp add: lid)
      next
        case (Inr b)
        have kind: "en_type b = en_type e"
        proof -
          have "js_text j i" using new_entry_id_fresh [OF i] j by (auto simp: json_ok_def json_ids_def)
          from encode_reads(1) [OF j l _ _ Inr, simplified, OF this Cons.prems(3)] show ?thesis by (simp add: same_kind_def)
        qed
        obtain c where c: "check_tail t b ?last = Some c"
          using batch_check_total [OF t Cons.prems(2,4) kind] by blast
        show ?thesis
        proof (cases "pair_check (pairing_after ?last) b ?last = None \<and> c = None")
          case False
          then show ?thesis using i l Inr c by (auto simp: lid pair_next_def Let_def split: option.split)
        next
          case True
          note b = batch_entry [OF j t Cons.prems i l Inr conjunct1 [OF True]]
          have c': "check_tail t b ?last = Some None" using c True by simp
          note b = b [OF c']
          have last': "t_last (t_add b cur) = Some b" by (simp add: t_last_def)
          have alone: "compaction_alone t (t_add b cur) es" using Cons.prems(4) by auto
          have cur': "t_add b cur = joined (done' @ [b]) t" using Cons.prems(1) by simp
          have tx: "js_text j (last_id (t_last (t_add b cur)))" using b(4) last' by (simp add: last_id_def)
          obtain r where r: "write_batch j w t (i # ?taken) n' (Some b) (pairing_after (Some b)) es = Some r"
            "\<forall>pairs last_open. r = Inr (pairs, last_open) \<longrightarrow>
               accepted (joined (map fst pairs) (t_add b cur)) \<and>
               last_open = pairing_after (t_last (joined (map fst pairs) (t_add b cur))) \<and>
               list_all2 same_kind (map fst pairs) es \<and> (\<forall>(b, l) \<in> set pairs. line_ok j b l)"
            using Cons.IH [OF cur' b(1) tx alone, of n'] last' b(5) by auto
          have step: "write_batch j w t ?taken n ?last (pairing_after ?last) (e # es) =
              along (\<lambda>(rest, last_open). ((b, l) # rest, last_open)) (Some r)"
            using i l Inr True c' r(1) by (simp add: lid pair_next_def)
          show ?thesis unfolding step using r(2) b(2,3) by (cases r) auto
        qed
      qed
    qed
  qed
qed

section \<open>A batch is one unit\<close>

text \<open>What is held for a step, and what leads its answer, ends nothing.\<close>

definition quiet_entry :: "entry \<Rightarrow> bool" where
  "quiet_entry e \<longleftrightarrow> en_type e \<noteq> TypeCompaction \<and> (en_type e = TypeMessage \<longrightarrow> en_role e = RoleUser)"

definition message_of :: "role \<Rightarrow> entry \<Rightarrow> bool" where
  "message_of r e \<longleftrightarrow> en_type e = TypeMessage \<and> en_role e = r"

definition step_shape :: "entry list \<Rightarrow> bool" where
  "step_shape es \<longleftrightarrow>
     (\<exists>qs a. es = qs @ [a] \<and> list_all quiet_entry qs \<and> message_of RoleAssistant a) \<or>
     (\<exists>qs a m. es = qs @ [a, m] \<and> list_all quiet_entry qs \<and> message_of RoleAssistant a \<and> message_of RoleTool m)"

definition one_unit :: "entry list \<Rightarrow> bool" where
  "one_unit es \<longleftrightarrow> es \<noteq> [] \<and> ends_unit (last es) \<and> (\<forall>e \<in> set (butlast es). \<not> ends_unit e)"

lemma quiet_ends: "quiet_entry e \<Longrightarrow> same_kind b e \<Longrightarrow> \<not> ends_unit b"
  by (auto simp: quiet_entry_def same_kind_def ends_unit_def step_end_def)

lemma quiet_list_ends: "list_all quiet_entry qs \<Longrightarrow> list_all2 same_kind bs qs \<Longrightarrow> \<forall>b \<in> set bs. \<not> ends_unit b"
proof (induction bs arbitrary: qs)
  case (Cons b bs)
  then obtain q qs' where "qs = q # qs'" "same_kind b q" "list_all2 same_kind bs qs'" by (auto simp: list_all2_Cons1)
  with Cons.IH [of qs'] Cons.prems(1) quiet_ends [of q b] show ?case by simp
qed simp

lemma message_kind: "message_of r e \<Longrightarrow> r \<in> {RoleUser, RoleAssistant, RoleTool} \<Longrightarrow> same_kind b e \<Longrightarrow> message_of r b"
  by (auto simp: message_of_def same_kind_def)

lemma answer_ends:
  "message_of RoleAssistant a \<Longrightarrow> ends_unit a \<longleftrightarrow> pairing_after (Some a) = None"
  by (auto simp: message_of_def ends_unit_def step_end_def pairing_after_def)

lemma step_one_unit:
  assumes s: "step_shape es" and k: "list_all2 same_kind bs es" and a: "accepted (joined bs t)"
    and c: "pairing_after (t_last (joined bs t)) = None"
  shows "one_unit bs"
proof -
  consider (answer) qs b where "es = qs @ [b]" "list_all quiet_entry qs" "message_of RoleAssistant b"
    | (tools) qs b m where "es = qs @ [b, m]" "list_all quiet_entry qs" "message_of RoleAssistant b" "message_of RoleTool m"
    using s by (auto simp: step_shape_def)
  then show ?thesis
  proof cases
    case answer
    then obtain qs' b' where bs: "bs = qs' @ [b']" "list_all2 same_kind qs' qs" "same_kind b' b"
      using k by (auto simp: list_all2_append2 list_all2_Cons2)
    then have "message_of RoleAssistant b'" using message_kind [OF answer(3)] by simp
    then have "ends_unit b'" using c bs(1) by (simp add: answer_ends t_last_def)
    with bs quiet_list_ends [OF answer(2) bs(2)] show ?thesis by (simp add: one_unit_def butlast_append)
  next
    case tools
    then obtain qs' b' m' where bs: "bs = qs' @ [b', m']" "list_all2 same_kind qs' qs" "same_kind b' b" "same_kind m' m"
      using k by (auto simp: list_all2_append2 list_all2_Cons2)
    then have r: "message_of RoleAssistant b'" "message_of RoleTool m'"
      using message_kind [OF tools(3)] message_kind [OF tools(4)] by simp_all
    let ?T = "joined bs t" and ?n = "Suc (length (t_entries t @ qs'))"
    have n: "?n < length (t_entries ?T)" "at ?T ?n = m'" "line_before ?T ?n = Some b'"
      using bs(1) by (simp_all add: nth_append line_before_def)
    have "pair_check (pairing_after (Some b')) m' (t_entry ?T (en_parent m')) = None"
      using accepted_checks [OF a n(1)] n by simp
    moreover have "is_tool m'" using r(2) by (simp add: is_tool_def message_of_def)
    ultimately have "pairing_after (Some b') \<noteq> None" using pair_check_quiet by metis
    then have "\<not> ends_unit b'" using answer_ends [OF r(1)] by simp
    moreover have "ends_unit m'" using r(2) by (simp add: ends_unit_def step_end_def message_of_def)
    ultimately show ?thesis using bs quiet_list_ends [OF tools(2) bs(2)] by (simp add: one_unit_def butlast_append)
  qed
qed

lemma compaction_one_unit: "list_all2 same_kind bs [c] \<Longrightarrow> en_type c = TypeCompaction \<Longrightarrow> one_unit bs"
  by (auto simp: list_all2_Cons2 one_unit_def ends_unit_def same_kind_def)

section \<open>A file's parts\<close>

definition lines_ok :: "json \<Rightarrow> (entry \<times> string) list \<Rightarrow> bool" where
  "lines_ok j pairs \<longleftrightarrow> (\<forall>(e, l) \<in> set pairs. line_ok j e l)"

definition header_ok :: "json \<Rightarrow> string \<Rightarrow> bool" where
  "header_ok j l \<longleftrightarrow> decode_header j l \<noteq> None \<and> newline \<notin> set l \<and> l \<noteq> []"

text \<open>A file is a header and whole units, and then some first bytes of one more unit, or none.\<close>

definition file_parts :: "json \<Rightarrow> string \<Rightarrow> string \<Rightarrow> (entry \<times> string) list \<Rightarrow> (entry \<times> string) list \<Rightarrow> nat \<Rightarrow> bool" where
  "file_parts j data hdr kept tail n \<longleftrightarrow>
     data = lines_bytes (hdr # map snd kept) @ take n (lines_bytes (map snd tail)) \<and>
     header_ok j hdr \<and> lines_ok j (kept @ tail) \<and>
     (\<exists>t. accepted t \<and> t_entries t = map fst (kept @ tail)) \<and>
     whole (map fst kept) \<and> (tail \<noteq> [] \<longrightarrow> one_unit (map fst tail))"

abbreviation reaches :: "nat \<Rightarrow> (entry \<times> string) list \<Rightarrow> bool" where
  "reaches n tail \<equiv> tail \<noteq> [] \<and> length (lines_bytes (map snd tail)) \<le> Suc n"

definition survivors :: "(entry \<times> string) list \<Rightarrow> (entry \<times> string) list \<Rightarrow> nat \<Rightarrow> (entry \<times> string) list" where
  "survivors kept tail n = (if reaches n tail then kept @ tail else kept)"

lemma survivors_simps:
  "reaches n tail \<Longrightarrow> survivors kept tail n = kept @ tail" "\<not> reaches n tail \<Longrightarrow> survivors kept tail n = kept"
  unfolding survivors_def by (rule if_P, assumption) (rule if_not_P, assumption)

lemma lines_ok_plain: "lines_ok j pairs \<Longrightarrow> plain_lines (map snd pairs)"
  by (auto simp: lines_ok_def line_ok_def)

lemma lines_ok_decode: "lines_ok j pairs \<Longrightarrow> decode_to j (map snd pairs) (map fst pairs)"
  by (induction pairs) (auto simp: lines_ok_def line_ok_def decode_to_def)

lemma whole_append: "whole (map fst kept) \<Longrightarrow> one_unit (map fst tail) \<Longrightarrow> whole (map fst (kept @ tail))"
  by (auto simp: whole_def one_unit_def)

lemma accepted_take:
  assumes "accepted t" and "t_entries t = xs @ ys"
  shows "\<exists>t'. accepted t' \<and> t_entries t' = xs"
proof -
  obtain h where "t_header t = h" by blast
  have ok: "tree_ok t" using assms(1) by (simp add: accepted_def)
  let ?t = "t\<lparr>t_index := (\<lambda>s. case t_index t s of None \<Rightarrow> None | Some i \<Rightarrow> if i < length xs then Some i else None),
              t_entries := xs\<rparr>"
  have e: "i < length xs \<Longrightarrow> at t i = xs ! i" for i using assms(2) by (simp add: nth_append)
  have ix: "t_index ?t s = Some i \<longleftrightarrow> i < length xs \<and> t_index t s = Some i" for s i by (auto split: option.split)
  have "tree_ok ?t" unfolding tree_ok_def
  proof (intro conjI allI ballI impI)
    fix s i show "t_index ?t s = Some i \<longleftrightarrow> i < length (t_entries ?t) \<and> en_id (at ?t i) = s"
      unfolding ix using ok assms(2) e by (auto simp: tree_ok_def)
  next
    fix e assume "e \<in> set (t_entries ?t)"
    then show "en_id e \<noteq> []" using ok assms(2) by (simp add: tree_ok_def)
  next
    fix i assume i: "i < length (t_entries ?t)" "en_parent (at ?t i) \<noteq> []"
    then have "i < length (t_entries t)" "at t i = xs ! i" using assms(2) e by simp_all
    with parent_before [OF ok this(1)] i show "\<exists>k<i. t_index ?t (en_parent (at ?t i)) = Some k" unfolding ix by fastforce
  qed
  then have "accepted ?t" by (rule accepted_prefix [OF assms(1), of _ "length xs"]) (use assms(2) in simp_all)
  then show ?thesis by (intro exI [of _ ?t]) simp
qed

lemma file_parts_lines:
  assumes f: "file_parts j data hdr kept tail n"
  shows "\<exists>torn. file_lines data = hdr # map snd kept @ take (lines_in n (map snd tail)) (map snd tail) @ torn \<and>
    torn_at n (map snd tail) torn \<and> (torn = [] \<or> (\<exists>p. torn = [p] \<and> decode_entry j p = Inl Undecodable \<and> js_object j p = None))"
proof -
  have ok: "lines_ok j kept" "lines_ok j tail" "header_ok j hdr" using f by (auto simp: file_parts_def lines_ok_def)
  obtain torn where t: "file_lines (take n (lines_bytes (map snd tail))) = take (lines_in n (map snd tail)) (map snd tail) @ torn"
    "torn_at n (map snd tail) torn" using torn_lines [OF lines_ok_plain [OF ok(2)]] by blast
  have "plain_lines (hdr # map snd kept)" using lines_ok_plain [OF ok(1)] ok(3) by (simp add: header_ok_def)
  from file_lines_append [OF this] have "file_lines data = hdr # map snd kept @ take (lines_in n (map snd tail)) (map snd tail) @ torn"
    using f t(1) by (simp add: file_parts_def)
  moreover have "torn = [] \<or> (\<exists>p. torn = [p] \<and> decode_entry j p = Inl Undecodable \<and> js_object j p = None)"
  proof (cases "torn = []")
    case False
    then obtain p where p: "torn = [p]" "lines_in n (map snd tail) < length tail"
      "strict_prefix p (snd (tail ! lines_in n (map snd tail)))" using t(2) by (auto simp: torn_at_def)
    have "tail ! lines_in n (map snd tail) \<in> set tail" using p(2) by simp
    with ok(2) p(1,3) show ?thesis by (force simp: lines_ok_def line_ok_def)
  qed simp
  ultimately show ?thesis using t(2) by blast
qed

text \<open>What the file loads to: the whole units, and the last one if all but its final newline is there.\<close>

lemma load_parts:
  assumes f: "file_parts j data hdr kept tail n"
  obtains t p h where "load j data = Some (Inr t)" and "parse j data = Some (Inr p)" and "decode_header j hdr = Some h"
    and "t_entries t = map fst (survivors kept tail n)" and "t_header t = h" and "t_render t = no_renderer"
    and "accepted t" and "t_header (pd_t p) = h" and "t = snd (drop_incomplete (pd_t p))"
    and "fst (drop_incomplete (pd_t p)) = length (t_entries t)"
    and "pd_header_end p = length hdr + 1"
    and "pd_ends p = line_ends (length data) (length hdr + 1) (map snd kept @ take (lines_in n (map snd tail)) (map snd tail))"
proof -
  let ?q = "lines_in n (map snd tail)"
  obtain torn where t: "file_lines data = hdr # map snd kept @ take ?q (map snd tail) @ torn"
    "torn = [] \<or> (\<exists>p. torn = [p] \<and> decode_entry j p = Inl Undecodable)"
    using file_parts_lines [OF f] by blast
  have ok: "lines_ok j kept" "lines_ok j tail" "header_ok j hdr" "whole (map fst kept)" "tail \<noteq> [] \<Longrightarrow> one_unit (map fst tail)"
    using f by (auto simp: file_parts_def lines_ok_def)
  obtain h where h: "decode_header j hdr = Some h" "newline \<notin> set hdr" "hdr \<noteq> []" using ok(3) by (auto simp: header_ok_def)
  obtain T where T: "accepted T" "t_entries T = map fst (kept @ take ?q tail)"
  proof -
    obtain T where T: "accepted T" "t_entries T = map fst (kept @ tail)" using f by (auto simp: file_parts_def)
    have "t_entries T = map fst (kept @ take ?q tail) @ map fst (drop ?q tail)" using T(2)
      by (metis append.assoc append_take_drop_id map_append)
    from accepted_take [OF T(1) this] that show thesis by blast
  qed
  have le: "length hdr + 1 \<le> length data" using f by (simp add: file_parts_def)
  have lk: "lines_ok j (kept @ take ?q tail)" using ok(1,2) by (auto simp: lines_ok_def dest: in_set_takeD)
  have lines: "decode_to j (map snd kept @ take ?q (map snd tail)) (t_entries T)"
    using lines_ok_decode [OF lk] T(2) by (simp add: take_map)
  have plain: "plain_lines (map snd kept @ take ?q (map snd tail))"
    using lines_ok_plain [OF lk] by (simp add: take_map)
  have all: "reaches n tail \<longleftrightarrow> tail \<noteq> [] \<and> ?q = length tail"
    using lines_in_all [OF lines_ok_plain [OF ok(2)], of n] by auto
  define xs ys where "xs = map fst (survivors kept tail n)"
    and "ys = (if reaches n tail then [] else map fst (take ?q tail))"
  have e: "t_entries T = xs @ ys" 
  proof (cases "reaches n tail")
    case True
    then show ?thesis using T(2) all by (simp add: xs_def ys_def survivors_simps)
  next
    case False
    then have "ys = map fst (take ?q tail)" unfolding ys_def by (rule if_not_P)
    then show ?thesis using T(2) by (simp add: xs_def survivors_simps(2) [OF False])
  qed
  have w: "whole xs"
    using whole_append [OF ok(4)] ok(4,5) survivors_simps [of tail n kept] unfolding xs_def by (cases "reaches n tail") metis+
  have y: "\<forall>e \<in> set ys. \<not> ends_unit e"
  proof (cases "reaches n tail \<or> tail = []")
    case False
    then have "?q < length tail" using all lines_in_le [of n "map snd tail"] by auto
    then have "take ?q (map fst tail) = take ?q (butlast (map fst tail))" by (simp add: butlast_conv_take)
    moreover have "\<forall>e \<in> set (butlast (map fst tail)). \<not> ends_unit e" using ok(5) False by (simp add: one_unit_def)
    ultimately show ?thesis by (auto simp: ys_def take_map dest: in_set_takeD)
  qed (auto simp: ys_def)
  have fl: "file_lines data = hdr # (map snd kept @ take ?q (map snd tail)) @ torn" using t(1) by simp
  note L = load_lines [OF T(1) e w y lines plain h fl t(2)]
  obtain p where p: "parse j data = Some (Inr p)" "t_header (pd_t p) = h" "fst (drop_incomplete (pd_t p)) = length xs"
    "pd_header_end p = length hdr + 1" "load j data = Some (Inr (snd (drop_incomplete (pd_t p))))"
    "pd_ends p = line_ends (length data) (length hdr + 1) (map snd kept @ take ?q (map snd tail))"
    using L(2) le by (auto simp: min_absorb1)
  obtain t where tt: "load j data = Some (Inr t)" "t_entries t = xs" "t_header t = h" "t_render t = no_renderer" using L(1) by blast
  then have same: "t = snd (drop_incomplete (pd_t p))" using p(5) by simp
  show thesis
    by (rule that [OF tt(1) p(1) h(1) tt(2) [unfolded xs_def] tt(3,4) load_accepted(2) [OF tt(1)] p(2) same _ p(4,6)])
      (use p(3) tt(2) in simp)
qed

section \<open>Repair\<close>

lemma line_ends_length [simp]: "length (line_ends len pos ls) = length ls"
  by (induction ls arbitrary: pos) (simp_all add: Let_def)

lemma line_ends_nth:
  "k < length ls \<Longrightarrow> pos \<le> len \<Longrightarrow> line_ends len pos ls ! k = min (pos + length (lines_bytes (take (Suc k) ls))) len"
proof (induction ls arbitrary: pos k)
  case (Cons l ls)
  show ?case
  proof (cases k)
    case 0
    then show ?thesis by (simp add: Let_def)
  next
    case (Suc m)
    with Cons.IH [of m "min (pos + length l + 1) len"] Cons.prems show ?thesis by (simp add: Let_def)
  qed
qed simp

lemma lines_bytes_end:
  "plain_lines ls \<Longrightarrow> ls \<noteq> [] \<Longrightarrow> \<exists>b. lines_bytes ls = b @ [newline] \<and> b \<noteq> [] \<and> last b \<noteq> newline"
proof (induction ls rule: rev_induct)
  case (snoc l ls)
  then have "l \<noteq> []" "newline \<notin> set l" by simp_all
  then show ?case by (intro exI [of _ "lines_bytes ls @ l"]) (use last_in_set in fastforce)
qed simp

text \<open>The bytes kept are the header's and the survivors' lines, less a final newline that is not there.\<close>

lemma kept_bytes:
  assumes f: "file_parts j data hdr kept tail n"
    and p: "pd_header_end p = length hdr + 1"
      "pd_ends p = line_ends (length data) (length hdr + 1) (map snd kept @ take (lines_in n (map snd tail)) (map snd tail))"
  shows "kept_len p (length (survivors kept tail n)) =
    min (length (lines_bytes (hdr # map snd (survivors kept tail n)))) (length data)"
proof (cases "survivors kept tail n = []")
  case True
  then show ?thesis using p(1) f by (auto simp: kept_len_def file_parts_def)
next
  case False
  have "lines_ok j tail" using f by (auto simp: file_parts_def lines_ok_def)
  then have all: "reaches n tail \<Longrightarrow> lines_in n (map snd tail) = length tail"
    using lines_in_all [OF lines_ok_plain, of j tail n] by auto
  let ?ls = "map snd kept @ take (lines_in n (map snd tail)) (map snd tail)"
  let ?k = "length (survivors kept tail n) - 1"
  have k: "?k < length ?ls \<and> take (Suc ?k) ?ls = map snd (survivors kept tail n)"
  proof (cases "reaches n tail")
    case True
    then show ?thesis using False all by (simp add: survivors_simps)
  next
    case no: False
    have "0 < length kept" using False survivors_simps(2) [OF no] by simp
    then have "length kept - 1 < length kept" by simp
    then have "length kept - 1 < length ?ls" by simp
    with \<open>0 < length kept\<close> show ?thesis by (simp only: survivors_simps(2) [OF no]) simp
  qed
  have "length hdr + 1 \<le> length data" using f by (simp add: file_parts_def)
  from line_ends_nth [OF conjunct1 [OF k] this]
  have "pd_ends p ! ?k = min (length hdr + 1 + length (lines_bytes (map snd (survivors kept tail n)))) (length data)"
    unfolding p(2) conjunct2 [OF k] .
  then show ?thesis using False by (simp add: kept_len_def)
qed

lemma in_byte_lines: "x \<in> set (byte_lines s) \<Longrightarrow> x \<in> set (file_lines s) \<or> x = []"
proof -
  assume x: "x \<in> set (byte_lines s)"
  have "byte_lines s = butlast (byte_lines s) @ [last (byte_lines s)]" by simp
  with x have "x \<in> set (butlast (byte_lines s)) \<or> x = last (byte_lines s)"
    by (metis Un_iff empty_iff list.set(1,2) insert_iff set_append)
  then show ?thesis by (auto simp: file_lines_def Let_def dest: in_set_butlastD)
qed

lemma cut_not_newer:
  assumes ok: "lines_ok j tail" and ne: "tail \<noteq> []"
  shows "\<not> newer_line j (take n (lines_bytes (map snd tail)))"
proof -
  let ?q = "lines_in n (map snd tail)"
  have obj: "js_object j l = Some (Field (type_name (en_type e))) \<and> known_type (type_name (en_type e)) \<and>
      (\<forall>p. strict_prefix p l \<longrightarrow> js_object j p = None) \<and> l \<noteq> []" if "(e, l) \<in> set tail" for e l
    using ok that by (auto simp: lines_ok_def line_ok_def)
  obtain torn where t: "file_lines (take n (lines_bytes (map snd tail))) = take ?q (map snd tail) @ torn" "torn_at n (map snd tail) torn"
    using torn_lines [OF lines_ok_plain [OF ok]] by blast
  have none: "js_object j [] = None"
  proof -
    obtain e l where "(e, l) \<in> set tail" using ne by (cases tail) auto
    with obj [of e l] show ?thesis by (cases l) auto
  qed
  have each: "js_object j x = None \<or> (\<exists>typ. js_object j x = Some (Field typ) \<and> known_type typ)"
    if "x \<in> set (byte_lines (take n (lines_bytes (map snd tail))))" for x
  proof -
    from in_byte_lines [OF that] t(1) consider "x = []" | "x \<in> set (map snd tail)" | "x \<in> set torn"
      by (auto dest: in_set_takeD)
    then show ?thesis
    proof cases
      case 1
      then show ?thesis using none by simp
    next
      case 2
      then obtain e where "(e, x) \<in> set tail" by auto
      with obj show ?thesis by blast
    next
      case 3
      with t(2) have q: "?q < length tail" "strict_prefix x (snd (tail ! ?q))" by (auto simp: torn_at_def)
      then have "(fst (tail ! ?q), snd (tail ! ?q)) \<in> set tail" by simp
      with obj q(2) show ?thesis by blast
    qed
  qed
  show ?thesis unfolding newer_line_def list_ex_iff using each by fastforce
qed

lemma repair_parts:
  assumes f: "file_parts j data hdr kept tail n" and d: "dk_file d = Some data"
    and r: "repair j fails data (min (length (lines_bytes (hdr # map snd (survivors kept tail n)))) (length data)) d = (bad, d')"
  defines "clean \<equiv> lines_bytes (hdr # map snd (survivors kept tail n))"
  shows "dk_file d' = Some data \<or> dk_file d' = Some clean" and "bad = None \<Longrightarrow> dk_file d' = Some clean"
    and "\<forall>st. \<not> fails st \<Longrightarrow> bad = None \<or> bad = Some (RepairFails TornWrite) \<and> dk_torn d \<noteq> None \<and> d' = d"
    and "bad = None \<Longrightarrow>
      (dk_torn d' = dk_torn d \<and> (data = clean \<or> data @ [newline] = clean)) \<or>
      (\<exists>cut'. dk_torn d = None \<and> dk_torn d' = Some cut' \<and> data = clean @ cut')"
proof -
  have ok: "lines_ok j kept" "lines_ok j tail" "header_ok j hdr" using f by (auto simp: file_parts_def lines_ok_def)
  have data: "data = lines_bytes (hdr # map snd kept) @ take n (lines_bytes (map snd tail))" using f by (simp add: file_parts_def)
  have plain: "plain_lines (hdr # map snd kept)" "plain_lines (map snd tail)"
    using lines_ok_plain [OF ok(1)] lines_ok_plain [OF ok(2)] ok(3) by (simp_all add: header_ok_def)
  consider (all) "reaches n tail" | (none) "\<not> reaches n tail" "take n (lines_bytes (map snd tail)) = []"
    | (some) "\<not> reaches n tail" "take n (lines_bytes (map snd tail)) \<noteq> []" by blast
  then have "(dk_file d' = Some data \<or> dk_file d' = Some clean) \<and> (bad = None \<longrightarrow> dk_file d' = Some clean) \<and>
    ((\<forall>st. \<not> fails st) \<longrightarrow> bad = None \<or> bad = Some (RepairFails TornWrite) \<and> dk_torn d \<noteq> None \<and> d' = d) \<and>
    (bad = None \<longrightarrow>
      (dk_torn d' = dk_torn d \<and> (data = clean \<or> data @ [newline] = clean)) \<or>
      (\<exists>cut'. dk_torn d = None \<and> dk_torn d' = Some cut' \<and> data = clean @ cut'))"
  proof cases
    case all
    obtain b where b: "lines_bytes (map snd tail) = b @ [newline]" "b \<noteq> []" "last b \<noteq> newline"
      using lines_bytes_end [OF plain(2)] all by auto
    have clean: "clean = lines_bytes (hdr # map snd kept) @ b @ [newline]" using survivors_simps(1) [OF all] b(1) by (simp add: clean_def)
    have kl: "min (length (lines_bytes (hdr # map snd (survivors kept tail n)))) (length data) = length data"
      using survivors_simps(1) [OF all] all data by simp
    have "length b \<le> n" using all b(1) by simp
    then consider (full) "data = clean" | (short) "data @ [newline] = clean" "last data \<noteq> newline"
      using data b clean by (cases "n = length b") auto
    then show ?thesis
    proof cases
      case full
      then have "last data = newline" by (simp add: clean)
      then show ?thesis using r d full unfolding kl by (simp add: repair_def split: option.split)
    next
      case short
      have "data \<noteq> []" using data by simp
      then show ?thesis using r d short unfolding kl
        by (auto simp: repair_def sync_transcript_def split: if_splits option.split)
    qed
  next
    case none
    have clean: "clean = data" using survivors_simps(2) [OF none(1)] none(2) data by (simp only: clean_def append_Nil2)
    then have kl: "min (length (lines_bytes (hdr # map snd (survivors kept tail n)))) (length data) = length data"
      by (simp add: clean_def)
    obtain b where "data = b @ [newline]"
      using lines_bytes_end [OF plain(1)] clean survivors_simps(2) [OF none(1)] by (auto simp only: clean_def list.simps)
    then have "last data = newline" by simp
    then show ?thesis using r d clean unfolding kl by (simp add: repair_def split: option.split)
  next
    case some
    define cut' where "cut' = take n (lines_bytes (map snd tail))"
    have clean: "data = clean @ cut'" using survivors_simps(2) [OF some(1)] data by (simp only: clean_def cut'_def)
    have kl: "min (length (lines_bytes (hdr # map snd (survivors kept tail n)))) (length data) = length clean"
      using clean by (simp add: clean_def)
    have ne: "length clean \<noteq> length data" "take (length clean) data = clean" "drop (length clean) data = cut'"
      using clean some(2) by (auto simp: cut'_def [symmetric])
    have "tail \<noteq> []" using some(2) by auto
    then have "\<not> newer_line j cut'" unfolding cut'_def by (rule cut_not_newer [OF ok(2)])
    then show ?thesis using r d ne clean unfolding kl
      by (auto simp: repair_def save_torn_def sync_transcript_def Let_def split: if_splits option.splits)
  qed
  then show "dk_file d' = Some data \<or> dk_file d' = Some clean" "bad = None \<Longrightarrow> dk_file d' = Some clean"
    "\<forall>st. \<not> fails st \<Longrightarrow> bad = None \<or> bad = Some (RepairFails TornWrite) \<and> dk_torn d \<noteq> None \<and> d' = d"
    "bad = None \<Longrightarrow>
      (dk_torn d' = dk_torn d \<and> (data = clean \<or> data @ [newline] = clean)) \<or>
      (\<exists>cut'. dk_torn d = None \<and> dk_torn d' = Some cut' \<and> data = clean @ cut')" by blast+
qed

section \<open>The invariant\<close>

definition held_ok :: "store \<Rightarrow> bool" where
  "held_ok s \<longleftrightarrow>
     list_all quiet_entry (sv_changes s) \<and> list_all quiet_entry (sv_users s) \<and>
     (case sv_resume s of None \<Rightarrow> True | Some r \<Rightarrow> quiet_entry r)"

definition file_ok :: "json \<Rightarrow> disk \<Rightarrow> bool" where
  "file_ok j d \<longleftrightarrow>
     (case dk_file d of None \<Rightarrow> True | Some data \<Rightarrow> \<exists>hdr kept tail n. file_parts j data hdr kept tail n)"

definition holds_file :: "json \<Rightarrow> store \<Rightarrow> string \<Rightarrow> bool" where
  "holds_file j s data \<longleftrightarrow>
     (\<exists>hdr kept tail n. file_parts j data hdr kept tail n \<and> map fst kept = t_entries (sv_t s) \<and> (sv_failed s \<or> tail = []))"

lemma holds_fileI:
  "file_parts j data hdr kept tail n \<Longrightarrow> map fst kept = t_entries (sv_t s) \<Longrightarrow> sv_failed s \<or> tail = [] \<Longrightarrow> holds_file j s data"
  unfolding holds_file_def by blast

lemma holds_clean:
  assumes "holds_file j s data" and "\<not> sv_failed s"
  obtains hdr kept where "file_parts j data hdr kept [] 0" and "map fst kept = t_entries (sv_t s)"
    and "data = lines_bytes (hdr # map snd kept)"
proof -
  obtain hdr kept n where f: "file_parts j data hdr kept [] n" "map fst kept = t_entries (sv_t s)"
    using assms unfolding holds_file_def by blast
  then have "file_parts j data hdr kept [] 0" "data = lines_bytes (hdr # map snd kept)" by (simp_all add: file_parts_def)
  with f(2) that show thesis by blast
qed

definition store_ok :: "json \<Rightarrow> store \<Rightarrow> disk \<Rightarrow> bool" where
  "store_ok j s d \<longleftrightarrow>
     accepted (sv_t s) \<and> held_ok s \<and> h_version (t_header (sv_t s)) = FormatVersion \<and> h_id (t_header (sv_t s)) \<noteq> [] \<and>
     (case dk_file d of
        None \<Rightarrow> t_entries (sv_t s) = [] \<and> \<not> sv_open s \<and> \<not> sv_failed s
      | Some data \<Rightarrow> (sv_open s \<or> sv_closed s) \<and> holds_file j s data)"

text \<open>Operations that only hold something leave the file's part of the invariant.\<close>

lemma store_ok_held:
  assumes "store_ok j s d" and "sv_t s' = sv_t s" and "sv_failed s' = sv_failed s" and "held_ok s'"
    and "sv_closed s \<Longrightarrow> sv_closed s'" and "sv_open s \<Longrightarrow> sv_open s' \<or> sv_closed s'" and "sv_open s' \<Longrightarrow> sv_open s"
  shows "store_ok j s' d"
  using assms by (auto simp: store_ok_def holds_file_def split: option.splits)

lemma usable_None: "usable s = None \<longleftrightarrow> \<not> sv_closed s \<and> \<not> sv_failed s"
  by (simp add: usable_def)

lemma header_line_ok:
  assumes "json_ok j" and "h_version h = FormatVersion" and "h_id h \<noteq> []"
  shows "header_ok j (js_header_line j h)"
proof -
  have "json_headers j" using assms(1) by (simp add: json_ok_def)
  then obtain v where "newline \<notin> set (js_header_line j h)" "js_header_line j h \<noteq> []" "js_header j (js_header_line j h) = Some v"
    "hj_type v = typeSession" "hj_time v \<noteq> None" "h_version (hj_header v) = h_version h" "h_id (hj_header v) \<noteq> []"
    using assms(2,3) unfolding json_headers_def Let_def by blast
  with assms(2,3) show ?thesis by (auto simp: header_ok_def decode_header_def)
qed

lemma lines_ok_append [simp]: "lines_ok j (xs @ ys) \<longleftrightarrow> lines_ok j xs \<and> lines_ok j ys"
  by (auto simp: lines_ok_def)

lemma one_unit_whole: "one_unit es \<Longrightarrow> whole es"
  by (simp add: one_unit_def whole_def)

lemma commit_ok:
  assumes j: "json_ok j" and s: "store_ok j s d" and u: "usable s = None"
    and b: "lines_ok j pairs" "accepted (joined (map fst pairs) (sv_t s))" "one_unit (map fst pairs)"
    and c: "commit j w pairs (s, d) = (r, s', d')"
  shows "store_ok j s' d'" and "sv_resume s' = sv_resume s" and "sv_users s' = sv_users s" and "sv_changes s' = sv_changes s"
    and "\<And>x. r = Inr x \<Longrightarrow> x = map fst pairs \<and> sv_t s' = joined (map fst pairs) (sv_t s) \<and> \<not> sv_failed s' \<and> \<not> sv_closed s'"
proof -
  have w: "whole (map fst pairs)" by (rule one_unit_whole [OF b(3)])
  have "store_ok j s' d' \<and> sv_resume s' = sv_resume s \<and> sv_users s' = sv_users s \<and> sv_changes s' = sv_changes s \<and>
    (\<forall>x. r = Inr x \<longrightarrow> x = map fst pairs \<and> sv_t s' = joined (map fst pairs) (sv_t s) \<and> \<not> sv_failed s' \<and> \<not> sv_closed s')"
  proof (cases "dk_file d")
    case None
    then have no: "\<not> sv_open s" "t_entries (sv_t s) = []" using s by (simp_all add: store_ok_def)
    show ?thesis
    proof (cases "o_fails w")
      case (Some n)
      then show ?thesis using c no s by (auto simp: commit_def Let_def)
    next
      case None
      let ?hdr = "js_header_line j (t_header (sv_t s))"
      have h: "header_ok j ?hdr" by (rule header_line_ok [OF j]) (use s in \<open>simp_all add: store_ok_def\<close>)
      have "file_parts j (lines_bytes (?hdr # map snd pairs)) ?hdr pairs [] 0"
        using h b(1,2) w no by (auto simp: file_parts_def)
      then have hf: "holds_file j s' (lines_bytes (?hdr # map snd pairs))"
        by (rule holds_fileI) (use c no None in \<open>auto simp: commit_def Let_def\<close>)
      with c no None s u b(2) show ?thesis by (auto simp: commit_def Let_def store_ok_def held_ok_def usable_None)
    qed
  next
    case (Some data)
    then have op': "sv_open s" using s u by (auto simp: store_ok_def usable_None)
    have "holds_file j s data" "\<not> sv_failed s" using s Some u by (auto simp: store_ok_def usable_None)
    then obtain hdr kept where f: "file_parts j data hdr kept [] 0" "map fst kept = t_entries (sv_t s)"
      and data: "data = lines_bytes (hdr # map snd kept)" by (rule holds_clean)
    have ex: "\<exists>t. accepted t \<and> t_entries t = map fst (kept @ pairs)" using b(2) f(2) by (intro exI [of _ "joined (map fst pairs) (sv_t s)"]) simp
    show ?thesis
    proof (cases "o_fails w")
      case None
      have "file_parts j (data @ lines_bytes (map snd pairs)) hdr (kept @ pairs) [] 0"
        using f b(1,3) ex whole_append [of kept pairs] by (auto simp: file_parts_def)
      then have "holds_file j s' (data @ lines_bytes (map snd pairs))"
        by (rule holds_fileI) (use c op' None Some f(2) in \<open>auto simp: commit_def Let_def\<close>)
      with c op' None Some s u b(2) show ?thesis by (auto simp: commit_def Let_def store_ok_def held_ok_def usable_None)
    next
      case fails: (Some n)
      show ?thesis
      proof (cases "n = 0")
        case True
        then show ?thesis using c op' fails s by (auto simp: commit_def Let_def)
      next
        case False
        have "file_parts j (data @ take n (lines_bytes (map snd pairs))) hdr kept pairs n"
          using f b(1,3) ex by (auto simp: file_parts_def)
        then have "holds_file j s' (data @ take n (lines_bytes (map snd pairs)))"
          by (rule holds_fileI) (use c op' fails Some f(2) False in \<open>auto simp: commit_def Let_def\<close>)
        with c op' fails Some s u False show ?thesis by (auto simp: commit_def Let_def store_ok_def held_ok_def)
      qed
    qed
  qed
  then show "store_ok j s' d'" "sv_resume s' = sv_resume s" "sv_users s' = sv_users s" "sv_changes s' = sv_changes s"
    "\<And>x. r = Inr x \<Longrightarrow> x = map fst pairs \<and> sv_t s' = joined (map fst pairs) (sv_t s) \<and> \<not> sv_failed s' \<and> \<not> sv_closed s'"
    by blast+
qed

lemma decoded_id_text:
  assumes "json_ok j" and "decode_entry j l = Inr e"
  shows "js_text j (en_id e)"
proof -
  obtain v ts where v: "js_envelope j l = Some v"
    "decode_payload j l (zero_entry\<lparr>en_type := type_of_name (v_type v), en_id := v_id v, en_time := ts,
       en_parent := (case v_parent v of None \<Rightarrow> [] | Some p \<Rightarrow> p)\<rparr>) = Inr e"
    using assms(2) by (auto simp: decode_entry_def split: option.splits if_splits)
  then have "en_id e = v_id v" using decode_payload_keeps [OF v(2)] by simp
  then show ?thesis using assms(1) v(1) by (auto simp: json_ok_def json_ids_def)
qed

lemma leaf_text:
  assumes j: "json_ok j" and s: "store_ok j s d"
  shows "js_text j (last_id (t_last (sv_t s)))"
proof (cases "t_entries (sv_t s) = []")
  case True
  then show ?thesis using j by (simp add: last_id_def t_last_def json_ok_def json_ids_def)
next
  case False
  then obtain data where "dk_file d = Some data" "holds_file j s data" using s by (auto simp: store_ok_def split: option.splits)
  then obtain kept where k: "lines_ok j kept" "map fst kept = t_entries (sv_t s)" by (auto simp: holds_file_def file_parts_def)
  then have "kept \<noteq> []" using False by auto
  then have "last kept \<in> set kept" by simp
  moreover have l: "t_last (sv_t s) = Some (fst (last kept))"
    unfolding t_last_def k(2) [symmetric] using \<open>kept \<noteq> []\<close> by (simp add: last_map)
  ultimately have "decode_entry j (snd (last kept)) = Inr (fst (last kept))" using k(1) by (auto simp: lines_ok_def line_ok_def)
  from decoded_id_text [OF j this] show ?thesis using l by (simp add: last_id_def)
qed

text \<open>A batch of the right shape: written, or nothing at all, or the store has failed.\<close>

lemma write_out_ok:
  assumes j: "json_ok j" and s: "store_ok j s d" and u: "usable s = None"
    and alone: "(\<forall>e \<in> set es. en_type e \<noteq> TypeCompaction) \<or> length es = 1"
    and shape: "step_shape es \<or> (\<exists>c. es = [c] \<and> en_type c = TypeCompaction)"
  shows "write_out j w es (s, d) \<noteq> None"
    and "write_out j w es (s, d) = Some (r, s', d') \<Longrightarrow>
      store_ok j s' d' \<and> sv_resume s' = sv_resume s \<and> sv_users s' = sv_users s \<and> sv_changes s' = sv_changes s \<and>
      (\<forall>x. r = Inr x \<longrightarrow> sv_t s' = joined x (sv_t s) \<and> list_all2 same_kind x es \<and> \<not> sv_failed s' \<and> \<not> sv_closed s')"
proof -
  let ?t = "sv_t s"
  have a: "accepted ?t" using s by (simp add: store_ok_def)
  have al: "compaction_alone ?t ?t es" using alone by simp
  obtain b where b: "write_batch j w ?t [] 0 (t_last ?t) (pairing_after (t_last ?t)) es = Some b"
    "\<forall>pairs last_open. b = Inr (pairs, last_open) \<longrightarrow>
       accepted (joined (map fst pairs) ?t) \<and> last_open = pairing_after (t_last (joined (map fst pairs) ?t)) \<and>
       list_all2 same_kind (map fst pairs) es \<and> (\<forall>(b, l) \<in> set pairs. line_ok j b l)"
    using write_batch_ok [OF j a, of ?t "[]", OF _ a leaf_text [OF j s] al, of w 0] by auto
  have w: "write_out j w es (s, d) = Some (case b of Inl err \<Rightarrow> (Inl err, s, d)
      | Inr (written, open') \<Rightarrow> if open' \<noteq> None then (Inl CallsUnanswered, s, d) else commit j w written (s, d))"
    using b(1) by (simp add: write_out_def del: not_None_eq)
  then show "write_out j w es (s, d) \<noteq> None" by simp
  assume r: "write_out j w es (s, d) = Some (r, s', d')"
  show "store_ok j s' d' \<and> sv_resume s' = sv_resume s \<and> sv_users s' = sv_users s \<and> sv_changes s' = sv_changes s \<and>
      (\<forall>x. r = Inr x \<longrightarrow> sv_t s' = joined x (sv_t s) \<and> list_all2 same_kind x es \<and> \<not> sv_failed s' \<and> \<not> sv_closed s')"
  proof (cases b)
    case (Inl err)
    then show ?thesis using w r s by auto
  next
    case (Inr p)
    obtain pairs last_open where p: "p = (pairs, last_open)" by (cases p)
    note f = b(2) [rule_format, OF Inr [unfolded p]]
    show ?thesis
    proof (cases "last_open = None")
      case False
      then show ?thesis using w r s Inr p by auto
    next
      case True
      then have c: "commit j w pairs (s, d) = (r, s', d')" using w r Inr p by simp
      have "one_unit (map fst pairs)"
        using shape step_one_unit [of es "map fst pairs" ?t] compaction_one_unit f True by auto
      with commit_ok [OF j s u _ _ _ c] f show ?thesis by (auto simp: lines_ok_def)
    qed
  qed
qed

section \<open>Every operation keeps it\<close>

lemma quiet_zero [simp]:
  "quiet_entry (message_line now e) \<longleftrightarrow> m_role (me_message e) = RoleUser"
  "message_of r (message_line now e) \<longleftrightarrow> m_role (me_message e) = r"
  "en_type (message_line now e) = TypeMessage"
  by (simp_all add: quiet_entry_def message_of_def message_line_def)

lemma quiet_lead: "check_lead l \<Longrightarrow> quiet_entry (lead_line now l)"
proof (cases "ld_reminder l = []")
  case True
  then show "check_lead l \<Longrightarrow> ?thesis" by (simp add: check_lead_def lead_line_def check_message_def)
qed (simp add: lead_line_def quiet_entry_def)

lemma step_batch_shape:
  assumes h: "held_ok s" and l: "list_all check_lead leads" and a: "m_role (me_message answer) = RoleAssistant"
    and t: "\<forall>m. tool = Some m \<longrightarrow> m_role (me_message m) = RoleTool"
  shows "step_shape (step_batch w s leads answer tool)" and "\<forall>e \<in> set (step_batch w s leads answer tool). en_type e \<noteq> TypeCompaction"
proof -
  define qs where "qs = (case sv_resume s of None \<Rightarrow> [] | Some r \<Rightarrow> [r]) @ sv_changes s @ sv_users s @
      map (\<lambda>k. lead_line (o_clock w k) (leads ! k)) [0..<length leads]"
  let ?a = "message_line (o_clock w (length leads)) answer"
  have q: "list_all quiet_entry qs"
    using h l quiet_lead by (auto simp: qs_def held_ok_def list_all_iff split: option.splits)
  have b: "step_batch w s leads answer tool =
      qs @ ?a # (case tool of None \<Rightarrow> [] | Some m \<Rightarrow> [message_line (o_clock w (Suc (length leads))) m])"
    by (simp add: step_batch_def qs_def Let_def)
  show "step_shape (step_batch w s leads answer tool)"
  proof (cases tool)
    case None
    then show ?thesis using q a b unfolding step_shape_def by (intro disjI1 exI [of _ qs] exI [of _ ?a]) simp
  next
    case (Some m)
    then show ?thesis using q a b t unfolding step_shape_def
      by (intro disjI2 exI [of _ qs] exI [of _ ?a] exI [of _ "message_line (o_clock w (Suc (length leads))) m"]) simp
  qed
  show "\<forall>e \<in> set (step_batch w s leads answer tool). en_type e \<noteq> TypeCompaction"
    unfolding b using q by (auto simp: list_all_iff quiet_entry_def split: option.splits)
qed

lemma append_step_ok:
  assumes j: "json_ok j" and s: "store_ok j s d"
  shows "append_step_led j w leads answer tool (s, d) \<noteq> None"
    and "append_step_led j w leads answer tool (s, d) = Some (r, s', d') \<Longrightarrow>
      store_ok j s' d' \<and> (\<forall>x. r = Inr x \<longrightarrow> \<not> sv_failed s' \<and> \<not> sv_closed s' \<and> sv_users s' = [])"
proof -
  have "append_step_led j w leads answer tool (s, d) \<noteq> None \<and>
    (append_step_led j w leads answer tool (s, d) = Some (r, s', d') \<longrightarrow>
      store_ok j s' d' \<and> (\<forall>x. r = Inr x \<longrightarrow> \<not> sv_failed s' \<and> \<not> sv_closed s' \<and> sv_users s' = []))"
  proof (cases "list_all check_lead leads \<and> check_message answer RoleAssistant \<and>
      \<not> (case tool of None \<Rightarrow> False | Some m \<Rightarrow> \<not> check_message m RoleTool) \<and> has_output (me_message answer) \<and>
      usable s = None \<and> \<not> (t_entries (sv_t s) = [] \<and> sv_users s = [])")
    case False
    then show ?thesis using s by (auto simp: append_step_led_def split: option.splits if_splits)
  next
    case True
    have h: "held_ok s" using s by (simp add: store_ok_def)
    have roles: "m_role (me_message answer) = RoleAssistant" "\<forall>m. tool = Some m \<longrightarrow> m_role (me_message m) = RoleTool"
      using True by (auto simp: check_message_def)
    note sh = step_batch_shape [OF h conjunct1 [OF True] roles, of w]
    have u: "usable s = None" using True by blast
    note wo = write_out_ok [OF j s u disjI1 [OF sh(2)] disjI1 [OF sh(1)], of w]
    obtain r0 s0 d0 where w0: "write_out j w (step_batch w s leads answer tool) (s, d) = Some (r0, s0, d0)"
      using wo(1) by (cases "write_out j w (step_batch w s leads answer tool) (s, d)") auto
    have app: "append_step_led j w leads answer tool (s, d) = Some (case r0 of Inl err \<Rightarrow> (Inl err, s0, d0)
        | Inr batch \<Rightarrow> (Inr (map en_id batch), s0\<lparr>sv_resume := None, sv_users := [], sv_changes := []\<rparr>, d0))"
      using True w0 by (cases "t_entries (sv_t s) = []") (simp_all add: append_step_led_def)
    have cl: "store_ok j (s0\<lparr>sv_resume := None, sv_users := [], sv_changes := []\<rparr>) d0"
      by (rule store_ok_held [of j s0]) (use wo(2) [OF w0] in \<open>simp_all add: held_ok_def\<close>)
    show ?thesis using app wo(2) [OF w0] cl by (auto split: sum.splits)
  qed
  then show "append_step_led j w leads answer tool (s, d) \<noteq> None"
    "append_step_led j w leads answer tool (s, d) = Some (r, s', d') \<Longrightarrow>
      store_ok j s' d' \<and> (\<forall>x. r = Inr x \<longrightarrow> \<not> sv_failed s' \<and> \<not> sv_closed s' \<and> sv_users s' = [])" by blast+
qed

lemma append_answer_ok:
  assumes "json_ok j" and "store_ok j s d"
  shows "append_answer_led j w leads e (s, d) \<noteq> None"
    and "append_answer_led j w leads e (s, d) = Some (r, s', d') \<Longrightarrow> store_ok j s' d'"
  using append_step_ok [OF assms, of w leads e None] assms(2) by (auto simp: append_answer_led_def split: if_splits)

lemma append_compaction_ok:
  assumes j: "json_ok j" and s: "store_ok j s d"
  shows "append_compaction j w turn m u c (s, d) \<noteq> None"
    and "append_compaction j w turn m u c (s, d) = Some (r, s', d') \<Longrightarrow> store_ok j s' d'"
proof -
  let ?e = "compaction_line (o_clock w 0) turn m u c"
  have ty: "en_type ?e = TypeCompaction" by (simp add: compaction_line_def)
  have "append_compaction j w turn m u c (s, d) \<noteq> None \<and>
    (append_compaction j w turn m u c (s, d) = Some (r, s', d') \<longrightarrow> store_ok j s' d')"
  proof (cases "check_compaction (compaction_line 0 turn m u c) \<and> usable s = None \<and> t_entries (sv_t s) \<noteq> []")
    case False
    then show ?thesis using s by (auto simp: append_compaction_def split: option.splits if_splits)
  next
    case True
    then have us: "usable s = None" by blast
    have sh: "step_shape [?e] \<or> (\<exists>c. [?e] = [c] \<and> en_type c = TypeCompaction)" using ty by blast
    have al: "(\<forall>e \<in> set [?e]. en_type e \<noteq> TypeCompaction) \<or> length [?e] = 1" by simp
    note wo = write_out_ok [OF j s us al sh, of w]
    show ?thesis using wo True by (auto simp: append_compaction_def split: option.splits)
  qed
  then show "append_compaction j w turn m u c (s, d) \<noteq> None"
    "append_compaction j w turn m u c (s, d) = Some (r, s', d') \<Longrightarrow> store_ok j s' d'" by blast+
qed

lemma hold_change_ok:
  assumes s: "store_ok j s d" and q: "quiet_entry e" and h: "hold_change w e (s, d) = (r, s', d')"
  shows "store_ok j s' d'"
proof (cases "usable s")
  case None
  have "held_ok s" using s by (simp add: store_ok_def)
  then have "held_ok (s\<lparr>sv_changes := filter (\<lambda>c. en_type c \<noteq> en_type e) (sv_changes s) @ [e\<lparr>en_time := o_clock w 0\<rparr>]\<rparr>)"
    using q by (auto simp: held_ok_def list_all_iff quiet_entry_def)
  then have "store_ok j (s\<lparr>sv_changes := filter (\<lambda>c. en_type c \<noteq> en_type e) (sv_changes s) @ [e\<lparr>en_time := o_clock w 0\<rparr>]\<rparr>) d"
    by (intro store_ok_held [OF s]) simp_all
  with h None show ?thesis by (auto simp: hold_change_def)
qed (use s h in \<open>auto simp: hold_change_def\<close>)

lemma append_user_ok:
  assumes s: "store_ok j s d" and h: "append_user w e (s, d) = (r, s', d')"
  shows "store_ok j s' d'"
proof (cases "check_message e RoleUser \<and> usable s = None")
  case True
  have "held_ok s" using s by (simp add: store_ok_def)
  then have "held_ok (s\<lparr>sv_users := sv_users s @ [message_line (o_clock w 0) e]\<rparr>)" using True by (simp add: held_ok_def check_message_def)
  then have "store_ok j (s\<lparr>sv_users := sv_users s @ [message_line (o_clock w 0) e]\<rparr>) d" by (intro store_ok_held [OF s]) simp_all
  with h True show ?thesis by (auto simp: append_user_def)
qed (use s h in \<open>auto simp: append_user_def split: if_splits option.splits\<close>)

lemma close_store_ok: "store_ok j s d \<Longrightarrow> store_ok j (close_store s) d"
  by (cases "sv_closed s") (simp add: close_store_def, rule store_ok_held, auto simp: close_store_def held_ok_def)

lemma discard_ok: "store_ok j s d \<Longrightarrow> store_ok j (discard_held_users s) d"
  by (rule store_ok_held) (auto simp: discard_held_users_def held_ok_def store_ok_def)

lemma change_quiet [simp]:
  "quiet_entry (zero_entry\<lparr>en_type := TypeModelChange, en_entry := m\<rparr>)"
  "quiet_entry (zero_entry\<lparr>en_type := TypeEffortChange, en_entry := m\<rparr>)"
  "quiet_entry (zero_entry\<lparr>en_type := TypeModeChange, en_mode := v\<rparr>)"
  by (simp_all add: quiet_entry_def)

lemma run_op_ok:
  assumes j: "json_ok j" and s: "store_ok j s d"
  shows "run_op j w oper (s, d) \<noteq> None" and "run_op j w oper (s, d) = Some (r, s', d') \<Longrightarrow> store_ok j s' d'"
proof -
  show "run_op j w oper (s, d) \<noteq> None"
    using append_step_ok(1) [OF j s] append_answer_ok(1) [OF j s] append_compaction_ok(1) [OF j s]
    by (cases oper) (simp_all add: run_op_def)
  assume r: "run_op j w oper (s, d) = Some (r, s', d')"
  show "store_ok j s' d'"
  proof (cases oper)
    case (AppendUser e)
    then show ?thesis using r append_user_ok [OF s] by (simp add: run_op_def)
  next
    case DiscardHeldUsers
    then show ?thesis using r discard_ok [OF s] by (simp add: run_op_def)
  next
    case (AppendModelChange m)
    then show ?thesis using r s hold_change_ok [OF s change_quiet(1)] by (auto simp: run_op_def append_model_change_def split: if_splits)
  next
    case (AppendEffortChange e)
    then show ?thesis using r hold_change_ok [OF s change_quiet(2)] by (auto simp: run_op_def append_effort_change_def)
  next
    case (AppendModeChange m)
    then show ?thesis using r s hold_change_ok [OF s change_quiet(3)] by (auto simp: run_op_def append_mode_change_def split: if_splits)
  next
    case (AppendStepLed leads answer tool)
    then show ?thesis using r append_step_ok(2) [OF j s] by (auto simp: run_op_def unit_outcome_def)
  next
    case (AppendAnswerLed leads answer)
    then show ?thesis using r append_answer_ok(2) [OF j s] by (auto simp: run_op_def unit_outcome_def)
  next
    case (AppendCompaction turn m u c)
    then show ?thesis using r append_compaction_ok(2) [OF j s] by (auto simp: run_op_def unit_outcome_def)
  next
    case CloseStore
    then show ?thesis using r close_store_ok [OF s] by (simp add: run_op_def)
  qed
qed

section \<open>Opening again\<close>

lemma file_okI: "file_parts j data hdr kept tail n \<Longrightarrow> dk_file d = Some data \<Longrightarrow> file_ok j d"
  unfolding file_ok_def by (simp only: option.case) blast

lemma decode_header_facts: "decode_header j l = Some h \<Longrightarrow> h_version h = FormatVersion \<and> h_id h \<noteq> []"
  by (auto simp: decode_header_def split: option.splits if_splits)

lemma survivors_parts:
  assumes f: "file_parts j data hdr kept tail n"
  shows "file_parts j (lines_bytes (hdr # map snd (survivors kept tail n))) hdr (survivors kept tail n) [] 0"
proof (cases "reaches n tail")
  case True
  then show ?thesis using f whole_append [of kept tail] by (simp add: survivors_simps file_parts_def)
next
  case False
  obtain t where "accepted t" "t_entries t = map fst kept @ map fst tail" using f by (auto simp: file_parts_def)
  from accepted_take [OF this] show ?thesis using f by (auto simp: survivors_simps(2) [OF False] file_parts_def)
qed

text \<open>Opening a session's file: it always returns, and what it returns holds the file's survivors.\<close>

lemma open_parts:
  assumes f: "file_parts j data hdr kept tail n" and d: "dk_file d = Some data"
  shows "open_store j fails now busy opts d \<noteq> None"
    and "open_store j fails now busy opts d = Some (r, d') \<Longrightarrow> file_ok j d'"
    and "open_store j fails now busy opts d = Some (Inr s, d') \<Longrightarrow>
      store_ok j s d' \<and> t_entries (sv_t s) = map fst (survivors kept tail n) \<and>
      dk_file d' = Some (lines_bytes (hdr # map snd (survivors kept tail n)))"
    and "decode_header j hdr = Some h \<Longrightarrow> h_parent_session h = [] \<Longrightarrow> op_session opts \<in> {[], h_id h} \<Longrightarrow>
      op_workspace opts \<in> {[], h_cwd h} \<Longrightarrow> \<not> busy \<Longrightarrow> \<forall>st. \<not> fails st \<Longrightarrow>
      (\<exists>s d'. open_store j fails now busy opts d = Some (Inr s, d')) \<or>
      dk_torn d \<noteq> None \<and> open_store j fails now busy opts d = Some (Inl (RepairFails TornWrite), d)"
    and "open_store j fails now busy opts d = Some (Inr s, d') \<Longrightarrow>
      (dk_torn d' = dk_torn d \<and> (dk_file d' = Some data \<or> dk_file d' = Some (data @ [newline]))) \<or>
      (\<exists>file cut'. dk_torn d = None \<and> dk_torn d' = Some cut' \<and> dk_file d' = Some file \<and> data = file @ cut')"
    and "decode_header j hdr = Some h \<Longrightarrow> h_parent_session h \<noteq> [] \<Longrightarrow> \<not> busy \<Longrightarrow>
      open_store j fails now busy opts d = Some (Inl ErrNotResumable, d)"
proof -
  obtain t p h' where l: "load j data = Some (Inr t)" "parse j data = Some (Inr p)" "decode_header j hdr = Some h'"
    "t_entries t = map fst (survivors kept tail n)" "t_header t = h'" "accepted t" "t_header (pd_t p) = h'"
    "t = snd (drop_incomplete (pd_t p))" "fst (drop_incomplete (pd_t p)) = length (t_entries t)"
    "pd_header_end p = length hdr + 1"
    "pd_ends p = line_ends (length data) (length hdr + 1) (map snd kept @ take (lines_in n (map snd tail)) (map snd tail))"
    using load_parts [OF f] by metis
  let ?clean = "lines_bytes (hdr # map snd (survivors kept tail n))"
  have dr: "drop_incomplete (pd_t p) = (length (survivors kept tail n), t)"
    using l(4,8,9) by (metis length_map prod.collapse)
  define kl where "kl = min (length ?clean) (length data)"
  obtain bad d1 where rp: "repair j fails data kl d = (bad, d1)" by fastforce
  note rep = repair_parts [OF f d rp [unfolded kl_def]]
  define mism where "mism \<longleftrightarrow> h_parent_session h' \<noteq> [] \<or> (op_session opts \<noteq> [] \<and> h_id h' \<noteq> op_session opts) \<or>
    (op_workspace opts \<noteq> [] \<and> h_cwd h' \<noteq> op_workspace opts)"
  let ?s = "\<lparr>sv_t = t\<lparr>t_render := op_render opts\<rparr>, sv_open = True,
      sv_resume = Some (zero_entry\<lparr>en_type := TypeResume, en_time := now, en_contract := op_contract opts\<rparr>),
      sv_users = [], sv_changes = [], sv_closed = False, sv_failed = False\<rparr>"
  have kb: "kept_len p (length (survivors kept tail n)) = kl" using kept_bytes [OF f l(10,11)] by (simp add: kl_def)
  consider (busy) "busy" | (mismatch) err where "\<not> busy" "mism" "open_store j fails now busy opts d = Some (Inl err, d)"
    | (bad) err where "\<not> busy" "\<not> mism" "bad = Some err" "open_store j fails now busy opts d = Some (Inl err, d1)"
    | (good) "\<not> busy" "\<not> mism" "bad = None" "open_store j fails now busy opts d = Some (Inr ?s, d1)"
  proof (cases "busy \<or> mism")
    case True
    have "\<exists>err. open_store j fails now busy opts d = Some (Inl err, d)" if "\<not> busy" "mism"
      using that d l(2,7) by (auto simp: open_store_def mism_def)
    with True that(1,2) show thesis by blast
  next
    case False
    then have "open_store j fails now busy opts d = Some (case bad of Some err \<Rightarrow> (Inl err, d1) | None \<Rightarrow> (Inr ?s, d1))"
      using d l(2,7) dr kb rp by (auto simp: open_store_def mism_def Let_def split: option.split)
    with False that(3,4) show thesis by (cases bad) auto
  qed
  note outcomes = this
  have dfile: "file_ok j d" by (rule file_okI [OF f d])
  have clean: "file_parts j ?clean hdr (survivors kept tail n) [] 0" by (rule survivors_parts [OF f])
  have d1: "file_ok j d1" using rep(1) file_okI [OF f] file_okI [OF clean] by blast
  have s_ok: "store_ok j ?s d1" if "bad = None"
  proof -
    have "accepted (t\<lparr>t_render := op_render opts\<rparr>)" by (rule accepted_render [OF l(6)])
    moreover have "holds_file j ?s ?clean" by (rule holds_fileI [OF clean]) (use l(4) in simp_all)
    ultimately show ?thesis
      using rep(2) [OF that] decode_header_facts [OF l(3)] l(5) by (simp add: store_ok_def held_ok_def quiet_entry_def)
  qed
  from outcomes show "open_store j fails now busy opts d \<noteq> None" by (cases) (use d in \<open>auto simp: open_store_def\<close>)
  show "file_ok j d'" if "open_store j fails now busy opts d = Some (r, d')"
    using outcomes by cases (use that d dfile d1 in \<open>auto simp: open_store_def\<close>)
  show "store_ok j s d' \<and> t_entries (sv_t s) = map fst (survivors kept tail n) \<and> dk_file d' = Some ?clean"
    if "open_store j fails now busy opts d = Some (Inr s, d')"
    using outcomes by cases (use that d s_ok rep(2) l(4) in \<open>auto simp: open_store_def\<close>)
  show "(\<exists>s d'. open_store j fails now busy opts d = Some (Inr s, d')) \<or>
      dk_torn d \<noteq> None \<and> open_store j fails now busy opts d = Some (Inl (RepairFails TornWrite), d)"
    if "decode_header j hdr = Some h" "h_parent_session h = []" "op_session opts \<in> {[], h_id h}" "op_workspace opts \<in> {[], h_cwd h}"
      "\<not> busy" "\<forall>st. \<not> fails st"
  proof -
    have "\<not> mism" using that l(3) by (auto simp: mism_def)
    with outcomes that(5) rep(3) [OF that(6)] show ?thesis by cases auto
  qed
  show "(dk_torn d' = dk_torn d \<and> (dk_file d' = Some data \<or> dk_file d' = Some (data @ [newline]))) \<or>
      (\<exists>file cut'. dk_torn d = None \<and> dk_torn d' = Some cut' \<and> dk_file d' = Some file \<and> data = file @ cut')"
    if "open_store j fails now busy opts d = Some (Inr s, d')"
    using outcomes
  proof cases
    case good
    with that have "d' = d1" by simp
    with rep(2,4) [OF good(3)] show ?thesis by auto
  qed (use that d in \<open>auto simp: open_store_def\<close>)
  show "open_store j fails now busy opts d = Some (Inl ErrNotResumable, d)"
    if "decode_header j hdr = Some h" "h_parent_session h \<noteq> []" "\<not> busy"
    using that d l(2,3,7) by (simp add: open_store_def)
qed

lemma session_ok:
  assumes j: "json_ok j" and r: "session j (so, d)"
  shows "file_ok j d" and "so = Some s \<Longrightarrow> store_ok j s d"
proof -
  have kept_file: "store_ok j s d \<Longrightarrow> file_ok j d" for s d
  proof (cases "dk_file d")
    case (Some data)
    assume "store_ok j s d"
    with Some have "holds_file j s data" by (simp add: store_ok_def)
    with Some show "file_ok j d" unfolding holds_file_def using file_okI by blast
  qed (simp add: file_ok_def)
  have "file_ok j (snd sd) \<and> (\<forall>s. fst sd = Some s \<longrightarrow> store_ok j s (snd sd))" if "session j sd" for sd
    using that
  proof (induction rule: session.induct)
    case (starts h d r)
    then show ?case
      by (simp add: file_ok_def store_ok_def new_store_def held_ok_def accepted_render accepted_new) (simp add: new_transcript_def)
  next
    case (runs s d w oper r s' d')
    then have "store_ok j s' d'" using run_op_ok(2) [OF j] by auto
    with kept_file show ?case by auto
  next
    case (stops s d)
    then show ?case by simp
  next
    case (opens d fails now busy opts copy s' d')
    obtain data where data: "dk_file (d\<lparr>dk_torn := copy\<rparr>) = Some data" using opens.hyps(2) by (auto simp: open_store_def split: option.splits)
    then obtain hdr kept tail n where f: "file_parts j data hdr kept tail n" using opens.IH by (auto simp: file_ok_def)
    from open_parts(2,3) [OF f data] opens.hyps(2) show ?case by auto
  next
    case (refuses d fails now busy opts copy err d')
    show ?case
    proof (cases "dk_file d")
      case None
      then show ?thesis using refuses by (auto simp: open_store_def file_ok_def)
    next
      case (Some data)
      then have data: "dk_file (d\<lparr>dk_torn := copy\<rparr>) = Some data" by simp
      obtain hdr kept tail n where f: "file_parts j data hdr kept tail n" using refuses.IH Some by (auto simp: file_ok_def)
      from open_parts(2) [OF f data] refuses.hyps(2) show ?thesis by auto
    qed
  qed
  from this [OF r] show "file_ok j d" "so = Some s \<Longrightarrow> store_ok j s d" by auto
qed

end
