(* ===== verification/Session_Laws.thy ===== *)
theory Session_Laws
  imports Session_Store_Laws
begin

text \<open>
  What the native session store promises: every history a request sends pairs its tool calls with their results, a
  compaction loses nothing of the tail it names, the size of a context counts each message once, a crash keeps whole
  steps, and a session opens again after one.
\<close>

section \<open>An operation writes one batch, or nothing\<close>

lemma new_entry_id_fails [simp]: "new_entry_id t (w\<lparr>o_fails := x\<rparr>) taken tries n = new_entry_id t w taken tries n"
  by (induction tries arbitrary: n) (simp_all add: Let_def)

lemma write_batch_fails [simp]:
  "write_batch j (w\<lparr>o_fails := x\<rparr>) t taken n parent op' es = write_batch j w t taken n parent op' es"
  by (induction es arbitrary: taken n parent op') (simp_all add: pair_next_def Let_def split: option.split sum.split)

lemma step_batch_fails [simp]: "step_batch (w\<lparr>o_fails := x\<rparr>) s leads answer tool = step_batch w s leads answer tool"
  by (simp add: step_batch_def Let_def split: option.split)

text \<open>Whatever becomes of its write, an operation writes the same.\<close>

definition writes :: "json \<Rightarrow> write_env \<Rightarrow> store \<times> disk \<Rightarrow> entry list \<Rightarrow> (entry \<times> string) list option \<Rightarrow> bool" where
  "writes j w sd es pairs \<longleftrightarrow>
     (case pairs of
        None \<Rightarrow> \<forall>x. \<exists>r. write_out j (w\<lparr>o_fails := x\<rparr>) es sd = Some (Inl r, sd)
      | Some ps \<Rightarrow> \<forall>x. write_out j (w\<lparr>o_fails := x\<rparr>) es sd = Some (commit j (w\<lparr>o_fails := x\<rparr>) ps sd)) "

lemma write_out_writes:
  assumes j: "json_ok j" and s: "store_ok j s d" and u: "usable s = None"
    and alone: "(\<forall>e \<in> set es. en_type e \<noteq> TypeCompaction) \<or> length es = 1"
    and shape: "step_shape es \<or> (\<exists>c. es = [c] \<and> en_type c = TypeCompaction)"
  shows "writes j w (s, d) es None \<or> (\<exists>ps. writes j w (s, d) es (Some ps) \<and> lines_ok j ps \<and>
    accepted (joined (map fst ps) (sv_t s)) \<and> one_unit (map fst ps))"
proof -
  let ?t = "sv_t s"
  have a: "accepted ?t" using s by (simp add: store_ok_def)
  have al: "compaction_alone ?t ?t es" using alone by simp
  obtain b where b: "write_batch j w ?t [] 0 (t_last ?t) (pairing_after (t_last ?t)) es = Some b"
    "\<forall>pairs last_open. b = Inr (pairs, last_open) \<longrightarrow>
       accepted (joined (map fst pairs) ?t) \<and> last_open = pairing_after (t_last (joined (map fst pairs) ?t)) \<and>
       list_all2 same_kind (map fst pairs) es \<and> (\<forall>(b, l) \<in> set pairs. line_ok j b l)"
    using write_batch_ok [OF j a, of ?t "[]", OF _ a leaf_text [OF j s] al, of w 0] by auto
  have w: "write_out j (w\<lparr>o_fails := x\<rparr>) es (s, d) = Some (case b of Inl err \<Rightarrow> (Inl err, s, d)
      | Inr (written, open') \<Rightarrow>
          if open' \<noteq> None then (Inl CallsUnanswered, s, d) else commit j (w\<lparr>o_fails := x\<rparr>) written (s, d))" for x
    using b(1) by (simp add: write_out_def del: not_None_eq)
  show ?thesis
  proof (cases "\<exists>pairs. b = Inr (pairs, None)")
    case False
    then have "writes j w (s, d) es None" using w by (auto simp: writes_def split: sum.splits)
    then show ?thesis by blast
  next
    case True
    then obtain pairs where p: "b = Inr (pairs, None)" by blast
    note f = b(2) [rule_format, OF p]
    have "one_unit (map fst pairs)"
      using shape step_one_unit [of es "map fst pairs" ?t] compaction_one_unit f by auto
    moreover have "writes j w (s, d) es (Some pairs)" using w p by (simp add: writes_def)
    ultimately show ?thesis using f by (auto simp: lines_ok_def)
  qed
qed

text \<open>An operation, as a function of the fate of its write, that writes one batch or nothing.\<close>

definition writes_one :: "json \<Rightarrow> write_env \<Rightarrow> store \<Rightarrow> disk \<Rightarrow> (nat option \<Rightarrow> 'a store_result option) \<Rightarrow> bool" where
  "writes_one j w s d oper \<longleftrightarrow>
     (\<forall>x. \<exists>r s'. oper x = Some (r, s', d) \<and> sv_t s' = sv_t s) \<or>
     usable s = None \<and> (\<exists>ps. lines_ok j ps \<and> accepted (joined (map fst ps) (sv_t s)) \<and> one_unit (map fst ps) \<and>
       (\<forall>x. \<exists>r s' r0 s0 d'. commit j (w\<lparr>o_fails := x\<rparr>) ps (s, d) = (r0, s0, d') \<and>
         oper x = Some (r, s', d') \<and> sv_t s' = sv_t s0))"

lemma writes_one_quiet: "(\<And>x. \<exists>r s'. oper x = Some (r, s', d) \<and> sv_t s' = sv_t s) \<Longrightarrow> writes_one j w s d oper"
  by (simp add: writes_one_def)

lemma writes_one_map:
  assumes o': "writes_one j w s d oper" and f: "\<And>r s' d'. \<exists>r1 s1. f (r, s', d') = (r1, s1, d') \<and> sv_t s1 = sv_t s'"
  shows "writes_one j w s d (\<lambda>x. map_option f (oper x))"
  using o' unfolding writes_one_def
proof (elim disjE conjE exE)
  assume q: "\<forall>x. \<exists>r s'. oper x = Some (r, s', d) \<and> sv_t s' = sv_t s"
  have "\<exists>r s'. map_option f (oper x) = Some (r, s', d) \<and> sv_t s' = sv_t s" for x
  proof -
    obtain r s' where "oper x = Some (r, s', d)" "sv_t s' = sv_t s" using q by blast
    with f [of r s' d] show ?thesis by auto
  qed
  then show "(\<forall>x. \<exists>r s'. map_option f (oper x) = Some (r, s', d) \<and> sv_t s' = sv_t s) \<or>
     usable s = None \<and> (\<exists>ps. lines_ok j ps \<and> accepted (joined (map fst ps) (sv_t s)) \<and> one_unit (map fst ps) \<and>
       (\<forall>x. \<exists>r s' r0 s0 d'. commit j (w\<lparr>o_fails := x\<rparr>) ps (s, d) = (r0, s0, d') \<and>
         map_option f (oper x) = Some (r, s', d') \<and> sv_t s' = sv_t s0))" by blast
next
  fix ps
  assume ps: "usable s = None" "lines_ok j ps" "accepted (joined (map fst ps) (sv_t s))" "one_unit (map fst ps)"
    and c: "\<forall>x. \<exists>r s' r0 s0 d'. commit j (w\<lparr>o_fails := x\<rparr>) ps (s, d) = (r0, s0, d') \<and>
      oper x = Some (r, s', d') \<and> sv_t s' = sv_t s0"
  have "\<exists>r s' r0 s0 d'. commit j (w\<lparr>o_fails := x\<rparr>) ps (s, d) = (r0, s0, d') \<and>
      map_option f (oper x) = Some (r, s', d') \<and> sv_t s' = sv_t s0" for x
  proof -
    obtain r s' r0 s0 d' where x: "commit j (w\<lparr>o_fails := x\<rparr>) ps (s, d) = (r0, s0, d')" "oper x = Some (r, s', d')"
      "sv_t s' = sv_t s0" using c by blast
    obtain r1 s1 where "f (r, s', d') = (r1, s1, d')" "sv_t s1 = sv_t s'" using f by blast
    with x show ?thesis by auto
  qed
  with ps show "(\<forall>x. \<exists>r s'. map_option f (oper x) = Some (r, s', d) \<and> sv_t s' = sv_t s) \<or>
     usable s = None \<and> (\<exists>ps. lines_ok j ps \<and> accepted (joined (map fst ps) (sv_t s)) \<and> one_unit (map fst ps) \<and>
       (\<forall>x. \<exists>r s' r0 s0 d'. commit j (w\<lparr>o_fails := x\<rparr>) ps (s, d) = (r0, s0, d') \<and>
         map_option f (oper x) = Some (r, s', d') \<and> sv_t s' = sv_t s0))" by blast
qed

lemma write_out_one:
  assumes "json_ok j" and "store_ok j s d" and "usable s = None"
    and "(\<forall>e \<in> set es. en_type e \<noteq> TypeCompaction) \<or> length es = 1"
    and "step_shape es \<or> (\<exists>c. es = [c] \<and> en_type c = TypeCompaction)"
  shows "writes_one j w s d (\<lambda>x. write_out j (w\<lparr>o_fails := x\<rparr>) es (s, d))"
  using write_out_writes [OF assms, of w]
proof (elim disjE exE conjE)
  assume "writes j w (s, d) es None"
  then have "\<exists>r s'. write_out j (w\<lparr>o_fails := x\<rparr>) es (s, d) = Some (r, s', d) \<and> sv_t s' = sv_t s" for x
    unfolding writes_def option.case by blast
  then show ?thesis by (rule writes_one_quiet)
next
  fix ps
  assume p: "writes j w (s, d) es (Some ps)" "lines_ok j ps" "accepted (joined (map fst ps) (sv_t s))" "one_unit (map fst ps)"
  have "\<exists>r s' r0 s0 d'. commit j (w\<lparr>o_fails := x\<rparr>) ps (s, d) = (r0, s0, d') \<and>
      write_out j (w\<lparr>o_fails := x\<rparr>) es (s, d) = Some (r, s', d') \<and> sv_t s' = sv_t s0" for x
  proof -
    obtain r0 s0 d' where "commit j (w\<lparr>o_fails := x\<rparr>) ps (s, d) = (r0, s0, d')"
      by (cases "commit j (w\<lparr>o_fails := x\<rparr>) ps (s, d)")
    with p(1) show ?thesis by (simp add: writes_def)
  qed
  with p assms(3) show ?thesis unfolding writes_one_def by blast
qed

lemma append_step_writes:
  assumes j: "json_ok j" and s: "store_ok j s d"
  shows "writes_one j w s d (\<lambda>x. append_step_led j (w\<lparr>o_fails := x\<rparr>) leads answer tool (s, d))"
proof (cases "list_all check_lead leads \<and> check_message answer RoleAssistant \<and>
    \<not> (case tool of None \<Rightarrow> False | Some m \<Rightarrow> \<not> check_message m RoleTool) \<and> has_output (me_message answer) \<and>
    usable s = None \<and> (t_entries (sv_t s) \<noteq> [] \<or> sv_users s \<noteq> [])")
  case False
  then show ?thesis by (intro writes_one_quiet) (auto simp: append_step_led_def split: option.splits if_splits)
next
  case True
  have h: "held_ok s" using s by (simp add: store_ok_def)
  have roles: "m_role (me_message answer) = RoleAssistant" "\<forall>m. tool = Some m \<longrightarrow> m_role (me_message m) = RoleTool"
    using True by (auto simp: check_message_def)
  note sh = step_batch_shape [OF h conjunct1 [OF True] roles, of w]
  have u: "usable s = None" using True by blast
  have app: "append_step_led j (w\<lparr>o_fails := x\<rparr>) leads answer tool (s, d) = map_option (\<lambda>(r, s', d').
         case r of
           Inl err \<Rightarrow> (Inl err, s', d')
         | Inr batch \<Rightarrow> (Inr (map en_id batch), s'\<lparr>sv_resume := None, sv_users := [], sv_changes := []\<rparr>, d'))
         (write_out j (w\<lparr>o_fails := x\<rparr>) (step_batch w s leads answer tool) (s, d))" for x
    using True by (cases "t_entries (sv_t s) = []") (simp_all add: append_step_led_def)
  show ?thesis unfolding app
    by (rule writes_one_map [OF write_out_one [OF j s u disjI1 [OF sh(2)] disjI1 [OF sh(1)]]]) (simp split: sum.split)
qed

lemma unit_outcome_keeps: "\<exists>r1 s1. unit_outcome (r, s', d') = (r1, s1, d') \<and> sv_t s1 = sv_t s'"
  by (simp add: unit_outcome_def)

lemma run_op_writes:
  assumes j: "json_ok j" and s: "store_ok j s d"
  shows "writes_one j w s d (\<lambda>x. run_op j (w\<lparr>o_fails := x\<rparr>) oper (s, d))"
proof (cases oper)
  case (AppendUser e)
  then show ?thesis by (intro writes_one_quiet) (simp add: run_op_def append_user_def split: option.split)
next
  case DiscardHeldUsers
  then show ?thesis by (intro writes_one_quiet) (simp add: run_op_def discard_held_users_def)
next
  case (AppendModelChange m)
  then show ?thesis by (intro writes_one_quiet) (simp add: run_op_def append_model_change_def hold_change_def split: option.split)
next
  case (AppendEffortChange e)
  then show ?thesis by (intro writes_one_quiet) (simp add: run_op_def append_effort_change_def hold_change_def split: option.split)
next
  case (AppendModeChange m)
  then show ?thesis by (intro writes_one_quiet) (simp add: run_op_def append_mode_change_def hold_change_def split: option.split)
next
  case (AppendStepLed leads answer tool)
  from writes_one_map [OF append_step_writes [OF j s] unit_outcome_keeps] show ?thesis
    by (simp add: AppendStepLed run_op_def)
next
  case (AppendAnswerLed leads answer)
  show ?thesis
  proof (cases "check_message answer RoleAssistant \<and> has_text (me_message answer)")
    case True
    then have "append_answer_led j w' leads answer (s, d) = append_step_led j w' leads answer None (s, d)" for w'
      by (simp add: append_answer_led_def)
    with writes_one_map [OF append_step_writes [OF j s] unit_outcome_keeps] show ?thesis
      by (simp add: AppendAnswerLed run_op_def)
  next
    case False
    then show ?thesis
      by (intro writes_one_quiet) (auto simp: AppendAnswerLed run_op_def append_answer_led_def unit_outcome_def)
  qed
next
  case (AppendCompaction turn m u c)
  let ?e = "compaction_line (o_clock w 0) turn m u c"
  show ?thesis
  proof (cases "check_compaction (compaction_line 0 turn m u c) \<and> usable s = None \<and> t_entries (sv_t s) \<noteq> []")
    case False
    then show ?thesis
      by (intro writes_one_quiet) (auto simp: AppendCompaction run_op_def append_compaction_def unit_outcome_def split: option.split)
  next
    case True
    then have us: "usable s = None" by blast
    have ty: "en_type ?e = TypeCompaction" by (simp add: compaction_line_def)
    have sh: "step_shape [?e] \<or> (\<exists>c. [?e] = [c] \<and> en_type c = TypeCompaction)" using ty by blast
    have al: "(\<forall>e \<in> set [?e]. en_type e \<noteq> TypeCompaction) \<or> length [?e] = 1" by simp
    have app: "run_op j (w\<lparr>o_fails := x\<rparr>) oper (s, d) = map_option (\<lambda>(r, s', d'). (map_sum id (\<lambda>_. ()) r, s', d'))
        (write_out j (w\<lparr>o_fails := x\<rparr>) [?e] (s, d))" for x
      using True by (auto simp: AppendCompaction run_op_def append_compaction_def unit_outcome_def option.map_comp comp_def
          split: prod.split sum.split option.split intro!: map_option_cong)
    show ?thesis unfolding app by (rule writes_one_map [OF write_out_one [OF j s us al sh]]) simp
  qed
next
  case CloseStore
  then show ?thesis by (intro writes_one_quiet) (simp add: run_op_def close_store_def)
qed

section \<open>The promises\<close>

lemma steps_total: "tree_ok t \<Longrightarrow> \<exists>x. tree_walk t leaf = Some x"
  by (rule walk_path(1))

lemma joined_file:
  assumes j: "json_ok j" and s: "store_ok j s d" "\<not> sv_failed s" and d: "dk_file d = Some data"
  shows "\<exists>t. load j data = Some (Inr t) \<and> t_entries t = t_entries (sv_t s)"
proof -
  have "holds_file j s data" using s d by (simp add: store_ok_def)
  then obtain hdr kept where f: "file_parts j data hdr kept [] 0" "map fst kept = t_entries (sv_t s)"
    using s(2) by (rule holds_clean)
  have "survivors kept [] 0 = kept" by (simp add: survivors_def)
  with load_parts [OF f(1)] f(2) show ?thesis by metis
qed

text \<open>C1. Crash atomicity of an append. Take any session a process can reach, whose file exists and whose store has not
  failed, and any operation. Let its one write be cut after n bytes, by a failure or by the process stopping there. Then
  the file loads, and what it loads to is the transcript as it was before the operation, or, when all the operation's
  bytes but the final newline are there, the transcript as the whole operation leaves it; never anything between.\<close>

theorem crash_keeps_whole_units:
  assumes j: "json_ok j" and r: "session j (Some s, d)" and d: "dk_file d = Some data" and f: "\<not> sv_failed s"
    and all: "run_op j (w\<lparr>o_fails := None\<rparr>) oper (s, d) = Some (r2, s2, d2)" "dk_file d2 = Some data2"
    and cut': "run_op j (w\<lparr>o_fails := Some n\<rparr>) oper (s, d) = Some (r1, s1, d1)" "dk_file d1 = Some data1"
  shows "\<exists>t. load j data1 = Some (Inr t) \<and>
    t_entries t = t_entries (sv_t (if length data2 \<le> Suc (length data + n) then s2 else s))"
proof -
  have s: "store_ok j s d" by (rule session_ok(2) [OF j r refl])
  note clean = joined_file [OF j s f d]
  from run_op_writes [OF j s, of w oper] show ?thesis unfolding writes_one_def
  proof (elim disjE conjE exE)
    assume q: "\<forall>x. \<exists>r s'. run_op j (w\<lparr>o_fails := x\<rparr>) oper (s, d) = Some (r, s', d) \<and> sv_t s' = sv_t s"
    from q [rule_format, of None] all d have "data2 = data" "sv_t s2 = sv_t s" by auto
    moreover from q [rule_format, of "Some n"] cut' d have "data1 = data" by auto
    ultimately show ?thesis using clean by auto
  next
    fix ps
    assume u: "usable s = None" and ps: "lines_ok j ps" "accepted (joined (map fst ps) (sv_t s))" "one_unit (map fst ps)"
      and c: "\<forall>x. \<exists>r s' r0 s0 d'. commit j (w\<lparr>o_fails := x\<rparr>) ps (s, d) = (r0, s0, d') \<and>
        run_op j (w\<lparr>o_fails := x\<rparr>) oper (s, d) = Some (r, s', d') \<and> sv_t s' = sv_t s0"
    have op': "sv_open s" using s d u by (auto simp: store_ok_def usable_None)
    have "holds_file j s data" using s d by (simp add: store_ok_def)
    then obtain hdr kept where h: "file_parts j data hdr kept [] 0" "map fst kept = t_entries (sv_t s)"
      "data = lines_bytes (hdr # map snd kept)" using f by (rule holds_clean)
    from c [rule_format, of None] all op' d
    have two: "data2 = data @ lines_bytes (map snd ps)" "t_entries (sv_t s2) = map fst (kept @ ps)"
      using h(2) by (auto simp: commit_def Let_def)
    have ne: "ps \<noteq> []" using ps(3) by (auto simp: one_unit_def)
    have len: "2 \<le> length (lines_bytes (map snd ps))"
    proof (cases ps)
      case (Cons p ps')
      then have "snd p \<noteq> []" using ps(1) by (auto simp: lines_ok_def line_ok_def)
      then show ?thesis using Cons by (cases "snd p") auto
    qed (use ne in simp)
    show ?thesis
    proof (cases "n = 0")
      case True
      from c [rule_format, of "Some n"] cut' op' d True have "data1 = data" by (auto simp: commit_def Let_def)
      with clean True two(1) len show ?thesis by auto
    next
      case False
      from c [rule_format, of "Some n"] cut' op' d False have "data1 = data @ take n (lines_bytes (map snd ps))"
        by (auto simp: commit_def Let_def)
      moreover have "file_parts j (data @ take n (lines_bytes (map snd ps))) hdr kept ps n"
        using h ps exI [of "\<lambda>t. accepted t \<and> t_entries t = map fst (kept @ ps)" "joined (map fst ps) (sv_t s)"]
        by (auto simp: file_parts_def)
      ultimately obtain t where t: "load j data1 = Some (Inr t)" "t_entries t = map fst (survivors kept ps n)"
        using load_parts by metis
      have "reaches n ps \<longleftrightarrow> length data2 \<le> Suc (length data + n)" using two(1) ne by simp
      then have "map fst (survivors kept ps n) = t_entries (sv_t (if length data2 \<le> Suc (length data + n) then s2 else s))"
        using two(2) h(2) survivors_simps [of ps n kept] by (cases "reaches n ps") simp_all
      with t show ?thesis by auto
    qed
  qed
qed

text \<open>C4. What a store holds in memory is what its file says. In every session a process can reach whose store has not
  failed, loading the file's bytes succeeds and gives exactly the entries the store holds, in order.\<close>

theorem memory_is_the_file:
  assumes "json_ok j" and "session j (Some s, d)" and "\<not> sv_failed s" and "dk_file d = Some data"
  shows "\<exists>t. load j data = Some (Inr t) \<and> t_entries t = t_entries (sv_t s)"
  using joined_file session_ok(2) assms by blast

text \<open>C3. A session that can be resumed opens again. Whatever its store did before, and wherever the process stopped, in
  the middle of a write too, opening its file (when no other process has it, the options name it, and the file system
  does as asked) has one of three outcomes, and it is never corrupt and never a newer version's. A sub-agent's session
  is not resumable: it is refused as that, and nothing changes. A root session opens: the store holds exactly what the
  file loaded to, and the file is as it was, or ended by a newline, or cut with what was cut in a copy beside it that
  did not exist before, so every byte it had is still held. Or, when a copy already stands at the name this one would
  be written to, opening fails at that and nothing changes.\<close>

theorem session_opens_again:
  assumes j: "json_ok j" and r: "session j (so, d)" and d: "dk_file d = Some data"
    and h: "decode_header j (hd (file_lines data)) = Some h" "op_session opts \<in> {[], h_id h}" "op_workspace opts \<in> {[], h_cwd h}"
    and io: "\<forall>st. \<not> fails st"
  shows "\<exists>t. load j data = Some (Inr t) \<and>
    (if h_parent_session h \<noteq> [] then open_store j fails now False opts d = Some (Inl ErrNotResumable, d)
     else (\<exists>s d' file. open_store j fails now False opts d = Some (Inr s, d') \<and>
         t_entries (sv_t s) = t_entries t \<and> dk_file d' = Some file \<and>
         ((dk_torn d' = dk_torn d \<and> (file = data \<or> file = data @ [newline])) \<or>
          (\<exists>cut'. dk_torn d = None \<and> dk_torn d' = Some cut' \<and> data = file @ cut'))) \<or>
       (dk_torn d \<noteq> None \<and> open_store j fails now False opts d = Some (Inl (RepairFails TornWrite), d)))"
proof -
  obtain hdr kept tail n where f: "file_parts j data hdr kept tail n"
    using session_ok(1) [OF j r] d by (auto simp: file_ok_def)
  have "hd (file_lines data) = hdr" using file_parts_lines [OF f] by auto
  then have hd: "decode_header j hdr = Some h" using h(1) by simp
  obtain t where t: "load j data = Some (Inr t)" "t_entries t = map fst (survivors kept tail n)"
    by (rule load_parts [OF f])
  show ?thesis
  proof (cases "h_parent_session h = []")
    case False
    with t(1) open_parts(6) [OF f d hd] show ?thesis by auto
  next
    case True
    from open_parts(4) [where busy = False and now = now, OF f d hd True h(2,3) _ io]
    consider (opens) s d' where "open_store j fails now False opts d = Some (Inr s, d')"
      | (torn) "dk_torn d \<noteq> None" "open_store j fails now False opts d = Some (Inl (RepairFails TornWrite), d)" by auto
    then show ?thesis
    proof cases
      case opens
      with open_parts(3,5) [OF f d opens] t True show ?thesis by auto
    next
      case torn
      with t(1) True show ?thesis by auto
    qed
  qed
qed

text \<open>C2. Every history is well paired. Whatever the bytes of a session file, if they load, then the messages a request
  sends from any entry, to any model, answer every tool call in the message right after it, with exactly its calls in
  order, and no result stands without its call, provided the renderer renders reminders and summaries as user messages.
  So no request is refused for its pairing, whatever crash, compaction or branch made the file.\<close>

theorem context_is_paired:
  assumes "load j data = Some (Inr t)" and "render_ok (t\<lparr>t_render := r\<rparr>)"
    and "context_at (t\<lparr>t_render := r\<rparr>) leaf current = Some (Inr msgs)"
  shows "well_paired (map fst msgs)"
  using context_paired(2) [OF accepted_render [OF load_accepted(2)]] assms by blast

text \<open>C8. Reading and walking always return. Loading any bytes returns, and in what it loads every walk from every leaf
  does: a transcript has no cycle, whatever the file says.\<close>

theorem reading_returns:
  "case load j data of
     None \<Rightarrow> False
   | Some (Inl _) \<Rightarrow> True
   | Some (Inr t) \<Rightarrow> branch t leaf \<noteq> None \<and> context_at t leaf current \<noteq> None \<and> steps_at t leaf current \<noteq> None \<and>
       frontier_at t leaf current \<noteq> None"
proof (cases "load j data")
  case None
  then show ?thesis using load_accepted(1) by blast
next
  case (Some r)
  show ?thesis
  proof (cases r)
    case (Inr t)
    then have "tree_ok t" using load_accepted(2) Some by (auto simp: accepted_def)
    from steps_total [OF this, of leaf] obtain x where "tree_walk t leaf = Some x" by blast
    then show ?thesis using Some Inr
      by (simp add: branch_def context_at_def steps_at_def frontier_at_def context_entries_def)
  qed (use Some in simp)
qed

text \<open>C5. A compaction keeps its tail. Group a loaded transcript's context into steps and append a successful compaction
  that keeps from the k-th of them. The next context is then the compaction's summary, as the renderer writes it, and
  after it exactly the messages of the steps from the k-th on, in order and none twice, and those of the entries no step
  ends yet, less the messages at the end nothing answers.\<close>

theorem compaction_keeps_tail:
  assumes l: "load j data = Some (Inr t0)" and t: "t = t0\<lparr>t_render := r\<rparr>"
    and ss: "steps_at t (en_parent e) current = Some (Inr ss)" and k: "k < length ss"
    and e: "cuts e" "cp_first_kept (en_compaction e) = sp_first (ss ! k)" and c: "t_check t e = None" "en_id e \<noteq> []"
  shows "\<exists>loose tail. (\<forall>x \<in> set loose. \<not> step_end (Some x)) \<and>
    map fst tail = concat (map sp_messages (drop k ss)) @ map fst (messages_of t loose current) \<and>
    context_at (t_add e t) (en_id e) current = Some (Inr
      (let head = (case rd_summary (t_render t) of None \<Rightarrow> [] | Some f \<Rightarrow> [(f (en_compaction e), True)])
       in trim_unanswered (length head) (head @ tail)))"
proof -
  have "accepted t" unfolding t by (rule accepted_render [OF load_accepted(2) [OF l]])
  from compaction_context [OF this ss k e c] obtain loose where "\<forall>x \<in> set loose. \<not> step_end (Some x)"
    and "map fst (messages_of t (concat (map sp_entries (drop k ss)) @ loose) current) =
      concat (map sp_messages (drop k ss)) @ map fst (messages_of t loose current)"
    and "context_at (t_add e t) (en_id e) current = Some (Inr
      (let head = (case rd_summary (t_render t) of None \<Rightarrow> [] | Some f \<Rightarrow> [(f (en_compaction e), True)])
       in trim_unanswered (length head) (head @ messages_of t (concat (map sp_entries (drop k ss)) @ loose) current)))"
    by metis
  then show ?thesis by blast
qed

text \<open>C6. A context's size counts each message once. A loaded transcript has no frontier exactly when every answer with
  reported usage on the branch was followed by a successful compaction. When it has one, its entry is the last such answer
  on the branch, and no successful compaction comes after it: it was written after the latest one, and is none of that
  one's tail. The context is then what that answer's request covered, up to and with the answer, and exactly the
  frontier's messages after it (or, when those are all unanswered, the covered part alone, trimmed as ever).\<close>

theorem frontier_splits_context:
  assumes l: "load j data = Some (Inr t0)" and t: "t = t0\<lparr>t_render := r\<rparr>"
    and f: "frontier_at t leaf current = Some (Inr fr)"
  shows "case fr of
      None \<Rightarrow> \<exists>es. branch t leaf = Some (Inr es) \<and>
        (\<forall>before x after. es = before @ x # after \<and> asked_usage x \<longrightarrow> (\<exists>y \<in> set after. cuts y))
    | Some f \<Rightarrow> \<exists>before c upto after. branch t leaf = Some (Inr (before @ f_entry f # after)) \<and>
        asked_usage (f_entry f) \<and> (\<forall>x \<in> set after. \<not> asked_usage x \<and> \<not> cuts x) \<and>
        context_entries t leaf = Some (Inr (c, upto @ f_entry f # after)) \<and>
        context_at t leaf current = Some (Inr
          (let head = (case (c, rd_summary (t_render t)) of (Some c, Some s) \<Rightarrow> [(s (en_compaction c), True)] | _ \<Rightarrow> []);
               sent = head @ messages_of t (upto @ [f_entry f]) current
           in if f_after f = [] then trim_unanswered (length head) sent else sent @ f_after f))"
proof (cases fr)
  case None
  with f obtain es where "branch t leaf = Some (Inr es)"
    "\<And>before x after. es = before @ x # after \<Longrightarrow> asked_usage x \<Longrightarrow> \<exists>y \<in> set after. cuts y"
    using frontier_none [of t leaf current] by auto
  with None show ?thesis by auto
next
  case (Some g)
  have "accepted t" unfolding t by (rule accepted_render [OF load_accepted(2) [OF l]])
  from frontier_context [OF this f [unfolded Some]] show ?thesis unfolding Some option.case by metis
qed

text \<open>C9. A cut within a budget above zero keeps the longest tail of whole steps that fits it: the steps from the cut on
  fit, and those from one step earlier do not. (A budget of zero keeps nothing, which \<open>Cut\<close> treats apart.)\<close>

theorem cut_is_the_longest_tail:
  assumes "0 < budget"
  shows "cut_steps steps budget size' \<le> length steps \<and>
    tail_size size' (drop (cut_steps steps budget size') steps) \<le> budget \<and>
    (0 < cut_steps steps budget size' \<longrightarrow> budget < tail_size size' (drop (cut_steps steps budget size' - 1) steps))"
  by (rule cut_steps_tail [OF assms])

text \<open>C7. What a store writes is typed. In every session a process can reach, the store's entries form a tree whose ids are
  distinct and not empty and whose parents come first, every message among them has the parts its role allows, every
  entry kept the pairing with the line before it, and the last one ends a step or is a compaction.\<close>

theorem store_is_well_formed:
  assumes "json_ok j" and "session j (Some s, d)"
  shows "tree_ok (sv_t s) \<and> whole (t_entries (sv_t s)) \<and>
    (\<forall>i < length (t_entries (sv_t s)).
       (en_type (at (sv_t s) i) = TypeMessage \<longrightarrow> check_parts (en_message (at (sv_t s) i)) = None) \<and>
       pair_check (pairing_after (line_before (sv_t s) i)) (at (sv_t s) i) (t_entry (sv_t s) (en_parent (at (sv_t s) i))) = None)"
proof -
  have s: "store_ok j s d" by (rule session_ok(2) [OF assms refl])
  then have a: "accepted (sv_t s)" by (simp add: store_ok_def)
  have "whole (t_entries (sv_t s))"
  proof (cases "dk_file d")
    case None
    then show ?thesis using s by (simp add: store_ok_def whole_def)
  next
    case (Some data)
    then have "holds_file j s data" using s by (simp add: store_ok_def)
    then obtain hdr kept tail n where "file_parts j data hdr kept tail n" "map fst kept = t_entries (sv_t s)"
      unfolding holds_file_def by blast
    then show ?thesis by (metis file_parts_def)
  qed
  then show ?thesis using a accepted_checks [OF a] pair_check_parts by (auto simp: accepted_def)
qed

section \<open>A session, step by step\<close>

text \<open>A codec of four lines, for a session of two short turns.\<close>

definition demo_header :: header where
  "demo_header =
     \<lparr>h_version = FormatVersion, h_id = ''s'', h_time = 0, h_cwd = ''/w'',
      h_contract = \<lparr>ct_version = [], ct_prompt = [], ct_profile = [], ct_tools = []\<rparr>, h_parent_session = [],
      h_parent_call = [], h_subagent = [], h_persona = []\<rparr>"

definition demo_model :: model_ref where
  "demo_model = \<lparr>md_provider = ''p'', md_alias = ''a'', md_wire = ''w''\<rparr>"

definition demo_user :: message_entry where
  "demo_user = zero_message_entry\<lparr>me_message := user_message ''hi'', me_model := demo_model\<rparr>"

definition demo_answer :: message_entry where
  "demo_answer = zero_message_entry\<lparr>
     me_message := \<lparr>m_role = RoleAssistant, m_content = [PText ''yes''], m_options = []\<rparr>, me_model := demo_model,
     me_usage := Some zero_usage\<rparr>"

definition demo_entry :: "message_entry \<Rightarrow> string \<Rightarrow> string \<Rightarrow> entry" where
  "demo_entry m i p = (message_line 0 m)\<lparr>en_id := i, en_parent := p\<rparr>"

definition demo_table :: "(entry \<times> string) list" where
  "demo_table =
     [(demo_entry demo_user ''00000000'' [], ''{u}''), (demo_entry demo_answer ''00000001'' ''00000000'', ''{a}''),
      (demo_entry demo_user ''00000002'' ''00000001'', ''{v}''), (demo_entry demo_answer ''00000003'' ''00000002'', ''{b}'')]"

definition demo_find :: "string \<Rightarrow> entry option" where
  "demo_find l = map_option fst (List.find (\<lambda>p. snd p = l) demo_table)"

definition demo_json :: json where
  "demo_json =
     \<lparr>js_text = (\<lambda>_. True), js_header_line = (\<lambda>_. ''{s}''),
      js_header = (\<lambda>l. if l = ''{s}'' then Some \<lparr>hj_type = typeSession, hj_time = Some 0, hj_header = demo_header\<rparr> else None),
      js_line = map_of demo_table,
      js_envelope = (\<lambda>l. map_option (\<lambda>e. \<lparr>v_type = type_name (en_type e), v_id = en_id e,
        v_parent = (if en_parent e = [] then None else Some (en_parent e)), v_time = Some (en_time e)\<rparr>) (demo_find l)),
      js_message = (\<lambda>l. map_option (\<lambda>e. \<lparr>mj_entry = en_entry e, mj_turn = Absent, mj_todos = Absent\<rparr>) (demo_find l)),
      js_model = (\<lambda>_. None), js_effort = (\<lambda>_. None), js_mode = (\<lambda>_. None), js_resume = (\<lambda>_. None),
      js_reminder = (\<lambda>_. None), js_compaction = (\<lambda>_. None),
      js_object = (\<lambda>l. map_option (\<lambda>e. Field (type_name (en_type e))) (demo_find l))\<rparr>"

definition demo_env :: write_env where
  "demo_env = \<lparr>o_draw = word_of_nat, o_clock = (\<lambda>_. 0), o_fails = None\<rparr>"

definition demo_disk :: disk where
  "demo_disk = \<lparr>dk_file = None, dk_torn = None\<rparr>"

definition demo_run :: "nat option \<Rightarrow> store_op \<Rightarrow> store \<times> disk \<Rightarrow> store \<times> disk" where
  "demo_run fails oper sd = snd (the (run_op demo_json (demo_env\<lparr>o_fails := fails\<rparr>) oper sd))"

definition demo_turn :: "store \<times> disk \<Rightarrow> store \<times> disk" where
  "demo_turn sd = demo_run None (AppendStepLed [] demo_answer None) (demo_run None (AppendUser demo_user) sd)"

definition demo_start :: "store \<times> disk" where
  "demo_start = (new_store demo_header no_renderer, demo_disk)"

lemma demo_envelope: "js_envelope demo_json l = Some v \<Longrightarrow> length l = 3"
  by (auto simp: demo_json_def demo_find_def demo_table_def split: if_splits)

lemma demo_lines: "json_lines demo_json"
proof -
  have short: "js_envelope demo_json p = None \<and> js_object demo_json p = None" if "strict_prefix p l" "length l = 3" for p l
  proof -
    have "length p < 3" using prefix_length_less [OF that(1)] that(2) by simp
    then have "demo_find p = None" by (auto simp: demo_find_def demo_table_def)
    then show ?thesis by (simp add: demo_json_def)
  qed
  have "js_line demo_json e = Some l \<Longrightarrow> (e, l) \<in> set demo_table" for e l
    by (simp add: demo_json_def map_of_SomeD)
  moreover have "newline \<notin> set l \<and> l \<noteq> [] \<and> length l = 3 \<and> js_object demo_json l = Some (Field (type_name (en_type e))) \<and>
      (\<exists>v. js_envelope demo_json l = Some v \<and> v_type v = type_name (en_type e) \<and> v_id v = en_id e \<and>
           v_parent v = (if en_parent e = [] then None else Some (en_parent e))) \<and>
      (\<forall>m. js_message demo_json l = Some m \<longrightarrow> m_role (me_message (mj_entry m)) = en_role e)"
    if "(e, l) \<in> set demo_table" for e l
  proof -
    have "demo_find l = Some e" using that by (auto simp: demo_find_def demo_table_def)
    moreover have "newline \<notin> set l \<and> l \<noteq> [] \<and> length l = 3" using that by (auto simp: demo_table_def)
    ultimately show ?thesis by (simp add: demo_json_def)
  qed
  ultimately show ?thesis unfolding json_lines_def using short by blast
qed

lemma demo_ok: "json_ok demo_json"
proof -
  have "json_ids demo_json" by (simp add: json_ids_def demo_json_def)
  moreover have "json_headers demo_json"
    by (simp add: json_headers_def demo_json_def Let_def demo_header_def)
  ultimately show ?thesis using demo_lines by (simp add: json_ok_def)
qed

lemma demo_starts: "session demo_json (Some (fst demo_start), snd demo_start)"
  unfolding demo_start_def fst_conv snd_conv
  by (rule session.starts) (simp_all add: demo_header_def demo_disk_def)

lemma demo_runs:
  assumes "session demo_json (Some s, d)"
  shows "\<exists>r. run_op demo_json (demo_env\<lparr>o_fails := x\<rparr>) oper (s, d) =
      Some (r, fst (demo_run x oper (s, d)), snd (demo_run x oper (s, d)))"
    and "session demo_json (Some (fst (demo_run x oper (s, d))), snd (demo_run x oper (s, d)))"
proof -
  have "store_ok demo_json s d" by (rule session_ok(2) [OF demo_ok assms refl])
  from run_op_ok(1) [OF demo_ok this] obtain r s' d' where
    r: "run_op demo_json (demo_env\<lparr>o_fails := x\<rparr>) oper (s, d) = Some (r, s', d')" by (metis not_None_eq prod_cases3)
  then have e: "demo_run x oper (s, d) = (s', d')" by (simp add: demo_run_def)
  from r e show "\<exists>r. run_op demo_json (demo_env\<lparr>o_fails := x\<rparr>) oper (s, d) =
      Some (r, fst (demo_run x oper (s, d)), snd (demo_run x oper (s, d)))" by simp
  from session.runs [OF assms r] e show "session demo_json (Some (fst (demo_run x oper (s, d))), snd (demo_run x oper (s, d)))"
    by simp
qed

text \<open>After one turn, with a second prompt held; its step, written whole or cut after five of its eight bytes.\<close>

definition demo_mid :: "store \<times> disk" where
  "demo_mid = demo_run None (AppendUser demo_user) (demo_turn demo_start)"

definition demo_step :: store_op where
  "demo_step = AppendStepLed [] demo_answer None"

lemma demo_mid_session: "session demo_json (Some (fst demo_mid), snd demo_mid)"
proof -
  have *: "session demo_json (Some (fst (demo_run x oper sd)), snd (demo_run x oper sd))"
    if "session demo_json (Some (fst sd), snd sd)" for x oper sd
    using demo_runs(2) [of "fst sd" "snd sd" x oper] that by simp
  show ?thesis unfolding demo_mid_def demo_turn_def by (intro * demo_starts)
qed

definition demo_file1 :: string where
  "demo_file1 = lines_bytes [''{s}'', ''{u}'', ''{a}'']"

definition demo_file2 :: string where
  "demo_file2 = lines_bytes [''{s}'', ''{u}'', ''{a}'', ''{v}'', ''{b}'']"

definition demo_cut :: string where
  "demo_cut = lines_bytes [''{s}'', ''{u}'', ''{a}'', ''{v}''] @ ''{''"

lemma demo_files:
  "dk_file (snd demo_mid) = Some demo_file1" "\<not> sv_failed (fst demo_mid)"
  "dk_file (snd (demo_run None demo_step demo_mid)) = Some demo_file2"
  "dk_file (snd (demo_run (Some 5) demo_step demo_mid)) = Some demo_cut"
  "dk_torn (snd (demo_run (Some 5) demo_step demo_mid)) = None"
  by code_simp+

definition demo_loaded :: transcript where
  "demo_loaded = projr (the (load demo_json demo_file2))"

lemma demo_loads: "load demo_json demo_file2 = Some (Inr demo_loaded)"
proof -
  have "case load demo_json demo_file2 of Some (Inr _) \<Rightarrow> True | _ \<Rightarrow> False" by code_simp
  then show ?thesis unfolding demo_loaded_def by (simp split: option.splits sum.splits)
qed

section \<open>Witnesses\<close>

theorem crash_keeps_whole_units_witness:
  "\<exists>t. load demo_json demo_cut = Some (Inr t) \<and> t_entries t = t_entries (sv_t (fst demo_mid))"
proof -
  obtain s d where m: "demo_mid = (s, d)" by (cases demo_mid)
  have ses: "session demo_json (Some s, d)" by (rule demo_mid_session [unfolded m fst_conv snd_conv])
  obtain r1 r2 where r: "run_op demo_json (demo_env\<lparr>o_fails := None\<rparr>) demo_step (s, d) =
      Some (r2, fst (demo_run None demo_step (s, d)), snd (demo_run None demo_step (s, d)))"
    "run_op demo_json (demo_env\<lparr>o_fails := Some 5\<rparr>) demo_step (s, d) =
      Some (r1, fst (demo_run (Some 5) demo_step (s, d)), snd (demo_run (Some 5) demo_step (s, d)))"
    using demo_runs(1) [OF ses] by metis
  note f = demo_files [unfolded m fst_conv snd_conv]
  have "\<not> length demo_file2 \<le> Suc (length demo_file1 + 5)" by (simp add: demo_file1_def demo_file2_def)
  with crash_keeps_whole_units [OF demo_ok ses f(1,2) r(1) f(3) r(2) f(4)] show ?thesis by (simp add: m)
qed

theorem memory_is_the_file_witness:
  "\<exists>t. load demo_json demo_file1 = Some (Inr t) \<and> t_entries t = t_entries (sv_t (fst demo_mid))"
  by (rule memory_is_the_file [OF demo_ok demo_mid_session demo_files(2,1)])

text \<open>The process stops after five bytes of the second step: the session opens, without it, the five bytes beside it.\<close>

theorem session_opens_again_witness:
  "\<exists>t. load demo_json demo_cut = Some (Inr t) \<and>
    (let opened = open_store demo_json (\<lambda>_. False) 9 False
       \<lparr>op_session = ''s'', op_workspace = ''/w'', op_contract = h_contract demo_header, op_render = no_renderer\<rparr>
       (snd (demo_run (Some 5) demo_step demo_mid)) in
     \<exists>s d' file. opened = Some (Inr s, d') \<and> t_entries (sv_t s) = t_entries t \<and> dk_file d' = Some file \<and>
       (file = demo_cut \<or> file = demo_cut @ [newline] \<or> (\<exists>cut'. dk_torn d' = Some cut' \<and> demo_cut = file @ cut')))"
proof -
  obtain s d where m: "demo_mid = (s, d)" by (cases demo_mid)
  have "session demo_json (Some s, d)" by (rule demo_mid_session [unfolded m fst_conv snd_conv])
  from demo_runs(2) [OF this] have "session demo_json (Some (fst (demo_run (Some 5) demo_step demo_mid)),
      snd (demo_run (Some 5) demo_step demo_mid))" unfolding m .
  moreover have "decode_header demo_json (hd (file_lines demo_cut)) = Some demo_header" by code_simp
  ultimately show ?thesis
    using session_opens_again [OF demo_ok _ demo_files(4), where h = demo_header and now = 9 and fails = "\<lambda>_. False"
      and opts = "\<lparr>op_session = ''s'', op_workspace = ''/w'', op_contract = h_contract demo_header, op_render = no_renderer\<rparr>"]
      demo_files(5)
    by (fastforce simp: demo_header_def)
qed

theorem context_is_paired_witness:
  "well_paired [me_message demo_user, me_message demo_answer, me_message demo_user, me_message demo_answer]"
proof -
  have "render_ok (demo_loaded\<lparr>t_render := no_renderer\<rparr>)" by (simp add: render_ok_def render_reminder_def no_renderer_def)
  moreover have "context_at (demo_loaded\<lparr>t_render := no_renderer\<rparr>) ''00000003'' demo_model =
      Some (Inr (map (\<lambda>m. (me_message m, False)) [demo_user, demo_answer, demo_user, demo_answer]))" by code_simp
  ultimately show ?thesis using context_is_paired [OF demo_loads] by fastforce
qed

theorem store_is_well_formed_witness:
  "tree_ok (sv_t (fst demo_mid)) \<and> whole (t_entries (sv_t (fst demo_mid)))"
  using store_is_well_formed [OF demo_ok demo_mid_session] by blast

theorem cut_is_the_longest_tail_witness:
  "cut_steps [\<lparr>sp_first = ''a'', sp_entries = [], sp_messages = [me_message demo_user]\<rparr>,
      \<lparr>sp_first = ''b'', sp_entries = [], sp_messages = [me_message demo_user]\<rparr>] 7 (\<lambda>_. 5) = 1"
proof -
  let ?steps = "[\<lparr>sp_first = ''a'', sp_entries = [], sp_messages = [me_message demo_user]\<rparr>,
      \<lparr>sp_first = ''b'', sp_entries = [], sp_messages = [me_message demo_user]\<rparr>]"
  have "0 < (7::int)" by simp
  from cut_is_the_longest_tail [OF this, of ?steps "\<lambda>_. 5"] show ?thesis by (simp add: cut_steps_def)
qed

definition demo_compaction :: entry where
  "demo_compaction = (compaction_line 0 1 demo_model zero_usage
     (en_compaction zero_entry\<lparr>cp_summary := ''sum'', cp_first_kept := ''00000002'', cp_reason := CompactionAuto\<rparr>))
       \<lparr>en_id := ''00000009'', en_parent := ''00000003''\<rparr>"

definition demo_render :: renderer where
  "demo_render = \<lparr>rd_reminder = None, rd_summary = Some (\<lambda>c. user_message (cp_summary c))\<rparr>"

definition demo_steps :: "step list" where
  "demo_steps =
     [\<lparr>sp_first = ''00000000'', sp_entries = map fst (take 2 demo_table), sp_messages = [me_message demo_user, me_message demo_answer]\<rparr>,
      \<lparr>sp_first = ''00000002'', sp_entries = map fst (drop 2 demo_table), sp_messages = [me_message demo_user, me_message demo_answer]\<rparr>]"

theorem compaction_keeps_tail_witness:
  "\<exists>loose tail. map fst tail = [me_message demo_user, me_message demo_answer] @ loose \<and>
    context_at (t_add demo_compaction (demo_loaded\<lparr>t_render := demo_render\<rparr>)) ''00000009'' demo_model =
      Some (Inr (trim_unanswered 1 ((user_message ''sum'', True) # tail)))"
proof -
  let ?t = "demo_loaded\<lparr>t_render := demo_render\<rparr>"
  have "steps_at ?t (en_parent demo_compaction) demo_model = Some (Inr demo_steps)" by code_simp
  moreover have "1 < length demo_steps" by (simp add: demo_steps_def)
  moreover have "cuts demo_compaction" by code_simp
  moreover have "cp_first_kept (en_compaction demo_compaction) = sp_first (demo_steps ! 1)" by code_simp
  moreover have "t_check ?t demo_compaction = None" by code_simp
  moreover have "en_id demo_compaction \<noteq> []" by code_simp
  ultimately obtain loose tail where l: "map fst tail = concat (map sp_messages (drop 1 demo_steps)) @ map fst (messages_of ?t loose demo_model)"
    "context_at (t_add demo_compaction ?t) (en_id demo_compaction) demo_model = Some (Inr
      (let head = (case rd_summary (t_render ?t) of None \<Rightarrow> [] | Some f \<Rightarrow> [(f (en_compaction demo_compaction), True)])
       in trim_unanswered (length head) (head @ tail)))"
    using compaction_keeps_tail [OF demo_loads refl, where e = demo_compaction and k = 1] by blast
  have "en_id demo_compaction = ''00000009''" "cp_summary (en_compaction demo_compaction) = ''sum''" by code_simp+
  with l(2) have "context_at (t_add demo_compaction ?t) ''00000009'' demo_model =
      Some (Inr (trim_unanswered 1 ((user_message ''sum'', True) # tail)))"
    by (simp add: demo_render_def)
  moreover have "concat (map sp_messages (drop 1 demo_steps)) = [me_message demo_user, me_message demo_answer]"
    by (simp add: demo_steps_def)
  ultimately show ?thesis using l(1) by metis
qed

theorem frontier_splits_context_witness:
  "\<exists>before c upto after. branch (demo_loaded\<lparr>t_render := no_renderer\<rparr>) ''00000003'' =
      Some (Inr (before @ demo_entry demo_answer ''00000003'' ''00000002'' # after)) \<and> (\<forall>x \<in> set after. \<not> cuts x) \<and>
    context_entries (demo_loaded\<lparr>t_render := no_renderer\<rparr>) ''00000003'' =
      Some (Inr (c, upto @ demo_entry demo_answer ''00000003'' ''00000002'' # after))"
proof -
  have "frontier_at (demo_loaded\<lparr>t_render := no_renderer\<rparr>) ''00000003'' demo_model =
      Some (Inr (Some \<lparr>f_entry = demo_entry demo_answer ''00000003'' ''00000002'', f_after = []\<rparr>))" by code_simp
  from frontier_splits_context [OF demo_loads refl this] show ?thesis by (simp del: split_paired_Ex) blast
qed

end
