(* ===== verification/Asks.thy ===== *)
theory Asks
  imports Receipts Receipt_Hash Event_Source "HOL-Library.Finite_Map"
begin

text \<open>
  The ask registry, \<open>internal/agent/asks.go\<close>: one place where every request that blocks on a decision
  (a permission, a question, a plan) is opened, answered and ended.

  \<^item> \<open>ask_record\<close>, \<open>ask_entry\<close>, \<open>ask_registry\<close> are \<open>AskRecord\<close>, \<open>askEntry\<close> and \<open>AskRegistry\<close>. An entry is a
    pointer in the code, shared by the maps and by the \<open>Ask\<close> handles callers hold, so entries live in
    a heap (\<open>rg_heap\<close>) and an address is an index into it; the heap only grows.
  \<^item> Every method is one section under the registry's mutex. It takes the state and answers with its
    result, the new state and the events of the one batch it gives to the event log (\<open>EventLog.Enqueue\<close>;
    no events is no call). What it reads from outside is an input: whether the outbox has room
    (\<open>OutboxRoom\<close>), and the clock. A section that calls \<open>now\<close> more than once (an opening's record and
    its event, one ending after another) takes its \<open>readings\<close>: \<open>clk k\<close> is what the k-th call answers.
  \<^item> A kind is a string, as in the code: three of them are known. A map of answers is its association
    list, nil and empty alike; the order of a Go map's iteration decides nothing here, since whichever
    entry does not fit gives the same error.
  \<^item> The counters are natural numbers; the code's 64-bit ones differ only past \<open>2 ^ 64\<close> mints.
  \<^item> Closing a closed channel panics: \<open>rg_panicked\<close> is that branch, and \<open>Asks_Laws\<close> shows it is dead.
  \<^item> \<open>Ask.Wait\<close> is two sections, \<open>cancel_by_call\<close> and \<open>wait_take\<close>, with its select between them (\<open>wait\<close>).

  The copies \<open>clone\<close> makes are the identity here.
\<close>

section \<open>Kinds, statuses and outcomes\<close>

type_synonym ask_kind = string

definition AskPermission :: ask_kind where "AskPermission = ''permission''"
definition AskQuestion :: ask_kind where "AskQuestion = ''question''"
definition AskPlan :: ask_kind where "AskPlan = ''plan''"

definition id_prefix :: "ask_kind \<Rightarrow> string" where
  "id_prefix k =
     (if k = AskPermission then ''perm'' else if k = AskQuestion then ''ask''
      else if k = AskPlan then ''plan'' else k)"

definition kind_for_prefix :: "string \<Rightarrow> ask_kind option" where
  "kind_for_prefix px =
     (if px = ''perm'' then Some AskPermission else if px = ''ask'' then Some AskQuestion
      else if px = ''plan'' then Some AskPlan else None)"

datatype ask_status = AskOpen | AskResolved

datatype ask_outcome = NoOutcome | AskAnswered | AskCancelled | AskTurnEnded | AskClosing | AskAutomatic

datatype ask_by =
    ByNobody | AskByClient | AskByCall | AskByCancel | AskByTurn | AskByClose | AskByPolicy
  | AskByProvider | AskByUnavailable

text \<open>The approval policy: what is done with a kind of ask when it arrives.\<close>

datatype approval =
    NoApproval | ApprovalAsk | ApprovalAllow | ApprovalFirstOption | ApprovalAccept | ApprovalReturn

record approval_policy =
  ap_permission :: approval
  ap_question :: approval
  ap_plan :: approval

definition or_ask :: "approval \<Rightarrow> approval" where
  "or_ask a = (if a = NoApproval then ApprovalAsk else a)"

definition effective_approval :: "approval_policy option \<Rightarrow> bool \<Rightarrow> bool \<Rightarrow> approval_policy" where
  "effective_approval given force interactive =
     (case given of
        Some p \<Rightarrow> \<lparr>ap_permission = or_ask (ap_permission p), ap_question = or_ask (ap_question p),
                  ap_plan = or_ask (ap_plan p)\<rparr>
      | None \<Rightarrow>
          let p = \<lparr>ap_permission = ApprovalAsk, ap_question = ApprovalAsk, ap_plan = ApprovalAsk\<rparr>;
              p = (if force then p\<lparr>ap_permission := ApprovalAllow\<rparr> else p)
          in if \<not> interactive then p\<lparr>ap_question := ApprovalFirstOption, ap_plan := ApprovalAccept\<rparr> else p)"

section \<open>What is asked, and what is answered\<close>

record permission_option =
  po_id :: string
  po_name :: string
  po_kind :: string

record permission_event =
  pv_id :: string
  pv_tool :: string
  pv_options :: "permission_option list"

record question_option =
  qo_id :: string
  qo_label :: string
  qo_description :: string

record question =
  qn_id :: string
  qn_prompt :: string
  qn_options :: "question_option list"
  qn_multiple :: bool

record question_event =
  qv_id :: string
  qv_title :: string
  qv_questions :: "question list"
  qv_auto :: bool
  qv_answers :: "(string \<times> string list) list"

record ask_todo =
  td_id :: string
  td_content :: string
  td_status :: string

record plan_event =
  lv_id :: string
  lv_name :: string
  lv_overview :: string
  lv_plan :: string
  lv_todos :: "ask_todo list"
  lv_auto :: bool
  lv_accepted :: bool

record ask_body =
  ab_permission :: "permission_event option"
  ab_question :: "question_event option"
  ab_plan :: "plan_event option"

record ask_request =
  rq_kind :: ask_kind
  rq_body :: ask_body
  rq_id :: string

definition no_answer :: ask_answer where
  "no_answer = \<lparr>aa_option = '''', aa_cancel = False, aa_answers = [], aa_skip = False,
     aa_accept = False, aa_reject = False\<rparr>"

record ask_update =
  au_id :: string
  au_kind :: ask_kind
  au_outcome :: ask_outcome
  au_by :: ask_by
  au_option :: string
  au_answers :: "(string \<times> string list) list"
  au_skip :: bool
  au_accepted :: bool
  au_label :: string
  au_body :: "ask_body option"

text \<open>The four events the registry writes, each with its time; an ending with its cause.\<close>

datatype ask_event =
    AskPermissionEv nat "permission_event option"
  | AskQuestionEv nat "question_event option"
  | AskPlanEv nat "plan_event option"
  | AskEndingEv nat string ask_update

section \<open>The registry\<close>

record turn_token =
  tt_reg :: nat
  tt_n :: nat

definition no_turn :: "turn_token \<Rightarrow> bool" where
  "no_turn t \<longleftrightarrow> tt_n t = 0"

record ask_record =
  ar_id :: string
  ar_kind :: ask_kind
  ar_token :: turn_token
  ar_body :: ask_body
  ar_status :: ask_status
  ar_outcome :: ask_outcome
  ar_by :: ask_by
  ar_answer :: ask_answer
  ar_opened :: nat
  ar_resolved :: nat
  ar_consumed :: bool
  ar_delivered :: bool
  ar_lost :: string
  ar_incarnation :: string

record ask_entry =
  en_rec :: ask_record
  en_done :: bool
  en_published :: bool

record turn_state =
  ts_cancelled :: bool
  ts_ended :: bool

record ask_number =
  an_kind :: ask_kind
  an_hidden :: bool
  an_n :: nat

record ask_registry =
  rg_id :: nat
  rg_incarnation :: string
  rg_seq :: "ask_kind \<Rightarrow> nat"
  rg_hidden_seq :: "ask_kind \<Rightarrow> nat"
  rg_heap :: "ask_entry list"
  rg_open :: "(string, nat) fmap"
  rg_order :: "string list"
  rg_done :: "string \<rightharpoonup> nat"
  rg_done_order :: "nat list"
  rg_reserved :: "ask_number fset"
  rg_reserved_order :: "ask_number list"
  rg_turn_seq :: nat
  rg_turns :: "nat \<rightharpoonup> turn_state"
  rg_retired :: "nat list"
  rg_closed :: bool
  rg_panicked :: bool

definition keptAsks :: nat where "keptAsks = 256"
definition keptReservations :: nat where "keptReservations = 256"
definition maxAskNumber :: nat where "maxAskNumber = 2 ^ 62"
definition keptTurns :: nat where "keptTurns = 64"
definition hiddenMark :: string where "hiddenMark = ''x''"

definition new_ask_registry :: "nat \<Rightarrow> string \<Rightarrow> ask_registry" where
  "new_ask_registry reg incarnation =
     \<lparr>rg_id = reg, rg_incarnation = incarnation, rg_seq = (\<lambda>_. 0), rg_hidden_seq = (\<lambda>_. 0), rg_heap = [],
      rg_open = fmempty, rg_order = [], rg_done = Map.empty, rg_done_order = [], rg_reserved = {||},
      rg_reserved_order = [], rg_turn_seq = 0, rg_turns = Map.empty, rg_retired = [],
      rg_closed = False, rg_panicked = False\<rparr>"

definition entry_rec :: "ask_registry \<Rightarrow> nat \<Rightarrow> ask_record" where
  "entry_rec r a = en_rec (rg_heap r ! a)"

definition foreign_token :: "ask_registry \<Rightarrow> turn_token \<Rightarrow> bool" where
  "foreign_token r t \<longleftrightarrow> \<not> no_turn t \<and> tt_reg t \<noteq> rg_id r"

section \<open>Ids\<close>

definition ask_id :: "ask_number \<Rightarrow> string" where
  "ask_id num =
     (if an_hidden num then id_prefix (an_kind num) @ ''-'' @ hiddenMark @ dec (an_n num)
      else id_prefix (an_kind num) @ ''-'' @ dec (an_n num))"

text \<open>\<open>strings.Cut(s, "-")\<close>.\<close>

definition cut_dash :: "string \<Rightarrow> (string \<times> string) option" where
  "cut_dash s =
     (case dropWhile (\<lambda>c. c \<noteq> CHR ''-'') s of
        [] \<Rightarrow> None
      | _ # rest \<Rightarrow> Some (takeWhile (\<lambda>c. c \<noteq> CHR ''-'') s, rest))"

text \<open>\<open>strings.CutPrefix(rest, hiddenMark)\<close>.\<close>

definition cut_mark :: "string \<Rightarrow> string \<times> bool" where
  "cut_mark rest =
     (if take (length hiddenMark) rest = hiddenMark then (drop (length hiddenMark) rest, True)
      else (rest, False))"

definition canonical_id :: "string \<Rightarrow> ask_number option" where
  "canonical_id nm =
     (case cut_dash nm of
        None \<Rightarrow> None
      | Some (px, rest) \<Rightarrow>
          (case kind_for_prefix px of
             None \<Rightarrow> None
           | Some kind \<Rightarrow>
               let (digits, hidden) = cut_mark rest in
               case parse_uint digits of
                 None \<Rightarrow> None
               | Some n \<Rightarrow>
                   if n < 1 \<or> n > maxAskNumber \<or> dec n \<noteq> digits then None
                   else Some \<lparr>an_kind = kind, an_hidden = hidden, an_n = n\<rparr>))"

definition counter :: "bool \<Rightarrow> ask_registry \<Rightarrow> ask_kind \<Rightarrow> nat" where
  "counter hidden r = (if hidden then rg_hidden_seq r else rg_seq r)"

definition bump :: "bool \<Rightarrow> ask_kind \<Rightarrow> ask_registry \<Rightarrow> ask_registry" where
  "bump hidden kind r =
     (if hidden then r\<lparr>rg_hidden_seq := (rg_hidden_seq r)(kind := Suc (rg_hidden_seq r kind))\<rparr>
      else r\<lparr>rg_seq := (rg_seq r)(kind := Suc (rg_seq r kind))\<rparr>)"

definition drop_reservation :: "ask_number \<Rightarrow> ask_registry \<Rightarrow> ask_registry" where
  "drop_reservation num r =
     r\<lparr>rg_reserved := rg_reserved r |-| {|num|}, rg_reserved_order := remove1 num (rg_reserved_order r)\<rparr>"

definition next_number :: "ask_kind \<Rightarrow> bool \<Rightarrow> ask_registry \<Rightarrow> ask_number" where
  "next_number kind hidden r = \<lparr>an_kind = kind, an_hidden = hidden, an_n = counter hidden r kind\<rparr>"

function mint_locked :: "ask_kind \<Rightarrow> bool \<Rightarrow> ask_registry \<Rightarrow> string \<times> ask_registry" where
  "mint_locked kind hidden r =
     (let r1 = bump hidden kind r; num = next_number kind hidden r1 in
      if num |\<in>| rg_reserved r1 then mint_locked kind hidden (drop_reservation num r1)
      else if ask_id num |\<in>| fmdom (rg_open r1) then mint_locked kind hidden r1
      else (ask_id num, r1))"
  by pat_completeness auto

text \<open>The loop ends: a number it passes over is reserved or open, and there are finitely many such.\<close>

definition blocked_numbers :: "ask_kind \<Rightarrow> bool \<Rightarrow> ask_registry \<Rightarrow> nat set" where
  "blocked_numbers kind hidden r =
     {n. counter hidden r kind < n \<and>
         (let num = \<lparr>an_kind = kind, an_hidden = hidden, an_n = n\<rparr> in
          num |\<in>| rg_reserved r \<or> ask_id num |\<in>| fmdom (rg_open r))}"

lemma ask_id_number_inject:
  "ask_id \<lparr>an_kind = k, an_hidden = h, an_n = m\<rparr> = ask_id \<lparr>an_kind = k, an_hidden = h, an_n = n\<rparr> \<longleftrightarrow> m = n"
  by (simp add: ask_id_def)

lemma finite_blocked_numbers: "finite (blocked_numbers kind hidden r)"
proof -
  let ?num = "\<lambda>n. \<lparr>an_kind = kind, an_hidden = hidden, an_n = n\<rparr>"
  have "finite (?num -` fset (rg_reserved r))"
    by (rule finite_vimageI) (auto simp: inj_def)
  moreover have "finite ((\<lambda>n. ask_id (?num n)) -` fset (fmdom (rg_open r)))"
    by (rule finite_vimageI) (auto simp: inj_def ask_id_number_inject)
  ultimately show ?thesis
    by (rule rev_finite_subset [OF finite_UnI]) (auto simp: blocked_numbers_def Let_def)
qed

lemma bump_simps [simp]:
  "counter hidden (bump hidden kind r) kind = Suc (counter hidden r kind)"
  "rg_reserved (bump hidden kind r) = rg_reserved r"
  "rg_reserved_order (bump hidden kind r) = rg_reserved_order r"
  "rg_open (bump hidden kind r) = rg_open r"
  by (simp_all add: bump_def counter_def)

lemma drop_reservation_simps [simp]:
  "counter hidden (drop_reservation num r) = counter hidden r"
  "rg_reserved (drop_reservation num r) = rg_reserved r |-| {|num|}"
  "rg_open (drop_reservation num r) = rg_open r"
  by (simp_all add: drop_reservation_def counter_def)

lemma blocked_numbers_shrinks:
  assumes "Suc (counter hidden r kind) \<in> blocked_numbers kind hidden r"
    and "rg_reserved r' |\<subseteq>| rg_reserved r" and "rg_open r' = rg_open r"
    and "counter hidden r' kind = Suc (counter hidden r kind)"
  shows "card (blocked_numbers kind hidden r') < card (blocked_numbers kind hidden r)"
proof (rule psubset_card_mono [OF finite_blocked_numbers])
  have "blocked_numbers kind hidden r' \<subseteq> blocked_numbers kind hidden r"
    using assms(2-4) by (auto simp: blocked_numbers_def Let_def)
  moreover have "Suc (counter hidden r kind) \<notin> blocked_numbers kind hidden r'"
    using assms(4) by (simp add: blocked_numbers_def)
  ultimately show "blocked_numbers kind hidden r' \<subset> blocked_numbers kind hidden r"
    using assms(1) by blast
qed

termination mint_locked
proof (relation "measure (\<lambda>(kind, hidden, r). card (blocked_numbers kind hidden r))", goal_cases)
  case (2 kind hidden r r1 num)
  then have "Suc (counter hidden r kind) \<in> blocked_numbers kind hidden r"
    by (simp add: blocked_numbers_def next_number_def Let_def)
  from blocked_numbers_shrinks [OF this, of "drop_reservation num r1"] 2 show ?case by auto
next
  case (3 kind hidden r r1 num)
  then have "Suc (counter hidden r kind) \<in> blocked_numbers kind hidden r"
    by (simp add: blocked_numbers_def next_number_def Let_def)
  from blocked_numbers_shrinks [OF this, of r1] 3 show ?case by auto
qed simp

declare mint_locked.simps [simp del]

fun evict_reserved :: "ask_number list \<Rightarrow> ask_number fset \<Rightarrow> ask_number list \<times> ask_number fset" where
  "evict_reserved [] known = ([], known)"
| "evict_reserved (num # nums) known =
     (if length (num # nums) > keptReservations then evict_reserved nums (known |-| {|num|})
      else (num # nums, known))"

definition account_for :: "string \<Rightarrow> ask_registry \<Rightarrow> ask_registry" where
  "account_for nm r =
     (case canonical_id nm of
        None \<Rightarrow> r
      | Some num \<Rightarrow>
          if an_n num \<le> counter (an_hidden num) r (an_kind num) then r
          else if num |\<in>| rg_reserved r then r
          else let (nums, known) = evict_reserved (rg_reserved_order r @ [num]) (finsert num (rg_reserved r))
               in r\<lparr>rg_reserved := known, rg_reserved_order := nums\<rparr>)"

datatype ask_open_error = ErrAskIDInUse

definition reserve_ask ::
  "ask_kind \<Rightarrow> string \<Rightarrow> bool \<Rightarrow> ask_registry \<Rightarrow> ask_open_error + (string \<times> ask_registry)" where
  "reserve_ask kind adopt hidden r =
     (if adopt = [] then Inr (mint_locked kind hidden r)
      else if adopt |\<in>| fmdom (rg_open r) then Inl ErrAskIDInUse
      else Inr (adopt, account_for adopt r))"

definition issued_locked :: "ask_registry \<Rightarrow> string \<Rightarrow> bool" where
  "issued_locked r nm \<longleftrightarrow>
     (case canonical_id nm of
        None \<Rightarrow> False
      | Some num \<Rightarrow> an_n num \<le> counter (an_hidden num) r (an_kind num) \<or> num |\<in>| rg_reserved r)"

definition unknown_locked :: "ask_registry \<Rightarrow> string \<Rightarrow> sentinel" where
  "unknown_locked r nm =
     (if rg_done r nm \<noteq> None then ErrAlreadyResolved
      else if issued_locked r nm then ErrAlreadyResolved else ErrUnknownAsk)"

section \<open>Answers\<close>

definition permission_option :: "permission_event option \<Rightarrow> string \<Rightarrow> string option" where
  "permission_option p oid =
     (if p = None \<or> oid = [] then None
      else map_option po_name (find (\<lambda>opt. po_id opt = oid) (pv_options (the p))))"

definition questions_offered :: "question_event option \<Rightarrow> question list" where
  "questions_offered q = (case q of None \<Rightarrow> [] | Some q \<Rightarrow> qv_questions q)"

definition question_by_id :: "question_event option \<Rightarrow> string \<Rightarrow> question option" where
  "question_by_id q qid =
     (case q of None \<Rightarrow> None | Some q \<Rightarrow> find (\<lambda>one. qn_id one = qid) (qv_questions q))"

definition offers_option :: "question \<Rightarrow> string \<Rightarrow> bool" where
  "offers_option q oid \<longleftrightarrow> list_ex (\<lambda>opt. qo_id opt = oid) (qn_options q)"

definition check_question_answers ::
  "question_event option \<Rightarrow> (string \<times> string list) list \<Rightarrow> sentinel option" where
  "check_question_answers q answers =
     (if list_all (\<lambda>(qid, chosen).
          case question_by_id q qid of
            None \<Rightarrow> False
          | Some one \<Rightarrow> list_all (offers_option one) chosen) answers
      then None else Some ErrBadAnswer)"

definition validate_permission :: "permission_event option \<Rightarrow> ask_answer \<Rightarrow> sentinel + (ask_answer \<times> string)" where
  "validate_permission p a =
     (if aa_skip a \<or> aa_accept a \<or> aa_reject a \<or> aa_answers a \<noteq> [] then Inl ErrBadAnswer
      else if aa_cancel a then
        (if aa_option a \<noteq> [] then Inl ErrBadAnswer else Inr (no_answer\<lparr>aa_cancel := True\<rparr>, ''''))
      else case permission_option p (aa_option a) of
        None \<Rightarrow> Inl ErrBadAnswer
      | Some name \<Rightarrow> Inr (no_answer\<lparr>aa_option := aa_option a\<rparr>, name))"

definition validate_question :: "question_event option \<Rightarrow> ask_answer \<Rightarrow> sentinel + (ask_answer \<times> string)" where
  "validate_question q a =
     (if aa_option a \<noteq> [] \<or> aa_cancel a \<or> aa_accept a \<or> aa_reject a then Inl ErrBadAnswer
      else if aa_skip a then
        (if aa_answers a \<noteq> [] then Inl ErrBadAnswer else Inr (no_answer\<lparr>aa_skip := True\<rparr>, ''''))
      else if aa_answers a = [] then
        (if questions_offered q \<noteq> [] then Inl ErrBadAnswer
         else Inr (no_answer\<lparr>aa_answers := aa_answers a\<rparr>, ''''))
      else case check_question_answers q (aa_answers a) of
        Some err \<Rightarrow> Inl err
      | None \<Rightarrow> Inr (no_answer\<lparr>aa_answers := aa_answers a\<rparr>, ''''))"

definition validate_plan :: "ask_answer \<Rightarrow> sentinel + (ask_answer \<times> string)" where
  "validate_plan a =
     (if aa_option a \<noteq> [] \<or> aa_cancel a \<or> aa_skip a \<or> aa_answers a \<noteq> [] then Inl ErrBadAnswer
      else if aa_accept a = aa_reject a then Inl ErrBadAnswer
      else Inr (no_answer\<lparr>aa_accept := aa_accept a, aa_reject := aa_reject a\<rparr>, ''''))"

definition validate_answer :: "ask_kind \<Rightarrow> ask_body \<Rightarrow> ask_answer \<Rightarrow> sentinel + (ask_answer \<times> string)" where
  "validate_answer kind body a =
     (if kind = AskPermission then validate_permission (ab_permission body) a
      else if kind = AskQuestion then validate_question (ab_question body) a
      else if kind = AskPlan then validate_plan a
      else Inl ErrBadAnswer)"

definition set_body_id :: "ask_kind \<Rightarrow> ask_body \<Rightarrow> string \<Rightarrow> ask_body" where
  "set_body_id kind body nm =
     (if kind = AskQuestion then body\<lparr>ab_question := map_option (\<lambda>q. q\<lparr>qv_id := nm\<rparr>) (ab_question body)\<rparr>
      else if kind = AskPlan then body\<lparr>ab_plan := map_option (\<lambda>p. p\<lparr>lv_id := nm\<rparr>) (ab_plan body)\<rparr>
      else body\<lparr>ab_permission := map_option (\<lambda>p. p\<lparr>pv_id := nm\<rparr>) (ab_permission body)\<rparr>)"

definition opening_event :: "nat \<Rightarrow> ask_kind \<Rightarrow> ask_body \<Rightarrow> bool \<Rightarrow> ask_answer \<Rightarrow> ask_event" where
  "opening_event now kind body auto ans =
     (if kind = AskQuestion then AskQuestionEv now
        (if auto then map_option (\<lambda>q. q\<lparr>qv_auto := True, qv_answers := aa_answers ans\<rparr>) (ab_question body)
         else ab_question body)
      else if kind = AskPlan then AskPlanEv now
        (if auto then map_option (\<lambda>p. p\<lparr>lv_auto := True, lv_accepted := aa_accept ans\<rparr>) (ab_plan body)
         else ab_plan body)
      else AskPermissionEv now (ab_permission body))"

section \<open>An ask's beginning and its end\<close>

definition new_entry_locked ::
  "nat \<Rightarrow> string \<Rightarrow> ask_kind \<Rightarrow> turn_token \<Rightarrow> ask_body \<Rightarrow> ask_registry \<Rightarrow> nat \<times> ask_registry" where
  "new_entry_locked now nm kind token body r =
     (length (rg_heap r), r\<lparr>rg_heap := rg_heap r @ [
        \<lparr>en_rec = \<lparr>ar_id = nm, ar_kind = kind, ar_token = token, ar_body = body, ar_status = AskOpen,
            ar_outcome = NoOutcome, ar_by = ByNobody, ar_answer = no_answer, ar_opened = now,
            ar_resolved = 0, ar_consumed = False, ar_delivered = False, ar_lost = '''',
            ar_incarnation = rg_incarnation r\<rparr>,
         en_done = False, en_published = False\<rparr>]\<rparr>)"

definition ending_body :: "ask_entry \<Rightarrow> ask_body option" where
  "ending_body e = (if en_published e then None else Some (ar_body (en_rec e)))"

fun evict_kept :: "ask_entry list \<Rightarrow> nat list \<Rightarrow> (string \<rightharpoonup> nat) \<Rightarrow> nat list \<times> (string \<rightharpoonup> nat)" where
  "evict_kept heap [] names = ([], names)"
| "evict_kept heap (a # addrs) names =
     (if length (a # addrs) > keptAsks then
        let nm = ar_id (en_rec (heap ! a)) in
        evict_kept heap addrs (if names nm = Some a then names(nm := None) else names)
      else (a # addrs, names))"

definition keep_locked :: "nat \<Rightarrow> ask_registry \<Rightarrow> ask_registry" where
  "keep_locked a r =
     (let (kept, names) = evict_kept (rg_heap r) (rg_done_order r @ [a]) ((rg_done r)(ar_id (entry_rec r a) \<mapsto> a))
      in r\<lparr>rg_done_order := kept, rg_done := names\<rparr>)"

definition resolve_entry :: "nat \<Rightarrow> ask_outcome \<Rightarrow> ask_by \<Rightarrow> ask_answer \<Rightarrow> ask_entry \<Rightarrow> ask_entry" where
  "resolve_entry now outcome by_whom ans e =
     e\<lparr>en_rec := (en_rec e)\<lparr>ar_status := AskResolved, ar_outcome := outcome, ar_by := by_whom,
        ar_answer := ans, ar_resolved := now\<rparr>, en_done := True\<rparr>"

definition close_books :: "nat \<Rightarrow> ask_registry \<Rightarrow> ask_registry" where
  "close_books a r =
     (let nm = ar_id (entry_rec r a) in
      if fmlookup (rg_open r) nm = Some a
      then r\<lparr>rg_open := fmdrop nm (rg_open r), rg_order := remove1 nm (rg_order r)\<rparr> else r)"

definition ending_event :: "nat \<Rightarrow> string \<Rightarrow> string \<Rightarrow> ask_entry \<Rightarrow> ask_event" where
  "ending_event now cause label e =
     AskEndingEv now cause
       \<lparr>au_id = ar_id (en_rec e), au_kind = ar_kind (en_rec e), au_outcome = ar_outcome (en_rec e),
        au_by = ar_by (en_rec e), au_option = aa_option (ar_answer (en_rec e)),
        au_answers = aa_answers (ar_answer (en_rec e)), au_skip = aa_skip (ar_answer (en_rec e)),
        au_accepted = aa_accept (ar_answer (en_rec e)), au_label = label, au_body = ending_body e\<rparr>"

definition retire_ask ::
  "nat \<Rightarrow> nat \<Rightarrow> ask_outcome \<Rightarrow> ask_by \<Rightarrow> string \<Rightarrow> ask_answer \<Rightarrow> string \<Rightarrow> ask_registry \<Rightarrow> ask_event \<times> ask_registry" where
  "retire_ask now a outcome by_whom cause ans label r =
     (let e = rg_heap r ! a;
          e1 = resolve_entry now outcome by_whom ans e;
          r1 = r\<lparr>rg_heap := (rg_heap r)[a := e1], rg_panicked := rg_panicked r \<or> en_done e\<rparr>
      in (ending_event now cause label e1, keep_locked a (close_books a r1)))"

text \<open>The clock as one operation reads it: \<open>clk k\<close> is what its call \<open>k\<close> of \<open>now()\<close> answers, from 0.\<close>

type_synonym readings = "nat \<Rightarrow> nat"

fun resolve_ids ::
  "readings \<Rightarrow> (ask_entry \<Rightarrow> bool) \<Rightarrow> ask_outcome \<Rightarrow> ask_by \<Rightarrow> string list \<Rightarrow> ask_registry \<Rightarrow> ask_event list \<times> ask_registry" where
  "resolve_ids clk accepts outcome by_whom [] r = ([], r)"
| "resolve_ids clk accepts outcome by_whom (nm # nms) r =
     (case fmlookup (rg_open r) nm of
        None \<Rightarrow> resolve_ids clk accepts outcome by_whom nms r
      | Some a \<Rightarrow>
          if \<not> accepts (rg_heap r ! a) then resolve_ids clk accepts outcome by_whom nms r
          else let (ev, r1) = retire_ask (clk 0) a outcome by_whom '''' no_answer '''' r;
                   (evs, r2) = resolve_ids (\<lambda>k. clk (Suc k)) accepts outcome by_whom nms r1
               in (ev # evs, r2))"

definition resolve_all_locked ::
  "readings \<Rightarrow> (ask_entry \<Rightarrow> bool) \<Rightarrow> ask_outcome \<Rightarrow> ask_by \<Rightarrow> ask_registry \<Rightarrow> ask_registry \<times> ask_event list" where
  "resolve_all_locked clk accepts outcome by_whom r =
     (let (evs, r1) = resolve_ids clk accepts outcome by_whom (rg_order r) r in (r1, evs))"

section \<open>Turns\<close>

definition begin_ask_turn :: "ask_registry \<Rightarrow> turn_token \<times> ask_registry" where
  "begin_ask_turn r =
     (let n = Suc (rg_turn_seq r) in
      (\<lparr>tt_reg = rg_id r, tt_n = n\<rparr>,
       r\<lparr>rg_turn_seq := n, rg_turns := (rg_turns r)(n \<mapsto> \<lparr>ts_cancelled = False, ts_ended = False\<rparr>)\<rparr>))"

fun evict_turns :: "nat list \<Rightarrow> (nat \<rightharpoonup> turn_state) \<Rightarrow> nat list \<times> (nat \<rightharpoonup> turn_state)" where
  "evict_turns [] turns = ([], turns)"
| "evict_turns (n # ns) turns =
     (if length (n # ns) > keptTurns then evict_turns ns (turns(n := None)) else (n # ns, turns))"

definition mark_locked :: "turn_token \<Rightarrow> bool \<Rightarrow> ask_registry \<Rightarrow> ask_registry" where
  "mark_locked t cancelled r =
     (if no_turn t then r
      else case rg_turns r (tt_n t) of
        None \<Rightarrow> r
      | Some st \<Rightarrow>
          if ts_cancelled st \<or> ts_ended st then r
          else let (retired, turns) = evict_turns (rg_retired r @ [tt_n t])
                     ((rg_turns r)(tt_n t \<mapsto> \<lparr>ts_cancelled = cancelled, ts_ended = \<not> cancelled\<rparr>))
               in r\<lparr>rg_retired := retired, rg_turns := turns\<rparr>)"

definition refusal_locked :: "bool \<Rightarrow> turn_token \<Rightarrow> ask_registry \<Rightarrow> (ask_outcome \<times> ask_by) option" where
  "refusal_locked room t r =
     (let no_room = (if room then None else Some (AskCancelled, AskByUnavailable)) in
      if rg_closed r then Some (AskClosing, AskByClose)
      else if no_turn t then no_room
      else if tt_reg t \<noteq> rg_id r then Some (AskTurnEnded, AskByTurn)
      else case rg_turns r (tt_n t) of
        None \<Rightarrow> Some (AskTurnEnded, AskByTurn)
      | Some st \<Rightarrow>
          if ts_cancelled st then Some (AskCancelled, AskByCancel)
          else if ts_ended st then Some (AskTurnEnded, AskByTurn)
          else no_room)"

definition cancel_turn :: "readings \<Rightarrow> turn_token \<Rightarrow> ask_registry \<Rightarrow> ask_registry \<times> ask_event list" where
  "cancel_turn clk t r =
     (if foreign_token r t then (r, [])
      else resolve_all_locked clk (\<lambda>_. True) AskCancelled AskByCancel (mark_locked t True r))"

definition cancel_own_turn :: "readings \<Rightarrow> turn_token \<Rightarrow> ask_registry \<Rightarrow> ask_registry \<times> ask_event list" where
  "cancel_own_turn clk t r =
     (if no_turn t \<or> foreign_token r t then (r, [])
      else resolve_all_locked clk (\<lambda>e. ar_token (en_rec e) = t) AskCancelled AskByCancel (mark_locked t True r))"

definition end_ask_turn :: "readings \<Rightarrow> turn_token \<Rightarrow> ask_registry \<Rightarrow> ask_registry \<times> ask_event list" where
  "end_ask_turn clk t r =
     (if no_turn t \<or> foreign_token r t then (r, [])
      else resolve_all_locked clk (\<lambda>e. ar_token (en_rec e) = t) AskTurnEnded AskByTurn (mark_locked t False r))"

definition close_registry :: "readings \<Rightarrow> ask_registry \<Rightarrow> ask_registry \<times> ask_event list" where
  "close_registry clk r =
     (if rg_closed r then (r, [])
      else resolve_all_locked clk (\<lambda>_. True) AskClosing AskByClose (r\<lparr>rg_closed := True\<rparr>))"

section \<open>Opening, answering and waiting\<close>

definition park_entry :: "nat \<Rightarrow> ask_registry \<Rightarrow> ask_registry" where
  "park_entry a r =
     (let nm = ar_id (entry_rec r a) in
      r\<lparr>rg_open := fmupd nm a (rg_open r), rg_order := rg_order r @ [nm],
        rg_heap := (rg_heap r)[a := (rg_heap r ! a)\<lparr>en_published := True\<rparr>]\<rparr>)"

definition open_ask ::
  "readings \<Rightarrow> bool \<Rightarrow> turn_token \<Rightarrow> ask_request \<Rightarrow> ask_registry \<Rightarrow> (ask_open_error + nat) \<times> ask_registry \<times> ask_event list" where
  "open_ask clk room t req r =
     (let refusal = refusal_locked room t r in
      case reserve_ask (rq_kind req) (rq_id req) (refusal \<noteq> None) r of
        Inl err \<Rightarrow> (Inl err, r, [])
      | Inr (nm, r1) \<Rightarrow>
          let body = set_body_id (rq_kind req) (rq_body req) nm;
              (a, r2) = new_entry_locked (clk 0) nm (rq_kind req) t body r1
          in case refusal of
            Some (outcome, by_whom) \<Rightarrow>
              let (ev, r3) = retire_ask (clk 1) a outcome by_whom '''' no_answer '''' r2 in (Inr a, r3, [ev])
          | None \<Rightarrow> (Inr a, park_entry a r2, [opening_event (clk 1) (rq_kind req) body False no_answer]))"

definition automatic_outcome ::
  "ask_request \<Rightarrow> ask_answer \<Rightarrow> ask_outcome \<times> ask_answer \<times> string" where
  "automatic_outcome req a =
     (case validate_answer (rq_kind req) (rq_body req) a of
        Inl _ \<Rightarrow> (AskCancelled, no_answer\<lparr>aa_cancel := True\<rparr>, '''')
      | Inr (ans, label) \<Rightarrow>
          if aa_cancel ans then (AskCancelled, no_answer\<lparr>aa_cancel := True\<rparr>, '''')
          else (AskAutomatic, ans, label))"

definition publishes_opening :: "ask_kind \<Rightarrow> ask_outcome \<Rightarrow> bool" where
  "publishes_opening kind outcome \<longleftrightarrow> kind \<noteq> AskPermission \<and> outcome = AskAutomatic"

text \<open>The adopted id, unless an open ask holds it: then one is minted over it.\<close>

definition automatic_id :: "ask_request \<Rightarrow> bool \<Rightarrow> ask_registry \<Rightarrow> string \<times> ask_registry" where
  "automatic_id req hidden r =
     (case reserve_ask (rq_kind req) (rq_id req) hidden r of
        Inl _ \<Rightarrow> mint_locked (rq_kind req) hidden r
      | Inr got \<Rightarrow> got)"

definition automatic ::
  "readings \<Rightarrow> turn_token \<Rightarrow> ask_request \<Rightarrow> ask_answer \<Rightarrow> ask_registry \<Rightarrow> nat \<times> ask_registry \<times> ask_event list" where
  "automatic clk t req a r =
     (let (outcome, ans, label) = automatic_outcome req a;
          publishes = publishes_opening (rq_kind req) outcome;
          (nm, r1) = automatic_id req (\<not> publishes) r;
          body = set_body_id (rq_kind req) (rq_body req) nm;
          (addr, r2) = new_entry_locked (clk 0) nm (rq_kind req) t body r1;
          r3 = (if publishes then r2\<lparr>rg_heap := (rg_heap r2)[addr := (rg_heap r2 ! addr)\<lparr>en_published := True\<rparr>]\<rparr>
                else r2);
          (ev, r4) = retire_ask (if publishes then clk 2 else clk 1) addr outcome AskByPolicy '''' ans label r3
      in (addr, r4, (if publishes then [opening_event (clk 1) (rq_kind req) body True ans] else []) @ [ev]))"

definition answered_early ::
  "readings \<Rightarrow> turn_token \<Rightarrow> ask_request \<Rightarrow> ask_outcome \<Rightarrow> ask_by \<Rightarrow> ask_registry \<Rightarrow> nat \<times> ask_registry \<times> ask_event list" where
  "answered_early clk t req outcome by_whom r =
     (let outcome = (if outcome = NoOutcome then AskCancelled else outcome);
          by_whom = (if by_whom = ByNobody then AskByProvider else by_whom);
          (nm, r1) = mint_locked (rq_kind req) True r;
          body = set_body_id (rq_kind req) (rq_body req) nm;
          (a, r2) = new_entry_locked (clk 0) nm (rq_kind req) t body r1;
          (ev, r3) = retire_ask (clk 1) a outcome by_whom '''' no_answer '''' r2
      in (a, r3, [ev]))"

definition answer_ask ::
  "nat \<Rightarrow> bool \<Rightarrow> string \<Rightarrow> string \<Rightarrow> ask_answer \<Rightarrow> ask_registry \<Rightarrow> (sentinel + ask_record) \<times> ask_registry \<times> ask_event list" where
  "answer_ask now room cause nm a r =
     (case fmlookup (rg_open r) nm of
        None \<Rightarrow> (Inl (unknown_locked r nm), r, [])
      | Some addr \<Rightarrow>
          (case validate_answer (ar_kind (entry_rec r addr)) (ar_body (entry_rec r addr)) a of
             Inl err \<Rightarrow> (Inl err, r, [])
           | Inr (ans, label) \<Rightarrow>
               if \<not> room then (Inl ErrAskUnavailable, r, [])
               else
                 let outcome = (if aa_cancel ans then AskCancelled else AskAnswered);
                     (ev, r1) = retire_ask now addr outcome AskByClient cause ans label r
                 in (Inr (entry_rec r1 addr), r1, [ev])))"

definition entry_locked :: "ask_registry \<Rightarrow> string \<Rightarrow> nat option" where
  "entry_locked r nm = (case fmlookup (rg_open r) nm of Some a \<Rightarrow> Some a | None \<Rightarrow> rg_done r nm)"

record ask_report =
  rp_consumed :: bool
  rp_delivered :: bool
  rp_lost :: string

record lost_note =
  ln_id :: string
  ln_kind :: ask_kind
  ln_outcome :: ask_outcome
  ln_reason :: string

definition merge_report :: "ask_report \<Rightarrow> ask_entry \<Rightarrow> ask_entry" where
  "merge_report rep e =
     e\<lparr>en_rec := (en_rec e)\<lparr>ar_consumed := ar_consumed (en_rec e) \<or> rp_consumed rep,
        ar_delivered := ar_delivered (en_rec e) \<or> rp_delivered rep,
        ar_lost := (if rp_lost rep \<noteq> [] then rp_lost rep else ar_lost (en_rec e))\<rparr>\<rparr>"

definition report_ask ::
  "nat option \<Rightarrow> string \<Rightarrow> ask_report \<Rightarrow> ask_registry \<Rightarrow> ask_registry \<times> lost_note option" where
  "report_ask known nm rep r =
     (let found = (case known of Some a \<Rightarrow> Some a | None \<Rightarrow> entry_locked r nm);
          r1 = (case found of None \<Rightarrow> r
                | Some a \<Rightarrow> r\<lparr>rg_heap := (rg_heap r)[a := merge_report rep (rg_heap r ! a)]\<rparr>);
          (kind, outcome) = (case found of None \<Rightarrow> ('''', NoOutcome)
                | Some a \<Rightarrow> (ar_kind (entry_rec r1 a), ar_outcome (entry_rec r1 a)))
      in (r1, if rp_lost rep = [] then None
              else Some \<lparr>ln_id = nm, ln_kind = kind, ln_outcome = outcome, ln_reason = rp_lost rep\<rparr>))"

definition resolved_asks :: "ask_registry \<Rightarrow> ask_record list" where
  "resolved_asks r = map (entry_rec r) (rg_done_order r)"

definition asks_of :: "ask_registry \<Rightarrow> ask_record list" where
  "asks_of r = map (entry_rec r) (List.map_filter (fmlookup (rg_open r)) (rg_order r))"

definition record_of :: "ask_registry \<Rightarrow> string \<Rightarrow> ask_record option" where
  "record_of r nm = map_option (entry_rec r) (entry_locked r nm)"

definition cancel_by_call :: "nat \<Rightarrow> nat \<Rightarrow> ask_registry \<Rightarrow> ask_registry \<times> ask_event list" where
  "cancel_by_call now a r =
     (if fmlookup (rg_open r) (ar_id (entry_rec r a)) \<noteq> Some a then (r, [])
      else let (ev, r1) = retire_ask now a AskCancelled AskByCall '''' no_answer '''' r in (r1, [ev]))"

definition wait_take :: "nat \<Rightarrow> ask_registry \<Rightarrow> ask_record \<times> ask_registry" where
  "wait_take a r =
     (let r1 = r\<lparr>rg_heap := (rg_heap r)[a := (rg_heap r ! a)\<lparr>en_rec := (entry_rec r a)\<lparr>ar_consumed := True\<rparr>\<rparr>]\<rparr>
      in (entry_rec r1 a, r1))"

text \<open>\<open>Ask.Wait\<close> with nothing between its two sections; \<open>None\<close> is a caller that blocks.\<close>

definition wait_ask :: "nat \<Rightarrow> bool \<Rightarrow> nat \<Rightarrow> ask_registry \<Rightarrow> (ask_record \<times> ask_registry \<times> ask_event list) option" where
  "wait_ask now ctx_ended a r =
     (if en_done (rg_heap r ! a) then let (rec, r1) = wait_take a r in Some (rec, r1, [])
      else if ctx_ended then
        let (r1, evs) = cancel_by_call now a r in
        if en_done (rg_heap r1 ! a) then let (rec, r2) = wait_take a r1 in Some (rec, r2, evs) else None
      else None)"

section \<open>Runs\<close>

text \<open>An operation with its inputs; what it reads of the clock comes with it. What its caller is answered is dropped
  here: the handles it hands out are the addresses of the heap.\<close>

datatype ask_op =
    OpBeginTurn
  | OpCancelTurn turn_token
  | OpCancelOwnTurn turn_token
  | OpEndTurn turn_token
  | OpClose
  | OpOpen bool turn_token ask_request
  | OpAutomatic turn_token ask_request ask_answer
  | OpEarly turn_token ask_request ask_outcome ask_by
  | OpAnswer bool string string ask_answer
  | OpReport "nat option" string ask_report
  | OpCallEnded nat
  | OpTake nat

fun ask_step :: "readings \<times> ask_op \<Rightarrow> ask_registry \<Rightarrow> ask_registry \<times> ask_event list" where
  "ask_step (clk, OpBeginTurn) r = (snd (begin_ask_turn r), [])"
| "ask_step (clk, OpCancelTurn t) r = cancel_turn clk t r"
| "ask_step (clk, OpCancelOwnTurn t) r = cancel_own_turn clk t r"
| "ask_step (clk, OpEndTurn t) r = end_ask_turn clk t r"
| "ask_step (clk, OpClose) r = close_registry clk r"
| "ask_step (clk, OpOpen room t req) r = snd (open_ask clk room t req r)"
| "ask_step (clk, OpAutomatic t req a) r = snd (automatic clk t req a r)"
| "ask_step (clk, OpEarly t req outcome by_whom) r = snd (answered_early clk t req outcome by_whom r)"
| "ask_step (clk, OpAnswer room cause nm a) r = snd (answer_ask (clk 0) room cause nm a r)"
| "ask_step (clk, OpReport known nm rep) r = (fst (report_ask known nm rep r), [])"
| "ask_step (clk, OpCallEnded a) r = cancel_by_call (clk 0) a r"
| "ask_step (clk, OpTake a) r = (snd (wait_take a r), [])"

end
