(* ===== verification/Asks_Inv.thy ===== *)
theory Asks_Inv
  imports Asks
begin

text \<open>
  The invariant of the ask registry of theory \<open>Asks\<close>, and what its sections do to the entries.

  \<^item> \<open>books_ex\<close> is the invariant of the entries: the open map, the order and the heap agree, an entry that
    is not open is done, and nothing is done twice; \<open>ids_but\<close> that of the ids issued, \<open>turns_ok\<close> and
    \<open>live_asks\<close> that of the turns, \<open>reserved_ok\<close> that of the reservations. \<open>asks_inv\<close> is all of them. An
    entry between its allocation and its first book is in the set \<open>X\<close> of \<open>books_ex\<close>.
  \<^item> \<open>resolves\<close> relates the states before and after a section to its events: what was resolved stays as it
    was, and the endings it wrote are those of the asks it resolved, one each.
  \<^item> \<open>section_keeps\<close> holds both for every section.
\<close>

named_theorems ask_simps \<open>which fields of the registry each section touches\<close>

section \<open>The fields a section touches\<close>

lemma bump_fields [ask_simps]:
  "rg_heap (bump h k r) = rg_heap r" "rg_order (bump h k r) = rg_order r"
  "rg_done (bump h k r) = rg_done r" "rg_done_order (bump h k r) = rg_done_order r"
  "rg_turns (bump h k r) = rg_turns r" "rg_turn_seq (bump h k r) = rg_turn_seq r"
  "rg_retired (bump h k r) = rg_retired r" "rg_closed (bump h k r) = rg_closed r"
  "rg_panicked (bump h k r) = rg_panicked r" "rg_id (bump h k r) = rg_id r"
  "rg_open (bump h k r) = rg_open r" "rg_incarnation (bump h k r) = rg_incarnation r"
  by (simp_all add: bump_def)

lemma drop_reservation_fields [ask_simps]:
  "rg_heap (drop_reservation n r) = rg_heap r" "rg_order (drop_reservation n r) = rg_order r"
  "rg_done (drop_reservation n r) = rg_done r" "rg_done_order (drop_reservation n r) = rg_done_order r"
  "rg_turns (drop_reservation n r) = rg_turns r" "rg_turn_seq (drop_reservation n r) = rg_turn_seq r"
  "rg_retired (drop_reservation n r) = rg_retired r" "rg_closed (drop_reservation n r) = rg_closed r"
  "rg_panicked (drop_reservation n r) = rg_panicked r" "rg_id (drop_reservation n r) = rg_id r"
  "rg_open (drop_reservation n r) = rg_open r" "rg_incarnation (drop_reservation n r) = rg_incarnation r"
  by (simp_all add: drop_reservation_def)

text \<open>Minting and adopting touch the counters and the reservations alone.\<close>

definition same_asks :: "ask_registry \<Rightarrow> ask_registry \<Rightarrow> bool" where
  "same_asks r r' \<longleftrightarrow> rg_heap r' = rg_heap r \<and> rg_order r' = rg_order r \<and> rg_open r' = rg_open r \<and>
     rg_done r' = rg_done r \<and> rg_done_order r' = rg_done_order r \<and> rg_turns r' = rg_turns r \<and>
     rg_turn_seq r' = rg_turn_seq r \<and> rg_retired r' = rg_retired r \<and> rg_closed r' = rg_closed r \<and>
     rg_panicked r' = rg_panicked r \<and> rg_id r' = rg_id r \<and> rg_incarnation r' = rg_incarnation r"

lemma same_asks_trans: "same_asks r s \<Longrightarrow> same_asks s t \<Longrightarrow> same_asks r t"
  by (simp add: same_asks_def)

lemma same_asks_basic: "same_asks r (bump h k r)" "same_asks r (drop_reservation n r)"
  by (simp_all add: same_asks_def ask_simps)

lemma mint_induct [case_names mint]:
  assumes "\<And>kind hidden r.
     (\<And>r1. r1 = drop_reservation (next_number kind hidden (bump hidden kind r)) (bump hidden kind r) \<Longrightarrow>
        next_number kind hidden (bump hidden kind r) |\<in>| rg_reserved r \<Longrightarrow> P kind hidden r1) \<Longrightarrow>
     (next_number kind hidden (bump hidden kind r) |\<notin>| rg_reserved r \<Longrightarrow>
        ask_id (next_number kind hidden (bump hidden kind r)) |\<in>| fmdom (rg_open r) \<Longrightarrow>
        P kind hidden (bump hidden kind r)) \<Longrightarrow>
     P kind hidden r"
  shows "P kind hidden r"
  by (induction kind hidden r rule: mint_locked.induct) (rule assms; simp)

lemma mint_cases:
  obtains
    (reserved) "next_number kind hidden (bump hidden kind r) |\<in>| rg_reserved r"
      "mint_locked kind hidden r =
         mint_locked kind hidden (drop_reservation (next_number kind hidden (bump hidden kind r)) (bump hidden kind r))"
  | (held_open) "next_number kind hidden (bump hidden kind r) |\<notin>| rg_reserved r"
      "ask_id (next_number kind hidden (bump hidden kind r)) |\<in>| fmdom (rg_open r)"
      "mint_locked kind hidden r = mint_locked kind hidden (bump hidden kind r)"
  | (minted) "next_number kind hidden (bump hidden kind r) |\<notin>| rg_reserved r"
      "ask_id (next_number kind hidden (bump hidden kind r)) |\<notin>| fmdom (rg_open r)"
      "mint_locked kind hidden r = (ask_id (next_number kind hidden (bump hidden kind r)), bump hidden kind r)"
  by (cases "next_number kind hidden (bump hidden kind r) |\<in>| rg_reserved r";
      cases "ask_id (next_number kind hidden (bump hidden kind r)) |\<in>| fmdom (rg_open r)")
    (simp_all add: mint_locked.simps [of kind hidden r] Let_def)

lemma mint_same_asks: "same_asks r (snd (mint_locked kind hidden r))"
proof (induction kind hidden r rule: mint_induct)
  case (mint kind hidden r)
  show ?case
    by (cases rule: mint_cases [of kind hidden r])
      (use mint same_asks_basic same_asks_trans in \<open>metis snd_conv\<close>)+
qed

lemma account_same_asks: "same_asks r (account_for nm r)"
  by (auto simp: account_for_def same_asks_def Let_def split: option.splits prod.splits)

text \<open>What a mint answers: an id no open ask holds, the number its counter has come to; each number it
  passed over was reserved or is open.\<close>

definition mint_post :: "ask_kind \<Rightarrow> bool \<Rightarrow> ask_registry \<Rightarrow> string \<times> ask_registry \<Rightarrow> bool" where
  "mint_post kind hidden r res \<longleftrightarrow>
     fst res |\<notin>| fmdom (rg_open r) \<and> fst res = ask_id (next_number kind hidden (snd res)) \<and>
     counter hidden r kind < counter hidden (snd res) kind \<and>
     (\<forall>k h. (k, h) \<noteq> (kind, hidden) \<longrightarrow> counter h (snd res) k = counter h r k) \<and>
     rg_reserved (snd res) |\<subseteq>| rg_reserved r \<and>
     (\<forall>n. counter hidden r kind < n \<and> n < counter hidden (snd res) kind \<longrightarrow>
        (let num = \<lparr>an_kind = kind, an_hidden = hidden, an_n = n\<rparr> in
         num |\<in>| rg_reserved r \<or> ask_id num |\<in>| fmdom (rg_open r)))"

lemma counter_other [simp]:
  "(k, h) \<noteq> (kind, hidden) \<Longrightarrow> counter h (bump hidden kind r) k = counter h r k"
  by (auto simp: counter_def bump_def)

lemma mint_post_step:
  assumes "mint_post kind hidden r1 res" and "rg_reserved r1 |\<subseteq>| rg_reserved r" and "rg_open r1 = rg_open r"
    and "\<And>k h. counter h r1 k = counter h (bump hidden kind r) k"
    and "next_number kind hidden (bump hidden kind r) |\<in>| rg_reserved r \<or>
         ask_id (next_number kind hidden (bump hidden kind r)) |\<in>| fmdom (rg_open r)"
  shows "mint_post kind hidden r res"
proof -
  have pass: "let num = \<lparr>an_kind = kind, an_hidden = hidden, an_n = n\<rparr> in
         num |\<in>| rg_reserved r \<or> ask_id num |\<in>| fmdom (rg_open r)"
    if "counter hidden r kind < n" "n < counter hidden (snd res) kind" for n
  proof (cases "n = Suc (counter hidden r kind)")
    case True
    with assms(5) show ?thesis by (simp add: next_number_def)
  next
    case False
    with that assms(1,4) have "let num = \<lparr>an_kind = kind, an_hidden = hidden, an_n = n\<rparr> in
         num |\<in>| rg_reserved r1 \<or> ask_id num |\<in>| fmdom (rg_open r1)"
      unfolding mint_post_def by simp
    with assms(2,3) show ?thesis by (auto simp: Let_def)
  qed
  from assms(1) have low: "counter hidden r1 kind < counter hidden (snd res) kind"
    and other: "\<And>k h. (k, h) \<noteq> (kind, hidden) \<Longrightarrow> counter h (snd res) k = counter h r1 k"
    and basic: "fst res |\<notin>| fmdom (rg_open r1)" "fst res = ask_id (next_number kind hidden (snd res))"
      "rg_reserved (snd res) |\<subseteq>| rg_reserved r1"
    unfolding mint_post_def by blast+
  from low assms(4) have "counter hidden r kind < counter hidden (snd res) kind" by simp
  moreover from other assms(4) have "\<And>k h. (k, h) \<noteq> (kind, hidden) \<Longrightarrow> counter h (snd res) k = counter h r k"
    by (metis counter_other)
  ultimately show ?thesis using basic assms(2,3) pass unfolding mint_post_def by auto
qed

lemma mint_spec: "mint_post kind hidden r (mint_locked kind hidden r)"
proof (induction kind hidden r rule: mint_induct)
  case (mint kind hidden r)
  show ?case
  proof (cases rule: mint_cases [of kind hidden r])
    case reserved
    have "mint_post kind hidden r (mint_locked kind hidden
        (drop_reservation (next_number kind hidden (bump hidden kind r)) (bump hidden kind r)))"
      by (rule mint_post_step [OF mint.IH(1) [OF refl reserved(1)]]) (use reserved(1) in auto)
    with reserved(2) show ?thesis by simp
  next
    case held_open
    have "mint_post kind hidden r (mint_locked kind hidden (bump hidden kind r))"
      by (rule mint_post_step [OF mint.IH(2) [OF held_open(1,2)]]) (use held_open(2) in auto)
    with held_open(3) show ?thesis by simp
  next
    case minted
    then show ?thesis by (auto simp: mint_post_def)
  qed
qed

lemma mint_not_open: "mint_locked kind hidden r = (nm, r') \<Longrightarrow> nm |\<notin>| fmdom (rg_open r)"
  using mint_spec [of kind hidden r] unfolding mint_post_def by (metis fst_conv)

section \<open>The spelling of an id\<close>

definition known_kind :: "ask_kind \<Rightarrow> bool" where
  "known_kind k \<longleftrightarrow> k = AskPermission \<or> k = AskQuestion \<or> k = AskPlan"

lemmas kind_defs = AskPermission_def AskQuestion_def AskPlan_def

lemma kind_of_prefix: "known_kind k \<Longrightarrow> kind_for_prefix (id_prefix k) = Some k"
  by (auto simp: known_kind_def kind_for_prefix_def id_prefix_def kind_defs)

lemma kind_for_prefixD: "kind_for_prefix px = Some k \<Longrightarrow> known_kind k \<and> id_prefix k = px"
  by (auto simp: known_kind_def kind_for_prefix_def id_prefix_def kind_defs split: if_splits)

lemma prefix_no_dash: "known_kind k \<Longrightarrow> CHR ''-'' \<notin> set (id_prefix k)"
  by (auto simp: known_kind_def id_prefix_def kind_defs)

lemma cut_dash_append: "CHR ''-'' \<notin> set px \<Longrightarrow> cut_dash (px @ CHR ''-'' # rest) = Some (px, rest)"
proof -
  assume "CHR ''-'' \<notin> set px"
  then have "dropWhile (\<lambda>c. c \<noteq> CHR ''-'') (px @ CHR ''-'' # rest) = CHR ''-'' # rest"
    "takeWhile (\<lambda>c. c \<noteq> CHR ''-'') (px @ CHR ''-'' # rest) = px"
    by (subst dropWhile_append2 takeWhile_append2; auto)+
  then show ?thesis by (simp add: cut_dash_def)
qed

lemma cut_dashD: "cut_dash s = Some (px, rest) \<Longrightarrow> s = px @ CHR ''-'' # rest"
proof -
  assume a: "cut_dash s = Some (px, rest)"
  then have "dropWhile (\<lambda>c. c \<noteq> CHR ''-'') s \<noteq> []" unfolding cut_dash_def by (metis list.simps(4) option.distinct(1))
  from hd_dropWhile [OF this] a have "dropWhile (\<lambda>c. c \<noteq> CHR ''-'') s = CHR ''-'' # rest"
    and "px = takeWhile (\<lambda>c. c \<noteq> CHR ''-'') s"
    by (auto simp: cut_dash_def split: list.splits)
  then show ?thesis by (metis takeWhile_dropWhile_id)
qed

lemma dec_no_mark: "cut_mark (dec n) = (dec n, False)"
proof -
  have "\<not> is_digit (CHR ''x'')" unfolding is_digit_def digit_char_def by code_simp
  then have "CHR ''x'' \<notin> set (dec n)" using dec_digits by blast
  then have "take 1 (dec n) \<noteq> ''x''" by (cases "dec n") auto
  then show ?thesis by (simp add: cut_mark_def hiddenMark_def)
qed

lemma cut_mark_hidden: "cut_mark (hiddenMark @ rest) = (rest, True)"
  by (simp add: cut_mark_def)

lemma cut_markD: "cut_mark rest = (digits, hidden) \<Longrightarrow> rest = (if hidden then hiddenMark @ digits else digits)"
  unfolding cut_mark_def by (metis append_take_drop_id fst_conv snd_conv)

lemma digit_range: "is_digit c \<Longrightarrow> CHR ''0'' \<le> c \<and> c \<le> CHR ''9''"
  by (auto simp: is_digit_def digit_char_def less_eq_char_def)

lemma parse_uint_dec: "n < 2 ^ 64 \<Longrightarrow> parse_uint (dec n) = Some n"
  using dec_digits digit_range by (auto simp: parse_uint_def list_all_iff)

lemma canonical_ask_id:
  assumes "known_kind (an_kind num)" and "1 \<le> an_n num" and "an_n num \<le> maxAskNumber"
  shows "canonical_id (ask_id num) = Some num"
proof -
  have small: "an_n num < 2 ^ 64" using assms(3) by (simp add: maxAskNumber_def)
  show ?thesis
  proof (cases "an_hidden num")
    case True
    then show ?thesis using assms
      by (simp add: canonical_id_def ask_id_def cut_dash_append prefix_no_dash kind_of_prefix
        cut_mark_hidden parse_uint_dec [OF small])
  next
    case False
    then show ?thesis using assms
      by (simp add: canonical_id_def ask_id_def cut_dash_append prefix_no_dash kind_of_prefix
        dec_no_mark parse_uint_dec [OF small])
  qed
qed

lemma canonical_idD:
  assumes "canonical_id nm = Some num"
  shows "ask_id num = nm" and "known_kind (an_kind num)" and "1 \<le> an_n num" and "an_n num \<le> maxAskNumber"
proof -
  from assms obtain px rest where c: "cut_dash nm = Some (px, rest)"
    by (auto simp: canonical_id_def split: option.splits)
  with assms obtain kind where k: "kind_for_prefix px = Some kind"
    by (auto simp: canonical_id_def split: option.splits)
  obtain digits hidden where m: "cut_mark rest = (digits, hidden)" by (cases "cut_mark rest")
  from assms c k m obtain n where n: "parse_uint digits = Some n"
    by (auto simp: canonical_id_def split: option.splits)
  from assms c k m n have "1 \<le> n" "n \<le> maxAskNumber" "dec n = digits"
    and num: "num = \<lparr>an_kind = kind, an_hidden = hidden, an_n = n\<rparr>"
    by (auto simp: canonical_id_def split: if_splits)
  with kind_for_prefixD [OF k] cut_dashD [OF c] cut_markD [OF m]
  show "ask_id num = nm" "known_kind (an_kind num)" "1 \<le> an_n num" "an_n num \<le> maxAskNumber"
    by (auto simp: ask_id_def)
qed

lemma ask_id_inject:
  assumes "ask_id m = ask_id n" and "known_kind (an_kind m)" and "known_kind (an_kind n)"
  shows "m = n"
proof -
  let ?rest = "\<lambda>k. (if an_hidden k then hiddenMark @ dec (an_n k) else dec (an_n k))"
  have cut: "cut_dash (ask_id k) = Some (id_prefix (an_kind k), ?rest k)" if "known_kind (an_kind k)" for k
    using cut_dash_append [OF prefix_no_dash [OF that]] by (simp add: ask_id_def)
  have mark: "cut_mark (?rest k) = (dec (an_n k), an_hidden k)" for k
    by (simp add: dec_no_mark cut_mark_hidden)
  from cut [OF assms(2)] cut [OF assms(3)] assms(1)
  have "id_prefix (an_kind m) = id_prefix (an_kind n)" "?rest m = ?rest n" by simp_all
  from this(2) have "(dec (an_n m), an_hidden m) = (dec (an_n n), an_hidden n)" using mark by metis
  moreover from \<open>id_prefix (an_kind m) = id_prefix (an_kind n)\<close> assms(2,3) have "an_kind m = an_kind n"
    using kind_of_prefix by (metis option.inject)
  ultimately show ?thesis by (cases m; cases n) simp
qed

section \<open>The books\<close>

definition open_addrs :: "ask_registry \<Rightarrow> nat list" where
  "open_addrs r = List.map_filter (fmlookup (rg_open r)) (rg_order r)"

text \<open>The invariant of the entries; the addresses in \<open>X\<close> are allocated and on no book yet.\<close>

definition open_ok :: "nat set \<Rightarrow> ask_registry \<Rightarrow> bool" where
  "open_ok X r \<longleftrightarrow> (\<forall>nm a. fmlookup (rg_open r) nm = Some a \<longrightarrow>
     a < length (rg_heap r) \<and> a \<notin> X \<and> ar_id (entry_rec r a) = nm \<and> \<not> en_done (rg_heap r ! a) \<and>
     en_published (rg_heap r ! a))"

definition heap_ok :: "nat set \<Rightarrow> ask_registry \<Rightarrow> bool" where
  "heap_ok X r \<longleftrightarrow> (\<forall>a < length (rg_heap r).
     (en_done (rg_heap r ! a) \<longleftrightarrow> ar_status (entry_rec r a) = AskResolved) \<and>
     (a \<notin> X \<longrightarrow> en_done (rg_heap r ! a) \<or> fmlookup (rg_open r) (ar_id (entry_rec r a)) = Some a))"

definition order_ok :: "ask_registry \<Rightarrow> bool" where
  "order_ok r \<longleftrightarrow> distinct (rg_order r) \<and> set (rg_order r) = fset (fmdom (rg_open r)) \<and>
     sorted_wrt (<) (open_addrs r)"

definition kept_ok :: "ask_registry \<Rightarrow> bool" where
  "kept_ok r \<longleftrightarrow> (\<forall>a \<in> set (rg_done_order r). a < length (rg_heap r) \<and> en_done (rg_heap r ! a)) \<and>
     (\<forall>nm a. rg_done r nm = Some a \<longrightarrow> a \<in> set (rg_done_order r) \<and> ar_id (entry_rec r a) = nm) \<and>
     length (rg_done_order r) \<le> keptAsks"

definition books_ex :: "nat set \<Rightarrow> ask_registry \<Rightarrow> bool" where
  "books_ex X r \<longleftrightarrow> open_ok X r \<and> heap_ok X r \<and> order_ok r \<and> kept_ok r \<and> \<not> rg_panicked r"

lemma open_okD:
  assumes "open_ok X r" and "fmlookup (rg_open r) nm = Some a"
  shows "a < length (rg_heap r)" "a \<notin> X" "ar_id (entry_rec r a) = nm" "\<not> en_done (rg_heap r ! a)"
    "en_published (rg_heap r ! a)"
  using assms unfolding open_ok_def by blast+

lemma close_books_fields [ask_simps]:
  "rg_heap (close_books a r) = rg_heap r" "rg_done (close_books a r) = rg_done r"
  "rg_done_order (close_books a r) = rg_done_order r" "rg_turns (close_books a r) = rg_turns r"
  "rg_turn_seq (close_books a r) = rg_turn_seq r" "rg_retired (close_books a r) = rg_retired r"
  "rg_closed (close_books a r) = rg_closed r" "rg_panicked (close_books a r) = rg_panicked r"
  "rg_id (close_books a r) = rg_id r" "rg_seq (close_books a r) = rg_seq r"
  "rg_hidden_seq (close_books a r) = rg_hidden_seq r" "rg_reserved (close_books a r) = rg_reserved r"
  "rg_reserved_order (close_books a r) = rg_reserved_order r" "rg_incarnation (close_books a r) = rg_incarnation r"
  by (simp_all add: close_books_def Let_def)

lemma keep_locked_fields [ask_simps]:
  "rg_heap (keep_locked a r) = rg_heap r" "rg_open (keep_locked a r) = rg_open r"
  "rg_order (keep_locked a r) = rg_order r" "rg_turns (keep_locked a r) = rg_turns r"
  "rg_turn_seq (keep_locked a r) = rg_turn_seq r" "rg_retired (keep_locked a r) = rg_retired r"
  "rg_closed (keep_locked a r) = rg_closed r" "rg_panicked (keep_locked a r) = rg_panicked r"
  "rg_id (keep_locked a r) = rg_id r" "rg_seq (keep_locked a r) = rg_seq r"
  "rg_hidden_seq (keep_locked a r) = rg_hidden_seq r" "rg_reserved (keep_locked a r) = rg_reserved r"
  "rg_reserved_order (keep_locked a r) = rg_reserved_order r" "rg_incarnation (keep_locked a r) = rg_incarnation r"
  by (simp_all add: keep_locked_def Let_def split: prod.splits)

lemma evict_kept_spec:
  assumes "\<And>nm a. names nm = Some a \<Longrightarrow> a \<in> set addrs \<and> ar_id (en_rec (heap ! a)) = nm"
    and "evict_kept heap addrs names = (addrs', names')"
  shows "set addrs' \<subseteq> set addrs" and "length addrs' \<le> keptAsks"
    and "names' nm = Some a \<Longrightarrow> a \<in> set addrs' \<and> ar_id (en_rec (heap ! a)) = nm"
proof -
  have "set addrs' \<subseteq> set addrs \<and> length addrs' \<le> keptAsks \<and>
      (\<forall>nm a. names' nm = Some a \<longrightarrow> a \<in> set addrs' \<and> ar_id (en_rec (heap ! a)) = nm)"
    using assms
  proof (induction addrs arbitrary: names)
    case Nil
    then show ?case by fastforce
  next
    case (Cons b addrs)
    show ?case
    proof (cases "length (b # addrs) > keptAsks")
      case True
      let ?nm = "ar_id (en_rec (heap ! b))"
      let ?names = "if names ?nm = Some b then names(?nm := None) else names"
      have "?names nm = Some a \<Longrightarrow> a \<in> set addrs \<and> ar_id (en_rec (heap ! a)) = nm" for nm a
        using Cons.prems(1) [of nm a] by (auto split: if_splits)
      moreover from Cons.prems(2) True have "evict_kept heap addrs ?names = (addrs', names')"
        by (simp add: Let_def)
      ultimately have "set addrs' \<subseteq> set addrs \<and> length addrs' \<le> keptAsks \<and>
          (\<forall>nm a. names' nm = Some a \<longrightarrow> a \<in> set addrs' \<and> ar_id (en_rec (heap ! a)) = nm)"
        by (rule Cons.IH)
      then show ?thesis by (meson set_subset_Cons subset_trans)
    next
      case False
      with Cons.prems show ?thesis by auto
    qed
  qed
  then show "set addrs' \<subseteq> set addrs" "length addrs' \<le> keptAsks"
    "names' nm = Some a \<Longrightarrow> a \<in> set addrs' \<and> ar_id (en_rec (heap ! a)) = nm" by blast+
qed

text \<open>An ending of an entry that is not done yet: it leaves the open asks and joins the kept ones.\<close>

definition retired_reg ::
  "nat \<Rightarrow> nat \<Rightarrow> ask_outcome \<Rightarrow> ask_by \<Rightarrow> string \<Rightarrow> ask_answer \<Rightarrow> string \<Rightarrow> ask_registry \<Rightarrow> ask_registry" where
  "retired_reg now a outcome by_whom cause ans label r = snd (retire_ask now a outcome by_whom cause ans label r)"

lemma resolve_entry_simps [simp]:
  "ar_id (en_rec (resolve_entry now oc bw ans e)) = ar_id (en_rec e)"
  "ar_status (en_rec (resolve_entry now oc bw ans e)) = AskResolved"
  "en_done (resolve_entry now oc bw ans e)"
  "en_published (resolve_entry now oc bw ans e) = en_published e"
  "ar_token (en_rec (resolve_entry now oc bw ans e)) = ar_token (en_rec e)"
  "ar_kind (en_rec (resolve_entry now oc bw ans e)) = ar_kind (en_rec e)"
  "ar_body (en_rec (resolve_entry now oc bw ans e)) = ar_body (en_rec e)"
  "ar_outcome (en_rec (resolve_entry now oc bw ans e)) = oc"
  "ar_by (en_rec (resolve_entry now oc bw ans e)) = bw"
  "ar_answer (en_rec (resolve_entry now oc bw ans e)) = ans"
  by (simp_all add: resolve_entry_def)

lemma retire_fields [ask_simps]:
  "rg_heap (retired_reg now a oc bw cause ans lb r) = (rg_heap r)[a := resolve_entry now oc bw ans (rg_heap r ! a)]"
  "rg_turns (retired_reg now a oc bw cause ans lb r) = rg_turns r"
  "rg_turn_seq (retired_reg now a oc bw cause ans lb r) = rg_turn_seq r"
  "rg_retired (retired_reg now a oc bw cause ans lb r) = rg_retired r"
  "rg_closed (retired_reg now a oc bw cause ans lb r) = rg_closed r"
  "rg_id (retired_reg now a oc bw cause ans lb r) = rg_id r"
  "rg_seq (retired_reg now a oc bw cause ans lb r) = rg_seq r"
  "rg_hidden_seq (retired_reg now a oc bw cause ans lb r) = rg_hidden_seq r"
  "rg_reserved (retired_reg now a oc bw cause ans lb r) = rg_reserved r"
  "rg_reserved_order (retired_reg now a oc bw cause ans lb r) = rg_reserved_order r"
  "rg_panicked (retired_reg now a oc bw cause ans lb r) \<longleftrightarrow> rg_panicked r \<or> en_done (rg_heap r ! a)"
  by (simp_all add: retired_reg_def retire_ask_def Let_def ask_simps)

lemma retire_event:
  "fst (retire_ask now a oc bw cause ans lb r) =
     ending_event now cause lb (resolve_entry now oc bw ans (rg_heap r ! a))"
  by (simp add: retire_ask_def Let_def)

lemma retire_pair:
  "retire_ask now a oc bw cause ans lb r =
     (ending_event now cause lb (resolve_entry now oc bw ans (rg_heap r ! a)),
      retired_reg now a oc bw cause ans lb r)"
  by (simp add: retire_event [symmetric] retired_reg_def)

lemma retire_open_fields:
  assumes "a < length (rg_heap r)"
  defines "nm \<equiv> ar_id (entry_rec r a)"
  shows "rg_open (retired_reg now a oc bw cause ans lb r) =
      (if fmlookup (rg_open r) nm = Some a then fmdrop nm (rg_open r) else rg_open r)"
    and "rg_order (retired_reg now a oc bw cause ans lb r) =
      (if fmlookup (rg_open r) nm = Some a then remove1 nm (rg_order r) else rg_order r)"
  using assms(1) by (simp_all add: nm_def retired_reg_def retire_ask_def Let_def ask_simps close_books_def entry_rec_def)

lemma retire_entry_id:
  "a < length (rg_heap r) \<Longrightarrow> ar_id (entry_rec (retired_reg now a oc bw cause ans lb r) b) = ar_id (entry_rec r b)"
  by (cases "a = b") (simp_all add: entry_rec_def ask_simps)

lemma map_filter_eq: "(\<And>y. y \<in> set ys \<Longrightarrow> g y = f y) \<Longrightarrow> List.map_filter g ys = List.map_filter f ys"
  by (induction ys) (auto simp: List.map_filter_simps split: option.splits)

lemma map_filter_remove1:
  assumes "distinct xs" and "\<And>y. y \<noteq> x \<Longrightarrow> g y = f y"
  shows "List.map_filter g (remove1 x xs) = List.map_filter f (filter (\<lambda>y. y \<noteq> x) xs)"
proof -
  have "remove1 x xs = filter (\<lambda>y. y \<noteq> x) xs"
    using assms(1) by (simp add: distinct_remove1_removeAll removeAll_filter_not_eq neq_commute)
  moreover have "List.map_filter g (filter (\<lambda>y. y \<noteq> x) xs) = List.map_filter f (filter (\<lambda>y. y \<noteq> x) xs)"
    by (rule map_filter_eq) (use assms(2) in auto)
  ultimately show ?thesis by simp
qed

lemma sorted_map_filter:
  "sorted_wrt (<) (List.map_filter f xs) \<Longrightarrow> sorted_wrt (<) (List.map_filter f (filter p xs :: 'a list) :: nat list)"
proof (induction xs)
  case (Cons x xs)
  have "set (List.map_filter f (filter p xs)) \<subseteq> set (List.map_filter f xs)" by (auto simp: List.map_filter_def)
  with Cons show ?case by (auto simp: List.map_filter_simps split: option.splits)
qed simp

lemma retire_order_ok:
  assumes "order_ok r" and "a < length (rg_heap r)"
  shows "order_ok (retired_reg now a oc bw cause ans lb r)"
proof (cases "fmlookup (rg_open r) (ar_id (entry_rec r a)) = Some a")
  case True
  let ?nm = "ar_id (entry_rec r a)"
  have "open_addrs (retired_reg now a oc bw cause ans lb r) =
      List.map_filter (fmlookup (rg_open r)) (filter (\<lambda>nm. nm \<noteq> ?nm) (rg_order r))"
    unfolding open_addrs_def retire_open_fields [OF assms(2)] using True assms(1)
    by (simp add: order_ok_def) (rule map_filter_remove1, simp_all)
  with True assms show ?thesis
    by (simp add: order_ok_def open_addrs_def sorted_map_filter retire_open_fields)
next
  case False
  with assms show ?thesis by (simp add: order_ok_def open_addrs_def retire_open_fields)
qed

lemma retire_kept_ok:
  assumes "kept_ok r" and "a < length (rg_heap r)"
  shows "kept_ok (retired_reg now a oc bw cause ans lb r)"
proof -
  let ?r = "retired_reg now a oc bw cause ans lb r"
  let ?heap = "(rg_heap r)[a := resolve_entry now oc bw ans (rg_heap r ! a)]"
  let ?names = "(rg_done r)(ar_id (entry_rec r a) \<mapsto> a)"
  have heap: "rg_heap ?r = ?heap" by (simp add: ask_simps)
  have id: "ar_id (en_rec (?heap ! b)) = ar_id (entry_rec r b)" for b
    using assms(2) by (cases "a = b") (simp_all add: entry_rec_def)
  obtain kept names where e: "evict_kept ?heap (rg_done_order r @ [a]) ?names = (kept, names)"
    by (cases "evict_kept ?heap (rg_done_order r @ [a]) ?names")
  then have books: "rg_done_order ?r = kept" "rg_done ?r = names"
    using assms(2) by (simp_all add: retired_reg_def retire_ask_def keep_locked_def Let_def ask_simps entry_rec_def)
  have start: "b \<in> set (rg_done_order r @ [a]) \<and> ar_id (en_rec (?heap ! b)) = nm" if "?names nm = Some b" for nm b
    using that assms(1) id by (auto simp: kept_ok_def split: if_splits)
  note spec = evict_kept_spec [OF start e]
  have "b < length (rg_heap ?r) \<and> en_done (rg_heap ?r ! b)" if "b \<in> set kept" for b
  proof (cases "b = a")
    case True
    with assms(2) show ?thesis by (simp add: ask_simps)
  next
    case False
    with that spec(1) have "b \<in> set (rg_done_order r)" by auto
    with assms(1) False show ?thesis by (simp add: ask_simps kept_ok_def)
  qed
  then show ?thesis using spec(2,3) unfolding kept_ok_def books by (auto simp: entry_rec_def heap)
qed

lemma retire_open_ok:
  assumes "open_ok X r" and "a < length (rg_heap r)"
  shows "open_ok (X - {a}) (retired_reg now a oc bw cause ans lb r)"
  unfolding open_ok_def
proof (intro allI impI)
  let ?r = "retired_reg now a oc bw cause ans lb r"
  fix nm b
  assume look: "fmlookup (rg_open ?r) nm = Some b"
  then have old: "fmlookup (rg_open r) nm = Some b"
    by (auto simp: retire_open_fields [OF assms(2)] split: if_splits)
  note facts = open_okD [OF assms(1) old]
  have "b \<noteq> a"
  proof
    assume "b = a"
    with facts(3) old have "fmlookup (rg_open r) (ar_id (entry_rec r a)) = Some a" by simp
    with look \<open>b = a\<close> facts(3) show False by (simp add: retire_open_fields [OF assms(2)])
  qed
  then show "b < length (rg_heap ?r) \<and> b \<notin> X - {a} \<and> ar_id (entry_rec ?r b) = nm \<and>
      \<not> en_done (rg_heap ?r ! b) \<and> en_published (rg_heap ?r ! b)"
    using facts by (simp add: ask_simps entry_rec_def)
qed

lemma retire_heap_ok:
  assumes "heap_ok X r" and "open_ok X r" and "a < length (rg_heap r)"
  shows "heap_ok (X - {a}) (retired_reg now a oc bw cause ans lb r)"
  unfolding heap_ok_def
proof (intro allI impI)
  let ?r = "retired_reg now a oc bw cause ans lb r"
  fix b
  assume "b < length (rg_heap ?r)"
  then have b: "b < length (rg_heap r)" by (simp add: ask_simps)
  show "(en_done (rg_heap ?r ! b) \<longleftrightarrow> ar_status (entry_rec ?r b) = AskResolved) \<and>
     (b \<notin> X - {a} \<longrightarrow> en_done (rg_heap ?r ! b) \<or> fmlookup (rg_open ?r) (ar_id (entry_rec ?r b)) = Some b)"
  proof (cases "b = a")
    case True
    with assms(3) show ?thesis by (simp add: ask_simps entry_rec_def)
  next
    case False
    then have same: "rg_heap ?r ! b = rg_heap r ! b" by (simp add: ask_simps)
    have look: "fmlookup (rg_open ?r) (ar_id (entry_rec r b)) = Some b"
      if "fmlookup (rg_open r) (ar_id (entry_rec r b)) = Some b"
      using that False by (auto simp: retire_open_fields [OF assms(3)])
    from assms(1) b have "(en_done (rg_heap r ! b) \<longleftrightarrow> ar_status (entry_rec r b) = AskResolved) \<and>
     (b \<notin> X \<longrightarrow> en_done (rg_heap r ! b) \<or> fmlookup (rg_open r) (ar_id (entry_rec r b)) = Some b)"
      unfolding heap_ok_def by blast
    with same look False show ?thesis by (auto simp: entry_rec_def)
  qed
qed

lemma retire_books:
  assumes "books_ex X r" and "a < length (rg_heap r)" and "\<not> en_done (rg_heap r ! a)"
  shows "books_ex (X - {a}) (retired_reg now a oc bw cause ans lb r)"
  using assms retire_open_ok retire_heap_ok retire_order_ok retire_kept_ok
  by (simp add: books_ex_def ask_simps)

section \<open>What an operation does to the entries\<close>

definition endings :: "ask_event list \<Rightarrow> ask_update list" where
  "endings evs = List.map_filter (\<lambda>ev. case ev of AskEndingEv _ _ u \<Rightarrow> Some u | _ \<Rightarrow> None) evs"

lemma endings_simps [simp]:
  "endings [] = []" "endings (evs @ evs') = endings evs @ endings evs'"
  "endings (ending_event now cause lb e # evs) =
     (case ending_event now cause lb e of AskEndingEv _ _ u \<Rightarrow> u) # endings evs"
  "endings (opening_event now kind body auto ans # evs) = endings evs"
  by (simp_all add: endings_def List.map_filter_def ending_event_def opening_event_def)

text \<open>An ending's event tells what the record of its ask holds.\<close>

definition ending_tells :: "ask_registry \<Rightarrow> ask_update \<Rightarrow> nat \<Rightarrow> bool" where
  "ending_tells r u a \<longleftrightarrow>
     (let rec = entry_rec r a in
      ar_status rec = AskResolved \<and> au_id u = ar_id rec \<and> au_kind u = ar_kind rec \<and>
      au_outcome u = ar_outcome rec \<and> au_by u = ar_by rec \<and> au_option u = aa_option (ar_answer rec) \<and>
      au_answers u = aa_answers (ar_answer rec) \<and> au_skip u = aa_skip (ar_answer rec) \<and>
      au_accepted u = aa_accept (ar_answer rec) \<and> au_body u = ending_body (rg_heap r ! a))"

text \<open>A resolved entry changes no more, but for what became of its decision on the way back.\<close>

definition same_ending :: "ask_entry \<Rightarrow> ask_entry \<Rightarrow> bool" where
  "same_ending e e' \<longleftrightarrow> en_done e' = en_done e \<and> en_published e' = en_published e \<and>
     en_rec e' = (en_rec e)\<lparr>ar_consumed := ar_consumed (en_rec e'), ar_delivered := ar_delivered (en_rec e'),
        ar_lost := ar_lost (en_rec e')\<rparr>"

definition frozen :: "ask_registry \<Rightarrow> ask_registry \<Rightarrow> bool" where
  "frozen r r' \<longleftrightarrow> length (rg_heap r) \<le> length (rg_heap r') \<and>
     (\<forall>a < length (rg_heap r). en_done (rg_heap r ! a) \<longrightarrow> same_ending (rg_heap r ! a) (rg_heap r' ! a)) \<and>
     (\<forall>a < length (rg_heap r). ar_id (entry_rec r' a) = ar_id (entry_rec r a))"

definition done_addrs :: "ask_registry \<Rightarrow> nat set" where
  "done_addrs r = {a. a < length (rg_heap r) \<and> en_done (rg_heap r ! a)}"

definition resolves :: "ask_registry \<Rightarrow> ask_event list \<Rightarrow> ask_registry \<Rightarrow> bool" where
  "resolves r evs r' \<longleftrightarrow> frozen r r' \<and>
     (\<exists>addrs. distinct addrs \<and> set addrs = done_addrs r' - done_addrs r \<and>
        list_all2 (ending_tells r') (endings evs) addrs)"

lemma same_ending_refl [simp]: "same_ending e e"
  by (simp add: same_ending_def)

lemma same_ending_trans: "same_ending e f \<Longrightarrow> same_ending f g \<Longrightarrow> same_ending e g"
  unfolding same_ending_def by (cases "en_rec e"; cases "en_rec f"; cases "en_rec g") simp

lemma same_ending_tells:
  assumes "same_ending (rg_heap r ! a) (rg_heap r' ! a)" and "ending_tells r u a"
  shows "ending_tells r' u a"
  using assms unfolding same_ending_def ending_tells_def ending_body_def Let_def entry_rec_def
  by (cases "en_rec (rg_heap r ! a)"; cases "en_rec (rg_heap r' ! a)") simp

lemma frozen_trans:
  assumes "frozen r s" and "frozen s t"
  shows "frozen r t"
  unfolding frozen_def
proof (intro conjI allI impI)
  show "length (rg_heap r) \<le> length (rg_heap t)" using assms by (simp add: frozen_def)
  fix a assume a: "a < length (rg_heap r)"
  with assms have s: "a < length (rg_heap s)" by (simp add: frozen_def)
  from a s assms show "ar_id (entry_rec t a) = ar_id (entry_rec r a)" by (simp add: frozen_def)
  assume d: "en_done (rg_heap r ! a)"
  with a assms(1) have rs: "same_ending (rg_heap r ! a) (rg_heap s ! a)" by (simp add: frozen_def)
  with d have "en_done (rg_heap s ! a)" by (simp add: same_ending_def)
  with s assms(2) have "same_ending (rg_heap s ! a) (rg_heap t ! a)" by (simp add: frozen_def)
  with rs show "same_ending (rg_heap r ! a) (rg_heap t ! a)" by (rule same_ending_trans)
qed

lemma frozen_done: "frozen r s \<Longrightarrow> done_addrs r \<subseteq> done_addrs s"
  by (auto simp: frozen_def done_addrs_def same_ending_def)

lemma resolves_trans:
  assumes "resolves r evs s" and "resolves s evs' t"
  shows "resolves r (evs @ evs') t"
proof -
  from assms(1) obtain as where as: "distinct as" "set as = done_addrs s - done_addrs r"
    "list_all2 (ending_tells s) (endings evs) as" and f: "frozen r s" by (auto simp: resolves_def)
  from assms(2) obtain bs where bs: "distinct bs" "set bs = done_addrs t - done_addrs s"
    "list_all2 (ending_tells t) (endings evs') bs" and g: "frozen s t" by (auto simp: resolves_def)
  have "ending_tells t u a" if "ending_tells s u a" "a \<in> set as" for u a
  proof -
    from that(2) as(2) have "a < length (rg_heap s)" "en_done (rg_heap s ! a)" by (auto simp: done_addrs_def)
    with g have "same_ending (rg_heap s ! a) (rg_heap t ! a)" by (simp add: frozen_def)
    from same_ending_tells [OF this that(1)] show ?thesis .
  qed
  with as(3) have "list_all2 (ending_tells t) (endings evs) as"
    by (auto simp: list_all2_conv_all_nth)
  with bs(3) have "list_all2 (ending_tells t) (endings (evs @ evs')) (as @ bs)"
    by (simp add: list_all2_appendI)
  moreover have "set (as @ bs) = done_addrs t - done_addrs r" and "distinct (as @ bs)"
    using as bs frozen_done [OF f] frozen_done [OF g] by auto
  ultimately show ?thesis using frozen_trans [OF f g] unfolding resolves_def by blast
qed

text \<open>Sections that resolve nothing.\<close>

lemma resolves_none:
  assumes "frozen r r'" and "done_addrs r' = done_addrs r" and "endings evs = []"
  shows "resolves r evs r'"
  using assms unfolding resolves_def by (intro conjI exI [of _ "[]"]) simp_all

lemma resolves_same_heap: "rg_heap r' = rg_heap r \<Longrightarrow> resolves r [] r'"
  by (rule resolves_none) (simp_all add: frozen_def done_addrs_def entry_rec_def)

lemma resolves_new:
  assumes "rg_heap r' = rg_heap r @ es" and "\<And>e. e \<in> set es \<Longrightarrow> \<not> en_done e" and "endings evs = []"
  shows "resolves r evs r'"
proof (rule resolves_none)
  show "frozen r r'" by (simp add: assms(1) frozen_def entry_rec_def nth_append)
  have "\<not> en_done (rg_heap r' ! a)" if "a < length (rg_heap r')" "\<not> a < length (rg_heap r)" for a
    using that assms(1,2) by (simp add: nth_append)
  moreover have "en_done (rg_heap r' ! a) = en_done (rg_heap r ! a)" if "a < length (rg_heap r)" for a
    using that by (simp add: assms(1) nth_append)
  ultimately show "done_addrs r' = done_addrs r" using assms(1) by (auto simp: done_addrs_def)
qed (rule assms(3))

lemma nth_update: "b < length xs \<Longrightarrow> xs[a := x] ! b = (if a = b then x else xs ! b)"
  by (cases "a = b") simp_all

lemma same_ending_id: "same_ending e e' \<Longrightarrow> ar_id (en_rec e') = ar_id (en_rec e)"
proof -
  assume "same_ending e e'"
  then have "en_rec e' = (en_rec e)\<lparr>ar_consumed := ar_consumed (en_rec e'), ar_delivered := ar_delivered (en_rec e'),
        ar_lost := ar_lost (en_rec e')\<rparr>" by (simp add: same_ending_def)
  from arg_cong [OF this, of ar_id] show ?thesis by simp
qed

lemma resolves_update:
  assumes "rg_heap r' = (rg_heap r)[a := e]" and "same_ending (rg_heap r ! a) e"
  shows "resolves r [] r'"
proof (rule resolves_none)
  from assms(2) have "en_done e = en_done (rg_heap r ! a)" "ar_id (en_rec e) = ar_id (en_rec (rg_heap r ! a))"
    by (simp add: same_ending_def) (rule same_ending_id [OF assms(2)])
  with assms show "frozen r r'" "done_addrs r' = done_addrs r"
    by (auto simp: frozen_def done_addrs_def entry_rec_def nth_update split: if_splits)
qed simp

lemma resolves_publish:
  assumes "rg_heap r' = (rg_heap r)[a := (rg_heap r ! a)\<lparr>en_published := True\<rparr>]"
    and "\<not> en_done (rg_heap r ! a)" and "endings evs = []"
  shows "resolves r evs r'"
proof (rule resolves_none)
  show "frozen r r'" "done_addrs r' = done_addrs r"
    using assms(1,2) by (auto simp: frozen_def done_addrs_def entry_rec_def nth_update split: if_splits)
qed (rule assms(3))

lemma retire_tells:
  assumes "a < length (rg_heap r)"
  shows "list_all2 (ending_tells (retired_reg now a oc bw cause ans lb r))
    (endings [fst (retire_ask now a oc bw cause ans lb r)]) [a]"
  using assms by (simp add: retire_event ending_event_def ending_tells_def entry_rec_def ask_simps ending_body_def endings_def
      List.map_filter_def)

lemma retire_resolves:
  assumes "a < length (rg_heap r)" and "\<not> en_done (rg_heap r ! a)"
  shows "resolves r [fst (retire_ask now a oc bw cause ans lb r)] (retired_reg now a oc bw cause ans lb r)"
  unfolding resolves_def
proof (intro conjI exI)
  let ?r = "retired_reg now a oc bw cause ans lb r"
  show "frozen r ?r" using assms by (auto simp: frozen_def ask_simps entry_rec_def nth_list_update)
  show "set [a] = done_addrs ?r - done_addrs r"
    using assms by (auto simp: done_addrs_def ask_simps nth_list_update split: if_splits)
qed (use retire_tells [OF assms(1)] in simp_all)

section \<open>Opening an entry\<close>

lemma same_asks_books: "same_asks r r1 \<Longrightarrow> books_ex X r1 \<longleftrightarrow> books_ex X r"
  by (simp add: same_asks_def books_ex_def open_ok_def heap_ok_def order_ok_def kept_ok_def open_addrs_def entry_rec_def)

definition fresh_entry :: "nat \<Rightarrow> string \<Rightarrow> ask_kind \<Rightarrow> turn_token \<Rightarrow> ask_body \<Rightarrow> ask_registry \<Rightarrow> ask_entry" where
  "fresh_entry now nm kind t body r =
     \<lparr>en_rec = \<lparr>ar_id = nm, ar_kind = kind, ar_token = t, ar_body = body, ar_status = AskOpen,
        ar_outcome = NoOutcome, ar_by = ByNobody, ar_answer = no_answer, ar_opened = now,
        ar_resolved = 0, ar_consumed = False, ar_delivered = False, ar_lost = '''',
        ar_incarnation = rg_incarnation r\<rparr>, en_done = False, en_published = False\<rparr>"

definition with_entry :: "ask_entry \<Rightarrow> ask_registry \<Rightarrow> ask_registry" where
  "with_entry e r = r\<lparr>rg_heap := rg_heap r @ [e]\<rparr>"

lemma new_entry_eq:
  "new_entry_locked now nm kind t body r =
     (length (rg_heap r), with_entry (fresh_entry now nm kind t body r) r)"
  by (simp add: new_entry_locked_def fresh_entry_def with_entry_def)

lemma with_entry_fields [ask_simps]:
  "rg_heap (with_entry e r) = rg_heap r @ [e]" "rg_open (with_entry e r) = rg_open r"
  "rg_order (with_entry e r) = rg_order r" "rg_done (with_entry e r) = rg_done r"
  "rg_done_order (with_entry e r) = rg_done_order r" "rg_turns (with_entry e r) = rg_turns r"
  "rg_turn_seq (with_entry e r) = rg_turn_seq r" "rg_retired (with_entry e r) = rg_retired r"
  "rg_closed (with_entry e r) = rg_closed r" "rg_panicked (with_entry e r) = rg_panicked r"
  "rg_id (with_entry e r) = rg_id r" "rg_seq (with_entry e r) = rg_seq r"
  "rg_hidden_seq (with_entry e r) = rg_hidden_seq r" "rg_reserved (with_entry e r) = rg_reserved r"
  "rg_reserved_order (with_entry e r) = rg_reserved_order r"
  by (simp_all add: with_entry_def)

lemma fresh_entry_fields [simp]:
  "\<not> en_done (fresh_entry now nm kind t body r)" "\<not> en_published (fresh_entry now nm kind t body r)"
  "ar_status (en_rec (fresh_entry now nm kind t body r)) = AskOpen"
  "ar_id (en_rec (fresh_entry now nm kind t body r)) = nm"
  "ar_token (en_rec (fresh_entry now nm kind t body r)) = t"
  "ar_kind (en_rec (fresh_entry now nm kind t body r)) = kind"
  "ar_body (en_rec (fresh_entry now nm kind t body r)) = body"
  "ar_opened (en_rec (fresh_entry now nm kind t body r)) = now"
  by (simp_all add: fresh_entry_def)

lemma with_entry_old: "b < length (rg_heap r) \<Longrightarrow> entry_rec (with_entry e r) b = entry_rec r b"
  by (simp add: entry_rec_def ask_simps nth_append)

lemma with_entry_books:
  assumes "books_ex {} r" and "\<not> en_done e" and "ar_status (en_rec e) = AskOpen"
  shows "books_ex {length (rg_heap r)} (with_entry e r)"
proof -
  have o: "open_ok {} r" and h: "heap_ok {} r" and rest: "order_ok r" "kept_ok r" "\<not> rg_panicked r"
    using assms(1) by (simp_all add: books_ex_def)
  have "open_ok {length (rg_heap r)} (with_entry e r)"
    using open_okD [OF o] by (auto simp: open_ok_def ask_simps with_entry_old nth_append intro: less_SucI)
  moreover have "heap_ok {length (rg_heap r)} (with_entry e r)"
    using h assms(2,3) by (auto simp: heap_ok_def ask_simps entry_rec_def nth_append less_Suc_eq)
  moreover have "kept_ok (with_entry e r)"
    using rest(2) by (fastforce simp: kept_ok_def ask_simps entry_rec_def nth_append)
  ultimately show ?thesis using rest
    by (simp add: books_ex_def ask_simps order_ok_def open_addrs_def)
qed

lemma publish_books:
  assumes "books_ex X r" and "a \<in> X"
    and "r' = r\<lparr>rg_heap := (rg_heap r)[a := (rg_heap r ! a)\<lparr>en_published := True\<rparr>]\<rparr>"
  shows "books_ex X r'"
proof -
  have same: "en_done (rg_heap r' ! b) = en_done (rg_heap r ! b)" "entry_rec r' b = entry_rec r b"
    if "b < length (rg_heap r)" for b
    using that by (auto simp: assms(3) nth_update entry_rec_def)
  have o: "open_ok X r" and h: "heap_ok X r" and k: "kept_ok r"
    using assms(1) by (simp_all add: books_ex_def)
  have "open_ok X r'"
    unfolding open_ok_def
  proof (intro allI impI)
    fix nm b assume "fmlookup (rg_open r') nm = Some b"
    then have look: "fmlookup (rg_open r) nm = Some b" by (simp add: assms(3))
    note facts = open_okD [OF o look]
    then have "b \<noteq> a" using assms(2) by blast
    then show "b < length (rg_heap r') \<and> b \<notin> X \<and> ar_id (entry_rec r' b) = nm \<and>
        \<not> en_done (rg_heap r' ! b) \<and> en_published (rg_heap r' ! b)"
      using facts by (simp add: assms(3) entry_rec_def)
  qed
  moreover have "heap_ok X r'"
    unfolding heap_ok_def
  proof (intro allI impI)
    fix b assume "b < length (rg_heap r')"
    then have b: "b < length (rg_heap r)" by (simp add: assms(3))
    have op: "rg_open r' = rg_open r" by (simp add: assms(3))
    show "(en_done (rg_heap r' ! b) \<longleftrightarrow> ar_status (entry_rec r' b) = AskResolved) \<and>
       (b \<notin> X \<longrightarrow> en_done (rg_heap r' ! b) \<or> fmlookup (rg_open r') (ar_id (entry_rec r' b)) = Some b)"
      using h b unfolding same [OF b] op heap_ok_def by blast
  qed
  moreover have "kept_ok r'"
  proof -
    have "b < length (rg_heap r)" if "b \<in> set (rg_done_order r)" for b using k that by (simp add: kept_ok_def)
    with k same show ?thesis by (auto simp: kept_ok_def assms(3))
  qed
  ultimately show ?thesis using assms(1) by (simp add: books_ex_def order_ok_def open_addrs_def assms(3))
qed

lemma park_open_addrs:
  assumes "order_ok r" and "ar_id (entry_rec r a) |\<notin>| fmdom (rg_open r)"
  shows "open_addrs (park_entry a r) = open_addrs r @ [a]"
proof -
  let ?nm = "ar_id (entry_rec r a)" and ?r = "park_entry a r"
  have park: "rg_open ?r = fmupd ?nm a (rg_open r)" "rg_order ?r = rg_order r @ [?nm]"
    by (simp_all add: park_entry_def Let_def)
  have "List.map_filter (fmlookup (rg_open ?r)) (rg_order r) = open_addrs r"
    unfolding open_addrs_def
  proof (rule map_filter_eq)
    fix nm assume "nm \<in> set (rg_order r)"
    with assms have "nm \<noteq> ?nm" by (auto simp: order_ok_def)
    then show "fmlookup (rg_open ?r) nm = fmlookup (rg_open r) nm" by (simp add: park)
  qed
  then show ?thesis unfolding open_addrs_def [of ?r] park by (simp add: List.map_filter_def)
qed

lemma park_books:
  assumes "books_ex {a} r" and "a = length (rg_heap r) - 1" and "a < length (rg_heap r)"
    and "ar_id (entry_rec r a) |\<notin>| fmdom (rg_open r)" and "\<not> en_done (rg_heap r ! a)"
  shows "books_ex {} (park_entry a r)"
proof -
  let ?nm = "ar_id (entry_rec r a)" and ?r = "park_entry a r"
  let ?mid = "r\<lparr>rg_heap := (rg_heap r)[a := (rg_heap r ! a)\<lparr>en_published := True\<rparr>]\<rparr>"
  have mid: "books_ex {a} ?mid" by (rule publish_books [OF assms(1)]) simp_all
  have park: "rg_heap ?r = rg_heap ?mid" "rg_open ?r = fmupd ?nm a (rg_open r)" "rg_order ?r = rg_order r @ [?nm]"
    "rg_done ?r = rg_done r" "rg_done_order ?r = rg_done_order r" "rg_panicked ?r = rg_panicked r"
    by (simp_all add: park_entry_def Let_def)
  have entry: "entry_rec ?r b = entry_rec ?mid b" for b by (simp add: entry_rec_def park(1))
  have id: "ar_id (entry_rec ?mid b) = ar_id (entry_rec r b)" if "b < length (rg_heap r)" for b
    using that by (auto simp: entry_rec_def nth_update)
  have o: "open_ok {a} ?mid" and h: "heap_ok {a} ?mid" and od: "order_ok r" and k: "kept_ok ?mid"
    using mid assms(1) by (simp_all add: books_ex_def)
  have "open_ok {} ?r"
    using open_okD [OF o] assms(3,5) id [OF assms(3)]
    by (auto simp: open_ok_def park entry nth_update split: if_splits)
  moreover have "heap_ok {} ?r"
    unfolding heap_ok_def
  proof (intro allI impI)
    fix b assume "b < length (rg_heap ?r)"
    then have b: "b < length (rg_heap ?mid)" "b < length (rg_heap r)" by (simp_all add: park(1))
    have old: "(en_done (rg_heap ?mid ! b) \<longleftrightarrow> ar_status (entry_rec ?mid b) = AskResolved) \<and>
       (b \<noteq> a \<longrightarrow> en_done (rg_heap ?mid ! b) \<or> fmlookup (rg_open r) (ar_id (entry_rec ?mid b)) = Some b)"
      using h b(1) unfolding heap_ok_def by simp
    show "(en_done (rg_heap ?r ! b) \<longleftrightarrow> ar_status (entry_rec ?r b) = AskResolved) \<and>
       (b \<notin> {} \<longrightarrow> en_done (rg_heap ?r ! b) \<or> fmlookup (rg_open ?r) (ar_id (entry_rec ?r b)) = Some b)"
    proof (cases "b = a")
      case True
      with old id [OF b(2)] show ?thesis unfolding entry park by simp
    next
      case False
      have "ar_id (entry_rec ?mid b) \<noteq> ?nm" if "fmlookup (rg_open r) (ar_id (entry_rec ?mid b)) = Some b"
        using that assms(4) by (metis fmdomI)
      then have "fmlookup (rg_open ?r) (ar_id (entry_rec ?mid b)) = Some b"
        if "fmlookup (rg_open r) (ar_id (entry_rec ?mid b)) = Some b"
        using that unfolding park by simp
      with old False show ?thesis unfolding entry park(1) by blast
    qed
  qed
  moreover have "order_ok ?r"
  proof -
    have "open_addrs ?r = open_addrs r @ [a]" by (rule park_open_addrs [OF od assms(4)])
    moreover have "b < a" if "b \<in> set (open_addrs r)" for b
    proof -
      from that obtain nm where "fmlookup (rg_open r) nm = Some b"
        by (auto simp: open_addrs_def List.map_filter_def)
      with open_okD(1,2) [of "{a}" r nm b] assms(1,2) show ?thesis by (auto simp: books_ex_def)
    qed
    ultimately show ?thesis using od assms(4)
      by (auto simp: order_ok_def park sorted_wrt_append)
  qed
  moreover have "kept_ok ?r" using k by (simp add: kept_ok_def park entry)
  ultimately show ?thesis using assms(1) by (simp add: books_ex_def park)
qed

section \<open>The ids issued\<close>

definition given_ids :: "ask_registry \<Rightarrow> string set" where
  "given_ids r = (\<lambda>e. ar_id (en_rec e)) ` set (rg_heap r)"

text \<open>Every number a counter has come to was given to an ask, and so was every reserved one.\<close>

definition ids_but :: "string set \<Rightarrow> ask_registry \<Rightarrow> bool" where
  "ids_but X r \<longleftrightarrow>
     (\<forall>num. known_kind (an_kind num) \<and> 1 \<le> an_n num \<and> an_n num \<le> counter (an_hidden num) r (an_kind num) \<longrightarrow>
        ask_id num \<in> given_ids r \<union> X) \<and>
     (\<forall>num. num |\<in>| rg_reserved r \<longrightarrow> ask_id num \<in> given_ids r \<union> X)"

lemma ids_butD:
  assumes "ids_but X r"
  shows "known_kind (an_kind num) \<Longrightarrow> 1 \<le> an_n num \<Longrightarrow> an_n num \<le> counter (an_hidden num) r (an_kind num) \<Longrightarrow>
      ask_id num \<in> given_ids r \<union> X"
    and "num |\<in>| rg_reserved r \<Longrightarrow> ask_id num \<in> given_ids r \<union> X"
  using assms unfolding ids_but_def by blast+

lemma open_given: "open_ok X r \<Longrightarrow> nm |\<in>| fmdom (rg_open r) \<Longrightarrow> nm \<in> given_ids r"
proof -
  assume o: "open_ok X r" and "nm |\<in>| fmdom (rg_open r)"
  then obtain a where "fmlookup (rg_open r) nm = Some a" by (auto simp: fmlookup_dom_iff)
  from open_okD [OF o this] show ?thesis by (auto simp: given_ids_def entry_rec_def intro!: image_eqI [of _ _ "rg_heap r ! a"])
qed

lemma mint_ids:
  assumes "mint_locked kind hidden r = (nm, r1)" and "ids_but {} r" and "open_ok X r"
  shows "ids_but {nm} r1"
proof -
  have post: "mint_post kind hidden r (nm, r1)" using mint_spec [of kind hidden r] assms(1) by simp
  then have nm: "nm = ask_id (next_number kind hidden r1)"
    and other: "\<And>k h. (k, h) \<noteq> (kind, hidden) \<Longrightarrow> counter h r1 k = counter h r k"
    and sub: "rg_reserved r1 |\<subseteq>| rg_reserved r"
    and passed: "\<And>n. counter hidden r kind < n \<Longrightarrow> n < counter hidden r1 kind \<Longrightarrow>
        \<lparr>an_kind = kind, an_hidden = hidden, an_n = n\<rparr> |\<in>| rg_reserved r \<or>
        ask_id \<lparr>an_kind = kind, an_hidden = hidden, an_n = n\<rparr> |\<in>| fmdom (rg_open r)"
    unfolding mint_post_def Let_def fst_conv snd_conv by blast+
  have given: "given_ids r1 = given_ids r"
    using mint_same_asks [of r kind hidden] assms(1) by (simp add: same_asks_def given_ids_def)
  have "ask_id num \<in> given_ids r \<union> {nm}"
    if k: "known_kind (an_kind num)" and n: "1 \<le> an_n num" "an_n num \<le> counter (an_hidden num) r1 (an_kind num)" for num
  proof (cases "(an_kind num, an_hidden num) = (kind, hidden)")
    case False
    with other n have "an_n num \<le> counter (an_hidden num) r (an_kind num)" by auto
    with ids_butD(1) [OF assms(2) k n(1)] show ?thesis by simp
  next
    case True
    then have num: "num = \<lparr>an_kind = kind, an_hidden = hidden, an_n = an_n num\<rparr>" by (cases num) simp
    consider "an_n num \<le> counter hidden r kind" | "counter hidden r kind < an_n num" "an_n num < counter hidden r1 kind"
      | "an_n num = counter hidden r1 kind" using n(2) True by fastforce
    then show ?thesis
    proof cases
      case 1
      with ids_butD(1) [OF assms(2) k n(1)] True show ?thesis by simp
    next
      case 2
      from passed [OF this] num have "num |\<in>| rg_reserved r \<or> ask_id num |\<in>| fmdom (rg_open r)" by simp
      with ids_butD(2) [OF assms(2)] open_given [OF assms(3)] show ?thesis by blast
    next
      case 3
      with num have "num = next_number kind hidden r1" by (simp add: next_number_def)
      with nm show ?thesis by simp
    qed
  qed
  moreover have "ask_id num \<in> given_ids r \<union> {nm}" if "num |\<in>| rg_reserved r1" for num
    using ids_butD(2) [OF assms(2)] sub that by blast
  ultimately show ?thesis unfolding ids_but_def given by blast
qed

lemma evict_reserved_sub: "evict_reserved nums known = (nums', known') \<Longrightarrow> known' |\<subseteq>| known"
  by (induction nums known arbitrary: nums' known' rule: evict_reserved.induct) (auto split: if_splits)

lemma account_ids:
  assumes "ids_but {} r"
  shows "ids_but {nm} (account_for nm r)"
proof (cases "account_for nm r = r")
  case True
  with assms show ?thesis by (auto simp: ids_but_def)
next
  case False
  then obtain num nums known where num: "canonical_id nm = Some num"
    and ev: "evict_reserved (rg_reserved_order r @ [num]) (finsert num (rg_reserved r)) = (nums, known)"
    and r1: "account_for nm r = r\<lparr>rg_reserved := known, rg_reserved_order := nums\<rparr>"
    by (auto simp: account_for_def Let_def split: option.splits prod.splits if_splits)
  have "known |\<subseteq>| finsert num (rg_reserved r)" by (rule evict_reserved_sub [OF ev])
  then have "ask_id n \<in> given_ids r \<union> {nm}" if "n |\<in>| known" for n
    using that canonical_idD(1) [OF num] ids_butD(2) [OF assms] by blast
  moreover have "given_ids (account_for nm r) = given_ids r" "counter h (account_for nm r) = counter h r" for h
    by (simp_all add: r1 given_ids_def counter_def)
  ultimately show ?thesis using assms unfolding ids_but_def by (simp add: r1)
qed

lemma with_entry_ids:
  assumes "ids_but {ar_id (en_rec e)} r"
  shows "ids_but {} (with_entry e r)"
proof -
  have "given_ids (with_entry e r) = given_ids r \<union> {ar_id (en_rec e)}"
    by (auto simp: given_ids_def ask_simps)
  moreover have "counter h (with_entry e r) = counter h r" for h by (simp add: counter_def ask_simps)
  ultimately show ?thesis using assms by (simp add: ids_but_def ask_simps)
qed

lemma ids_same:
  assumes "ids_but X r" and "given_ids r' = given_ids r" and "rg_seq r' = rg_seq r"
    and "rg_hidden_seq r' = rg_hidden_seq r" and "rg_reserved r' = rg_reserved r"
  shows "ids_but X r'"
  using assms by (simp add: ids_but_def counter_def)

lemma given_ids_update:
  assumes "ar_id (en_rec e) = ar_id (en_rec (rg_heap r ! a))" and "rg_heap r' = (rg_heap r)[a := e]"
  shows "given_ids r' = given_ids r"
proof -
  have "map (\<lambda>e. ar_id (en_rec e)) (rg_heap r') = map (\<lambda>e. ar_id (en_rec e)) (rg_heap r)"
    using assms by (intro nth_equalityI) (auto simp: nth_update)
  then show ?thesis unfolding given_ids_def by (metis set_map)
qed

text \<open>Where every id comes from.\<close>

lemma reserve_spec:
  assumes "reserve_ask kind adopt hidden r = Inr (nm, r1)" and "ids_but {} r" and "open_ok X r"
  shows "same_asks r r1" and "nm |\<notin>| fmdom (rg_open r)" and "ids_but {nm} r1"
proof -
  have "same_asks r r1 \<and> nm |\<notin>| fmdom (rg_open r) \<and> ids_but {nm} r1"
  proof (cases "adopt = []")
    case True
    with assms(1) have m: "mint_locked kind hidden r = (nm, r1)" by (simp add: reserve_ask_def)
    with mint_same_asks [of r kind hidden] mint_not_open [OF m] mint_ids [OF m assms(2,3)] show ?thesis by simp
  next
    case False
    with assms(1) have "nm = adopt" "r1 = account_for adopt r" "adopt |\<notin>| fmdom (rg_open r)"
      by (auto simp: reserve_ask_def split: if_splits)
    with account_same_asks account_ids [OF assms(2)] show ?thesis by blast
  qed
  then show "same_asks r r1" "nm |\<notin>| fmdom (rg_open r)" "ids_but {nm} r1" by blast+
qed

section \<open>Turns\<close>

definition marked :: "turn_state \<Rightarrow> bool" where
  "marked st \<longleftrightarrow> ts_cancelled st \<or> ts_ended st"

text \<open>A token an ask may be opened on, and one no ask is ever opened on again.\<close>

definition live_token :: "ask_registry \<Rightarrow> turn_token \<Rightarrow> bool" where
  "live_token r t \<longleftrightarrow> no_turn t \<or>
     (tt_reg t = rg_id r \<and> (\<exists>st. rg_turns r (tt_n t) = Some st \<and> \<not> marked st))"

definition dead_token :: "ask_registry \<Rightarrow> turn_token \<Rightarrow> bool" where
  "dead_token r t \<longleftrightarrow> \<not> no_turn t \<and> (tt_reg t \<noteq> rg_id r \<or>
     (tt_n t \<le> rg_turn_seq r \<and> (\<forall>st. rg_turns r (tt_n t) = Some st \<longrightarrow> marked st)))"

definition turns_ok :: "ask_registry \<Rightarrow> bool" where
  "turns_ok r \<longleftrightarrow> (\<forall>n st. rg_turns r n = Some st \<longrightarrow> 1 \<le> n \<and> n \<le> rg_turn_seq r) \<and>
     (\<forall>n \<in> set (rg_retired r). n \<le> rg_turn_seq r \<and> (\<forall>st. rg_turns r n = Some st \<longrightarrow> marked st)) \<and>
     length (rg_retired r) \<le> keptTurns"

definition live_asks :: "(ask_entry \<Rightarrow> bool) \<Rightarrow> ask_registry \<Rightarrow> bool" where
  "live_asks leaving r \<longleftrightarrow> (\<forall>nm a. fmlookup (rg_open r) nm = Some a \<longrightarrow>
     leaving (rg_heap r ! a) \<or> (live_token r (ar_token (entry_rec r a)) \<and> \<not> rg_closed r))"

lemma dead_not_live: "dead_token r t \<Longrightarrow> \<not> live_token r t"
  by (auto simp: dead_token_def live_token_def)

lemma evict_turns_spec:
  assumes "evict_turns ns turns = (ns', turns')"
  shows "length ns' \<le> keptTurns" and "set ns' \<subseteq> set ns"
    and "turns' n = turns n \<or> (n \<in> set ns \<and> turns' n = None)"
proof -
  have "length ns' \<le> keptTurns \<and> set ns' \<subseteq> set ns \<and> (\<forall>n. turns' n = turns n \<or> (n \<in> set ns \<and> turns' n = None))"
    using assms
  proof (induction ns turns rule: evict_turns.induct)
    case (2 n ns turns)
    show ?case
    proof (cases "length (n # ns) > keptTurns")
      case True
      with "2.prems" have "evict_turns ns (turns(n := None)) = (ns', turns')" by simp
      from "2.IH" [OF True this] show ?thesis by (auto split: if_splits)
    qed (use 2 in auto)
  qed simp
  then show "length ns' \<le> keptTurns" "set ns' \<subseteq> set ns"
    "turns' n = turns n \<or> (n \<in> set ns \<and> turns' n = None)" by blast+
qed

lemma mark_fields [ask_simps]:
  "rg_heap (mark_locked t c r) = rg_heap r" "rg_open (mark_locked t c r) = rg_open r"
  "rg_order (mark_locked t c r) = rg_order r" "rg_done (mark_locked t c r) = rg_done r"
  "rg_done_order (mark_locked t c r) = rg_done_order r" "rg_turn_seq (mark_locked t c r) = rg_turn_seq r"
  "rg_closed (mark_locked t c r) = rg_closed r" "rg_panicked (mark_locked t c r) = rg_panicked r"
  "rg_id (mark_locked t c r) = rg_id r" "rg_seq (mark_locked t c r) = rg_seq r"
  "rg_hidden_seq (mark_locked t c r) = rg_hidden_seq r" "rg_reserved (mark_locked t c r) = rg_reserved r"
  "rg_reserved_order (mark_locked t c r) = rg_reserved_order r" "entry_rec (mark_locked t c r) = entry_rec r"
  by (simp_all add: mark_locked_def Let_def entry_rec_def fun_eq_iff split: option.splits prod.splits)

lemma mark_cases:
  obtains (same) "mark_locked t c r = r" "no_turn t \<or> (\<forall>st. rg_turns r (tt_n t) = Some st \<longrightarrow> marked st)"
  | (marks) st ns turns where "\<not> no_turn t" "rg_turns r (tt_n t) = Some st" "\<not> marked st"
      "evict_turns (rg_retired r @ [tt_n t])
         ((rg_turns r)(tt_n t \<mapsto> \<lparr>ts_cancelled = c, ts_ended = \<not> c\<rparr>)) = (ns, turns)"
      "mark_locked t c r = r\<lparr>rg_retired := ns, rg_turns := turns\<rparr>"
proof (cases "no_turn t \<or> (\<forall>st. rg_turns r (tt_n t) = Some st \<longrightarrow> marked st)")
  case True
  then have "mark_locked t c r = r" by (auto simp: mark_locked_def marked_def split: option.splits)
  with True that(1) show ?thesis by blast
next
  case False
  then obtain st where st: "\<not> no_turn t" "rg_turns r (tt_n t) = Some st" "\<not> marked st" by blast
  obtain ns turns where ev: "evict_turns (rg_retired r @ [tt_n t])
       ((rg_turns r)(tt_n t \<mapsto> \<lparr>ts_cancelled = c, ts_ended = \<not> c\<rparr>)) = (ns, turns)"
    by fastforce
  from st ev have "mark_locked t c r = r\<lparr>rg_retired := ns, rg_turns := turns\<rparr>"
    by (simp add: mark_locked_def marked_def)
  with st ev that(2) show ?thesis by blast
qed

text \<open>Marking a token: it is marked for good, the states of the turns still running stay, and no mark is
  taken back.\<close>

lemma mark_token:
  assumes "\<not> no_turn t" and "rg_turns (mark_locked t c r) (tt_n t) = Some st"
  shows "marked st"
proof (cases rule: mark_cases [of t c r])
  case same
  with assms show ?thesis by auto
next
  case (marks st' ns turns)
  from evict_turns_spec(3) [OF marks(4), of "tt_n t"] assms(2) marks(5) show ?thesis
    by (auto simp: marked_def)
qed

lemma mark_keeps:
  assumes "turns_ok r" and "rg_turns r n = Some st" and "\<not> marked st" and "n \<noteq> tt_n t \<or> no_turn t"
  shows "rg_turns (mark_locked t c r) n = Some st"
proof (cases rule: mark_cases [of t c r])
  case same
  with assms(2) show ?thesis by simp
next
  case (marks st' ns turns)
  have "n \<notin> set (rg_retired r @ [tt_n t])" using assms marks(1) by (auto simp: turns_ok_def)
  with evict_turns_spec(3) [OF marks(4), of n] assms(2,4) marks(1,5) show ?thesis by auto
qed

lemma mark_from:
  assumes "rg_turns (mark_locked t c r) n = Some st"
  shows "\<exists>st'. rg_turns r n = Some st' \<and> (marked st' \<longrightarrow> marked st)"
proof (cases rule: mark_cases [of t c r])
  case same
  with assms show ?thesis by simp
next
  case (marks st' ns turns)
  from evict_turns_spec(3) [OF marks(4), of n] assms marks(5) have
    "((rg_turns r)(tt_n t \<mapsto> \<lparr>ts_cancelled = c, ts_ended = \<not> c\<rparr>)) n = Some st" by auto
  with marks(2,3) show ?thesis by (auto split: if_splits)
qed

lemma mark_turns_ok:
  assumes "turns_ok r"
  shows "turns_ok (mark_locked t c r)"
proof (cases rule: mark_cases [of t c r])
  case same
  with assms show ?thesis by simp
next
  case (marks st' ns turns)
  have "marked st" if n: "n \<in> set ns" and st: "turns n = Some st" for n st
  proof (cases "n = tt_n t")
    case True
    with mark_token [OF marks(1), of c r st] marks(5) st show ?thesis by simp
  next
    case False
    with n evict_turns_spec(2) [OF marks(4)] have "n \<in> set (rg_retired r)" by auto
    moreover from evict_turns_spec(3) [OF marks(4), of n] st False have "rg_turns r n = Some st" by auto
    ultimately show ?thesis using assms by (auto simp: turns_ok_def)
  qed
  moreover have "1 \<le> n \<and> n \<le> rg_turn_seq r" if "turns n = Some st" for n st
  proof -
    from mark_from [of t c r n st] marks(5) that obtain st' where "rg_turns r n = Some st'" by auto
    with assms show ?thesis by (auto simp: turns_ok_def)
  qed
  moreover have "n \<le> rg_turn_seq r" if "n \<in> set ns" for n
  proof (cases "n = tt_n t")
    case True
    with assms marks(2) show ?thesis by (auto simp: turns_ok_def)
  next
    case False
    with that evict_turns_spec(2) [OF marks(4)] have "n \<in> set (rg_retired r)" by auto
    with assms show ?thesis by (simp add: turns_ok_def)
  qed
  ultimately show ?thesis using evict_turns_spec(1) [OF marks(4)] marks(5) by (simp add: turns_ok_def)
qed

section \<open>The invariant\<close>

definition reserved_ok :: "ask_registry \<Rightarrow> bool" where
  "reserved_ok r \<longleftrightarrow> set (rg_reserved_order r) = fset (rg_reserved r) \<and> distinct (rg_reserved_order r) \<and>
     length (rg_reserved_order r) \<le> keptReservations"

definition asks_ex :: "nat set \<Rightarrow> (ask_entry \<Rightarrow> bool) \<Rightarrow> ask_registry \<Rightarrow> bool" where
  "asks_ex X leaving r \<longleftrightarrow> books_ex X r \<and> ids_but {} r \<and> turns_ok r \<and> live_asks leaving r \<and> reserved_ok r"

definition asks_inv :: "ask_registry \<Rightarrow> bool" where
  "asks_inv r \<longleftrightarrow> asks_ex {} (\<lambda>_. False) r"

lemma asks_exD:
  assumes "asks_ex X leaving r"
  shows "open_ok X r" "heap_ok X r" "order_ok r" "kept_ok r" "\<not> rg_panicked r" "ids_but {} r" "turns_ok r"
    "live_asks leaving r" "reserved_ok r" "books_ex X r"
  using assms by (simp_all add: asks_ex_def books_ex_def)

lemma asks_inv_new: "asks_inv (new_ask_registry reg inc)"
  by (simp add: asks_inv_def asks_ex_def books_ex_def open_ok_def heap_ok_def order_ok_def kept_ok_def
      open_addrs_def ids_but_def counter_def turns_ok_def live_asks_def reserved_ok_def new_ask_registry_def
      List.map_filter_simps) (auto simp: asks_ex_def)

lemma evict_reserved_ok:
  assumes "evict_reserved nums known = (nums', known')" and "set nums = fset known" and "distinct nums"
  shows "set nums' = fset known' \<and> distinct nums' \<and> length nums' \<le> keptReservations"
  using assms
proof (induction nums known rule: evict_reserved.induct)
  case (2 num nums known)
  show ?case
  proof (cases "length (num # nums) > keptReservations")
    case True
    with "2.prems"(1) have "evict_reserved nums (known |-| {|num|}) = (nums', known')" by simp
    moreover have "set nums = fset (known |-| {|num|})" using "2.prems"(2,3) by auto
    ultimately show ?thesis using "2.IH" [OF True] "2.prems"(3) by simp
  qed (use 2 in auto)
qed simp

lemma drop_reservation_ok: "reserved_ok r \<Longrightarrow> reserved_ok (drop_reservation num r)"
  by (auto simp: reserved_ok_def drop_reservation_def length_remove1)

lemma bump_reserved_ok: "reserved_ok r \<Longrightarrow> reserved_ok (bump hidden kind r)"
  by (simp add: reserved_ok_def)

lemma mint_reserved_ok: "reserved_ok r \<Longrightarrow> reserved_ok (snd (mint_locked kind hidden r))"
proof (induction kind hidden r rule: mint_induct)
  case (mint kind hidden r)
  show ?case
    by (cases rule: mint_cases [of kind hidden r])
      (use mint drop_reservation_ok bump_reserved_ok in \<open>metis snd_conv\<close>)+
qed

lemma account_reserved_ok: "reserved_ok r \<Longrightarrow> reserved_ok (account_for nm r)"
proof -
  assume r: "reserved_ok r"
  have "set nums = fset known \<and> distinct nums \<and> length nums \<le> keptReservations"
    if "evict_reserved (rg_reserved_order r @ [num]) (finsert num (rg_reserved r)) = (nums, known)"
      "num |\<notin>| rg_reserved r" for num nums known
    by (rule evict_reserved_ok [OF that(1)]) (use r that(2) in \<open>auto simp: reserved_ok_def\<close>)
  with r show ?thesis by (auto simp: account_for_def reserved_ok_def split: option.splits prod.splits)
qed

lemma retire_ex:
  assumes "asks_ex X leaving r" and "a < length (rg_heap r)" and "\<not> en_done (rg_heap r ! a)"
  shows "asks_ex (X - {a}) leaving (retired_reg now a oc bw cause ans lb r)"
proof -
  let ?r = "retired_reg now a oc bw cause ans lb r"
  have books: "books_ex (X - {a}) ?r" by (rule retire_books [OF asks_exD(10) [OF assms(1)] assms(2,3)])
  have "ids_but {} ?r"
    by (rule ids_same [OF asks_exD(6) [OF assms(1)]])
      (simp_all add: ask_simps, rule given_ids_update [where a = a], simp_all add: ask_simps)
  moreover have "live_asks leaving ?r"
    unfolding live_asks_def
  proof (intro allI impI)
    fix nm b assume look: "fmlookup (rg_open ?r) nm = Some b"
    have o: "open_ok (X - {a}) ?r" using books by (simp add: books_ex_def)
    from open_okD [OF o look] have "b \<noteq> a" using assms(2) by (auto simp: ask_simps)
    then have same: "rg_heap ?r ! b = rg_heap r ! b" "entry_rec ?r b = entry_rec r b"
      by (simp_all add: entry_rec_def ask_simps)
    from look have "fmlookup (rg_open r) nm = Some b"
      by (auto simp: retire_open_fields [OF assms(2)] split: if_splits)
    with asks_exD(8) [OF assms(1)] show "leaving (rg_heap ?r ! b) \<or>
        (live_token ?r (ar_token (entry_rec ?r b)) \<and> \<not> rg_closed ?r)"
      unfolding same live_asks_def by (simp add: live_token_def ask_simps)
  qed
  ultimately show ?thesis using books asks_exD(7,9) [OF assms(1)]
    by (simp add: asks_ex_def turns_ok_def reserved_ok_def ask_simps)
qed

text \<open>Resolving a list of asks: those of them that match leave, the others stay as they are.\<close>

definition stays :: "ask_registry \<Rightarrow> ask_registry \<Rightarrow> string \<Rightarrow> nat \<Rightarrow> bool" where
  "stays r r' nm a \<longleftrightarrow> fmlookup (rg_open r) nm = Some a \<and> rg_heap r' ! a = rg_heap r ! a"

definition same_turns :: "ask_registry \<Rightarrow> ask_registry \<Rightarrow> bool" where
  "same_turns r r' \<longleftrightarrow> rg_turns r' = rg_turns r \<and> rg_turn_seq r' = rg_turn_seq r \<and> rg_closed r' = rg_closed r \<and>
     rg_id r' = rg_id r \<and> rg_seq r' = rg_seq r \<and> rg_hidden_seq r' = rg_hidden_seq r"

lemma retire_stays:
  assumes "open_ok X r" and "a < length (rg_heap r)"
    and "fmlookup (rg_open (retired_reg now a oc bw cause ans lb r)) nm = Some b"
  shows "stays r (retired_reg now a oc bw cause ans lb r) nm b" and "b \<noteq> a"
proof -
  let ?r = "retired_reg now a oc bw cause ans lb r"
  from open_okD(2) [OF retire_open_ok [OF assms(1,2)] assms(3)] open_okD(1,4) [OF retire_open_ok [OF assms(1,2)] assms(3)]
  show ne: "b \<noteq> a" using assms(2) by (auto simp: ask_simps)
  from assms(3) have "fmlookup (rg_open r) nm = Some b"
    by (auto simp: retire_open_fields [OF assms(2)] split: if_splits)
  with ne show "stays r ?r nm b" by (simp add: stays_def ask_simps)
qed

lemma resolve_ids_spec:
  assumes "asks_ex X leaving r" and "resolve_ids clk accepts oc bw nms r = (evs, r')"
  shows "asks_ex X leaving r' \<and> resolves r evs r' \<and> same_turns r r' \<and>
    (\<forall>nm b. fmlookup (rg_open r') nm = Some b \<longrightarrow>
       stays r r' nm b \<and> (nm \<in> set nms \<longrightarrow> \<not> accepts (rg_heap r ! b)))"
  using assms
proof (induction nms arbitrary: clk r evs)
  case Nil
  then show ?case by (auto simp: resolves_same_heap same_turns_def stays_def)
next
  case (Cons nm nms)
  consider (gone) "fmlookup (rg_open r) nm = None"
    | (left) a where "fmlookup (rg_open r) nm = Some a" "\<not> accepts (rg_heap r ! a)"
    | (taken) a where "fmlookup (rg_open r) nm = Some a" "accepts (rg_heap r ! a)"
    by (cases "fmlookup (rg_open r) nm") auto
  then show ?case
  proof cases
    case gone
    with Cons.prems(2) have "resolve_ids clk accepts oc bw nms r = (evs, r')" by simp
    from Cons.IH [OF Cons.prems(1) this] gone show ?thesis by (auto simp: stays_def)
  next
    case left
    with Cons.prems(2) have "resolve_ids clk accepts oc bw nms r = (evs, r')" by simp
    from Cons.IH [OF Cons.prems(1) this] left show ?thesis by (auto simp: stays_def)
  next
    case taken
    let ?r1 = "retired_reg (clk 0) a oc bw '''' no_answer '''' r"
    let ?ev = "fst (retire_ask (clk 0) a oc bw '''' no_answer '''' r)"
    have o: "open_ok X r" by (rule asks_exD(1) [OF Cons.prems(1)])
    note facts = open_okD [OF o taken(1)]
    obtain evs1 where rest: "resolve_ids (\<lambda>k. clk (Suc k)) accepts oc bw nms ?r1 = (evs1, r')" and evs: "evs = ?ev # evs1"
      using Cons.prems(2) taken by (auto simp: retire_pair split: prod.splits)
    have "asks_ex (X - {a}) leaving ?r1" by (rule retire_ex [OF Cons.prems(1) facts(1,4)])
    with facts(2) have "asks_ex X leaving ?r1" by simp
    from Cons.IH [OF this rest] have IH: "asks_ex X leaving r'" "resolves ?r1 evs1 r'" "same_turns ?r1 r'"
      "\<And>m b. fmlookup (rg_open r') m = Some b \<Longrightarrow>
         stays ?r1 r' m b \<and> (m \<in> set nms \<longrightarrow> \<not> accepts (rg_heap ?r1 ! b))" by blast+
    have "resolves r ([?ev] @ evs1) r'"
      by (rule resolves_trans [OF retire_resolves [OF facts(1,4)] IH(2)])
    moreover have "stays r r' m b \<and> (m \<in> set (nm # nms) \<longrightarrow> \<not> accepts (rg_heap r ! b))"
      if look: "fmlookup (rg_open r') m = Some b" for m b
    proof -
      from IH(4) [OF look] have st: "stays ?r1 r' m b" and na: "m \<in> set nms \<longrightarrow> \<not> accepts (rg_heap ?r1 ! b)" by auto
      from st have "fmlookup (rg_open ?r1) m = Some b" by (simp add: stays_def)
      from retire_stays [OF o facts(1) this] have "stays r ?r1 m b" "b \<noteq> a" .
      with st na taken(1) show ?thesis by (auto simp: stays_def)
    qed
    moreover have "same_turns r r'" using IH(3) by (simp add: same_turns_def ask_simps)
    ultimately show ?thesis using IH(1) evs by simp
  qed
qed

lemma live_asks_mono:
  "live_asks leaving r \<Longrightarrow> (\<And>e. leaving e \<Longrightarrow> leaving' e) \<Longrightarrow> live_asks leaving' r"
  unfolding live_asks_def by blast

lemma resolve_all_spec:
  assumes "asks_ex {} leaving r" and "\<And>e. leaving e \<Longrightarrow> accepts e"
    and "resolve_all_locked clk accepts oc bw r = (r', evs)"
  shows "asks_inv r'" and "resolves r evs r'" and "same_turns r r'"
    and "\<And>nm b. fmlookup (rg_open r') nm = Some b \<Longrightarrow> stays r r' nm b \<and> \<not> accepts (rg_heap r' ! b)"
proof -
  from assms(3) have ids: "resolve_ids clk accepts oc bw (rg_order r) r = (evs, r')"
    by (auto simp: resolve_all_locked_def split: prod.splits)
  note spec = resolve_ids_spec [OF assms(1) ids]
  then show "resolves r evs r'" "same_turns r r'" by blast+
  show stay: "stays r r' nm b \<and> \<not> accepts (rg_heap r' ! b)" if look: "fmlookup (rg_open r') nm = Some b" for nm b
  proof -
    from spec look have st: "stays r r' nm b" and na: "nm \<in> set (rg_order r) \<longrightarrow> \<not> accepts (rg_heap r ! b)" by blast+
    from st have "nm |\<in>| fmdom (rg_open r)" by (auto simp: stays_def intro: fmdomI)
    with asks_exD(3) [OF assms(1)] have "nm \<in> set (rg_order r)" by (simp add: order_ok_def)
    with st na show ?thesis by (simp add: stays_def)
  qed
  from spec have ex: "asks_ex {} leaving r'" by blast
  then have "live_asks (\<lambda>_. False) r'"
    using asks_exD(8) [OF ex] stay assms(2) unfolding live_asks_def by blast
  with ex show "asks_inv r'" by (simp add: asks_inv_def asks_ex_def)
qed

section \<open>Each section keeps the invariant\<close>

lemma books_fields:
  assumes "rg_heap r' = rg_heap r" and "rg_open r' = rg_open r" and "rg_order r' = rg_order r"
    and "rg_done r' = rg_done r" and "rg_done_order r' = rg_done_order r" and "rg_panicked r' = rg_panicked r"
  shows "books_ex X r' \<longleftrightarrow> books_ex X r"
  using assms by (simp add: books_ex_def open_ok_def heap_ok_def order_ok_def kept_ok_def open_addrs_def entry_rec_def)

lemma mark_ex:
  assumes "asks_inv r" and "\<not> foreign_token r t" and "\<And>e. ar_token (en_rec e) = t \<Longrightarrow> leaving e"
  shows "asks_ex {} leaving (mark_locked t c r)"
proof -
  let ?r = "mark_locked t c r"
  have ex: "asks_ex {} (\<lambda>_. False) r" using assms(1) by (simp add: asks_inv_def)
  have "live_asks leaving ?r"
    unfolding live_asks_def
  proof (intro allI impI)
    fix nm a assume "fmlookup (rg_open ?r) nm = Some a"
    then have "fmlookup (rg_open r) nm = Some a" by (simp add: ask_simps)
    with asks_exD(8) [OF ex] have live: "live_token r (ar_token (entry_rec r a))" and c: "\<not> rg_closed r"
      by (auto simp: live_asks_def)
    show "leaving (rg_heap ?r ! a) \<or> (live_token ?r (ar_token (entry_rec ?r a)) \<and> \<not> rg_closed ?r)"
    proof (cases "ar_token (entry_rec r a) = t")
      case True
      with assms(3) show ?thesis by (simp add: entry_rec_def ask_simps)
    next
      case ne: False
      show ?thesis
      proof (cases "no_turn (ar_token (entry_rec r a))")
        case True
        with c show ?thesis by (simp add: live_token_def ask_simps)
      next
        case False
        with live obtain st where st: "rg_turns r (tt_n (ar_token (entry_rec r a))) = Some st" "\<not> marked st"
          and reg: "tt_reg (ar_token (entry_rec r a)) = rg_id r" by (auto simp: live_token_def)
        show ?thesis
        proof (cases "tt_n (ar_token (entry_rec r a)) = tt_n t \<and> \<not> no_turn t")
          case True
          with assms(2) reg have "ar_token (entry_rec r a) = t"
            by (intro turn_token.equality) (simp_all add: foreign_token_def)
          with ne show ?thesis by simp
        next
          case False
          then have "rg_turns ?r (tt_n (ar_token (entry_rec r a))) = Some st"
            using mark_keeps [OF asks_exD(7) [OF ex] st] by blast
          with st(2) reg c show ?thesis by (auto simp: live_token_def ask_simps)
        qed
      qed
    qed
  qed
  moreover have "books_ex {} ?r" using asks_exD(10) [OF ex] books_fields [of ?r r "{}"] by (simp add: ask_simps)
  moreover have "ids_but {} ?r" by (rule ids_same [OF asks_exD(6) [OF ex]]) (simp_all add: ask_simps given_ids_def)
  ultimately show ?thesis using mark_turns_ok [OF asks_exD(7) [OF ex]] asks_exD(9) [OF ex]
    by (simp add: asks_ex_def reserved_ok_def ask_simps)
qed

text \<open>What a section is shown to do: keep the invariant, and resolve what its endings say.\<close>

definition keeps :: "ask_registry \<Rightarrow> ask_event list \<Rightarrow> ask_registry \<Rightarrow> bool" where
  "keeps r evs r' \<longleftrightarrow> asks_inv r' \<and> resolves r evs r'"

lemma resolves_mark: "resolves r [] (mark_locked t c r)"
  by (rule resolves_same_heap) (simp add: ask_simps)

lemma resolve_all_keeps:
  assumes "asks_ex {} leaving r1" and "\<And>e. leaving e \<Longrightarrow> accepts e" and "resolves r [] r1"
    and "resolve_all_locked clk accepts oc bw r1 = (r', evs)"
  shows "keeps r evs r'"
  using resolve_all_spec(1,2) [OF assms(1,2,4)] resolves_trans [OF assms(3), of evs r'] by (simp add: keeps_def)

lemma keeps_nothing: "asks_inv r \<Longrightarrow> keeps r [] r"
  by (simp add: keeps_def resolves_same_heap)

lemma cancel_turn_keeps: "asks_inv r \<Longrightarrow> cancel_turn clk t r = (r', evs) \<Longrightarrow> keeps r evs r'"
  using resolve_all_keeps [OF mark_ex [of r t "\<lambda>_. True"] _ resolves_mark]
  by (auto simp: cancel_turn_def keeps_nothing split: if_splits)

lemma cancel_own_keeps: "asks_inv r \<Longrightarrow> cancel_own_turn clk t r = (r', evs) \<Longrightarrow> keeps r evs r'"
  using resolve_all_keeps [OF mark_ex [of r t "\<lambda>e. ar_token (en_rec e) = t"] _ resolves_mark]
  by (auto simp: cancel_own_turn_def keeps_nothing split: if_splits)

lemma end_turn_keeps: "asks_inv r \<Longrightarrow> end_ask_turn clk t r = (r', evs) \<Longrightarrow> keeps r evs r'"
  using resolve_all_keeps [OF mark_ex [of r t "\<lambda>e. ar_token (en_rec e) = t"] _ resolves_mark]
  by (auto simp: end_ask_turn_def keeps_nothing split: if_splits)

lemma close_ex: "asks_inv r \<Longrightarrow> asks_ex {} (\<lambda>_. True) (r\<lparr>rg_closed := True\<rparr>)"
  using books_fields [of "r\<lparr>rg_closed := True\<rparr>" r "{}"]
  by (simp add: asks_inv_def asks_ex_def ids_but_def given_ids_def counter_def turns_ok_def live_asks_def reserved_ok_def)

lemma close_keeps: "asks_inv r \<Longrightarrow> close_registry clk r = (r', evs) \<Longrightarrow> keeps r evs r'"
  using resolve_all_keeps [OF close_ex _ resolves_same_heap]
  by (auto simp: close_registry_def keeps_nothing split: if_splits)

text \<open>An entry begun: its id is of the registry's own making, and no other open ask holds it.\<close>

lemma begin_ex:
  assumes "asks_inv r" and "same_asks r r1" and "ids_but {nm} r1" and "reserved_ok r1"
  shows "asks_ex {length (rg_heap r)} (\<lambda>_. False) (with_entry (fresh_entry clk nm kind t body r1) r1)"
proof -
  let ?e = "fresh_entry clk nm kind t body r1"
  have ex: "asks_ex {} (\<lambda>_. False) r" using assms(1) by (simp add: asks_inv_def)
  have heap: "rg_heap r1 = rg_heap r" using assms(2) by (simp add: same_asks_def)
  have "books_ex {length (rg_heap r1)} (with_entry ?e r1)"
    by (rule with_entry_books) (simp_all add: same_asks_books [OF assms(2)] asks_exD(10) [OF ex])
  moreover have "ids_but {} (with_entry ?e r1)" by (rule with_entry_ids) (simp add: assms(3))
  moreover have "turns_ok (with_entry ?e r1)"
    using asks_exD(7) [OF ex] assms(2) by (simp add: turns_ok_def ask_simps same_asks_def)
  moreover have "live_asks (\<lambda>_. False) (with_entry ?e r1)"
    unfolding live_asks_def
  proof (intro allI impI)
    fix m a assume "fmlookup (rg_open (with_entry ?e r1)) m = Some a"
    then have look: "fmlookup (rg_open r) m = Some a" using assms(2) by (simp add: ask_simps same_asks_def)
    from open_okD [OF asks_exD(1) [OF ex] look] have "a < length (rg_heap r1)" by (simp add: heap)
    then have "entry_rec (with_entry ?e r1) a = entry_rec r a"
      by (simp add: with_entry_old) (simp add: entry_rec_def heap)
    with asks_exD(8) [OF ex] look assms(2) show "False \<or>
        (live_token (with_entry ?e r1) (ar_token (entry_rec (with_entry ?e r1) a)) \<and> \<not> rg_closed (with_entry ?e r1))"
      by (auto simp: live_asks_def live_token_def ask_simps same_asks_def)
  qed
  ultimately show ?thesis using assms(4) by (simp add: asks_ex_def heap reserved_ok_def ask_simps)
qed

lemma begin_resolves:
  assumes "same_asks r r1"
  shows "resolves r [] (with_entry (fresh_entry now nm kind t body r1) r1)"
  by (rule resolves_new [where es = "[fresh_entry now nm kind t body r1]"])
    (use assms in \<open>simp_all add: ask_simps same_asks_def\<close>)

lemma begin_entry_fields:
  assumes "same_asks r r1"
  shows "rg_heap (with_entry (fresh_entry now nm kind t body r1) r1) ! length (rg_heap r) =
      fresh_entry now nm kind t body r1"
    and "length (rg_heap (with_entry (fresh_entry now nm kind t body r1) r1)) = Suc (length (rg_heap r))"
    and "entry_rec (with_entry (fresh_entry now nm kind t body r1) r1) (length (rg_heap r)) =
      en_rec (fresh_entry now nm kind t body r1)"
  using assms by (simp_all add: entry_rec_def ask_simps same_asks_def nth_append)

lemma reserve_reserved_ok:
  "reserve_ask kind adopt hidden r = Inr (nm, r1) \<Longrightarrow> reserved_ok r \<Longrightarrow> reserved_ok r1"
  using mint_reserved_ok [of r kind hidden] account_reserved_ok [of r adopt]
  by (auto simp: reserve_ask_def split: if_splits)

lemma reserve_begin:
  assumes "asks_inv r" and "reserve_ask kind adopt hidden r = Inr (nm, r1)"
  shows "asks_ex {length (rg_heap r)} (\<lambda>_. False) (with_entry (fresh_entry now nm kind t body r1) r1)"
    and "same_asks r r1" and "nm |\<notin>| fmdom (rg_open r)"
proof -
  have ex: "asks_ex {} (\<lambda>_. False) r" using assms(1) by (simp add: asks_inv_def)
  note spec = reserve_spec [OF assms(2) asks_exD(6,1) [OF ex]]
  then show "same_asks r r1" "nm |\<notin>| fmdom (rg_open r)" by simp_all
  show "asks_ex {length (rg_heap r)} (\<lambda>_. False) (with_entry (fresh_entry now nm kind t body r1) r1)"
    by (rule begin_ex [OF assms(1) spec(1,3) reserve_reserved_ok [OF assms(2) asks_exD(9) [OF ex]]])
qed

lemma mint_is_reserve: "mint_locked kind hidden r = (nm, r1) \<Longrightarrow> reserve_ask kind [] hidden r = Inr (nm, r1)"
  by (simp add: reserve_ask_def)

lemma retire_fresh_keeps:
  assumes "asks_ex {a} (\<lambda>_. False) r2" and "a < length (rg_heap r2)" and "\<not> en_done (rg_heap r2 ! a)"
    and "resolves r evs r2" and "retire_ask now a oc bw cause ans lb r2 = (ev, r3)"
  shows "keeps r (evs @ [ev]) r3"
proof -
  from assms(5) have r3: "r3 = retired_reg now a oc bw cause ans lb r2"
    and ev: "ev = fst (retire_ask now a oc bw cause ans lb r2)"
    by (simp_all add: retired_reg_def)
  from retire_ex [OF assms(1-3)] have "asks_inv r3" by (simp add: r3 asks_inv_def)
  moreover have "resolves r (evs @ [ev]) r3"
    unfolding r3 ev by (rule resolves_trans [OF assms(4) retire_resolves [OF assms(2,3)]])
  ultimately show ?thesis by (simp add: keeps_def)
qed

lemma publish_ex:
  assumes "asks_ex X leaving r" and "a \<in> X"
    and "r' = r\<lparr>rg_heap := (rg_heap r)[a := (rg_heap r ! a)\<lparr>en_published := True\<rparr>]\<rparr>"
  shows "asks_ex X leaving r'"
proof -
  have books: "books_ex X r'" by (rule publish_books [OF asks_exD(10) [OF assms(1)] assms(2,3)])
  have "ids_but {} r'"
    by (rule ids_same [OF asks_exD(6) [OF assms(1)]])
      (simp_all add: assms(3), rule given_ids_update [where a = a], simp_all)
  moreover have "live_asks leaving r'"
    unfolding live_asks_def
  proof (intro allI impI)
    fix nm b assume "fmlookup (rg_open r') nm = Some b"
    then have look: "fmlookup (rg_open r) nm = Some b" by (simp add: assms(3))
    with open_okD(2) [OF asks_exD(1) [OF assms(1)] look] assms(2) have "b \<noteq> a" by blast
    with asks_exD(8) [OF assms(1)] look show "leaving (rg_heap r' ! b) \<or>
        (live_token r' (ar_token (entry_rec r' b)) \<and> \<not> rg_closed r')"
      by (simp add: live_asks_def assms(3) entry_rec_def live_token_def)
  qed
  ultimately show ?thesis using books asks_exD(7,9) [OF assms(1)]
    by (simp add: asks_ex_def assms(3) turns_ok_def reserved_ok_def)
qed

lemma open_ask_keeps:
  assumes "asks_inv r" and "open_ask clk room t req r = (res, r', evs)"
  shows "keeps r evs r'"
proof (cases "reserve_ask (rq_kind req) (rq_id req) (refusal_locked room t r \<noteq> None) r")
  case (Inl err)
  with assms show ?thesis by (simp add: open_ask_def keeps_nothing)
next
  case (Inr got)
  obtain nm r1 where got: "got = (nm, r1)" by (cases got)
  note res = Inr [unfolded got]
  let ?body = "set_body_id (rq_kind req) (rq_body req) nm"
  let ?r2 = "with_entry (fresh_entry (clk 0) nm (rq_kind req) t ?body r1) r1" and ?a = "length (rg_heap r)"
  note begun = reserve_begin [OF assms(1) res]
  note fields = begin_entry_fields [OF begun(2), of "clk 0" nm "rq_kind req" t ?body]
  have addr: "length (rg_heap r1) = ?a" using begun(2) by (simp add: same_asks_def)
  have quiet: "resolves r [] ?r2" by (rule begin_resolves [OF begun(2)])
  show ?thesis
  proof (cases "refusal_locked room t r")
    case (Some why)
    obtain oc bw where why: "why = (oc, bw)" by (cases why)
    obtain ev r3 where ret: "retire_ask (clk 1) ?a oc bw '''' no_answer '''' ?r2 = (ev, r3)" by fastforce
    have out: "r' = r3" "evs = [ev]"
      using assms(2) res ret Some why by (simp_all add: open_ask_def new_entry_eq addr Let_def)
    have "keeps r ([] @ [ev]) r3"
      by (rule retire_fresh_keeps [OF begun(1) _ _ quiet ret]) (simp_all add: fields)
    with out show ?thesis by simp
  next
    case None
    let ?r3 = "park_entry ?a ?r2"
    have out: "r' = ?r3" "evs = [opening_event (clk 1) (rq_kind req) ?body False no_answer]"
      using assms(2) res None by (simp_all add: open_ask_def new_entry_eq addr Let_def)
    have notopen: "nm |\<notin>| fmdom (rg_open ?r2)" using begun(2,3) by (simp add: ask_simps same_asks_def)
    have nm: "ar_id (entry_rec ?r2 ?a) = nm" by (simp add: fields)
    have books: "books_ex {} ?r3"
      by (rule park_books [OF asks_exD(10) [OF begun(1)]]) (use fields notopen nm in simp_all)
    have r3: "rg_heap ?r3 = (rg_heap ?r2)[?a := (rg_heap ?r2 ! ?a)\<lparr>en_published := True\<rparr>]"
      "rg_open ?r3 = fmupd nm ?a (rg_open ?r2)" "rg_turns ?r3 = rg_turns r" "rg_turn_seq ?r3 = rg_turn_seq r"
      "rg_retired ?r3 = rg_retired r" "rg_closed ?r3 = rg_closed r" "rg_id ?r3 = rg_id r"
      "rg_seq ?r3 = rg_seq ?r2" "rg_hidden_seq ?r3 = rg_hidden_seq ?r2" "rg_reserved ?r3 = rg_reserved ?r2"
      "rg_reserved_order ?r3 = rg_reserved_order ?r2"
      using begun(2) nm by (simp_all add: park_entry_def Let_def ask_simps same_asks_def)
    have "ids_but {} ?r3"
      by (rule ids_same [OF asks_exD(6) [OF begun(1)]]) (simp_all add: r3, rule given_ids_update [OF _ r3(1)], simp)
    moreover have "live_asks (\<lambda>_. False) ?r3"
      unfolding live_asks_def
    proof (intro allI impI)
      fix m b assume look: "fmlookup (rg_open ?r3) m = Some b"
      have live: "live_token r t" "\<not> rg_closed r"
        using None by (auto simp: refusal_locked_def live_token_def marked_def Let_def split: if_splits option.splits)
      have "live_token r (ar_token (entry_rec ?r3 b)) \<and> \<not> rg_closed r"
      proof (cases "b = ?a")
        case True
        then have "entry_rec ?r3 b = entry_rec ?r2 ?a" by (simp add: entry_rec_def r3 fields)
        with live fields(3) show ?thesis by simp
      next
        case False
        with look have old: "fmlookup (rg_open ?r2) m = Some b" by (auto simp: r3 split: if_splits)
        from False have "entry_rec ?r3 b = entry_rec ?r2 b" by (simp add: entry_rec_def r3)
        with asks_exD(8) [OF begun(1)] old begun(2) show ?thesis
          by (auto simp: live_asks_def live_token_def ask_simps same_asks_def)
      qed
      then show "False \<or> (live_token ?r3 (ar_token (entry_rec ?r3 b)) \<and> \<not> rg_closed ?r3)"
        by (simp add: live_token_def r3)
    qed
    moreover have "turns_ok ?r3" "reserved_ok ?r3"
      using asks_exD(7,9) [OF begun(1)] begun(2) by (simp_all add: turns_ok_def reserved_ok_def r3 ask_simps same_asks_def)
    ultimately have "asks_inv ?r3" using books by (simp add: asks_inv_def asks_ex_def)
    moreover have "resolves ?r2 evs ?r3"
      by (rule resolves_publish [OF r3(1)]) (simp_all add: fields out)
    ultimately show ?thesis using resolves_trans [OF quiet, of evs ?r3] out(1) by (simp add: keeps_def)
  qed
qed

text \<open>An ask that is resolved as it is recorded, its opening published or not.\<close>

lemma record_keeps:
  assumes "asks_inv r" and "reserve_ask kind adopt hidden r = Inr (nm, r1)"
    and "r2 = with_entry (fresh_entry now nm kind t body r1) r1" and "a = length (rg_heap r1)"
    and "r3 = (if publishes then r2\<lparr>rg_heap := (rg_heap r2)[a := (rg_heap r2 ! a)\<lparr>en_published := True\<rparr>]\<rparr> else r2)"
    and "retire_ask at a oc bw cause ans lb r3 = (ev, r4)" and "endings evs = []"
  shows "keeps r (evs @ [ev]) r4"
proof -
  note begun = reserve_begin [OF assms(1,2)]
  note ex2 = begun(1) [of now t body, folded assms(3)]
  note fields = begin_entry_fields [OF begun(2), of now nm kind t body, folded assms(3)]
  have a: "a = length (rg_heap r)" using begun(2) assms(4) by (simp add: same_asks_def)
  have quiet: "resolves r [] r2" unfolding assms(3) by (rule begin_resolves [OF begun(2)])
  have ex: "asks_ex {a} (\<lambda>_. False) r3"
    using ex2 publish_ex [OF ex2, of a r3] by (auto simp: assms(5) a)
  have "resolves r2 evs r3"
  proof (cases publishes)
    case True
    then show ?thesis by (intro resolves_publish [of _ _ a]) (simp_all add: assms(5,7) fields a)
  next
    case False
    have "resolves r2 evs r2" by (rule resolves_none) (simp_all add: frozen_def assms(7))
    with False show ?thesis by (simp add: assms(5))
  qed
  from resolves_trans [OF quiet this] have "resolves r evs r3" by simp
  moreover have "a < length (rg_heap r3)" "\<not> en_done (rg_heap r3 ! a)" by (simp_all add: assms(5) fields a)
  ultimately show ?thesis by (intro retire_fresh_keeps [OF ex _ _ _ assms(6)])
qed

lemma automatic_keeps:
  assumes "asks_inv r" and "automatic clk t req ans r = (a, r', evs)"
  shows "keeps r evs r'"
proof -
  obtain oc ans' lb where out: "automatic_outcome req ans = (oc, ans', lb)" by (cases "automatic_outcome req ans")
  let ?pub = "publishes_opening (rq_kind req) oc"
  obtain nm r1 where nm: "automatic_id req (\<not> ?pub) r = (nm, r1)" by fastforce
  have "\<exists>adopt. reserve_ask (rq_kind req) adopt (\<not> ?pub) r = Inr (nm, r1)"
    using nm mint_is_reserve [of "rq_kind req" "\<not> ?pub" r nm r1]
    by (auto simp: automatic_id_def split: sum.splits)
  then obtain adopt where res: "reserve_ask (rq_kind req) adopt (\<not> ?pub) r = Inr (nm, r1)" ..
  let ?body = "set_body_id (rq_kind req) (rq_body req) nm"
  define r2 where "r2 = with_entry (fresh_entry (clk 0) nm (rq_kind req) t ?body r1) r1"
  define r3 where "r3 = (if ?pub then
      r2\<lparr>rg_heap := (rg_heap r2)[length (rg_heap r1) := (rg_heap r2 ! length (rg_heap r1))\<lparr>en_published := True\<rparr>]\<rparr>
      else r2)"
  obtain ev r4 where ret: "retire_ask (if ?pub then clk 2 else clk 1) (length (rg_heap r1)) oc AskByPolicy '''' ans' lb r3 = (ev, r4)" by fastforce
  define evs0 where "evs0 = (if ?pub then [opening_event (clk 1) (rq_kind req) ?body True ans'] else [])"
  have res': "r' = r4" "evs = evs0 @ [ev]"
    using assms(2) ret unfolding automatic_def out Let_def new_entry_eq r3_def r2_def evs0_def by (simp_all add: nm)
  have "keeps r (evs0 @ [ev]) r4"
    by (rule record_keeps [OF assms(1) res r2_def refl r3_def ret]) (simp add: evs0_def)
  with res' show ?thesis by simp
qed

lemma early_keeps:
  assumes "asks_inv r" and "answered_early clk t req oc bw r = (a, r', evs)"
  shows "keeps r evs r'"
proof -
  obtain nm r1 where m: "mint_locked (rq_kind req) True r = (nm, r1)" by fastforce
  let ?body = "set_body_id (rq_kind req) (rq_body req) nm"
  define oc' where "oc' = (if oc = NoOutcome then AskCancelled else oc)"
  define bw' where "bw' = (if bw = ByNobody then AskByProvider else bw)"
  define r2 where "r2 = with_entry (fresh_entry (clk 0) nm (rq_kind req) t ?body r1) r1"
  obtain ev r3 where ret: "retire_ask (clk 1) (length (rg_heap r1)) oc' bw' '''' no_answer '''' r2 = (ev, r3)" by fastforce
  have "r' = r3" "evs = [ev]" using assms(2) m ret
    by (simp_all add: answered_early_def Let_def new_entry_eq oc'_def bw'_def r2_def)
  moreover have "keeps r ([] @ [ev]) r3"
    by (rule record_keeps [OF assms(1) mint_is_reserve [OF m] r2_def refl _ ret, where publishes = False]) simp_all
  ultimately show ?thesis by simp
qed

lemma open_retire_keeps:
  assumes "asks_inv r" and "fmlookup (rg_open r) nm = Some a"
    and "retire_ask now a oc bw cause ans lb r = (ev, r')"
  shows "keeps r [ev] r'"
proof -
  have ex: "asks_ex {} (\<lambda>_. False) r" using assms(1) by (simp add: asks_inv_def)
  note facts = open_okD [OF asks_exD(1) [OF ex] assms(2)]
  from retire_ex [OF ex facts(1,4), of now oc bw cause ans lb] have "asks_inv r'"
    using assms(3) by (simp add: asks_inv_def retire_pair)
  with retire_resolves [OF facts(1,4), of now oc bw cause ans lb] assms(3) show ?thesis
    by (simp add: keeps_def retire_pair)
qed

lemma answer_keeps:
  assumes "asks_inv r" and "answer_ask now room cause nm a r = (res, r', evs)"
  shows "keeps r evs r'"
  using assms open_retire_keeps [OF assms(1)]
  by (auto simp: answer_ask_def keeps_nothing Let_def split: option.splits sum.splits prod.splits if_splits)

lemma cancel_by_call_keeps:
  assumes "asks_inv r" and "cancel_by_call now a r = (r', evs)"
  shows "keeps r evs r'"
  using assms open_retire_keeps [OF assms(1)]
  by (auto simp: cancel_by_call_def keeps_nothing Let_def split: prod.splits if_splits)

text \<open>Reports touch what became of a decision alone.\<close>

lemma update_keeps:
  assumes "asks_inv r" and "same_ending (rg_heap r ! a) e" and "r' = r\<lparr>rg_heap := (rg_heap r)[a := e]\<rparr>"
  shows "keeps r [] r'"
proof -
  have ex: "asks_ex {} (\<lambda>_. False) r" using assms(1) by (simp add: asks_inv_def)
  have rec: "en_rec e = (en_rec (rg_heap r ! a))\<lparr>ar_consumed := ar_consumed (en_rec e),
      ar_delivered := ar_delivered (en_rec e), ar_lost := ar_lost (en_rec e)\<rparr>"
    and flags: "en_done e = en_done (rg_heap r ! a)" "en_published e = en_published (rg_heap r ! a)"
    using assms(2) by (simp_all add: same_ending_def)
  have "ar_id (en_rec e) = ar_id (en_rec (rg_heap r ! a))"
    "ar_status (en_rec e) = ar_status (en_rec (rg_heap r ! a))"
    "ar_token (en_rec e) = ar_token (en_rec (rg_heap r ! a))"
    using arg_cong [OF rec, of ar_id] arg_cong [OF rec, of ar_status] arg_cong [OF rec, of ar_token] by simp_all
  note e = this flags
  have at: "rg_heap r' ! b = (if b = a \<and> a < length (rg_heap r) then e else rg_heap r ! b)" for b
    by (cases "a < length (rg_heap r)") (auto simp: assms(3) nth_list_update list_update_beyond)
  have same: "en_done (rg_heap r' ! b) = en_done (rg_heap r ! b)" "en_published (rg_heap r' ! b) = en_published (rg_heap r ! b)"
    "ar_id (entry_rec r' b) = ar_id (entry_rec r b)" "ar_status (entry_rec r' b) = ar_status (entry_rec r b)"
    "ar_token (entry_rec r' b) = ar_token (entry_rec r b)" for b
    unfolding entry_rec_def at using e by simp_all
  have "length (rg_heap r') = length (rg_heap r)" "rg_open r' = rg_open r" "rg_order r' = rg_order r"
    "rg_done r' = rg_done r" "rg_done_order r' = rg_done_order r" "rg_panicked r' = rg_panicked r"
    "rg_turns r' = rg_turns r" "rg_id r' = rg_id r" "rg_closed r' = rg_closed r"
    by (simp_all add: assms(3))
  note fields = this
  have "books_ex {} r' \<longleftrightarrow> books_ex {} r"
    unfolding books_ex_def open_ok_def heap_ok_def order_ok_def kept_ok_def open_addrs_def same fields ..
  with asks_exD(10) [OF ex] have "books_ex {} r'" by simp
  moreover have "ids_but {} r'"
    by (rule ids_same [OF asks_exD(6) [OF ex]])
      (simp_all add: assms(3), rule given_ids_update [where a = a and e = e],
        simp_all add: same_ending_id [OF assms(2)])
  moreover have "live_asks (\<lambda>_. False) r'" using asks_exD(8) [OF ex]
    unfolding live_asks_def live_token_def same fields by blast
  ultimately have "asks_inv r'" using asks_exD(7,9) [OF ex]
    by (simp add: asks_inv_def asks_ex_def turns_ok_def reserved_ok_def assms(3))
  moreover have "resolves r [] r'" by (rule resolves_update [OF _ assms(2)]) (simp add: assms(3))
  ultimately show ?thesis by (simp add: keeps_def)
qed

lemma report_keeps: "asks_inv r \<Longrightarrow> keeps r [] (fst (report_ask known nm rep r))"
proof -
  assume r: "asks_inv r"
  have "same_ending (rg_heap r ! a) (merge_report rep (rg_heap r ! a))" for a
    by (simp add: same_ending_def merge_report_def)
  from update_keeps [OF r this refl] show ?thesis
    by (auto simp: report_ask_def Let_def keeps_nothing [OF r] split: option.splits prod.splits)
qed

lemma take_keeps: "asks_inv r \<Longrightarrow> keeps r [] (snd (wait_take a r))"
  by (rule update_keeps [where a = a]) (simp_all add: wait_take_def Let_def same_ending_def entry_rec_def)

lemma begin_turn_keeps: "asks_inv r \<Longrightarrow> keeps r [] (snd (begin_ask_turn r))"
proof -
  assume r: "asks_inv r"
  let ?r = "snd (begin_ask_turn r)" and ?n = "Suc (rg_turn_seq r)"
  have ex: "asks_ex {} (\<lambda>_. False) r" using r by (simp add: asks_inv_def)
  have r': "?r = r\<lparr>rg_turn_seq := ?n, rg_turns := (rg_turns r)(?n \<mapsto> \<lparr>ts_cancelled = False, ts_ended = False\<rparr>)\<rparr>"
    by (simp add: begin_ask_turn_def Let_def)
  have fresh: "rg_turns r ?n = None"
    using asks_exD(7) [OF ex] unfolding turns_ok_def by (metis Suc_n_not_le_n option.exhaust)
  have "books_ex {} ?r" using asks_exD(10) [OF ex] books_fields [of ?r r "{}"] by (simp add: r')
  moreover have "ids_but {} ?r" by (rule ids_same [OF asks_exD(6) [OF ex]]) (simp_all add: r' given_ids_def)
  moreover have "turns_ok ?r"
    using asks_exD(7) [OF ex] by (fastforce simp: turns_ok_def r' split: if_splits)
  moreover have "live_asks (\<lambda>_. False) ?r"
    using asks_exD(8) [OF ex] fresh by (fastforce simp: live_asks_def live_token_def r' entry_rec_def)
  moreover have "reserved_ok ?r" using asks_exD(9) [OF ex] by (simp add: reserved_ok_def r')
  ultimately have "asks_inv ?r" by (simp add: asks_inv_def asks_ex_def)
  moreover have "resolves r [] ?r" by (rule resolves_same_heap) (simp add: r')
  ultimately show ?thesis by (simp add: keeps_def)
qed

lemma section_keeps: "asks_inv r \<Longrightarrow> keeps r (snd (ask_step opr r)) (fst (ask_step opr r))"
  by (induction opr r rule: ask_step.induct)
    (simp_all add: begin_turn_keeps cancel_turn_keeps [OF _ prod.collapse [symmetric]]
      cancel_own_keeps [OF _ prod.collapse [symmetric]] end_turn_keeps [OF _ prod.collapse [symmetric]]
      close_keeps [OF _ prod.collapse [symmetric]] cancel_by_call_keeps [OF _ prod.collapse [symmetric]]
      report_keeps take_keeps open_ask_keeps [where res = "fst x" and r' = "fst (snd x)" and evs = "snd (snd x)" for x]
      automatic_keeps [where a = "fst x" and r' = "fst (snd x)" and evs = "snd (snd x)" for x]
      early_keeps [where a = "fst x" and r' = "fst (snd x)" and evs = "snd (snd x)" for x]
      answer_keeps [where res = "fst x" and r' = "fst (snd x)" and evs = "snd (snd x)" for x])

interpretation asks: op_invariant ask_step "\<lambda>_ _. True" asks_inv
  by unfold_locales (use section_keeps in \<open>simp add: keeps_def\<close>)

lemma any_ops_ok: "ops_ok step (\<lambda>_ _. True) ops r"
  by (induction ops arbitrary: r) simp_all

lemma run_keeps: "asks_inv r \<Longrightarrow> keeps r (snd (run_ops ask_step ops r)) (fst (run_ops ask_step ops r))"
proof (induction ops arbitrary: r)
  case Nil
  then show ?case by (simp add: keeps_nothing)
next
  case (Cons opr ops)
  let ?r1 = "fst (ask_step opr r)"
  have one: "keeps r (snd (ask_step opr r)) ?r1" by (rule section_keeps [OF Cons.prems])
  then have "keeps ?r1 (snd (run_ops ask_step ops ?r1)) (fst (run_ops ask_step ops ?r1))"
    by (intro Cons.IH) (simp add: keeps_def)
  with one resolves_trans show ?case by (auto simp: keeps_def split_beta Let_def)
qed

lemma asks_run_inv: "asks_inv (fst (run_ops ask_step ops (new_ask_registry reg inc)))"
  by (rule asks.run_inv [OF asks_inv_new any_ops_ok])

section \<open>What only grows\<close>

definition later :: "ask_registry \<Rightarrow> ask_registry \<Rightarrow> bool" where
  "later r r' \<longleftrightarrow> rg_id r' = rg_id r \<and> (rg_closed r \<longrightarrow> rg_closed r') \<and>
     (\<forall>h k. counter h r k \<le> counter h r' k) \<and> (\<forall>t. dead_token r t \<longrightarrow> dead_token r' t)"

lemma later_trans: "later r s \<Longrightarrow> later s t \<Longrightarrow> later r t"
  by (simp add: later_def) (meson order_trans)

lemma later_fields:
  "rg_id r' = rg_id r \<Longrightarrow> rg_closed r' = rg_closed r \<Longrightarrow> rg_turns r' = rg_turns r \<Longrightarrow>
   rg_turn_seq r' = rg_turn_seq r \<Longrightarrow> (\<And>h k. counter h r k \<le> counter h r' k) \<Longrightarrow> later r r'"
  by (simp add: later_def dead_token_def)

lemma later_same: "same_turns r r' \<Longrightarrow> later r r'"
  by (rule later_fields) (simp_all add: same_turns_def counter_def)

lemma later_refl: "later r r"
  by (simp add: later_def)

lemma mint_later: "mint_locked kind hidden r = (nm, r1) \<Longrightarrow> later r r1"
proof (rule later_fields)
  assume m: "mint_locked kind hidden r = (nm, r1)"
  with mint_same_asks [of r kind hidden] show "rg_id r1 = rg_id r" "rg_closed r1 = rg_closed r"
    "rg_turns r1 = rg_turns r" "rg_turn_seq r1 = rg_turn_seq r" by (simp_all add: same_asks_def)
  fix h k
  have post: "mint_post kind hidden r (nm, r1)" using mint_spec [of kind hidden r] m by simp
  show "counter h r k \<le> counter h r1 k"
    using post unfolding mint_post_def fst_conv snd_conv by (cases "(k, h) = (kind, hidden)") auto
qed

lemma account_later: "later r (account_for nm r)"
  by (rule later_fields) (simp_all add: account_for_def counter_def Let_def split: option.splits prod.splits)

lemma reserve_later: "reserve_ask kind adopt hidden r = Inr (nm, r1) \<Longrightarrow> later r r1"
  using mint_later account_later by (auto simp: reserve_ask_def split: if_splits)

lemma with_entry_later: "later r (with_entry e r)"
  by (rule later_same) (simp add: same_turns_def ask_simps)

lemma retire_later: "retire_ask now a oc bw cause ans lb r = (ev, r') \<Longrightarrow> later r r'"
  by (rule later_same) (auto simp: retire_pair same_turns_def ask_simps)

lemma heap_later: "later r (r\<lparr>rg_heap := h\<rparr>)" "later r (park_entry a r)"
  by (rule later_same, simp add: same_turns_def park_entry_def Let_def)+

lemma mark_later:
  assumes "turns_ok r"
  shows "later r (mark_locked t c r)"
  unfolding later_def
proof (intro conjI allI impI)
  fix x assume "dead_token r x"
  then show "dead_token (mark_locked t c r) x"
    using mark_from by (fastforce simp: dead_token_def ask_simps)
qed (simp_all add: ask_simps counter_def)

lemma resolve_all_later:
  "asks_ex {} leaving r \<Longrightarrow> (\<And>e. leaving e \<Longrightarrow> accepts e) \<Longrightarrow> resolve_all_locked clk accepts oc bw r = (r', evs) \<Longrightarrow> later r r'"
  by (rule later_same [OF resolve_all_spec(3)])

text \<open>A cancel or an end of a turn: the mark, then the endings.\<close>

lemma marked_run:
  assumes "asks_inv r" and "\<not> foreign_token r t" and "\<And>e. ar_token (en_rec e) = t \<Longrightarrow> accepts e"
    and "resolve_all_locked clk accepts oc bw (mark_locked t c r) = (r', evs)"
  shows "later r r'"
    and "\<not> no_turn t \<Longrightarrow> tt_n t \<le> rg_turn_seq r \<Longrightarrow> dead_token r' t"
    and "\<And>nm b. fmlookup (rg_open r') nm = Some b \<Longrightarrow> \<not> accepts (rg_heap r' ! b)"
proof -
  have ex: "asks_ex {} accepts (mark_locked t c r)" by (rule mark_ex [OF assms(1,2)]) (rule assms(3))
  note spec = resolve_all_spec [OF ex _ assms(4)]
  have tok: "turns_ok r" using assms(1) by (simp add: asks_inv_def asks_ex_def)
  from spec(3) have step: "later (mark_locked t c r) r'" by (simp add: later_same)
  with mark_later [OF tok] later_trans show "later r r'" by blast
  show "\<And>nm b. fmlookup (rg_open r') nm = Some b \<Longrightarrow> \<not> accepts (rg_heap r' ! b)" using spec(4) by blast
  assume t: "\<not> no_turn t" "tt_n t \<le> rg_turn_seq r"
  then have "dead_token (mark_locked t c r) t"
    using mark_token [of t c r] by (auto simp: dead_token_def ask_simps)
  with step show "dead_token r' t" by (simp add: later_def)
qed

lemma turn_deadens:
  assumes "asks_inv r" and "\<not> foreign_token r t" and "\<not> no_turn t" and "tt_n t \<le> rg_turn_seq r"
  shows "dead_token (fst (cancel_turn clk t r)) t" "dead_token (fst (cancel_own_turn clk t r)) t"
    "dead_token (fst (end_ask_turn clk t r)) t"
proof -
  have dead: "dead_token (fst (resolve_all_locked clk accepts oc bw (mark_locked t c r))) t"
    if "\<And>e. ar_token (en_rec e) = t \<Longrightarrow> accepts e" for accepts oc bw c
    by (rule marked_run(2) [OF assms(1,2) _ prod.collapse [symmetric] assms(3,4)]) (rule that)
  show "dead_token (fst (cancel_turn clk t r)) t" "dead_token (fst (cancel_own_turn clk t r)) t"
    "dead_token (fst (end_ask_turn clk t r)) t"
    using assms(2,3) by (simp_all add: cancel_turn_def cancel_own_turn_def end_ask_turn_def dead)
qed

lemma close_closes: "asks_inv r \<Longrightarrow> rg_closed (fst (close_registry clk r))"
  using resolve_all_spec(3) [OF close_ex [of r] TrueI prod.collapse [symmetric], of clk AskClosing AskByClose]
  by (auto simp: close_registry_def same_turns_def)

lemma begin_turn_later:
  assumes "turns_ok r"
  shows "later r (snd (begin_ask_turn r))"
proof -
  let ?r = "snd (begin_ask_turn r)"
  have "dead_token ?r t" if "dead_token r t" for t
    using that by (auto simp: dead_token_def begin_ask_turn_def Let_def)
  then show ?thesis by (simp add: later_def begin_ask_turn_def Let_def counter_def)
qed

lemma open_ask_later: "open_ask clk room t req r = (res, r', evs) \<Longrightarrow> later r r'"
  by (auto simp: open_ask_def Let_def new_entry_eq split: sum.splits prod.splits option.splits
      intro: later_trans [OF reserve_later later_trans [OF with_entry_later retire_later]]
        later_trans [OF reserve_later later_trans [OF with_entry_later heap_later(2)]] later_refl)

lemma automatic_id_later: "automatic_id req hidden r = (nm, r1) \<Longrightarrow> later r r1"
  using mint_later reserve_later by (auto simp: automatic_id_def split: sum.splits)

lemma automatic_later: "automatic clk t req ans r = (a, r', evs) \<Longrightarrow> later r r'"
  by (auto simp: automatic_def Let_def new_entry_eq split: prod.splits if_splits
      intro: later_trans [OF automatic_id_later later_trans [OF with_entry_later retire_later]]
        later_trans [OF automatic_id_later later_trans [OF with_entry_later later_trans [OF heap_later(1) retire_later]]])

lemma early_later: "answered_early clk t req oc bw r = (a, r', evs) \<Longrightarrow> later r r'"
  by (auto simp: answered_early_def Let_def new_entry_eq split: prod.splits
      intro: later_trans [OF mint_later later_trans [OF with_entry_later retire_later]])

lemma answer_later: "answer_ask now room cause nm a r = (res, r', evs) \<Longrightarrow> later r r'"
  by (auto simp: answer_ask_def Let_def split: option.splits sum.splits prod.splits if_splits intro: later_refl retire_later)

lemma small_later:
  "later r (fst (report_ask known nm rep r))" "later r (snd (wait_take a r))"
  "later r (fst (cancel_by_call now a r))"
  by (auto simp: report_ask_def wait_take_def cancel_by_call_def Let_def
      split: option.splits prod.splits intro: later_refl heap_later retire_later)

lemma section_later:
  assumes "asks_inv r"
  shows "later r (fst (ask_step opr r))"
proof -
  have tok: "turns_ok r" using assms by (simp add: asks_inv_def asks_ex_def)
  have turn: "later r (fst (cancel_turn now t r))" "later r (fst (cancel_own_turn now t r))" "later r (fst (end_ask_turn now t r))" for now t
    using marked_run(1) [OF assms, of t "\<lambda>_. True"] marked_run(1) [OF assms, of t "\<lambda>e. ar_token (en_rec e) = t"]
    by (auto simp: cancel_turn_def cancel_own_turn_def end_ask_turn_def later_refl)
      (metis prod.collapse)+
  have close: "later r (fst (close_registry now r))" for now
  proof -
    have "later r (r\<lparr>rg_closed := True\<rparr>)" by (simp add: later_def counter_def dead_token_def)
    with resolve_all_later [OF close_ex [OF assms], of "\<lambda>_. True"] show ?thesis
      by (auto simp: close_registry_def later_refl) (metis later_trans prod.collapse)
  qed
  show ?thesis
    using turn close begin_turn_later [OF tok] small_later
      open_ask_later automatic_later early_later answer_later
    by (induction opr r rule: ask_step.induct) (simp_all, (metis prod.collapse)+)
qed

lemma run_later: "asks_inv r \<Longrightarrow> later r (fst (run_ops ask_step ops r))"
proof (induction ops arbitrary: r)
  case (Cons opr ops)
  have "asks_inv (fst (ask_step opr r))" using section_keeps [OF Cons.prems] by (simp add: keeps_def)
  from later_trans [OF section_later [OF Cons.prems] Cons.IH [OF this]] show ?case
    by (simp add: split_beta Let_def)
qed (simp add: later_refl)

end
