(* ===== verification/Keyed_List.thy ===== *)
theory Keyed_List
  imports Main "HOL-Library.Finite_Map"
begin

text \<open>
  The keyed list of the transcript's fold (\<open>keyedList\<close> of \<open>internal/transcript/keyed.go\<close>): an ordered list of
  values with an index from a value's id to its slot, in which a removal leaves a hole that a compaction
  squeezes out once the holes are half the slice.

  \<^item> \<open>keyed_list\<close> is the Go struct; a hole, the zero value there, is \<open>None\<close>. The method \<open>key\<close> of the values is
    an argument.
  \<^item> \<open>kl_list\<close> is the list it stands for. Every operation is shown to act on that list as its comment says
    (\<open>keyed_table\<close>, the contract the fold of the asks is proved against), and to keep \<open>kl_wf\<close>.
\<close>

record 'a keyed_list =
  kl_items :: "'a option list"
  kl_pos :: "(string, nat) fmap"
  kl_first :: nat

definition kl_empty :: "'a keyed_list" where
  "kl_empty = \<lparr>kl_items = [], kl_pos = fmempty, kl_first = 0\<rparr>"

definition kl_len :: "'a keyed_list \<Rightarrow> nat" where
  "kl_len l = fcard (fmdom (kl_pos l))"

definition kl_has :: "string \<Rightarrow> 'a keyed_list \<Rightarrow> bool" where
  "kl_has k l \<longleftrightarrow> fmlookup (kl_pos l) k \<noteq> None"

definition kl_get :: "string \<Rightarrow> 'a keyed_list \<Rightarrow> 'a option" where
  "kl_get k l = (case fmlookup (kl_pos l) k of None \<Rightarrow> None | Some i \<Rightarrow> kl_items l ! i)"

definition kl_upsert :: "('a \<Rightarrow> string) \<Rightarrow> 'a \<Rightarrow> 'a keyed_list \<Rightarrow> 'a keyed_list" where
  "kl_upsert key v l =
     (let k = key v in
      if k = [] then l
      else case fmlookup (kl_pos l) k of
        Some i \<Rightarrow> l\<lparr>kl_items := (kl_items l)[i := Some v]\<rparr>
      | None \<Rightarrow> l\<lparr>kl_pos := fmupd k (length (kl_items l)) (kl_pos l), kl_items := kl_items l @ [Some v]\<rparr>)"

text \<open>The squeeze: the live items in order, each key's position rewritten.\<close>

fun squeeze :: "('a \<Rightarrow> string) \<Rightarrow> 'a option list \<Rightarrow> nat \<Rightarrow> (string, nat) fmap \<Rightarrow> 'a option list \<times> (string, nat) fmap" where
  "squeeze key [] n pos = ([], pos)"
| "squeeze key (None # items) n pos = squeeze key items n pos"
| "squeeze key (Some v # items) n pos =
     (let (rest, pos1) = squeeze key items (Suc n) (fmupd (key v) n pos) in (Some v # rest, pos1))"

definition kl_compact :: "('a \<Rightarrow> string) \<Rightarrow> 'a keyed_list \<Rightarrow> 'a keyed_list" where
  "kl_compact key l =
     (if kl_len l = 0 then l\<lparr>kl_items := [], kl_first := 0\<rparr>
      else let holes = length (kl_items l) - kl_len l in
      if holes < 32 \<or> 2 * holes < length (kl_items l) then l
      else let (items, pos) = squeeze key (kl_items l) 0 (kl_pos l)
           in l\<lparr>kl_items := items, kl_pos := pos, kl_first := 0\<rparr>)"

definition kl_remove :: "('a \<Rightarrow> string) \<Rightarrow> string \<Rightarrow> 'a keyed_list \<Rightarrow> 'a keyed_list" where
  "kl_remove key k l =
     (case fmlookup (kl_pos l) k of
        None \<Rightarrow> l
      | Some i \<Rightarrow> kl_compact key (l\<lparr>kl_items := (kl_items l)[i := None], kl_pos := fmdrop k (kl_pos l)\<rparr>))"

definition kl_drop_oldest :: "('a \<Rightarrow> string) \<Rightarrow> 'a keyed_list \<Rightarrow> 'a keyed_list" where
  "kl_drop_oldest key l =
     (let first = kl_first l + length (takeWhile (\<lambda>x. x = None) (drop (kl_first l) (kl_items l)));
          l1 = l\<lparr>kl_first := first\<rparr>
      in if first < length (kl_items l1) then
           (case kl_items l1 ! first of Some v \<Rightarrow> kl_remove key (key v) l1 | None \<Rightarrow> l1)
         else l1)"

definition live_items :: "'a option list \<Rightarrow> 'a list" where
  "live_items xs = List.map_filter (\<lambda>x. x) xs"

definition kl_values :: "'a keyed_list \<Rightarrow> 'a list" where
  "kl_values l = (if kl_len l = 0 then [] else live_items (drop (kl_first l) (kl_items l)))"

section \<open>The list a keyed list stands for\<close>

definition kl_list :: "'a keyed_list \<Rightarrow> 'a list" where
  "kl_list l = live_items (kl_items l)"

definition pos_ok :: "('a \<Rightarrow> string) \<Rightarrow> 'a option list \<Rightarrow> (string, nat) fmap \<Rightarrow> bool" where
  "pos_ok key items pos \<longleftrightarrow>
     (\<forall>k i. fmlookup pos k = Some i \<longleftrightarrow> i < length items \<and> (\<exists>v. items ! i = Some v \<and> key v = k)) \<and>
     fmlookup pos [] = None"

definition kl_wf :: "('a \<Rightarrow> string) \<Rightarrow> 'a keyed_list \<Rightarrow> bool" where
  "kl_wf key l \<longleftrightarrow> pos_ok key (kl_items l) (kl_pos l) \<and> kl_first l \<le> length (kl_items l) \<and>
     (\<forall>i < kl_first l. kl_items l ! i = None)"

definition upsert_list :: "('a \<Rightarrow> string) \<Rightarrow> 'a \<Rightarrow> 'a list \<Rightarrow> 'a list" where
  "upsert_list key v xs =
     (if key v = [] then xs
      else if key v \<in> key ` set xs then map (\<lambda>x. if key x = key v then v else x) xs else xs @ [v])"

definition remove_list :: "('a \<Rightarrow> string) \<Rightarrow> string \<Rightarrow> 'a list \<Rightarrow> 'a list" where
  "remove_list key k xs = filter (\<lambda>x. key x \<noteq> k) xs"

lemma live_items_simps [simp]:
  "live_items [] = []" "live_items (None # xs) = live_items xs" "live_items (Some v # xs) = v # live_items xs"
  "live_items (xs @ ys) = live_items xs @ live_items ys"
  by (simp_all add: live_items_def List.map_filter_def)

lemma live_items_set: "set (live_items xs) = {v. Some v \<in> set xs}"
proof (induction xs)
  case (Cons x xs)
  then show ?case by (cases x) auto
qed simp

lemma live_items_none: "(\<And>x. x \<in> set xs \<Longrightarrow> x = None) \<Longrightarrow> live_items xs = []"
proof (induction xs)
  case (Cons x xs)
  then have "x = None" by simp
  with Cons show ?case by simp
qed simp

lemma pos_okD:
  assumes "pos_ok key items pos"
  shows "fmlookup pos k = Some i \<Longrightarrow> i < length items \<and> (\<exists>v. items ! i = Some v \<and> key v = k)"
    and "i < length items \<Longrightarrow> items ! i = Some v \<Longrightarrow> fmlookup pos (key v) = Some i"
    and "i < length items \<Longrightarrow> items ! i = Some v \<Longrightarrow> key v \<noteq> []"
proof -
  show "i < length items \<Longrightarrow> items ! i = Some v \<Longrightarrow> fmlookup pos (key v) = Some i"
    using assms unfolding pos_ok_def by blast
  then show "i < length items \<Longrightarrow> items ! i = Some v \<Longrightarrow> key v \<noteq> []"
    using assms unfolding pos_ok_def by fastforce
qed (use assms in \<open>unfold pos_ok_def, blast\<close>)

text \<open>The keys are distinct, so a slot is where its key says.\<close>

lemma pos_ok_inject:
  assumes "pos_ok key items pos" and "i < length items" "j < length items"
    and "items ! i = Some v" and "items ! j = Some w" and "key v = key w"
  shows "i = j"
  using pos_okD(2) [OF assms(1,2,4)] pos_okD(2) [OF assms(1,3,5)] assms(6) by simp

lemma pos_ok_keys: "pos_ok key items pos \<Longrightarrow> fset (fmdom pos) = key ` set (live_items items)"
proof (intro set_eqI iffI)
  assume ok: "pos_ok key items pos"
  fix k assume "k \<in> fset (fmdom pos)"
  then obtain i where "fmlookup pos k = Some i" by (auto simp: fmlookup_dom_iff)
  with pos_okD(1) [OF ok this] show "k \<in> key ` set (live_items items)"
    by (auto simp: live_items_set) (metis image_eqI mem_Collect_eq nth_mem)
next
  assume ok: "pos_ok key items pos"
  fix k assume "k \<in> key ` set (live_items items)"
  then obtain v i where "k = key v" "i < length items" "items ! i = Some v"
    by (auto simp: live_items_set in_set_conv_nth)
  with pos_okD(2) [OF ok] show "k \<in> fset (fmdom pos)" by (auto intro: fmdomI)
qed

lemma pos_ok_distinct: "pos_ok key items pos \<Longrightarrow> distinct (map key (live_items items))"
proof -
  assume ok: "pos_ok key items pos"
  have "\<And>i j v w. i < length items \<Longrightarrow> j < length items \<Longrightarrow> items ! i = Some v \<Longrightarrow> items ! j = Some w \<Longrightarrow>
      key v = key w \<Longrightarrow> i = j"
    using pos_ok_inject [OF ok] by blast
  then show ?thesis
  proof (induction items)
    case (Cons x items)
    have "distinct (map key (live_items items))"
    proof (rule Cons.IH)
      fix i j v w
      assume "i < length items" "j < length items" "items ! i = Some v" "items ! j = Some w" "key v = key w"
      with Cons.prems [of "Suc i" "Suc j" v w] show "i = j" by simp
    qed
    moreover have "key v \<notin> key ` set (live_items items)" if "x = Some v" for v
    proof
      assume "key v \<in> key ` set (live_items items)"
      then obtain w j where "key v = key w" "j < length items" "items ! j = Some w"
        by (auto simp: live_items_set in_set_conv_nth)
      with Cons.prems [of 0 "Suc j" v w] that show False by simp
    qed
    ultimately show ?case by (cases x) simp_all
  qed simp
qed

lemma kl_len_list: "pos_ok key (kl_items l) (kl_pos l) \<Longrightarrow> kl_len l = length (kl_list l)"
proof -
  assume ok: "pos_ok key (kl_items l) (kl_pos l)"
  have "kl_len l = card (key ` set (kl_list l))"
    using pos_ok_keys [OF ok] by (simp add: kl_len_def kl_list_def fcard.rep_eq)
  also have "\<dots> = length (kl_list l)"
    using pos_ok_distinct [OF ok] by (metis kl_list_def distinct_card length_map set_map)
  finally show ?thesis .
qed

section \<open>Each operation on that list\<close>

lemma remove_list_simps [simp]:
  "remove_list key k [] = []"
  "remove_list key k (x # xs) = (if key x = k then remove_list key k xs else x # remove_list key k xs)"
  "remove_list key k (xs @ ys) = remove_list key k xs @ remove_list key k ys"
  by (simp_all add: remove_list_def)

lemma remove_list_fresh: "k \<notin> key ` set xs \<Longrightarrow> remove_list key k xs = xs"
  by (auto simp: remove_list_def filter_id_conv)

lemma live_items_update:
  "i < length xs \<Longrightarrow> live_items (xs[i := Some v]) = live_items (take i xs) @ v # live_items (drop (Suc i) xs)"
  "i < length xs \<Longrightarrow> live_items (xs[i := None]) = live_items (take i xs) @ live_items (drop (Suc i) xs)"
  "i < length xs \<Longrightarrow> xs ! i = Some w \<Longrightarrow> live_items xs = live_items (take i xs) @ w # live_items (drop (Suc i) xs)"
  by (simp_all add: upd_conv_take_nth_drop)
    (metis append_take_drop_id Cons_nth_drop_Suc live_items_simps(3,4))

lemma pos_ok_empty: "pos_ok key [] fmempty"
  by (simp add: pos_ok_def)

lemma kl_empty_wf: "kl_wf key kl_empty" "kl_list kl_empty = []"
  by (simp_all add: kl_wf_def kl_empty_def pos_ok_empty kl_list_def)

lemma has_list: "kl_wf key l \<Longrightarrow> kl_has k l \<longleftrightarrow> k \<in> key ` set (kl_list l)"
  using pos_ok_keys [of key "kl_items l" "kl_pos l"]
  by (auto simp: kl_wf_def kl_has_def kl_list_def fmlookup_dom_iff)

lemma find_skip: "find p xs = None \<Longrightarrow> find p (xs @ ys) = find p ys"
  by (induction xs) (auto split: if_splits)

lemma get_list:
  assumes "kl_wf key l"
  shows "kl_get k l = find (\<lambda>v. key v = k) (kl_list l)"
proof -
  have ok: "pos_ok key (kl_items l) (kl_pos l)" using assms by (simp add: kl_wf_def)
  show ?thesis
  proof (cases "fmlookup (kl_pos l) k")
    case None
    with has_list [OF assms, of k] have "k \<notin> key ` set (kl_list l)" by (simp add: kl_has_def)
    then have "find (\<lambda>v. key v = k) (kl_list l) = None" by (auto simp: find_None_iff)
    with None show ?thesis by (simp add: kl_get_def)
  next
    case (Some i)
    then obtain v where v: "i < length (kl_items l)" "kl_items l ! i = Some v" "key v = k"
      using pos_okD(1) [OF ok] by blast
    have split: "kl_list l = live_items (take i (kl_items l)) @ v # live_items (drop (Suc i) (kl_items l))"
      unfolding kl_list_def by (rule live_items_update(3) [OF v(1,2)])
    have "k \<notin> key ` set (live_items (take i (kl_items l)))"
      using pos_ok_distinct [OF ok] v(3) unfolding kl_list_def [symmetric] split by auto
    then have "find (\<lambda>v. key v = k) (live_items (take i (kl_items l))) = None" by (auto simp: find_None_iff)
    then have "find (\<lambda>v. key v = k) (kl_list l) = Some v"
      unfolding split using v(3) by (simp add: find_skip)
    with Some v show ?thesis by (simp add: kl_get_def)
  qed
qed

lemma upsert_wf_list:
  assumes "kl_wf key l"
  shows "kl_wf key (kl_upsert key v l) \<and> kl_list (kl_upsert key v l) = upsert_list key v (kl_list l)"
proof (cases "key v = []")
  case True
  with assms show ?thesis by (simp add: kl_upsert_def upsert_list_def)
next
  case named: False
  have ok: "pos_ok key (kl_items l) (kl_pos l)" using assms by (simp add: kl_wf_def)
  show ?thesis
  proof (cases "fmlookup (kl_pos l) (key v)")
    case None
    then have out: "kl_upsert key v l =
        l\<lparr>kl_pos := fmupd (key v) (length (kl_items l)) (kl_pos l), kl_items := kl_items l @ [Some v]\<rparr>"
      using named by (simp add: kl_upsert_def)
    have "pos_ok key (kl_items l @ [Some v]) (fmupd (key v) (length (kl_items l)) (kl_pos l))"
      unfolding pos_ok_def
    proof (intro conjI allI)
      fix k i
      have old: "fmlookup (kl_pos l) k = Some i \<longleftrightarrow> i < length (kl_items l) \<and> (\<exists>w. kl_items l ! i = Some w \<and> key w = k)"
        using ok unfolding pos_ok_def by blast
      show "fmlookup (fmupd (key v) (length (kl_items l)) (kl_pos l)) k = Some i \<longleftrightarrow>
          i < length (kl_items l @ [Some v]) \<and> (\<exists>w. (kl_items l @ [Some v]) ! i = Some w \<and> key w = k)"
        using old None by (auto simp: nth_append less_Suc_eq)
    qed (use named ok in \<open>simp add: pos_ok_def\<close>)
    moreover have "key v \<notin> key ` set (kl_list l)" using has_list [OF assms, of "key v"] None by (simp add: kl_has_def)
    ultimately show ?thesis using assms named unfolding out
      by (auto simp: kl_wf_def kl_list_def upsert_list_def nth_append)
  next
    case (Some i)
    then have out: "kl_upsert key v l = l\<lparr>kl_items := (kl_items l)[i := Some v]\<rparr>"
      using named by (simp add: kl_upsert_def)
    from Some obtain w where w: "i < length (kl_items l)" "kl_items l ! i = Some w" "key w = key v"
      using pos_okD(1) [OF ok] by blast
    have "pos_ok key ((kl_items l)[i := Some v]) (kl_pos l)"
      unfolding pos_ok_def
    proof (intro conjI allI)
      fix k j
      have old: "fmlookup (kl_pos l) k = Some j \<longleftrightarrow> j < length (kl_items l) \<and> (\<exists>u. kl_items l ! j = Some u \<and> key u = k)"
        using ok unfolding pos_ok_def by blast
      show "fmlookup (kl_pos l) k = Some j \<longleftrightarrow>
          j < length ((kl_items l)[i := Some v]) \<and> (\<exists>u. (kl_items l)[i := Some v] ! j = Some u \<and> key u = k)"
        using old w by (cases "i = j") auto
    qed (use ok in \<open>simp add: pos_ok_def\<close>)
    moreover have "\<not> i < kl_first l" using assms w(2) by (auto simp: kl_wf_def)
    ultimately have "kl_wf key (kl_upsert key v l)" using assms unfolding out by (auto simp: kl_wf_def nth_list_update)
    moreover have "kl_list (kl_upsert key v l) = upsert_list key v (kl_list l)"
    proof -
      have split: "kl_list l = live_items (take i (kl_items l)) @ w # live_items (drop (Suc i) (kl_items l))"
        unfolding kl_list_def by (rule live_items_update(3) [OF w(1,2)])
      have dist: "distinct (map key (kl_list l))" using pos_ok_distinct [OF ok] by (simp add: kl_list_def)
      have same: "map (\<lambda>x. if key x = key v then v else x) xs = xs" if "key w \<notin> key ` set xs" for xs
        using that w(3) by (induction xs) auto
      have "map (\<lambda>x. if key x = key v then v else x) (kl_list l) =
          live_items (take i (kl_items l)) @ v # live_items (drop (Suc i) (kl_items l))"
        using dist unfolding split by (simp add: same w(3))
      moreover have "key v \<in> key ` set (kl_list l)" unfolding split using w(3) by auto
      ultimately show ?thesis using named unfolding out
        by (simp add: upsert_list_def kl_list_def live_items_update(1) [OF w(1)])
    qed
    ultimately show ?thesis by simp
  qed
qed

text \<open>The squeeze keeps the items and gives each key its new position.\<close>

lemma squeeze_items: "fst (squeeze key items n pos) = map Some (live_items items)"
  by (induction key items n pos rule: squeeze.induct) (simp_all add: split_beta Let_def)

lemma squeeze_pos:
  assumes "distinct (map key (out @ live_items items))"
    and "\<And>k i. k \<notin> key ` set (live_items items) \<Longrightarrow>
      fmlookup pos k = Some i \<longleftrightarrow> i < length out \<and> key (out ! i) = k"
  shows "fmlookup (snd (squeeze key items (length out) pos)) k = Some i \<longleftrightarrow>
     i < length (out @ live_items items) \<and> key ((out @ live_items items) ! i) = k"
  using assms
proof (induction items arbitrary: out pos)
  case (Cons x items)
  show ?case
  proof (cases x)
    case None
    with Cons show ?thesis by simp
  next
    case (Some v)
    let ?out = "out @ [v]" and ?pos = "fmupd (key v) (length out) pos"
    have "fmlookup ?pos k = Some i \<longleftrightarrow> i < length ?out \<and> key (?out ! i) = k"
      if "k \<notin> key ` set (live_items items)" for k i
    proof (cases "k = key v")
      case True
      have "key (out ! i) \<noteq> key v" if "i < length out" for i
        using Cons.prems(1) Some that by (auto simp: image_iff) (metis nth_mem)
      with True show ?thesis by (auto simp: nth_append less_Suc_eq)
    next
      case False
      with that Some Cons.prems(2) [of k i] show ?thesis by (auto simp: nth_append less_Suc_eq)
    qed
    from Cons.IH [of ?out ?pos, OF _ this] Cons.prems(1) Some show ?thesis
      by (simp add: split_beta Let_def)
  qed
qed simp

lemma compact_wf_list:
  assumes "kl_wf key l"
  shows "kl_wf key (kl_compact key l) \<and> kl_list (kl_compact key l) = kl_list l"
proof -
  have ok: "pos_ok key (kl_items l) (kl_pos l)" using assms by (simp add: kl_wf_def)
  let ?vs = "live_items (kl_items l)"
  consider (emptied) "kl_len l = 0"
    | (kept) "kl_compact key l = l"
    | (squeezed) "kl_compact key l = (let (items, pos) = squeeze key (kl_items l) 0 (kl_pos l)
           in l\<lparr>kl_items := items, kl_pos := pos, kl_first := 0\<rparr>)"
    by (cases "kl_len l = 0";
        cases "length (kl_items l) - kl_len l < 32 \<or> 2 * (length (kl_items l) - kl_len l) < length (kl_items l)")
      (auto simp: kl_compact_def Let_def)
  then show ?thesis
  proof cases
    case emptied
    then have "length (kl_list l) = 0" "fmdom (kl_pos l) = {||}"
      by (simp only: kl_len_list [OF ok, symmetric], simp add: kl_len_def)
    then have "kl_list l = []" "fmdom (kl_pos l) = {||}" by simp_all
    moreover from this(2) have "fmlookup (kl_pos l) k = None" for k by (metis fempty_iff fmdom_notD)
    ultimately show ?thesis using emptied by (simp add: kl_compact_def kl_wf_def pos_ok_def kl_list_def)
  next
    case kept
    with assms show ?thesis by simp
  next
    case squeezed
    let ?pos = "snd (squeeze key (kl_items l) 0 (kl_pos l))"
    have out: "kl_compact key l = l\<lparr>kl_items := map Some ?vs, kl_pos := ?pos, kl_first := 0\<rparr>"
      using squeezed squeeze_items [of key "kl_items l" 0 "kl_pos l"] by (simp add: split_beta Let_def)
    have look: "fmlookup ?pos k = Some i \<longleftrightarrow> i < length ?vs \<and> key (?vs ! i) = k" for k i
    proof -
      have "fmlookup (kl_pos l) k = Some i \<longleftrightarrow> i < length ([] :: 'a list) \<and> key ([] ! i) = k"
        if "k \<notin> key ` set ?vs" for k i
      proof -
        from that pos_ok_keys [OF ok] have "k |\<notin>| fmdom (kl_pos l)" by simp
        then have "fmlookup (kl_pos l) k = None" by (rule fmdom_notD)
        then show ?thesis by simp
      qed
      from squeeze_pos [of key "[]" "kl_items l", OF _ this] pos_ok_distinct [OF ok] show ?thesis by simp
    qed
    have "key v \<noteq> []" if "v \<in> set ?vs" for v
      using that pos_okD(3) [OF ok] by (auto simp: live_items_set in_set_conv_nth)
    then have none: "fmlookup ?pos [] = None" using look by (metis nth_mem option.exhaust)
    have "pos_ok key (map Some ?vs) ?pos"
      unfolding pos_ok_def
    proof (intro conjI allI)
      fix k i
      show "fmlookup ?pos k = Some i \<longleftrightarrow> i < length (map Some ?vs) \<and> (\<exists>v. map Some ?vs ! i = Some v \<and> key v = k)"
        unfolding look [of k i] by (cases "i < length ?vs") simp_all
    qed (rule none)
    moreover have "live_items (map Some vs) = vs" for vs :: "'a list" by (induction vs) simp_all
    ultimately show ?thesis unfolding out by (simp add: kl_wf_def kl_list_def)
  qed
qed

lemma remove_wf_list:
  assumes "kl_wf key l"
  shows "kl_wf key (kl_remove key k l) \<and> kl_list (kl_remove key k l) = remove_list key k (kl_list l)"
proof -
  have ok: "pos_ok key (kl_items l) (kl_pos l)" using assms by (simp add: kl_wf_def)
  show ?thesis
  proof (cases "fmlookup (kl_pos l) k")
    case None
    with has_list [OF assms, of k] have "k \<notin> key ` set (kl_list l)" by (simp add: kl_has_def)
    then have "remove_list key k (kl_list l) = kl_list l" by (rule remove_list_fresh)
    with None assms show ?thesis by (simp add: kl_remove_def)
  next
    case (Some i)
    let ?l = "l\<lparr>kl_items := (kl_items l)[i := None], kl_pos := fmdrop k (kl_pos l)\<rparr>"
    from Some obtain v where v: "i < length (kl_items l)" "kl_items l ! i = Some v" "key v = k"
      using pos_okD(1) [OF ok] by blast
    have "pos_ok key (kl_items ?l) (kl_pos ?l)"
      unfolding pos_ok_def
    proof (intro conjI allI)
      fix m j
      have old: "fmlookup (kl_pos l) m = Some j \<longleftrightarrow> j < length (kl_items l) \<and> (\<exists>u. kl_items l ! j = Some u \<and> key u = m)"
        using ok unfolding pos_ok_def by blast
      show "fmlookup (kl_pos ?l) m = Some j \<longleftrightarrow>
          j < length (kl_items ?l) \<and> (\<exists>u. kl_items ?l ! j = Some u \<and> key u = m)"
        using old v Some by (cases "i = j"; cases "m = k") auto
    qed (use ok in \<open>simp add: pos_ok_def\<close>)
    moreover have "(kl_items l)[i := None] ! j = None" if "j < kl_first l" for j
      using that assms v(1) by (cases "i = j") (auto simp: kl_wf_def)
    ultimately have wf: "kl_wf key ?l" using assms by (simp add: kl_wf_def)
    have split: "kl_list l = live_items (take i (kl_items l)) @ v # live_items (drop (Suc i) (kl_items l))"
      unfolding kl_list_def by (rule live_items_update(3) [OF v(1,2)])
    have dist: "distinct (map key (kl_list l))" using pos_ok_distinct [OF ok] by (simp add: kl_list_def)
    have "remove_list key k (kl_list l) = kl_list ?l"
      using dist v(3) unfolding split
      by (simp add: remove_list_fresh kl_list_def live_items_update(2) [OF v(1)])
    with compact_wf_list [OF wf] Some show ?thesis by (simp add: kl_remove_def)
  qed
qed

lemma drop_oldest_wf_list:
  assumes "kl_wf key l"
  shows "kl_wf key (kl_drop_oldest key l) \<and> kl_list (kl_drop_oldest key l) = tl (kl_list l)"
proof -
  let ?rest = "drop (kl_first l) (kl_items l)"
  let ?n = "length (takeWhile (\<lambda>x. x = None) ?rest)"
  let ?first = "kl_first l + ?n" and ?l = "l\<lparr>kl_first := kl_first l + ?n\<rparr>"
  have ok: "pos_ok key (kl_items l) (kl_pos l)" using assms by (simp add: kl_wf_def)
  have le: "?first \<le> length (kl_items l)"
  proof -
    have "kl_first l \<le> length (kl_items l)" using assms by (simp add: kl_wf_def)
    moreover have "?n \<le> length (kl_items l) - kl_first l"
      using length_takeWhile_le [of "\<lambda>x. x = None" ?rest] by simp
    ultimately show ?thesis by linarith
  qed
  have holes: "kl_items l ! i = None" if "i < ?first" for i
  proof (cases "i < kl_first l")
    case True
    with assms show ?thesis by (simp add: kl_wf_def)
  next
    case False
    then have i: "i - kl_first l < ?n" using that by simp
    from nth_mem [OF i] have "takeWhile (\<lambda>x. x = None) ?rest ! (i - kl_first l) = None" by (auto dest: set_takeWhileD)
    then have "?rest ! (i - kl_first l) = None" using takeWhile_nth [OF i] by simp
    with False le that show ?thesis by simp
  qed
  have wf: "kl_wf key ?l" using assms le holes by (simp add: kl_wf_def)
  have none: "live_items (take ?first (kl_items l)) = []"
    by (rule live_items_none) (use holes in \<open>auto simp: in_set_conv_nth\<close>)
  show ?thesis
  proof (cases "?first < length (kl_items l)")
    case False
    with none le have "kl_list l = []" by (simp add: kl_list_def)
    with False wf show ?thesis by (simp add: kl_drop_oldest_def Let_def kl_list_def)
  next
    case True
    have "?n < length ?rest" using True by simp
    from nth_length_takeWhile [OF this] have "?rest ! ?n \<noteq> None" by simp
    with True obtain v where v: "kl_items l ! ?first = Some v" by auto
    have split: "kl_list l = v # live_items (drop (Suc ?first) (kl_items l))"
      unfolding kl_list_def using live_items_update(3) [OF True v] none by simp
    have "key v \<notin> key ` set (live_items (drop (Suc ?first) (kl_items l)))"
      using pos_ok_distinct [OF ok] unfolding kl_list_def [symmetric] split by auto
    then have "remove_list key (key v) (kl_list ?l) = tl (kl_list l)"
      using split by (simp add: remove_list_fresh kl_list_def)
    with remove_wf_list [OF wf, of "key v"] True v show ?thesis by (simp add: kl_drop_oldest_def Let_def)
  qed
qed

lemma values_list: "kl_wf key l \<Longrightarrow> kl_values l = kl_list l"
proof -
  assume wf: "kl_wf key l"
  then have ok: "pos_ok key (kl_items l) (kl_pos l)" by (simp add: kl_wf_def)
  have "live_items (take (kl_first l) (kl_items l)) = []"
    by (rule live_items_none) (use wf in \<open>auto simp: in_set_conv_nth kl_wf_def\<close>)
  then have "live_items (drop (kl_first l) (kl_items l)) = kl_list l"
    using live_items_simps(4) [of "take (kl_first l) (kl_items l)" "drop (kl_first l) (kl_items l)"]
    by (simp add: kl_list_def)
  with kl_len_list [OF ok] show ?thesis by (simp add: kl_values_def)
qed

section \<open>The contract\<close>

text \<open>What a client of a keyed table relies on: it is an ordered list of values, one per key.\<close>

locale keyed_table =
  fixes key :: "'a \<Rightarrow> string"
    and wf :: "'t \<Rightarrow> bool"
    and "values" :: "'t \<Rightarrow> 'a list"
    and upsert :: "'a \<Rightarrow> 't \<Rightarrow> 't"
    and remove :: "string \<Rightarrow> 't \<Rightarrow> 't"
    and drop_oldest :: "'t \<Rightarrow> 't"
  assumes upsert_law: "wf l \<Longrightarrow> wf (upsert v l) \<and> values (upsert v l) = upsert_list key v (values l)"
    and remove_law: "wf l \<Longrightarrow> wf (remove k l) \<and> values (remove k l) = remove_list key k (values l)"
    and drop_oldest_law: "wf l \<Longrightarrow> wf (drop_oldest l) \<and> values (drop_oldest l) = tl (values l)"

datatype 'a keyed_op = KeyedUpsert 'a | KeyedRemove string | KeyedDropOldest

fun table_op ::
  "('a \<Rightarrow> 't \<Rightarrow> 't) \<Rightarrow> (string \<Rightarrow> 't \<Rightarrow> 't) \<Rightarrow> ('t \<Rightarrow> 't) \<Rightarrow> 'a keyed_op \<Rightarrow> 't \<Rightarrow> 't" where
  "table_op upsert remove drop_oldest (KeyedUpsert v) l = upsert v l"
| "table_op upsert remove drop_oldest (KeyedRemove k) l = remove k l"
| "table_op upsert remove drop_oldest KeyedDropOldest l = drop_oldest l"

context keyed_table begin

lemma table_ops:
  "wf l \<Longrightarrow> wf (fold (table_op upsert remove drop_oldest) ops l) \<and>
     values (fold (table_op upsert remove drop_oldest) ops l) =
     fold (table_op (upsert_list key) (remove_list key) tl) ops (values l)"
proof (induction ops arbitrary: l)
  case (Cons kop ops)
  have "wf (table_op upsert remove drop_oldest kop l) \<and>
      values (table_op upsert remove drop_oldest kop l) = table_op (upsert_list key) (remove_list key) tl kop (values l)"
    using Cons.prems upsert_law remove_law drop_oldest_law by (cases kop) simp_all
  with Cons.IH show ?case by simp
qed simp

end

interpretation kl: keyed_table key "kl_wf key" kl_values "kl_upsert key" "kl_remove key" "kl_drop_oldest key"
  for key :: "'a \<Rightarrow> string"
  by unfold_locales (use upsert_wf_list remove_wf_list drop_oldest_wf_list values_list in metis)+

section \<open>Properties\<close>

text \<open>C37. The keyed list is the ordered list of its values: whatever upserts, removals and drops of the oldest it
  went through, holes and compactions included, \<open>values\<close> reads what the same operations make of a plain list
  (an upsert replaces where the key stands or appends, a removal filters, the oldest is the head), \<open>len\<close> is its
  length, \<open>get\<close> finds a value by its key and \<open>has\<close> says whether there is one.\<close>

theorem keyed_list_is_its_values:
  fixes key :: "'a \<Rightarrow> string"
  shows "let after = fold (table_op (kl_upsert key) (kl_remove key) (kl_drop_oldest key)) ops kl_empty;
      plain = fold (table_op (upsert_list key) (remove_list key) tl) ops []
    in kl_values after = plain \<and> kl_len after = length plain \<and>
       (\<forall>k. kl_get k after = find (\<lambda>v. key v = k) plain) \<and>
       (\<forall>k. kl_has k after \<longleftrightarrow> k \<in> key ` set plain)"
proof -
  let ?after = "fold (table_op (kl_upsert key) (kl_remove key) (kl_drop_oldest key)) ops kl_empty"
  have "kl_values (kl_empty :: 'a keyed_list) = []" by (simp add: kl_values_def kl_len_def kl_empty_def)
  with kl.table_ops [OF kl_empty_wf(1), of key ops] have wf: "kl_wf key ?after"
    and plain: "kl_values ?after = fold (table_op (upsert_list key) (remove_list key) tl) ops []" by simp_all
  from plain [symmetric] values_list [OF wf] have list: "kl_list ?after = fold (table_op (upsert_list key) (remove_list key) tl) ops []"
    by simp
  show ?thesis
    using plain kl_len_list [of key ?after] wf get_list [OF wf] has_list [OF wf]
    unfolding list Let_def by (simp add: kl_wf_def)
qed

end
