(* ===== verification/Asks_Laws.thy ===== *)
theory Asks_Laws
  imports Asks_Inv Keyed_List
begin

text \<open>
  What the ask registry of theory \<open>Asks\<close> promises, and what a client that folds its events shows.

  \<^item> \<open>ask_model\<close> is what the transcript's fold keeps of the asks (the open ones and the last ended, each a
    keyed list), \<open>fold_ask_event\<close> the ask part of \<open>foldPermission\<close>, \<open>foldQuestion\<close>, \<open>foldPlan\<close> and \<open>foldAsk\<close>.
  \<^item> \<open>asks_view\<close> is what a client should show: the registry's open asks, in the order they were opened. The
    sections are an \<open>event_source\<close> over it.
  \<^item> The properties close the theory.
\<close>

section \<open>The client's fold\<close>

record ask_card =
  ca_id :: string
  ca_kind :: ask_kind
  ca_body :: ask_body

record client_ask = ask_card +
  ca_at :: nat

record ask_ending =
  ae_id :: string
  ae_kind :: ask_kind
  ae_outcome :: ask_outcome
  ae_by :: ask_by
  ae_at :: nat

record ask_model =
  am_asks :: "client_ask keyed_list"
  am_ended :: "ask_ending keyed_list"

definition maxEnded :: nat where "maxEnded = 256"

definition no_body :: ask_body where
  "no_body = \<lparr>ab_permission = None, ab_question = None, ab_plan = None\<rparr>"

text \<open>The event's own time, and the clock for an event that carries none.\<close>

definition stamp_at :: "nat \<Rightarrow> nat \<Rightarrow> nat" where
  "stamp_at clock at = (if at \<noteq> 0 then at else clock)"

definition open_client_ask :: "string \<Rightarrow> ask_kind \<Rightarrow> ask_body \<Rightarrow> nat \<Rightarrow> ask_model \<Rightarrow> ask_model" where
  "open_client_ask nm kind body at m =
     (if nm = [] then m
      else m\<lparr>am_asks := kl_upsert ca_id \<lparr>ca_id = nm, ca_kind = kind, ca_body = body, ca_at = at\<rparr> (am_asks m)\<rparr>)"

definition end_client_ask :: "nat \<Rightarrow> ask_update \<Rightarrow> ask_model \<Rightarrow> ask_model" where
  "end_client_ask at u m =
     (if au_id u = [] then m
      else
        let ended = (if \<not> kl_has (au_id u) (am_ended m) \<and> kl_len (am_ended m) \<ge> maxEnded
              then kl_drop_oldest ae_id (am_ended m) else am_ended m)
        in m\<lparr>am_asks := kl_remove ca_id (au_id u) (am_asks m),
            am_ended := kl_upsert ae_id \<lparr>ae_id = au_id u, ae_kind = au_kind u, ae_outcome = au_outcome u,
              ae_by = au_by u, ae_at = at\<rparr> ended\<rparr>)"

fun fold_ask_event :: "nat \<Rightarrow> ask_event \<Rightarrow> ask_model \<Rightarrow> ask_model" where
  "fold_ask_event clock (AskPermissionEv at p) m =
     (case p of None \<Rightarrow> m
      | Some p \<Rightarrow> open_client_ask (pv_id p) AskPermission (no_body\<lparr>ab_permission := Some p\<rparr>) (stamp_at clock at) m)"
| "fold_ask_event clock (AskQuestionEv at q) m =
     (case q of None \<Rightarrow> m
      | Some q \<Rightarrow> open_client_ask (qv_id q) AskQuestion (no_body\<lparr>ab_question := Some q\<rparr>) (stamp_at clock at) m)"
| "fold_ask_event clock (AskPlanEv at p) m =
     (case p of None \<Rightarrow> m
      | Some p \<Rightarrow> open_client_ask (lv_id p) AskPlan (no_body\<lparr>ab_plan := Some p\<rparr>) (stamp_at clock at) m)"
| "fold_ask_event clock (AskEndingEv at cause u) m = end_client_ask (stamp_at clock at) u m"

definition new_ask_model :: ask_model where
  "new_ask_model = \<lparr>am_asks = kl_empty, am_ended = kl_empty\<rparr>"

definition model_wf :: "ask_model \<Rightarrow> bool" where
  "model_wf m \<longleftrightarrow> kl_wf ca_id (am_asks m) \<and> kl_wf ae_id (am_ended m) \<and> kl_len (am_ended m) \<le> maxEnded"

text \<open>The fold of the open asks alone, on a plain list of cards: an ask without the time it was opened.\<close>

fun apply_ask_event :: "ask_event \<Rightarrow> ask_card list \<Rightarrow> ask_card list" where
  "apply_ask_event (AskPermissionEv at p) xs =
     (case p of None \<Rightarrow> xs | Some p \<Rightarrow> upsert_list ca_id
        \<lparr>ca_id = pv_id p, ca_kind = AskPermission, ca_body = no_body\<lparr>ab_permission := Some p\<rparr>\<rparr> xs)"
| "apply_ask_event (AskQuestionEv at q) xs =
     (case q of None \<Rightarrow> xs | Some q \<Rightarrow> upsert_list ca_id
        \<lparr>ca_id = qv_id q, ca_kind = AskQuestion, ca_body = no_body\<lparr>ab_question := Some q\<rparr>\<rparr> xs)"
| "apply_ask_event (AskPlanEv at p) xs =
     (case p of None \<Rightarrow> xs | Some p \<Rightarrow> upsert_list ca_id
        \<lparr>ca_id = lv_id p, ca_kind = AskPlan, ca_body = no_body\<lparr>ab_plan := Some p\<rparr>\<rparr> xs)"
| "apply_ask_event (AskEndingEv at cause u) xs = (if au_id u = [] then xs else remove_list ca_id (au_id u) xs)"

text \<open>When an ask was last opened: the time of the last opening event with its id.\<close>

fun opens_at :: "nat \<Rightarrow> ask_event \<Rightarrow> (string \<times> nat) option" where
  "opens_at clock (AskPermissionEv at p) = map_option (\<lambda>p. (pv_id p, stamp_at clock at)) p"
| "opens_at clock (AskQuestionEv at q) = map_option (\<lambda>q. (qv_id q, stamp_at clock at)) q"
| "opens_at clock (AskPlanEv at p) = map_option (\<lambda>p. (lv_id p, stamp_at clock at)) p"
| "opens_at clock (AskEndingEv at cause u) = None"

definition last_opened :: "nat \<Rightarrow> ask_event list \<Rightarrow> string \<rightharpoonup> nat" where
  "last_opened clock evs = map_of (rev (List.map_filter (opens_at clock) evs))"

lemma last_opened_snoc [simp]:
  "last_opened clock [] = Map.empty"
  "last_opened clock (evs @ [ev]) =
     (case opens_at clock ev of None \<Rightarrow> last_opened clock evs
      | Some (nm, at) \<Rightarrow> (last_opened clock evs)(nm \<mapsto> at))"
  by (auto simp: last_opened_def List.map_filter_simps List.map_filter_def split: option.split)

definition cards :: "ask_model \<Rightarrow> ask_card list" where
  "cards m = map ask_card.truncate (kl_values (am_asks m))"

definition times_ok :: "(string \<rightharpoonup> nat) \<Rightarrow> client_ask list \<Rightarrow> bool" where
  "times_ok tm xs \<longleftrightarrow> (\<forall>c \<in> set xs. ca_id c \<noteq> [] \<and> tm (ca_id c) = Some (ca_at c))"

lemma truncate_id [simp]: "ca_id (ask_card.truncate c) = ca_id c"
  by (simp add: ask_card.truncate_def)

lemma truncate_upsert:
  "map ask_card.truncate (upsert_list ca_id c xs) = upsert_list ca_id (ask_card.truncate c) (map ask_card.truncate xs)"
proof -
  have "ca_id ` set (map ask_card.truncate xs) = ca_id ` set xs" by (simp add: image_image)
  then show ?thesis by (simp add: upsert_list_def)
qed

lemma truncate_remove:
  "map ask_card.truncate (remove_list ca_id k xs) = remove_list ca_id k (map ask_card.truncate xs)"
  by (induction xs) (simp_all add: remove_list_def)

lemma times_upsert:
  "times_ok tm xs \<Longrightarrow> times_ok (tm(ca_id c \<mapsto> ca_at c)) (upsert_list ca_id c xs)"
  unfolding times_ok_def upsert_list_def by (auto simp: image_iff)

lemma times_remove: "times_ok tm xs \<Longrightarrow> times_ok tm (remove_list ca_id k xs)"
  by (simp add: times_ok_def remove_list_def)

lemma ended_bounded:
  fixes x :: ask_ending
  assumes "kl_wf ae_id l" and "kl_len l \<le> maxEnded"
  defines "l1 \<equiv> (if \<not> kl_has (ae_id x) l \<and> kl_len l \<ge> maxEnded then kl_drop_oldest ae_id l else l)"
  shows "kl_wf ae_id (kl_upsert ae_id x l1) \<and> kl_len (kl_upsert ae_id x l1) \<le> maxEnded"
proof -
  have len: "kl_len k = length (kl_values k)" if "kl_wf ae_id k" for k
    using that kl_len_list [of ae_id k] values_list [OF that] by (simp add: kl_wf_def)
  have wf1: "kl_wf ae_id l1" using assms(1) drop_oldest_wf_list [OF assms(1)] by (simp add: l1_def)
  note up = kl.upsert_law [OF wf1, of x]
  show ?thesis
  proof (cases "ae_id x \<in> ae_id ` set (kl_values l1)")
    case True
    then have "length (kl_values (kl_upsert ae_id x l1)) = length (kl_values l1)" using up by (simp add: upsert_list_def)
    moreover have "kl_len l1 \<le> maxEnded"
      using assms(2) len [OF assms(1)] len [OF wf1] kl.drop_oldest_law [OF assms(1)] by (auto simp: l1_def)
    ultimately show ?thesis using up len [OF wf1] by (simp add: len)
  next
    case False
    have "kl_len l1 < maxEnded"
    proof (cases "kl_has (ae_id x) l")
      case True
      with False has_list [OF assms(1), of "ae_id x"] values_list [OF assms(1)] show ?thesis by (simp add: l1_def)
    next
      case False
      then show ?thesis using assms(2) len [OF assms(1)] len [OF wf1] kl.drop_oldest_law [OF assms(1)]
        by (auto simp: l1_def maxEnded_def)
    qed
    with up False len [OF wf1] show ?thesis by (auto simp: len upsert_list_def)
  qed
qed

lemma fold_ask_refines:
  assumes "model_wf m" and "times_ok (last_opened clock evs) (kl_values (am_asks m))"
  shows "model_wf (fold_ask_event clock ev m) \<and> cards (fold_ask_event clock ev m) = apply_ask_event ev (cards m) \<and>
    times_ok (last_opened clock (evs @ [ev])) (kl_values (am_asks (fold_ask_event clock ev m)))"
proof -
  have wf: "kl_wf ca_id (am_asks m)" "kl_wf ae_id (am_ended m)" "kl_len (am_ended m) \<le> maxEnded"
    using assms by (simp_all add: model_wf_def)
  have opened: "model_wf (open_client_ask nm kind body at m) \<and>
      cards (open_client_ask nm kind body at m) =
        upsert_list ca_id \<lparr>ca_id = nm, ca_kind = kind, ca_body = body\<rparr> (cards m) \<and>
      times_ok ((last_opened clock evs)(nm \<mapsto> at)) (kl_values (am_asks (open_client_ask nm kind body at m)))"
    for nm kind body at
  proof -
    let ?c = "\<lparr>ca_id = nm, ca_kind = kind, ca_body = body, ca_at = at\<rparr> :: client_ask"
    have up: "model_wf (open_client_ask nm kind body at m)"
      "kl_values (am_asks (open_client_ask nm kind body at m)) = upsert_list ca_id ?c (kl_values (am_asks m))"
      using wf kl.upsert_law [OF wf(1)] by (auto simp: open_client_ask_def model_wf_def upsert_list_def)
    then show ?thesis
      using times_upsert [OF assms(2), of ?c] by (simp add: cards_def truncate_upsert ask_card.truncate_def)
  qed
  have ended: "model_wf (end_client_ask at u m) \<and>
      cards (end_client_ask at u m) = (if au_id u = [] then cards m else remove_list ca_id (au_id u) (cards m)) \<and>
      times_ok (last_opened clock evs) (kl_values (am_asks (end_client_ask at u m)))" for at u
    using wf assms(2) kl.remove_law [OF wf(1)] ended_bounded [OF wf(2,3), of "\<lparr>ae_id = au_id u, ae_kind = au_kind u,
        ae_outcome = au_outcome u, ae_by = au_by u, ae_at = at\<rparr>"]
    by (simp add: end_client_ask_def model_wf_def Let_def cards_def truncate_remove times_remove)
  show ?thesis using assms opened ended by (cases ev) (auto split: option.split)
qed

lemma fold_asks_refine:
  assumes "model_wf m" and "times_ok (last_opened clock evs) (kl_values (am_asks m))"
  shows "model_wf (fold_events (fold_ask_event clock) evs' m) \<and>
    cards (fold_events (fold_ask_event clock) evs' m) = fold_events apply_ask_event evs' (cards m) \<and>
    times_ok (last_opened clock (evs @ evs')) (kl_values (am_asks (fold_events (fold_ask_event clock) evs' m)))"
  using assms
proof (induction evs' arbitrary: m evs)
  case (Cons ev evs')
  note step = fold_ask_refines [OF Cons.prems, of ev]
  from Cons.IH [OF step [THEN conjunct1] step [THEN conjunct2, THEN conjunct2]] step show ?case by simp
qed simp

section \<open>What a client should show\<close>

definition client_of :: "ask_record \<Rightarrow> ask_card" where
  "client_of x = \<lparr>ca_id = ar_id x, ca_kind = ar_kind x, ca_body = ar_body x\<rparr>"

definition asks_view :: "ask_registry \<Rightarrow> ask_card list" where
  "asks_view r = map client_of (asks_of r)"

definition named :: "ask_registry \<Rightarrow> bool" where
  "named r \<longleftrightarrow> fmlookup (rg_open r) [] = None"

text \<open>An opening's payload is the one its kind names, and no other.\<close>

definition body_fits :: "ask_kind \<Rightarrow> ask_body \<Rightarrow> bool" where
  "body_fits kind body \<longleftrightarrow>
     (kind = AskPermission \<and> ab_permission body \<noteq> None \<and> ab_question body = None \<and> ab_plan body = None) \<or>
     (kind = AskQuestion \<and> ab_permission body = None \<and> ab_question body \<noteq> None \<and> ab_plan body = None) \<or>
     (kind = AskPlan \<and> ab_permission body = None \<and> ab_question body = None \<and> ab_plan body \<noteq> None)"

fun request_fits :: "readings \<times> ask_op \<Rightarrow> bool" where
  "request_fits (clk, OpOpen room t req) \<longleftrightarrow> body_fits (rq_kind req) (rq_body req)"
| "request_fits _ \<longleftrightarrow> True"

definition tells :: "ask_registry \<Rightarrow> ask_event list \<Rightarrow> ask_registry \<Rightarrow> bool" where
  "tells r evs r' \<longleftrightarrow> (named r \<longrightarrow> named r' \<and>
     fold_events apply_ask_event evs (asks_view r) = asks_view r')"

lemma ask_tells_trans: "tells r evs s \<Longrightarrow> tells s evs' t \<Longrightarrow> tells r (evs @ evs') t"
  by (simp add: tells_def)

lemma asks_view_addrs: "asks_view r = map (\<lambda>a. client_of (entry_rec r a)) (open_addrs r)"
  by (simp add: asks_view_def asks_of_def open_addrs_def)

lemma open_addrs_open: "a \<in> set (open_addrs r) \<Longrightarrow> \<exists>nm. fmlookup (rg_open r) nm = Some a"
  by (auto simp: open_addrs_def List.map_filter_def)

lemma view_same:
  assumes "rg_open r' = rg_open r" and "rg_order r' = rg_order r"
    and "\<And>a. a \<in> set (open_addrs r) \<Longrightarrow> client_of (entry_rec r' a) = client_of (entry_rec r a)"
  shows "tells r [] r'"
  using assms by (simp add: tells_def named_def asks_view_addrs open_addrs_def)

lemma tells_same_asks: "same_asks r r1 \<Longrightarrow> tells r [] r1"
  by (rule view_same) (simp_all add: same_asks_def entry_rec_def)

lemma tells_with_entry: "open_ok X r \<Longrightarrow> tells r [] (with_entry e r)"
  by (rule view_same) (auto simp: ask_simps with_entry_old dest!: open_addrs_open dest: open_okD(1))

lemma tells_update:
  assumes "rg_open r' = rg_open r" and "rg_order r' = rg_order r" and "rg_heap r' = (rg_heap r)[a := e]"
    and "client_of (en_rec e) = client_of (en_rec (rg_heap r ! a))"
  shows "tells r [] r'"
proof (rule view_same [OF assms(1,2)])
  fix b
  show "client_of (entry_rec r' b) = client_of (entry_rec r b)"
    by (cases "a < length (rg_heap r)"; cases "a = b") (simp_all add: assms(3,4) entry_rec_def list_update_beyond)
qed

lemma client_of_simps [simp]: "ca_id (client_of x) = ar_id x"
  by (simp add: client_of_def)

lemma map_filter_remove_list:
  assumes "\<And>nm a. nm \<in> set nms \<Longrightarrow> f nm = Some a \<Longrightarrow> ca_id (g a) = nm"
  shows "map g (List.map_filter f (filter (\<lambda>nm. nm \<noteq> k) nms)) = remove_list ca_id k (map g (List.map_filter f nms))"
  using assms
proof (induction nms)
  case (Cons nm nms)
  have "map g (List.map_filter f (filter (\<lambda>nm. nm \<noteq> k) nms)) = remove_list ca_id k (map g (List.map_filter f nms))"
    by (rule Cons.IH) (use Cons.prems in auto)
  with Cons.prems [of nm] show ?case by (cases "f nm") (auto simp: List.map_filter_simps)
qed (simp add: List.map_filter_simps)

lemma view_ids: "open_ok X r \<Longrightarrow> ca_id ` set (asks_view r) \<subseteq> fset (fmdom (rg_open r))"
proof
  fix k assume o: "open_ok X r" and "k \<in> ca_id ` set (asks_view r)"
  then obtain a where "a \<in> set (open_addrs r)" "k = ar_id (entry_rec r a)" by (auto simp: asks_view_addrs)
  moreover from open_addrs_open [OF this(1)] obtain nm where look: "fmlookup (rg_open r) nm = Some a" ..
  ultimately have "fmlookup (rg_open r) k = Some a" using open_okD(3) [OF o look] by simp
  then show "k \<in> fset (fmdom (rg_open r))" by (auto intro: fmdomI)
qed

text \<open>An ending takes its ask from the view, if it is there.\<close>

lemma retire_view:
  assumes "open_ok X r" and "order_ok r" and "a < length (rg_heap r)" and "\<not> en_done (rg_heap r ! a)"
    and "fmlookup (rg_open r) (ar_id (entry_rec r a)) = Some a \<or> ar_id (entry_rec r a) |\<notin>| fmdom (rg_open r)"
  shows "asks_view (retired_reg now a oc bw cause ans lb r) = remove_list ca_id (ar_id (entry_rec r a)) (asks_view r)"
proof -
  let ?r = "retired_reg now a oc bw cause ans lb r" and ?nm = "ar_id (entry_rec r a)"
  have entry: "client_of (entry_rec ?r b) = client_of (entry_rec r b)" for b
    using assms(3) by (cases "a = b") (auto simp: entry_rec_def ask_simps client_of_def resolve_entry_def)
  have keys: "ca_id (client_of (entry_rec r b)) = nm" if "fmlookup (rg_open r) nm = Some b" for nm b
    using open_okD(3) [OF assms(1) that] by simp
  show ?thesis
  proof (cases "fmlookup (rg_open r) ?nm = Some a")
    case True
    have "open_addrs ?r = List.map_filter (fmlookup (rg_open r)) (filter (\<lambda>nm. nm \<noteq> ?nm) (rg_order r))"
      unfolding open_addrs_def retire_open_fields [OF assms(3)] using True assms(2)
      by (simp add: order_ok_def) (rule map_filter_remove1, simp_all)
    with map_filter_remove_list [of "rg_order r" "fmlookup (rg_open r)" "\<lambda>a. client_of (entry_rec r a)" ?nm, OF keys]
    show ?thesis unfolding asks_view_addrs entry by (simp add: open_addrs_def)
  next
    case False
    with assms(5) view_ids [OF assms(1)] have "?nm \<notin> ca_id ` set (asks_view r)" by auto
    moreover have "asks_view ?r = asks_view r"
      unfolding asks_view_addrs entry using False by (simp add: open_addrs_def retire_open_fields [OF assms(3)])
    ultimately show ?thesis by (simp add: remove_list_fresh)
  qed
qed

lemma apply_ending:
  "apply_ask_event (ending_event now cause lb e) xs =
     (if ar_id (en_rec e) = [] then xs else remove_list ca_id (ar_id (en_rec e)) xs)"
  by (simp add: ending_event_def)

lemma tells_retire:
  assumes "asks_ex X leaving r" and "a < length (rg_heap r)" and "\<not> en_done (rg_heap r ! a)"
    and "fmlookup (rg_open r) (ar_id (entry_rec r a)) = Some a \<or> ar_id (entry_rec r a) |\<notin>| fmdom (rg_open r)"
  shows "tells r [fst (retire_ask now a oc bw cause ans lb r)] (retired_reg now a oc bw cause ans lb r)"
  unfolding tells_def
proof
  let ?nm = "ar_id (entry_rec r a)" and ?r = "retired_reg now a oc bw cause ans lb r"
  note ex = asks_exD(1,3) [OF assms(1)]
  assume n: "named r"
  have "remove_list ca_id [] (asks_view r) = asks_view r"
    by (rule remove_list_fresh) (use n view_ids [OF ex(1)] in \<open>auto simp: named_def fmlookup_dom_iff\<close>)
  moreover have "named ?r" using n by (auto simp: named_def retire_open_fields [OF assms(2)])
  ultimately show "named ?r \<and> fold_events apply_ask_event [fst (retire_ask now a oc bw cause ans lb r)] (asks_view r) =
      asks_view ?r"
    using retire_view [OF ex assms(2-4)] by (simp add: retire_event apply_ending entry_rec_def)
qed

lemma resolve_ids_tells:
  assumes "asks_ex X leaving r" and "resolve_ids clk accepts oc bw nms r = (evs, r')"
  shows "tells r evs r'"
  using assms
proof (induction nms arbitrary: clk r evs)
  case Nil
  then show ?case by (simp add: tells_def)
next
  case (Cons nm nms)
  consider (skip) "resolve_ids clk accepts oc bw nms r = (evs, r')"
    | (taken) a where "fmlookup (rg_open r) nm = Some a" "accepts (rg_heap r ! a)"
    using Cons.prems(2) by (cases "fmlookup (rg_open r) nm") (auto split: if_splits)
  then show ?case
  proof cases
    case skip
    with Cons show ?thesis by blast
  next
    case taken
    let ?r1 = "retired_reg (clk 0) a oc bw '''' no_answer '''' r" and ?ev = "fst (retire_ask (clk 0) a oc bw '''' no_answer '''' r)"
    note facts = open_okD [OF asks_exD(1) [OF Cons.prems(1)] taken(1)]
    obtain evs1 where rest: "resolve_ids (\<lambda>k. clk (Suc k)) accepts oc bw nms ?r1 = (evs1, r')" and evs: "evs = ?ev # evs1"
      using Cons.prems(2) taken by (auto simp: retire_pair split: prod.splits)
    have "asks_ex X leaving ?r1" using retire_ex [OF Cons.prems(1) facts(1,4)] facts(2) by simp
    from Cons.IH [OF this rest] have "tells ?r1 evs1 r'" .
    moreover have "tells r [?ev] ?r1"
      by (rule tells_retire [OF Cons.prems(1) facts(1,4)]) (simp add: facts(3) taken(1))
    ultimately show ?thesis using ask_tells_trans [of r "[?ev]" ?r1 evs1 r'] evs by simp
  qed
qed

lemma resolve_all_tells:
  assumes "asks_ex {} leaving r1" and "tells r [] r1" and "resolve_all_locked clk accepts oc bw r1 = (r', evs)"
  shows "tells r evs r'"
proof -
  from assms(3) have "resolve_ids clk accepts oc bw (rg_order r1) r1 = (evs, r')"
    by (auto simp: resolve_all_locked_def split: prod.splits)
  from ask_tells_trans [OF assms(2) resolve_ids_tells [OF assms(1) this]] show ?thesis by simp
qed

lemma tells_mark: "tells r [] (mark_locked t c r)"
  by (rule view_same) (simp_all add: ask_simps)

lemma ask_tells_refl: "tells r [] r"
  by (simp add: tells_def)

lemma reserve_named: "reserve_ask kind adopt hidden r = Inr (nm, r1) \<Longrightarrow> nm \<noteq> []"
  using mint_spec [of kind hidden r]
  by (auto simp: reserve_ask_def mint_post_def ask_id_def split: if_splits)

lemma apply_opening:
  assumes "body_fits kind body"
  shows "apply_ask_event (opening_event now kind (set_body_id kind body nm) False ans) xs =
    upsert_list ca_id \<lparr>ca_id = nm, ca_kind = kind, ca_body = set_body_id kind body nm\<rparr> xs"
  using assms by (cases body)
    (auto simp: body_fits_def opening_event_def set_body_id_def no_body_def kind_defs)

lemma apply_auto_opening:
  "\<exists>x. apply_ask_event (opening_event now kind (set_body_id kind body nm) auto ans) xs \<in> {xs, upsert_list ca_id x xs} \<and>
     ca_id x = nm"
proof (rule exI)
  let ?y = "\<lparr>ca_id = nm, ca_kind = kind, ca_body = body\<rparr>"
  let ?ev = "opening_event now kind (set_body_id kind body nm) auto ans"
  let ?x = "case ?ev of
      AskPermissionEv at (Some p) \<Rightarrow> \<lparr>ca_id = pv_id p, ca_kind = AskPermission, ca_body = no_body\<lparr>ab_permission := Some p\<rparr>\<rparr>
    | AskQuestionEv at (Some q) \<Rightarrow> \<lparr>ca_id = qv_id q, ca_kind = AskQuestion, ca_body = no_body\<lparr>ab_question := Some q\<rparr>\<rparr>
    | AskPlanEv at (Some p) \<Rightarrow> \<lparr>ca_id = lv_id p, ca_kind = AskPlan, ca_body = no_body\<lparr>ab_plan := Some p\<rparr>\<rparr>
    | _ \<Rightarrow> ?y"
  show "apply_ask_event ?ev xs \<in> {xs, upsert_list ca_id ?x xs} \<and> ca_id ?x = nm"
    by (auto simp: opening_event_def set_body_id_def split: option.split)
qed

lemma fresh_addr:
  assumes "same_asks r r1" and "nm |\<notin>| fmdom (rg_open r)"
  shows "ar_id (entry_rec (with_entry (fresh_entry now nm kind t body r1) r1) (length (rg_heap r))) = nm"
    and "nm |\<notin>| fmdom (rg_open (with_entry (fresh_entry now nm kind t body r1) r1))"
  using assms by (simp_all add: begin_entry_fields [OF assms(1)] ask_simps same_asks_def)

lemma begin_tells:
  assumes "asks_inv r" and "same_asks r r1"
  shows "tells r [] (with_entry e r1)"
proof -
  have "books_ex {} r1" using assms(1) same_asks_books [OF assms(2)] by (simp add: asks_inv_def asks_ex_def)
  then have "open_ok {} r1" by (simp add: books_ex_def)
  from ask_tells_trans [OF tells_same_asks [OF assms(2)] tells_with_entry [OF this]] show ?thesis by simp
qed

lemma open_ask_tells:
  assumes "asks_inv r" and "open_ask clk room t req r = (res, r', evs)" and "body_fits (rq_kind req) (rq_body req)"
  shows "tells r evs r'"
proof (cases "reserve_ask (rq_kind req) (rq_id req) (refusal_locked room t r \<noteq> None) r")
  case (Inl err)
  with assms(2) show ?thesis by (simp add: open_ask_def ask_tells_refl)
next
  case (Inr got)
  obtain nm r1 where got: "got = (nm, r1)" by (cases got)
  note res = Inr [unfolded got]
  let ?body = "set_body_id (rq_kind req) (rq_body req) nm"
  let ?r2 = "with_entry (fresh_entry (clk 0) nm (rq_kind req) t ?body r1) r1" and ?a = "length (rg_heap r)"
  note begun = reserve_begin [OF assms(1) res]
  note ex2 = begun(1) [of "clk 0" t ?body]
  note fields = begin_entry_fields [OF begun(2), of "clk 0" nm "rq_kind req" t ?body]
  note fresh = fresh_addr [OF begun(2,3), of "clk 0" "rq_kind req" t ?body]
  have addr: "length (rg_heap r1) = ?a" using begun(2) by (simp add: same_asks_def)
  have quiet: "tells r [] ?r2" by (rule begin_tells [OF assms(1) begun(2)])
  show ?thesis
  proof (cases "refusal_locked room t r")
    case (Some why)
    obtain oc bw where why: "why = (oc, bw)" by (cases why)
    have out: "r' = retired_reg (clk 1) ?a oc bw '''' no_answer '''' ?r2" "evs = [fst (retire_ask (clk 1) ?a oc bw '''' no_answer '''' ?r2)]"
      using assms(2) res Some why by (simp_all add: open_ask_def new_entry_eq addr Let_def retire_pair)
    have "tells ?r2 evs r'"
      unfolding out by (rule tells_retire [OF ex2]) (simp_all only: fresh, simp_all add: fields)
    with ask_tells_trans [OF quiet this] show ?thesis by simp
  next
    case None
    let ?r3 = "park_entry ?a ?r2"
    have out: "r' = ?r3" "evs = [opening_event (clk 1) (rq_kind req) ?body False no_answer]"
      using assms(2) res None by (simp_all add: open_ask_def new_entry_eq addr Let_def)
    have od: "order_ok ?r2" by (rule asks_exD(3) [OF ex2])
    have o: "open_ok {?a} ?r2" by (rule asks_exD(1) [OF ex2])
    have notopen: "ar_id (entry_rec ?r2 ?a) |\<notin>| fmdom (rg_open ?r2)" using fresh by simp
    have entry: "client_of (entry_rec ?r3 b) = client_of (entry_rec ?r2 b)" for b
      by (cases "b = ?a") (simp_all add: park_entry_def Let_def entry_rec_def fields)
    have view: "asks_view ?r3 = asks_view ?r2 @ [client_of (entry_rec ?r2 ?a)]"
      unfolding asks_view_addrs park_open_addrs [OF od notopen] entry by simp
    have mine: "client_of (entry_rec ?r2 ?a) =
        \<lparr>ca_id = nm, ca_kind = rq_kind req, ca_body = ?body\<rparr>"
      by (simp add: client_of_def fields)
    have "nm \<notin> ca_id ` set (asks_view ?r2)" using view_ids [OF o] fresh by auto
    then have "tells ?r2 evs ?r3"
      using reserve_named [OF res] unfolding tells_def view mine out
      by (simp add: apply_opening [OF assms(3)] upsert_list_def named_def park_entry_def Let_def fresh)
    with ask_tells_trans [OF quiet, of evs ?r3] out(1) show ?thesis by simp
  qed
qed

lemma record_tells:
  assumes "asks_inv r" and "reserve_ask kind adopt hidden r = Inr (nm, r1)"
    and "r2 = with_entry (fresh_entry now nm kind t body' r1) r1" and "a = length (rg_heap r1)"
    and "r3 = (if publishes then r2\<lparr>rg_heap := (rg_heap r2)[a := (rg_heap r2 ! a)\<lparr>en_published := True\<rparr>]\<rparr> else r2)"
    and "retire_ask at a oc bw cause ans lb r3 = (ev, r4)"
    and "evs = [] \<or> (\<exists>body ans. evs = [opening_event at' kind (set_body_id kind body nm) True ans])"
  shows "tells r (evs @ [ev]) r4"
proof -
  note begun = reserve_begin [OF assms(1,2)]
  note ex2 = begun(1) [of now t body', folded assms(3)]
  note fields = begin_entry_fields [OF begun(2), of now nm kind t body', folded assms(3)]
  note fresh = fresh_addr [OF begun(2,3), of now kind t body', folded assms(3)]
  have a: "a = length (rg_heap r)" using begun(2) assms(4) by (simp add: same_asks_def)
  have ex: "asks_ex {a} (\<lambda>_. False) r3"
    using ex2 publish_ex [OF ex2, of a r3] by (auto simp: assms(5) a)
  have "tells r2 [] r3"
    by (cases publishes) (simp_all add: assms(5) ask_tells_refl, rule tells_update [where a = a and
        e = "(rg_heap r2 ! a)\<lparr>en_published := True\<rparr>"], simp_all)
  from ask_tells_trans [OF begin_tells [OF assms(1) begun(2)] this [unfolded assms(3)]]
  have quiet: "tells r [] r3" by (simp add: assms(3))
  have id: "ar_id (entry_rec r3 a) = nm" "nm |\<notin>| fmdom (rg_open r3)"
    using fresh by (auto simp: assms(5) a entry_rec_def fields)
  have len: "a < length (rg_heap r3)" "\<not> en_done (rg_heap r3 ! a)" by (auto simp: assms(5) fields a)
  have ret: "tells r3 [ev] r4"
    using tells_retire [OF ex len, of at oc bw cause ans lb] id assms(6) by (simp add: retire_pair)
  have "asks_view r4 = remove_list ca_id nm (asks_view r3)"
    using retire_view [OF asks_exD(1,3) [OF ex] len, of at oc bw cause ans lb] id assms(6) by (simp add: retire_pair)
  moreover have "apply_ask_event ev xs = remove_list ca_id nm xs" for xs
    using assms(6) id(1) reserve_named [OF assms(2)] by (auto simp: retire_pair apply_ending entry_rec_def)
  moreover have "nm \<notin> ca_id ` set (asks_view r3)" using view_ids [OF asks_exD(1) [OF ex]] id(2) by auto
  then have "remove_list ca_id nm (fold_events apply_ask_event evs (asks_view r3)) = remove_list ca_id nm (asks_view r3)"
  proof (cases "evs = []")
    case False
    with assms(7) obtain body ans where evs: "evs = [opening_event at' kind (set_body_id kind body nm) True ans]" by blast
    assume nm: "nm \<notin> ca_id ` set (asks_view r3)"
    obtain x where x: "ca_id x = nm" "fold_events apply_ask_event evs (asks_view r3) \<in> {asks_view r3, upsert_list ca_id x (asks_view r3)}"
      using apply_auto_opening [of at' kind body nm True ans "asks_view r3"] unfolding evs by auto
    moreover have "upsert_list ca_id x (asks_view r3) = asks_view r3 @ [x]"
      using x(1) nm reserve_named [OF assms(2)] by (simp add: upsert_list_def)
    ultimately show ?thesis by auto
  qed simp
  ultimately have "tells r3 (evs @ [ev]) r4" using ret by (simp add: tells_def)
  from ask_tells_trans [OF quiet this] show ?thesis by simp
qed

lemma automatic_tells:
  assumes "asks_inv r" and "automatic clk t req ans r = (a, r', evs)"
  shows "tells r evs r'"
proof -
  obtain oc ans' lb where out: "automatic_outcome req ans = (oc, ans', lb)" by (cases "automatic_outcome req ans")
  let ?pub = "publishes_opening (rq_kind req) oc"
  obtain nm r1 where nm: "automatic_id req (\<not> ?pub) r = (nm, r1)" by fastforce
  have "\<exists>adopt. reserve_ask (rq_kind req) adopt (\<not> ?pub) r = Inr (nm, r1)"
    using nm mint_is_reserve [of "rq_kind req" "\<not> ?pub" r nm r1]
    by (auto simp: automatic_id_def split: sum.splits)
  then obtain adopt where res: "reserve_ask (rq_kind req) adopt (\<not> ?pub) r = Inr (nm, r1)" ..
  let ?body = "set_body_id (rq_kind req) (rq_body req) nm"
  define r2 where "r2 = with_entry (fresh_entry (clk 0) nm (rq_kind req) t ?body r1) r1"
  define r3 where "r3 = (if ?pub then
      r2\<lparr>rg_heap := (rg_heap r2)[length (rg_heap r1) := (rg_heap r2 ! length (rg_heap r1))\<lparr>en_published := True\<rparr>]\<rparr>
      else r2)"
  obtain ev r4 where ret: "retire_ask (if ?pub then clk 2 else clk 1) (length (rg_heap r1)) oc AskByPolicy '''' ans' lb r3 = (ev, r4)" by fastforce
  define evs0 where "evs0 = (if ?pub then [opening_event (clk 1) (rq_kind req) ?body True ans'] else [])"
  have res': "r' = r4" "evs = evs0 @ [ev]"
    using assms(2) ret unfolding automatic_def out Let_def new_entry_eq r3_def r2_def evs0_def by (simp_all add: nm)
  have "tells r (evs0 @ [ev]) r4"
    by (rule record_tells [OF assms(1) res r2_def refl r3_def ret]) (auto simp: evs0_def)
  with res' show ?thesis by simp
qed

lemma early_tells:
  assumes "asks_inv r" and "answered_early clk t req oc bw r = (a, r', evs)"
  shows "tells r evs r'"
proof -
  obtain nm r1 where m: "mint_locked (rq_kind req) True r = (nm, r1)" by fastforce
  let ?body = "set_body_id (rq_kind req) (rq_body req) nm"
  define oc' where "oc' = (if oc = NoOutcome then AskCancelled else oc)"
  define bw' where "bw' = (if bw = ByNobody then AskByProvider else bw)"
  define r2 where "r2 = with_entry (fresh_entry (clk 0) nm (rq_kind req) t ?body r1) r1"
  obtain ev r3 where ret: "retire_ask (clk 1) (length (rg_heap r1)) oc' bw' '''' no_answer '''' r2 = (ev, r3)" by fastforce
  have "r' = r3" "evs = [ev]" using assms(2) m ret
    by (simp_all add: answered_early_def Let_def new_entry_eq oc'_def bw'_def r2_def)
  moreover have "tells r ([] @ [ev]) r3"
    by (rule record_tells [OF assms(1) mint_is_reserve [OF m] r2_def refl _ ret, where publishes = False]) simp_all
  ultimately show ?thesis by simp
qed

lemma open_retire_tells:
  assumes "asks_inv r" and "fmlookup (rg_open r) nm = Some a"
    and "retire_ask now a oc bw cause ans lb r = (ev, r')"
  shows "tells r [ev] r'"
proof -
  have ex: "asks_ex {} (\<lambda>_. False) r" using assms(1) by (simp add: asks_inv_def)
  note facts = open_okD [OF asks_exD(1) [OF ex] assms(2)]
  from tells_retire [OF ex facts(1,4), of now oc bw cause ans lb] assms(2,3) facts(3) show ?thesis
    by (simp add: retire_pair)
qed

lemma answer_tells: "asks_inv r \<Longrightarrow> answer_ask now room cause nm a r = (res, r', evs) \<Longrightarrow> tells r evs r'"
  by (auto simp: answer_ask_def ask_tells_refl Let_def open_retire_tells split: option.splits sum.splits prod.splits if_splits)

lemma cancel_by_call_tells: "asks_inv r \<Longrightarrow> cancel_by_call now a r = (r', evs) \<Longrightarrow> tells r evs r'"
  by (auto simp: cancel_by_call_def ask_tells_refl Let_def open_retire_tells split: prod.splits if_splits)

lemma small_tells:
  "tells r [] (fst (report_ask known nm rep r))" "tells r [] (snd (wait_take a r))"
  "tells r [] (snd (begin_ask_turn r))"
proof -
  have "client_of (en_rec (merge_report rep (rg_heap r ! b))) = client_of (en_rec (rg_heap r ! b))" for b
    by (simp add: client_of_def merge_report_def)
  from tells_update [OF _ _ _ this] show "tells r [] (fst (report_ask known nm rep r))"
    by (auto simp: report_ask_def Let_def ask_tells_refl split: option.splits prod.splits)
  show "tells r [] (snd (wait_take a r))"
    by (rule tells_update [where a = a and e = "(rg_heap r ! a)\<lparr>en_rec := (entry_rec r a)\<lparr>ar_consumed := True\<rparr>\<rparr>"])
      (simp_all add: wait_take_def Let_def client_of_def entry_rec_def)
  show "tells r [] (snd (begin_ask_turn r))"
    by (rule view_same) (simp_all add: begin_ask_turn_def Let_def entry_rec_def)
qed

lemma turn_tells:
  assumes "asks_inv r"
  shows "tells r (snd (cancel_turn clk t r)) (fst (cancel_turn clk t r))"
    and "tells r (snd (cancel_own_turn clk t r)) (fst (cancel_own_turn clk t r))"
    and "tells r (snd (end_ask_turn clk t r)) (fst (end_ask_turn clk t r))"
    and "tells r (snd (close_registry clk r)) (fst (close_registry clk r))"
proof -
  have run: "tells r evs r'"
    if "\<not> foreign_token r t" "resolve_all_locked clk accepts oc bw (mark_locked t c r) = (r', evs)" for c accepts oc bw r' evs
    by (rule resolve_all_tells [OF mark_ex [OF assms that(1), of "\<lambda>_. True"] tells_mark that(2)]) simp
  then show "tells r (snd (cancel_turn clk t r)) (fst (cancel_turn clk t r))"
    "tells r (snd (cancel_own_turn clk t r)) (fst (cancel_own_turn clk t r))"
    "tells r (snd (end_ask_turn clk t r)) (fst (end_ask_turn clk t r))"
    by (simp_all add: cancel_turn_def cancel_own_turn_def end_ask_turn_def ask_tells_refl)
  have "tells r [] (r\<lparr>rg_closed := True\<rparr>)" by (rule view_same) (simp_all add: entry_rec_def)
  then show "tells r (snd (close_registry clk r)) (fst (close_registry clk r))"
    using resolve_all_tells [OF close_ex [OF assms]] by (simp add: close_registry_def ask_tells_refl)
qed

lemma ask_section_tells:
  assumes "asks_inv r" and "request_fits opr"
  shows "tells r (snd (ask_step opr r)) (fst (ask_step opr r))"
  using assms
proof (induction opr r rule: ask_step.induct)
  case (6 clk room t req r)
  then show ?case using open_ask_tells [of r clk room t req] by (cases "open_ask clk room t req r") auto
next
  case (7 clk t req a r)
  then show ?case using automatic_tells [of r clk t req a] by (cases "automatic clk t req a r") auto
next
  case (8 clk t req outcome by_whom r)
  then show ?case using early_tells [of r clk t req outcome by_whom] by (cases "answered_early clk t req outcome by_whom r") auto
next
  case (9 clk room cause nm a r)
  then show ?case using answer_tells [of r "clk 0" room cause nm a] by (cases "answer_ask (clk 0) room cause nm a r") auto
next
  case (11 clk a r)
  then show ?case using cancel_by_call_tells [of r "clk 0" a] by (cases "cancel_by_call (clk 0) a r") auto
qed (simp_all add: small_tells turn_tells)

text \<open>The registry keeps the contract of an event source: its events are the change they tell.\<close>

interpretation ask_source: event_source ask_step "\<lambda>opr _. request_fits opr" "\<lambda>r. asks_inv r \<and> named r"
    asks_view apply_ask_event
proof unfold_locales
  fix r opr
  assume r: "asks_inv r \<and> named r" and fits: "request_fits opr"
  have "tells r (snd (ask_step opr r)) (fst (ask_step opr r))" by (rule ask_section_tells) (use r fits in simp_all)
  with r section_keeps [of r opr] show "asks_inv (fst (ask_step opr r)) \<and> named (fst (ask_step opr r))"
    by (simp add: keeps_def tells_def)
next
  fix r opr
  assume r: "asks_inv r \<and> named r" and fits: "request_fits opr"
  have "tells r (snd (ask_step opr r)) (fst (ask_step opr r))" by (rule ask_section_tells) (use r fits in simp_all)
  with r show "fold_events apply_ask_event (snd (ask_step opr r)) (asks_view r) = asks_view (fst (ask_step opr r))"
    by (simp add: tells_def)
qed

lemma run_tells:
  assumes "ops_ok ask_step (\<lambda>opr _. request_fits opr) ops (new_ask_registry reg inc)"
  shows "fold_events apply_ask_event (snd (run_ops ask_step ops (new_ask_registry reg inc))) [] =
    asks_view (fst (run_ops ask_step ops (new_ask_registry reg inc)))"
proof -
  have "asks_inv (new_ask_registry reg inc) \<and> named (new_ask_registry reg inc)"
    using asks_inv_new by (simp add: named_def new_ask_registry_def)
  moreover have "asks_view (new_ask_registry reg inc) = []"
    by (simp add: asks_view_addrs open_addrs_def new_ask_registry_def List.map_filter_simps)
  ultimately show ?thesis using ask_source.run_view assms by metis
qed

section \<open>Answers\<close>

text \<open>What an accepted answer was offered.\<close>

definition was_offered :: "ask_kind \<Rightarrow> ask_body \<Rightarrow> ask_answer \<Rightarrow> string \<Rightarrow> bool" where
  "was_offered kind body ans label \<longleftrightarrow>
     (kind = AskPermission \<and> aa_answers ans = [] \<and> \<not> aa_skip ans \<and> \<not> aa_accept ans \<and> \<not> aa_reject ans \<and>
        (aa_cancel ans \<and> aa_option ans = [] \<or>
         \<not> aa_cancel ans \<and> aa_option ans \<noteq> [] \<and>
           (\<exists>p opt. ab_permission body = Some p \<and> opt \<in> set (pv_options p) \<and> po_id opt = aa_option ans \<and> po_name opt = label))) \<or>
     (kind = AskQuestion \<and> aa_option ans = [] \<and> \<not> aa_cancel ans \<and> \<not> aa_accept ans \<and> \<not> aa_reject ans \<and>
        (aa_skip ans \<longrightarrow> aa_answers ans = []) \<and>
        (\<forall>(qid, chosen) \<in> set (aa_answers ans). \<exists>q one. ab_question body = Some q \<and> one \<in> set (qv_questions q) \<and>
           qn_id one = qid \<and> (\<forall>oid \<in> set chosen. oid \<in> qo_id ` set (qn_options one))) \<and>
        (\<not> aa_skip ans \<and> aa_answers ans = [] \<longrightarrow> questions_offered (ab_question body) = [])) \<or>
     (kind = AskPlan \<and> aa_option ans = [] \<and> \<not> aa_cancel ans \<and> \<not> aa_skip ans \<and> aa_answers ans = [] \<and>
        aa_accept ans \<noteq> aa_reject ans)"

lemma validate_bad: "validate_answer kind body a = Inl err \<Longrightarrow> err = ErrBadAnswer"
  by (auto simp: validate_answer_def validate_permission_def validate_question_def validate_plan_def
      check_question_answers_def split: if_splits option.splits)

lemma question_answers_offered:
  assumes "check_question_answers q answers = None" and "(qid, chosen) \<in> set answers"
  shows "\<exists>qe one. q = Some qe \<and> one \<in> set (qv_questions qe) \<and> qn_id one = qid \<and>
      (\<forall>oid \<in> set chosen. oid \<in> qo_id ` set (qn_options one))"
proof -
  from assms obtain one where one: "question_by_id q qid = Some one" and all: "list_all (offers_option one) chosen"
    by (auto simp: check_question_answers_def list_all_iff split: if_splits option.splits)
  from one obtain qe where q: "q = Some qe" and f: "find (\<lambda>one. qn_id one = qid) (qv_questions qe) = Some one"
    by (auto simp: question_by_id_def split: option.splits)
  from f have "one \<in> set (qv_questions qe)" "qn_id one = qid" by (auto simp: find_Some_iff)
  moreover have "oid \<in> qo_id ` set (qn_options one)" if "oid \<in> set chosen" for oid
    using all that by (auto simp: list_all_iff offers_option_def list_ex_iff)
  ultimately show ?thesis using q by blast
qed

lemma validate_offered:
  assumes "validate_answer kind body a = Inr (ans, label)"
  shows "was_offered kind body ans label"
proof -
  consider "kind = AskPermission" | "kind = AskQuestion" "kind \<noteq> AskPermission"
    | "kind = AskPlan" "kind \<noteq> AskPermission" "kind \<noteq> AskQuestion"
    using assms by (auto simp: validate_answer_def split: if_splits)
  then show ?thesis
  proof cases
    case 1
    with assms have v: "validate_permission (ab_permission body) a = Inr (ans, label)" by (simp add: validate_answer_def)
    show ?thesis
    proof (cases "aa_cancel a")
      case True
      with v have "ans = no_answer\<lparr>aa_cancel := True\<rparr>" by (auto simp: validate_permission_def split: if_splits)
      with 1 show ?thesis by (simp add: was_offered_def no_answer_def)
    next
      case False
      with v have p: "permission_option (ab_permission body) (aa_option a) = Some label"
        and ans: "ans = no_answer\<lparr>aa_option := aa_option a\<rparr>"
        by (auto simp: validate_permission_def split: if_splits option.splits)
      from p obtain pe opt where "ab_permission body = Some pe" "aa_option a \<noteq> []"
        "find (\<lambda>opt. po_id opt = aa_option a) (pv_options pe) = Some opt" "po_name opt = label"
        by (auto simp: permission_option_def split: if_splits)
      then have "opt \<in> set (pv_options pe)" "po_id opt = aa_option a" by (auto simp: find_Some_iff)
      with \<open>ab_permission body = Some pe\<close> \<open>po_name opt = label\<close> \<open>aa_option a \<noteq> []\<close> 1 ans show ?thesis
        by (auto simp: was_offered_def no_answer_def)
    qed
  next
    case 2
    with assms have v: "validate_question (ab_question body) a = Inr (ans, label)" by (simp add: validate_answer_def)
    then consider "aa_skip a" "ans = no_answer\<lparr>aa_skip := True\<rparr>"
      | "aa_answers a = []" "questions_offered (ab_question body) = []" "ans = no_answer\<lparr>aa_answers := []\<rparr>"
      | "check_question_answers (ab_question body) (aa_answers a) = None" "aa_answers a \<noteq> []"
        "ans = no_answer\<lparr>aa_answers := aa_answers a\<rparr>"
      by (auto simp: validate_question_def split: if_splits option.splits)
    then show ?thesis
      using 2 question_answers_offered by cases (auto simp: was_offered_def no_answer_def)
  next
    case 3
    with assms show ?thesis
      by (auto simp: validate_answer_def validate_plan_def was_offered_def no_answer_def split: if_splits)
  qed
qed

text \<open>What is kept of an accepted answer is the answer: the fields another kind would take are empty.\<close>

lemma validate_keeps_answer: "validate_answer kind body a = Inr (ans, label) \<Longrightarrow> ans = a"
  by (cases a) (auto simp: validate_answer_def validate_permission_def validate_question_def validate_plan_def no_answer_def
      split: if_splits option.splits)

section \<open>Ids minted\<close>

definition id_list :: "ask_registry \<Rightarrow> string list" where
  "id_list r = map (\<lambda>e. ar_id (en_rec e)) (rg_heap r)"

definition same_counters :: "ask_registry \<Rightarrow> ask_registry \<Rightarrow> bool" where
  "same_counters r r' \<longleftrightarrow> rg_seq r' = rg_seq r \<and> rg_hidden_seq r' = rg_hidden_seq r"

text \<open>An operation that leaves the choice of its id to the registry.\<close>

fun mints_only :: "readings \<times> ask_op \<Rightarrow> bool" where
  "mints_only (clk, OpOpen room t req) \<longleftrightarrow> rq_id req = [] \<and> known_kind (rq_kind req)"
| "mints_only (clk, OpAutomatic t req a) \<longleftrightarrow> rq_id req = [] \<and> known_kind (rq_kind req)"
| "mints_only (clk, OpEarly t req oc bw) \<longleftrightarrow> known_kind (rq_kind req)"
| "mints_only _ \<longleftrightarrow> True"

definition same_ids :: "ask_registry \<Rightarrow> ask_registry \<Rightarrow> bool" where
  "same_ids r r' \<longleftrightarrow> id_list r' = id_list r \<and> same_counters r r'"

definition one_minted :: "ask_registry \<Rightarrow> ask_registry \<Rightarrow> bool" where
  "one_minted r r' \<longleftrightarrow> (\<exists>kind hidden nm r1. known_kind kind \<and> mint_locked kind hidden r = (nm, r1) \<and>
     id_list r' = id_list r @ [nm] \<and> same_counters r1 r')"

lemma id_list_update:
  "ar_id (en_rec e) = ar_id (en_rec (rg_heap r ! a)) \<Longrightarrow> rg_heap r' = (rg_heap r)[a := e] \<Longrightarrow> id_list r' = id_list r"
  unfolding id_list_def by (intro nth_equalityI) (auto simp: nth_update)

lemma same_ids_retire: "same_ids r (retired_reg now a oc bw cause ans lb r)"
  by (simp add: same_ids_def same_counters_def ask_simps) (rule id_list_update [where a = a], simp_all add: ask_simps)

lemma same_ids_trans: "same_ids r s \<Longrightarrow> same_ids s t \<Longrightarrow> same_ids r t"
  by (simp add: same_ids_def same_counters_def)

lemma same_ids_refl: "same_ids r r"
  by (simp add: same_ids_def same_counters_def)

lemma one_minted_trans: "one_minted r s \<Longrightarrow> same_ids s t \<Longrightarrow> one_minted r t"
  unfolding one_minted_def same_ids_def same_counters_def by metis

lemma one_minted_entry:
  assumes "mint_locked kind hidden r = (nm, r1)" and "known_kind kind"
  shows "one_minted r (with_entry (fresh_entry now nm kind t body r1) r1)"
proof -
  have "rg_heap r1 = rg_heap r" using mint_same_asks [of r kind hidden] assms(1) by (simp add: same_asks_def)
  with assms show ?thesis
    unfolding one_minted_def by (intro exI [of _ kind] exI [of _ hidden] exI [of _ nm] exI [of _ r1])
      (simp add: id_list_def ask_simps same_counters_def)
qed

lemma same_ids_resolve:
  "resolve_ids clk accepts oc bw nms r = (evs, r') \<Longrightarrow> same_ids r r'"
proof (induction nms arbitrary: clk r evs)
  case (Cons nm nms)
  show ?case
  proof (cases "fmlookup (rg_open r) nm")
    case None
    with Cons show ?thesis by simp
  next
    case (Some a)
    let ?r1 = "retired_reg (clk 0) a oc bw '''' no_answer '''' r"
    show ?thesis
    proof (cases "accepts (rg_heap r ! a)")
      case True
      then obtain evs1 where "resolve_ids (\<lambda>k. clk (Suc k)) accepts oc bw nms ?r1 = (evs1, r')"
        using Cons.prems Some by (auto simp: retire_pair split: prod.splits)
      from same_ids_trans [OF same_ids_retire Cons.IH [OF this]] show ?thesis .
    qed (use Cons Some in simp)
  qed
qed (simp add: same_ids_refl)

lemma same_ids_resolve_all: "same_ids r r1 \<Longrightarrow> same_ids r (fst (resolve_all_locked clk accepts oc bw r1))"
  by (auto simp: resolve_all_locked_def split: prod.splits intro: same_ids_trans [OF _ same_ids_resolve])

lemma same_ids_heap: "rg_heap r' = rg_heap r \<Longrightarrow> rg_seq r' = rg_seq r \<Longrightarrow> rg_hidden_seq r' = rg_hidden_seq r \<Longrightarrow> same_ids r r'"
  by (simp add: same_ids_def id_list_def same_counters_def)

lemma same_ids_mark: "same_ids r (mark_locked t c r)"
  by (rule same_ids_heap) (simp_all add: ask_simps)

lemma same_ids_turns:
  "same_ids r (fst (cancel_turn clk t r))" "same_ids r (fst (cancel_own_turn clk t r))"
  "same_ids r (fst (end_ask_turn clk t r))" "same_ids r (fst (close_registry clk r))"
  "same_ids r (snd (begin_ask_turn r))"
  using same_ids_resolve_all [OF same_ids_mark]
    same_ids_resolve_all [of r "r\<lparr>rg_closed := True\<rparr>", OF same_ids_heap]
  by (simp_all add: cancel_turn_def cancel_own_turn_def end_ask_turn_def close_registry_def same_ids_refl
      begin_ask_turn_def Let_def same_ids_heap)

lemma same_ids_small:
  "same_ids r (fst (report_ask known nm rep r))" "same_ids r (snd (wait_take a r))"
  "same_ids r (fst (cancel_by_call now a r))" "same_ids r (fst (snd (answer_ask now room cause nm ans r)))"
proof -
  have "ar_id (en_rec (merge_report rep (rg_heap r ! b))) = ar_id (en_rec (rg_heap r ! b))" for b
    by (simp add: merge_report_def)
  then have "same_ids r (r\<lparr>rg_heap := (rg_heap r)[b := merge_report rep (rg_heap r ! b)]\<rparr>)" for b
    using id_list_update [of "merge_report rep (rg_heap r ! b)" r b] by (simp add: same_ids_def same_counters_def)
  then show "same_ids r (fst (report_ask known nm rep r))"
    by (auto simp: report_ask_def Let_def same_ids_refl split: option.splits prod.splits)
  show "same_ids r (snd (wait_take a r))"
    using id_list_update [of "(rg_heap r ! a)\<lparr>en_rec := (entry_rec r a)\<lparr>ar_consumed := True\<rparr>\<rparr>" r a "snd (wait_take a r)"]
    by (simp add: same_ids_def same_counters_def wait_take_def Let_def entry_rec_def)
  show "same_ids r (fst (cancel_by_call now a r))" "same_ids r (fst (snd (answer_ask now room cause nm ans r)))"
    by (auto simp: cancel_by_call_def answer_ask_def Let_def retire_pair same_ids_refl same_ids_retire
        split: option.splits sum.splits)
qed

lemma same_ids_publish: "same_ids r (r\<lparr>rg_heap := (rg_heap r)[a := (rg_heap r ! a)\<lparr>en_published := True\<rparr>]\<rparr>)"
  using id_list_update [of "(rg_heap r ! a)\<lparr>en_published := True\<rparr>" r a] by (simp add: same_ids_def same_counters_def)

lemma same_ids_park: "same_ids r (park_entry a r)"
  using id_list_update [of "(rg_heap r ! a)\<lparr>en_published := True\<rparr>" r a "park_entry a r"]
  by (simp add: same_ids_def same_counters_def park_entry_def Let_def)

lemma one_minted_open:
  assumes "rq_id req = []" and "known_kind (rq_kind req)"
  shows "one_minted r (fst (snd (open_ask clk room t req r)))"
proof -
  obtain nm r1 where m: "mint_locked (rq_kind req) (refusal_locked room t r \<noteq> None) r = (nm, r1)" by fastforce
  note one = one_minted_entry [OF m assms(2)]
  show ?thesis
  proof (cases "refusal_locked room t r")
    case None
    with m one_minted_trans [OF one same_ids_park] show ?thesis
      by (simp add: open_ask_def reserve_ask_def assms(1) new_entry_eq Let_def)
  next
    case (Some why)
    with m one_minted_trans [OF one same_ids_retire] show ?thesis
      by (cases why) (simp add: open_ask_def reserve_ask_def assms(1) new_entry_eq Let_def retire_pair)
  qed
qed

lemma one_minted_early: "known_kind (rq_kind req) \<Longrightarrow> one_minted r (fst (snd (answered_early clk t req oc bw r)))"
  using one_minted_trans [OF one_minted_entry same_ids_retire]
  by (cases "mint_locked (rq_kind req) True r") (simp add: answered_early_def new_entry_eq Let_def retire_pair)

lemma one_minted_automatic:
  assumes "rq_id req = []" and "known_kind (rq_kind req)"
  shows "one_minted r (fst (snd (automatic clk t req ans r)))"
proof -
  obtain oc ans' lb where out: "automatic_outcome req ans = (oc, ans', lb)" by (cases "automatic_outcome req ans")
  let ?pub = "publishes_opening (rq_kind req) oc"
  obtain nm r1 where m: "mint_locked (rq_kind req) (\<not> ?pub) r = (nm, r1)" by fastforce
  have "automatic_id req (\<not> ?pub) r = (nm, r1)" using m by (simp add: automatic_id_def reserve_ask_def assms(1))
  with one_minted_trans [OF one_minted_entry [OF m assms(2)] same_ids_retire]
    one_minted_trans [OF one_minted_entry [OF m assms(2)] same_ids_trans [OF same_ids_publish same_ids_retire]]
  show ?thesis by (simp add: automatic_def out new_entry_eq Let_def retire_pair)
qed

lemma section_ids: "mints_only opr \<Longrightarrow> same_ids r (fst (ask_step opr r)) \<or> one_minted r (fst (ask_step opr r))"
  by (induction opr r rule: ask_step.induct)
    (simp_all add: same_ids_turns same_ids_small one_minted_open one_minted_automatic one_minted_early)

definition minted_ids :: "ask_registry \<Rightarrow> bool" where
  "minted_ids r \<longleftrightarrow> distinct (id_list r) \<and>
     (\<forall>nm \<in> set (id_list r). \<exists>num. nm = ask_id num \<and> known_kind (an_kind num) \<and>
        1 \<le> an_n num \<and> an_n num \<le> counter (an_hidden num) r (an_kind num))"

lemma same_ids_minted: "same_ids r r' \<Longrightarrow> minted_ids r \<Longrightarrow> minted_ids r'"
proof -
  assume "same_ids r r'" and m: "minted_ids r"
  then have "id_list r' = id_list r" "\<And>h k. counter h r' k = counter h r k"
    by (simp_all add: same_ids_def same_counters_def counter_def)
  with m show ?thesis unfolding minted_ids_def by simp
qed

lemma one_minted_minted:
  assumes "one_minted r r'" and "minted_ids r"
  shows "minted_ids r'"
proof -
  obtain kind hidden nm r1 where k: "known_kind kind" and m: "mint_locked kind hidden r = (nm, r1)"
    and ids: "id_list r' = id_list r @ [nm]" and c: "same_counters r1 r'"
    using assms(1) by (auto simp: one_minted_def)
  have post: "mint_post kind hidden r (nm, r1)" using mint_spec [of kind hidden r] m by simp
  let ?num = "next_number kind hidden r1"
  have nm: "nm = ask_id ?num" and up: "counter hidden r kind < counter hidden r1 kind"
    using post by (simp_all add: mint_post_def)
  have counters: "counter h r' k = counter h r1 k" for h k using c by (simp add: same_counters_def counter_def)
  have mono: "counter h r k \<le> counter h r1 k" for h k
    using mint_later [OF m] by (simp add: later_def)
  have old: "\<exists>num. x = ask_id num \<and> known_kind (an_kind num) \<and> 1 \<le> an_n num \<and>
      an_n num \<le> counter (an_hidden num) r (an_kind num)" if "x \<in> set (id_list r)" for x
    using assms(2) that by (simp add: minted_ids_def)
  have "nm \<notin> set (id_list r)"
  proof
    assume "nm \<in> set (id_list r)"
    from old [OF this] obtain num where num: "nm = ask_id num" "known_kind (an_kind num)"
      "an_n num \<le> counter (an_hidden num) r (an_kind num)" by blast
    have "ask_id num = ask_id ?num" using num(1) nm by simp
    then have "num = ?num" using num(2) k by (intro ask_id_inject) (simp_all add: next_number_def)
    with num(3) up show False by (simp add: next_number_def)
  qed
  moreover have "\<exists>num. x = ask_id num \<and> known_kind (an_kind num) \<and> 1 \<le> an_n num \<and>
      an_n num \<le> counter (an_hidden num) r' (an_kind num)" if "x \<in> set (id_list r')" for x
  proof (cases "x = nm")
    case True
    with nm k up show ?thesis by (intro exI [of _ ?num]) (simp add: next_number_def counters)
  next
    case False
    with that ids have "x \<in> set (id_list r)" by simp
    from old [OF this] obtain num where num: "x = ask_id num" "known_kind (an_kind num)" "1 \<le> an_n num"
      "an_n num \<le> counter (an_hidden num) r (an_kind num)" by blast
    with order_trans [OF num(4) mono] show ?thesis unfolding counters by blast
  qed
  ultimately show ?thesis using assms(2) ids by (simp add: minted_ids_def)
qed

text \<open>Where every id is the registry's own choice, the ids are the mints.\<close>

interpretation minting: op_invariant ask_step "\<lambda>opr _. mints_only opr" minted_ids
  by unfold_locales (use section_ids same_ids_minted one_minted_minted in blast)

lemma minted_forever:
  assumes "asks_inv r" and "mints_only opr" and "length (rg_heap r) < length (rg_heap (fst (ask_step opr r)))"
    and "\<And>h k. counter h (fst (ask_step opr r)) k \<le> maxAskNumber"
  shows "issued_locked (fst (run_ops ask_step ops (fst (ask_step opr r))))
    (ar_id (entry_rec (fst (ask_step opr r)) (length (rg_heap r))))"
proof -
  let ?r1 = "fst (ask_step opr r)"
  have "\<not> same_ids r ?r1"
  proof
    assume "same_ids r ?r1"
    then have "length (id_list ?r1) = length (id_list r)" by (simp add: same_ids_def)
    with assms(3) show False by (simp add: id_list_def)
  qed
  with section_ids [OF assms(2)] have "one_minted r ?r1" by blast
  then obtain kind hidden nm r1 where k: "known_kind kind" and m: "mint_locked kind hidden r = (nm, r1)"
    and ids: "id_list ?r1 = id_list r @ [nm]" and c: "same_counters r1 ?r1" by (auto simp: one_minted_def)
  let ?num = "next_number kind hidden r1"
  have "mint_post kind hidden r (nm, r1)" using mint_spec [of kind hidden r] m by simp
  then have nm: "nm = ask_id ?num" and pos: "1 \<le> an_n ?num" by (simp_all add: mint_post_def next_number_def)
  have count: "an_n ?num = counter hidden ?r1 kind" using c by (simp add: next_number_def same_counters_def counter_def)
  have id: "ar_id (entry_rec ?r1 (length (rg_heap r))) = nm"
    using arg_cong [OF ids, of "\<lambda>xs. xs ! length (rg_heap r)"] assms(3)
    by (simp add: id_list_def entry_rec_def nth_append)
  have inv: "asks_inv ?r1" using section_keeps [OF assms(1)] by (simp add: keeps_def)
  have "canonical_id nm = Some ?num"
    unfolding nm by (rule canonical_ask_id) (use k pos count assms(4) [of hidden kind] in \<open>simp_all add: next_number_def\<close>)
  moreover have "an_n ?num \<le> counter hidden (fst (run_ops ask_step ops ?r1)) kind"
    unfolding count using run_later [OF inv, of ops] by (simp add: later_def)
  ultimately show ?thesis unfolding id by (simp add: issued_locked_def next_number_def)
qed

section \<open>Properties\<close>

lemma ops_ok_const: "ops_ok step (\<lambda>opr _. p opr) ops r \<longleftrightarrow> list_all p ops"
  by (induction ops arbitrary: r) simp_all

text \<open>A run for the witnesses: a turn, two permission cards in it, the first one answered.\<close>

definition card_request :: ask_request where
  "card_request = \<lparr>rq_kind = AskPermission, rq_body = no_body\<lparr>ab_permission := Some \<lparr>pv_id = '''', pv_tool = ''shell'',
     pv_options = [\<lparr>po_id = ''yes'', po_name = ''Allow'', po_kind = ''allow_once''\<rparr>]\<rparr>\<rparr>, rq_id = ''''\<rparr>"

definition card_token :: turn_token where
  "card_token = \<lparr>tt_reg = 1, tt_n = 1\<rparr>"

definition at_time :: "nat \<Rightarrow> readings" where
  "at_time n = (\<lambda>k. n + k)"

definition card_run :: "(readings \<times> ask_op) list" where
  "card_run = [(at_time 1, OpBeginTurn), (at_time 2, OpOpen True card_token card_request), (at_time 3, OpOpen True card_token card_request),
     (at_time 4, OpAnswer True ''c-1/1'' ''perm-1'' (no_answer\<lparr>aa_option := ''yes''\<rparr>))]"

abbreviation run_asks :: "(readings \<times> ask_op) list \<Rightarrow> nat \<Rightarrow> string \<Rightarrow> ask_registry \<times> ask_event list" where
  "run_asks ops reg inc \<equiv> run_ops ask_step ops (new_ask_registry reg inc)"

abbreviation card_registry :: ask_registry where
  "card_registry \<equiv> fst (run_asks card_run 1 ''inc'')"

lemma card_view: "map ca_id (asks_view card_registry) = [''perm-2'']"
  by code_simp

lemma card_facts:
  "rg_turn_seq card_registry = 1" "length (rg_heap card_registry) = 2" "map en_done (rg_heap card_registry) = [True, False]"
  "map (\<lambda>e. ar_token (en_rec e)) (rg_heap card_registry) = [card_token, card_token]"
  by code_simp+

text \<open>C21. A client shows the asks the registry holds: whatever operations a session's registry went through, from
  any goroutine and in any order, a client that folds the events of all of them, in order, shows exactly the
  open asks, in the order they were opened, each with its id, its kind and its body; the time it shows for one is
  the time of the last opening event with its id; and it keeps at most 256 endings. The requests are the ones
  the code makes: an opening carries the payload of its kind.\<close>

theorem client_shows_the_asks:
  assumes "list_all request_fits ops"
  shows "let (r, evs) = run_asks ops reg inc; m = fold_events (fold_ask_event clock) evs new_ask_model in
    cards m = asks_view r \<and>
    (\<forall>c \<in> set (kl_values (am_asks m)). last_opened clock evs (ca_id c) = Some (ca_at c)) \<and>
    kl_len (am_ended m) \<le> maxEnded"
proof -
  have "model_wf new_ask_model" "kl_values (am_asks new_ask_model) = []"
    by (simp_all add: model_wf_def new_ask_model_def kl_empty_wf kl_values_def kl_len_def) (simp_all add: kl_empty_def fcard.rep_eq)
  with fold_asks_refine [of new_ask_model clock "[]" "snd (run_asks ops reg inc)"] run_tells [of ops reg inc] assms
  show ?thesis by (simp add: ops_ok_const model_wf_def split_beta Let_def times_ok_def cards_def)
qed

theorem client_shows_the_asks_witness:
  "map ca_id (cards (fold_events (fold_ask_event 9) (snd (run_asks card_run 1 ''inc'')) new_ask_model)) =
     [''perm-2'']"
proof -
  have "list_all request_fits card_run"
    by (simp add: card_run_def card_request_def body_fits_def no_body_def)
  from client_shows_the_asks [OF this, of 1 "''inc''" 9] card_view show ?thesis by (simp add: split_beta Let_def)
qed

text \<open>C23. An ask ends exactly once. In every run of the registry, the endings in its events are one per resolved ask
  (\<open>addrs\<close> lists each of them once), each telling what its record holds: its id, kind, outcome, by whom, the answer,
  and its body where no opening was published. No later operation changes the ending of a resolved ask, and none
  closes the channel of an ask twice.\<close>

theorem ask_ends_once:
  "let (r, evs) = run_asks ops reg inc; r2 = fst (run_ops ask_step more_ops r) in
     (\<exists>addrs. distinct addrs \<and> set addrs = done_addrs r \<and> list_all2 (ending_tells r) (endings evs) addrs) \<and>
     (\<forall>a \<in> done_addrs r. same_ending (rg_heap r ! a) (rg_heap r2 ! a)) \<and> \<not> rg_panicked r"
proof -
  let ?r = "fst (run_asks ops reg inc)"
  have inv: "asks_inv ?r" by (rule asks_run_inv)
  have "done_addrs (new_ask_registry reg inc) = {}" by (simp add: done_addrs_def new_ask_registry_def)
  with run_keeps [OF asks_inv_new, of reg inc ops] have "\<exists>addrs. distinct addrs \<and> set addrs = done_addrs ?r \<and>
      list_all2 (ending_tells ?r) (endings (snd (run_asks ops reg inc))) addrs"
    by (simp add: keeps_def resolves_def)
  moreover have "same_ending (rg_heap ?r ! a) (rg_heap (fst (run_ops ask_step more_ops ?r)) ! a)" if "a \<in> done_addrs ?r" for a
    using that run_keeps [OF inv, of more_ops] by (simp add: keeps_def resolves_def frozen_def done_addrs_def)
  moreover have "\<not> rg_panicked ?r" using inv by (simp add: asks_inv_def asks_ex_def books_ex_def)
  ultimately show ?thesis by (simp add: split_beta Let_def)
qed

theorem ask_ends_once_witness:
  "let r = card_registry; r2 = fst (run_ops ask_step [(at_time 5, OpCancelTurn card_token)] r) in
     length (endings (snd (run_asks card_run 1 ''inc''))) = card (done_addrs r) \<and>
     same_ending (rg_heap r ! 0) (rg_heap r2 ! 0)"
proof -
  note once = ask_ends_once [of card_run 1 "''inc''" "[(at_time 5, OpCancelTurn card_token)]", unfolded split_beta Let_def]
  from once obtain addrs where "distinct addrs" "set addrs = done_addrs card_registry"
    "list_all2 (ending_tells card_registry) (endings (snd (run_asks card_run 1 ''inc''))) addrs" by blast
  then have "length (endings (snd (run_asks card_run 1 ''inc''))) = card (done_addrs card_registry)"
    using distinct_card list_all2_lengthD by metis
  moreover have "0 \<in> done_addrs card_registry"
    using arg_cong [OF card_facts(3), of "\<lambda>xs. xs ! 0"] card_facts(2) by (simp add: done_addrs_def)
  ultimately show ?thesis using once unfolding Let_def by blast
qed

text \<open>C22. A turn takes its asks with it. Once a turn of the registry's own was cancelled or has ended, no ask of that
  turn is open, whatever comes after: the ones that were open are resolved, and one that is opened for it later
  is resolved as it is opened, however long ago the turn was (its state may be evicted). After the close no ask is
  open at all. So every waiter of such an ask finds its channel closed.\<close>

theorem turn_takes_its_asks:
  fixes reg :: nat
  assumes "\<not> no_turn t" and "tt_reg t = rg_id (fst (run_asks ops reg inc))" and "tt_n t \<le> rg_turn_seq (fst (run_asks ops reg inc))"
    and "opr \<in> {OpCancelTurn t, OpCancelOwnTurn t, OpEndTurn t}"
  shows "(let r2 = fst (run_ops ask_step ((now, opr) # more_ops) (fst (run_asks ops reg inc))) in
      \<forall>a < length (rg_heap r2). ar_token (entry_rec r2 a) = t \<longrightarrow> en_done (rg_heap r2 ! a)) \<and>
    (let r2 = fst (run_ops ask_step ((now, OpClose) # more_ops) (fst (run_asks ops reg inc))) in
      \<forall>a < length (rg_heap r2). en_done (rg_heap r2 ! a))"
proof -
  let ?r = "fst (run_asks ops reg inc)"
  have inv: "asks_inv ?r" by (rule asks_run_inv)
  let ?step = "\<lambda>opr. fst (ask_step (now, opr) ?r)" and ?fin = "\<lambda>opr. fst (run_ops ask_step ((now, opr) # more_ops) ?r)"
  have run: "?fin opr = fst (run_ops ask_step more_ops (?step opr))" for opr by (simp add: split_beta Let_def)
  have stepped: "asks_inv (?step opr)" for opr using section_keeps [OF inv] by (simp add: keeps_def)
  have ended: "asks_inv (?fin opr)" for opr
    unfolding run using run_keeps [OF stepped] by (simp add: keeps_def)
  have parked: "live_token (?fin opr) (ar_token (entry_rec (?fin opr) a)) \<and> \<not> rg_closed (?fin opr)"
    if "a < length (rg_heap (?fin opr))" "\<not> en_done (rg_heap (?fin opr) ! a)" for a opr
    using ended [of opr] that unfolding asks_inv_def asks_ex_def books_ex_def heap_ok_def live_asks_def by blast
  have own: "\<not> foreign_token ?r t" using assms(1,2) by (simp add: foreign_token_def)
  have "dead_token (?step opr) t"
    using assms(4) turn_deadens [OF inv own assms(1,3)] by auto
  then have "dead_token (?fin opr) t" unfolding run using run_later [OF stepped] by (simp add: later_def)
  from dead_not_live [OF this] parked
  have "\<forall>a < length (rg_heap (?fin opr)). ar_token (entry_rec (?fin opr) a) = t \<longrightarrow> en_done (rg_heap (?fin opr) ! a)"
    by metis
  moreover have "rg_closed (?step OpClose)" using close_closes [OF inv] by simp
  then have "rg_closed (?fin OpClose)"
    using run_later [OF stepped [of OpClose], of more_ops] unfolding run later_def by blast
  with parked have "\<forall>a < length (rg_heap (?fin OpClose)). en_done (rg_heap (?fin OpClose) ! a)" by blast
  ultimately show ?thesis unfolding Let_def by blast
qed

theorem turn_takes_its_asks_witness:
  "let r2 = fst (run_ops ask_step [(at_time 5, OpEndTurn card_token), (at_time 6, OpOpen True card_token card_request)] card_registry) in
     length (rg_heap r2) = 3 \<and> (\<forall>a < length (rg_heap r2). ar_token (entry_rec r2 a) = card_token \<longrightarrow> en_done (rg_heap r2 ! a))"
proof -
  have "rg_id card_registry = 1" by code_simp
  then have hyps: "\<not> no_turn card_token" "tt_reg card_token = rg_id card_registry" "tt_n card_token \<le> rg_turn_seq card_registry"
    using card_facts(1) by (simp_all add: card_token_def no_turn_def)
  have "length (rg_heap (fst (run_ops ask_step [(at_time 5, OpEndTurn card_token), (at_time 6, OpOpen True card_token card_request)] card_registry))) = 3"
    by code_simp
  with turn_takes_its_asks [OF hyps, of "OpEndTurn card_token" "at_time 5" "[(at_time 6, OpOpen True card_token card_request)]"]
  show ?thesis unfolding Let_def by blast
qed

lemma run_snoc: "fst (run_ops ask_step (ops @ [opr]) r) = fst (ask_step opr (fst (run_ops ask_step ops r)))"
  by (induction ops arbitrary: r) (simp_all add: split_beta Let_def)

text \<open>C24. The first valid answer ends an ask, and nothing else does anything: an answer that is accepted names an open
  ask and fits what that ask offered (a permission's option by its id and name or a deliberate cancel, a question's
  answers among the options of its own questions or a skip, exactly one of accept and reject for a plan), the ask is
  resolved by the client with just that answer, one ending is written with the client's cause, and every other
  record stays as it was. A refusal changes nothing and writes nothing, and an answer that does not fit leaves
  the ask open.\<close>

theorem answer_takes_what_was_offered:
  "let r = fst (run_asks ops reg inc) in
   case answer_ask now room cause nm a r of
     (Inr rec, r', evs) \<Rightarrow>
       \<exists>addr label. fmlookup (rg_open r) nm = Some addr \<and> entry_rec r' addr = rec \<and>
         was_offered (ar_kind rec) (ar_body (entry_rec r addr)) a label \<and> ar_answer rec = a \<and>
         ar_status rec = AskResolved \<and>
         ar_by rec = AskByClient \<and> ar_outcome rec = (if aa_cancel a then AskCancelled else AskAnswered) \<and>
         evs = [ending_event now cause label (rg_heap r' ! addr)] \<and> nm |\<notin>| fmdom (rg_open r') \<and>
         (\<forall>b. b = addr \<or> rg_heap r' ! b = rg_heap r ! b)
   | (Inl err, r', evs) \<Rightarrow> r' = r \<and> evs = [] \<and>
       (err \<in> {ErrBadAnswer, ErrAskUnavailable} \<longleftrightarrow> nm |\<in>| fmdom (rg_open r))"
proof -
  let ?r = "fst (run_asks ops reg inc)"
  have ex: "asks_ex {} (\<lambda>_. False) ?r" using asks_run_inv by (simp add: asks_inv_def)
  show ?thesis
  proof (cases "fmlookup (rg_open ?r) nm")
    case None
    then have "nm |\<notin>| fmdom (rg_open ?r)" by (simp add: fmlookup_dom_iff)
    with None show ?thesis by (simp add: answer_ask_def Let_def unknown_locked_def)
  next
    case (Some addr)
    note facts = open_okD [OF asks_exD(1) [OF ex] Some]
    have isopen: "nm |\<in>| fmdom (rg_open ?r)" by (rule fmdomI [OF Some])
    show ?thesis
    proof (cases "validate_answer (ar_kind (entry_rec ?r addr)) (ar_body (entry_rec ?r addr)) a")
      case (Inl err)
      with Some isopen validate_bad [OF Inl] show ?thesis by (simp add: answer_ask_def Let_def)
    next
      case (Inr got)
      obtain ans label where got: "got = (ans, label)" by (cases got)
      note fits = validate_offered [OF Inr [unfolded got]]
      show ?thesis
      proof (cases room)
        case False
        with Some Inr got isopen show ?thesis by (simp add: answer_ask_def Let_def)
      next
        case True
        let ?oc = "if aa_cancel ans then AskCancelled else AskAnswered"
        let ?r' = "retired_reg now addr ?oc AskByClient cause ans label ?r"
        have out: "answer_ask now room cause nm a ?r = (Inr (entry_rec ?r' addr), ?r', [ending_event now cause label (rg_heap ?r' ! addr)])"
          using Some Inr got True facts(1) by (simp add: answer_ask_def Let_def retire_pair ask_simps)
        have "entry_rec ?r' addr = en_rec (resolve_entry now ?oc AskByClient ans (rg_heap ?r ! addr))"
          using facts(1) by (simp add: entry_rec_def ask_simps)
        moreover have "nm |\<notin>| fmdom (rg_open ?r')"
          using Some facts by (simp add: retire_open_fields)
        moreover have "b = addr \<or> rg_heap ?r' ! b = rg_heap ?r ! b" for b by (cases "b = addr") (simp_all add: ask_simps)
        ultimately show ?thesis unfolding Let_def out prod.case sum.case
          using Some fits validate_keeps_answer [OF Inr [unfolded got]] by (intro exI [of _ addr] exI [of _ label]) (simp add: entry_rec_def)
      qed
    qed
  qed
qed

theorem answer_takes_what_was_offered_witness:
  "\<exists>rec r' evs. answer_ask 7 True ''c-1/2'' ''perm-2'' (no_answer\<lparr>aa_option := ''yes''\<rparr>) card_registry = (Inr rec, r', evs) \<and>
     ar_status rec = AskResolved \<and> length evs = 1"
proof -
  have "(case fst (answer_ask 7 True ''c-1/2'' ''perm-2'' (no_answer\<lparr>aa_option := ''yes''\<rparr>) card_registry) of
      Inl _ \<Rightarrow> False | Inr _ \<Rightarrow> True)" by code_simp
  with answer_takes_what_was_offered [where ops = card_run and reg = 1 and inc = "''inc''" and now = 7 and room = True
      and cause = "''c-1/2''" and nm = "''perm-2''" and a = "no_answer\<lparr>aa_option := ''yes''\<rparr>"]
  show ?thesis unfolding Let_def by (auto split: sum.splits prod.splits)
qed

text \<open>C25. An id the registry issued is never unknown: once an operation that adopts no id has opened or recorded an ask,
  an answer to that ask's id is never refused as unknown, however many asks come after and whether or not its
  record is still kept; and an answer is refused as already resolved only for an id some ask was given.
  (The counter stays below the largest number an id may spell.)\<close>

theorem issued_is_never_unknown:
  assumes "mints_only opr"
    and "length (rg_heap (fst (run_asks ops reg inc))) < length (rg_heap (fst (run_asks (ops @ [opr]) reg inc)))"
    and "\<And>h k. counter h (fst (run_asks (ops @ [opr]) reg inc)) k \<le> maxAskNumber"
  shows "let r = fst (run_asks ops reg inc); r1 = fst (run_asks (ops @ [opr]) reg inc);
       nm = ar_id (entry_rec r1 (length (rg_heap r))); r2 = fst (run_ops ask_step more_ops r1) in
     fst (answer_ask now room cause nm a r2) \<noteq> Inl ErrUnknownAsk \<and>
     (fst (answer_ask now room cause nm' a r2) = Inl ErrAlreadyResolved \<longrightarrow> nm' \<in> given_ids r2)"
proof -
  let ?r = "fst (run_asks ops reg inc)" and ?r1 = "fst (run_asks (ops @ [opr]) reg inc)"
  let ?r2 = "fst (run_ops ask_step more_ops ?r1)" and ?nm = "ar_id (entry_rec ?r1 (length (rg_heap ?r)))"
  have r1: "?r1 = fst (ask_step opr ?r)" by (rule run_snoc)
  have "asks_inv ?r1" by (rule asks_run_inv)
  from run_keeps [OF this, of more_ops] have "asks_inv ?r2" by (simp add: keeps_def)
  then have ex: "asks_ex {} (\<lambda>_. False) ?r2" by (simp add: asks_inv_def)
  have "issued_locked ?r2 ?nm"
    unfolding r1 by (rule minted_forever [OF asks_run_inv assms(1)]) (use assms(2,3) r1 in simp_all)
  then have never: "fst (answer_ask now room cause ?nm a ?r2) \<noteq> Inl ErrUnknownAsk"
    using validate_bad by (auto simp: answer_ask_def unknown_locked_def Let_def split: option.splits sum.splits prod.splits)
  have "nm' \<in> given_ids ?r2" if "fst (answer_ask now room cause nm' a ?r2) = Inl ErrAlreadyResolved"
  proof -
    from that have "unknown_locked ?r2 nm' = ErrAlreadyResolved"
      using validate_bad by (fastforce simp: answer_ask_def Let_def split: option.splits sum.splits prod.splits if_splits)
    then consider b where "rg_done ?r2 nm' = Some b" | "issued_locked ?r2 nm'"
      by (auto simp: unknown_locked_def split: if_splits)
    then show ?thesis
    proof cases
      case 1
      with asks_exD(4) [OF ex] have "b < length (rg_heap ?r2)" "ar_id (entry_rec ?r2 b) = nm'" by (auto simp: kept_ok_def)
      then show ?thesis by (auto simp: given_ids_def entry_rec_def intro!: image_eqI [of _ _ "rg_heap ?r2 ! b"])
    next
      case 2
      then obtain num where num: "canonical_id nm' = Some num"
        "an_n num \<le> counter (an_hidden num) ?r2 (an_kind num) \<or> num |\<in>| rg_reserved ?r2"
        by (auto simp: issued_locked_def split: option.splits)
      with ids_butD [OF asks_exD(6) [OF ex], of num] canonical_idD [OF num(1)] show ?thesis by auto
    qed
  qed
  with never show ?thesis unfolding Let_def by blast
qed

theorem issued_is_never_unknown_witness:
  "fst (answer_ask 7 True ''c-1/3'' ''perm-1'' no_answer card_registry) \<noteq> Inl ErrUnknownAsk"
proof -
  let ?ops = "[(at_time 1, OpBeginTurn)] :: (readings \<times> ask_op) list" and ?opr = "(at_time 2, OpOpen True card_token card_request) :: readings \<times> ask_op"
  let ?more = "[(at_time 3, OpOpen True card_token card_request), (at_time 4, OpAnswer True ''c-1/1'' ''perm-1'' (no_answer\<lparr>aa_option := ''yes''\<rparr>))]"
  have heap: "length (rg_heap (fst (run_asks ?ops 1 ''inc''))) = 0" by code_simp
  moreover have "length (rg_heap (fst (run_asks (?ops @ [?opr]) 1 ''inc''))) = 1" by code_simp
  ultimately have grows: "length (rg_heap (fst (run_asks ?ops 1 ''inc''))) < length (rg_heap (fst (run_asks (?ops @ [?opr]) 1 ''inc'')))"
    by simp
  have bound: "counter h (fst (run_asks (?ops @ [?opr]) 1 ''inc'')) k \<le> maxAskNumber" for h k
  proof -
    have "rg_seq (fst (run_asks (?ops @ [?opr]) 1 ''inc'')) k \<le> 1" by code_simp simp
    moreover have "rg_hidden_seq (fst (run_asks (?ops @ [?opr]) 1 ''inc'')) k = 0" by code_simp
    ultimately show ?thesis by (simp add: counter_def maxAskNumber_def)
  qed
  have "mints_only ?opr" by (simp add: card_request_def known_kind_def)
  note never = issued_is_never_unknown [OF this grows bound]
  have "ar_id (entry_rec (fst (run_asks (?ops @ [?opr]) 1 ''inc'')) 0) = ''perm-1''" by code_simp
  moreover have "fst (run_ops ask_step ?more (fst (run_asks (?ops @ [?opr]) 1 ''inc''))) = card_registry"
    by (simp add: card_run_def split_beta Let_def)
  ultimately show ?thesis using never [of ?more 7 True "''c-1/3''" no_answer] unfolding Let_def heap by simp
qed

text \<open>Where every id is the registry's own choice, no two asks of a session ever have the same id, open or long
  resolved, shown or hidden.\<close>

theorem ids_are_unique:
  assumes "list_all mints_only ops"
  shows "distinct (map (\<lambda>e. ar_id (en_rec e)) (rg_heap (fst (run_asks ops reg inc))))"
proof -
  have "minted_ids (new_ask_registry reg inc)" by (simp add: minted_ids_def id_list_def new_ask_registry_def)
  then have "minted_ids (fst (run_asks ops reg inc))" by (rule minting.run_inv) (simp add: ops_ok_const assms)
  then show ?thesis by (simp add: minted_ids_def id_list_def)
qed

theorem ids_are_unique_witness:
  "distinct (map (\<lambda>e. ar_id (en_rec e)) (rg_heap card_registry)) \<and> length (rg_heap card_registry) = 2"
  using ids_are_unique [of card_run 1 "''inc''"] card_facts(2) by (simp add: card_run_def card_request_def known_kind_def AskPermission_def)

text \<open>An id spells its kind, its namespace and its number, and is read back: reading an id gives a number exactly
  when it is that number's spelling and the number is one of a known kind between 1 and 2 to the 62; so perm-007,
  perm-+7 and numbers past the bound are read as names, and no two numbers are spelled alike.\<close>

theorem ask_id_roundtrip:
  "canonical_id nm = Some num \<longleftrightarrow>
     nm = ask_id num \<and> known_kind (an_kind num) \<and> 1 \<le> an_n num \<and> an_n num \<le> 2 ^ 62"
  using canonical_idD [of nm num] canonical_ask_id [of num] by (auto simp: maxAskNumber_def)

text \<open>C26. A waiter is answered: whatever has happened, the wait of an ask that is resolved returns at once and writes
  nothing, and the wait of any ask whose call has ended returns; the record it answers with is resolved, is marked
  as taken, and its ending is the one the ask already had, or else a cancel by the call.\<close>

theorem waiter_is_answered:
  assumes "addr < length (rg_heap (fst (run_asks ops reg inc)))"
    and "en_done (rg_heap (fst (run_asks ops reg inc)) ! addr) \<or> ctx_ended"
  shows "let r = fst (run_asks ops reg inc) in \<exists>rec r' evs. wait_ask now ctx_ended addr r = Some (rec, r', evs) \<and>
     ar_status rec = AskResolved \<and> ar_consumed rec \<and>
     (if en_done (rg_heap r ! addr) then evs = [] \<and> rec = (entry_rec r addr)\<lparr>ar_consumed := True\<rparr>
      else ar_outcome rec = AskCancelled \<and> ar_by rec = AskByCall \<and> length evs = 1)"
proof -
  let ?r = "fst (run_asks ops reg inc)"
  have ex: "asks_ex {} (\<lambda>_. False) ?r" using asks_run_inv by (simp add: asks_inv_def)
  have entry: "(en_done (rg_heap ?r ! addr) \<longleftrightarrow> ar_status (entry_rec ?r addr) = AskResolved) \<and>
      (en_done (rg_heap ?r ! addr) \<or> fmlookup (rg_open ?r) (ar_id (entry_rec ?r addr)) = Some addr)"
    using asks_exD(2) [OF ex] assms(1) unfolding heap_ok_def by blast
  show ?thesis
  proof (cases "en_done (rg_heap ?r ! addr)")
    case True
    with entry assms(1) show ?thesis by (simp add: wait_ask_def wait_take_def Let_def entry_rec_def)
  next
    case False
    with entry have look: "fmlookup (rg_open ?r) (ar_id (entry_rec ?r addr)) = Some addr" by blast
    let ?r1 = "retired_reg now addr AskCancelled AskByCall '''' no_answer '''' ?r"
    have "rg_heap ?r1 ! addr = resolve_entry now AskCancelled AskByCall no_answer (rg_heap ?r ! addr)"
      using assms(1) by (simp add: ask_simps)
    with False look assms show ?thesis
      by (simp add: wait_ask_def cancel_by_call_def retire_pair wait_take_def Let_def entry_rec_def ask_simps)
  qed
qed

theorem waiter_is_answered_witness:
  "\<exists>rec r' evs. wait_ask 7 False 0 card_registry = Some (rec, r', evs) \<and> ar_status rec = AskResolved \<and> evs = []"
proof -
  have hyps: "0 < length (rg_heap card_registry)" "en_done (rg_heap card_registry ! 0) \<or> False"
    using card_facts(2) arg_cong [OF card_facts(3), of "\<lambda>xs. xs ! 0"] by simp_all
  from waiter_is_answered [OF hyps(1), of False 7] hyps show ?thesis unfolding Let_def by auto
qed

end
