(* ===== verification/Spec2Isabelle.thy ===== *)
theory Spec2Isabelle
  imports Prompt_Queue Redact Textdiff Errors Receipts Receipt_Hash Engine_Laws Event_Log_Laws Session_Laws Asks_Laws
begin

text \<open>
  A verification development for craze, a terminal client and engine for coding agents (Go).

  \<^bold>\<open>The program and its parts.\<close> A session of craze is driven by one engine (\<open>internal/engine\<close>). Commands of
  clients reach it through a table of command ids, which makes a resent command harmless; prompts wait in
  its queue (\<open>internal/agent/queue.go\<close>); its driver starts turns on an agent and settles them. Requests an
  agent blocks on go through the ask registry (\<open>internal/agent/asks.go\<close>). Engine, queue and registry tell
  what they did as events, given in batches to the event log (\<open>internal/agent/eventlog.go\<close>), which numbers
  them and hands them to a primary reader, to subscriptions and to a journal. Clients fold the stream into what they show
  (\<open>internal/transcript\<close>). The native harness keeps each session in a file
  (\<open>internal/harness/store\<close>), from which the history of every request is read; what it runs is redacted on
  the way out (\<open>internal/harness/redact\<close>), and edits are shown as diffs (\<open>internal/textdiff\<close>).

  \<^bold>\<open>Theories.\<close> A Go struct is a record with the prefix of its component, a method under a mutex is one function
  from state to state (its result, the state, the events of its batch), an enumeration is a datatype, an error a
  value of a sum, a goroutine a phase.
  \<^item> \<open>Craze_Prelude\<close>: numbers in decimal and the slice operations the components share. \<open>Event_Source\<close>: the
    contracts \<open>op_invariant\<close> (operations keep an invariant) and \<open>event_source\<close> (their events turn the view of
    the state before into the view of the state after), each lifted to every sequence.
  \<^item> \<open>Prompt_Queue\<close>: \<open>queue.go\<close> with the client's \<open>foldQueue\<close> of \<open>internal/transcript/fold.go\<close>.
  \<^item> \<open>Errors\<close>: the classification of errors of \<open>internal/engine/control.go\<close>. \<open>Receipts\<close> and \<open>Receipt_Hash\<close>: the
    table of \<open>internal/engine/receipts.go\<close> with all its callers interleaved, and the bytes a resend is
    compared by.
  \<^item> \<open>Engine\<close>: the state of \<open>engine.go\<close> and its critical sections, with those of \<open>queue.go\<close>, \<open>sendnow.go\<close>,
    \<open>cancel.go\<close>, \<open>exitfence.go\<close>, \<open>closefence.go\<close> and \<open>state.go\<close>. What a section reads from outside (clock, outbox
    room, the agent's answers) is an input of the section, what it does to the outside is recorded.
    \<open>Engine_Client\<close>: its events are its state, and the shape of what a section says. \<open>Engine_Inv\<close>: what a section does to
    the turn and the gates. \<open>Engine_Exit\<close>: the exit fence names the running turn. \<open>Engine_Laws\<close>: the driver's invariant,
    and the properties.
  \<^item> \<open>Event_Ring\<close>, \<open>Event_Sub\<close>, \<open>Event_Log\<close>: the ring of recent records, one subscription with its owner
    goroutine, and the log with its publishers, its outbox and drainer, its subscriptions and its close. One step
    is one hold of a mutex or one channel operation, \<open>None\<close> where the goroutine waits; a list of actions is one
    schedule. \<open>Event_Log_Laws\<close>: the order and completeness of what readers get, the outbox, the close.
  \<^item> \<open>Session_Entry\<close>, \<open>Session_Tree\<close>, \<open>Session_Store\<close>: \<open>entry.go\<close> and \<open>pairing.go\<close>, \<open>transcript.go\<close>, then \<open>store.go\<close>,
    \<open>open.go\<close> and the codec. \<open>Session_Context\<close>, \<open>Session_Load\<close>, \<open>Session_Store_Laws\<close>: what holds of transcripts, of files
    and of stores, also after a crash at any byte. \<open>Session_Laws\<close>: the properties.
  \<^item> \<open>Asks\<close>: \<open>asks.go\<close>, its entries in a heap because handles and maps share them. \<open>Asks_Inv\<close>: its invariant.
    \<open>Keyed_List\<close>: \<open>internal/transcript/keyed.go\<close>. \<open>Asks_Laws\<close>: the properties, and the ask part of the fold.
  \<^item> \<open>Redact\<close>, \<open>Textdiff\<close>: the redactor with its streaming writer, and the line diff.

  \<^bold>\<open>Interfaces.\<close> \<open>op_invariant\<close> and \<open>event_source\<close> are interpreted on the queue, the engine (its client view, the driver's
  invariant, the three fences and the cancel), the event log and the ask registry. \<open>replay_ring\<close> is the contract of the
  ring the log is built on, \<open>keyed_table\<close> that of the keyed list the fold of the asks is built on,
  \<open>stream_matcher\<close> what makes the redactor's held-back bytes enough; each is interpreted on the code's own definitions.

  \<^bold>\<open>What is shown.\<close> Each property stands at the end of its theory behind its number.
  \<^item> The session file (C1 to C9): a crash keeps whole steps, memory is the file, a session that can be resumed opens
    again, every history pairs its calls with their results, reading returns, compactions, frontier and cuts.
  \<^item> The event log (C10 to C12, C27, C28): readers get a slice of it, the close needs no reader, a flush covers what was
    accepted, the outbox keeps its order, the primary is the log.
  \<^item> The engine (C13 to C20): a client shows the engine, no turn is forgotten, turns start only where every gate is open,
    the admission fence, cancels, the verdict of the close fence, refused rows, the exit fence.
  \<^item> The asks (C21 to C26): a client shows the asks, a turn takes its asks along, an ask ends once, an answer was offered,
    an issued id is never unknown, a waiter is answered.
  \<^item> Commands (C29 to C33): run at most once, a resend is replayed or refused, the hash's input is injective.
  \<^item> The diff (C34, C35), the queue (C36), the keyed list (C37) and the redactor (C38 to C40).

  \<^bold>\<open>Bounds and termination.\<close> No definition carries fuel. Loops with a measure are total functions: the ring's evictions, the
  eviction of receipts, the trim of a history, the diff's loops (its work cap is the code's), the mint of an ask's id (the
  reserved numbers not yet passed). The walks of a transcript are partial functions whose \<open>None\<close> is not returning, and
  \<open>reading_returns\<close> shows that on what a file loads to they return. A fresh entry id is drawn at most eight times, the code's own
  bound. Counters and sequence numbers are natural numbers: Go's have 64 bits, and where a bound of the code's own stands against
  them (\<open>maxAskNumber\<close>, the ids a command may carry) it is modelled. Sizes and token counts are unbounded. A clock is an
  input; where one section of the registry reads it more than once, each reading is its own (\<open>readings\<close>).

  \<^bold>\<open>What is a parameter.\<close> JSON and the model library's message codec (\<open>json\<close>, with the laws \<open>json_ok\<close>), the SHA-256 of a receipt,
  the writer under the redactor, and what the journal answers the event log (its flush, its reader, its close).

  \<^bold>\<open>What is not modelled.\<close> The terminal UI, the command line, the control protocol and remote sessions, ACP, hosts and
  the hub: presentation, transport and processes. The harness's turn loop, tools, sub-agents and model adapters, whose effects are
  calls of third-party code, and the sessions' goroutines around them, which the engine's model takes as inputs. Of the event log the codec,
  \<open>Observe\<close>, notes and health; of the transcript's fold the drawn rows; of the engine the settings worker, the index and side
  questions. Error texts, contexts and test hooks are left out throughout, and cloning is the identity.
\<close>

end
